(* ===== verification/Prelude.thy ===== *)
theory Prelude
  imports Main "HOL-Library.Word"
begin

text \<open>
  The shared vocabulary of the development: the fixed-width integer types the C code uses
  (\<open>pb_byte_t\<close>, \<open>uint32_t\<close>, \<open>uint64_t\<close>/\<open>size_t\<close>), the three combinators that render the
  C idiom \<open>if (!f(...)) return false;\<close>, little-endian byte strings, and the word lemmas the
  component theories share.  \<open>byte_simps\<close> collects facts about bytes and words,
  \<open>seq_simps\<close> the unfolding rules of the combinators.
\<close>

unbundle bit_operations_syntax

named_theorems byte_simps \<open>bytes and little-endian words\<close>
named_theorems seq_simps \<open>sequencing of calls that may return false\<close>

type_synonym byte = "8 word"
type_synonym u8 = "8 word"
type_synonym u32 = "32 word"
type_synonym u64 = "64 word"

section \<open>Calls that may return false\<close>

text \<open>
  A C function \<open>bool f(stream, T *dest)\<close> that fills \<open>*dest\<close> only when it returns true is a
  function returning \<open>T option \<times> stream\<close>; \<open>on_ok\<close> goes on with the value, or with the failed
  stream.
\<close>

definition on_ok :: "'a option \<times> 's \<Rightarrow> ('a \<Rightarrow> 's \<Rightarrow> 'r) \<Rightarrow> ('s \<Rightarrow> 'r) \<Rightarrow> 'r" where
  "on_ok r k e = (case r of (None, s) \<Rightarrow> e s | (Some a, s) \<Rightarrow> k a s)"

text \<open>\<open>bool f(stream)\<close>: the status and the new stream.\<close>

definition and_then :: "bool \<times> 's \<Rightarrow> ('s \<Rightarrow> bool \<times> 's) \<Rightarrow> bool \<times> 's" where
  "and_then r k = (if fst r then k (snd r) else (False, snd r))"

text \<open>
  The same for calls that may also have no result: \<open>None\<close> stands for a call that does not return
  (a recursion deeper than the bound, an endless loop) or that is undefined in C.
\<close>

definition and_thenM :: "(bool \<times> 's) option \<Rightarrow> ('s \<Rightarrow> (bool \<times> 's) option) \<Rightarrow> (bool \<times> 's) option" where
  "and_thenM r k = (case r of None \<Rightarrow> None | Some (b, s) \<Rightarrow> if b then k s else Some (False, s))"

lemma on_ok_simps [simp, seq_simps]:
  "on_ok (None, s) k e = e s"
  "on_ok (Some a, s) k e = k a s"
  by (simp_all add: on_ok_def)

lemma on_ok_cong [fundef_cong]:
  assumes "r = r'" "\<And>a s. r' = (Some a, s) \<Longrightarrow> k a s = k' a s" "\<And>s. r' = (None, s) \<Longrightarrow> e s = e' s"
  shows "on_ok r k e = on_ok r' k' e'"
  using assms by (auto simp: on_ok_def split: prod.splits option.splits)

lemma and_then_cong [fundef_cong]:
  assumes "r = r'" "\<And>s. r' = (True, s) \<Longrightarrow> k s = k' s"
  shows "and_then r k = and_then r' k'"
  using assms by (cases r') (auto simp: and_then_def)

lemma and_thenM_cong [fundef_cong]:
  assumes "r = r'" "\<And>s. r' = Some (True, s) \<Longrightarrow> k s = k' s"
  shows "and_thenM r k = and_thenM r' k'"
  using assms by (auto simp: and_thenM_def split: option.splits prod.splits)

lemma on_ok_split:
  "P (on_ok r k e) \<longleftrightarrow>
     (\<forall>s. r = (None, s) \<longrightarrow> P (e s)) \<and> (\<forall>a s. r = (Some a, s) \<longrightarrow> P (k a s))"
  by (cases r; cases "fst r") (auto simp: on_ok_def)

lemma on_ok_split_asm:
  "P (on_ok r k e) \<longleftrightarrow>
     \<not> ((\<exists>s. r = (None, s) \<and> \<not> P (e s)) \<or> (\<exists>a s. r = (Some a, s) \<and> \<not> P (k a s)))"
  by (cases r; cases "fst r") (auto simp: on_ok_def)

lemmas on_ok_splits = on_ok_split on_ok_split_asm

lemma and_then_simps [simp, seq_simps]:
  "and_then (True, s) k = k s"
  "and_then (False, s) k = (False, s)"
  by (simp_all add: and_then_def)

lemma and_then_True_iff:
  "and_then r k = (True, t) \<longleftrightarrow> (\<exists>s. r = (True, s) \<and> k s = (True, t))"
  by (cases r) (auto simp: and_then_def)

lemma and_thenM_simps [simp, seq_simps]:
  "and_thenM None k = None"
  "and_thenM (Some (True, s)) k = k s"
  "and_thenM (Some (False, s)) k = Some (False, s)"
  by (simp_all add: and_thenM_def)

lemma and_thenM_SomeE:
  assumes "and_thenM r k = Some (b, t)"
  obtains (stop) "r = Some (False, t)" "\<not> b" | (go) s where "r = Some (True, s)" "k s = Some (b, t)"
  using assms by (auto simp: and_thenM_def split: option.splits prod.splits if_splits)

lemma and_thenM_True_iff:
  "and_thenM r k = Some (True, t) \<longleftrightarrow> (\<exists>s. r = Some (True, s) \<and> k s = Some (True, t))"
  by (auto simp: and_thenM_def split: option.splits prod.splits if_splits)

section \<open>Little-endian byte strings\<close>

text \<open>The targets of the library (arm64 and x86-64) store integers little-endian.\<close>

primrec of_le :: "byte list \<Rightarrow> nat" where
  "of_le [] = 0"
| "of_le (b # bs) = unat b + 256 * of_le bs"

primrec to_le :: "nat \<Rightarrow> nat \<Rightarrow> byte list" where
  "to_le 0 v = []"
| "to_le (Suc k) v = of_nat v # to_le k (v div 256)"

lemma length_to_le [simp, byte_simps]: "length (to_le k v) = k"
  by (induction k arbitrary: v) simp_all

lemma unat_byte_of_nat [byte_simps]: "unat (of_nat v :: byte) = v mod 256"
  by (simp add: unat_of_nat)

lemma of_le_to_le [byte_simps]: "of_le (to_le k v) = v mod 256 ^ k"
proof (induction k arbitrary: v)
  case (Suc k)
  have "of_le (to_le (Suc k) v) = v mod 256 + 256 * (v div 256 mod 256 ^ k)"
    by (simp add: Suc.IH unat_byte_of_nat)
  also have "\<dots> = v mod (256 * 256 ^ k)" by (simp add: mod_mult2_eq)
  finally show ?case by simp
qed simp

lemma unat_byte_less [simp, byte_simps]: "unat (b :: byte) < 256"
  using unsigned_less [of b, where 'a = nat] by simp

lemma of_le_less: "of_le bs < 256 ^ length bs"
proof (induction bs)
  case (Cons b bs)
  have "unat b + 256 * of_le bs < 256 * Suc (of_le bs)" using unat_byte_less [of b] by simp
  also have "\<dots> \<le> 256 * 256 ^ length bs" using Cons.IH by simp
  finally show ?case by simp
qed simp

lemma to_le_of_le [byte_simps]: "length bs = k \<Longrightarrow> to_le k (of_le bs) = bs"
proof (induction bs arbitrary: k)
  case (Cons b bs)
  have "(of_nat (unat b + 256 * of_le bs) :: byte) = b"
    by (simp add: word_unat_eq_iff unat_of_nat unat_word_ariths)
  moreover have "(unat b + 256 * of_le bs) div 256 = of_le bs"
    using unat_byte_less [of b] by simp
  ultimately show ?case using Cons by auto
qed simp

lemma of_le_eq_0_iff: "of_le bs = 0 \<longleftrightarrow> (\<forall>b \<in> set bs. b = 0)"
  by (induction bs) (auto simp: unat_eq_zero)

lemma of_le_append: "of_le (xs @ ys) = of_le xs + 256 ^ length xs * of_le ys"
  by (induction xs) (simp_all add: algebra_simps)

section \<open>Words\<close>

lemma unat_drop_bit: "unat (drop_bit n (w :: 'a::len word)) = unat w div 2 ^ n"
  by (simp only: unat_drop_bit_eq drop_bit_eq_div [of n "unat w"])

lemma drop_bit_less:
  assumes "0 < n" and "w \<noteq> 0"
  shows "unat (drop_bit n (w :: 'a::len word)) < unat w"
proof -
  have "1 < (2 :: nat) ^ n" using assms(1) by (intro one_less_power) auto
  moreover have "0 < unat w" using assms(2) by (simp add: unat_gt_0)
  ultimately show ?thesis by (simp only: unat_drop_bit div_less_dividend)
qed

lemma unat_take_bit: "unat (take_bit n (w :: 'a::len word)) = unat w mod 2 ^ n"
  by (simp only: unsigned_take_bit_eq take_bit_eq_mod [of n "unat w"])

lemma unat_and_mask: "unat (w AND mask n :: 'a::len word) = unat w mod 2 ^ n"
  by (simp only: unat_take_bit flip: take_bit_eq_mask)

lemma unat_ucast: "unat (ucast (w :: 'a::len word) :: 'b::len word) = unat w mod 2 ^ LENGTH('b)"
  by (simp add: unsigned_ucast_eq take_bit_eq_mod)

lemma unat_less: "unat (w :: 'a::len word) < 2 ^ LENGTH('a)"
  by (rule unsigned_less)

lemma unat_add_less:
  "unat (a :: 'a::len word) + unat b < 2 ^ LENGTH('a) \<Longrightarrow> unat (a + b) = unat a + unat b"
  by (simp add: unat_word_ariths)

lemma word_of_nat_unat [simp]: "of_nat (unat (w :: 'a::len word)) = w"
  by simp

text \<open>An OR with a word shifted past the bits that are set is a sum.\<close>

lemma and_shifted:
  assumes "unat (a :: 'a::len word) < 2 ^ n"
  shows "a AND push_bit n b = 0"
proof (rule bit_eqI)
  fix k
  have "\<not> bit a k" if "n \<le> k"
  proof -
    have "unat a < 2 ^ k" by (rule less_le_trans [OF assms]) (use that in simp)
    then have "\<not> bit (unat a) k" by (simp add: bit_iff_odd)
    then show ?thesis by (simp add: bit_unsigned_iff)
  qed
  then show "bit (a AND push_bit n b) k = bit (0 :: 'a word) k"
    by (auto simp: bit_simps)
qed

lemma or_shifted_add: "unat (a :: 'a::len word) < 2 ^ n \<Longrightarrow> a OR push_bit n b = a + push_bit n b"
  using word_plus_and_or [of a "push_bit n b"] and_shifted [of a n b] by simp

lemma xor_shifted_add:
  assumes "unat (a :: 'a::len word) < 2 ^ n"
  shows "a XOR push_bit n b = a + push_bit n b"
proof -
  have "\<not> (bit a k \<and> bit (push_bit n b) k)" for k
    unfolding bit_and_iff [symmetric] and_shifted [OF assms] by simp
  then have "a XOR push_bit n b = a OR push_bit n b"
    by (intro bit_word_eqI) (auto simp: bit_xor_iff bit_or_iff)
  then show ?thesis by (simp add: or_shifted_add [OF assms])
qed

lemma push_bit_word: "push_bit n (w :: 'a::len word) = of_nat (2 ^ n * unat w)"
  by (simp add: push_bit_eq_mult mult.commute)

lemma unat_of_nat_small: "n < 2 ^ LENGTH('a) \<Longrightarrow> unat (of_nat n :: 'a::len word) = n"
  by (simp add: unat_of_nat)

lemma unat_push_bit:
  assumes "unat (w :: 'a::len word) * 2 ^ n < 2 ^ LENGTH('a)"
  shows "unat (push_bit n w) = unat w * 2 ^ n"
  unfolding push_bit_word mult.commute [of _ "unat w"] using assms by (rule unat_of_nat_small)

section \<open>The continuation bit of a varint byte\<close>

lemma unat_and_7F: "unat ((w :: 'a::len word) AND 0x7F) = unat w mod 128"
  using unat_and_mask [of w 7] by (simp add: mask_eq_exp_minus_1)

lemma byte_top_bit_iff: "(b :: byte) AND 0x80 = 0 \<longleftrightarrow> unat b < 128"
proof -
  have "b AND 0x80 = 0 \<longleftrightarrow> \<not> bit b 7" using and_exp_eq_0_iff_not_bit [of b 7] by simp
  also have "bit b 7 \<longleftrightarrow> bit (unat b) 7" by (simp add: bit_unsigned_iff)
  also have "\<dots> \<longleftrightarrow> odd (unat b div 128)" by (simp add: bit_iff_odd)
  also have "\<dots> \<longleftrightarrow> \<not> unat b < 128"
  proof -
    have "unat b div 128 = (if unat b < 128 then 0 else 1)"
      using unat_byte_less [of b] by (auto intro: div_nat_eqI)
    then show ?thesis by simp
  qed
  finally show ?thesis by simp
qed

lemma byte_and_7F: "(b :: byte) AND 0x7F = of_nat (unat b mod 128)"
  by (simp add: word_unat_eq_iff unat_and_7F unat_of_nat)

lemma byte_or_80: "((b :: byte) AND 0x7F) OR 0x80 = of_nat (unat b mod 128 + 128)"
proof -
  have "(b AND 0x7F) AND 0x80 = 0" by (simp add: and.assoc)
  then have "(b AND 0x7F) OR 0x80 = (b AND 0x7F) + 0x80"
    using word_plus_and_or [of "b AND 0x7F" "0x80"] by simp
  then show ?thesis by (simp add: byte_and_7F)
qed

lemma byte_or_80_and_7F: "((b :: byte) OR 0x80) AND 0x7F = b AND 0x7F"
  by (simp add: bit.conj_disj_distrib2)

lemma ucast_and_7F: "(ucast (v AND 0x7F) :: byte) = ucast (v :: u64) AND 0x7F"
  by (simp add: unsigned_and_eq)

lemma unat_ucast_byte: "unat (ucast (v :: u64) :: byte) = unat v mod 256"
  by (simp add: unat_ucast)

lemma low_byte: "(ucast (drop_bit k (v :: 'a::len word) AND 0xFF) :: byte) = of_nat (unat v div 2 ^ k)"
proof -
  have "unat (drop_bit k v AND 0xFF) = unat v div 2 ^ k mod 256"
    using unat_and_mask [of "drop_bit k v" 8] by (simp add: mask_eq_exp_minus_1 unat_drop_bit)
  then show ?thesis by (simp add: word_unat_eq_iff unat_ucast unat_of_nat)
qed

lemma to_le_Suc2: "to_le (Suc (Suc k)) n = of_nat n # of_nat (n div 256) # to_le k (n div 65536)"
  by (simp add: div_mult2_eq [symmetric])

lemma numeral_Sucs: "(4 :: nat) = Suc (Suc (Suc (Suc 0)))" "(8 :: nat) = Suc (Suc (Suc (Suc (Suc (Suc (Suc (Suc 0)))))))"
  by simp_all

end
