(* ===== verification/CMem.thy ===== *)
theory CMem
  imports Prelude
begin

text \<open>
  The C memory the message structures live in: a flat, byte-addressed memory, the heap blocks
  obtained from \<open>pb_realloc\<close>, and the primitive accesses the code makes (loads and stores of
  integers, pointers and booleans, \<open>memset\<close>, \<open>memcpy\<close>, \<open>realloc\<close>, \<open>free\<close>).  Addresses are natural
  numbers, \<open>0\<close> is \<open>NULL\<close>; \<open>sizeof(void*) = 8\<close>, \<open>sizeof(pb_size_t) = 4\<close>, \<open>sizeof(bool) = 1\<close>.

  Which address \<open>realloc\<close> returns is the C library's choice: an \<open>allocator\<close> is a parameter that maps
  the live blocks, the old pointer and the requested size to an address, \<open>0\<close> when the request
  fails.  \<open>heap_fault\<close> is set, and stays set, once a pointer that is not a live block is passed to
  \<open>pb_free\<close> or \<open>pb_realloc\<close>.
\<close>

section \<open>State\<close>

record cmem =
  mbytes :: "nat \<Rightarrow> byte"
  blocks :: "nat \<rightharpoonup> nat"
  heap_fault :: bool

type_synonym allocator = "(nat \<rightharpoonup> nat) \<Rightarrow> nat \<Rightarrow> nat \<Rightarrow> nat"

definition load_bytes :: "cmem \<Rightarrow> nat \<Rightarrow> nat \<Rightarrow> byte list" where
  "load_bytes m a n = map (\<lambda>i. mbytes m (a + i)) [0..<n]"

definition store_bytes :: "cmem \<Rightarrow> nat \<Rightarrow> byte list \<Rightarrow> cmem" where
  "store_bytes m a bs =
     m\<lparr>mbytes := (\<lambda>x. if a \<le> x \<and> x < a + length bs then bs ! (x - a) else mbytes m x)\<rparr>"

definition load_word :: "cmem \<Rightarrow> nat \<Rightarrow> 'a::len word" where
  "load_word m a = of_nat (of_le (load_bytes m a (LENGTH('a) div 8)))"

definition store_word :: "cmem \<Rightarrow> nat \<Rightarrow> 'a::len word \<Rightarrow> cmem" where
  "store_word m a w = store_bytes m a (to_le (LENGTH('a) div 8) (unat w))"

definition sizeof_ptr :: nat where
  "sizeof_ptr = 8"

definition load_ptr :: "cmem \<Rightarrow> nat \<Rightarrow> nat" where
  "load_ptr m a = of_le (load_bytes m a sizeof_ptr)"

definition store_ptr :: "cmem \<Rightarrow> nat \<Rightarrow> nat \<Rightarrow> cmem" where
  "store_ptr m a p = store_bytes m a (to_le sizeof_ptr p)"

definition store_bool :: "cmem \<Rightarrow> nat \<Rightarrow> bool \<Rightarrow> cmem" where
  "store_bool m a b = store_bytes m a [if b then 1 else 0]"

definition memset_zero :: "cmem \<Rightarrow> nat \<Rightarrow> nat \<Rightarrow> cmem" where
  "memset_zero m a n = store_bytes m a (replicate n 0)"

text \<open>\<open>(char*)p + off\<close> for a signed 32-bit offset.\<close>

definition ptr_offset :: "nat \<Rightarrow> u32 \<Rightarrow> nat" where
  "ptr_offset a off = nat (int a + sint off)"

text \<open>What is done through the pointer \<open>p\<close>: undefined, \<open>None\<close>, for \<open>NULL\<close>.\<close>

definition deref :: "nat \<Rightarrow> 'r option \<Rightarrow> 'r option" where
  "deref p r = (if p = 0 then None else r)"

section \<open>The heap\<close>

text \<open>
  \<open>realloc(ptr, size)\<close>: on failure the old block stays; on success the new block holds the common
  prefix of the old one, which is gone (unless the library grew it in place).
\<close>

definition pb_realloc :: "allocator \<Rightarrow> nat \<Rightarrow> nat \<Rightarrow> cmem \<Rightarrow> nat \<times> cmem" where
  "pb_realloc al ptr sz m =
     (if ptr \<noteq> 0 \<and> blocks m ptr = None then (0, m\<lparr>heap_fault := True\<rparr>)
      else let p = al (blocks m) ptr sz in
        if p = 0 then (0, m)
        else let old = (if ptr = 0 then [] else load_bytes m ptr (min sz (the (blocks m ptr)))) in
          (p, store_bytes (m\<lparr>blocks := (blocks m)(ptr := None, p := Some sz)\<rparr>) p old))"

definition pb_free :: "nat \<Rightarrow> cmem \<Rightarrow> cmem" where
  "pb_free ptr m =
     (if ptr = 0 then m
      else if blocks m ptr = None then m\<lparr>heap_fault := True\<rparr>
      else m\<lparr>blocks := (blocks m)(ptr := None)\<rparr>)"

section \<open>Loads after stores\<close>

lemma length_load_bytes [simp]: "length (load_bytes m a n) = n"
  by (simp add: load_bytes_def)

lemma load_bytes_0 [simp]: "load_bytes m a 0 = []"
  by (simp add: load_bytes_def)

lemma nth_load_bytes: "i < n \<Longrightarrow> load_bytes m a n ! i = mbytes m (a + i)"
  by (simp add: load_bytes_def)

lemma store_bytes_fields [simp]:
  "blocks (store_bytes m a bs) = blocks m"
  "heap_fault (store_bytes m a bs) = heap_fault m"
  by (simp_all add: store_bytes_def)

lemma mbytes_store_bytes:
  "mbytes (store_bytes m a bs) x =
     (if a \<le> x \<and> x < a + length bs then bs ! (x - a) else mbytes m x)"
  by (simp add: store_bytes_def)

lemma load_store_same: "length bs = n \<Longrightarrow> load_bytes (store_bytes m a bs) a n = bs"
  by (rule nth_equalityI) (auto simp: nth_load_bytes mbytes_store_bytes)

lemma load_store_other:
  assumes "a + n \<le> b \<or> b + length bs \<le> a"
  shows "load_bytes (store_bytes m b bs) a n = load_bytes m a n"
  using assms by (intro nth_equalityI) (auto simp: nth_load_bytes mbytes_store_bytes)

lemma load_bytes_cong:
  "(\<And>x. a \<le> x \<Longrightarrow> x < a + n \<Longrightarrow> mbytes m x = mbytes m' x) \<Longrightarrow> load_bytes m a n = load_bytes m' a n"
  by (simp add: load_bytes_def)

lemma load_bytes_add: "load_bytes m a (k + n) = load_bytes m a k @ load_bytes m (a + k) n"
  by (rule nth_equalityI) (auto simp: nth_load_bytes nth_append)

text \<open>The accesses write nothing outside the bytes they name.\<close>

lemma mbytes_store_outside [simp]:
  "x < a \<or> a + length bs \<le> x \<Longrightarrow> mbytes (store_bytes m a bs) x = mbytes m x"
  by (auto simp: mbytes_store_bytes)

lemma load_word_cong:
  "(\<And>x. a \<le> x \<Longrightarrow> x < a + LENGTH('a::len) div 8 \<Longrightarrow> mbytes m x = mbytes m' x) \<Longrightarrow>
     (load_word m a :: 'a word) = load_word m' a"
  unfolding load_word_def using load_bytes_cong [of a "LENGTH('a) div 8" m m'] by simp

lemma load_store_word_gen:
  assumes "8 * (LENGTH('a::len) div 8) = LENGTH('a)"
  shows "load_word (store_word m a (w :: 'a word)) a = w"
proof -
  have "(256 :: nat) ^ (LENGTH('a) div 8) = 2 ^ LENGTH('a)"
    using assms power_mult [of "2::nat" 8 "LENGTH('a) div 8"] by simp
  then show ?thesis
    by (simp add: load_word_def store_word_def load_store_same of_le_to_le)
qed

lemma load_store_word [simp]:
  "load_word (store_word m a (w :: 8 word)) a = w"
  "load_word (store_word m a (x :: 16 word)) a = x"
  "load_word (store_word m a (y :: 32 word)) a = y"
  "load_word (store_word m a (z :: 64 word)) a = z"
  by (rule load_store_word_gen, simp)+

lemma load_store_ptr: "p < 2 ^ 64 \<Longrightarrow> load_ptr (store_ptr m a p) a = p"
  by (simp add: load_ptr_def store_ptr_def load_store_same of_le_to_le sizeof_ptr_def)

lemma load_ptr_less: "load_ptr m a < 2 ^ 64"
  using of_le_less [of "load_bytes m a sizeof_ptr"] by (simp add: load_ptr_def sizeof_ptr_def)

lemma store_fields [simp]:
  "blocks (store_word m a w) = blocks m" "heap_fault (store_word m a w) = heap_fault m"
  "blocks (store_ptr m a p) = blocks m" "heap_fault (store_ptr m a p) = heap_fault m"
  "blocks (store_bool m a b) = blocks m" "heap_fault (store_bool m a b) = heap_fault m"
  "blocks (memset_zero m a n) = blocks m" "heap_fault (memset_zero m a n) = heap_fault m"
  by (simp_all add: store_word_def store_ptr_def store_bool_def memset_zero_def)

section \<open>Footprints\<close>

text \<open>
  \<open>only_writes F m m'\<close>: the memories agree on every byte outside the set \<open>F\<close> of addresses, and the
  heap blocks are the same.  The store primitives, and sequences of them, satisfy it.
\<close>

definition only_writes :: "nat set \<Rightarrow> cmem \<Rightarrow> cmem \<Rightarrow> bool" where
  "only_writes F m m' \<longleftrightarrow>
     (\<forall>x. x \<notin> F \<longrightarrow> mbytes m' x = mbytes m x) \<and> blocks m' = blocks m \<and> heap_fault m' = heap_fault m"

lemma only_writes_refl [simp, intro]: "only_writes F m m"
  by (simp add: only_writes_def)

lemma only_writes_trans [trans]:
  "only_writes F m m' \<Longrightarrow> only_writes F m' m'' \<Longrightarrow> only_writes F m m''"
  by (simp add: only_writes_def)

lemma only_writes_mono: "only_writes F m m' \<Longrightarrow> F \<subseteq> G \<Longrightarrow> only_writes G m m'"
  by (auto simp: only_writes_def)

lemma only_writes_store_bytes:
  "{a ..< a + length bs} \<subseteq> F \<Longrightarrow> only_writes F m (store_bytes m a bs)"
  by (auto simp: only_writes_def mbytes_store_bytes)

lemma only_writes_store:
  "{a ..< a + LENGTH('a::len) div 8} \<subseteq> F \<Longrightarrow> only_writes F m (store_word m a (w :: 'a word))"
  "{a ..< a + sizeof_ptr} \<subseteq> F \<Longrightarrow> only_writes F m (store_ptr m a p)"
  "a \<in> F \<Longrightarrow> only_writes F m (store_bool m a b)"
  "{a ..< a + n} \<subseteq> F \<Longrightarrow> only_writes F m (memset_zero m a n)"
  by (simp_all add: store_word_def store_ptr_def store_bool_def memset_zero_def only_writes_store_bytes)

end
