(* ===== verification/PbTypes.thy ===== *)
theory PbTypes
  imports CMem
begin

text \<open>
  The declarations of \<open>pb.h\<close> (nanopb 0.3.9.8, built with \<open>PB_FIELD_32BIT\<close>, \<open>PB_NO_PACKED_STRUCTS\<close> and
  \<open>PB_ENABLE_MALLOC\<close>, as \<open>nanopb.xcconfig\<close> sets them): the field types, the field descriptor
  \<open>pb_field_t\<close>, wire types, and the macros that build descriptors from a struct declaration.  A
  descriptor array is the list of the fields before its \<open>PB_LAST_FIELD\<close>; \<open>field_at\<close> reads one
  entry, the terminator included.  Submessage descriptors are held inside the field (\<open>Ptr_fields\<close>),
  so a descriptor is a finite tree.
\<close>

section \<open>Field types\<close>

type_synonym pb_type_t = u8
type_synonym pb_size_t = u32
type_synonym pb_ssize_t = u32
type_synonym pb_byte_t = byte

abbreviation (input) PB_LTYPE_BOOL :: pb_type_t where "PB_LTYPE_BOOL \<equiv> 0x00"
abbreviation (input) PB_LTYPE_VARINT :: pb_type_t where "PB_LTYPE_VARINT \<equiv> 0x01"
abbreviation (input) PB_LTYPE_UVARINT :: pb_type_t where "PB_LTYPE_UVARINT \<equiv> 0x02"
abbreviation (input) PB_LTYPE_SVARINT :: pb_type_t where "PB_LTYPE_SVARINT \<equiv> 0x03"
abbreviation (input) PB_LTYPE_FIXED32 :: pb_type_t where "PB_LTYPE_FIXED32 \<equiv> 0x04"
abbreviation (input) PB_LTYPE_FIXED64 :: pb_type_t where "PB_LTYPE_FIXED64 \<equiv> 0x05"
abbreviation (input) PB_LTYPE_LAST_PACKABLE :: pb_type_t where "PB_LTYPE_LAST_PACKABLE \<equiv> 0x05"
abbreviation (input) PB_LTYPE_BYTES :: pb_type_t where "PB_LTYPE_BYTES \<equiv> 0x06"
abbreviation (input) PB_LTYPE_STRING :: pb_type_t where "PB_LTYPE_STRING \<equiv> 0x07"
abbreviation (input) PB_LTYPE_SUBMESSAGE :: pb_type_t where "PB_LTYPE_SUBMESSAGE \<equiv> 0x08"
abbreviation (input) PB_LTYPE_EXTENSION :: pb_type_t where "PB_LTYPE_EXTENSION \<equiv> 0x09"
abbreviation (input) PB_LTYPE_FIXED_LENGTH_BYTES :: pb_type_t where "PB_LTYPE_FIXED_LENGTH_BYTES \<equiv> 0x0A"
abbreviation (input) PB_LTYPE_MASK :: pb_type_t where "PB_LTYPE_MASK \<equiv> 0x0F"

abbreviation (input) PB_HTYPE_REQUIRED :: pb_type_t where "PB_HTYPE_REQUIRED \<equiv> 0x00"
abbreviation (input) PB_HTYPE_OPTIONAL :: pb_type_t where "PB_HTYPE_OPTIONAL \<equiv> 0x10"
abbreviation (input) PB_HTYPE_REPEATED :: pb_type_t where "PB_HTYPE_REPEATED \<equiv> 0x20"
abbreviation (input) PB_HTYPE_ONEOF :: pb_type_t where "PB_HTYPE_ONEOF \<equiv> 0x30"
abbreviation (input) PB_HTYPE_MASK :: pb_type_t where "PB_HTYPE_MASK \<equiv> 0x30"

abbreviation (input) PB_ATYPE_STATIC :: pb_type_t where "PB_ATYPE_STATIC \<equiv> 0x00"
abbreviation (input) PB_ATYPE_POINTER :: pb_type_t where "PB_ATYPE_POINTER \<equiv> 0x80"
abbreviation (input) PB_ATYPE_CALLBACK :: pb_type_t where "PB_ATYPE_CALLBACK \<equiv> 0x40"
abbreviation (input) PB_ATYPE_MASK :: pb_type_t where "PB_ATYPE_MASK \<equiv> 0xC0"

definition PB_ATYPE :: "pb_type_t \<Rightarrow> pb_type_t" where
  "PB_ATYPE x = x AND PB_ATYPE_MASK"

definition PB_HTYPE :: "pb_type_t \<Rightarrow> pb_type_t" where
  "PB_HTYPE x = x AND PB_HTYPE_MASK"

definition PB_LTYPE :: "pb_type_t \<Rightarrow> pb_type_t" where
  "PB_LTYPE x = x AND PB_LTYPE_MASK"

abbreviation (input) PB_SIZE_MAX :: pb_size_t where "PB_SIZE_MAX \<equiv> - 1"

definition PB_MAX_REQUIRED_FIELDS :: nat where
  "PB_MAX_REQUIRED_FIELDS = 64"

section \<open>Descriptors\<close>

datatype pb_field_t =
  Pb_field (f_tag: pb_size_t) (f_type: pb_type_t) (f_data_offset: pb_size_t)
    (f_size_offset: pb_ssize_t) (f_data_size: pb_size_t) (f_array_size: pb_size_t)
    (f_ptr: pb_field_ptr)
and pb_field_ptr =
  Ptr_NULL | Ptr_fields "pb_field_t list" | Ptr_default "byte list"

definition PB_LAST_FIELD :: pb_field_t where
  "PB_LAST_FIELD = Pb_field 0 0 0 0 0 0 Ptr_NULL"

definition field_at :: "pb_field_t list \<Rightarrow> nat \<Rightarrow> pb_field_t" where
  "field_at fs i = (if i < length fs then fs ! i else PB_LAST_FIELD)"

text \<open>
  \<open>(const pb_field_t*)field->ptr\<close>, for a submessage field: \<open>None\<close> when the pointer is \<open>NULL\<close> or does
  not point to descriptors, where reading through it is undefined.
\<close>

definition ptr_fields :: "pb_field_ptr \<Rightarrow> pb_field_t list option" where
  "ptr_fields p = (case p of Ptr_fields fs \<Rightarrow> Some fs | _ \<Rightarrow> None)"

abbreviation (input) offsetof_bytes :: nat where "offsetof_bytes \<equiv> 4"

definition PB_BYTES_ARRAY_T_ALLOCSIZE :: "u64 \<Rightarrow> u64" where
  "PB_BYTES_ARRAY_T_ALLOCSIZE n = n + of_nat offsetof_bytes"

text \<open>
  \<open>pb_callback_t\<close> (function pointer, then \<open>arg\<close>) and \<open>pb_extension_t\<close> (\<open>type\<close>, \<open>dest\<close>, \<open>next\<close>, \<open>found\<close>)
  lie in the C memory; these are their member offsets.
\<close>

abbreviation (input) callback_funcs_offset :: nat where "callback_funcs_offset \<equiv> 0"
abbreviation (input) callback_arg_offset :: nat where "callback_arg_offset \<equiv> 8"

definition ext_type :: "cmem \<Rightarrow> nat \<Rightarrow> nat" where "ext_type m e = load_ptr m e"
definition ext_dest :: "nat \<Rightarrow> nat" where "ext_dest e = e + 8"
definition ext_next :: "cmem \<Rightarrow> nat \<Rightarrow> nat" where "ext_next m e = load_ptr m (e + 16)"
definition ext_found :: "nat \<Rightarrow> nat" where "ext_found e = e + 24"

section \<open>Wire types\<close>

type_synonym pb_wire_type_t = u32

abbreviation (input) PB_WT_VARINT :: pb_wire_type_t where "PB_WT_VARINT \<equiv> 0"
abbreviation (input) PB_WT_64BIT :: pb_wire_type_t where "PB_WT_64BIT \<equiv> 1"
abbreviation (input) PB_WT_STRING :: pb_wire_type_t where "PB_WT_STRING \<equiv> 2"
abbreviation (input) PB_WT_32BIT :: pb_wire_type_t where "PB_WT_32BIT \<equiv> 5"

section \<open>Error messages\<close>

definition PB_SET_ERROR :: "string option \<Rightarrow> string \<Rightarrow> string option" where
  "PB_SET_ERROR errmsg msg = (case errmsg of None \<Rightarrow> Some msg | Some e \<Rightarrow> Some e)"

definition PB_GET_ERROR :: "string option \<Rightarrow> string" where
  "PB_GET_ERROR errmsg = (case errmsg of None \<Rightarrow> ''(none)'' | Some e \<Rightarrow> e)"

lemma PB_SET_ERROR_first: "PB_SET_ERROR None msg = Some msg"
  by (simp add: PB_SET_ERROR_def)

lemma PB_SET_ERROR_keeps: "PB_SET_ERROR (Some e) msg = Some e"
  by (simp add: PB_SET_ERROR_def)

lemmas PB_SET_ERROR_simps [simp] = PB_SET_ERROR_first PB_SET_ERROR_keeps

section \<open>Facts about the type byte\<close>

lemma PB_LTYPE_le: "PB_LTYPE t \<le> PB_LTYPE_MASK"
  by (simp add: PB_LTYPE_def word_and_le1)

text \<open>The high type has four values.\<close>

lemma PB_HTYPE_values: "PB_HTYPE t \<in> {PB_HTYPE_REQUIRED, PB_HTYPE_OPTIONAL, PB_HTYPE_REPEATED, PB_HTYPE_ONEOF}"
proof -
  have "list_all (\<lambda>n. PB_HTYPE (of_nat n) \<in> set [PB_HTYPE_REQUIRED, PB_HTYPE_OPTIONAL, PB_HTYPE_REPEATED, PB_HTYPE_ONEOF])
      [0..<256]"
    by code_simp
  moreover have "unat t \<in> set [0..<256]" using unat_less [of t] by simp
  ultimately have "PB_HTYPE (of_nat (unat t)) \<in>
      set [PB_HTYPE_REQUIRED, PB_HTYPE_OPTIONAL, PB_HTYPE_REPEATED, PB_HTYPE_ONEOF]"
    unfolding list_all_iff by blast
  then show ?thesis by simp
qed

lemma PB_HTYPE_cases [case_names required optional repeated oneof]:
  obtains "PB_HTYPE t = PB_HTYPE_REQUIRED" | "PB_HTYPE t = PB_HTYPE_OPTIONAL"
    | "PB_HTYPE t = PB_HTYPE_REPEATED" | "PB_HTYPE t = PB_HTYPE_ONEOF"
  using PB_HTYPE_values [of t] by blast

text \<open>The nesting depth of a descriptor array: how deep submessages can be nested in it.\<close>

fun field_depth :: "pb_field_t \<Rightarrow> nat" and ptr_depth :: "pb_field_ptr \<Rightarrow> nat" where
  "field_depth (Pb_field tag ty doff soff ds asz p) = ptr_depth p"
| "ptr_depth Ptr_NULL = 0"
| "ptr_depth (Ptr_default bs) = 0"
| "ptr_depth (Ptr_fields fs) = Suc (fold max (map field_depth fs) 0)"

definition fields_depth :: "pb_field_t list \<Rightarrow> nat" where
  "fields_depth fs = Suc (fold max (map field_depth fs) 0)"

end
