(* ===== verification/PbCommon.thy ===== *)
theory PbCommon
  imports PbTypes
begin

text \<open>
  The field iterator of \<open>pb_common.c\<close>: it walks a descriptor array and, beside it, the message
  structure, computing the address of each field and of its has/count/which member from the
  relative offsets the descriptors hold.  The theory shows that the iterator visits every field
  once, in order, at the address the descriptors define (\<open>iter_at\<close>), wraps around to its start,
  and that \<open>pb_field_iter_find\<close> finds a field exactly when one with the tag exists.
\<close>

section \<open>The iterator\<close>

record pb_field_iter_t =
  iter_start :: "pb_field_t list"
  iter_pos :: nat
  required_field_index :: nat
  dest_struct :: nat
  pData :: nat
  pSize :: nat

definition iter_field :: "pb_field_iter_t \<Rightarrow> pb_field_t" where
  "iter_field it = field_at (iter_start it) (iter_pos it)"

definition pb_field_iter_begin :: "pb_field_t list \<Rightarrow> nat \<Rightarrow> bool \<times> pb_field_iter_t" where
  "pb_field_iter_begin fs dest =
     (let f = field_at fs 0;
          pd = dest + unat (f_data_offset f)
      in (f_tag f \<noteq> 0,
          \<lparr>iter_start = fs, iter_pos = 0, required_field_index = 0, dest_struct = dest,
           pData = pd, pSize = ptr_offset pd (f_size_offset f)\<rparr>))"

text \<open>How far \<open>pData\<close> moves past the previous field: \<open>prev_size\<close>.\<close>

definition prev_field_size :: "pb_field_t \<Rightarrow> nat" where
  "prev_field_size prev =
     (if PB_ATYPE (f_type prev) = PB_ATYPE_STATIC \<and> PB_HTYPE (f_type prev) = PB_HTYPE_REPEATED
      then unat (f_data_size prev) * unat (f_array_size prev)
      else if PB_ATYPE (f_type prev) = PB_ATYPE_POINTER then sizeof_ptr
      else unat (f_data_size prev))"

definition pb_field_iter_next :: "pb_field_iter_t \<Rightarrow> bool \<times> pb_field_iter_t" where
  "pb_field_iter_next it =
     (let prev = iter_field it in
      if f_tag prev = 0 then (False, it)
      else
        let it1 = it\<lparr>iter_pos := Suc (iter_pos it)\<rparr>; f = iter_field it1 in
        if f_tag f = 0
        then (False, snd (pb_field_iter_begin (iter_start it) (dest_struct it)))
        else if PB_HTYPE (f_type prev) = PB_HTYPE_ONEOF \<and> PB_HTYPE (f_type f) = PB_HTYPE_ONEOF
                \<and> f_data_offset f = PB_SIZE_MAX
        then (True, it1)
        else
          let pd = pData it + prev_field_size prev + unat (f_data_offset f) in
          (True, it1\<lparr>required_field_index :=
                        (if PB_HTYPE (f_type prev) = PB_HTYPE_REQUIRED
                         then Suc (required_field_index it) else required_field_index it),
                     pData := pd, pSize := ptr_offset pd (f_size_offset f)\<rparr>))"

text \<open>
  The search stops when the iterator is back at the position it started from; the first argument
  bounds the number of steps, one per field of the array (and one for an empty array).
\<close>

fun pb_field_iter_find_loop :: "nat \<Rightarrow> nat \<Rightarrow> u32 \<Rightarrow> pb_field_iter_t \<Rightarrow> bool \<times> pb_field_iter_t" where
  "pb_field_iter_find_loop 0 start tag it = (False, it)"
| "pb_field_iter_find_loop (Suc n) start tag it =
     (if f_tag (iter_field it) = tag \<and> PB_LTYPE (f_type (iter_field it)) \<noteq> PB_LTYPE_EXTENSION
      then (True, it)
      else let it' = snd (pb_field_iter_next it) in
        if iter_pos it' \<noteq> start then pb_field_iter_find_loop n start tag it' else (False, it'))"

definition pb_field_iter_find :: "pb_field_iter_t \<Rightarrow> u32 \<Rightarrow> bool \<times> pb_field_iter_t" where
  "pb_field_iter_find it tag =
     pb_field_iter_find_loop (Suc (length (iter_start it))) (iter_pos it) tag it"

text \<open>The loop \<open>do { body } while (pb_field_iter_next(&iter));\<close>, for a body that may stop it.\<close>

lemma iter_start_begin [simp]: "iter_start (snd (pb_field_iter_begin fs dest)) = fs"
  by (simp add: pb_field_iter_begin_def Let_def)

lemma iter_pos_begin [simp]: "iter_pos (snd (pb_field_iter_begin fs dest)) = 0"
  by (simp add: pb_field_iter_begin_def Let_def)

lemma dest_struct_begin [simp]: "dest_struct (snd (pb_field_iter_begin fs dest)) = dest"
  by (simp add: pb_field_iter_begin_def Let_def)

lemma iter_start_next [simp]: "iter_start (snd (pb_field_iter_next it)) = iter_start it"
  by (simp add: pb_field_iter_next_def Let_def)

lemma pb_field_iter_next_True:
  assumes "pb_field_iter_next it = (True, it')"
  shows "iter_start it' = iter_start it" "iter_pos it' = Suc (iter_pos it)"
    "dest_struct it' = dest_struct it" "iter_pos it' < length (iter_start it)"
    "f_tag (iter_field it') \<noteq> 0"
proof -
  have *: "iter_start it' = iter_start it \<and> iter_pos it' = Suc (iter_pos it) \<and>
      dest_struct it' = dest_struct it \<and> f_tag (iter_field it') \<noteq> 0"
    using assms by (auto simp: pb_field_iter_next_def iter_field_def Let_def split: if_splits)
  then have "f_tag (field_at (iter_start it) (Suc (iter_pos it))) \<noteq> 0"
    by (auto simp: iter_field_def)
  then have "Suc (iter_pos it) < length (iter_start it)"
    by (auto simp: field_at_def PB_LAST_FIELD_def split: if_splits)
  with * show "iter_start it' = iter_start it" "iter_pos it' = Suc (iter_pos it)"
    "dest_struct it' = dest_struct it" "iter_pos it' < length (iter_start it)"
    "f_tag (iter_field it') \<noteq> 0"
    by simp_all
qed

lemma iter_next_measure:
  "(True, it') = pb_field_iter_next it \<Longrightarrow>
     length (iter_start it') - iter_pos it' < length (iter_start it) - iter_pos it"
  using pb_field_iter_next_True(1,2,4) [OF sym, of it' it] by simp

function iter_do_while ::
  "(pb_field_iter_t \<Rightarrow> 's \<Rightarrow> (bool \<times> 's) option) \<Rightarrow> pb_field_iter_t \<Rightarrow> 's \<Rightarrow> (bool \<times> 's) option" where
  "iter_do_while body it s =
     and_thenM (body it s)
       (\<lambda>s'. case pb_field_iter_next it of
          (True, it') \<Rightarrow> iter_do_while body it' s'
        | (False, it') \<Rightarrow> Some (True, s'))"
  by pat_completeness auto
termination
  by (relation "measure (\<lambda>(body, it, s). length (iter_start it) - iter_pos it)")
    (auto simp: iter_next_measure)

declare iter_do_while.simps [simp del]

section \<open>Where the iterator is\<close>

text \<open>
  The specification: the number of fields of an array, the address of the \<open>k\<close>-th field's data and
  of its has/count/which member, and the iterator standing at it.  Members of one union share
  their address (\<open>shares_union\<close>).
\<close>

definition nfields :: "pb_field_t list \<Rightarrow> nat" where
  "nfields fs = length (takeWhile (\<lambda>f. f_tag f \<noteq> 0) fs)"

definition shares_union :: "pb_field_t \<Rightarrow> pb_field_t \<Rightarrow> bool" where
  "shares_union prev f \<longleftrightarrow> PB_HTYPE (f_type prev) = PB_HTYPE_ONEOF \<and>
     PB_HTYPE (f_type f) = PB_HTYPE_ONEOF \<and> f_data_offset f = PB_SIZE_MAX"

primrec field_addr :: "pb_field_t list \<Rightarrow> nat \<Rightarrow> nat \<Rightarrow> nat" where
  "field_addr fs dest 0 = dest + unat (f_data_offset (field_at fs 0))"
| "field_addr fs dest (Suc k) =
     (if shares_union (field_at fs k) (field_at fs (Suc k)) then field_addr fs dest k
      else field_addr fs dest k + prev_field_size (field_at fs k)
             + unat (f_data_offset (field_at fs (Suc k))))"

primrec size_addr :: "pb_field_t list \<Rightarrow> nat \<Rightarrow> nat \<Rightarrow> nat" where
  "size_addr fs dest 0 = ptr_offset (field_addr fs dest 0) (f_size_offset (field_at fs 0))"
| "size_addr fs dest (Suc k) =
     (if shares_union (field_at fs k) (field_at fs (Suc k)) then size_addr fs dest k
      else ptr_offset (field_addr fs dest (Suc k)) (f_size_offset (field_at fs (Suc k))))"

definition is_required :: "pb_field_t \<Rightarrow> bool" where
  "is_required f \<longleftrightarrow> PB_HTYPE (f_type f) = PB_HTYPE_REQUIRED"

definition required_before :: "pb_field_t list \<Rightarrow> nat \<Rightarrow> nat" where
  "required_before fs k = length (filter is_required (map (field_at fs) [0..<k]))"

definition iter_at :: "pb_field_t list \<Rightarrow> nat \<Rightarrow> nat \<Rightarrow> pb_field_iter_t" where
  "iter_at fs dest k =
     \<lparr>iter_start = fs, iter_pos = k, required_field_index = required_before fs k,
      dest_struct = dest, pData = field_addr fs dest k, pSize = size_addr fs dest k\<rparr>"

lemma nfields_le: "nfields fs \<le> length fs"
  by (simp add: nfields_def length_takeWhile_le)

lemma tag_before_nfields:
  assumes "k < nfields fs"
  shows "f_tag (field_at fs k) \<noteq> 0"
proof -
  from assms have "takeWhile (\<lambda>f. f_tag f \<noteq> 0) fs ! k = fs ! k"
    by (simp add: nfields_def takeWhile_nth)
  then have "fs ! k \<in> set (takeWhile (\<lambda>f. f_tag f \<noteq> 0) fs)"
    using assms nth_mem [of k "takeWhile (\<lambda>f. f_tag f \<noteq> 0) fs"] by (simp add: nfields_def)
  then have "f_tag (fs ! k) \<noteq> 0" by (rule set_takeWhileD [THEN conjunct2])
  then show ?thesis using assms nfields_le [of fs] by (simp add: field_at_def)
qed

lemma tag_at_nfields: "f_tag (field_at fs (nfields fs)) = 0"
  using nth_length_takeWhile [of "\<lambda>f. f_tag f \<noteq> 0" fs]
  by (auto simp: nfields_def field_at_def PB_LAST_FIELD_def)

lemma nfields_pos_iff: "0 < nfields fs \<longleftrightarrow> f_tag (field_at fs 0) \<noteq> 0"
  using tag_before_nfields [of 0 fs] tag_at_nfields [of fs] by (cases "nfields fs") auto

lemma Suc_nfields_iff:
  "k < nfields fs \<Longrightarrow> Suc k < nfields fs \<longleftrightarrow> f_tag (field_at fs (Suc k)) \<noteq> 0"
  using tag_before_nfields [of "Suc k" fs] tag_at_nfields [of fs]
  by (cases "Suc k = nfields fs") auto

lemma iter_at_fields [simp]:
  "iter_start (iter_at fs dest k) = fs" "iter_pos (iter_at fs dest k) = k"
  "dest_struct (iter_at fs dest k) = dest" "pData (iter_at fs dest k) = field_addr fs dest k"
  "pSize (iter_at fs dest k) = size_addr fs dest k"
  "required_field_index (iter_at fs dest k) = required_before fs k"
  "iter_field (iter_at fs dest k) = field_at fs k"
  by (simp_all add: iter_at_def iter_field_def)

lemma required_before_Suc:
  "required_before fs (Suc k) =
     (if is_required (field_at fs k) then Suc (required_before fs k) else required_before fs k)"
  by (simp add: required_before_def)

lemma begin_iter_at: "pb_field_iter_begin fs dest = (0 < nfields fs, iter_at fs dest 0)"
  by (simp add: pb_field_iter_begin_def Let_def iter_at_def nfields_pos_iff required_before_def)

lemma next_iter_at:
  assumes "k < nfields fs"
  shows "pb_field_iter_next (iter_at fs dest k) =
     (if Suc k < nfields fs then (True, iter_at fs dest (Suc k)) else (False, iter_at fs dest 0))"
proof -
  have "f_tag (field_at fs k) \<noteq> 0" using assms by (rule tag_before_nfields)
  moreover have "PB_HTYPE (f_type (field_at fs k)) = PB_HTYPE_ONEOF \<Longrightarrow> \<not> is_required (field_at fs k)"
    by (simp add: is_required_def)
  ultimately show ?thesis
    using Suc_nfields_iff [OF assms]
    by (auto simp: pb_field_iter_next_def Let_def begin_iter_at iter_field_def iter_at_def
        shares_union_def required_before_Suc is_required_def)
qed

lemma next_iter_at_empty:
  "nfields fs = 0 \<Longrightarrow> pb_field_iter_next (iter_at fs dest 0) = (False, iter_at fs dest 0)"
  using nfields_pos_iff [of fs] by (simp add: pb_field_iter_next_def Let_def)

section \<open>Loops over all fields\<close>

primrec seqM :: "('a \<Rightarrow> 's \<Rightarrow> (bool \<times> 's) option) \<Rightarrow> 'a list \<Rightarrow> 's \<Rightarrow> (bool \<times> 's) option" where
  "seqM body [] s = Some (True, s)"
| "seqM body (x # xs) s = and_thenM (body x s) (seqM body xs)"

lemma iter_do_while_iter_at:
  assumes "k < nfields fs"
  shows "iter_do_while body (iter_at fs dest k) s =
    seqM body (map (iter_at fs dest) [k ..< nfields fs]) s"
  using assms
proof (induction "nfields fs - k" arbitrary: k s)
  case (Suc n)
  show ?case
  proof (cases "Suc k < nfields fs")
    case True
    have ih: "iter_do_while body (iter_at fs dest (Suc k)) s' =
        seqM body (map (iter_at fs dest) [Suc k ..< nfields fs]) s'" for s'
      using True Suc.hyps by (intro Suc.hyps(1)) simp_all
    have "map (iter_at fs dest) [k ..< nfields fs] =
        iter_at fs dest k # map (iter_at fs dest) [Suc k ..< nfields fs]"
      using Suc.prems by (simp add: upt_conv_Cons)
    then show ?thesis
      using True Suc.prems by (subst iter_do_while.simps) (simp only: next_iter_at ih seqM.simps if_True prod.case bool.case)
  next
    case False
    then have "[k ..< nfields fs] = [k]" using Suc.prems by (simp add: upt_conv_Cons)
    with False Suc.prems show ?thesis
      by (subst iter_do_while.simps) (auto simp: next_iter_at and_thenM_def split: option.splits)
  qed
qed simp

lemma iter_do_while_all:
  "0 < nfields fs \<Longrightarrow> iter_do_while body (iter_at fs dest 0) s =
    seqM body (map (iter_at fs dest) [0 ..< nfields fs]) s"
  by (rule iter_do_while_iter_at)

section \<open>Finding a field\<close>

definition field_matches :: "u32 \<Rightarrow> pb_field_t \<Rightarrow> bool" where
  "field_matches tag f \<longleftrightarrow> f_tag f = tag \<and> PB_LTYPE (f_type f) \<noteq> PB_LTYPE_EXTENSION"

text \<open>The fields visited from position \<open>j\<close> on by a search that started at \<open>k\<close>.\<close>

definition visited :: "nat \<Rightarrow> nat \<Rightarrow> nat \<Rightarrow> nat set" where
  "visited n k j = (if j < k then {j ..< k} else {j ..< n} \<union> {0 ..< k})"

lemma find_loop_iter_at:
  assumes "k < nfields fs" "j < nfields fs" "card (visited (nfields fs) k j) \<le> fuel"
  shows "(\<exists>i \<in> visited (nfields fs) k j. field_matches tag (field_at fs i) \<and>
            pb_field_iter_find_loop fuel k tag (iter_at fs dest j) = (True, iter_at fs dest i)) \<or>
         ((\<forall>i \<in> visited (nfields fs) k j. \<not> field_matches tag (field_at fs i)) \<and>
            pb_field_iter_find_loop fuel k tag (iter_at fs dest j) = (False, iter_at fs dest k))"
  using assms
proof (induction fuel arbitrary: j)
  case 0
  then have "card (visited (nfields fs) k j) = 0" by simp
  moreover have "finite (visited (nfields fs) k j)" by (simp add: visited_def)
  moreover have "j \<in> visited (nfields fs) k j" using 0(1,2) by (auto simp: visited_def)
  ultimately show ?case by auto
next
  case (Suc fuel)
  let ?n = "nfields fs"
  have j: "j \<in> visited ?n k j" using Suc.prems(1,2) by (auto simp: visited_def)
  define j' where "j' = (if Suc j < ?n then Suc j else 0)"
  have nxt: "snd (pb_field_iter_next (iter_at fs dest j)) = iter_at fs dest j'"
    using Suc.prems(2) by (simp add: next_iter_at j'_def)
  have j'n: "j' < ?n" using Suc.prems(2) by (auto simp: j'_def)
  consider (found) "field_matches tag (field_at fs j)"
    | (stop) "\<not> field_matches tag (field_at fs j)" "j' = k"
    | (go) "\<not> field_matches tag (field_at fs j)" "j' \<noteq> k" by blast
  then show ?case
  proof cases
    case found
    then show ?thesis using j by (auto simp: field_matches_def)
  next
    case stop
    then have "visited ?n k j = {j}"
      using Suc.prems by (auto simp: visited_def j'_def split: if_splits)
    then show ?thesis using stop nxt by (auto simp: field_matches_def)
  next
    case go
    have v: "visited ?n k j = insert j (visited ?n k j')" and nj: "j \<notin> visited ?n k j'"
      using go(2) Suc.prems(1,2) by (auto simp: visited_def j'_def split: if_splits)
    have "finite (visited ?n k j')" by (simp add: visited_def)
    with v nj Suc.prems(3) have "card (visited ?n k j') \<le> fuel" by simp
    from Suc.IH [OF Suc.prems(1) j'n this] go nxt show ?thesis
      by (auto simp: v field_matches_def)
  qed
qed

lemma visited_self: "k < n \<Longrightarrow> visited n k k = {0 ..< n}"
  by (auto simp: visited_def)

lemma find_iter_at_cases:
  assumes "k < nfields fs"
  shows "(\<exists>i < nfields fs. field_matches tag (field_at fs i) \<and>
            pb_field_iter_find (iter_at fs dest k) tag = (True, iter_at fs dest i)) \<or>
         ((\<forall>i < nfields fs. \<not> field_matches tag (field_at fs i)) \<and>
            pb_field_iter_find (iter_at fs dest k) tag = (False, iter_at fs dest k))"
  using find_loop_iter_at [OF assms assms, of "Suc (length fs)" tag dest] nfields_le [of fs]
  by (auto simp: visited_self assms pb_field_iter_find_def)

end
