(* ===== verification/Varint.thy ===== *)
theory Varint
  imports Prelude
begin

text \<open>
  Base-128 varints as byte strings, the reference both libraries are measured against: nanopb's
  \<open>pb_encode_varint\<close> and \<open>pb_decode_varint\<close>, and leveldb's \<open>EncodeVarint32\<close>, \<open>EncodeVarint64\<close> and
  \<open>GetVarint32Ptr\<close>, \<open>GetVarint64Ptr\<close>.
\<close>

section \<open>The representation\<close>

text \<open>The base-128 representation a varint stands for: low groups first, top bit set on all but the last.\<close>

function varint_bytes :: "nat \<Rightarrow> byte list" where
  "varint_bytes n =
     (if n < 128 then [of_nat n] else of_nat (n mod 128 + 128) # varint_bytes (n div 128))"
  by pat_completeness auto
termination
  by (relation "measure id") auto

declare varint_bytes.simps [simp del]

lemma varint_bytes_small: "n < 128 \<Longrightarrow> varint_bytes n = [of_nat n]"
  by (simp add: varint_bytes.simps [of n])

lemma varint_bytes_step: "128 \<le> n \<Longrightarrow> varint_bytes n = of_nat (n mod 128 + 128) # varint_bytes (n div 128)"
  by (simp add: varint_bytes.simps [of n])

lemma varint_bytes_nonempty [simp]: "varint_bytes n \<noteq> []"
  by (subst varint_bytes.simps) simp

lemma length_varint_bytes_le: "0 < k \<Longrightarrow> n < 128 ^ k \<Longrightarrow> length (varint_bytes n) \<le> k"
proof (induction k arbitrary: n)
  case (Suc k)
  show ?case
  proof (cases "n < 128")
    case False
    then have "0 < k" using Suc.prems by (cases k) auto
    moreover have "n div 128 < 128 ^ k" using Suc.prems(2) by (simp add: less_mult_imp_div_less mult.commute)
    ultimately show ?thesis using False Suc.IH by (simp add: varint_bytes_step)
  qed (simp add: varint_bytes_small)
qed simp

lemma length_varint_bytes_u64: "length (varint_bytes (unat (v :: u64))) \<le> 10"
proof (rule length_varint_bytes_le)
  have "unat v < 2 ^ 64" using unat_less [of v] by simp
  also have "(2 :: nat) ^ 64 \<le> 128 ^ 10" by simp
  finally show "unat v < 128 ^ 10" .
qed simp

section \<open>Groups of seven bits\<close>

lemma of_nat_split:
  "(of_nat n :: 'a::len word) = of_nat (n mod 2 ^ k) OR push_bit k (of_nat (n div 2 ^ k))"
proof -
  have "n = take_bit k n OR push_bit k (drop_bit k n)"
    by (rule bit_eqI) (auto simp: bit_simps not_less, metis le_add_diff_inverse not_less)
  also have "\<dots> = n mod 2 ^ k OR push_bit k (n div 2 ^ k)"
    by (simp only: take_bit_eq_mod drop_bit_eq_div)
  finally have "(of_nat n :: 'a word) = of_nat (n mod 2 ^ k OR push_bit k (n div 2 ^ k))" by simp
  then show ?thesis by (simp only: of_nat_or_eq of_nat_push_bit)
qed

lemma of_nat_split7:
  "(of_nat n :: 'a::len word) = of_nat (n mod 128) OR push_bit 7 (of_nat (n div 128))"
  using of_nat_split [of n 7] by simp

lemma cont_byte:
  "(of_nat (n mod 128 + 128) :: byte) AND 0x80 \<noteq> 0"
  "ucast ((of_nat (n mod 128 + 128) :: byte) AND 0x7F) = (of_nat (n mod 128) :: 'a::len word)"
proof -
  have u: "unat (of_nat (n mod 128 + 128) :: byte) = n mod 128 + 128"
    by (rule unat_of_nat_small) simp
  show "(of_nat (n mod 128 + 128) :: byte) AND 0x80 \<noteq> 0" using u by (simp add: byte_top_bit_iff)
  have "unat ((of_nat (n mod 128 + 128) :: byte) AND 0x7F) = n mod 128"
    by (simp only: unat_and_7F u) simp
  then show "ucast ((of_nat (n mod 128 + 128) :: byte) AND 0x7F) = (of_nat (n mod 128) :: 'a word)"
    by (metis of_nat_unat)
qed

lemma last_byte:
  assumes "n < 128"
  shows "(of_nat n :: byte) AND 0x80 = 0" "ucast ((of_nat n :: byte) AND 0x7F) = (of_nat n :: 'a::len word)"
    "ucast (of_nat n :: byte) = (of_nat n :: 'a::len word)"
proof -
  have u: "unat (of_nat n :: byte) = n" using assms by (intro unat_of_nat_small) simp
  show "(of_nat n :: byte) AND 0x80 = 0" using u assms by (simp add: byte_top_bit_iff)
  have "unat ((of_nat n :: byte) AND 0x7F) = n" using assms by (simp add: unat_and_7F u)
  then show "ucast ((of_nat n :: byte) AND 0x7F) = (of_nat n :: 'a word)" by (metis of_nat_unat)
  show "ucast (of_nat n :: byte) = (of_nat n :: 'a word)" using u by (metis of_nat_unat)
qed

end
