(* ===== verification/PbOStream.thy ===== *)
theory PbOStream
  imports PbCommon Varint
begin

text \<open>
  Output streams (\<open>pb_encode.h\<close>, and the stream and helper functions of \<open>pb_encode.c\<close>): \<open>pb_write\<close> and
  the functions that write varints, zigzag varints, fixed-width integers, tags and strings.

  A stream's \<open>callback\<close>/\<open>state\<close> pair is one value: \<open>Out_null\<close> for \<open>callback == NULL\<close> (a sizing
  stream), \<open>Out_buf w\<close> for \<open>buf_write\<close> with the bytes \<open>w\<close> in the buffer so far, \<open>Out_user u\<close> for a
  user callback with its state.  The user's code is a parameter, the record \<open>enc_env\<close>.
\<close>

section \<open>Streams\<close>

datatype 'v out_sink = is_Out_null: Out_null | is_Out_buf: Out_buf "byte list" | is_Out_user: Out_user 'v

record 'v pb_ostream_t =
  osink :: "'v out_sink"
  max_size :: u64
  bytes_written :: u64
  oerrmsg :: "string option"

text \<open>
  Code outside the library that the encoder calls: the stream callback, the callbacks of callback
  fields (by function pointer), the \<open>encode\<close> member of an extension type (by the type's address;
  \<open>None\<close> for \<open>NULL\<close>) and the field descriptor an extension type's \<open>arg\<close> points to.
\<close>

record 'v enc_env =
  user_write :: "'v \<Rightarrow> byte list \<Rightarrow> bool \<times> 'v"
  enc_callback :: "nat \<Rightarrow> 'v pb_ostream_t \<Rightarrow> pb_field_t \<Rightarrow> nat \<Rightarrow> cmem \<Rightarrow> bool \<times> 'v pb_ostream_t"
  ext_encode :: "nat \<Rightarrow> ('v pb_ostream_t \<Rightarrow> nat \<Rightarrow> cmem \<Rightarrow> bool \<times> 'v pb_ostream_t) option"
  enc_ext_arg :: "nat \<Rightarrow> pb_field_t"

definition PB_OSTREAM_SIZING :: "'v pb_ostream_t" where
  "PB_OSTREAM_SIZING = \<lparr>osink = Out_null, max_size = 0, bytes_written = 0, oerrmsg = None\<rparr>"

definition buf_write :: "byte list \<Rightarrow> byte list \<Rightarrow> byte list" where
  "buf_write dest buf = dest @ buf"

definition pb_ostream_from_buffer :: "u64 \<Rightarrow> 'v pb_ostream_t" where
  "pb_ostream_from_buffer bufsize =
     \<lparr>osink = Out_buf [], max_size = bufsize, bytes_written = 0, oerrmsg = None\<rparr>"

definition ostream_error :: "'v pb_ostream_t \<Rightarrow> string \<Rightarrow> bool \<times> 'v pb_ostream_t" where
  "ostream_error s msg = (False, s\<lparr>oerrmsg := PB_SET_ERROR (oerrmsg s) msg\<rparr>)"

text \<open>\<open>stream->callback(stream, buf, count)\<close>, for a callback that is not \<open>NULL\<close>.\<close>

definition call_ostream :: "'v enc_env \<Rightarrow> 'v pb_ostream_t \<Rightarrow> byte list \<Rightarrow> bool \<times> 'v pb_ostream_t" where
  "call_ostream env s buf =
     (case osink s of
        Out_null \<Rightarrow> (True, s)
      | Out_buf dest \<Rightarrow> (True, s\<lparr>osink := Out_buf (buf_write dest buf)\<rparr>)
      | Out_user u \<Rightarrow> (case user_write env u buf of (ok, u') \<Rightarrow> (ok, s\<lparr>osink := Out_user u'\<rparr>)))"

definition pb_write ::
  "'v enc_env \<Rightarrow> 'v pb_ostream_t \<Rightarrow> byte list \<Rightarrow> u64 \<Rightarrow> bool \<times> 'v pb_ostream_t" where
  "pb_write env s buf count =
     (if count > 0 \<and> \<not> is_Out_null (osink s) then
        if bytes_written s + count < bytes_written s \<or> bytes_written s + count > max_size s
        then ostream_error s ''stream full''
        else case call_ostream env s (take (unat count) buf) of
            (False, s') \<Rightarrow> ostream_error s' ''io error''
          | (True, s') \<Rightarrow> (True, s'\<lparr>bytes_written := bytes_written s' + count\<rparr>)
      else (True, s\<lparr>bytes_written := bytes_written s + count\<rparr>))"

section \<open>Integers\<close>

text \<open>The loop \<open>while (value) { buffer[i] = (value & 0x7F) | 0x80; value >>= 7; i++; }\<close>.\<close>

function varint_loop :: "u64 \<Rightarrow> byte list" where
  "varint_loop v =
     (if v = 0 then [] else (ucast (v AND 0x7F) OR 0x80) # varint_loop (drop_bit 7 v))"
  by pat_completeness auto
termination
  by (relation "measure unat") (simp_all add: drop_bit_less)

declare varint_loop.simps [simp del]

text \<open>\<open>buffer[i-1] &= 0x7F\<close>.\<close>

definition clear_last_top_bit :: "byte list \<Rightarrow> byte list" where
  "clear_last_top_bit buffer = buffer[length buffer - 1 := (buffer ! (length buffer - 1)) AND 0x7F]"

definition pb_encode_varint ::
  "'v enc_env \<Rightarrow> 'v pb_ostream_t \<Rightarrow> u64 \<Rightarrow> bool \<times> 'v pb_ostream_t" where
  "pb_encode_varint env s v =
     (if v \<le> 0x7F then pb_write env s [ucast v] 1
      else let buffer = clear_last_top_bit (varint_loop v)
           in pb_write env s buffer (of_nat (length buffer)))"

definition pb_encode_svarint ::
  "'v enc_env \<Rightarrow> 'v pb_ostream_t \<Rightarrow> u64 \<Rightarrow> bool \<times> 'v pb_ostream_t" where
  "pb_encode_svarint env s v =
     (let zigzagged = (if sint v < 0 then NOT (push_bit 1 v) else push_bit 1 v)
      in pb_encode_varint env s zigzagged)"

definition fixed32_bytes :: "u32 \<Rightarrow> byte list" where
  "fixed32_bytes val =
     [ucast (val AND 0xFF), ucast (drop_bit 8 val AND 0xFF),
      ucast (drop_bit 16 val AND 0xFF), ucast (drop_bit 24 val AND 0xFF)]"

definition pb_encode_fixed32 ::
  "'v enc_env \<Rightarrow> 'v pb_ostream_t \<Rightarrow> u32 \<Rightarrow> bool \<times> 'v pb_ostream_t" where
  "pb_encode_fixed32 env s val = pb_write env s (fixed32_bytes val) 4"

definition fixed64_bytes :: "u64 \<Rightarrow> byte list" where
  "fixed64_bytes val =
     [ucast (val AND 0xFF), ucast (drop_bit 8 val AND 0xFF),
      ucast (drop_bit 16 val AND 0xFF), ucast (drop_bit 24 val AND 0xFF),
      ucast (drop_bit 32 val AND 0xFF), ucast (drop_bit 40 val AND 0xFF),
      ucast (drop_bit 48 val AND 0xFF), ucast (drop_bit 56 val AND 0xFF)]"

definition pb_encode_fixed64 ::
  "'v enc_env \<Rightarrow> 'v pb_ostream_t \<Rightarrow> u64 \<Rightarrow> bool \<times> 'v pb_ostream_t" where
  "pb_encode_fixed64 env s val = pb_write env s (fixed64_bytes val) 8"

definition tag_word :: "pb_wire_type_t \<Rightarrow> u32 \<Rightarrow> u64" where
  "tag_word wiretype field_number = push_bit 3 (ucast field_number) OR ucast wiretype"

definition pb_encode_tag ::
  "'v enc_env \<Rightarrow> 'v pb_ostream_t \<Rightarrow> pb_wire_type_t \<Rightarrow> u32 \<Rightarrow> bool \<times> 'v pb_ostream_t" where
  "pb_encode_tag env s wiretype field_number = pb_encode_varint env s (tag_word wiretype field_number)"

definition wire_type_of_ltype :: "pb_type_t \<Rightarrow> pb_wire_type_t option" where
  "wire_type_of_ltype lt =
     (if lt \<in> {PB_LTYPE_BOOL, PB_LTYPE_VARINT, PB_LTYPE_UVARINT, PB_LTYPE_SVARINT} then Some PB_WT_VARINT
      else if lt = PB_LTYPE_FIXED32 then Some PB_WT_32BIT
      else if lt = PB_LTYPE_FIXED64 then Some PB_WT_64BIT
      else if lt \<in> {PB_LTYPE_BYTES, PB_LTYPE_STRING, PB_LTYPE_SUBMESSAGE, PB_LTYPE_FIXED_LENGTH_BYTES}
      then Some PB_WT_STRING
      else None)"

definition pb_encode_tag_for_field ::
  "'v enc_env \<Rightarrow> 'v pb_ostream_t \<Rightarrow> pb_field_t \<Rightarrow> bool \<times> 'v pb_ostream_t" where
  "pb_encode_tag_for_field env s field =
     (case wire_type_of_ltype (PB_LTYPE (f_type field)) of
        Some wiretype \<Rightarrow> pb_encode_tag env s wiretype (f_tag field)
      | None \<Rightarrow> ostream_error s ''invalid field type'')"

definition pb_encode_string ::
  "'v enc_env \<Rightarrow> 'v pb_ostream_t \<Rightarrow> byte list \<Rightarrow> u64 \<Rightarrow> bool \<times> 'v pb_ostream_t" where
  "pb_encode_string env s buffer sz =
     and_then (pb_encode_varint env s sz) (\<lambda>s. pb_write env s buffer sz)"

section \<open>What a write does\<close>

text \<open>The stream after \<open>bs\<close> has gone through.\<close>

definition advance :: "'v pb_ostream_t \<Rightarrow> byte list \<Rightarrow> 'v pb_ostream_t" where
  "advance s bs =
     s\<lparr>osink := (case osink s of Out_buf w \<Rightarrow> Out_buf (w @ bs) | x \<Rightarrow> x),
       bytes_written := bytes_written s + of_nat (length bs)\<rparr>"

definition fits :: "'v pb_ostream_t \<Rightarrow> byte list \<Rightarrow> bool" where
  "fits s bs \<longleftrightarrow> is_Out_null (osink s) \<or> unat (bytes_written s) + length bs \<le> unat (max_size s)"

text \<open>
  The contract of everything that encodes to a stream.  A call \<open>emits\<close> the bytes \<open>bs\<close> if, on a
  sizing or buffer stream with no error yet, it appends exactly \<open>bs\<close> when they fit, and otherwise
  fails with ''stream full'' after a proper prefix of \<open>bs\<close>, never past \<open>max_size\<close>.
\<close>

definition emit_spec :: "'v pb_ostream_t \<Rightarrow> byte list \<Rightarrow> (bool \<times> 'v pb_ostream_t) option \<Rightarrow> bool" where
  "emit_spec s bs r \<longleftrightarrow>
     (if fits s bs then r = Some (True, advance s bs)
      else \<exists>k < length bs. fits s (take k bs) \<and>
             r = Some (False, (advance s (take k bs))\<lparr>oerrmsg := Some ''stream full''\<rparr>))"

definition plain_stream :: "'v pb_ostream_t \<Rightarrow> bool" where
  "plain_stream s \<longleftrightarrow> (case osink s of Out_null \<Rightarrow> True
     | Out_buf w \<Rightarrow> unat (bytes_written s) \<le> unat (max_size s) | Out_user u \<Rightarrow> False) \<and> oerrmsg s = None"

definition emits :: "('v pb_ostream_t \<Rightarrow> (bool \<times> 'v pb_ostream_t) option) \<Rightarrow> byte list \<Rightarrow> bool" where
  "emits F bs \<longleftrightarrow> (\<forall>s. plain_stream s \<longrightarrow> unat (bytes_written s) + length bs < 2 ^ 64 \<longrightarrow>
     emit_spec s bs (F s))"

lemma advance_fields [simp]:
  "max_size (advance s bs) = max_size s" "oerrmsg (advance s bs) = oerrmsg s"
  "bytes_written (advance s bs) = bytes_written s + of_nat (length bs)"
  "is_Out_null (osink (advance s bs)) = is_Out_null (osink s)"
  by (auto simp: advance_def split: out_sink.splits)

lemma advance_Nil [simp]: "advance s [] = s"
  by (simp add: advance_def split: out_sink.splits)

lemma advance_append: "advance s (xs @ ys) = advance (advance s xs) ys"
  by (auto simp: advance_def add.assoc split: out_sink.splits)

lemma unat_bytes_written_advance:
  "unat (bytes_written s) + length bs < 2 ^ 64 \<Longrightarrow>
     unat (bytes_written (advance s bs)) = unat (bytes_written s) + length bs"
  by (simp add: unat_word_ariths unat_of_nat)

lemma fits_Nil: "plain_stream s \<Longrightarrow> fits s []"
  by (auto simp: plain_stream_def fits_def split: out_sink.splits)

lemma fits_append:
  "unat (bytes_written s) + length (xs @ ys) < 2 ^ 64 \<Longrightarrow>
     fits s (xs @ ys) \<longleftrightarrow> fits s xs \<and> fits (advance s xs) ys"
  using unat_bytes_written_advance [of s xs] by (auto simp: fits_def)

lemma plain_advance:
  "plain_stream s \<Longrightarrow> unat (bytes_written s) + length bs < 2 ^ 64 \<Longrightarrow> fits s bs \<Longrightarrow>
     plain_stream (advance s bs)"
  using unat_bytes_written_advance [of s bs]
  by (auto simp: plain_stream_def fits_def advance_def split: out_sink.splits)

lemma emit_specD_fits: "emit_spec s bs r \<Longrightarrow> fits s bs \<Longrightarrow> r = Some (True, advance s bs)"
  by (simp add: emit_spec_def)

lemma emitsD:
  "emits F bs \<Longrightarrow> plain_stream s \<Longrightarrow> unat (bytes_written s) + length bs < 2 ^ 64 \<Longrightarrow> emit_spec s bs (F s)"
  by (simp add: emits_def)

lemma emitsI:
  "(\<And>s. plain_stream s \<Longrightarrow> unat (bytes_written s) + length bs < 2 ^ 64 \<Longrightarrow> emit_spec s bs (F s)) \<Longrightarrow>
     emits F bs"
  by (simp add: emits_def)

lemma emits_Nil: "emits (\<lambda>s. Some (True, s)) []"
  by (simp add: emits_def emit_spec_def fits_Nil)

lemma emits_seq:
  assumes F: "emits F xs" and G: "emits G ys"
  shows "emits (\<lambda>s. and_thenM (F s) G) (xs @ ys)"
proof (rule emitsI)
  fix s :: "'a pb_ostream_t"
  assume s: "plain_stream s" and len: "unat (bytes_written s) + length (xs @ ys) < 2 ^ 64"
  then have lx: "unat (bytes_written s) + length xs < 2 ^ 64" by simp
  note Fs = emitsD [OF F s lx]
  show "emit_spec s (xs @ ys) (and_thenM (F s) G)"
  proof (cases "fits s xs")
    case fx: True
    from Fs fx have eq: "and_thenM (F s) G = G (advance s xs)" by (simp add: emit_spec_def)
    have "plain_stream (advance s xs)" using s lx fx by (rule plain_advance)
    moreover have "unat (bytes_written (advance s xs)) + length ys < 2 ^ 64"
      using len unat_bytes_written_advance [OF lx] by simp
    ultimately have Gs: "emit_spec (advance s xs) ys (G (advance s xs))" by (rule emitsD [OF G])
    show ?thesis
    proof (cases "fits (advance s xs) ys")
      case True
      then show ?thesis using Gs fx len by (simp add: emit_spec_def eq fits_append advance_append)
    next
      case False
      with Gs obtain k where k: "k < length ys" "fits (advance s xs) (take k ys)"
        "G (advance s xs) = Some (False, (advance (advance s xs) (take k ys))\<lparr>oerrmsg := Some ''stream full''\<rparr>)"
        by (auto simp: emit_spec_def)
      have tk: "take (length xs + k) (xs @ ys) = xs @ take k ys" by simp
      have "fits s (xs @ take k ys)"
        using k(1,2) fx len by (subst fits_append) auto
      moreover have "\<not> fits s (xs @ ys)" using False len by (simp add: fits_append)
      ultimately show ?thesis
        unfolding emit_spec_def eq k(3)
        using k(1) tk by (simp only: if_False) (rule exI [of _ "length xs + k"], simp add: advance_append)
    qed
  next
    case False
    with Fs obtain k where k: "k < length xs" "fits s (take k xs)"
      "F s = Some (False, (advance s (take k xs))\<lparr>oerrmsg := Some ''stream full''\<rparr>)"
      by (auto simp: emit_spec_def)
    moreover have "\<not> fits s (xs @ ys)" using False len by (simp add: fits_append)
    ultimately show ?thesis by (auto simp: emit_spec_def intro!: exI [of _ k])
  qed
qed

lemma plain_cases:
  assumes "plain_stream s"
  obtains "osink s = Out_null" "oerrmsg s = None"
    | w where "osink s = Out_buf w" "oerrmsg s = None" "unat (bytes_written s) \<le> unat (max_size s)"
  using assms by (auto simp: plain_stream_def split: out_sink.splits)

lemma pb_write_emits:
  assumes "length bs = unat n"
  shows "emits (\<lambda>s. Some (pb_write env s bs n)) bs"
proof (rule emitsI)
  fix s :: "'a pb_ostream_t"
  assume s: "plain_stream s" and len: "unat (bytes_written s) + length bs < 2 ^ 64"
  have n: "n = of_nat (length bs)" using assms by simp
  have sum: "unat (bytes_written s + n) = unat (bytes_written s) + length bs"
    using len assms by (simp add: unat_word_ariths)
  have pos: "n > 0 \<longleftrightarrow> bs \<noteq> []" using assms by (auto simp: word_neq_0_conv [symmetric] unat_eq_0)
  show "emit_spec s bs (Some (pb_write env s bs n))"
    using s
  proof (cases rule: plain_cases)
    case 1
    then show ?thesis by (simp add: emit_spec_def fits_def pb_write_def advance_def n)
  next
    case (2 w)
    have nwrap: "\<not> bytes_written s + n < bytes_written s" using sum by (simp add: word_less_nat_alt)
    have full: "bytes_written s + n > max_size s \<longleftrightarrow> \<not> fits s bs"
      using sum 2(1) by (auto simp: word_less_nat_alt fits_def)
    have nonnull: "\<not> is_Out_null (osink s)" using 2(1) by simp
    show ?thesis
    proof (cases "fits s bs")
      case True
      have "pb_write env s bs n = (True, advance s bs)"
      proof (cases "bs = []")
        case True
        then have "n = 0" using n by simp
        then show ?thesis using True 2(1) by (simp add: pb_write_def advance_def)
      next
        case False
        then have "n > 0" using pos by simp
        then show ?thesis using nwrap full nonnull \<open>fits s bs\<close> 2(1) assms
          by (simp add: pb_write_def call_ostream_def buf_write_def advance_def)
      qed
      then show ?thesis using True by (simp add: emit_spec_def)
    next
      case False
      then have "bs \<noteq> []" using fits_Nil [OF s] by auto
      then have "n > 0" using pos by simp
      then have "pb_write env s bs n = (False, s\<lparr>oerrmsg := Some ''stream full''\<rparr>)"
        using nonnull full False 2(2) by (simp add: pb_write_def ostream_error_def)
      then show ?thesis using False \<open>bs \<noteq> []\<close> fits_Nil [OF s]
        by (simp add: emit_spec_def) (rule exI [of _ 0], simp)
    qed
  qed
qed

section \<open>Varints\<close>

lemma varint_loop_Nil_iff: "varint_loop v = [] \<longleftrightarrow> v = 0"
  by (subst varint_loop.simps) simp

lemma clear_last_top_bit_Cons: "ys \<noteq> [] \<Longrightarrow> clear_last_top_bit (x # ys) = x # clear_last_top_bit ys"
  by (cases ys) (simp_all add: clear_last_top_bit_def)

lemma varint_byte_cont: "(ucast ((v :: u64) AND 0x7F) OR 0x80 :: byte) = of_nat (unat v mod 128 + 128)"
proof -
  have "unat v mod 256 mod 128 = unat v mod 128" by (simp add: mod_mod_cancel)
  then show ?thesis by (simp only: ucast_and_7F byte_or_80 unat_ucast_byte)
qed

lemma varint_byte_last: "(ucast ((v :: u64) AND 0x7F) OR 0x80 :: byte) AND 0x7F = of_nat (unat v mod 128)"
proof -
  have "(ucast (v AND 0x7F) OR 0x80 :: byte) AND 0x7F = (ucast v AND 0x7F) AND 0x7F"
    by (simp only: ucast_and_7F byte_or_80_and_7F)
  also have "\<dots> = ucast v AND 0x7F" by (simp only: and.assoc and.idem)
  also have "\<dots> = of_nat (unat v mod 256 mod 128)" by (simp only: byte_and_7F unat_ucast_byte)
  finally show ?thesis by (simp add: mod_mod_cancel)
qed

lemma varint_loop_bytes: "v \<noteq> 0 \<Longrightarrow> clear_last_top_bit (varint_loop v) = varint_bytes (unat v)"
proof (induction v rule: varint_loop.induct)
  case (1 v)
  have d: "unat (drop_bit 7 v) = unat v div 128" by (simp add: unat_drop_bit)
  show ?case
  proof (cases "drop_bit 7 v = 0")
    case True
    then have "unat v div 128 = 0" using d by simp
    then have small: "unat v < 128" by (simp add: div_eq_0_iff)
    have "varint_loop v = [ucast (v AND 0x7F) OR 0x80]"
      using \<open>v \<noteq> 0\<close> True by (simp add: varint_loop.simps [of v] varint_loop_Nil_iff)
    then show ?thesis
      using small by (simp add: clear_last_top_bit_def varint_byte_last varint_bytes_small)
  next
    case False
    then have "unat v div 128 \<noteq> 0" using d by (metis unat_eq_zero)
    then have big: "128 \<le> unat v" by (simp add: div_eq_0_iff)
    have "varint_loop v = (ucast (v AND 0x7F) OR 0x80) # varint_loop (drop_bit 7 v)"
      using \<open>v \<noteq> 0\<close> by (simp add: varint_loop.simps [of v])
    with False 1 big show ?thesis
      by (simp add: clear_last_top_bit_Cons varint_loop_Nil_iff varint_byte_cont d varint_bytes_step)
  qed
qed

lemma pb_encode_varint_eq:
  "pb_encode_varint env s v =
     pb_write env s (varint_bytes (unat v)) (of_nat (length (varint_bytes (unat v))))"
proof (cases "v \<le> 0x7F")
  case True
  then have small: "unat v < 128" by (simp add: word_le_nat_alt)
  then have "(ucast v :: byte) = of_nat (unat v)"
    by (simp add: word_unat_eq_iff unat_ucast unat_of_nat)
  then show ?thesis using True small by (simp add: pb_encode_varint_def varint_bytes_small)
next
  case False
  then have "v \<noteq> 0" by auto
  then show ?thesis using False by (simp add: pb_encode_varint_def varint_loop_bytes Let_def)
qed

lemma pb_encode_varint_emits: "emits (\<lambda>s. Some (pb_encode_varint env s v)) (varint_bytes (unat v))"
proof -
  have "length (varint_bytes (unat v)) < 2 ^ 64"
    using length_varint_bytes_u64 [of v] by simp
  then show ?thesis
    by (simp add: pb_encode_varint_eq pb_write_emits unat_of_nat)
qed

section \<open>The other helpers\<close>

definition zigzag :: "u64 \<Rightarrow> u64" where
  "zigzag v = (if sint v < 0 then NOT (push_bit 1 v) else push_bit 1 v)"

lemma pb_encode_svarint_emits: "emits (\<lambda>s. Some (pb_encode_svarint env s v)) (varint_bytes (unat (zigzag v)))"
  using pb_encode_varint_emits [of env "zigzag v"] by (simp add: pb_encode_svarint_def zigzag_def Let_def)

lemma pb_encode_fixed32_emits: "emits (\<lambda>s. Some (pb_encode_fixed32 env s v)) (fixed32_bytes v)"
  unfolding pb_encode_fixed32_def by (rule pb_write_emits) (simp add: fixed32_bytes_def)

lemma pb_encode_fixed64_emits: "emits (\<lambda>s. Some (pb_encode_fixed64 env s v)) (fixed64_bytes v)"
  unfolding pb_encode_fixed64_def by (rule pb_write_emits) (simp add: fixed64_bytes_def)

lemma fixed32_bytes_le: "fixed32_bytes v = to_le 4 (unat v)"
  unfolding numeral_Sucs(1) to_le_Suc2 to_le.simps(1) fixed32_bytes_def low_byte div_mult2_eq [symmetric]
  using low_byte [of 0 v] by simp

lemma fixed64_bytes_le: "fixed64_bytes v = to_le 8 (unat v)"
  unfolding numeral_Sucs(2) to_le_Suc2 to_le.simps(1) fixed64_bytes_def low_byte div_mult2_eq [symmetric]
  using low_byte [of 0 v] by simp

definition tag_bytes :: "pb_wire_type_t \<Rightarrow> u32 \<Rightarrow> byte list" where
  "tag_bytes wt fn = varint_bytes (unat (tag_word wt fn))"

lemma pb_encode_tag_emits: "emits (\<lambda>s. Some (pb_encode_tag env s wt fn)) (tag_bytes wt fn)"
  unfolding pb_encode_tag_def tag_bytes_def by (rule pb_encode_varint_emits)

lemma emits_and_then:
  assumes "emits (\<lambda>s. Some (F s)) xs" and "emits (\<lambda>s. Some (G s)) ys"
  shows "emits (\<lambda>s. Some (and_then (F s) G)) (xs @ ys)"
proof -
  have "(\<lambda>s. Some (and_then (F s) G)) = (\<lambda>s. and_thenM (Some (F s)) (\<lambda>s. Some (G s)))"
    by (rule ext) (auto simp: and_then_def and_thenM_def split: prod.splits)
  then show ?thesis using emits_seq [OF assms] by simp
qed

lemma pb_encode_string_emits:
  assumes "length bs = unat n"
  shows "emits (\<lambda>s. Some (pb_encode_string env s bs n)) (varint_bytes (unat n) @ bs)"
  unfolding pb_encode_string_def
  by (rule emits_and_then [OF pb_encode_varint_emits pb_write_emits [OF assms]])

lemma unat_tag_word:
  assumes "unat wt < 8"
  shows "unat (tag_word wt fn) = 8 * unat fn + unat wt"
proof -
  let ?t = "push_bit 3 (ucast fn) :: u64" and ?w = "ucast wt :: u64"
  have fn: "unat fn < 2 ^ 32" using unat_less [of fn] by simp
  then have t: "unat ?t = 8 * unat fn"
    by (simp add: push_bit_eq_mult unat_word_ariths unat_ucast)
  have w: "unat ?w = unat wt" using assms by (simp add: unat_ucast)
  then have wm: "take_bit 3 ?w = ?w"
    using assms by (simp add: word_unat_eq_iff unat_take_bit del: take_bit_eq_mod)
  have wb: "bit ?w n \<Longrightarrow> n < 3" for n
    by (subst (asm) wm [symmetric]) (simp only: bit_take_bit_iff)
  have "?t AND ?w = 0"
    by (rule bit_eqI) (auto simp: bit_and_iff bit_push_bit_iff simp del: push_bit_eq_mult dest: wb)
  then have "?t OR ?w = ?t + ?w" using word_plus_and_or [of ?t ?w] by simp
  then show ?thesis using t w fn assms by (simp add: tag_word_def unat_word_ariths)
qed

text \<open>\<open>pb_write\<close> never moves \<open>bytes_written\<close> past \<open>max_size\<close> on a stream that has a callback.\<close>

definition within_max :: "'v pb_ostream_t \<Rightarrow> bool" where
  "within_max s \<longleftrightarrow> is_Out_null (osink s) \<or> bytes_written s \<le> max_size s"

lemma call_ostream_fields:
  "call_ostream env s buf = (ok, s') \<Longrightarrow> max_size s' = max_size s \<and> bytes_written s' = bytes_written s \<and>
     is_Out_null (osink s') = is_Out_null (osink s)"
  by (auto simp: call_ostream_def split: out_sink.splits prod.splits)

lemma pb_write_within_max:
  assumes "within_max s" "pb_write env s buf n = (ok, s')"
  shows "within_max s' \<and> max_size s' = max_size s \<and> is_Out_null (osink s') = is_Out_null (osink s)"
proof (cases "n > 0 \<and> \<not> is_Out_null (osink s)")
  case True
  obtain ok1 s1 where c: "call_ostream env s (take (unat n) buf) = (ok1, s1)" by fastforce
  note f = call_ostream_fields [OF c]
  show ?thesis
    using assms True c f
    by (auto simp: pb_write_def within_max_def ostream_error_def split: if_splits bool.splits)
next
  case False
  then have "n = 0 \<or> is_Out_null (osink s)" by (auto simp: word_neq_0_conv [symmetric])
  then show ?thesis using assms by (auto simp: pb_write_def within_max_def)
qed

end
