(* ===== verification/PbEncode.thy ===== *)
theory PbEncode
  imports PbOStream
begin

text \<open>
  The message encoder of \<open>pb_encode.c\<close>: the field encoders (\<open>pb_enc_*\<close>), arrays, basic, callback and
  extension fields, \<open>pb_encode\<close> and its public variants.

  The message lies in the C memory \<open>m\<close>, which encoding only reads.  The functions that recurse into
  submessages take the encoder of one level deeper as \<open>rec\<close>; \<open>pb_encode d\<close> is the encoder for at
  most \<open>d\<close> nested levels (and at most \<open>d\<close> chained extensions in a message), \<open>None\<close> beyond that.  \<open>None\<close> also stands for
  undefined behaviour: reading through \<open>NULL\<close>, calling a \<open>NULL\<close> encoder.
\<close>

section \<open>Field encoders\<close>

type_synonym 'v encoder = "pb_field_t list \<Rightarrow> nat \<Rightarrow> 'v pb_ostream_t \<Rightarrow> (bool \<times> 'v pb_ostream_t) option"

definition safe_read_bool :: "cmem \<Rightarrow> nat \<Rightarrow> bool" where
  "safe_read_bool m p \<longleftrightarrow> mbytes m p \<noteq> 0"

definition pb_enc_bool ::
  "'v enc_env \<Rightarrow> cmem \<Rightarrow> nat \<Rightarrow> 'v pb_ostream_t \<Rightarrow> (bool \<times> 'v pb_ostream_t) option" where
  "pb_enc_bool env m src s =
     deref src (Some (pb_encode_varint env s (if safe_read_bool m src then 1 else 0)))"

text \<open>The integer a field of \<open>data_size\<close> bytes holds, as a 64-bit value; \<open>None\<close> for a bad size.\<close>

definition load_signed :: "cmem \<Rightarrow> nat \<Rightarrow> pb_size_t \<Rightarrow> u64 option" where
  "load_signed m src data_sz =
     (if data_sz = 1 then Some (scast (load_word m src :: 8 word))
      else if data_sz = 2 then Some (scast (load_word m src :: 16 word))
      else if data_sz = 4 then Some (scast (load_word m src :: 32 word))
      else if data_sz = 8 then Some (load_word m src)
      else None)"

definition load_unsigned :: "cmem \<Rightarrow> nat \<Rightarrow> pb_size_t \<Rightarrow> u64 option" where
  "load_unsigned m src data_sz =
     (if data_sz = 1 then Some (ucast (load_word m src :: 8 word))
      else if data_sz = 2 then Some (ucast (load_word m src :: 16 word))
      else if data_sz = 4 then Some (ucast (load_word m src :: 32 word))
      else if data_sz = 8 then Some (load_word m src)
      else None)"

definition pb_enc_varint ::
  "'v enc_env \<Rightarrow> cmem \<Rightarrow> pb_field_t \<Rightarrow> nat \<Rightarrow> 'v pb_ostream_t \<Rightarrow> (bool \<times> 'v pb_ostream_t) option" where
  "pb_enc_varint env m field src s =
     (case load_signed m src (f_data_size field) of
        None \<Rightarrow> Some (ostream_error s ''invalid data_size'')
      | Some v \<Rightarrow> deref src (Some (pb_encode_varint env s v)))"

definition pb_enc_uvarint ::
  "'v enc_env \<Rightarrow> cmem \<Rightarrow> pb_field_t \<Rightarrow> nat \<Rightarrow> 'v pb_ostream_t \<Rightarrow> (bool \<times> 'v pb_ostream_t) option" where
  "pb_enc_uvarint env m field src s =
     (case load_unsigned m src (f_data_size field) of
        None \<Rightarrow> Some (ostream_error s ''invalid data_size'')
      | Some v \<Rightarrow> deref src (Some (pb_encode_varint env s v)))"

definition pb_enc_svarint ::
  "'v enc_env \<Rightarrow> cmem \<Rightarrow> pb_field_t \<Rightarrow> nat \<Rightarrow> 'v pb_ostream_t \<Rightarrow> (bool \<times> 'v pb_ostream_t) option" where
  "pb_enc_svarint env m field src s =
     (case load_signed m src (f_data_size field) of
        None \<Rightarrow> Some (ostream_error s ''invalid data_size'')
      | Some v \<Rightarrow> deref src (Some (pb_encode_svarint env s v)))"

definition pb_enc_fixed64 ::
  "'v enc_env \<Rightarrow> cmem \<Rightarrow> nat \<Rightarrow> 'v pb_ostream_t \<Rightarrow> (bool \<times> 'v pb_ostream_t) option" where
  "pb_enc_fixed64 env m src s = deref src (Some (pb_encode_fixed64 env s (load_word m src)))"

definition pb_enc_fixed32 ::
  "'v enc_env \<Rightarrow> cmem \<Rightarrow> nat \<Rightarrow> 'v pb_ostream_t \<Rightarrow> (bool \<times> 'v pb_ostream_t) option" where
  "pb_enc_fixed32 env m src s = deref src (Some (pb_encode_fixed32 env s (load_word m src)))"

text \<open>A \<open>pb_bytes_array_t\<close>: the \<open>size\<close>, then the bytes.\<close>

definition pb_enc_bytes ::
  "'v enc_env \<Rightarrow> cmem \<Rightarrow> pb_field_t \<Rightarrow> nat \<Rightarrow> 'v pb_ostream_t \<Rightarrow> bool \<times> 'v pb_ostream_t" where
  "pb_enc_bytes env m field src s =
     (if src = 0 then pb_encode_string env s [] 0
      else
        let sz = ucast (load_word m src :: pb_size_t) :: u64;
            allocsize = PB_BYTES_ARRAY_T_ALLOCSIZE sz
        in if allocsize < sz \<or>
              (PB_ATYPE (f_type field) = PB_ATYPE_STATIC \<and> allocsize > ucast (f_data_size field))
           then ostream_error s ''bytes size exceeded''
           else pb_encode_string env s (load_bytes m (src + offsetof_bytes) (unat sz)) sz)"

text \<open>The loop of \<open>pb_enc_string\<close>: the characters before the terminator, at most \<open>n\<close>.\<close>

function string_length :: "cmem \<Rightarrow> nat \<Rightarrow> u64 \<Rightarrow> u64" where
  "string_length m p n = (if n = 0 \<or> mbytes m p = 0 then 0 else string_length m (Suc p) (n - 1) + 1)"
  by pat_completeness auto
termination
  by (relation "measure (\<lambda>(m, p, n). unat n)") (auto simp: unat_minus_one unat_gt_0)

declare string_length.simps [simp del]

definition pb_enc_string ::
  "'v enc_env \<Rightarrow> cmem \<Rightarrow> pb_field_t \<Rightarrow> nat \<Rightarrow> 'v pb_ostream_t \<Rightarrow> bool \<times> 'v pb_ostream_t" where
  "pb_enc_string env m field src s =
     (let max_sz = (if PB_ATYPE (f_type field) = PB_ATYPE_POINTER then - 1 else ucast (f_data_size field));
          sz = (if src = 0 then 0 else string_length m src max_sz)
      in pb_encode_string env s (load_bytes m src (unat sz)) sz)"

definition pb_enc_fixed_length_bytes ::
  "'v enc_env \<Rightarrow> cmem \<Rightarrow> pb_field_t \<Rightarrow> nat \<Rightarrow> 'v pb_ostream_t \<Rightarrow> (bool \<times> 'v pb_ostream_t) option" where
  "pb_enc_fixed_length_bytes env m field src s =
     deref src (Some (pb_encode_string env s (load_bytes m src (unat (f_data_size field)))
       (ucast (f_data_size field))))"

text \<open>
  The size of the submessage is found with a sizing stream, then the submessage is written through
  a substream that shares the sink and is limited to that size.
\<close>

definition pb_encode_submessage ::
  "'v encoder \<Rightarrow> 'v enc_env \<Rightarrow> pb_field_t list \<Rightarrow> nat \<Rightarrow> 'v pb_ostream_t \<Rightarrow> (bool \<times> 'v pb_ostream_t) option" where
  "pb_encode_submessage rec env fs src s =
     (case rec fs src PB_OSTREAM_SIZING of
        None \<Rightarrow> None
      | Some (False, substream) \<Rightarrow> Some (False, s\<lparr>oerrmsg := oerrmsg substream\<rparr>)
      | Some (True, substream) \<Rightarrow>
          let sz = bytes_written substream in
          and_thenM (Some (pb_encode_varint env s sz)) (\<lambda>s.
            if is_Out_null (osink s) then Some (pb_write env s [] sz)
            else if bytes_written s + sz > max_size s then Some (ostream_error s ''stream full'')
            else
              case rec fs src \<lparr>osink = osink s, max_size = sz, bytes_written = 0, oerrmsg = None\<rparr> of
                None \<Rightarrow> None
              | Some (status, sub) \<Rightarrow>
                  let s' = s\<lparr>bytes_written := bytes_written s + bytes_written sub,
                             osink := osink sub, oerrmsg := oerrmsg sub\<rparr>
                  in if bytes_written sub \<noteq> sz then Some (ostream_error s' ''submsg size changed'')
                     else Some (status, s')))"

definition pb_enc_submessage ::
  "'v encoder \<Rightarrow> 'v enc_env \<Rightarrow> pb_field_t \<Rightarrow> nat \<Rightarrow> 'v pb_ostream_t \<Rightarrow> (bool \<times> 'v pb_ostream_t) option" where
  "pb_enc_submessage rec env field src s =
     (if f_ptr field = Ptr_NULL then Some (ostream_error s ''invalid field descriptor'')
      else case ptr_fields (f_ptr field) of
          None \<Rightarrow> None
        | Some fs \<Rightarrow> pb_encode_submessage rec env fs src s)"

text \<open>The call \<open>func(stream, field, src)\<close> for \<open>func = PB_ENCODERS[PB_LTYPE(field->type)]\<close>.\<close>

definition PB_ENCODERS ::
  "'v encoder \<Rightarrow> 'v enc_env \<Rightarrow> cmem \<Rightarrow> pb_field_t \<Rightarrow> nat \<Rightarrow> 'v pb_ostream_t \<Rightarrow> (bool \<times> 'v pb_ostream_t) option" where
  "PB_ENCODERS rec env m field src s =
     (let lt = PB_LTYPE (f_type field) in
      if lt = PB_LTYPE_BOOL then pb_enc_bool env m src s
      else if lt = PB_LTYPE_VARINT then pb_enc_varint env m field src s
      else if lt = PB_LTYPE_UVARINT then pb_enc_uvarint env m field src s
      else if lt = PB_LTYPE_SVARINT then pb_enc_svarint env m field src s
      else if lt = PB_LTYPE_FIXED32 then pb_enc_fixed32 env m src s
      else if lt = PB_LTYPE_FIXED64 then pb_enc_fixed64 env m src s
      else if lt = PB_LTYPE_BYTES then Some (pb_enc_bytes env m field src s)
      else if lt = PB_LTYPE_STRING then Some (pb_enc_string env m field src s)
      else if lt = PB_LTYPE_SUBMESSAGE then pb_enc_submessage rec env field src s
      else if lt = PB_LTYPE_FIXED_LENGTH_BYTES then pb_enc_fixed_length_bytes env m field src s
      else None)"

section \<open>Arrays\<close>

text \<open>\<open>for (i = 0; i < count; i++) { step(p); p += field->data_size; }\<close>\<close>

primrec array_loop ::
  "(nat \<Rightarrow> 's \<Rightarrow> (bool \<times> 's) option) \<Rightarrow> nat \<Rightarrow> nat \<Rightarrow> nat \<Rightarrow> 's \<Rightarrow> (bool \<times> 's) option" where
  "array_loop step stride p 0 s = Some (True, s)"
| "array_loop step stride p (Suc n) s =
     and_thenM (step p s) (\<lambda>s. array_loop step stride (p + stride) n s)"

definition packed_size ::
  "'v encoder \<Rightarrow> 'v enc_env \<Rightarrow> cmem \<Rightarrow> pb_field_t \<Rightarrow> nat \<Rightarrow> pb_size_t \<Rightarrow> (bool \<times> u64) option" where
  "packed_size rec env m field pdata count =
     (if PB_LTYPE (f_type field) = PB_LTYPE_FIXED32 then Some (True, 4 * ucast count)
      else if PB_LTYPE (f_type field) = PB_LTYPE_FIXED64 then Some (True, 8 * ucast count)
      else map_option (\<lambda>(ok, sizestream). (ok, bytes_written sizestream))
        (array_loop (PB_ENCODERS rec env m field) (unat (f_data_size field)) pdata (unat count) PB_OSTREAM_SIZING))"

text \<open>An element of an unpacked array: pointer-type strings and bytes are pointers themselves.\<close>

definition array_element :: "cmem \<Rightarrow> pb_field_t \<Rightarrow> nat \<Rightarrow> nat option" where
  "array_element m field p =
     (if PB_ATYPE (f_type field) = PB_ATYPE_POINTER \<and>
         PB_LTYPE (f_type field) \<in> {PB_LTYPE_STRING, PB_LTYPE_BYTES}
      then deref p (Some (load_ptr m p)) else Some p)"

definition encode_array ::
  "'v encoder \<Rightarrow> 'v enc_env \<Rightarrow> cmem \<Rightarrow> pb_field_t \<Rightarrow> nat \<Rightarrow> pb_size_t \<Rightarrow> 'v pb_ostream_t \<Rightarrow>
     (bool \<times> 'v pb_ostream_t) option" where
  "encode_array rec env m field pdata count s =
     (if count = 0 then Some (True, s)
      else if PB_ATYPE (f_type field) \<noteq> PB_ATYPE_POINTER \<and> count > f_array_size field
      then Some (ostream_error s ''array max size exceeded'')
      else if PB_LTYPE (f_type field) \<le> PB_LTYPE_LAST_PACKABLE then
        and_thenM (Some (pb_encode_tag env s PB_WT_STRING (f_tag field))) (\<lambda>s.
          case packed_size rec env m field pdata count of
            None \<Rightarrow> None
          | Some (False, _) \<Rightarrow> Some (False, s)
          | Some (True, sz) \<Rightarrow>
              and_thenM (Some (pb_encode_varint env s sz)) (\<lambda>s.
                if is_Out_null (osink s) then Some (pb_write env s [] sz)
                else array_loop (PB_ENCODERS rec env m field) (unat (f_data_size field)) pdata (unat count) s))
      else
        array_loop (\<lambda>p s. and_thenM (Some (pb_encode_tag_for_field env s field)) (\<lambda>s.
            case array_element m field p of
              None \<Rightarrow> None
            | Some q \<Rightarrow> PB_ENCODERS rec env m field q s))
          (unat (f_data_size field)) pdata (unat count) s)"

section \<open>The proto3 zero check\<close>

text \<open>
  The byte-per-byte comparison with zero, and \<open>pb_check_proto3_default_value\<close>; its first argument
  bounds the nesting of submessages.
\<close>

definition all_zero :: "cmem \<Rightarrow> nat \<Rightarrow> nat \<Rightarrow> bool" where
  "all_zero m a n = list_all (\<lambda>b. b = 0) (load_bytes m a n)"

definition proto3_catch_all :: "cmem \<Rightarrow> pb_field_t \<Rightarrow> nat \<Rightarrow> bool" where
  "proto3_catch_all m field pdata =
     (if PB_ATYPE (f_type field) = PB_ATYPE_POINTER \<and> PB_LTYPE (f_type field) > PB_LTYPE_LAST_PACKABLE
      then load_ptr m pdata = 0
      else all_zero m pdata (unat (f_data_size field)))"

fun pb_check_proto3_default_value :: "nat \<Rightarrow> cmem \<Rightarrow> pb_field_t \<Rightarrow> nat \<Rightarrow> bool option" where
  "pb_check_proto3_default_value 0 m field pdata = None"
| "pb_check_proto3_default_value (Suc d) m field pdata =
     (let type = f_type field;
          psize = ptr_offset pdata (f_size_offset field);
          singular =
            (if PB_ATYPE type = PB_ATYPE_STATIC then
               if PB_LTYPE type = PB_LTYPE_BYTES then Some ((load_word m pdata :: pb_size_t) = 0)
               else if PB_LTYPE type = PB_LTYPE_STRING then Some (mbytes m pdata = 0)
               else if PB_LTYPE type = PB_LTYPE_FIXED_LENGTH_BYTES then Some (f_data_size field = 0)
               else if PB_LTYPE type = PB_LTYPE_SUBMESSAGE then
                 (case ptr_fields (f_ptr field) of
                    None \<Rightarrow> None
                  | Some fs \<Rightarrow>
                      (case pb_field_iter_begin fs pdata of
                         (False, it) \<Rightarrow> Some True
                       | (True, it) \<Rightarrow>
                           map_option fst (iter_do_while
                             (\<lambda>it _. map_option (\<lambda>zero. (zero, ()))
                                (pb_check_proto3_default_value d m (iter_field it) (pData it))) it ())))
               else Some (proto3_catch_all m field pdata)
             else Some (proto3_catch_all m field pdata))
      in if PB_HTYPE type = PB_HTYPE_REQUIRED then Some False
         else if PB_HTYPE type = PB_HTYPE_REPEATED \<and> f_size_offset field \<noteq> 0
         then Some ((load_word m psize :: pb_size_t) = 0)
         else if PB_HTYPE type = PB_HTYPE_REPEATED \<and> PB_ATYPE type = PB_ATYPE_STATIC then Some False
         else if PB_HTYPE type = PB_HTYPE_ONEOF then Some ((load_word m psize :: pb_size_t) = 0)
         else if PB_HTYPE type = PB_HTYPE_OPTIONAL \<and> f_size_offset field \<noteq> 0
         then Some (\<not> safe_read_bool m psize)
         else singular)"

section \<open>Fields\<close>

text \<open>
  \<open>pSize\<close> points to the has/count/which member if there is one, else to the local
  \<open>implicit_has\<close>; reading a \<open>pb_size_t\<close> through the latter is undefined.
\<close>

definition encode_basic_field ::
  "nat \<Rightarrow> 'v encoder \<Rightarrow> 'v enc_env \<Rightarrow> cmem \<Rightarrow> pb_field_t \<Rightarrow> nat \<Rightarrow> 'v pb_ostream_t \<Rightarrow>
     (bool \<times> 'v pb_ostream_t) option" where
  "encode_basic_field d rec env m field pdata0 s =
     (let psize = ptr_offset pdata0 (f_size_offset field);
          is_ptr = (PB_ATYPE (f_type field) = PB_ATYPE_POINTER);
          pdata = (if is_ptr then load_ptr m pdata0 else pdata0);
          put = (\<lambda>s. and_thenM (Some (pb_encode_tag_for_field env s field)) (PB_ENCODERS rec env m field pdata))
      in case (if f_size_offset field \<noteq> 0 then Some (safe_read_bool m psize)
               else if PB_HTYPE (f_type field) = PB_HTYPE_OPTIONAL
               then map_option (\<lambda>zero. if is_ptr then pdata \<noteq> 0 else \<not> zero)
                      (pb_check_proto3_default_value d m field pdata0)
               else Some (is_ptr \<longrightarrow> pdata \<noteq> 0)) of
           None \<Rightarrow> None
         | Some has \<Rightarrow>
             if PB_HTYPE (f_type field) = PB_HTYPE_REQUIRED then
               if pdata = 0 then Some (ostream_error s ''missing required field'') else put s
             else if PB_HTYPE (f_type field) = PB_HTYPE_OPTIONAL then
               if has then put s else Some (True, s)
             else if PB_HTYPE (f_type field) = PB_HTYPE_REPEATED then
               encode_array rec env m field pdata
                 (if f_size_offset field \<noteq> 0 then load_word m psize else f_array_size field) s
             else if f_size_offset field = 0 then None
             else if (load_word m psize :: pb_size_t) = f_tag field then put s
             else Some (True, s))"

text \<open>The \<open>encode\<close> member of \<open>funcs\<close> is a function pointer, \<open>0\<close> for \<open>NULL\<close>.\<close>

definition encode_callback_field ::
  "'v enc_env \<Rightarrow> cmem \<Rightarrow> pb_field_t \<Rightarrow> nat \<Rightarrow> 'v pb_ostream_t \<Rightarrow> bool \<times> 'v pb_ostream_t" where
  "encode_callback_field env m field pdata s =
     (let funcs = load_ptr m (pdata + callback_funcs_offset); arg = pdata + callback_arg_offset in
      if funcs \<noteq> 0
      then case enc_callback env funcs s field arg m of
          (False, s) \<Rightarrow> ostream_error s ''callback error''
        | (True, s) \<Rightarrow> (True, s)
      else (True, s))"

definition encode_field ::
  "nat \<Rightarrow> 'v encoder \<Rightarrow> 'v enc_env \<Rightarrow> cmem \<Rightarrow> pb_field_t \<Rightarrow> nat \<Rightarrow> 'v pb_ostream_t \<Rightarrow>
     (bool \<times> 'v pb_ostream_t) option" where
  "encode_field d rec env m field pdata s =
     (if PB_ATYPE (f_type field) = PB_ATYPE_STATIC \<or> PB_ATYPE (f_type field) = PB_ATYPE_POINTER
      then deref pdata (encode_basic_field d rec env m field pdata s)
      else if PB_ATYPE (f_type field) = PB_ATYPE_CALLBACK
      then deref pdata (Some (encode_callback_field env m field pdata s))
      else Some (ostream_error s ''invalid field type''))"

section \<open>Extensions\<close>

definition default_extension_encoder ::
  "nat \<Rightarrow> 'v encoder \<Rightarrow> 'v enc_env \<Rightarrow> cmem \<Rightarrow> nat \<Rightarrow> 'v pb_ostream_t \<Rightarrow> (bool \<times> 'v pb_ostream_t) option" where
  "default_extension_encoder d rec env m extension s =
     (let field = enc_ext_arg env (ext_type m extension) in
      if PB_ATYPE (f_type field) = PB_ATYPE_POINTER
      then encode_field d rec env m field (ext_dest extension) s
      else encode_field d rec env m field (load_ptr m (ext_dest extension)) s)"

text \<open>The walk over the extension list; the first argument bounds its length.\<close>

fun encode_extensions ::
  "nat \<Rightarrow> nat \<Rightarrow> 'v encoder \<Rightarrow> 'v enc_env \<Rightarrow> cmem \<Rightarrow> nat \<Rightarrow> 'v pb_ostream_t \<Rightarrow> (bool \<times> 'v pb_ostream_t) option" where
  "encode_extensions 0 d rec env m extension s = (if extension = 0 then Some (True, s) else None)"
| "encode_extensions (Suc n) d rec env m extension s =
     (if extension = 0 then Some (True, s)
      else
        deref (ext_type m extension)
          (and_thenM
            (case ext_encode env (ext_type m extension) of
               Some encode \<Rightarrow> Some (encode s extension m)
             | None \<Rightarrow> default_extension_encoder d rec env m extension s)
            (encode_extensions n d rec env m (ext_next m extension))))"

definition encode_extension_field ::
  "nat \<Rightarrow> 'v encoder \<Rightarrow> 'v enc_env \<Rightarrow> cmem \<Rightarrow> nat \<Rightarrow> 'v pb_ostream_t \<Rightarrow> (bool \<times> 'v pb_ostream_t) option" where
  "encode_extension_field d rec env m pdata s = encode_extensions d d rec env m (load_ptr m pdata) s"

section \<open>Messages\<close>

definition encode_iter_field ::
  "nat \<Rightarrow> 'v encoder \<Rightarrow> 'v enc_env \<Rightarrow> cmem \<Rightarrow> pb_field_iter_t \<Rightarrow> 'v pb_ostream_t \<Rightarrow>
     (bool \<times> 'v pb_ostream_t) option" where
  "encode_iter_field d rec env m it s =
     (if PB_LTYPE (f_type (iter_field it)) = PB_LTYPE_EXTENSION
      then encode_extension_field d rec env m (pData it) s
      else encode_field d rec env m (iter_field it) (pData it) s)"

fun pb_encode :: "nat \<Rightarrow> 'v enc_env \<Rightarrow> cmem \<Rightarrow> 'v encoder" where
  "pb_encode 0 env m fs src_struct s = None"
| "pb_encode (Suc d) env m fs src_struct s =
     (case pb_field_iter_begin fs src_struct of
        (False, it) \<Rightarrow> Some (True, s)
      | (True, it) \<Rightarrow> deref src_struct (iter_do_while (encode_iter_field (Suc d) (pb_encode d env m) env m) it s))"

definition pb_encode_delimited ::
  "nat \<Rightarrow> 'v enc_env \<Rightarrow> cmem \<Rightarrow> 'v encoder" where
  "pb_encode_delimited d env m fs src_struct s = pb_encode_submessage (pb_encode d env m) env fs src_struct s"

definition pb_encode_nullterminated ::
  "nat \<Rightarrow> 'v enc_env \<Rightarrow> cmem \<Rightarrow> 'v encoder" where
  "pb_encode_nullterminated d env m fs src_struct s =
     and_thenM (pb_encode d env m fs src_struct s) (\<lambda>s. Some (pb_write env s [0] 1))"

text \<open>The encoded size, \<open>Some None\<close> when encoding fails.\<close>

definition pb_get_encoded_size ::
  "nat \<Rightarrow> 'v enc_env \<Rightarrow> cmem \<Rightarrow> pb_field_t list \<Rightarrow> nat \<Rightarrow> u64 option option" where
  "pb_get_encoded_size d env m fs src_struct =
     map_option (\<lambda>(ok, stream). if ok then Some (bytes_written stream) else None)
       (pb_encode d env m fs src_struct PB_OSTREAM_SIZING)"

end
