(* ===== verification/PbEncodeSpec.thy ===== *)
theory PbEncodeSpec
  imports PbEncode
begin

text \<open>
  What the message encoder promises: \<open>message_bytes\<close> is the protocol-buffer encoding of a message,
  computed from the memory alone (no stream, no sizing pass, no substream), and the encoder of
  \<open>PbEncode\<close> emits exactly those bytes.  The induction over the nesting of messages runs through the
  locale \<open>message_encoder\<close>, whose law is what the encoder of the next level promises.
\<close>

section \<open>The encoding of a message\<close>

type_synonym wire = "pb_field_t list \<Rightarrow> nat \<Rightarrow> byte list option"

definition prefixed :: "byte list \<Rightarrow> byte list" where
  "prefixed bs = varint_bytes (length bs) @ bs"

definition non_null :: "nat \<Rightarrow> byte list \<Rightarrow> byte list option" where
  "non_null src bs = (if src = 0 then None else Some bs)"

definition varint_of :: "nat \<Rightarrow> (u64 \<Rightarrow> u64) \<Rightarrow> u64 option \<Rightarrow> byte list option" where
  "varint_of src g v = (case v of None \<Rightarrow> None | Some v \<Rightarrow> non_null src (varint_bytes (unat (g v))))"

text \<open>The bytes array at \<open>src\<close>; a static one must fit its field.\<close>

definition bytes_value :: "cmem \<Rightarrow> pb_field_t \<Rightarrow> nat \<Rightarrow> byte list option" where
  "bytes_value m f src =
     (if src = 0 then Some []
      else let sz = unat (load_word m src :: pb_size_t) in
        if PB_ATYPE (f_type f) = PB_ATYPE_STATIC \<and> sz + offsetof_bytes > unat (f_data_size f) then None
        else Some (load_bytes m (src + offsetof_bytes) sz))"

definition string_value :: "cmem \<Rightarrow> pb_field_t \<Rightarrow> nat \<Rightarrow> byte list" where
  "string_value m f src =
     (if src = 0 then []
      else load_bytes m src (unat (string_length m src
        (if PB_ATYPE (f_type f) = PB_ATYPE_POINTER then - 1 else ucast (f_data_size f)))))"

definition value_bytes :: "wire \<Rightarrow> cmem \<Rightarrow> pb_field_t \<Rightarrow> nat \<Rightarrow> byte list option" where
  "value_bytes wire m f src =
     (let lt = PB_LTYPE (f_type f) in
      if lt = PB_LTYPE_BOOL then non_null src [if safe_read_bool m src then 1 else 0]
      else if lt = PB_LTYPE_VARINT then varint_of src (\<lambda>v. v) (load_signed m src (f_data_size f))
      else if lt = PB_LTYPE_UVARINT then varint_of src (\<lambda>v. v) (load_unsigned m src (f_data_size f))
      else if lt = PB_LTYPE_SVARINT then varint_of src zigzag (load_signed m src (f_data_size f))
      else if lt = PB_LTYPE_FIXED32 then non_null src (load_bytes m src 4)
      else if lt = PB_LTYPE_FIXED64 then non_null src (load_bytes m src 8)
      else if lt = PB_LTYPE_BYTES then map_option prefixed (bytes_value m f src)
      else if lt = PB_LTYPE_STRING then Some (prefixed (string_value m f src))
      else if lt = PB_LTYPE_SUBMESSAGE then
        (case ptr_fields (f_ptr f) of None \<Rightarrow> None | Some fs \<Rightarrow> map_option prefixed (wire fs src))
      else if lt = PB_LTYPE_FIXED_LENGTH_BYTES
      then non_null src (prefixed (load_bytes m src (unat (f_data_size f))))
      else None)"

definition tagged :: "pb_field_t \<Rightarrow> byte list option \<Rightarrow> byte list option" where
  "tagged f v =
     (case wire_type_of_ltype (PB_LTYPE (f_type f)) of
        None \<Rightarrow> None
      | Some wt \<Rightarrow> map_option (\<lambda>bs. tag_bytes wt (f_tag f) @ bs) v)"

definition concat_opt :: "byte list option list \<Rightarrow> byte list option" where
  "concat_opt xs = map_option concat (those xs)"

text \<open>The addresses of an array's elements.\<close>

definition elements :: "pb_field_t \<Rightarrow> nat \<Rightarrow> nat \<Rightarrow> nat list" where
  "elements f p n = map (\<lambda>i. p + i * unat (f_data_size f)) [0..<n]"

text \<open>A packed array is one length-delimited field, any other one field per element.\<close>

definition array_bytes :: "wire \<Rightarrow> cmem \<Rightarrow> pb_field_t \<Rightarrow> nat \<Rightarrow> pb_size_t \<Rightarrow> byte list option" where
  "array_bytes wire m f p count =
     (if count = 0 then Some []
      else if PB_ATYPE (f_type f) \<noteq> PB_ATYPE_POINTER \<and> count > f_array_size f then None
      else if PB_LTYPE (f_type f) \<le> PB_LTYPE_LAST_PACKABLE then
        map_option (\<lambda>bs. tag_bytes PB_WT_STRING (f_tag f) @ prefixed bs)
          (concat_opt (map (value_bytes wire m f) (elements f p (unat count))))
      else concat_opt (map (\<lambda>p. case array_element m f p of None \<Rightarrow> None
                                | Some q \<Rightarrow> tagged f (value_bytes wire m f q))
             (elements f p (unat count))))"

definition basic_field_bytes :: "nat \<Rightarrow> wire \<Rightarrow> cmem \<Rightarrow> pb_field_t \<Rightarrow> nat \<Rightarrow> byte list option" where
  "basic_field_bytes d wire m f addr =
     (let psize = ptr_offset addr (f_size_offset f);
          is_ptr = (PB_ATYPE (f_type f) = PB_ATYPE_POINTER);
          p = (if is_ptr then load_ptr m addr else addr);
          put = tagged f (value_bytes wire m f p)
      in if PB_HTYPE (f_type f) = PB_HTYPE_REQUIRED then if p = 0 then None else put
         else if PB_HTYPE (f_type f) = PB_HTYPE_OPTIONAL then
           (case (if f_size_offset f \<noteq> 0 then Some (safe_read_bool m psize)
                  else map_option (\<lambda>zero. if is_ptr then p \<noteq> 0 else \<not> zero)
                    (pb_check_proto3_default_value d m f addr)) of
              None \<Rightarrow> None | Some has \<Rightarrow> if has then put else Some [])
         else if PB_HTYPE (f_type f) = PB_HTYPE_REPEATED then
           array_bytes wire m f p (if f_size_offset f \<noteq> 0 then load_word m psize else f_array_size f)
         else if f_size_offset f = 0 then None
         else if (load_word m psize :: pb_size_t) = f_tag f then put
         else Some [])"

text \<open>Callback and extension fields are covered when they are empty.\<close>

definition field_bytes :: "nat \<Rightarrow> wire \<Rightarrow> cmem \<Rightarrow> pb_field_t \<Rightarrow> nat \<Rightarrow> byte list option" where
  "field_bytes d wire m f addr =
     (if PB_LTYPE (f_type f) = PB_LTYPE_EXTENSION then if load_ptr m addr = 0 then Some [] else None
      else if addr = 0 then None
      else if PB_ATYPE (f_type f) \<in> {PB_ATYPE_STATIC, PB_ATYPE_POINTER} then basic_field_bytes d wire m f addr
      else if PB_ATYPE (f_type f) = PB_ATYPE_CALLBACK \<and> load_ptr m (addr + callback_funcs_offset) = 0
      then Some []
      else None)"

fun message_bytes :: "nat \<Rightarrow> cmem \<Rightarrow> wire" where
  "message_bytes 0 m fs src = None"
| "message_bytes (Suc d) m fs src =
     (if nfields fs = 0 then Some []
      else if src = 0 then None
      else concat_opt (map (\<lambda>k. field_bytes (Suc d) (message_bytes d m) m (field_at fs k) (field_addr fs src k))
                        [0..<nfields fs]))"

section \<open>Lemmas on sequences\<close>

lemma emits_cong: "emits F bs \<Longrightarrow> F = G \<Longrightarrow> bs = cs \<Longrightarrow> emits G cs"
  by simp

lemma concat_opt_Nil [simp]: "concat_opt [] = Some []"
  by (simp add: concat_opt_def)

lemma concat_opt_Cons:
  "concat_opt (x # xs) = Some bs \<longleftrightarrow> (\<exists>a cs. x = Some a \<and> concat_opt xs = Some cs \<and> bs = a @ cs)"
  by (auto simp: concat_opt_def split: option.splits)

lemma seqM_emits:
  assumes "\<And>x bs. x \<in> set xs \<Longrightarrow> spec x = Some bs \<Longrightarrow> emits (body x) bs"
    and "concat_opt (map spec xs) = Some bs"
  shows "emits (seqM body xs) bs"
  using assms
proof (induction xs arbitrary: bs)
  case Nil
  then show ?case by (auto intro: emits_cong [OF emits_Nil])
next
  case (Cons x xs)
  then obtain a cs where "spec x = Some a" "concat_opt (map spec xs) = Some cs" "bs = a @ cs"
    by (auto simp: concat_opt_Cons)
  with Cons have "emits (body x) a" "emits (seqM body xs) cs" by auto
  then have "emits (\<lambda>s. and_thenM (body x s) (seqM body xs)) (a @ cs)" by (rule emits_seq)
  with \<open>bs = a @ cs\<close> show ?case by (auto intro: emits_cong)
qed

lemma array_loop_seqM:
  "array_loop step stride p n s = seqM step (map (\<lambda>i. p + i * stride) [0..<n]) s"
proof (induction n arbitrary: p s)
  case (Suc n)
  have "map (\<lambda>i. p + i * stride) [0..<Suc n] = p # map (\<lambda>i. (p + stride) + i * stride) [0..<n]"
    by (simp add: upt_conv_Cons map_Suc_upt [symmetric] del: upt_Suc)
  then show ?case by (simp add: Suc.IH [abs_def] del: upt_Suc)
qed simp

lemma array_loop_emits:
  assumes "\<And>p bs. spec p = Some bs \<Longrightarrow> emits (step p) bs"
    and "concat_opt (map spec (elements f p n)) = Some bs"
  shows "emits (array_loop step (unat (f_data_size f)) p n) bs"
  unfolding array_loop_seqM [abs_def]
  using seqM_emits [of "elements f p n" spec step bs] assms by (simp add: elements_def)

lemma deref_emits: "src \<noteq> 0 \<Longrightarrow> emits F bs \<Longrightarrow> emits (\<lambda>s. deref src (F s)) bs"
  by (simp add: deref_def)

section \<open>Sizing and substreams\<close>

lemma sizing_pass:
  assumes "emits F bs" "length bs < 2 ^ 64"
  shows "F PB_OSTREAM_SIZING = Some (True, advance PB_OSTREAM_SIZING bs)"
proof -
  have "plain_stream (PB_OSTREAM_SIZING :: 'a pb_ostream_t)" "fits (PB_OSTREAM_SIZING :: 'a pb_ostream_t) bs"
    by (simp_all add: plain_stream_def fits_def PB_OSTREAM_SIZING_def)
  then show ?thesis
    using emitsD [OF assms(1), of PB_OSTREAM_SIZING] assms(2)
    by (simp add: emit_spec_def PB_OSTREAM_SIZING_def)
qed

lemma bytes_written_sizing:
  "bytes_written (advance PB_OSTREAM_SIZING bs) = of_nat (length bs)"
  by (simp add: PB_OSTREAM_SIZING_def)

lemma null_or_emits:
  assumes "emits G bs"
  shows "emits (\<lambda>s. if is_Out_null (osink s) then Some (pb_write env s [] (of_nat (length bs))) else G s) bs"
proof (rule emitsI)
  fix s :: "'a pb_ostream_t"
  assume s: "plain_stream s" "unat (bytes_written s) + length bs < 2 ^ 64"
  show "emit_spec s bs (if is_Out_null (osink s) then Some (pb_write env s [] (of_nat (length bs))) else G s)"
  proof (cases "is_Out_null (osink s)")
    case True
    then have "osink s = Out_null" by (simp add: is_Out_null_def)
    then show ?thesis by (simp add: emit_spec_def fits_def pb_write_def advance_def)
  next
    case False
    then show ?thesis using emitsD [OF assms s] by simp
  qed
qed

lemma prefixed_emits:
  assumes "emits G bs" "length bs < 2 ^ 64"
  shows "emits (\<lambda>s. and_thenM (Some (pb_encode_varint env s (of_nat (length bs))))
      (\<lambda>s. if is_Out_null (osink s) then Some (pb_write env s [] (of_nat (length bs))) else G s)) (prefixed bs)"
  unfolding prefixed_def
  using emits_seq [OF pb_encode_varint_emits [of env "of_nat (length bs)"] null_or_emits [OF assms(1), of env]]
    assms(2)
  by (simp add: unat_of_nat)

lemma emits_short:
  assumes "length bs < 2 ^ 64 \<Longrightarrow> emits F bs"
  shows "emits F bs"
proof (cases "length bs < 2 ^ 64")
  case False
  then show ?thesis by (simp add: emits_def)
qed (rule assms)

lemma substream_emits:
  assumes F: "emits F bs" and len: "length bs < 2 ^ 64"
  shows "emits (\<lambda>s.
      if is_Out_null (osink s) then Some (pb_write env s [] (of_nat (length bs)))
      else if bytes_written s + of_nat (length bs) > max_size s then Some (ostream_error s ''stream full'')
      else case F \<lparr>osink = osink s, max_size = of_nat (length bs), bytes_written = 0, oerrmsg = None\<rparr> of
          None \<Rightarrow> None
        | Some (status, sub) \<Rightarrow>
            let s' = s\<lparr>bytes_written := bytes_written s + bytes_written sub,
                       osink := osink sub, oerrmsg := oerrmsg sub\<rparr>
            in if bytes_written sub \<noteq> of_nat (length bs) then Some (ostream_error s' ''submsg size changed'')
               else Some (status, s')) bs"
    (is "emits (\<lambda>s. if ?null s then ?write s else ?put s) bs")
proof (rule emitsI)
  fix s :: "'a pb_ostream_t"
  assume s: "plain_stream s" "unat (bytes_written s) + length bs < 2 ^ 64"
  show "emit_spec s bs (if ?null s then ?write s else ?put s)"
    using s(1)
  proof (cases rule: plain_cases)
    case 1
    then show ?thesis by (simp add: emit_spec_def fits_def pb_write_def advance_def)
  next
    case (2 w)
    have full: "bytes_written s + of_nat (length bs) > max_size s \<longleftrightarrow> \<not> fits s bs"
      using s(2) len 2(1) by (auto simp: word_less_nat_alt fits_def unat_word_ariths unat_of_nat)
    show ?thesis
    proof (cases "fits s bs")
      case True
      let ?sub = "\<lparr>osink = osink s, max_size = of_nat (length bs), bytes_written = 0, oerrmsg = None\<rparr> :: 'a pb_ostream_t"
      have "plain_stream ?sub" "fits ?sub bs"
        using len 2(1) by (simp_all add: plain_stream_def fits_def unat_of_nat)
      then have "F ?sub = Some (True, advance ?sub bs)"
        using emitsD [OF F, of ?sub] len by (simp add: emit_spec_def)
      then have "?put s = Some (True, advance s bs)"
        using full True 2 by (simp add: advance_def)
      then show ?thesis using True 2(1) by (simp add: emit_spec_def)
    next
      case False
      then have "bs \<noteq> []" using fits_Nil [OF s(1)] by auto
      moreover have "?put s = Some (False, s\<lparr>oerrmsg := Some ''stream full''\<rparr>)"
        using False full 2 by (simp add: ostream_error_def)
      ultimately show ?thesis
        using False 2(1) fits_Nil [OF s(1)] by (simp add: emit_spec_def) (rule exI [of _ 0], simp)
    qed
  qed
qed

lemma pb_encode_submessage_emits:
  assumes "emits (rec fs src) bs"
  shows "emits (pb_encode_submessage rec env fs src) (prefixed bs)"
proof (rule emits_short)
  assume "length (prefixed bs) < 2 ^ 64"
  then have len: "length bs < 2 ^ 64" by (simp add: prefixed_def)
  have u: "unat (of_nat (length bs) :: u64) = length bs" using len by (intro unat_of_nat_small) simp
  show "emits (pb_encode_submessage rec env fs src) (prefixed bs)"
    unfolding prefixed_def
    using emits_seq [OF pb_encode_varint_emits [of env "of_nat (length bs)"] substream_emits [OF assms len, of env]]
    unfolding pb_encode_submessage_def sizing_pass [OF assms len] u
    by (simp only: bytes_written_sizing option.case prod.case bool.case Let_def)
qed

section \<open>The encoder of one level, given that of the next\<close>

lemma fixed_load_word:
  "fixed32_bytes (load_word m src) = load_bytes m src 4"
  "fixed64_bytes (load_word m src) = load_bytes m src 8"
  using of_le_less [of "load_bytes m src 4"] of_le_less [of "load_bytes m src 8"]
  by (simp_all add: fixed32_bytes_le fixed64_bytes_le load_word_def unat_of_nat to_le_of_le)

lemma pb_enc_bytes_emits:
  assumes "bytes_value m f src = Some bs"
  shows "emits (\<lambda>s. Some (pb_enc_bytes env m f src s)) (prefixed bs)"
proof (cases "src = 0")
  case True
  with assms show ?thesis
    using pb_encode_string_emits [of "[]" 0 env]
    by (simp add: bytes_value_def pb_enc_bytes_def prefixed_def)
next
  case False
  define sz where "sz = (load_word m src :: pb_size_t)"
  have sz: "unat sz < 2 ^ 32" using unat_less [of sz] by simp
  then have alloc: "unat (PB_BYTES_ARRAY_T_ALLOCSIZE (ucast sz)) = unat sz + 4"
    by (simp add: PB_BYTES_ARRAY_T_ALLOCSIZE_def unat_word_ariths unat_ucast)
  have "unat (f_data_size f) < 2 ^ 32" using unat_less [of "f_data_size f"] by simp
  then have "\<not> (PB_BYTES_ARRAY_T_ALLOCSIZE (ucast sz) < ucast sz \<or>
      (PB_ATYPE (f_type f) = PB_ATYPE_STATIC \<and> PB_BYTES_ARRAY_T_ALLOCSIZE (ucast sz) > ucast (f_data_size f)))"
    using assms False sz
    by (auto simp: bytes_value_def sz_def [symmetric] word_less_nat_alt alloc unat_ucast split: if_splits)
  then have "pb_enc_bytes env m f src s = pb_encode_string env s bs (ucast sz)" for s
    using assms False sz
    by (auto simp: pb_enc_bytes_def Let_def sz_def [symmetric] bytes_value_def unat_ucast split: if_splits)
  moreover have "length bs = unat sz"
    using assms False by (auto simp: bytes_value_def sz_def Let_def split: if_splits)
  ultimately show ?thesis
    using pb_encode_string_emits [of bs "ucast sz" env] sz by (simp add: prefixed_def unat_ucast)
qed

lemma pb_enc_string_emits: "emits (\<lambda>s. Some (pb_enc_string env m f src s)) (prefixed (string_value m f src))"
proof -
  define n :: u64 where "n = (if PB_ATYPE (f_type f) = PB_ATYPE_POINTER then - 1 else ucast (f_data_size f))"
  define k where "k = (if src = 0 then 0 else string_length m src n)"
  have "string_value m f src = load_bytes m src (unat k)"
    by (simp add: k_def n_def string_value_def)
  moreover have "pb_enc_string env m f src s = pb_encode_string env s (load_bytes m src (unat k)) k" for s
    by (simp only: pb_enc_string_def Let_def k_def n_def)
  ultimately show ?thesis
    using pb_encode_string_emits [of "load_bytes m src (unat k)" k env] by (simp add: prefixed_def)
qed

text \<open>Which value a field type has.\<close>

lemma value_bytes_cases [consumes 1, case_names bool varint uvarint svarint fixed32 fixed64 bytes string
    submessage fixed_length]:
  assumes "value_bytes wire m f src = Some bs"
  obtains "PB_LTYPE (f_type f) = PB_LTYPE_BOOL" "src \<noteq> 0" "bs = [if safe_read_bool m src then 1 else 0]"
    | v where "PB_LTYPE (f_type f) = PB_LTYPE_VARINT" "src \<noteq> 0" "load_signed m src (f_data_size f) = Some v"
        "bs = varint_bytes (unat v)"
    | v where "PB_LTYPE (f_type f) = PB_LTYPE_UVARINT" "src \<noteq> 0" "load_unsigned m src (f_data_size f) = Some v"
        "bs = varint_bytes (unat v)"
    | v where "PB_LTYPE (f_type f) = PB_LTYPE_SVARINT" "src \<noteq> 0" "load_signed m src (f_data_size f) = Some v"
        "bs = varint_bytes (unat (zigzag v))"
    | "PB_LTYPE (f_type f) = PB_LTYPE_FIXED32" "src \<noteq> 0" "bs = load_bytes m src 4"
    | "PB_LTYPE (f_type f) = PB_LTYPE_FIXED64" "src \<noteq> 0" "bs = load_bytes m src 8"
    | b where "PB_LTYPE (f_type f) = PB_LTYPE_BYTES" "bytes_value m f src = Some b" "bs = prefixed b"
    | "PB_LTYPE (f_type f) = PB_LTYPE_STRING" "bs = prefixed (string_value m f src)"
    | fs b where "PB_LTYPE (f_type f) = PB_LTYPE_SUBMESSAGE" "ptr_fields (f_ptr f) = Some fs"
        "wire fs src = Some b" "bs = prefixed b"
    | "PB_LTYPE (f_type f) = PB_LTYPE_FIXED_LENGTH_BYTES" "src \<noteq> 0"
        "bs = prefixed (load_bytes m src (unat (f_data_size f)))"
  using assms
  by (simp only: value_bytes_def Let_def non_null_def varint_of_def split: if_splits option.splits) auto

lemma concat_opt_length:
  assumes "\<And>x bs. x \<in> set xs \<Longrightarrow> x = Some bs \<Longrightarrow> length bs = k" and "concat_opt xs = Some bs"
  shows "length bs = k * length xs"
  using assms
proof (induction xs arbitrary: bs)
  case (Cons x xs)
  then obtain a cs where "x = Some a" "concat_opt xs = Some cs" "bs = a @ cs" by (auto simp: concat_opt_Cons)
  moreover from this Cons have "length a = k" "length cs = k * length xs" by auto
  ultimately show ?case by simp
qed simp

text \<open>
  What a level relies on: the encoder \<open>rec\<close> of its submessages emits the bytes \<open>wire\<close> says.
\<close>

locale message_encoder =
  fixes rec :: "'v encoder" and wire :: wire and env :: "'v enc_env" and m :: cmem
  assumes rec_emits: "wire fs src = Some bs \<Longrightarrow> emits (rec fs src) bs"
begin

lemma enc_submessage_emits:
  assumes "ptr_fields (f_ptr f) = Some fs" "wire fs src = Some bs"
  shows "emits (pb_enc_submessage rec env f src) (prefixed bs)"
proof -
  have "pb_enc_submessage rec env f src = pb_encode_submessage rec env fs src"
    using assms(1) by (auto simp: pb_enc_submessage_def fun_eq_iff ptr_fields_def split: pb_field_ptr.splits)
  then show ?thesis by (simp add: pb_encode_submessage_emits rec_emits assms(2))
qed

lemma fixed_length_bytes_emits:
  assumes "src \<noteq> 0"
  shows "emits (pb_enc_fixed_length_bytes env m f src) (prefixed (load_bytes m src (unat (f_data_size f))))"
  unfolding pb_enc_fixed_length_bytes_def [abs_def] prefixed_def
  using pb_encode_string_emits [of "load_bytes m src (unat (f_data_size f))" "ucast (f_data_size f)" env]
    assms unat_less [of "f_data_size f"]
  by (simp add: deref_emits unat_ucast)

lemma field_encoder_emits:
  assumes "value_bytes wire m f src = Some bs"
  shows "emits (PB_ENCODERS rec env m f src) bs"
  using assms
proof (cases rule: value_bytes_cases)
  case bool
  have "varint_bytes (unat (if b then 1 else 0 :: u64)) = [if b then 1 else 0]" for b
    by (simp add: varint_bytes_small)
  then have "emits (pb_enc_bool env m src) bs"
    using bool pb_encode_varint_emits [of env "if safe_read_bool m src then 1 else 0"]
    by (simp add: pb_enc_bool_def [abs_def] deref_emits)
  then show ?thesis using bool by (simp add: PB_ENCODERS_def [abs_def])
next
  case (varint v)
  then have "emits (pb_enc_varint env m f src) bs"
    by (simp add: pb_enc_varint_def [abs_def] deref_emits pb_encode_varint_emits)
  then show ?thesis using varint by (simp add: PB_ENCODERS_def [abs_def])
next
  case (uvarint v)
  then have "emits (pb_enc_uvarint env m f src) bs"
    by (simp add: pb_enc_uvarint_def [abs_def] deref_emits pb_encode_varint_emits)
  then show ?thesis using uvarint by (simp add: PB_ENCODERS_def [abs_def])
next
  case (svarint v)
  then have "emits (pb_enc_svarint env m f src) bs"
    by (simp add: pb_enc_svarint_def [abs_def] deref_emits pb_encode_svarint_emits)
  then show ?thesis using svarint by (simp add: PB_ENCODERS_def [abs_def])
next
  case fixed32
  then have "emits (pb_enc_fixed32 env m src) bs"
    using pb_encode_fixed32_emits [of env "load_word m src"]
    by (simp add: pb_enc_fixed32_def [abs_def] deref_emits fixed_load_word)
  then show ?thesis using fixed32 by (simp add: PB_ENCODERS_def [abs_def])
next
  case fixed64
  then have "emits (pb_enc_fixed64 env m src) bs"
    using pb_encode_fixed64_emits [of env "load_word m src"]
    by (simp add: pb_enc_fixed64_def [abs_def] deref_emits fixed_load_word)
  then show ?thesis using fixed64 by (simp add: PB_ENCODERS_def [abs_def])
next
  case (bytes b)
  then show ?thesis using pb_enc_bytes_emits [of m f src b env] by (simp add: PB_ENCODERS_def [abs_def])
next
  case string
  then show ?thesis using pb_enc_string_emits [of env m f src] by (simp add: PB_ENCODERS_def [abs_def])
next
  case (submessage fs b)
  then show ?thesis using enc_submessage_emits [of f fs src b] by (simp add: PB_ENCODERS_def [abs_def])
next
  case fixed_length
  then show ?thesis using fixed_length_bytes_emits [of src f] by (simp add: PB_ENCODERS_def [abs_def])
qed

lemma tagged_emits:
  assumes "tagged f v = Some bs" "\<And>cs. v = Some cs \<Longrightarrow> emits G cs"
  shows "emits (\<lambda>s. and_thenM (Some (pb_encode_tag_for_field env s f)) G) bs"
proof -
  from assms(1) obtain wt cs where wt: "wire_type_of_ltype (PB_LTYPE (f_type f)) = Some wt"
    "v = Some cs" "bs = tag_bytes wt (f_tag f) @ cs"
    by (auto simp: tagged_def split: option.splits)
  have "emits (\<lambda>s. and_thenM (Some (pb_encode_tag env s wt (f_tag f))) G) (tag_bytes wt (f_tag f) @ cs)"
    by (rule emits_seq [OF pb_encode_tag_emits assms(2) [OF wt(2)]])
  then show ?thesis by (simp add: pb_encode_tag_for_field_def wt)
qed

lemma packed_size_eq:
  assumes "concat_opt (map (value_bytes wire m f) (elements f p (unat count))) = Some bs" "length bs < 2 ^ 64"
  shows "packed_size rec env m f p count = Some (True, of_nat (length bs))"
proof -
  have fixed: "length bs = k * unat count"
    if "\<And>src b. value_bytes wire m f src = Some b \<Longrightarrow> length b = k" for k
  proof -
    have "length bs = k * length (map (value_bytes wire m f) (elements f p (unat count)))"
      by (rule concat_opt_length [OF _ assms(1)]) (metis (no_types, lifting) imageE list.set_map that)
    then show ?thesis by (simp add: elements_def)
  qed
  have conv: "(of_nat (k * unat count) :: u64) = of_nat k * ucast count" for k
    by (simp only: of_nat_mult of_nat_unat)
  consider "PB_LTYPE (f_type f) = PB_LTYPE_FIXED32" | "PB_LTYPE (f_type f) = PB_LTYPE_FIXED64"
    | "PB_LTYPE (f_type f) \<noteq> PB_LTYPE_FIXED32" "PB_LTYPE (f_type f) \<noteq> PB_LTYPE_FIXED64" by blast
  then show ?thesis
  proof cases
    case 1
    then have "length bs = 4 * unat count"
      by (intro fixed) (auto simp: value_bytes_def non_null_def split: if_splits)
    then show ?thesis using 1 conv [of 4] by (simp add: packed_size_def)
  next
    case 2
    then have "length bs = 8 * unat count"
      by (intro fixed) (auto simp: value_bytes_def non_null_def split: if_splits)
    then show ?thesis using 2 conv [of 8] by (simp add: packed_size_def)
  next
    case 3
    have "emits (array_loop (PB_ENCODERS rec env m f) (unat (f_data_size f)) p (unat count)) bs"
      using assms(1) by (rule array_loop_emits [rotated]) (rule field_encoder_emits)
    from sizing_pass [OF this assms(2)] show ?thesis
      using 3 by (simp add: packed_size_def bytes_written_sizing del: advance_fields)
  qed
qed

lemma encode_array_emits:
  assumes "array_bytes wire m f p count = Some bs"
  shows "emits (encode_array rec env m f p count) bs"
proof (cases "count = 0")
  case True
  with assms show ?thesis
    by (auto simp: array_bytes_def encode_array_def [abs_def] intro: emits_cong [OF emits_Nil])
next
  case count: False
  with assms have max: "\<not> (PB_ATYPE (f_type f) \<noteq> PB_ATYPE_POINTER \<and> count > f_array_size f)"
    by (auto simp: array_bytes_def)
  show ?thesis
  proof (cases "PB_LTYPE (f_type f) \<le> PB_LTYPE_LAST_PACKABLE")
    case packed: True
    with assms count max obtain cs where
      cs: "concat_opt (map (value_bytes wire m f) (elements f p (unat count))) = Some cs"
      and bs: "bs = tag_bytes PB_WT_STRING (f_tag f) @ prefixed cs"
      by (auto simp: array_bytes_def)
    show ?thesis
    proof (rule emits_short)
      assume "length bs < 2 ^ 64"
      then have len: "length cs < 2 ^ 64" by (simp add: bs prefixed_def)
      have "emits (array_loop (PB_ENCODERS rec env m f) (unat (f_data_size f)) p (unat count)) cs"
        using cs by (rule array_loop_emits [rotated]) (rule field_encoder_emits)
      from emits_seq [OF pb_encode_tag_emits [of env PB_WT_STRING "f_tag f"] prefixed_emits [OF this len, of env]]
      show ?thesis
        using count max packed
        by (simp only: bs encode_array_def [abs_def] packed_size_eq [OF cs len] if_True if_False option.case
            prod.case bool.case)
    qed
  next
    case False
    have "emits (array_loop (\<lambda>p s. and_thenM (Some (pb_encode_tag_for_field env s f)) (\<lambda>s.
            case array_element m f p of None \<Rightarrow> None | Some q \<Rightarrow> PB_ENCODERS rec env m f q s))
          (unat (f_data_size f)) p (unat count)) bs"
    proof (rule array_loop_emits)
      show "concat_opt (map (\<lambda>p. case array_element m f p of None \<Rightarrow> None
          | Some q \<Rightarrow> tagged f (value_bytes wire m f q)) (elements f p (unat count))) = Some bs"
        using assms count max False by (auto simp: array_bytes_def)
    next
      fix p b
      assume "(case array_element m f p of None \<Rightarrow> None | Some q \<Rightarrow> tagged f (value_bytes wire m f q)) = Some b"
      then obtain q where q: "array_element m f p = Some q" "tagged f (value_bytes wire m f q) = Some b"
        by (auto split: option.splits)
      from q(2) show "emits (\<lambda>s. and_thenM (Some (pb_encode_tag_for_field env s f)) (\<lambda>s.
            case array_element m f p of None \<Rightarrow> None | Some q \<Rightarrow> PB_ENCODERS rec env m f q s)) b"
        unfolding q(1) option.case by (rule tagged_emits) (rule field_encoder_emits)
    qed
    then show ?thesis
      using count max False by (simp only: encode_array_def [abs_def] if_True if_False)
  qed
qed

lemma encode_basic_field_emits:
  assumes "basic_field_bytes d wire m f addr = Some bs"
  shows "emits (encode_basic_field d rec env m f addr) bs"
proof -
  define psize where "psize = ptr_offset addr (f_size_offset f)"
  define is_ptr where "is_ptr = (PB_ATYPE (f_type f) = PB_ATYPE_POINTER)"
  define p where "p = (if is_ptr then load_ptr m addr else addr)"
  note defs = psize_def [symmetric] is_ptr_def [symmetric] p_def [symmetric]
  note assms' = assms [unfolded basic_field_bytes_def Let_def defs]
  have put: "emits (\<lambda>s. and_thenM (Some (pb_encode_tag_for_field env s f)) (PB_ENCODERS rec env m f p)) cs"
    if "tagged f (value_bytes wire m f p) = Some cs" for cs
    using that by (rule tagged_emits) (rule field_encoder_emits)
  have nil: "emits (\<lambda>s. Some (True, s)) cs" if "cs = []" for cs :: "byte list"
    using that emits_Nil by simp
  note basic = encode_basic_field_def [abs_def] Let_def defs
  consider (req) "PB_HTYPE (f_type f) = PB_HTYPE_REQUIRED" | (opt) "PB_HTYPE (f_type f) = PB_HTYPE_OPTIONAL"
    | (rep) "PB_HTYPE (f_type f) = PB_HTYPE_REPEATED"
    | (one) "PB_HTYPE (f_type f) \<noteq> PB_HTYPE_REQUIRED" "PB_HTYPE (f_type f) \<noteq> PB_HTYPE_OPTIONAL"
        "PB_HTYPE (f_type f) \<noteq> PB_HTYPE_REPEATED" by blast
  then show ?thesis
  proof cases
    case req
    then have "p \<noteq> 0" "tagged f (value_bytes wire m f p) = Some bs" using assms' by (auto split: if_splits)
    then show ?thesis unfolding basic using req put by simp
  next
    case opt
    then show ?thesis unfolding basic using assms' put nil by (auto split: if_splits option.splits)
  next
    case rep
    then show ?thesis unfolding basic using assms' encode_array_emits [of f p] by (auto split: if_splits)
  next
    case one
    then show ?thesis unfolding basic using assms' put nil by (auto split: if_splits)
  qed
qed

lemma encode_iter_field_emits:
  assumes "field_bytes d wire m (iter_field it) (pData it) = Some bs"
  shows "emits (encode_iter_field d rec env m it) bs"
proof -
  let ?f = "iter_field it" and ?a = "pData it"
  have nil: "emits (\<lambda>s. Some (True, s)) cs" if "cs = []" for cs :: "byte list"
    using that emits_Nil by simp
  have walk: "encode_extensions k d rec env m 0 = (\<lambda>s. Some (True, s))" for k
    by (cases k) (simp_all add: fun_eq_iff)
  note fd = encode_iter_field_def [abs_def] encode_field_def [abs_def] encode_extension_field_def
  consider (ext) "PB_LTYPE (f_type ?f) = PB_LTYPE_EXTENSION" "load_ptr m ?a = 0" "bs = []"
    | (basic) "PB_LTYPE (f_type ?f) \<noteq> PB_LTYPE_EXTENSION" "?a \<noteq> 0"
        "PB_ATYPE (f_type ?f) \<in> {PB_ATYPE_STATIC, PB_ATYPE_POINTER}" "basic_field_bytes d wire m ?f ?a = Some bs"
    | (cb) "PB_LTYPE (f_type ?f) \<noteq> PB_LTYPE_EXTENSION" "?a \<noteq> 0"
        "PB_ATYPE (f_type ?f) = PB_ATYPE_CALLBACK" "load_ptr m (?a + callback_funcs_offset) = 0" "bs = []"
    using assms by (auto simp: field_bytes_def split: if_splits)
  then show ?thesis
  proof cases
    case ext
    then show ?thesis by (simp add: fd walk nil)
  next
    case basic
    then show ?thesis unfolding fd by (auto intro: encode_basic_field_emits deref_emits)
  next
    case cb
    then show ?thesis unfolding fd by (auto simp: deref_def encode_callback_field_def nil)
  qed
qed

end

section \<open>All levels\<close>

lemma pb_encode_emits:
  "message_bytes d m fs src = Some bs \<Longrightarrow> emits (pb_encode d env m fs src) bs"
proof (induction d arbitrary: fs src bs)
  case (Suc d)
  show ?case
  proof (cases "nfields fs = 0")
    case True
    with Suc.prems show ?thesis by (auto simp: begin_iter_at intro: emits_cong [OF emits_Nil])
  next
    case False
    with Suc.prems have src: "src \<noteq> 0" and bytes:
      "concat_opt (map (\<lambda>it. field_bytes (Suc d) (message_bytes d m) m (iter_field it) (pData it))
         (map (iter_at fs src) [0..<nfields fs])) = Some bs"
      by (auto simp: comp_def split: if_splits)
    have loc: "message_encoder (pb_encode d env m) (message_bytes d m)"
      by (rule message_encoder.intro) (rule Suc.IH)
    have "emits (seqM (encode_iter_field (Suc d) (pb_encode d env m) env m) (map (iter_at fs src) [0..<nfields fs])) bs"
      by (rule seqM_emits [OF message_encoder.encode_iter_field_emits [OF loc] bytes])
    with src False show ?thesis
      by (auto simp: begin_iter_at iter_do_while_all fun_eq_iff deref_def elim!: emits_cong)
  qed
qed simp

declare pb_encode.simps [simp del] message_bytes.simps [simp del]

interpretation enc: message_encoder "pb_encode d env m" "message_bytes d m" env m for d env m
  by (rule message_encoder.intro) (rule pb_encode_emits)

lemma pb_encode_submessage_bytes:
  "message_bytes d m fs src = Some bs \<Longrightarrow> emits (pb_encode_submessage (pb_encode d env m) env fs src) (prefixed bs)"
  by (rule pb_encode_submessage_emits) (rule enc.rec_emits)

lemma pb_get_encoded_size_bytes:
  "message_bytes d m fs src = Some bs \<Longrightarrow> length bs < 2 ^ 64 \<Longrightarrow>
     pb_get_encoded_size d env m fs src = Some (Some (of_nat (length bs)))"
  using sizing_pass [OF pb_encode_emits, of d m fs src bs env]
  by (simp add: pb_get_encoded_size_def bytes_written_sizing del: advance_fields)

end
