(* ===== verification/PbIStream.thy ===== *)
theory PbIStream
  imports PbCommon
begin

text \<open>
  Input streams (\<open>pb_decode.h\<close>, and the stream and helper functions of \<open>pb_decode.c\<close>): \<open>pb_read\<close>, the
  varint, zigzag, fixed-width and tag readers, field skipping and substreams.

  A stream's \<open>callback\<close>/\<open>state\<close> pair is one value: \<open>In_buf rest\<close> for \<open>buf_read\<close> with the bytes
  \<open>rest\<close> from \<open>state\<close> on, \<open>In_user u\<close> for a user callback with its state.  A function that returns
  \<open>bool\<close> and fills \<open>*dest\<close> returns an option; \<open>uint_fast8_t\<close> is 8 bits wide on the targets.
\<close>

section \<open>Streams\<close>

datatype 'u in_source = is_In_buf: In_buf "byte list" | is_In_user: In_user 'u

record 'u pb_istream_t =
  isource :: "'u in_source"
  bytes_left :: nat
  ierrmsg :: "string option"

text \<open>
  Code outside the library that the decoder calls: the stream callback (\<open>None\<close> when it returns
  false), the C allocator, the callbacks of callback fields (by function pointer), the \<open>decode\<close>
  member of an extension type (\<open>None\<close> for \<open>NULL\<close>), the field descriptor an extension type's
  \<open>arg\<close> points to; and the stack address of the local \<open>fixed_count_size\<close> of \<open>pb_decode_noinit\<close> at each
  recursion level, which the compiler chooses.
\<close>

record 'u dec_env =
  user_read :: "'u \<Rightarrow> nat \<Rightarrow> byte list option \<times> 'u"
  malloc_at :: allocator
  dec_callback :: "nat \<Rightarrow> 'u pb_istream_t \<Rightarrow> pb_field_t \<Rightarrow> nat \<Rightarrow> cmem \<Rightarrow> bool \<times> 'u pb_istream_t \<times> cmem"
  ext_decode :: "nat \<Rightarrow> ('u pb_istream_t \<Rightarrow> nat \<Rightarrow> u32 \<Rightarrow> pb_wire_type_t \<Rightarrow> cmem \<Rightarrow>
                   bool \<times> 'u pb_istream_t \<times> cmem) option"
  dec_ext_arg :: "nat \<Rightarrow> pb_field_t"
  frame_addr :: "nat \<Rightarrow> nat"

definition pb_istream_from_buffer :: "byte list \<Rightarrow> nat \<Rightarrow> 'u pb_istream_t" where
  "pb_istream_from_buffer buf bufsize = \<lparr>isource = In_buf buf, bytes_left = bufsize, ierrmsg = None\<rparr>"

definition istream_error :: "'u pb_istream_t \<Rightarrow> string \<Rightarrow> 'u pb_istream_t" where
  "istream_error s msg = s\<lparr>ierrmsg := PB_SET_ERROR (ierrmsg s) msg\<rparr>"

definition buf_read :: "byte list \<Rightarrow> nat \<Rightarrow> byte list \<times> byte list" where
  "buf_read source count = (take count source, drop count source)"

text \<open>\<open>stream->callback(stream, buf, count)\<close>: the bytes put into \<open>buf\<close>.\<close>

definition call_istream :: "'u dec_env \<Rightarrow> 'u pb_istream_t \<Rightarrow> nat \<Rightarrow> byte list option \<times> 'u pb_istream_t" where
  "call_istream env s count =
     (case isource s of
        In_buf source \<Rightarrow> (case buf_read source count of (bs, rest) \<Rightarrow> (Some bs, s\<lparr>isource := In_buf rest\<rparr>))
      | In_user u \<Rightarrow> (case user_read env u count of (r, u') \<Rightarrow> (r, s\<lparr>isource := In_user u'\<rparr>)))"

text \<open>\<open>pb_read(stream, buf, count)\<close> for a \<open>buf\<close> that is not \<open>NULL\<close>.\<close>

definition pb_read :: "'u dec_env \<Rightarrow> 'u pb_istream_t \<Rightarrow> nat \<Rightarrow> byte list option \<times> 'u pb_istream_t" where
  "pb_read env s count =
     (if count = 0 then (Some [], s)
      else if bytes_left s < count then (None, istream_error s ''end-of-stream'')
      else on_ok (call_istream env s count)
        (\<lambda>bs s. (Some bs, s\<lparr>bytes_left := bytes_left s - count\<rparr>))
        (\<lambda>s. (None, istream_error s ''io error'')))"

text \<open>\<open>pb_read(stream, NULL, count)\<close>: a user stream skips 16 bytes at a time.\<close>

fun pb_read_skip_user :: "'u dec_env \<Rightarrow> 'u pb_istream_t \<Rightarrow> nat \<Rightarrow> bool \<times> 'u pb_istream_t" where
  "pb_read_skip_user env s count =
     (if count > 16
      then on_ok (pb_read env s 16) (\<lambda>_ s. pb_read_skip_user env s (count - 16)) (\<lambda>s. (False, s))
      else on_ok (pb_read env s count) (\<lambda>_ s. (True, s)) (\<lambda>s. (False, s)))"

declare pb_read_skip_user.simps [simp del]

definition pb_read_null :: "'u dec_env \<Rightarrow> 'u pb_istream_t \<Rightarrow> nat \<Rightarrow> bool \<times> 'u pb_istream_t" where
  "pb_read_null env s count =
     (if count = 0 then (True, s)
      else if is_In_user (isource s) then pb_read_skip_user env s count
      else on_ok (pb_read env s count) (\<lambda>_ s. (True, s)) (\<lambda>s. (False, s)))"

definition pb_readbyte :: "'u dec_env \<Rightarrow> 'u pb_istream_t \<Rightarrow> byte option \<times> 'u pb_istream_t" where
  "pb_readbyte env s =
     (if bytes_left s = 0 then (None, istream_error s ''end-of-stream'')
      else on_ok (call_istream env s 1)
        (\<lambda>bs s. (Some (bs ! 0), s\<lparr>bytes_left := bytes_left s - 1\<rparr>))
        (\<lambda>s. (None, istream_error s ''io error'')))"

lemma istream_error_fields [simp]:
  "isource (istream_error s msg) = isource s" "bytes_left (istream_error s msg) = bytes_left s"
  by (simp_all add: istream_error_def)

lemma call_istream_bytes_left:
  "call_istream env s n = (r, s') \<Longrightarrow> bytes_left s' = bytes_left s"
  by (auto simp: call_istream_def split: in_source.splits prod.splits)

lemma pb_readbyte_Some_less: "pb_readbyte env s = (Some b, s') \<Longrightarrow> Suc (bytes_left s') = bytes_left s"
  by (auto simp: pb_readbyte_def dest!: call_istream_bytes_left split: if_splits on_ok_splits)

section \<open>Varints\<close>

text \<open>
  The multibyte loop of \<open>pb_decode_varint32_eof\<close>: \<open>bitpos\<close> is a \<open>uint_fast8_t\<close> and wraps.  On its end
  the loop hands over \<open>result\<close>, \<open>bitpos\<close> and the last \<open>byte\<close>.
\<close>

definition sign_extension_byte :: "u8 \<Rightarrow> byte" where
  "sign_extension_byte bitpos = (if bitpos < 63 then 0xFF else 0x01)"

function varint32_loop ::
  "'u dec_env \<Rightarrow> 'u pb_istream_t \<Rightarrow> u32 \<Rightarrow> u8 \<Rightarrow> (u32 \<times> u8 \<times> byte) option \<times> 'u pb_istream_t" where
  "varint32_loop env s result bitpos =
     on_ok (pb_readbyte env s)
       (\<lambda>byte s.
          if bitpos \<ge> 32 \<and> byte AND 0x7F \<noteq> 0 \<and>
             (drop_bit 31 result = 0 \<or> byte \<noteq> sign_extension_byte bitpos)
          then (None, istream_error s ''varint overflow'')
          else
            let result' = (if bitpos \<ge> 32 then result
                           else result OR push_bit (unat bitpos) (ucast (byte AND 0x7F)));
                bitpos' = bitpos + 7
            in if byte AND 0x80 \<noteq> 0 then varint32_loop env s result' bitpos'
               else (Some (result', bitpos', byte), s))
       (\<lambda>s. (None, s))"
  by pat_completeness auto
termination
  by (relation "measure (\<lambda>(env, s, _). bytes_left s)") (auto dest: pb_readbyte_Some_less)

declare varint32_loop.simps [simp del]

text \<open>The second component is whether \<open>*eof\<close> is set.\<close>

definition pb_decode_varint32_eof ::
  "'u dec_env \<Rightarrow> 'u pb_istream_t \<Rightarrow> u32 option \<times> bool \<times> 'u pb_istream_t" where
  "pb_decode_varint32_eof env s =
     on_ok (pb_readbyte env s)
       (\<lambda>byte s.
          if byte AND 0x80 = 0 then (Some (ucast byte), False, s)
          else on_ok (varint32_loop env s (ucast (byte AND 0x7F)) 7)
            (\<lambda>(result, bitpos, byte) s.
               if bitpos = 35 \<and> byte AND 0x70 \<noteq> 0
               then (None, False, istream_error s ''varint overflow'')
               else (Some result, False, s))
            (\<lambda>s. (None, False, s)))
       (\<lambda>s. (None, bytes_left s = 0, s))"

definition pb_decode_varint32 :: "'u dec_env \<Rightarrow> 'u pb_istream_t \<Rightarrow> u32 option \<times> 'u pb_istream_t" where
  "pb_decode_varint32 env s = (case pb_decode_varint32_eof env s of (r, eof, s') \<Rightarrow> (r, s'))"

function varint64_loop ::
  "'u dec_env \<Rightarrow> 'u pb_istream_t \<Rightarrow> u64 \<Rightarrow> u8 \<Rightarrow> u64 option \<times> 'u pb_istream_t" where
  "varint64_loop env s result bitpos =
     (if bitpos \<ge> 64 then (None, istream_error s ''varint overflow'')
      else on_ok (pb_readbyte env s)
        (\<lambda>byte s.
           let result' = result OR push_bit (unat bitpos) (ucast (byte AND 0x7F));
               bitpos' = bitpos + 7
           in if byte AND 0x80 \<noteq> 0 then varint64_loop env s result' bitpos' else (Some result', s))
        (\<lambda>s. (None, s)))"
  by pat_completeness auto
termination
  by (relation "measure (\<lambda>(env, s, _). bytes_left s)") (auto dest: pb_readbyte_Some_less)

declare varint64_loop.simps [simp del]

definition pb_decode_varint :: "'u dec_env \<Rightarrow> 'u pb_istream_t \<Rightarrow> u64 option \<times> 'u pb_istream_t" where
  "pb_decode_varint env s = varint64_loop env s 0 0"

lemma pb_read_Some_less: "pb_read env s n = (Some bs, s') \<Longrightarrow> bytes_left s' + n = bytes_left s"
  by (auto simp: pb_read_def dest!: call_istream_bytes_left split: if_splits on_ok_splits)

function pb_skip_varint :: "'u dec_env \<Rightarrow> 'u pb_istream_t \<Rightarrow> bool \<times> 'u pb_istream_t" where
  "pb_skip_varint env s =
     on_ok (pb_read env s 1)
       (\<lambda>bs s. if (bs ! 0) AND 0x80 \<noteq> 0 then pb_skip_varint env s else (True, s))
       (\<lambda>s. (False, s))"
  by pat_completeness auto
termination
  by (relation "measure (\<lambda>(env, s). bytes_left s)") (auto dest: pb_read_Some_less)

declare pb_skip_varint.simps [simp del]

section \<open>Tags, skipping, raw values\<close>

definition pb_skip_string :: "'u dec_env \<Rightarrow> 'u pb_istream_t \<Rightarrow> bool \<times> 'u pb_istream_t" where
  "pb_skip_string env s =
     on_ok (pb_decode_varint32 env s) (\<lambda>len s. pb_read_null env s (unat len)) (\<lambda>s. (False, s))"

definition pb_decode_tag ::
  "'u dec_env \<Rightarrow> 'u pb_istream_t \<Rightarrow> (pb_wire_type_t \<times> u32) option \<times> bool \<times> 'u pb_istream_t" where
  "pb_decode_tag env s =
     (case pb_decode_varint32_eof env s of
        (None, eof, s) \<Rightarrow> (None, eof, s)
      | (Some temp, eof, s) \<Rightarrow>
          if temp = 0 then (None, True, s)
          else (Some (temp AND 7, drop_bit 3 temp), False, s))"

definition pb_skip_field ::
  "'u dec_env \<Rightarrow> 'u pb_istream_t \<Rightarrow> pb_wire_type_t \<Rightarrow> bool \<times> 'u pb_istream_t" where
  "pb_skip_field env s wire_type =
     (if wire_type = PB_WT_VARINT then pb_skip_varint env s
      else if wire_type = PB_WT_64BIT then pb_read_null env s 8
      else if wire_type = PB_WT_STRING then pb_skip_string env s
      else if wire_type = PB_WT_32BIT then pb_read_null env s 4
      else (False, istream_error s ''invalid wire_type''))"

text \<open>The varint case of \<open>read_raw_value\<close>: \<open>room\<close> is what is left of \<open>max_size\<close>.\<close>

fun read_raw_varint ::
  "'u dec_env \<Rightarrow> 'u pb_istream_t \<Rightarrow> nat \<Rightarrow> byte list option \<times> 'u pb_istream_t" where
  "read_raw_varint env s 0 = (None, s)"
| "read_raw_varint env s (Suc room) =
     on_ok (pb_read env s 1)
       (\<lambda>bs s. if (bs ! 0) AND 0x80 \<noteq> 0
               then on_ok (read_raw_varint env s room) (\<lambda>rest s. (Some (bs ! 0 # rest), s)) (\<lambda>s. (None, s))
               else (Some [bs ! 0], s))
       (\<lambda>s. (None, s))"

definition read_raw_value ::
  "'u dec_env \<Rightarrow> 'u pb_istream_t \<Rightarrow> pb_wire_type_t \<Rightarrow> nat \<Rightarrow> byte list option \<times> 'u pb_istream_t" where
  "read_raw_value env s wire_type max_sz =
     (if wire_type = PB_WT_VARINT then read_raw_varint env s max_sz
      else if wire_type = PB_WT_64BIT then pb_read env s 8
      else if wire_type = PB_WT_32BIT then pb_read env s 4
      else (None, istream_error s ''invalid wire_type''))"

definition pb_make_string_substream ::
  "'u dec_env \<Rightarrow> 'u pb_istream_t \<Rightarrow> 'u pb_istream_t option \<times> 'u pb_istream_t" where
  "pb_make_string_substream env s =
     on_ok (pb_decode_varint32 env s)
       (\<lambda>sz s. if bytes_left s < unat sz then (None, istream_error s ''parent stream too short'')
               else (Some (s\<lparr>bytes_left := unat sz\<rparr>), s\<lparr>bytes_left := bytes_left s - unat sz\<rparr>))
       (\<lambda>s. (None, s))"

definition pb_close_string_substream ::
  "'u dec_env \<Rightarrow> 'u pb_istream_t \<Rightarrow> 'u pb_istream_t \<Rightarrow> bool \<times> 'u pb_istream_t" where
  "pb_close_string_substream env s sub =
     (case (if bytes_left sub \<noteq> 0 then pb_read_null env sub (bytes_left sub) else (True, sub)) of
        (False, sub) \<Rightarrow> (False, s)
      | (True, sub) \<Rightarrow> (True, s\<lparr>isource := isource sub, ierrmsg := ierrmsg sub\<rparr>))"

section \<open>Fixed-width and zigzag values\<close>

definition pb_decode_svarint :: "'u dec_env \<Rightarrow> 'u pb_istream_t \<Rightarrow> u64 option \<times> 'u pb_istream_t" where
  "pb_decode_svarint env s =
     on_ok (pb_decode_varint env s)
       (\<lambda>v s. (Some (if v AND 1 \<noteq> 0 then NOT (drop_bit 1 v) else drop_bit 1 v), s))
       (\<lambda>s. (None, s))"

definition fixed32_of_bytes :: "byte list \<Rightarrow> u32" where
  "fixed32_of_bytes bytes =
     push_bit 0 (ucast (bytes ! 0)) OR push_bit 8 (ucast (bytes ! 1)) OR
     push_bit 16 (ucast (bytes ! 2)) OR push_bit 24 (ucast (bytes ! 3))"

definition pb_decode_fixed32 :: "'u dec_env \<Rightarrow> 'u pb_istream_t \<Rightarrow> u32 option \<times> 'u pb_istream_t" where
  "pb_decode_fixed32 env s =
     on_ok (pb_read env s 4) (\<lambda>bytes s. (Some (fixed32_of_bytes bytes), s)) (\<lambda>s. (None, s))"

definition fixed64_of_bytes :: "byte list \<Rightarrow> u64" where
  "fixed64_of_bytes bytes =
     push_bit 0 (ucast (bytes ! 0)) OR push_bit 8 (ucast (bytes ! 1)) OR
     push_bit 16 (ucast (bytes ! 2)) OR push_bit 24 (ucast (bytes ! 3)) OR
     push_bit 32 (ucast (bytes ! 4)) OR push_bit 40 (ucast (bytes ! 5)) OR
     push_bit 48 (ucast (bytes ! 6)) OR push_bit 56 (ucast (bytes ! 7))"

definition pb_decode_fixed64 :: "'u dec_env \<Rightarrow> 'u pb_istream_t \<Rightarrow> u64 option \<times> 'u pb_istream_t" where
  "pb_decode_fixed64 env s =
     on_ok (pb_read env s 8) (\<lambda>bytes s. (Some (fixed64_of_bytes bytes), s)) (\<lambda>s. (None, s))"

text \<open>\<open>pb_dec_bool\<close>'s value: \<open>pb_decode_bool\<close> passes its destination through.\<close>

definition pb_decode_bool :: "'u dec_env \<Rightarrow> 'u pb_istream_t \<Rightarrow> bool option \<times> 'u pb_istream_t" where
  "pb_decode_bool env s =
     on_ok (pb_decode_varint32 env s) (\<lambda>v s. (Some (v \<noteq> 0), s)) (\<lambda>s. (None, s))"

end
