(* ===== verification/PbDecode.thy ===== *)
theory PbDecode
  imports PbIStream
begin

text \<open>
  The message decoder of \<open>pb_decode.c\<close>: default values, releasing, the field decoders (\<open>pb_dec_*\<close>),
  static, pointer, callback and extension fields, \<open>pb_decode_noinit\<close>, \<open>pb_decode\<close> and their variants.

  A decoding step works on the stream and the C memory (\<open>'u dstate\<close>).  As in \<open>PbEncode\<close>, the
  functions that recurse into submessages take the next level as \<open>rec\<close>; \<open>d\<close> bounds the nesting of
  messages and the length of extension lists, and \<open>None\<close> stands for a call that needs more than
  that or whose behaviour is undefined in C (\<open>NULL\<close> dereferenced, \<open>NULL\<close> decoder called, division by
  zero).  What a failing user stream callback may have left in a buffer is not modelled.
\<close>

type_synonym 'u dstate = "'u pb_istream_t \<times> cmem"
type_synonym 'u dresult = "(bool \<times> 'u dstate) option"
type_synonym 'u decoder = "pb_field_t list \<Rightarrow> nat \<Rightarrow> 'u dstate \<Rightarrow> 'u dresult"

definition then_mem :: "cmem option \<Rightarrow> (cmem \<Rightarrow> 'r option) \<Rightarrow> 'r option" where
  "then_mem r k = (case r of None \<Rightarrow> None | Some m \<Rightarrow> k m)"

lemma then_mem_simps [simp, seq_simps]: "then_mem None k = None" "then_mem (Some m) k = k m"
  by (simp_all add: then_mem_def)

lemma then_mem_Some_iff: "then_mem r k = Some x \<longleftrightarrow> (\<exists>m. r = Some m \<and> k m = Some x)"
  by (cases r) simp_all

lemma then_mem_cong [fundef_cong]:
  "r = r' \<Longrightarrow> (\<And>m. r' = Some m \<Longrightarrow> k m = k' m) \<Longrightarrow> then_mem r k = then_mem r' k'"
  by (auto simp: then_mem_def split: option.splits)

section \<open>Extensions\<close>

definition iter_from_extension :: "'u dec_env \<Rightarrow> cmem \<Rightarrow> nat \<Rightarrow> pb_field_iter_t" where
  "iter_from_extension env m extension =
     (let field = dec_ext_arg env (ext_type m extension);
          dest = load_ptr m (ext_dest extension);
          it = (snd (pb_field_iter_begin [field] dest))\<lparr>pData := dest, pSize := ext_found extension\<rparr>
      in if PB_ATYPE (f_type field) = PB_ATYPE_POINTER then it\<lparr>pData := ext_dest extension\<rparr> else it)"

text \<open>\<open>while (ext != NULL) { step(ext); ext = ext->next; }\<close>, for at most \<open>n\<close> extensions.\<close>

fun extension_walk :: "(nat \<Rightarrow> cmem \<Rightarrow> cmem option) \<Rightarrow> nat \<Rightarrow> nat \<Rightarrow> cmem \<Rightarrow> cmem option" where
  "extension_walk step 0 ext m = (if ext = 0 then Some m else None)"
| "extension_walk step (Suc n) ext m =
     (if ext = 0 then Some m
      else then_mem (deref (ext_type m ext) (step ext m)) (\<lambda>m. extension_walk step n (ext_next m ext) m))"

section \<open>Default values\<close>

text \<open>The loop over the fields of a message, for a step that returns no status.\<close>

definition for_all_fields ::
  "(pb_field_iter_t \<Rightarrow> cmem \<Rightarrow> cmem option) \<Rightarrow> pb_field_t list \<Rightarrow> nat \<Rightarrow> cmem \<Rightarrow> cmem option" where
  "for_all_fields step fs dest m =
     (case pb_field_iter_begin fs dest of
        (False, it) \<Rightarrow> Some m
      | (True, it) \<Rightarrow>
          deref dest (map_option snd (iter_do_while (\<lambda>it m. map_option (Pair True) (step it m)) it m)))"

fun pb_field_set_to_default ::
  "nat \<Rightarrow> 'u dec_env \<Rightarrow> pb_field_iter_t \<Rightarrow> cmem \<Rightarrow> cmem option" where
  "pb_field_set_to_default 0 env it m = None"
| "pb_field_set_to_default (Suc d) env it m =
     (let f = iter_field it; type = f_type f in
      if PB_LTYPE type = PB_LTYPE_EXTENSION then
        extension_walk
          (\<lambda>ext m. let m' = store_bool m (ext_found ext) False
                   in pb_field_set_to_default d env (iter_from_extension env m' ext) m')
          d (load_ptr m (pData it)) m
      else if PB_ATYPE type = PB_ATYPE_STATIC then
        let (m, init_data) =
          (if PB_HTYPE type = PB_HTYPE_OPTIONAL \<and> pSize it \<noteq> pData it
           then (store_bool m (pSize it) False, True)
           else if PB_HTYPE type = PB_HTYPE_REPEATED \<or> PB_HTYPE type = PB_HTYPE_ONEOF
           then (store_word m (pSize it) (0 :: pb_size_t), False)
           else (m, True))
        in if init_data then
             if PB_LTYPE type = PB_LTYPE_SUBMESSAGE then
               (case ptr_fields (f_ptr f) of
                  None \<Rightarrow> None
                | Some fs \<Rightarrow> for_all_fields (pb_field_set_to_default d env) fs (pData it) m)
             else (case f_ptr f of
                 Ptr_default bs \<Rightarrow> Some (store_bytes m (pData it) (take (unat (f_data_size f)) bs))
               | Ptr_NULL \<Rightarrow> Some (memset_zero m (pData it) (unat (f_data_size f)))
               | Ptr_fields fs \<Rightarrow> None)
           else Some m
      else if PB_ATYPE type = PB_ATYPE_POINTER then
        let m = store_ptr m (pData it) 0
        in Some (if PB_HTYPE type = PB_HTYPE_REPEATED \<or> PB_HTYPE type = PB_HTYPE_ONEOF
                 then store_word m (pSize it) (0 :: pb_size_t) else m)
      else Some m)"

definition pb_message_set_to_defaults ::
  "nat \<Rightarrow> 'u dec_env \<Rightarrow> pb_field_t list \<Rightarrow> nat \<Rightarrow> cmem \<Rightarrow> cmem option" where
  "pb_message_set_to_defaults d env fs dest m = for_all_fields (pb_field_set_to_default d env) fs dest m"

section \<open>Releasing\<close>

text \<open>\<open>while (count--) { step(pItem); pItem += stride; }\<close>\<close>

primrec item_loop ::
  "(nat \<Rightarrow> cmem \<Rightarrow> cmem option) \<Rightarrow> nat \<Rightarrow> nat \<Rightarrow> nat \<Rightarrow> cmem \<Rightarrow> cmem option" where
  "item_loop step stride p 0 m = Some m"
| "item_loop step stride p (Suc n) m = then_mem (step p m) (item_loop step stride (p + stride) n)"

text \<open>The number of submessages in a field.\<close>

definition release_count :: "pb_field_iter_t \<Rightarrow> cmem \<Rightarrow> pb_size_t" where
  "release_count it m =
     (let f = iter_field it; type = f_type f in
      if PB_HTYPE type = PB_HTYPE_REPEATED then
        let count = (if PB_ATYPE type = PB_ATYPE_STATIC \<and> pSize it = pData it then f_array_size f
                     else load_word m (pSize it))
        in if PB_ATYPE type = PB_ATYPE_STATIC \<and> count > f_array_size f then f_array_size f else count
      else 1)"

text \<open>What a pointer field owns directly: the entries of a string or bytes array, and the field itself.\<close>

definition release_pointer :: "pb_field_iter_t \<Rightarrow> cmem \<Rightarrow> cmem option" where
  "release_pointer it m =
     (let type = f_type (iter_field it) in
      then_mem
        (if PB_HTYPE type = PB_HTYPE_REPEATED \<and> PB_LTYPE type \<in> {PB_LTYPE_STRING, PB_LTYPE_BYTES}
         then item_loop (\<lambda>p m. deref p (Some (store_ptr (pb_free (load_ptr m p) m) p 0))) sizeof_ptr
                (load_ptr m (pData it)) (unat (load_word m (pSize it) :: pb_size_t)) m
         else Some m)
        (\<lambda>m. let m = (if PB_HTYPE type = PB_HTYPE_REPEATED
                      then store_word m (pSize it) (0 :: pb_size_t) else m)
             in Some (store_ptr (pb_free (load_ptr m (pData it)) m) (pData it) 0)))"

text \<open>\<open>pb_release\<close>, for a given release of the fields.\<close>

definition release_message ::
  "(pb_field_iter_t \<Rightarrow> cmem \<Rightarrow> cmem option) \<Rightarrow> pb_field_t list \<Rightarrow> nat \<Rightarrow> cmem \<Rightarrow> cmem option" where
  "release_message step fs dest m = (if dest = 0 then Some m else for_all_fields step fs dest m)"

fun pb_release_single_field ::
  "nat \<Rightarrow> 'u dec_env \<Rightarrow> pb_field_iter_t \<Rightarrow> cmem \<Rightarrow> cmem option" where
  "pb_release_single_field 0 env it m = None"
| "pb_release_single_field (Suc d) env it m =
     (let f = iter_field it; type = f_type f in
      if PB_HTYPE type = PB_HTYPE_ONEOF \<and> load_word m (pSize it) \<noteq> f_tag f then Some m
      else
        then_mem
          (if PB_LTYPE type = PB_LTYPE_EXTENSION then
             extension_walk (\<lambda>ext m. pb_release_single_field d env (iter_from_extension env m ext) m)
               d (load_ptr m (pData it)) m
           else if PB_LTYPE type = PB_LTYPE_SUBMESSAGE \<and> PB_ATYPE type \<noteq> PB_ATYPE_CALLBACK then
             let item = (if PB_ATYPE type = PB_ATYPE_POINTER then load_ptr m (pData it) else pData it) in
             if item = 0 \<or> release_count it m = 0 then Some m
             else (case ptr_fields (f_ptr f) of
                 None \<Rightarrow> None
               | Some fs \<Rightarrow>
                   item_loop (release_message (pb_release_single_field d env) fs) (unat (f_data_size f))
                     item (unat (release_count it m)) m)
           else Some m)
          (\<lambda>m. if PB_ATYPE type = PB_ATYPE_POINTER then release_pointer it m else Some m))"

definition pb_release :: "nat \<Rightarrow> 'u dec_env \<Rightarrow> pb_field_t list \<Rightarrow> nat \<Rightarrow> cmem \<Rightarrow> cmem option" where
  "pb_release d env fs dest m = release_message (pb_release_single_field d env) fs dest m"

text \<open>Before a member of a oneof is overwritten by another one; the iterator ends where it was.\<close>

definition pb_release_union_field ::
  "nat \<Rightarrow> 'u dec_env \<Rightarrow> pb_field_iter_t \<Rightarrow> 'u dstate \<Rightarrow> (bool \<times> pb_field_iter_t \<times> 'u dstate) option" where
  "pb_release_union_field d env it = (\<lambda>(s, m).
     let old_tag = load_word m (pSize it) :: pb_size_t; new_tag = f_tag (iter_field it) in
     if old_tag = 0 \<or> old_tag = new_tag then Some (True, it, s, m)
     else case pb_field_iter_find it old_tag of
         (False, it) \<Rightarrow> Some (False, it, istream_error s ''invalid union tag'', m)
       | (True, it) \<Rightarrow>
           then_mem (pb_release_single_field d env it m) (\<lambda>m.
             case pb_field_iter_find it new_tag of
               (False, it) \<Rightarrow> Some (False, it, istream_error s ''iterator error'', m)
             | (True, it) \<Rightarrow>
                 Some (True, it, s,
                   if PB_ATYPE (f_type (iter_field it)) = PB_ATYPE_POINTER
                   then store_ptr m (pData it) 0 else m)))"

section \<open>Allocation\<close>

definition allocate_field ::
  "'u dec_env \<Rightarrow> nat \<Rightarrow> u64 \<Rightarrow> u64 \<Rightarrow> 'u dstate \<Rightarrow> bool \<times> 'u dstate" where
  "allocate_field env pdata data_sz array_sz = (\<lambda>(s, m).
     let check_limit = push_bit 32 1; size_max = - 1 in
     if data_sz = 0 \<or> array_sz = 0 then (False, istream_error s ''invalid size'', m)
     else if (data_sz \<ge> check_limit \<or> array_sz \<ge> check_limit) \<and> size_max div array_sz < data_sz
     then (False, istream_error s ''size too large'', m)
     else case pb_realloc (malloc_at env) (load_ptr m pdata) (unat (array_sz * data_sz)) m of
         (ptr, m) \<Rightarrow>
           if ptr = 0 then (False, istream_error s ''realloc failed'', m)
           else (True, s, store_ptr m pdata ptr))"

definition initialize_pointer_field ::
  "nat \<Rightarrow> 'u dec_env \<Rightarrow> nat \<Rightarrow> pb_field_t \<Rightarrow> cmem \<Rightarrow> cmem option" where
  "initialize_pointer_field d env item f m =
     (if PB_LTYPE (f_type f) = PB_LTYPE_STRING \<or> PB_LTYPE (f_type f) = PB_LTYPE_BYTES
      then Some (store_ptr m item 0)
      else if PB_LTYPE (f_type f) = PB_LTYPE_SUBMESSAGE then
        (case ptr_fields (f_ptr f) of
           None \<Rightarrow> None
         | Some fs \<Rightarrow>
             pb_message_set_to_defaults d env fs item (memset_zero m item (unat (f_data_size f))))
      else Some m)"

section \<open>Field decoders\<close>

text \<open>A stream function that returns a value, followed by what is done with it.\<close>

definition with_value :: "'a option \<times> 'u pb_istream_t \<Rightarrow> cmem \<Rightarrow>
    ('a \<Rightarrow> 'u dstate \<Rightarrow> bool \<times> 'u dstate) \<Rightarrow> bool \<times> 'u dstate" where
  "with_value r m k = on_ok r (\<lambda>v s. k v (s, m)) (\<lambda>s. (False, s, m))"

definition dec_error :: "string \<Rightarrow> 'u dstate \<Rightarrow> bool \<times> 'u dstate" where
  "dec_error msg = (\<lambda>(s, m). (False, istream_error s msg, m))"

definition pb_dec_bool :: "'u dec_env \<Rightarrow> nat \<Rightarrow> 'u dstate \<Rightarrow> bool \<times> 'u dstate" where
  "pb_dec_bool env dest = (\<lambda>(s, m).
     with_value (pb_decode_bool env s) m (\<lambda>v (s, m). (True, s, store_bool m dest v)))"

text \<open>
  Storing a 64-bit value in an integer of \<open>data_sz\<close> bytes; with it, the value read back by the
  assignment (\<open>clamped\<close>), sign-extended or zero-extended.  \<open>None\<close> for a bad size.
\<close>

definition store_signed :: "cmem \<Rightarrow> nat \<Rightarrow> pb_size_t \<Rightarrow> u64 \<Rightarrow> (u64 \<times> cmem) option" where
  "store_signed m dest data_sz v =
     (if data_sz = 8 then Some (v, store_word m dest v)
      else if data_sz = 4 then Some (scast (ucast v :: 32 word), store_word m dest (ucast v :: 32 word))
      else if data_sz = 2 then Some (scast (ucast v :: 16 word), store_word m dest (ucast v :: 16 word))
      else if data_sz = 1 then Some (scast (ucast v :: 8 word), store_word m dest (ucast v :: 8 word))
      else None)"

definition store_unsigned :: "cmem \<Rightarrow> nat \<Rightarrow> pb_size_t \<Rightarrow> u64 \<Rightarrow> (u64 \<times> cmem) option" where
  "store_unsigned m dest data_sz v =
     (if data_sz = 8 then Some (v, store_word m dest v)
      else if data_sz = 4 then Some (ucast (ucast v :: 32 word), store_word m dest (ucast v :: 32 word))
      else if data_sz = 2 then Some (ucast (ucast v :: 16 word), store_word m dest (ucast v :: 16 word))
      else if data_sz = 1 then Some (ucast (ucast v :: 8 word), store_word m dest (ucast v :: 8 word))
      else None)"

text \<open>The overflow check after the store.\<close>

definition check_clamped :: "(u64 \<times> cmem) option \<Rightarrow> u64 \<Rightarrow> 'u dstate \<Rightarrow> bool \<times> 'u dstate" where
  "check_clamped r v = (\<lambda>(s, m).
     case r of
       None \<Rightarrow> dec_error ''invalid data_size'' (s, m)
     | Some (clamped, m) \<Rightarrow>
         if clamped \<noteq> v then dec_error ''integer too large'' (s, m) else (True, s, m))"

definition pb_dec_varint :: "'u dec_env \<Rightarrow> pb_field_t \<Rightarrow> nat \<Rightarrow> 'u dstate \<Rightarrow> bool \<times> 'u dstate" where
  "pb_dec_varint env f dest = (\<lambda>(s, m).
     with_value (pb_decode_varint env s) m (\<lambda>v (s, m).
       let svalue = (if f_data_size f = 8 then v else scast (ucast v :: 32 word))
       in check_clamped (store_signed m dest (f_data_size f) svalue) svalue (s, m)))"

definition pb_dec_uvarint :: "'u dec_env \<Rightarrow> pb_field_t \<Rightarrow> nat \<Rightarrow> 'u dstate \<Rightarrow> bool \<times> 'u dstate" where
  "pb_dec_uvarint env f dest = (\<lambda>(s, m).
     with_value (pb_decode_varint env s) m (\<lambda>v (s, m).
       check_clamped (store_unsigned m dest (f_data_size f) v) v (s, m)))"

definition pb_dec_svarint :: "'u dec_env \<Rightarrow> pb_field_t \<Rightarrow> nat \<Rightarrow> 'u dstate \<Rightarrow> bool \<times> 'u dstate" where
  "pb_dec_svarint env f dest = (\<lambda>(s, m).
     with_value (pb_decode_svarint env s) m (\<lambda>v (s, m).
       check_clamped (store_signed m dest (f_data_size f) v) v (s, m)))"

definition pb_dec_fixed32 :: "'u dec_env \<Rightarrow> nat \<Rightarrow> 'u dstate \<Rightarrow> bool \<times> 'u dstate" where
  "pb_dec_fixed32 env dest = (\<lambda>(s, m).
     with_value (pb_decode_fixed32 env s) m (\<lambda>v (s, m). (True, s, store_word m dest v)))"

definition pb_dec_fixed64 :: "'u dec_env \<Rightarrow> nat \<Rightarrow> 'u dstate \<Rightarrow> bool \<times> 'u dstate" where
  "pb_dec_fixed64 env dest = (\<lambda>(s, m).
     with_value (pb_decode_fixed64 env s) m (\<lambda>v (s, m). (True, s, store_word m dest v)))"

text \<open>\<open>pb_read(stream, dest, n)\<close> into the memory.\<close>

definition read_into :: "'u dec_env \<Rightarrow> nat \<Rightarrow> nat \<Rightarrow> 'u dstate \<Rightarrow> bool \<times> 'u dstate" where
  "read_into env dest n = (\<lambda>(s, m).
     with_value (pb_read env s n) m (\<lambda>bs (s, m). (True, s, store_bytes m dest bs)))"

text \<open>
  The space for \<open>sz\<close> bytes of content: allocated for a pointer field, checked against the field
  for a static one.  The result is the address of the space.
\<close>

definition dec_space ::
  "'u dec_env \<Rightarrow> pb_field_t \<Rightarrow> nat \<Rightarrow> u32 \<Rightarrow> u64 \<Rightarrow> string \<Rightarrow> 'u dstate \<Rightarrow> nat option \<times> 'u dstate" where
  "dec_space env f dest sz alloc_size msg = (\<lambda>(s, m).
     if PB_ATYPE (f_type f) = PB_ATYPE_POINTER then
       if bytes_left s < unat sz then (None, istream_error s ''end-of-stream'', m)
       else case allocate_field env dest alloc_size 1 (s, m) of
           (False, st) \<Rightarrow> (None, st)
         | (True, s, m) \<Rightarrow> (Some (load_ptr m dest), s, m)
     else if alloc_size > ucast (f_data_size f) then (None, istream_error s msg, m)
     else (Some dest, s, m))"

definition pb_dec_bytes :: "'u dec_env \<Rightarrow> pb_field_t \<Rightarrow> nat \<Rightarrow> 'u dstate \<Rightarrow> bool \<times> 'u dstate" where
  "pb_dec_bytes env f dest = (\<lambda>(s, m).
     with_value (pb_decode_varint32 env s) m (\<lambda>sz (s, m).
       let alloc_size = PB_BYTES_ARRAY_T_ALLOCSIZE (ucast sz) in
       if sz > PB_SIZE_MAX then dec_error ''bytes overflow'' (s, m)
       else if ucast sz > alloc_size then dec_error ''size too large'' (s, m)
       else on_ok (dec_space env f dest sz alloc_size ''bytes overflow'' (s, m))
         (\<lambda>bdest (s, m). read_into env (bdest + offsetof_bytes) (unat sz) (s, store_word m bdest sz))
         (\<lambda>st. (False, st))))"

text \<open>\<open>size + 1\<close> is 32-bit arithmetic.  The terminator is written whether or not reading succeeds.\<close>

definition pb_dec_string :: "'u dec_env \<Rightarrow> pb_field_t \<Rightarrow> nat \<Rightarrow> 'u dstate \<Rightarrow> bool \<times> 'u dstate" where
  "pb_dec_string env f dest = (\<lambda>(s, m).
     with_value (pb_decode_varint32 env s) m (\<lambda>sz (s, m).
       let alloc_size = ucast (sz + 1) :: u64 in
       if alloc_size < ucast sz then dec_error ''size too large'' (s, m)
       else on_ok (dec_space env f dest sz alloc_size ''string overflow'' (s, m))
         (\<lambda>dest st. case read_into env dest (unat sz) st of
            (status, s, m) \<Rightarrow> (status, s, store_bytes m (dest + unat sz) [0]))
         (\<lambda>st. (False, st))))"

definition pb_dec_fixed_length_bytes ::
  "'u dec_env \<Rightarrow> pb_field_t \<Rightarrow> nat \<Rightarrow> 'u dstate \<Rightarrow> bool \<times> 'u dstate" where
  "pb_dec_fixed_length_bytes env f dest = (\<lambda>(s, m).
     with_value (pb_decode_varint32 env s) m (\<lambda>sz (s, m).
       if sz > PB_SIZE_MAX then dec_error ''bytes overflow'' (s, m)
       else if sz = 0 then (True, s, memset_zero m dest (unat (f_data_size f)))
       else if sz \<noteq> f_data_size f then dec_error ''incorrect fixed length bytes size'' (s, m)
       else read_into env dest (unat (f_data_size f)) (s, m)))"

text \<open>\<open>pb_decode\<close>, for a given \<open>pb_decode_noinit\<close> of the same level.\<close>

definition decode_message ::
  "nat \<Rightarrow> 'u dec_env \<Rightarrow> 'u decoder \<Rightarrow> 'u decoder" where
  "decode_message d env noinit fs dest = (\<lambda>(s, m).
     then_mem (pb_message_set_to_defaults d env fs dest m) (\<lambda>m.
       case noinit fs dest (s, m) of
         None \<Rightarrow> None
       | Some (True, st) \<Rightarrow> Some (True, st)
       | Some (False, s, m) \<Rightarrow> map_option (\<lambda>m. (False, s, m)) (pb_release d env fs dest m)))"

text \<open>
  A substream opened on the stream and read by \<open>k\<close>, which either returns from the whole function
  (\<open>Inl\<close>) or goes on to close the substream (\<open>Inr\<close>).
\<close>

definition in_substream ::
  "'u dec_env \<Rightarrow>
     ('u pb_istream_t \<Rightarrow> 'u dstate \<Rightarrow> ((bool \<times> 'u dstate) + (bool \<times> 'u pb_istream_t \<times> 'u dstate)) option) \<Rightarrow>
     'u dstate \<Rightarrow> 'u dresult" where
  "in_substream env k = (\<lambda>(s, m).
     on_ok (pb_make_string_substream env s)
       (\<lambda>sub s.
          case k sub (s, m) of
            None \<Rightarrow> None
          | Some (Inl r) \<Rightarrow> Some r
          | Some (Inr (status, sub, s, m)) \<Rightarrow>
              (case pb_close_string_substream env s sub of
                 (False, s) \<Rightarrow> Some (False, s, m)
               | (True, s) \<Rightarrow> Some (status, s, m)))
       (\<lambda>s. Some (False, s, m)))"

definition pb_dec_submessage ::
  "nat \<Rightarrow> 'u dec_env \<Rightarrow> 'u decoder \<Rightarrow> pb_field_t \<Rightarrow> nat \<Rightarrow> 'u dstate \<Rightarrow> 'u dresult" where
  "pb_dec_submessage d env rec f dest =
     in_substream env (\<lambda>sub (s, m).
       if f_ptr f = Ptr_NULL then Some (Inl (dec_error ''invalid field descriptor'' (s, m)))
       else case ptr_fields (f_ptr f) of
           None \<Rightarrow> None
         | Some fs \<Rightarrow>
             map_option (\<lambda>(status, sub, m). Inr (status, sub, s, m))
               (if PB_HTYPE (f_type f) = PB_HTYPE_REPEATED
                then decode_message d env rec fs dest (sub, m)
                else rec fs dest (sub, m)))"

text \<open>The call \<open>func(stream, iter->pos, dest)\<close> for \<open>func = PB_DECODERS[PB_LTYPE(type)]\<close>.\<close>

definition PB_DECODERS ::
  "nat \<Rightarrow> 'u dec_env \<Rightarrow> 'u decoder \<Rightarrow> pb_field_t \<Rightarrow> nat \<Rightarrow> 'u dstate \<Rightarrow> 'u dresult" where
  "PB_DECODERS d env rec f dest st =
     (let lt = PB_LTYPE (f_type f) in
      if lt = PB_LTYPE_BOOL then Some (pb_dec_bool env dest st)
      else if lt = PB_LTYPE_VARINT then Some (pb_dec_varint env f dest st)
      else if lt = PB_LTYPE_UVARINT then Some (pb_dec_uvarint env f dest st)
      else if lt = PB_LTYPE_SVARINT then Some (pb_dec_svarint env f dest st)
      else if lt = PB_LTYPE_FIXED32 then Some (pb_dec_fixed32 env dest st)
      else if lt = PB_LTYPE_FIXED64 then Some (pb_dec_fixed64 env dest st)
      else if lt = PB_LTYPE_BYTES then Some (pb_dec_bytes env f dest st)
      else if lt = PB_LTYPE_STRING then Some (pb_dec_string env f dest st)
      else if lt = PB_LTYPE_SUBMESSAGE then pb_dec_submessage d env rec f dest st
      else if lt = PB_LTYPE_FIXED_LENGTH_BYTES then Some (pb_dec_fixed_length_bytes env f dest st)
      else None)"

section \<open>Static fields\<close>

text \<open>
  The loop over a packed array: the status and the substream it stops with.  The first argument
  bounds the number of turns; every entry takes at least one byte.
\<close>

fun packed_static_loop ::
  "nat \<Rightarrow> (nat \<Rightarrow> 'u dstate \<Rightarrow> 'u dresult) \<Rightarrow> pb_field_iter_t \<Rightarrow> 'u dstate \<Rightarrow> 'u dresult" where
  "packed_static_loop n func it (sub, m) =
     (let f = iter_field it; sz = load_word m (pSize it) :: pb_size_t in
      if bytes_left sub > 0 \<and> sz < f_array_size f then
        case n of
          0 \<Rightarrow> None
        | Suc n \<Rightarrow>
            and_thenM (func (pData it + unat (f_data_size f * sz)) (sub, m)) (\<lambda>(sub, m).
              packed_static_loop n func it (sub, store_word m (pSize it) ((load_word m (pSize it) :: pb_size_t) + 1)))
      else Some (True, sub, m))"

declare packed_static_loop.simps [simp del]

definition decode_packed_static ::
  "'u dec_env \<Rightarrow> (nat \<Rightarrow> 'u dstate \<Rightarrow> 'u dresult) \<Rightarrow> pb_field_iter_t \<Rightarrow> 'u dstate \<Rightarrow> 'u dresult" where
  "decode_packed_static env func it =
     in_substream env (\<lambda>sub (s, m).
       map_option (\<lambda>(status, sub, m).
           if bytes_left sub \<noteq> 0 then Inl (dec_error ''array overflow'' (s, m))
           else Inr (status, sub, s, m))
         (packed_static_loop (bytes_left sub) func it (sub, m)))"

definition decode_static_field ::
  "nat \<Rightarrow> 'u dec_env \<Rightarrow> 'u decoder \<Rightarrow> pb_wire_type_t \<Rightarrow> pb_field_iter_t \<Rightarrow> 'u dstate \<Rightarrow> 'u dresult" where
  "decode_static_field d env rec wire_type it = (\<lambda>(s, m).
     let f = iter_field it; type = f_type f; func = PB_DECODERS d env rec f in
     if PB_HTYPE type = PB_HTYPE_REQUIRED then func (pData it) (s, m)
     else if PB_HTYPE type = PB_HTYPE_OPTIONAL then
       func (pData it) (s, if pSize it \<noteq> pData it then store_bool m (pSize it) True else m)
     else if PB_HTYPE type = PB_HTYPE_REPEATED then
       if wire_type = PB_WT_STRING \<and> PB_LTYPE type \<le> PB_LTYPE_LAST_PACKABLE then
         decode_packed_static env func it (s, m)
       else
         let sz = load_word m (pSize it) :: pb_size_t; m = store_word m (pSize it) (sz + 1) in
         if sz \<ge> f_array_size f then Some (dec_error ''array overflow'' (s, m))
         else func (pData it + unat (f_data_size f * sz)) (s, m)
     else
       then_mem
         (if PB_LTYPE type = PB_LTYPE_SUBMESSAGE \<and> (load_word m (pSize it) :: pb_size_t) \<noteq> f_tag f then
            let m = memset_zero m (pData it) (unat (f_data_size f)) in
            (case ptr_fields (f_ptr f) of
               None \<Rightarrow> None
             | Some fs \<Rightarrow> pb_message_set_to_defaults d env fs (pData it) m)
          else Some m)
         (\<lambda>m. func (pData it) (s, store_word m (pSize it) (f_tag f))))"

section \<open>Pointer fields\<close>

text \<open>\<open>allocated_size\<close> after the guess at the number of remaining entries.\<close>

definition grow_array :: "nat \<Rightarrow> pb_size_t \<Rightarrow> u64 \<Rightarrow> u64" where
  "grow_array left data_sz allocated_size =
     (let remain = of_nat (left - 1) div ucast data_sz + 1 :: u64 in
      if remain < ucast PB_SIZE_MAX - allocated_size then allocated_size + remain
      else allocated_size + 1)"

text \<open>One turn of the packed loop: room for the entry, then the entry; with the new \<open>allocated_size\<close>.\<close>

definition packed_pointer_item ::
  "nat \<Rightarrow> 'u dec_env \<Rightarrow> (nat \<Rightarrow> 'u dstate \<Rightarrow> 'u dresult) \<Rightarrow> pb_field_iter_t \<Rightarrow> u64 \<Rightarrow> 'u dstate \<Rightarrow>
     (bool \<times> 'u pb_istream_t \<times> u64 \<times> cmem) option" where
  "packed_pointer_item d env func it allocated_size = (\<lambda>(sub, m).
     let f = iter_field it; grow = ucast (load_word m (pSize it) :: pb_size_t) + 1 > allocated_size in
     if grow \<and> f_data_size f = 0 then None
     else
       let allocated_size = (if grow then grow_array (bytes_left sub) (f_data_size f) allocated_size
                             else allocated_size)
       in case (if grow then allocate_field env (pData it) (ucast (f_data_size f)) allocated_size (sub, m)
                else (True, sub, m)) of
           (False, sub, m) \<Rightarrow> Some (False, sub, allocated_size, m)
         | (True, sub, m) \<Rightarrow>
             let item = load_ptr m (pData it) + unat (f_data_size f * (load_word m (pSize it) :: pb_size_t)) in
             then_mem (initialize_pointer_field d env item f m) (\<lambda>m.
               map_option (\<lambda>(ok, sub, m). (ok, sub, allocated_size, m)) (func item (sub, m))))"

text \<open>The loop; \<open>s\<close> is the parent stream, for its error message.\<close>

fun packed_pointer_loop ::
  "nat \<Rightarrow> nat \<Rightarrow> 'u dec_env \<Rightarrow> (nat \<Rightarrow> 'u dstate \<Rightarrow> 'u dresult) \<Rightarrow> pb_field_iter_t \<Rightarrow> u64 \<Rightarrow>
     'u pb_istream_t \<Rightarrow> 'u dstate \<Rightarrow> (bool \<times> 'u pb_istream_t \<times> 'u dstate) option" where
  "packed_pointer_loop n d env func it allocated_size s (sub, m) =
     (if bytes_left sub = 0 then Some (True, s, sub, m)
      else if (load_word m (pSize it) :: pb_size_t) = PB_SIZE_MAX
      then Some (False, s\<lparr>ierrmsg := Some ''too many array entries''\<rparr>, sub, m)
      else case packed_pointer_item d env func it allocated_size (sub, m) of
          None \<Rightarrow> None
        | Some (False, sub, allocated_size, m) \<Rightarrow> Some (False, s, sub, m)
        | Some (True, sub, allocated_size, m) \<Rightarrow>
            (case n of
               0 \<Rightarrow> None
             | Suc n \<Rightarrow>
                 packed_pointer_loop n d env func it allocated_size s
                   (sub, store_word m (pSize it) ((load_word m (pSize it) :: pb_size_t) + 1))))"

declare packed_pointer_loop.simps [simp del]

definition decode_packed_pointer ::
  "nat \<Rightarrow> 'u dec_env \<Rightarrow> (nat \<Rightarrow> 'u dstate \<Rightarrow> 'u dresult) \<Rightarrow> pb_field_iter_t \<Rightarrow> 'u dstate \<Rightarrow> 'u dresult" where
  "decode_packed_pointer d env func it =
     in_substream env (\<lambda>sub (s, m).
       map_option (\<lambda>(status, s, sub, m). Inr (status, sub, s, m))
         (packed_pointer_loop (bytes_left sub) d env func it
           (ucast (load_word m (pSize it) :: pb_size_t)) s (sub, m)))"

definition decode_pointer_field ::
  "nat \<Rightarrow> 'u dec_env \<Rightarrow> 'u decoder \<Rightarrow> pb_wire_type_t \<Rightarrow> pb_field_iter_t \<Rightarrow> 'u dstate \<Rightarrow> 'u dresult" where
  "decode_pointer_field d env rec wire_type it = (\<lambda>(s, m).
     let f = iter_field it; type = f_type f; func = PB_DECODERS d env rec f in
     if PB_HTYPE type = PB_HTYPE_REPEATED then
       if wire_type = PB_WT_STRING \<and> PB_LTYPE type \<le> PB_LTYPE_LAST_PACKABLE then
         decode_packed_pointer d env func it (s, m)
       else
         let sz = load_word m (pSize it) :: pb_size_t in
         if sz = PB_SIZE_MAX then Some (dec_error ''too many array entries'' (s, m))
         else
           and_thenM (Some (allocate_field env (pData it) (ucast (f_data_size f)) (ucast (sz + 1)) (s, m)))
             (\<lambda>(s, m).
               let sz = load_word m (pSize it) :: pb_size_t;
                   item = load_ptr m (pData it) + unat (f_data_size f * sz);
                   m = store_word m (pSize it) (sz + 1)
               in then_mem (initialize_pointer_field d env item f m) (\<lambda>m. func item (s, m)))
     else
       then_mem
         (if PB_LTYPE type = PB_LTYPE_SUBMESSAGE \<and> load_ptr m (pData it) \<noteq> 0
          then pb_release_single_field d env it m else Some m)
         (\<lambda>m. let m = (if PB_HTYPE type = PB_HTYPE_ONEOF then store_word m (pSize it) (f_tag f) else m) in
           if PB_LTYPE type = PB_LTYPE_STRING \<or> PB_LTYPE type = PB_LTYPE_BYTES
           then func (pData it) (s, m)
           else
             and_thenM (Some (allocate_field env (pData it) (ucast (f_data_size f)) 1 (s, m))) (\<lambda>(s, m).
               then_mem (initialize_pointer_field d env (load_ptr m (pData it)) f m)
                 (\<lambda>m. func (load_ptr m (pData it)) (s, m)))))"

section \<open>Callback fields\<close>

text \<open>
  \<open>do { decode } while (substream.bytes_left)\<close>, for at most \<open>n\<close> calls: a callback that keeps
  returning true without reading makes the loop endless.
\<close>

fun callback_loop ::
  "nat \<Rightarrow> ('u dstate \<Rightarrow> bool \<times> 'u dstate) \<Rightarrow> 'u dstate \<Rightarrow> 'u dresult" where
  "callback_loop 0 decode st = None"
| "callback_loop (Suc n) decode st =
     and_thenM (Some (decode st)) (\<lambda>(sub, m).
       if bytes_left sub \<noteq> 0 then callback_loop n decode (sub, m) else Some (True, sub, m))"

definition decode_string_callback ::
  "'u dec_env \<Rightarrow> ('u dstate \<Rightarrow> bool \<times> 'u dstate) \<Rightarrow> 'u dstate \<Rightarrow> 'u dresult" where
  "decode_string_callback env decode =
     in_substream env (\<lambda>sub (s, m).
       map_option (\<lambda>(ok, sub, m).
           if ok then Inr (True, sub, s, m) else Inl (dec_error ''callback failed'' (s, m)))
         (callback_loop (Suc (bytes_left sub)) decode (sub, m)))"

definition decode_callback_field ::
  "'u dec_env \<Rightarrow> pb_wire_type_t \<Rightarrow> pb_field_iter_t \<Rightarrow> 'u dstate \<Rightarrow> 'u dresult" where
  "decode_callback_field env wire_type it = (\<lambda>(s, m).
     let callback = pData it; funcs = load_ptr m (callback + callback_funcs_offset);
         arg = callback + callback_arg_offset;
         decode = (\<lambda>(sub, m). dec_callback env (load_ptr m (callback + callback_funcs_offset)) sub
                                (iter_field it) arg m)
     in if callback = 0 \<or> funcs = 0
        then Some (case pb_skip_field env s wire_type of (ok, s) \<Rightarrow> (ok, s, m))
        else if wire_type = PB_WT_STRING then
          decode_string_callback env decode (s, m)
        else
          on_ok (read_raw_value env s wire_type 10)
            (\<lambda>buffer s. Some (case decode (pb_istream_from_buffer buffer (length buffer), m) of
               (ok, sub, m) \<Rightarrow> (ok, s, m)))
            (\<lambda>s. Some (False, s, m)))"

section \<open>Fields of any kind\<close>

text \<open>The \<open>switch\<close> on the allocation type.\<close>

definition decode_by_atype ::
  "nat \<Rightarrow> 'u dec_env \<Rightarrow> 'u decoder \<Rightarrow> pb_wire_type_t \<Rightarrow> pb_field_iter_t \<Rightarrow> 'u dstate \<Rightarrow> 'u dresult" where
  "decode_by_atype d env rec wire_type it st =
     (let atype = PB_ATYPE (f_type (iter_field it)) in
      if atype = PB_ATYPE_STATIC then decode_static_field d env rec wire_type it st
      else if atype = PB_ATYPE_POINTER then decode_pointer_field d env rec wire_type it st
      else if atype = PB_ATYPE_CALLBACK then decode_callback_field env wire_type it st
      else Some (dec_error ''invalid field type'' st))"

text \<open>The iterator is passed by reference; the one it becomes is part of the result.\<close>

definition decode_field ::
  "nat \<Rightarrow> 'u dec_env \<Rightarrow> 'u decoder \<Rightarrow> pb_wire_type_t \<Rightarrow> pb_field_iter_t \<Rightarrow> 'u dstate \<Rightarrow>
     (bool \<times> pb_field_iter_t \<times> 'u dstate) option" where
  "decode_field d env rec wire_type it st =
     deref (pData it)
      (case (if PB_HTYPE (f_type (iter_field it)) = PB_HTYPE_ONEOF
             then pb_release_union_field d env it st else Some (True, it, st)) of
        None \<Rightarrow> None
      | Some (False, it, st) \<Rightarrow> Some (False, it, st)
      | Some (True, it, st) \<Rightarrow>
          map_option (\<lambda>(ok, st). (ok, it, st)) (decode_by_atype d env rec wire_type it st))"

definition default_extension_decoder ::
  "nat \<Rightarrow> 'u dec_env \<Rightarrow> 'u decoder \<Rightarrow> nat \<Rightarrow> u32 \<Rightarrow> pb_wire_type_t \<Rightarrow> 'u dstate \<Rightarrow> 'u dresult" where
  "default_extension_decoder d env rec extension tag wire_type = (\<lambda>(s, m).
     if f_tag (dec_ext_arg env (ext_type m extension)) \<noteq> tag then Some (True, s, m)
     else
       let it = iter_from_extension env m extension; m = store_bool m (ext_found extension) True
       in map_option (\<lambda>(ok, it, st). (ok, st)) (decode_field d env rec wire_type it (s, m)))"

text \<open>The walk over the extensions, until one of them reads something; \<open>pos\<close> is \<open>bytes_left\<close> before it.\<close>

fun decode_extensions ::
  "nat \<Rightarrow> nat \<Rightarrow> 'u dec_env \<Rightarrow> 'u decoder \<Rightarrow> nat \<Rightarrow> nat \<Rightarrow> u32 \<Rightarrow> pb_wire_type_t \<Rightarrow> 'u dstate \<Rightarrow> 'u dresult" where
  "decode_extensions n d env rec pos extension tag wire_type (s, m) =
     (if extension \<noteq> 0 \<and> pos = bytes_left s then
        case n of
          0 \<Rightarrow> None
        | Suc n \<Rightarrow>
            deref (ext_type m extension)
              (and_thenM
                (case ext_decode env (ext_type m extension) of
                   Some decode \<Rightarrow> Some (decode s extension tag wire_type m)
                 | None \<Rightarrow> default_extension_decoder d env rec extension tag wire_type (s, m))
                (\<lambda>(s, m). decode_extensions n d env rec pos (ext_next m extension) tag wire_type (s, m)))
      else Some (True, s, m))"

declare decode_extensions.simps [simp del]

definition decode_extension ::
  "nat \<Rightarrow> 'u dec_env \<Rightarrow> 'u decoder \<Rightarrow> u32 \<Rightarrow> pb_wire_type_t \<Rightarrow> pb_field_iter_t \<Rightarrow> 'u dstate \<Rightarrow> 'u dresult" where
  "decode_extension d env rec tag wire_type it = (\<lambda>(s, m).
     decode_extensions d d env rec (bytes_left s) (load_ptr m (pData it)) tag wire_type (s, m))"

text \<open>Like \<open>pb_field_iter_find\<close>, the search is bounded by the number of fields.\<close>

fun find_extension_field_loop :: "nat \<Rightarrow> nat \<Rightarrow> pb_field_iter_t \<Rightarrow> bool \<times> pb_field_iter_t" where
  "find_extension_field_loop 0 start it = (False, it)"
| "find_extension_field_loop (Suc n) start it =
     (if PB_LTYPE (f_type (iter_field it)) = PB_LTYPE_EXTENSION then (True, it)
      else let it' = snd (pb_field_iter_next it) in
        if iter_pos it' \<noteq> start then find_extension_field_loop n start it' else (False, it'))"

definition find_extension_field :: "pb_field_iter_t \<Rightarrow> bool \<times> pb_field_iter_t" where
  "find_extension_field it = find_extension_field_loop (Suc (length (iter_start it))) (iter_pos it) it"

section \<open>Messages\<close>

text \<open>The local variables of \<open>pb_decode_noinit\<close>; \<open>fixed_count_field\<close> is a position, \<open>None\<close> for \<open>NULL\<close>.\<close>

record noinit_state =
  n_iter :: pb_field_iter_t
  fields_seen :: "u32 list"
  extension_range_start :: u32
  fixed_count_field :: "nat option"

text \<open>How one turn of the loop ends: it goes on, leaves the loop, or returns false.\<close>

datatype loop_exit = Continue | Break | Return_false

text \<open>A tag no field has: extensions are tried, then the field is skipped.\<close>

definition unknown_field ::
  "nat \<Rightarrow> 'u dec_env \<Rightarrow> 'u decoder \<Rightarrow> u32 \<Rightarrow> pb_wire_type_t \<Rightarrow> noinit_state \<Rightarrow> 'u dstate \<Rightarrow>
     (loop_exit \<times> noinit_state \<times> 'u dstate) option" where
  "unknown_field d env rec tag wire_type v = (\<lambda>(s, m).
     let skip = (\<lambda>v (s, m). case pb_skip_field env s wire_type of
           (ok, s) \<Rightarrow> Some (if ok then Continue else Return_false, v, s, m))
     in if tag \<ge> extension_range_start v then
          let (found, it) = find_extension_field (n_iter v);
              v = v\<lparr>n_iter := it, extension_range_start := (if found then f_tag (iter_field it) else - 1)\<rparr>
          in if tag \<ge> extension_range_start v then
               (case decode_extension d env rec tag wire_type it (s, m) of
                  None \<Rightarrow> None
                | Some (False, st) \<Rightarrow> Some (Return_false, v, st)
                | Some (True, s', m') \<Rightarrow>
                    if bytes_left s \<noteq> bytes_left s' then Some (Continue, v, s', m')
                    else skip v (s', m'))
             else skip v (s, m)
        else skip v (s, m))"

text \<open>\<open>fixed_count_field != NULL && fixed_count_size != fixed_count_field->array_size\<close>.\<close>

definition fixed_count_wrong :: "nat \<Rightarrow> noinit_state \<Rightarrow> cmem \<Rightarrow> bool" where
  "fixed_count_wrong count_addr v m =
     (case fixed_count_field v of
        None \<Rightarrow> False
      | Some k \<Rightarrow> (load_word m count_addr :: pb_size_t) \<noteq> f_array_size (field_at (iter_start (n_iter v)) k))"

text \<open>
  A field of the message: for a fixed-count array the counter is the local variable at
  \<open>frame_addr env d\<close>, and a required field is marked as seen.
\<close>

definition known_field ::
  "nat \<Rightarrow> 'u dec_env \<Rightarrow> 'u decoder \<Rightarrow> pb_wire_type_t \<Rightarrow> noinit_state \<Rightarrow> 'u dstate \<Rightarrow>
     (loop_exit \<times> noinit_state \<times> 'u dstate) option" where
  "known_field d env rec wire_type v = (\<lambda>(s, m).
     let it = n_iter v; type = f_type (iter_field it); count_addr = frame_addr env d;
         fixed = (PB_HTYPE type = PB_HTYPE_REPEATED \<and> pSize it = pData it);
         change = (fixed \<and> fixed_count_field v \<noteq> Some (iter_pos it))
     in if change \<and> fixed_count_wrong count_addr v m
        then Some (Return_false, v, istream_error s ''wrong size for fixed count field'', m)
        else
          let m = (if change then store_word m count_addr (0 :: pb_size_t) else m);
              it = (if fixed then it\<lparr>pSize := count_addr\<rparr> else it);
              i = required_field_index it;
              seen = (if PB_HTYPE type = PB_HTYPE_REQUIRED \<and> i < PB_MAX_REQUIRED_FIELDS
                      then (fields_seen v)[i div 32 := fields_seen v ! (i div 32) OR push_bit (i mod 32) 1]
                      else fields_seen v);
              v = v\<lparr>n_iter := it, fields_seen := seen,
                    fixed_count_field := (if change then Some (iter_pos it) else fixed_count_field v)\<rparr>
          in map_option (\<lambda>(ok, it, st). (if ok then Continue else Return_false, v\<lparr>n_iter := it\<rparr>, st))
               (decode_field d env rec wire_type it (s, m)))"

definition decode_turn ::
  "nat \<Rightarrow> 'u dec_env \<Rightarrow> 'u decoder \<Rightarrow> noinit_state \<Rightarrow> 'u dstate \<Rightarrow>
     (loop_exit \<times> noinit_state \<times> 'u dstate) option" where
  "decode_turn d env rec v = (\<lambda>(s, m).
     case pb_decode_tag env s of
       (None, eof, s) \<Rightarrow> Some (if eof then Break else Return_false, v, s, m)
     | (Some (wire_type, tag), eof, s) \<Rightarrow>
         case pb_field_iter_find (n_iter v) tag of
           (False, it) \<Rightarrow> unknown_field d env rec tag wire_type (v\<lparr>n_iter := it\<rparr>) (s, m)
         | (True, it) \<Rightarrow> known_field d env rec wire_type (v\<lparr>n_iter := it\<rparr>) (s, m))"

text \<open>\<open>while (stream->bytes_left)\<close>, for at most \<open>n\<close> turns; the status is false when the loop returns.\<close>

fun decode_loop ::
  "nat \<Rightarrow> nat \<Rightarrow> 'u dec_env \<Rightarrow> 'u decoder \<Rightarrow> noinit_state \<Rightarrow> 'u dstate \<Rightarrow>
     (bool \<times> noinit_state \<times> 'u dstate) option" where
  "decode_loop n d env rec v (s, m) =
     (if bytes_left s = 0 then Some (True, v, s, m)
      else case n of
          0 \<Rightarrow> None
        | Suc n \<Rightarrow>
            (case decode_turn d env rec v (s, m) of
               None \<Rightarrow> None
             | Some (Continue, v, st) \<Rightarrow> decode_loop n d env rec v st
             | Some (Break, v, st) \<Rightarrow> Some (True, v, st)
             | Some (Return_false, v, st) \<Rightarrow> Some (False, v, st)))"

declare decode_loop.simps [simp del]

text \<open>
  \<open>do { ... } while (pb_field_iter_next(&iter))\<close>: \<open>required_field_index\<close> and the type at the last
  field, and the iterator at the end; bounded by the number of fields.
\<close>

fun seek_end :: "nat \<Rightarrow> pb_field_iter_t \<Rightarrow> nat \<times> pb_type_t \<times> pb_field_iter_t" where
  "seek_end n it =
     (case pb_field_iter_next it of
        (True, it') \<Rightarrow> (case n of
            0 \<Rightarrow> (required_field_index it, f_type (iter_field it), it')
          | Suc n \<Rightarrow> seek_end n it')
      | (False, it') \<Rightarrow> (required_field_index it, f_type (iter_field it), it'))"

declare seek_end.simps [simp del]

definition required_field_count :: "pb_field_iter_t \<Rightarrow> nat" where
  "required_field_count it =
     (case seek_end (length (iter_start it)) it of
        (count, last_type, it) \<Rightarrow>
          min PB_MAX_REQUIRED_FIELDS
            (if PB_HTYPE last_type = PB_HTYPE_REQUIRED \<and> f_tag (iter_field it) \<noteq> 0 then count + 1 else count))"

definition all_required_seen :: "nat \<Rightarrow> u32 list \<Rightarrow> bool" where
  "all_required_seen count seen \<longleftrightarrow>
     (let allbits = - 1 in
      list_all (\<lambda>i. seen ! i = allbits) [0 ..< count div 32] \<and>
      (count mod 32 \<noteq> 0 \<longrightarrow> seen ! (count div 32) = drop_bit (32 - count mod 32) allbits))"

definition noinit_checks ::
  "nat \<Rightarrow> 'u dec_env \<Rightarrow> noinit_state \<Rightarrow> 'u dstate \<Rightarrow> bool \<times> 'u dstate" where
  "noinit_checks d env v = (\<lambda>(s, m).
     if fixed_count_wrong (frame_addr env d) v m
     then dec_error ''wrong size for fixed count field'' (s, m)
     else if \<not> all_required_seen (required_field_count (n_iter v)) (fields_seen v)
     then dec_error ''missing required field'' (s, m)
     else (True, s, m))"

fun pb_decode_noinit :: "nat \<Rightarrow> 'u dec_env \<Rightarrow> 'u decoder" where
  "pb_decode_noinit 0 env fs dest st = None"
| "pb_decode_noinit (Suc d) env fs dest (s, m) =
     deref dest
      (let v = \<lparr>n_iter = snd (pb_field_iter_begin fs dest), fields_seen = [0, 0],
                extension_range_start = 0, fixed_count_field = None\<rparr>;
           m = store_word m (frame_addr env (Suc d)) (0 :: pb_size_t)
       in case decode_loop (bytes_left s) (Suc d) env (pb_decode_noinit d env) v (s, m) of
            None \<Rightarrow> None
          | Some (False, v, st) \<Rightarrow> Some (False, st)
          | Some (True, v, st) \<Rightarrow> Some (noinit_checks (Suc d) env v st))"

definition pb_decode :: "nat \<Rightarrow> 'u dec_env \<Rightarrow> 'u decoder" where
  "pb_decode d env fs dest st = decode_message d env (pb_decode_noinit d env) fs dest st"

definition pb_decode_delimited_noinit :: "nat \<Rightarrow> 'u dec_env \<Rightarrow> 'u decoder" where
  "pb_decode_delimited_noinit d env fs dest =
     in_substream env (\<lambda>sub (s, m).
       map_option (\<lambda>(status, sub, m). Inr (status, sub, s, m)) (pb_decode_noinit d env fs dest (sub, m)))"

definition pb_decode_delimited :: "nat \<Rightarrow> 'u dec_env \<Rightarrow> 'u decoder" where
  "pb_decode_delimited d env fs dest =
     in_substream env (\<lambda>sub (s, m).
       map_option (\<lambda>(status, sub, m). Inr (status, sub, s, m)) (pb_decode d env fs dest (sub, m)))"

definition pb_decode_nullterminated :: "nat \<Rightarrow> 'u dec_env \<Rightarrow> 'u decoder" where
  "pb_decode_nullterminated d env fs dest st = pb_decode d env fs dest st"

end
