(* ===== verification/PbIStreamProps.thy ===== *)
theory PbIStreamProps
  imports PbIStream PbOStream
begin

text \<open>
  What the input functions do to a stream.  \<open>consumes\<close> is the safety contract: an operation takes a
  prefix of what is left and never reads past \<open>bytes_left\<close>.  \<open>reads\<close> is the functional one: on a
  buffer that starts with the bytes \<open>bs\<close> it returns the value and leaves the rest, which gives
  the round trips with the encoders of \<open>PbOStream\<close>.
\<close>

section \<open>Consuming a prefix\<close>

definition consumes :: "'u pb_istream_t \<Rightarrow> 'u pb_istream_t \<Rightarrow> bool" where
  "consumes s s' \<longleftrightarrow>
     (\<exists>k \<le> bytes_left s. bytes_left s' = bytes_left s - k \<and>
        (case isource s of In_buf r \<Rightarrow> isource s' = In_buf (drop k r)
                         | In_user u \<Rightarrow> is_In_user (isource s')))"

text \<open>A buffer stream whose limit lies inside the buffer.\<close>

definition in_bounds :: "'u pb_istream_t \<Rightarrow> bool" where
  "in_bounds s \<longleftrightarrow> (case isource s of In_buf r \<Rightarrow> bytes_left s \<le> length r | In_user u \<Rightarrow> True)"

lemma consumes_refl [simp]: "consumes s s"
  by (auto simp: consumes_def split: in_source.splits)

lemma consumes_trans [trans]: "consumes s t \<Longrightarrow> consumes t u \<Longrightarrow> consumes s u"
proof -
  assume "consumes s t" "consumes t u"
  then obtain k l where "k \<le> bytes_left s" "bytes_left t = bytes_left s - k"
     "case isource s of In_buf r \<Rightarrow> isource t = In_buf (drop k r) | In_user u \<Rightarrow> is_In_user (isource t)"
     "l \<le> bytes_left t" "bytes_left u = bytes_left t - l"
     "case isource t of In_buf r \<Rightarrow> isource u = In_buf (drop l r) | In_user v \<Rightarrow> is_In_user (isource u)"
    by (auto simp: consumes_def)
  then show "consumes s u"
    unfolding consumes_def
    by (intro exI [of _ "k + l"]) (auto simp: add.commute split: in_source.splits)
qed

lemma consumesI:
  assumes "k \<le> bytes_left s" "bytes_left s' = bytes_left s - k"
    "\<And>r. isource s = In_buf r \<Longrightarrow> isource s' = In_buf (drop k r)"
    "\<And>u. isource s = In_user u \<Longrightarrow> is_In_user (isource s')"
  shows "consumes s s'"
  unfolding consumes_def using assms by (cases "isource s") auto

lemma consumes_cong:
  "isource t = isource t' \<Longrightarrow> bytes_left t = bytes_left t' \<Longrightarrow> consumes s t = consumes s t'"
  "isource t = isource t' \<Longrightarrow> bytes_left t = bytes_left t' \<Longrightarrow> consumes t s = consumes t' s"
  by (simp_all add: consumes_def cong: in_source.case_cong)

lemma consumes_errmsg [simp]:
  "consumes s (istream_error t msg) = consumes s t"
  "consumes s (t\<lparr>ierrmsg := e\<rparr>) = consumes s t"
  "consumes (s\<lparr>ierrmsg := e\<rparr>) t = consumes s t"
  by (rule consumes_cong, simp_all)+

lemma consumes_bytes_left: "consumes s s' \<Longrightarrow> bytes_left s' \<le> bytes_left s"
  by (auto simp: consumes_def)

lemma consumes_in_bounds: "consumes s s' \<Longrightarrow> in_bounds s \<Longrightarrow> in_bounds s'"
  by (auto simp: consumes_def in_bounds_def split: in_source.splits)

text \<open>Sequencing: what comes after a call consumes from where the call stopped.\<close>

lemma on_ok_consumes:
  assumes "on_ok x k e = (r, s')" "\<And>v t. x = (v, t) \<Longrightarrow> consumes s t"
    "\<And>a t. x = (Some a, t) \<Longrightarrow> k a t = (r, s') \<Longrightarrow> consumes t s'"
    "\<And>t. x = (None, t) \<Longrightarrow> e t = (r, s') \<Longrightarrow> consumes t s'"
  shows "consumes s s'"
  using assms by (cases x; cases "fst x") (auto simp: on_ok_def intro: consumes_trans)

lemma call_istream_cases:
  assumes "call_istream env s n = (r, s')"
  shows "(\<exists>src. isource s = In_buf src \<and> r = Some (take n src) \<and> s' = s\<lparr>isource := In_buf (drop n src)\<rparr>) \<or>
     (\<exists>u u'. isource s = In_user u \<and> s' = s\<lparr>isource := In_user u'\<rparr>)"
  using assms by (auto simp: call_istream_def buf_read_def split: in_source.splits prod.splits)

lemma call_istream_consumes:
  assumes "call_istream env s n = (Some bs, t)" "n \<le> bytes_left s"
  shows "consumes s (t\<lparr>bytes_left := bytes_left t - n\<rparr>)"
  using call_istream_cases [OF assms(1)] assms(2) by (auto intro!: consumesI [of n])

lemma call_istream_fails:
  "call_istream env s n = (None, t) \<Longrightarrow> consumes s t"
  using call_istream_cases [of env s n None t] by (auto intro!: consumesI [of 0])

lemma pb_read_consumes: "pb_read env s n = (r, s') \<Longrightarrow> consumes s s'"
  unfolding pb_read_def
  by (auto split: if_splits on_ok_splits dest: call_istream_consumes call_istream_fails)

lemma pb_readbyte_consumes: "pb_readbyte env s = (r, s') \<Longrightarrow> consumes s s'"
  unfolding pb_readbyte_def
  by (auto split: if_splits on_ok_splits simp del: One_nat_def
      dest: call_istream_consumes [of _ _ 1] call_istream_fails)

lemma pb_read_skip_user_consumes: "pb_read_skip_user env s n = (ok, s') \<Longrightarrow> consumes s s'"
proof (induction env s n arbitrary: ok s' rule: pb_read_skip_user.induct)
  case (1 env s n)
  show ?case
  proof (cases "n > 16")
    case True
    with "1.prems" have "on_ok (pb_read env s 16) (\<lambda>_ s. pb_read_skip_user env s (n - 16)) (\<lambda>s. (False, s)) = (ok, s')"
      by (simp add: pb_read_skip_user.simps [of env s n])
    then show ?thesis
      by (rule on_ok_consumes) (auto dest: pb_read_consumes "1.IH" [OF True])
  next
    case False
    with "1.prems" show ?thesis
      by (auto simp: pb_read_skip_user.simps [of env s n] split: on_ok_splits dest: pb_read_consumes)
  qed
qed

lemma pb_read_null_consumes: "pb_read_null env s n = (ok, s') \<Longrightarrow> consumes s s'"
  by (auto simp: pb_read_null_def split: if_splits on_ok_splits
      dest: pb_read_skip_user_consumes pb_read_consumes)

lemma varint32_loop_consumes: "varint32_loop env s r p = (v, s') \<Longrightarrow> consumes s s'"
proof (induction env s r p arbitrary: v s' rule: varint32_loop.induct)
  case (1 env s r p)
  note IH = "1.IH" [OF _ _ refl refl]
  from "1.prems" show ?case
    unfolding varint32_loop.simps [of env s r p] Let_def
    by (rule on_ok_consumes) (auto dest: pb_readbyte_consumes IH split: if_splits)
qed

lemma varint64_loop_consumes: "varint64_loop env s r p = (v, s') \<Longrightarrow> consumes s s'"
proof (induction env s r p arbitrary: v s' rule: varint64_loop.induct)
  case (1 env s r p)
  note IH = "1.IH" [OF _ _ refl refl]
  show ?case
  proof (cases "p \<ge> 64")
    case True
    with "1.prems" show ?thesis by (auto simp: varint64_loop.simps [of env s r p])
  next
    case False
    with "1.prems" show ?thesis
      unfolding varint64_loop.simps [of env s r p] Let_def if_not_P [OF False]
      by (elim on_ok_consumes) (auto dest: pb_readbyte_consumes IH split: if_splits)
  qed
qed

lemma pb_skip_varint_consumes: "pb_skip_varint env s = (ok, s') \<Longrightarrow> consumes s s'"
proof (induction env s arbitrary: ok s' rule: pb_skip_varint.induct)
  case (1 env s)
  from "1.prems" show ?case
    unfolding pb_skip_varint.simps [of env s]
    by (rule on_ok_consumes) (auto dest: pb_read_consumes "1.IH" split: if_splits simp del: One_nat_def)
qed

lemma read_raw_varint_consumes: "read_raw_varint env s n = (r, s') \<Longrightarrow> consumes s s'"
proof (induction n arbitrary: s r s')
  case (Suc n)
  from Suc.prems show ?case
    unfolding read_raw_varint.simps
    by (rule on_ok_consumes)
      (auto dest: pb_read_consumes Suc.IH split: if_splits on_ok_splits)
qed simp

lemma pb_decode_varint32_eof_consumes:
  assumes "pb_decode_varint32_eof env s = (r, eof, s')"
  shows "consumes s s'"
proof (cases "pb_readbyte env s")
  case (Pair b t)
  then have t: "consumes s t" by (rule pb_readbyte_consumes)
  moreover have "consumes t s'"
    using assms Pair unfolding pb_decode_varint32_eof_def
    by (auto split: on_ok_splits if_splits dest!: varint32_loop_consumes)
  ultimately show ?thesis by (rule consumes_trans)
qed

lemma pb_decode_varint32_consumes: "pb_decode_varint32 env s = (r, s') \<Longrightarrow> consumes s s'"
  by (auto simp: pb_decode_varint32_def split: prod.splits dest: pb_decode_varint32_eof_consumes)

lemma pb_decode_varint_consumes: "pb_decode_varint env s = (r, s') \<Longrightarrow> consumes s s'"
  by (auto simp: pb_decode_varint_def dest: varint64_loop_consumes)

lemma pb_decode_svarint_consumes: "pb_decode_svarint env s = (r, s') \<Longrightarrow> consumes s s'"
  by (auto simp: pb_decode_svarint_def split: on_ok_splits dest: pb_decode_varint_consumes)

lemma pb_decode_fixed_consumes:
  "pb_decode_fixed32 env s = (r, s') \<Longrightarrow> consumes s s'"
  "pb_decode_fixed64 env s = (q, t) \<Longrightarrow> consumes s t"
  by (auto simp: pb_decode_fixed32_def pb_decode_fixed64_def split: on_ok_splits dest: pb_read_consumes)

lemma pb_decode_bool_consumes: "pb_decode_bool env s = (r, s') \<Longrightarrow> consumes s s'"
  by (auto simp: pb_decode_bool_def split: on_ok_splits dest: pb_decode_varint32_consumes)

lemma pb_decode_tag_consumes: "pb_decode_tag env s = (r, eof, s') \<Longrightarrow> consumes s s'"
  by (auto simp: pb_decode_tag_def split: prod.splits option.splits if_splits
      dest: pb_decode_varint32_eof_consumes)

lemma pb_skip_string_consumes: "pb_skip_string env s = (ok, s') \<Longrightarrow> consumes s s'"
  unfolding pb_skip_string_def
  by (erule on_ok_consumes) (auto dest: pb_decode_varint32_consumes pb_read_null_consumes)

lemma pb_skip_field_consumes: "pb_skip_field env s wt = (ok, s') \<Longrightarrow> consumes s s'"
  by (auto simp: pb_skip_field_def split: if_splits
      dest: pb_skip_varint_consumes pb_read_null_consumes pb_skip_string_consumes)

lemma read_raw_value_consumes: "read_raw_value env s wt n = (r, s') \<Longrightarrow> consumes s s'"
  by (auto simp: read_raw_value_def split: if_splits dest: read_raw_varint_consumes pb_read_consumes)

section \<open>Reading what a buffer starts with\<close>

text \<open>\<open>reads F bs v\<close>: from a buffer that starts with \<open>bs\<close>, \<open>F\<close> takes exactly \<open>bs\<close> and returns \<open>v\<close>.\<close>

definition eat :: "nat \<Rightarrow> 'u pb_istream_t \<Rightarrow> 'u pb_istream_t" where
  "eat n s = s\<lparr>isource := (case isource s of In_buf r \<Rightarrow> In_buf (drop n r) | x \<Rightarrow> x),
               bytes_left := bytes_left s - n\<rparr>"

definition starts_with :: "'u pb_istream_t \<Rightarrow> byte list \<Rightarrow> bool" where
  "starts_with s bs \<longleftrightarrow> length bs \<le> bytes_left s \<and> (\<exists>rest. isource s = In_buf (bs @ rest))"

definition reads :: "('u pb_istream_t \<Rightarrow> 'a option \<times> 'u pb_istream_t) \<Rightarrow> byte list \<Rightarrow> 'a \<Rightarrow> bool" where
  "reads F bs v \<longleftrightarrow> (\<forall>s. starts_with s bs \<longrightarrow> F s = (Some v, eat (length bs) s))"

definition skips :: "('u pb_istream_t \<Rightarrow> bool \<times> 'u pb_istream_t) \<Rightarrow> byte list \<Rightarrow> bool" where
  "skips F bs \<longleftrightarrow> (\<forall>s. starts_with s bs \<longrightarrow> F s = (True, eat (length bs) s))"

lemma eat_0 [simp]: "eat 0 s = s"
  by (simp add: eat_def split: in_source.splits)

lemma eat_eat [simp]: "eat n (eat m s) = eat (m + n) s"
  by (simp add: eat_def add.commute split: in_source.splits)

lemma eat_fields [simp]:
  "bytes_left (eat n s) = bytes_left s - n" "ierrmsg (eat n s) = ierrmsg s"
  "is_In_user (isource (eat n s)) = is_In_user (isource s)"
  by (simp_all add: eat_def split: in_source.splits)

lemma starts_with_append:
  "starts_with s (xs @ ys) \<longleftrightarrow> starts_with s xs \<and> starts_with (eat (length xs) s) ys"
  by (auto simp: starts_with_def eat_def)

lemma starts_with_buf: "starts_with s bs \<Longrightarrow> \<not> is_In_user (isource s)"
  by (auto simp: starts_with_def)

lemma starts_with_from_buffer [simp]:
  "starts_with (pb_istream_from_buffer (bs @ rest) n) bs \<longleftrightarrow> length bs \<le> n"
  by (auto simp: starts_with_def pb_istream_from_buffer_def)

lemma readsD: "reads F bs v \<Longrightarrow> starts_with s bs \<Longrightarrow> F s = (Some v, eat (length bs) s)"
  by (simp add: reads_def)

lemma skipsD: "skips F bs \<Longrightarrow> starts_with s bs \<Longrightarrow> F s = (True, eat (length bs) s)"
  by (simp add: skips_def)

lemma reads_then:
  assumes "reads F xs v" and "reads (k v) ys w"
  shows "reads (\<lambda>s. on_ok (F s) k e) (xs @ ys) w"
  using assms by (auto simp: reads_def starts_with_append)

lemma reads_return:
  assumes "reads F xs v" and "\<And>s. k v s = (Some w, s)"
  shows "reads (\<lambda>s. on_ok (F s) k e) xs w"
  using assms by (auto simp: reads_def)

lemma reads_skips:
  assumes "reads F xs v" and "skips (k v) ys"
  shows "skips (\<lambda>s. on_ok (F s) k e) (xs @ ys)"
  using assms by (auto simp: reads_def skips_def starts_with_append)

lemma reads_skip_return:
  assumes "reads F xs v" and "\<And>s. k v s = (True, s)"
  shows "skips (\<lambda>s. on_ok (F s) k e) xs"
  using assms by (auto simp: reads_def skips_def)

lemma pb_read_reads: "length bs = n \<Longrightarrow> reads (\<lambda>s. pb_read env s n) bs bs"
  by (auto simp: reads_def starts_with_def pb_read_def call_istream_def buf_read_def eat_def)

lemma pb_readbyte_reads: "reads (pb_readbyte env) [b] b"
  by (auto simp: reads_def starts_with_def pb_readbyte_def call_istream_def buf_read_def eat_def)

lemma pb_read_null_skips: "length bs = n \<Longrightarrow> skips (\<lambda>s. pb_read_null env s n) bs"
  using pb_read_reads [of bs n env]
  by (auto simp: skips_def reads_def pb_read_null_def dest: starts_with_buf)

section \<open>Decoding varints\<close>

lemma varint64_loop_reads:
  assumes "unat p < 64" "n < 2 ^ (64 - unat p)"
  shows "reads (\<lambda>s. varint64_loop env s r p) (varint_bytes n) (r OR push_bit (unat p) (of_nat n))"
  using assms
proof (induction n arbitrary: r p rule: varint_bytes.induct)
  case (1 n)
  have p: "\<not> p \<ge> 64" using "1.prems" by (simp add: word_le_nat_alt)
  show ?case
  proof (cases "n < 128")
    case True
    show ?thesis
      unfolding varint_bytes_small [OF True] varint64_loop.simps [of env _ r p] if_not_P [OF p]
      by (rule reads_return [OF pb_readbyte_reads]) (simp add: last_byte True Let_def)
  next
    case False
    have "(128 :: nat) = 2 ^ 7" by simp
    with False "1.prems"(2) have "(2::nat) ^ 7 < 2 ^ (64 - unat p)" by linarith
    then have "7 < 64 - unat p" by (rule power_less_imp_less_exp [rotated]) simp
    then have p7: "unat p + 7 < 64" by simp
    then have up: "unat (p + 7) = unat p + 7" by (simp add: unat_word_ariths)
    have less: "n div 128 < 2 ^ (64 - unat (p + 7))"
    proof -
      have "64 - unat p = (64 - unat (p + 7)) + 7" using p7 up by simp
      then have "2 ^ (64 - unat p) = (2::nat) ^ (64 - unat (p + 7)) * 128"
        by (simp only: power_add) simp
      with "1.prems"(2) show ?thesis by (simp add: less_mult_imp_div_less)
    qed
    have IH: "reads (\<lambda>s. varint64_loop env s r' (p + 7)) (varint_bytes (n div 128))
        (r' OR push_bit (unat p + 7) (of_nat (n div 128)))" for r'
      using "1.IH" [OF False _ less] p7 by (simp only: up)
    have eq: "(r OR push_bit (unat p) (of_nat (n mod 128))) OR push_bit (unat p + 7) (of_nat (n div 128))
        = r OR push_bit (unat p) (of_nat n)"
      by (subst of_nat_split7 [of n]) (simp only: push_bit_or push_bit_push_bit or.assoc)
    have "reads (\<lambda>s. varint64_loop env s r p) ([of_nat (n mod 128 + 128)] @ varint_bytes (n div 128))
        (r OR push_bit (unat p) (of_nat n))"
      unfolding varint64_loop.simps [of env _ r p] if_not_P [OF p]
      using IH [of "r OR push_bit (unat p) (of_nat (n mod 128))"]
      by (intro reads_then [OF pb_readbyte_reads]) (simp only: Let_def cont_byte eq not_False_eq_True if_True simp_thms)
    then show ?thesis using False by (simp only: varint_bytes_step not_less append_Cons append_Nil)
  qed
qed

lemma pb_decode_varint_reads: "reads (pb_decode_varint env) (varint_bytes (unat v)) v"
  using varint64_loop_reads [of 0 "unat v" env 0] unat_less [of v]
  by (simp add: pb_decode_varint_def [abs_def])

text \<open>
  The 32-bit loop: from \<open>bitpos\<close> at most 28, a number that fits what is left of the 32 bits is
  read whole, and the last byte passes the check for a fifth byte.
\<close>

lemma varint32_loop_reads:
  assumes "unat p \<le> 28" "7 dvd unat p" "n < 2 ^ (32 - unat p)"
  shows "\<exists>p' b. (p' = 35 \<longrightarrow> b AND 0x70 = 0) \<and>
    reads (\<lambda>s. varint32_loop env s r p) (varint_bytes n) (r OR push_bit (unat p) (of_nat n), p', b)"
  using assms
proof (induction n arbitrary: r p rule: varint_bytes.induct)
  case (1 n)
  have p: "\<not> p \<ge> 32" using "1.prems" by (simp add: word_le_nat_alt)
  show ?case
  proof (cases "n < 128")
    case True
    have "reads (\<lambda>s. varint32_loop env s r p) [of_nat n] (r OR push_bit (unat p) (of_nat n), p + 7, of_nat n)"
      unfolding varint32_loop.simps [of env _ r p]
      by (rule reads_return [OF pb_readbyte_reads]) (simp add: last_byte True Let_def p)
    moreover have "(of_nat n :: byte) AND 0x70 = 0" if "p + 7 = 35"
    proof -
      have "p = 35 - 7" using that by (simp only: eq_diff_eq)
      then have "p = 28" by simp
      with "1.prems" have n16: "n < 16" by simp
      then have "take_bit 4 (of_nat n :: byte) = of_nat n"
        by (simp add: word_unat_eq_iff unat_take_bit unat_of_nat del: take_bit_of_nat)
      then have "(of_nat n :: byte) AND 0x70 = (of_nat n AND mask 4) AND 0x70"
        by (simp only: take_bit_eq_mask)
      then show ?thesis by (simp add: and.assoc mask_eq_exp_minus_1)
    qed
    ultimately show ?thesis unfolding varint_bytes_small [OF True] by blast
  next
    case False
    have "(128 :: nat) = 2 ^ 7" by simp
    with False "1.prems"(3) have "(2::nat) ^ 7 < 2 ^ (32 - unat p)" by linarith
    then have "7 < 32 - unat p" by (rule power_less_imp_less_exp [rotated]) simp
    then have p7: "unat p + 7 \<le> 28" using "1.prems"(2) by auto
    then have up: "unat (p + 7) = unat p + 7" by (simp add: unat_word_ariths)
    have less: "n div 128 < 2 ^ (32 - unat (p + 7))"
    proof -
      have "32 - unat p = (32 - unat (p + 7)) + 7" using p7 up by simp
      then have "2 ^ (32 - unat p) = (2::nat) ^ (32 - unat (p + 7)) * 128"
        by (simp only: power_add) simp
      with "1.prems"(3) show ?thesis by (simp add: less_mult_imp_div_less)
    qed
    define r' where "r' = r OR push_bit (unat p) (of_nat (n mod 128))"
    have eq: "r' OR push_bit (unat p + 7) (of_nat (n div 128)) = r OR push_bit (unat p) (of_nat n)"
      unfolding r'_def
      by (subst of_nat_split7 [of n]) (simp only: push_bit_or push_bit_push_bit or.assoc)
    have "7 dvd unat (p + 7)" using "1.prems"(2) by (simp add: up)
    from "1.IH" [OF False _ this less, of r'] p7 obtain p' b where
      b: "p' = 35 \<longrightarrow> b AND 0x70 = 0" and
      IH: "reads (\<lambda>s. varint32_loop env s r' (p + 7)) (varint_bytes (n div 128))
        (r OR push_bit (unat p) (of_nat n), p', b)"
      by (auto simp only: up eq)
    have "reads (\<lambda>s. varint32_loop env s r p) ([of_nat (n mod 128 + 128)] @ varint_bytes (n div 128))
        (r OR push_bit (unat p) (of_nat n), p', b)"
      unfolding varint32_loop.simps [of env _ r p]
      using IH p
      by (intro reads_then [OF pb_readbyte_reads])
        (simp only: Let_def cont_byte r'_def not_False_eq_True if_True if_False simp_thms)
    with b show ?thesis using False by (auto simp only: varint_bytes_step not_less append_Cons append_Nil)
  qed
qed

lemma pb_decode_varint32_eof_reads:
  assumes "n < 2 ^ 32" "starts_with s (varint_bytes n)"
  shows "pb_decode_varint32_eof env s = (Some (of_nat n), False, eat (length (varint_bytes n)) s)"
proof (cases "n < 128")
  case True
  then show ?thesis
    using readsD [OF pb_readbyte_reads, of s "of_nat n" env] assms(2)
    by (simp add: varint_bytes_small pb_decode_varint32_eof_def last_byte)
next
  case False
  define r :: u32 where "r = of_nat (n mod 128)"
  have "n div 128 < 2 ^ (32 - unat (7 :: u8))" using assms(1) by (simp add: less_mult_imp_div_less)
  from varint32_loop_reads [OF _ _ this, of env r] obtain p' b where
    b: "p' = 35 \<longrightarrow> b AND 0x70 = 0" and
    loop: "reads (\<lambda>s. varint32_loop env s r 7) (varint_bytes (n div 128))
      (r OR push_bit 7 (of_nat (n div 128)), p', b)"
    by auto
  define c :: byte where "c = of_nat (n mod 128 + 128)"
  have vb: "varint_bytes n = c # varint_bytes (n div 128)"
    using False by (simp only: varint_bytes_step not_less c_def)
  with assms(2) have c: "starts_with s [c]" and rest: "starts_with (eat 1 s) (varint_bytes (n div 128))"
    using starts_with_append [of s "[c]" "varint_bytes (n div 128)"] by auto
  have "pb_readbyte env s = (Some c, eat 1 s)"
    using readsD [OF pb_readbyte_reads c] by simp
  moreover have "c AND 0x80 \<noteq> 0" "ucast (c AND 0x7F) = r" by (simp_all only: cont_byte r_def c_def not_False_eq_True)
  moreover have "r OR push_bit 7 (of_nat (n div 128)) = of_nat n"
    unfolding r_def of_nat_split7 [of n, where 'a = 32] ..
  ultimately show ?thesis
    using readsD [OF loop rest] b
    by (simp add: pb_decode_varint32_eof_def vb del: push_bit_of_nat)
qed

lemma pb_decode_varint32_reads: "n < 2 ^ 32 \<Longrightarrow> reads (pb_decode_varint32 env) (varint_bytes n) (of_nat n)"
  by (simp add: reads_def pb_decode_varint32_def pb_decode_varint32_eof_reads)

lemma pb_decode_varint32_reads_u32: "reads (pb_decode_varint32 env) (varint_bytes (unat v)) v"
  using pb_decode_varint32_reads [of "unat v" env] unat_less [of v] by simp

section \<open>The other readers\<close>

lemma bit_zigzag:
  "bit (zigzag v) n \<longleftrightarrow> n < 64 \<and> (if sint v < 0 then n = 0 \<or> \<not> bit v (n - 1) else 0 < n \<and> bit v (n - 1))"
proof -
  have "bit (push_bit 1 v) n \<longleftrightarrow> n < 64 \<and> 0 < n \<and> bit v (n - 1)"
    by (simp only: bit_push_bit_iff) (auto dest: bit_imp_le_length)
  then show ?thesis by (auto simp only: zigzag_def bit_not_iff split: if_splits) simp_all
qed

lemma unzigzag:
  "(if zigzag v AND 1 \<noteq> 0 then NOT (drop_bit 1 (zigzag v)) else drop_bit 1 (zigzag v)) = v"
proof -
  have "zigzag v AND 1 \<noteq> 0 \<longleftrightarrow> bit (zigzag v) 0"
    by (simp add: and_one_eq bit_0 mod_2_eq_odd)
  also have "\<dots> \<longleftrightarrow> sint v < 0" by (simp add: bit_zigzag)
  finally have neg: "zigzag v AND 1 \<noteq> 0 \<longleftrightarrow> sint v < 0" .
  have top: "sint v < 0 \<longleftrightarrow> bit v 63" using bit_last_iff [of v] by simp
  have dropped: "bit (drop_bit 1 (zigzag v)) n \<longleftrightarrow> n < 63 \<and> (if sint v < 0 then \<not> bit v n else bit v n)" for n
    by (auto simp: bit_drop_bit_eq bit_zigzag)
  show ?thesis
  proof (cases "sint v < 0")
    case True
    have "NOT (drop_bit 1 (zigzag v)) = v"
      by (rule bit_word_eqI) (use True top dropped in \<open>auto simp: bit_not_iff less_Suc_eq [of _ 63, simplified]\<close>)
    then show ?thesis using True neg by simp
  next
    case False
    have "drop_bit 1 (zigzag v) = v"
      by (rule bit_word_eqI) (use False top dropped in \<open>auto simp: less_Suc_eq [of _ 63, simplified]\<close>)
    then show ?thesis using False neg by simp
  qed
qed

lemma pb_decode_svarint_reads: "reads (pb_decode_svarint env) (varint_bytes (unat (zigzag v))) v"
  unfolding pb_decode_svarint_def [abs_def]
  by (rule reads_return [OF pb_decode_varint_reads]) (simp only: unzigzag)

lemma or_push_bit_8: "(ucast (b :: byte) :: 'a::len word) OR push_bit 8 (of_nat m) = of_nat (unat b + 256 * m)"
proof -
  have "(unat b + 256 * m) div 256 = m" using unat_byte_less [of b] by simp
  then show ?thesis using of_nat_split [of "unat b + 256 * m" 8, where 'a = 'a] by simp
qed

lemma fixed32_of_bytes_le: "length bs = 4 \<Longrightarrow> fixed32_of_bytes bs = of_nat (of_le bs)"
proof -
  assume "length bs = 4"
  then obtain a b c d where bs: "bs = [a, b, c, d]"
    by (auto simp: length_Suc_conv numeral_eq_Suc)
  have "fixed32_of_bytes bs =
      ucast a OR push_bit 8 (ucast b OR push_bit 8 (ucast c OR push_bit 8 (ucast d OR push_bit 8 (of_nat 0))))"
    by (simp add: bs fixed32_of_bytes_def push_bit_or or.assoc)
  then show ?thesis unfolding or_push_bit_8 bs by simp
qed

lemma fixed64_of_bytes_le: "length bs = 8 \<Longrightarrow> fixed64_of_bytes bs = of_nat (of_le bs)"
proof -
  assume "length bs = 8"
  then obtain a b c d e f g h where bs: "bs = [a, b, c, d, e, f, g, h]"
    by (auto simp: length_Suc_conv numeral_eq_Suc)
  have "fixed64_of_bytes bs = ucast a OR push_bit 8 (ucast b OR push_bit 8 (ucast c OR push_bit 8 (ucast d OR
      push_bit 8 (ucast e OR push_bit 8 (ucast f OR push_bit 8 (ucast g OR push_bit 8 (ucast h OR
      push_bit 8 (of_nat 0))))))))"
    by (simp add: bs fixed64_of_bytes_def push_bit_or or.assoc)
  then show ?thesis unfolding or_push_bit_8 bs by simp
qed

lemma fixed32_of_bytes_bytes [simp]: "fixed32_of_bytes (fixed32_bytes v) = v"
  using unat_less [of v] by (simp add: fixed32_bytes_le fixed32_of_bytes_le of_le_to_le)

lemma fixed64_of_bytes_bytes [simp]: "fixed64_of_bytes (fixed64_bytes v) = v"
  using unat_less [of v] by (simp add: fixed64_bytes_le fixed64_of_bytes_le of_le_to_le)

lemma pb_decode_fixed32_reads: "reads (pb_decode_fixed32 env) (fixed32_bytes v) v"
  unfolding pb_decode_fixed32_def [abs_def]
  by (rule reads_return [OF pb_read_reads]) (simp_all add: fixed32_bytes_def [THEN arg_cong [of _ _ length]])

lemma pb_decode_fixed64_reads: "reads (pb_decode_fixed64 env) (fixed64_bytes v) v"
  unfolding pb_decode_fixed64_def [abs_def]
  by (rule reads_return [OF pb_read_reads]) (simp_all add: fixed64_bytes_def [THEN arg_cong [of _ _ length]])

lemma pb_decode_bool_reads: "reads (pb_decode_bool env) [if b then 1 else 0] b"
proof -
  have "varint_bytes (unat (if b then 1 else 0 :: u32)) = [if b then 1 else 0]"
    by (simp add: varint_bytes_small)
  moreover have "reads (pb_decode_bool env) (varint_bytes (unat (if b then 1 else 0 :: u32))) b"
    unfolding pb_decode_bool_def [abs_def]
    by (rule reads_return [OF pb_decode_varint32_reads_u32]) simp
  ultimately show ?thesis by simp
qed

section \<open>Tags, skipping and substreams\<close>

lemma pb_decode_tag_reads:
  assumes "unat wt < 8" "unat fn < 2 ^ 29" "fn \<noteq> 0" "starts_with s (tag_bytes wt fn)"
  shows "pb_decode_tag env s = (Some (wt, fn), False, eat (length (tag_bytes wt fn)) s)"
proof -
  let ?n = "8 * unat fn + unat wt"
  have n: "unat (tag_word wt fn) = ?n" using assms(1) by (rule unat_tag_word)
  have less: "?n < 2 ^ 32" using assms(1,2) by simp
  have u: "unat (of_nat ?n :: u32) = ?n" using less by (intro unat_of_nat_small) simp
  have "unat fn \<noteq> 0" using assms(3) by (simp add: unat_eq_zero)
  then have "(of_nat ?n :: u32) \<noteq> 0" using u by (metis add_eq_0_iff_both_eq_0 mult_eq_0_iff unat_0 zero_neq_numeral)
  moreover have "unat ((of_nat ?n :: u32) AND mask 3) = unat wt"
    unfolding unat_and_mask u using assms(1) by simp
  then have "(of_nat ?n :: u32) AND 7 = wt" by (simp add: word_unat_eq_iff mask_eq_exp_minus_1)
  moreover have "unat (drop_bit 3 (of_nat ?n :: u32)) = unat fn"
    unfolding unat_drop_bit u using assms(1) by simp
  then have "drop_bit 3 (of_nat ?n :: u32) = fn" by (simp add: word_unat_eq_iff)
  moreover have "pb_decode_varint32_eof env s = (Some (of_nat ?n), False, eat (length (tag_bytes wt fn)) s)"
    using pb_decode_varint32_eof_reads [OF less] assms(4) by (simp add: tag_bytes_def n)
  ultimately show ?thesis by (simp only: pb_decode_tag_def prod.case option.case if_False)
qed

lemma pb_skip_varint_skips: "skips (pb_skip_varint env) (varint_bytes n)"
proof (induction n rule: varint_bytes.induct)
  case (1 n)
  let ?k = "\<lambda>bs s. if (bs ! 0) AND 0x80 \<noteq> 0 then pb_skip_varint env s else (True, s)"
  have unfold: "pb_skip_varint env s = on_ok (pb_read env s 1) ?k (\<lambda>s. (False, s))" for s
    by (rule pb_skip_varint.simps)
  have "skips (\<lambda>s. on_ok (pb_read env s 1) ?k (\<lambda>s. (False, s))) (varint_bytes n)"
  proof (cases "n < 128")
    case True
    show ?thesis unfolding varint_bytes_small [OF True]
      by (rule reads_skip_return [OF pb_read_reads]) (simp_all add: last_byte True)
  next
    case False
    define c :: byte where "c = of_nat (n mod 128 + 128)"
    have c: "c AND 0x80 \<noteq> 0" by (simp only: c_def cont_byte not_False_eq_True)
    have vb: "varint_bytes n = [c] @ varint_bytes (n div 128)"
      using False by (simp add: varint_bytes_step c_def del: of_nat_add)
    show ?thesis unfolding vb
      by (rule reads_skips [OF pb_read_reads]) (use "1.IH" [OF False] c in simp_all)
  qed
  then show ?case by (simp add: skips_def unfold)
qed

lemma pb_skip_string_skips:
  assumes "length bs < 2 ^ 32"
  shows "skips (pb_skip_string env) (varint_bytes (length bs) @ bs)"
  unfolding pb_skip_string_def [abs_def]
  using assms by (intro reads_skips [OF pb_decode_varint32_reads] pb_read_null_skips) (simp_all add: unat_of_nat)

text \<open>The bytes a field's value occupies on the wire, by wire type.\<close>

inductive wire_value :: "pb_wire_type_t \<Rightarrow> byte list \<Rightarrow> bool" where
  varint: "wire_value PB_WT_VARINT (varint_bytes n)"
| fixed64: "length bs = 8 \<Longrightarrow> wire_value PB_WT_64BIT bs"
| string: "length bs < 2 ^ 32 \<Longrightarrow> wire_value PB_WT_STRING (varint_bytes (length bs) @ bs)"
| fixed32: "length bs = 4 \<Longrightarrow> wire_value PB_WT_32BIT bs"

lemma pb_skip_field_skips: "wire_value wt bs \<Longrightarrow> skips (\<lambda>s. pb_skip_field env s wt) bs"
  by (cases rule: wire_value.cases)
    (auto simp: pb_skip_field_def pb_skip_varint_skips pb_skip_string_skips pb_read_null_skips)

lemma pb_make_string_substream_reads:
  assumes "starts_with s (varint_bytes (length bs) @ bs)" "length bs < 2 ^ 32"
  defines "t \<equiv> eat (length (varint_bytes (length bs))) s"
  shows "pb_make_string_substream env s =
    (Some (t\<lparr>bytes_left := length bs\<rparr>), t\<lparr>bytes_left := bytes_left t - length bs\<rparr>)"
    "starts_with t bs"
proof -
  show t: "starts_with t bs" using assms(1) by (simp add: starts_with_append t_def)
  have u: "unat (of_nat (length bs) :: u32) = length bs" using assms(2) by (intro unat_of_nat_small) simp
  have "pb_decode_varint32 env s = (Some (of_nat (length bs)), t)"
    using readsD [OF pb_decode_varint32_reads [OF assms(2), of env]] assms(1) by (simp add: starts_with_append t_def)
  then show "pb_make_string_substream env s =
    (Some (t\<lparr>bytes_left := length bs\<rparr>), t\<lparr>bytes_left := bytes_left t - length bs\<rparr>)"
    using t by (simp add: pb_make_string_substream_def u starts_with_def)
qed

lemma pb_read_null_buf:
  assumes "isource s = In_buf r" "n \<le> bytes_left s"
  shows "pb_read_null env s n = (True, eat n s)"
  using assms by (auto simp: pb_read_null_def pb_read_def call_istream_def buf_read_def eat_def)

lemma consumes_eat: "n \<le> bytes_left s \<Longrightarrow> consumes s (eat n s)"
  by (auto simp: consumes_def eat_def split: in_source.splits intro!: exI [of _ n])

text \<open>
  A substream never sees past its length, and closing it leaves the parent stream right after it,
  whatever the reader of the substream left unread.
\<close>

lemma substream_consumes:
  assumes "pb_make_string_substream env s = (Some sub, s1)"
    "consumes sub sub'" "pb_close_string_substream env s1 sub' = (ok, s2)"
  shows "consumes s s2"
proof -
  from assms(1) obtain sz t where t: "pb_decode_varint32 env s = (Some sz, t)" "unat sz \<le> bytes_left t"
    "sub = t\<lparr>bytes_left := unat sz\<rparr>" "s1 = t\<lparr>bytes_left := bytes_left t - unat sz\<rparr>"
    by (auto simp: pb_make_string_substream_def split: on_ok_splits if_splits)
  have "consumes t s2"
  proof (cases "isource t")
    case (In_buf r)
    with assms(2) t obtain k where k: "k \<le> unat sz" "bytes_left sub' = unat sz - k" "isource sub' = In_buf (drop k r)"
      by (auto simp: consumes_def)
    with assms(3) have "s2 = s1\<lparr>isource := In_buf (drop (unat sz) r), ierrmsg := ierrmsg sub'\<rparr>"
      by (auto simp: pb_close_string_substream_def pb_read_null_buf eat_def split: if_splits)
    then show ?thesis using t In_buf by (intro consumesI [of "unat sz"]) auto
  next
    case (In_user u)
    with assms(2) t obtain v where v: "isource sub' = In_user v" by (auto simp: consumes_def is_In_user_def)
    have null: "is_In_user (isource x)" if "pb_read_null env sub' n = (True, x)" for x n
      using pb_read_null_consumes [OF that] v by (auto simp: consumes_def)
    have "is_In_user (isource s2) \<and> bytes_left s2 = bytes_left s1"
      using assms(3) t In_user
      by (auto simp: pb_close_string_substream_def v split: if_splits prod.splits bool.splits dest: null)
    then show ?thesis using t In_user by (intro consumesI [of "unat sz"]) auto
  qed
  with pb_decode_varint32_consumes [OF t(1)] show ?thesis by (rule consumes_trans)
qed

lemma pb_make_string_substream_consumes:
  assumes "pb_make_string_substream env s = (None, s1)"
  shows "consumes s s1"
  using assms by (auto simp: pb_make_string_substream_def split: on_ok_splits if_splits
      dest: pb_decode_varint32_consumes)

lemma pb_make_string_substream_less:
  assumes "pb_make_string_substream env s = (Some sub, s1)"
  shows "bytes_left sub + bytes_left s1 \<le> bytes_left s" "in_bounds s \<Longrightarrow> in_bounds sub"
  using assms consumes_bytes_left [of s] consumes_in_bounds [of s]
  by (auto simp: pb_make_string_substream_def in_bounds_def split: on_ok_splits if_splits in_source.splits
      dest!: pb_decode_varint32_consumes) fastforce

section \<open>Error returns\<close>

text \<open>
  A function that fails between opening and closing a substream leaves the parent's source behind
  its \<open>bytes_left\<close>.  \<open>reaches\<close> is what still holds: nothing past the old limit has been read, and the
  limit has only come closer.
\<close>

definition reaches :: "'u pb_istream_t \<Rightarrow> 'u pb_istream_t \<Rightarrow> bool" where
  "reaches s s' \<longleftrightarrow>
     (\<exists>j k. j \<le> k \<and> k \<le> bytes_left s \<and> bytes_left s' = bytes_left s - k \<and>
        (case isource s of In_buf r \<Rightarrow> isource s' = In_buf (drop j r)
                         | In_user u \<Rightarrow> is_In_user (isource s')))"

lemma reachesI:
  assumes "j \<le> k" "k \<le> bytes_left s" "bytes_left s' = bytes_left s - k"
    "\<And>r. isource s = In_buf r \<Longrightarrow> isource s' = In_buf (drop j r)"
    "\<And>u. isource s = In_user u \<Longrightarrow> is_In_user (isource s')"
  shows "reaches s s'"
  unfolding reaches_def using assms by (cases "isource s") auto

lemma consumes_reaches: "consumes s s' \<Longrightarrow> reaches s s'"
  unfolding consumes_def reaches_def by blast

lemma is_user_eq: "In_user u = x \<Longrightarrow> is_In_user x"
  by auto

lemma reaches_refl [simp]: "reaches s s"
  by (simp add: consumes_reaches)

lemma reaches_trans [trans]:
  assumes "reaches s t" "reaches t u"
  shows "reaches s u"
proof -
  from assms obtain j k j' k' where "j \<le> k" "k \<le> bytes_left s" "bytes_left t = bytes_left s - k"
     "case isource s of In_buf r \<Rightarrow> isource t = In_buf (drop j r) | In_user u \<Rightarrow> is_In_user (isource t)"
     "j' \<le> k'" "k' \<le> bytes_left t" "bytes_left u = bytes_left t - k'"
     "case isource t of In_buf r \<Rightarrow> isource u = In_buf (drop j' r) | In_user v \<Rightarrow> is_In_user (isource u)"
    by (auto simp: reaches_def)
  then show ?thesis
    by (intro reachesI [of "j + j'" "k + k'"]) (auto simp: add.commute split: in_source.splits)
qed

lemma reaches_cong:
  "isource t = isource t' \<Longrightarrow> bytes_left t = bytes_left t' \<Longrightarrow> reaches s t = reaches s t'"
  by (simp add: reaches_def cong: in_source.case_cong)

lemma reaches_errmsg [simp]:
  "reaches s (istream_error t msg) = reaches s t"
  "reaches s (t\<lparr>ierrmsg := e\<rparr>) = reaches s t"
  by (rule reaches_cong, simp_all)+

lemma reaches_bytes_left: "reaches s s' \<Longrightarrow> bytes_left s' \<le> bytes_left s"
  by (auto simp: reaches_def)

lemma reaches_in_bounds: "reaches s s' \<Longrightarrow> in_bounds s \<Longrightarrow> in_bounds s'"
  by (auto simp: reaches_def in_bounds_def split: in_source.splits)

text \<open>The same stream apart from its error message.\<close>

definition same_place :: "'u pb_istream_t \<Rightarrow> 'u pb_istream_t \<Rightarrow> bool" where
  "same_place s t \<longleftrightarrow> isource s = isource t \<and> bytes_left s = bytes_left t"

lemma same_place_simps [simp]:
  "same_place s s" "same_place s (istream_error s msg)" "same_place s (s\<lparr>ierrmsg := e\<rparr>)"
  by (simp_all add: same_place_def)

lemma substream_opened:
  assumes "pb_make_string_substream env s = (Some sub, s1)" "same_place s1 t"
  shows "reaches s t"
proof -
  from assms(1) obtain sz u where u: "pb_decode_varint32 env s = (Some sz, u)" "unat sz \<le> bytes_left u"
    "s1 = u\<lparr>bytes_left := bytes_left u - unat sz\<rparr>"
    by (auto simp: pb_make_string_substream_def split: on_ok_splits if_splits)
  then have "reaches u t" using assms(2)
    by (intro reachesI [of 0 "unat sz"]) (auto simp: same_place_def dest: is_user_eq)
  with pb_decode_varint32_consumes [OF u(1)] show ?thesis
    by (blast intro: reaches_trans consumes_reaches)
qed

lemma substream_closed:
  assumes "pb_make_string_substream env s = (Some sub, s1)" "same_place s1 t"
    "reaches sub sub'" "pb_close_string_substream env t sub' = (ok, s2)"
  shows "reaches s s2" "ok \<Longrightarrow> consumes sub sub' \<Longrightarrow> consumes s s2"
proof -
  from assms(1) obtain sz u where u: "pb_decode_varint32 env s = (Some sz, u)" "unat sz \<le> bytes_left u"
    "sub = u\<lparr>bytes_left := unat sz\<rparr>" "s1 = u\<lparr>bytes_left := bytes_left u - unat sz\<rparr>"
    by (auto simp: pb_make_string_substream_def split: on_ok_splits if_splits)
  note cons = consumes_reaches [OF pb_decode_varint32_consumes [OF u(1)]]
  have "reaches u s2"
  proof (cases "isource u")
    case (In_buf r)
    with assms(3) u obtain j k where k: "j \<le> k" "k \<le> unat sz" "bytes_left sub' = unat sz - k"
      "isource sub' = In_buf (drop j r)"
      by (auto simp: reaches_def)
    with assms(4) have "s2 = t\<lparr>isource := In_buf (drop (j + (unat sz - k)) r), ierrmsg := ierrmsg sub'\<rparr>"
      by (auto simp: pb_close_string_substream_def pb_read_null_buf eat_def add.commute split: if_splits)
    then show ?thesis using u k In_buf assms(2)
      by (intro reachesI [of "j + (unat sz - k)" "unat sz"]) (auto simp: same_place_def)
  next
    case (In_user v)
    with assms(3) u obtain w where w: "isource sub' = In_user w" by (auto simp: reaches_def is_In_user_def)
    have null: "is_In_user (isource x)" if "pb_read_null env sub' n = (True, x)" for x n
      using pb_read_null_consumes [OF that] w by (auto simp: consumes_def)
    have "is_In_user (isource s2) \<and> bytes_left s2 = bytes_left s1"
      using assms(2,4) u In_user
      by (auto simp: pb_close_string_substream_def same_place_def w split: if_splits prod.splits bool.splits
          dest: null is_user_eq)
    then show ?thesis using u In_user by (intro reachesI [of "unat sz" "unat sz"]) auto
  qed
  with cons show "reaches s s2" by (rule reaches_trans)
next
  assume ok: ok and c: "consumes sub sub'"
  have "pb_close_string_substream env s1 sub' = (ok, s2)"
  proof (cases "if bytes_left sub' \<noteq> 0 then pb_read_null env sub' (bytes_left sub') else (True, sub')")
    case (Pair b x)
    with assms(2,4) ok show ?thesis
      unfolding pb_close_string_substream_def Pair
        by (cases b) (auto simp: same_place_def intro!: pb_istream_t.equality)
  qed
  with assms(1) c show "consumes s s2" by (rule substream_consumes)
qed

section \<open>A varint that does not fit\<close>

text \<open>
  The check for the bits of the fifth byte that do not fit is made only when that byte is the last: here its bits are lost and
  the number 7 * 2^32 is read as 0 instead of failing with ''varint overflow''.
\<close>

lemma varint32_lost_bits:
  "pb_decode_varint32 env (pb_istream_from_buffer [0x80, 0x80, 0x80, 0x80, 0xF0, 0] 6) = (Some 0, pb_istream_from_buffer [] 0)"
  by (simp add: pb_decode_varint32_def pb_decode_varint32_eof_def pb_readbyte_def call_istream_def buf_read_def pb_istream_from_buffer_def
      varint32_loop.simps sign_extension_byte_def)

end
