(* ===== verification/PbDecodeStream.thy ===== *)
theory PbDecodeStream
  imports PbDecode PbIStreamProps
begin

text \<open>
  What the decoder does to its input: whatever the bytes, the descriptors and the memory are, it
  never reads past the limit of its stream; when it succeeds it has taken exactly the bytes it
  moved past, and when it fails the limit has only come closer.  The induction over the nesting
  of messages runs through the locale \<open>message_decoder\<close>.
\<close>

section \<open>The contract\<close>

definition stream_ok :: "'u pb_istream_t \<Rightarrow> (bool \<times> 'u pb_istream_t \<times> 'a) option \<Rightarrow> bool" where
  "stream_ok s r \<longleftrightarrow> (\<forall>ok s' x. r = Some (ok, s', x) \<longrightarrow> reaches s s' \<and> (ok \<longrightarrow> consumes s s'))"

text \<open>The user's decoding callbacks keep the contract.\<close>

definition env_ok :: "'u dec_env \<Rightarrow> bool" where
  "env_ok env \<longleftrightarrow>
     (\<forall>fn s f arg m. stream_ok s (Some (dec_callback env fn s f arg m))) \<and>
     (\<forall>ty g s e tag wt m. ext_decode env ty = Some g \<longrightarrow> stream_ok s (Some (g s e tag wt m)))"

lemma stream_okD:
  "stream_ok s (Some (ok, s', x)) \<Longrightarrow> reaches s s'"
  "stream_ok s (Some (True, s', x)) \<Longrightarrow> consumes s s'"
  unfolding stream_ok_def by blast+

lemma stream_okI:
  "(\<And>ok s' x. r = Some (ok, s', x) \<Longrightarrow> reaches s s' \<and> (ok \<longrightarrow> consumes s s')) \<Longrightarrow> stream_ok s r"
  by (simp add: stream_ok_def)

lemma stream_ok_None [simp]: "stream_ok s None"
  by (simp add: stream_ok_def)

lemma stream_ok_Some:
  "stream_ok s (Some (ok, s', x)) \<longleftrightarrow> reaches s s' \<and> (ok \<longrightarrow> consumes s s')"
  by (simp add: stream_ok_def)

lemma stream_ok_same [simp]: "stream_ok s (Some (ok, s, x))"
  by (simp add: stream_ok_Some)

lemma stream_ok_fails: "consumes s s' \<Longrightarrow> stream_ok s (Some (ok, s', x))"
  by (simp add: stream_ok_Some consumes_reaches)

lemma stream_ok_error [simp]: "stream_ok s (Some (dec_error msg (s, m)))"
  by (simp add: dec_error_def stream_ok_Some)

lemma stream_ok_from:
  assumes "consumes s t" "stream_ok t r"
  shows "stream_ok s r"
  using assms by (auto simp: stream_ok_def intro: consumes_trans reaches_trans consumes_reaches)

lemma stream_ok_seq:
  assumes "stream_ok s r" "\<And>s' x. r = Some (True, s', x) \<Longrightarrow> stream_ok s' (k (s', x))"
  shows "stream_ok s (and_thenM r k)"
proof (cases r)
  case (Some p)
  obtain ok s' x where p: "p = (ok, s', x)" by (cases p)
  show ?thesis
  proof (cases ok)
    case True
    with assms Some p have "consumes s s'" "stream_ok s' (k (s', x))" by (auto simp: stream_ok_def)
    then have "stream_ok s (k (s', x))" by (rule stream_ok_from)
    then show ?thesis by (simp add: Some p True)
  next
    case False
    then show ?thesis using assms(1) by (simp add: Some p)
  qed
qed simp

lemma stream_ok_mem: "(\<And>m. r = Some m \<Longrightarrow> stream_ok s (k m)) \<Longrightarrow> stream_ok s (then_mem r k)"
  by (cases r) auto

lemma stream_ok_deref: "(p \<noteq> 0 \<Longrightarrow> stream_ok s r) \<Longrightarrow> stream_ok s (deref p r)"
  by (simp add: deref_def)

lemma with_value_stream_ok:
  assumes "\<And>v s'. r = (v, s') \<Longrightarrow> consumes s s'" "\<And>v s'. r = (Some v, s') \<Longrightarrow> stream_ok s' (Some (k v (s', m)))"
  shows "stream_ok s (Some (with_value r m k))"
proof (cases r)
  case (Pair v s')
  then have "consumes s s'" by (rule assms(1))
  then show ?thesis
    using assms(2) [of _ s'] Pair by (cases v) (auto simp: with_value_def intro: stream_ok_from stream_ok_fails)
qed

section \<open>The field decoders\<close>

lemma check_clamped_stream_ok [simp]: "stream_ok s (Some (check_clamped r v (s, m)))"
  by (auto simp: check_clamped_def split: option.splits)

lemma pb_dec_bool_stream_ok: "stream_ok s (Some (pb_dec_bool env dest (s, m)))"
  unfolding pb_dec_bool_def prod.case
  by (rule with_value_stream_ok) (auto dest: pb_decode_bool_consumes)

lemma pb_dec_varint_stream_ok: "stream_ok s (Some (pb_dec_varint env f dest (s, m)))"
  unfolding pb_dec_varint_def prod.case
  by (rule with_value_stream_ok) (auto simp: Let_def dest: pb_decode_varint_consumes)

lemma pb_dec_uvarint_stream_ok: "stream_ok s (Some (pb_dec_uvarint env f dest (s, m)))"
  unfolding pb_dec_uvarint_def prod.case
  by (rule with_value_stream_ok) (auto dest: pb_decode_varint_consumes)

lemma pb_dec_svarint_stream_ok: "stream_ok s (Some (pb_dec_svarint env f dest (s, m)))"
  unfolding pb_dec_svarint_def prod.case
  by (rule with_value_stream_ok) (auto dest: pb_decode_svarint_consumes)

lemma pb_dec_fixed32_stream_ok: "stream_ok s (Some (pb_dec_fixed32 env dest (s, m)))"
  unfolding pb_dec_fixed32_def prod.case
  by (rule with_value_stream_ok) (auto dest: pb_decode_fixed_consumes)

lemma pb_dec_fixed64_stream_ok: "stream_ok s (Some (pb_dec_fixed64 env dest (s, m)))"
  unfolding pb_dec_fixed64_def prod.case
  by (rule with_value_stream_ok) (auto dest: pb_decode_fixed_consumes)

lemma read_into_stream_ok: "stream_ok s (Some (read_into env dest n (s, m)))"
  unfolding read_into_def prod.case
  by (rule with_value_stream_ok) (auto dest: pb_read_consumes)

lemma allocate_field_place: "allocate_field env p a b (s, m) = (ok, s', m') \<Longrightarrow> same_place s s'"
  by (auto simp: allocate_field_def Let_def same_place_def split: if_splits prod.splits)

lemma dec_space_place: "dec_space env f dest sz a msg (s, m) = (r, s', m') \<Longrightarrow> same_place s s'"
  by (auto simp: dec_space_def same_place_def split: if_splits prod.splits bool.splits
      dest: allocate_field_place [unfolded same_place_def])

lemma same_place_consumes: "same_place s s' \<Longrightarrow> consumes s s'"
  using consumes_cong [of s s' s] by (simp add: same_place_def)

lemma dec_space_stream_ok:
  assumes "\<And>a s' m'. stream_ok s' (Some (k a (s', m')))"
  shows "stream_ok s (Some (on_ok (dec_space env f dest sz asz msg (s, m)) k (\<lambda>st. (False, st))))"
proof (cases "dec_space env f dest sz asz msg (s, m)")
  case (fields r s' m')
  then have "consumes s s'" by (simp add: dec_space_place same_place_consumes)
  then show ?thesis
    using assms fields by (cases r) (auto intro: stream_ok_from stream_ok_fails)
qed

lemma pb_dec_bytes_stream_ok: "stream_ok s (Some (pb_dec_bytes env f dest (s, m)))"
  unfolding pb_dec_bytes_def prod.case
  by (rule with_value_stream_ok)
    (auto simp: Let_def read_into_stream_ok intro!: dec_space_stream_ok dest: pb_decode_varint32_consumes)

lemma read_string_stream_ok:
  "stream_ok s (Some (case read_into env dest n (s, m) of (status, s, m) \<Rightarrow> (status, s, g m)))"
  using read_into_stream_ok [of s env dest n m] by (cases "read_into env dest n (s, m)") (auto simp: stream_ok_Some)

lemma pb_dec_string_stream_ok: "stream_ok s (Some (pb_dec_string env f dest (s, m)))"
  unfolding pb_dec_string_def prod.case
  by (rule with_value_stream_ok)
    (auto simp: Let_def read_string_stream_ok intro!: dec_space_stream_ok dest: pb_decode_varint32_consumes)

lemma pb_dec_fixed_length_bytes_stream_ok: "stream_ok s (Some (pb_dec_fixed_length_bytes env f dest (s, m)))"
  unfolding pb_dec_fixed_length_bytes_def prod.case
  by (rule with_value_stream_ok) (auto simp: read_into_stream_ok dest: pb_decode_varint32_consumes)

lemmas dec_stream_ok = pb_dec_bool_stream_ok pb_dec_varint_stream_ok pb_dec_uvarint_stream_ok
  pb_dec_svarint_stream_ok pb_dec_fixed32_stream_ok pb_dec_fixed64_stream_ok pb_dec_bytes_stream_ok
  pb_dec_string_stream_ok pb_dec_fixed_length_bytes_stream_ok

text \<open>A substream: what reads it must keep the contract on it and leave the parent where it is.\<close>

lemma in_substream_stream_ok:
  assumes "\<And>sub t ok t' m'. k sub (t, m) = Some (Inl (ok, t', m')) \<Longrightarrow> \<not> ok \<and> same_place t t'"
    and "\<And>sub t ok sub' t' m'. k sub (t, m) = Some (Inr (ok, sub', t', m')) \<Longrightarrow>
      same_place t t' \<and> reaches sub sub' \<and> (ok \<longrightarrow> consumes sub sub')"
  shows "stream_ok s (in_substream env k (s, m))"
proof (cases "pb_make_string_substream env s")
  case make: (Pair r t)
  show ?thesis
  proof (cases r)
    case None
    then show ?thesis
      using pb_make_string_substream_consumes [of env s t] make
      by (simp add: in_substream_def stream_ok_fails)
  next
    case (Some sub)
    note opened = make [unfolded Some]
    show ?thesis
    proof (rule stream_okI)
      fix ok s' x
      assume res: "in_substream env k (s, m) = Some (ok, s', x)"
      then consider (now) "k sub (t, m) = Some (Inl (ok, s', x))"
        | (close) status sub' t' m' ok' where "k sub (t, m) = Some (Inr (status, sub', t', m'))"
            "pb_close_string_substream env t' sub' = (ok', s')" "ok = (ok' \<and> status)"
        by (auto simp: in_substream_def opened split: option.splits sum.splits prod.splits bool.splits)
      then show "reaches s s' \<and> (ok \<longrightarrow> consumes s s')"
      proof cases
        case now
        with assms(1) substream_opened [OF opened] show ?thesis by blast
      next
        case close
        note a = assms(2) [OF close(1)]
        note c = substream_closed [OF opened _ _ close(2)]
        show ?thesis using a c close(3) by blast
      qed
    qed
  qed
qed

section \<open>One level, given the next\<close>

locale message_decoder =
  fixes rec :: "'u decoder" and env :: "'u dec_env"
  assumes rec_ok: "env_ok env \<Longrightarrow> stream_ok s (rec fs dest (s, m))"
begin

lemma decode_message_ok:
  assumes "env_ok env"
  shows "stream_ok s (decode_message d env rec fs dest (s, m))"
  unfolding decode_message_def prod.case
proof (rule stream_ok_mem)
  fix m1
  show "stream_ok s (case rec fs dest (s, m1) of None \<Rightarrow> None | Some (True, st) \<Rightarrow> Some (True, st)
      | Some (False, s, m) \<Rightarrow> map_option (\<lambda>m. (False, s, m)) (pb_release d env fs dest m))"
    using rec_ok [OF assms, of s fs dest m1]
    by (auto simp: stream_ok_def split: option.splits prod.splits bool.splits)
qed

lemma dec_submessage_ok:
  assumes "env_ok env"
  shows "stream_ok s (pb_dec_submessage d env rec f dest (s, m))"
  unfolding pb_dec_submessage_def
  by (rule in_substream_stream_ok)
    (use rec_ok [OF assms] decode_message_ok [OF assms] in
      \<open>fastforce simp: stream_ok_def dec_error_def split: if_splits option.splits\<close>)+

lemma field_decoder_ok:
  assumes "env_ok env"
  shows "stream_ok s (PB_DECODERS d env rec f dest (s, m))"
  by (simp add: PB_DECODERS_def Let_def dec_stream_ok dec_submessage_ok [OF assms])

lemma packed_static_loop_ok:
  assumes "\<And>p s m. stream_ok s (func p (s, m))"
  shows "stream_ok sub (packed_static_loop n func it (sub, m))"
proof (induction n arbitrary: sub m)
  case 0
  show ?case by (simp add: packed_static_loop.simps [of 0] Let_def)
next
  case (Suc n)
  show ?case
    unfolding packed_static_loop.simps [of "Suc n"] Let_def nat.case
    by (auto intro!: stream_ok_seq assms Suc.IH)
qed

lemma decode_packed_static_ok:
  assumes "\<And>p s m. stream_ok s (func p (s, m))"
  shows "stream_ok s (decode_packed_static env func it (s, m))"
  unfolding decode_packed_static_def
  by (rule in_substream_stream_ok)
    (use packed_static_loop_ok [of func, OF assms] in
      \<open>fastforce simp: stream_ok_def dec_error_def split: if_splits\<close>)+

lemma decode_static_field_ok:
  assumes "env_ok env"
  shows "stream_ok s (decode_static_field d env rec wt it (s, m))"
  unfolding decode_static_field_def prod.case Let_def
  by (auto intro!: field_decoder_ok assms decode_packed_static_ok stream_ok_mem)

lemma packed_pointer_item_ok:
  assumes func: "\<And>p s m. stream_ok s (func p (s, m))"
  shows "stream_ok sub (packed_pointer_item d env func it a (sub, m))"
proof (rule stream_okI)
  fix ok sub' x
  assume res: "packed_pointer_item d env func it a (sub, m) = Some (ok, sub', x)"
  have place: "same_place sub t" if "(if c then allocate_field env p b e (sub, m) else (True, sub, m)) = (k, t, m')"
    for c p b e k t m'
    using that by (auto split: if_splits dest: allocate_field_place)
  from res consider t where "same_place sub t" "sub' = t" "\<not> ok"
    | t p m1 y where "same_place sub t" "func p (t, m1) = Some (ok, sub', y)"
    | p m1 y where "func p (sub, m1) = Some (ok, sub', y)"
    unfolding packed_pointer_item_def prod.case Let_def then_mem_def
    by (auto split: if_splits prod.splits bool.splits option.splits dest: place allocate_field_place)
  then show "reaches sub sub' \<and> (ok \<longrightarrow> consumes sub sub')"
  proof cases
    case 1
    then show ?thesis by (simp add: consumes_reaches same_place_consumes)
  next
    case 2
    from 2(1) have "consumes sub t" by (rule same_place_consumes)
    moreover have "stream_ok t (Some (ok, sub', y))" using func [of t p m1] 2(2) by simp
    ultimately have "stream_ok sub (Some (ok, sub', y))" by (rule stream_ok_from)
    then show ?thesis by (simp add: stream_ok_Some)
  next
    case 3
    then show ?thesis using func [of sub] by (metis stream_ok_Some)
  qed
qed

lemma packed_pointer_loop_ok:
  assumes func: "\<And>p s m. stream_ok s (func p (s, m))"
    and "packed_pointer_loop n d env func it a s (sub, m) = Some (ok, s', sub', m')"
  shows "same_place s s' \<and> reaches sub sub' \<and> (ok \<longrightarrow> consumes sub sub')"
  using assms(2)
proof (induction n arbitrary: a sub m)
  case 0
  then show ?case
    using packed_pointer_item_ok [of func sub d it a m, OF func]
    by (subst (asm) packed_pointer_loop.simps)
      (auto simp: stream_ok_Some split: if_splits option.splits prod.splits bool.splits)
next
  case (Suc n)
  note item = packed_pointer_item_ok [of func sub d it a m, OF func]
  from Suc.prems consider "same_place s s'" "sub' = sub"
    | a' m1 where "packed_pointer_item d env func it a (sub, m) = Some (False, sub', a', m1)" "s' = s" "\<not> ok"
    | sub1 a' m1 m2 where "packed_pointer_item d env func it a (sub, m) = Some (True, sub1, a', m1)"
        "packed_pointer_loop n d env func it a' s (sub1, m2) = Some (ok, s', sub', m')"
    by (subst (asm) packed_pointer_loop.simps)
      (auto split: if_splits option.splits prod.splits bool.splits)
  then show ?case
  proof cases
    case 1
    then show ?thesis by simp
  next
    case 2
    then show ?thesis using item by (simp add: stream_ok_Some)
  next
    case 3
    from Suc.IH [OF 3(2)] 3(1) item show ?thesis
      by (auto simp: stream_ok_Some intro: reaches_trans consumes_trans)
  qed
qed

lemma decode_packed_pointer_ok:
  assumes "\<And>p s m. stream_ok s (func p (s, m))"
  shows "stream_ok s (decode_packed_pointer d env func it (s, m))"
  unfolding decode_packed_pointer_def
  by (rule in_substream_stream_ok) (auto dest!: packed_pointer_loop_ok [of func, OF assms])

lemma allocate_field_ok: "stream_ok s (Some (allocate_field env p a b (s, m)))"
  using allocate_field_place [of env p a b s m]
  by (cases "allocate_field env p a b (s, m)") (simp add: stream_ok_Some same_place_consumes consumes_reaches)

lemma decode_pointer_field_ok:
  assumes "env_ok env"
  shows "stream_ok s (decode_pointer_field d env rec wt it (s, m))"
proof -
  note func = field_decoder_ok [OF assms]
  show ?thesis
    unfolding decode_pointer_field_def prod.case Let_def
    by (auto intro!: func decode_packed_pointer_ok stream_ok_mem stream_ok_seq [OF allocate_field_ok])
qed

lemma callback_loop_ok:
  assumes "\<And>s m. stream_ok s (Some (decode (s, m)))"
  shows "stream_ok s (callback_loop n decode (s, m))"
proof (induction n arbitrary: s m)
  case (Suc n)
  show ?case
    unfolding callback_loop.simps by (rule stream_ok_seq [OF assms]) (simp add: Suc.IH)
qed simp

lemma decode_string_callback_ok:
  assumes "\<And>s m. stream_ok s (Some (decode (s, m)))"
  shows "stream_ok s (decode_string_callback env decode (s, m))"
  unfolding decode_string_callback_def
proof (rule in_substream_stream_ok, goal_cases)
  case (1 sub t ok t' m')
  then show ?case by (auto simp: dec_error_def split: if_splits)
next
  case (2 sub t ok sub' t' m')
  then show ?case
    using callback_loop_ok [of decode sub "Suc (bytes_left sub)" m, OF assms]
    by (auto simp: stream_ok_Some split: if_splits)
qed

lemma decode_callback_field_ok:
  assumes "env_ok env"
  shows "stream_ok s (decode_callback_field env wt it (s, m))"
  unfolding decode_callback_field_def prod.case Let_def
  using assms
  by (auto simp: env_ok_def split: on_ok_splits prod.splits
      intro!: decode_string_callback_ok stream_ok_fails
      dest: pb_skip_field_consumes read_raw_value_consumes)

lemma decode_by_atype_ok:
  assumes "env_ok env"
  shows "stream_ok s (decode_by_atype d env rec wt it (s, m))"
  unfolding decode_by_atype_def Let_def
  using assms by (auto intro: decode_static_field_ok decode_pointer_field_ok decode_callback_field_ok)

lemma release_union_place:
  "pb_release_union_field d env it (s, m) = Some (b, it1, t, m1) \<Longrightarrow> same_place s t"
  by (auto simp: pb_release_union_field_def Let_def then_mem_def
      split: if_splits prod.splits bool.splits option.splits)

lemma decode_field_cases:
  assumes "decode_field d env rec wt it (s, m) = Some (ok, it', s', m')"
  obtains "same_place s s'" "\<not> ok"
    | t it1 m1 where "same_place s t" "decode_by_atype d env rec wt it1 (t, m1) = Some (ok, s', m')"
proof (cases "PB_HTYPE (f_type (iter_field it)) = PB_HTYPE_ONEOF")
  case True
  with assms show ?thesis
    by (auto simp: decode_field_def deref_def split: if_splits option.splits prod.splits bool.splits
        dest!: release_union_place intro: that)
next
  case False
  with assms that(2) [of s it m] show ?thesis
    by (auto simp: decode_field_def deref_def split: if_splits)
qed

lemma decode_field_ok:
  assumes "env_ok env" "decode_field d env rec wt it (s, m) = Some (ok, it', s', m')"
  shows "reaches s s' \<and> (ok \<longrightarrow> consumes s s')"
  using assms(2)
proof (cases rule: decode_field_cases)
  case 1
  then show ?thesis by (simp add: same_place_consumes consumes_reaches)
next
  case (2 t it1 m1)
  have "stream_ok t (Some (ok, s', m'))"
    using decode_by_atype_ok [OF assms(1), of t d wt it1 m1] 2(2) by simp
  then have "stream_ok s (Some (ok, s', m'))"
    by (rule stream_ok_from [OF same_place_consumes [OF 2(1)]])
  then show ?thesis by (simp add: stream_ok_Some)
qed

lemma default_extension_decoder_ok:
  assumes "env_ok env"
  shows "stream_ok s (default_extension_decoder d env rec e tag wt (s, m))"
  unfolding default_extension_decoder_def prod.case Let_def
  by (rule stream_okI) (auto split: if_splits dest: decode_field_ok [OF assms])

lemma decode_extensions_ok:
  assumes "env_ok env"
  shows "stream_ok s (decode_extensions n d env rec pos e tag wt (s, m))"
proof (induction n arbitrary: pos e s m)
  case 0
  show ?case by (simp add: decode_extensions.simps [of 0])
next
  case (Suc n)
  have step: "stream_ok s (case ext_encode of Some decode \<Rightarrow> Some (decode s e tag wt m)
      | None \<Rightarrow> default_extension_decoder d env rec e tag wt (s, m))"
    if "ext_encode = ext_decode env (ext_type m e)" for ext_encode
    using assms that default_extension_decoder_ok [OF assms]
    by (auto simp: env_ok_def split: option.splits)
  show ?case
    unfolding decode_extensions.simps [of "Suc n"] nat.case
    by (auto intro!: stream_ok_deref stream_ok_seq step Suc.IH)
qed

lemma unknown_field_ok:
  assumes "env_ok env" "unknown_field d env rec tag wt v (s, m) = Some (ex, v', s', m')"
  shows "reaches s s' \<and> (ex \<noteq> Return_false \<longrightarrow> consumes s s')"
proof -
  have ext': "reaches s t \<and> (b \<longrightarrow> consumes s t)"
    if "decode_extension d env rec tag wt it (s, m) = Some (b, t, m1)" for it b t m1
    using that decode_extensions_ok [OF assms(1), of s d d "bytes_left s" "load_ptr m (pData it)" tag wt m]
    by (simp add: decode_extension_def stream_ok_Some)
  from assms(2) consider (skip) k where "pb_skip_field env s wt = (k, s')"
    | (ext) it b where "decode_extension d env rec tag wt it (s, m) = Some (b, s', m')" "ex = Return_false \<or> b"
    | (both) it t m1 k where "decode_extension d env rec tag wt it (s, m) = Some (True, t, m1)"
        "pb_skip_field env t wt = (k, s')"
    unfolding unknown_field_def Let_def prod.case
    by (auto split: if_splits prod.splits option.splits bool.splits)
  then show ?thesis
  proof cases
    case skip
    then show ?thesis by (simp add: pb_skip_field_consumes consumes_reaches)
  next
    case ext
    then show ?thesis using ext' by blast
  next
    case both
    then have "consumes s s'" using ext' by (blast intro: consumes_trans pb_skip_field_consumes)
    then show ?thesis by (simp add: consumes_reaches)
  qed
qed

lemma known_field_ok:
  assumes "env_ok env" "known_field d env rec wt v (s, m) = Some (ex, v', s', m')"
  shows "reaches s s' \<and> (ex \<noteq> Return_false \<longrightarrow> consumes s s')"
  using assms(2) unfolding known_field_def Let_def prod.case
  by (auto split: if_splits dest: decode_field_ok [OF assms(1)])

lemma decode_turn_ok:
  assumes "env_ok env" "decode_turn d env rec v (s, m) = Some (ex, v', s', m')"
  shows "reaches s s' \<and> (ex \<noteq> Return_false \<longrightarrow> consumes s s')"
proof -
  obtain r eof t where tag: "pb_decode_tag env s = (r, eof, t)" by (cases "pb_decode_tag env s")
  then have t: "consumes s t" by (rule pb_decode_tag_consumes)
  from assms(2) consider "s' = t"
    | ty tg w where "unknown_field d env rec tg ty w (t, m) = Some (ex, v', s', m')"
    | ty w where "known_field d env rec ty w (t, m) = Some (ex, v', s', m')"
    by (auto simp: decode_turn_def tag split: option.splits prod.splits bool.splits)
  then show ?thesis
  proof cases
    case 1
    then show ?thesis using t by (simp add: consumes_reaches)
  next
    case 2
    from unknown_field_ok [OF assms(1) this] t show ?thesis
      by (blast intro: consumes_trans reaches_trans consumes_reaches)
  next
    case 3
    from known_field_ok [OF assms(1) this] t show ?thesis
      by (blast intro: consumes_trans reaches_trans consumes_reaches)
  qed
qed

lemma decode_loop_ok:
  assumes "env_ok env" "decode_loop n d env rec v (s, m) = Some (ok, v', s', m')"
  shows "reaches s s' \<and> (ok \<longrightarrow> consumes s s')"
  using assms(2)
proof (induction n arbitrary: v s m)
  case 0
  then show ?case by (auto simp: decode_loop.simps [of 0] split: if_splits)
next
  case (Suc n)
  from Suc.prems consider "s' = s"
    | ex where "decode_turn d env rec v (s, m) = Some (ex, v', s', m')" "ex = Return_false \<longleftrightarrow> \<not> ok"
    | v1 t m1 where "decode_turn d env rec v (s, m) = Some (Continue, v1, t, m1)"
        "decode_loop n d env rec v1 (t, m1) = Some (ok, v', s', m')"
    by (auto simp: decode_loop.simps [of "Suc n"] split: if_splits option.splits loop_exit.splits)
  then show ?case
  proof cases
    case 1
    then show ?thesis by simp
  next
    case 2
    with decode_turn_ok [OF assms(1) 2(1)] show ?thesis by blast
  next
    case 3
    from decode_turn_ok [OF assms(1) 3(1)] Suc.IH [OF 3(2)] show ?thesis
      by (auto intro: consumes_trans reaches_trans)
  qed
qed

end

section \<open>All levels\<close>

lemma noinit_checks_place:
  "noinit_checks d env v (s, m) = (ok, s', m') \<Longrightarrow> same_place s s'"
  by (auto simp: noinit_checks_def dec_error_def split: if_splits)

lemma pb_decode_noinit_ok: "env_ok env \<Longrightarrow> stream_ok s (pb_decode_noinit d env fs dest (s, m))"
proof (induction d arbitrary: fs dest s m)
  case (Suc d)
  have loc: "message_decoder (pb_decode_noinit d env) env"
    by (rule message_decoder.intro) (rule Suc.IH)
  show ?case
  proof (rule stream_okI)
    fix ok s' x
    assume "pb_decode_noinit (Suc d) env fs dest (s, m) = Some (ok, s', x)"
    then obtain n v m1 b v' t m2 where
      loop: "decode_loop n (Suc d) env (pb_decode_noinit d env) v (s, m1) = Some (b, v', t, m2)" and
      res: "if b then noinit_checks (Suc d) env v' (t, m2) = (ok, s', x) else s' = t \<and> \<not> ok"
      by (auto simp: deref_def Let_def split: if_splits option.splits bool.splits)
    from message_decoder.decode_loop_ok [OF loc Suc.prems loop]
    have t: "reaches s t \<and> (b \<longrightarrow> consumes s t)" .
    show "reaches s s' \<and> (ok \<longrightarrow> consumes s s')"
    proof (cases b)
      case True
      with res have "consumes t s'" by (simp add: noinit_checks_place same_place_consumes)
      with t True show ?thesis by (blast intro: consumes_trans consumes_reaches)
    next
      case False
      with res t show ?thesis by simp
    qed
  qed
qed simp

interpretation dec: message_decoder "pb_decode_noinit d env" env for d env
  by (rule message_decoder.intro) (rule pb_decode_noinit_ok)

lemma pb_decode_ok: "env_ok env \<Longrightarrow> stream_ok s (pb_decode d env fs dest (s, m))"
  unfolding pb_decode_def by (rule dec.decode_message_ok)

end
