(* ===== verification/PbDecodeMem.thy ===== *)
theory PbDecodeMem
  imports PbDecode PbIStreamProps
begin

text \<open>
  What the decoder does to the memory, for messages all of whose fields are statically allocated:
  whatever bytes come in, it writes only inside the message structure (and its own local counter),
  and it neither allocates nor frees.  \<open>static_message n fs\<close> says that the descriptors \<open>fs\<close> lay their
  fields out inside a structure of \<open>n\<close> bytes.
\<close>

section \<open>Static layouts\<close>

definition elements_size :: "pb_field_t \<Rightarrow> nat" where
  "elements_size f =
     (if PB_HTYPE (f_type f) = PB_HTYPE_REPEATED then unat (f_data_size f) * unat (f_array_size f)
      else unat (f_data_size f))"

text \<open>The bytes of the has, count or which member that the decoder writes.\<close>

definition size_member :: "pb_field_t \<Rightarrow> nat" where
  "size_member f =
     (if PB_HTYPE (f_type f) = PB_HTYPE_OPTIONAL then if f_size_offset f = 0 then 0 else 1
      else if PB_HTYPE (f_type f) = PB_HTYPE_REPEATED \<or> PB_HTYPE (f_type f) = PB_HTYPE_ONEOF then 4
      else 0)"

text \<open>Without a size offset, \<open>pSize\<close> is \<open>pData\<close>.\<close>

lemma size_addr_same:
  "f_size_offset (field_at fs k) = 0 \<Longrightarrow> PB_HTYPE (f_type (field_at fs k)) \<noteq> PB_HTYPE_ONEOF \<Longrightarrow>
     size_addr fs dest k = field_addr fs dest k"
  by (cases k) (auto simp: ptr_offset_def shares_union_def simp del: field_addr.simps)

text \<open>Where that member lies, relative to the structure; a union member may share it with the one before.\<close>

primrec size_rel :: "pb_field_t list \<Rightarrow> nat \<Rightarrow> int" where
  "size_rel fs 0 = int (field_addr fs 0 0) + sint (f_size_offset (field_at fs 0))"
| "size_rel fs (Suc k) =
     (if shares_union (field_at fs k) (field_at fs (Suc k)) then size_rel fs k
      else int (field_addr fs 0 (Suc k)) + sint (f_size_offset (field_at fs (Suc k))))"

definition field_fits :: "nat \<Rightarrow> pb_field_t list \<Rightarrow> nat \<Rightarrow> bool" where
  "field_fits n fs k \<longleftrightarrow>
     (let f = field_at fs k in
      field_addr fs 0 k + elements_size f \<le> n \<and> elements_size f < 2 ^ 32 \<and>
      (size_member f \<noteq> 0 \<longrightarrow> 0 \<le> size_rel fs k \<and> size_rel fs k + int (size_member f) \<le> int n))"

text \<open>The field type, and the size of its data.\<close>

definition static_type :: "pb_field_t \<Rightarrow> bool" where
  "static_type f \<longleftrightarrow>
     PB_ATYPE (f_type f) = PB_ATYPE_STATIC \<and>
     PB_LTYPE (f_type f) \<noteq> PB_LTYPE_EXTENSION \<and> PB_LTYPE (f_type f) \<le> PB_LTYPE_FIXED_LENGTH_BYTES \<and>
     (PB_LTYPE (f_type f) = PB_LTYPE_BOOL \<longrightarrow> 1 \<le> f_data_size f) \<and>
     (PB_LTYPE (f_type f) = PB_LTYPE_FIXED32 \<longrightarrow> 4 \<le> f_data_size f) \<and>
     (PB_LTYPE (f_type f) = PB_LTYPE_FIXED64 \<longrightarrow> 8 \<le> f_data_size f)"

definition layout :: "nat \<Rightarrow> pb_field_t list \<Rightarrow> bool" where
  "layout n fs \<longleftrightarrow>
     nfields fs = length fs \<and> 1 \<le> n \<and> list_all (field_fits n fs) [0..<length fs]"

fun static_field :: "pb_field_t \<Rightarrow> bool" and static_sub :: "nat \<Rightarrow> pb_field_ptr \<Rightarrow> bool" where
  "static_field (Pb_field tag ty doff soff ds asz p) \<longleftrightarrow>
     static_type (Pb_field tag ty doff soff ds asz p) \<and>
     (if PB_LTYPE ty = PB_LTYPE_SUBMESSAGE then static_sub (unat ds) p
      else case p of Ptr_fields fs \<Rightarrow> False | _ \<Rightarrow> True)"
| "static_sub n Ptr_NULL \<longleftrightarrow> False"
| "static_sub n (Ptr_default bs) \<longleftrightarrow> False"
| "static_sub n (Ptr_fields fs) \<longleftrightarrow> layout n fs \<and> list_all static_field fs"

definition static_message :: "nat \<Rightarrow> pb_field_t list \<Rightarrow> bool" where
  "static_message n fs \<longleftrightarrow> layout n fs \<and> list_all static_field fs"

lemma static_fieldD:
  assumes "static_field f"
  shows "static_type f"
    "PB_LTYPE (f_type f) = PB_LTYPE_SUBMESSAGE \<Longrightarrow>
       \<exists>fs. f_ptr f = Ptr_fields fs \<and> static_message (unat (f_data_size f)) fs"
    "PB_LTYPE (f_type f) \<noteq> PB_LTYPE_SUBMESSAGE \<Longrightarrow> f_ptr f \<noteq> Ptr_fields gs"
proof -
  obtain tag ty doff soff ds asz p where f: "f = Pb_field tag ty doff soff ds asz p" by (cases f)
  from assms f show "static_type f" by simp
  from assms f show "f_ptr f \<noteq> Ptr_fields gs" if "PB_LTYPE (f_type f) \<noteq> PB_LTYPE_SUBMESSAGE"
    using that by auto
  assume "PB_LTYPE (f_type f) = PB_LTYPE_SUBMESSAGE"
  with assms f have "static_sub (unat ds) p" by simp
  then show "\<exists>fs. f_ptr f = Ptr_fields fs \<and> static_message (unat (f_data_size f)) fs"
    by (cases p) (simp_all add: f static_message_def)
qed

lemma static_type_last: "static_type PB_LAST_FIELD \<longleftrightarrow> False"
  by (simp add: static_type_def PB_LAST_FIELD_def PB_LTYPE_def PB_ATYPE_def)

text \<open>Addresses are relative to the start of the structure.\<close>

lemma field_addr_shift: "field_addr fs dest k = dest + field_addr fs 0 k"
  by (induction k) simp_all

lemma size_addr_rel: "0 \<le> size_rel fs k \<Longrightarrow> size_addr fs dest k = dest + nat (size_rel fs k)"
proof (induction k)
  case 0
  then show ?case by (simp add: ptr_offset_def nat_add_distrib)
next
  case (Suc k)
  show ?case
  proof (cases "shares_union (field_at fs k) (field_at fs (Suc k))")
    case False
    then have "size_addr fs dest (Suc k) =
        nat (int dest + (int (field_addr fs 0 (Suc k)) + sint (f_size_offset (field_at fs (Suc k)))))"
      by (simp add: ptr_offset_def field_addr_shift [of fs dest k] algebra_simps)
    also have "\<dots> = dest + nat (size_rel fs (Suc k))"
      using Suc.prems False by (subst nat_add_distrib) auto
    finally show ?thesis .
  qed (use Suc in simp)
qed

section \<open>Footprints of the field decoders\<close>

definition writes :: "nat set \<Rightarrow> cmem \<Rightarrow> (bool \<times> 'u pb_istream_t \<times> cmem) option \<Rightarrow> bool" where
  "writes F m r \<longleftrightarrow> (\<forall>ok s' m'. r = Some (ok, s', m') \<longrightarrow> only_writes F m m')"

lemma writes_None [simp]: "writes F m None"
  by (simp add: writes_def)

lemma writes_Some [simp]: "writes F m (Some (ok, s', m')) \<longleftrightarrow> only_writes F m m'"
  by (simp add: writes_def)

lemma writes_mono: "writes F m r \<Longrightarrow> F \<subseteq> G \<Longrightarrow> writes G m r"
  by (auto simp: writes_def intro: only_writes_mono)

lemma writes_after: "only_writes F m m1 \<Longrightarrow> writes F m1 r \<Longrightarrow> writes F m r"
  by (auto simp: writes_def intro: only_writes_trans)

lemma writes_error [simp]: "writes F m (Some (dec_error msg (s, m)))"
  by (simp add: dec_error_def)

lemma writes_seq:
  assumes "writes F m r" "\<And>s' m'. r = Some (True, s', m') \<Longrightarrow> writes F m' (k (s', m'))"
  shows "writes F m (and_thenM r k)"
proof (cases r)
  case (Some p)
  obtain ok s' m' where p: "p = (ok, s', m')" by (cases p)
  show ?thesis using assms Some p by (cases ok) (auto intro: writes_after)
qed simp

lemma writes_mem:
  "(\<And>m1. r = Some m1 \<Longrightarrow> only_writes F m m1 \<and> writes F m1 (k m1)) \<Longrightarrow> writes F m (then_mem r k)"
  by (cases r) (auto intro: writes_after)

lemma with_value_writes:
  assumes "\<And>v s'. r = (Some v, s') \<Longrightarrow> writes F m (Some (k v (s', m)))"
  shows "writes F m (Some (with_value r m k))"
  using assms by (cases r; cases "fst r") (auto simp: with_value_def)

definition span :: "nat \<Rightarrow> nat \<Rightarrow> nat set" where
  "span a n = {a ..< a + n}"

lemma span_subset: "a \<le> b \<Longrightarrow> b + k \<le> a + n \<Longrightarrow> span b k \<subseteq> span a n"
  by (auto simp: span_def)

lemma store_bytes_span:
  "a \<le> b \<Longrightarrow> b + length bs \<le> a + n \<Longrightarrow> only_writes (span a n) m (store_bytes m b bs)"
  by (rule only_writes_store_bytes) (auto simp: span_def)

lemma store_signed_span:
  "store_signed m dest ds v = Some (c, m') \<Longrightarrow> only_writes (span dest (unat ds)) m m'"
  by (auto simp: store_signed_def store_word_def split: if_splits intro!: store_bytes_span)

lemma store_unsigned_span:
  "store_unsigned m dest ds v = Some (c, m') \<Longrightarrow> only_writes (span dest (unat ds)) m m'"
  by (auto simp: store_unsigned_def store_word_def split: if_splits intro!: store_bytes_span)

lemma check_clamped_writes:
  "(\<And>c m'. r = Some (c, m') \<Longrightarrow> only_writes F m m') \<Longrightarrow> writes F m (Some (check_clamped r v (s, m)))"
  by (auto simp: check_clamped_def dec_error_def split: option.splits)

text \<open>The user's stream callback puts no more bytes into the buffer than it is asked for.\<close>

definition bounded_reads :: "'u dec_env \<Rightarrow> bool" where
  "bounded_reads env \<longleftrightarrow> (\<forall>u n bs u'. user_read env u n = (Some bs, u') \<longrightarrow> length bs \<le> n)"

lemma pb_read_length:
  assumes "bounded_reads env" "pb_read env s n = (Some bs, s')"
  shows "length bs \<le> n"
  using assms
  by (auto simp: pb_read_def call_istream_def buf_read_def bounded_reads_def
      split: if_splits on_ok_splits in_source.splits prod.splits)

text \<open>What the local counter of the decoder may overwrite.\<close>

definition frames :: "'u dec_env \<Rightarrow> nat set" where
  "frames env = (\<Union>d. span (frame_addr env d) 4)"

section \<open>The field decoders\<close>

lemma read_into_writes:
  assumes "bounded_reads env" "a \<le> dest" "dest + n \<le> a + k"
  shows "writes (span a k) m (Some (read_into env dest n (s, m)))"
  unfolding read_into_def prod.case
proof (rule with_value_writes)
  fix bs s'
  assume "pb_read env s n = (Some bs, s')"
  then have "length bs \<le> n" by (rule pb_read_length [OF assms(1)])
  with assms(2,3) show "writes (span a k) m (Some (case (s', m) of (s, m) \<Rightarrow> (True, s, store_bytes m dest bs)))"
    by (simp add: store_bytes_span)
qed

lemma scalar_writes:
  "static_type f \<Longrightarrow> PB_LTYPE (f_type f) = PB_LTYPE_BOOL \<Longrightarrow>
     writes (span dest (unat (f_data_size f))) m (Some (pb_dec_bool env dest (s, m)))"
  "writes (span dest (unat (f_data_size f))) m (Some (pb_dec_varint env f dest (s, m)))"
  "writes (span dest (unat (f_data_size f))) m (Some (pb_dec_uvarint env f dest (s, m)))"
  "writes (span dest (unat (f_data_size f))) m (Some (pb_dec_svarint env f dest (s, m)))"
  "static_type f \<Longrightarrow> PB_LTYPE (f_type f) = PB_LTYPE_FIXED32 \<Longrightarrow>
     writes (span dest (unat (f_data_size f))) m (Some (pb_dec_fixed32 env dest (s, m)))"
  "static_type f \<Longrightarrow> PB_LTYPE (f_type f) = PB_LTYPE_FIXED64 \<Longrightarrow>
     writes (span dest (unat (f_data_size f))) m (Some (pb_dec_fixed64 env dest (s, m)))"
  by (auto simp: pb_dec_bool_def pb_dec_varint_def pb_dec_uvarint_def pb_dec_svarint_def pb_dec_fixed32_def
      pb_dec_fixed64_def Let_def static_type_def word_le_nat_alt store_bool_def store_word_def
      intro!: with_value_writes check_clamped_writes store_bytes_span
      dest: store_signed_span store_unsigned_span)

lemma dec_space_writes:
  assumes "PB_ATYPE (f_type f) = PB_ATYPE_STATIC"
    and "unat asz \<le> unat (f_data_size f) \<Longrightarrow> writes F m (Some (k dest (s, m)))"
  shows "writes F m (Some (on_ok (dec_space env f dest sz asz msg (s, m)) k (\<lambda>st. (False, st))))"
  using assms unat_less [of "f_data_size f"]
  by (auto simp: dec_space_def word_less_nat_alt unat_ucast)

lemma read_after:
  assumes "bounded_reads env" "only_writes (span a k) m m1" "a \<le> dest" "dest + n \<le> a + k"
  shows "writes (span a k) m (Some (read_into env dest n (s, m1)))"
  using assms(2) read_into_writes [OF assms(1,3,4)] by (rule writes_after)

lemma pb_dec_bytes_writes:
  assumes "bounded_reads env" "PB_ATYPE (f_type f) = PB_ATYPE_STATIC"
  shows "writes (span dest (unat (f_data_size f))) m (Some (pb_dec_bytes env f dest (s, m)))"
proof -
  have sz: "unat (PB_BYTES_ARRAY_T_ALLOCSIZE (ucast sz)) = unat sz + 4" for sz :: u32
    using unat_less [of sz] by (simp add: PB_BYTES_ARRAY_T_ALLOCSIZE_def unat_word_ariths unat_ucast)
  show ?thesis
    unfolding pb_dec_bytes_def prod.case Let_def
    by (rule with_value_writes)
      (auto simp: sz store_word_def intro!: dec_space_writes assms read_after store_bytes_span)
qed

lemma unat_string_alloc:
  assumes "\<not> (ucast (sz + 1) :: u64) < ucast (sz :: u32)"
  shows "unat (ucast (sz + 1) :: u64) = unat sz + 1"
proof -
  have "unat (sz + 1) = (unat sz + 1) mod 2 ^ 32" by (simp add: unat_word_ariths)
  moreover have "unat sz \<le> unat (sz + 1)"
    using assms unat_less [of sz] unat_less [of "sz + 1"] by (simp add: word_less_nat_alt unat_ucast)
  moreover have "unat sz < 2 ^ 32" using unat_less [of sz] by simp
  ultimately have "unat (sz + 1) = unat sz + 1"
    by (cases "unat sz + 1 = 2 ^ 32") auto
  then show ?thesis using unat_less [of "sz + 1"] by (simp add: unat_ucast)
qed

lemma read_string_writes:
  assumes "bounded_reads env" "n < k"
  shows "writes (span a k) m (Some (case read_into env a n (s, m) of
    (status, s, m) \<Rightarrow> (status, s, store_bytes m (a + n) [0])))"
proof (cases "read_into env a n (s, m)")
  case (fields ok s' m')
  then have "only_writes (span a k) m m'"
    using read_into_writes [OF assms(1), of a a n k m s] assms(2) by simp
  moreover have "only_writes (span a k) m' (store_bytes m' (a + n) [0])"
    using assms(2) by (intro store_bytes_span) auto
  ultimately show ?thesis by (simp add: fields) (rule only_writes_trans)
qed

lemma pb_dec_string_writes:
  assumes "bounded_reads env" "PB_ATYPE (f_type f) = PB_ATYPE_STATIC"
  shows "writes (span dest (unat (f_data_size f))) m (Some (pb_dec_string env f dest (s, m)))"
  unfolding pb_dec_string_def prod.case Let_def
  by (rule with_value_writes)
    (auto simp: unat_string_alloc intro!: dec_space_writes assms read_string_writes)

lemma pb_dec_fixed_length_bytes_writes:
  assumes "bounded_reads env"
  shows "writes (span dest (unat (f_data_size f))) m (Some (pb_dec_fixed_length_bytes env f dest (s, m)))"
  unfolding pb_dec_fixed_length_bytes_def prod.case
  by (rule with_value_writes)
    (auto simp: memset_zero_def intro!: read_into_writes assms store_bytes_span)

section \<open>Walking over the fields of a message\<close>

lemma seqM_rel:
  assumes "\<And>m. R m m" "\<And>a b c. R a b \<Longrightarrow> R b c \<Longrightarrow> R a c"
    "\<And>x m m'. x \<in> set xs \<Longrightarrow> step x m = Some m' \<Longrightarrow> R m m'"
    "seqM (\<lambda>x m. map_option (Pair True) (step x m)) xs m = Some (b, m')"
  shows "R m m'"
  using assms(3,4)
proof (induction xs arbitrary: m)
  case Nil
  then show ?case using assms(1) by simp
next
  case (Cons x xs)
  then obtain m1 where "step x m = Some m1"
    "seqM (\<lambda>x m. map_option (Pair True) (step x m)) xs m1 = Some (b, m')"
    by (cases "step x m") auto
  with Cons have "R m m1" "R m1 m'" by auto
  then show ?case by (rule assms(2))
qed

lemma for_all_fields_rel:
  assumes "\<And>m. R m m" "\<And>a b c. R a b \<Longrightarrow> R b c \<Longrightarrow> R a c"
    "\<And>k m m'. k < nfields fs \<Longrightarrow> step (iter_at fs dest k) m = Some m' \<Longrightarrow> R m m'"
    "for_all_fields step fs dest m = Some m'"
  shows "R m m'"
proof (cases "0 < nfields fs")
  case True
  with assms(4) obtain b where *:
    "seqM (\<lambda>it m. map_option (Pair True) (step it m)) (map (iter_at fs dest) [0..<nfields fs]) m = Some (b, m')"
    by (auto simp: for_all_fields_def begin_iter_at deref_def iter_do_while_all split: if_splits)
  show ?thesis by (rule seqM_rel [of R, OF assms(1,2) _ *]) (use assms(3) in auto)
next
  case False
  then show ?thesis using assms(1,4) by (simp add: for_all_fields_def begin_iter_at)
qed

section \<open>Default values\<close>

lemma static_messageD:
  assumes "static_message n fs" "k < nfields fs"
  shows "field_fits n fs k" "static_field (field_at fs k)"
proof -
  from assms have k: "k < length fs" "nfields fs = length fs" by (auto simp: static_message_def layout_def)
  with assms(1) show "field_fits n fs k" by (auto simp: static_message_def layout_def list_all_iff)
  from k assms(1) show "static_field (field_at fs k)"
    by (auto simp: static_message_def field_at_def list_all_iff)
qed

lemma field_region:
  assumes "field_fits n fs k" "f = field_at fs k"
  shows "span (field_addr fs dest k) (elements_size f) \<subseteq> span dest n"
    "size_member f \<noteq> 0 \<Longrightarrow> span (size_addr fs dest k) (size_member f) \<subseteq> span dest n"
proof -
  from assms show "span (field_addr fs dest k) (elements_size f) \<subseteq> span dest n"
    unfolding field_addr_shift [of fs dest k] by (auto simp: span_def field_fits_def Let_def)
  assume "size_member f \<noteq> 0"
  with assms have "0 \<le> size_rel fs k" "nat (size_rel fs k) + size_member f \<le> n"
    by (auto simp: field_fits_def Let_def)
  then show "span (size_addr fs dest k) (size_member f) \<subseteq> span dest n"
    by (auto simp: span_def size_addr_rel)
qed

lemma store_span:
  "only_writes (span a k) m (memset_zero m a k)"
  "LENGTH('a::len) div 8 = k \<Longrightarrow> only_writes (span a k) m (store_word m a (w :: 'a word))"
  "only_writes (span a (Suc 0)) m (store_bool m a b)"
  by (auto simp: memset_zero_def store_word_def store_bool_def intro: store_bytes_span)

lemma set_to_default_writes:
  assumes "static_message n fs" "k < nfields fs"
    "pb_field_set_to_default d env (iter_at fs dest k) m = Some m'"
  shows "only_writes (span dest n) m m'"
  using assms
proof (induction d arbitrary: n fs dest k m m')
  case (Suc d)
  define f where "f = field_at fs k"
  note fits = static_messageD(1) [OF Suc.prems(1,2)]
  note st = static_messageD(2) [OF Suc.prems(1,2), folded f_def]
  note ty = static_fieldD(1) [OF st]
  note region = field_region [OF fits f_def]
  define init where "init = (\<lambda>m. if PB_LTYPE (f_type f) = PB_LTYPE_SUBMESSAGE then
        (case ptr_fields (f_ptr f) of None \<Rightarrow> None
         | Some fs1 \<Rightarrow> for_all_fields (pb_field_set_to_default d env) fs1 (field_addr fs dest k) m)
      else (case f_ptr f of
          Ptr_default bs \<Rightarrow> Some (store_bytes m (field_addr fs dest k) (take (unat (f_data_size f)) bs))
        | Ptr_NULL \<Rightarrow> Some (memset_zero m (field_addr fs dest k) (unat (f_data_size f)))
        | Ptr_fields fs1 \<Rightarrow> None))"
  have init: "only_writes (span (field_addr fs dest k) (unat (f_data_size f))) m1 m2" if "init m1 = Some m2" for m1 m2
  proof (cases "PB_LTYPE (f_type f) = PB_LTYPE_SUBMESSAGE")
    case True
    from static_fieldD(2) [OF st True] obtain fs1 where fs1: "f_ptr f = Ptr_fields fs1"
      "static_message (unat (f_data_size f)) fs1" by auto
    with that True have "for_all_fields (pb_field_set_to_default d env) fs1 (field_addr fs dest k) m1 = Some m2"
      by (simp add: init_def ptr_fields_def)
    then show ?thesis
      by (rule for_all_fields_rel [rotated 3]) (auto intro: only_writes_trans Suc.IH [OF fs1(2)])
  next
    case False
    with that show ?thesis
      by (auto simp: init_def intro!: store_span store_bytes_span split: pb_field_ptr.splits)
  qed
  have whole: "only_writes (span dest n) m1 m2" if "init m1 = Some m2" "elements_size f = unat (f_data_size f)" for m1 m2
    using init [OF that(1)] region(1) [of dest] that(2) by (auto intro: only_writes_mono)
  have size: "only_writes (span dest n) m1 (store_word m1 (size_addr fs dest k) (0 :: pb_size_t))"
    if "size_member f = 4" for m1
    using region(2) [of dest] that store_span(2) [of 4 "size_addr fs dest k" m1 "0 :: pb_size_t"]
    by (auto intro: only_writes_mono)
  have has: "only_writes (span dest n) m1 (store_bool m1 (size_addr fs dest k) b)"
    if "size_member f = 1" for m1 b
    using region(2) [of dest] that store_span(3) [of "size_addr fs dest k" m1 b]
    by (auto intro: only_writes_mono)
  have eq: "pb_field_set_to_default (Suc d) env (iter_at fs dest k) m =
     (if PB_HTYPE (f_type f) = PB_HTYPE_OPTIONAL \<and> size_addr fs dest k \<noteq> field_addr fs dest k
      then init (store_bool m (size_addr fs dest k) False)
      else if PB_HTYPE (f_type f) = PB_HTYPE_REPEATED \<or> PB_HTYPE (f_type f) = PB_HTYPE_ONEOF
      then Some (store_word m (size_addr fs dest k) (0 :: pb_size_t))
      else init m)"
    using ty unfolding static_type_def
    by (simp add: Let_def f_def [symmetric] init_def cong: option.case_cong pb_field_ptr.case_cong)
  consider (opt) "PB_HTYPE (f_type f) = PB_HTYPE_OPTIONAL" "size_addr fs dest k \<noteq> field_addr fs dest k"
      "init (store_bool m (size_addr fs dest k) False) = Some m'"
    | (cnt) "PB_HTYPE (f_type f) = PB_HTYPE_REPEATED \<or> PB_HTYPE (f_type f) = PB_HTYPE_ONEOF"
      "m' = store_word m (size_addr fs dest k) (0 :: pb_size_t)"
    | (plain) "PB_HTYPE (f_type f) \<noteq> PB_HTYPE_REPEATED" "init m = Some m'"
    using Suc.prems(3) unfolding eq by (auto split: if_splits)
  then show ?case
  proof cases
    case opt
    then have "size_member f = 1"
      using size_addr_same [of fs k dest] by (auto simp: size_member_def f_def [symmetric])
    moreover have "elements_size f = unat (f_data_size f)" using opt by (simp add: elements_size_def)
    ultimately show ?thesis using has whole opt(3) by (blast intro: only_writes_trans)
  next
    case cnt
    then have "size_member f = 4" by (auto simp: size_member_def)
    then show ?thesis using size cnt(2) by simp
  next
    case plain
    then show ?thesis using whole by (simp add: elements_size_def)
  qed
qed simp

lemma message_set_to_defaults_writes:
  assumes "static_message n fs" "pb_message_set_to_defaults d env fs dest m = Some m'"
  shows "only_writes (span dest n) m m'"
  using assms(2) unfolding pb_message_set_to_defaults_def
  by (rule for_all_fields_rel [rotated 3])
    (auto intro: only_writes_trans set_to_default_writes [OF assms(1)])

section \<open>Releasing a static message changes nothing\<close>

lemma item_loop_id:
  assumes "\<And>p m m'. step p m = Some m' \<Longrightarrow> m' = m" "item_loop step stride p n m = Some m'"
  shows "m' = m"
  using assms(2)
proof (induction n arbitrary: p m)
  case (Suc n)
  then obtain m1 where "step p m = Some m1" "item_loop step stride (p + stride) n m1 = Some m'"
    by (cases "step p m") auto
  with assms(1) Suc.IH show ?case by blast
qed simp

lemma release_static:
  assumes "static_field (iter_field it)" "pb_release_single_field d env it m = Some m'"
  shows "m' = m"
  using assms
proof (induction d arbitrary: it m m')
  case (Suc d)
  define f where "f = iter_field it"
  note st = Suc.prems(1) [folded f_def]
  have sub: "m2 = m1" if "f_ptr f = Ptr_fields fs1" "static_message k fs1"
    "release_message (pb_release_single_field d env) fs1 p m1 = Some m2" for fs1 k p m1 m2
  proof (cases "p = 0")
    case False
    with that(3) have "for_all_fields (pb_release_single_field d env) fs1 p m1 = Some m2"
      by (simp add: release_message_def)
    then show ?thesis
      by (rule for_all_fields_rel [of "\<lambda>a b. b = a", rotated 3])
        (auto dest: Suc.IH [rotated] simp: static_messageD(2) [OF that(2)])
  qed (use that(3) in \<open>simp add: release_message_def\<close>)
  show ?case
  proof (cases "PB_LTYPE (f_type f) = PB_LTYPE_SUBMESSAGE")
    case True
    from static_fieldD(2) [OF st True] obtain fs1 where fs1: "f_ptr f = Ptr_fields fs1"
      "static_message (unat (f_data_size f)) fs1" by auto
    have loop: "m2 = m1"
      if "item_loop (release_message (pb_release_single_field d env) fs1) st p n m1 = Some m2" for st p n m1 m2
      by (rule item_loop_id [OF _ that]) (rule sub [OF fs1])
    show ?thesis
      using Suc.prems(2) static_fieldD(1) [OF st] True fs1
      by (auto simp: f_def [symmetric] static_type_def ptr_fields_def Let_def then_mem_Some_iff
          split: if_splits dest: loop)
  next
    case False
    then show ?thesis
      using Suc.prems(2) static_fieldD(1) [OF st]
      by (auto simp: f_def [symmetric] static_type_def Let_def split: if_splits)
  qed
qed simp

lemma pb_release_static:
  assumes "static_message n fs" "pb_release d env fs dest m = Some m'"
  shows "m' = m"
proof (cases "dest = 0")
  case False
  with assms(2) have "for_all_fields (pb_release_single_field d env) fs dest m = Some m'"
    by (simp add: pb_release_def release_message_def)
  then show ?thesis
    by (rule for_all_fields_rel [of "\<lambda>a b. b = a", rotated 3])
      (auto dest: release_static [rotated] simp: static_messageD(2) [OF assms(1)])
qed (use assms(2) in \<open>simp add: pb_release_def release_message_def\<close>)

text \<open>The iterator stands at a field of the message, its \<open>pSize\<close> possibly redirected to the local counter.\<close>

definition at_field :: "'u dec_env \<Rightarrow> pb_field_t list \<Rightarrow> nat \<Rightarrow> pb_field_iter_t \<Rightarrow> bool" where
  "at_field env fs dest it \<longleftrightarrow> (\<exists>k < nfields fs.
     it = iter_at fs dest k \<or>
     (PB_HTYPE (f_type (field_at fs k)) = PB_HTYPE_REPEATED \<and>
        (\<exists>d. it = iter_at fs dest k\<lparr>pSize := frame_addr env d\<rparr>)))"

definition region :: "'u dec_env \<Rightarrow> nat \<Rightarrow> nat \<Rightarrow> nat set" where
  "region env dest n = span dest n \<union> frames env"

lemma region_mono: "span a k \<subseteq> span b n \<Longrightarrow> region env a k \<subseteq> region env b n"
  by (auto simp: region_def)

lemma at_field_cases:
  assumes "at_field env fs dest it"
  obtains k where "k < nfields fs" "iter_field it = field_at fs k" "iter_pos it = k" "iter_start it = fs"
    "pData it = field_addr fs dest k" "pSize it = size_addr fs dest k \<or>
       (PB_HTYPE (f_type (field_at fs k)) = PB_HTYPE_REPEATED \<and> (\<exists>d. pSize it = frame_addr env d))"
proof -
  from assms obtain k where k: "k < nfields fs" "it = iter_at fs dest k \<or>
     (PB_HTYPE (f_type (field_at fs k)) = PB_HTYPE_REPEATED \<and>
        (\<exists>d. it = iter_at fs dest k\<lparr>pSize := frame_addr env d\<rparr>))"
    by (auto simp: at_field_def)
  then show ?thesis by (intro that [of k]) (auto simp: iter_field_def iter_at_def)
qed

lemma at_field_static:
  assumes "static_message n fs" "at_field env fs dest it"
  shows "static_field (iter_field it)"
    "span (pData it) (elements_size (iter_field it)) \<subseteq> span dest n"
    "size_member (iter_field it) \<noteq> 0 \<Longrightarrow>
       span (pSize it) (size_member (iter_field it)) \<subseteq> region env dest n"
    "elements_size (iter_field it) < 2 ^ 32"
    "PB_HTYPE (f_type (iter_field it)) = PB_HTYPE_OPTIONAL \<Longrightarrow> pSize it \<noteq> pData it \<Longrightarrow>
       size_member (iter_field it) = 1"
proof -
  from assms(2) obtain k where k: "k < nfields fs" "iter_field it = field_at fs k"
    "pData it = field_addr fs dest k" "pSize it = size_addr fs dest k \<or>
       (PB_HTYPE (f_type (field_at fs k)) = PB_HTYPE_REPEATED \<and> (\<exists>d. pSize it = frame_addr env d))"
    by (rule at_field_cases)
  note st = static_messageD [OF assms(1) k(1)]
  note reg = field_region [OF st(1) k(2)]
  show "static_field (iter_field it)" using st(2) k(2) by simp
  show "span (pData it) (elements_size (iter_field it)) \<subseteq> span dest n"
    using reg(1) k(3) by simp
  show "elements_size (iter_field it) < 2 ^ 32" using st(1) k(2) by (simp add: field_fits_def Let_def)
  show "span (pSize it) (size_member (iter_field it)) \<subseteq> region env dest n" if "size_member (iter_field it) \<noteq> 0"
    using k(4)
  proof
    assume "pSize it = size_addr fs dest k"
    then show ?thesis using reg(2) [OF that, of dest] by (auto simp: region_def)
  next
    assume "PB_HTYPE (f_type (field_at fs k)) = PB_HTYPE_REPEATED \<and> (\<exists>d. pSize it = frame_addr env d)"
    then show ?thesis using k(2) by (auto simp: region_def frames_def size_member_def)
  qed
  assume "PB_HTYPE (f_type (iter_field it)) = PB_HTYPE_OPTIONAL" "pSize it \<noteq> pData it"
  then show "size_member (iter_field it) = 1"
    using k size_addr_same [of fs k dest] by (auto simp: size_member_def)
qed

lemma store_in:
  "span a 4 \<subseteq> F \<Longrightarrow> only_writes F m (store_word m a (w :: 32 word))"
  "span a (Suc 0) \<subseteq> F \<Longrightarrow> only_writes F m (store_bool m a b)"
  by (auto intro: only_writes_mono [OF store_span(2)] only_writes_mono [OF store_span(3)])

text \<open>An element of a static array lies inside the array.\<close>

lemma element_region:
  assumes "elements_size f < 2 ^ 32" "PB_HTYPE (f_type f) = PB_HTYPE_REPEATED" "sz < f_array_size f"
  shows "span (p + unat (f_data_size f * sz)) (unat (f_data_size f)) \<subseteq> span p (elements_size f)"
proof -
  have sz: "unat sz < unat (f_array_size f)" using assms(3) by (simp add: word_less_nat_alt)
  then have le: "unat (f_data_size f) * Suc (unat sz) \<le> elements_size f"
    using assms(2) by (simp add: elements_size_def del: mult_Suc_right)
  then have "unat (f_data_size f) * unat sz < 2 ^ 32" using assms(1) by simp
  then have "unat (f_data_size f * sz) = unat (f_data_size f) * unat sz" by (simp add: unat_word_ariths)
  then show ?thesis using le by (auto simp: span_def)
qed

section \<open>The iterator stays on the fields of the message\<close>

text \<open>An empty message has its terminator as the only position.\<close>

definition at_message :: "'u dec_env \<Rightarrow> pb_field_t list \<Rightarrow> nat \<Rightarrow> pb_field_iter_t \<Rightarrow> bool" where
  "at_message env fs dest it \<longleftrightarrow> at_field env fs dest it \<or> (fs = [] \<and> it = iter_at [] dest 0)"

lemma next_at_field:
  assumes "at_field env fs dest it" "pb_field_iter_next it = (b, it')"
  shows "at_field env fs dest it'"
proof -
  from assms(1) obtain k where k: "k < nfields fs" "it = iter_at fs dest k \<or>
     (PB_HTYPE (f_type (field_at fs k)) = PB_HTYPE_REPEATED \<and>
        (\<exists>d. it = iter_at fs dest k\<lparr>pSize := frame_addr env d\<rparr>))"
    by (auto simp: at_field_def)
  have "pb_field_iter_next (iter_at fs dest k\<lparr>pSize := x\<rparr>) = pb_field_iter_next (iter_at fs dest k)"
    if "PB_HTYPE (f_type (field_at fs k)) = PB_HTYPE_REPEATED" for x
    using that tag_before_nfields [OF k(1)] by (simp add: pb_field_iter_next_def iter_field_def Let_def)
  with k(2) have "pb_field_iter_next it = pb_field_iter_next (iter_at fs dest k)" by auto
  with assms(2) k(1) show ?thesis
    by (auto simp: next_iter_at at_field_def split: if_splits intro: exI [of _ "0 :: nat"])
qed

lemma next_at_message:
  assumes "at_message env fs dest it" "pb_field_iter_next it = (b, it')"
  shows "at_message env fs dest it'"
  using assms next_at_field [of env fs dest it b it'] next_iter_at_empty [of "[]" dest]
  by (auto simp: at_message_def nfields_def)

lemma find_loop_at_message:
  "at_message env fs dest it \<Longrightarrow> pb_field_iter_find_loop n start tag it = (b, it') \<Longrightarrow>
     at_message env fs dest it'"
proof (induction n arbitrary: it)
  case (Suc n)
  then show ?case
    using next_at_message [OF Suc.prems(1), of "fst (pb_field_iter_next it)" "snd (pb_field_iter_next it)"]
    by (auto simp: Let_def split: if_splits)
qed simp

lemma find_at_message:
  "at_message env fs dest it \<Longrightarrow> pb_field_iter_find it tag = (b, it') \<Longrightarrow> at_message env fs dest it'"
  unfolding pb_field_iter_find_def by (rule find_loop_at_message)

lemma at_message_static:
  assumes "static_message n fs" "at_message env fs dest it"
  shows "PB_ATYPE (f_type (iter_field it)) = PB_ATYPE_STATIC" "PB_LTYPE (f_type (iter_field it)) \<noteq> PB_LTYPE_EXTENSION"
    "PB_HTYPE (f_type (iter_field it)) = PB_HTYPE_ONEOF \<Longrightarrow> at_field env fs dest it"
    "PB_HTYPE (f_type (iter_field it)) = PB_HTYPE_REPEATED \<Longrightarrow> at_field env fs dest it"
  using assms(2) static_fieldD(1) [OF at_field_static(1) [OF assms(1)]]
  by (auto simp: at_message_def static_type_def field_at_def PB_LAST_FIELD_def PB_ATYPE_def PB_LTYPE_def PB_HTYPE_def)

text \<open>Redirecting the count of a fixed-count array to the local counter.\<close>

lemma redirect_at_message:
  assumes "static_message n fs" "at_message env fs dest it"
    "PB_HTYPE (f_type (iter_field it)) = PB_HTYPE_REPEATED"
  shows "at_message env fs dest (it\<lparr>pSize := frame_addr env d\<rparr>)"
proof -
  from at_message_static(4) [OF assms] obtain k where k: "k < nfields fs" "it = iter_at fs dest k \<or>
     (PB_HTYPE (f_type (field_at fs k)) = PB_HTYPE_REPEATED \<and>
        (\<exists>d. it = iter_at fs dest k\<lparr>pSize := frame_addr env d\<rparr>))"
    by (auto simp: at_field_def)
  then have "it\<lparr>pSize := frame_addr env d\<rparr> = iter_at fs dest k\<lparr>pSize := frame_addr env d\<rparr>"
    "PB_HTYPE (f_type (field_at fs k)) = PB_HTYPE_REPEATED"
    using assms(3) by (auto simp: iter_field_def)
  then show ?thesis using k(1) by (auto simp: at_message_def at_field_def)
qed

lemma find_extension_loop_static:
  "static_message n fs \<Longrightarrow> at_message env fs dest it \<Longrightarrow> find_extension_field_loop j start it = (b, it') \<Longrightarrow>
     at_message env fs dest it' \<and> \<not> b"
proof (induction j arbitrary: it)
  case (Suc j)
  then show ?case
    using next_at_message [OF Suc.prems(2), of "fst (pb_field_iter_next it)" "snd (pb_field_iter_next it)"]
      at_message_static(2) [OF Suc.prems(1,2)]
    by (auto simp: Let_def split: if_splits)
qed simp

lemma find_extension_static:
  "static_message n fs \<Longrightarrow> at_message env fs dest it \<Longrightarrow> find_extension_field it = (b, it') \<Longrightarrow>
     at_message env fs dest it' \<and> \<not> b"
  unfolding find_extension_field_def by (rule find_extension_loop_static)

lemma pb_decode_tag_less:
  assumes "pb_decode_tag env s = (Some (wt, tag), eof, s')"
  shows "tag < - 1"
proof -
  from assms obtain temp :: u32 where "tag = drop_bit 3 temp"
    by (auto simp: pb_decode_tag_def split: prod.splits option.splits if_splits)
  then have "unat tag = unat temp div 8" by (simp add: unat_drop_bit)
  also have "\<dots> < 2 ^ 29" using unat_less [of temp] by (simp add: less_mult_imp_div_less)
  finally show ?thesis by (simp add: word_less_nat_alt unsigned_minus_1_eq_mask mask_eq_exp_minus_1)
qed

section \<open>One level, given the next\<close>

locale static_decoder =
  fixes rec :: "'u decoder" and env :: "'u dec_env"
  assumes rec_writes: "bounded_reads env \<Longrightarrow> static_message n fs \<Longrightarrow>
    writes (region env dest n) m (rec fs dest (s, m))"
begin

lemma in_substream_writes:
  assumes "\<And>sub t ok t' m'. k sub (t, m) = Some (Inl (ok, t', m')) \<Longrightarrow> only_writes F m m'"
    and "\<And>sub t ok sub' t' m'. k sub (t, m) = Some (Inr (ok, sub', t', m')) \<Longrightarrow> only_writes F m m'"
  shows "writes F m (in_substream env k (s, m))"
proof -
  obtain r t where "pb_make_string_substream env s = (r, t)" by fastforce
  then show ?thesis
    using assms by (cases r)
      (auto simp: in_substream_def writes_def split: option.splits sum.splits prod.splits bool.splits)
qed

lemma decode_message_writes:
  assumes "bounded_reads env" "static_message n fs"
  shows "writes (region env dest n) m (decode_message d env rec fs dest (s, m))"
  unfolding decode_message_def prod.case
proof (rule writes_mem)
  fix m1
  assume "pb_message_set_to_defaults d env fs dest m = Some m1"
  then have "only_writes (region env dest n) m m1"
    by (rule only_writes_mono [OF message_set_to_defaults_writes [OF assms(2)]]) (simp add: region_def)
  moreover have "writes (region env dest n) m1 (case rec fs dest (s, m1) of None \<Rightarrow> None
      | Some (True, st) \<Rightarrow> Some (True, st)
      | Some (False, s, m) \<Rightarrow> map_option (\<lambda>m. (False, s, m)) (pb_release d env fs dest m))"
    using rec_writes [OF assms, of dest m1 s]
    by (auto simp: writes_def split: option.splits prod.splits bool.splits dest!: pb_release_static [OF assms(2)])
  ultimately show "only_writes (region env dest n) m m1 \<and>
     writes (region env dest n) m1 (case rec fs dest (s, m1) of None \<Rightarrow> None
      | Some (True, st) \<Rightarrow> Some (True, st)
      | Some (False, s, m) \<Rightarrow> map_option (\<lambda>m. (False, s, m)) (pb_release d env fs dest m))" ..
qed

lemma dec_submessage_writes:
  assumes "bounded_reads env" "f_ptr f = Ptr_fields fs" "static_message n fs"
  shows "writes (region env dest n) m (pb_dec_submessage d env rec f dest (s, m))"
  unfolding pb_dec_submessage_def
  by (rule in_substream_writes)
    (use rec_writes [OF assms(1,3)] decode_message_writes [OF assms(1,3)] assms(2) in
      \<open>fastforce simp: writes_def ptr_fields_def split: if_splits\<close>)+

lemma field_decoder_writes:
  assumes "bounded_reads env" "static_field f"
  shows "writes (region env dest (unat (f_data_size f))) m (PB_DECODERS d env rec f dest (s, m))"
proof (cases "PB_LTYPE (f_type f) = PB_LTYPE_SUBMESSAGE")
  case True
  from static_fieldD(2) [OF assms(2) True] obtain fs where
    "f_ptr f = Ptr_fields fs" "static_message (unat (f_data_size f)) fs" by auto
  with True show ?thesis
    using dec_submessage_writes [OF assms(1)] by (simp add: PB_DECODERS_def)
next
  case False
  note ty = static_fieldD(1) [OF assms(2)]
  then have static: "PB_ATYPE (f_type f) = PB_ATYPE_STATIC" by (simp add: static_type_def)
  have "writes (span dest (unat (f_data_size f))) m (PB_DECODERS d env rec f dest (s, m))"
    using False scalar_writes [where f = f, where m = m and s = s and dest = dest and env = env] ty
      pb_dec_bytes_writes [OF assms(1) static] pb_dec_string_writes [OF assms(1) static]
      pb_dec_fixed_length_bytes_writes [OF assms(1)]
    by (simp add: PB_DECODERS_def Let_def)
  then show ?thesis by (rule writes_mono) (simp add: region_def)
qed

lemma item_writes:
  assumes "bounded_reads env" "static_field f" "span p (unat (f_data_size f)) \<subseteq> span dest n"
  shows "writes (region env dest n) m (PB_DECODERS d env rec f p (s, m))"
  by (rule writes_mono [OF field_decoder_writes [OF assms(1,2)] region_mono [OF assms(3)]])

lemma packed_static_loop_writes:
  assumes "bounded_reads env" "static_message n fs" "at_field env fs dest it"
    "PB_HTYPE (f_type (iter_field it)) = PB_HTYPE_REPEATED"
  shows "writes (region env dest n) m
    (packed_static_loop j (PB_DECODERS d env rec (iter_field it)) it (sub, m))"
proof (induction j arbitrary: sub m)
  case 0
  show ?case by (simp add: packed_static_loop.simps [of 0] Let_def)
next
  case (Suc j)
  note at = at_field_static [OF assms(2,3)]
  have size: "only_writes (region env dest n) m' (store_word m' (pSize it) (w :: 32 word))" for m' w
    using at(3) assms(4) by (intro store_in) (simp add: size_member_def)
  have func: "writes (region env dest n) m (PB_DECODERS d env rec (iter_field it)
      (pData it + unat (f_data_size (iter_field it) * sz)) (sub, m))"
    if "sz < f_array_size (iter_field it)" for sz
    using element_region [OF at(4) assms(4) that] at(2) by (intro item_writes [OF assms(1) at(1)]) blast
  show ?case
    unfolding packed_static_loop.simps [of "Suc j"] Let_def nat.case
    by (auto intro!: writes_seq func intro: writes_after [OF size Suc.IH])
qed

lemma decode_packed_static_writes:
  assumes "bounded_reads env" "static_message n fs" "at_field env fs dest it"
    "PB_HTYPE (f_type (iter_field it)) = PB_HTYPE_REPEATED"
  shows "writes (region env dest n) m
    (decode_packed_static env (PB_DECODERS d env rec (iter_field it)) it (s, m))"
  unfolding decode_packed_static_def
  by (rule in_substream_writes)
    (use packed_static_loop_writes [OF assms] in \<open>fastforce simp: writes_def dec_error_def split: if_splits\<close>)+

lemma decode_static_field_writes:
  assumes "bounded_reads env" "static_message n fs" "at_field env fs dest it"
  shows "writes (region env dest n) m (decode_static_field d env rec wt it (s, m))"
proof -
  define f where "f = iter_field it"
  note at = at_field_static [OF assms(2,3), folded f_def]
  note one = item_writes [OF assms(1) at(1)]
  consider (req) "PB_HTYPE (f_type f) = PB_HTYPE_REQUIRED" | (opt) "PB_HTYPE (f_type f) = PB_HTYPE_OPTIONAL"
    | (rep) "PB_HTYPE (f_type f) = PB_HTYPE_REPEATED"
    | (one_of) "PB_HTYPE (f_type f) = PB_HTYPE_ONEOF"
    by (rule PB_HTYPE_cases)
  then show ?thesis
  proof cases
    case req
    then show ?thesis
      using one [of "pData it" dest n] at(2)
      by (simp add: decode_static_field_def f_def [symmetric] elements_size_def)
  next
    case opt
    have "only_writes (region env dest n) m (if pSize it \<noteq> pData it then store_bool m (pSize it) True else m)"
      using at(3,5) opt by (auto intro: store_in)
    moreover have "writes (region env dest n) m1 (PB_DECODERS d env rec f (pData it) (s, m1))" for m1
      using one [of "pData it" dest n] at(2) opt by (simp add: elements_size_def)
    ultimately show ?thesis
      using opt by (simp add: decode_static_field_def f_def [symmetric] writes_after)
  next
    case rep
    have size: "only_writes (region env dest n) m (store_word m (pSize it) (w :: 32 word))" for w
      using at(3) rep by (intro store_in) (simp add: size_member_def)
    have elem: "writes (region env dest n) m1 (PB_DECODERS d env rec f
        (pData it + unat (f_data_size f * sz)) (s, m1))" if "sz < f_array_size f" for sz m1
      using element_region [OF at(4) rep that] at(2) by (intro one) blast
    have packed: "writes (region env dest n) m (decode_packed_static env (PB_DECODERS d env rec f) it (s, m))"
      using decode_packed_static_writes [OF assms] rep by (simp add: f_def)
    show ?thesis
      using rep size elem packed
      by (auto simp: decode_static_field_def f_def [symmetric] Let_def dec_error_def not_le
          intro: writes_after [OF size])
  next
    case one_of
    have size: "only_writes (region env dest n) m1 (store_word m1 (pSize it) (w :: 32 word))" for w m1
      using at(3) one_of by (intro store_in) (simp add: size_member_def)
    have data: "span (pData it) (unat (f_data_size f)) \<subseteq> span dest n"
      using at(2) one_of by (simp add: elements_size_def)
    have func: "writes (region env dest n) m1 (PB_DECODERS d env rec f (pData it) (s, m1))" for m1
      using data by (rule one)
    have init: "only_writes (region env dest n) m m2"
      if "pb_message_set_to_defaults d env fs1 (pData it) (memset_zero m (pData it) (unat (f_data_size f))) = Some m2"
        "f_ptr f = Ptr_fields fs1" "static_message (unat (f_data_size f)) fs1" for fs1 m2
    proof -
      have "only_writes (span (pData it) (unat (f_data_size f))) m m2"
        using store_span(1) message_set_to_defaults_writes [OF that(3,1)] by (rule only_writes_trans)
      then show ?thesis by (rule only_writes_mono) (use data in \<open>auto simp: region_def\<close>)
    qed
    have "decode_static_field d env rec wt it (s, m) =
      then_mem
         (if PB_LTYPE (f_type f) = PB_LTYPE_SUBMESSAGE \<and> (load_word m (pSize it) :: pb_size_t) \<noteq> f_tag f then
            case ptr_fields (f_ptr f) of
               None \<Rightarrow> None
             | Some fs \<Rightarrow> pb_message_set_to_defaults d env fs (pData it)
                 (memset_zero m (pData it) (unat (f_data_size f)))
          else Some m)
         (\<lambda>m. PB_DECODERS d env rec f (pData it) (s, store_word m (pSize it) (f_tag f)))"
      using one_of by (simp add: decode_static_field_def f_def [symmetric] Let_def)
    then show ?thesis
      using static_fieldD(2) [OF at(1)] init
      by (auto intro!: writes_mem writes_after [OF size func] simp: ptr_fields_def split: if_splits)
  qed
qed

lemma release_union_static:
  assumes "static_message n fs" "at_field env fs dest it"
    "pb_release_union_field d env it (s, m) = Some (b, it', s', m')"
  shows "m' = m" "at_message env fs dest it'"
proof -
  have it: "at_message env fs dest it" using assms(2) by (simp add: at_message_def)
  note find = find_at_message [OF it]
  have rel: "m2 = m1" if "pb_release_single_field d env it1 m1 = Some m2" "at_message env fs dest it1" for it1 m1 m2
  proof (cases "at_field env fs dest it1")
    case True
    then show ?thesis using that(1) release_static [OF at_field_static(1) [OF assms(1)]] by blast
  next
    case False
    with that show ?thesis
      by (cases d) (auto simp: at_message_def Let_def field_at_def PB_LAST_FIELD_def PB_ATYPE_def PB_LTYPE_def PB_HTYPE_def)
  qed
  define old where "old = (load_word m (pSize it) :: pb_size_t)"
  define new where "new = f_tag (iter_field it)"
  note res = assms(3) [unfolded pb_release_union_field_def Let_def prod.case, folded old_def new_def]
  have "m' = m \<and> at_message env fs dest it'"
  proof (cases "old = 0 \<or> old = new")
    case True
    with res it show ?thesis by simp
  next
    case False
    obtain b1 it1 where f1: "pb_field_iter_find it old = (b1, it1)" by fastforce
    note at1 = find_at_message [OF it f1]
    show ?thesis
    proof (cases b1)
      case False
      with res f1 \<open>\<not> (old = 0 \<or> old = new)\<close> at1 show ?thesis by simp
    next
      case True
      with res f1 False obtain m1 where m1: "pb_release_single_field d env it1 m = Some m1"
        by (auto simp: then_mem_Some_iff)
      then have eq: "m1 = m" using at1 by (rule rel)
      obtain b2 it2 where f2: "pb_field_iter_find it1 new = (b2, it2)" by fastforce
      note at2 = find_at_message [OF at1 f2]
      from res f1 False True m1 f2 at_message_static(1) [OF assms(1) at2] eq at2 show ?thesis
        by (auto split: bool.splits)
    qed
  qed
  then show "m' = m" "at_message env fs dest it'" by auto
qed

lemma decode_field_writes:
  assumes "bounded_reads env" "static_message n fs" "at_message env fs dest it"
    "decode_field d env rec wt it (s, m) = Some (ok, it', s', m')"
  shows "only_writes (region env dest n) m m'" "at_message env fs dest it'"
proof -
  have n: "1 \<le> n" using assms(2) by (simp add: static_message_def layout_def)
  have dec: "only_writes (region env dest n) m1 m2"
    if "decode_by_atype d env rec wt it1 (s1, m1) = Some (ok1, s2, m2)" "at_message env fs dest it1"
    for it1 s1 m1 ok1 s2 m2
  proof -
    from that(1) have st: "decode_static_field d env rec wt it1 (s1, m1) = Some (ok1, s2, m2)"
      using at_message_static(1) [OF assms(2) that(2)] by (simp add: decode_by_atype_def)
    show ?thesis
    proof (cases "at_field env fs dest it1")
      case True
      then show ?thesis
        using decode_static_field_writes [OF assms(1,2), of dest it1 m1 d wt s1] st by simp
    next
      case False
      then have it1: "it1 = iter_at [] dest 0" using that(2) by (simp add: at_message_def)
      have "writes (span dest 1) m1 (Some (pb_dec_bool env dest (s1, m1)))"
        unfolding pb_dec_bool_def prod.case
        by (rule with_value_writes) (simp add: store_bool_def store_bytes_span)
      then have "only_writes (span dest 1) m1 m2"
        using st by (simp add: it1 decode_static_field_def field_at_def PB_LAST_FIELD_def PB_DECODERS_def
            PB_HTYPE_def PB_LTYPE_def)
      then show ?thesis by (rule only_writes_mono) (use n in \<open>auto simp: region_def span_def\<close>)
    qed
  qed
  have union: "m1 = m \<and> at_message env fs dest it1"
    if "pb_release_union_field d env it (s, m) = Some (b, it1, s1, m1)"
       "PB_HTYPE (f_type (iter_field it)) = PB_HTYPE_ONEOF" for b it1 s1 m1
    using release_union_static [OF assms(2) at_message_static(3) [OF assms(2,3) that(2)] that(1)] by simp
  from assms(4) consider "PB_HTYPE (f_type (iter_field it)) = PB_HTYPE_ONEOF"
      "pb_release_union_field d env it (s, m) = Some (False, it', s', m')"
    | s1 m1 where "PB_HTYPE (f_type (iter_field it)) = PB_HTYPE_ONEOF"
      "pb_release_union_field d env it (s, m) = Some (True, it', s1, m1)"
      "decode_by_atype d env rec wt it' (s1, m1) = Some (ok, s', m')"
    | "it' = it" "decode_by_atype d env rec wt it (s, m) = Some (ok, s', m')"
    by (auto simp: decode_field_def deref_def split: if_splits option.splits prod.splits bool.splits)
  then have "only_writes (region env dest n) m m' \<and> at_message env fs dest it'"
  proof cases
    case 1
    with union show ?thesis by auto
  next
    case 2
    with union [OF 2(2,1)] dec [OF 2(3)] show ?thesis by simp
  next
    case 3
    with dec [OF 3(2) assms(3)] assms(3) show ?thesis by simp
  qed
  then show "only_writes (region env dest n) m m'" "at_message env fs dest it'" by auto
qed

lemma unknown_field_writes:
  assumes "static_message n fs" "at_message env fs dest (n_iter v)" "tag < - 1"
    "unknown_field d env rec tag wt v (s, m) = Some (ex, v', s', m')"
  shows "m' = m \<and> at_message env fs dest (n_iter v')"
proof -
  obtain b it1 where f: "find_extension_field (n_iter v) = (b, it1)" by fastforce
  from find_extension_static [OF assms(1,2) f] have "at_message env fs dest it1" "\<not> b" by auto
  with assms(2,3,4) f show ?thesis
    by (auto simp: unknown_field_def Let_def split: if_splits prod.splits)
qed

lemma known_field_writes:
  assumes "bounded_reads env" "static_message n fs" "at_message env fs dest (n_iter v)"
    "known_field d env rec wt v (s, m) = Some (ex, v', s', m')"
  shows "only_writes (region env dest n) m m' \<and> at_message env fs dest (n_iter v')"
proof -
  define c where "c = frame_addr env d"
  have frame: "only_writes (region env dest n) m (store_word m c (0 :: pb_size_t))"
    by (rule store_in) (auto simp: c_def region_def frames_def)
  note redirect = redirect_at_message [OF assms(2,3), of d, folded c_def]
  define fixed where "fixed = (PB_HTYPE (f_type (iter_field (n_iter v))) = PB_HTYPE_REPEATED \<and>
      pSize (n_iter v) = pData (n_iter v))"
  define change where "change = (fixed \<and> fixed_count_field v \<noteq> Some (iter_pos (n_iter v)))"
  define it1 where "it1 = (if fixed then n_iter v\<lparr>pSize := c\<rparr> else n_iter v)"
  define m1 where "m1 = (if change then store_word m c (0 :: pb_size_t) else m)"
  have it1: "at_message env fs dest it1" using assms(3) redirect by (auto simp: it1_def fixed_def)
  have m1: "only_writes (region env dest n) m m1" using frame by (simp add: m1_def)
  note res = assms(4) [unfolded known_field_def Let_def prod.case, folded c_def, folded fixed_def,
      folded change_def, folded it1_def m1_def]
  show ?thesis
  proof (cases "change \<and> fixed_count_wrong c v m")
    case True
    with res assms(3) show ?thesis by simp
  next
    case False
    with res obtain ok it2 where "decode_field d env rec wt it1 (s, m1) = Some (ok, it2, s', m')" "n_iter v' = it2"
      by (auto simp only: if_False) auto
    with decode_field_writes [OF assms(1,2) it1] m1 show ?thesis by (blast intro: only_writes_trans)
  qed
qed

lemma decode_turn_writes:
  assumes "bounded_reads env" "static_message n fs" "at_message env fs dest (n_iter v)"
    "decode_turn d env rec v (s, m) = Some (ex, v', s', m')"
  shows "only_writes (region env dest n) m m' \<and> at_message env fs dest (n_iter v')"
proof -
  obtain r eof t where tag: "pb_decode_tag env s = (r, eof, t)" by (cases "pb_decode_tag env s")
  show ?thesis
  proof (cases r)
    case None
    with assms(3,4) tag show ?thesis by (auto simp: decode_turn_def)
  next
    case (Some p)
    obtain ty tg where p: "p = (ty, tg)" by (cases p)
    from pb_decode_tag_less [OF tag [unfolded Some p]] have tg: "tg < - 1" .
    obtain b it where f: "pb_field_iter_find (n_iter v) tg = (b, it)" by fastforce
    from find_at_message [OF assms(3) f] have at: "at_message env fs dest (n_iter (v\<lparr>n_iter := it\<rparr>))" by simp
    show ?thesis
    proof (cases b)
      case True
      with assms(4) have "known_field d env rec ty (v\<lparr>n_iter := it\<rparr>) (t, m) = Some (ex, v', s', m')"
        by (simp add: decode_turn_def tag Some p f)
      then show ?thesis by (rule known_field_writes [OF assms(1,2) at])
    next
      case False
      with assms(4) have "unknown_field d env rec tg ty (v\<lparr>n_iter := it\<rparr>) (t, m) = Some (ex, v', s', m')"
        by (simp add: decode_turn_def tag Some p f)
      from unknown_field_writes [OF assms(2) at tg this] show ?thesis by simp
    qed
  qed
qed

lemma decode_loop_writes:
  assumes "bounded_reads env" "static_message n fs" "at_message env fs dest (n_iter v)"
    "decode_loop j d env rec v (s, m) = Some (ok, v', s', m')"
  shows "only_writes (region env dest n) m m'"
  using assms(3,4)
proof (induction j arbitrary: v s m)
  case 0
  then show ?case by (auto simp: decode_loop.simps [of 0] split: if_splits)
next
  case (Suc j)
  note turn = decode_turn_writes [OF assms(1,2) Suc.prems(1)]
  from Suc.prems(2) consider "m' = m"
    | ex where "decode_turn d env rec v (s, m) = Some (ex, v', s', m')"
    | v1 t m1 where "decode_turn d env rec v (s, m) = Some (Continue, v1, t, m1)"
        "decode_loop j d env rec v1 (t, m1) = Some (ok, v', s', m')"
    by (auto simp: decode_loop.simps [of "Suc j"] split: if_splits option.splits loop_exit.splits)
  then show ?case
  proof cases
    case 3
    with turn [OF 3(1)] Suc.IH show ?thesis by (blast intro: only_writes_trans)
  qed (use turn in auto)
qed

end

section \<open>All levels\<close>

lemma noinit_checks_mem: "noinit_checks d env v (s, m) = (ok, s', m') \<Longrightarrow> m' = m"
  by (auto simp: noinit_checks_def dec_error_def split: if_splits)

lemma begin_at_message:
  "static_message n fs \<Longrightarrow> at_message env fs dest (snd (pb_field_iter_begin fs dest))"
  by (cases "nfields fs") (auto simp: begin_iter_at at_message_def at_field_def static_message_def layout_def)

lemma pb_decode_noinit_writes:
  "bounded_reads env \<Longrightarrow> static_message n fs \<Longrightarrow> writes (region env dest n) m (pb_decode_noinit d env fs dest (s, m))"
proof (induction d arbitrary: n fs dest s m)
  case (Suc d)
  have loc: "static_decoder (pb_decode_noinit d env) env"
    by (rule static_decoder.intro) (rule Suc.IH)
  define m1 where "m1 = store_word m (frame_addr env (Suc d)) (0 :: pb_size_t)"
  have m1: "only_writes (region env dest n) m m1"
    unfolding m1_def by (rule store_in) (auto simp: region_def frames_def)
  show ?case
    unfolding writes_def
  proof (intro allI impI)
    fix ok s' m'
    assume "pb_decode_noinit (Suc d) env fs dest (s, m) = Some (ok, s', m')"
    define v where "v = \<lparr>n_iter = snd (pb_field_iter_begin fs dest), fields_seen = [0, 0],
        extension_range_start = 0, fixed_count_field = None\<rparr>"
    define loop where "loop = decode_loop (bytes_left s) (Suc d) env (pb_decode_noinit d env) v (s, m1)"
    from \<open>pb_decode_noinit (Suc d) env fs dest (s, m) = Some (ok, s', m')\<close>
    have "(case loop of None \<Rightarrow> None | Some (False, v, st) \<Rightarrow> Some (False, st)
        | Some (True, v, st) \<Rightarrow> Some (noinit_checks (Suc d) env v st)) = Some (ok, s', m')"
      by (simp add: deref_def Let_def m1_def v_def loop_def split: if_splits)
    then obtain b v' t m2 where loop: "loop = Some (b, v', t, m2)" and
      res: "b \<Longrightarrow> noinit_checks (Suc d) env v' (t, m2) = (ok, s', m')" "\<not> b \<Longrightarrow> m' = m2"
      by (cases loop) (auto split: bool.splits)
    have "only_writes (region env dest n) m1 m2"
      by (rule static_decoder.decode_loop_writes [OF loc Suc.prems _ loop [unfolded loop_def]])
        (simp add: v_def begin_at_message [OF Suc.prems(2)])
    moreover have "m' = m2" using res noinit_checks_mem by (cases b) blast+
    ultimately show "only_writes (region env dest n) m m'" using m1 by (blast intro: only_writes_trans)
  qed
qed simp

declare pb_decode_noinit.simps [simp del]

interpretation mem: static_decoder "pb_decode_noinit d env" env for d env
  by (rule static_decoder.intro) (rule pb_decode_noinit_writes)

lemma pb_decode_writes:
  "bounded_reads env \<Longrightarrow> static_message n fs \<Longrightarrow> writes (region env dest n) m (pb_decode d env fs dest (s, m))"
  unfolding pb_decode_def by (rule mem.decode_message_writes)

end
