(* ===== verification/PbDecodeTotal.thy ===== *)
theory PbDecodeTotal
  imports PbDecodeStream PbDecodeMem
begin

text \<open>
  The decoder returns: for a statically allocated message whose nesting is at most \<open>d\<close> levels,
  \<open>pb_decode d\<close> gives a result (\<open>Some\<close>) on every input, true or false; no pointer it follows is \<open>NULL\<close>,
  and none of the bounds on its loops is ever reached, because every turn of the message loop and
  of a packed array takes at least one byte.
\<close>

section \<open>Nesting depth\<close>

lemma fold_max_ge: "x \<in> set xs \<or> x \<le> a \<Longrightarrow> x \<le> fold max xs (a :: nat)"
proof (induction xs arbitrary: a)
  case (Cons y ys)
  then show ?case by (cases "x \<in> set ys") (auto intro!: Cons.IH)
qed simp

lemma field_depth_less: "f \<in> set fs \<Longrightarrow> field_depth f < fields_depth fs"
  using fold_max_ge [of "field_depth f" "map field_depth fs" 0] by (simp add: fields_depth_def less_Suc_eq_le)

lemma field_depth_sub: "f_ptr f = Ptr_fields fs \<Longrightarrow> field_depth f = fields_depth fs"
  by (cases f) (simp add: fields_depth_def)

lemma field_at_depth:
  assumes "static_message n fs" "k < nfields fs"
  shows "field_depth (field_at fs k) < fields_depth fs"
proof -
  have "k < length fs" using assms by (simp add: static_message_def layout_def)
  then show ?thesis by (simp add: field_at_def field_depth_less)
qed

lemma field_addr_pos: "dest \<noteq> 0 \<Longrightarrow> field_addr fs dest k \<noteq> 0"
  using field_addr_shift [of fs dest k] by simp

section \<open>Loops over memory\<close>

lemma seqM_total:
  "(\<And>x s. x \<in> set xs \<Longrightarrow> body x s \<noteq> None) \<Longrightarrow> seqM body xs s \<noteq> None"
proof (induction xs arbitrary: s)
  case (Cons x xs)
  then obtain b t where "body x s = Some (b, t)" by (metis list.set_intros(1) not_Some_eq prod.exhaust)
  with Cons show ?case by (cases b) auto
qed simp

lemma for_all_fields_total:
  assumes "\<And>k m. k < nfields fs \<Longrightarrow> step (iter_at fs dest k) m \<noteq> None" "dest \<noteq> 0"
  shows "for_all_fields step fs dest m \<noteq> None"
proof (cases "0 < nfields fs")
  case True
  have "seqM (\<lambda>it m. map_option (Pair True) (step it m)) (map (iter_at fs dest) [0..<nfields fs]) m \<noteq> None"
    by (rule seqM_total) (use assms(1) in auto)
  with True assms(2) show ?thesis
    by (simp add: for_all_fields_def begin_iter_at deref_def iter_do_while_all)
qed (simp add: for_all_fields_def begin_iter_at)

lemma item_loop_total: "(\<And>p m. step p m \<noteq> None) \<Longrightarrow> item_loop step stride p n m \<noteq> None"
proof (induction n arbitrary: p m)
  case (Suc n)
  then obtain m1 where "step p m = Some m1" by fast
  with Suc show ?case by simp
qed simp

lemma then_mem_total: "r \<noteq> None \<Longrightarrow> (\<And>m. k m \<noteq> None) \<Longrightarrow> then_mem r k \<noteq> None"
  by (cases r) simp_all

lemma then_mem_Some_right [simp]: "then_mem r Some = r"
  by (cases r) simp_all

section \<open>Defaults and releasing\<close>

lemma set_to_default_total:
  assumes "static_message n fs" "k < nfields fs" "field_depth (field_at fs k) < d" "dest \<noteq> 0"
  shows "pb_field_set_to_default d env (iter_at fs dest k) m \<noteq> None"
  using assms
proof (induction d arbitrary: n fs dest k m)
  case (Suc d)
  define f where "f = field_at fs k"
  note st = static_messageD(2) [OF Suc.prems(1,2), folded f_def]
  note ty = static_fieldD(1) [OF st]
  have sub: "for_all_fields (pb_field_set_to_default d env) fs1 (field_addr fs dest k) m1 \<noteq> None"
    if "f_ptr f = Ptr_fields fs1" "static_message n1 fs1" for n1 fs1 m1
  proof (rule for_all_fields_total)
    fix j m2
    assume j: "j < nfields fs1"
    have "field_depth (field_at fs1 j) < fields_depth fs1" using that(2) j by (rule field_at_depth)
    also have "\<dots> \<le> d" using Suc.prems(3) field_depth_sub [OF that(1)] by (simp add: f_def)
    finally show "pb_field_set_to_default d env (iter_at fs1 (field_addr fs dest k) j) m2 \<noteq> None"
      by (rule Suc.IH [OF that(2) j _ field_addr_pos [OF Suc.prems(4)]])
  qed (rule field_addr_pos [OF Suc.prems(4)])
  show ?case
  proof (cases "PB_LTYPE (f_type f) = PB_LTYPE_SUBMESSAGE")
    case True
    from static_fieldD(2) [OF st this] obtain fs1 where
      "f_ptr f = Ptr_fields fs1" "static_message (unat (f_data_size f)) fs1" by auto
    with True ty sub show ?thesis
      unfolding static_type_def by (simp add: Let_def f_def [symmetric] ptr_fields_def)
  next
    case False
    with static_fieldD(3) [OF st] ty show ?thesis
      unfolding static_type_def by (auto simp: Let_def f_def [symmetric] split: pb_field_ptr.splits)
  qed
qed simp

lemma message_set_to_defaults_total:
  assumes "static_message n fs" "fields_depth fs \<le> d" "dest \<noteq> 0"
  shows "pb_message_set_to_defaults d env fs dest m \<noteq> None"
  unfolding pb_message_set_to_defaults_def
proof (rule for_all_fields_total)
  fix k m1
  assume k: "k < nfields fs"
  have "field_depth (field_at fs k) < d" using field_at_depth [OF assms(1) k] assms(2) by simp
  then show "pb_field_set_to_default d env (iter_at fs dest k) m1 \<noteq> None"
    by (rule set_to_default_total [OF assms(1) k _ assms(3)])
qed (rule assms(3))

lemma release_total:
  assumes "static_field (iter_field it)" "field_depth (iter_field it) < d"
  shows "pb_release_single_field d env it m \<noteq> None"
  using assms
proof (induction d arbitrary: it m)
  case (Suc d)
  define f where "f = iter_field it"
  note st = Suc.prems(1) [folded f_def]
  note ty = static_fieldD(1) [OF st]
  have sub: "release_message (pb_release_single_field d env) fs1 p m1 \<noteq> None"
    if "f_ptr f = Ptr_fields fs1" "static_message n1 fs1" for n1 fs1 p m1
  proof (cases "p = 0")
    case False
    have "for_all_fields (pb_release_single_field d env) fs1 p m1 \<noteq> None"
    proof (rule for_all_fields_total)
      fix j m2
      assume j: "j < nfields fs1"
      have "field_depth (field_at fs1 j) < fields_depth fs1" using that(2) j by (rule field_at_depth)
      also have "\<dots> \<le> d" using Suc.prems(2) field_depth_sub [OF that(1)] by (simp add: f_def)
      finally show "pb_release_single_field d env (iter_at fs1 p j) m2 \<noteq> None"
        using static_messageD(2) [OF that(2) j] by (intro Suc.IH) simp_all
    qed (rule False)
    with False show ?thesis by (simp add: release_message_def)
  qed (simp add: release_message_def)
  show ?case
  proof (cases "PB_LTYPE (f_type f) = PB_LTYPE_SUBMESSAGE")
    case True
    from static_fieldD(2) [OF st this] obtain fs1 where fs1:
      "f_ptr f = Ptr_fields fs1" "static_message (unat (f_data_size f)) fs1" by auto
    have "item_loop (release_message (pb_release_single_field d env) fs1) stride p n m1 \<noteq> None" for stride p n m1
      by (rule item_loop_total) (rule sub [OF fs1])
    with True ty fs1 show ?thesis
      unfolding static_type_def
      by (auto simp: Let_def f_def [symmetric] ptr_fields_def intro!: then_mem_total simp del: not_None_eq)
  next
    case False
    with ty show ?thesis unfolding static_type_def by (simp add: Let_def f_def [symmetric])
  qed
qed simp

lemma pb_release_total:
  assumes "static_message n fs" "fields_depth fs \<le> d"
  shows "pb_release d env fs dest m \<noteq> None"
proof (cases "dest = 0")
  case False
  have "for_all_fields (pb_release_single_field d env) fs dest m \<noteq> None"
  proof (rule for_all_fields_total)
    fix k m1
    assume k: "k < nfields fs"
    have "field_depth (field_at fs k) < d" using field_at_depth [OF assms(1) k] assms(2) by simp
    then show "pb_release_single_field d env (iter_at fs dest k) m1 \<noteq> None"
      using static_messageD(2) [OF assms(1) k] by (intro release_total) simp_all
  qed (rule False)
  with False show ?thesis by (simp add: pb_release_def release_message_def)
qed (simp add: pb_release_def release_message_def)

section \<open>The field decoders\<close>

lemma in_substream_total:
  assumes "\<And>sub t. pb_make_string_substream env s = (Some sub, t) \<Longrightarrow> k sub (t, m) \<noteq> None"
  shows "in_substream env k (s, m) \<noteq> None"
proof (cases "pb_make_string_substream env s")
  case (Pair r t)
  then show ?thesis
    using assms by (cases r) (auto simp: in_substream_def split: option.splits sum.splits prod.splits bool.splits)
qed

lemma pb_decode_varint_less:
  "pb_decode_varint env s = (Some v, s') \<Longrightarrow> bytes_left s' < bytes_left s"
  by (subst (asm) pb_decode_varint_def, subst (asm) varint64_loop.simps)
    (auto split: on_ok_splits if_splits simp: Let_def
      dest!: pb_readbyte_Some_less varint64_loop_consumes consumes_bytes_left)

lemma pb_decode_varint32_eof_less:
  "pb_decode_varint32_eof env s = (Some v, eof, s') \<Longrightarrow> bytes_left s' < bytes_left s"
  by (auto simp: pb_decode_varint32_eof_def split: on_ok_splits if_splits prod.splits
      dest!: pb_readbyte_Some_less varint32_loop_consumes consumes_bytes_left)

lemma pb_decode_varint32_less:
  "pb_decode_varint32 env s = (Some v, s') \<Longrightarrow> bytes_left s' < bytes_left s"
  by (auto simp: pb_decode_varint32_def split: prod.splits dest: pb_decode_varint32_eof_less)

text \<open>An entry of a packed array takes at least one byte.\<close>

lemma packable_less:
  assumes "PB_LTYPE (f_type f) \<le> PB_LTYPE_LAST_PACKABLE" "PB_DECODERS d env rec f p (s, m) = Some (True, s', m')"
  shows "bytes_left s' < bytes_left s"
proof -
  have lt: "PB_LTYPE (f_type f) \<notin> {PB_LTYPE_BYTES, PB_LTYPE_STRING, PB_LTYPE_SUBMESSAGE, PB_LTYPE_FIXED_LENGTH_BYTES}"
    using assms(1) by auto
  have clamp: "check_clamped r v (t, m) = (True, s', m') \<Longrightarrow> s' = t" for r v t m
    by (auto simp: check_clamped_def dec_error_def split: option.splits if_splits)
  show ?thesis
    using assms(2) lt
    by (auto simp: PB_DECODERS_def Let_def pb_dec_bool_def pb_dec_varint_def pb_dec_uvarint_def pb_dec_svarint_def
        pb_dec_fixed32_def pb_dec_fixed64_def with_value_def pb_decode_bool_def pb_decode_svarint_def
        pb_decode_fixed32_def pb_decode_fixed64_def
        split: if_splits on_ok_splits dest!: clamp dest: pb_decode_varint_less pb_decode_varint32_less pb_read_Some_less)
qed

lemma LTYPE_static:
  assumes "static_type f"
  shows "PB_LTYPE (f_type f) \<in> {PB_LTYPE_BOOL, PB_LTYPE_VARINT, PB_LTYPE_UVARINT, PB_LTYPE_SVARINT, PB_LTYPE_FIXED32,
    PB_LTYPE_FIXED64, PB_LTYPE_BYTES, PB_LTYPE_STRING, PB_LTYPE_SUBMESSAGE, PB_LTYPE_FIXED_LENGTH_BYTES}"
proof -
  define n where "n = unat (PB_LTYPE (f_type f))"
  have lt: "PB_LTYPE (f_type f) = of_nat n" by (simp add: n_def)
  have "n \<le> 10" "n \<noteq> 9"
    using assms by (simp_all add: static_type_def n_def word_le_nat_alt word_unat_eq_iff [of _ "9 :: pb_type_t"])
  then have "n \<in> {0, 1, 2, 3, 4, 5, 6, 7, 8, 10}" by simp presburger
  then show ?thesis unfolding lt by auto
qed

section \<open>One level, given the next\<close>

locale total_decoder = message_decoder rec env + static_decoder rec env
  for rec :: "'u decoder" and env :: "'u dec_env" +
  fixes d :: nat
  assumes rec_total: "env_ok env \<Longrightarrow> bounded_reads env \<Longrightarrow> static_message n fs \<Longrightarrow> fields_depth fs \<le> d \<Longrightarrow> dest \<noteq> 0 \<Longrightarrow> rec fs dest st \<noteq> None"
begin

lemma decode_message_total:
  assumes "env_ok env" "bounded_reads env" "static_message n fs" "fields_depth fs \<le> d" "fields_depth fs \<le> l" "dest \<noteq> 0"
  shows "decode_message l env rec fs dest (s, m) \<noteq> None"
  unfolding decode_message_def prod.case
proof (rule then_mem_total)
  show "pb_message_set_to_defaults l env fs dest m \<noteq> None"
    using message_set_to_defaults_total [OF assms(3) _ assms(6), of l] assms(5) by simp
  fix m1
  show "(case rec fs dest (s, m1) of None \<Rightarrow> None | Some (True, st) \<Rightarrow> Some (True, st)
      | Some (False, s, m) \<Rightarrow> map_option (\<lambda>m. (False, s, m)) (pb_release l env fs dest m)) \<noteq> None"
    using rec_total [OF assms(1-4,6), of "(s, m1)"] pb_release_total [OF assms(3), of l] assms(5)
    by (auto split: option.splits prod.splits bool.splits)
qed

lemma dec_submessage_total:
  assumes "env_ok env" "bounded_reads env" "f_ptr f = Ptr_fields fs" "static_message n fs" "fields_depth fs \<le> d" "dest \<noteq> 0"
  shows "pb_dec_submessage (Suc d) env rec f dest (s, m) \<noteq> None"
  unfolding pb_dec_submessage_def
  by (rule in_substream_total)
    (use assms(3) rec_total [OF assms(1,2) assms(4-6)] decode_message_total [OF assms(1,2,4,5) le_SucI [OF assms(5)] assms(6)] in \<open>simp add: ptr_fields_def\<close>)

lemma field_decoder_total:
  assumes "env_ok env" "bounded_reads env" "static_field f" "field_depth f \<le> d" "dest \<noteq> 0"
  shows "PB_DECODERS (Suc d) env rec f dest st \<noteq> None"
proof (cases "PB_LTYPE (f_type f) = PB_LTYPE_SUBMESSAGE")
  case True
  from static_fieldD(2) [OF assms(3) True] obtain fs where
    fs: "f_ptr f = Ptr_fields fs" "static_message (unat (f_data_size f)) fs" by auto
  obtain s m where "st = (s, m)" by (cases st)
  with dec_submessage_total [OF assms(1,2) fs _ assms(5), of s m] field_depth_sub [OF fs(1)] assms(4) True show ?thesis
    by (simp add: PB_DECODERS_def)
next
  case False
  with LTYPE_static [OF static_fieldD(1) [OF assms(3)]] show ?thesis
    by (auto simp: PB_DECODERS_def Let_def simp del: not_None_eq)
qed

lemma packed_static_loop_total:
  assumes "env_ok env" "bounded_reads env" "static_field (iter_field it)" "field_depth (iter_field it) \<le> d" "pData it \<noteq> 0"
    "PB_LTYPE (f_type (iter_field it)) \<le> PB_LTYPE_LAST_PACKABLE" "bytes_left sub \<le> n"
  shows "packed_static_loop n (PB_DECODERS (Suc d) env rec (iter_field it)) it (sub, m) \<noteq> None"
  using assms(7)
proof (induction n arbitrary: sub m)
  case 0
  then show ?case by (simp add: packed_static_loop.simps [of 0] Let_def)
next
  case (Suc n)
  define p where "p sz = pData it + unat (f_data_size (iter_field it) * sz)" for sz :: pb_size_t
  obtain ok s' m' where dec: "PB_DECODERS (Suc d) env rec (iter_field it) (p (load_word m (pSize it))) (sub, m) = Some (ok, s', m')"
    using field_decoder_total [OF assms(1,2) assms(3,4), of "p (load_word m (pSize it))" "(sub, m)"] assms(5)
    by (auto simp: p_def)
  have "ok \<Longrightarrow> bytes_left s' \<le> n" using packable_less [OF assms(6)] dec Suc.prems by (cases ok) fastforce+
  then show ?case
    using Suc.IH dec
    by (cases ok) (simp_all add: packed_static_loop.simps [of "Suc n"] Let_def p_def [symmetric] del: not_None_eq)
qed

lemma decode_packed_static_total:
  assumes "env_ok env" "bounded_reads env" "static_field (iter_field it)" "field_depth (iter_field it) \<le> d" "pData it \<noteq> 0"
    "PB_LTYPE (f_type (iter_field it)) \<le> PB_LTYPE_LAST_PACKABLE"
  shows "decode_packed_static env (PB_DECODERS (Suc d) env rec (iter_field it)) it (s, m) \<noteq> None"
  unfolding decode_packed_static_def
  by (rule in_substream_total) (use packed_static_loop_total [OF assms order_refl] in simp)

lemma decode_static_field_total:
  assumes "env_ok env" "bounded_reads env" "static_field (iter_field it)" "field_depth (iter_field it) \<le> d" "pData it \<noteq> 0"
  shows "decode_static_field (Suc d) env rec wt it (s, m) \<noteq> None"
proof -
  define f where "f = iter_field it"
  have func: "PB_DECODERS (Suc d) env rec f (pData it + k) st \<noteq> None" for k st
    using field_decoder_total [OF assms(1,2) assms(3,4)] assms(5) by (simp add: f_def)
  have func0: "PB_DECODERS (Suc d) env rec f (pData it) st \<noteq> None" for st using func [of 0 st] by simp
  have init: "(case ptr_fields (f_ptr f) of None \<Rightarrow> None
      | Some fs \<Rightarrow> pb_message_set_to_defaults (Suc d) env fs (pData it) m1) \<noteq> None"
    if lt: "PB_LTYPE (f_type f) = PB_LTYPE_SUBMESSAGE" for m1
  proof -
    from static_fieldD(2) [OF assms(3)] lt obtain fs where
      fs: "f_ptr f = Ptr_fields fs" "static_message (unat (f_data_size f)) fs" by (auto simp: f_def)
    have "fields_depth fs \<le> Suc d" using field_depth_sub [OF fs(1)] assms(4) by (simp add: f_def)
    from message_set_to_defaults_total [OF fs(2) this assms(5)] fs(1) show ?thesis by (simp add: ptr_fields_def)
  qed
  show ?thesis
  proof (cases "f_type f" rule: PB_HTYPE_cases)
    case required
    then show ?thesis using func0 by (simp add: decode_static_field_def f_def [symmetric] Let_def)
  next
    case optional
    then show ?thesis using func0 by (simp add: decode_static_field_def f_def [symmetric] Let_def)
  next
    case repeated
    then show ?thesis
      using func decode_packed_static_total [OF assms]
      by (simp add: decode_static_field_def f_def [symmetric] Let_def del: not_None_eq)
  next
    case oneof
    have "then_mem
         (if PB_LTYPE (f_type f) = PB_LTYPE_SUBMESSAGE \<and> (load_word m (pSize it) :: pb_size_t) \<noteq> f_tag f then
            case ptr_fields (f_ptr f) of
               None \<Rightarrow> None
             | Some fs \<Rightarrow> pb_message_set_to_defaults (Suc d) env fs (pData it)
                 (memset_zero m (pData it) (unat (f_data_size f)))
          else Some m)
         (\<lambda>m. PB_DECODERS (Suc d) env rec f (pData it) (s, store_word m (pSize it) (f_tag f))) \<noteq> None"
      using init func0 by (intro then_mem_total) (simp_all del: not_None_eq split: if_split)
    with oneof show ?thesis
      unfolding decode_static_field_def prod.case Let_def f_def [symmetric]
      by (simp del: not_None_eq split del: if_split)
  qed
qed

text \<open>Fields of the message: a oneof member is released first, which finds only fields of the message.\<close>

lemma at_message_field:
  assumes "static_message n fs" "fields_depth fs \<le> Suc d" "dest \<noteq> 0" "at_field env fs dest it"
  shows "static_field (iter_field it)" "field_depth (iter_field it) \<le> d" "pData it \<noteq> 0"
proof -
  from assms(4) obtain k where k: "k < nfields fs" "iter_field it = field_at fs k" "pData it = field_addr fs dest k"
    by (rule at_field_cases)
  show "static_field (iter_field it)" using static_messageD(2) [OF assms(1) k(1)] k(2) by simp
  show "field_depth (iter_field it) \<le> d" using field_at_depth [OF assms(1) k(1)] k(2) assms(2) by simp
  show "pData it \<noteq> 0" using field_addr_pos [OF assms(3)] k(3) by simp
qed

lemma release_union_total:
  assumes "static_message n fs" "fields_depth fs \<le> Suc d" "dest \<noteq> 0" "at_field env fs dest it"
  shows "pb_release_union_field (Suc d) env it (s, m) \<noteq> None"
proof -
  define old where "old = (load_word m (pSize it) :: pb_size_t)"
  have at: "at_message env fs dest it" using assms(4) by (simp add: at_message_def)
  have fs: "fs \<noteq> []" using assms(4) by (auto simp: at_field_def nfields_def)
  obtain b it1 where find: "pb_field_iter_find it old = (b, it1)" by fastforce
  have "at_field env fs dest it1" using find_at_message [OF at find] fs by (simp add: at_message_def)
  note at1 = at_message_field [OF assms(1-3) this]
  have "pb_release_single_field (Suc d) env it1 m \<noteq> None" using at1 by (intro release_total) simp_all
  then obtain m1 where rel: "pb_release_single_field (Suc d) env it1 m = Some m1" by auto
  obtain b' it2 where find': "pb_field_iter_find it1 (f_tag (iter_field it)) = (b', it2)" by fastforce
  show ?thesis
    by (cases b; cases b')
      (simp_all add: pb_release_union_field_def Let_def old_def [symmetric] find rel find' del: not_None_eq pb_release_single_field.simps)
qed

lemma decode_by_atype_total:
  assumes "env_ok env" "bounded_reads env" "static_message n fs" "fields_depth fs \<le> Suc d" "dest \<noteq> 0" "at_message env fs dest it"
  shows "decode_by_atype (Suc d) env rec wt it (s, m) \<noteq> None"
proof (cases "at_field env fs dest it")
  case True
  note at = at_message_field [OF assms(3-5) this]
  show ?thesis
    using decode_static_field_total [OF assms(1,2) at] at_message_static(1) [OF assms(3,6)] by (simp add: decode_by_atype_def)
next
  case False
  then have it: "it = iter_at [] dest 0" using assms(6) by (simp add: at_message_def)
  show ?thesis
    by (simp add: it decode_by_atype_def decode_static_field_def field_at_def PB_LAST_FIELD_def PB_DECODERS_def
        PB_HTYPE_def PB_LTYPE_def PB_ATYPE_def del: not_None_eq)
qed

lemma at_message_pData: "at_message env fs dest it \<Longrightarrow> dest \<noteq> 0 \<Longrightarrow> pData it \<noteq> 0"
  using field_addr_pos [of dest fs] by (auto simp: at_message_def at_field_def iter_at_def)

lemma decode_field_total:
  assumes "env_ok env" "bounded_reads env" "static_message n fs" "fields_depth fs \<le> Suc d" "dest \<noteq> 0" "at_message env fs dest it"
  shows "decode_field (Suc d) env rec wt it (s, m) \<noteq> None"
proof (cases "PB_HTYPE (f_type (iter_field it)) = PB_HTYPE_ONEOF")
  case True
  note at = at_message_static(3) [OF assms(3,6) True]
  obtain b it1 s1 m1 where rel: "pb_release_union_field (Suc d) env it (s, m) = Some (b, it1, s1, m1)"
    using release_union_total [OF assms(3-5) at, of s m] by auto
  then have "at_message env fs dest it1" by (rule release_union_static(2) [OF assms(3) at])
  from decode_by_atype_total [OF assms(1,2) assms(3-5) this, of wt s1 m1] show ?thesis
    using at_message_pData [OF assms(6,5)] rel True by (cases b) (auto simp: decode_field_def deref_def)
next
  case False
  then show ?thesis
    using decode_by_atype_total [OF assms, of wt s m] at_message_pData [OF assms(6,5)]
    by (auto simp: decode_field_def deref_def)
qed

lemma unknown_field_total:
  assumes "static_message n fs" "at_message env fs dest (n_iter v)" "tag < - 1"
  shows "unknown_field (Suc d) env rec tag wt v (s, m) \<noteq> None"
proof -
  obtain b it1 where f: "find_extension_field (n_iter v) = (b, it1)" by fastforce
  from find_extension_static [OF assms(1,2) f] have "\<not> b" ..
  obtain ok s' where "pb_skip_field env s wt = (ok, s')" by fastforce
  with \<open>\<not> b\<close> assms(3) f show ?thesis by (auto simp: unknown_field_def Let_def)
qed

lemma known_field_total:
  assumes "env_ok env" "bounded_reads env" "static_message n fs" "fields_depth fs \<le> Suc d" "dest \<noteq> 0" "at_message env fs dest (n_iter v)"
  shows "known_field (Suc d) env rec wt v (s, m) \<noteq> None"
proof -
  define c where "c = frame_addr env (Suc d)"
  define fixed where "fixed = (PB_HTYPE (f_type (iter_field (n_iter v))) = PB_HTYPE_REPEATED \<and>
      pSize (n_iter v) = pData (n_iter v))"
  define it1 where "it1 = (if fixed then n_iter v\<lparr>pSize := c\<rparr> else n_iter v)"
  have it1: "at_message env fs dest it1"
    using assms(6) redirect_at_message [OF assms(3,6)] by (simp add: it1_def fixed_def c_def)
  show ?thesis
    using decode_field_total [OF assms(1,2) assms(3-5) it1, of wt s]
    unfolding known_field_def Let_def prod.case c_def [symmetric] fixed_def [symmetric] it1_def [symmetric]
    by (simp del: not_None_eq)
qed

lemma decode_turn_total:
  assumes "env_ok env" "bounded_reads env" "static_message n fs" "fields_depth fs \<le> Suc d" "dest \<noteq> 0" "at_message env fs dest (n_iter v)"
  shows "decode_turn (Suc d) env rec v (s, m) \<noteq> None"
proof -
  obtain r eof t where tag: "pb_decode_tag env s = (r, eof, t)" by (cases "pb_decode_tag env s")
  show ?thesis
  proof (cases r)
    case None
    then show ?thesis by (simp add: decode_turn_def tag)
  next
    case (Some p)
    obtain ty tg where p: "p = (ty, tg)" by (cases p)
    obtain b it where f: "pb_field_iter_find (n_iter v) tg = (b, it)" by fastforce
    from find_at_message [OF assms(6) f] have at: "at_message env fs dest (n_iter (v\<lparr>n_iter := it\<rparr>))" by simp
    note tg = pb_decode_tag_less [OF tag [unfolded Some p]]
    show ?thesis
      using known_field_total [OF assms(1,2) assms(3-5) at, of ty t m] unknown_field_total [OF assms(3) at tg, of ty t m]
      by (cases b) (simp_all add: decode_turn_def tag Some p f)
  qed
qed

text \<open>A turn that continues has taken at least the tag.\<close>

lemma decode_turn_less:
  assumes "env_ok env" "bounded_reads env" "decode_turn (Suc d) env rec v (s, m) = Some (Continue, v', s', m')"
  shows "bytes_left s' < bytes_left s"
proof -
  obtain r eof t where tag: "pb_decode_tag env s = (r, eof, t)" by (cases "pb_decode_tag env s")
  from assms consider ty tg w where "r = Some (ty, tg)" "unknown_field (Suc d) env rec tg ty w (t, m) = Some (Continue, v', s', m')"
    | ty tg w where "r = Some (ty, tg)" "known_field (Suc d) env rec ty w (t, m) = Some (Continue, v', s', m')"
    by (auto simp: decode_turn_def tag split: option.splits prod.splits bool.splits if_splits)
  then have "reaches t s' \<and> r \<noteq> None"
  proof cases
    case 1
    with unknown_field_ok [OF assms(1) 1(2)] show ?thesis by simp
  next
    case 2
    with known_field_ok [OF assms(1) 2(2)] show ?thesis by simp
  qed
  moreover from this have "bytes_left t < bytes_left s"
    using tag by (auto simp: pb_decode_tag_def dest!: pb_decode_varint32_eof_less split: option.splits prod.splits if_splits)
  ultimately show ?thesis using reaches_bytes_left [of t s'] by simp
qed

lemma decode_loop_total:
  assumes "env_ok env" "bounded_reads env" "static_message n fs" "fields_depth fs \<le> Suc d" "dest \<noteq> 0" "at_message env fs dest (n_iter v)"
    "bytes_left s \<le> k"
  shows "decode_loop k (Suc d) env rec v (s, m) \<noteq> None"
  using assms(6,7)
proof (induction k arbitrary: v s m)
  case 0
  then show ?case by (simp add: decode_loop.simps [of 0])
next
  case (Suc k)
  obtain ex v1 s1 m1 where turn: "decode_turn (Suc d) env rec v (s, m) = Some (ex, v1, s1, m1)"
    using decode_turn_total [OF assms(1,2) assms(3-5) Suc.prems(1), of s m] by auto
  note at = decode_turn_writes [OF assms(2) assms(3) Suc.prems(1) turn]
  show ?case
  proof (cases ex)
    case Continue
    from decode_turn_less [OF assms(1,2) turn [unfolded Continue]] Suc.prems(2) have "bytes_left s1 \<le> k" by simp
    with Suc.IH [of v1 s1 m1] at turn Continue show ?thesis
      by (simp add: decode_loop.simps [of "Suc k"] del: not_None_eq)
  qed (simp_all add: decode_loop.simps [of "Suc k"] turn del: not_None_eq)
qed

end

section \<open>All levels\<close>

lemma pb_decode_noinit_total:
  "env_ok env \<Longrightarrow> bounded_reads env \<Longrightarrow> static_message n fs \<Longrightarrow> fields_depth fs \<le> d \<Longrightarrow> dest \<noteq> 0 \<Longrightarrow>
    pb_decode_noinit d env fs dest st \<noteq> None"
proof (induction d arbitrary: n fs dest st)
  case 0
  then show ?case by (simp add: fields_depth_def)
next
  case (Suc d)
  have loc: "total_decoder (pb_decode_noinit d env) env d"
    by unfold_locales (rule Suc.IH)
  obtain s m where st: "st = (s, m)" by (cases st)
  define v where "v = \<lparr>n_iter = snd (pb_field_iter_begin fs dest), fields_seen = [0, 0],
      extension_range_start = 0, fixed_count_field = None\<rparr>"
  define m1 where "m1 = store_word m (frame_addr env (Suc d)) (0 :: pb_size_t)"
  have "decode_loop (bytes_left s) (Suc d) env (pb_decode_noinit d env) v (s, m1) \<noteq> None"
    by (rule total_decoder.decode_loop_total [OF loc Suc.prems])
      (simp_all add: v_def begin_at_message [OF Suc.prems(3)])
  then obtain ok v' s' m' where
    "decode_loop (bytes_left s) (Suc d) env (pb_decode_noinit d env) v (s, m1) = Some (ok, v', s', m')" by auto
  then show ?case
    using Suc.prems(5)
    by (cases ok) (simp_all add: st pb_decode_noinit.simps deref_def Let_def v_def [symmetric] m1_def [symmetric]
        del: not_None_eq)
qed

interpretation tot: total_decoder "pb_decode_noinit d env" env d for d env
  by unfold_locales (rule pb_decode_noinit_total)

lemma pb_decode_total:
  assumes "env_ok env" "bounded_reads env" "static_message n fs" "fields_depth fs \<le> d" "dest \<noteq> 0"
  shows "pb_decode d env fs dest (s, m) \<noteq> None"
  unfolding pb_decode_def by (rule tot.decode_message_total [OF assms(1-4,4,5)])

end
