(* ===== verification/Messages.thy ===== *)
theory Messages
  imports PbCommon
begin

text \<open>
  The generated message descriptors: \<open>cct.nanopb.c\<close>/\<open>.h\<close> (GoogleDataTransport) and
  \<open>firebasecore.nanopb.c\<close>/\<open>.h\<close> (FirebaseCoreDiagnostics), built with the field macros of \<open>pb.h\<close>.  A C
  type is a \<open>ctype\<close>, with the natural size and alignment it has on the 64-bit targets; \<open>offsetof\<close> and
  \<open>sizeof\<close> lay a struct out, and the macros compute descriptors from it the way the preprocessor and
  compiler do; token pasting (\<open>has_ ## m\<close>) is concatenation of member names.  The theory shows that
  the addresses the iterator computes from the descriptors are the members' own addresses.
\<close>

section \<open>C types and struct layout\<close>

datatype ctype =
  C_bool | C_int32_t | C_int64_t | C_enum | C_pb_size_t | C_pb_byte_t
| C_array ctype nat | C_pointer ctype
| C_struct "(string \<times> ctype) list" | C_union "(string \<times> ctype) list"

definition align_up :: "nat \<Rightarrow> nat \<Rightarrow> nat" where
  "align_up al n = ((n + al - 1) div al) * al"

fun alignof :: "ctype \<Rightarrow> nat" where
  "alignof C_bool = 1"
| "alignof C_pb_byte_t = 1"
| "alignof C_int32_t = 4"
| "alignof C_enum = 4"
| "alignof C_pb_size_t = 4"
| "alignof C_int64_t = 8"
| "alignof (C_array t n) = alignof t"
| "alignof (C_pointer t) = 8"
| "alignof (C_struct ms) = foldr max (map (\<lambda>(x, t). alignof t) ms) 1"
| "alignof (C_union ms) = foldr max (map (\<lambda>(x, t). alignof t) ms) 1"

text \<open>Members lie in order, each at the next multiple of its alignment.\<close>

fun sizeof :: "ctype \<Rightarrow> nat" and members_end :: "nat \<Rightarrow> (string \<times> ctype) list \<Rightarrow> nat" where
  "sizeof C_bool = 1"
| "sizeof C_pb_byte_t = 1"
| "sizeof C_int32_t = 4"
| "sizeof C_enum = 4"
| "sizeof C_pb_size_t = 4"
| "sizeof C_int64_t = 8"
| "sizeof (C_array t n) = sizeof t * n"
| "sizeof (C_pointer t) = sizeof_ptr"
| "sizeof (C_struct ms) = align_up (alignof (C_struct ms)) (members_end 0 ms)"
| "sizeof (C_union ms) =
     align_up (alignof (C_union ms)) (foldr max (map (\<lambda>(x, t). sizeof t) ms) 0)"
| "members_end off [] = off"
| "members_end off ((x, t) # ms) = members_end (align_up (alignof t) off + sizeof t) ms"

fun place_members :: "nat \<Rightarrow> (string \<times> ctype) list \<Rightarrow> (string \<times> nat \<times> ctype) list" where
  "place_members off [] = []"
| "place_members off ((x, t) # ms) =
     (x, align_up (alignof t) off, t) # place_members (align_up (alignof t) off + sizeof t) ms"

fun members :: "ctype \<Rightarrow> (string \<times> ctype) list" where
  "members (C_struct ms) = ms"
| "members (C_union ms) = ms"
| "members _ = []"

text \<open>\<open>((st*)0)->m\<close>, \<open>offsetof(st, m)\<close>, and the type of \<open>m[0]\<close>.\<close>

definition member :: "ctype \<Rightarrow> string \<Rightarrow> ctype" where
  "member st m = (case map_of (members st) m of Some t \<Rightarrow> t | None \<Rightarrow> C_struct [])"

definition offsetof :: "ctype \<Rightarrow> string \<Rightarrow> nat" where
  "offsetof st m =
     (case st of
        C_struct ms \<Rightarrow> (case map_of (place_members 0 ms) m of Some (a, t) \<Rightarrow> a | None \<Rightarrow> 0)
      | _ \<Rightarrow> 0)"

fun elem :: "ctype \<Rightarrow> ctype" where
  "elem (C_array t n) = t"
| "elem (C_pointer t) = t"
| "elem t = t"

definition pb_bytes_array_t :: ctype where
  "pb_bytes_array_t = C_struct [(''size'', C_pb_size_t), (''bytes'', C_array C_pb_byte_t 1)]"

section \<open>The field macros\<close>

definition pb_membersize :: "ctype \<Rightarrow> string \<Rightarrow> pb_size_t" where
  "pb_membersize st m = of_nat (sizeof (member st m))"

definition pb_elemsize :: "ctype \<Rightarrow> string \<Rightarrow> pb_size_t" where
  "pb_elemsize st m = of_nat (sizeof (elem (member st m)))"

definition pb_arraysize :: "ctype \<Rightarrow> string \<Rightarrow> pb_size_t" where
  "pb_arraysize st m = of_nat (sizeof (member st m) div sizeof (elem (member st m)))"

definition pb_delta :: "ctype \<Rightarrow> string \<Rightarrow> string \<Rightarrow> pb_ssize_t" where
  "pb_delta st m1 m2 = of_int (int (offsetof st m1) - int (offsetof st m2))"

datatype placement = FIRST | OTHER | UNION

definition PB_DATAOFFSET_FIRST :: "ctype \<Rightarrow> string \<Rightarrow> string \<Rightarrow> pb_size_t" where
  "PB_DATAOFFSET_FIRST st m1 m2 = of_nat (offsetof st m1)"

definition PB_DATAOFFSET_OTHER :: "ctype \<Rightarrow> string \<Rightarrow> string \<Rightarrow> pb_size_t" where
  "PB_DATAOFFSET_OTHER st m1 m2 =
     of_nat (offsetof st m1) - of_nat (offsetof st m2) - pb_membersize st m2"

definition PB_DATAOFFSET_UNION :: "ctype \<Rightarrow> string \<Rightarrow> string \<Rightarrow> pb_size_t" where
  "PB_DATAOFFSET_UNION st m1 m2 = PB_SIZE_MAX"

definition PB_DATAOFFSET :: "placement \<Rightarrow> ctype \<Rightarrow> string \<Rightarrow> string \<Rightarrow> pb_size_t" where
  "PB_DATAOFFSET pl = (case pl of FIRST \<Rightarrow> PB_DATAOFFSET_FIRST | OTHER \<Rightarrow> PB_DATAOFFSET_OTHER
     | UNION \<Rightarrow> PB_DATAOFFSET_UNION)"

type_synonym field_macro =
  "pb_size_t \<Rightarrow> ctype \<Rightarrow> string \<Rightarrow> pb_size_t \<Rightarrow> pb_type_t \<Rightarrow> pb_field_ptr \<Rightarrow> pb_field_t"

definition PB_REQUIRED_STATIC :: field_macro where
  "PB_REQUIRED_STATIC tag st m fd ltype ptr =
     Pb_field tag (PB_ATYPE_STATIC OR PB_HTYPE_REQUIRED OR ltype) fd 0 (pb_membersize st m) 0 ptr"

definition PB_OPTIONAL_STATIC :: field_macro where
  "PB_OPTIONAL_STATIC tag st m fd ltype ptr =
     Pb_field tag (PB_ATYPE_STATIC OR PB_HTYPE_OPTIONAL OR ltype) fd
       (pb_delta st (''has_'' @ m) m) (pb_membersize st m) 0 ptr"

definition PB_SINGULAR_STATIC :: field_macro where
  "PB_SINGULAR_STATIC tag st m fd ltype ptr =
     Pb_field tag (PB_ATYPE_STATIC OR PB_HTYPE_OPTIONAL OR ltype) fd 0 (pb_membersize st m) 0 ptr"

definition PB_REPEATED_STATIC :: field_macro where
  "PB_REPEATED_STATIC tag st m fd ltype ptr =
     Pb_field tag (PB_ATYPE_STATIC OR PB_HTYPE_REPEATED OR ltype) fd
       (pb_delta st (m @ ''_count'') m) (pb_elemsize st m) (pb_arraysize st m) ptr"

definition PB_REQUIRED_POINTER :: field_macro where
  "PB_REQUIRED_POINTER tag st m fd ltype ptr =
     Pb_field tag (PB_ATYPE_POINTER OR PB_HTYPE_REQUIRED OR ltype) fd 0 (pb_elemsize st m) 0 ptr"

definition PB_OPTIONAL_POINTER :: field_macro where
  "PB_OPTIONAL_POINTER tag st m fd ltype ptr =
     Pb_field tag (PB_ATYPE_POINTER OR PB_HTYPE_OPTIONAL OR ltype) fd 0 (pb_elemsize st m) 0 ptr"

definition PB_SINGULAR_POINTER :: field_macro where
  "PB_SINGULAR_POINTER tag st m fd ltype ptr =
     Pb_field tag (PB_ATYPE_POINTER OR PB_HTYPE_OPTIONAL OR ltype) fd 0 (pb_elemsize st m) 0 ptr"

definition PB_REPEATED_POINTER :: field_macro where
  "PB_REPEATED_POINTER tag st m fd ltype ptr =
     Pb_field tag (PB_ATYPE_POINTER OR PB_HTYPE_REPEATED OR ltype) fd
       (pb_delta st (m @ ''_count'') m) (pb_elemsize st m) 0 ptr"

definition PB_REQUIRED_CALLBACK :: field_macro where
  "PB_REQUIRED_CALLBACK tag st m fd ltype ptr =
     Pb_field tag (PB_ATYPE_CALLBACK OR PB_HTYPE_REQUIRED OR ltype) fd 0 (pb_membersize st m) 0 ptr"

definition PB_OPTIONAL_CALLBACK :: field_macro where
  "PB_OPTIONAL_CALLBACK tag st m fd ltype ptr =
     Pb_field tag (PB_ATYPE_CALLBACK OR PB_HTYPE_OPTIONAL OR ltype) fd 0 (pb_membersize st m) 0 ptr"

definition PB_SINGULAR_CALLBACK :: field_macro where
  "PB_SINGULAR_CALLBACK tag st m fd ltype ptr =
     Pb_field tag (PB_ATYPE_CALLBACK OR PB_HTYPE_OPTIONAL OR ltype) fd 0 (pb_membersize st m) 0 ptr"

definition PB_REPEATED_CALLBACK :: field_macro where
  "PB_REPEATED_CALLBACK tag st m fd ltype ptr =
     Pb_field tag (PB_ATYPE_CALLBACK OR PB_HTYPE_REPEATED OR ltype) fd 0 (pb_membersize st m) 0 ptr"

definition PB_OPTEXT_STATIC :: field_macro where
  "PB_OPTEXT_STATIC tag st m fd ltype ptr =
     Pb_field tag (PB_ATYPE_STATIC OR PB_HTYPE_REQUIRED OR ltype) 0 0 (pb_membersize st m) 0 ptr"

definition PB_OPTEXT_POINTER :: field_macro where
  "PB_OPTEXT_POINTER = PB_OPTIONAL_POINTER"

definition PB_OPTEXT_CALLBACK :: field_macro where
  "PB_OPTEXT_CALLBACK = PB_OPTIONAL_CALLBACK"

datatype proto_type =
  BOOL | BYTES | DOUBLE | ENUM | UENUM | FIXED32 | FIXED64 | FLOAT | INT32 | INT64 | MESSAGE
| SFIXED32 | SFIXED64 | SINT32 | SINT64 | STRING | UINT32 | UINT64 | EXTENSION
| FIXED_LENGTH_BYTES

definition PB_LTYPE_MAP :: "proto_type \<Rightarrow> pb_type_t" where
  "PB_LTYPE_MAP ty =
     (case ty of
        BOOL \<Rightarrow> PB_LTYPE_BOOL
      | BYTES \<Rightarrow> PB_LTYPE_BYTES
      | DOUBLE \<Rightarrow> PB_LTYPE_FIXED64
      | ENUM \<Rightarrow> PB_LTYPE_VARINT
      | UENUM \<Rightarrow> PB_LTYPE_UVARINT
      | FIXED32 \<Rightarrow> PB_LTYPE_FIXED32
      | FIXED64 \<Rightarrow> PB_LTYPE_FIXED64
      | FLOAT \<Rightarrow> PB_LTYPE_FIXED32
      | INT32 \<Rightarrow> PB_LTYPE_VARINT
      | INT64 \<Rightarrow> PB_LTYPE_VARINT
      | MESSAGE \<Rightarrow> PB_LTYPE_SUBMESSAGE
      | SFIXED32 \<Rightarrow> PB_LTYPE_FIXED32
      | SFIXED64 \<Rightarrow> PB_LTYPE_FIXED64
      | SINT32 \<Rightarrow> PB_LTYPE_SVARINT
      | SINT64 \<Rightarrow> PB_LTYPE_SVARINT
      | STRING \<Rightarrow> PB_LTYPE_STRING
      | UINT32 \<Rightarrow> PB_LTYPE_UVARINT
      | UINT64 \<Rightarrow> PB_LTYPE_UVARINT
      | EXTENSION \<Rightarrow> PB_LTYPE_EXTENSION
      | FIXED_LENGTH_BYTES \<Rightarrow> PB_LTYPE_FIXED_LENGTH_BYTES)"

datatype rules = REQUIRED | OPTIONAL | SINGULAR | REPEATED | OPTEXT
datatype allocation = STATIC | POINTER | CALLBACK

definition PB_rules_allocation :: "rules \<Rightarrow> allocation \<Rightarrow> field_macro" where
  "PB_rules_allocation r al =
     (case (r, al) of
        (REQUIRED, STATIC) \<Rightarrow> PB_REQUIRED_STATIC
      | (REQUIRED, POINTER) \<Rightarrow> PB_REQUIRED_POINTER
      | (REQUIRED, CALLBACK) \<Rightarrow> PB_REQUIRED_CALLBACK
      | (OPTIONAL, STATIC) \<Rightarrow> PB_OPTIONAL_STATIC
      | (OPTIONAL, POINTER) \<Rightarrow> PB_OPTIONAL_POINTER
      | (OPTIONAL, CALLBACK) \<Rightarrow> PB_OPTIONAL_CALLBACK
      | (SINGULAR, STATIC) \<Rightarrow> PB_SINGULAR_STATIC
      | (SINGULAR, POINTER) \<Rightarrow> PB_SINGULAR_POINTER
      | (SINGULAR, CALLBACK) \<Rightarrow> PB_SINGULAR_CALLBACK
      | (REPEATED, STATIC) \<Rightarrow> PB_REPEATED_STATIC
      | (REPEATED, POINTER) \<Rightarrow> PB_REPEATED_POINTER
      | (REPEATED, CALLBACK) \<Rightarrow> PB_REPEATED_CALLBACK
      | (OPTEXT, STATIC) \<Rightarrow> PB_OPTEXT_STATIC
      | (OPTEXT, POINTER) \<Rightarrow> PB_OPTEXT_POINTER
      | (OPTEXT, CALLBACK) \<Rightarrow> PB_OPTEXT_CALLBACK)"

definition PB_FIELD :: "pb_size_t \<Rightarrow> proto_type \<Rightarrow> rules \<Rightarrow> allocation \<Rightarrow> placement \<Rightarrow> ctype \<Rightarrow>
    string \<Rightarrow> string \<Rightarrow> pb_field_ptr \<Rightarrow> pb_field_t" where
  "PB_FIELD tag ty r al pl message field prevfield ptr =
     PB_rules_allocation r al tag message field
       (PB_DATAOFFSET pl message field prevfield) (PB_LTYPE_MAP ty) ptr"

definition PB_REPEATED_FIXED_COUNT :: "pb_size_t \<Rightarrow> proto_type \<Rightarrow> placement \<Rightarrow> ctype \<Rightarrow>
    string \<Rightarrow> string \<Rightarrow> pb_field_ptr \<Rightarrow> pb_field_t" where
  "PB_REPEATED_FIXED_COUNT tag ty pl message field prevfield ptr =
     Pb_field tag (PB_ATYPE_STATIC OR PB_HTYPE_REPEATED OR PB_LTYPE_MAP ty)
       (PB_DATAOFFSET pl message field prevfield) 0
       (pb_elemsize message field) (pb_arraysize message field) ptr"

text \<open>
  Members \<open>u.m\<close> of a union \<open>u\<close>; \<open>which_u\<close> holds the tag of the member in use.  The arguments of the
  data offset macros are \<open>u.field\<close> and \<open>prevfield\<close>, and \<open>u.field\<close> lies where \<open>u\<close> does.
\<close>

definition PB_ONEOF_STATIC :: "string \<Rightarrow> field_macro" where
  "PB_ONEOF_STATIC u tag st m fd ltype ptr =
     Pb_field tag (PB_ATYPE_STATIC OR PB_HTYPE_ONEOF OR ltype) fd
       (pb_delta st (''which_'' @ u) u) (pb_membersize (member st u) m) 0 ptr"

definition PB_ONEOF_POINTER :: "string \<Rightarrow> field_macro" where
  "PB_ONEOF_POINTER u tag st m fd ltype ptr =
     Pb_field tag (PB_ATYPE_POINTER OR PB_HTYPE_ONEOF OR ltype) fd
       (pb_delta st (''which_'' @ u) u) (pb_elemsize (member st u) m) 0 ptr"

definition PB_ONEOF_FIELD :: "string \<Rightarrow> pb_size_t \<Rightarrow> proto_type \<Rightarrow> bool \<Rightarrow> placement \<Rightarrow> ctype \<Rightarrow>
    string \<Rightarrow> string \<Rightarrow> pb_field_ptr \<Rightarrow> pb_field_t" where
  "PB_ONEOF_FIELD u tag ty static pl message field prevfield ptr =
     (if static then PB_ONEOF_STATIC else PB_ONEOF_POINTER) u tag message field
       (PB_DATAOFFSET pl message u prevfield) (PB_LTYPE_MAP ty) ptr"

section \<open>Message structures\<close>

definition gdt_cct_IosClientInfo :: ctype where
  "gdt_cct_IosClientInfo = C_struct
     [(''os_major_version'', C_pointer pb_bytes_array_t),
      (''os_full_version'', C_pointer pb_bytes_array_t),
      (''application_build'', C_pointer pb_bytes_array_t),
      (''country'', C_pointer pb_bytes_array_t), (''model'', C_pointer pb_bytes_array_t),
      (''language_code'', C_pointer pb_bytes_array_t),
      (''application_bundle_id'', C_pointer pb_bytes_array_t)]"

definition gdt_cct_ClientInfo :: ctype where
  "gdt_cct_ClientInfo = C_struct
     [(''has_client_type'', C_bool), (''client_type'', C_enum),
      (''has_ios_client_info'', C_bool), (''ios_client_info'', gdt_cct_IosClientInfo)]"

definition gdt_cct_NetworkConnectionInfo :: ctype where
  "gdt_cct_NetworkConnectionInfo = C_struct
     [(''has_network_type'', C_bool), (''network_type'', C_enum),
      (''has_mobile_subtype'', C_bool), (''mobile_subtype'', C_enum)]"

definition gdt_cct_LogEvent :: ctype where
  "gdt_cct_LogEvent = C_struct
     [(''has_event_time_ms'', C_bool), (''event_time_ms'', C_int64_t),
      (''source_extension'', C_pointer pb_bytes_array_t), (''has_event_code'', C_bool),
      (''event_code'', C_int32_t), (''has_timezone_offset_seconds'', C_bool),
      (''timezone_offset_seconds'', C_int64_t), (''has_event_uptime_ms'', C_bool),
      (''event_uptime_ms'', C_int64_t), (''has_network_connection_info'', C_bool),
      (''network_connection_info'', gdt_cct_NetworkConnectionInfo)]"

definition gdt_cct_LogRequest :: ctype where
  "gdt_cct_LogRequest = C_struct
     [(''has_client_info'', C_bool), (''client_info'', gdt_cct_ClientInfo),
      (''has_log_source'', C_bool), (''log_source'', C_int32_t),
      (''log_event_count'', C_pb_size_t), (''log_event'', C_pointer gdt_cct_LogEvent),
      (''has_request_time_ms'', C_bool), (''request_time_ms'', C_int64_t),
      (''has_request_uptime_ms'', C_bool), (''request_uptime_ms'', C_int64_t),
      (''has_qos_tier'', C_bool), (''qos_tier'', C_enum)]"

definition gdt_cct_BatchedLogRequest :: ctype where
  "gdt_cct_BatchedLogRequest = C_struct
     [(''log_request_count'', C_pb_size_t), (''log_request'', C_pointer gdt_cct_LogRequest)]"

definition gdt_cct_QosTierConfiguration :: ctype where
  "gdt_cct_QosTierConfiguration = C_struct
     [(''has_qos_tier'', C_bool), (''qos_tier'', C_enum), (''has_log_source'', C_bool),
      (''log_source'', C_int32_t)]"

definition gdt_cct_QosTiersOverride :: ctype where
  "gdt_cct_QosTiersOverride = C_struct
     [(''qos_tier_configuration_count'', C_pb_size_t),
      (''qos_tier_configuration'', C_pointer gdt_cct_QosTierConfiguration),
      (''has_qos_tier_fingerprint'', C_bool), (''qos_tier_fingerprint'', C_int64_t)]"

definition gdt_cct_LogResponse :: ctype where
  "gdt_cct_LogResponse = C_struct
     [(''has_next_request_wait_millis'', C_bool), (''next_request_wait_millis'', C_int64_t),
      (''has_qos_tier'', C_bool), (''qos_tier'', gdt_cct_QosTiersOverride)]"

definition logs_proto_mobilesdk_ios_ICoreConfiguration :: ctype where
  "logs_proto_mobilesdk_ios_ICoreConfiguration = C_struct
     [(''has_configuration_type'', C_bool), (''configuration_type'', C_enum),
      (''sdk_service_installed_count'', C_pb_size_t),
      (''sdk_service_installed'', C_pointer C_enum),
      (''device_model'', C_pointer pb_bytes_array_t), (''app_id'', C_pointer pb_bytes_array_t),
      (''bundle_id'', C_pointer pb_bytes_array_t), (''has_pod_name'', C_bool),
      (''pod_name'', C_enum), (''icore_version'', C_pointer pb_bytes_array_t),
      (''sdk_version'', C_pointer pb_bytes_array_t), (''has_sdk_name'', C_bool),
      (''sdk_name'', C_enum), (''has_app_count'', C_bool), (''app_count'', C_int32_t),
      (''os_version'', C_pointer pb_bytes_array_t),
      (''min_supported_ios_version'', C_pointer pb_bytes_array_t),
      (''has_use_default_app'', C_bool), (''use_default_app'', C_bool),
      (''has_deployed_in_app_store'', C_bool), (''deployed_in_app_store'', C_bool),
      (''has_dynamic_framework_count'', C_bool), (''dynamic_framework_count'', C_int32_t),
      (''apple_framework_version'', C_pointer pb_bytes_array_t),
      (''has_using_zip_file'', C_bool), (''using_zip_file'', C_bool),
      (''has_deployment_type'', C_bool), (''deployment_type'', C_enum),
      (''platform_info'', C_pointer pb_bytes_array_t), (''has_swizzling_enabled'', C_bool),
      (''swizzling_enabled'', C_bool), (''has_using_gdt'', C_bool), (''using_gdt'', C_bool)]"

section \<open>Descriptors\<close>

definition gdt_cct_NetworkConnectionInfo_NetworkType_NONE :: "32 word" where
  "gdt_cct_NetworkConnectionInfo_NetworkType_NONE = - 1"

definition gdt_cct_NetworkConnectionInfo_MobileSubtype_COMBINED :: "32 word" where
  "gdt_cct_NetworkConnectionInfo_MobileSubtype_COMBINED = 100"

definition gdt_cct_QosTierConfiguration_QosTier_NEVER :: "32 word" where
  "gdt_cct_QosTierConfiguration_QosTier_NEVER = 4"

definition gdt_cct_NetworkConnectionInfo_network_type_default :: "byte list" where
  "gdt_cct_NetworkConnectionInfo_network_type_default =
     to_le 4 (unat gdt_cct_NetworkConnectionInfo_NetworkType_NONE)"

definition gdt_cct_NetworkConnectionInfo_mobile_subtype_default :: "byte list" where
  "gdt_cct_NetworkConnectionInfo_mobile_subtype_default = to_le 4 0"

definition gdt_cct_LogRequest_qos_tier_default :: "byte list" where
  "gdt_cct_LogRequest_qos_tier_default = to_le 4 0"

definition gdt_cct_QosTierConfiguration_log_source_default :: "byte list" where
  "gdt_cct_QosTierConfiguration_log_source_default = to_le 4 0"

definition gdt_cct_NetworkConnectionInfo_fields :: "pb_field_t list" where
  "gdt_cct_NetworkConnectionInfo_fields =
     [PB_FIELD 1 ENUM OPTIONAL STATIC FIRST gdt_cct_NetworkConnectionInfo
        ''network_type'' ''network_type'' (Ptr_default gdt_cct_NetworkConnectionInfo_network_type_default),
      PB_FIELD 2 UENUM OPTIONAL STATIC OTHER gdt_cct_NetworkConnectionInfo
        ''mobile_subtype'' ''network_type'' (Ptr_default gdt_cct_NetworkConnectionInfo_mobile_subtype_default)]"

definition gdt_cct_LogEvent_fields :: "pb_field_t list" where
  "gdt_cct_LogEvent_fields =
     [PB_FIELD 1 INT64 OPTIONAL STATIC FIRST gdt_cct_LogEvent
        ''event_time_ms'' ''event_time_ms'' Ptr_NULL,
      PB_FIELD 6 BYTES OPTIONAL POINTER OTHER gdt_cct_LogEvent
        ''source_extension'' ''event_time_ms'' Ptr_NULL,
      PB_FIELD 11 INT32 OPTIONAL STATIC OTHER gdt_cct_LogEvent
        ''event_code'' ''source_extension'' Ptr_NULL,
      PB_FIELD 15 SINT64 OPTIONAL STATIC OTHER gdt_cct_LogEvent
        ''timezone_offset_seconds'' ''event_code'' Ptr_NULL,
      PB_FIELD 17 INT64 OPTIONAL STATIC OTHER gdt_cct_LogEvent
        ''event_uptime_ms'' ''timezone_offset_seconds'' Ptr_NULL,
      PB_FIELD 23 MESSAGE OPTIONAL STATIC OTHER gdt_cct_LogEvent
        ''network_connection_info'' ''event_uptime_ms'' (Ptr_fields gdt_cct_NetworkConnectionInfo_fields)]"

definition gdt_cct_IosClientInfo_fields :: "pb_field_t list" where
  "gdt_cct_IosClientInfo_fields =
     [PB_FIELD 3 BYTES OPTIONAL POINTER FIRST gdt_cct_IosClientInfo
        ''os_major_version'' ''os_major_version'' Ptr_NULL,
      PB_FIELD 4 BYTES OPTIONAL POINTER OTHER gdt_cct_IosClientInfo
        ''os_full_version'' ''os_major_version'' Ptr_NULL,
      PB_FIELD 5 BYTES OPTIONAL POINTER OTHER gdt_cct_IosClientInfo
        ''application_build'' ''os_full_version'' Ptr_NULL,
      PB_FIELD 6 BYTES OPTIONAL POINTER OTHER gdt_cct_IosClientInfo
        ''country'' ''application_build'' Ptr_NULL,
      PB_FIELD 7 BYTES OPTIONAL POINTER OTHER gdt_cct_IosClientInfo
        ''model'' ''country'' Ptr_NULL,
      PB_FIELD 8 BYTES OPTIONAL POINTER OTHER gdt_cct_IosClientInfo
        ''language_code'' ''model'' Ptr_NULL,
      PB_FIELD 11 BYTES OPTIONAL POINTER OTHER gdt_cct_IosClientInfo
        ''application_bundle_id'' ''language_code'' Ptr_NULL]"

definition gdt_cct_ClientInfo_fields :: "pb_field_t list" where
  "gdt_cct_ClientInfo_fields =
     [PB_FIELD 1 UENUM OPTIONAL STATIC FIRST gdt_cct_ClientInfo
        ''client_type'' ''client_type'' Ptr_NULL,
      PB_FIELD 4 MESSAGE OPTIONAL STATIC OTHER gdt_cct_ClientInfo
        ''ios_client_info'' ''client_type'' (Ptr_fields gdt_cct_IosClientInfo_fields)]"

definition gdt_cct_LogRequest_fields :: "pb_field_t list" where
  "gdt_cct_LogRequest_fields =
     [PB_FIELD 1 MESSAGE OPTIONAL STATIC FIRST gdt_cct_LogRequest
        ''client_info'' ''client_info'' (Ptr_fields gdt_cct_ClientInfo_fields),
      PB_FIELD 2 INT32 OPTIONAL STATIC OTHER gdt_cct_LogRequest
        ''log_source'' ''client_info'' Ptr_NULL,
      PB_FIELD 3 MESSAGE REPEATED POINTER OTHER gdt_cct_LogRequest
        ''log_event'' ''log_source'' (Ptr_fields gdt_cct_LogEvent_fields),
      PB_FIELD 4 INT64 OPTIONAL STATIC OTHER gdt_cct_LogRequest
        ''request_time_ms'' ''log_event'' Ptr_NULL,
      PB_FIELD 8 INT64 OPTIONAL STATIC OTHER gdt_cct_LogRequest
        ''request_uptime_ms'' ''request_time_ms'' Ptr_NULL,
      PB_FIELD 9 UENUM OPTIONAL STATIC OTHER gdt_cct_LogRequest
        ''qos_tier'' ''request_uptime_ms'' (Ptr_default gdt_cct_LogRequest_qos_tier_default)]"

definition gdt_cct_BatchedLogRequest_fields :: "pb_field_t list" where
  "gdt_cct_BatchedLogRequest_fields =
     [PB_FIELD 1 MESSAGE REPEATED POINTER FIRST gdt_cct_BatchedLogRequest
        ''log_request'' ''log_request'' (Ptr_fields gdt_cct_LogRequest_fields)]"

definition gdt_cct_QosTierConfiguration_fields :: "pb_field_t list" where
  "gdt_cct_QosTierConfiguration_fields =
     [PB_FIELD 2 UENUM OPTIONAL STATIC FIRST gdt_cct_QosTierConfiguration
        ''qos_tier'' ''qos_tier'' Ptr_NULL,
      PB_FIELD 3 INT32 OPTIONAL STATIC OTHER gdt_cct_QosTierConfiguration
        ''log_source'' ''qos_tier'' (Ptr_default gdt_cct_QosTierConfiguration_log_source_default)]"

definition gdt_cct_QosTiersOverride_fields :: "pb_field_t list" where
  "gdt_cct_QosTiersOverride_fields =
     [PB_FIELD 1 MESSAGE REPEATED POINTER FIRST gdt_cct_QosTiersOverride
        ''qos_tier_configuration'' ''qos_tier_configuration'' (Ptr_fields gdt_cct_QosTierConfiguration_fields),
      PB_FIELD 2 INT64 OPTIONAL STATIC OTHER gdt_cct_QosTiersOverride
        ''qos_tier_fingerprint'' ''qos_tier_configuration'' Ptr_NULL]"

definition gdt_cct_LogResponse_fields :: "pb_field_t list" where
  "gdt_cct_LogResponse_fields =
     [PB_FIELD 1 INT64 OPTIONAL STATIC FIRST gdt_cct_LogResponse
        ''next_request_wait_millis'' ''next_request_wait_millis'' Ptr_NULL,
      PB_FIELD 3 MESSAGE OPTIONAL STATIC OTHER gdt_cct_LogResponse
        ''qos_tier'' ''next_request_wait_millis'' (Ptr_fields gdt_cct_QosTiersOverride_fields)]"

definition logs_proto_mobilesdk_ios_ICoreConfiguration_fields :: "pb_field_t list" where
  "logs_proto_mobilesdk_ios_ICoreConfiguration_fields =
     [PB_FIELD 1 UENUM OPTIONAL STATIC FIRST logs_proto_mobilesdk_ios_ICoreConfiguration
        ''configuration_type'' ''configuration_type'' Ptr_NULL,
      PB_FIELD 7 UENUM REPEATED POINTER OTHER logs_proto_mobilesdk_ios_ICoreConfiguration
        ''sdk_service_installed'' ''configuration_type'' Ptr_NULL,
      PB_FIELD 9 BYTES OPTIONAL POINTER OTHER logs_proto_mobilesdk_ios_ICoreConfiguration
        ''device_model'' ''sdk_service_installed'' Ptr_NULL,
      PB_FIELD 10 BYTES OPTIONAL POINTER OTHER logs_proto_mobilesdk_ios_ICoreConfiguration
        ''app_id'' ''device_model'' Ptr_NULL,
      PB_FIELD 12 BYTES OPTIONAL POINTER OTHER logs_proto_mobilesdk_ios_ICoreConfiguration
        ''bundle_id'' ''app_id'' Ptr_NULL,
      PB_FIELD 16 UENUM OPTIONAL STATIC OTHER logs_proto_mobilesdk_ios_ICoreConfiguration
        ''pod_name'' ''bundle_id'' Ptr_NULL,
      PB_FIELD 18 BYTES OPTIONAL POINTER OTHER logs_proto_mobilesdk_ios_ICoreConfiguration
        ''icore_version'' ''pod_name'' Ptr_NULL,
      PB_FIELD 19 BYTES OPTIONAL POINTER OTHER logs_proto_mobilesdk_ios_ICoreConfiguration
        ''sdk_version'' ''icore_version'' Ptr_NULL,
      PB_FIELD 20 UENUM OPTIONAL STATIC OTHER logs_proto_mobilesdk_ios_ICoreConfiguration
        ''sdk_name'' ''sdk_version'' Ptr_NULL,
      PB_FIELD 21 INT32 OPTIONAL STATIC OTHER logs_proto_mobilesdk_ios_ICoreConfiguration
        ''app_count'' ''sdk_name'' Ptr_NULL,
      PB_FIELD 22 BYTES OPTIONAL POINTER OTHER logs_proto_mobilesdk_ios_ICoreConfiguration
        ''os_version'' ''app_count'' Ptr_NULL,
      PB_FIELD 24 BYTES OPTIONAL POINTER OTHER logs_proto_mobilesdk_ios_ICoreConfiguration
        ''min_supported_ios_version'' ''os_version'' Ptr_NULL,
      PB_FIELD 25 BOOL OPTIONAL STATIC OTHER logs_proto_mobilesdk_ios_ICoreConfiguration
        ''use_default_app'' ''min_supported_ios_version'' Ptr_NULL,
      PB_FIELD 26 BOOL OPTIONAL STATIC OTHER logs_proto_mobilesdk_ios_ICoreConfiguration
        ''deployed_in_app_store'' ''use_default_app'' Ptr_NULL,
      PB_FIELD 27 INT32 OPTIONAL STATIC OTHER logs_proto_mobilesdk_ios_ICoreConfiguration
        ''dynamic_framework_count'' ''deployed_in_app_store'' Ptr_NULL,
      PB_FIELD 28 BYTES OPTIONAL POINTER OTHER logs_proto_mobilesdk_ios_ICoreConfiguration
        ''apple_framework_version'' ''dynamic_framework_count'' Ptr_NULL,
      PB_FIELD 29 BOOL OPTIONAL STATIC OTHER logs_proto_mobilesdk_ios_ICoreConfiguration
        ''using_zip_file'' ''apple_framework_version'' Ptr_NULL,
      PB_FIELD 30 UENUM OPTIONAL STATIC OTHER logs_proto_mobilesdk_ios_ICoreConfiguration
        ''deployment_type'' ''using_zip_file'' Ptr_NULL,
      PB_FIELD 31 BYTES OPTIONAL POINTER OTHER logs_proto_mobilesdk_ios_ICoreConfiguration
        ''platform_info'' ''deployment_type'' Ptr_NULL,
      PB_FIELD 33 BOOL OPTIONAL STATIC OTHER logs_proto_mobilesdk_ios_ICoreConfiguration
        ''swizzling_enabled'' ''platform_info'' Ptr_NULL,
      PB_FIELD 36 BOOL OPTIONAL STATIC OTHER logs_proto_mobilesdk_ios_ICoreConfiguration
        ''using_gdt'' ''swizzling_enabled'' Ptr_NULL]"

section \<open>The layouts and the initialisers, computed\<close>

lemma align_up_layout [simp]: "align_up al n = ((n + al - 1) div al) * al"
  by (rule align_up_def)

lemma sizeof_ptr_layout [simp]: "sizeof_ptr = 8"
  by (rule sizeof_ptr_def)

lemma pb_bytes_array_t_sizeof [simp]: "sizeof pb_bytes_array_t = 8" "alignof pb_bytes_array_t = 4"
  by (simp_all add: pb_bytes_array_t_def)

text \<open>The table of a struct's members: the offset and the type of each.\<close>

lemma map_fst_place_members: "map fst (place_members off ms) = map fst ms"
  by (induction off ms rule: place_members.induct) simp_all

lemma place_members_type: "(x, a, t) \<in> set (place_members off ms) \<Longrightarrow> (x, t) \<in> set ms"
  by (induction off ms rule: place_members.induct) auto

lemma layout_table:
  assumes "st = C_struct ms" "distinct (map fst ms)"
  shows "list_all (\<lambda>(x, a, t). offsetof st x = a \<and> map_of (members st) x = Some t \<and> member st x = t)
           (place_members 0 ms)"
proof -
  have "distinct (map fst (place_members 0 ms))"
    using assms(2) by (simp add: map_fst_place_members)
  then show ?thesis
    using assms by (auto simp: list_all_iff offsetof_def member_def dest: place_members_type)
qed

lemmas macro_defs =
  pb_membersize_def pb_elemsize_def pb_arraysize_def pb_delta_def PB_DATAOFFSET_FIRST_def
  PB_DATAOFFSET_OTHER_def PB_DATAOFFSET_def PB_OPTIONAL_STATIC_def PB_OPTIONAL_POINTER_def
  PB_REPEATED_POINTER_def PB_LTYPE_MAP_def PB_rules_allocation_def PB_FIELD_def

lemma gdt_cct_IosClientInfo_sizeof [simp]:
  "sizeof gdt_cct_IosClientInfo = 56"
  "alignof gdt_cct_IosClientInfo = 8"
  by (simp_all add: gdt_cct_IosClientInfo_def)

lemmas gdt_cct_IosClientInfo_members [simp] =
  layout_table [OF gdt_cct_IosClientInfo_def, simplified]

lemma gdt_cct_ClientInfo_sizeof [simp]:
  "sizeof gdt_cct_ClientInfo = 72"
  "alignof gdt_cct_ClientInfo = 8"
  by (simp_all add: gdt_cct_ClientInfo_def)

lemmas gdt_cct_ClientInfo_members [simp] =
  layout_table [OF gdt_cct_ClientInfo_def, simplified]

lemma gdt_cct_NetworkConnectionInfo_sizeof [simp]:
  "sizeof gdt_cct_NetworkConnectionInfo = 16"
  "alignof gdt_cct_NetworkConnectionInfo = 4"
  by (simp_all add: gdt_cct_NetworkConnectionInfo_def)

lemmas gdt_cct_NetworkConnectionInfo_members [simp] =
  layout_table [OF gdt_cct_NetworkConnectionInfo_def, simplified]

lemma gdt_cct_LogEvent_sizeof [simp]:
  "sizeof gdt_cct_LogEvent = 88"
  "alignof gdt_cct_LogEvent = 8"
  by (simp_all add: gdt_cct_LogEvent_def)

lemmas gdt_cct_LogEvent_members [simp] =
  layout_table [OF gdt_cct_LogEvent_def, simplified]

lemma gdt_cct_LogRequest_sizeof [simp]:
  "sizeof gdt_cct_LogRequest = 144"
  "alignof gdt_cct_LogRequest = 8"
  by (simp_all add: gdt_cct_LogRequest_def)

lemmas gdt_cct_LogRequest_members [simp] =
  layout_table [OF gdt_cct_LogRequest_def, simplified]

lemma gdt_cct_BatchedLogRequest_sizeof [simp]:
  "sizeof gdt_cct_BatchedLogRequest = 16"
  "alignof gdt_cct_BatchedLogRequest = 8"
  by (simp_all add: gdt_cct_BatchedLogRequest_def)

lemmas gdt_cct_BatchedLogRequest_members [simp] =
  layout_table [OF gdt_cct_BatchedLogRequest_def, simplified]

lemma gdt_cct_QosTierConfiguration_sizeof [simp]:
  "sizeof gdt_cct_QosTierConfiguration = 16"
  "alignof gdt_cct_QosTierConfiguration = 4"
  by (simp_all add: gdt_cct_QosTierConfiguration_def)

lemmas gdt_cct_QosTierConfiguration_members [simp] =
  layout_table [OF gdt_cct_QosTierConfiguration_def, simplified]

lemma gdt_cct_QosTiersOverride_sizeof [simp]:
  "sizeof gdt_cct_QosTiersOverride = 32"
  "alignof gdt_cct_QosTiersOverride = 8"
  by (simp_all add: gdt_cct_QosTiersOverride_def)

lemmas gdt_cct_QosTiersOverride_members [simp] =
  layout_table [OF gdt_cct_QosTiersOverride_def, simplified]

lemma gdt_cct_LogResponse_sizeof [simp]:
  "sizeof gdt_cct_LogResponse = 56"
  "alignof gdt_cct_LogResponse = 8"
  by (simp_all add: gdt_cct_LogResponse_def)

lemmas gdt_cct_LogResponse_members [simp] =
  layout_table [OF gdt_cct_LogResponse_def, simplified]

lemma logs_proto_mobilesdk_ios_ICoreConfiguration_sizeof [simp]:
  "sizeof logs_proto_mobilesdk_ios_ICoreConfiguration = 152"
  "alignof logs_proto_mobilesdk_ios_ICoreConfiguration = 8"
  by (simp_all add: logs_proto_mobilesdk_ios_ICoreConfiguration_def)

lemmas logs_proto_mobilesdk_ios_ICoreConfiguration_members [simp] =
  layout_table [OF logs_proto_mobilesdk_ios_ICoreConfiguration_def, simplified]

lemma gdt_cct_LogEvent_fields_eq: "gdt_cct_LogEvent_fields =
     [Pb_field 1 0x11 8 (-8) 8 0 Ptr_NULL,
      Pb_field 6 0x96 0 0 8 0 Ptr_NULL,
      Pb_field 11 0x11 4 (-4) 4 0 Ptr_NULL,
      Pb_field 15 0x13 8 (-8) 8 0 Ptr_NULL,
      Pb_field 17 0x11 8 (-8) 8 0 Ptr_NULL,
      Pb_field 23 0x18 4 (-4) 16 0 (Ptr_fields gdt_cct_NetworkConnectionInfo_fields)]"
  by (simp add: gdt_cct_LogEvent_fields_def macro_defs)

lemma gdt_cct_NetworkConnectionInfo_fields_eq: "gdt_cct_NetworkConnectionInfo_fields =
     [Pb_field 1 0x11 4 (-4) 4 0 (Ptr_default gdt_cct_NetworkConnectionInfo_network_type_default),
      Pb_field 2 0x12 4 (-4) 4 0 (Ptr_default gdt_cct_NetworkConnectionInfo_mobile_subtype_default)]"
  by (simp add: gdt_cct_NetworkConnectionInfo_fields_def macro_defs)

lemma gdt_cct_IosClientInfo_fields_eq: "gdt_cct_IosClientInfo_fields =
     [Pb_field 3 0x96 0 0 8 0 Ptr_NULL,
      Pb_field 4 0x96 0 0 8 0 Ptr_NULL,
      Pb_field 5 0x96 0 0 8 0 Ptr_NULL,
      Pb_field 6 0x96 0 0 8 0 Ptr_NULL,
      Pb_field 7 0x96 0 0 8 0 Ptr_NULL,
      Pb_field 8 0x96 0 0 8 0 Ptr_NULL,
      Pb_field 11 0x96 0 0 8 0 Ptr_NULL]"
  by (simp add: gdt_cct_IosClientInfo_fields_def macro_defs)

lemma gdt_cct_ClientInfo_fields_eq: "gdt_cct_ClientInfo_fields =
     [Pb_field 1 0x12 4 (-4) 4 0 Ptr_NULL,
      Pb_field 4 0x18 8 (-8) 56 0 (Ptr_fields gdt_cct_IosClientInfo_fields)]"
  by (simp add: gdt_cct_ClientInfo_fields_def macro_defs)

lemma gdt_cct_BatchedLogRequest_fields_eq: "gdt_cct_BatchedLogRequest_fields =
     [Pb_field 1 0xa8 8 (-8) 144 0 (Ptr_fields gdt_cct_LogRequest_fields)]"
  by (simp add: gdt_cct_BatchedLogRequest_fields_def macro_defs)

lemma gdt_cct_LogRequest_fields_eq: "gdt_cct_LogRequest_fields =
     [Pb_field 1 0x18 8 (-8) 72 0 (Ptr_fields gdt_cct_ClientInfo_fields),
      Pb_field 2 0x11 4 (-4) 4 0 Ptr_NULL,
      Pb_field 3 0xa8 8 (-8) 88 0 (Ptr_fields gdt_cct_LogEvent_fields),
      Pb_field 4 0x11 8 (-8) 8 0 Ptr_NULL,
      Pb_field 8 0x11 8 (-8) 8 0 Ptr_NULL,
      Pb_field 9 0x12 4 (-4) 4 0 (Ptr_default gdt_cct_LogRequest_qos_tier_default)]"
  by (simp add: gdt_cct_LogRequest_fields_def macro_defs)

lemma gdt_cct_QosTierConfiguration_fields_eq: "gdt_cct_QosTierConfiguration_fields =
     [Pb_field 2 0x12 4 (-4) 4 0 Ptr_NULL,
      Pb_field 3 0x11 4 (-4) 4 0 (Ptr_default gdt_cct_QosTierConfiguration_log_source_default)]"
  by (simp add: gdt_cct_QosTierConfiguration_fields_def macro_defs)

lemma gdt_cct_QosTiersOverride_fields_eq: "gdt_cct_QosTiersOverride_fields =
     [Pb_field 1 0xa8 8 (-8) 16 0 (Ptr_fields gdt_cct_QosTierConfiguration_fields),
      Pb_field 2 0x11 8 (-8) 8 0 Ptr_NULL]"
  by (simp add: gdt_cct_QosTiersOverride_fields_def macro_defs)

lemma gdt_cct_LogResponse_fields_eq: "gdt_cct_LogResponse_fields =
     [Pb_field 1 0x11 8 (-8) 8 0 Ptr_NULL,
      Pb_field 3 0x18 8 (-8) 32 0 (Ptr_fields gdt_cct_QosTiersOverride_fields)]"
  by (simp add: gdt_cct_LogResponse_fields_def macro_defs)

lemma logs_proto_mobilesdk_ios_ICoreConfiguration_fields_eq: "logs_proto_mobilesdk_ios_ICoreConfiguration_fields =
     [Pb_field 1 0x12 4 (-4) 4 0 Ptr_NULL,
      Pb_field 7 0xa2 8 (-8) 4 0 Ptr_NULL,
      Pb_field 9 0x96 0 0 8 0 Ptr_NULL,
      Pb_field 10 0x96 0 0 8 0 Ptr_NULL,
      Pb_field 12 0x96 0 0 8 0 Ptr_NULL,
      Pb_field 16 0x12 4 (-4) 4 0 Ptr_NULL,
      Pb_field 18 0x96 0 0 8 0 Ptr_NULL,
      Pb_field 19 0x96 0 0 8 0 Ptr_NULL,
      Pb_field 20 0x12 4 (-4) 4 0 Ptr_NULL,
      Pb_field 21 0x11 4 (-4) 4 0 Ptr_NULL,
      Pb_field 22 0x96 0 0 8 0 Ptr_NULL,
      Pb_field 24 0x96 0 0 8 0 Ptr_NULL,
      Pb_field 25 0x10 1 (-1) 1 0 Ptr_NULL,
      Pb_field 26 0x10 1 (-1) 1 0 Ptr_NULL,
      Pb_field 27 0x11 4 (-4) 4 0 Ptr_NULL,
      Pb_field 28 0x96 4 0 8 0 Ptr_NULL,
      Pb_field 29 0x10 1 (-1) 1 0 Ptr_NULL,
      Pb_field 30 0x12 2 (-2) 4 0 Ptr_NULL,
      Pb_field 31 0x96 0 0 8 0 Ptr_NULL,
      Pb_field 33 0x10 1 (-1) 1 0 Ptr_NULL,
      Pb_field 36 0x10 1 (-1) 1 0 Ptr_NULL]"
  by (simp add: logs_proto_mobilesdk_ios_ICoreConfiguration_fields_def macro_defs)

lemmas fields_eqs =
  gdt_cct_LogEvent_fields_eq
  gdt_cct_NetworkConnectionInfo_fields_eq
  gdt_cct_IosClientInfo_fields_eq
  gdt_cct_ClientInfo_fields_eq
  gdt_cct_BatchedLogRequest_fields_eq
  gdt_cct_LogRequest_fields_eq
  gdt_cct_QosTierConfiguration_fields_eq
  gdt_cct_QosTiersOverride_fields_eq
  gdt_cct_LogResponse_fields_eq
  logs_proto_mobilesdk_ios_ICoreConfiguration_fields_eq

section \<open>The descriptors describe the structs\<close>

text \<open>The messages: struct, descriptor array, and the members its fields stand for.\<close>

definition messages :: "(ctype \<times> pb_field_t list \<times> string list) list" where
  "messages =
     [(gdt_cct_LogEvent, gdt_cct_LogEvent_fields,
        [''event_time_ms'', ''source_extension'', ''event_code'', ''timezone_offset_seconds'',
         ''event_uptime_ms'', ''network_connection_info'']),
      (gdt_cct_NetworkConnectionInfo, gdt_cct_NetworkConnectionInfo_fields,
        [''network_type'', ''mobile_subtype'']),
      (gdt_cct_IosClientInfo, gdt_cct_IosClientInfo_fields,
        [''os_major_version'', ''os_full_version'', ''application_build'', ''country'', ''model'',
         ''language_code'', ''application_bundle_id'']),
      (gdt_cct_ClientInfo, gdt_cct_ClientInfo_fields, [''client_type'', ''ios_client_info'']),
      (gdt_cct_BatchedLogRequest, gdt_cct_BatchedLogRequest_fields, [''log_request'']),
      (gdt_cct_LogRequest, gdt_cct_LogRequest_fields,
        [''client_info'', ''log_source'', ''log_event'', ''request_time_ms'',
         ''request_uptime_ms'', ''qos_tier'']),
      (gdt_cct_QosTierConfiguration, gdt_cct_QosTierConfiguration_fields,
        [''qos_tier'', ''log_source'']),
      (gdt_cct_QosTiersOverride, gdt_cct_QosTiersOverride_fields,
        [''qos_tier_configuration'', ''qos_tier_fingerprint'']),
      (gdt_cct_LogResponse, gdt_cct_LogResponse_fields,
        [''next_request_wait_millis'', ''qos_tier'']),
      (logs_proto_mobilesdk_ios_ICoreConfiguration,
        logs_proto_mobilesdk_ios_ICoreConfiguration_fields,
        [''configuration_type'', ''sdk_service_installed'', ''device_model'', ''app_id'',
         ''bundle_id'', ''pod_name'', ''icore_version'', ''sdk_version'', ''sdk_name'',
         ''app_count'', ''os_version'', ''min_supported_ios_version'', ''use_default_app'',
         ''deployed_in_app_store'', ''dynamic_framework_count'', ''apple_framework_version'',
         ''using_zip_file'', ''deployment_type'', ''platform_info'', ''swizzling_enabled'',
         ''using_gdt''])]"

text \<open>The member \<open>pSize\<close> points to: \<open>has_m\<close>, \<open>m_count\<close>, or, where there is none, \<open>m\<close> itself.\<close>

definition size_member_name :: "pb_field_t \<Rightarrow> string \<Rightarrow> string" where
  "size_member_name f m =
     (if f_size_offset f = 0 then m
      else if PB_HTYPE (f_type f) = PB_HTYPE_REPEATED then m @ ''_count'' else ''has_'' @ m)"

text \<open>
  \<open>members_ok st a prev fs ms\<close>: starting behind the field \<open>prev\<close> at offset \<open>a\<close>, the relative offsets of
  the descriptors \<open>fs\<close> lead to the members \<open>ms\<close> and to their size members.
\<close>

fun members_ok :: "ctype \<Rightarrow> nat \<Rightarrow> pb_field_t \<Rightarrow> pb_field_t list \<Rightarrow> string list \<Rightarrow> bool" where
  "members_ok st a prev [] [] = True"
| "members_ok st a prev (f # fs) (m # ms) =
     (f_tag f \<noteq> 0 \<and> \<not> shares_union prev f \<and>
      a + prev_field_size prev + unat (f_data_offset f) = offsetof st m \<and>
      int (offsetof st m) + sint (f_size_offset f) = int (offsetof st (size_member_name f m)) \<and>
      map_of (members st) m \<noteq> None \<and> map_of (members st) (size_member_name f m) \<noteq> None \<and>
      members_ok st (offsetof st m) f fs ms)"
| "members_ok st a prev _ _ = False"

lemma members_ok_length: "members_ok st a prev fs ms \<Longrightarrow> length ms = length fs"
  by (induction st a prev fs ms rule: members_ok.induct) simp_all

lemma members_ok_nfields: "members_ok st a prev fs ms \<Longrightarrow> nfields fs = length fs"
  by (induction st a prev fs ms rule: members_ok.induct) (simp_all add: nfields_def)

lemma members_ok_nth:
  assumes "members_ok st a prev fs ms" "k < length fs"
  shows "offsetof st (ms ! k) =
      (case k of 0 \<Rightarrow> a + prev_field_size prev
       | Suc j \<Rightarrow> offsetof st (ms ! j) + prev_field_size (fs ! j)) + unat (f_data_offset (fs ! k))"
    and "\<not> shares_union (case k of 0 \<Rightarrow> prev | Suc j \<Rightarrow> fs ! j) (fs ! k)"
    and "int (offsetof st (ms ! k)) + sint (f_size_offset (fs ! k)) =
      int (offsetof st (size_member_name (fs ! k) (ms ! k)))"
  using assms
  by (induction st a prev fs ms arbitrary: k rule: members_ok.induct)
    (auto simp: nth_Cons split: nat.splits)

lemma members_ok_addr:
  assumes "members_ok st 0 PB_LAST_FIELD fs ms" "k < length fs"
  shows "field_addr fs dest k = dest + offsetof st (ms ! k)"
  using assms(2)
proof (induction k)
  case 0
  then show ?case
    using members_ok_nth(1) [OF assms(1), of 0]
    by (simp add: field_at_def prev_field_size_def PB_LAST_FIELD_def PB_ATYPE_def PB_HTYPE_def)
next
  case (Suc k)
  then show ?case
    using members_ok_nth(1,2) [OF assms(1), of "Suc k"] by (simp add: field_at_def)
qed

lemma members_ok_size:
  assumes "members_ok st 0 PB_LAST_FIELD fs ms" "k < length fs"
  shows "size_addr fs dest k = dest + offsetof st (size_member_name (fs ! k) (ms ! k))"
proof -
  have "size_addr fs dest k = ptr_offset (field_addr fs dest k) (f_size_offset (field_at fs k))"
    using assms members_ok_nth(2) [OF assms] by (cases k) (simp_all add: field_at_def)
  also have "\<dots> = nat (int dest + (int (offsetof st (ms ! k)) + sint (f_size_offset (fs ! k))))"
    using assms by (simp add: members_ok_addr ptr_offset_def field_at_def add.assoc)
  finally show ?thesis by (simp add: members_ok_nth(3) [OF assms] nat_add_distrib)
qed

lemma messages_members_ok:
  "list_all (\<lambda>(st, fs, ms). members_ok st 0 PB_LAST_FIELD fs ms) messages"
  by (simp add: messages_def fields_eqs size_member_name_def shares_union_def prev_field_size_def
      PB_HTYPE_def PB_ATYPE_def PB_LAST_FIELD_def)

lemma message_members_ok: "(st, fs, ms) \<in> set messages \<Longrightarrow> members_ok st 0 PB_LAST_FIELD fs ms"
  using messages_members_ok by (auto simp: list_all_iff)

lemmas message_nfields = members_ok_nfields [OF message_members_ok]
lemmas message_field_addr = members_ok_addr [OF message_members_ok]
lemmas message_size_addr = members_ok_size [OF message_members_ok]

end
