(* ===== verification/MessageProps.thy ===== *)
theory MessageProps
  imports Messages PbEncodeSpec PbDecodeMem
begin

text \<open>
  What the encoder and decoder do on the two generated messages without pointers or submessages,
  \<open>gdt_cct_NetworkConnectionInfo\<close> and \<open>gdt_cct_QosTierConfiguration\<close>: the exact bytes, the
  maximum encoded size the generator announces (\<open>..._size\<close> in \<open>cct.nanopb.h\<close>), and that both are
  static messages of 16 bytes.
\<close>

section \<open>Optional static scalars\<close>

text \<open>The descriptor that \<open>PB_OPTIONAL_STATIC\<close> gives a 32-bit member with its \<open>has_\<close> flag 4 bytes before it.\<close>

abbreviation (input) scalar32 :: "pb_size_t \<Rightarrow> pb_type_t \<Rightarrow> pb_field_ptr \<Rightarrow> pb_field_t" where
  "scalar32 tag lt p \<equiv> Pb_field tag (PB_HTYPE_OPTIONAL OR lt) 4 (- 4) 4 0 p"

lemma scalar32_type [simp]:
  "PB_ATYPE 0x11 = PB_ATYPE_STATIC" "PB_HTYPE 0x11 = PB_HTYPE_OPTIONAL" "PB_LTYPE 0x11 = PB_LTYPE_VARINT"
  "PB_ATYPE 0x12 = PB_ATYPE_STATIC" "PB_HTYPE 0x12 = PB_HTYPE_OPTIONAL" "PB_LTYPE 0x12 = PB_LTYPE_UVARINT"
  by (simp_all add: PB_ATYPE_def PB_HTYPE_def PB_LTYPE_def)

lemma scalar32_size_addr: "ptr_offset (a + 4) (- 4) = a"
  by (simp add: ptr_offset_def)

lemma int32_field_bytes:
  "field_bytes d wire m (Pb_field tag 0x11 4 (- 4) 4 0 p) (a + 4) =
     Some (if safe_read_bool m a
           then tag_bytes PB_WT_VARINT tag @ varint_bytes (unat (scast (load_word m (a + 4) :: 32 word) :: u64))
           else [])"
  by (simp add: field_bytes_def basic_field_bytes_def Let_def scalar32_size_addr tagged_def
      wire_type_of_ltype_def value_bytes_def varint_of_def non_null_def load_signed_def)

lemma uint32_field_bytes:
  "field_bytes d wire m (Pb_field tag 0x12 4 (- 4) 4 0 p) (a + 4) =
     Some (if safe_read_bool m a
           then tag_bytes PB_WT_VARINT tag @ varint_bytes (unat (load_word m (a + 4) :: 32 word))
           else [])"
proof -
  have "unat (ucast w :: u64) = unat w" for w :: "32 word"
    using unat_less [of w] by (simp add: unat_ucast)
  then show ?thesis
    by (simp add: field_bytes_def basic_field_bytes_def Let_def scalar32_size_addr tagged_def
        wire_type_of_ltype_def value_bytes_def varint_of_def non_null_def load_unsigned_def)
qed

lemma small_tag_bytes:
  "tag_bytes PB_WT_VARINT 1 = [0x08]" "tag_bytes PB_WT_VARINT 2 = [0x10]" "tag_bytes PB_WT_VARINT 3 = [0x18]"
  by (simp_all add: tag_bytes_def tag_word_def varint_bytes_small)

text \<open>The two fields of such a message lie at offsets 4 and 12.\<close>

lemma pair_fields:
  assumes "fs = [Pb_field t1 ty1 4 (- 4) 4 0 p1, Pb_field t2 ty2 4 (- 4) 4 0 p2]"
    "t1 \<noteq> 0" "t2 \<noteq> 0" "ty1 \<in> {0x11, 0x12}" "ty2 \<in> {0x11, 0x12}"
  shows "nfields fs = 2" "field_addr fs src 0 = src + 4" "field_addr fs src 1 = (src + 8) + 4"
    "field_at fs 0 = Pb_field t1 ty1 4 (- 4) 4 0 p1" "field_at fs 1 = Pb_field t2 ty2 4 (- 4) 4 0 p2"
  using assms by (auto simp: nfields_def field_at_def shares_union_def prev_field_size_def)

lemma pair_message_bytes:
  assumes "fs = [Pb_field t1 ty1 4 (- 4) 4 0 p1, Pb_field t2 ty2 4 (- 4) 4 0 p2]"
    "t1 \<noteq> 0" "t2 \<noteq> 0" "ty1 \<in> {0x11, 0x12}" "ty2 \<in> {0x11, 0x12}" "src \<noteq> 0"
    "field_bytes (Suc d) (message_bytes d m) m (Pb_field t1 ty1 4 (- 4) 4 0 p1) (src + 4) = Some xs"
    "field_bytes (Suc d) (message_bytes d m) m (Pb_field t2 ty2 4 (- 4) 4 0 p2) ((src + 8) + 4) = Some ys"
  shows "message_bytes (Suc d) m fs src = Some (xs @ ys)"
proof -
  note pf = pair_fields [OF assms(1-5)]
  have two: "[0..<2] = [0, 1 :: nat]" by (simp add: upt_rec)
  show ?thesis
    using assms(6-8) by (simp only: message_bytes.simps pf two list.map) (simp add: concat_opt_def)
qed

section \<open>The two messages\<close>

definition int32_bytes :: "byte \<Rightarrow> cmem \<Rightarrow> nat \<Rightarrow> byte list" where
  "int32_bytes tag m a =
     (if safe_read_bool m a
      then tag # varint_bytes (unat (scast (load_word m (a + 4) :: 32 word) :: u64)) else [])"

definition uint32_bytes :: "byte \<Rightarrow> cmem \<Rightarrow> nat \<Rightarrow> byte list" where
  "uint32_bytes tag m a =
     (if safe_read_bool m a then tag # varint_bytes (unat (load_word m (a + 4) :: 32 word)) else [])"

lemma NetworkConnectionInfo_bytes:
  assumes "src \<noteq> 0"
  shows "message_bytes (Suc d) m gdt_cct_NetworkConnectionInfo_fields src =
    Some (int32_bytes 0x08 m src @ uint32_bytes 0x10 m (src + 8))"
  by (rule pair_message_bytes [OF gdt_cct_NetworkConnectionInfo_fields_eq])
    (use assms in \<open>simp_all only: int32_field_bytes uint32_field_bytes small_tag_bytes int32_bytes_def
       uint32_bytes_def append_Cons append_Nil, simp_all\<close>)

lemma QosTierConfiguration_bytes:
  assumes "src \<noteq> 0"
  shows "message_bytes (Suc d) m gdt_cct_QosTierConfiguration_fields src =
    Some (uint32_bytes 0x10 m src @ int32_bytes 0x18 m (src + 8))"
  by (rule pair_message_bytes [OF gdt_cct_QosTierConfiguration_fields_eq])
    (use assms in \<open>simp_all only: int32_field_bytes uint32_field_bytes small_tag_bytes int32_bytes_def
       uint32_bytes_def append_Cons append_Nil, simp_all\<close>)

lemma length_int32_bytes: "length (int32_bytes tag m a) \<le> 11"
  using length_varint_bytes_u64 [of "scast (load_word m (a + 4) :: 32 word)"]
  by (simp add: int32_bytes_def)

lemma length_uint32_bytes:
  "unat (load_word m (a + 4) :: 32 word) < 128 \<Longrightarrow> length (uint32_bytes tag m a) \<le> 2"
  by (simp add: uint32_bytes_def varint_bytes_small)

lemma pair_static:
  assumes "fs = [Pb_field t1 ty1 4 (- 4) 4 0 p1, Pb_field t2 ty2 4 (- 4) 4 0 p2]"
    "t1 \<noteq> 0" "t2 \<noteq> 0" "ty1 \<in> {0x11, 0x12}" "ty2 \<in> {0x11, 0x12}"
    "\<And>gs. p1 \<noteq> Ptr_fields gs" "\<And>gs. p2 \<noteq> Ptr_fields gs"
  shows "static_message 16 fs"
proof -
  note pf = pair_fields [OF assms(1-5)]
  have len: "length fs = 2" using assms(1) by simp
  have two: "[0..<2] = [0, 1 :: nat]" by (simp add: upt_rec)
  have fits: "field_fits 16 fs 0" "field_fits 16 fs 1"
    using assms(4,5) pf(2,3) [of 0] pf(4,5)
    by (auto simp: field_fits_def Let_def elements_size_def size_member_def shares_union_def)
  have ptr: "static_field (Pb_field t 0x11 4 (- 4) 4 0 p)" "static_field (Pb_field t 0x12 4 (- 4) 4 0 p)"
    if "\<And>gs. p \<noteq> Ptr_fields gs" for t p
    using that by (cases p; simp add: static_type_def)+
  show ?thesis
    unfolding static_message_def layout_def pf(1) len two
    using fits ptr [of p1] ptr [of p2] assms by auto
qed

lemma NetworkConnectionInfo_static: "static_message 16 gdt_cct_NetworkConnectionInfo_fields"
  by (rule pair_static [OF gdt_cct_NetworkConnectionInfo_fields_eq]) simp_all

lemma QosTierConfiguration_static: "static_message 16 gdt_cct_QosTierConfiguration_fields"
  by (rule pair_static [OF gdt_cct_QosTierConfiguration_fields_eq]) simp_all

end
