(* ===== verification/Base64.thy ===== *)
theory Base64
  imports Prelude "HOL-Library.Monad_Syntax"
begin

text \<open>
  \<open>fbase64.c\<close> of FirebaseDatabase's SocketRocket: the Base64 encoder \<open>f_b64_ntop\<close> and decoder
  \<open>f_b64_pton\<close>.

  The buffer \<open>target\<close> is the list of the bytes of the caller's array; a store or a read outside it is
  undefined in C and the value \<open>None\<close> here, whatever \<open>targsize\<close> says, so \<open>Some\<close> also states that the
  function stays inside the array.  The source string of the decoder is the bytes before its NUL.
  \<open>char\<close> values are bytes; \<open>isspace\<close> is that of the C locale, false outside ASCII.
\<close>

section \<open>The caller's buffer\<close>

definition poke :: "nat \<Rightarrow> byte \<Rightarrow> byte list \<Rightarrow> byte list option" where
  "poke i b target = (if i < length target then Some (target[i := b]) else None)"

definition peek :: "nat \<Rightarrow> byte list \<Rightarrow> byte option" where
  "peek i target = (if i < length target then Some (target ! i) else None)"

text \<open>\<open>target[datalength++] = b\<close>, for the bytes in turn.\<close>

primrec poke_all :: "nat \<Rightarrow> byte list \<Rightarrow> byte list \<Rightarrow> byte list option" where
  "poke_all i [] target = Some target"
| "poke_all i (b # bs) target = do { target \<leftarrow> poke i b target; poke_all (Suc i) bs target }"

section \<open>The alphabet\<close>

definition Base64 :: "byte list" where
  "Base64 = map of_char ''ABCDEFGHIJKLMNOPQRSTUVWXYZabcdefghijklmnopqrstuvwxyz0123456789+/''"

definition Pad64 :: byte where
  "Pad64 = of_char CHR ''=''"

section \<open>Encoding\<close>

text \<open>\<open>output[0..3]\<close> of a group of three input bytes, and the characters they stand for.\<close>

definition output_digits :: "byte \<Rightarrow> byte \<Rightarrow> byte \<Rightarrow> byte list" where
  "output_digits a b c =
     [drop_bit 2 a, push_bit 4 (a AND 0x03) + drop_bit 4 b, push_bit 2 (b AND 0x0f) + drop_bit 6 c,
      c AND 0x3f]"

definition b64_char :: "byte \<Rightarrow> byte" where
  "b64_char v = Base64 ! unat v"

text \<open>
  \<open>while (2 < srclength)\<close>: the rest of the source, \<open>datalength\<close> and the buffer; false when it
  returned -1.
\<close>

fun ntop_loop :: "nat \<Rightarrow> byte list \<Rightarrow> nat \<Rightarrow> byte list \<Rightarrow> (bool \<times> byte list \<times> nat \<times> byte list) option" where
  "ntop_loop targsize (a # b # c # src) datalength target =
     (if datalength + 4 > targsize then Some (False, src, datalength, target)
      else do {
        target \<leftarrow> poke_all datalength (map b64_char (output_digits a b c)) target;
        ntop_loop targsize src (datalength + 4) target })"
| "ntop_loop targsize src datalength target = Some (True, src, datalength, target)"

text \<open>The one or two bytes left: the characters of the last group, with their padding.\<close>

definition ntop_last :: "byte list \<Rightarrow> byte list" where
  "ntop_last src =
     (let out = output_digits (src ! 0) (if length src > 1 then src ! 1 else 0) 0
      in [b64_char (out ! 0), b64_char (out ! 1),
          if length src = 1 then Pad64 else b64_char (out ! 2), Pad64])"

definition int_of_size :: "nat \<Rightarrow> int" where
  "int_of_size n = sint (of_nat n :: 32 word)"

definition f_b64_ntop :: "byte list \<Rightarrow> byte list \<Rightarrow> nat \<Rightarrow> (int \<times> byte list) option" where
  "f_b64_ntop src target targsize = do {
     (ok, src, datalength, target) \<leftarrow> ntop_loop targsize src 0 target;
     if \<not> ok then Some (-1, target)
     else if src \<noteq> [] \<and> datalength + 4 > targsize then Some (-1, target)
     else do {
       (datalength, target) \<leftarrow>
         (if src \<noteq> [] then do {
            target \<leftarrow> poke_all datalength (ntop_last src) target;
            Some (datalength + 4, target) }
          else Some (datalength, target));
       if datalength \<ge> targsize then Some (-1, target)
       else do { target \<leftarrow> poke datalength 0 target; Some (int_of_size datalength, target) } } }"

section \<open>Decoding\<close>

definition isspace :: "byte \<Rightarrow> bool" where
  "isspace ch \<longleftrightarrow> ch \<in> set [0x20, 0x09, 0x0A, 0x0B, 0x0C, 0x0D]"

text \<open>\<open>strchr(Base64, ch) - Base64\<close>.\<close>

primrec index_of :: "byte \<Rightarrow> byte list \<Rightarrow> nat option" where
  "index_of ch [] = None"
| "index_of ch (c # cs) = (if c = ch then Some 0 else map_option Suc (index_of ch cs))"

text \<open>The variables of the decoder; \<open>ptarget\<close> is \<open>None\<close> for \<open>target == NULL\<close>.\<close>

record pton =
  tarindex :: u32
  pstate :: nat
  ptarget :: "byte list option"

text \<open>
  \<open>if (target) { if (hi >= targsize) return (-1); ... }\<close> and the new \<open>tarindex\<close> and \<open>state\<close>; false when
  it returned.
\<close>

definition in_target ::
  "u32 \<Rightarrow> nat \<Rightarrow> (byte list \<Rightarrow> byte list option) \<Rightarrow> u32 \<Rightarrow> nat \<Rightarrow> pton \<Rightarrow> (bool \<times> pton) option" where
  "in_target hi targsize store i state p =
     (case ptarget p of
        None \<Rightarrow> Some (True, p\<lparr>tarindex := i, pstate := state\<rparr>)
      | Some t \<Rightarrow>
          if unat hi \<ge> targsize then Some (False, p)
          else do { t \<leftarrow> store t; Some (True, p\<lparr>tarindex := i, pstate := state, ptarget := Some t\<rparr>) })"

definition or_at :: "u32 \<Rightarrow> byte \<Rightarrow> byte list \<Rightarrow> byte list option" where
  "or_at i v t = do { b \<leftarrow> peek (unat i) t; poke (unat i) (b OR v) t }"

text \<open>The \<open>switch (state)\<close> for the digit \<open>pos - Base64\<close>.\<close>

definition pton_digit :: "nat \<Rightarrow> byte \<Rightarrow> pton \<Rightarrow> (bool \<times> pton) option" where
  "pton_digit targsize v p =
     (let i = tarindex p in
      if pstate p = 0 then in_target i targsize (poke (unat i) (push_bit 2 v)) i 1 p
      else if pstate p = 1 then
        in_target (i + 1) targsize
          (\<lambda>t. do { t \<leftarrow> or_at i (drop_bit 4 v) t; poke (unat (i + 1)) (push_bit 4 (v AND 0x0f)) t }) (i + 1) 2 p
      else if pstate p = 2 then
        in_target (i + 1) targsize
          (\<lambda>t. do { t \<leftarrow> or_at i (drop_bit 2 v) t; poke (unat (i + 1)) (push_bit 6 (v AND 0x03)) t }) (i + 1) 3 p
      else in_target i targsize (or_at i v) (i + 1) 0 p)"

text \<open>
  How the loop ends: \<open>return (-1)\<close>, at the NUL, or at a \<open>'='\<close>, with what follows it.
\<close>

datatype pton_exit = Pton_error | Pton_end | Pton_pad "byte list"

primrec pton_loop :: "nat \<Rightarrow> byte list \<Rightarrow> pton \<Rightarrow> (pton_exit \<times> pton) option" where
  "pton_loop targsize [] p = Some (Pton_end, p)"
| "pton_loop targsize (ch # src) p =
     (if isspace ch then pton_loop targsize src p
      else if ch = Pad64 then Some (Pton_pad src, p)
      else case index_of ch Base64 of
          None \<Rightarrow> Some (Pton_error, p)
        | Some pos \<Rightarrow> do {
            (ok, p) \<leftarrow> pton_digit targsize (of_nat pos) p;
            if ok then pton_loop targsize src p else Some (Pton_error, p) })"

text \<open>
  After a \<open>'='\<close>: whether what follows it is valid padding.  In state 2 spaces may come before the
  second \<open>'='\<close>, and only spaces may follow.
\<close>

definition pton_padding :: "nat \<Rightarrow> byte list \<Rightarrow> bool" where
  "pton_padding state src =
     (if state = 0 \<or> state = 1 then False
      else if state = 2 then
        (case dropWhile isspace src of [] \<Rightarrow> False | ch # src \<Rightarrow> ch = Pad64 \<and> list_all isspace src)
      else list_all isspace src)"

definition f_b64_pton :: "byte list \<Rightarrow> byte list option \<Rightarrow> nat \<Rightarrow> (int \<times> byte list option) option" where
  "f_b64_pton src target targsize = do {
     (exit, p) \<leftarrow> pton_loop targsize src \<lparr>tarindex = 0, pstate = 0, ptarget = target\<rparr>;
     let count = sint (tarindex p);
     case exit of
       Pton_error \<Rightarrow> Some (-1, ptarget p)
     | Pton_end \<Rightarrow> Some (if pstate p \<noteq> 0 then -1 else count, ptarget p)
     | Pton_pad rest \<Rightarrow>
         if \<not> pton_padding (pstate p) rest then Some (-1, ptarget p)
         else (case ptarget p of
             None \<Rightarrow> Some (count, None)
           | Some t \<Rightarrow> do {
               b \<leftarrow> peek (unat (tarindex p)) t;
               Some (if b \<noteq> 0 then -1 else count, Some t) }) }"

section \<open>The buffer operations inside the array\<close>

lemma poke_inside [simp]: "i < length t \<Longrightarrow> poke i b t = Some (t[i := b])"
  by (simp add: poke_def)

lemma peek_inside [simp]: "i < length t \<Longrightarrow> peek i t = Some (t ! i)"
  by (simp add: peek_def)

lemma poke_all_inside:
  "i + length bs \<le> length t \<Longrightarrow> poke_all i bs t = Some (take i t @ bs @ drop (i + length bs) t)"
proof (induction bs arbitrary: i t)
  case (Cons b bs)
  then have "poke_all i (b # bs) t = Some (take (Suc i) (t[i := b]) @ bs @ drop (Suc i + length bs) (t[i := b]))"
    by simp
  also have "take (Suc i) (t[i := b]) = take i t @ [b]" using Cons.prems by (simp add: take_Suc_conv_app_nth)
  finally show ?case by simp
qed simp

section \<open>Encoding: the text of a byte string\<close>

text \<open>The Base64 text of a byte string, group by group.\<close>

fun b64_text :: "byte list \<Rightarrow> byte list" where
  "b64_text (a # b # c # src) = map b64_char (output_digits a b c) @ b64_text src"
| "b64_text [] = []"
| "b64_text [a] = ntop_last [a]"
| "b64_text [a, b] = ntop_last [a, b]"

fun full_groups :: "byte list \<Rightarrow> byte list" where
  "full_groups (a # b # c # src) = map b64_char (output_digits a b c) @ full_groups src"
| "full_groups src = []"

fun leftover :: "byte list \<Rightarrow> byte list" where
  "leftover (a # b # c # src) = leftover src"
| "leftover src = src"

lemma length_output_digits [simp]: "length (output_digits a b c) = 4"
  by (simp add: output_digits_def)

lemma length_ntop_last [simp]: "length (ntop_last src) = 4"
  by (simp add: ntop_last_def Let_def)

lemma b64_text_split: "b64_text src = full_groups src @ (if leftover src = [] then [] else ntop_last (leftover src))"
  by (induction src rule: b64_text.induct) simp_all

lemma length_full_groups [simp]: "length (full_groups src) = 4 * (length src div 3)"
proof (induction src rule: full_groups.induct)
  case (1 a b c src)
  have "(3 + length src) div 3 = Suc (length src div 3)" by presburger
  with 1 show ?case by simp
qed simp_all

lemma leftover_Nil_iff: "leftover src = [] \<longleftrightarrow> length src mod 3 = 0"
  by (induction src rule: leftover.induct) simp_all

lemma length_b64_text: "length (b64_text src) = 4 * ((length src + 2) div 3)"
proof -
  have "(n + 2) div 3 = n div 3 + (if n mod 3 = 0 then 0 else 1)" for n :: nat by presburger
  then show ?thesis by (simp add: b64_text_split leftover_Nil_iff)
qed

lemma ntop_loop_eq:
  assumes "targsize \<le> length target" "dl \<le> targsize"
  shows "if dl + length (full_groups src) \<le> targsize
    then ntop_loop targsize src dl target =
      Some (True, leftover src, dl + length (full_groups src),
        take dl target @ full_groups src @ drop (dl + length (full_groups src)) target)
    else \<exists>src' dl' target'. ntop_loop targsize src dl target = Some (False, src', dl', target') \<and>
      length target' = length target"
  using assms
proof (induction src arbitrary: dl target rule: full_groups.induct)
  case (1 a b c src)
  show ?case
  proof (cases "dl + 4 \<le> targsize")
    case True
    define g where "g = map b64_char (output_digits a b c)"
    define t where "t = take dl target @ g @ drop (dl + 4) target"
    have len: "length g = 4" "length t = length target" using True "1.prems" by (simp_all add: g_def t_def)
    have "poke_all dl g target = Some t" using True "1.prems" len by (simp add: poke_all_inside t_def)
    then have step: "ntop_loop targsize (a # b # c # src) dl target = ntop_loop targsize src (dl + 4) t"
      using True by (simp add: g_def)
    have "take (dl + 4) t = take dl target @ g" "drop (dl + 4 + k) t = drop (dl + 4 + k) target" for k
      using len True "1.prems" by (simp_all add: t_def add.commute)
    then show ?thesis
      using "1.IH" [of t "dl + 4"] True "1.prems" len unfolding step
      by (simp add: g_def add.assoc split: if_splits)
  qed simp
qed simp_all

lemma f_b64_ntop_fits:
  assumes "length (b64_text src) < targsize" "targsize \<le> length target"
  shows "f_b64_ntop src target targsize =
    Some (int_of_size (length (b64_text src)), b64_text src @ [0] @ drop (Suc (length (b64_text src))) target)"
proof -
  define full rest where "full = full_groups src" and "rest = leftover src"
  define t where "t = full @ drop (length full) target"
  have enc: "b64_text src = full @ (if rest = [] then [] else ntop_last rest)"
    by (simp add: b64_text_split full_def rest_def)
  have loop: "ntop_loop targsize src 0 target = Some (True, rest, length full, t)"
    using ntop_loop_eq [of targsize target 0 src] assms
    by (simp add: full_def rest_def t_def b64_text_split split: if_splits)
  show ?thesis
  proof (cases "rest = []")
    case True
    then show ?thesis using assms enc by (simp add: f_b64_ntop_def loop t_def list_update_append
        drop_update_swap Cons_nth_drop_Suc [symmetric])
  next
    case False
    then have "poke_all (length full) (ntop_last rest) t = Some (b64_text src @ drop (length full + 4) target)"
      using assms enc by (simp add: poke_all_inside t_def add.commute)
    then show ?thesis using False assms enc
      by (simp add: f_b64_ntop_def loop list_update_append Cons_nth_drop_Suc [symmetric])
  qed
qed

lemma f_b64_ntop_full:
  assumes "targsize \<le> length (b64_text src)" "targsize \<le> length target"
  shows "\<exists>target'. f_b64_ntop src target targsize = Some (-1, target') \<and> length target' = length target"
proof (cases "length (full_groups src) \<le> targsize")
  case True
  define full rest where "full = full_groups src" and "rest = leftover src"
  define t where "t = full @ drop (length full) target"
  have enc: "b64_text src = full @ (if rest = [] then [] else ntop_last rest)"
    by (simp add: b64_text_split full_def rest_def)
  have len: "length t = length target" using True assms(2) by (simp add: t_def full_def)
  have loop: "ntop_loop targsize src 0 target = Some (True, rest, length full, t)"
    using ntop_loop_eq [of targsize target 0 src] assms(2) True by (simp add: full_def rest_def t_def)
  show ?thesis
  proof (cases "rest \<noteq> [] \<and> length full + 4 \<le> targsize")
    case True
    then have "poke_all (length full) (ntop_last rest) t = Some (take (length full) t @ ntop_last rest @
        drop (length full + 4) t)" using assms(2) len by (simp add: poke_all_inside)
    then show ?thesis using True assms enc len by (auto simp: f_b64_ntop_def loop)
  next
    case False
    then show ?thesis using assms(1) enc len by (auto simp: f_b64_ntop_def loop)
  qed
next
  case False
  then show ?thesis
    using ntop_loop_eq [of targsize target 0 src] assms(2) by (auto simp: f_b64_ntop_def)
qed

section \<open>Decoding: digits and groups\<close>

lemma length_Base64: "length Base64 = 64"
  by (simp add: Base64_def)

lemma Base64_bytes: "Base64 =
    [0x41, 0x42, 0x43, 0x44, 0x45, 0x46, 0x47, 0x48, 0x49, 0x4A, 0x4B, 0x4C, 0x4D, 0x4E, 0x4F, 0x50,
     0x51, 0x52, 0x53, 0x54, 0x55, 0x56, 0x57, 0x58, 0x59, 0x5A, 0x61, 0x62, 0x63, 0x64, 0x65, 0x66,
     0x67, 0x68, 0x69, 0x6A, 0x6B, 0x6C, 0x6D, 0x6E, 0x6F, 0x70, 0x71, 0x72, 0x73, 0x74, 0x75, 0x76,
     0x77, 0x78, 0x79, 0x7A, 0x30, 0x31, 0x32, 0x33, 0x34, 0x35, 0x36, 0x37, 0x38, 0x39, 0x2B, 0x2F]"
  by (simp add: Base64_def of_char_def)

lemma distinct_Base64: "distinct Base64"
  by (simp add: Base64_bytes)

lemma Base64_no_others: "ch \<in> set Base64 \<Longrightarrow> \<not> isspace ch \<and> ch \<noteq> Pad64 \<and> ch \<noteq> 0"
  unfolding Base64_bytes by (auto simp: isspace_def Pad64_def of_char_def)

lemma index_of_nth: "distinct xs \<Longrightarrow> i < length xs \<Longrightarrow> index_of (xs ! i) xs = Some i"
proof (induction xs arbitrary: i)
  case (Cons x xs)
  then show ?case by (cases i) (auto simp: in_set_conv_nth)
qed simp

lemma b64_char_props:
  assumes "unat v < 64"
  shows "index_of (b64_char v) Base64 = Some (unat v)" "\<not> isspace (b64_char v)" "b64_char v \<noteq> Pad64"
    "b64_char v \<noteq> 0"
proof -
  have "b64_char v \<in> set Base64" using assms by (simp add: b64_char_def length_Base64)
  then show "\<not> isspace (b64_char v)" "b64_char v \<noteq> Pad64" "b64_char v \<noteq> 0" using Base64_no_others by auto
  show "index_of (b64_char v) Base64 = Some (unat v)"
    using index_of_nth [OF distinct_Base64] assms by (simp add: b64_char_def length_Base64)
qed

text \<open>The digits as numbers.\<close>

lemma unat_digits:
  "unat (drop_bit 2 (a :: byte)) = unat a div 4"
  "unat (push_bit 4 (a AND 0x03) + drop_bit 4 (b :: byte)) = unat a mod 4 * 16 + unat b div 16"
  "unat (push_bit 2 (b AND 0x0f) + drop_bit 6 (c :: byte)) = unat b mod 16 * 4 + unat c div 64"
  "unat (c AND 0x3f) = unat c mod 64"
proof -
  have m: "unat (x AND 0x03) = unat x mod 4" "unat (x AND 0x0f) = unat x mod 16" "unat (x AND 0x3f) = unat x mod 64"
    for x :: byte
    using unat_and_mask [of x 2] unat_and_mask [of x 4] unat_and_mask [of x 6] by (simp_all add: mask_eq_exp_minus_1)
  have d: "unat a div 4 < 64" "unat b div 16 < 16" "unat c div 64 < 4"
    using unat_byte_less [of a] unat_byte_less [of b] unat_byte_less [of c] by linarith+
  have r: "unat a mod 4 \<le> 3" "unat b mod 16 \<le> 15" by linarith+
  show "unat (drop_bit 2 a) = unat a div 4" by (simp add: unat_drop_bit)
  show "unat (c AND 0x3f) = unat c mod 64" by (rule m)
  have "unat (push_bit 4 (a AND 0x03)) = unat a mod 4 * 16" "unat (push_bit 2 (b AND 0x0f)) = unat b mod 16 * 4"
    using r by (simp_all only: push_bit_eq_mult unat_word_ariths m) simp_all
  then show "unat (push_bit 4 (a AND 0x03) + drop_bit 4 b) = unat a mod 4 * 16 + unat b div 16"
    "unat (push_bit 2 (b AND 0x0f) + drop_bit 6 c) = unat b mod 16 * 4 + unat c div 64"
    using d r by (simp_all add: unat_word_ariths unat_drop_bit)
qed

lemma output_digits_small: "v \<in> set (output_digits a b c) \<Longrightarrow> unat v < 64"
proof -
  assume "v \<in> set (output_digits a b c)"
  then have "unat v \<in> {unat a div 4, unat a mod 4 * 16 + unat b div 16, unat b mod 16 * 4 + unat c div 64,
      unat c mod 64}"
    unfolding output_digits_def list.set insert_iff by (elim disjE) (simp_all only: unat_digits, simp_all)
  moreover have "unat a div 4 < 64" "unat a mod 4 * 16 + unat b div 16 < 64"
    "unat b mod 16 * 4 + unat c div 64 < 64" "unat c mod 64 < 64"
    using unat_byte_less [of a] unat_byte_less [of b] unat_byte_less [of c] by linarith+
  ultimately show ?thesis by auto
qed

text \<open>What the decoder puts together from the digits.\<close>

lemma join_digits:
  assumes "output_digits a b c = [d0, d1, d2, d3]"
  shows "push_bit 2 d0 OR drop_bit 4 d1 = a" "push_bit 4 (d1 AND 0x0f) OR drop_bit 2 d2 = b"
    "push_bit 6 (d2 AND 0x03) OR d3 = c"
proof -
  have m: "unat (x AND 0x03) = unat x mod 4" "unat (x AND 0x0f) = unat x mod 16" for x :: byte
    using unat_and_mask [of x 2] unat_and_mask [of x 4] by (simp_all add: mask_eq_exp_minus_1)
  from assms have u: "unat d0 = unat a div 4" "unat d1 = unat a mod 4 * 16 + unat b div 16"
    "unat d2 = unat b mod 16 * 4 + unat c div 64" "unat d3 = unat c mod 64"
    using unat_digits [of a] unat_digits [of b] by (auto simp: output_digits_def unat_digits)
  have join: "push_bit n x OR y = z" if "unat y < 2 ^ n" "unat x * 2 ^ n + unat y = unat z" for x y z :: byte and n
  proof -
    have "push_bit n x OR y = y + push_bit n x" using or_shifted_add [OF that(1), of x] by (simp only: or.commute)
    also have "\<dots> = of_nat (unat y + 2 ^ n * unat x)" by (simp add: push_bit_word)
    also have "\<dots> = z" using that(2) by (simp only: mult.commute add.commute word_of_nat_unat)
    finally show ?thesis .
  qed
  have b: "unat b div 16 < 16" "unat c div 64 < 4" using unat_byte_less [of b] unat_byte_less [of c] by linarith+
  show "push_bit 2 d0 OR drop_bit 4 d1 = a" by (rule join) (use b in \<open>simp_all add: unat_drop_bit u\<close>)
  show "push_bit 4 (d1 AND 0x0f) OR drop_bit 2 d2 = b" by (rule join) (use b in \<open>simp_all add: unat_drop_bit u m\<close>)
  show "push_bit 6 (d2 AND 0x03) OR d3 = c" by (rule join) (use b in \<open>simp_all add: u m\<close>)
qed

section \<open>Decoding stays inside the array\<close>

definition pton_ok :: "nat \<Rightarrow> pton \<Rightarrow> bool" where
  "pton_ok targsize p \<longleftrightarrow>
     (case ptarget p of
        None \<Rightarrow> True
      | Some t \<Rightarrow> targsize \<le> length t \<and> (pstate p \<noteq> 0 \<longrightarrow> unat (tarindex p) < targsize))"

lemma in_target_ok:
  assumes "pton_ok targsize p" "state \<noteq> 0 \<longrightarrow> i = hi"
    "\<And>t. ptarget p = Some t \<Longrightarrow> unat hi < targsize \<Longrightarrow> \<exists>t'. store t = Some t' \<and> length t' = length t"
  shows "\<exists>b p'. in_target hi targsize store i state p = Some (b, p') \<and> pton_ok targsize p' \<and>
    map_option length (ptarget p') = map_option length (ptarget p)"
proof (cases "ptarget p")
  case None
  then show ?thesis using assms by (auto simp: in_target_def pton_ok_def)
next
  case (Some t)
  show ?thesis
  proof (cases "unat hi < targsize")
    case True
    then obtain t' where "store t = Some t'" "length t' = length t" using assms(3) [OF Some] by auto
    then show ?thesis using assms(1,2) Some True by (auto simp: in_target_def pton_ok_def)
  next
    case False
    then show ?thesis using assms(1) Some by (auto simp: in_target_def)
  qed
qed

lemma or_at_inside: "unat i < length t \<Longrightarrow> or_at i v t = Some (t[unat i := t ! unat i OR v])"
  by (simp add: or_at_def)

lemma pton_digit_ok:
  assumes "pton_ok targsize p"
  shows "\<exists>b p'. pton_digit targsize v p = Some (b, p') \<and> pton_ok targsize p' \<and>
    map_option length (ptarget p') = map_option length (ptarget p)"
  unfolding pton_digit_def Let_def
  by (cases "pstate p = 0"; cases "pstate p = 1"; cases "pstate p = 2"; simp;
      rule in_target_ok [OF assms]; use assms in \<open>auto simp: pton_ok_def or_at_inside\<close>)

lemma pton_loop_ok:
  assumes "pton_ok targsize p"
  shows "\<exists>e p'. pton_loop targsize src p = Some (e, p') \<and> pton_ok targsize p' \<and>
    map_option length (ptarget p') = map_option length (ptarget p)"
  using assms
proof (induction src arbitrary: p)
  case (Cons ch src)
  show ?case
  proof (cases "isspace ch \<or> ch = Pad64 \<or> index_of ch Base64 = None")
    case False
    then obtain pos where pos: "index_of ch Base64 = Some pos" by auto
    obtain b q where q: "pton_digit targsize (of_nat pos) p = Some (b, q)" "pton_ok targsize q"
      "map_option length (ptarget q) = map_option length (ptarget p)"
      using pton_digit_ok [OF Cons.prems] by metis
    show ?thesis
    proof (cases b)
      case True
      with False pos q Cons.IH [OF q(2)] show ?thesis by simp
    qed (use False pos q in simp)
  qed (use Cons in auto)
qed simp

lemma f_b64_pton_inside:
  assumes "\<And>t. target = Some t \<Longrightarrow> targsize \<le> length t"
  shows "\<exists>n target'. f_b64_pton src target targsize = Some (n, target') \<and>
    map_option length target' = map_option length target"
proof -
  define p where "p = \<lparr>tarindex = 0, pstate = 0, ptarget = target\<rparr>"
  have "pton_ok targsize p" using assms by (auto simp: pton_ok_def p_def split: option.split)
  then obtain e q where q: "pton_loop targsize src p = Some (e, q)" "pton_ok targsize q"
    "map_option length (ptarget q) = map_option length target"
    using pton_loop_ok [of targsize p src] by (auto simp: p_def)
  show ?thesis
  proof (cases e)
    case (Pton_pad rest)
    show ?thesis
    proof (cases "pton_padding (pstate q) rest \<and> ptarget q \<noteq> None")
      case True
      then obtain t where t: "ptarget q = Some t" by blast
      have "pstate q \<noteq> 0" using True unfolding pton_padding_def by (intro notI) simp
      then have "unat (tarindex q) < length t" using q(2) t by (simp add: pton_ok_def)
      with True t q Pton_pad show ?thesis by (simp add: f_b64_pton_def p_def)
    next
      case False
      with q Pton_pad show ?thesis by (auto simp: f_b64_pton_def p_def Let_def)
    qed
  qed (use q in \<open>simp_all add: f_b64_pton_def p_def\<close>)
qed

section \<open>Decoding what the encoder wrote\<close>

lemma pton_loop_char:
  assumes "unat v < 64"
  shows "pton_loop targsize (b64_char v # src) p = do {
      (ok, p) \<leftarrow> pton_digit targsize v p;
      if ok then pton_loop targsize src p else Some (Pton_error, p) }"
  using b64_char_props [OF assms] by simp

text \<open>One digit in each state.\<close>

lemma pton_digit_steps:
  assumes "targsize \<le> length t"
  shows "unat i < targsize \<Longrightarrow>
      pton_digit targsize v \<lparr>tarindex = i, pstate = 0, ptarget = Some t\<rparr> =
      Some (True, \<lparr>tarindex = i, pstate = 1, ptarget = Some (t[unat i := push_bit 2 v])\<rparr>)"
    and "unat (i + 1) = unat i + 1 \<Longrightarrow> unat i + 1 < targsize \<Longrightarrow>
      pton_digit targsize v \<lparr>tarindex = i, pstate = 1, ptarget = Some t\<rparr> =
      Some (True, \<lparr>tarindex = i + 1, pstate = 2,
        ptarget = Some (t[unat i := t ! unat i OR drop_bit 4 v, unat i + 1 := push_bit 4 (v AND 0x0f)])\<rparr>)"
    and "unat (i + 1) = unat i + 1 \<Longrightarrow> unat i + 1 < targsize \<Longrightarrow>
      pton_digit targsize v \<lparr>tarindex = i, pstate = 2, ptarget = Some t\<rparr> =
      Some (True, \<lparr>tarindex = i + 1, pstate = 3,
        ptarget = Some (t[unat i := t ! unat i OR drop_bit 2 v, unat i + 1 := push_bit 6 (v AND 0x03)])\<rparr>)"
    and "unat i < targsize \<Longrightarrow>
      pton_digit targsize v \<lparr>tarindex = i, pstate = 3, ptarget = Some t\<rparr> =
      Some (True, \<lparr>tarindex = i + 1, pstate = 0, ptarget = Some (t[unat i := t ! unat i OR v])\<rparr>)"
  using assms by (simp_all add: pton_digit_def in_target_def or_at_inside)

lemma list_update_overwrite_next: "xs[i := a, Suc i := c, i := b] = xs[i := b, Suc i := c]"
  by (simp add: list_update_swap [of "Suc i" i])

lemma pton_loop_group:
  assumes digits: "output_digits a b c = [d0, d1, d2, d3]"
    and k: "k + 2 < 2 ^ 32" "targsize \<le> length t"
  shows "k + 1 < targsize \<Longrightarrow>
      pton_loop targsize (b64_char d0 # b64_char d1 # src) \<lparr>tarindex = of_nat k, pstate = 0, ptarget = Some t\<rparr> =
      pton_loop targsize src \<lparr>tarindex = of_nat (k + 1), pstate = 2,
        ptarget = Some (t[k := a, k + 1 := push_bit 4 (d1 AND 0x0f)])\<rparr>"
    and "k + 2 < targsize \<Longrightarrow>
      pton_loop targsize (b64_char d0 # b64_char d1 # b64_char d2 # src)
        \<lparr>tarindex = of_nat k, pstate = 0, ptarget = Some t\<rparr> =
      pton_loop targsize src \<lparr>tarindex = of_nat (k + 2), pstate = 3,
        ptarget = Some (t[k := a, k + 1 := b, k + 2 := push_bit 6 (d2 AND 0x03)])\<rparr>"
    and "k + 2 < targsize \<Longrightarrow>
      pton_loop targsize (b64_char d0 # b64_char d1 # b64_char d2 # b64_char d3 # src)
        \<lparr>tarindex = of_nat k, pstate = 0, ptarget = Some t\<rparr> =
      pton_loop targsize src \<lparr>tarindex = of_nat (k + 3), pstate = 0,
        ptarget = Some (t[k := a, k + 1 := b, k + 2 := c])\<rparr>"
proof -
  have small: "unat d0 < 64" "unat d1 < 64" "unat d2 < 64" "unat d3 < 64"
    using output_digits_small [of _ a b c] digits by auto
  note join = join_digits [OF digits]
  define i :: u32 where "i = of_nat k"
  have i: "of_nat (k + 1) = i + 1" "of_nat (k + 2) = i + 1 + 1" "of_nat (k + 3) = i + 1 + 1 + 1"
    by (simp_all add: i_def)
  have u: "unat i = k" "unat (i + 1) = k + 1" "unat (i + 1 + 1) = k + 2"
    using unat_of_nat_small [of k, where 'a = 32] unat_of_nat_small [of "k + 1", where 'a = 32]
      unat_of_nat_small [of "k + 2", where 'a = 32] k(1)
    unfolding i i_def [symmetric] by simp_all
  let ?p = "\<lambda>i st t. \<lparr>tarindex = i, pstate = st, ptarget = Some t\<rparr>"
  define t1 t2 t3 where "t1 = t[k := push_bit 2 d0]" and "t2 = t[k := a, k + 1 := push_bit 4 (d1 AND 0x0f)]"
    and "t3 = t[k := a, k + 1 := b, k + 2 := push_bit 6 (d2 AND 0x03)]"
  have len: "targsize \<le> length t1" "targsize \<le> length t2" "targsize \<le> length t3"
    using k(2) by (simp_all add: t1_def t2_def t3_def)
  have two: "pton_loop targsize (b64_char d0 # b64_char d1 # src) (?p i 0 t) = pton_loop targsize src (?p (i + 1) 2 t2)"
    if "k + 1 < targsize" for src
  proof -
    have "t1[k := t1 ! k OR drop_bit 4 d1, k + 1 := push_bit 4 (d1 AND 0x0f)] = t2"
      using that k(2) join(1) by (simp add: t1_def t2_def)
    then show ?thesis
      using that u pton_digit_steps(1) [OF k(2), of i d0] pton_digit_steps(2) [OF len(1), of i d1]
      by (simp add: pton_loop_char [OF small(1)] pton_loop_char [OF small(2)] t1_def del: pton_loop.simps)
  qed
  have three: "pton_loop targsize (b64_char d0 # b64_char d1 # b64_char d2 # src) (?p i 0 t) =
      pton_loop targsize src (?p (i + 1 + 1) 3 t3)" if "k + 2 < targsize" for src
  proof -
    have "t2[k + 1 := t2 ! (k + 1) OR drop_bit 2 d2, k + 2 := push_bit 6 (d2 AND 0x03)] = t3"
      using that k(2) join(2) by (simp add: t2_def t3_def)
    then show ?thesis
      using that u pton_digit_steps(3) [OF len(2), of "i + 1" d2]
      by (simp add: two pton_loop_char [OF small(3)] del: pton_loop.simps)
  qed
  have four: "pton_loop targsize (b64_char d0 # b64_char d1 # b64_char d2 # b64_char d3 # src) (?p i 0 t) =
      pton_loop targsize src (?p (i + 1 + 1 + 1) 0 (t[k := a, k + 1 := b, k + 2 := c]))"
    if "k + 2 < targsize" for src
  proof -
    have "t3[k + 2 := t3 ! (k + 2) OR d3] = t[k := a, k + 1 := b, k + 2 := c]"
      using that k(2) join(3) by (simp add: t3_def)
    then show ?thesis
      using that u pton_digit_steps(4) [OF len(3), of "i + 1 + 1" d3]
      by (simp add: three pton_loop_char [OF small(4)] del: pton_loop.simps)
  qed
  show "pton_loop targsize (b64_char d0 # b64_char d1 # src) (?p (of_nat k) 0 t) =
      pton_loop targsize src (?p (of_nat (k + 1)) 2 (t[k := a, k + 1 := push_bit 4 (d1 AND 0x0f)]))"
    if "k + 1 < targsize" using two [OF that] unfolding i t2_def i_def .
  show "pton_loop targsize (b64_char d0 # b64_char d1 # b64_char d2 # src) (?p (of_nat k) 0 t) =
      pton_loop targsize src (?p (of_nat (k + 2)) 3 (t[k := a, k + 1 := b, k + 2 := push_bit 6 (d2 AND 0x03)]))"
    if "k + 2 < targsize" using three [OF that] unfolding i t3_def i_def .
  show "pton_loop targsize (b64_char d0 # b64_char d1 # b64_char d2 # b64_char d3 # src) (?p (of_nat k) 0 t) =
      pton_loop targsize src (?p (of_nat (k + 3)) 0 (t[k := a, k + 1 := b, k + 2 := c]))"
    if "k + 2 < targsize" using four [OF that] unfolding i i_def .
qed

lemma output_digits_list: "\<exists>d0 d1 d2 d3. output_digits a b c = [d0, d1, d2, d3]"
  by (simp add: output_digits_def)

lemma not_isspace_Pad64 [simp]: "\<not> isspace Pad64"
  by (simp add: isspace_def Pad64_def of_char_def)

lemma or_eq_0_iff: "(x :: byte) OR y = 0 \<longleftrightarrow> x = 0 \<and> y = 0"
  by (auto simp: bit_eq_iff bit_or_iff)

lemma take_update_next: "k < length t \<Longrightarrow> take (Suc k) (t[k := a]) = take k t @ [a]"
  by (simp add: take_Suc_conv_app_nth)

lemma sint_of_small_nat: "n < 2 ^ 31 \<Longrightarrow> sint (of_nat n :: u32) = int n"
  by (simp add: signed_of_nat signed_take_bit_int_eq_self)

text \<open>
  The loop over the text of \<open>src\<close>: the bytes are in place, and if it ended at a padding, the padding
  is right and the byte behind them is zero.
\<close>

lemma pton_loop_text:
  assumes "k + length src < targsize" "targsize \<le> length t" "k + length src < 2 ^ 32 - 2"
  shows "\<exists>e st t'. pton_loop targsize (b64_text src) \<lparr>tarindex = of_nat k, pstate = 0, ptarget = Some t\<rparr> =
      Some (e, \<lparr>tarindex = of_nat (k + length src), pstate = st, ptarget = Some t'\<rparr>) \<and>
      length t' = length t \<and> take (k + length src) t' = take k t @ src \<and>
      (e = Pton_end \<and> st = 0 \<or> (\<exists>rest. e = Pton_pad rest \<and> pton_padding st rest \<and> t' ! (k + length src) = 0))"
  using assms
proof (induction src arbitrary: k t rule: b64_text.induct)
  case (1 a b c src)
  obtain d0 d1 d2 d3 where d: "output_digits a b c = [d0, d1, d2, d3]" using output_digits_list by blast
  define t1 where "t1 = t[k := a, k + 1 := b, k + 2 := c]"
  have k: "k + 2 < 2 ^ 32" "k + 2 < targsize" using "1.prems" by simp_all
  have step: "pton_loop targsize (b64_text (a # b # c # src)) \<lparr>tarindex = of_nat k, pstate = 0, ptarget = Some t\<rparr> =
      pton_loop targsize (b64_text src) \<lparr>tarindex = of_nat (k + 3), pstate = 0, ptarget = Some t1\<rparr>"
    using pton_loop_group(3) [OF d k(1) "1.prems"(2) k(2)] by (simp add: d t1_def del: pton_loop.simps)
  have "take (k + 3) t1 = take k t @ [a, b, c]"
    using k "1.prems"(2) by (simp add: t1_def numeral_3_eq_3 take_update_next)
  moreover have "k + 3 + length src < targsize" "targsize \<le> length t1" "k + 3 + length src < 2 ^ 32 - 2"
    using "1.prems" by (simp_all add: t1_def)
  moreover have len: "k + length (a # b # c # src) = k + 3 + length src" "length t1 = length t"
    by (simp_all add: t1_def)
  ultimately show ?case
    using "1.IH" [of "k + 3" t1] unfolding step len by simp
next
  case 2
  then show ?case by simp
next
  case (3 a)
  obtain d0 d1 d2 d3 where d: "output_digits a 0 0 = [d0, d1, d2, d3]" using output_digits_list by blast
  have k: "k + 2 < 2 ^ 32" "k + 1 < targsize" using "3.prems" by simp_all
  have "push_bit 4 (d1 AND 0x0f) = 0" using join_digits(2) [OF d] by (simp add: or_eq_0_iff)
  with pton_loop_group(1) [OF d k(1) "3.prems"(2) k(2), of "[Pad64, Pad64]"] k "3.prems"(2) show ?case
    by (simp add: ntop_last_def d pton_padding_def take_update_next)
next
  case (4 a b)
  obtain d0 d1 d2 d3 where d: "output_digits a b 0 = [d0, d1, d2, d3]" using output_digits_list by blast
  have k: "k + 2 < 2 ^ 32" "k + 2 < targsize" using "4.prems" by simp_all
  have "push_bit 6 (d2 AND 0x03) = 0" using join_digits(3) [OF d] by (simp add: or_eq_0_iff)
  with pton_loop_group(2) [OF d k(1) "4.prems"(2) k(2), of "[Pad64]"] k "4.prems"(2) show ?case
    by (simp add: ntop_last_def d pton_padding_def take_update_next numeral_2_eq_2)
qed

lemma f_b64_pton_text:
  assumes "length src < targsize" "targsize \<le> length t" "length src < 2 ^ 31"
  shows "\<exists>t'. f_b64_pton (b64_text src) (Some t) targsize = Some (int (length src), Some t') \<and>
    length t' = length t \<and> take (length src) t' = src"
proof -
  have n: "sint (of_nat (length src) :: u32) = int (length src)"
    using assms(3) by (simp add: sint_of_small_nat)
  obtain e st t' where e: "pton_loop targsize (b64_text src) \<lparr>tarindex = of_nat 0, pstate = 0, ptarget = Some t\<rparr> =
      Some (e, \<lparr>tarindex = of_nat (length src), pstate = st, ptarget = Some t'\<rparr>)"
    "length t' = length t" "take (length src) t' = src"
    "e = Pton_end \<and> st = 0 \<or> (\<exists>rest. e = Pton_pad rest \<and> pton_padding st rest \<and> t' ! length src = 0)"
    using pton_loop_text [of 0 src targsize t] assms by auto
  have "unat (of_nat (length src) :: u32) = length src" using assms(3) by (simp add: unat_of_nat)
  with e n assms(1,2) show ?thesis by (auto simp: f_b64_pton_def)
qed

lemma text_no_NUL: "0 \<notin> set (b64_text src)"
proof (induction src rule: b64_text.induct)
  case (1 a b c src)
  have "b64_char v \<noteq> 0" if "v \<in> set (output_digits a b c)" for v
    using output_digits_small [OF that] by (rule b64_char_props(4))
  with 1 show ?case by fastforce
next
  case (3 a)
  have "b64_char v \<noteq> 0" if "v \<in> set (output_digits a 0 0)" for v
    using output_digits_small [OF that] by (rule b64_char_props(4))
  then show ?case by (force simp: ntop_last_def Let_def Pad64_def of_char_def)
next
  case (4 a b)
  have "b64_char v \<noteq> 0" if "v \<in> set (output_digits a b 0)" for v
    using output_digits_small [OF that] by (rule b64_char_props(4))
  then show ?case by (force simp: ntop_last_def Let_def Pad64_def of_char_def)
qed simp

text \<open>The C string in a buffer.\<close>

definition c_string :: "byte list \<Rightarrow> byte list" where
  "c_string t = takeWhile (\<lambda>b. b \<noteq> 0) t"

lemma c_string_text: "c_string (b64_text src @ 0 # t) = b64_text src"
  using text_no_NUL [of src] by (induction "b64_text src") (auto simp: c_string_def takeWhile_append)

end
