(* ===== verification/Coding.thy ===== *)
theory Coding
  imports Varint
begin

text \<open>
  \<open>util/coding.cc\<close> and \<open>util/coding.h\<close> of leveldb: fixed-width and varint encodings of integers, and
  length-prefixed slices.

  A \<open>Slice\<close> is the list of the bytes it refers to, and so is a pair \<open>p\<close>, \<open>limit\<close> of pointers: the bytes
  from \<open>p\<close> to \<open>limit\<close>; a function that returns a new \<open>p\<close>, or \<open>nullptr\<close>, returns the bytes from there,
  or \<open>None\<close>.  A function that appends to a \<open>std::string\<close> takes the string and returns the longer one;
  the \<open>Encode\<close> functions, which store at \<open>dst\<close>, return the bytes they store.
\<close>

type_synonym slice = "byte list"

section \<open>Fixed-width integers\<close>

definition kLittleEndian :: bool where
  "kLittleEndian = True"

text \<open>\<open>memcpy(dst, &value, k)\<close> on a host of either byte order, and the copy in the other direction.\<close>

definition host_bytes :: "bool \<Rightarrow> nat \<Rightarrow> 'a::len word \<Rightarrow> byte list" where
  "host_bytes little k value = (if little then to_le k (unat value) else rev (to_le k (unat value)))"

definition host_word :: "bool \<Rightarrow> byte list \<Rightarrow> 'a::len word" where
  "host_word little bs = of_nat (of_le (if little then bs else rev bs))"

definition EncodeFixed32 :: "bool \<Rightarrow> u32 \<Rightarrow> byte list" where
  "EncodeFixed32 little value =
     (if little then host_bytes little 4 value
      else [ucast (value AND 0xff), ucast (drop_bit 8 value AND 0xff), ucast (drop_bit 16 value AND 0xff),
            ucast (drop_bit 24 value AND 0xff)])"

definition EncodeFixed64 :: "bool \<Rightarrow> u64 \<Rightarrow> byte list" where
  "EncodeFixed64 little value =
     (if little then host_bytes little 8 value
      else [ucast (value AND 0xff), ucast (drop_bit 8 value AND 0xff), ucast (drop_bit 16 value AND 0xff),
            ucast (drop_bit 24 value AND 0xff), ucast (drop_bit 32 value AND 0xff),
            ucast (drop_bit 40 value AND 0xff), ucast (drop_bit 48 value AND 0xff),
            ucast (drop_bit 56 value AND 0xff)])"

text \<open>\<open>DecodeFixed32(ptr)\<close> reads the four bytes at \<open>ptr\<close>.\<close>

definition DecodeFixed32 :: "bool \<Rightarrow> byte list \<Rightarrow> u32" where
  "DecodeFixed32 little ptr =
     (if little then host_word little (take 4 ptr)
      else ucast (ptr ! 0) OR push_bit 8 (ucast (ptr ! 1)) OR push_bit 16 (ucast (ptr ! 2))
           OR push_bit 24 (ucast (ptr ! 3)))"

definition DecodeFixed64 :: "bool \<Rightarrow> byte list \<Rightarrow> u64" where
  "DecodeFixed64 little ptr =
     (if little then host_word little (take 8 ptr)
      else let lo = ucast (DecodeFixed32 little ptr); hi = ucast (DecodeFixed32 little (drop 4 ptr))
           in push_bit 32 hi OR lo)"

definition PutFixed32 :: "byte list \<Rightarrow> u32 \<Rightarrow> byte list" where
  "PutFixed32 dst value = dst @ EncodeFixed32 kLittleEndian value"

definition PutFixed64 :: "byte list \<Rightarrow> u64 \<Rightarrow> byte list" where
  "PutFixed64 dst value = dst @ EncodeFixed64 kLittleEndian value"

section \<open>Varints\<close>

definition EncodeVarint32 :: "u32 \<Rightarrow> byte list" where
  "EncodeVarint32 v =
     (let B = 128 in
      if v < push_bit 7 1 then [ucast v]
      else if v < push_bit 14 1 then [ucast (v OR B), ucast (drop_bit 7 v)]
      else if v < push_bit 21 1 then [ucast (v OR B), ucast (drop_bit 7 v OR B), ucast (drop_bit 14 v)]
      else if v < push_bit 28 1 then
        [ucast (v OR B), ucast (drop_bit 7 v OR B), ucast (drop_bit 14 v OR B), ucast (drop_bit 21 v)]
      else [ucast (v OR B), ucast (drop_bit 7 v OR B), ucast (drop_bit 14 v OR B),
            ucast (drop_bit 21 v OR B), ucast (drop_bit 28 v)])"

definition PutVarint32 :: "byte list \<Rightarrow> u32 \<Rightarrow> byte list" where
  "PutVarint32 dst v = dst @ EncodeVarint32 v"

function EncodeVarint64 :: "u64 \<Rightarrow> byte list" where
  "EncodeVarint64 v =
     (let B = 128 in if v \<ge> B then ucast (v OR B) # EncodeVarint64 (drop_bit 7 v) else [ucast v])"
  by pat_completeness auto
termination
proof (relation "measure unat")
  fix v B :: u64
  assume "B = 128" "v \<ge> B"
  then have "v \<noteq> 0" by auto
  then show "(drop_bit 7 v, v) \<in> measure unat" by (simp add: drop_bit_less)
qed simp

declare EncodeVarint64.simps [simp del]

definition PutVarint64 :: "byte list \<Rightarrow> u64 \<Rightarrow> byte list" where
  "PutVarint64 dst v = dst @ EncodeVarint64 v"

function varint_length_loop :: "nat \<Rightarrow> u64 \<Rightarrow> nat" where
  "varint_length_loop len v = (if v \<ge> 128 then varint_length_loop (Suc len) (drop_bit 7 v) else len)"
  by pat_completeness auto
termination
proof (relation "measure (\<lambda>(len, v). unat v)")
  fix len and v :: u64
  assume "v \<ge> 128"
  then have "v \<noteq> 0" by auto
  then show "((Suc len, drop_bit 7 v), len, v) \<in> measure (\<lambda>(len, v). unat v)" by (simp add: drop_bit_less)
qed simp

declare varint_length_loop.simps [simp del]

definition VarintLength :: "u64 \<Rightarrow> nat" where
  "VarintLength v = varint_length_loop 1 v"

text \<open>
  The loop of the two decoders, \<open>for (shift = 0; shift <= max_shift && p < limit; shift += 7)\<close>, over
  their unsigned type.
\<close>

primrec varint_ptr_loop :: "nat \<Rightarrow> nat \<Rightarrow> 'a::len word \<Rightarrow> byte list \<Rightarrow> ('a word \<times> byte list) option" where
  "varint_ptr_loop max_shift shift result [] = None"
| "varint_ptr_loop max_shift shift result (b # p) =
     (if shift \<le> max_shift then
        let byte = ucast b
        in if byte AND 128 \<noteq> 0
           then varint_ptr_loop max_shift (shift + 7) (result OR push_bit shift (byte AND 127)) p
           else Some (result OR push_bit shift byte, p)
      else None)"

definition GetVarint32PtrFallback :: "byte list \<Rightarrow> (u32 \<times> byte list) option" where
  "GetVarint32PtrFallback p = varint_ptr_loop 28 0 0 p"

definition GetVarint32Ptr :: "byte list \<Rightarrow> (u32 \<times> byte list) option" where
  "GetVarint32Ptr p =
     (if p \<noteq> [] \<and> (ucast (hd p) :: u32) AND 128 = 0 then Some (ucast (hd p), tl p)
      else GetVarint32PtrFallback p)"

definition GetVarint64Ptr :: "byte list \<Rightarrow> (u64 \<times> byte list) option" where
  "GetVarint64Ptr p = varint_ptr_loop 63 0 0 p"

text \<open>The variants on a slice store the value and move the slice past it, or leave it.\<close>

definition GetVarint32 :: "slice \<Rightarrow> u32 option \<times> slice" where
  "GetVarint32 input = (case GetVarint32Ptr input of None \<Rightarrow> (None, input) | Some (v, q) \<Rightarrow> (Some v, q))"

definition GetVarint64 :: "slice \<Rightarrow> u64 option \<times> slice" where
  "GetVarint64 input = (case GetVarint64Ptr input of None \<Rightarrow> (None, input) | Some (v, q) \<Rightarrow> (Some v, q))"

section \<open>Length-prefixed slices\<close>

text \<open>\<open>PutVarint32(dst, value.size())\<close> keeps the low 32 bits of the size.\<close>

definition PutLengthPrefixedSlice :: "byte list \<Rightarrow> slice \<Rightarrow> byte list" where
  "PutLengthPrefixedSlice dst value = PutVarint32 dst (of_nat (length value)) @ value"

definition GetLengthPrefixedSlicePtr :: "byte list \<Rightarrow> (slice \<times> byte list) option" where
  "GetLengthPrefixedSlicePtr p =
     (case GetVarint32Ptr p of
        None \<Rightarrow> None
      | Some (len, p) \<Rightarrow>
          if unat len > length p then None else Some (take (unat len) p, drop (unat len) p))"

text \<open>When the length is read and the rest is shorter, the slice stays behind the length.\<close>

definition GetLengthPrefixedSlice :: "slice \<Rightarrow> slice option \<times> slice" where
  "GetLengthPrefixedSlice input =
     on_ok (GetVarint32 input)
       (\<lambda>len input. if length input \<ge> unat len then (Some (take (unat len) input), drop (unat len) input)
                    else (None, input))
       (\<lambda>input. (None, input))"

section \<open>Fixed-width integers: the bytes do not depend on the host\<close>

lemma EncodeFixed32_le [simp]: "EncodeFixed32 little v = to_le 4 (unat v)"
proof (cases little)
  case False
  then show ?thesis
    unfolding numeral_Sucs(1) to_le_Suc2 to_le.simps(1) EncodeFixed32_def low_byte div_mult2_eq [symmetric]
    using low_byte [of 0 v] by simp
qed (simp add: EncodeFixed32_def host_bytes_def)

lemma EncodeFixed64_le [simp]: "EncodeFixed64 little v = to_le 8 (unat v)"
proof (cases little)
  case False
  then show ?thesis
    unfolding numeral_Sucs(2) to_le_Suc2 to_le.simps(1) EncodeFixed64_def low_byte div_mult2_eq [symmetric]
    using low_byte [of 0 v] by simp
qed (simp add: EncodeFixed64_def host_bytes_def)

text \<open>One more byte in front: how the shifts and ORs of the portable branch build the number.\<close>

lemma or_byte:
  "8 < LENGTH('a::len) \<Longrightarrow>
    ucast (b :: byte) OR push_bit 8 (of_nat n :: 'a word) = of_nat (unat b + 256 * n)"
proof -
  assume "8 < LENGTH('a)"
  then have "(256 :: nat) \<le> 2 ^ LENGTH('a)" using power_increasing [of 8 "LENGTH('a)" "2 :: nat"] by simp
  then have "unat b < 2 ^ LENGTH('a)" using unat_byte_less [of b] by linarith
  then show ?thesis
    using or_shifted_add [of "ucast b :: 'a word" 8 "of_nat n"] unat_byte_less [of b]
    by (simp add: unat_ucast push_bit_eq_mult mult.commute)
qed

lemma DecodeFixed32_le [simp]:
  assumes "4 \<le> length p"
  shows "DecodeFixed32 little p = of_nat (of_le (take 4 p))"
proof -
  from assms obtain a b c d q where p: "p = a # b # c # d # q"
    by (auto simp: numeral_Sucs Suc_le_length_iff)
  have "of_nat (of_le [a, b, c, d]) =
      (ucast a OR push_bit 8 (ucast b OR push_bit 8 (ucast c OR push_bit 8 (ucast d :: u32))))"
  proof -
    have l: "8 < LENGTH(32)" by simp
    show ?thesis
      unfolding of_le.simps or_byte [OF l, symmetric] by simp
  qed
  also have "\<dots> = ucast a OR push_bit 8 (ucast b) OR push_bit 16 (ucast c) OR push_bit 24 (ucast d)"
    by (simp add: push_bit_or push_bit_push_bit or.assoc)
  finally show ?thesis by (simp add: DecodeFixed32_def host_word_def p)
qed

lemma DecodeFixed64_le [simp]:
  assumes "8 \<le> length p"
  shows "DecodeFixed64 little p = of_nat (of_le (take 8 p))"
proof (cases little)
  case False
  have split: "of_le (take 8 p) = of_le (take 4 p) + 2 ^ 32 * of_le (take 4 (drop 4 p))"
    using of_le_append [of "take 4 p" "take 4 (drop 4 p)"] take_add [of 4 4 p] assms by simp
  define lo hi where "lo = of_le (take 4 p)" and "hi = of_le (take 4 (drop 4 p))"
  have small: "lo < 2 ^ 32" "hi < 2 ^ 32"
    using of_le_less [of "take 4 p"] of_le_less [of "take 4 (drop 4 p)"] assms by (simp_all add: lo_def hi_def)
  then have uc: "ucast (of_nat lo :: u32) = (of_nat lo :: u64)" "ucast (of_nat hi :: u32) = (of_nat hi :: u64)"
    by (simp_all add: word_unat_eq_iff unat_ucast unat_of_nat)
  have "(push_bit 32 (of_nat hi) OR of_nat lo :: u64) = of_nat lo + push_bit 32 (of_nat hi)"
    using or_shifted_add [of "of_nat lo :: u64" 32 "of_nat hi"] small by (simp add: unat_of_nat or.commute)
  with False assms uc show ?thesis
    by (simp add: DecodeFixed64_def split lo_def [symmetric] hi_def [symmetric] push_bit_eq_mult mult.commute)
qed (simp add: DecodeFixed64_def host_word_def)

lemma word_of_le_to_le: "LENGTH('a::len) = 8 * k \<Longrightarrow> (of_nat (of_le (to_le k (unat w))) :: 'a word) = w"
proof -
  assume "LENGTH('a) = 8 * k"
  then have "unat w < 256 ^ k" using unat_less [of w] by (simp add: power_mult)
  then show ?thesis by (simp add: of_le_to_le)
qed

lemma DecodeFixed32_to_le: "DecodeFixed32 little (to_le 4 (unat v) @ rest) = v"
  by (simp add: word_of_le_to_le)

lemma DecodeFixed64_to_le: "DecodeFixed64 little (to_le 8 (unat v) @ rest) = v"
  by (simp add: word_of_le_to_le)

lemma DecodeFixed32_Encode: "DecodeFixed32 l1 (EncodeFixed32 l2 v @ rest) = v"
  by (simp add: word_of_le_to_le)

lemma DecodeFixed64_Encode: "DecodeFixed64 l1 (EncodeFixed64 l2 v @ rest) = v"
  by (simp add: word_of_le_to_le)

section \<open>Varints: both encoders write the base-128 representation\<close>

lemma byte_or_80_low: "(b :: byte) OR 0x80 = (b AND 0x7F) OR 0x80"
proof -
  have "(0x7F :: byte) OR 0x80 = - 1" by simp
  then show ?thesis by (simp only: bit.disj_conj_distrib2 and.right_neutral)
qed

lemma ucast_or_128:
  assumes "8 \<le> LENGTH('a::len)"
  shows "(ucast ((w :: 'a word) OR 128) :: byte) = of_nat (unat w mod 128 + 128)"
proof -
  have "(256 :: nat) \<le> 2 ^ LENGTH('a)" using assms power_increasing [of 8 "LENGTH('a)" "2 :: nat"] by simp
  then have "unat (128 :: 'a word) = 128" using unat_of_nat_small [of 128, where 'a = 'a] by simp
  then have "(ucast (128 :: 'a word) :: byte) = 0x80" by (simp only: word_unat_eq_iff unat_ucast) simp
  then have "(ucast (w OR 128) :: byte) = ucast w OR 0x80" by (simp only: unsigned_or_eq)
  also have "\<dots> = (ucast w AND 0x7F) OR 0x80" by (rule byte_or_80_low)
  also have "\<dots> = of_nat (unat (ucast w :: byte) mod 128 + 128)" by (rule byte_or_80)
  also have "unat (ucast w :: byte) mod 128 = unat w mod 128" by (simp add: unat_ucast mod_mod_cancel)
  finally show ?thesis .
qed

lemma ucast_of_unat: "(ucast (w :: 'a::len word) :: byte) = of_nat (unat w)"
  by simp

lemma unat_less_push1: "n < LENGTH('a) \<Longrightarrow> (v :: 'a::len word) < push_bit n 1 \<longleftrightarrow> unat v < 2 ^ n"
  using unat_of_nat_small [of "2 ^ n", where 'a = 'a] by (simp add: word_less_nat_alt push_bit_eq_mult)

lemma EncodeVarint64_bytes: "EncodeVarint64 v = varint_bytes (unat v)"
proof (induction v rule: EncodeVarint64.induct)
  case (1 v)
  show ?case
  proof (cases "v \<ge> 128")
    case True
    then have "128 \<le> unat v" by (simp add: word_le_nat_alt)
    with 1 [OF refl True] True show ?thesis
      by (simp add: EncodeVarint64.simps [of v] ucast_or_128 unat_drop_bit varint_bytes_step)
  next
    case False
    then have "unat v < 128" by (simp add: word_le_nat_alt not_le)
    with False show ?thesis by (simp add: EncodeVarint64.simps [of v] varint_bytes_small)
  qed
qed

lemma EncodeVarint32_bytes: "EncodeVarint32 v = varint_bytes (unat v)"
proof -
  define n where "n = unat v"
  have less: "v < push_bit 7 1 \<longleftrightarrow> n < 128" "v < push_bit 14 1 \<longleftrightarrow> n < 16384"
    "v < push_bit 21 1 \<longleftrightarrow> n < 2097152" "v < push_bit 28 1 \<longleftrightarrow> n < 268435456"
    using unat_less_push1 [of 7 v] unat_less_push1 [of 14 v] unat_less_push1 [of 21 v] unat_less_push1 [of 28 v]
    by (simp_all add: n_def)
  have cont: "(ucast (drop_bit k v OR 128) :: byte) = of_nat (n div 2 ^ k mod 128 + 128)" for k
    by (simp add: ucast_or_128 unat_drop_bit n_def)
  have last: "(ucast (drop_bit k v) :: byte) = of_nat (n div 2 ^ k)" for k
    by (simp only: ucast_of_unat unat_drop_bit n_def)
  have c0: "(ucast (v OR 128) :: byte) = of_nat (n mod 128 + 128)" "(ucast v :: byte) = of_nat n"
    using cont [of 0] last [of 0] by simp_all
  have n: "n < 2 ^ 32" using unat_less [of v] by (simp add: n_def)
  consider "n < 128" | "128 \<le> n" "n < 16384" | "16384 \<le> n" "n < 2097152"
    | "2097152 \<le> n" "n < 268435456" | "268435456 \<le> n" by linarith
  then show ?thesis
    unfolding EncodeVarint32_def Let_def less cont last c0 n_def [symmetric]
    by cases (use n in \<open>simp_all add: varint_bytes_small varint_bytes_step div_mult2_eq [symmetric]\<close>)
qed

lemma varint_length_loop_bytes: "varint_length_loop len v + 1 = len + length (varint_bytes (unat v))"
proof (induction len v rule: varint_length_loop.induct)
  case (1 len v)
  show ?case
  proof (cases "v \<ge> 128")
    case True
    then have "128 \<le> unat v" by (simp add: word_le_nat_alt)
    with 1 True show ?thesis
      by (simp add: varint_length_loop.simps [of len v] unat_drop_bit varint_bytes_step)
  next
    case False
    then have "unat v < 128" by (simp add: word_le_nat_alt not_le)
    with False show ?thesis by (simp add: varint_length_loop.simps [of len v] varint_bytes_small)
  qed
qed

lemma VarintLength_bytes: "VarintLength v = length (varint_bytes (unat v))"
  using varint_length_loop_bytes [of 1 v] by (simp add: VarintLength_def)

section \<open>Decoding varints\<close>

lemma cont_byte_word:
  assumes "8 \<le> LENGTH('a::len)"
  shows "(ucast (of_nat (n mod 128 + 128) :: byte) :: 'a word) AND 128 \<noteq> 0"
    "(ucast (of_nat (n mod 128 + 128) :: byte) :: 'a word) AND 127 = of_nat (n mod 128)"
proof -
  have uc: "(ucast (b AND c) :: 'a word) = ucast b AND ucast c" for b c :: byte
    by (rule unsigned_and_eq)
  have small: "unat b < 2 ^ LENGTH('a)" for b :: byte
  proof -
    have "(256 :: nat) \<le> 2 ^ LENGTH('a)" using assms power_increasing [of 8 "LENGTH('a)" "2 :: nat"] by simp
    then show ?thesis using unat_byte_less [of b] by linarith
  qed
  define b where "b = (of_nat (n mod 128 + 128) :: byte)"
  have "b AND 0x80 \<noteq> 0" unfolding b_def by (rule cont_byte(1))
  then have "(ucast (b AND 0x80) :: 'a word) \<noteq> 0"
    by (simp add: word_unat_eq_iff unat_ucast mod_less [OF small] del: unsigned_and_eq)
  then show "(ucast (of_nat (n mod 128 + 128) :: byte) :: 'a word) AND 128 \<noteq> 0" by (simp add: uc b_def)
  show "(ucast (of_nat (n mod 128 + 128) :: byte) :: 'a word) AND 127 = of_nat (n mod 128)"
    using cont_byte(2) [of n, where 'a = 'a] by (simp add: uc)
qed

lemma varint_ptr_loop_bytes:
  assumes "8 \<le> LENGTH('a::len)" "shift + 7 * length (varint_bytes n) \<le> max_shift + 7"
  shows "varint_ptr_loop max_shift shift r (varint_bytes n @ rest) =
      Some (r OR push_bit shift (of_nat n :: 'a word), rest)"
  using assms(2)
proof (induction n arbitrary: shift r rule: varint_bytes.induct)
  case (1 n)
  show ?case
  proof (cases "n < 128")
    case True
    have "(ucast (of_nat n :: byte) :: 'a word) AND 128 = ucast ((of_nat n :: byte) AND 0x80)"
      by (simp add: unsigned_and_eq)
    also have "\<dots> = 0" using last_byte(1) [OF True] by simp
    finally show ?thesis
      using "1.prems" last_byte(3) [OF True, where 'a = 'a] by (simp add: varint_bytes_small True Let_def)
  next
    case False
    then have big: "128 \<le> n" by simp
    have eq: "(r OR push_bit shift (of_nat (n mod 128))) OR push_bit (shift + 7) (of_nat (n div 128))
        = r OR push_bit shift (of_nat n)"
      by (subst of_nat_split7 [of n]) (simp only: push_bit_or push_bit_push_bit or.assoc add.commute)
    show ?thesis
      using "1.IH" [OF False, of "shift + 7"] "1.prems" cont_byte_word [OF assms(1), of n]
      by (simp add: varint_bytes_step big Let_def eq del: of_nat_add)
  qed
qed

text \<open>The one-byte path agrees with the loop.\<close>

lemma GetVarint32Ptr_fallback: "GetVarint32Ptr p = GetVarint32PtrFallback p"
  by (cases p) (simp_all add: GetVarint32Ptr_def GetVarint32PtrFallback_def Let_def)

lemma GetVarint32Ptr_bytes: "GetVarint32Ptr (varint_bytes (unat v) @ rest) = Some (v, rest)"
proof -
  have "length (varint_bytes (unat v)) \<le> 5"
    by (rule length_varint_bytes_le) (use unat_less [of v] in simp_all)
  then show ?thesis
    using varint_ptr_loop_bytes [where 'a = 32, of 0 "unat v" 28 0 rest]
    by (simp add: GetVarint32Ptr_fallback GetVarint32PtrFallback_def)
qed

lemma GetVarint64Ptr_bytes: "GetVarint64Ptr (varint_bytes (unat v) @ rest) = Some (v, rest)"
  using varint_ptr_loop_bytes [where 'a = 64, of 0 "unat v" 63 0 rest] length_varint_bytes_u64 [of v]
  by (simp add: GetVarint64Ptr_def)

lemma GetVarint32_bytes: "GetVarint32 (varint_bytes (unat v) @ rest) = (Some v, rest)"
  by (simp add: GetVarint32_def GetVarint32Ptr_bytes)

lemma GetVarint64_bytes: "GetVarint64 (varint_bytes (unat v) @ rest) = (Some v, rest)"
  by (simp add: GetVarint64_def GetVarint64Ptr_bytes)

text \<open>A decoder takes between one byte and as many as its shifts allow from the front.\<close>

lemma varint_ptr_loop_takes:
  "varint_ptr_loop max_shift shift r p = Some (v, q) \<Longrightarrow>
    \<exists>used. p = used @ q \<and> used \<noteq> [] \<and> shift + 7 * length used \<le> max_shift + 7"
proof (induction p arbitrary: shift r)
  case (Cons b p)
  show ?case
  proof (cases "(ucast b :: 'a word) AND 128 = 0")
    case True
    with Cons.prems show ?thesis by (intro exI [of _ "[b]"]) (auto simp: Let_def split: if_splits)
  next
    case False
    with Cons.prems have "varint_ptr_loop max_shift (shift + 7)
        (r OR push_bit shift (ucast b AND 127)) p = Some (v, q)" by (simp add: Let_def split: if_splits)
    from Cons.IH [OF this] obtain used where "p = used @ q" "shift + 7 + 7 * length used \<le> max_shift + 7"
      by auto
    then show ?thesis by (intro exI [of _ "b # used"]) simp
  qed
qed simp

lemma GetVarint32Ptr_takes:
  "GetVarint32Ptr p = Some (v, q) \<Longrightarrow> \<exists>used. p = used @ q \<and> 1 \<le> length used \<and> length used \<le> 5"
  using varint_ptr_loop_takes [of 28 0 0 p v q]
  by (fastforce simp: GetVarint32Ptr_fallback GetVarint32PtrFallback_def Suc_le_eq)

lemma GetVarint64Ptr_takes:
  "GetVarint64Ptr p = Some (v, q) \<Longrightarrow> \<exists>used. p = used @ q \<and> 1 \<le> length used \<and> length used \<le> 10"
  using varint_ptr_loop_takes [of 63 0 0 p v q] by (fastforce simp: GetVarint64Ptr_def Suc_le_eq)

section \<open>Length-prefixed slices\<close>

lemma PutVarint32_bytes: "PutVarint32 dst v = dst @ varint_bytes (unat v)"
  by (simp add: PutVarint32_def EncodeVarint32_bytes)

lemma PutVarint64_bytes: "PutVarint64 dst v = dst @ varint_bytes (unat v)"
  by (simp add: PutVarint64_def EncodeVarint64_bytes)

definition length_prefixed :: "slice \<Rightarrow> byte list" where
  "length_prefixed value = varint_bytes (length value) @ value"

lemma PutLengthPrefixedSlice_bytes:
  "length value < 2 ^ 32 \<Longrightarrow> PutLengthPrefixedSlice dst value = dst @ length_prefixed value"
  by (simp add: PutLengthPrefixedSlice_def PutVarint32_bytes length_prefixed_def unat_of_nat)

lemma GetLengthPrefixedSlice_bytes:
  assumes "length value < 2 ^ 32"
  shows "GetLengthPrefixedSlice (length_prefixed value @ rest) = (Some value, rest)"
proof -
  have "unat (of_nat (length value) :: u32) = length value" using assms by (simp add: unat_of_nat)
  then show ?thesis
    using GetVarint32_bytes [of "of_nat (length value)" "value @ rest"]
    by (simp add: GetLengthPrefixedSlice_def length_prefixed_def)
qed

lemma GetLengthPrefixedSlicePtr_bytes:
  assumes "length value < 2 ^ 32"
  shows "GetLengthPrefixedSlicePtr (length_prefixed value @ rest) = Some (value, rest)"
proof -
  have "unat (of_nat (length value) :: u32) = length value" using assms by (simp add: unat_of_nat)
  then show ?thesis
    using GetVarint32Ptr_bytes [of "of_nat (length value)" "value @ rest"]
    by (simp add: GetLengthPrefixedSlicePtr_def length_prefixed_def)
qed

lemma GetVarint32_takes:
  assumes "GetVarint32 input = (v, q)"
  shows "\<exists>used. input = used @ q \<and> (v \<noteq> None \<longrightarrow> used \<noteq> [])"
proof (cases "GetVarint32Ptr input")
  case None
  with assms show ?thesis by (simp add: GetVarint32_def)
next
  case (Some x)
  obtain w q1 where x: "x = (w, q1)" by (cases x)
  from GetVarint32Ptr_takes [of input w q1] Some x obtain used where
    "input = used @ q1" "1 \<le> length used" by auto
  moreover have "v = Some w" "q = q1" using assms Some x by (simp_all add: GetVarint32_def)
  ultimately show ?thesis by (intro exI [of _ used]) auto
qed

lemma GetLengthPrefixedSlice_takes:
  assumes "GetLengthPrefixedSlice input = (r, q)"
  shows "\<exists>used. input = used @ q \<and> (r \<noteq> None \<longrightarrow> used \<noteq> [])"
proof -
  obtain v q1 where g: "GetVarint32 input = (v, q1)" by (cases "GetVarint32 input")
  from GetVarint32_takes [OF g] obtain used where used: "input = used @ q1" "v \<noteq> None \<longrightarrow> used \<noteq> []"
    by (elim exE conjE)
  show ?thesis
  proof (cases v)
    case None
    with assms g used show ?thesis by (simp add: GetLengthPrefixedSlice_def)
  next
    case (Some len)
    then have ne: "used \<noteq> []" using used by simp
    show ?thesis
    proof (cases "unat len \<le> length q1")
      case True
      then have q: "q = drop (unat len) q1" using assms g Some by (simp add: GetLengthPrefixedSlice_def)
      have "input = (used @ take (unat len) q1) @ q" using used(1) q by simp
      with ne show ?thesis by (intro exI [of _ "used @ take (unat len) q1"]) simp
    next
      case False
      then have "q = q1" using assms g Some by (simp add: GetLengthPrefixedSlice_def)
      with ne used(1) show ?thesis by blast
    qed
  qed
qed

section \<open>Arrays of fixed-width integers\<close>

definition fixed32s :: "u32 list \<Rightarrow> byte list" where
  "fixed32s vs = concat (map (\<lambda>v. to_le 4 (unat v)) vs)"

lemma fixed32s_simps [simp]: "fixed32s [] = []" "fixed32s (v # vs) = to_le 4 (unat v) @ fixed32s vs"
  "fixed32s (xs @ ys) = fixed32s xs @ fixed32s ys"
  by (simp_all add: fixed32s_def)

lemma length_fixed32s [simp]: "length (fixed32s vs) = 4 * length vs"
  by (induction vs) simp_all

lemma fold_PutFixed32: "fold (\<lambda>offset result. PutFixed32 result offset) offsets result = result @ fixed32s offsets"
  by (induction offsets arbitrary: result) (simp_all add: PutFixed32_def)

lemma drop_fixed32s:
  "i < length xs \<Longrightarrow> drop (4 * i) (fixed32s xs @ rest) =
    to_le 4 (unat (xs ! i)) @ fixed32s (drop (Suc i) xs) @ rest"
proof (induction xs arbitrary: i)
  case (Cons x xs)
  show ?case
  proof (cases i)
    case (Suc j)
    have "drop (4 * i) (fixed32s (x # xs) @ rest) =
        drop (4 * j) (fixed32s xs @ rest)"
      by (simp add: Suc del: to_le.simps)
    with Cons Suc show ?thesis by simp
  qed simp
qed simp

end
