(* ===== verification/Bloom.thy ===== *)
theory Bloom
  imports Coding
begin

text \<open>
  \<open>util/hash.cc\<close> and \<open>util/bloom.cc\<close> of leveldb: the hash function and the Bloom filter policy, with the
  contract every filter policy has (\<open>include/leveldb/filter_policy.h\<close>) as a locale.
\<close>

section \<open>Hash\<close>

text \<open>\<open>while (data + 4 <= limit)\<close>: the hash and the bytes left.\<close>

function hash_words :: "u32 \<Rightarrow> byte list \<Rightarrow> u32 \<times> byte list" where
  "hash_words h data =
     (if 4 \<le> length data then
        let h = (h + DecodeFixed32 kLittleEndian data) * 0xc6a4a793
        in hash_words (h XOR drop_bit 16 h) (drop 4 data)
      else (h, data))"
  by pat_completeness auto
termination by (relation "measure (\<lambda>(h, data). length data)") auto

declare hash_words.simps [simp del]

text \<open>The \<open>switch\<close> on the number of bytes left, whose cases fall through.\<close>

definition hash_rest :: "u32 \<Rightarrow> byte list \<Rightarrow> u32" where
  "hash_rest h data =
     (let h = (if length data = 3 then h + push_bit 16 (ucast (data ! 2)) else h);
          h = (if length data \<in> {2, 3} then h + push_bit 8 (ucast (data ! 1)) else h)
      in if length data \<in> {1, 2, 3} then
           let h = (h + ucast (data ! 0)) * 0xc6a4a793 in h XOR drop_bit 24 h
         else h)"

definition Hash :: "byte list \<Rightarrow> u32 \<Rightarrow> u32" where
  "Hash data seed =
     (let h = seed XOR (of_nat (length data) * 0xc6a4a793);
          (h, data) = hash_words h data
      in hash_rest h data)"

section \<open>Bloom filter\<close>

definition BloomHash :: "slice \<Rightarrow> u32" where
  "BloomHash key = Hash key 0xbc9f1d34"

text \<open>
  The members of \<open>BloomFilterPolicy\<close>.  The constructor multiplies with the double 0.69 and rounds down,
  which below the bound of 30 is the quotient of integers here.  The \<open>int bits_per_key\<close> is a natural number: a negative
  setting is not modelled.
\<close>

record bloom_policy =
  bits_per_key :: nat
  bloom_k :: nat

definition BloomFilterPolicy :: "nat \<Rightarrow> bloom_policy" where
  "BloomFilterPolicy b =
     (let k = 69 * b div 100; k = (if k < 1 then 1 else k); k = (if k > 30 then 30 else k)
      in \<lparr>bits_per_key = b, bloom_k = k\<rparr>)"

definition bloom_delta :: "u32 \<Rightarrow> u32" where
  "bloom_delta h = drop_bit 17 h OR push_bit 15 h"

definition set_bit_at :: "nat \<Rightarrow> byte list \<Rightarrow> byte list" where
  "set_bit_at bitpos array = array[bitpos div 8 := array ! (bitpos div 8) OR push_bit (bitpos mod 8) 1]"

definition test_bit_at :: "nat \<Rightarrow> byte list \<Rightarrow> bool" where
  "test_bit_at bitpos array \<longleftrightarrow> array ! (bitpos div 8) AND push_bit (bitpos mod 8) 1 \<noteq> 0"

text \<open>\<open>for (size_t j = 0; j < k_; j++)\<close>\<close>

primrec bloom_add :: "nat \<Rightarrow> nat \<Rightarrow> u32 \<Rightarrow> u32 \<Rightarrow> byte list \<Rightarrow> byte list" where
  "bloom_add bits 0 h delta array = array"
| "bloom_add bits (Suc k) h delta array = bloom_add bits k (h + delta) delta (set_bit_at (unat h mod bits) array)"

primrec bloom_test :: "nat \<Rightarrow> nat \<Rightarrow> u32 \<Rightarrow> u32 \<Rightarrow> byte list \<Rightarrow> bool" where
  "bloom_test bits 0 h delta array \<longleftrightarrow> True"
| "bloom_test bits (Suc k) h delta array \<longleftrightarrow>
     (if \<not> test_bit_at (unat h mod bits) array then False else bloom_test bits k (h + delta) delta array)"

text \<open>The filter is appended to \<open>dst\<close>: the bit array, and a byte for the number of probes.\<close>

definition bloom_CreateFilter :: "bloom_policy \<Rightarrow> slice list \<Rightarrow> byte list \<Rightarrow> byte list" where
  "bloom_CreateFilter policy keys dst =
     (let bits = length keys * bits_per_key policy;
          bits = (if bits < 64 then 64 else bits);
          bytes = (bits + 7) div 8;
          bits = bytes * 8;
          array = fold (\<lambda>key. let h = BloomHash key in bloom_add bits (bloom_k policy) h (bloom_delta h))
                    keys (replicate bytes 0)
      in dst @ array @ [of_nat (bloom_k policy)])"

text \<open>\<open>const size_t k = array[len - 1]\<close> extends the sign of the \<open>char\<close>.\<close>

definition bloom_KeyMayMatch :: "slice \<Rightarrow> slice \<Rightarrow> bool" where
  "bloom_KeyMayMatch key bloom_filter =
     (let len = length bloom_filter in
      if len < 2 then False
      else
        let bits = (len - 1) * 8; k = unat (scast (bloom_filter ! (len - 1)) :: u64) in
        if k > 30 then True
        else let h = BloomHash key in bloom_test bits k h (bloom_delta h) bloom_filter)"

section \<open>The contract of a filter policy\<close>

text \<open>
  The filter for a list of keys is appended to \<open>dst\<close>, and \<open>KeyMayMatch\<close> answers true for every key that
  was in the list.
\<close>

locale filter_policy =
  fixes CreateFilter :: "slice list \<Rightarrow> byte list \<Rightarrow> byte list"
    and KeyMayMatch :: "slice \<Rightarrow> slice \<Rightarrow> bool"
  assumes appends: "CreateFilter keys dst = dst @ CreateFilter keys []"
    and no_false_negatives: "key \<in> set keys \<Longrightarrow> KeyMayMatch key (CreateFilter keys [])"
begin

text \<open>A filter in the middle of a block is found between its offsets.\<close>

lemma drop_CreateFilter: "drop (length dst) (CreateFilter keys dst) = CreateFilter keys []"
  by (subst appends) simp

lemma match_in_block:
  assumes "key \<in> set keys" "result = CreateFilter keys dst" "block = result @ rest"
  shows "KeyMayMatch key (take (length result - length dst) (drop (length dst) block))"
  using no_false_negatives [OF assms(1)] appends [of keys dst] assms(2,3) by simp

end

section \<open>The Bloom filter keeps the contract\<close>

lemma length_set_bit_at [simp]: "length (set_bit_at i array) = length array"
  by (simp add: set_bit_at_def)

lemma test_set_same: "i < 8 * length array \<Longrightarrow> test_bit_at i (set_bit_at i array)"
  by (simp add: test_bit_at_def set_bit_at_def less_mult_imp_div_less bit.conj_disj_distrib2 mult.commute)

lemma and_or_nonzero: "(a :: byte) AND c \<noteq> 0 \<Longrightarrow> (a OR b) AND c \<noteq> 0"
  by (auto simp: bit_eq_iff bit_simps)

lemma test_set_keeps: "test_bit_at i array \<Longrightarrow> test_bit_at i (set_bit_at j array)"
  by (cases "i div 8 = j div 8"; cases "j div 8 < length array")
    (auto simp: test_bit_at_def set_bit_at_def and_or_nonzero list_update_beyond not_less)

lemma length_bloom_add [simp]: "length (bloom_add bits k h delta array) = length array"
  by (induction k arbitrary: h array) simp_all

lemma bloom_add_keeps: "test_bit_at i array \<Longrightarrow> test_bit_at i (bloom_add bits k h delta array)"
  by (induction k arbitrary: h array) (simp_all add: test_set_keeps)

lemma bloom_test_keeps:
  "bloom_test bits k h delta array \<Longrightarrow> bloom_test bits k h delta (bloom_add bits k' h' delta' array)"
  by (induction k arbitrary: h) (auto simp: bloom_add_keeps split: if_splits)

lemma bloom_test_mono:
  "(\<And>i. test_bit_at i array \<Longrightarrow> test_bit_at i array') \<Longrightarrow> bloom_test bits k h delta array \<Longrightarrow>
    bloom_test bits k h delta array'"
  by (induction k arbitrary: h) (auto split: if_splits)

lemma bloom_test_add:
  "0 < bits \<Longrightarrow> 8 * length array = bits \<Longrightarrow> bloom_test bits k h delta (bloom_add bits k h delta array)"
proof (induction k arbitrary: h array)
  case (Suc k)
  have "test_bit_at (unat h mod bits) (set_bit_at (unat h mod bits) array)"
    using Suc.prems by (intro test_set_same) simp
  then show ?case using Suc by (simp add: bloom_add_keeps)
qed simp

text \<open>The loop over the keys, as one function.\<close>

definition bloom_array :: "nat \<Rightarrow> nat \<Rightarrow> slice list \<Rightarrow> byte list \<Rightarrow> byte list" where
  "bloom_array bits k keys array =
     fold (\<lambda>key. let h = BloomHash key in bloom_add bits k h (bloom_delta h)) keys array"

lemma bloom_array_simps [simp]:
  "bloom_array bits k [] array = array"
  "bloom_array bits k (key # keys) array =
    bloom_array bits k keys (bloom_add bits k (BloomHash key) (bloom_delta (BloomHash key)) array)"
  by (simp_all add: bloom_array_def Let_def)

lemma length_bloom_array [simp]: "length (bloom_array bits k keys array) = length array"
  by (induction keys arbitrary: array) simp_all

lemma bloom_array_keeps: "test_bit_at i array \<Longrightarrow> test_bit_at i (bloom_array bits k keys array)"
  by (induction keys arbitrary: array) (simp_all add: bloom_add_keeps)

lemma bloom_array_test:
  assumes "key \<in> set keys" "0 < bits" "8 * length array = bits"
  shows "bloom_test bits k (BloomHash key) (bloom_delta (BloomHash key)) (bloom_array bits k keys array)"
  using assms
proof (induction keys arbitrary: array)
  case (Cons k1 keys)
  show ?case
  proof (cases "key = k1")
    case True
    have "bloom_test bits k (BloomHash key) (bloom_delta (BloomHash key))
        (bloom_add bits k (BloomHash key) (bloom_delta (BloomHash key)) array)"
      by (rule bloom_test_add) (use Cons.prems in simp_all)
    then show ?thesis unfolding True bloom_array_simps by (rule bloom_test_mono [rotated]) (rule bloom_array_keeps)
  next
    case False
    then show ?thesis using Cons by simp
  qed
qed simp

lemma bloom_test_append:
  "0 < bits \<Longrightarrow> 8 * length array = bits \<Longrightarrow> bloom_test bits k h delta (array @ rest) = bloom_test bits k h delta array"
proof (induction k arbitrary: h)
  case (Suc k)
  have "unat h mod bits div 8 < length array"
    using Suc.prems by (intro less_mult_imp_div_less) (simp add: mult.commute)
  then have "test_bit_at (unat h mod bits) (array @ rest) = test_bit_at (unat h mod bits) array"
    by (simp add: test_bit_at_def nth_append)
  with Suc show ?case by simp
qed simp

lemma k_bounds: "1 \<le> bloom_k (BloomFilterPolicy b)" "bloom_k (BloomFilterPolicy b) \<le> 30"
  by (simp_all add: BloomFilterPolicy_def Let_def)

lemma scast_small: "n \<le> 30 \<Longrightarrow> unat (scast (of_nat n :: byte) :: u64) = n"
proof -
  assume "n \<le> 30"
  then have "sint (of_nat n :: byte) = int n" by (simp add: signed_of_nat signed_take_bit_int_eq_self)
  then have "(scast (of_nat n :: byte) :: u64) = of_nat n" by (simp add: scast_eq)
  with \<open>n \<le> 30\<close> show ?thesis by (simp add: unat_of_nat)
qed

lemma length_bloom_CreateFilter [simp]:
  "length (bloom_CreateFilter policy keys dst) =
    length dst + (max 64 (length keys * bits_per_key policy) + 7) div 8 + 1"
  using length_bloom_array [unfolded bloom_array_def Let_def]
  by (simp add: bloom_CreateFilter_def Let_def max_def)

interpretation bloom: filter_policy "bloom_CreateFilter (BloomFilterPolicy b)" bloom_KeyMayMatch for b
proof
  fix keys :: "slice list" and dst
  show "bloom_CreateFilter (BloomFilterPolicy b) keys dst = dst @ bloom_CreateFilter (BloomFilterPolicy b) keys []"
    by (simp add: bloom_CreateFilter_def Let_def)
next
  fix key :: slice and keys :: "slice list"
  assume key: "key \<in> set keys"
  define k where "k = bloom_k (BloomFilterPolicy b)"
  define bits0 where "bits0 = length keys * bits_per_key (BloomFilterPolicy b)"
  define bytes where "bytes = ((if bits0 < 64 then 64 else bits0) + 7) div 8"
  define array where "array = bloom_array (bytes * 8) k keys (replicate bytes 0)"
  have filter: "bloom_CreateFilter (BloomFilterPolicy b) keys [] = array @ [of_nat k]"
    by (simp add: bloom_CreateFilter_def Let_def array_def bloom_array_def bytes_def bits0_def k_def)
  have bytes: "8 \<le> bytes" unfolding bytes_def by presburger
  have k: "unat (scast (of_nat k :: byte) :: u64) = k" "k \<le> 30" using k_bounds [of b] by (simp_all add: k_def scast_small)
  have "bloom_test (bytes * 8) k (BloomHash key) (bloom_delta (BloomHash key)) array"
    unfolding array_def by (rule bloom_array_test [OF key]) (use bytes in simp_all)
  then show "bloom_KeyMayMatch key (bloom_CreateFilter (BloomFilterPolicy b) keys [])"
    using bytes k by (simp add: filter bloom_KeyMayMatch_def bloom_test_append Let_def array_def nth_append)
qed

end
