(* ===== verification/FilterBlock.thy ===== *)
theory FilterBlock
  imports Bloom
begin

text \<open>
  \<open>table/filter_block.cc\<close> of leveldb: the block that holds one filter for every 2 KB of data blocks.  The
  filter policy is the argument \<open>CreateFilter\<close> or \<open>KeyMayMatch\<close>; what it promises is \<open>filter_policy\<close>.
\<close>

definition kFilterBaseLg :: nat where
  "kFilterBaseLg = 11"

definition kFilterBase :: u64 where
  "kFilterBase = push_bit kFilterBaseLg 1"

section \<open>The builder\<close>

text \<open>\<open>keys_\<close>, \<open>start_\<close>, \<open>result_\<close> and \<open>filter_offsets_\<close>; \<open>tmp_keys_\<close> lives only in \<open>GenerateFilter\<close>.\<close>

record filter_builder =
  fb_keys :: "byte list"
  fb_start :: "nat list"
  fb_result :: "byte list"
  fb_offsets :: "u32 list"

definition FilterBlockBuilder :: filter_builder where
  "FilterBlockBuilder = \<lparr>fb_keys = [], fb_start = [], fb_result = [], fb_offsets = []\<rparr>"

definition GenerateFilter :: "(slice list \<Rightarrow> byte list \<Rightarrow> byte list) \<Rightarrow> filter_builder \<Rightarrow> filter_builder" where
  "GenerateFilter CreateFilter fb =
     (let num_keys = length (fb_start fb);
          offsets = fb_offsets fb @ [of_nat (length (fb_result fb))]
      in if num_keys = 0 then fb\<lparr>fb_offsets := offsets\<rparr>
         else
           let start = fb_start fb @ [length (fb_keys fb)];
               tmp_keys = map (\<lambda>i. take (start ! (i + 1) - start ! i) (drop (start ! i) (fb_keys fb))) [0..<num_keys]
           in \<lparr>fb_keys = [], fb_start = [], fb_result = CreateFilter tmp_keys (fb_result fb), fb_offsets = offsets\<rparr>)"

lemma length_offsets_GenerateFilter [simp]:
  "length (fb_offsets (GenerateFilter CreateFilter fb)) = Suc (length (fb_offsets fb))"
  by (simp add: GenerateFilter_def Let_def)

function start_block_loop :: "(slice list \<Rightarrow> byte list \<Rightarrow> byte list) \<Rightarrow> nat \<Rightarrow> filter_builder \<Rightarrow> filter_builder" where
  "start_block_loop CreateFilter filter_index fb =
     (if filter_index > length (fb_offsets fb)
      then start_block_loop CreateFilter filter_index (GenerateFilter CreateFilter fb) else fb)"
  by pat_completeness auto
termination
  by (relation "measure (\<lambda>(cf, filter_index, fb). filter_index - length (fb_offsets fb))") auto

declare start_block_loop.simps [simp del]

definition StartBlock :: "(slice list \<Rightarrow> byte list \<Rightarrow> byte list) \<Rightarrow> u64 \<Rightarrow> filter_builder \<Rightarrow> filter_builder" where
  "StartBlock CreateFilter block_offset fb = start_block_loop CreateFilter (unat (block_offset div kFilterBase)) fb"

definition AddKey :: "slice \<Rightarrow> filter_builder \<Rightarrow> filter_builder" where
  "AddKey key fb = fb\<lparr>fb_start := fb_start fb @ [length (fb_keys fb)], fb_keys := fb_keys fb @ key\<rparr>"

text \<open>\<open>Finish\<close> returns the contents of the block.\<close>

definition FilterBlock_Finish :: "(slice list \<Rightarrow> byte list \<Rightarrow> byte list) \<Rightarrow> filter_builder \<Rightarrow> slice" where
  "FilterBlock_Finish CreateFilter fb =
     (let fb = (if fb_start fb \<noteq> [] then GenerateFilter CreateFilter fb else fb);
          array_offset = of_nat (length (fb_result fb));
          result = fold (\<lambda>offset result. PutFixed32 result offset) (fb_offsets fb) (fb_result fb)
      in PutFixed32 result array_offset @ [of_nat kFilterBaseLg])"

section \<open>The reader\<close>

text \<open>\<open>offset_\<close> as its distance from \<open>data_\<close>; with \<open>num_\<close> zero neither is used.\<close>

record filter_reader =
  fr_data :: slice
  fr_offset :: nat
  fr_num :: nat
  fr_base_lg :: nat

definition FilterBlockReader :: "slice \<Rightarrow> filter_reader" where
  "FilterBlockReader contents =
     (let n = length contents; r = \<lparr>fr_data = [], fr_offset = 0, fr_num = 0, fr_base_lg = 0\<rparr> in
      if n < 5 then r
      else
        let r = r\<lparr>fr_base_lg := unat (scast (contents ! (n - 1)) :: u64)\<rparr>;
            last_word = unat (DecodeFixed32 kLittleEndian (drop (n - 5) contents))
        in if last_word > n - 5 then r
           else r\<lparr>fr_data := contents, fr_offset := last_word, fr_num := (n - 5 - last_word) div 4\<rparr>)"

definition FilterBlock_KeyMayMatch :: "(slice \<Rightarrow> slice \<Rightarrow> bool) \<Rightarrow> filter_reader \<Rightarrow> u64 \<Rightarrow> slice \<Rightarrow> bool" where
  "FilterBlock_KeyMayMatch KeyMayMatch r block_offset key =
     (let index = unat (drop_bit (fr_base_lg r) block_offset) in
      if index < fr_num r then
        let start = unat (DecodeFixed32 kLittleEndian (drop (fr_offset r + index * 4) (fr_data r)));
            limit = unat (DecodeFixed32 kLittleEndian (drop (fr_offset r + index * 4 + 4) (fr_data r)))
        in if start \<le> limit \<and> limit \<le> fr_offset r then KeyMayMatch key (take (limit - start) (drop start (fr_data r)))
           else if start = limit then False
           else True
      else True)"

section \<open>What the builder represents\<close>

text \<open>
  The abstract state: the keys of each filter so far, and the keys waiting for the next one.  An empty
  group has an empty filter.
\<close>

definition group_filter :: "(slice list \<Rightarrow> byte list \<Rightarrow> byte list) \<Rightarrow> slice list \<Rightarrow> byte list" where
  "group_filter CreateFilter keys = (if keys = [] then [] else CreateFilter keys [])"

definition group_offset :: "(slice list \<Rightarrow> byte list \<Rightarrow> byte list) \<Rightarrow> slice list list \<Rightarrow> nat \<Rightarrow> nat" where
  "group_offset CreateFilter groups i = length (concat (map (group_filter CreateFilter) (take i groups)))"

fun key_starts :: "nat \<Rightarrow> slice list \<Rightarrow> nat list" where
  "key_starts n [] = []"
| "key_starts n (key # keys) = n # key_starts (n + length key) keys"

definition represents ::
  "(slice list \<Rightarrow> byte list \<Rightarrow> byte list) \<Rightarrow> filter_builder \<Rightarrow> slice list list \<Rightarrow> slice list \<Rightarrow> bool" where
  "represents CreateFilter fb groups pending \<longleftrightarrow>
     fb = \<lparr>fb_keys = concat pending, fb_start = key_starts 0 pending,
           fb_result = concat (map (group_filter CreateFilter) groups),
           fb_offsets = map (\<lambda>i. of_nat (group_offset CreateFilter groups i)) [0..<length groups]\<rparr>"

lemma key_starts_append: "key_starts n (xs @ ys) = key_starts n xs @ key_starts (n + length (concat xs)) ys"
  by (induction xs arbitrary: n) (simp_all add: add.assoc)

lemma length_key_starts [simp]: "length (key_starts n keys) = length keys"
  by (induction keys arbitrary: n) simp_all

lemma key_starts_Nil_iff [simp]: "key_starts n keys = [] \<longleftrightarrow> keys = []"
  by (cases keys) simp_all

lemma key_starts_nth:
  "i \<le> length keys \<Longrightarrow> (key_starts n keys @ [n + length (concat keys)]) ! i = n + length (concat (take i keys))"
proof (induction keys arbitrary: n i)
  case (Cons key keys)
  then show ?case
    by (cases i) (simp_all, metis (no_types, lifting) Cons.IH add.assoc)
qed simp

text \<open>The keys are found back in the flattened string.\<close>

lemma unflatten:
  "map (\<lambda>i. take ((key_starts 0 keys @ [length (concat keys)]) ! (i + 1) - (key_starts 0 keys @ [length (concat keys)]) ! i)
      (drop ((key_starts 0 keys @ [length (concat keys)]) ! i) (concat keys))) [0..<length keys] = keys"
proof (rule nth_equalityI)
  fix i
  assume i: "i < length (map (\<lambda>i. take ((key_starts 0 keys @ [length (concat keys)]) ! (i + 1) - (key_starts 0 keys @ [length (concat keys)]) ! i)
      (drop ((key_starts 0 keys @ [length (concat keys)]) ! i) (concat keys))) [0..<length keys])"
  have split: "concat keys = concat (take i keys) @ keys ! i @ concat (drop (Suc i) keys)"
    using i by (simp add: id_take_nth_drop [of i keys, THEN arg_cong [of _ _ concat]])
  have starts: "(key_starts 0 keys @ [length (concat keys)]) ! j = length (concat (take j keys))" if "j \<le> length keys" for j
    using key_starts_nth [OF that, of 0] by simp
  have "length (concat (take (Suc i) keys)) = length (concat (take i keys)) + length (keys ! i)"
    using i by (simp add: take_Suc_conv_app_nth)
  then show "map (\<lambda>i. take ((key_starts 0 keys @ [length (concat keys)]) ! (i + 1) - (key_starts 0 keys @ [length (concat keys)]) ! i)
      (drop ((key_starts 0 keys @ [length (concat keys)]) ! i) (concat keys))) [0..<length keys] ! i = keys ! i"
    using i starts [of i] starts [of "Suc i"] by (subst (4) split) simp
qed simp

text \<open>The calls a table builder makes: for every data block its offset and its keys.\<close>

definition add_block ::
  "(slice list \<Rightarrow> byte list \<Rightarrow> byte list) \<Rightarrow> u64 \<times> slice list \<Rightarrow> filter_builder \<Rightarrow> filter_builder" where
  "add_block CreateFilter = (\<lambda>(block_offset, keys) fb. fold AddKey keys (StartBlock CreateFilter block_offset fb))"

definition filter_index :: "u64 \<Rightarrow> nat" where
  "filter_index block_offset = unat (block_offset div kFilterBase)"

lemma represents_new: "represents CreateFilter FilterBlockBuilder [] []"
  by (simp add: represents_def FilterBlockBuilder_def)

lemma represents_AddKey: "represents CreateFilter fb groups pending \<Longrightarrow> represents CreateFilter (AddKey key fb) groups (pending @ [key])"
  by (simp add: represents_def AddKey_def key_starts_append)

lemma represents_AddKeys:
  "represents CreateFilter fb groups pending \<Longrightarrow> represents CreateFilter (fold AddKey keys fb) groups (pending @ keys)"
proof (induction keys arbitrary: fb pending)
  case (Cons key keys)
  from Cons.IH [OF represents_AddKey [OF Cons.prems]] show ?case by simp
qed simp

lemma group_offset_append: "i \<le> length groups \<Longrightarrow> group_offset CreateFilter (groups @ later) i = group_offset CreateFilter groups i"
  by (simp add: group_offset_def)

lemma group_offset_all: "group_offset CreateFilter groups (length groups) = length (concat (map (group_filter CreateFilter) groups))"
  by (simp add: group_offset_def)

lemma group_offset_Suc:
  "i < length groups \<Longrightarrow> group_offset CreateFilter groups (Suc i) =
    group_offset CreateFilter groups i + length (group_filter CreateFilter (groups ! i))"
  by (simp add: group_offset_def take_Suc_conv_app_nth)

lemma group_slice:
  assumes "i < length groups"
  shows "take (length (group_filter CreateFilter (groups ! i)))
      (drop (group_offset CreateFilter groups i) (concat (map (group_filter CreateFilter) groups) @ rest)) =
    group_filter CreateFilter (groups ! i)"
proof -
  have "concat (map (group_filter CreateFilter) groups) =
      concat (map (group_filter CreateFilter) (take i groups)) @ group_filter CreateFilter (groups ! i) @
      concat (map (group_filter CreateFilter) (drop (Suc i) groups))"
    using assms by (simp add: id_take_nth_drop [of i groups, THEN arg_cong [of _ _ "\<lambda>g. concat (map (group_filter CreateFilter) g)"]])
  then show ?thesis by (simp add: group_offset_def)
qed

lemma group_offset_mono: "i \<le> length groups \<Longrightarrow> group_offset CreateFilter groups i \<le> group_offset CreateFilter groups (length groups)"
proof -
  have "length (concat (map f (take i groups))) \<le> length (concat (map f groups))" for f :: "slice list \<Rightarrow> byte list"
  proof -
    have "concat (map f groups) = concat (map f (take i groups)) @ concat (map f (drop i groups))"
      by (simp flip: concat_append map_append)
    then show ?thesis by simp
  qed
  then show ?thesis by (simp add: group_offset_def)
qed

context filter_policy
begin

lemma represents_GenerateFilter:
  assumes "represents CreateFilter fb groups pending"
  shows "represents CreateFilter (GenerateFilter CreateFilter fb) (groups @ [pending]) []"
proof (cases "pending = []")
  case True
  with assms show ?thesis
    by (simp add: represents_def GenerateFilter_def group_filter_def group_offset_append group_offset_all)
next
  case False
  have "CreateFilter pending (concat (map (group_filter CreateFilter) groups)) =
      concat (map (group_filter CreateFilter) groups) @ CreateFilter pending []"
    by (rule appends)
  with assms False unflatten [of pending] show ?thesis
    by (simp add: represents_def GenerateFilter_def Let_def group_filter_def group_offset_append group_offset_all)
qed

lemma represents_start_block_loop:
  assumes "represents CreateFilter fb groups pending" "length groups \<le> index"
  shows "\<exists>groups' pending'. represents CreateFilter (start_block_loop CreateFilter index fb) groups' pending' \<and>
    length groups' = index \<and> (\<forall>i \<le> length groups. (groups' @ [pending']) ! i = (groups @ [pending]) ! i)"
  using assms
proof (induction "index - length groups" arbitrary: fb groups pending)
  case 0
  then have "\<not> index > length (fb_offsets fb)" by (simp add: represents_def)
  then show ?case using 0 by (auto simp: start_block_loop.simps [of _ _ fb])
next
  case (Suc n)
  have len: "length (fb_offsets fb) = length groups" using Suc.prems(1) by (simp add: represents_def)
  have more: "n = index - length (groups @ [pending])" "length (groups @ [pending]) \<le> index"
    using Suc.hyps(2) by simp_all
  from Suc.hyps(1) [OF more(1) represents_GenerateFilter [OF Suc.prems(1)] more(2)] obtain groups' pending' where
    g: "represents CreateFilter (start_block_loop CreateFilter index (GenerateFilter CreateFilter fb)) groups' pending'"
    "length groups' = index" "\<forall>i \<le> Suc (length groups). (groups' @ [pending']) ! i = (groups @ [pending] @ [[]]) ! i"
    by auto
  have "(groups' @ [pending']) ! i = (groups @ [pending]) ! i" if "i \<le> length groups" for i
    using g(3) that by (simp add: nth_append)
  moreover have "start_block_loop CreateFilter index fb = start_block_loop CreateFilter index (GenerateFilter CreateFilter fb)"
    using Suc.hyps(2) len by (simp add: start_block_loop.simps [of _ _ fb])
  ultimately show ?case using g(1,2) by auto
qed

text \<open>After blocks at increasing offsets, every key is in the group of its block's offset.\<close>

lemma represents_blocks:
  assumes "sorted (map (filter_index \<circ> fst) blocks)"
  shows "\<exists>groups pending. represents CreateFilter (fold (add_block CreateFilter) blocks FilterBlockBuilder) groups pending \<and>
    (\<forall>(off, keys) \<in> set blocks. filter_index off \<le> length groups \<and>
      set keys \<subseteq> set ((groups @ [pending]) ! filter_index off)) \<and>
    (\<forall>index. (\<forall>(off, keys) \<in> set blocks. filter_index off \<le> index) \<longrightarrow> length groups \<le> index)"
  using assms
proof (induction blocks rule: rev_induct)
  case Nil
  show ?case using represents_new by fastforce
next
  case (snoc block blocks)
  obtain off keys where block: "block = (off, keys)" by (cases block)
  have sorted: "sorted (map (filter_index \<circ> fst) blocks)"
    "\<forall>(off', keys') \<in> set blocks. filter_index off' \<le> filter_index off"
    using snoc.prems by (auto simp: sorted_append block comp_def)
  from snoc.IH [OF sorted(1)] obtain groups pending where
    rep: "represents CreateFilter (fold (add_block CreateFilter) blocks FilterBlockBuilder) groups pending"
    and keys: "\<forall>(off, keys) \<in> set blocks. filter_index off \<le> length groups \<and>
      set keys \<subseteq> set ((groups @ [pending]) ! filter_index off)"
    and len: "length groups \<le> filter_index off" using sorted(2) by blast
  from represents_start_block_loop [OF rep len] obtain groups' pending' where
    rep': "represents CreateFilter (StartBlock CreateFilter off (fold (add_block CreateFilter) blocks FilterBlockBuilder))
      groups' pending'" and len': "length groups' = filter_index off"
    and same: "\<forall>i \<le> length groups. (groups' @ [pending']) ! i = (groups @ [pending]) ! i"
    by (auto simp: StartBlock_def filter_index_def)
  have nth: "set ((groups' @ [pending']) ! i) \<subseteq> set ((groups' @ [pending' @ keys]) ! i)" for i
    by (cases "i < length groups'"; cases "i = length groups'") (auto simp: nth_append)
  have "filter_index off' \<le> length groups' \<and> set keys' \<subseteq> set ((groups' @ [pending' @ keys]) ! filter_index off')"
    if "(off', keys') \<in> set (blocks @ [block])" for off' keys'
  proof (cases "(off', keys') \<in> set blocks")
    case True
    then have "filter_index off' \<le> length groups" "set keys' \<subseteq> set ((groups @ [pending]) ! filter_index off')"
      using keys by auto
    then show ?thesis using same len len' nth [of "filter_index off'"] by fastforce
  next
    case False
    then show ?thesis using that block len' by (simp add: nth_append)
  qed
  moreover have "represents CreateFilter (fold (add_block CreateFilter) (blocks @ [block]) FilterBlockBuilder) groups' (pending' @ keys)"
    using represents_AddKeys [OF rep'] by (simp add: block add_block_def)
  moreover have "length groups' \<le> index" if "\<forall>(off, keys) \<in> set (blocks @ [block]). filter_index off \<le> index" for index
    using that block len' by simp
  ultimately show ?case by blast
qed

end

section \<open>Reading the block back\<close>

text \<open>The contents \<open>Finish\<close> returns, for the groups \<open>gs\<close>.\<close>

definition filter_block :: "(slice list \<Rightarrow> byte list \<Rightarrow> byte list) \<Rightarrow> slice list list \<Rightarrow> byte list" where
  "filter_block CreateFilter gs =
     concat (map (group_filter CreateFilter) gs) @
     fixed32s (map (\<lambda>i. of_nat (group_offset CreateFilter gs i)) [0..<Suc (length gs)]) @
     [of_nat kFilterBaseLg]"

lemma reader_filter_block:
  assumes "group_offset CreateFilter gs (length gs) < 2 ^ 32"
  shows "FilterBlockReader (filter_block CreateFilter gs) =
    \<lparr>fr_data = filter_block CreateFilter gs, fr_offset = group_offset CreateFilter gs (length gs), fr_num = length gs,
     fr_base_lg = 11\<rparr>"
proof -
  define R where "R = concat (map (group_filter CreateFilter) gs)"
  define os where "os = map (\<lambda>i. of_nat (group_offset CreateFilter gs i) :: u32) [0..<Suc (length gs)]"
  have c: "filter_block CreateFilter gs = R @ fixed32s os @ [of_nat kFilterBaseLg]"
    by (simp add: filter_block_def R_def os_def)
  have len: "length (filter_block CreateFilter gs) = length R + 4 * length gs + 5" by (simp add: c os_def)
  have "drop (length R + 4 * length gs) (filter_block CreateFilter gs) =
      to_le 4 (unat (os ! length gs)) @ [of_nat kFilterBaseLg]"
    using drop_fixed32s [of "length gs" os "[of_nat kFilterBaseLg]"] by (simp add: c os_def del: to_le.simps upt_Suc)
  moreover have "os ! length gs = of_nat (length R)"
    by (simp add: os_def group_offset_all R_def del: upt_Suc)
  moreover have "(filter_block CreateFilter gs) ! (4 + (length R + 4 * length gs)) = of_nat kFilterBaseLg"
    by (simp add: c os_def nth_append)
  moreover have "(of_nat (of_le (to_le 4 (unat (of_nat (length R) :: u32)))) :: u32) = of_nat (length R)"
    by (simp add: word_of_le_to_le del: to_le.simps)
  moreover have "unat (of_nat (length R) :: u32) = length R"
    using assms by (simp add: unat_of_nat group_offset_all R_def)
  ultimately show ?thesis
    using len scast_small [of 11]
    by (simp add: FilterBlockReader_def Let_def kFilterBaseLg_def group_offset_all [of CreateFilter gs] R_def [symmetric]
        del: to_le.simps)
qed

context filter_policy
begin

lemma Finish_filter_block:
  assumes "represents CreateFilter fb groups pending"
  shows "FilterBlock_Finish CreateFilter fb =
    filter_block CreateFilter (groups @ (if pending = [] then [] else [pending]))"
proof -
  define fb1 gs where "fb1 = (if fb_start fb \<noteq> [] then GenerateFilter CreateFilter fb else fb)"
    and "gs = groups @ (if pending = [] then [] else [pending])"
  have rep: "represents CreateFilter fb1 gs []"
  proof (cases "pending = []")
    case True
    with assms show ?thesis by (simp add: fb1_def gs_def represents_def)
  next
    case False
    then have "fb_start fb \<noteq> []" using assms by (simp add: represents_def)
    with False represents_GenerateFilter [OF assms] show ?thesis by (simp add: fb1_def gs_def)
  qed
  then show ?thesis
    unfolding FilterBlock_Finish_def Let_def fb1_def [symmetric] gs_def [symmetric]
    unfolding fold_PutFixed32 PutFixed32_def [of "_ @ _"]
    by (simp add: represents_def filter_block_def group_offset_all del: to_le.simps)
qed

lemma match_filter_block:
  assumes small: "group_offset CreateFilter gs (length gs) < 2 ^ 32"
    and i: "filter_index off < length gs" "key \<in> set (gs ! filter_index off)"
  shows "FilterBlock_KeyMayMatch KeyMayMatch (FilterBlockReader (filter_block CreateFilter gs)) off key"
proof -
  define i where "i = filter_index off"
  define os where "os = map (\<lambda>i. of_nat (group_offset CreateFilter gs i) :: u32) [0..<Suc (length gs)]"
  define R where "R = concat (map (group_filter CreateFilter) gs)"
  have off: "unat (drop_bit 11 off) = i"
    by (simp add: i_def filter_index_def kFilterBase_def kFilterBaseLg_def unat_drop_bit unat_div)
  have le: "group_offset CreateFilter gs j \<le> group_offset CreateFilter gs (length gs)" if "j \<le> length gs" for j
    by (rule group_offset_mono [OF that])
  have word: "unat (os ! j) = group_offset CreateFilter gs j" if "j \<le> length gs" for j
    using le [OF that] small that by (simp add: os_def unat_of_nat del: upt_Suc)
  have entry: "unat (DecodeFixed32 kLittleEndian (drop (group_offset CreateFilter gs (length gs) + 4 * j)
      (filter_block CreateFilter gs))) = group_offset CreateFilter gs j" if "j \<le> length gs" for j
  proof -
    have d: "drop (length R + 4 * j) (filter_block CreateFilter gs) = to_le 4 (unat (os ! j)) @
        fixed32s (drop (Suc j) os) @ [of_nat kFilterBaseLg]"
      using drop_fixed32s [of j os "[of_nat kFilterBaseLg]"] that
      unfolding filter_block_def os_def [symmetric] R_def [symmetric] by (simp add: os_def del: to_le.simps upt_Suc)
    have "DecodeFixed32 kLittleEndian (drop (length R + 4 * j) (filter_block CreateFilter gs)) = os ! j"
      unfolding d by (rule DecodeFixed32_to_le)
    with word [OF that] show ?thesis by (simp add: group_offset_all R_def)
  qed
  have ne: "gs ! i \<noteq> []" using i(2) by (auto simp: i_def)
  have suc: "group_offset CreateFilter gs (Suc i) = group_offset CreateFilter gs i + length (CreateFilter (gs ! i) [])"
    using group_offset_Suc [of i gs CreateFilter] i(1) ne by (simp add: i_def group_filter_def)
  have "take (length (CreateFilter (gs ! i) [])) (drop (group_offset CreateFilter gs i) (filter_block CreateFilter gs)) =
      CreateFilter (gs ! i) []"
  proof -
    have "group_filter CreateFilter (gs ! i) = CreateFilter (gs ! i) []" using ne by (simp add: group_filter_def)
    moreover have "i < length gs" using i(1) by (simp add: i_def)
    ultimately show ?thesis unfolding filter_block_def by (metis group_slice)
  qed
  moreover have "KeyMayMatch key (CreateFilter (gs ! i) [])"
    by (rule no_false_negatives) (use i(2) in \<open>simp add: i_def\<close>)
  moreover have "i < length gs" using i(1) by (simp add: i_def)
  moreover have at: "group_offset CreateFilter gs (length gs) + i * 4 = group_offset CreateFilter gs (length gs) + 4 * i"
    "group_offset CreateFilter gs (length gs) + 4 * i + 4 = group_offset CreateFilter gs (length gs) + 4 * Suc i"
    by simp_all
  ultimately show ?thesis
    using entry [of i] entry [of "Suc i"] suc le [of "Suc i"]
    unfolding FilterBlock_KeyMayMatch_def reader_filter_block [OF small] Let_def filter_reader.simps off at
    by simp
qed

text \<open>Every key of a block is found at the offset of its block.\<close>

lemma filter_block_matches:
  assumes "sorted (map (filter_index \<circ> fst) blocks)" "(off, keys) \<in> set blocks" "key \<in> set keys"
    "fb = fold (add_block CreateFilter) blocks FilterBlockBuilder"
    "length (FilterBlock_Finish CreateFilter fb) < 2 ^ 32"
  shows "FilterBlock_KeyMayMatch KeyMayMatch (FilterBlockReader (FilterBlock_Finish CreateFilter fb)) off key"
proof -
  from represents_blocks [OF assms(1)] assms(4) obtain groups pending where
    rep: "represents CreateFilter fb groups pending"
    and keys: "\<forall>(off, keys) \<in> set blocks. filter_index off \<le> length groups \<and>
      set keys \<subseteq> set ((groups @ [pending]) ! filter_index off)" by blast
  define gs where "gs = groups @ (if pending = [] then [] else [pending])"
  have finish: "FilterBlock_Finish CreateFilter fb = filter_block CreateFilter gs"
    by (simp add: gs_def Finish_filter_block [OF rep])
  have "filter_index off \<le> length groups" "key \<in> set ((groups @ [pending]) ! filter_index off)"
    using keys assms(2,3) by auto
  then have key: "filter_index off < length gs" "key \<in> set (gs ! filter_index off)"
    by (auto simp: gs_def nth_append split: if_splits)
  have "group_offset CreateFilter gs (length gs) < 2 ^ 32"
    using assms(5) by (simp add: finish filter_block_def group_offset_all)
  from match_filter_block [OF this key] show ?thesis by (simp add: finish)
qed

end

end
