(* ===== verification/StorageProps.thy ===== *)
theory StorageProps
  imports Base64 Crc32c FilterBlock PbOStream
begin

text \<open>
  The properties of the Base64 codec and of leveldb's encodings, checksums and filters, over the
  lemmas of their theories.
\<close>

section \<open>Base64\<close>

text \<open>
  C28. \<open>f_b64_pton\<close> gives back the bytes \<open>f_b64_ntop\<close> was given: encoding into a buffer with room for the
  text and its NUL succeeds, and decoding that C string into a buffer with one byte to spare returns the
  number of bytes and stores them at its start.
\<close>

theorem base64_roundtrip:
  assumes "4 * ((length src + 2) div 3) < targsize" "targsize \<le> length target"
    and "length src < size2" "size2 \<le> length target2" "length src < 2 ^ 31"
  shows "\<exists>n out out2. f_b64_ntop src target targsize = Some (n, out) \<and>
    f_b64_pton (c_string out) (Some target2) size2 = Some (int (length src), Some out2) \<and>
    take (length src) out2 = src"
proof -
  have "c_string (b64_text src @ [0] @ drop (Suc (length (b64_text src))) target) = b64_text src"
    by (simp add: c_string_text)
  with f_b64_ntop_fits [of src targsize target] f_b64_pton_text [of src size2 target2] assms show ?thesis
    by (auto simp: length_b64_text)
qed

definition greeting :: "byte list" where
  "greeting = [0x48, 0x65, 0x6C, 0x6C, 0x6F]"

lemma length_greeting [simp]: "length greeting = 5"
  by (simp add: greeting_def)

theorem base64_roundtrip_witness:
  "\<exists>n out out2. f_b64_ntop greeting (replicate 12 0xAA) 9 = Some (n, out) \<and>
    f_b64_pton (c_string out) (Some (replicate 6 0xAA)) 6 = Some (5, Some out2) \<and> take 5 out2 = greeting"
  using base64_roundtrip [of greeting 9 "replicate 12 0xAA" 6 "replicate 6 0xAA"] by simp

text \<open>
  C29. \<open>f_b64_ntop\<close> stays inside its buffer for every \<open>targsize\<close> up to the size of the buffer, and returns
  -1 exactly when the text and its NUL do not fit, and the length of the text otherwise.
\<close>

theorem base64_encode_result:
  assumes "targsize \<le> length target" "length (b64_text src) < 2 ^ 31"
  shows "\<exists>target'. length target' = length target \<and> f_b64_ntop src target targsize =
    Some (if 4 * ((length src + 2) div 3) < targsize then int (4 * ((length src + 2) div 3)) else -1, target')"
proof (cases "length (b64_text src) < targsize")
  case True
  then show ?thesis
    using f_b64_ntop_fits [of src targsize target] assms sint_of_small_nat [of "length (b64_text src)"]
    by (auto simp: int_of_size_def length_b64_text)
next
  case False
  then show ?thesis using f_b64_ntop_full [of targsize src target] assms by (auto simp: length_b64_text)
qed

theorem base64_encode_result_witness:
  "\<exists>target'. length target' = 12 \<and> f_b64_ntop greeting (replicate 12 0xAA) 8 = Some (-1, target')"
  using base64_encode_result [of 8 "replicate 12 0xAA" greeting] by (simp add: length_b64_text)

text \<open>
  C30. \<open>f_b64_pton\<close> stays inside its buffer for every input, well-formed or not: each store, and the read
  of the byte behind the data, is at an index below \<open>targsize\<close>.
\<close>

theorem base64_decode_inside:
  assumes "\<And>t. target = Some t \<Longrightarrow> targsize \<le> length t"
  shows "\<exists>n target'. f_b64_pton src target targsize = Some (n, target') \<and>
    map_option length target' = map_option length target"
  using assms by (rule f_b64_pton_inside)

theorem base64_decode_inside_witness:
  "\<exists>n target'. f_b64_pton [0x41, 0x41, 0x3D] (Some [0xAA, 0xAA]) 2 = Some (n, target') \<and>
    map_option length target' = map_option length (Some [0xAA, 0xAA :: byte])"
  by (rule base64_decode_inside) simp

section \<open>leveldb's integer encodings\<close>

text \<open>
  C31. leveldb's varints: the unrolled 32-bit encoder and the 64-bit loop write the same bytes for the
  same number, the two decoders read them back and stop right behind them, and \<open>VarintLength\<close> is the
  number of bytes.
\<close>

theorem varint_slice_roundtrip:
  "EncodeVarint64 (ucast v32) = EncodeVarint32 v32 \<and>
   GetVarint32 (EncodeVarint32 v32 @ rest) = (Some v32, rest) \<and>
   GetVarint64 (EncodeVarint64 v64 @ rest) = (Some v64, rest) \<and>
   VarintLength v64 = length (EncodeVarint64 v64)"
proof -
  have "unat (ucast v32 :: u64) = unat v32"
    using unat_less [of v32] by (simp add: unat_ucast)
  then show ?thesis
    by (simp add: EncodeVarint64_bytes EncodeVarint32_bytes GetVarint32_bytes GetVarint64_bytes VarintLength_bytes)
qed

text \<open>
  C32. leveldb and nanopb agree on varints: on a stream with room, \<open>pb_encode_varint\<close> appends what
  \<open>PutVarint64\<close> appends to a string.
\<close>

theorem varints_agree:
  "emits (\<lambda>s. Some (pb_encode_varint env s v)) (EncodeVarint64 v) \<and>
   PutVarint64 dst v = dst @ EncodeVarint64 v"
  using pb_encode_varint_emits [of env v] by (simp add: EncodeVarint64_bytes PutVarint64_def)

text \<open>
  Fixed-width integers do not depend on the byte order of the host: what a host of one order encodes,
  with \<open>memcpy\<close> or with shifts, a host of the other order decodes to the same number.
\<close>

theorem fixed_endian_neutral:
  "DecodeFixed32 l1 (EncodeFixed32 l2 v32 @ rest) = v32 \<and> DecodeFixed64 l1 (EncodeFixed64 l2 v64 @ rest) = v64"
  by (simp only: DecodeFixed32_Encode DecodeFixed64_Encode simp_thms)

text \<open>
  C33. A length-prefixed slice comes back, with both readers, and what follows it is left in the input.
\<close>

theorem length_prefixed_roundtrip:
  assumes "length value < 2 ^ 32"
  shows "\<exists>bytes. PutLengthPrefixedSlice dst value = dst @ bytes \<and>
    GetLengthPrefixedSlice (bytes @ rest) = (Some value, rest) \<and>
    GetLengthPrefixedSlicePtr (bytes @ rest) = Some (value, rest)"
  using assms
  by (intro exI [of _ "length_prefixed value"])
    (simp add: PutLengthPrefixedSlice_bytes GetLengthPrefixedSlice_bytes GetLengthPrefixedSlicePtr_bytes)

theorem length_prefixed_roundtrip_witness:
  "\<exists>bytes. PutLengthPrefixedSlice [7] greeting = [7] @ bytes \<and>
    GetLengthPrefixedSlice (bytes @ [9]) = (Some greeting, [9]) \<and>
    GetLengthPrefixedSlicePtr (bytes @ [9]) = Some (greeting, [9])"
  by (rule length_prefixed_roundtrip) simp

section \<open>CRC-32C\<close>

text \<open>
  C34. The table-driven \<open>Extend\<close>, which works through the data in aligned words and four interleaved
  strides, computes the bitwise CRC with the Castagnoli polynomial, for every address of the data; so
  extending the CRC of \<open>xs\<close> by \<open>ys\<close> gives the CRC of the two together.
\<close>

theorem crc_extend_correct:
  "Extend addr crc data = crc32c_spec crc data \<and>
   Extend addr (Extend addr' crc xs) ys = Extend addr'' crc (xs @ ys)"
  using Extend_append [of addr'' crc xs ys addr addr'] by (simp add: Extend_spec)

text \<open>A masked checksum is unmasked to itself.\<close>

theorem crc_mask_roundtrip: "Unmask (Mask crc) = crc"
  by (rule Unmask_Mask)

section \<open>Filters\<close>

text \<open>
  C35. The Bloom filter has no false negatives: for every setting of the bits per key, a key in the list the
  filter was made from matches the bytes \<open>CreateFilter\<close> appended.
\<close>

theorem bloom_no_false_negatives:
  assumes "key \<in> set keys" "bloom_CreateFilter (BloomFilterPolicy b) keys dst = dst @ bits"
  shows "bloom_KeyMayMatch key bits"
  using bloom.no_false_negatives [OF assms(1), of b] bloom.appends [of b keys dst] assms(2) by simp

theorem bloom_no_false_negatives_witness:
  "\<exists>bits. bloom_CreateFilter (BloomFilterPolicy 10) [greeting, []] [1] = [1] @ bits \<and>
    bloom_KeyMayMatch greeting bits"
  using bloom_no_false_negatives [of greeting "[greeting, []]" 10 "[1]"] bloom.appends [of 10 "[greeting, []]" "[1]"]
  by auto

text \<open>
  C36. The filter block of a table, built with the Bloom policy from data blocks at increasing offsets,
  answers true for every key of a block, asked at the offset of that block.
\<close>

theorem filter_block_no_false_negatives:
  assumes "sorted (map (filter_index \<circ> fst) data_blocks)" "(off, keys) \<in> set data_blocks" "key \<in> set keys"
    and "fb = fold (add_block (bloom_CreateFilter (BloomFilterPolicy b))) data_blocks FilterBlockBuilder"
    and "length (FilterBlock_Finish (bloom_CreateFilter (BloomFilterPolicy b)) fb) < 2 ^ 32"
  shows "FilterBlock_KeyMayMatch bloom_KeyMayMatch
    (FilterBlockReader (FilterBlock_Finish (bloom_CreateFilter (BloomFilterPolicy b)) fb)) off key"
  using assms by (rule bloom.filter_block_matches)

definition example_blocks :: "(u64 \<times> slice list) list" where
  "example_blocks = [(0, [greeting, []]), (5000, [[1]])]"

lemma example_blocks_length:
  "length (FilterBlock_Finish (bloom_CreateFilter (BloomFilterPolicy 10))
    (fold (add_block (bloom_CreateFilter (BloomFilterPolicy 10))) example_blocks FilterBlockBuilder)) = 35"
  by (simp add: example_blocks_def add_block_def FilterBlock_Finish_def FilterBlockBuilder_def AddKey_def
      StartBlock_def start_block_loop.simps GenerateFilter_def PutFixed32_def kFilterBase_def kFilterBaseLg_def
      BloomFilterPolicy_def Let_def)

theorem filter_block_no_false_negatives_witness:
  "FilterBlock_KeyMayMatch bloom_KeyMayMatch
    (FilterBlockReader (FilterBlock_Finish (bloom_CreateFilter (BloomFilterPolicy 10))
      (fold (add_block (bloom_CreateFilter (BloomFilterPolicy 10))) example_blocks FilterBlockBuilder))) 5000 [1]"
proof (rule filter_block_no_false_negatives [OF _ _ _ refl])
  show "sorted (map (filter_index \<circ> fst) example_blocks)"
    by (simp add: example_blocks_def filter_index_def kFilterBase_def kFilterBaseLg_def)
  show "(5000, [[1]]) \<in> set example_blocks" "[1] \<in> set [[1]]" by (simp_all add: example_blocks_def)
qed (simp add: example_blocks_length)

end
