(* ===== verification/Logging.thy ===== *)
theory Logging
  imports Coding
begin

text \<open>
  \<open>util/logging.cc\<close> of leveldb: printing and reading decimal numbers, and escaping strings.  \<open>decimal\<close> and
  \<open>hex2\<close> are what \<open>snprintf\<close> writes for \<open>%llu\<close> and \<open>%02x\<close>.
\<close>

definition bytes_of :: "string \<Rightarrow> byte list" where
  "bytes_of s = map of_char s"

section \<open>Printing\<close>

definition digit_char :: "nat \<Rightarrow> byte" where
  "digit_char d = of_nat (0x30 + d)"

function decimal :: "nat \<Rightarrow> byte list" where
  "decimal n = (if n < 10 then [digit_char n] else decimal (n div 10) @ [digit_char (n mod 10)])"
  by pat_completeness auto
termination by (relation "measure id") auto

declare decimal.simps [simp del]

definition hex_char :: "nat \<Rightarrow> byte" where
  "hex_char d = of_nat (if d < 10 then 0x30 + d else 0x61 + (d - 10))"

definition hex2 :: "byte \<Rightarrow> byte list" where
  "hex2 b = [hex_char (unat b div 16), hex_char (unat b mod 16)]"

definition AppendNumberTo :: "byte list \<Rightarrow> u64 \<Rightarrow> byte list" where
  "AppendNumberTo str num = str @ decimal (unat num)"

text \<open>\<open>c >= ' ' && c <= '~'\<close> compares \<open>char\<close>s, which are signed.\<close>

definition escape_char :: "byte \<Rightarrow> byte list" where
  "escape_char c = (if sint c \<ge> 0x20 \<and> sint c \<le> 0x7E then [c] else [0x5C, 0x78] @ hex2 c)"

definition AppendEscapedStringTo :: "byte list \<Rightarrow> slice \<Rightarrow> byte list" where
  "AppendEscapedStringTo str value = str @ concat (map escape_char value)"

definition NumberToString :: "u64 \<Rightarrow> byte list" where
  "NumberToString num = AppendNumberTo [] num"

definition EscapeString :: "slice \<Rightarrow> byte list" where
  "EscapeString value = AppendEscapedStringTo [] value"

section \<open>Reading\<close>

definition kMaxUint64 :: u64 where
  "kMaxUint64 = - 1"

definition kLastDigitOfMaxUint64 :: byte where
  "kLastDigitOfMaxUint64 = 0x30 + of_nat (unat kMaxUint64 mod 10)"

text \<open>
  The loop: the value and the slice from \<open>current\<close> on, or \<open>None\<close> when the number does not fit 64 bits.
\<close>

primrec decimal_loop :: "u64 \<Rightarrow> byte list \<Rightarrow> (u64 \<times> byte list) option" where
  "decimal_loop value [] = Some (value, [])"
| "decimal_loop value (ch # current) =
     (if ch < 0x30 \<or> ch > 0x39 then Some (value, ch # current)
      else if value > kMaxUint64 div 10 \<or> value = kMaxUint64 div 10 \<and> ch > kLastDigitOfMaxUint64 then None
      else decimal_loop (value * 10 + ucast (ch - 0x30)) current)"

text \<open>The status, the value stored in \<open>*val\<close>, if any, and the slice.\<close>

definition ConsumeDecimalNumber :: "slice \<Rightarrow> bool \<times> u64 option \<times> slice" where
  "ConsumeDecimalNumber input =
     (case decimal_loop 0 input of
        None \<Rightarrow> (False, None, input)
      | Some (value, rest) \<Rightarrow> (length input - length rest \<noteq> 0, Some value, rest))"

section \<open>A printed number is read back\<close>

definition is_digit :: "byte \<Rightarrow> bool" where
  "is_digit ch \<longleftrightarrow> \<not> (ch < 0x30 \<or> ch > 0x39)"

lemma unat_digit_char: "d < 10 \<Longrightarrow> unat (digit_char d) = 0x30 + d"
  unfolding digit_char_def by (rule unat_of_nat_small) simp

lemma is_digit_char: "d < 10 \<Longrightarrow> is_digit (digit_char d)"
  by (simp add: is_digit_def word_less_nat_alt unat_digit_char)

lemma max_div_10: "unat (kMaxUint64 div 10) = 1844674407370955161"
  by (simp add: kMaxUint64_def unat_div unsigned_minus_1_eq_mask mask_eq_exp_minus_1)

lemma last_digit: "unat kLastDigitOfMaxUint64 = 0x35"
  by (simp add: kLastDigitOfMaxUint64_def kMaxUint64_def unsigned_minus_1_eq_mask mask_eq_exp_minus_1)

lemma decimal_step:
  assumes "10 * unat value + d < 2 ^ 64" "d < 10"
  shows "decimal_loop value (digit_char d # current) = decimal_loop (of_nat (10 * unat value + d)) current"
proof -
  have no: "\<not> (value > kMaxUint64 div 10 \<or> value = kMaxUint64 div 10 \<and> digit_char d > kLastDigitOfMaxUint64)"
  proof
    assume "value > kMaxUint64 div 10 \<or> value = kMaxUint64 div 10 \<and> digit_char d > kLastDigitOfMaxUint64"
    then have "unat value > 1844674407370955161 \<or> unat value = 1844674407370955161 \<and> d > 5"
      using unat_digit_char [OF assms(2)] by (auto simp: word_less_nat_alt max_div_10 last_digit)
    then show False using assms(1) by auto
  qed
  have "unat (digit_char d - 0x30) = d"
    using assms(2) unat_digit_char [OF assms(2)] by (simp add: unat_sub word_le_nat_alt)
  then have "(ucast (digit_char d - 0x30) :: u64) = of_nat d" by (metis of_nat_unat)
  moreover have "value * 10 + of_nat d = of_nat (10 * unat value + d)" by (simp add: mult.commute)
  ultimately show ?thesis
    using is_digit_char [OF assms(2)] by (simp only: decimal_loop.simps if_not_P [OF no] is_digit_def if_False)
qed

lemma decimal_loop_append:
  "n < 2 ^ 64 \<Longrightarrow> decimal_loop 0 (decimal n @ rest) = decimal_loop (of_nat n) rest"
proof (induction n arbitrary: rest rule: decimal.induct)
  case (1 n)
  show ?case
  proof (cases "n < 10")
    case True
    with decimal_step [of 0 n rest] show ?thesis by (simp add: decimal.simps [of n])
  next
    case False
    have u: "unat (of_nat (n div 10) :: u64) = n div 10" using 1(2) by (simp add: unat_of_nat)
    have "decimal_loop 0 (decimal n @ rest) = decimal_loop (of_nat (n div 10)) (digit_char (n mod 10) # rest)"
      using False 1 by (simp add: decimal.simps [of n])
    also have "\<dots> = decimal_loop (of_nat (10 * unat (of_nat (n div 10) :: u64) + n mod 10)) rest"
      by (rule decimal_step) (use 1(2) u in simp_all)
    also have "10 * unat (of_nat (n div 10) :: u64) + n mod 10 = n" using u by simp
    finally show ?thesis .
  qed
qed

lemma decimal_nonempty [simp]: "decimal n \<noteq> []"
  by (subst decimal.simps) simp

lemma decimal_loop_stop: "rest = [] \<or> \<not> is_digit (hd rest) \<Longrightarrow> decimal_loop v rest = Some (v, rest)"
  by (cases rest) (simp_all add: is_digit_def)

lemma ConsumeDecimalNumber_decimal:
  assumes "rest = [] \<or> \<not> is_digit (hd rest)"
  shows "ConsumeDecimalNumber (decimal (unat v) @ rest) = (True, Some v, rest)"
  using decimal_loop_append [of "unat v" rest] decimal_loop_stop [OF assms, of v] unat_less [of v]
  by (simp add: ConsumeDecimalNumber_def)

end
