(* ===== verification/Comparator.thy ===== *)
theory Comparator
  imports Coding
begin

text \<open>
  \<open>include/leveldb/slice.h\<close> and \<open>util/comparator.cc\<close> of leveldb: comparing slices, the bytewise comparator,
  and the contract of every comparator (\<open>include/leveldb/comparator.h\<close>) as a locale.
\<close>

section \<open>Slices\<close>

definition remove_prefix :: "nat \<Rightarrow> slice \<Rightarrow> slice" where
  "remove_prefix n s = drop n s"

text \<open>The sign of what \<open>memcmp\<close> returns for the first \<open>n\<close> bytes of two arrays that have them.\<close>

fun memcmp :: "nat \<Rightarrow> byte list \<Rightarrow> byte list \<Rightarrow> int" where
  "memcmp (Suc n) (x # xs) (y # ys) = (if x < y then -1 else if y < x then 1 else memcmp n xs ys)"
| "memcmp n xs ys = 0"

definition starts_with_slice :: "slice \<Rightarrow> slice \<Rightarrow> bool" where
  "starts_with_slice s x \<longleftrightarrow> length s \<ge> length x \<and> memcmp (length x) s x = 0"

definition slice_eq :: "slice \<Rightarrow> slice \<Rightarrow> bool" where
  "slice_eq x y \<longleftrightarrow> length x = length y \<and> memcmp (length x) x y = 0"

definition slice_compare :: "slice \<Rightarrow> slice \<Rightarrow> int" where
  "slice_compare a b =
     (let min_len = (if length a < length b then length a else length b);
          r = memcmp min_len a b
      in if r = 0 then (if length a < length b then -1 else if length a > length b then 1 else r) else r)"

section \<open>The bytewise comparator\<close>

text \<open>The length of the common prefix: \<open>diff_index\<close> after the loop, at most \<open>min_length\<close>.\<close>

fun common_prefix :: "slice \<Rightarrow> slice \<Rightarrow> nat" where
  "common_prefix (x # xs) (y # ys) = (if x = y then Suc (common_prefix xs ys) else 0)"
| "common_prefix xs ys = 0"

definition FindShortestSeparator :: "slice \<Rightarrow> slice \<Rightarrow> slice" where
  "FindShortestSeparator start limit =
     (let min_length = min (length start) (length limit); diff_index = common_prefix start limit in
      if diff_index \<ge> min_length then start
      else
        let diff_byte = start ! diff_index in
        if unat diff_byte < 0xff \<and> unat diff_byte + 1 < unat (limit ! diff_index)
        then take (diff_index + 1) (start[diff_index := start ! diff_index + 1])
        else start)"

text \<open>The loop from index \<open>i\<close> on; \<open>key\<close> is returned as it is when it is a run of 0xff.\<close>

definition FindShortSuccessor :: "slice \<Rightarrow> slice" where
  "FindShortSuccessor key =
     (case find (\<lambda>i. key ! i \<noteq> 0xff) [0..<length key] of
        Some i \<Rightarrow> take (i + 1) (key[i := key ! i + 1])
      | None \<Rightarrow> key)"

section \<open>The contract of a comparator\<close>

text \<open>
  \<open>Compare\<close> orders the valid keys totally; a separator of \<open>start\<close> before \<open>limit\<close> is \<open>start\<close> itself or lies in
  \<open>[start, limit)\<close>; a successor is not smaller.
\<close>

locale comparator =
  fixes valid :: "slice \<Rightarrow> bool"
    and Compare :: "slice \<Rightarrow> slice \<Rightarrow> int"
    and Separator :: "slice \<Rightarrow> slice \<Rightarrow> slice"
    and Successor :: "slice \<Rightarrow> slice"
  assumes refl: "valid a \<Longrightarrow> Compare a a = 0"
    and sym: "valid a \<Longrightarrow> valid b \<Longrightarrow> Compare a b < 0 \<longleftrightarrow> Compare b a > 0"
    and trans: "valid a \<Longrightarrow> valid b \<Longrightarrow> valid c \<Longrightarrow> Compare a b \<le> 0 \<Longrightarrow> Compare b c \<le> 0 \<Longrightarrow> Compare a c \<le> 0"
    and valid_separator: "valid a \<Longrightarrow> valid b \<Longrightarrow> valid (Separator a b)"
    and separator: "valid a \<Longrightarrow> valid b \<Longrightarrow> Compare a b \<le> 0 \<Longrightarrow>
      Compare a (Separator a b) \<le> 0 \<and> (Separator a b = a \<or> Compare (Separator a b) b < 0)"
    and valid_successor: "valid a \<Longrightarrow> valid (Successor a)"
    and successor: "valid a \<Longrightarrow> Compare a (Successor a) \<le> 0"
begin

lemma eq_sym: "valid a \<Longrightarrow> valid b \<Longrightarrow> Compare a b = 0 \<longleftrightarrow> Compare b a = 0"
  using sym [of a b] sym [of b a] by linarith

lemma le_total: "valid a \<Longrightarrow> valid b \<Longrightarrow> Compare a b \<le> 0 \<or> Compare b a \<le> 0"
  using sym [of a b] sym [of b a] by linarith

lemma less_le_trans:
  assumes "valid a" "valid b" "valid c" "Compare a b < 0" "Compare b c \<le> 0"
  shows "Compare a c < 0"
proof (rule ccontr)
  assume "\<not> Compare a c < 0"
  then have "Compare c a \<le> 0" using sym [of c a] sym [of a c] assms(1,3) by linarith
  then have "Compare b a \<le> 0" using trans [of b c a] assms by blast
  then show False using sym [of a b] assms by linarith
qed

lemma le_less_trans:
  assumes "valid a" "valid b" "valid c" "Compare a b \<le> 0" "Compare b c < 0"
  shows "Compare a c < 0"
proof (rule ccontr)
  assume "\<not> Compare a c < 0"
  then have "Compare c a \<le> 0" using sym [of c a] sym [of a c] assms(1,3) by linarith
  then have "Compare c b \<le> 0" using trans [of c a b] assms by blast
  then show False using sym [of b c] assms by linarith
qed

lemma separator_less:
  assumes "valid a" "valid b" "Compare a b < 0"
  shows "Compare a (Separator a b) \<le> 0 \<and> Compare (Separator a b) b < 0"
  using separator [OF assms(1,2)] assms(3) by (metis order_less_imp_le)

end

section \<open>The bytewise comparator keeps the contract\<close>

text \<open>Its order is the lexicographic one.\<close>

fun lex_cmp :: "slice \<Rightarrow> slice \<Rightarrow> int" where
  "lex_cmp [] [] = 0"
| "lex_cmp [] (y # ys) = -1"
| "lex_cmp (x # xs) [] = 1"
| "lex_cmp (x # xs) (y # ys) = (if x < y then -1 else if y < x then 1 else lex_cmp xs ys)"

lemma slice_compare_Cons [simp]:
  "slice_compare [] [] = 0"
  "slice_compare [] (y # ys) = -1"
  "slice_compare (x # xs) [] = 1"
  "slice_compare (x # xs) (y # ys) = (if x < y then -1 else if y < x then 1 else slice_compare xs ys)"
  by (simp_all add: slice_compare_def Let_def)

lemma slice_compare_lex: "slice_compare a b = lex_cmp a b"
  by (induction a b rule: lex_cmp.induct) simp_all

lemma slice_compare_eq_0_iff [simp]: "slice_compare a b = 0 \<longleftrightarrow> a = b"
  by (induction a b rule: lex_cmp.induct) auto

lemma slice_compare_refl [simp]: "slice_compare a a = 0"
  by simp

lemma slice_compare_sym: "slice_compare b a = - slice_compare a b"
  by (induction a b rule: lex_cmp.induct) auto

lemma slice_compare_trans: "slice_compare a b \<le> 0 \<Longrightarrow> slice_compare b c \<le> 0 \<Longrightarrow> slice_compare a c \<le> 0"
proof (induction a b arbitrary: c rule: lex_cmp.induct)
  case (2 y ys)
  then show ?case by (cases c) simp_all
next
  case (4 x xs y ys)
  then show ?case by (cases c) (auto split: if_splits)
qed simp_all

lemma slice_compare_append: "slice_compare (p @ a) (p @ b) = slice_compare a b"
  by (induction p) simp_all

lemma common_prefix_le: "common_prefix a b \<le> length a" "common_prefix a b \<le> length b"
  by (induction a b rule: common_prefix.induct) auto

lemma common_prefix_take: "take (common_prefix a b) a = take (common_prefix a b) b"
  by (induction a b rule: common_prefix.induct) auto

lemma increment_byte: "unat (x :: byte) < 0xff \<Longrightarrow> x < x + 1 \<and> unat (x + 1) = unat x + 1"
  by (simp add: word_less_nat_alt unat_word_ariths)

text \<open>Incrementing the byte at \<open>i\<close> and cutting behind it gives a greater slice.\<close>

lemma compare_increment:
  assumes "i < length a" "a ! i \<noteq> 0xff"
  shows "slice_compare a (take (i + 1) (a[i := a ! i + 1])) < 0"
proof -
  have "unat (a ! i) \<noteq> 0xff" using assms(2) by (simp add: word_unat_eq_iff)
  then have x: "unat (a ! i) < 0xff" using unat_byte_less [of "a ! i"] by linarith
  have "take (i + 1) (a[i := a ! i + 1]) = take i a @ [a ! i + 1]"
    using assms(1) by (simp add: take_Suc_conv_app_nth)
  moreover have "a = take i a @ (a ! i) # drop (Suc i) a" using assms(1) by (simp add: id_take_nth_drop)
  ultimately have "slice_compare a (take (i + 1) (a[i := a ! i + 1])) =
      slice_compare (a ! i # drop (Suc i) a) [a ! i + 1]"
    by (metis slice_compare_append)
  then show ?thesis using increment_byte [OF x] by simp
qed

lemma separator_bytewise:
  assumes "slice_compare a b \<le> 0"
  shows "slice_compare a (FindShortestSeparator a b) \<le> 0 \<and>
    (FindShortestSeparator a b = a \<or> slice_compare (FindShortestSeparator a b) b < 0)"
proof (cases "FindShortestSeparator a b = a")
  case False
  define i where "i = common_prefix a b"
  from False have i: "i < length a" "i < length b" and
    x: "unat (a ! i) < 0xff" "unat (a ! i) + 1 < unat (b ! i)" and
    s: "FindShortestSeparator a b = take (i + 1) (a[i := a ! i + 1])"
    by (auto simp: FindShortestSeparator_def Let_def i_def not_le split: if_splits)
  have "a ! i \<noteq> 0xff" using x(1) by auto
  from compare_increment [OF i(1) this] have "slice_compare a (FindShortestSeparator a b) < 0" by (simp add: s)
  moreover have "slice_compare (FindShortestSeparator a b) b < 0"
  proof -
    have "FindShortestSeparator a b = take i b @ [a ! i + 1]"
      using i(1) common_prefix_take [of a b] by (simp add: s take_Suc_conv_app_nth i_def)
    moreover have "b = take i b @ (b ! i) # drop (Suc i) b" using i(2) by (simp add: id_take_nth_drop)
    ultimately have "slice_compare (FindShortestSeparator a b) b = slice_compare [a ! i + 1] (b ! i # drop (Suc i) b)"
      by (metis slice_compare_append)
    moreover have "a ! i + 1 < b ! i" using increment_byte [OF x(1)] x(2) by (simp add: word_less_nat_alt)
    ultimately show ?thesis by simp
  qed
  ultimately show ?thesis by simp
qed simp

lemma successor_bytewise: "slice_compare a (FindShortSuccessor a) \<le> 0"
proof (cases "find (\<lambda>i. a ! i \<noteq> 0xff) [0..<length a]")
  case (Some i)
  then have "i < length a" "a ! i \<noteq> 0xff" by (auto simp: find_Some_iff)
  from compare_increment [OF this] Some show ?thesis by (simp add: FindShortSuccessor_def)
qed (simp add: FindShortSuccessor_def)

interpretation bytewise: comparator "\<lambda>_. True" slice_compare FindShortestSeparator FindShortSuccessor
proof
  fix a b :: slice
  show "slice_compare a b < 0 \<longleftrightarrow> slice_compare b a > 0" using slice_compare_sym [of b a] by simp
qed (auto simp: separator_bytewise successor_bytewise intro: slice_compare_trans)

end
