(* ===== verification/DbStatus.thy ===== *)
theory DbStatus
  imports Logging Comparator
begin

text \<open>
  \<open>util/status.cc\<close> and \<open>include/leveldb/status.h\<close> of leveldb.  A status is its \<open>state_\<close>: \<open>None\<close> for a null
  pointer (OK), otherwise the array it points to, with the size of the message in four bytes of the
  host (little-endian), the code and the message.
\<close>

type_synonym status = "byte list option"

section \<open>Construction and tests\<close>

abbreviation (input) kOk :: u8 where "kOk \<equiv> 0"
abbreviation (input) kNotFound :: u8 where "kNotFound \<equiv> 1"
abbreviation (input) kCorruption :: u8 where "kCorruption \<equiv> 2"
abbreviation (input) kNotSupported :: u8 where "kNotSupported \<equiv> 3"
abbreviation (input) kInvalidArgument :: u8 where "kInvalidArgument \<equiv> 4"
abbreviation (input) kIOError :: u8 where "kIOError \<equiv> 5"

abbreviation Status_OK :: status where "Status_OK \<equiv> None"

text \<open>Messages are shorter than \<open>2 ^ 32\<close> bytes; a longer one overruns the array the source allocates.\<close>

definition MakeStatus :: "u8 \<Rightarrow> slice \<Rightarrow> slice \<Rightarrow> status" where
  "MakeStatus status_code msg msg2 =
     (let len1 = of_nat (length msg) :: u32; len2 = of_nat (length msg2) :: u32;
          sz = len1 + (if len2 \<noteq> 0 then 2 + len2 else 0)
      in Some (host_bytes True 4 sz @ [status_code] @ msg @
               (if len2 \<noteq> 0 then bytes_of '': '' @ msg2 else [])))"

definition Status_NotFound :: "slice \<Rightarrow> slice \<Rightarrow> status" where
  "Status_NotFound msg msg2 = MakeStatus kNotFound msg msg2"

definition Status_Corruption :: "slice \<Rightarrow> slice \<Rightarrow> status" where
  "Status_Corruption msg msg2 = MakeStatus kCorruption msg msg2"

definition Status_NotSupported :: "slice \<Rightarrow> slice \<Rightarrow> status" where
  "Status_NotSupported msg msg2 = MakeStatus kNotSupported msg msg2"

definition Status_InvalidArgument :: "slice \<Rightarrow> slice \<Rightarrow> status" where
  "Status_InvalidArgument msg msg2 = MakeStatus kInvalidArgument msg msg2"

definition Status_IOError :: "slice \<Rightarrow> slice \<Rightarrow> status" where
  "Status_IOError msg msg2 = MakeStatus kIOError msg msg2"

definition status_code :: "status \<Rightarrow> u8" where
  "status_code s = (case s of None \<Rightarrow> kOk | Some state \<Rightarrow> state ! 4)"

definition IsNotFound :: "status \<Rightarrow> bool" where
  "IsNotFound s \<longleftrightarrow> status_code s = kNotFound"

definition IsCorruption :: "status \<Rightarrow> bool" where
  "IsCorruption s \<longleftrightarrow> status_code s = kCorruption"

definition IsIOError :: "status \<Rightarrow> bool" where
  "IsIOError s \<longleftrightarrow> status_code s = kIOError"

definition IsNotSupportedError :: "status \<Rightarrow> bool" where
  "IsNotSupportedError s \<longleftrightarrow> status_code s = kNotSupported"

definition IsInvalidArgument :: "status \<Rightarrow> bool" where
  "IsInvalidArgument s \<longleftrightarrow> status_code s = kInvalidArgument"

section \<open>Printing\<close>

definition status_message :: "byte list \<Rightarrow> byte list" where
  "status_message state = take (unat (host_word True (take 4 state) :: u32)) (drop 5 state)"

definition Status_ToString :: "status \<Rightarrow> byte list" where
  "Status_ToString s =
     (case s of
        None \<Rightarrow> bytes_of ''OK''
      | Some state \<Rightarrow>
          (let c = status_code s in
           (if c = kOk then bytes_of ''OK''
            else if c = kNotFound then bytes_of ''NotFound: ''
            else if c = kCorruption then bytes_of ''Corruption: ''
            else if c = kNotSupported then bytes_of ''Not implemented: ''
            else if c = kInvalidArgument then bytes_of ''Invalid argument: ''
            else if c = kIOError then bytes_of ''IO error: ''
            else bytes_of ''Unknown code('' @ (if sint c < 0 then bytes_of ''-'' else []) @
                   decimal (nat (abs (sint c))) @ bytes_of ''): '')
           @ status_message state))"

section \<open>What the constructors promise\<close>

lemma MakeStatus_some [simp]: "MakeStatus c msg msg2 \<noteq> Status_OK"
  by (simp add: MakeStatus_def Let_def)

lemma status_code_Make [simp]: "status_code (MakeStatus c msg msg2) = c"
  by (simp add: status_code_def MakeStatus_def Let_def host_bytes_def nth_append)

lemma status_code_OK [simp]: "status_code Status_OK = kOk"
  by (simp add: status_code_def)

lemmas status_defs = Status_NotFound_def Status_Corruption_def Status_NotSupported_def
  Status_InvalidArgument_def Status_IOError_def

lemmas status_tests = IsNotFound_def IsCorruption_def IsIOError_def IsNotSupportedError_def IsInvalidArgument_def

lemma status_message_Make:
  assumes "length msg + length msg2 + 2 < 2 ^ 32" "MakeStatus c msg msg2 = Some state"
  shows "status_message state = msg @ (if msg2 = [] then [] else bytes_of '': '' @ msg2)"
proof -
  define body where "body = msg @ (if msg2 = [] then [] else bytes_of '': '' @ msg2)"
  have "unat (of_nat (length msg2) :: u32) = length msg2"
    using assms(1) by (intro unat_of_nat_small) simp
  then have zero: "(of_nat (length msg2) :: u32) = 0 \<longleftrightarrow> msg2 = []"
    unfolding word_unat_eq_iff by simp
  define sz where "sz = (of_nat (length msg) + (if (of_nat (length msg2) :: u32) \<noteq> 0 then 2 + of_nat (length msg2) else 0) :: u32)"
  have two: "length (bytes_of '': '') = 2" by (simp add: bytes_of_def)
  have "sz = of_nat (length body)" unfolding sz_def body_def zero by (simp add: two)
  moreover have "length body < 2 ^ 32" using assms(1) unfolding body_def by (simp add: two)
  ultimately have sz: "unat sz = length body" by (simp only: unat_of_nat_small len_of_numeral_defs) (rule unat_of_nat_small, simp)
  have state: "state = to_le 4 (unat sz) @ [c] @ body"
    using assms(2) unfolding MakeStatus_def Let_def host_bytes_def if_True body_def sz_def zero
    by (auto simp del: to_le.simps split: if_splits)
  have "(host_word True (to_le 4 (unat sz)) :: u32) = sz"
    unfolding host_word_def if_True by (rule word_of_le_to_le) simp
  then show ?thesis
    unfolding status_message_def state by (simp add: sz body_def [symmetric] del: to_le.simps)
qed

end
