(* ===== verification/EnvPosix.thy ===== *)
theory EnvPosix
  imports DbStatus "HOL-Library.Sublist"
begin

text \<open>
  The files of \<open>util/env_posix.cc\<close> of leveldb: sequential and random access reading, the buffered
  writable file, and the \<open>Limiter\<close> that bounds how many resources are in use.

  The operating system is a parameter: a record of the system calls on a state \<open>'os\<close>, with \<open>Inl errno\<close>
  for a call that fails.  A loop that retries a call may not end, so these operations return an option.
\<close>

section \<open>The operating system\<close>

record 'os posix =
  sys_open :: "slice \<Rightarrow> 'os \<Rightarrow> (int + int) \<times> 'os"
  sys_close :: "int \<Rightarrow> 'os \<Rightarrow> (int + unit) \<times> 'os"
  sys_read :: "int \<Rightarrow> nat \<Rightarrow> 'os \<Rightarrow> (int + byte list) \<times> 'os"
  sys_pread :: "int \<Rightarrow> nat \<Rightarrow> u64 \<Rightarrow> 'os \<Rightarrow> (int + byte list) \<times> 'os"
  sys_write :: "int \<Rightarrow> byte list \<Rightarrow> 'os \<Rightarrow> (int + nat) \<times> 'os"
  sys_lseek :: "int \<Rightarrow> u64 \<Rightarrow> 'os \<Rightarrow> (int + unit) \<times> 'os"
  sys_fullfsync :: "int \<Rightarrow> 'os \<Rightarrow> (int + unit) \<times> 'os"
  sys_fsync :: "int \<Rightarrow> 'os \<Rightarrow> (int + unit) \<times> 'os"
  strerror :: "int \<Rightarrow> slice"

abbreviation (input) ENOENT :: int where "ENOENT \<equiv> 2"
abbreviation (input) EINTR :: int where "EINTR \<equiv> 4"
abbreviation (input) EINVAL :: int where "EINVAL \<equiv> 22"

definition kWritableFileBufferSize :: nat where
  "kWritableFileBufferSize = 65536"

definition PosixError :: "'os posix \<Rightarrow> slice \<Rightarrow> int \<Rightarrow> status" where
  "PosixError P cxt error_number =
     (if error_number = ENOENT then Status_NotFound cxt (strerror P error_number)
      else Status_IOError cxt (strerror P error_number))"

section \<open>The limiter\<close>

text \<open>
  \<open>Acquire\<close> and \<open>Release\<close> on the counter \<open>acquires_allowed_\<close>, when nothing runs in between.  The counter is an
  \<open>std::atomic<int>\<close>, here an unbounded integer: the two differ only with \<open>2 ^ 31\<close> threads or more between the two steps of
  \<open>Acquire\<close>.
\<close>

definition Limiter_Acquire :: "int \<Rightarrow> bool \<times> int" where
  "Limiter_Acquire acquires_allowed =
     (let old_acquires_allowed = acquires_allowed; acquires_allowed = acquires_allowed - 1
      in if old_acquires_allowed > 0 then (True, acquires_allowed) else (False, acquires_allowed + 1))"

definition Limiter_Release :: "int \<Rightarrow> int" where
  "Limiter_Release acquires_allowed = acquires_allowed + 1"

text \<open>
  The same with any interleaving: each thread stands before \<open>Acquire\<close>, between its two atomic
  operations, or holds the resource.
\<close>

datatype limiter_phase = Idle | Refused | Holding

record limiter_state =
  acquires_allowed :: int
  phases :: "limiter_phase list"

inductive limiter_step :: "limiter_state \<Rightarrow> limiter_state \<Rightarrow> bool" where
  fetch_sub: "i < length (phases s) \<Longrightarrow> phases s ! i = Idle \<Longrightarrow>
    limiter_step s (s\<lparr>acquires_allowed := acquires_allowed s - 1,
      phases := (phases s)[i := if acquires_allowed s > 0 then Holding else Refused]\<rparr>)"
| fetch_add: "i < length (phases s) \<Longrightarrow> phases s ! i = Refused \<Longrightarrow>
    limiter_step s (s\<lparr>acquires_allowed := acquires_allowed s + 1, phases := (phases s)[i := Idle]\<rparr>)"
| release: "i < length (phases s) \<Longrightarrow> phases s ! i = Holding \<Longrightarrow>
    limiter_step s (s\<lparr>acquires_allowed := acquires_allowed s + 1, phases := (phases s)[i := Idle]\<rparr>)"

definition Limiter :: "nat \<Rightarrow> nat \<Rightarrow> limiter_state" where
  "Limiter max_acquires threads = \<lparr>acquires_allowed = int max_acquires, phases = replicate threads Idle\<rparr>"

section \<open>Reading\<close>

record seq_file =
  sf_fd :: int
  sf_filename :: slice

text \<open>The result is the status and \<open>*result\<close>, which stays as it is when reading fails.\<close>

partial_function (option) PosixSequentialFile_Read ::
  "'os posix \<Rightarrow> seq_file \<Rightarrow> nat \<Rightarrow> slice \<Rightarrow> 'os \<Rightarrow> (status \<times> slice \<times> 'os) option" where
  "PosixSequentialFile_Read P f n result os =
     (case sys_read P (sf_fd f) n os of
        (Inl e, os) \<Rightarrow>
          if e = EINTR then PosixSequentialFile_Read P f n result os
          else Some (PosixError P (sf_filename f) e, result, os)
      | (Inr bytes, os) \<Rightarrow> Some (Status_OK, bytes, os))"

definition PosixSequentialFile_Skip :: "'os posix \<Rightarrow> seq_file \<Rightarrow> u64 \<Rightarrow> 'os \<Rightarrow> status \<times> 'os" where
  "PosixSequentialFile_Skip P f n os =
     (case sys_lseek P (sf_fd f) n os of
        (Inl e, os) \<Rightarrow> (PosixError P (sf_filename f) e, os)
      | (Inr _, os) \<Rightarrow> (Status_OK, os))"

text \<open>\<open>has_permanent_fd_\<close> is whether there is a \<open>raf_fd\<close>; \<open>fd_limiter_\<close> is passed and returned.\<close>

record random_file =
  raf_fd :: "int option"
  raf_filename :: slice

definition PosixRandomAccessFile ::
  "'os posix \<Rightarrow> slice \<Rightarrow> int \<Rightarrow> int \<Rightarrow> 'os \<Rightarrow> random_file \<times> int \<times> 'os" where
  "PosixRandomAccessFile P filename fd fd_limiter os =
     (case Limiter_Acquire fd_limiter of
        (True, fd_limiter) \<Rightarrow> (\<lparr>raf_fd = Some fd, raf_filename = filename\<rparr>, fd_limiter, os)
      | (False, fd_limiter) \<Rightarrow>
          (\<lparr>raf_fd = None, raf_filename = filename\<rparr>, fd_limiter, snd (sys_close P fd os)))"

definition PosixRandomAccessFile_destroy ::
  "'os posix \<Rightarrow> random_file \<Rightarrow> int \<Rightarrow> 'os \<Rightarrow> int \<times> 'os" where
  "PosixRandomAccessFile_destroy P f fd_limiter os =
     (case raf_fd f of
        Some fd \<Rightarrow> (let os = snd (sys_close P fd os) in (Limiter_Release fd_limiter, os))
      | None \<Rightarrow> (fd_limiter, os))"

definition PosixRandomAccessFile_Read ::
  "'os posix \<Rightarrow> random_file \<Rightarrow> u64 \<Rightarrow> nat \<Rightarrow> slice \<Rightarrow> 'os \<Rightarrow> status \<times> slice \<times> 'os" where
  "PosixRandomAccessFile_Read P f offs n result os =
     (case (case raf_fd f of Some fd \<Rightarrow> (Inr fd, os) | None \<Rightarrow> sys_open P (raf_filename f) os) of
        (Inl e, os) \<Rightarrow> (PosixError P (raf_filename f) e, result, os)
      | (Inr fd, os) \<Rightarrow>
          (case sys_pread P fd n offs os of (r, os) \<Rightarrow>
             (let (st, bytes) = (case r of Inl e \<Rightarrow> (PosixError P (raf_filename f) e, []) | Inr bytes \<Rightarrow> (Status_OK, bytes));
                  os = (if raf_fd f = None then snd (sys_close P fd os) else os)
              in (st, bytes, os))))"

text \<open>The mapped region is a list; \<open>offset + n\<close> is computed in 64 bits.\<close>

definition PosixMmapReadableFile_Read ::
  "'os posix \<Rightarrow> slice \<Rightarrow> byte list \<Rightarrow> u64 \<Rightarrow> u64 \<Rightarrow> status \<times> slice" where
  "PosixMmapReadableFile_Read P filename mmap offs n =
     (if offs + n > of_nat (length mmap) then (PosixError P filename EINVAL, [])
      else (Status_OK, take (unat n) (drop (unat offs) mmap)))"

section \<open>Writing\<close>

text \<open>\<open>wf_buf\<close> is \<open>buf_\<close> up to \<open>pos_\<close>.\<close>

record writable_file =
  wf_buf :: "byte list"
  wf_fd :: int
  is_manifest :: bool
  wf_filename :: slice
  wf_dirname :: slice

definition Dirname :: "slice \<Rightarrow> slice" where
  "Dirname filename =
     (case find (\<lambda>i. filename ! i = 0x2F) (rev [0..<length filename]) of
        None \<Rightarrow> bytes_of ''.''
      | Some separator_pos \<Rightarrow> take separator_pos filename)"

definition Basename :: "slice \<Rightarrow> slice" where
  "Basename filename =
     (case find (\<lambda>i. filename ! i = 0x2F) (rev [0..<length filename]) of
        None \<Rightarrow> filename
      | Some separator_pos \<Rightarrow> drop (separator_pos + 1) filename)"

definition IsManifest :: "slice \<Rightarrow> bool" where
  "IsManifest filename \<longleftrightarrow> starts_with_slice (Basename filename) (bytes_of ''MANIFEST'')"

definition PosixWritableFile :: "slice \<Rightarrow> int \<Rightarrow> writable_file" where
  "PosixWritableFile filename fd =
     \<lparr>wf_buf = [], wf_fd = fd, is_manifest = IsManifest filename, wf_filename = filename,
      wf_dirname = Dirname filename\<rparr>"

partial_function (option) WriteUnbuffered ::
  "'os posix \<Rightarrow> writable_file \<Rightarrow> byte list \<Rightarrow> 'os \<Rightarrow> (status \<times> 'os) option" where
  "WriteUnbuffered P f data os =
     (if length data > 0 then
        case sys_write P (wf_fd f) data os of
          (Inl e, os) \<Rightarrow>
            if e = EINTR then WriteUnbuffered P f data os else Some (PosixError P (wf_filename f) e, os)
        | (Inr write_result, os) \<Rightarrow> WriteUnbuffered P f (drop write_result data) os
      else Some (Status_OK, os))"

definition FlushBuffer ::
  "'os posix \<Rightarrow> writable_file \<times> 'os \<Rightarrow> (status \<times> writable_file \<times> 'os) option" where
  "FlushBuffer P = (\<lambda>(f, os).
     map_option (\<lambda>(st, os). (st, f\<lparr>wf_buf := []\<rparr>, os)) (WriteUnbuffered P f (wf_buf f) os))"

definition PosixWritableFile_Append ::
  "'os posix \<Rightarrow> writable_file \<times> 'os \<Rightarrow> slice \<Rightarrow> (status \<times> writable_file \<times> 'os) option" where
  "PosixWritableFile_Append P = (\<lambda>(f, os) data.
     let copy_size = min (length data) (kWritableFileBufferSize - length (wf_buf f));
         f = f\<lparr>wf_buf := wf_buf f @ take copy_size data\<rparr>;
         write_data = drop copy_size data
     in if length write_data = 0 then Some (Status_OK, f, os)
        else case FlushBuffer P (f, os) of
            None \<Rightarrow> None
          | Some (st, f, os) \<Rightarrow>
              if st \<noteq> Status_OK then Some (st, f, os)
              else if length write_data < kWritableFileBufferSize
              then Some (Status_OK, f\<lparr>wf_buf := write_data\<rparr>, os)
              else map_option (\<lambda>(st, os). (st, f, os)) (WriteUnbuffered P f write_data os))"

definition PosixWritableFile_Flush ::
  "'os posix \<Rightarrow> writable_file \<times> 'os \<Rightarrow> (status \<times> writable_file \<times> 'os) option" where
  "PosixWritableFile_Flush P = FlushBuffer P"

definition PosixWritableFile_Close ::
  "'os posix \<Rightarrow> writable_file \<times> 'os \<Rightarrow> (status \<times> writable_file \<times> 'os) option" where
  "PosixWritableFile_Close P f =
     map_option (\<lambda>(st, f, os).
         case sys_close P (wf_fd f) os of (r, os) \<Rightarrow>
           (case r of Inl e \<Rightarrow> if st = Status_OK then PosixError P (wf_filename f) e else st | Inr _ \<Rightarrow> st,
            f\<lparr>wf_fd := -1\<rparr>, os))
       (FlushBuffer P f)"

definition PosixWritableFile_destroy ::
  "'os posix \<Rightarrow> writable_file \<times> 'os \<Rightarrow> 'os option" where
  "PosixWritableFile_destroy P f =
     (if wf_fd (fst f) \<ge> 0 then map_option (\<lambda>(st, f, os). os) (PosixWritableFile_Close P f) else Some (snd f))"

definition SyncFd :: "'os posix \<Rightarrow> int \<Rightarrow> slice \<Rightarrow> 'os \<Rightarrow> status \<times> 'os" where
  "SyncFd P fd fd_path os =
     (case sys_fullfsync P fd os of
        (Inr _, os) \<Rightarrow> (Status_OK, os)
      | (Inl _, os) \<Rightarrow>
          (case sys_fsync P fd os of
             (Inr _, os) \<Rightarrow> (Status_OK, os)
           | (Inl e, os) \<Rightarrow> (PosixError P fd_path e, os)))"

definition SyncDirIfManifest :: "'os posix \<Rightarrow> writable_file \<Rightarrow> 'os \<Rightarrow> status \<times> 'os" where
  "SyncDirIfManifest P f os =
     (if \<not> is_manifest f then (Status_OK, os)
      else case sys_open P (wf_dirname f) os of
          (Inl e, os) \<Rightarrow> (PosixError P (wf_dirname f) e, os)
        | (Inr fd, os) \<Rightarrow>
            (case SyncFd P fd (wf_dirname f) os of (st, os) \<Rightarrow> (st, snd (sys_close P fd os))))"

definition PosixWritableFile_Sync ::
  "'os posix \<Rightarrow> writable_file \<times> 'os \<Rightarrow> (status \<times> writable_file \<times> 'os) option" where
  "PosixWritableFile_Sync P = (\<lambda>(f, os).
     case SyncDirIfManifest P f os of (st, os) \<Rightarrow>
       if st \<noteq> Status_OK then Some (st, f, os)
       else case FlushBuffer P (f, os) of
           None \<Rightarrow> None
         | Some (st, f, os) \<Rightarrow>
             if st \<noteq> Status_OK then Some (st, f, os)
             else case SyncFd P (wf_fd f) (wf_filename f) os of (st, os) \<Rightarrow> Some (st, f, os))"

section \<open>The limiter under any interleaving\<close>

definition holding :: "limiter_state \<Rightarrow> nat" where
  "holding s = length (filter (\<lambda>p. p = Holding) (phases s))"

text \<open>Every thread that is not idle has taken one from the counter.\<close>

definition limiter_inv :: "nat \<Rightarrow> limiter_state \<Rightarrow> bool" where
  "limiter_inv max_acquires s \<longleftrightarrow>
     acquires_allowed s + int (length (filter (\<lambda>p. p \<noteq> Idle) (phases s))) = int max_acquires \<and>
     holding s \<le> max_acquires"

lemma length_filter_update:
  "i < length xs \<Longrightarrow> length (filter P (xs[i := y])) + (if P (xs ! i) then 1 else 0) =
    length (filter P xs) + (if P y then 1 else 0)"
proof (induction xs arbitrary: i)
  case (Cons x xs)
  then show ?case by (cases i) (auto split: if_splits)
qed simp

lemma length_filter_le_filter: "(\<And>x. P x \<Longrightarrow> Q x) \<Longrightarrow> length (filter P xs) \<le> length (filter Q xs)"
  by (induction xs) auto

inductive_cases limiter_stepE: "limiter_step s t"

lemma limiter_inv_step:
  assumes "limiter_step s t" "limiter_inv m s"
  shows "limiter_inv m t"
  using assms
proof (cases rule: limiter_step.cases)
  case (fetch_sub i)
  note upd = length_filter_update [OF fetch_sub(2)]
  have "length (filter (\<lambda>p. p = Holding) (phases s)) \<le> length (filter (\<lambda>p. p \<noteq> Idle) (phases s))"
    by (rule length_filter_le_filter) simp
  with fetch_sub assms(2) show ?thesis
    using upd [of "\<lambda>p. p \<noteq> Idle" "if acquires_allowed s > 0 then Holding else Refused"]
      upd [of "\<lambda>p. p = Holding" "if acquires_allowed s > 0 then Holding else Refused"]
    by (auto simp: limiter_inv_def holding_def split: if_splits)
next
  case (fetch_add i)
  note upd = length_filter_update [OF fetch_add(2)]
  from fetch_add assms(2) show ?thesis
    using upd [of "\<lambda>p. p \<noteq> Idle" Idle] upd [of "\<lambda>p. p = Holding" Idle]
    by (auto simp: limiter_inv_def holding_def)
next
  case (release i)
  note upd = length_filter_update [OF release(2)]
  from release assms(2) show ?thesis
    using upd [of "\<lambda>p. p \<noteq> Idle" Idle] upd [of "\<lambda>p. p = Holding" Idle]
    by (auto simp: limiter_inv_def holding_def)
qed

lemma limiter_reachable:
  "limiter_step\<^sup>*\<^sup>* (Limiter m n) s \<Longrightarrow> limiter_inv m s"
proof (induction rule: rtranclp_induct)
  case base
  show ?case by (simp add: limiter_inv_def holding_def Limiter_def)
next
  case (step s t)
  then show ?case using limiter_inv_step by blast
qed

text \<open>Without interference, a call is the steps of the relation.\<close>

lemma Limiter_Acquire_steps:
  assumes "i < length (phases s)" "phases s ! i = Idle" "Limiter_Acquire (acquires_allowed s) = (ok, c)"
  shows "limiter_step\<^sup>*\<^sup>* s (s\<lparr>acquires_allowed := c, phases := (phases s)[i := if ok then Holding else Idle]\<rparr>)"
proof (cases "acquires_allowed s > 0")
  case True
  with assms have "ok" "c = acquires_allowed s - 1" by (auto simp: Limiter_Acquire_def)
  with limiter_step.fetch_sub [OF assms(1,2)] True show ?thesis by auto
next
  case False
  with assms(3) have ok: "\<not> ok" "c = acquires_allowed s" by (auto simp: Limiter_Acquire_def)
  define t where "t = s\<lparr>acquires_allowed := acquires_allowed s - 1, phases := (phases s)[i := Refused]\<rparr>"
  have "limiter_step s t" using limiter_step.fetch_sub [OF assms(1,2)] False by (simp add: t_def)
  moreover have "limiter_step t (t\<lparr>acquires_allowed := acquires_allowed t + 1, phases := (phases t)[i := Idle]\<rparr>)"
    using assms(1) by (intro limiter_step.fetch_add) (simp_all add: t_def)
  ultimately show ?thesis using ok by (simp add: t_def)
qed

section \<open>The contract of a writable file\<close>

text \<open>
  \<open>accepted\<close> is everything the file holds, in its buffer or beyond it; \<open>written\<close> is what the system has.
  A call that fails may lose the end of what was accepted, never reorder it; a few bytes always fit in
  the buffer of a file that has just been flushed.
\<close>

locale writable =
  fixes Append :: "'f \<Rightarrow> slice \<Rightarrow> (status \<times> 'f) option"
    and Flush :: "'f \<Rightarrow> (status \<times> 'f) option"
    and accepted :: "'f \<Rightarrow> byte list"
    and written :: "'f \<Rightarrow> byte list"
    and usable :: "'f \<Rightarrow> bool"
  assumes written_accepted: "prefix (written f) (accepted f)"
    and Append: "usable f \<Longrightarrow> \<exists>st f'. Append f s = Some (st, f') \<and> usable f' \<and> prefix (written f) (written f') \<and>
      prefix (accepted f') (accepted f @ s) \<and> (st = Status_OK \<longrightarrow> accepted f' = accepted f @ s)"
    and Flush: "usable f \<Longrightarrow> \<exists>st f'. Flush f = Some (st, f') \<and> usable f' \<and> prefix (written f) (written f') \<and>
      prefix (accepted f') (accepted f) \<and> (st = Status_OK \<longrightarrow> written f' = accepted f)"
    and Append_short: "usable f \<Longrightarrow> written f = accepted f \<Longrightarrow> length s \<le> 16 \<Longrightarrow> \<exists>f'. Append f s = Some (Status_OK, f')"
begin

lemma AppendE:
  assumes "usable f"
  obtains st f' where "Append f s = Some (st, f')" "usable f'" "prefix (written f) (written f')"
    "prefix (accepted f') (accepted f @ s)" "st = Status_OK \<Longrightarrow> accepted f' = accepted f @ s"
  using Append [OF assms, of s] by blast

lemma FlushE:
  assumes "usable f"
  obtains st f' where "Flush f = Some (st, f')" "usable f'" "prefix (written f) (written f')"
    "prefix (accepted f') (accepted f)" "st = Status_OK \<Longrightarrow> written f' = accepted f \<and> accepted f' = accepted f"
  using Flush [OF assms] written_accepted by (metis prefix_order.antisym)

end

section \<open>The posix file keeps it\<close>

text \<open>
  What is relied on of \<open>write(2)\<close>: it appends to the file a non-empty prefix of the data, or fails and leaves
  the file alone; \<open>interrupts\<close> bounds how often in a row it is interrupted.
\<close>

definition write_ok :: "'os posix \<Rightarrow> (int \<Rightarrow> 'os \<Rightarrow> byte list) \<Rightarrow> ('os \<Rightarrow> nat) \<Rightarrow> bool" where
  "write_ok P file_bytes interrupts \<longleftrightarrow>
     (\<forall>fd data os. data \<noteq> [] \<longrightarrow>
        (case sys_write P fd data os of
           (Inl e, os') \<Rightarrow> file_bytes fd os' = file_bytes fd os \<and> (e = EINTR \<longrightarrow> interrupts os' < interrupts os)
         | (Inr n, os') \<Rightarrow> 0 < n \<and> n \<le> length data \<and> file_bytes fd os' = file_bytes fd os @ take n data))"

lemma write_okE:
  assumes "write_ok P file_bytes interrupts" "data \<noteq> []"
  obtains e os' where "sys_write P fd data os = (Inl e, os')" "file_bytes fd os' = file_bytes fd os"
      "e = EINTR \<Longrightarrow> interrupts os' < interrupts os"
    | n os' where "sys_write P fd data os = (Inr n, os')" "0 < n" "n \<le> length data"
      "file_bytes fd os' = file_bytes fd os @ take n data"
proof (cases "sys_write P fd data os")
  case (Pair r os')
  from assms have "case sys_write P fd data os of
      (Inl e, os') \<Rightarrow> file_bytes fd os' = file_bytes fd os \<and> (e = EINTR \<longrightarrow> interrupts os' < interrupts os)
    | (Inr n, os') \<Rightarrow> 0 < n \<and> n \<le> length data \<and> file_bytes fd os' = file_bytes fd os @ take n data"
    by (simp add: write_ok_def)
  with Pair that show ?thesis by (cases r) simp_all
qed

lemma PosixError_not_OK [simp]: "PosixError P c e \<noteq> Status_OK"
  by (simp add: PosixError_def status_defs del: not_None_eq)

lemma WriteUnbuffered_spec:
  assumes "write_ok P file_bytes interrupts"
  shows "\<exists>st os' n. WriteUnbuffered P f data os = Some (st, os') \<and> n \<le> length data \<and>
    file_bytes (wf_fd f) os' = file_bytes (wf_fd f) os @ take n data \<and> (st = Status_OK \<longrightarrow> n = length data)"
proof (induction data arbitrary: os rule: length_induct)
  case (1 data)
  note shorter = this
  show ?case
  proof (induction "interrupts os" arbitrary: os rule: less_induct)
    case less
    show ?case
    proof (cases "data = []")
      case True
      then show ?thesis by (subst WriteUnbuffered.simps) auto
    next
      case False
      from assms False show ?thesis
      proof (cases rule: write_okE [of P file_bytes interrupts data "wf_fd f" os])
        case (1 e os')
        show ?thesis
        proof (cases "e = EINTR")
          case True
          from less [OF 1(3) [OF True]] 1 True False show ?thesis by (subst WriteUnbuffered.simps) simp
        next
          case neq: False
          with 1 False have "WriteUnbuffered P f data os = Some (PosixError P (wf_filename f) e, os')"
            by (subst WriteUnbuffered.simps) simp
          with 1 show ?thesis
            by (intro exI [of _ "PosixError P (wf_filename f) e"] exI [of _ os'] exI [of _ "0 :: nat"])
              (simp del: not_None_eq)
        qed
      next
        case (2 n os')
        then have "length (drop n data) < length data" using False by simp
        with shorter obtain st os'' k where rest: "WriteUnbuffered P f (drop n data) os' = Some (st, os'')"
          "k \<le> length (drop n data)" "file_bytes (wf_fd f) os'' = file_bytes (wf_fd f) os' @ take k (drop n data)"
          "st = Status_OK \<longrightarrow> k = length (drop n data)" by blast
        have "WriteUnbuffered P f data os = Some (st, os'')"
          using 2 rest(1) False by (subst WriteUnbuffered.simps) simp
        moreover have "file_bytes (wf_fd f) os'' = file_bytes (wf_fd f) os @ take (n + k) data"
          using 2 rest(3) by (simp add: take_add)
        ultimately show ?thesis using rest(2,4) 2(3) by (intro exI [of _ st] exI [of _ os''] exI [of _ "n + k"]) simp
      qed
    qed
  qed
qed

definition file_accepted :: "(int \<Rightarrow> 'os \<Rightarrow> byte list) \<Rightarrow> writable_file \<times> 'os \<Rightarrow> byte list" where
  "file_accepted file_bytes = (\<lambda>(f, os). file_bytes (wf_fd f) os @ wf_buf f)"

definition file_written :: "(int \<Rightarrow> 'os \<Rightarrow> byte list) \<Rightarrow> writable_file \<times> 'os \<Rightarrow> byte list" where
  "file_written file_bytes = (\<lambda>(f, os). file_bytes (wf_fd f) os)"

lemma FlushBuffer_spec:
  assumes "write_ok P file_bytes interrupts"
  shows "\<exists>st os'. FlushBuffer P (f, os) = Some (st, f\<lparr>wf_buf := []\<rparr>, os') \<and>
    prefix (file_bytes (wf_fd f) os) (file_bytes (wf_fd f) os') \<and>
    prefix (file_bytes (wf_fd f) os') (file_bytes (wf_fd f) os @ wf_buf f) \<and>
    (st = Status_OK \<longrightarrow> file_bytes (wf_fd f) os' = file_bytes (wf_fd f) os @ wf_buf f)"
  using WriteUnbuffered_spec [OF assms, of f "wf_buf f" os]
  by (auto simp: FlushBuffer_def take_is_prefix)

lemma Append_spec:
  assumes "write_ok P file_bytes interrupts"
  shows "\<exists>st f' os'. PosixWritableFile_Append P (f, os) s = Some (st, f', os') \<and> wf_fd f' = wf_fd f \<and>
    prefix (file_bytes (wf_fd f) os) (file_bytes (wf_fd f) os') \<and>
    prefix (file_bytes (wf_fd f) os' @ wf_buf f') (file_bytes (wf_fd f) os @ wf_buf f @ s) \<and>
    (st = Status_OK \<longrightarrow> file_bytes (wf_fd f) os' @ wf_buf f' = file_bytes (wf_fd f) os @ wf_buf f @ s)"
proof -
  define k where "k = min (length s) (kWritableFileBufferSize - length (wf_buf f))"
  define g where "g = f\<lparr>wf_buf := wf_buf f @ take k s\<rparr>"
  define h where "h = f\<lparr>wf_buf := []\<rparr>"
  have g: "wf_fd g = wf_fd f" "wf_buf g = wf_buf f @ take k s" "g\<lparr>wf_buf := []\<rparr> = h" by (simp_all add: g_def h_def)
  have h: "wf_fd h = wf_fd f" "wf_buf h = []" by (simp_all add: h_def)
  note def = PosixWritableFile_Append_def [of P, unfolded Let_def]
  show ?thesis
  proof (cases "drop k s = []")
    case True
    then have "take k s = s" by (metis append_take_drop_id append_Nil2)
    moreover have "PosixWritableFile_Append P (f, os) s = Some (Status_OK, g, os)"
      unfolding def prod.case k_def [symmetric] g_def [symmetric] using True by simp
    ultimately show ?thesis by (simp add: g_def)
  next
    case False
    from FlushBuffer_spec [OF assms, of g os] obtain st os' where flush: "FlushBuffer P (g, os) = Some (st, h, os')"
      "prefix (file_bytes (wf_fd f) os) (file_bytes (wf_fd f) os')"
      "prefix (file_bytes (wf_fd f) os') (file_bytes (wf_fd f) os @ wf_buf f @ take k s)"
      "st = Status_OK \<Longrightarrow> file_bytes (wf_fd f) os' = file_bytes (wf_fd f) os @ wf_buf f @ take k s"
      unfolding g by auto
    have res: "PosixWritableFile_Append P (f, os) s =
        (if st \<noteq> Status_OK then Some (st, h, os')
         else if length (drop k s) < kWritableFileBufferSize then Some (Status_OK, h\<lparr>wf_buf := drop k s\<rparr>, os')
         else map_option (\<lambda>(st, os). (st, h, os)) (WriteUnbuffered P h (drop k s) os'))"
      using False flush(1) unfolding def prod.case k_def [symmetric] g_def [symmetric] by simp
    have whole: "prefix (file_bytes (wf_fd f) os') (file_bytes (wf_fd f) os @ wf_buf f @ s)"
      using flush(3) prefix_prefix [of "file_bytes (wf_fd f) os'" "file_bytes (wf_fd f) os @ wf_buf f @ take k s" "drop k s"] by simp
    show ?thesis
    proof (cases "st = Status_OK")
      case False
      then show ?thesis using flush(2) whole h by (auto simp: res)
    next
      case ok: True
      note bytes = flush(4) [OF ok]
      show ?thesis
      proof (cases "length (drop k s) < kWritableFileBufferSize")
        case True
        then show ?thesis using flush(2) ok h bytes by (simp add: res)
      next
        case big: False
        from WriteUnbuffered_spec [OF assms, of h "drop k s" os'] obtain st2 os2 n where
          w: "WriteUnbuffered P h (drop k s) os' = Some (st2, os2)" "n \<le> length (drop k s)"
          "file_bytes (wf_fd f) os2 = file_bytes (wf_fd f) os' @ take n (drop k s)"
          "st2 = Status_OK \<Longrightarrow> n = length (drop k s)" unfolding h by blast
        have "prefix (take k s @ take n (drop k s)) s"
          by (metis append_take_drop_id prefix_def append_assoc)
        then show ?thesis
          using w ok big bytes h by (auto simp: res)
      qed
    qed
  qed
qed

interpretation posix_file: writable "PosixWritableFile_Append P" "PosixWritableFile_Flush P"
    "file_accepted file_bytes" "file_written file_bytes" "\<lambda>_. write_ok P file_bytes interrupts"
  for P :: "'os posix" and file_bytes interrupts
proof
  show "prefix (file_written file_bytes f) (file_accepted file_bytes f)" for f
    by (cases f) (simp add: file_written_def file_accepted_def)
next
  fix f :: "writable_file \<times> 'os" and s
  assume ok: "write_ok P file_bytes interrupts"
  obtain g os where f: "f = (g, os)" by (cases f)
  from Append_spec [OF ok, of g os s] ok
  show "\<exists>st f'. PosixWritableFile_Append P f s = Some (st, f') \<and> write_ok P file_bytes interrupts \<and>
      prefix (file_written file_bytes f) (file_written file_bytes f') \<and>
      prefix (file_accepted file_bytes f') (file_accepted file_bytes f @ s) \<and>
      (st = Status_OK \<longrightarrow> file_accepted file_bytes f' = file_accepted file_bytes f @ s)"
    by (auto simp: f file_written_def file_accepted_def)
next
  fix f :: "writable_file \<times> 'os"
  assume ok: "write_ok P file_bytes interrupts"
  obtain g os where f: "f = (g, os)" by (cases f)
  from FlushBuffer_spec [OF ok, of g os] ok
  show "\<exists>st f'. PosixWritableFile_Flush P f = Some (st, f') \<and> write_ok P file_bytes interrupts \<and>
      prefix (file_written file_bytes f) (file_written file_bytes f') \<and>
      prefix (file_accepted file_bytes f') (file_accepted file_bytes f) \<and>
      (st = Status_OK \<longrightarrow> file_written file_bytes f' = file_accepted file_bytes f)"
    by (auto simp: f file_written_def file_accepted_def PosixWritableFile_Flush_def)
next
  fix f :: "writable_file \<times> 'os" and s :: slice
  assume "file_written file_bytes f = file_accepted file_bytes f" "length s \<le> 16"
  then show "\<exists>f'. PosixWritableFile_Append P f s = Some (Status_OK, f')"
    by (cases f) (auto simp: file_written_def file_accepted_def PosixWritableFile_Append_def Let_def
        kWritableFileBufferSize_def)
qed

section \<open>The contract of a sequential file\<close>

locale sequential =
  fixes Read :: "'f \<Rightarrow> nat \<Rightarrow> slice \<Rightarrow> (status \<times> slice \<times> 'f) option"
    and Skip :: "'f \<Rightarrow> u64 \<Rightarrow> status \<times> 'f"
    and remaining :: "'f \<Rightarrow> byte list"
    and readable :: "'f \<Rightarrow> bool"
  assumes Read: "readable f \<Longrightarrow> \<exists>f'. Read f n result = Some (Status_OK, take n (remaining f), f') \<and>
      remaining f' = drop n (remaining f) \<and> readable f'"
    and Skip: "readable f \<Longrightarrow> \<exists>f'. Skip f k = (Status_OK, f') \<and> remaining f' = drop (unat k) (remaining f) \<and> readable f'"

text \<open>
  What is relied on of \<open>read(2)\<close> and \<open>lseek(2)\<close> on a regular file that is not changed meanwhile: reading gives
  as many bytes as there are, up to the number asked for, and only fails when it is interrupted.
\<close>

definition read_ok :: "'os posix \<Rightarrow> (int \<Rightarrow> 'os \<Rightarrow> byte list) \<Rightarrow> ('os \<Rightarrow> nat) \<Rightarrow> bool" where
  "read_ok P rest interrupts \<longleftrightarrow>
     (\<forall>fd n os. case sys_read P fd n os of
        (Inl e, os') \<Rightarrow> e = EINTR \<and> rest fd os' = rest fd os \<and> interrupts os' < interrupts os
      | (Inr bs, os') \<Rightarrow> bs = take n (rest fd os) \<and> rest fd os' = drop n (rest fd os)) \<and>
     (\<forall>fd k os. case sys_lseek P fd k os of
        (Inl e, os') \<Rightarrow> False
      | (Inr _, os') \<Rightarrow> rest fd os' = drop (unat k) (rest fd os))"

lemma PosixSequentialFile_Read_spec:
  assumes "read_ok P rest interrupts"
  shows "\<exists>os'. PosixSequentialFile_Read P f n result os = Some (Status_OK, take n (rest (sf_fd f) os), os') \<and>
    rest (sf_fd f) os' = drop n (rest (sf_fd f) os)"
proof (induction "interrupts os" arbitrary: os rule: less_induct)
  case less
  have step: "case sys_read P (sf_fd f) n os of
        (Inl e, os') \<Rightarrow> e = EINTR \<and> rest (sf_fd f) os' = rest (sf_fd f) os \<and> interrupts os' < interrupts os
      | (Inr bs, os') \<Rightarrow> bs = take n (rest (sf_fd f) os) \<and> rest (sf_fd f) os' = drop n (rest (sf_fd f) os)"
    using assms [unfolded read_ok_def, THEN conjunct1, THEN spec [of _ "sf_fd f"], THEN spec [of _ n], THEN spec [of _ os]] .
  obtain r os' where call: "sys_read P (sf_fd f) n os = (r, os')" by (cases "sys_read P (sf_fd f) n os")
  show ?case
  proof (cases r)
    case (Inl e)
    with step call have "e = EINTR" "rest (sf_fd f) os' = rest (sf_fd f) os" "interrupts os' < interrupts os" by simp_all
    with less [of os'] Inl call show ?thesis by (subst PosixSequentialFile_Read.simps) simp
  next
    case (Inr bs)
    with step call show ?thesis by (subst PosixSequentialFile_Read.simps) simp
  qed
qed

definition posix_Read ::
  "'os posix \<Rightarrow> seq_file \<times> 'os \<Rightarrow> nat \<Rightarrow> slice \<Rightarrow> (status \<times> slice \<times> seq_file \<times> 'os) option" where
  "posix_Read P = (\<lambda>(f, os) n result.
     map_option (\<lambda>(st, bytes, os). (st, bytes, f, os)) (PosixSequentialFile_Read P f n result os))"

definition posix_Skip :: "'os posix \<Rightarrow> seq_file \<times> 'os \<Rightarrow> u64 \<Rightarrow> status \<times> seq_file \<times> 'os" where
  "posix_Skip P = (\<lambda>(f, os) k. case PosixSequentialFile_Skip P f k os of (st, os) \<Rightarrow> (st, f, os))"

interpretation posix_seq: sequential "posix_Read P" "posix_Skip P" "\<lambda>(f, os). rest (sf_fd f) os"
    "\<lambda>_. read_ok P rest interrupts"
  for P :: "'os posix" and rest interrupts
proof
  fix f :: "seq_file \<times> 'os" and n result
  assume ok: "read_ok P rest interrupts"
  obtain g os where f: "f = (g, os)" by (cases f)
  from PosixSequentialFile_Read_spec [OF ok, of g n result os] ok
  show "\<exists>f'. posix_Read P f n result = Some (Status_OK, take n (case f of (f, os) \<Rightarrow> rest (sf_fd f) os), f') \<and>
      (case f' of (f, os) \<Rightarrow> rest (sf_fd f) os) = drop n (case f of (f, os) \<Rightarrow> rest (sf_fd f) os) \<and>
      read_ok P rest interrupts"
    by (auto simp: f posix_Read_def)
next
  fix f :: "seq_file \<times> 'os" and k
  assume ok: "read_ok P rest interrupts"
  obtain g os where f: "f = (g, os)" by (cases f)
  have "case sys_lseek P (sf_fd g) k os of (Inl e, os') \<Rightarrow> False
      | (Inr _, os') \<Rightarrow> rest (sf_fd g) os' = drop (unat k) (rest (sf_fd g) os)"
    using ok [unfolded read_ok_def, THEN conjunct2, THEN spec [of _ "sf_fd g"], THEN spec [of _ k], THEN spec [of _ os]] .
  then show "\<exists>f'. posix_Skip P f k = (Status_OK, f') \<and>
      (case f' of (f, os) \<Rightarrow> rest (sf_fd f) os) = drop (unat k) (case f of (f, os) \<Rightarrow> rest (sf_fd f) os) \<and>
      read_ok P rest interrupts"
    using ok by (auto simp: f posix_Skip_def PosixSequentialFile_Skip_def split: prod.splits sum.splits)
qed

end
