(* ===== verification/LogWriter.thy ===== *)
theory LogWriter
  imports EnvPosix Crc32c
begin

text \<open>
  \<open>db/log_format.h\<close> and \<open>db/log_writer.cc\<close> of leveldb: records are cut into fragments that do not cross the
  boundaries of 32 KB blocks.

  The destination is given by its \<open>Append\<close> and \<open>Flush\<close> operations on a state \<open>'f\<close>, which return \<open>None\<close> when
  they do not return.  The CRC of bytes does not depend on their address, which is 0 here.
\<close>

section \<open>The format\<close>

abbreviation (input) kZeroType :: u8 where "kZeroType \<equiv> 0"
abbreviation (input) kFullType :: u8 where "kFullType \<equiv> 1"
abbreviation (input) kFirstType :: u8 where "kFirstType \<equiv> 2"
abbreviation (input) kMiddleType :: u8 where "kMiddleType \<equiv> 3"
abbreviation (input) kLastType :: u8 where "kLastType \<equiv> 4"

definition kMaxRecordType :: nat where
  "kMaxRecordType = 4"

definition kBlockSize :: nat where
  "kBlockSize = 32768"

abbreviation (input) kHeaderSize :: nat where "kHeaderSize \<equiv> 7"

section \<open>The writer\<close>

record 'f log_writer =
  lw_dest :: 'f
  block_offset :: nat
  type_crc :: "u32 list"

definition InitTypeCrc :: "u32 list" where
  "InitTypeCrc = map (\<lambda>i. crc32c_Value 0 [of_nat i]) [0..<kMaxRecordType + 1]"

definition LogWriter :: "'f \<Rightarrow> u64 \<Rightarrow> 'f log_writer" where
  "LogWriter dest dest_length =
     \<lparr>lw_dest = dest, block_offset = unat dest_length mod kBlockSize, type_crc = InitTypeCrc\<rparr>"

text \<open>\<open>if (s.ok()) s = k;\<close>\<close>

definition if_ok :: "(status \<times> 'f) option \<Rightarrow> ('f \<Rightarrow> (status \<times> 'f) option) \<Rightarrow> (status \<times> 'f) option" where
  "if_ok r k = (case r of None \<Rightarrow> None | Some (s, f) \<Rightarrow> if s = Status_OK then k f else Some (s, f))"

definition record_header :: "u8 \<Rightarrow> u32 \<Rightarrow> slice \<Rightarrow> byte list" where
  "record_header t crc data =
     EncodeFixed32 kLittleEndian (Mask crc) @ [of_nat (length data mod 256), of_nat (length data div 256), t]"

definition EmitPhysicalRecord ::
  "('f \<Rightarrow> slice \<Rightarrow> (status \<times> 'f) option) \<Rightarrow> ('f \<Rightarrow> (status \<times> 'f) option) \<Rightarrow> u8 \<Rightarrow> slice \<Rightarrow> 'f log_writer \<Rightarrow>
     (status \<times> 'f log_writer) option" where
  "EmitPhysicalRecord Append Flush t data w =
     (let crc = Extend 0 (type_crc w ! unat t) data; buf = record_header t crc data
      in map_option (\<lambda>(s, dest). (s, w\<lparr>lw_dest := dest, block_offset := block_offset w + kHeaderSize + length data\<rparr>))
           (if_ok (if_ok (Append (lw_dest w) buf) (\<lambda>dest. Append dest data)) Flush))"

text \<open>A new block when no header fits in this one: the rest is filled with zeros, whatever \<open>Append\<close> returns.\<close>

definition switch_block ::
  "('f \<Rightarrow> slice \<Rightarrow> (status \<times> 'f) option) \<Rightarrow> 'f log_writer \<Rightarrow> 'f log_writer option" where
  "switch_block Append w =
     (let leftover = kBlockSize - block_offset w in
      if leftover < kHeaderSize then
        map_option (\<lambda>dest. w\<lparr>lw_dest := dest, block_offset := 0\<rparr>)
          (if leftover > 0 then map_option snd (Append (lw_dest w) (replicate leftover 0)) else Some (lw_dest w))
      else Some w)"

definition fragment_length :: "nat \<Rightarrow> nat \<Rightarrow> nat" where
  "fragment_length offset left = (let avail = kBlockSize - offset - kHeaderSize in if left < avail then left else avail)"

definition fragment_type :: "bool \<Rightarrow> bool \<Rightarrow> u8" where
  "fragment_type start fin =
     (if start \<and> fin then kFullType else if start then kFirstType else if fin then kLastType else kMiddleType)"

lemma EmitPhysicalRecord_offset:
  "EmitPhysicalRecord Append Flush t data w = Some (s, w') \<Longrightarrow>
    block_offset w' = block_offset w + kHeaderSize + length data"
  by (auto simp: EmitPhysicalRecord_def Let_def)

lemma switch_block_offset:
  "switch_block Append w = Some w' \<Longrightarrow>
    block_offset w' = (if kBlockSize - block_offset w < kHeaderSize then 0 else block_offset w)"
  by (auto simp: switch_block_def Let_def split: if_splits)

text \<open>The loop; an iteration takes some of the record or fills up a block.\<close>

function add_record_loop ::
  "('f \<Rightarrow> slice \<Rightarrow> (status \<times> 'f) option) \<Rightarrow> ('f \<Rightarrow> (status \<times> 'f) option) \<Rightarrow> bool \<Rightarrow> slice \<Rightarrow> 'f log_writer \<Rightarrow>
     (status \<times> 'f log_writer) option" where
  "add_record_loop Append Flush start data w =
     (case switch_block Append w of
        None \<Rightarrow> None
      | Some w \<Rightarrow>
          let n = fragment_length (block_offset w) (length data);
              t = fragment_type start (length data = n)
          in case EmitPhysicalRecord Append Flush t (take n data) w of
              None \<Rightarrow> None
            | Some (s, w) \<Rightarrow>
                if s = Status_OK \<and> length data - n > 0 then add_record_loop Append Flush False (drop n data) w
                else Some (s, w))"
  by pat_completeness auto
termination
proof (relation "measure (\<lambda>(a, f, start, data, w). 2 * length data + (if block_offset w + kHeaderSize = kBlockSize then 1 else 0))")
  fix Append :: "'f \<Rightarrow> slice \<Rightarrow> (status \<times> 'f) option" and Flush :: "'f \<Rightarrow> (status \<times> 'f) option"
    and start :: bool and data w w1 n t r s w2
  assume a: "switch_block Append w = Some w1" "n = fragment_length (block_offset w1) (length data)"
    "EmitPhysicalRecord Append Flush t (take n data) w1 = Some r" "(s, w2) = r"
    "s = Status_OK \<and> length data - n > 0"
  have n: "n \<le> length data" "n = kBlockSize - block_offset w1 - kHeaderSize"
    using a(2,5) by (auto simp: fragment_length_def Let_def split: if_splits)
  have w2: "block_offset w2 = block_offset w1 + kHeaderSize + n"
    using EmitPhysicalRecord_offset [of Append Flush t "take n data" w1 s w2] a(3,4) n(1) by simp
  note w1 = switch_block_offset [OF a(1)]
  show "((Append, Flush, False, drop n data, w2), (Append, Flush, start, data, w)) \<in>
    measure (\<lambda>(a, f, start, data, w). 2 * length data + (if block_offset w + kHeaderSize = kBlockSize then 1 else 0))"
    using w1 w2 n a(5) by (auto simp: kBlockSize_def split: if_splits)
qed simp

declare add_record_loop.simps [simp del]

definition AddRecord ::
  "('f \<Rightarrow> slice \<Rightarrow> (status \<times> 'f) option) \<Rightarrow> ('f \<Rightarrow> (status \<times> 'f) option) \<Rightarrow> slice \<Rightarrow> 'f log_writer \<Rightarrow>
     (status \<times> 'f log_writer) option" where
  "AddRecord Append Flush data w = add_record_loop Append Flush True data w"

end
