(* ===== verification/LogReader.thy ===== *)
theory LogReader
  imports LogWriter
begin

text \<open>
  \<open>db/log_reader.cc\<close> of leveldb: physical records are read from blocks, checked, and put together to the
  records that were added.

  The source is given by its \<open>Read\<close> and \<open>Skip\<close> operations on a state \<open>'f\<close>.  \<open>reporter\<close> is \<open>None\<close> for a null
  reporter, otherwise the calls of \<open>Corruption\<close> it has received.
\<close>

section \<open>The reader\<close>

abbreviation (input) kEof :: u32 where "kEof \<equiv> 5"
abbreviation (input) kBadRecord :: u32 where "kBadRecord \<equiv> 6"

record 'f log_reader =
  lr_file :: 'f
  reporter :: "(u64 \<times> status) list option"
  checksum :: bool
  buffer :: slice
  eof :: bool
  last_record_offset :: u64
  end_of_buffer_offset :: u64
  initial_offset :: u64
  resyncing :: bool

definition LogReader :: "'f \<Rightarrow> (u64 \<times> status) list option \<Rightarrow> bool \<Rightarrow> u64 \<Rightarrow> 'f log_reader" where
  "LogReader file rep check init_offset =
     \<lparr>lr_file = file, reporter = rep, checksum = check, buffer = [], eof = False, last_record_offset = 0,
      end_of_buffer_offset = 0, initial_offset = init_offset, resyncing = (init_offset > 0)\<rparr>"

definition LastRecordOffset :: "'f log_reader \<Rightarrow> u64" where
  "LastRecordOffset r = last_record_offset r"

definition ReportDrop :: "u64 \<Rightarrow> status \<Rightarrow> 'f log_reader \<Rightarrow> 'f log_reader" where
  "ReportDrop bytes reason r =
     (case reporter r of
        None \<Rightarrow> r
      | Some calls \<Rightarrow>
          if end_of_buffer_offset r - of_nat (length (buffer r)) - bytes \<ge> initial_offset r
          then r\<lparr>reporter := Some (calls @ [(bytes, reason)])\<rparr> else r)"

definition ReportCorruption :: "u64 \<Rightarrow> slice \<Rightarrow> 'f log_reader \<Rightarrow> 'f log_reader" where
  "ReportCorruption bytes reason r = ReportDrop bytes (Status_Corruption reason []) r"

definition SkipToInitialBlock :: "('f \<Rightarrow> u64 \<Rightarrow> status \<times> 'f) \<Rightarrow> 'f log_reader \<Rightarrow> bool \<times> 'f log_reader" where
  "SkipToInitialBlock Skip r =
     (let offset_in_block = initial_offset r mod of_nat kBlockSize;
          block_start_location = initial_offset r - offset_in_block;
          block_start_location =
            (if offset_in_block > of_nat kBlockSize - 6 then block_start_location + of_nat kBlockSize
             else block_start_location);
          r = r\<lparr>end_of_buffer_offset := block_start_location\<rparr>
      in if block_start_location > 0 then
           case Skip (lr_file r) block_start_location of (skip_status, file) \<Rightarrow>
             let r = r\<lparr>lr_file := file\<rparr> in
             if skip_status \<noteq> Status_OK then (False, ReportDrop block_start_location skip_status r) else (True, r)
         else (True, r))"

section \<open>Physical records\<close>

text \<open>
  One header and its payload from a buffer that has a header; \<open>result\<close> is \<open>*result\<close> before.  The type is a
  \<open>char\<close> that is sign-extended.
\<close>

definition parse_physical :: "slice \<Rightarrow> 'f log_reader \<Rightarrow> u32 \<times> slice \<times> 'f log_reader" where
  "parse_physical result r =
     (let header = buffer r;
          a = ucast (header ! 4) AND 0xff :: u32;
          b = ucast (header ! 5) AND 0xff :: u32;
          type = scast (header ! 6) :: u32;
          len = unat (a OR push_bit 8 b);
          drop_size = of_nat (length (buffer r))
      in if kHeaderSize + len > length (buffer r) then
           let r = r\<lparr>buffer := []\<rparr> in
           if \<not> eof r then (kBadRecord, result, ReportCorruption drop_size (bytes_of ''bad record length'') r)
           else (kEof, result, r)
         else if type = 0 \<and> len = 0 then (kBadRecord, result, r\<lparr>buffer := []\<rparr>)
         else if checksum r \<and>
           crc32c_Value 0 (take (1 + len) (drop 6 header)) \<noteq> Unmask (DecodeFixed32 kLittleEndian header)
         then (kBadRecord, result,
               ReportCorruption drop_size (bytes_of ''checksum mismatch'') (r\<lparr>buffer := []\<rparr>))
         else
           let r = r\<lparr>buffer := remove_prefix (kHeaderSize + len) (buffer r)\<rparr> in
           if end_of_buffer_offset r - of_nat (length (buffer r)) - of_nat kHeaderSize - of_nat len < initial_offset r
           then (kBadRecord, [], r)
           else (type, take len (drop kHeaderSize header), r))"

function ReadPhysicalRecord ::
  "('f \<Rightarrow> nat \<Rightarrow> slice \<Rightarrow> (status \<times> slice \<times> 'f) option) \<Rightarrow> slice \<Rightarrow> 'f log_reader \<Rightarrow>
     (u32 \<times> slice \<times> 'f log_reader) option" where
  "ReadPhysicalRecord Read result r =
     (if length (buffer r) < kHeaderSize then
        if \<not> eof r then
          case Read (lr_file r) kBlockSize [] of
            None \<Rightarrow> None
          | Some (status, bytes, file) \<Rightarrow>
              let r = r\<lparr>lr_file := file, buffer := bytes,
                        end_of_buffer_offset := end_of_buffer_offset r + of_nat (length bytes)\<rparr>
              in if status \<noteq> Status_OK
                 then Some (kEof, result, (ReportDrop (of_nat kBlockSize) status (r\<lparr>buffer := []\<rparr>))\<lparr>eof := True\<rparr>)
                 else if length bytes < kBlockSize then ReadPhysicalRecord Read result (r\<lparr>eof := True\<rparr>)
                 else ReadPhysicalRecord Read result r
        else Some (kEof, result, r\<lparr>buffer := []\<rparr>)
      else Some (parse_physical result r))"
  by pat_completeness auto
termination
  by (relation "measure (\<lambda>(Read, result, r). if length (buffer r) < kHeaderSize \<and> \<not> eof r then 1 else 0)")
    (auto simp: kBlockSize_def)

declare ReadPhysicalRecord.simps [simp del]

section \<open>Records\<close>

text \<open>The local variables of \<open>ReadRecord\<close>, and how a turn of its loop ends.\<close>

record read_locals =
  fragment :: slice
  in_fragmented_record :: bool
  scratch :: "byte list"
  prospective_record_offset :: u64

datatype 'f read_turn = Again read_locals "'f log_reader" | Return bool slice "'f log_reader"

definition report_partial :: "string \<Rightarrow> read_locals \<Rightarrow> 'f log_reader \<Rightarrow> 'f log_reader" where
  "report_partial msg v r =
     (if in_fragmented_record v \<and> scratch v \<noteq> []
      then ReportCorruption (of_nat (length (scratch v))) (bytes_of msg) r else r)"

text \<open>The turn after \<open>ReadPhysicalRecord\<close> has returned \<open>record_type\<close> and set \<open>fragment\<close>.\<close>

definition read_turn :: "u32 \<Rightarrow> read_locals \<Rightarrow> 'f log_reader \<Rightarrow> 'f read_turn" where
  "read_turn record_type v r =
     (let physical_record_offset =
            end_of_buffer_offset r - of_nat (length (buffer r)) - of_nat kHeaderSize - of_nat (length (fragment v))
      in if resyncing r \<and> record_type = ucast kMiddleType then Again v r
         else if resyncing r \<and> record_type = ucast kLastType then Again v (r\<lparr>resyncing := False\<rparr>)
         else
           let r = r\<lparr>resyncing := False\<rparr> in
           if record_type = ucast kFullType then
             Return True (fragment v)
               ((report_partial ''partial record without end(1)'' v r)\<lparr>last_record_offset := physical_record_offset\<rparr>)
           else if record_type = ucast kFirstType then
             Again (v\<lparr>in_fragmented_record := True, scratch := fragment v,
                     prospective_record_offset := physical_record_offset\<rparr>)
               (report_partial ''partial record without end(2)'' v r)
           else if record_type = ucast kMiddleType then
             if \<not> in_fragmented_record v then
               Again v (ReportCorruption (of_nat (length (fragment v)))
                 (bytes_of ''missing start of fragmented record(1)'') r)
             else Again (v\<lparr>scratch := scratch v @ fragment v\<rparr>) r
           else if record_type = ucast kLastType then
             if \<not> in_fragmented_record v then
               Again v (ReportCorruption (of_nat (length (fragment v)))
                 (bytes_of ''missing start of fragmented record(2)'') r)
             else Return True (scratch v @ fragment v) (r\<lparr>last_record_offset := prospective_record_offset v\<rparr>)
           else if record_type = kEof then Return False [] r
           else if record_type = kBadRecord then
             if in_fragmented_record v then
               Again (v\<lparr>in_fragmented_record := False, scratch := []\<rparr>)
                 (ReportCorruption (of_nat (length (scratch v))) (bytes_of ''error in middle of record'') r)
             else Again v r
           else
             Again (v\<lparr>in_fragmented_record := False, scratch := []\<rparr>)
               (ReportCorruption (of_nat (length (fragment v) + (if in_fragmented_record v then length (scratch v) else 0)))
                 (take 39 (bytes_of ''unknown record type '' @ decimal (unat record_type))) r))"

text \<open>The loop, which ends when the source does; the result is the status, \<open>*record\<close> and the reader.\<close>

partial_function (option) read_record_loop ::
  "('f \<Rightarrow> nat \<Rightarrow> slice \<Rightarrow> (status \<times> slice \<times> 'f) option) \<Rightarrow> read_locals \<Rightarrow> 'f log_reader \<Rightarrow>
     (bool \<times> slice \<times> 'f log_reader) option" where
  "read_record_loop Read v r =
     (case ReadPhysicalRecord Read (fragment v) r of
        None \<Rightarrow> None
      | Some (record_type, result, r) \<Rightarrow>
          (case read_turn record_type (v\<lparr>fragment := result\<rparr>) r of
             Again v r \<Rightarrow> read_record_loop Read v r
           | Return ok rec r \<Rightarrow> Some (ok, rec, r)))"

definition ReadRecord ::
  "('f \<Rightarrow> nat \<Rightarrow> slice \<Rightarrow> (status \<times> slice \<times> 'f) option) \<Rightarrow> ('f \<Rightarrow> u64 \<Rightarrow> status \<times> 'f) \<Rightarrow> 'f log_reader \<Rightarrow>
     (bool \<times> slice \<times> 'f log_reader) option" where
  "ReadRecord Read Skip r =
     (case (if last_record_offset r < initial_offset r then SkipToInitialBlock Skip r else (True, r)) of
        (False, r) \<Rightarrow> Some (False, [], r)
      | (True, r) \<Rightarrow>
          read_record_loop Read
            \<lparr>fragment = [], in_fragmented_record = False, scratch = [], prospective_record_offset = 0\<rparr> r)"

end
