(* ===== verification/LogProps.thy ===== *)
theory LogProps
  imports LogReader
begin

text \<open>
  Writer and reader of the log together: the bytes a sequence of records becomes, what the writer leaves
  in its file, and what the reader makes of a log that ends anywhere.
\<close>

section \<open>The bytes of a log\<close>

definition physical_record :: "u8 \<Rightarrow> slice \<Rightarrow> byte list" where
  "physical_record t data =
     to_le 4 (unat (Mask (crc32c_spec 0 (t # data)))) @
     [of_nat (length data mod 256), of_nat (length data div 256), t] @ data"

definition block_pad :: "nat \<Rightarrow> nat" where
  "block_pad b = (if kBlockSize - b < kHeaderSize then kBlockSize - b else 0)"

definition block_start :: "nat \<Rightarrow> nat" where
  "block_start b = (if kBlockSize - b < kHeaderSize then 0 else b)"

text \<open>From offset \<open>b\<close> of a block: the bytes of a record, or of what is left of it, and the offset behind them.\<close>

function log_record :: "nat \<Rightarrow> bool \<Rightarrow> slice \<Rightarrow> byte list \<times> nat" where
  "log_record b start data =
     (let c = block_start b; n = fragment_length c (length data);
          bytes = replicate (block_pad b) 0 @ physical_record (fragment_type start (length data = n)) (take n data);
          e = c + kHeaderSize + n
      in if length data - n > 0 then
           let (rest, e') = log_record e False (drop n data) in (bytes @ rest, e')
         else (bytes, e))"
  by pat_completeness auto
termination
  by (relation "measure (\<lambda>(b, start, data). 2 * length data + (if b + kHeaderSize = kBlockSize then 1 else 0))")
    (auto simp: fragment_length_def block_start_def kBlockSize_def Let_def split: if_splits)

declare log_record.simps [simp del]

fun log_records :: "nat \<Rightarrow> slice list \<Rightarrow> byte list" where
  "log_records b [] = []"
| "log_records b (r # rs) = (let (bytes, e) = log_record b True r in bytes @ log_records e rs)"

text \<open>What a fragment is, and where it ends.\<close>

lemma block_start_fits: "block_start b + kHeaderSize \<le> kBlockSize"
  by (auto simp: block_start_def kBlockSize_def)

lemma fragment_length_le:
  "fragment_length c n \<le> n" "c + kHeaderSize \<le> kBlockSize \<Longrightarrow> c + kHeaderSize + fragment_length c n \<le> kBlockSize"
  by (auto simp: fragment_length_def Let_def)

lemma fragment_type_range: "unat (fragment_type s e) \<in> {1, 2, 3, 4}"
  by (simp add: fragment_type_def)

lemma log_record_end: "b \<le> kBlockSize \<Longrightarrow> snd (log_record b start data) \<le> kBlockSize"
proof (induction b start data rule: log_record.induct)
  case (1 b start data)
  define c where "c = block_start b"
  define n where "n = fragment_length c (length data)"
  have "c + kHeaderSize + n \<le> kBlockSize"
    unfolding c_def n_def by (rule fragment_length_le(2) [OF block_start_fits])
  then show ?case
    using "1.IH" [OF c_def n_def refl refl]
    by (subst log_record.simps) (auto simp: Let_def c_def [symmetric] n_def [symmetric] split: prod.splits)
qed

lemma length_physical_record [simp]: "length (physical_record t d) = kHeaderSize + length d"
  by (simp add: physical_record_def)

section \<open>The writer produces them\<close>

lemma type_crc_nth:
  assumes "unat t \<in> {1, 2, 3, 4}"
  shows "InitTypeCrc ! unat t = crc32c_Value 0 [t]"
proof -
  have "unat t < kMaxRecordType + 1" using assms by (auto simp: kMaxRecordType_def)
  then have "InitTypeCrc ! unat t = crc32c_Value 0 [of_nat (unat t)]"
    unfolding InitTypeCrc_def by (subst nth_map) (simp_all del: upt_Suc add: nth_upt)
  then show ?thesis by simp
qed

lemma record_header_bytes:
  assumes "unat t \<in> {1, 2, 3, 4}"
  shows "record_header t (Extend 0 (InitTypeCrc ! unat t) data) data @ data = physical_record t data"
proof -
  have "Extend 0 (InitTypeCrc ! unat t) data = crc32c_spec 0 (t # data)"
    unfolding type_crc_nth [OF assms] crc32c_Value_def
    using Extend_append [of 0 0 "[t]" data 0 0] Extend_spec [of 0 0 "t # data"] by simp
  then show ?thesis by (simp add: record_header_def physical_record_def del: to_le.simps)
qed

context writable
begin

text \<open>What a step of the writer that should add \<open>bytes\<close> does to a file that has been flushed.\<close>

definition extends :: "'f \<Rightarrow> byte list \<Rightarrow> status \<Rightarrow> 'f \<Rightarrow> bool" where
  "extends f bytes st f' \<longleftrightarrow> usable f' \<and> prefix (written f) (written f') \<and> prefix (accepted f') (accepted f @ bytes) \<and>
     (st = Status_OK \<longrightarrow> written f' = accepted f' \<and> accepted f' = accepted f @ bytes)"

lemma extends_trans:
  assumes "extends f bs Status_OK g" "extends g cs st h"
  shows "extends f (bs @ cs) st h"
  using assms unfolding extends_def by (auto intro: prefix_order.trans)

lemma EmitPhysicalRecord_extends:
  assumes "usable (lw_dest w)" "type_crc w = InitTypeCrc" "unat t \<in> {1, 2, 3, 4}"
  shows "\<exists>st w'. EmitPhysicalRecord Append Flush t data w = Some (st, w') \<and> type_crc w' = type_crc w \<and>
    block_offset w' = block_offset w + kHeaderSize + length data \<and>
    extends (lw_dest w) (physical_record t data) st (lw_dest w')"
proof -
  define f where "f = lw_dest w"
  define h where "h = record_header t (Extend 0 (InitTypeCrc ! unat t) data) data"
  have h: "physical_record t data = h @ data" using record_header_bytes [OF assms(3)] by (simp add: h_def)
  have def: "EmitPhysicalRecord Append Flush t data w =
      map_option (\<lambda>(s, dest). (s, w\<lparr>lw_dest := dest, block_offset := block_offset w + kHeaderSize + length data\<rparr>))
        (if_ok (if_ok (Append f h) (\<lambda>dest. Append dest data)) Flush)"
    by (simp add: EmitPhysicalRecord_def Let_def assms(2) f_def h_def)
  have "\<exists>st f'. if_ok (if_ok (Append f h) (\<lambda>dest. Append dest data)) Flush = Some (st, f') \<and> extends f (h @ data) st f'"
  proof (rule AppendE [of f h])
    show "usable f" using assms(1) by (simp add: f_def)
    fix st1 f1
    assume a1: "Append f h = Some (st1, f1)" "usable f1" "prefix (written f) (written f1)"
      "prefix (accepted f1) (accepted f @ h)" "st1 = Status_OK \<Longrightarrow> accepted f1 = accepted f @ h"
    have whole: "prefix (accepted f1) (accepted f @ h @ data)"
      using prefix_prefix [OF a1(4), of data] by simp
    show ?thesis
    proof (cases "st1 = Status_OK")
      case False
      then show ?thesis using a1 whole by (auto simp: if_ok_def extends_def)
    next
      case ok1: True
      note acc1 = a1(5) [OF ok1]
      show ?thesis
      proof (rule AppendE [OF a1(2), of data])
        fix st2 f2
        assume a2: "Append f1 data = Some (st2, f2)" "usable f2" "prefix (written f1) (written f2)"
          "prefix (accepted f2) (accepted f1 @ data)" "st2 = Status_OK \<Longrightarrow> accepted f2 = accepted f1 @ data"
        have w2: "prefix (written f) (written f2)" using a1(3) a2(3) by (rule prefix_order.trans)
        show ?thesis
        proof (cases "st2 = Status_OK")
          case False
          then show ?thesis using a1(1) a2 acc1 ok1 w2 by (auto simp: if_ok_def extends_def)
        next
          case ok2: True
          show ?thesis
          proof (rule FlushE [OF a2(2)])
            fix st3 f3
            assume a3: "Flush f2 = Some (st3, f3)" "usable f3" "prefix (written f2) (written f3)"
              "prefix (accepted f3) (accepted f2)" "st3 = Status_OK \<Longrightarrow> written f3 = accepted f2 \<and> accepted f3 = accepted f2"
            have "prefix (written f) (written f3)" using w2 a3(3) by (rule prefix_order.trans)
            then show ?thesis using a1(1) a2(1) a3 a2(5) acc1 ok1 ok2 by (auto simp: if_ok_def extends_def)
          qed
        qed
      qed
    qed
  qed
  then show ?thesis unfolding def h f_def by auto
qed

lemma switch_block_extends:
  assumes "usable (lw_dest w)" "written (lw_dest w) = accepted (lw_dest w)"
  shows "\<exists>w'. switch_block Append w = Some w' \<and> type_crc w' = type_crc w \<and>
    block_offset w' = block_start (block_offset w) \<and> usable (lw_dest w') \<and>
    prefix (written (lw_dest w)) (written (lw_dest w')) \<and>
    accepted (lw_dest w') = accepted (lw_dest w) @ replicate (block_pad (block_offset w)) 0"
proof -
  define k where "k = kBlockSize - block_offset w"
  consider "k \<ge> kHeaderSize" | "k = 0" | "0 < k" "k < kHeaderSize" by linarith
  then show ?thesis
  proof cases
    case 3
    then have len: "length (replicate k (0 :: byte)) \<le> 16" by simp
    from Append_short [OF assms this] obtain f' where app: "Append (lw_dest w) (replicate k 0) = Some (Status_OK, f')"
      by blast
    from AppendE [OF assms(1), of "replicate k 0"] app
    have "usable f'" "prefix (written (lw_dest w)) (written f')" "accepted f' = accepted (lw_dest w) @ replicate k 0"
      by auto
    with 3 app show ?thesis
      by (simp add: switch_block_def k_def [symmetric] block_pad_def block_start_def)
  qed (use assms in \<open>auto simp: switch_block_def Let_def k_def [symmetric] block_pad_def block_start_def\<close>)
qed

lemma add_record_loop_extends:
  assumes "usable (lw_dest w)" "written (lw_dest w) = accepted (lw_dest w)" "type_crc w = InitTypeCrc"
  shows "\<exists>st w'. add_record_loop Append Flush start data w = Some (st, w') \<and> type_crc w' = InitTypeCrc \<and>
    extends (lw_dest w) (fst (log_record (block_offset w) start data)) st (lw_dest w') \<and>
    (st = Status_OK \<longrightarrow> block_offset w' = snd (log_record (block_offset w) start data))"
  using assms
proof (induction "block_offset w" start data arbitrary: w rule: log_record.induct)
  case (1 start data w)
  define c where "c = block_start (block_offset w)"
  define n where "n = fragment_length c (length data)"
  define t where "t = fragment_type start (length data = n)"
  define bytes where "bytes = replicate (block_pad (block_offset w)) 0 @ physical_record t (take n data)"
  have n: "n \<le> length data" unfolding n_def by (rule fragment_length_le)
  have t: "unat t \<in> {1, 2, 3, 4}" unfolding t_def by (rule fragment_type_range)
  from switch_block_extends [OF "1.prems"(1,2)] obtain w1 where w1: "switch_block Append w = Some w1"
    "type_crc w1 = type_crc w" "block_offset w1 = c" "usable (lw_dest w1)"
    "prefix (written (lw_dest w)) (written (lw_dest w1))"
    "accepted (lw_dest w1) = accepted (lw_dest w) @ replicate (block_pad (block_offset w)) 0"
    unfolding c_def by blast
  from EmitPhysicalRecord_extends [OF w1(4), of t "take n data"] t w1(2) "1.prems"(3)
  obtain st w2 where w2: "EmitPhysicalRecord Append Flush t (take n data) w1 = Some (st, w2)" "type_crc w2 = InitTypeCrc"
    "block_offset w2 = c + kHeaderSize + n"
    "extends (lw_dest w1) (physical_record t (take n data)) st (lw_dest w2)"
    using n w1(3) by auto
  have ext: "extends (lw_dest w) bytes st (lw_dest w2)"
    using w2(4) w1(5,6) unfolding extends_def bytes_def by (auto intro: prefix_order.trans)
  have spec: "log_record (block_offset w) start data =
      (if length data - n > 0 then
         let (rest, e') = log_record (c + kHeaderSize + n) False (drop n data) in (bytes @ rest, e')
       else (bytes, c + kHeaderSize + n))"
    by (subst log_record.simps) (simp add: Let_def c_def n_def t_def bytes_def)
  have code: "add_record_loop Append Flush start data w =
      (if st = Status_OK \<and> length data - n > 0 then add_record_loop Append Flush False (drop n data) w2 else Some (st, w2))"
    using w2(1) by (subst add_record_loop.simps) (simp add: w1(1,3) Let_def n_def t_def)
  show ?case
  proof (cases "length data - n > 0")
    case False
    then show ?thesis unfolding code spec using ext w2(2,3) by simp
  next
    case more: True
    obtain rest e where rest: "log_record (c + kHeaderSize + n) False (drop n data) = (rest, e)" by fastforce
    show ?thesis
    proof (cases "st = Status_OK")
      case False
      have "extends (lw_dest w) (bytes @ rest) st (lw_dest w2)"
        using ext False prefix_prefix [of "accepted (lw_dest w2)" "accepted (lw_dest w) @ bytes" rest]
        unfolding extends_def by auto
      with False more show ?thesis unfolding code spec rest using w2(2) by auto
    next
      case True
      have flushed: "usable (lw_dest w2)" "written (lw_dest w2) = accepted (lw_dest w2)"
        using ext True by (auto simp: extends_def)
      from "1.hyps" [OF c_def n_def refl w2(3) more flushed w2(2)] rest w2(3)
      obtain st' w' where ih: "add_record_loop Append Flush False (drop n data) w2 = Some (st', w')" "type_crc w' = InitTypeCrc"
        "extends (lw_dest w2) rest st' (lw_dest w')" "st' = Status_OK \<longrightarrow> block_offset w' = e"
        by auto
      from extends_trans [OF ext [unfolded True] ih(3)] ih show ?thesis unfolding code spec rest using True more by simp
    qed
  qed
qed

end

text \<open>Adding records until one fails: how many were acknowledged, and the writer.\<close>

fun add_records ::
  "('f \<Rightarrow> slice \<Rightarrow> (status \<times> 'f) option) \<Rightarrow> ('f \<Rightarrow> (status \<times> 'f) option) \<Rightarrow> slice list \<Rightarrow> 'f log_writer \<Rightarrow>
     (nat \<times> 'f log_writer) option" where
  "add_records Append Flush [] w = Some (0, w)"
| "add_records Append Flush (x # rs) w =
     (case AddRecord Append Flush x w of
        None \<Rightarrow> None
      | Some (s, w) \<Rightarrow>
          if s = Status_OK then map_option (\<lambda>(n, w). (Suc n, w)) (add_records Append Flush rs w) else Some (0, w))"

lemma log_records_take: "prefix (log_records b (take n rs)) (log_records b rs)"
proof (induction rs arbitrary: b n)
  case (Cons x rs)
  then show ?case by (cases n) (auto simp: Let_def split: prod.splits)
qed simp

context writable
begin

lemma add_records_written:
  assumes "usable (lw_dest w)" "written (lw_dest w) = accepted (lw_dest w)" "type_crc w = InitTypeCrc"
  shows "\<exists>n w'. add_records Append Flush rs w = Some (n, w') \<and> n \<le> length rs \<and>
    prefix (accepted (lw_dest w) @ log_records (block_offset w) (take n rs)) (written (lw_dest w')) \<and>
    prefix (written (lw_dest w')) (accepted (lw_dest w) @ log_records (block_offset w) rs)"
  using assms
proof (induction rs arbitrary: w)
  case (Cons x rs)
  obtain bytes e where rec: "log_record (block_offset w) True x = (bytes, e)" by fastforce
  from add_record_loop_extends [OF Cons.prems, of True x] obtain st w1 where
    w1: "AddRecord Append Flush x w = Some (st, w1)" "type_crc w1 = InitTypeCrc" "extends (lw_dest w) bytes st (lw_dest w1)"
    "st = Status_OK \<Longrightarrow> block_offset w1 = e" by (auto simp: AddRecord_def rec)
  show ?case
  proof (cases "st = Status_OK")
    case False
    have "prefix (written (lw_dest w1)) (accepted (lw_dest w) @ bytes)"
      using w1(3) written_accepted prefix_order.trans unfolding extends_def by blast
    then have "prefix (written (lw_dest w1)) (accepted (lw_dest w) @ bytes @ log_records e rs)"
      using prefix_prefix [of _ "accepted (lw_dest w) @ bytes"] by simp
    with False w1(1,3) Cons.prems(2) show ?thesis
      by (intro exI [of _ 0] exI [of _ w1]) (auto simp: extends_def rec)
  next
    case True
    with w1(3) have flushed: "usable (lw_dest w1)" "written (lw_dest w1) = accepted (lw_dest w1)"
      "accepted (lw_dest w1) = accepted (lw_dest w) @ bytes" by (auto simp: extends_def)
    from Cons.IH [OF flushed(1,2) w1(2)] w1(4) [OF True] flushed(3) obtain n w' where
      "add_records Append Flush rs w1 = Some (n, w')" "n \<le> length rs"
      "prefix (accepted (lw_dest w) @ bytes @ log_records e (take n rs)) (written (lw_dest w'))"
      "prefix (written (lw_dest w')) (accepted (lw_dest w) @ bytes @ log_records e rs)" by auto
    with True w1(1) show ?thesis by (intro exI [of _ "Suc n"] exI [of _ w']) (simp add: rec)
  qed
qed (simp add: prefix_order.eq_iff)

end

end
