(* ===== verification/LogRecovery.thy ===== *)
theory LogRecovery
  imports LogProps
begin

text \<open>
  The reader on the log of a sequence of records, cut off anywhere: it returns the records that are
  complete, and reports nothing.
\<close>

lemma two_bytes:
  assumes "n < 2 ^ 16"
  shows "ucast (of_nat (n mod 256) :: u8) AND 0xff OR push_bit 8 (ucast (of_nat (n div 256) :: u8) AND 0xff) =
    (of_nat n :: u32)"
proof -
  have byte: "unat (ucast (of_nat k :: u8) AND 0xff :: u32) = k" if "k < 256" for k
    using that by (simp add: unat_and_FF unat_ucast unat_of_nat)
  define a b where "a = (ucast (of_nat (n mod 256) :: u8) AND 0xff :: u32)"
    and "b = (ucast (of_nat (n div 256) :: u8) AND 0xff :: u32)"
  have ab: "unat a = n mod 256" "unat b = n div 256"
    unfolding a_def b_def using assms by (intro byte; simp add: less_mult_imp_div_less)+
  have "a OR push_bit 8 b = a + push_bit 8 b" by (rule or_shifted_add) (simp add: ab)
  also have "\<dots> = of_nat (unat a) + of_nat (2 ^ 8 * unat b)" unfolding push_bit_word by simp
  also have "\<dots> = of_nat (n mod 256 + 256 * (n div 256))" unfolding ab of_nat_add [symmetric] by simp
  also have "\<dots> = of_nat n" by (simp only: mod_mult_div_eq)
  finally show ?thesis unfolding a_def b_def .
qed

text \<open>The first fragment of a record and the rest.\<close>

definition rest_of_record :: "nat \<Rightarrow> slice \<Rightarrow> byte list \<times> nat" where
  "rest_of_record b data =
     (let n = fragment_length (block_start b) (length data); e = block_start b + kHeaderSize + n
      in if length data - n > 0 then log_record e False (drop n data) else ([], e))"

lemma log_record_unfold:
  fixes b data
  defines "n \<equiv> fragment_length (block_start b) (length data)"
  shows "log_record b start data =
    (replicate (block_pad b) 0 @ physical_record (fragment_type start (length data = n)) (take n data) @
       fst (rest_of_record b data), snd (rest_of_record b data))"
  by (subst log_record.simps) (simp add: Let_def n_def rest_of_record_def split: prod.splits)

text \<open>At most \<open>n\<close> calls of \<open>ReadRecord\<close>, until one returns false: the records and the reader.\<close>

fun read_records ::
  "('f \<Rightarrow> nat \<Rightarrow> slice \<Rightarrow> (status \<times> slice \<times> 'f) option) \<Rightarrow> ('f \<Rightarrow> u64 \<Rightarrow> status \<times> 'f) \<Rightarrow> nat \<Rightarrow> 'f log_reader \<Rightarrow>
     (slice list \<times> 'f log_reader) option" where
  "read_records Read Skip 0 r = Some ([], r)"
| "read_records Read Skip (Suc n) r =
     (case ReadRecord Read Skip r of
        None \<Rightarrow> None
      | Some (False, rec, r) \<Rightarrow> Some ([], r)
      | Some (True, rec, r) \<Rightarrow> map_option (\<lambda>(recs, r). (rec # recs, r)) (read_records Read Skip n r))"

section \<open>Where the reader stands\<close>

context sequential
begin

text \<open>
  The reader stands at offset \<open>b\<close> of a block with \<open>data\<close> ahead: what is buffered ends at the end of the block
  or at the end of the file.
\<close>

definition positioned :: "nat \<Rightarrow> byte list \<Rightarrow> 'f log_reader \<Rightarrow> bool" where
  "positioned b data r \<longleftrightarrow>
     readable (lr_file r) \<and> initial_offset r = 0 \<and> \<not> resyncing r \<and> b \<le> kBlockSize \<and>
     buffer r @ remaining (lr_file r) = data \<and>
     (if eof r then remaining (lr_file r) = [] \<and> b + length (buffer r) \<le> kBlockSize
      else b + length (buffer r) = kBlockSize \<or> b = 0 \<and> buffer r = [])"

lemma positioned_buffer:
  assumes "positioned b data r" "buffer r \<noteq> []"
  shows "buffer r = take (kBlockSize - b) data"
    "remaining (lr_file r) = drop (kBlockSize - b) data"
    "\<not> eof r \<Longrightarrow> b + length (buffer r) = kBlockSize"
  using assms by (auto simp: positioned_def split: if_splits)

lemma positioned_start:
  "readable f \<Longrightarrow> positioned 0 (remaining f) (LogReader f rep check 0)"
  by (simp add: positioned_def LogReader_def)

text \<open>The buffer of an exhausted block is filled with the next one.\<close>

lemma refill:
  assumes "readable (lr_file r)" "length (buffer r) < kHeaderSize" "\<not> eof r" "initial_offset r = 0" "\<not> resyncing r"
  shows "\<exists>r1. ReadPhysicalRecord Read result r = ReadPhysicalRecord Read result r1 \<and>
    buffer r1 = take kBlockSize (remaining (lr_file r)) \<and> remaining (lr_file r1) = drop kBlockSize (remaining (lr_file r)) \<and>
    readable (lr_file r1) \<and> (eof r1 \<longleftrightarrow> length (remaining (lr_file r)) < kBlockSize) \<and>
    initial_offset r1 = 0 \<and> \<not> resyncing r1 \<and> reporter r1 = reporter r"
proof -
  from Read [OF assms(1), of kBlockSize "[]"] obtain f' where f': "Read (lr_file r) kBlockSize [] =
      Some (Status_OK, take kBlockSize (remaining (lr_file r)), f')"
    "remaining f' = drop kBlockSize (remaining (lr_file r))" "readable f'" by blast
  define bytes where "bytes = take kBlockSize (remaining (lr_file r))"
  define r0 where "r0 = r\<lparr>lr_file := f', buffer := bytes,
      end_of_buffer_offset := end_of_buffer_offset r + of_nat (length bytes)\<rparr>"
  define r1 where "r1 = (if length bytes < kBlockSize then r0\<lparr>eof := True\<rparr> else r0)"
  have "ReadPhysicalRecord Read result r = ReadPhysicalRecord Read result r1"
    using assms(2,3) f'(1)
    by (subst ReadPhysicalRecord.simps) (simp add: Let_def bytes_def [symmetric] r0_def [symmetric] r1_def)
  moreover have "length bytes < kBlockSize \<longleftrightarrow> length (remaining (lr_file r)) < kBlockSize" by (auto simp: bytes_def)
  ultimately show ?thesis
    using f' assms by (intro exI [of _ r1]) (simp add: r1_def r0_def bytes_def)
qed

text \<open>A header ahead is in the buffer once the reader parses.\<close>

lemma header_ahead:
  assumes "positioned b data r" "b + kHeaderSize \<le> kBlockSize" "kHeaderSize \<le> length data"
  obtains r1 where "ReadPhysicalRecord Read result r = Some (parse_physical result r1)" "positioned b data r1"
    "buffer r1 = take (kBlockSize - b) data" "kHeaderSize \<le> length (buffer r1)" "reporter r1 = reporter r"
proof -
  have parse: "ReadPhysicalRecord Read result r1 = Some (parse_physical result r1)" if "kHeaderSize \<le> length (buffer r1)" for r1
    using that by (subst ReadPhysicalRecord.simps) simp
  show thesis
  proof (cases "length (buffer r) < kHeaderSize")
    case False
    then have full: "kHeaderSize \<le> length (buffer r)" "buffer r \<noteq> []" by auto
    show thesis
      by (rule that [OF parse [OF full(1)] assms(1) positioned_buffer(1) [OF assms(1) full(2)] full(1) refl])
  next
    case True
    with assms have fill: "\<not> eof r" "b = 0" "buffer r = []"
      by (auto simp: positioned_def split: if_splits)
    with assms(1) have pos: "readable (lr_file r)" "initial_offset r = 0" "\<not> resyncing r" "remaining (lr_file r) = data"
      by (auto simp: positioned_def)
    from refill [OF pos(1) True fill(1) pos(2,3), of result] obtain r1 where r1:
      "ReadPhysicalRecord Read result r = ReadPhysicalRecord Read result r1" "buffer r1 = take kBlockSize data"
      "remaining (lr_file r1) = drop kBlockSize data" "readable (lr_file r1)" "eof r1 \<longleftrightarrow> length data < kBlockSize"
      "initial_offset r1 = 0" "\<not> resyncing r1" "reporter r1 = reporter r" unfolding pos(4) by blast
    have "kHeaderSize \<le> length (buffer r1)" using r1(2) assms(3) by (simp add: kBlockSize_def)
    moreover have "positioned b data r1" using r1 fill(2) by (auto simp: positioned_def)
    ultimately show thesis using r1 parse [of r1] fill(2) by (intro that [of r1]) simp_all
  qed
qed

text \<open>Fewer bytes than a header are the end of the file.\<close>

lemma end_ahead:
  assumes "positioned b data r" "length data < kHeaderSize"
  shows "\<exists>r'. ReadPhysicalRecord Read result r = Some (kEof, result, r') \<and> reporter r' = reporter r \<and> \<not> resyncing r'"
proof -
  have eof: "\<exists>r'. ReadPhysicalRecord Read result r1 = Some (kEof, result, r') \<and> reporter r' = reporter r1 \<and> \<not> resyncing r'"
    if "eof r1" "length (buffer r1) < kHeaderSize" "\<not> resyncing r1" for r1
    using that by (subst ReadPhysicalRecord.simps) auto
  have len: "length (buffer r) < kHeaderSize" "length (remaining (lr_file r)) < kHeaderSize"
    using assms by (auto simp: positioned_def)
  show ?thesis
  proof (cases "eof r")
    case True
    then show ?thesis using eof [of r] len assms(1) by (auto simp: positioned_def)
  next
    case False
    have pos: "readable (lr_file r)" "initial_offset r = 0" "\<not> resyncing r"
      using assms(1) by (auto simp: positioned_def)
    from refill [OF pos(1) len(1) False pos(2,3), of result] obtain r1 where r1:
      "ReadPhysicalRecord Read result r = ReadPhysicalRecord Read result r1"
      "buffer r1 = take kBlockSize (remaining (lr_file r))"
      "eof r1 \<longleftrightarrow> length (remaining (lr_file r)) < kBlockSize" "\<not> resyncing r1" "reporter r1 = reporter r" by blast
    then show ?thesis using eof [of r1] len(2) by (simp add: kBlockSize_def)
  qed
qed

text \<open>The padding at the end of a block is skipped.\<close>

lemma pad_ahead:
  assumes "positioned b (replicate (kBlockSize - b) 0 @ rest) r" "kBlockSize - b < kHeaderSize"
  obtains r1 where "ReadPhysicalRecord Read result r = ReadPhysicalRecord Read result r1" "positioned 0 rest r1"
    "reporter r1 = reporter r"
proof -
  define r1 where "r1 = r\<lparr>buffer := []\<rparr>"
  have b: "b \<noteq> 0" using assms(2) by (auto simp: kBlockSize_def)
  have len: "length (buffer r) \<le> kBlockSize - b" using assms(1) by (auto simp: positioned_def split: if_splits)
  then have buf: "length (buffer r) < kHeaderSize" using assms(2) by simp
  have rest: "remaining (lr_file r) = rest"
  proof (cases "eof r")
    case True
    then have "buffer r = replicate (kBlockSize - b) 0 @ rest" "remaining (lr_file r) = []"
      using assms(1) by (auto simp: positioned_def)
    with len show ?thesis by simp
  next
    case False
    then have "length (buffer r) = length (replicate (kBlockSize - b) (0 :: byte))"
      using assms(1) b by (auto simp: positioned_def)
    then show ?thesis using assms(1) unfolding positioned_def by (metis append_eq_append_conv)
  qed
  show thesis
  proof (rule that [of r1])
    show "ReadPhysicalRecord Read result r = ReadPhysicalRecord Read result r1"
      using buf by (subst (1 2) ReadPhysicalRecord.simps) (simp add: r1_def Let_def cong: option.case_cong)
    show "positioned 0 rest r1" using assms(1) rest by (auto simp: positioned_def r1_def kBlockSize_def split: if_splits)
    show "reporter r1 = reporter r" by (simp add: r1_def)
  qed
qed

text \<open>The header of a physical record.\<close>

lemma parse_header:
  assumes "buffer r = take m (physical_record t d @ rest)" "kHeaderSize \<le> m" "length d < 2 ^ 16"
  shows "ucast (buffer r ! 4) AND 0xff OR push_bit 8 (ucast (buffer r ! 5) AND 0xff) = (of_nat (length d) :: u32)"
    "buffer r ! 6 = t"
    "DecodeFixed32 kLittleEndian (buffer r) = Mask (crc32c_spec 0 (t # d))"
proof -
  define crc where "crc = Mask (crc32c_spec 0 (t # d))"
  define h where "h = to_le 4 (unat crc) @ [of_nat (length d mod 256), of_nat (length d div 256), t]"
  have h: "length h = kHeaderSize" "physical_record t d = h @ d"
    by (simp_all add: h_def physical_record_def crc_def del: to_le.simps)
  have buf: "buffer r = h @ take (m - kHeaderSize) (d @ rest)"
    unfolding assms(1) h(2) append_assoc take_append h(1) using assms(2) h(1) by simp
  have nth: "buffer r ! i = h ! i" if "i < kHeaderSize" for i
    unfolding buf using that h(1) by (simp add: nth_append)
  show "buffer r ! 6 = t" by (subst nth) (simp_all add: h_def nth_append del: to_le.simps)
  show "DecodeFixed32 kLittleEndian (buffer r) = Mask (crc32c_spec 0 (t # d))"
    unfolding buf h_def append_assoc crc_def [symmetric] by (rule DecodeFixed32_to_le)
  have b: "buffer r ! 4 = of_nat (length d mod 256)" "buffer r ! 5 = of_nat (length d div 256)"
    by (subst nth; simp add: h_def nth_append del: to_le.simps)+
  show "ucast (buffer r ! 4) AND 0xff OR push_bit 8 (ucast (buffer r ! 5) AND 0xff) = (of_nat (length d) :: u32)"
    unfolding b by (rule two_bytes [OF assms(3)])
qed

lemma scast_type:
  assumes "unat t \<in> {1, 2, 3, 4}"
  shows "(scast (t :: u8) :: u32) = ucast t" "(ucast t :: u32) \<noteq> 0"
proof -
  have "t \<in> {1, 2, 3, 4}" using assms by (auto simp: word_unat_eq_iff)
  then show "(scast (t :: u8) :: u32) = ucast t" "(ucast t :: u32) \<noteq> 0" by auto
qed

lemma parse_length: "length d < 2 ^ 16 \<Longrightarrow> unat (of_nat (length d) :: u32) = length d"
  by (rule unat_of_nat_small) simp

lemma record_ahead:
  assumes "positioned b (physical_record t d @ rest) r" "b + kHeaderSize + length d \<le> kBlockSize" "unat t \<in> {1, 2, 3, 4}"
  obtains r' where "ReadPhysicalRecord Read result r = Some (ucast t, d, r')"
    "positioned (b + kHeaderSize + length d) rest r'" "reporter r' = reporter r"
proof -
  have d: "length d < 2 ^ 16" using assms(2) by (simp add: kBlockSize_def)
  have m: "kHeaderSize \<le> kBlockSize - b" using assms(2) by simp
  from header_ahead [OF assms(1), of result] assms(2) obtain r1 where r1:
    "ReadPhysicalRecord Read result r = Some (parse_physical result r1)" "positioned b (physical_record t d @ rest) r1"
    "buffer r1 = take (kBlockSize - b) (physical_record t d @ rest)" "reporter r1 = reporter r" by auto
  note hdr = parse_header [OF r1(3) m d]
  define h where "h = take kHeaderSize (physical_record t d)"
  have h: "length h = kHeaderSize" "physical_record t d = h @ d" "drop 6 h = [t]"
    by (simp_all add: h_def physical_record_def del: to_le.simps)
  have buf: "buffer r1 = h @ d @ take (kBlockSize - b - (kHeaderSize + length d)) rest"
    unfolding r1(3) h(2) using assms(2) h(1) by (simp add: add.assoc)
  define r' where "r' = r1\<lparr>buffer := drop (kHeaderSize + length d) (buffer r1)\<rparr>"
  have crc: "crc32c_Value 0 (take (1 + length d) (drop 6 (buffer r1))) = Unmask (DecodeFixed32 kLittleEndian (buffer r1))"
    unfolding hdr(3) Unmask_Mask using h(1,3) by (simp add: buf crc32c_Value_def Extend_spec)
  have init: "initial_offset r1 = 0" using r1(2) by (simp add: positioned_def)
  have len: "kHeaderSize + length d \<le> length (buffer r1)" using h(1) by (simp add: buf)
  have "parse_physical result r1 = (ucast t, d, r')"
    unfolding parse_physical_def Let_def hdr(1,2) parse_length [OF d] scast_type(1) [OF assms(3)]
    using len scast_type(2) [OF assms(3)] crc init h(1)
    by (simp add: remove_prefix_def r'_def) (simp add: buf)
  moreover have "positioned (b + kHeaderSize + length d) rest r'"
  proof -
    have "buffer r1 @ remaining (lr_file r1) = physical_record t d @ rest" using r1(2) by (simp add: positioned_def)
    then have rest: "buffer r' @ remaining (lr_file r1) = rest"
      unfolding r'_def by (simp add: buf h(1,2))
    have short: "length (buffer r') = length (buffer r1) - (kHeaderSize + length d)" by (simp add: r'_def)
    have same: "lr_file r' = lr_file r1" "eof r' = eof r1" "initial_offset r' = initial_offset r1" "resyncing r' = resyncing r1"
      by (simp_all add: r'_def)
    show ?thesis
      using r1(2) len assms(2) unfolding positioned_def same rest short by (auto split: if_splits)
  qed
  ultimately show thesis using r1(1,4) by (intro that [of r']) (simp_all add: r'_def)
qed

lemma record_cut:
  assumes "positioned b (take k (physical_record t d)) r" "b + kHeaderSize + length d \<le> kBlockSize"
    "k < kHeaderSize + length d"
  shows "\<exists>r'. ReadPhysicalRecord Read result r = Some (kEof, result, r') \<and> reporter r' = reporter r \<and> \<not> resyncing r'"
proof (cases "k < kHeaderSize")
  case True
  then show ?thesis using end_ahead [OF assms(1)] by simp
next
  case False
  have d: "length d < 2 ^ 16" using assms(2) by (simp add: kBlockSize_def)
  from header_ahead [OF assms(1), of result] assms(2) False obtain r1 where r1:
    "ReadPhysicalRecord Read result r = Some (parse_physical result r1)" "positioned b (take k (physical_record t d)) r1"
    "buffer r1 = take (kBlockSize - b) (take k (physical_record t d))" "reporter r1 = reporter r" by auto
  have buf: "buffer r1 = take k (physical_record t d @ [])" using r1(3) assms(2,3) by (simp add: min_absorb2)
  note hdr = parse_header [OF buf _ d]
  have short: "length (buffer r1) < kHeaderSize + length d" "buffer r1 \<noteq> []"
    using buf False assms(3) by (auto dest: arg_cong [of _ _ length])
  have "eof r1" using positioned_buffer(3) [OF r1(2) short(2)] short(1) assms(2) by fastforce
  then have "parse_physical result r1 = (kEof, result, r1\<lparr>buffer := []\<rparr>)"
    unfolding parse_physical_def Let_def using hdr(1) False short(1) parse_length [OF d] by simp
  then show ?thesis using r1 by (auto simp: positioned_def)
qed

section \<open>Reading a record\<close>

text \<open>A fragment ends the record, or is added to \<open>scratch\<close>.\<close>

lemma turn_fragment:
  assumes "\<not> resyncing r" "start \<longleftrightarrow> \<not> in_fragmented_record v"
  shows "\<exists>offs. read_turn (ucast (fragment_type start fin)) v r =
    (let acc = (if start then [] else scratch v) @ fragment v
     in if fin then Return True acc (r\<lparr>last_record_offset := offs\<rparr>)
        else Again (v\<lparr>in_fragmented_record := True, scratch := acc, prospective_record_offset := offs\<rparr>) r)"
proof -
  define offs where "offs = (if start then end_of_buffer_offset r - of_nat (length (buffer r)) - of_nat kHeaderSize -
      of_nat (length (fragment v)) else prospective_record_offset v)"
  have "r\<lparr>resyncing := False\<rparr> = r" using assms(1) by simp
  then have "read_turn (ucast (fragment_type start fin)) v r =
    (let acc = (if start then [] else scratch v) @ fragment v
     in if fin then Return True acc (r\<lparr>last_record_offset := offs\<rparr>)
        else Again (v\<lparr>in_fragmented_record := True, scratch := acc, prospective_record_offset := offs\<rparr>) r)"
    using assms by (auto simp: read_turn_def Let_def fragment_type_def report_partial_def offs_def)
  then show ?thesis by blast
qed

lemma skip_pad:
  assumes "positioned b (replicate (block_pad b) 0 @ rest) r"
  obtains r1 where "ReadPhysicalRecord Read result r = ReadPhysicalRecord Read result r1"
    "positioned (block_start b) rest r1" "reporter r1 = reporter r"
proof (cases "kBlockSize - b < kHeaderSize")
  case True
  with assms have "positioned b (replicate (kBlockSize - b) 0 @ rest) r" by (simp add: block_pad_def)
  from pad_ahead [OF this True, of result] True that show thesis by (auto simp: block_start_def)
next
  case False
  with assms that [of r] show thesis by (simp add: block_pad_def block_start_def)
qed

lemma read_fragment:
  assumes "positioned b (replicate (block_pad b) 0 @ physical_record (fragment_type start fin) d @ rest) r"
    "start \<longleftrightarrow> \<not> in_fragmented_record v" "block_start b + kHeaderSize + length d \<le> kBlockSize"
  defines "acc \<equiv> (if start then [] else scratch v) @ d"
  obtains r2 w where "positioned (block_start b + kHeaderSize + length d) rest r2" "reporter r2 = reporter r"
    "fin \<Longrightarrow> read_record_loop Read v r = Some (True, acc, r2)"
    "\<not> fin \<Longrightarrow> read_record_loop Read v r = read_record_loop Read w r2"
    "in_fragmented_record w" "scratch w = acc"
proof -
  from skip_pad [OF assms(1), of "fragment v"] obtain r1 where
    r1: "ReadPhysicalRecord Read (fragment v) r = ReadPhysicalRecord Read (fragment v) r1"
    "positioned (block_start b) (physical_record (fragment_type start fin) d @ rest) r1" "reporter r1 = reporter r" .
  from record_ahead [OF r1(2) assms(3) fragment_type_range, of "fragment v"] obtain r2 where
    r2: "ReadPhysicalRecord Read (fragment v) r1 = Some (ucast (fragment_type start fin), d, r2)"
    "positioned (block_start b + kHeaderSize + length d) rest r2" "reporter r2 = reporter r1" .
  have "\<not> resyncing r2" using r2(2) by (simp add: positioned_def)
  moreover have "start \<longleftrightarrow> \<not> in_fragmented_record (v\<lparr>fragment := d\<rparr>)" using assms(2) by simp
  ultimately have "\<exists>offs. read_turn (ucast (fragment_type start fin)) (v\<lparr>fragment := d\<rparr>) r2 =
    (let acc = (if start then [] else scratch (v\<lparr>fragment := d\<rparr>)) @ fragment (v\<lparr>fragment := d\<rparr>)
     in if fin then Return True acc (r2\<lparr>last_record_offset := offs\<rparr>)
        else Again ((v\<lparr>fragment := d\<rparr>)\<lparr>in_fragmented_record := True, scratch := acc, prospective_record_offset := offs\<rparr>) r2)"
    by (rule turn_fragment)
  then obtain offs where
    turn: "read_turn (ucast (fragment_type start fin)) (v\<lparr>fragment := d\<rparr>) r2 =
      (if fin then Return True acc (r2\<lparr>last_record_offset := offs\<rparr>)
       else Again (v\<lparr>fragment := d, in_fragmented_record := True, scratch := acc, prospective_record_offset := offs\<rparr>) r2)"
    by (auto simp: acc_def Let_def cong: if_cong)
  define w where "w = v\<lparr>fragment := d, in_fragmented_record := True, scratch := acc, prospective_record_offset := offs\<rparr>"
  define r3 where "r3 = (if fin then r2\<lparr>last_record_offset := offs\<rparr> else r2)"
  have "read_record_loop Read v r = (if fin then Some (True, acc, r3) else read_record_loop Read w r3)"
    using r1(1) r2(1) turn by (subst read_record_loop.simps) (simp add: w_def r3_def)
  moreover have "positioned (block_start b + kHeaderSize + length d) rest r3"
    using r2(2) by (auto simp: r3_def positioned_def split: if_splits)
  ultimately show thesis using r1(3) r2(3) by (intro that [of r3 w]) (simp_all add: r3_def w_def)
qed

lemma read_record_whole:
  assumes "positioned b (fst (log_record b start data) @ rest) r" "start \<longleftrightarrow> \<not> in_fragmented_record v"
  shows "\<exists>r'. read_record_loop Read v r = Some (True, (if start then [] else scratch v) @ data, r') \<and>
    positioned (snd (log_record b start data)) rest r' \<and> reporter r' = reporter r"
  using assms
proof (induction b start data arbitrary: v r rule: log_record.induct)
  case (1 b start data)
  define n where "n = fragment_length (block_start b) (length data)"
  have n: "n \<le> length data" "block_start b + kHeaderSize + n \<le> kBlockSize"
    unfolding n_def by (rule fragment_length_le, rule fragment_length_le(2) [OF block_start_fits])
  note spec = log_record_unfold [of b start data, folded n_def]
  from "1.prems"(1) have "positioned b (replicate (block_pad b) 0 @
      physical_record (fragment_type start (length data = n)) (take n data) @ fst (rest_of_record b data) @ rest) r"
    by (simp add: spec)
  from read_fragment [OF this "1.prems"(2)] n obtain r2 w where
    r2: "positioned (block_start b + kHeaderSize + n) (fst (rest_of_record b data) @ rest) r2" "reporter r2 = reporter r"
    "length data = n \<Longrightarrow> read_record_loop Read v r = Some (True, (if start then [] else scratch v) @ take n data, r2)"
    "length data \<noteq> n \<Longrightarrow> read_record_loop Read v r = read_record_loop Read w r2"
    "in_fragmented_record w" "scratch w = (if start then [] else scratch v) @ take n data"
    by (auto simp: min_absorb2)
  show ?case
  proof (cases "length data = n")
    case True
    have rec: "rest_of_record b data = ([], block_start b + kHeaderSize + n)"
      unfolding rest_of_record_def n_def [symmetric] Let_def using True by simp
    show ?thesis using r2(1,2) r2(3) [OF True] True unfolding spec rec by simp
  next
    case False
    then have more: "length data - n > 0" using n(1) by simp
    then have rec: "rest_of_record b data = log_record (block_start b + kHeaderSize + n) False (drop n data)"
      by (simp add: rest_of_record_def n_def [symmetric])
    from "1.IH" [OF refl n_def refl refl more, of r2 w] r2(1,2,5,6) False show ?thesis
      unfolding spec rec r2(4) [OF False] by (simp add: rec)
  qed
qed

text \<open>A record of which the end is missing.\<close>

lemma read_record_end:
  assumes "ReadPhysicalRecord Read (fragment v) r = Some (kEof, fragment v, r')" "\<not> resyncing r'"
  shows "read_record_loop Read v r = Some (False, [], r')"
proof -
  have "r'\<lparr>resyncing := False\<rparr> = r'" using assms(2) by simp
  then show ?thesis using assms by (subst read_record_loop.simps) (simp add: read_turn_def Let_def)
qed

lemma read_record_cut:
  assumes "positioned b (take k (fst (log_record b start data))) r" "start \<longleftrightarrow> \<not> in_fragmented_record v"
    "k < length (fst (log_record b start data))"
  shows "\<exists>r'. read_record_loop Read v r = Some (False, [], r') \<and> reporter r' = reporter r"
  using assms
proof (induction b start data arbitrary: k v r rule: log_record.induct)
  case (1 b start data)
  define n where "n = fragment_length (block_start b) (length data)"
  have n: "n \<le> length data" "block_start b + kHeaderSize + n \<le> kBlockSize"
    unfolding n_def by (rule fragment_length_le, rule fragment_length_le(2) [OF block_start_fits])
  then have len: "length (take n data) = n" by simp
  note spec = log_record_unfold [of b start data, folded n_def]
  define phys where "phys = physical_record (fragment_type start (length data = n)) (take n data)"
  define j where "j = k - block_pad b"
  note spec = spec [folded phys_def]
  have plen: "length phys = kHeaderSize + n" using len by (simp add: phys_def)
  consider (pad) "k < block_pad b"
    | (phys) "block_pad b \<le> k" "j < length phys" | (more) "block_pad b \<le> k" "length phys \<le> j" by linarith
  then show ?case
  proof cases
    case pad
    then have "length (take k (fst (log_record b start data))) < kHeaderSize"
      by (auto simp: block_pad_def split: if_splits)
    from end_ahead [OF "1.prems"(1) this, of "fragment v"] show ?thesis using read_record_end by blast
  next
    case phys
    then have "positioned b (replicate (block_pad b) 0 @ take j phys) r"
      using "1.prems"(1) by (simp add: spec j_def)
    from skip_pad [OF this, of "fragment v"] obtain r1 where
      r1: "ReadPhysicalRecord Read (fragment v) r = ReadPhysicalRecord Read (fragment v) r1"
      "positioned (block_start b) (take j phys) r1" "reporter r1 = reporter r" .
    from record_cut [OF r1(2) [unfolded phys_def], of "fragment v"] n phys(2) plen len
    obtain r' where "ReadPhysicalRecord Read (fragment v) r1 = Some (kEof, fragment v, r')" "reporter r' = reporter r1"
      "\<not> resyncing r'" by auto
    with r1(1,3) read_record_end show ?thesis by (metis (no_types))
  next
    case more
    define i where "i = j - length phys"
    from more have "positioned b (replicate (block_pad b) 0 @ phys @ take i (fst (rest_of_record b data))) r"
      using "1.prems"(1) by (simp add: spec j_def i_def)
    from read_fragment [OF this [unfolded phys_def] "1.prems"(2)] n len obtain r2 w where
      r2: "positioned (block_start b + kHeaderSize + n) (take i (fst (rest_of_record b data))) r2" "reporter r2 = reporter r"
      "length data = n \<Longrightarrow> read_record_loop Read v r = Some (True, (if start then [] else scratch v) @ take n data, r2)"
      "length data \<noteq> n \<Longrightarrow> read_record_loop Read v r = read_record_loop Read w r2" "in_fragmented_record w"
      "scratch w = (if start then [] else scratch v) @ take n data"
      by (auto simp: min_absorb2)
    have i: "i < length (fst (rest_of_record b data))" using "1.prems"(3) more by (simp add: spec j_def i_def)
    then have more: "length data - n > 0" by (auto simp: rest_of_record_def n_def [symmetric] Let_def split: if_splits)
    then have rec: "rest_of_record b data = log_record (block_start b + kHeaderSize + n) False (drop n data)"
      by (simp add: rest_of_record_def n_def [symmetric])
    from "1.IH" [OF refl n_def refl refl more, of i r2 w] r2 i more show ?thesis unfolding rec by simp
  qed
qed

section \<open>Reading a log\<close>

lemma ReadRecord_loop:
  assumes "positioned b data r"
  shows "ReadRecord Read Skip r = read_record_loop Read
    \<lparr>fragment = [], in_fragmented_record = False, scratch = [], prospective_record_offset = 0\<rparr> r"
  using assms by (simp add: ReadRecord_def positioned_def)

lemma ReadRecord_end:
  assumes "positioned b [] r"
  shows "\<exists>r'. ReadRecord Read Skip r = Some (False, [], r') \<and> reporter r' = reporter r"
proof -
  define v where "v = \<lparr>fragment = [], in_fragmented_record = False, scratch = [], prospective_record_offset = 0\<rparr>"
  from end_ahead [OF assms, of "fragment v"] obtain r' where
    "ReadPhysicalRecord Read (fragment v) r = Some (kEof, fragment v, r')" "reporter r' = reporter r" "\<not> resyncing r'" by auto
  with read_record_end [of v r r'] show ?thesis unfolding ReadRecord_loop [OF assms] v_def [symmetric] by blast
qed

lemma recover:
  assumes "positioned b (take k (log_records b rs)) r" "length rs < n"
  shows "\<exists>j r'. read_records Read Skip n r = Some (take j rs, r') \<and> reporter r' = reporter r \<and> j \<le> length rs \<and>
    length (log_records b (take j rs)) \<le> k \<and>
    (j < length rs \<longrightarrow> k < length (log_records b (take (Suc j) rs)))"
  using assms
proof (induction rs arbitrary: b k r n)
  case Nil
  then obtain m where n: "n = Suc m" by (cases n) auto
  from Nil.prems(1) have "positioned b [] r" by simp
  from ReadRecord_end [OF this] show ?case by (auto simp: n)
next
  case (Cons x rs)
  then obtain m where n: "n = Suc m" "length rs < m" by (cases n) auto
  obtain bytes e where rec: "log_record b True x = (bytes, e)" by fastforce
  define v where "v = \<lparr>fragment = [], in_fragmented_record = False, scratch = [], prospective_record_offset = 0\<rparr>"
  note loop = ReadRecord_loop [OF Cons.prems(1), folded v_def]
  have v: "True \<longleftrightarrow> \<not> in_fragmented_record v" by (simp add: v_def)
  show ?case
  proof (cases "k < length bytes")
    case True
    then have "positioned b (take k (fst (log_record b True x))) r" using Cons.prems(1) by (simp add: rec)
    from read_record_cut [OF this v] True loop obtain r' where
      "ReadRecord Read Skip r = Some (False, [], r')" "reporter r' = reporter r" by (auto simp: rec)
    with True show ?thesis by (intro exI [of _ 0] exI [of _ r']) (simp add: n rec)
  next
    case False
    define k' where "k' = k - length bytes"
    have "positioned b (fst (log_record b True x) @ take k' (log_records e rs)) r"
      using Cons.prems(1) False by (simp add: rec k'_def)
    from read_record_whole [OF this v] loop obtain r1 where
      r1: "ReadRecord Read Skip r = Some (True, x, r1)" "positioned e (take k' (log_records e rs)) r1" "reporter r1 = reporter r"
      by (auto simp: rec)
    from Cons.IH [OF r1(2) n(2)] obtain j r' where j: "read_records Read Skip m r1 = Some (take j rs, r')"
      "reporter r' = reporter r1" "j \<le> length rs" "length (log_records e (take j rs)) \<le> k'"
      "j < length rs \<longrightarrow> k' < length (log_records e (take (Suc j) rs))" by blast
    show ?thesis
      using j r1(1,3) False by (intro exI [of _ "Suc j"] exI [of _ r']) (auto simp: n rec k'_def)
  qed
qed

end

end
