(* ===== verification/DbFormat.thy ===== *)
theory DbFormat
  imports Comparator Bloom Logging
begin

text \<open>
  \<open>db/dbformat.cc\<close> and \<open>db/dbformat.h\<close> of leveldb: internal keys (a user key followed by a sequence number and
  a type), their order, and the wrappers that turn a comparator and a filter policy for user keys into
  ones for internal keys.
\<close>

section \<open>Internal keys\<close>

type_synonym SequenceNumber = u64
type_synonym ValueType = u8

abbreviation (input) kTypeDeletion :: ValueType where "kTypeDeletion \<equiv> 0"
abbreviation (input) kTypeValue :: ValueType where "kTypeValue \<equiv> 1"

definition kValueTypeForSeek :: ValueType where
  "kValueTypeForSeek = kTypeValue"

definition kMaxSequenceNumber :: SequenceNumber where
  "kMaxSequenceNumber = push_bit 56 1 - 1"

record parsed_key =
  user_key :: slice
  key_sequence :: SequenceNumber
  key_type :: ValueType

text \<open>
  The assertions \<open>seq <= kMaxSequenceNumber\<close> and \<open>t <= kValueTypeForSeek\<close> are not part of the model: the properties of
  internal keys have them as hypotheses where they depend on them.  A \<open>ValueType\<close> is a byte here, the enumeration has the two
  values above.
\<close>

definition PackSequenceAndType :: "SequenceNumber \<Rightarrow> ValueType \<Rightarrow> u64" where
  "PackSequenceAndType seq t = push_bit 8 seq OR ucast t"

definition InternalKeyEncodingLength :: "parsed_key \<Rightarrow> nat" where
  "InternalKeyEncodingLength key = length (user_key key) + 8"

definition AppendInternalKey :: "byte list \<Rightarrow> parsed_key \<Rightarrow> byte list" where
  "AppendInternalKey result key =
     PutFixed64 (result @ user_key key) (PackSequenceAndType (key_sequence key) (key_type key))"

text \<open>The assertion that the key has at least 8 bytes is a hypothesis of the properties, in \<open>internal_valid\<close>.\<close>

definition ExtractUserKey :: "slice \<Rightarrow> slice" where
  "ExtractUserKey internal_key = take (length internal_key - 8) internal_key"

text \<open>
  An \<open>InternalKey\<close> is the string \<open>rep_\<close> it holds, empty while it is not set.  \<open>Encode\<close> asserts that it
  is set; \<open>None\<close> is the failed assertion.
\<close>

definition InternalKey_Encode :: "slice \<Rightarrow> slice option" where
  "InternalKey_Encode rep = (if rep \<noteq> [] then Some rep else None)"

text \<open>The status and \<open>*result\<close>, \<open>None\<close> where it is not written.\<close>

definition ParseInternalKey :: "slice \<Rightarrow> bool \<times> parsed_key option" where
  "ParseInternalKey internal_key =
     (let n = length internal_key in
      if n < 8 then (False, None)
      else
        let num = DecodeFixed64 kLittleEndian (drop (n - 8) internal_key);
            c = ucast (num AND 0xff) :: u8
        in (c \<le> kTypeValue,
            Some \<lparr>user_key = take (n - 8) internal_key, key_sequence = drop_bit 8 num, key_type = c\<rparr>))"

section \<open>Comparing internal keys\<close>

definition key_number :: "slice \<Rightarrow> u64" where
  "key_number k = DecodeFixed64 kLittleEndian (drop (length k - 8) k)"

definition InternalKey_Compare :: "(slice \<Rightarrow> slice \<Rightarrow> int) \<Rightarrow> slice \<Rightarrow> slice \<Rightarrow> int" where
  "InternalKey_Compare Compare akey bkey =
     (let r = Compare (ExtractUserKey akey) (ExtractUserKey bkey) in
      if r = 0 then
        let anum = key_number akey; bnum = key_number bkey
        in if anum > bnum then -1 else if anum < bnum then 1 else r
      else r)"

definition InternalKey_FindShortestSeparator ::
  "(slice \<Rightarrow> slice \<Rightarrow> int) \<Rightarrow> (slice \<Rightarrow> slice \<Rightarrow> slice) \<Rightarrow> slice \<Rightarrow> slice \<Rightarrow> slice" where
  "InternalKey_FindShortestSeparator Compare Separator start limit =
     (let user_start = ExtractUserKey start; user_limit = ExtractUserKey limit;
          tmp = Separator user_start user_limit
      in if length tmp < length user_start \<and> Compare user_start tmp < 0
         then PutFixed64 tmp (PackSequenceAndType kMaxSequenceNumber kValueTypeForSeek)
         else start)"

definition InternalKey_FindShortSuccessor ::
  "(slice \<Rightarrow> slice \<Rightarrow> int) \<Rightarrow> (slice \<Rightarrow> slice) \<Rightarrow> slice \<Rightarrow> slice" where
  "InternalKey_FindShortSuccessor Compare Successor key =
     (let user_key = ExtractUserKey key; tmp = Successor user_key in
      if length tmp < length user_key \<and> Compare user_key tmp < 0
      then PutFixed64 tmp (PackSequenceAndType kMaxSequenceNumber kValueTypeForSeek)
      else key)"

section \<open>The filter policy of internal keys\<close>

definition InternalFilterPolicy_CreateFilter ::
  "(slice list \<Rightarrow> byte list \<Rightarrow> byte list) \<Rightarrow> slice list \<Rightarrow> byte list \<Rightarrow> byte list" where
  "InternalFilterPolicy_CreateFilter CreateFilter keys dst = CreateFilter (map ExtractUserKey keys) dst"

definition InternalFilterPolicy_KeyMayMatch :: "(slice \<Rightarrow> slice \<Rightarrow> bool) \<Rightarrow> slice \<Rightarrow> slice \<Rightarrow> bool" where
  "InternalFilterPolicy_KeyMayMatch KeyMayMatch key f = KeyMayMatch (ExtractUserKey key) f"

section \<open>Lookup keys\<close>

text \<open>The array from \<open>start_\<close> to \<open>end_\<close>, and the index of \<open>kstart_\<close> in it.\<close>

record lookup_key =
  lk_bytes :: "byte list"
  lk_kstart :: nat

definition LookupKey :: "slice \<Rightarrow> SequenceNumber \<Rightarrow> lookup_key" where
  "LookupKey key s =
     (let usize = length key; start = EncodeVarint32 (of_nat (usize + 8))
      in \<lparr>lk_bytes = start @ key @ EncodeFixed64 kLittleEndian (PackSequenceAndType s kValueTypeForSeek),
          lk_kstart = length start\<rparr>)"

definition memtable_key :: "lookup_key \<Rightarrow> slice" where
  "memtable_key k = lk_bytes k"

definition internal_key :: "lookup_key \<Rightarrow> slice" where
  "internal_key k = drop (lk_kstart k) (lk_bytes k)"

definition lookup_user_key :: "lookup_key \<Rightarrow> slice" where
  "lookup_user_key k = take (length (lk_bytes k) - lk_kstart k - 8) (drop (lk_kstart k) (lk_bytes k))"

section \<open>Printing\<close>

definition ParsedInternalKey_DebugString :: "parsed_key \<Rightarrow> byte list" where
  "ParsedInternalKey_DebugString key =
     bytes_of [CHR 0x27] @ EscapeString (user_key key) @ bytes_of [CHR 0x27] @ bytes_of '' @ '' @
     decimal (unat (key_sequence key)) @ bytes_of '' : '' @ decimal (unat (key_type key))"

definition InternalKey_DebugString :: "slice \<Rightarrow> byte list" where
  "InternalKey_DebugString rep =
     (case ParseInternalKey rep of
        (True, Some parsed) \<Rightarrow> ParsedInternalKey_DebugString parsed
      | _ \<Rightarrow> bytes_of ''(bad)'' @ EscapeString rep)"

section \<open>Packing and parsing\<close>

lemma PackSequenceAndType_number:
  assumes "seq \<le> kMaxSequenceNumber"
  shows "unat (PackSequenceAndType seq t) = unat seq * 256 + unat t"
proof -
  have "unat seq < 2 ^ 56"
    using assms by (simp add: kMaxSequenceNumber_def word_le_nat_alt)
  then have seq: "unat seq * 2 ^ 8 < 2 ^ 64" "unat seq * 256 + 256 \<le> 2 ^ 64" by simp_all
  have t: "unat t < 256" by (rule unat_byte_less)
  have ut: "unat (ucast t :: u64) = unat t"
    unfolding unat_ucast by (rule mod_less, rule less_trans [OF t]) simp
  have pack: "PackSequenceAndType seq t = ucast t + push_bit 8 seq"
    using or_shifted_add [of "ucast t :: u64" 8 seq] t by (simp add: PackSequenceAndType_def or.commute ut)
  have up: "unat (push_bit 8 seq) = unat seq * 256" using unat_push_bit [of seq 8] seq(1) by simp
  have "unat (ucast t :: u64) + unat (push_bit 8 seq) < 2 ^ 64"
    unfolding ut up using seq(2) t by linarith
  then show ?thesis
    unfolding pack by (simp add: unat_add_less ut up)
qed

lemma Pack_parts:
  assumes "seq \<le> kMaxSequenceNumber"
  shows "drop_bit 8 (PackSequenceAndType seq t) = seq" "(ucast (PackSequenceAndType seq t AND 0xff) :: u8) = t"
proof -
  show "drop_bit 8 (PackSequenceAndType seq t) = seq"
    using PackSequenceAndType_number [OF assms, of t] unat_byte_less [of t]
    by (simp add: word_unat_eq_iff unat_drop_bit)
  have "unat (PackSequenceAndType seq t AND 0xff) = unat t"
    using PackSequenceAndType_number [OF assms, of t] unat_and_mask [of "PackSequenceAndType seq t" 8]
    by (simp add: mask_eq_exp_minus_1)
  then show "(ucast (PackSequenceAndType seq t AND 0xff) :: u8) = t"
    by (simp add: word_unat_eq_iff unat_ucast)
qed

lemma AppendInternalKey_bytes:
  "AppendInternalKey result key =
    result @ user_key key @ to_le 8 (unat (PackSequenceAndType (key_sequence key) (key_type key)))"
  by (simp add: AppendInternalKey_def PutFixed64_def)

lemma ExtractUserKey_append [simp]: "ExtractUserKey (k @ to_le 8 n) = k"
  by (simp add: ExtractUserKey_def del: to_le.simps)

lemma key_number_append [simp]: "key_number (k @ to_le 8 (unat num)) = num"
  using DecodeFixed64_to_le [of kLittleEndian num "[]"] by (simp add: key_number_def del: to_le.simps)

lemma ParseInternalKey_Append:
  assumes "key_sequence key \<le> kMaxSequenceNumber" "key_type key \<le> kTypeValue"
  shows "ParseInternalKey (AppendInternalKey [] key) = (True, Some key)"
proof -
  define num where "num = PackSequenceAndType (key_sequence key) (key_type key)"
  have "DecodeFixed64 kLittleEndian (to_le 8 (unat num)) = num"
    using DecodeFixed64_to_le [of kLittleEndian num "[]"] by simp
  then show ?thesis
    using Pack_parts [OF assms(1), of "key_type key"] assms(2)
    by (simp add: ParseInternalKey_def AppendInternalKey_bytes Let_def num_def [symmetric] del: to_le.simps DecodeFixed64_le)
qed

text \<open>The order of two encoded keys: by user key, then by decreasing sequence number and type.\<close>

lemma InternalKey_Compare_Append:
  assumes "key_sequence a \<le> kMaxSequenceNumber" "key_sequence b \<le> kMaxSequenceNumber"
  shows "InternalKey_Compare Compare (AppendInternalKey [] a) (AppendInternalKey [] b) =
    (let r = Compare (user_key a) (user_key b) in
     if r \<noteq> 0 then r
     else if key_sequence a > key_sequence b \<or> key_sequence a = key_sequence b \<and> key_type a > key_type b then -1
     else if key_sequence a < key_sequence b \<or> key_sequence a = key_sequence b \<and> key_type a < key_type b then 1
     else 0)"
proof -
  have less: "PackSequenceAndType s t < PackSequenceAndType s' t' \<longleftrightarrow> s < s' \<or> s = s' \<and> t < t'"
    if "s \<le> kMaxSequenceNumber" "s' \<le> kMaxSequenceNumber" for s s' t t'
  proof -
    have "unat s * 256 + unat t < unat s' * 256 + unat t' \<longleftrightarrow> unat s < unat s' \<or> unat s = unat s' \<and> unat t < unat t'"
      using unat_byte_less [of t] unat_byte_less [of t'] by linarith
    then show ?thesis
      by (simp add: word_less_nat_alt PackSequenceAndType_number that word_unat_eq_iff)
  qed
  show ?thesis
    unfolding InternalKey_Compare_def AppendInternalKey_bytes append_Nil ExtractUserKey_append key_number_append Let_def
    by (simp add: less assms)
qed

lemma LookupKey_parts:
  "internal_key (LookupKey key s) = AppendInternalKey [] \<lparr>user_key = key, key_sequence = s, key_type = kValueTypeForSeek\<rparr>"
  "lookup_user_key (LookupKey key s) = key"
  "length key + 8 < 2 ^ 32 \<Longrightarrow>
    GetLengthPrefixedSlicePtr (memtable_key (LookupKey key s)) = Some (internal_key (LookupKey key s), [])"
proof -
  define k where "k = key @ to_le 8 (unat (PackSequenceAndType s kValueTypeForSeek))"
  show internal: "internal_key (LookupKey key s) = AppendInternalKey [] \<lparr>user_key = key, key_sequence = s, key_type = kValueTypeForSeek\<rparr>"
    by (simp add: internal_key_def LookupKey_def Let_def AppendInternalKey_bytes del: to_le.simps)
  show "lookup_user_key (LookupKey key s) = key"
    by (simp add: lookup_user_key_def LookupKey_def Let_def del: to_le.simps)
  assume "length key + 8 < 2 ^ 32"
  then have len: "length k < 2 ^ 32" "unat (of_nat (length key + 8) :: u32) = length k"
    by (simp_all add: k_def unat_of_nat del: to_le.simps of_nat_add)
  have "memtable_key (LookupKey key s) = length_prefixed k"
    using len(2) by (simp add: memtable_key_def LookupKey_def Let_def EncodeVarint32_bytes length_prefixed_def k_def
        del: to_le.simps of_nat_add)
  then show "GetLengthPrefixedSlicePtr (memtable_key (LookupKey key s)) = Some (internal_key (LookupKey key s), [])"
    using GetLengthPrefixedSlicePtr_bytes [OF len(1), of "[]"]
    by (simp add: internal AppendInternalKey_bytes k_def del: to_le.simps)
qed

section \<open>The contracts carry over to internal keys\<close>

definition internal_valid :: "(slice \<Rightarrow> bool) \<Rightarrow> slice \<Rightarrow> bool" where
  "internal_valid valid k \<longleftrightarrow> 8 \<le> length k \<and> valid (ExtractUserKey k)"

context comparator
begin

abbreviation (input) ICompare :: "slice \<Rightarrow> slice \<Rightarrow> int" where
  "ICompare \<equiv> InternalKey_Compare Compare"

lemma ICompare_cases:
  "ICompare a b < 0 \<longleftrightarrow> Compare (ExtractUserKey a) (ExtractUserKey b) < 0 \<or>
    Compare (ExtractUserKey a) (ExtractUserKey b) = 0 \<and> key_number a > key_number b"
  "ICompare a b \<le> 0 \<longleftrightarrow> Compare (ExtractUserKey a) (ExtractUserKey b) < 0 \<or>
    Compare (ExtractUserKey a) (ExtractUserKey b) = 0 \<and> key_number a \<ge> key_number b"
  "ICompare a b > 0 \<longleftrightarrow> Compare (ExtractUserKey a) (ExtractUserKey b) > 0 \<or>
    Compare (ExtractUserKey a) (ExtractUserKey b) = 0 \<and> key_number a < key_number b"
  by (auto simp: InternalKey_Compare_def Let_def)

lemma internal_comparator:
  "comparator (internal_valid valid) (InternalKey_Compare Compare) (InternalKey_FindShortestSeparator Compare Separator)
    (InternalKey_FindShortSuccessor Compare Successor)"
proof
  fix a b c
  assume a: "internal_valid valid a"
  then have va: "valid (ExtractUserKey a)" by (simp add: internal_valid_def)
  show "ICompare a a = 0" using refl [OF va] by (simp add: InternalKey_Compare_def)
  define s where "s = InternalKey_FindShortSuccessor Compare Successor a"
  have s: "s = a \<or> s = PutFixed64 (Successor (ExtractUserKey a)) (PackSequenceAndType kMaxSequenceNumber kValueTypeForSeek) \<and>
      Compare (ExtractUserKey a) (Successor (ExtractUserKey a)) < 0"
    by (simp add: s_def InternalKey_FindShortSuccessor_def Let_def)
  have us: "s \<noteq> a \<Longrightarrow> ExtractUserKey s = Successor (ExtractUserKey a) \<and> 8 \<le> length s"
    using s by (auto simp: PutFixed64_def simp del: to_le.simps)
  show "internal_valid valid (InternalKey_FindShortSuccessor Compare Successor a)"
    using a us valid_successor [OF va] unfolding s_def [symmetric] by (cases "s = a") (auto simp: internal_valid_def)
  show "ICompare a (InternalKey_FindShortSuccessor Compare Successor a) \<le> 0"
    using s us refl [OF va] unfolding s_def [symmetric] by (cases "s = a") (auto simp: ICompare_cases)
  assume b: "internal_valid valid b"
  then have vb: "valid (ExtractUserKey b)" by (simp add: internal_valid_def)
  show "ICompare a b < 0 \<longleftrightarrow> ICompare b a > 0"
    using sym [OF va vb] eq_sym [OF va vb] by (auto simp: ICompare_cases)
  define t where "t = InternalKey_FindShortestSeparator Compare Separator a b"
  define u where "u = Separator (ExtractUserKey a) (ExtractUserKey b)"
  have t: "t = a \<or> t = PutFixed64 u (PackSequenceAndType kMaxSequenceNumber kValueTypeForSeek) \<and>
      Compare (ExtractUserKey a) u < 0"
    by (simp add: t_def u_def InternalKey_FindShortestSeparator_def Let_def)
  have ut: "t \<noteq> a \<Longrightarrow> ExtractUserKey t = u \<and> 8 \<le> length t"
    using t by (auto simp: PutFixed64_def simp del: to_le.simps)
  show "internal_valid valid (InternalKey_FindShortestSeparator Compare Separator a b)"
    using a ut valid_separator [OF va vb] unfolding t_def [symmetric] u_def [symmetric]
    by (cases "t = a") (auto simp: internal_valid_def)
  show "ICompare a (InternalKey_FindShortestSeparator Compare Separator a b) \<le> 0 \<and>
      (InternalKey_FindShortestSeparator Compare Separator a b = a \<or>
       ICompare (InternalKey_FindShortestSeparator Compare Separator a b) b < 0)" if le: "ICompare a b \<le> 0"
  proof (cases "t = a")
    case True
    then show ?thesis using refl [OF va] by (simp add: t_def [symmetric] ICompare_cases)
  next
    case False
    then have less: "Compare (ExtractUserKey a) u < 0" using t by blast
    have "Compare (ExtractUserKey a) (ExtractUserKey b) \<le> 0" using le by (auto simp: ICompare_cases)
    from separator [OF va vb this] less refl [OF va] have "Compare u (ExtractUserKey b) < 0"
      by (auto simp: u_def)
    with less ut [OF False] show ?thesis by (simp add: t_def [symmetric] ICompare_cases)
  qed
  assume c: "internal_valid valid c"
  then have vc: "valid (ExtractUserKey c)" by (simp add: internal_valid_def)
  show "ICompare a c \<le> 0" if le: "ICompare a b \<le> 0" "ICompare b c \<le> 0"
  proof -
    consider "Compare (ExtractUserKey a) (ExtractUserKey b) < 0" "Compare (ExtractUserKey b) (ExtractUserKey c) \<le> 0"
      | "Compare (ExtractUserKey a) (ExtractUserKey b) = 0" "Compare (ExtractUserKey b) (ExtractUserKey c) < 0"
      | "Compare (ExtractUserKey a) (ExtractUserKey b) = 0" "Compare (ExtractUserKey b) (ExtractUserKey c) = 0"
        "key_number a \<ge> key_number b" "key_number b \<ge> key_number c"
      using le by (auto simp: ICompare_cases)
    then show ?thesis
    proof cases
      case 1
      from less_le_trans [OF va vb vc this] show ?thesis by (simp add: ICompare_cases)
    next
      case 2
      then show ?thesis using le_less_trans [OF va vb vc] by (simp add: ICompare_cases)
    next
      case 3
      then have "Compare (ExtractUserKey a) (ExtractUserKey c) \<le> 0" using trans [OF va vb vc] by simp
      with 3 show ?thesis by (auto simp: ICompare_cases)
    qed
  qed
qed

end

interpretation internal_bytewise: comparator "internal_valid (\<lambda>_. True)" "InternalKey_Compare slice_compare"
  "InternalKey_FindShortestSeparator slice_compare FindShortestSeparator"
  "InternalKey_FindShortSuccessor slice_compare FindShortSuccessor"
  by (rule bytewise.internal_comparator)

context filter_policy
begin

lemma internal_filter_policy:
  "filter_policy (InternalFilterPolicy_CreateFilter CreateFilter) (InternalFilterPolicy_KeyMayMatch KeyMayMatch)"
proof
  fix keys :: "slice list" and dst
  show "InternalFilterPolicy_CreateFilter CreateFilter keys dst = dst @ InternalFilterPolicy_CreateFilter CreateFilter keys []"
    unfolding InternalFilterPolicy_CreateFilter_def by (rule appends)
  fix key
  assume "key \<in> set keys"
  then show "InternalFilterPolicy_KeyMayMatch KeyMayMatch key (InternalFilterPolicy_CreateFilter CreateFilter keys [])"
    unfolding InternalFilterPolicy_CreateFilter_def InternalFilterPolicy_KeyMayMatch_def
    by (intro no_false_negatives) simp
qed

end

interpretation internal_bloom: filter_policy
  "InternalFilterPolicy_CreateFilter (bloom_CreateFilter (BloomFilterPolicy b))"
  "InternalFilterPolicy_KeyMayMatch bloom_KeyMayMatch" for b
  by (rule bloom.internal_filter_policy)

end
