(* ===== verification/DbProps.thy ===== *)
theory DbProps
  imports LogRecovery DbFormat
begin

text \<open>
  Properties of the database layer of leveldb: the log, the file limits, and internal keys.
\<close>

section \<open>The log\<close>

lemma recovered_at_least:
  assumes "prefix (log_records b (take n rs)) (take k (log_records b rs))"
    "j < length rs \<longrightarrow> k < length (log_records b (take (Suc j) rs))" "n \<le> length rs"
  shows "n \<le> j"
proof (rule ccontr)
  assume "\<not> n \<le> j"
  then have "take (Suc j) (take n rs) = take (Suc j) rs" by (simp add: min_def)
  then have "length (log_records b (take (Suc j) rs)) \<le> length (log_records b (take n rs))"
    using log_records_take [of b "Suc j" "take n rs"] prefix_length_le by fastforce
  also have "\<dots> \<le> k" using prefix_length_le [OF assms(1)] by simp
  finally show False using assms(2,3) \<open>\<not> n \<le> j\<close> by simp
qed

text \<open>
  C7. Records survive a crash: when records are added to a new log file until one fails, then reading
  back what has reached the system returns, in order and without reporting a corruption, at least all records
  that were acknowledged, followed at most by some that were not.
\<close>

theorem log_crash_recovery:
  assumes "write_ok P file_bytes interrupts" "file_bytes fd os = []" "read_ok Q rest interrupts'"
  shows "\<exists>n w'. add_records (PosixWritableFile_Append P) (PosixWritableFile_Flush P) rs
      (LogWriter (PosixWritableFile filename fd, os) 0) = Some (n, w') \<and>
    (\<forall>g os'. rest (sf_fd g) os' = file_written file_bytes (lw_dest w') \<longrightarrow>
      (\<exists>j r'. read_records (posix_Read Q) (posix_Skip Q) (Suc (length rs)) (LogReader (g, os') rep check 0) =
          Some (take j rs, r') \<and> n \<le> j \<and> j \<le> length rs \<and> reporter r' = rep))"
proof -
  define w where "w = LogWriter (PosixWritableFile filename fd, os) 0"
  have w: "file_written file_bytes (lw_dest w) = file_accepted file_bytes (lw_dest w)" "type_crc w = InitTypeCrc"
    "file_accepted file_bytes (lw_dest w) = []" "block_offset w = 0"
    using assms(2) by (simp_all add: w_def LogWriter_def PosixWritableFile_def file_written_def file_accepted_def)
  from posix_file.add_records_written [OF assms(1) w(1,2), of rs] w(3,4) obtain n w' where
    n: "add_records (PosixWritableFile_Append P) (PosixWritableFile_Flush P) rs w = Some (n, w')" "n \<le> length rs"
    "prefix (log_records 0 (take n rs)) (file_written file_bytes (lw_dest w'))"
    "prefix (file_written file_bytes (lw_dest w')) (log_records 0 rs)" by auto
  define k where "k = length (file_written file_bytes (lw_dest w'))"
  have k: "file_written file_bytes (lw_dest w') = take k (log_records 0 rs)"
    using n(4) by (auto simp: k_def prefix_def)
  have "\<exists>j r'. read_records (posix_Read Q) (posix_Skip Q) (Suc (length rs)) (LogReader (g, os') rep check 0) =
          Some (take j rs, r') \<and> n \<le> j \<and> j \<le> length rs \<and> reporter r' = rep"
    if "rest (sf_fd g) os' = file_written file_bytes (lw_dest w')" for g os'
  proof -
    from posix_seq.positioned_start [OF assms(3), of "(g, os')" rep check] that
    have "posix_seq.positioned rest Q interrupts' 0 (take k (log_records 0 rs)) (LogReader (g, os') rep check 0)"
      by (simp add: k)
    from posix_seq.recover [OF this lessI] obtain j r' where
      j: "read_records (posix_Read Q) (posix_Skip Q) (Suc (length rs)) (LogReader (g, os') rep check 0) = Some (take j rs, r')"
      "reporter r' = reporter (LogReader (g, os') rep check 0)" "j \<le> length rs"
      "j < length rs \<longrightarrow> k < length (log_records 0 (take (Suc j) rs))" by blast
    have "n \<le> j" by (rule recovered_at_least [OF n(3) [unfolded k] j(4) n(2)])
    with j(1,2,3) show ?thesis by (intro exI [of _ j] exI [of _ r']) (simp add: LogReader_def)
  qed
  with n(1) show ?thesis unfolding w_def by blast
qed

text \<open>A system with a single file, for instances: the state is what has been written, or what is left to read.\<close>

definition one_file :: "byte list posix" where
  "one_file = \<lparr>sys_open = (\<lambda>path os. (Inl ENOENT, os)), sys_close = (\<lambda>fd os. (Inr (), os)),
     sys_read = (\<lambda>fd n os. (Inr (take n os), drop n os)), sys_pread = (\<lambda>fd n k os. (Inr (take n (drop (unat k) os)), os)),
     sys_write = (\<lambda>fd data os. (Inr (length data), os @ data)), sys_lseek = (\<lambda>fd k os. (Inr (), drop (unat k) os)),
     sys_fullfsync = (\<lambda>fd os. (Inr (), os)), sys_fsync = (\<lambda>fd os. (Inr (), os)), strerror = (\<lambda>e. [])\<rparr>"

lemma one_file_ok: "write_ok one_file (\<lambda>fd os. os) (\<lambda>os. 0)" "read_ok one_file (\<lambda>fd os. os) (\<lambda>os. 0)"
  by (simp_all add: write_ok_def read_ok_def one_file_def)

theorem log_crash_recovery_witness:
  "\<exists>n w' j r'. add_records (PosixWritableFile_Append one_file) (PosixWritableFile_Flush one_file) [[1, 2], [3]]
      (LogWriter (PosixWritableFile (bytes_of ''000003.log'') 5, []) 0) = Some (n, w') \<and>
    read_records (posix_Read one_file) (posix_Skip one_file) 3
      (LogReader (\<lparr>sf_fd = 6, sf_filename = bytes_of ''000003.log''\<rparr>, file_written (\<lambda>fd os. os) (lw_dest w')) (Some []) True 0) =
      Some (take j [[1, 2], [3]], r') \<and> n \<le> j \<and> reporter r' = Some []"
  using log_crash_recovery [OF one_file_ok(1) refl one_file_ok(2), of "[[1, 2], [3]]" "bytes_of ''000003.log''" 5 "Some []" True]
  by (auto simp: numeral_3_eq_3) blast

section \<open>The limiter\<close>

text \<open>
  C37. However the atomic operations of the threads interleave, never more than \<open>max_acquires\<close> of them
  hold the resource, and when all threads are idle again the counter is back at \<open>max_acquires\<close>.
\<close>

theorem limiter_bounded:
  assumes "limiter_step\<^sup>*\<^sup>* (Limiter max_acquires threads) s"
  shows "holding s \<le> max_acquires \<and> (set (phases s) \<subseteq> {Idle} \<longrightarrow> acquires_allowed s = int max_acquires)"
proof -
  have "filter (\<lambda>p. p \<noteq> Idle) (phases s) = []" if "set (phases s) \<subseteq> {Idle}"
    using that by (auto simp: filter_empty_conv)
  then show ?thesis using limiter_reachable [OF assms] by (auto simp: limiter_inv_def)
qed

theorem limiter_bounded_witness:
  "holding \<lparr>acquires_allowed = 0, phases = [Holding, Idle]\<rparr> \<le> 1"
proof -
  have "limiter_step (Limiter 1 2) \<lparr>acquires_allowed = 0, phases = [Holding, Idle]\<rparr>"
    using limiter_step.fetch_sub [of 0 "Limiter 1 2"] by (simp add: Limiter_def numeral_2_eq_2)
  from limiter_bounded [OF r_into_rtranclp, OF this] show ?thesis by simp
qed

section \<open>Internal keys\<close>

text \<open>
  C38. Internal keys come back: what \<open>AppendInternalKey\<close> wrote, \<open>ParseInternalKey\<close> reads, for every sequence
  number below \<open>2 ^ 56\<close>; and the order of two such keys is by user key, then by decreasing sequence number and type.
\<close>

theorem internal_key_roundtrip:
  assumes "key_sequence a \<le> kMaxSequenceNumber" "key_type a \<le> kTypeValue" "key_sequence b \<le> kMaxSequenceNumber"
  shows "ParseInternalKey (AppendInternalKey [] a) = (True, Some a) \<and>
    (InternalKey_Compare slice_compare (AppendInternalKey [] a) (AppendInternalKey [] b) < 0 \<longleftrightarrow>
       slice_compare (user_key a) (user_key b) < 0 \<or>
       user_key a = user_key b \<and>
         (key_sequence a > key_sequence b \<or> key_sequence a = key_sequence b \<and> key_type a > key_type b))"
  using ParseInternalKey_Append [OF assms(1,2)] InternalKey_Compare_Append [OF assms(1,3), of slice_compare]
  by (auto simp: Let_def)

theorem internal_key_roundtrip_witness:
  "ParseInternalKey (AppendInternalKey [] \<lparr>user_key = [7], key_sequence = 5, key_type = 1\<rparr>) =
     (True, Some \<lparr>user_key = [7], key_sequence = 5, key_type = 1\<rparr>)"
  using internal_key_roundtrip [of "\<lparr>user_key = [7], key_sequence = 5, key_type = 1\<rparr>"
      "\<lparr>user_key = [7], key_sequence = 5, key_type = 1\<rparr>"]
  by (simp add: kMaxSequenceNumber_def)

text \<open>
  C39. The separator of two internal keys \<open>a < b\<close> is an internal key in \<open>[a, b)\<close> that is not longer than \<open>a\<close>; the
  successor of \<open>a\<close> is not smaller and not longer than \<open>a\<close>.
\<close>

theorem internal_separator:
  assumes "8 \<le> length a" "8 \<le> length b" "InternalKey_Compare slice_compare a b < 0"
  defines "s \<equiv> InternalKey_FindShortestSeparator slice_compare FindShortestSeparator a b"
    and "t \<equiv> InternalKey_FindShortSuccessor slice_compare FindShortSuccessor a"
  shows "8 \<le> length s \<and> length s \<le> length a \<and> InternalKey_Compare slice_compare a s \<le> 0 \<and>
    InternalKey_Compare slice_compare s b < 0 \<and>
    8 \<le> length t \<and> length t \<le> length a \<and> InternalKey_Compare slice_compare a t \<le> 0"
proof -
  have v: "internal_valid (\<lambda>_. True) a" "internal_valid (\<lambda>_. True) b" using assms(1,2) by (simp_all add: internal_valid_def)
  have "length s \<le> length a" "length t \<le> length a"
    using assms(1) by (auto simp: s_def t_def InternalKey_FindShortestSeparator_def InternalKey_FindShortSuccessor_def Let_def
        PutFixed64_def ExtractUserKey_def simp del: to_le.simps)
  then show ?thesis
    using internal_bytewise.separator_less [OF v assms(3)] internal_bytewise.valid_separator [OF v]
      internal_bytewise.successor [OF v(1)] internal_bytewise.valid_successor [OF v(1)]
    by (simp add: s_def t_def internal_valid_def)
qed

theorem internal_separator_witness:
  "InternalKey_Compare slice_compare (InternalKey_FindShortestSeparator slice_compare FindShortestSeparator
     ([1, 5, 9] @ to_le 8 257) ([1, 9] @ to_le 8 257)) ([1, 9] @ to_le 8 257) < 0"
proof -
  have "InternalKey_Compare slice_compare ([1, 5, 9] @ to_le 8 257) ([1, 9] @ to_le 8 257) < 0"
    unfolding InternalKey_Compare_def ExtractUserKey_append by simp
  from internal_separator [OF _ _ this] show ?thesis by (simp del: to_le.simps)
qed

end
