(* ===== verification/VersionEdit.thy ===== *)
theory VersionEdit
  imports DbStatus DbFormat "HOL-Library.Product_Lexorder" "HOL-Library.Monad_Syntax"
begin

text \<open>
  \<open>db/version_edit.cc\<close> and \<open>db/version_edit.h\<close> of leveldb: the changes from one version of the database's set
  of files to the next, and their records in the manifest.  An \<open>InternalKey\<close> is its \<open>rep_\<close>, empty when it is not
  set; a \<open>std::set\<close> is iterated in increasing order.  \<open>EncodeTo\<close> has no result, \<open>None\<close>, when the assertion of
  \<open>InternalKey::Encode\<close> fails, which ends the program.
\<close>

section \<open>Edits\<close>

definition kNumLevels :: int where
  "kNumLevels = 7"

record file_meta =
  file_refs :: int
  allowed_seeks :: int
  file_number :: u64
  file_size :: u64
  smallest :: slice
  largest :: slice

text \<open>The constructor leaves the number unset: it is whatever was there.\<close>

definition FileMetaData :: "u64 \<Rightarrow> file_meta" where
  "FileMetaData unset =
     \<lparr>file_refs = 0, allowed_seeks = 2 ^ 30, file_number = unset, file_size = 0, smallest = [], largest = []\<rparr>"

record version_edit =
  comparator_name :: "byte list"
  log_number :: u64
  prev_log_number :: u64
  next_file_number :: u64
  last_sequence :: SequenceNumber
  has_comparator :: bool
  has_log_number :: bool
  has_prev_log_number :: bool
  has_next_file_number :: bool
  has_last_sequence :: bool
  compact_pointers :: "(int \<times> slice) list"
  deleted_files :: "(int \<times> u64) set"
  new_files :: "(int \<times> file_meta) list"

definition VersionEdit_Clear :: "version_edit \<Rightarrow> version_edit" where
  "VersionEdit_Clear e = e\<lparr>comparator_name := [], log_number := 0, prev_log_number := 0, last_sequence := 0,
     next_file_number := 0, has_comparator := False, has_log_number := False, has_prev_log_number := False,
     has_next_file_number := False, has_last_sequence := False, deleted_files := {}, new_files := []\<rparr>"

definition VersionEdit :: "u64 \<Rightarrow> version_edit" where
  "VersionEdit unset = VersionEdit_Clear
     \<lparr>comparator_name = [], log_number = unset, prev_log_number = unset, next_file_number = unset,
      last_sequence = unset, has_comparator = False, has_log_number = False, has_prev_log_number = False,
      has_next_file_number = False, has_last_sequence = False, compact_pointers = [], deleted_files = {},
      new_files = []\<rparr>"

definition SetComparatorName :: "slice \<Rightarrow> version_edit \<Rightarrow> version_edit" where
  "SetComparatorName name e = e\<lparr>has_comparator := True, comparator_name := name\<rparr>"

definition SetLogNumber :: "u64 \<Rightarrow> version_edit \<Rightarrow> version_edit" where
  "SetLogNumber num e = e\<lparr>has_log_number := True, log_number := num\<rparr>"

definition SetPrevLogNumber :: "u64 \<Rightarrow> version_edit \<Rightarrow> version_edit" where
  "SetPrevLogNumber num e = e\<lparr>has_prev_log_number := True, prev_log_number := num\<rparr>"

definition SetNextFile :: "u64 \<Rightarrow> version_edit \<Rightarrow> version_edit" where
  "SetNextFile num e = e\<lparr>has_next_file_number := True, next_file_number := num\<rparr>"

definition SetLastSequence :: "SequenceNumber \<Rightarrow> version_edit \<Rightarrow> version_edit" where
  "SetLastSequence seq e = e\<lparr>has_last_sequence := True, last_sequence := seq\<rparr>"

definition SetCompactPointer :: "int \<Rightarrow> slice \<Rightarrow> version_edit \<Rightarrow> version_edit" where
  "SetCompactPointer level k e = e\<lparr>compact_pointers := compact_pointers e @ [(level, k)]\<rparr>"

definition AddFile :: "int \<Rightarrow> u64 \<Rightarrow> u64 \<Rightarrow> slice \<Rightarrow> slice \<Rightarrow> version_edit \<Rightarrow> version_edit" where
  "AddFile level file fsize small large e =
     (let f = (FileMetaData file)\<lparr>file_number := file, file_size := fsize, smallest := small, largest := large\<rparr>
      in e\<lparr>new_files := new_files e @ [(level, f)]\<rparr>)"

definition VersionEdit_DeleteFile :: "int \<Rightarrow> u64 \<Rightarrow> version_edit \<Rightarrow> version_edit" where
  "VersionEdit_DeleteFile level file e = e\<lparr>deleted_files := insert (level, file) (deleted_files e)\<rparr>"

section \<open>Encoding\<close>

abbreviation (input) kComparator :: u32 where "kComparator \<equiv> 1"
abbreviation (input) kLogNumber :: u32 where "kLogNumber \<equiv> 2"
abbreviation (input) kNextFileNumber :: u32 where "kNextFileNumber \<equiv> 3"
abbreviation (input) kLastSequence :: u32 where "kLastSequence \<equiv> 4"
abbreviation (input) kCompactPointer :: u32 where "kCompactPointer \<equiv> 5"
abbreviation (input) kDeletedFile :: u32 where "kDeletedFile \<equiv> 6"
abbreviation (input) kNewFile :: u32 where "kNewFile \<equiv> 7"
abbreviation (input) kPrevLogNumber :: u32 where "kPrevLogNumber \<equiv> 9"

definition encode_compact_pointer :: "int \<times> slice \<Rightarrow> byte list \<Rightarrow> byte list option" where
  "encode_compact_pointer p dst = do {
     key \<leftarrow> InternalKey_Encode (snd p);
     Some (PutLengthPrefixedSlice (PutVarint32 (PutVarint32 dst kCompactPointer) (of_int (fst p))) key)
   }"

definition encode_deleted_file :: "int \<times> u64 \<Rightarrow> byte list \<Rightarrow> byte list" where
  "encode_deleted_file p dst = PutVarint64 (PutVarint32 (PutVarint32 dst kDeletedFile) (of_int (fst p))) (snd p)"

definition encode_new_file :: "int \<times> file_meta \<Rightarrow> byte list \<Rightarrow> byte list option" where
  "encode_new_file p dst = do {
     let f = snd p;
     let dst = PutVarint32 dst kNewFile;
     let dst = PutVarint32 dst (of_int (fst p));
     let dst = PutVarint64 dst (file_number f);
     let dst = PutVarint64 dst (file_size f);
     small \<leftarrow> InternalKey_Encode (smallest f);
     let dst = PutLengthPrefixedSlice dst small;
     large \<leftarrow> InternalKey_Encode (largest f);
     Some (PutLengthPrefixedSlice dst large)
   }"

text \<open>A loop whose body may fail an assertion.\<close>

fun encode_all :: "('x \<Rightarrow> byte list \<Rightarrow> byte list option) \<Rightarrow> 'x list \<Rightarrow> byte list \<Rightarrow> byte list option" where
  "encode_all f [] dst = Some dst"
| "encode_all f (x # xs) dst = do { dst \<leftarrow> f x dst; encode_all f xs dst }"

definition VersionEdit_EncodeTo :: "version_edit \<Rightarrow> byte list \<Rightarrow> byte list option" where
  "VersionEdit_EncodeTo e dst = do {
     let dst = (if has_comparator e then PutLengthPrefixedSlice (PutVarint32 dst kComparator) (comparator_name e) else dst);
     let dst = (if has_log_number e then PutVarint64 (PutVarint32 dst kLogNumber) (log_number e) else dst);
     let dst = (if has_prev_log_number e then PutVarint64 (PutVarint32 dst kPrevLogNumber) (prev_log_number e) else dst);
     let dst = (if has_next_file_number e then PutVarint64 (PutVarint32 dst kNextFileNumber) (next_file_number e) else dst);
     let dst = (if has_last_sequence e then PutVarint64 (PutVarint32 dst kLastSequence) (last_sequence e) else dst);
     dst \<leftarrow> encode_all encode_compact_pointer (compact_pointers e) dst;
     let dst = fold encode_deleted_file (sorted_list_of_set (deleted_files e)) dst;
     encode_all encode_new_file (new_files e) dst
   }"

section \<open>Decoding\<close>

definition GetInternalKey :: "slice \<Rightarrow> slice option \<times> slice" where
  "GetInternalKey input = GetLengthPrefixedSlice input"

definition GetLevel :: "slice \<Rightarrow> int option \<times> slice" where
  "GetLevel input =
     on_ok (GetVarint32 input) (\<lambda>v input. if v < of_int kNumLevels then (Some (uint v), input) else (None, input))
       (\<lambda>input. (None, input))"

text \<open>The body of the \<open>switch\<close>: the message on failure, which leaves the edit as it was.\<close>

definition decode_new_file :: "version_edit \<Rightarrow> slice \<Rightarrow> (string + version_edit) \<times> slice" where
  "decode_new_file e input =
     (let failed = (\<lambda>input. (Inl ''new-file entry'', input)) in
      on_ok (GetLevel input) (\<lambda>level input.
        on_ok (GetVarint64 input) (\<lambda>number input.
          on_ok (GetVarint64 input) (\<lambda>fsize input.
            on_ok (GetInternalKey input) (\<lambda>small input.
              on_ok (GetInternalKey input) (\<lambda>large input.
                let f = (FileMetaData number)\<lparr>file_size := fsize, smallest := small, largest := large\<rparr>
                in (Inr (e\<lparr>new_files := new_files e @ [(level, f)]\<rparr>), input))
              failed) failed) failed) failed) failed)"

definition decode_field :: "u32 \<Rightarrow> version_edit \<Rightarrow> slice \<Rightarrow> (string + version_edit) \<times> slice" where
  "decode_field tag e input =
     (if tag = kComparator then
        on_ok (GetLengthPrefixedSlice input)
          (\<lambda>str input. (Inr (e\<lparr>comparator_name := str, has_comparator := True\<rparr>), input))
          (\<lambda>input. (Inl ''comparator name'', input))
      else if tag = kLogNumber then
        on_ok (GetVarint64 input) (\<lambda>v input. (Inr (e\<lparr>log_number := v, has_log_number := True\<rparr>), input))
          (\<lambda>input. (Inl ''log number'', input))
      else if tag = kPrevLogNumber then
        on_ok (GetVarint64 input) (\<lambda>v input. (Inr (e\<lparr>prev_log_number := v, has_prev_log_number := True\<rparr>), input))
          (\<lambda>input. (Inl ''previous log number'', input))
      else if tag = kNextFileNumber then
        on_ok (GetVarint64 input) (\<lambda>v input. (Inr (e\<lparr>next_file_number := v, has_next_file_number := True\<rparr>), input))
          (\<lambda>input. (Inl ''next file number'', input))
      else if tag = kLastSequence then
        on_ok (GetVarint64 input) (\<lambda>v input. (Inr (e\<lparr>last_sequence := v, has_last_sequence := True\<rparr>), input))
          (\<lambda>input. (Inl ''last sequence number'', input))
      else if tag = kCompactPointer then
        on_ok (GetLevel input) (\<lambda>level input.
          on_ok (GetInternalKey input)
            (\<lambda>k input. (Inr (e\<lparr>compact_pointers := compact_pointers e @ [(level, k)]\<rparr>), input))
            (\<lambda>input. (Inl ''compaction pointer'', input))) (\<lambda>input. (Inl ''compaction pointer'', input))
      else if tag = kDeletedFile then
        on_ok (GetLevel input) (\<lambda>level input.
          on_ok (GetVarint64 input)
            (\<lambda>number input. (Inr (e\<lparr>deleted_files := insert (level, number) (deleted_files e)\<rparr>), input))
            (\<lambda>input. (Inl ''deleted file'', input))) (\<lambda>input. (Inl ''deleted file'', input))
      else if tag = kNewFile then decode_new_file e input
      else (Inl ''unknown tag'', input))"

lemma GetVarint64_takes:
  assumes "GetVarint64 input = (v, q)"
  shows "length q \<le> length input"
  using assms GetVarint64Ptr_takes [of input]
  by (fastforce simp: GetVarint64_def split: option.splits prod.splits)

lemma GetVarint32_shrinks:
  "GetVarint32 input = (Some v, q) \<Longrightarrow> length q < length input"
  "GetVarint32 input = (r, q) \<Longrightarrow> length q \<le> length input"
  using GetVarint32_takes [of input "Some v" q] GetVarint32_takes [of input r q] by auto

lemma GetLengthPrefixedSlice_shrinks: "GetLengthPrefixedSlice input = (r, q) \<Longrightarrow> length q \<le> length input"
  using GetLengthPrefixedSlice_takes [of input r q] by auto

lemma GetInternalKey_shrinks: "GetInternalKey input = (r, q) \<Longrightarrow> length q \<le> length input"
  by (simp add: GetInternalKey_def GetLengthPrefixedSlice_shrinks)

lemma GetLevel_shrinks: "GetLevel input = (r, q) \<Longrightarrow> length q \<le> length input"
  by (auto simp: GetLevel_def GetVarint32_shrinks(2) split: on_ok_splits if_splits)

lemmas shrinks = GetVarint64_takes GetVarint32_shrinks(2) GetLengthPrefixedSlice_shrinks GetInternalKey_shrinks
  GetLevel_shrinks

lemma on_ok_shrinks:
  assumes "on_ok r k f = (x, q)" "\<And>v s. r = (v, s) \<Longrightarrow> length s \<le> n"
    "\<And>a s. k a s = (x, q) \<Longrightarrow> length q \<le> length s" "\<And>s. f s = (x, q) \<Longrightarrow> length q \<le> length s"
  shows "length q \<le> n"
  using assms by (cases r; cases "fst r") (auto intro: order_trans)

lemma decode_new_file_shrinks: "decode_new_file e input = (r, q) \<Longrightarrow> length q \<le> length input"
  unfolding decode_new_file_def Let_def
  by (elim on_ok_shrinks shrinks) auto

lemma decode_field_shrinks: "decode_field tag e input = (r, q) \<Longrightarrow> length q \<le> length input"
  unfolding decode_field_def
  by (auto split: if_splits elim!: on_ok_shrinks shrinks decode_new_file_shrinks)

function decode_edit_loop :: "version_edit \<Rightarrow> slice \<Rightarrow> string option \<times> version_edit \<times> slice" where
  "decode_edit_loop e input =
     on_ok (GetVarint32 input)
       (\<lambda>tag input. case decode_field tag e input of
           (Inl msg, input) \<Rightarrow> (Some msg, e, input)
         | (Inr e, input) \<Rightarrow> decode_edit_loop e input)
       (\<lambda>input. (None, e, input))"
  by pat_completeness auto
termination
  by (relation "measure (\<lambda>(e, input). length input)")
    (auto dest!: GetVarint32_shrinks(1) sym [THEN decode_field_shrinks])

declare decode_edit_loop.simps [simp del]

definition VersionEdit_DecodeFrom :: "slice \<Rightarrow> version_edit \<Rightarrow> status \<times> version_edit" where
  "VersionEdit_DecodeFrom src e =
     (let (msg, e, input) = decode_edit_loop (VersionEdit_Clear e) src;
          msg = if msg = None \<and> input \<noteq> [] then Some ''invalid tag'' else msg
      in (case msg of
            Some m \<Rightarrow> Status_Corruption (bytes_of ''VersionEdit'') (bytes_of m)
          | None \<Rightarrow> Status_OK, e))"

section \<open>Printing\<close>

text \<open>\<open>AppendNumberTo(&r, level)\<close> converts the level to \<open>uint64_t\<close>.\<close>

definition debug_compact_pointer :: "int \<times> slice \<Rightarrow> byte list \<Rightarrow> byte list" where
  "debug_compact_pointer p r =
     AppendNumberTo (r @ [10] @ bytes_of ''  CompactPointer: '') (of_int (fst p)) @ bytes_of '' '' @
     InternalKey_DebugString (snd p)"

definition debug_deleted_file :: "int \<times> u64 \<Rightarrow> byte list \<Rightarrow> byte list" where
  "debug_deleted_file p r =
     AppendNumberTo (AppendNumberTo (r @ [10] @ bytes_of ''  DeleteFile: '') (of_int (fst p)) @ bytes_of '' '') (snd p)"

definition debug_new_file :: "int \<times> file_meta \<Rightarrow> byte list \<Rightarrow> byte list" where
  "debug_new_file p r =
     (let f = snd p;
          r = AppendNumberTo (r @ [10] @ bytes_of ''  AddFile: '') (of_int (fst p));
          r = AppendNumberTo (r @ bytes_of '' '') (file_number f);
          r = AppendNumberTo (r @ bytes_of '' '') (file_size f)
      in r @ bytes_of '' '' @ InternalKey_DebugString (smallest f) @ bytes_of '' .. '' @
         InternalKey_DebugString (largest f))"

definition VersionEdit_DebugString :: "version_edit \<Rightarrow> byte list" where
  "VersionEdit_DebugString e =
     (let r = bytes_of ''VersionEdit {'';
          r = if has_comparator e then r @ [10] @ bytes_of ''  Comparator: '' @ comparator_name e else r;
          r = if has_log_number e then AppendNumberTo (r @ [10] @ bytes_of ''  LogNumber: '') (log_number e) else r;
          r = if has_prev_log_number e
              then AppendNumberTo (r @ [10] @ bytes_of ''  PrevLogNumber: '') (prev_log_number e) else r;
          r = if has_next_file_number e
              then AppendNumberTo (r @ [10] @ bytes_of ''  NextFile: '') (next_file_number e) else r;
          r = if has_last_sequence e
              then AppendNumberTo (r @ [10] @ bytes_of ''  LastSeq: '') (last_sequence e) else r;
          r = fold debug_compact_pointer (compact_pointers e) r;
          r = fold debug_deleted_file (sorted_list_of_set (deleted_files e)) r;
          r = fold debug_new_file (new_files e) r
      in r @ [10] @ bytes_of ''}'' @ [10])"

section \<open>What is encoded\<close>

text \<open>
  An edit can be written when its levels exist, its strings fit a 32-bit length, its files are as the
  constructor makes them and what is not set has the value \<open>Clear\<close> gives it.
\<close>

definition level_ok :: "int \<Rightarrow> bool" where
  "level_ok level \<longleftrightarrow> 0 \<le> level \<and> level < kNumLevels"

definition file_ok :: "file_meta \<Rightarrow> bool" where
  "file_ok f \<longleftrightarrow> file_refs f = 0 \<and> allowed_seeks f = 2 ^ 30 \<and> length (smallest f) < 2 ^ 32 \<and> length (largest f) < 2 ^ 32"

definition edit_ok :: "version_edit \<Rightarrow> bool" where
  "edit_ok e \<longleftrightarrow>
     length (comparator_name e) < 2 ^ 32 \<and>
     (\<not> has_comparator e \<longrightarrow> comparator_name e = []) \<and> (\<not> has_log_number e \<longrightarrow> log_number e = 0) \<and>
     (\<not> has_prev_log_number e \<longrightarrow> prev_log_number e = 0) \<and> (\<not> has_next_file_number e \<longrightarrow> next_file_number e = 0) \<and>
     (\<not> has_last_sequence e \<longrightarrow> last_sequence e = 0) \<and>
     (\<forall>(level, k) \<in> set (compact_pointers e). level_ok level \<and> length k < 2 ^ 32) \<and>
     finite (deleted_files e) \<and> (\<forall>(level, n) \<in> deleted_files e. level_ok level) \<and>
     (\<forall>(level, f) \<in> set (new_files e). level_ok level \<and> file_ok f)"

text \<open>The internal keys of an edit are set, so that they can be encoded.\<close>

definition keys_set :: "version_edit \<Rightarrow> bool" where
  "keys_set e \<longleftrightarrow> (\<forall>(level, k) \<in> set (compact_pointers e). k \<noteq> []) \<and>
     (\<forall>(level, f) \<in> set (new_files e). smallest f \<noteq> [] \<and> largest f \<noteq> [])"

lemma GetVarint32_const [simp]:
  "GetVarint32 (varint_bytes (unat tag) @ rest) = (Some tag, rest)"
  by (rule GetVarint32_bytes)

lemma GetLevel_bytes:
  assumes "level_ok level"
  shows "GetLevel (varint_bytes (unat (of_int level :: u32)) @ rest) = (Some level, rest)"
proof -
  have "uint (of_int level :: u32) = level"
    using assms by (simp add: level_ok_def kNumLevels_def uint_word_of_int_eq take_bit_int_eq_self)
  moreover have "(of_int level :: u32) < 7"
    using assms calculation by (simp add: word_less_def level_ok_def kNumLevels_def)
  ultimately show ?thesis by (simp add: GetLevel_def kNumLevels_def)
qed

section \<open>Decoding one field\<close>

lemmas decode_bytes = GetVarint64_bytes GetLevel_bytes GetLengthPrefixedSlice_bytes GetInternalKey_def

lemma decode_edit_step:
  assumes "decode_field tag e (body @ rest) = (Inr e', rest)"
  shows "decode_edit_loop e (varint_bytes (unat tag) @ body @ rest) = decode_edit_loop e' rest"
  by (subst decode_edit_loop.simps) (simp add: assms)

lemma decode_edit_Nil: "decode_edit_loop e [] = (None, e, [])"
  by (subst decode_edit_loop.simps) (simp add: GetVarint32_def GetVarint32Ptr_def GetVarint32PtrFallback_def)

definition scalar_bytes :: "version_edit \<Rightarrow> byte list" where
  "scalar_bytes e =
     (if has_comparator e then varint_bytes (unat kComparator) @ length_prefixed (comparator_name e) else []) @
     (if has_log_number e then varint_bytes (unat kLogNumber) @ varint_bytes (unat (log_number e)) else []) @
     (if has_prev_log_number e then varint_bytes (unat kPrevLogNumber) @ varint_bytes (unat (prev_log_number e)) else []) @
     (if has_next_file_number e then varint_bytes (unat kNextFileNumber) @ varint_bytes (unat (next_file_number e)) else []) @
     (if has_last_sequence e then varint_bytes (unat kLastSequence) @ varint_bytes (unat (last_sequence e)) else [])"

definition level_bytes :: "int \<Rightarrow> byte list" where
  "level_bytes level = varint_bytes (unat (of_int level :: u32))"

definition pointer_bytes :: "int \<times> slice \<Rightarrow> byte list" where
  "pointer_bytes p = varint_bytes (unat kCompactPointer) @ level_bytes (fst p) @ length_prefixed (snd p)"

definition deleted_bytes :: "int \<times> u64 \<Rightarrow> byte list" where
  "deleted_bytes p = varint_bytes (unat kDeletedFile) @ level_bytes (fst p) @ varint_bytes (unat (snd p))"

definition new_file_bytes :: "int \<times> file_meta \<Rightarrow> byte list" where
  "new_file_bytes p =
     varint_bytes (unat kNewFile) @ level_bytes (fst p) @ varint_bytes (unat (file_number (snd p))) @
     varint_bytes (unat (file_size (snd p))) @ length_prefixed (smallest (snd p)) @ length_prefixed (largest (snd p))"

definition edit_bytes :: "version_edit \<Rightarrow> byte list" where
  "edit_bytes e = scalar_bytes e @ concat (map pointer_bytes (compact_pointers e)) @
     concat (map deleted_bytes (sorted_list_of_set (deleted_files e))) @ concat (map new_file_bytes (new_files e))"

lemma fold_append: "(\<And>x dst. x \<in> set xs \<Longrightarrow> f x dst = dst @ g x) \<Longrightarrow> fold f xs dst = dst @ concat (map g xs)"
  by (induction xs arbitrary: dst) simp_all

lemma encode_all_append:
  "(\<And>x dst. x \<in> set xs \<Longrightarrow> f x dst = Some (dst @ g x)) \<Longrightarrow> encode_all f xs dst = Some (dst @ concat (map g xs))"
  by (induction xs arbitrary: dst) simp_all

lemma encode_all_fails: "x \<in> set xs \<Longrightarrow> (\<And>dst. f x dst = None) \<Longrightarrow> encode_all f xs dst = None"
  by (induction xs arbitrary: dst) (auto split: Option.bind_splits)

lemma EncodeTo_bytes:
  assumes "edit_ok e" "keys_set e"
  shows "VersionEdit_EncodeTo e dst = Some (dst @ edit_bytes e)"
proof -
  have p: "encode_all encode_compact_pointer (compact_pointers e) d = Some (d @ concat (map pointer_bytes (compact_pointers e)))" for d
    by (rule encode_all_append)
      (use assms in \<open>auto simp: edit_ok_def keys_set_def encode_compact_pointer_def InternalKey_Encode_def pointer_bytes_def
         level_bytes_def PutLengthPrefixedSlice_bytes PutVarint32_bytes\<close>)
  have d: "fold encode_deleted_file xs d = d @ concat (map deleted_bytes xs)" for xs d
    by (rule fold_append)
      (simp add: encode_deleted_file_def deleted_bytes_def level_bytes_def PutVarint32_bytes PutVarint64_bytes)
  have n: "encode_all encode_new_file (new_files e) d = Some (d @ concat (map new_file_bytes (new_files e)))" for d
    by (rule encode_all_append)
      (use assms in \<open>auto simp: edit_ok_def keys_set_def file_ok_def encode_new_file_def InternalKey_Encode_def new_file_bytes_def
         level_bytes_def Let_def PutLengthPrefixedSlice_bytes PutVarint32_bytes PutVarint64_bytes\<close>)
  show ?thesis
    using assms(1) unfolding VersionEdit_EncodeTo_def Let_def p d n Option.bind.bind_lunit
    by (simp add: edit_bytes_def scalar_bytes_def edit_ok_def PutLengthPrefixedSlice_bytes PutVarint32_bytes PutVarint64_bytes)
qed

lemma EncodeTo_fails:
  assumes "\<not> keys_set e"
  shows "VersionEdit_EncodeTo e dst = None"
proof -
  consider level where "(level, []) \<in> set (compact_pointers e)"
    | level f where "(level, f) \<in> set (new_files e)" "smallest f = [] \<or> largest f = []"
    using assms by (auto simp: keys_set_def)
  then show ?thesis
  proof cases
    case 1
    then have "encode_all encode_compact_pointer (compact_pointers e) d = None" for d
      by (rule encode_all_fails) (simp add: encode_compact_pointer_def InternalKey_Encode_def)
    then show ?thesis by (simp add: VersionEdit_EncodeTo_def Let_def)
  next
    case 2
    then have "encode_all encode_new_file (new_files e) d = None" for d
      by (intro encode_all_fails [OF 2(1)]) (auto simp: encode_new_file_def InternalKey_Encode_def Let_def split: Option.bind_splits)
    then show ?thesis by (simp add: VersionEdit_EncodeTo_def Let_def split: Option.bind_splits)
  qed
qed

section \<open>Decoding what was encoded\<close>

lemma decode_optional:
  assumes "b \<Longrightarrow> decode_field tag f (body @ r) = (Inr g, r)" "\<not> b \<Longrightarrow> g = f"
  shows "decode_edit_loop f ((if b then varint_bytes (unat tag) @ body else []) @ r) = decode_edit_loop g r"
  using assms decode_edit_step [of tag f body r g] by simp

lemma decode_scalars:
  assumes "edit_ok e"
  shows "decode_edit_loop (VersionEdit_Clear e0) (scalar_bytes e @ rest) =
      decode_edit_loop (e\<lparr>compact_pointers := compact_pointers e0, deleted_files := {}, new_files := []\<rparr>) rest"
proof -
  define f0 where "f0 = VersionEdit_Clear e0"
  define f1 where "f1 = f0\<lparr>comparator_name := comparator_name e, has_comparator := has_comparator e\<rparr>"
  define f2 where "f2 = f1\<lparr>log_number := log_number e, has_log_number := has_log_number e\<rparr>"
  define f3 where "f3 = f2\<lparr>prev_log_number := prev_log_number e, has_prev_log_number := has_prev_log_number e\<rparr>"
  define f4 where "f4 = f3\<lparr>next_file_number := next_file_number e, has_next_file_number := has_next_file_number e\<rparr>"
  define f5 where "f5 = f4\<lparr>last_sequence := last_sequence e, has_last_sequence := has_last_sequence e\<rparr>"
  note fs = f0_def f1_def f2_def f3_def f4_def f5_def
  have ok: "length (comparator_name e) < 2 ^ 32" "\<not> has_comparator e \<Longrightarrow> comparator_name e = []"
    "\<not> has_log_number e \<Longrightarrow> log_number e = 0" "\<not> has_prev_log_number e \<Longrightarrow> prev_log_number e = 0"
    "\<not> has_next_file_number e \<Longrightarrow> next_file_number e = 0" "\<not> has_last_sequence e \<Longrightarrow> last_sequence e = 0"
    using assms by (simp_all add: edit_ok_def)
  have step: "decode_edit_loop f0 ((if has_comparator e then varint_bytes (unat kComparator) @
        length_prefixed (comparator_name e) else []) @ r) = decode_edit_loop f1 r" for r
    by (rule decode_optional) (use ok(1) in \<open>simp_all add: fs decode_field_def GetLengthPrefixedSlice_bytes
      VersionEdit_Clear_def ok(2)\<close>)
  have steps:
    "decode_edit_loop f1 ((if has_log_number e then varint_bytes (unat kLogNumber) @
        varint_bytes (unat (log_number e)) else []) @ r) = decode_edit_loop f2 r"
    "decode_edit_loop f2 ((if has_prev_log_number e then varint_bytes (unat kPrevLogNumber) @
        varint_bytes (unat (prev_log_number e)) else []) @ r) = decode_edit_loop f3 r"
    "decode_edit_loop f3 ((if has_next_file_number e then varint_bytes (unat kNextFileNumber) @
        varint_bytes (unat (next_file_number e)) else []) @ r) = decode_edit_loop f4 r"
    "decode_edit_loop f4 ((if has_last_sequence e then varint_bytes (unat kLastSequence) @
        varint_bytes (unat (last_sequence e)) else []) @ r) = decode_edit_loop f5 r" for r
    by (rule decode_optional; simp add: fs decode_field_def GetVarint64_bytes VersionEdit_Clear_def ok(3-))+
  have "decode_edit_loop f0 (scalar_bytes e @ rest) = decode_edit_loop f5 rest"
    unfolding scalar_bytes_def append_assoc step steps ..
  moreover have "f5 = e\<lparr>compact_pointers := compact_pointers e0, deleted_files := {}, new_files := []\<rparr>"
    by (simp add: fs VersionEdit_Clear_def)
  ultimately show ?thesis by (simp add: f0_def)
qed

text \<open>A list of fields of one kind: each adds what it encodes.\<close>

lemma decode_list:
  assumes "\<And>x f r. x \<in> set xs \<Longrightarrow> decode_edit_loop f (g x @ r) = decode_edit_loop (add x f) r"
  shows "decode_edit_loop f (concat (map g xs) @ r) = decode_edit_loop (fold add xs f) r"
  using assms by (induction xs arbitrary: f) simp_all

definition add_pointer :: "int \<times> slice \<Rightarrow> version_edit \<Rightarrow> version_edit" where
  "add_pointer p f = f\<lparr>compact_pointers := compact_pointers f @ [p]\<rparr>"

definition add_deleted :: "int \<times> u64 \<Rightarrow> version_edit \<Rightarrow> version_edit" where
  "add_deleted p f = f\<lparr>deleted_files := insert p (deleted_files f)\<rparr>"

definition add_new_file :: "int \<times> file_meta \<Rightarrow> version_edit \<Rightarrow> version_edit" where
  "add_new_file p f = f\<lparr>new_files := new_files f @ [p]\<rparr>"

lemma decode_pointer:
  assumes "level_ok (fst p)" "length (snd p) < 2 ^ 32"
  shows "decode_edit_loop f (pointer_bytes p @ r) = decode_edit_loop (add_pointer p f) r"
  unfolding pointer_bytes_def append_assoc
  by (subst append_assoc [symmetric, of "level_bytes (fst p)"], rule decode_edit_step)
    (use assms in \<open>simp add: decode_field_def level_bytes_def decode_bytes add_pointer_def\<close>)

lemma decode_deleted:
  assumes "level_ok (fst p)"
  shows "decode_edit_loop f (deleted_bytes p @ r) = decode_edit_loop (add_deleted p f) r"
  unfolding deleted_bytes_def append_assoc
  by (subst append_assoc [symmetric, of "level_bytes (fst p)"], rule decode_edit_step)
    (simp add: decode_field_def level_bytes_def decode_bytes assms add_deleted_def)

lemma decode_new:
  assumes "level_ok (fst p)" "file_ok (snd p)"
  shows "decode_edit_loop f (new_file_bytes p @ r) = decode_edit_loop (add_new_file p f) r"
proof -
  have m: "(FileMetaData (file_number (snd p)))\<lparr>file_size := file_size (snd p), smallest := smallest (snd p),
      largest := largest (snd p)\<rparr> = snd p"
    using assms(2) by (simp add: FileMetaData_def file_ok_def)
  show ?thesis
    using assms(2) decode_edit_step [of kNewFile f "level_bytes (fst p) @ varint_bytes (unat (file_number (snd p))) @
      varint_bytes (unat (file_size (snd p))) @ length_prefixed (smallest (snd p)) @ length_prefixed (largest (snd p))"
      r "add_new_file p f"]
    by (simp add: new_file_bytes_def decode_field_def decode_new_file_def level_bytes_def decode_bytes assms(1) m
        file_ok_def add_new_file_def del: unsigned_numeral)
qed

lemma fold_add_pointer: "fold add_pointer ps f = f\<lparr>compact_pointers := compact_pointers f @ ps\<rparr>"
  by (induction ps arbitrary: f) (simp_all add: add_pointer_def)

lemma fold_add_deleted: "fold add_deleted ps f = f\<lparr>deleted_files := set ps \<union> deleted_files f\<rparr>"
  by (induction ps arbitrary: f) (simp_all add: add_deleted_def)

lemma fold_add_new_file: "fold add_new_file ps f = f\<lparr>new_files := new_files f @ ps\<rparr>"
  by (induction ps arbitrary: f) (simp_all add: add_new_file_def)

lemma decode_edit_bytes:
  assumes "edit_ok e"
  shows "decode_edit_loop (VersionEdit_Clear e0) (edit_bytes e) =
    (None, e\<lparr>compact_pointers := compact_pointers e0 @ compact_pointers e\<rparr>, [])"
proof -
  have fin: "finite (deleted_files e)" using assms by (simp add: edit_ok_def)
  have p: "decode_edit_loop f (concat (map pointer_bytes (compact_pointers e)) @ r) =
      decode_edit_loop (fold add_pointer (compact_pointers e) f) r" for f r
    by (rule decode_list, rule decode_pointer) (use assms in \<open>auto simp: edit_ok_def\<close>)
  have d: "decode_edit_loop f (concat (map deleted_bytes (sorted_list_of_set (deleted_files e))) @ r) =
      decode_edit_loop (fold add_deleted (sorted_list_of_set (deleted_files e)) f) r" for f r
    by (rule decode_list, rule decode_deleted) (use assms in \<open>auto simp: edit_ok_def\<close>)
  have n: "decode_edit_loop f (concat (map new_file_bytes (new_files e))) =
      decode_edit_loop (fold add_new_file (new_files e) f) []" for f
    using decode_list [of "new_files e" new_file_bytes add_new_file f "[]"] decode_new assms
    by (fastforce simp: edit_ok_def)
  show ?thesis
    by (simp add: edit_bytes_def decode_scalars [OF assms] p d n fold_add_pointer fold_add_deleted fold_add_new_file
        decode_edit_Nil set_sorted_list_of_set [OF fin])
qed

text \<open>
  C14. An edit comes back from its manifest record: when the internal keys of a well-formed edit are set, \<open>EncodeTo\<close>
  returns, and decoding what it wrote succeeds and gives the same edit, whatever the object decoded into held, except
  that the compaction pointers are added to those it had.  When a key is not set, the assertion of \<open>InternalKey::Encode\<close>
  fails.
\<close>

theorem version_edit_roundtrip:
  assumes "edit_ok e"
  shows "if keys_set e
    then \<exists>record. VersionEdit_EncodeTo e [] = Some record \<and>
      VersionEdit_DecodeFrom record e0 = (Status_OK, e\<lparr>compact_pointers := compact_pointers e0 @ compact_pointers e\<rparr>)
    else VersionEdit_EncodeTo e [] = None"
  by (simp add: VersionEdit_DecodeFrom_def EncodeTo_bytes [OF assms] EncodeTo_fails decode_edit_bytes [OF assms])

text \<open>An edit with a new file, a deleted one and a compaction pointer, and one that adds a file without a largest key.\<close>

definition sample_edit :: version_edit where
  "sample_edit = SetCompactPointer 1 [1, 7]
     (VersionEdit_DeleteFile 2 77 (AddFile 1 5 300 [1] [2] (SetLogNumber 9 (VersionEdit 0))))"

definition unset_edit :: version_edit where
  "unset_edit = AddFile 1 5 300 [1] [] (VersionEdit 0)"

lemmas edit_simps = VersionEdit_DeleteFile_def AddFile_def SetLogNumber_def SetCompactPointer_def VersionEdit_def VersionEdit_Clear_def

theorem version_edit_roundtrip_witness:
  "(\<exists>record. VersionEdit_EncodeTo sample_edit [] = Some record \<and>
     VersionEdit_DecodeFrom record (VersionEdit 0) = (Status_OK, sample_edit)) \<and> VersionEdit_EncodeTo unset_edit [] = None"
proof -
  have "edit_ok sample_edit" "edit_ok unset_edit" "keys_set sample_edit" "\<not> keys_set unset_edit"
    by (simp_all add: sample_edit_def unset_edit_def edit_ok_def keys_set_def edit_simps level_ok_def kNumLevels_def file_ok_def
        FileMetaData_def)
  moreover have "sample_edit\<lparr>compact_pointers := compact_pointers (VersionEdit 0) @ compact_pointers sample_edit\<rparr> = sample_edit"
    by (simp add: sample_edit_def edit_simps)
  ultimately show ?thesis
    using version_edit_roundtrip [of sample_edit "VersionEdit 0"] version_edit_roundtrip [of unset_edit] by simp
qed

end
