(* ===== verification/DbRandom.thy ===== *)
theory DbRandom
  imports Prelude
begin

text \<open>
  \<open>util/random.h\<close> of leveldb: the pseudo-random numbers that decide when reads are sampled.  A generator is its
  seed.
\<close>

section \<open>The generator\<close>

definition Random :: "u32 \<Rightarrow> u32" where
  "Random s = (let seed = s AND 0x7fffffff in if seed = 0 \<or> seed = 2147483647 then 1 else seed)"

definition Random_Next :: "u32 \<Rightarrow> u32 \<times> u32" where
  "Random_Next seed =
     (let M = 2147483647 :: u32; A = 16807 :: u64;
          product = ucast seed * A;
          seed = ucast (drop_bit 31 product + (product AND ucast M)) :: u32;
          seed = (if seed > M then seed - M else seed)
      in (seed, seed))"

text \<open>The numbers \<open>n\<close> are positive.\<close>

definition Uniform :: "nat \<Rightarrow> u32 \<Rightarrow> u32 \<times> u32" where
  "Uniform n seed = (let (r, seed) = Random_Next seed in (r mod of_nat n, seed))"

definition OneIn :: "nat \<Rightarrow> u32 \<Rightarrow> bool \<times> u32" where
  "OneIn n seed = (let (r, seed) = Random_Next seed in (r mod of_nat n = 0, seed))"

definition Skewed :: "nat \<Rightarrow> u32 \<Rightarrow> u32 \<times> u32" where
  "Skewed max_log seed =
     (let (base, seed) = Uniform (max_log + 1) seed in Uniform (2 ^ unat base) seed)"

section \<open>The reduction modulo \<open>2 ^ 31 - 1\<close>\<close>

definition seed_ok :: "u32 \<Rightarrow> bool" where
  "seed_ok seed \<longleftrightarrow> 0 < unat seed \<and> unat seed < 2147483647"

lemma Random_ok: "seed_ok (Random s)"
proof -
  define t where "t = s AND 0x7fffffff"
  have "unat t < 2 ^ 31"
    using unat_and_mask [of s 31] by (simp add: t_def mask_eq_exp_minus_1)
  moreover have "t = 2147483647 \<longleftrightarrow> unat t = 2147483647" "t = 0 \<longleftrightarrow> unat t = 0"
    by (simp_all add: word_unat_eq_iff)
  ultimately show ?thesis unfolding Random_def Let_def t_def [symmetric] seed_ok_def by auto
qed

text \<open>A number below \<open>2 ^ 46\<close>, folded once at its 31st bit.\<close>

lemma fold_mod:
  assumes "0 < p mod 2147483647" "p < 2 ^ 46"
  shows "(let t = p div 2 ^ 31 + p mod 2 ^ 31 in if t > 2147483647 then t - 2147483647 else t) = p mod (2147483647 :: nat)"
proof -
  define q r where "q = p div 2 ^ 31" and "r = p mod 2 ^ 31"
  have p: "p = q * 2147483647 + (q + r)" using div_mult_mod_eq [of p "2 ^ 31"] by (simp add: q_def r_def)
  have b: "q < 32768" "r < 2147483648" using assms(2) by (auto simp: q_def r_def div_less_iff_less_mult)
  have m: "p mod 2147483647 = (q + r) mod 2147483647" unfolding arg_cong [OF p, of "\<lambda>x. x mod 2147483647"] by (rule mod_mult_self3)
  show ?thesis
  proof (cases "q + r > 2147483647")
    case True
    then have "(q + r) mod 2147483647 = q + r - 2147483647" using b by (simp add: mod_if)
    then show ?thesis using True m by (simp add: q_def r_def Let_def)
  next
    case False
    then have "(q + r) mod 2147483647 = q + r" using assms(1) m by (cases "q + r = 2147483647") auto
    then show ?thesis using False m by (simp add: q_def r_def Let_def)
  qed
qed

lemma product_nonzero:
  assumes "0 < s" "s < 2147483647"
  shows "0 < s * 16807 mod (2147483647 :: nat)"
proof -
  have inverse: "s * 16807 * 1407677000 = s * 11017 * 2147483647 + s" by simp
  have "\<not> 2147483647 dvd s * 16807"
  proof
    assume "2147483647 dvd s * 16807"
    then have "2147483647 dvd s * 11017 * 2147483647 + s" unfolding inverse [symmetric] by (rule dvd_mult2)
    then have "2147483647 dvd s" by (metis dvd_add_right_iff dvd_triv_right)
    then show False using assms nat_dvd_not_less by blast
  qed
  then show ?thesis by (metis mod_greater_zero_iff_not_dvd)
qed

lemma Random_Next_mod:
  assumes "seed_ok seed"
  shows "unat (fst (Random_Next seed)) = unat seed * 16807 mod 2147483647" "snd (Random_Next seed) = fst (Random_Next seed)"
    "seed_ok (fst (Random_Next seed))"
proof -
  have s: "0 < unat seed" "unat seed < 2147483647" using assms by (auto simp: seed_ok_def)
  define P where "P = (ucast seed * 16807 :: u64)"
  have u: "unat (ucast seed :: u64) = unat seed" using s(2) by (simp add: unat_ucast)
  have P: "unat P = unat seed * 16807" using s(2) by (simp add: P_def unat_word_ariths u)
  then have small: "unat P < 2 ^ 46" using s(2) by simp
  have "unat (drop_bit 31 P + (P AND 0x7fffffff)) = unat P div 2 ^ 31 + unat P mod 2 ^ 31"
  proof -
    have "unat (P AND 0x7fffffff) = unat P mod 2 ^ 31" using unat_and_mask [of P 31] by (simp add: mask_eq_exp_minus_1)
    moreover have "unat P div 2 ^ 31 + unat P mod 2 ^ 31 < 2 ^ 64"
    proof -
      have "unat P div 2 ^ 31 \<le> unat P" "unat P mod 2 ^ 31 < 2 ^ 31" by (rule div_le_dividend) simp
      then show ?thesis using small by simp
    qed
    ultimately show ?thesis by (subst unat_add_less) (simp_all add: unat_drop_bit)
  qed
  moreover have "unat P div 2 ^ 31 < 32768" using small by (simp add: div_less_iff_less_mult)
  ultimately have t: "unat (ucast (drop_bit 31 P + (P AND 0x7fffffff)) :: u32) = unat P div 2 ^ 31 + unat P mod 2 ^ 31"
  proof -
    assume a: "unat (drop_bit 31 P + (P AND 0x7fffffff)) = unat P div 2 ^ 31 + unat P mod 2 ^ 31" "unat P div 2 ^ 31 < 32768"
    have "unat P mod 2 ^ 31 < 2 ^ 31" by simp
    then have "unat P div 2 ^ 31 + unat P mod 2 ^ 31 < 2 ^ 32" using a(2) by simp
    then show ?thesis unfolding unat_ucast a(1) by simp
  qed
  define T where "T = (ucast (drop_bit 31 P + (P AND 0x7fffffff)) :: u32)"
  have "unat (if T > 2147483647 then T - 2147483647 else T) =
      (let t = unat T in if t > 2147483647 then t - 2147483647 else t)"
    by (auto simp: word_less_nat_alt unat_sub_if_size Let_def)
  also have "\<dots> = unat P mod 2147483647"
    using fold_mod [of "unat P"] product_nonzero [OF s] small by (simp add: T_def t P)
  finally have n: "unat (fst (Random_Next seed)) = unat P mod 2147483647"
    unfolding Random_Next_def Let_def fst_conv T_def P_def by (simp cong: if_cong split del: if_split)
  then show "unat (fst (Random_Next seed)) = unat seed * 16807 mod 2147483647" by (simp add: P)
  show "seed_ok (fst (Random_Next seed))" using n product_nonzero [OF s] by (simp add: seed_ok_def P)
  show "snd (Random_Next seed) = fst (Random_Next seed)" by (simp add: Random_Next_def Let_def)
qed

text \<open>Two numbers in a row are never both multiples of \<open>2 ^ 21\<close>.\<close>

lemma no_two_zeros:
  assumes "seed_ok seed" "unat seed mod 2097152 = 0"
  shows "unat (fst (Random_Next seed)) mod 2097152 \<noteq> 0"
proof -
  define a where "a = unat seed div 2097152"
  have a: "unat seed = 2097152 * a" using assms(2) mult_div_mod_eq [of 2097152 "unat seed"] by (simp add: a_def)
  then have ab: "1 \<le> a" "a < 1024" using assms(1) by (auto simp: seed_ok_def)
  define q r where "q = a * 16807 div 1024" and "r = a * 16807 mod 1024"
  have k: "a * 16807 = q * 1024 + r" by (simp add: q_def r_def)
  have r: "r < 1024" by (simp add: r_def)
  have q: "1 \<le> q" "q < 16807" using ab by (auto simp: q_def div_less_iff_less_mult)
  have "unat seed * 16807 = q * 2147483647 + (q + 2097152 * r)"
    using k a by (simp add: algebra_simps)
  then have "unat seed * 16807 mod 2147483647 = (q + 2097152 * r) mod 2147483647" by (simp only: mod_mult_self3)
  also have "\<dots> = q + 2097152 * r" using q r by simp
  finally show ?thesis using Random_Next_mod(1) [OF assms(1)] q by simp
qed

end
