(* ===== verification/SkipList.thy ===== *)
theory SkipList
  imports DbRandom "HOL-Library.Multiset"
begin

text \<open>
  \<open>db/skiplist.h\<close> of leveldb: the skip list behind the memtable.

  Nodes live in the list \<open>sl_nodes\<close> of all nodes made so far, and a pointer to a node is its index there, \<open>None\<close>
  for null.  The arena that holds them is only asked for fresh memory, so a new node gets a new index.  Reading
  a link that a node does not have, past the end of its array, is the undefined result \<open>None\<close>.
\<close>

section \<open>Nodes\<close>

record 'k node =
  node_key :: 'k
  node_next :: "nat option list"

record 'k skiplist =
  sl_nodes :: "'k node list"
  sl_max_height :: nat
  sl_rnd :: u32

abbreviation (input) sl_head :: nat where "sl_head \<equiv> 0"

definition kMaxHeight :: nat where
  "kMaxHeight = 12"

definition node_Next :: "'k skiplist \<Rightarrow> nat \<Rightarrow> nat \<Rightarrow> nat option option" where
  "node_Next s x n =
     (if x < length (sl_nodes s) \<and> n < length (node_next (sl_nodes s ! x))
      then Some (node_next (sl_nodes s ! x) ! n) else None)"

definition node_SetNext :: "nat \<Rightarrow> nat \<Rightarrow> nat option \<Rightarrow> 'k skiplist \<Rightarrow> 'k skiplist option" where
  "node_SetNext x n y s =
     (if x < length (sl_nodes s) \<and> n < length (node_next (sl_nodes s ! x))
      then Some (s\<lparr>sl_nodes := (sl_nodes s)[x := (sl_nodes s ! x)\<lparr>node_next := (node_next (sl_nodes s ! x))[n := y]\<rparr>]\<rparr>)
      else None)"

definition key_of :: "'k skiplist \<Rightarrow> nat \<Rightarrow> 'k" where
  "key_of s x = node_key (sl_nodes s ! x)"

text \<open>The node, whose links are not set yet, and the new state.\<close>

definition NewNode :: "'k \<Rightarrow> nat \<Rightarrow> 'k skiplist \<Rightarrow> nat \<times> 'k skiplist" where
  "NewNode k height s =
     (length (sl_nodes s), s\<lparr>sl_nodes := sl_nodes s @ [\<lparr>node_key = k, node_next = replicate height None\<rparr>]\<rparr>)"

text \<open>The head has all its links from the start; its key is never read.\<close>

definition SkipList :: "'k \<Rightarrow> 'k skiplist" where
  "SkipList any_key =
     \<lparr>sl_nodes = [\<lparr>node_key = any_key, node_next = replicate kMaxHeight None\<rparr>], sl_max_height = 1, sl_rnd = Random 0xdeadbeef\<rparr>"

function random_height_loop :: "nat \<Rightarrow> u32 \<Rightarrow> nat \<times> u32" where
  "random_height_loop height rnd =
     (if height < kMaxHeight then
        let (r, rnd) = Random_Next rnd in
        if r mod 4 = 0 then random_height_loop (height + 1) rnd else (height, rnd)
      else (height, rnd))"
  by auto
termination by (relation "measure (\<lambda>(height, _). kMaxHeight - height)") auto

declare random_height_loop.simps [simp del]

definition RandomHeight :: "'k skiplist \<Rightarrow> nat \<times> 'k skiplist" where
  "RandomHeight s = (let (height, rnd) = random_height_loop 1 (sl_rnd s) in (height, s\<lparr>sl_rnd := rnd\<rparr>))"

section \<open>Searching\<close>

text \<open>
  The loop of the three searches, which differ in the condition on the next node: from \<open>x\<close> at a level to the
  right while \<open>right\<close> holds of the next node, and down otherwise.  At level 0 it ends with \<open>x\<close> and the node after it; \<open>prev\<close>, when it is not null, gets the
  last node of every level.
\<close>

partial_function (option) search_loop ::
  "(nat option \<Rightarrow> bool) \<Rightarrow> 'k skiplist \<Rightarrow> nat \<Rightarrow> nat \<Rightarrow> nat list option \<Rightarrow> (nat \<times> nat option \<times> nat list option) option"
where
  "search_loop right s x level prev =
     Option.bind (node_Next s x level) (\<lambda>nxt.
       if right nxt then search_loop right s (the nxt) level prev
       else
         let prev = map_option (\<lambda>p. p[level := x]) prev in
         if level = 0 then Some (x, nxt, prev) else search_loop right s x (level - 1) prev)"

definition KeyIsAfterNode :: "('k \<Rightarrow> 'k \<Rightarrow> int) \<Rightarrow> 'k skiplist \<Rightarrow> 'k \<Rightarrow> nat option \<Rightarrow> bool" where
  "KeyIsAfterNode compare s k n \<longleftrightarrow> n \<noteq> None \<and> compare (key_of s (the n)) k < 0"

definition FindGreaterOrEqual ::
  "('k \<Rightarrow> 'k \<Rightarrow> int) \<Rightarrow> 'k \<Rightarrow> nat list option \<Rightarrow> 'k skiplist \<Rightarrow> (nat option \<times> nat list option) option"
where
  "FindGreaterOrEqual compare k prev s =
     map_option (\<lambda>(x, nxt, prev). (nxt, prev)) (search_loop (KeyIsAfterNode compare s k) s sl_head (sl_max_height s - 1) prev)"

definition FindLessThan :: "('k \<Rightarrow> 'k \<Rightarrow> int) \<Rightarrow> 'k \<Rightarrow> 'k skiplist \<Rightarrow> nat option" where
  "FindLessThan compare k s =
     map_option fst (search_loop (\<lambda>n. \<not> (n = None \<or> compare (key_of s (the n)) k \<ge> 0)) s sl_head (sl_max_height s - 1) None)"

definition FindLast :: "'k skiplist \<Rightarrow> nat option" where
  "FindLast s = map_option fst (search_loop (\<lambda>n. \<not> n = None) s sl_head (sl_max_height s - 1) None)"

section \<open>Insertion\<close>

text \<open>The loop that links the new node \<open>x\<close> in at the levels from \<open>i\<close> up to its height.\<close>

fun link_levels :: "nat \<Rightarrow> nat list \<Rightarrow> nat list \<Rightarrow> 'k skiplist \<Rightarrow> 'k skiplist option" where
  "link_levels x prev [] s = Some s"
| "link_levels x prev (i # is) s =
     Option.bind (node_Next s (prev ! i) i) (\<lambda>nxt.
     Option.bind (node_SetNext x i nxt s) (\<lambda>s.
     Option.bind (node_SetNext (prev ! i) i (Some x) s) (link_levels x prev is)))"

text \<open>
  \<open>unset\<close> is what the array \<open>prev\<close> holds before.  A key that is already in the list fails the assertion.
\<close>

definition Insert :: "nat list \<Rightarrow> ('k \<Rightarrow> 'k \<Rightarrow> int) \<Rightarrow> 'k \<Rightarrow> 'k skiplist \<Rightarrow> 'k skiplist option" where
  "Insert unset compare k s =
     Option.bind (FindGreaterOrEqual compare k (Some unset) s) (\<lambda>(x, prev).
       if x \<noteq> None \<and> compare k (key_of s (the x)) = 0 then None
       else
       let prev = the prev; (height, s) = RandomHeight s;
           prev = (if height > sl_max_height s then fold (\<lambda>i p. p[i := sl_head]) [sl_max_height s..<height] prev else prev);
           s = (if height > sl_max_height s then s\<lparr>sl_max_height := height\<rparr> else s);
           (x, s) = NewNode k height s
       in link_levels x prev [0..<height] s)"

definition Contains :: "('k \<Rightarrow> 'k \<Rightarrow> int) \<Rightarrow> 'k \<Rightarrow> 'k skiplist \<Rightarrow> bool option" where
  "Contains compare k s =
     map_option (\<lambda>(x, _). case x of None \<Rightarrow> False | Some x \<Rightarrow> compare k (key_of s x) = 0)
       (FindGreaterOrEqual compare k None s)"

section \<open>Its iterator\<close>

text \<open>The state is the node it stands at.\<close>

definition sl_Valid :: "nat option \<Rightarrow> bool" where
  "sl_Valid node \<longleftrightarrow> node \<noteq> None"

definition sl_key :: "'k skiplist \<Rightarrow> nat option \<Rightarrow> 'k" where
  "sl_key s node = key_of s (the node)"

definition sl_Next :: "'k skiplist \<Rightarrow> nat option \<Rightarrow> nat option option" where
  "sl_Next s node = node_Next s (the node) 0"

definition sl_Prev :: "('k \<Rightarrow> 'k \<Rightarrow> int) \<Rightarrow> 'k skiplist \<Rightarrow> nat option \<Rightarrow> nat option option" where
  "sl_Prev compare s node =
     map_option (\<lambda>x. if x = sl_head then None else Some x) (FindLessThan compare (key_of s (the node)) s)"

definition sl_Seek :: "('k \<Rightarrow> 'k \<Rightarrow> int) \<Rightarrow> 'k skiplist \<Rightarrow> 'k \<Rightarrow> nat option option" where
  "sl_Seek compare s target = map_option fst (FindGreaterOrEqual compare target None s)"

definition sl_SeekToFirst :: "'k skiplist \<Rightarrow> nat option option" where
  "sl_SeekToFirst s = node_Next s sl_head 0"

definition sl_SeekToLast :: "'k skiplist \<Rightarrow> nat option option" where
  "sl_SeekToLast s = map_option (\<lambda>x. if x = sl_head then None else Some x) (FindLast s)"

section \<open>Levels\<close>

text \<open>
  \<open>linked s l x as\<close>: following the links of level \<open>l\<close> from \<open>x\<close> one passes the nodes \<open>as\<close> and then the end.
\<close>

fun linked :: "'k skiplist \<Rightarrow> nat \<Rightarrow> nat \<Rightarrow> nat list \<Rightarrow> bool" where
  "linked s l x [] \<longleftrightarrow> node_Next s x l = Some None"
| "linked s l x (a # as) \<longleftrightarrow> node_Next s x l = Some (Some a) \<and> linked s l a as"

definition height :: "'k skiplist \<Rightarrow> nat \<Rightarrow> nat" where
  "height s x = length (node_next (sl_nodes s ! x))"

definition at_level :: "'k skiplist \<Rightarrow> nat \<Rightarrow> nat list \<Rightarrow> nat list" where
  "at_level s l as = filter (\<lambda>a. l < height s a) as"

text \<open>
  The invariant: \<open>as\<close> are the nodes in the order of their keys, every level links those that are high enough, and
  no node is higher than \<open>sl_max_height\<close>.
\<close>

definition skip_ok :: "('k \<Rightarrow> 'k \<Rightarrow> int) \<Rightarrow> 'k skiplist \<Rightarrow> nat list \<Rightarrow> bool" where
  "skip_ok compare s as \<longleftrightarrow>
     (\<forall>l < kMaxHeight. linked s l sl_head (at_level s l as)) \<and>
     sorted_wrt (\<lambda>a b. compare (key_of s a) (key_of s b) < 0) as \<and>
     distinct as \<and> (\<forall>a \<in> set as. 0 < a \<and> a < length (sl_nodes s)) \<and>
     sl_nodes s \<noteq> [] \<and> height s sl_head = kMaxHeight \<and>
     (\<forall>a \<in> set as. 1 \<le> height s a \<and> height s a \<le> sl_max_height s) \<and>
     1 \<le> sl_max_height s \<and> sl_max_height s \<le> kMaxHeight"

text \<open>The iterator's node for an index, and the keys in their order.\<close>

definition sl_at :: "nat list \<Rightarrow> nat \<Rightarrow> nat option" where
  "sl_at as i = (if i < length as then Some (as ! i) else None)"

definition keys_of :: "'k skiplist \<Rightarrow> nat list \<Rightarrow> 'k list" where
  "keys_of s as = map (key_of s) as"

lemma linked_append:
  "linked s l x (as @ bs) \<longleftrightarrow> (\<forall>i < length as. node_Next s ((x # as) ! i) l = Some (Some (as ! i))) \<and>
    linked s l (last (x # as)) bs"
proof (induction as arbitrary: x)
  case (Cons a as)
  show ?case by (simp add: Cons.IH All_less_Suc2)
qed simp

lemma linked_from: "linked s l x (as @ bs) \<Longrightarrow> linked s l (last (x # as)) bs"
  by (simp add: linked_append)

lemma linked_next: "linked s l x as \<Longrightarrow> node_Next s x l = Some (case as of [] \<Rightarrow> None | a # _ \<Rightarrow> Some a)"
  by (cases as) simp_all

lemma linked_cong:
  "(\<And>y. y \<in> set (x # as) \<Longrightarrow> node_Next s' y l = node_Next s y l) \<Longrightarrow> linked s' l x as = linked s l x as"
  by (induction as arbitrary: x) simp_all

lemma at_level_simps [simp]:
  "at_level s l [] = []"
  "at_level s l (a # as) = (if l < height s a then a # at_level s l as else at_level s l as)"
  "at_level s l (as @ bs) = at_level s l as @ at_level s l bs"
  by (simp_all add: at_level_def)

lemma at_level_in [simp]: "a \<in> set (at_level s l as) \<longleftrightarrow> a \<in> set as \<and> l < height s a"
  by (auto simp: at_level_def)

lemma at_level_0: "\<forall>a \<in> set as. 1 \<le> height s a \<Longrightarrow> at_level s 0 as = as"
  by (auto simp: at_level_def intro!: filter_True)

section \<open>The searches\<close>

text \<open>
  The nodes are \<open>L @ G\<close>, where the search goes right exactly for those in \<open>L\<close>, and \<open>x\<close> is the last of \<open>L1\<close>, or the
  head: the search ends at the last node of \<open>L\<close>.
\<close>

lemma last_at_level: "last (x # at_level s l as) \<in> insert x (set as)"
  by (metis at_level_in insert_iff last_in_set list.distinct(1) list.set_intros(1) set_ConsD last_ConsR last_ConsL)

lemma search_loop_ends:
  assumes "skip_ok compare s (L1 @ L2 @ G)" "\<forall>a \<in> set (L1 @ L2). right (Some a)" "\<forall>a \<in> set G. \<not> right (Some a)" "\<not> right None"
    "x = last (sl_head # L1)" "level < height s x" "level < kMaxHeight" "\<forall>p. prev = Some p \<longrightarrow> level < length p"
  shows "\<exists>prev'. search_loop right s x level prev =
      Some (last (sl_head # L1 @ L2), case G of [] \<Rightarrow> None | a # _ \<Rightarrow> Some a, prev') \<and>
    (prev = None \<longrightarrow> prev' = None) \<and>
    (\<forall>p. prev = Some p \<longrightarrow> (\<exists>p'. prev' = Some p' \<and> length p' = length p \<and>
       (\<forall>l < length p. p' ! l = (if l \<le> level then last (sl_head # at_level s l (L1 @ L2)) else p ! l))))"
  using assms
proof (induction "level + length L2" arbitrary: L1 L2 x level prev rule: less_induct)
  case less
  have ok: "linked s level sl_head (at_level s level (L1 @ L2 @ G))" "\<forall>a \<in> set (L1 @ L2 @ G). 1 \<le> height s a"
    "\<forall>a \<in> set (L1 @ L2 @ G). 0 < a"
    using less(2,8) by (auto simp: skip_ok_def)
  have x: "x = last (sl_head # at_level s level L1)"
  proof (cases L1 rule: rev_cases)
    case (snoc as a)
    then show ?thesis using less(6,7) by (simp add: at_level_def)
  qed (use less(6) in simp)
  have link: "linked s level x (at_level s level L2 @ at_level s level G)"
    using ok(1) unfolding x by (intro linked_from) simp
  show ?case
  proof (cases "at_level s level L2")
    case Nil
    have nxt: "node_Next s x level = Some (case at_level s level G of [] \<Rightarrow> None | a # _ \<Rightarrow> Some a)"
      using linked_next [OF link] Nil by simp
    have stop: "\<not> right (case at_level s level G of [] \<Rightarrow> None | a # _ \<Rightarrow> Some a)"
    proof (cases "at_level s level G")
      case (Cons a as)
      then have "a \<in> set G" by (metis at_level_in list.set_intros(1))
      then show ?thesis using less(4) Cons by simp
    qed (use less(5) in simp)
    define prev1 where "prev1 = map_option (\<lambda>p. p[level := x]) prev"
    have last: "x = last (sl_head # at_level s level (L1 @ L2))" using x Nil by simp
    show ?thesis
    proof (cases "level = 0")
      case True
      then have "L2 = []" "at_level s 0 G = G" using Nil at_level_0 ok(2) by fastforce+
      moreover have "search_loop right s x level prev = Some (x, case at_level s level G of [] \<Rightarrow> None | a # _ \<Rightarrow> Some a, prev1)"
        using nxt stop True by (subst search_loop.simps) (simp add: prev1_def)
      ultimately show ?thesis
        using less(6,9) last True by (auto simp: prev1_def nth_list_update)
    next
      case False
      have step: "search_loop right s x level prev = search_loop right s x (level - 1) prev1"
        using nxt stop False by (subst search_loop.simps) (simp add: prev1_def)
      have "level - 1 + length L2 < level + length L2" "level - 1 < height s x" "level - 1 < kMaxHeight"
        "\<forall>p. prev1 = Some p \<longrightarrow> level - 1 < length p"
        using False less(7,8,9) by (auto simp: prev1_def)
      from less(1) [OF this(1) less(2,3,4,5,6) this(2-4)] step obtain prev' where
        p: "search_loop right s x level prev = Some (last (sl_head # L1 @ L2), case G of [] \<Rightarrow> None | a # _ \<Rightarrow> Some a, prev')"
        "prev1 = None \<longrightarrow> prev' = None"
        "\<forall>p. prev1 = Some p \<longrightarrow> (\<exists>p'. prev' = Some p' \<and> length p' = length p \<and>
          (\<forall>l < length p. p' ! l = (if l \<le> level - 1 then last (sl_head # at_level s l (L1 @ L2)) else p ! l)))"
        by auto
      have "\<exists>p'. prev' = Some p' \<and> length p' = length p \<and>
          (\<forall>l < length p. p' ! l = (if l \<le> level then last (sl_head # at_level s l (L1 @ L2)) else p ! l))"
        if "prev = Some p" for p
      proof -
        from p(3) that obtain p' where p': "prev' = Some p'" "length p' = length p"
          "\<forall>l < length p. p' ! l = (if l \<le> level - 1 then last (sl_head # at_level s l (L1 @ L2)) else p[level := x] ! l)"
          by (auto simp: prev1_def)
        moreover have "p' ! l = (if l \<le> level then last (sl_head # at_level s l (L1 @ L2)) else p ! l)" if "l < length p" for l
          using p'(3) that last False by (cases "l = level") auto
        ultimately show ?thesis by blast
      qed
      with p(1,2) show ?thesis by (auto simp: prev1_def)
    qed
  next
    case (Cons a as)
    then have "a \<in> set (at_level s level L2)" by simp
    from Cons obtain L2a L2b where L2: "L2 = L2a @ a # L2b" "\<forall>b \<in> set L2a. \<not> level < height s b" "level < height s a"
      unfolding at_level_def filter_eq_Cons_iff by auto
    have "node_Next s x level = Some (Some a)" using linked_next [OF link] Cons by simp
    moreover have "right (Some a)" using less(3) L2(1) by simp
    ultimately have step: "search_loop right s x level prev = search_loop right s a level prev"
      by (subst search_loop.simps) simp
    have "skip_ok compare s ((L1 @ L2a @ [a]) @ L2b @ G)" "\<forall>b \<in> set ((L1 @ L2a @ [a]) @ L2b). right (Some b)"
      "level + length L2b < level + length L2" "a = last (sl_head # L1 @ L2a @ [a])"
      using less(2,3) L2(1) by simp_all
    note IH = less(1) [OF this(3) this(1,2) less(4,5) this(4) L2(3) less(8,9)]
    have eq: "(L1 @ L2a @ [a]) @ L2b = L1 @ L2" using L2(1) by simp
    show ?thesis using IH unfolding eq step [symmetric] .
  qed
qed

lemma FindLast_ok:
  assumes "skip_ok compare s as"
  shows "FindLast s = Some (last (sl_head # as))"
proof -
  have h: "sl_max_height s - 1 < height s sl_head" "sl_max_height s - 1 < kMaxHeight"
    using assms by (auto simp: skip_ok_def)
  from search_loop_ends [where ?L1.0 = "[]" and ?L2.0 = as and G = "[]" and right = "\<lambda>n. \<not> n = None" and
      prev = None and s = s and level = "sl_max_height s - 1", OF _ _ _ _ _ h] assms
  show ?thesis by (auto simp: FindLast_def)
qed

section \<open>Keys in order\<close>

text \<open>What the list needs of the comparator: a total order of the valid keys.\<close>

locale key_order =
  fixes valid :: "'k \<Rightarrow> bool"
    and compare :: "'k \<Rightarrow> 'k \<Rightarrow> int"
  assumes compare_sym: "valid a \<Longrightarrow> valid b \<Longrightarrow> compare a b < 0 \<longleftrightarrow> compare b a > 0"
    and compare_trans: "valid a \<Longrightarrow> valid b \<Longrightarrow> valid c \<Longrightarrow> compare a b \<le> 0 \<Longrightarrow> compare b c \<le> 0 \<Longrightarrow> compare a c \<le> 0"
begin

abbreviation (input) keys_valid :: "'k skiplist \<Rightarrow> nat list \<Rightarrow> bool" where
  "keys_valid s as \<equiv> \<forall>a \<in> set as. valid (key_of s a)"

lemma compare_less_trans:
  assumes "valid a" "valid b" "valid c" "compare a b < 0" "compare b c < 0"
  shows "compare a c < 0"
proof (rule ccontr)
  assume "\<not> compare a c < 0"
  then have "compare c a \<le> 0" using compare_sym [of c a] compare_sym [of a c] assms(1,3) by linarith
  then have "compare b a \<le> 0" using compare_trans [of b c a] assms by simp
  then show False using compare_sym [of a b] assms by linarith
qed

text \<open>The keys less than a target come first.\<close>

lemma split_at:
  assumes "skip_ok compare s as" "keys_valid s as" "valid k"
  obtains L G where "as = L @ G" "\<forall>a \<in> set L. compare (key_of s a) k < 0" "\<forall>a \<in> set G. \<not> compare (key_of s a) k < 0"
proof
  let ?P = "\<lambda>a. compare (key_of s a) k < 0"
  show "as = takeWhile ?P as @ dropWhile ?P as" by simp
  show "\<forall>a \<in> set (takeWhile ?P as). ?P a" by (auto dest: set_takeWhileD)
  show "\<forall>a \<in> set (dropWhile ?P as). \<not> ?P a"
  proof (cases "dropWhile ?P as")
    case (Cons b bs)
    then have b: "\<not> ?P b" by (metis dropWhile_eq_Cons_conv)
    have "sorted_wrt (\<lambda>a b. compare (key_of s a) (key_of s b) < 0) (takeWhile ?P as @ b # bs)"
      using assms(1) Cons by (metis skip_ok_def takeWhile_dropWhile_id)
    then have sb: "\<forall>a \<in> set bs. compare (key_of s b) (key_of s a) < 0" by (simp add: sorted_wrt_append)
    have v: "valid (key_of s a)" if "a \<in> set (b # bs)" for a
      using assms(2) that Cons set_dropWhileD by metis
    have "\<not> ?P a" if "a \<in> set bs" for a
      using compare_less_trans [of "key_of s b" "key_of s a" k] sb v that b assms(3) by auto
    then show ?thesis using b Cons by auto
  next
    case Nil
    show ?thesis unfolding Nil by simp
  qed
qed

lemma FindGreaterOrEqual_ok:
  assumes "skip_ok compare s (L @ G)" "\<forall>a \<in> set L. compare (key_of s a) k < 0" "\<forall>a \<in> set G. \<not> compare (key_of s a) k < 0"
  shows "FindGreaterOrEqual compare k None s = Some (case G of [] \<Rightarrow> None | a # _ \<Rightarrow> Some a, None)"
    "kMaxHeight \<le> length p \<Longrightarrow> \<exists>p'. FindGreaterOrEqual compare k (Some p) s = Some (case G of [] \<Rightarrow> None | a # _ \<Rightarrow> Some a, Some p') \<and>
      length p' = length p \<and> (\<forall>l < sl_max_height s. p' ! l = last (sl_head # at_level s l L))"
    "FindLessThan compare k s = Some (last (sl_head # L))"
proof -
  have h: "sl_max_height s - 1 < height s sl_head" "sl_max_height s - 1 < kMaxHeight" "1 \<le> sl_max_height s"
    using assms by (auto simp: skip_ok_def)
  note ends = search_loop_ends [where ?L1.0 = "[]" and ?L2.0 = L and G = G and s = s and level = "sl_max_height s - 1",
      OF _ _ _ _ _ h(1,2)]
  show "FindGreaterOrEqual compare k None s = Some (case G of [] \<Rightarrow> None | a # _ \<Rightarrow> Some a, None)"
    using ends [where right = "KeyIsAfterNode compare s k" and prev = None] assms
    by (auto simp: FindGreaterOrEqual_def KeyIsAfterNode_def)
  show "FindLessThan compare k s = Some (last (sl_head # L))"
    using ends [where right = "\<lambda>n. \<not> (n = None \<or> compare (key_of s (the n)) k \<ge> 0)" and prev = None, of compare] assms
    unfolding FindLessThan_def by force
  show "\<exists>p'. FindGreaterOrEqual compare k (Some p) s = Some (case G of [] \<Rightarrow> None | a # _ \<Rightarrow> Some a, Some p') \<and>
      length p' = length p \<and> (\<forall>l < sl_max_height s. p' ! l = last (sl_head # at_level s l L))" if "kMaxHeight \<le> length p"
  proof -
    from ends [where right = "KeyIsAfterNode compare s k" and prev = "Some p", of compare] assms that h obtain p' where
      "search_loop (KeyIsAfterNode compare s k) s sl_head (sl_max_height s - 1) (Some p) =
        Some (last (sl_head # L), case G of [] \<Rightarrow> None | a # _ \<Rightarrow> Some a, Some p')"
      "length p' = length p" "\<forall>l < length p. p' ! l =
        (if l \<le> sl_max_height s - 1 then last (sl_head # at_level s l L) else p ! l)"
      by (force simp: KeyIsAfterNode_def)
    then show ?thesis using h(2) that unfolding FindGreaterOrEqual_def by (intro exI [of _ p']) auto
  qed
qed

end

text \<open>Every comparator of slices is one.\<close>

section \<open>Linking a node in\<close>

lemma node_Next_Some: "x < length (sl_nodes s) \<Longrightarrow> n < height s x \<Longrightarrow> \<exists>y. node_Next s x n = Some y"
  by (simp add: node_Next_def height_def)

lemma node_SetNext_Some:
  assumes "x < length (sl_nodes s)" "n < height s x"
  obtains s' where "node_SetNext x n y s = Some s'"
    "\<And>z m. node_Next s' z m = (if z = x \<and> m = n then Some y else node_Next s z m)"
    "\<And>z. height s' z = height s z" "\<And>z. key_of s' z = key_of s z" "length (sl_nodes s') = length (sl_nodes s)"
    "sl_max_height s' = sl_max_height s" "sl_rnd s' = sl_rnd s"
proof
  let ?s = "s\<lparr>sl_nodes := (sl_nodes s)[x := (sl_nodes s ! x)\<lparr>node_next := (node_next (sl_nodes s ! x))[n := y]\<rparr>]\<rparr>"
  show "node_SetNext x n y s = Some ?s" using assms by (simp add: node_SetNext_def height_def)
  show "node_Next ?s z m = (if z = x \<and> m = n then Some y else node_Next s z m)" for z m
    using assms by (auto simp: node_Next_def height_def nth_list_update)
  show "height ?s z = height s z" "key_of ?s z = key_of s z" for z
    using assms(1) by (cases "z = x"; simp add: height_def key_of_def)+
qed simp_all

lemma last_nth: "last (x # as) = (x # as) ! length as"
  by (simp add: last_conv_nth)

lemma linked_insert:
  assumes "linked s l h (A @ B)" "distinct (h # A @ B)" "x \<notin> set (h # A @ B)" "p = last (h # A)"
    "node_Next s' p l = Some (Some x)" "node_Next s' x l = node_Next s p l"
    "\<And>y. y \<noteq> p \<Longrightarrow> y \<noteq> x \<Longrightarrow> node_Next s' y l = node_Next s y l"
  shows "linked s' l h (A @ x # B)"
proof -
  have "node_Next s' ((h # A) ! i) l = Some (Some (A ! i))" if i: "i < length A" for i
  proof -
    have "distinct (h # A)" using assms(2) by simp
    then have "(h # A) ! i \<noteq> p" unfolding assms(4) last_nth using i by (subst nth_eq_iff_index_eq) auto
    moreover have "(h # A) ! i \<in> set (h # A)" using i by (intro nth_mem) simp
    then have "(h # A) ! i \<noteq> x" using assms(3) by auto
    ultimately show ?thesis using assms(1,7) i by (simp add: linked_append)
  qed
  moreover have "linked s' l x B"
  proof (cases B)
    case Nil
    then show ?thesis using linked_from [OF assms(1)] assms(4,6) by simp
  next
    case (Cons b bs)
    have pin: "p \<in> set (h # A)" unfolding assms(4) by (rule last_in_set) simp
    have "linked s l p B" using linked_from [OF assms(1)] assms(4) by simp
    then have "node_Next s p l = Some (Some b)" "linked s l b bs" using Cons by simp_all
    moreover have "y \<noteq> p \<and> y \<noteq> x" if "y \<in> set (b # bs)" for y
      using that assms(2,3) pin Cons by auto
    then have "linked s' l b bs = linked s l b bs" using assms(7) by (intro linked_cong) blast
    ultimately show ?thesis using Cons assms(6) by simp
  qed
  ultimately show ?thesis using assms(4,5) by (simp add: linked_append)
qed

lemma random_height_bounds:
  "1 \<le> h \<Longrightarrow> h \<le> kMaxHeight \<Longrightarrow> 1 \<le> fst (random_height_loop h rnd) \<and> fst (random_height_loop h rnd) \<le> kMaxHeight"
proof (induction h rnd rule: random_height_loop.induct)
  case (1 h rnd)
  show ?case
    using 1(1) [OF _ HOL.refl prod.collapse] 1(2,3) by (subst (1 2) random_height_loop.simps) (auto simp: case_prod_beta Let_def)
qed

text \<open>Levels below \<open>i\<close> have the new node, the others do not have it yet.\<close>

lemma link_levels_ok:
  assumes "x < length (sl_nodes s)" "\<And>l. l < h \<Longrightarrow> p ! l = last (sl_head # A l)" "\<And>l. distinct (sl_head # A l @ B l)"
    "\<And>l. x \<notin> set (sl_head # A l @ B l)"
    "\<And>l. l < kMaxHeight \<Longrightarrow> linked s l sl_head (A l @ (if l < i then [x] else []) @ B l)"
    "height s x = h" "h \<le> kMaxHeight" "i \<le> h"
  shows "\<exists>s'. link_levels x p [i..<h] s = Some s' \<and> (\<forall>z. key_of s' z = key_of s z \<and> height s' z = height s z) \<and>
    length (sl_nodes s') = length (sl_nodes s) \<and> sl_max_height s' = sl_max_height s \<and>
    (\<forall>l < kMaxHeight. linked s' l sl_head (A l @ (if l < h then [x] else []) @ B l))"
  using assms
proof (induction "h - i" arbitrary: i s)
  case 0
  then have "i = h" by simp
  then show ?case using 0 by simp
next
  case (Suc n)
  then have i: "i < h" "i < kMaxHeight" "[i..<h] = i # [Suc i..<h]" by (auto simp: upt_conv_Cons)
  define q where "q = last (sl_head # A i)"
  have q: "p ! i = q" using Suc.prems(2) i(1) by (simp add: q_def)
  have old: "linked s i sl_head (A i @ B i)" using Suc.prems(5) [OF i(2)] by simp
  from linked_next [OF linked_from [OF old]] obtain nxt where nxt: "node_Next s q i = Some nxt" by (auto simp: q_def)
  then have qh: "q < length (sl_nodes s)" "i < height s q" by (auto simp: node_Next_def height_def split: if_splits)
  have xh: "i < height s x" using Suc.prems(6) i(1) by simp
  from node_SetNext_Some [OF Suc.prems(1) xh, of nxt] obtain s1 where s1: "node_SetNext x i nxt s = Some s1"
    "\<And>z m. node_Next s1 z m = (if z = x \<and> m = i then Some nxt else node_Next s z m)" "\<And>z. height s1 z = height s z"
    "\<And>z. key_of s1 z = key_of s z" "length (sl_nodes s1) = length (sl_nodes s)" "sl_max_height s1 = sl_max_height s" by metis
  have "q < length (sl_nodes s1)" "i < height s1 q" using qh s1(3,5) by simp_all
  from node_SetNext_Some [OF this, of "Some x"] obtain s2 where s2: "node_SetNext q i (Some x) s1 = Some s2"
    "\<And>z m. node_Next s2 z m = (if z = q \<and> m = i then Some (Some x) else node_Next s1 z m)" "\<And>z. height s2 z = height s1 z"
    "\<And>z. key_of s2 z = key_of s1 z" "length (sl_nodes s2) = length (sl_nodes s1)" "sl_max_height s2 = sl_max_height s1" by metis
  have "q \<in> set (sl_head # A i)" unfolding q_def by (rule last_in_set) simp
  then have qx: "q \<noteq> x" using Suc.prems(4) [of i] by auto
  have new: "linked s2 i sl_head (A i @ x # B i)"
    by (rule linked_insert [OF old Suc.prems(3,4) q_def]) (use s1(2) s2(2) nxt qx in simp_all)
  have others: "linked s2 l y as = linked s l y as" if "l \<noteq> i" for l y as
    using that s1(2) s2(2) by (intro linked_cong) simp
  have "linked s2 l sl_head (A l @ (if l < Suc i then [x] else []) @ B l)" if "l < kMaxHeight" for l
    using Suc.prems(5) [OF that] new others [of l] by (cases "l = i") (auto simp: less_Suc_eq)
  moreover have "x < length (sl_nodes s2)" "height s2 x = h" "Suc i \<le> h" "n = h - Suc i"
    using Suc.prems(1,6) Suc.hyps(2) i(1) s1 s2 by simp_all
  ultimately obtain s' where s': "link_levels x p [Suc i..<h] s2 = Some s'"
    "\<forall>z. key_of s' z = key_of s2 z \<and> height s' z = height s2 z" "length (sl_nodes s') = length (sl_nodes s2)"
    "sl_max_height s' = sl_max_height s2"
    "\<forall>l < kMaxHeight. linked s' l sl_head (A l @ (if l < h then [x] else []) @ B l)"
    using Suc.hyps(1) [of "Suc i" s2] Suc.prems(2-4,7) by blast
  have "link_levels x p [i..<h] s = Some s'" using s'(1) s1(1) s2(1) nxt q i(3) by simp
  then show ?case using s'(2-5) s1(3-6) s2(3-6) by auto
qed

lemma fold_heads:
  "length (fold (\<lambda>i p. p[i := x]) [m..<h] p) = length p"
  "l < length p \<Longrightarrow> fold (\<lambda>i p. p[i := x]) [m..<h] p ! l = (if m \<le> l \<and> l < h then x else p ! l)"
proof -
  have fold: "length (fold (\<lambda>i p. p[i := x]) is p) = length p \<and>
      (l < length p \<longrightarrow> fold (\<lambda>i p. p[i := x]) is p ! l = (if l \<in> set is then x else p ! l))" for "is" :: "nat list"
    by (induction "is" arbitrary: p) (auto simp: nth_list_update)
  from fold show "length (fold (\<lambda>i p. p[i := x]) [m..<h] p) = length p" by blast
  from fold show "l < length p \<Longrightarrow> fold (\<lambda>i p. p[i := x]) [m..<h] p ! l = (if m \<le> l \<and> l < h then x else p ! l)" by auto
qed

context key_order
begin

lemma Insert_ok:
  assumes "skip_ok compare s (L @ G)" "\<forall>a \<in> set L. compare (key_of s a) k < 0" "\<forall>a \<in> set G. compare (key_of s a) k > 0"
    "keys_valid s (L @ G)" "valid k" "length unset = kMaxHeight" "x = length (sl_nodes s)"
  shows "\<exists>s'. Insert unset compare k s = Some s' \<and> skip_ok compare s' (L @ x # G) \<and> key_of s' x = k \<and>
    (\<forall>a < x. key_of s' a = key_of s a)"
proof -
  from FindGreaterOrEqual_ok(2) [OF assms(1,2), of unset] assms(3,6) obtain n p where
    p: "FindGreaterOrEqual compare k (Some unset) s = Some (n, Some p)" "length p = kMaxHeight"
    "\<forall>l < sl_max_height s. p ! l = last (sl_head # at_level s l L)" and n: "n = (case G of [] \<Rightarrow> None | a # _ \<Rightarrow> Some a)" by fastforce
  have new: "\<not> (n \<noteq> None \<and> compare k (key_of s (the n)) = 0)"
    using n assms(3,4,5) compare_sym [of k "key_of s (hd G)"] by (cases G) auto
  define h where "h = fst (random_height_loop (Suc 0) (sl_rnd s))"
  define rnd where "rnd = snd (random_height_loop (Suc 0) (sl_rnd s))"
  have h: "1 \<le> h" "h \<le> kMaxHeight" using random_height_bounds [of "Suc 0" "sl_rnd s"] by (simp_all add: h_def kMaxHeight_def)
  define p1 where "p1 = (if h > sl_max_height s then fold (\<lambda>i p. p[i := sl_head]) [sl_max_height s..<h] p else p)"
  define s1 where "s1 = s\<lparr>sl_rnd := rnd, sl_max_height := max h (sl_max_height s),
    sl_nodes := sl_nodes s @ [\<lparr>node_key = k, node_next = replicate h None\<rparr>]\<rparr>"
  have step: "Insert unset compare k s = link_levels x p1 [0..<h] s1"
    using assms(7) unfolding Insert_def RandomHeight_def p(1) Option.bind.bind_lunit prod.case if_not_P [OF new]
    by (simp add: case_prod_beta Let_def h_def [symmetric] rnd_def [symmetric] p1_def s1_def NewNode_def max_def)
  have ok: "\<forall>l < kMaxHeight. linked s l sl_head (at_level s l (L @ G))" "distinct (L @ G)"
    "\<forall>a \<in> set (L @ G). 0 < a \<and> a < length (sl_nodes s)" "sl_nodes s \<noteq> []" "height s sl_head = kMaxHeight"
    "\<forall>a \<in> set (L @ G). 1 \<le> height s a \<and> height s a \<le> sl_max_height s" "1 \<le> sl_max_height s" "sl_max_height s \<le> kMaxHeight"
    "sorted_wrt (\<lambda>a b. compare (key_of s a) (key_of s b) < 0) (L @ G)"
    using assms(1) by (auto simp: skip_ok_def)
  have s1: "a < x \<Longrightarrow> height s1 a = height s a" "a < x \<Longrightarrow> key_of s1 a = key_of s a" "height s1 x = h" "key_of s1 x = k"
    "a < x \<Longrightarrow> node_Next s1 a l = node_Next s a l" "length (sl_nodes s1) = Suc x" for a l
    using assms(7) by (simp_all add: s1_def height_def key_of_def node_Next_def nth_append)
  have lev: "at_level s1 l as = at_level s l as" if "set as \<subseteq> set (L @ G)" for l as
    using that ok(3) s1(1) assms(7) unfolding at_level_def by (intro filter_cong) auto
  have p1: "p1 ! l = last (sl_head # at_level s l L)" if l: "l < h" for l
  proof (cases "l < sl_max_height s")
    case True
    then show ?thesis using p(2,3) l h(2) by (simp add: p1_def fold_heads)
  next
    case False
    have "\<not> l < height s a" if "a \<in> set L" for a
      using ok(6) [rule_format, of a] that False by simp
    then have "at_level s l L = []" by (simp add: at_level_def)
    then show ?thesis using False l p(2) h(2) by (simp add: p1_def fold_heads)
  qed
  have "x < length (sl_nodes s1)" "\<And>l. distinct (sl_head # at_level s l L @ at_level s l G)"
    "\<And>l. x \<notin> set (sl_head # at_level s l L @ at_level s l G)"
    using s1(6) ok(2,3,4) assms(7) by (auto simp: at_level_def)
  moreover have "linked s1 l sl_head (at_level s l L @ (if l < 0 then [x] else []) @ at_level s l G)" if "l < kMaxHeight" for l
  proof -
    have "linked s1 l sl_head (at_level s l (L @ G)) = linked s l sl_head (at_level s l (L @ G))"
      by (rule linked_cong, rule s1(5)) (use ok(3,4) assms(7) in \<open>auto simp: at_level_def\<close>)
    then show ?thesis using ok(1) that by simp
  qed
  ultimately obtain s' where s': "link_levels x p1 [0..<h] s1 = Some s'" "\<forall>z. key_of s' z = key_of s1 z \<and> height s' z = height s1 z"
    "length (sl_nodes s') = length (sl_nodes s1)" "sl_max_height s' = sl_max_height s1"
    "\<forall>l < kMaxHeight. linked s' l sl_head (at_level s l L @ (if l < h then [x] else []) @ at_level s l G)"
    using link_levels_ok [of x s1 h p1 "\<lambda>l. at_level s l L" "\<lambda>l. at_level s l G" 0] p1 s1(3) h(2) by blast
  have lev': "at_level s' l as = at_level s1 l as" for l as using s'(2) by (simp add: at_level_def)
  have below: "a < x" if "a \<in> set (L @ G)" for a using ok(3) that assms(7) by simp
  have new: "compare k (key_of s a) < 0" if "a \<in> set G" for a
    using compare_sym [of k "key_of s a"] assms(3,4,5) that by simp
  have "skip_ok compare s' (L @ x # G)"
    unfolding skip_ok_def
  proof (intro conjI)
    show "\<forall>l < kMaxHeight. linked s' l sl_head (at_level s' l (L @ x # G))"
    proof (intro allI impI)
      fix l
      assume "l < kMaxHeight"
      then show "linked s' l sl_head (at_level s' l (L @ x # G))"
        using s'(5) [rule_format, of l] lev' [of l] lev [of L l] lev [of G l] s1(3) s'(2) by (cases "l < h") simp_all
    qed
    have "sorted_wrt (\<lambda>a b. compare (key_of s' a) (key_of s' b) < 0) (L @ G)"
      using ok(9) by (rule sorted_wrt_mono_rel [rotated]) (use s'(2) s1(2) below in simp)
    then show "sorted_wrt (\<lambda>a b. compare (key_of s' a) (key_of s' b) < 0) (L @ x # G)"
      using assms(2) new s'(2) s1(2,4) below by (simp add: sorted_wrt_append)
    show "distinct (L @ x # G)" using ok(2) below by auto
    show "\<forall>a \<in> set (L @ x # G). 0 < a \<and> a < length (sl_nodes s')"
      using ok(3,4) s'(3) s1(6) assms(7) by (auto intro: less_SucI)
    show "sl_nodes s' \<noteq> []" using s'(3) s1(6) by auto
    show "height s' sl_head = kMaxHeight" using s'(2) s1(1) ok(4,5) assms(7) by simp
    show "\<forall>a \<in> set (L @ x # G). 1 \<le> height s' a \<and> height s' a \<le> sl_max_height s'"
      using ok(6) s'(2,4) s1(1,3) below h(1) by (auto simp: s1_def le_max_iff_disj)
    show "1 \<le> sl_max_height s'" "sl_max_height s' \<le> kMaxHeight" using s'(4) ok(7,8) h by (simp_all add: s1_def)
  qed
  then show ?thesis using step s'(1,2) s1(2,4) by (intro exI [of _ s']) simp
qed

lemma Contains_ok:
  assumes "skip_ok compare s as" "keys_valid s as" "valid k"
  shows "Contains compare k s = Some (\<exists>a \<in> set as. compare k (key_of s a) = 0)"
proof -
  from split_at [OF assms] obtain L G where LG: "as = L @ G" "\<forall>a \<in> set L. compare (key_of s a) k < 0"
    "\<forall>a \<in> set G. \<not> compare (key_of s a) k < 0" by blast
  have L: "compare k (key_of s a) \<noteq> 0" if "a \<in> set L" for a
    using compare_sym [of "key_of s a" k] assms(2,3) LG(1,2) that by fastforce
  have found: "FindGreaterOrEqual compare k None s = Some (case G of [] \<Rightarrow> None | a # _ \<Rightarrow> Some a, None)"
    using FindGreaterOrEqual_ok(1) [OF _ LG(2,3)] assms(1) LG(1) by simp
  show ?thesis
  proof (cases G)
    case (Cons b bs)
    have "compare k (key_of s a) < 0" if a: "a \<in> set bs" for a
    proof -
      have v: "valid (key_of s b)" "valid (key_of s a)" using assms(2) LG(1) Cons a by auto
      have "compare (key_of s b) (key_of s a) < 0" using assms(1) LG(1) Cons a by (auto simp: skip_ok_def sorted_wrt_append)
      then have "\<not> compare (key_of s a) k \<le> 0"
        using compare_trans [OF v(2) assms(3) v(1)] compare_sym [OF v] compare_sym [OF v(1) assms(3)] compare_sym [OF assms(3) v(1)] LG(3) Cons
        by auto
      then show ?thesis using compare_sym [OF assms(3) v(2)] by linarith
    qed
    then have "\<forall>a \<in> set bs. compare k (key_of s a) \<noteq> 0" by fastforce
    then show ?thesis using L found Cons LG(1) by (auto simp: Contains_def)
  qed (use L found LG(1) in \<open>auto simp: Contains_def\<close>)
qed

lemma SkipList_ok: "skip_ok compare (SkipList any_key) []"
  by (simp add: skip_ok_def SkipList_def node_Next_def height_def kMaxHeight_def)

section \<open>Iteration\<close>

text \<open>The iterator stands at the node of index \<open>i\<close>, or past the end.\<close>

lemma level_0_links:
  assumes "skip_ok compare s as"
  shows "linked s 0 sl_head as"
proof -
  have "linked s 0 sl_head (at_level s 0 as)" "\<forall>a \<in> set as. 1 \<le> height s a"
    using assms by (auto simp: skip_ok_def kMaxHeight_def)
  then show ?thesis using at_level_0 by metis
qed

lemma sl_Next_at:
  assumes "skip_ok compare s as" "i < length as"
  shows "sl_Next s (sl_at as i) = Some (sl_at as (Suc i))"
proof -
  have "linked s 0 sl_head (take (Suc i) as @ drop (Suc i) as)" using level_0_links [OF assms(1)] by simp
  then have "linked s 0 (last (sl_head # take (Suc i) as)) (drop (Suc i) as)" by (rule linked_from)
  moreover have "last (sl_head # take (Suc i) as) = as ! i" using assms(2) by (simp add: take_Suc_conv_app_nth)
  ultimately have "node_Next s (as ! i) 0 = Some (case drop (Suc i) as of [] \<Rightarrow> None | a # _ \<Rightarrow> Some a)"
    using linked_next by fastforce
  then show ?thesis using assms(2) by (cases "Suc i < length as") (auto simp: sl_Next_def sl_at_def Cons_nth_drop_Suc [symmetric])
qed

lemma sl_SeekToFirst_at:
  assumes "skip_ok compare s as"
  shows "sl_SeekToFirst s = Some (sl_at as 0)"
  using linked_next [OF level_0_links [OF assms]] by (simp add: sl_SeekToFirst_def sl_at_def split: list.splits)

lemma sl_SeekToLast_at:
  assumes "skip_ok compare s as"
  shows "sl_SeekToLast s = Some (sl_at as (length as - 1))"
proof -
  have "last as \<noteq> sl_head" if "as \<noteq> []" using assms that last_in_set by (fastforce simp: skip_ok_def)
  then show ?thesis by (simp add: sl_SeekToLast_def FindLast_ok [OF assms] sl_at_def last_conv_nth)
qed

lemma sl_Seek_at:
  assumes "skip_ok compare s (L @ G)" "\<forall>a \<in> set L. compare (key_of s a) k < 0" "\<forall>a \<in> set G. \<not> compare (key_of s a) k < 0"
  shows "sl_Seek compare s k = Some (sl_at (L @ G) (length L))"
  using FindGreaterOrEqual_ok(1) [OF assms] by (simp add: sl_Seek_def sl_at_def nth_append split: list.splits)

lemma sl_Prev_at:
  assumes "skip_ok compare s as" "keys_valid s as" "i < length as"
  shows "sl_Prev compare s (sl_at as i) = Some (sl_at as (if i = 0 then length as else i - 1))"
proof -
  have as: "skip_ok compare s (take i as @ drop i as)" using assms(1) by simp
  have less: "compare (key_of s (as ! j)) (key_of s (as ! m)) < 0" if "j < m" "m < length as" for j m
    using assms(1) that by (simp add: skip_ok_def sorted_wrt_iff_nth_less)
  have v: "valid (key_of s (as ! j))" if "j < length as" for j using assms(2) that by simp
  have "\<forall>a \<in> set (take i as). compare (key_of s a) (key_of s (as ! i)) < 0"
    using less assms(3) by (auto simp: in_set_conv_nth)
  moreover have "\<not> compare (key_of s (as ! j)) (key_of s (as ! i)) < 0" if j: "i \<le> j" "j < length as" for j
  proof (cases "i = j")
    case True
    then show ?thesis using compare_sym [OF v v] j by (metis less_asym')
  next
    case False
    then have "compare (key_of s (as ! i)) (key_of s (as ! j)) < 0" using less j by simp
    then show ?thesis using compare_sym [OF v v, of i j] j assms(3) by simp
  qed
  then have "\<forall>a \<in> set (drop i as). \<not> compare (key_of s a) (key_of s (as ! i)) < 0"
    by (auto simp: in_set_conv_nth)
  ultimately have "FindLessThan compare (key_of s (as ! i)) s = Some (last (sl_head # take i as))"
    by (rule FindGreaterOrEqual_ok(3) [OF as])
  moreover have "last (take i as) = as ! (i - 1)" if "i \<noteq> 0"
    using that assms(3) by (cases i) (simp_all add: take_Suc_conv_app_nth)
  moreover have "as ! (i - 1) \<in> set as" using assms(3) by simp
  then have "as ! (i - 1) \<noteq> sl_head" using assms(1) unfolding skip_ok_def by fastforce
  ultimately show ?thesis using assms(3) by (auto simp: sl_Prev_def sl_at_def)
qed

end

section \<open>Insertions\<close>

fun insert_all :: "nat list \<Rightarrow> ('k \<Rightarrow> 'k \<Rightarrow> int) \<Rightarrow> 'k list \<Rightarrow> 'k skiplist \<Rightarrow> 'k skiplist option" where
  "insert_all unset compare [] s = Some s"
| "insert_all unset compare (k # ks) s = Option.bind (Insert unset compare k s) (insert_all unset compare ks)"

context key_order
begin

text \<open>Any keys, no two of them equal for the comparator.\<close>

lemma insert_all_ok:
  assumes "skip_ok compare s as" "keys_valid s as" "\<forall>k \<in> set ks. valid k" "length unset = kMaxHeight"
    "distinct ks" "\<forall>k \<in> set ks. \<forall>k' \<in> set ks \<union> key_of s ` set as. k \<noteq> k' \<longrightarrow> compare k k' \<noteq> 0"
    "set ks \<inter> key_of s ` set as = {}"
  shows "\<exists>s' as'. insert_all unset compare ks s = Some s' \<and> skip_ok compare s' as' \<and> keys_valid s' as' \<and>
    mset (map (key_of s') as') = mset (map (key_of s) as) + mset ks"
  using assms
proof (induction ks arbitrary: s as)
  case (Cons k ks)
  from Cons.prems(3) have vk: "valid k" by simp
  from split_at [OF Cons.prems(1,2) vk] obtain L G where LG: "as = L @ G" "\<forall>a \<in> set L. compare (key_of s a) k < 0"
    "\<forall>a \<in> set G. \<not> compare (key_of s a) k < 0" by blast
  have "compare (key_of s a) k > 0" if "a \<in> set G" for a
  proof -
    have v: "valid (key_of s a)" using Cons.prems(2) LG(1) that by simp
    have "compare k (key_of s a) \<noteq> 0" using Cons.prems(6,7) LG(1) that by auto
    then show ?thesis using compare_sym [OF v vk] compare_sym [OF vk v] LG(3) that by fastforce
  qed
  then obtain s1 where s1: "Insert unset compare k s = Some s1" "skip_ok compare s1 (L @ length (sl_nodes s) # G)"
    "key_of s1 (length (sl_nodes s)) = k" "\<forall>a < length (sl_nodes s). key_of s1 a = key_of s a"
    using Insert_ok [OF _ LG(2), of G unset] Cons.prems(1,2,4) vk LG(1) by blast
  have old: "key_of s1 a = key_of s a" if "a \<in> set as" for a
    using s1(4) Cons.prems(1) that by (simp add: skip_ok_def)
  have "keys_valid s1 (L @ length (sl_nodes s) # G)" using Cons.prems(2) old s1(3) vk LG(1) by auto
  moreover have keys: "key_of s1 ` set (L @ length (sl_nodes s) # G) = insert k (key_of s ` set as)"
    using old s1(3) LG(1) by force
  ultimately obtain s' as' where s': "insert_all unset compare ks s1 = Some s'" "skip_ok compare s' as'" "keys_valid s' as'"
    "mset (map (key_of s') as') = mset (map (key_of s1) (L @ length (sl_nodes s) # G)) + mset ks"
    using Cons.IH [OF s1(2) _ _ Cons.prems(4)] Cons.prems(3,5,6,7) unfolding keys by auto
  moreover have "map (key_of s1) L = map (key_of s) L" "map (key_of s1) G = map (key_of s) G" using old LG(1) by simp_all
  ultimately show ?case using s1(1,3) LG(1) by (intro exI [of _ s'] exI [of _ as']) simp
qed auto

end

end
