(* ===== verification/IteratorSpec.thy ===== *)
theory IteratorSpec
  imports DbStatus
begin

text \<open>
  \<open>include/leveldb/iterator.h\<close> and \<open>table/iterator.cc\<close>: the interface every source of key/value pairs has, and its
  contract.

  \<open>iterator_class\<close> holds the virtual functions of a class derived from \<open>Iterator\<close> whose objects have the state
  \<open>'it\<close>.  A function that moves the iterator returns the new state, and \<open>None\<close> where the call is undefined or
  does not return.
\<close>

record 'it iterator_class =
  Valid :: "'it \<Rightarrow> bool"
  SeekToFirst :: "'it \<Rightarrow> 'it option"
  SeekToLast :: "'it \<Rightarrow> 'it option"
  Seek :: "slice \<Rightarrow> 'it \<Rightarrow> 'it option"
  Next :: "'it \<Rightarrow> 'it option"
  Prev :: "'it \<Rightarrow> 'it option"
  Key :: "'it \<Rightarrow> slice"
  Value :: "'it \<Rightarrow> slice"
  Status :: "'it \<Rightarrow> status"

section \<open>The empty iterator\<close>

text \<open>Its state is its status; moving it and reading it are asserted not to happen.\<close>

definition EmptyIterator :: "status iterator_class" where
  "EmptyIterator =
     \<lparr>Valid = \<lambda>_. False, SeekToFirst = Some, SeekToLast = Some, Seek = \<lambda>_. Some, Next = \<lambda>_. None, Prev = \<lambda>_. None,
      Key = \<lambda>_. [], Value = \<lambda>_. [], Status = \<lambda>status. status\<rparr>"

definition NewEmptyIterator :: status where
  "NewEmptyIterator = Status_OK"

definition NewErrorIterator :: "status \<Rightarrow> status" where
  "NewErrorIterator status = status"

section \<open>The contract\<close>

type_synonym entry = "slice \<times> slice"

text \<open>The index of the first entry at or past a target.\<close>

definition seek_index :: "(slice \<Rightarrow> slice \<Rightarrow> int) \<Rightarrow> slice \<Rightarrow> entry list \<Rightarrow> nat" where
  "seek_index Compare target es = length (takeWhile (\<lambda>e. Compare (fst e) target < 0) es)"

definition prev_index :: "nat \<Rightarrow> entry list \<Rightarrow> nat" where
  "prev_index i es = (if i = 0 then length es else i - 1)"

text \<open>
  \<open>stands es it i\<close>: the iterator is one over the entries \<open>es\<close>, without error so far, and positioned at entry \<open>i\<close>, or
  not valid when \<open>i\<close> is the number of entries.
\<close>

locale iterator =
  fixes I :: "'it iterator_class"
    and valid :: "slice \<Rightarrow> bool"
    and Compare :: "slice \<Rightarrow> slice \<Rightarrow> int"
    and stands :: "entry list \<Rightarrow> 'it \<Rightarrow> nat \<Rightarrow> bool"
  assumes stands_le: "stands es it i \<Longrightarrow> i \<le> length es"
    and Valid_iff: "stands es it i \<Longrightarrow> Valid I it \<longleftrightarrow> i < length es"
    and Key_nth: "stands es it i \<Longrightarrow> i < length es \<Longrightarrow> Key I it = fst (es ! i)"
    and Value_nth: "stands es it i \<Longrightarrow> i < length es \<Longrightarrow> Value I it = snd (es ! i)"
    and Status_OK: "stands es it i \<Longrightarrow> Status I it = Status_OK"
    and SeekToFirst: "stands es it i \<Longrightarrow> \<exists>it'. SeekToFirst I it = Some it' \<and> stands es it' 0"
    and SeekToLast: "stands es it i \<Longrightarrow> \<exists>it'. SeekToLast I it = Some it' \<and> stands es it' (length es - 1)"
    and Seek: "stands es it i \<Longrightarrow> valid target \<Longrightarrow>
      \<exists>it'. Seek I target it = Some it' \<and> stands es it' (seek_index Compare target es)"
    and Next: "stands es it i \<Longrightarrow> i < length es \<Longrightarrow> \<exists>it'. Next I it = Some it' \<and> stands es it' (Suc i)"
    and Prev: "stands es it i \<Longrightarrow> i < length es \<Longrightarrow> \<exists>it'. Prev I it = Some it' \<and> stands es it' (prev_index i es)"

text \<open>The empty iterator keeps it, for no entries.\<close>

interpretation empty: iterator EmptyIterator "\<lambda>_. True" Compare "\<lambda>es it i. es = [] \<and> it = Status_OK \<and> i = 0" for Compare
  by unfold_locales (simp_all add: EmptyIterator_def seek_index_def)

section \<open>Positions in sorted entries\<close>

definition sorted_entries :: "(slice \<Rightarrow> slice \<Rightarrow> int) \<Rightarrow> entry list \<Rightarrow> bool" where
  "sorted_entries Compare es \<longleftrightarrow> sorted_wrt (\<lambda>a b. Compare (fst a) (fst b) < 0) es"

lemma seek_index_le: "seek_index Compare target es \<le> length es"
  by (simp add: seek_index_def length_takeWhile_le)

lemma seek_index_less: "i < seek_index Compare target es \<Longrightarrow> Compare (fst (es ! i)) target < 0"
  unfolding seek_index_def using nth_length_takeWhile set_takeWhileD
  by (metis (no_types, lifting) nth_mem takeWhile_nth)

lemma seek_index_here:
  "seek_index Compare target es < length es \<Longrightarrow> 0 \<le> Compare (fst (es ! seek_index Compare target es)) target"
  unfolding seek_index_def using nth_length_takeWhile [of "\<lambda>e. Compare (fst e) target < 0" es] by simp

lemma seek_indexI:
  assumes "j \<le> length es" "\<And>i. i < j \<Longrightarrow> Compare (fst (es ! i)) target < 0"
    "j < length es \<Longrightarrow> 0 \<le> Compare (fst (es ! j)) target"
  shows "seek_index Compare target es = j"
proof (rule antisym)
  show "seek_index Compare target es \<le> j"
    using seek_index_less [of j Compare target es] assms(3) seek_index_le [of Compare target es] by fastforce
  show "j \<le> seek_index Compare target es"
    using seek_index_here [of Compare target es] assms(1,2) by (meson leD leI less_le_trans)
qed

section \<open>Sequences of moves\<close>

text \<open>
  The calls a client makes: on an iterator, where \<open>Next\<close> and \<open>Prev\<close> are asserted to be called on valid
  iterators only, and on an index into a list of entries.
\<close>

datatype move = ToFirst | ToLast | To slice | Forward | Backward

fun move_iterator :: "'it iterator_class \<Rightarrow> move \<Rightarrow> 'it \<Rightarrow> 'it option" where
  "move_iterator I ToFirst it = SeekToFirst I it"
| "move_iterator I ToLast it = SeekToLast I it"
| "move_iterator I (To target) it = Seek I target it"
| "move_iterator I Forward it = (if Valid I it then Next I it else None)"
| "move_iterator I Backward it = (if Valid I it then Prev I it else None)"

fun move_index :: "(slice \<Rightarrow> slice \<Rightarrow> int) \<Rightarrow> entry list \<Rightarrow> move \<Rightarrow> nat \<Rightarrow> nat option" where
  "move_index Compare es ToFirst i = Some 0"
| "move_index Compare es ToLast i = Some (length es - 1)"
| "move_index Compare es (To target) i = Some (seek_index Compare target es)"
| "move_index Compare es Forward i = (if i < length es then Some (Suc i) else None)"
| "move_index Compare es Backward i = (if i < length es then Some (prev_index i es) else None)"

fun run_moves :: "(move \<Rightarrow> 's \<Rightarrow> 's option) \<Rightarrow> move list \<Rightarrow> 's \<Rightarrow> 's option" where
  "run_moves step [] s = Some s"
| "run_moves step (m # ms) s = (case step m s of None \<Rightarrow> None | Some s' \<Rightarrow> run_moves step ms s')"

definition targets_valid :: "(slice \<Rightarrow> bool) \<Rightarrow> move list \<Rightarrow> bool" where
  "targets_valid valid ms \<longleftrightarrow> (\<forall>target. To target \<in> set ms \<longrightarrow> valid target)"

text \<open>What a client sees: the current entry, if there is one, and the status.\<close>

definition observe :: "'it iterator_class \<Rightarrow> 'it \<Rightarrow> entry option \<times> status" where
  "observe I it = (if Valid I it then Some (Key I it, Value I it) else None, Status I it)"

definition entry_at :: "entry list \<Rightarrow> nat \<Rightarrow> entry option" where
  "entry_at es i = (if i < length es then Some (es ! i) else None)"

text \<open>An iterator shows what its entries hold, after every sequence of calls.\<close>

definition shows_entries ::
  "'it iterator_class \<Rightarrow> (slice \<Rightarrow> bool) \<Rightarrow> (slice \<Rightarrow> slice \<Rightarrow> int) \<Rightarrow> entry list \<Rightarrow> 'it \<Rightarrow> bool" where
  "shows_entries I valid Compare es it \<longleftrightarrow>
     (\<forall>ms j. targets_valid valid ms \<longrightarrow> run_moves (move_index Compare es) ms (length es) = Some j \<longrightarrow>
       (\<exists>it'. run_moves (move_iterator I) ms it = Some it' \<and> observe I it' = (entry_at es j, Status_OK)))"

lemma targets_valid_Cons: "targets_valid valid (m # ms) \<longleftrightarrow> targets_valid valid ms \<and> (\<forall>t. m = To t \<longrightarrow> valid t)"
  by (auto simp: targets_valid_def)

lemma move_index_le: "i \<le> length es \<Longrightarrow> move_index Compare es m i = Some j \<Longrightarrow> j \<le> length es"
  by (cases m) (auto simp: seek_index_le prev_index_def split: if_splits)

context iterator
begin

lemma observe_stands: "stands es it i \<Longrightarrow> observe I it = (entry_at es i, Status_OK)"
  using Valid_iff [of es it i] Key_nth [of es it i] Value_nth [of es it i] Status_OK [of es it i]
  by (auto simp: observe_def entry_at_def)

lemma move_stands:
  assumes "stands es it i" "move_index Compare es m i = Some j" "\<forall>t. m = To t \<longrightarrow> valid t"
  shows "\<exists>it'. move_iterator I m it = Some it' \<and> stands es it' j"
proof (cases m)
  case ToFirst
  then show ?thesis using SeekToFirst [OF assms(1)] assms(2) by auto
next
  case ToLast
  then show ?thesis using SeekToLast [OF assms(1)] assms(2) by auto
next
  case (To t)
  then show ?thesis using Seek [OF assms(1), of t] assms(2,3) by auto
next
  case Forward
  then show ?thesis using Next [OF assms(1)] Valid_iff [OF assms(1)] assms(2) by (auto split: if_splits)
next
  case Backward
  then show ?thesis using Prev [OF assms(1)] Valid_iff [OF assms(1)] assms(2) by (auto split: if_splits)
qed

lemma run_stands:
  assumes "stands es it i" "run_moves (move_index Compare es) ms i = Some j" "targets_valid valid ms"
  shows "\<exists>it'. run_moves (move_iterator I) ms it = Some it' \<and> stands es it' j"
  using assms
proof (induction ms arbitrary: it i)
  case (Cons m ms)
  from Cons.prems(2) obtain k where k: "move_index Compare es m i = Some k"
    "run_moves (move_index Compare es) ms k = Some j" by (auto split: option.splits)
  from move_stands [OF Cons.prems(1) k(1)] Cons.prems(3) obtain it' where
    "move_iterator I m it = Some it'" "stands es it' k" by (auto simp: targets_valid_Cons)
  with Cons.IH [OF this(2) k(2)] Cons.prems(3) show ?case by (simp add: targets_valid_Cons)
qed auto

lemma stands_shows:
  assumes "stands es it (length es)"
  shows "shows_entries I valid Compare es it"
  unfolding shows_entries_def using run_stands [OF assms] observe_stands by fast

end

end
