(* ===== verification/MemTable.thy ===== *)
theory MemTable
  imports SkipList IteratorSpec DbFormat
begin

text \<open>
  \<open>db/memtable.cc\<close> and \<open>db/memtable.h\<close> of leveldb: the table of the newest writes.

  An entry, a pointer into the arena that is never written again, is the list of bytes it points to.  Reading an
  entry that is cut short is the undefined result \<open>None\<close>.  The user's comparator is an argument.
\<close>

section \<open>Entries\<close>

text \<open>
  The slice at a pointer, and the bytes behind it.  The limit \<open>p + 5\<close> of the decoder is the number of bytes its
  shifts allow.
\<close>

definition memtable_slice :: "byte list \<Rightarrow> (slice \<times> byte list) option" where
  "memtable_slice data =
     (case GetVarint32Ptr data of
        None \<Rightarrow> None
      | Some (len, p) \<Rightarrow> if unat len > length p then None else Some (take (unat len) p, drop (unat len) p))"

definition KeyComparator :: "(slice \<Rightarrow> slice \<Rightarrow> int) \<Rightarrow> byte list \<Rightarrow> byte list \<Rightarrow> int" where
  "KeyComparator Compare aptr bptr =
     InternalKey_Compare Compare (fst (the (memtable_slice aptr))) (fst (the (memtable_slice bptr)))"

definition EncodeKey :: "slice \<Rightarrow> byte list" where
  "EncodeKey target = PutVarint32 [] (of_nat (length target)) @ target"

section \<open>The table\<close>

record memtable =
  mem_refs :: int
  mem_table :: "byte list skiplist"

text \<open>The head of the skip list gets the null pointer as its key.\<close>

definition MemTable :: memtable where
  "MemTable = \<lparr>mem_refs = 0, mem_table = SkipList []\<rparr>"

definition MemTable_Ref :: "memtable \<Rightarrow> memtable" where
  "MemTable_Ref m = m\<lparr>mem_refs := mem_refs m + 1\<rparr>"

text \<open>\<open>None\<close> when the table is deleted.\<close>

definition MemTable_Unref :: "memtable \<Rightarrow> memtable option" where
  "MemTable_Unref m = (let m = m\<lparr>mem_refs := mem_refs m - 1\<rparr> in if mem_refs m \<le> 0 then None else Some m)"

text \<open>The bytes of a new entry.\<close>

definition encode_entry :: "SequenceNumber \<Rightarrow> ValueType \<Rightarrow> slice \<Rightarrow> slice \<Rightarrow> byte list" where
  "encode_entry s type key val =
     (let internal_key_size = length key + 8
      in EncodeVarint32 (of_nat internal_key_size) @ key @
         EncodeFixed64 kLittleEndian (push_bit 8 s OR ucast type) @
         EncodeVarint32 (of_nat (length val)) @ val)"

definition MemTable_Add ::
  "nat list \<Rightarrow> (slice \<Rightarrow> slice \<Rightarrow> int) \<Rightarrow> SequenceNumber \<Rightarrow> ValueType \<Rightarrow> slice \<Rightarrow> slice \<Rightarrow> memtable \<Rightarrow> memtable option"
where
  "MemTable_Add unset Compare s type key val m =
     map_option (\<lambda>t. m\<lparr>mem_table := t\<rparr>)
       (Insert unset (KeyComparator Compare) (encode_entry s type key val) (mem_table m))"

text \<open>The result with \<open>*value\<close> and \<open>*s\<close>, which are given as they were before.\<close>

definition MemTable_Get ::
  "(slice \<Rightarrow> slice \<Rightarrow> int) \<Rightarrow> lookup_key \<Rightarrow> slice \<Rightarrow> status \<Rightarrow> memtable \<Rightarrow> (bool \<times> slice \<times> status) option"
where
  "MemTable_Get Compare key val s m =
     Option.bind (sl_Seek (KeyComparator Compare) (mem_table m) (memtable_key key)) (\<lambda>node.
       if \<not> sl_Valid node then Some (False, val, s)
       else
         let entry = sl_key (mem_table m) node
         in Option.bind (GetVarint32Ptr entry) (\<lambda>(key_length, key_ptr).
              if Compare (take (unat (key_length - 8)) key_ptr) (lookup_user_key key) = 0 then
                let tag = DecodeFixed64 kLittleEndian (drop (unat (key_length - 8)) key_ptr);
                    type = ucast (tag AND 0xff) :: u8
                in if type = kTypeValue then
                     map_option (\<lambda>(v, _). (True, v, s)) (memtable_slice (drop (unat key_length) key_ptr))
                   else if type = kTypeDeletion then Some (True, val, Status_NotFound [] [])
                   else Some (False, val, s)
              else Some (False, val, s)))"

section \<open>Its iterator\<close>

text \<open>The state is the node of the skip list's iterator.\<close>

definition memtable_iterator :: "(slice \<Rightarrow> slice \<Rightarrow> int) \<Rightarrow> memtable \<Rightarrow> nat option iterator_class" where
  "memtable_iterator Compare m =
     \<lparr>Valid = sl_Valid,
      SeekToFirst = \<lambda>_. sl_SeekToFirst (mem_table m),
      SeekToLast = \<lambda>_. sl_SeekToLast (mem_table m),
      Seek = \<lambda>k _. sl_Seek (KeyComparator Compare) (mem_table m) (EncodeKey k),
      Next = sl_Next (mem_table m),
      Prev = sl_Prev (KeyComparator Compare) (mem_table m),
      Key = \<lambda>node. fst (the (memtable_slice (sl_key (mem_table m) node))),
      Value = \<lambda>node. fst (the (memtable_slice (snd (the (memtable_slice (sl_key (mem_table m) node)))))),
      Status = \<lambda>_. Status_OK\<rparr>"

definition MemTable_NewIterator :: "nat option" where
  "MemTable_NewIterator = None"

section \<open>Writes\<close>

text \<open>
  A write: its sequence number, type, user key and value.  Lengths fit their 32-bit fields.
\<close>

type_synonym db_write = "SequenceNumber \<times> ValueType \<times> slice \<times> slice"

definition write_internal_key :: "db_write \<Rightarrow> slice" where
  "write_internal_key w = (case w of (s, t, k, v) \<Rightarrow> AppendInternalKey [] \<lparr>user_key = k, key_sequence = s, key_type = t\<rparr>)"

definition write_entry :: "db_write \<Rightarrow> byte list" where
  "write_entry w = (case w of (s, t, k, v) \<Rightarrow> encode_entry s t k v)"

definition write_ok :: "(slice \<Rightarrow> bool) \<Rightarrow> db_write \<Rightarrow> bool" where
  "write_ok valid w \<longleftrightarrow> (case w of (s, t, k, v) \<Rightarrow>
     s \<le> kMaxSequenceNumber \<and> t \<le> kTypeValue \<and> valid k \<and> length k + 8 < 2 ^ 32 \<and> length v < 2 ^ 32)"

lemma memtable_slice_prefixed:
  assumes "length k < 2 ^ 32"
  shows "memtable_slice (length_prefixed k @ rest) = Some (k, rest)"
  using GetLengthPrefixedSlicePtr_bytes [OF assms, of rest]
  by (simp add: memtable_slice_def GetLengthPrefixedSlicePtr_def split: option.splits prod.splits if_splits)

lemma length_AppendInternalKey: "length (AppendInternalKey r key) = length r + length (user_key key) + 8"
  by (simp add: AppendInternalKey_bytes del: to_le.simps)

lemma encode_entry_bytes:
  assumes "length k + 8 < 2 ^ 32" "length v < 2 ^ 32"
  shows "encode_entry s t k v =
    length_prefixed (AppendInternalKey [] \<lparr>user_key = k, key_sequence = s, key_type = t\<rparr>) @ length_prefixed v"
proof -
  have "unat (of_nat (length k + 8) :: u32) = length k + 8" "unat (of_nat (length v) :: u32) = length v"
    by (rule unat_of_nat_small; use assms in simp)+
  then show ?thesis
    by (simp add: encode_entry_def Let_def length_prefixed_def length_AppendInternalKey EncodeVarint32_bytes
        AppendInternalKey_bytes PackSequenceAndType_def del: to_le.simps of_nat_add)
qed

lemma write_entry_bytes:
  "write_ok valid w \<Longrightarrow> write_entry w = length_prefixed (write_internal_key w) @ length_prefixed (snd (snd (snd w)))"
  by (cases w) (simp add: write_ok_def write_entry_def write_internal_key_def encode_entry_bytes)

lemma write_lengths: "write_ok valid w \<Longrightarrow> length (write_internal_key w) < 2 ^ 32 \<and> length (snd (snd (snd w))) < 2 ^ 32"
  by (cases w) (simp add: write_ok_def write_internal_key_def length_AppendInternalKey)

lemma EncodeKey_bytes: "length k < 2 ^ 32 \<Longrightarrow> EncodeKey k = length_prefixed k"
  by (simp add: EncodeKey_def PutVarint32_bytes length_prefixed_def unat_of_nat)

text \<open>Pointers to length-prefixed internal keys: entries and lookup keys.\<close>

definition entry_valid :: "(slice \<Rightarrow> bool) \<Rightarrow> byte list \<Rightarrow> bool" where
  "entry_valid valid p \<longleftrightarrow> (\<exists>k rest. internal_valid valid k \<and> length k < 2 ^ 32 \<and> p = length_prefixed k @ rest)"

lemma entry_valid_slice:
  "entry_valid valid p \<Longrightarrow> internal_valid valid (fst (the (memtable_slice p)))"
  by (auto simp: entry_valid_def memtable_slice_prefixed)

lemma write_internal_valid: "write_ok valid w \<Longrightarrow> internal_valid valid (write_internal_key w)"
  by (cases w) (simp add: write_ok_def internal_valid_def write_internal_key_def AppendInternalKey_bytes del: to_le.simps)

lemma write_entry_valid: "write_ok valid w \<Longrightarrow> entry_valid valid (write_entry w)"
  unfolding entry_valid_def using write_lengths write_entry_bytes write_internal_valid by blast

lemma KeyComparator_writes:
  "write_ok valid a \<Longrightarrow> write_ok valid b \<Longrightarrow>
    KeyComparator Compare (write_entry a) (write_entry b) = InternalKey_Compare Compare (write_internal_key a) (write_internal_key b)"
  using write_lengths [of valid a] write_lengths [of valid b]
  by (simp add: KeyComparator_def write_entry_bytes memtable_slice_prefixed)

context comparator
begin

lemma memtable_key_order: "key_order (entry_valid valid) (KeyComparator Compare)"
proof
  fix a b c
  assume v: "entry_valid valid a" "entry_valid valid b"
  note i = entry_valid_slice [OF v(1)] entry_valid_slice [OF v(2)]
  show "KeyComparator Compare a b < 0 \<longleftrightarrow> KeyComparator Compare b a > 0"
    unfolding KeyComparator_def by (rule comparator.sym [OF internal_comparator i])
  assume "entry_valid valid c"
  note i = i entry_valid_slice [OF this]
  show "KeyComparator Compare a b \<le> 0 \<Longrightarrow> KeyComparator Compare b c \<le> 0 \<Longrightarrow> KeyComparator Compare a c \<le> 0"
    unfolding KeyComparator_def by (rule comparator.trans [OF internal_comparator i])
qed

end

interpretation memtable_keys: key_order "entry_valid (\<lambda>_. True)" "KeyComparator slice_compare"
  by (rule bytewise.memtable_key_order)

end
