(* ===== verification/WriteBatch.thy ===== *)
theory WriteBatch
  imports MemTable
begin

text \<open>
  \<open>db/write_batch.cc\<close> of leveldb: batches of updates as the bytes they are logged as, and their application to a
  memtable.  The count in the header, an \<open>int\<close> that is stored as 32 bits, is kept as those bits.
\<close>

section \<open>Batches\<close>

type_synonym write_batch = "byte list"

definition kBatchHeader :: nat where
  "kBatchHeader = 12"

definition WriteBatch_Clear :: "write_batch \<Rightarrow> write_batch" where
  "WriteBatch_Clear rep = replicate kBatchHeader 0"

definition WriteBatch :: write_batch where
  "WriteBatch = WriteBatch_Clear []"

definition ApproximateSize :: "write_batch \<Rightarrow> nat" where
  "ApproximateSize rep = length rep"

definition Batch_Count :: "write_batch \<Rightarrow> u32" where
  "Batch_Count rep = DecodeFixed32 kLittleEndian (drop 8 rep)"

definition Batch_SetCount :: "u32 \<Rightarrow> write_batch \<Rightarrow> write_batch" where
  "Batch_SetCount n rep = take 8 rep @ EncodeFixed32 kLittleEndian n @ drop 12 rep"

definition Batch_Sequence :: "write_batch \<Rightarrow> SequenceNumber" where
  "Batch_Sequence rep = DecodeFixed64 kLittleEndian rep"

definition Batch_SetSequence :: "SequenceNumber \<Rightarrow> write_batch \<Rightarrow> write_batch" where
  "Batch_SetSequence seq rep = EncodeFixed64 kLittleEndian seq @ drop 8 rep"

definition WriteBatch_Put :: "slice \<Rightarrow> slice \<Rightarrow> write_batch \<Rightarrow> write_batch" where
  "WriteBatch_Put key val rep =
     (let rep = Batch_SetCount (Batch_Count rep + 1) rep; rep = rep @ [kTypeValue];
          rep = PutLengthPrefixedSlice rep key
      in PutLengthPrefixedSlice rep val)"

definition WriteBatch_Delete :: "slice \<Rightarrow> write_batch \<Rightarrow> write_batch" where
  "WriteBatch_Delete key rep =
     (let rep = Batch_SetCount (Batch_Count rep + 1) rep; rep = rep @ [kTypeDeletion]
      in PutLengthPrefixedSlice rep key)"

definition Batch_Contents :: "write_batch \<Rightarrow> slice" where
  "Batch_Contents rep = rep"

definition Batch_ByteSize :: "write_batch \<Rightarrow> nat" where
  "Batch_ByteSize rep = length rep"

definition Batch_SetContents :: "slice \<Rightarrow> write_batch \<Rightarrow> write_batch" where
  "Batch_SetContents contents rep = contents"

definition Batch_Append :: "write_batch \<Rightarrow> write_batch \<Rightarrow> write_batch" where
  "Batch_Append dst src =
     (let dst = Batch_SetCount (Batch_Count dst + Batch_Count src) dst in dst @ drop kBatchHeader src)"

definition WriteBatch_Append :: "write_batch \<Rightarrow> write_batch \<Rightarrow> write_batch" where
  "WriteBatch_Append rep source = Batch_Append rep source"

section \<open>Iterating over a batch\<close>

lemma GetLengthPrefixedSlice_shorter: "(r, q) = GetLengthPrefixedSlice input \<Longrightarrow> length q \<le> length input"
  using GetLengthPrefixedSlice_takes [of input r q] by auto

text \<open>A handler's two functions on its state; \<open>None\<close> where they are undefined.\<close>

record 'h batch_handler =
  handler_Put :: "slice \<Rightarrow> slice \<Rightarrow> 'h \<Rightarrow> 'h option"
  handler_Delete :: "slice \<Rightarrow> 'h \<Rightarrow> 'h option"

text \<open>
  The loop: an error that is returned from it, or none and the number of records found.  The counter is an \<open>int\<close> whose
  overflow is undefined; here it wraps at 32 bits, which differs only for batches of \<open>2 ^ 31\<close> records or more.
\<close>

function iterate_loop :: "'h batch_handler \<Rightarrow> slice \<Rightarrow> u32 \<Rightarrow> 'h \<Rightarrow> (status option \<times> u32 \<times> 'h) option" where
  "iterate_loop H input found h =
     (if input = [] then Some (None, found, h)
      else
        let found = found + 1; tag = hd input; input = tl input in
        if tag = kTypeValue then
          case GetLengthPrefixedSlice input of
            (None, _) \<Rightarrow> Some (Some (Status_Corruption (bytes_of ''bad WriteBatch Put'') []), found, h)
          | (Some key, input) \<Rightarrow>
              (case GetLengthPrefixedSlice input of
                 (None, _) \<Rightarrow> Some (Some (Status_Corruption (bytes_of ''bad WriteBatch Put'') []), found, h)
               | (Some val, input) \<Rightarrow>
                   (case handler_Put H key val h of None \<Rightarrow> None | Some h \<Rightarrow> iterate_loop H input found h))
        else if tag = kTypeDeletion then
          case GetLengthPrefixedSlice input of
            (None, _) \<Rightarrow> Some (Some (Status_Corruption (bytes_of ''bad WriteBatch Delete'') []), found, h)
          | (Some key, input) \<Rightarrow>
              (case handler_Delete H key h of None \<Rightarrow> None | Some h \<Rightarrow> iterate_loop H input found h)
        else Some (Some (Status_Corruption (bytes_of ''unknown WriteBatch tag'') []), found, h))"
  by auto
termination
  by (relation "measure (\<lambda>(H, input, found, h). length input)")
    (auto dest!: GetLengthPrefixedSlice_shorter simp: neq_Nil_conv)

declare iterate_loop.simps [simp del]

definition WriteBatch_Iterate :: "'h batch_handler \<Rightarrow> write_batch \<Rightarrow> 'h \<Rightarrow> (status \<times> 'h) option" where
  "WriteBatch_Iterate H rep h =
     (if length rep < kBatchHeader then Some (Status_Corruption (bytes_of ''malformed WriteBatch (too small)'') [], h)
      else
        case iterate_loop H (remove_prefix kBatchHeader rep) 0 h of
          None \<Rightarrow> None
        | Some (Some s, found, h) \<Rightarrow> Some (s, h)
        | Some (None, found, h) \<Rightarrow>
            if found \<noteq> Batch_Count rep then Some (Status_Corruption (bytes_of ''WriteBatch has wrong count'') [], h)
            else Some (Status_OK, h))"

section \<open>Applying a batch to a memtable\<close>

definition MemTableInserter :: "nat list \<Rightarrow> (slice \<Rightarrow> slice \<Rightarrow> int) \<Rightarrow> (SequenceNumber \<times> memtable) batch_handler" where
  "MemTableInserter unset Compare =
     \<lparr>handler_Put = \<lambda>key val (sequence, m).
        map_option (\<lambda>m. (sequence + 1, m)) (MemTable_Add unset Compare sequence kTypeValue key val m),
      handler_Delete = \<lambda>key (sequence, m).
        map_option (\<lambda>m. (sequence + 1, m)) (MemTable_Add unset Compare sequence kTypeDeletion key [] m)\<rparr>"

definition InsertInto ::
  "nat list \<Rightarrow> (slice \<Rightarrow> slice \<Rightarrow> int) \<Rightarrow> write_batch \<Rightarrow> memtable \<Rightarrow> (status \<times> memtable) option" where
  "InsertInto unset Compare b m =
     map_option (\<lambda>(s, sequence, m). (s, m))
       (WriteBatch_Iterate (MemTableInserter unset Compare) b (Batch_Sequence b, m))"

section \<open>The updates in a batch\<close>

datatype batch_op = PutOp slice slice | DeleteOp slice

fun op_key :: "batch_op \<Rightarrow> slice" where
  "op_key (PutOp k v) = k"
| "op_key (DeleteOp k) = k"

fun op_value :: "batch_op \<Rightarrow> slice" where
  "op_value (PutOp k v) = v"
| "op_value (DeleteOp k) = []"

fun add_op :: "batch_op \<Rightarrow> write_batch \<Rightarrow> write_batch" where
  "add_op (PutOp k v) rep = WriteBatch_Put k v rep"
| "add_op (DeleteOp k) rep = WriteBatch_Delete k rep"

definition batch_of :: "batch_op list \<Rightarrow> write_batch" where
  "batch_of ops = fold add_op ops WriteBatch"

fun handle_op :: "'h batch_handler \<Rightarrow> batch_op \<Rightarrow> 'h \<Rightarrow> 'h option" where
  "handle_op H (PutOp k v) h = handler_Put H k v h"
| "handle_op H (DeleteOp k) h = handler_Delete H k h"

fun handle_ops :: "'h batch_handler \<Rightarrow> batch_op list \<Rightarrow> 'h \<Rightarrow> 'h option" where
  "handle_ops H [] h = Some h"
| "handle_ops H (op # ops) h = (case handle_op H op h of None \<Rightarrow> None | Some h \<Rightarrow> handle_ops H ops h)"

definition op_fits :: "batch_op \<Rightarrow> bool" where
  "op_fits op \<longleftrightarrow> length (op_key op) < 2 ^ 32 \<and> length (op_value op) < 2 ^ 32"

text \<open>The bytes of a batch.\<close>

fun op_bytes :: "batch_op \<Rightarrow> byte list" where
  "op_bytes (PutOp k v) = kTypeValue # length_prefixed k @ length_prefixed v"
| "op_bytes (DeleteOp k) = kTypeDeletion # length_prefixed k"

definition batch_bytes :: "SequenceNumber \<Rightarrow> u32 \<Rightarrow> batch_op list \<Rightarrow> write_batch" where
  "batch_bytes seq n ops = to_le 8 (unat seq) @ to_le 4 (unat n) @ concat (map op_bytes ops)"

lemma batch_bytes_parts:
  "Batch_Sequence (batch_bytes seq n ops) = seq" "Batch_Count (batch_bytes seq n ops) = n"
  "drop kBatchHeader (batch_bytes seq n ops) = concat (map op_bytes ops)" "kBatchHeader \<le> length (batch_bytes seq n ops)"
  "Batch_SetSequence seq' (batch_bytes seq n ops) = batch_bytes seq' n ops"
  "Batch_SetCount n' (batch_bytes seq n ops) = batch_bytes seq n' ops"
  using DecodeFixed64_to_le [of kLittleEndian seq] DecodeFixed32_to_le [of kLittleEndian n]
  by (simp_all add: batch_bytes_def Batch_Sequence_def Batch_Count_def kBatchHeader_def Batch_SetSequence_def
      Batch_SetCount_def del: to_le.simps)

lemma add_op_bytes:
  assumes "op_fits op"
  shows "add_op op (batch_bytes seq n ops) = batch_bytes seq (n + 1) (ops @ [op])"
proof -
  have "add_op op (batch_bytes seq n ops) = batch_bytes seq (n + 1) ops @ op_bytes op"
    using assms by (cases op) (simp_all add: op_fits_def WriteBatch_Put_def WriteBatch_Delete_def Let_def batch_bytes_parts
        PutLengthPrefixedSlice_bytes)
  then show ?thesis by (simp add: batch_bytes_def del: to_le.simps)
qed

lemma fold_add_op:
  "\<forall>op \<in> set ops'. op_fits op \<Longrightarrow> fold add_op ops' (batch_bytes seq n ops) = batch_bytes seq (n + of_nat (length ops')) (ops @ ops')"
  by (induction ops' arbitrary: n ops) (simp_all add: add_op_bytes add.assoc)

lemma WriteBatch_bytes: "WriteBatch = batch_bytes 0 0 []"
proof -
  have "to_le k 0 = replicate k 0" for k by (induction k) simp_all
  then show ?thesis
    using replicate_add [of 8 4 "0 :: byte"]
    by (simp add: WriteBatch_def WriteBatch_Clear_def batch_bytes_def kBatchHeader_def del: to_le.simps)
qed

lemma batch_of_bytes: "\<forall>op \<in> set ops. op_fits op \<Longrightarrow> batch_of ops = batch_bytes 0 (of_nat (length ops)) ops"
  using fold_add_op [of ops 0 0 "[]"] by (simp add: batch_of_def WriteBatch_bytes)

lemma iterate_loop_ops:
  "\<forall>op \<in> set ops. op_fits op \<Longrightarrow> iterate_loop H (concat (map op_bytes ops)) found h =
    map_option (\<lambda>h'. (None, found + of_nat (length ops), h')) (handle_ops H ops h)"
proof (induction ops arbitrary: found h)
  case Nil
  then show ?case by (simp add: iterate_loop.simps)
next
  case (Cons op ops)
  then show ?case
    by (cases op; subst iterate_loop.simps)
      (auto simp: op_fits_def GetLengthPrefixedSlice_bytes GetLengthPrefixedSlice_bytes [where rest = "[]", simplified] Let_def
        add.assoc split: option.splits)
qed

lemma Iterate_bytes:
  assumes "\<forall>op \<in> set ops. op_fits op"
  shows "WriteBatch_Iterate H (batch_bytes seq (of_nat (length ops)) ops) h = map_option (Pair Status_OK) (handle_ops H ops h)"
  using iterate_loop_ops [OF assms, of H 0 h] batch_bytes_parts(2-4) [of seq "of_nat (length ops)" ops]
  by (simp add: WriteBatch_Iterate_def remove_prefix_def not_less split: option.splits)

end
