(* ===== verification/MergingIterator.thy ===== *)
theory MergingIterator
  imports IteratorSpec
begin

text \<open>
  \<open>table/iterator_wrapper.h\<close> and \<open>table/merger.cc\<close> of leveldb: the iterator over the union of several sorted sources.
\<close>

section \<open>The wrapper\<close>

record 'it wrapper =
  wrapped :: "'it option"
  wrapped_valid :: bool
  wrapped_key :: slice

text \<open>The default constructor; the cached key is unset.\<close>

definition IteratorWrapper :: "'it wrapper" where
  "IteratorWrapper = \<lparr>wrapped = None, wrapped_valid = False, wrapped_key = []\<rparr>"

definition wrapper_Update :: "'it iterator_class \<Rightarrow> 'it \<Rightarrow> 'it wrapper \<Rightarrow> 'it wrapper" where
  "wrapper_Update I it w =
     (let w = w\<lparr>wrapped := Some it, wrapped_valid := Valid I it\<rparr>
      in if wrapped_valid w then w\<lparr>wrapped_key := Key I it\<rparr> else w)"

definition wrapper_Set :: "'it iterator_class \<Rightarrow> 'it option \<Rightarrow> 'it wrapper \<Rightarrow> 'it wrapper" where
  "wrapper_Set I iter w =
     (case iter of None \<Rightarrow> w\<lparr>wrapped := None, wrapped_valid := False\<rparr> | Some it \<Rightarrow> wrapper_Update I it w)"

text \<open>\<open>iter_->f()\<close> and \<open>Update()\<close>.\<close>

definition wrapper_move :: "'it iterator_class \<Rightarrow> ('it \<Rightarrow> 'it option) \<Rightarrow> 'it wrapper \<Rightarrow> 'it wrapper option" where
  "wrapper_move I f w =
     (case wrapped w of
        None \<Rightarrow> None
      | Some it \<Rightarrow> map_option (\<lambda>it. wrapper_Update I it w) (f it))"

definition wrapper_SeekToFirst :: "'it iterator_class \<Rightarrow> 'it wrapper \<Rightarrow> 'it wrapper option" where
  "wrapper_SeekToFirst I w = wrapper_move I (SeekToFirst I) w"

definition wrapper_SeekToLast :: "'it iterator_class \<Rightarrow> 'it wrapper \<Rightarrow> 'it wrapper option" where
  "wrapper_SeekToLast I w = wrapper_move I (SeekToLast I) w"

definition wrapper_Seek :: "'it iterator_class \<Rightarrow> slice \<Rightarrow> 'it wrapper \<Rightarrow> 'it wrapper option" where
  "wrapper_Seek I k w = wrapper_move I (Seek I k) w"

definition wrapper_Next :: "'it iterator_class \<Rightarrow> 'it wrapper \<Rightarrow> 'it wrapper option" where
  "wrapper_Next I w = wrapper_move I (Next I) w"

definition wrapper_Prev :: "'it iterator_class \<Rightarrow> 'it wrapper \<Rightarrow> 'it wrapper option" where
  "wrapper_Prev I w = wrapper_move I (Prev I) w"

definition wrapper_value :: "'it iterator_class \<Rightarrow> 'it wrapper \<Rightarrow> slice" where
  "wrapper_value I w = (case wrapped w of None \<Rightarrow> [] | Some it \<Rightarrow> Value I it)"

definition wrapper_status :: "'it iterator_class \<Rightarrow> 'it wrapper \<Rightarrow> status" where
  "wrapper_status I w = (case wrapped w of None \<Rightarrow> Status_OK | Some it \<Rightarrow> Status I it)"

section \<open>The merging iterator\<close>

datatype direction = kForward | kReverse

text \<open>The pointer \<open>current_\<close> is the index of the child.\<close>

record 'it merging =
  merge_children :: "'it wrapper list"
  merge_current :: "nat option"
  merge_direction :: direction

definition MergingIterator :: "'it iterator_class \<Rightarrow> 'it list \<Rightarrow> 'it merging" where
  "MergingIterator I children =
     \<lparr>merge_children = map (\<lambda>it. wrapper_Set I (Some it) IteratorWrapper) children, merge_current = None,
      merge_direction = kForward\<rparr>"

definition FindSmallest :: "(slice \<Rightarrow> slice \<Rightarrow> int) \<Rightarrow> 'it merging \<Rightarrow> 'it merging" where
  "FindSmallest Compare m =
     m\<lparr>merge_current := fold (\<lambda>i smallest.
         let child = merge_children m ! i in
         if wrapped_valid child then
           (case smallest of
              None \<Rightarrow> Some i
            | Some s \<Rightarrow> if Compare (wrapped_key child) (wrapped_key (merge_children m ! s)) < 0 then Some i else smallest)
         else smallest) [0..<length (merge_children m)] None\<rparr>"

definition FindLargest :: "(slice \<Rightarrow> slice \<Rightarrow> int) \<Rightarrow> 'it merging \<Rightarrow> 'it merging" where
  "FindLargest Compare m =
     m\<lparr>merge_current := fold (\<lambda>i largest.
         let child = merge_children m ! i in
         if wrapped_valid child then
           (case largest of
              None \<Rightarrow> Some i
            | Some l \<Rightarrow> if Compare (wrapped_key child) (wrapped_key (merge_children m ! l)) > 0 then Some i else largest)
         else largest) (rev [0..<length (merge_children m)]) None\<rparr>"

text \<open>A call for each child in turn; the call may depend on the index of the child.\<close>

fun each_child :: "(nat \<Rightarrow> 'it wrapper \<Rightarrow> 'it wrapper option) \<Rightarrow> nat \<Rightarrow> 'it wrapper list \<Rightarrow> 'it wrapper list option" where
  "each_child f i [] = Some []"
| "each_child f i (w # ws) =
     (case f i w of
        None \<Rightarrow> None
      | Some w' \<Rightarrow> map_option (\<lambda>ws'. w' # ws') (each_child f (Suc i) ws))"

definition merging_Valid :: "'it merging \<Rightarrow> bool" where
  "merging_Valid m \<longleftrightarrow> merge_current m \<noteq> None"

definition merging_key :: "'it merging \<Rightarrow> slice" where
  "merging_key m = wrapped_key (merge_children m ! the (merge_current m))"

definition merging_value :: "'it iterator_class \<Rightarrow> 'it merging \<Rightarrow> slice" where
  "merging_value I m = wrapper_value I (merge_children m ! the (merge_current m))"

definition merging_status :: "'it iterator_class \<Rightarrow> 'it merging \<Rightarrow> status" where
  "merging_status I m =
     (case find (\<lambda>w. wrapper_status I w \<noteq> Status_OK) (merge_children m) of
        None \<Rightarrow> Status_OK
      | Some w \<Rightarrow> wrapper_status I w)"

definition merging_SeekToFirst ::
  "'it iterator_class \<Rightarrow> (slice \<Rightarrow> slice \<Rightarrow> int) \<Rightarrow> 'it merging \<Rightarrow> 'it merging option" where
  "merging_SeekToFirst I Compare m =
     map_option (\<lambda>ws. (FindSmallest Compare (m\<lparr>merge_children := ws\<rparr>))\<lparr>merge_direction := kForward\<rparr>)
       (each_child (\<lambda>_. wrapper_SeekToFirst I) 0 (merge_children m))"

definition merging_SeekToLast ::
  "'it iterator_class \<Rightarrow> (slice \<Rightarrow> slice \<Rightarrow> int) \<Rightarrow> 'it merging \<Rightarrow> 'it merging option" where
  "merging_SeekToLast I Compare m =
     map_option (\<lambda>ws. (FindLargest Compare (m\<lparr>merge_children := ws\<rparr>))\<lparr>merge_direction := kReverse\<rparr>)
       (each_child (\<lambda>_. wrapper_SeekToLast I) 0 (merge_children m))"

definition merging_Seek ::
  "'it iterator_class \<Rightarrow> (slice \<Rightarrow> slice \<Rightarrow> int) \<Rightarrow> slice \<Rightarrow> 'it merging \<Rightarrow> 'it merging option" where
  "merging_Seek I Compare target m =
     map_option (\<lambda>ws. (FindSmallest Compare (m\<lparr>merge_children := ws\<rparr>))\<lparr>merge_direction := kForward\<rparr>)
       (each_child (\<lambda>_. wrapper_Seek I target) 0 (merge_children m))"

text \<open>How a child other than \<open>current_\<close> is moved past the key, or before it, when the direction changes.\<close>

definition child_after ::
  "'it iterator_class \<Rightarrow> (slice \<Rightarrow> slice \<Rightarrow> int) \<Rightarrow> slice \<Rightarrow> 'it wrapper \<Rightarrow> 'it wrapper option" where
  "child_after I Compare k w =
     (case wrapper_Seek I k w of
        None \<Rightarrow> None
      | Some w \<Rightarrow>
          if wrapped_valid w \<and> Compare k (wrapped_key w) = 0 then wrapper_Next I w else Some w)"

definition child_before :: "'it iterator_class \<Rightarrow> slice \<Rightarrow> 'it wrapper \<Rightarrow> 'it wrapper option" where
  "child_before I k w =
     (case wrapper_Seek I k w of
        None \<Rightarrow> None
      | Some w \<Rightarrow> if wrapped_valid w then wrapper_Prev I w else wrapper_SeekToLast I w)"

definition except_current ::
  "nat option \<Rightarrow> ('it wrapper \<Rightarrow> 'it wrapper option) \<Rightarrow> nat \<Rightarrow> 'it wrapper \<Rightarrow> 'it wrapper option" where
  "except_current current f i w = (if Some i \<noteq> current then f w else Some w)"

text \<open>The end of \<open>Next\<close> and \<open>Prev\<close>: move \<open>current_\<close>, then find the new one.\<close>

definition move_current :: "('it wrapper \<Rightarrow> 'it wrapper option) \<Rightarrow> 'it merging \<Rightarrow> 'it merging option" where
  "move_current f m =
     (case merge_current m of
        None \<Rightarrow> None
      | Some c \<Rightarrow>
          map_option (\<lambda>w. m\<lparr>merge_children := (merge_children m)[c := w]\<rparr>) (f (merge_children m ! c)))"

definition merging_Next ::
  "'it iterator_class \<Rightarrow> (slice \<Rightarrow> slice \<Rightarrow> int) \<Rightarrow> 'it merging \<Rightarrow> 'it merging option" where
  "merging_Next I Compare m =
     (case (if merge_direction m \<noteq> kForward then
              map_option (\<lambda>ws. m\<lparr>merge_children := ws, merge_direction := kForward\<rparr>)
                (each_child (except_current (merge_current m) (child_after I Compare (merging_key m))) 0 (merge_children m))
            else Some m) of
        None \<Rightarrow> None
      | Some m \<Rightarrow> map_option (FindSmallest Compare) (move_current (wrapper_Next I) m))"

definition merging_Prev ::
  "'it iterator_class \<Rightarrow> (slice \<Rightarrow> slice \<Rightarrow> int) \<Rightarrow> 'it merging \<Rightarrow> 'it merging option" where
  "merging_Prev I Compare m =
     (case (if merge_direction m \<noteq> kReverse then
              map_option (\<lambda>ws. m\<lparr>merge_children := ws, merge_direction := kReverse\<rparr>)
                (each_child (except_current (merge_current m) (child_before I (merging_key m))) 0 (merge_children m))
            else Some m) of
        None \<Rightarrow> None
      | Some m \<Rightarrow> map_option (FindLargest Compare) (move_current (wrapper_Prev I) m))"

definition merging_iterator :: "'it iterator_class \<Rightarrow> (slice \<Rightarrow> slice \<Rightarrow> int) \<Rightarrow> 'it merging iterator_class" where
  "merging_iterator I Compare =
     \<lparr>Valid = merging_Valid, SeekToFirst = merging_SeekToFirst I Compare, SeekToLast = merging_SeekToLast I Compare,
      Seek = merging_Seek I Compare, Next = merging_Next I Compare, Prev = merging_Prev I Compare, Key = merging_key,
      Value = merging_value I, Status = merging_status I\<rparr>"

text \<open>The iterator made for some children: an empty one, the only child, or a merging one.\<close>

datatype 'it merged = NoChild status | OnlyChild 'it | Merging "'it merging"

definition NewMergingIterator :: "'it iterator_class \<Rightarrow> 'it list \<Rightarrow> 'it merged" where
  "NewMergingIterator I children =
     (case children of
        [] \<Rightarrow> NoChild NewEmptyIterator
      | [child] \<Rightarrow> OnlyChild child
      | _ \<Rightarrow> Merging (MergingIterator I children))"

text \<open>The virtual functions of what it makes.\<close>

definition merged_move ::
  "(status iterator_class \<Rightarrow> status \<Rightarrow> status option) \<Rightarrow> ('it \<Rightarrow> 'it option) \<Rightarrow> ('it merging \<Rightarrow> 'it merging option) \<Rightarrow> 'it merged \<Rightarrow>
    'it merged option"
where
  "merged_move f g h m =
     (case m of
        NoChild s \<Rightarrow> map_option NoChild (f EmptyIterator s)
      | OnlyChild it \<Rightarrow> map_option OnlyChild (g it)
      | Merging m \<Rightarrow> map_option Merging (h m))"

definition merged_iterator :: "'it iterator_class \<Rightarrow> (slice \<Rightarrow> slice \<Rightarrow> int) \<Rightarrow> 'it merged iterator_class" where
  "merged_iterator I Compare =
     (let M = merging_iterator I Compare in
      \<lparr>Valid = case_merged (Valid EmptyIterator) (Valid I) (Valid M),
       SeekToFirst = merged_move SeekToFirst (SeekToFirst I) (SeekToFirst M),
       SeekToLast = merged_move SeekToLast (SeekToLast I) (SeekToLast M),
       Seek = \<lambda>target. merged_move (\<lambda>E. Seek E target) (Seek I target) (Seek M target),
       Next = merged_move Next (Next I) (Next M),
       Prev = merged_move Prev (Prev I) (Prev M),
       Key = case_merged (Key EmptyIterator) (Key I) (Key M),
       Value = case_merged (Value EmptyIterator) (Value I) (Value M),
       Status = case_merged (Status EmptyIterator) (Status I) (Status M)\<rparr>)"

end

