(* ===== verification/DbIter.thy ===== *)
theory DbIter
  imports MergingIterator DbFormat DbRandom
begin

text \<open>
  \<open>db/db_iter.cc\<close> of leveldb: the iterator a user of the database gets.  Over an iterator on internal keys it shows,
  for a snapshot, the newest value of every user key that is not deleted.

  The user's comparator, the sequence number of the snapshot and the class of the internal iterator, which do
  not change, are arguments.  The calls of \<open>RecordReadSample\<close>, which may schedule a compaction of the database, are
  collected in \<open>read_samples\<close>.
\<close>

section \<open>The iterator\<close>

definition kReadBytesPeriod :: nat where
  "kReadBytesPeriod = 1048576"

record 'it db_iter =
  di_iter :: 'it
  di_status :: status
  saved_key :: "byte list"
  saved_value :: "byte list"
  di_direction :: direction
  di_valid :: bool
  di_rnd :: u32
  bytes_until_read_sampling :: nat
  read_samples :: "slice list"

definition RandomCompactionPeriod :: "u32 \<Rightarrow> nat \<times> u32" where
  "RandomCompactionPeriod rnd = (let (r, rnd) = Uniform (2 * kReadBytesPeriod) rnd in (unat r, rnd))"

definition DBIter :: "'it \<Rightarrow> u32 \<Rightarrow> 'it db_iter" where
  "DBIter iter seed =
     (let (period, rnd) = RandomCompactionPeriod (Random seed)
      in \<lparr>di_iter = iter, di_status = Status_OK, saved_key = [], saved_value = [], di_direction = kForward,
          di_valid = False, di_rnd = rnd, bytes_until_read_sampling = period, read_samples = []\<rparr>)"

definition ClearSavedValue :: "'it db_iter \<Rightarrow> 'it db_iter" where
  "ClearSavedValue d = d\<lparr>saved_value := []\<rparr>"

definition SaveKey :: "slice \<Rightarrow> 'it db_iter \<Rightarrow> 'it db_iter" where
  "SaveKey k d = d\<lparr>saved_key := k\<rparr>"

definition db_key :: "'it iterator_class \<Rightarrow> 'it db_iter \<Rightarrow> slice" where
  "db_key I d = (if di_direction d = kForward then ExtractUserKey (Key I (di_iter d)) else saved_key d)"

definition db_value :: "'it iterator_class \<Rightarrow> 'it db_iter \<Rightarrow> slice" where
  "db_value I d = (if di_direction d = kForward then Value I (di_iter d) else saved_value d)"

definition db_status :: "'it iterator_class \<Rightarrow> 'it db_iter \<Rightarrow> status" where
  "db_status I d = (if di_status d = Status_OK then Status I (di_iter d) else di_status d)"

section \<open>Parsing the current key\<close>

partial_function (option) sample_reads :: "slice \<Rightarrow> nat \<Rightarrow> 'it db_iter \<Rightarrow> 'it db_iter option" where
  "sample_reads k bytes_read d =
     (if bytes_until_read_sampling d < bytes_read then
        let (period, rnd) = RandomCompactionPeriod (di_rnd d)
        in sample_reads k bytes_read
             (d\<lparr>di_rnd := rnd, bytes_until_read_sampling := bytes_until_read_sampling d + period,
                read_samples := read_samples d @ [k]\<rparr>)
      else Some d)"

text \<open>The parsed key, or \<open>None\<close> for \<open>false\<close>.\<close>

definition ParseKey :: "'it iterator_class \<Rightarrow> 'it db_iter \<Rightarrow> (parsed_key option \<times> 'it db_iter) option" where
  "ParseKey I d =
     (let k = Key I (di_iter d);
          bytes_read = length k + length (Value I (di_iter d))
      in case sample_reads k bytes_read d of
           None \<Rightarrow> None
         | Some d \<Rightarrow>
             let d = d\<lparr>bytes_until_read_sampling := bytes_until_read_sampling d - bytes_read\<rparr>;
                 (ok, ikey) = ParseInternalKey k
             in if \<not> ok then
                  Some (None, d\<lparr>di_status := Status_Corruption (bytes_of ''corrupted internal key in DBIter'') []\<rparr>)
                else Some (ikey, d))"

section \<open>Forward\<close>

text \<open>The body of the loop up to \<open>iter_->Next()\<close>: whether an entry is found, and the new \<open>skipping\<close>.\<close>

definition next_step ::
  "(slice \<Rightarrow> slice \<Rightarrow> int) \<Rightarrow> SequenceNumber \<Rightarrow> parsed_key option \<Rightarrow> bool \<Rightarrow> 'it db_iter \<Rightarrow> bool \<times> bool \<times> 'it db_iter" where
  "next_step Compare snapshot ikey skipping d =
     (case ikey of
        None \<Rightarrow> (False, skipping, d)
      | Some ikey \<Rightarrow>
          if key_sequence ikey \<le> snapshot then
            if key_type ikey = kTypeDeletion then (False, True, SaveKey (user_key ikey) d)
            else if skipping \<and> Compare (user_key ikey) (saved_key d) \<le> 0 then (False, skipping, d)
            else (True, skipping, d\<lparr>di_valid := True, saved_key := []\<rparr>)
          else (False, skipping, d))"

partial_function (option) FindNextUserEntry ::
  "'it iterator_class \<Rightarrow> (slice \<Rightarrow> slice \<Rightarrow> int) \<Rightarrow> SequenceNumber \<Rightarrow> bool \<Rightarrow> 'it db_iter \<Rightarrow> 'it db_iter option" where
  "FindNextUserEntry I Compare snapshot skipping d =
     Option.bind (ParseKey I d) (\<lambda>(ikey, d).
       let (found, skipping, d) = next_step Compare snapshot ikey skipping d in
       if found then Some d
       else Option.bind (Next I (di_iter d)) (\<lambda>it.
              let d = d\<lparr>di_iter := it\<rparr> in
              if Valid I it then FindNextUserEntry I Compare snapshot skipping d
              else Some (d\<lparr>saved_key := [], di_valid := False\<rparr>)))"

definition DBIter_Next ::
  "'it iterator_class \<Rightarrow> (slice \<Rightarrow> slice \<Rightarrow> int) \<Rightarrow> SequenceNumber \<Rightarrow> 'it db_iter \<Rightarrow> 'it db_iter option" where
  "DBIter_Next I Compare snapshot d =
     (if di_direction d = kReverse then
        Option.bind (if \<not> Valid I (di_iter d) then SeekToFirst I (di_iter d) else Next I (di_iter d)) (\<lambda>it.
          let d = d\<lparr>di_direction := kForward, di_iter := it\<rparr> in
          if \<not> Valid I it then Some (d\<lparr>di_valid := False, saved_key := []\<rparr>)
          else FindNextUserEntry I Compare snapshot True d)
      else FindNextUserEntry I Compare snapshot True (SaveKey (ExtractUserKey (Key I (di_iter d))) d))"

section \<open>Backward\<close>

text \<open>The body of the loop up to \<open>iter_->Prev()\<close>: whether it is left, and the new \<open>value_type\<close>.\<close>

definition prev_step ::
  "'it iterator_class \<Rightarrow> (slice \<Rightarrow> slice \<Rightarrow> int) \<Rightarrow> SequenceNumber \<Rightarrow> parsed_key option \<Rightarrow> ValueType \<Rightarrow> 'it db_iter \<Rightarrow>
    bool \<times> ValueType \<times> 'it db_iter" where
  "prev_step I Compare snapshot ikey value_type d =
     (case ikey of
        None \<Rightarrow> (False, value_type, d)
      | Some ikey \<Rightarrow>
          if key_sequence ikey \<le> snapshot then
            if value_type \<noteq> kTypeDeletion \<and> Compare (user_key ikey) (saved_key d) < 0 then (True, value_type, d)
            else
              let value_type = key_type ikey in
              if value_type = kTypeDeletion then (False, value_type, ClearSavedValue (d\<lparr>saved_key := []\<rparr>))
              else (False, value_type,
                    (SaveKey (ExtractUserKey (Key I (di_iter d))) d)\<lparr>saved_value := Value I (di_iter d)\<rparr>)
          else (False, value_type, d))"

partial_function (option) find_prev_loop ::
  "'it iterator_class \<Rightarrow> (slice \<Rightarrow> slice \<Rightarrow> int) \<Rightarrow> SequenceNumber \<Rightarrow> ValueType \<Rightarrow> 'it db_iter \<Rightarrow> (ValueType \<times> 'it db_iter) option"
where
  "find_prev_loop I Compare snapshot value_type d =
     Option.bind (ParseKey I d) (\<lambda>(ikey, d).
       let (leave, value_type, d) = prev_step I Compare snapshot ikey value_type d in
       if leave then Some (value_type, d)
       else Option.bind (Prev I (di_iter d)) (\<lambda>it.
              let d = d\<lparr>di_iter := it\<rparr> in
              if Valid I it then find_prev_loop I Compare snapshot value_type d else Some (value_type, d)))"

definition FindPrevUserEntry ::
  "'it iterator_class \<Rightarrow> (slice \<Rightarrow> slice \<Rightarrow> int) \<Rightarrow> SequenceNumber \<Rightarrow> 'it db_iter \<Rightarrow> 'it db_iter option" where
  "FindPrevUserEntry I Compare snapshot d =
     map_option (\<lambda>(value_type, d).
       if value_type = kTypeDeletion then
         (ClearSavedValue (d\<lparr>di_valid := False, saved_key := []\<rparr>))\<lparr>di_direction := kForward\<rparr>
       else d\<lparr>di_valid := True\<rparr>)
     (if Valid I (di_iter d) then find_prev_loop I Compare snapshot kTypeDeletion d else Some (kTypeDeletion, d))"

text \<open>The loop that leaves the entries of the current key: whether there is an entry before them.\<close>

partial_function (option) scan_back ::
  "'it iterator_class \<Rightarrow> (slice \<Rightarrow> slice \<Rightarrow> int) \<Rightarrow> 'it db_iter \<Rightarrow> (bool \<times> 'it db_iter) option" where
  "scan_back I Compare d =
     Option.bind (Prev I (di_iter d)) (\<lambda>it.
       let d = d\<lparr>di_iter := it\<rparr> in
       if \<not> Valid I it then Some (False, ClearSavedValue (d\<lparr>di_valid := False, saved_key := []\<rparr>))
       else if Compare (ExtractUserKey (Key I it)) (saved_key d) < 0 then Some (True, d)
       else scan_back I Compare d)"

definition DBIter_Prev ::
  "'it iterator_class \<Rightarrow> (slice \<Rightarrow> slice \<Rightarrow> int) \<Rightarrow> SequenceNumber \<Rightarrow> 'it db_iter \<Rightarrow> 'it db_iter option" where
  "DBIter_Prev I Compare snapshot d =
     (if di_direction d = kForward then
        Option.bind (scan_back I Compare (SaveKey (ExtractUserKey (Key I (di_iter d))) d)) (\<lambda>(more, d).
          if \<not> more then Some d
          else FindPrevUserEntry I Compare snapshot (d\<lparr>di_direction := kReverse\<rparr>))
      else FindPrevUserEntry I Compare snapshot d)"

section \<open>Seeking\<close>

definition DBIter_Seek ::
  "'it iterator_class \<Rightarrow> (slice \<Rightarrow> slice \<Rightarrow> int) \<Rightarrow> SequenceNumber \<Rightarrow> slice \<Rightarrow> 'it db_iter \<Rightarrow> 'it db_iter option" where
  "DBIter_Seek I Compare snapshot target d =
     (let d = ClearSavedValue (d\<lparr>di_direction := kForward\<rparr>);
          d = d\<lparr>saved_key := AppendInternalKey []
                 \<lparr>user_key = target, key_sequence = snapshot, key_type = kValueTypeForSeek\<rparr>\<rparr>
      in Option.bind (Seek I (saved_key d) (di_iter d)) (\<lambda>it.
           let d = d\<lparr>di_iter := it\<rparr> in
           if Valid I it then FindNextUserEntry I Compare snapshot False d else Some (d\<lparr>di_valid := False\<rparr>)))"

definition DBIter_SeekToFirst ::
  "'it iterator_class \<Rightarrow> (slice \<Rightarrow> slice \<Rightarrow> int) \<Rightarrow> SequenceNumber \<Rightarrow> 'it db_iter \<Rightarrow> 'it db_iter option" where
  "DBIter_SeekToFirst I Compare snapshot d =
     (let d = ClearSavedValue (d\<lparr>di_direction := kForward\<rparr>)
      in Option.bind (SeekToFirst I (di_iter d)) (\<lambda>it.
           let d = d\<lparr>di_iter := it\<rparr> in
           if Valid I it then FindNextUserEntry I Compare snapshot False d else Some (d\<lparr>di_valid := False\<rparr>)))"

definition DBIter_SeekToLast ::
  "'it iterator_class \<Rightarrow> (slice \<Rightarrow> slice \<Rightarrow> int) \<Rightarrow> SequenceNumber \<Rightarrow> 'it db_iter \<Rightarrow> 'it db_iter option" where
  "DBIter_SeekToLast I Compare snapshot d =
     (let d = ClearSavedValue (d\<lparr>di_direction := kReverse\<rparr>)
      in Option.bind (SeekToLast I (di_iter d)) (\<lambda>it. FindPrevUserEntry I Compare snapshot (d\<lparr>di_iter := it\<rparr>)))"

definition db_iterator ::
  "'it iterator_class \<Rightarrow> (slice \<Rightarrow> slice \<Rightarrow> int) \<Rightarrow> SequenceNumber \<Rightarrow> 'it db_iter iterator_class" where
  "db_iterator I Compare snapshot =
     \<lparr>Valid = di_valid, SeekToFirst = DBIter_SeekToFirst I Compare snapshot,
      SeekToLast = DBIter_SeekToLast I Compare snapshot, Seek = DBIter_Seek I Compare snapshot,
      Next = DBIter_Next I Compare snapshot, Prev = DBIter_Prev I Compare snapshot, Key = db_key I, Value = db_value I,
      Status = db_status I\<rparr>"

end
