(* ===== verification/BlockBuilder.thy ===== *)
theory BlockBuilder
  imports IteratorSpec
begin

text \<open>
  \<open>table/block_builder.cc\<close> and \<open>table/block_builder.h\<close> of leveldb: blocks of entries whose keys are stored without the
  prefix they share with the key before.  The only option used is \<open>block_restart_interval\<close>.
\<close>

section \<open>The builder\<close>

record block_builder =
  bb_buffer :: "byte list"
  bb_restarts :: "u32 list"
  bb_counter :: nat
  bb_finished :: bool
  bb_last_key :: "byte list"

definition BlockBuilder :: block_builder where
  "BlockBuilder =
     \<lparr>bb_buffer = [], bb_restarts = [0], bb_counter = 0, bb_finished = False, bb_last_key = []\<rparr>"

definition BlockBuilder_Reset :: "block_builder \<Rightarrow> block_builder" where
  "BlockBuilder_Reset b =
     b\<lparr>bb_buffer := [], bb_restarts := [0], bb_counter := 0, bb_finished := False, bb_last_key := []\<rparr>"

definition CurrentSizeEstimate :: "block_builder \<Rightarrow> nat" where
  "CurrentSizeEstimate b = length (bb_buffer b) + length (bb_restarts b) * 4 + 4"

definition BlockBuilder_empty :: "block_builder \<Rightarrow> bool" where
  "BlockBuilder_empty b \<longleftrightarrow> bb_buffer b = []"

definition BlockBuilder_Finish :: "block_builder \<Rightarrow> slice \<times> block_builder" where
  "BlockBuilder_Finish b =
     (let buffer = fold (\<lambda>r buffer. PutFixed32 buffer r) (bb_restarts b) (bb_buffer b);
          buffer = PutFixed32 buffer (of_nat (length (bb_restarts b)))
      in (buffer, b\<lparr>bb_buffer := buffer, bb_finished := True\<rparr>))"

definition BlockBuilder_Add :: "nat \<Rightarrow> slice \<Rightarrow> slice \<Rightarrow> block_builder \<Rightarrow> block_builder" where
  "BlockBuilder_Add interval key value b =
     (let (shared, b) =
            if bb_counter b < interval then (common_prefix (bb_last_key b) key, b)
            else (0, b\<lparr>bb_restarts := bb_restarts b @ [of_nat (length (bb_buffer b))], bb_counter := 0\<rparr>);
          non_shared = length key - shared;
          buffer = PutVarint32 (bb_buffer b) (of_nat shared);
          buffer = PutVarint32 buffer (of_nat non_shared);
          buffer = PutVarint32 buffer (of_nat (length value))
      in b\<lparr>bb_buffer := buffer @ drop shared key @ value,
           bb_last_key := take shared (bb_last_key b) @ drop shared key,
           bb_counter := bb_counter b + 1\<rparr>)"

section \<open>The layout of a block\<close>

text \<open>
  An entry of a block is the number of bytes its key shares with the key before, and the entry.  A block is a
  list of them with the indices of the restart points.
\<close>

type_synonym block_entry = "nat \<times> entry"

definition entry_head :: "block_entry \<Rightarrow> byte list" where
  "entry_head x = varint_bytes (fst x) @ varint_bytes (length (fst (snd x)) - fst x) @ varint_bytes (length (snd (snd x)))"

definition entry_bytes :: "block_entry \<Rightarrow> byte list" where
  "entry_bytes x = entry_head x @ drop (fst x) (fst (snd x)) @ snd (snd x)"

definition data_bytes :: "block_entry list \<Rightarrow> byte list" where
  "data_bytes xs = concat (map entry_bytes xs)"

definition entry_offset :: "block_entry list \<Rightarrow> nat \<Rightarrow> nat" where
  "entry_offset xs i = length (data_bytes (take i xs))"

definition previous_key :: "block_entry list \<Rightarrow> nat \<Rightarrow> slice" where
  "previous_key xs i = (if i = 0 then [] else fst (snd (xs ! (i - 1))))"

definition block_ok :: "block_entry list \<Rightarrow> nat list \<Rightarrow> bool" where
  "block_ok xs rs \<longleftrightarrow>
     (\<forall>i < length xs. fst (xs ! i) \<le> length (fst (snd (xs ! i))) \<and> fst (xs ! i) \<le> length (previous_key xs i) \<and>
        take (fst (xs ! i)) (previous_key xs i) = take (fst (xs ! i)) (fst (snd (xs ! i)))) \<and>
     rs \<noteq> [] \<and> hd rs = 0 \<and> sorted_wrt (<) rs \<and>
     (\<forall>r \<in> set rs. r = 0 \<or> r < length xs \<and> fst (xs ! r) = 0)"

definition block_bytes :: "block_entry list \<Rightarrow> nat list \<Rightarrow> byte list" where
  "block_bytes xs rs =
     data_bytes xs @ fixed32s (map (\<lambda>r. of_nat (entry_offset xs r)) rs) @ to_le 4 (length rs)"

lemma data_bytes_simps [simp]: "data_bytes [] = []" "data_bytes (x # xs) = entry_bytes x @ data_bytes xs"
  "data_bytes (xs @ ys) = data_bytes xs @ data_bytes ys"
  by (simp_all add: data_bytes_def)

lemma entry_offset_0 [simp]: "entry_offset xs 0 = 0"
  by (simp add: entry_offset_def)

lemma entry_offset_append: "i \<le> length xs \<Longrightarrow> entry_offset (xs @ ys) i = entry_offset xs i"
  by (simp add: entry_offset_def)

lemma entry_offset_all: "entry_offset xs (length xs) = length (data_bytes xs)"
  by (simp add: entry_offset_def)

lemma entry_offset_Suc: "i < length xs \<Longrightarrow> entry_offset xs (Suc i) = entry_offset xs i + length (entry_bytes (xs ! i))"
  by (simp add: entry_offset_def take_Suc_conv_app_nth)

lemma length_entry_bytes: "3 \<le> length (entry_bytes x)"
proof -
  have "1 \<le> length (varint_bytes n)" for n by (cases "n < 128") (simp_all add: varint_bytes_small varint_bytes_step)
  from this [of "fst x"] this [of "length (fst (snd x)) - fst x"] this [of "length (snd (snd x))"]
  show ?thesis unfolding entry_bytes_def entry_head_def length_append by linarith
qed

lemma entry_offset_less: "i < j \<Longrightarrow> j \<le> length xs \<Longrightarrow> entry_offset xs i < entry_offset xs j"
proof (induction j)
  case (Suc j)
  then have "entry_offset xs j < entry_offset xs (Suc j)"
    using entry_offset_Suc [of j xs] length_entry_bytes [of "xs ! j"] by linarith
  with Suc show ?case by (cases "i = j") auto
qed simp

lemma entry_offset_le_iff: "i \<le> length xs \<Longrightarrow> j \<le> length xs \<Longrightarrow> entry_offset xs i \<le> entry_offset xs j \<longleftrightarrow> i \<le> j"
  using entry_offset_less [of i j xs] entry_offset_less [of j i xs] by (metis leD leI less_imp_le order_refl linorder_cases)

lemma entry_offset_le: "i \<le> length xs \<Longrightarrow> entry_offset xs i \<le> length (data_bytes xs)"
  using entry_offset_le_iff [of i xs "length xs"] by (simp add: entry_offset_all)

section \<open>What the builder builds\<close>

text \<open>
  \<open>built interval xs b\<close>: \<open>b\<close> holds the entries \<open>xs\<close>, of which every \<open>interval\<close>-th is a restart point.
\<close>

definition restart_indices :: "nat \<Rightarrow> nat \<Rightarrow> nat list" where
  "restart_indices interval n = 0 # filter (\<lambda>i. i mod interval = 0) [1..<n]"

definition built :: "nat \<Rightarrow> block_entry list \<Rightarrow> block_builder \<Rightarrow> bool" where
  "built interval xs b \<longleftrightarrow>
     block_ok xs (restart_indices interval (length xs)) \<and>
     bb_buffer b = data_bytes xs \<and>
     bb_restarts b = map (\<lambda>r. of_nat (entry_offset xs r)) (restart_indices interval (length xs)) \<and>
     bb_counter b = (if xs = [] then 0 else (length xs - 1) mod interval + 1) \<and>
     bb_last_key b = previous_key xs (length xs) \<and> \<not> bb_finished b"

lemma restart_indices_simps [simp]:
  "restart_indices interval 0 = [0]"
  "restart_indices interval (Suc n) =
    (if n mod interval = 0 \<and> n \<noteq> 0 then restart_indices interval n @ [n] else restart_indices interval n)"
  by (simp_all add: restart_indices_def)

lemma restart_indices_less: "r \<in> set (restart_indices interval n) \<Longrightarrow> r = 0 \<or> r < n"
  by (auto simp: restart_indices_def)

lemma built_new: "built interval [] BlockBuilder"
  by (simp add: built_def block_ok_def BlockBuilder_def previous_key_def entry_offset_def)

lemma built_Reset: "built interval [] (BlockBuilder_Reset b)"
  by (simp add: built_def block_ok_def BlockBuilder_Reset_def previous_key_def entry_offset_def)

lemma previous_key_append:
  "i \<le> length xs \<Longrightarrow> previous_key (xs @ ys) i = previous_key xs i"
  by (auto simp: previous_key_def nth_append)

definition shared_bytes :: "nat \<Rightarrow> block_entry list \<Rightarrow> slice \<Rightarrow> nat" where
  "shared_bytes interval xs key =
     (if xs = [] \<or> length xs mod interval \<noteq> 0 then common_prefix (previous_key xs (length xs)) key else 0)"

lemma counter_full:
  assumes "1 \<le> interval" "(n :: nat) \<noteq> 0"
  shows "(n - 1) mod interval + 1 < interval \<longleftrightarrow> n mod interval \<noteq> 0"
    "n mod interval \<noteq> 0 \<Longrightarrow> (n - 1) mod interval + 1 = n mod interval"
proof -
  have n: "n = Suc (n - 1)" using assms by simp
  have "n mod interval = (if Suc ((n - 1) mod interval) = interval then 0 else Suc ((n - 1) mod interval))"
    by (subst n) (simp only: mod_Suc)
  moreover have "(n - 1) mod interval < interval" using assms by simp
  ultimately show "(n - 1) mod interval + 1 < interval \<longleftrightarrow> n mod interval \<noteq> 0"
    "n mod interval \<noteq> 0 \<Longrightarrow> (n - 1) mod interval + 1 = n mod interval"
    by (auto split: if_splits)
qed

lemma block_ok_snoc:
  assumes "block_ok xs (restart_indices interval (length xs))" "1 \<le> interval"
  shows "block_ok (xs @ [(shared_bytes interval xs key, key, value)]) (restart_indices interval (Suc (length xs)))"
proof -
  define s where "s = shared_bytes interval xs key"
  have s: "s \<le> length key" "s \<le> length (previous_key xs (length xs))"
    "take s (previous_key xs (length xs)) = take s key"
    by (auto simp: s_def shared_bytes_def common_prefix_le common_prefix_take)
  have z: "xs \<noteq> [] \<Longrightarrow> length xs mod interval = 0 \<Longrightarrow> s = 0" by (simp add: s_def shared_bytes_def)
  have srt: "sorted_wrt (<) (restart_indices interval (length xs) @ [length xs])" if "xs \<noteq> []"
    using assms(1) that restart_indices_less [of _ interval "length xs"] by (auto simp: block_ok_def sorted_wrt_append)
  show ?thesis
    using assms(1) s z srt unfolding s_def [symmetric] block_ok_def
    by (auto simp: nth_append less_Suc_eq previous_key_append)
qed

lemma built_Add:
  assumes "built interval xs b" "1 \<le> interval" "length key < 2 ^ 32" "length value < 2 ^ 32"
  shows "built interval (xs @ [(shared_bytes interval xs key, key, value)]) (BlockBuilder_Add interval key value b)"
proof -
  define s where "s = shared_bytes interval xs key"
  have b: "bb_buffer b = data_bytes xs" "bb_last_key b = previous_key xs (length xs)" "\<not> bb_finished b"
    "bb_restarts b = map (\<lambda>r. of_nat (entry_offset xs r)) (restart_indices interval (length xs))"
    "bb_counter b = (if xs = [] then 0 else (length xs - 1) mod interval + 1)"
    using assms(1) by (auto simp: built_def)
  have full: "bb_counter b < interval \<longleftrightarrow> xs = [] \<or> length xs mod interval \<noteq> 0"
    using counter_full(1) [of interval "length xs"] assms(2) b(5) by auto
  have s: "s \<le> length key" "take s (previous_key xs (length xs)) = take s key"
    by (auto simp: s_def shared_bytes_def common_prefix_le common_prefix_take)
  have len: "unat (of_nat n :: u32) = n" if "n \<le> length key" for n
    using that assms(3) by (intro unat_of_nat_small) simp
  have lenv: "unat (of_nat (length value) :: u32) = length value"
    using assms(4) by (intro unat_of_nat_small) simp
  define b' where "b' = BlockBuilder_Add interval key value b"
  have shared: "b' =
      (let b = if bb_counter b < interval then b
               else b\<lparr>bb_restarts := bb_restarts b @ [of_nat (length (bb_buffer b))], bb_counter := 0\<rparr>
       in b\<lparr>bb_buffer := data_bytes (xs @ [(s, key, value)]), bb_last_key := key, bb_counter := bb_counter b + 1\<rparr>)"
    using full s b(1,2)
    by (auto simp: b'_def BlockBuilder_Add_def Let_def PutVarint32_bytes entry_bytes_def entry_head_def len lenv s_def
        shared_bytes_def split: if_splits)
  have off: "map (\<lambda>r. of_nat (entry_offset (xs @ [x]) r)) (restart_indices interval (length xs)) =
      map (\<lambda>r. of_nat (entry_offset xs r) :: u32) (restart_indices interval (length xs))" for x
    using restart_indices_less [of _ interval "length xs"]
    by (intro map_cong refl arg_cong [where f = of_nat]) (fastforce simp: entry_offset_append)
  have "block_ok (xs @ [(s, key, value)]) (restart_indices interval (Suc (length xs)))"
    using block_ok_snoc assms(1,2) by (auto simp: built_def s_def)
  moreover have "bb_restarts b' =
      map (\<lambda>r. of_nat (entry_offset (xs @ [(s, key, value)]) r)) (restart_indices interval (Suc (length xs)))"
    using full b(1,4) off by (auto simp: shared Let_def entry_offset_append entry_offset_all)
  moreover have "bb_counter b' = length xs mod interval + 1"
    using full b(5) counter_full(2) [of interval "length xs"] assms(2) by (auto simp: shared Let_def)
  moreover have "bb_buffer b' = data_bytes (xs @ [(s, key, value)])" "bb_last_key b' = key" "\<not> bb_finished b'"
    using b(3) by (simp_all add: shared Let_def)
  ultimately show ?thesis
    unfolding built_def b'_def [symmetric] s_def [symmetric] by (simp add: previous_key_def)
qed

text \<open>A builder with all entries of a list added, and the block it finishes.\<close>

definition add_entries :: "nat \<Rightarrow> entry list \<Rightarrow> block_builder \<Rightarrow> block_builder" where
  "add_entries interval es b = fold (\<lambda>(key, value). BlockBuilder_Add interval key value) es b"

lemma built_add_entries:
  assumes "built interval xs b" "1 \<le> interval" "\<forall>(k, v) \<in> set es. length k < 2 ^ 32 \<and> length v < 2 ^ 32"
  shows "\<exists>ys. built interval (xs @ ys) (add_entries interval es b) \<and> map snd ys = es"
  using assms
proof (induction es arbitrary: xs b)
  case (Cons e es)
  obtain k v where e: "e = (k, v)" by (cases e)
  from Cons.IH [OF built_Add [OF Cons.prems(1,2), of k v]] Cons.prems e obtain ys where
    "built interval ((xs @ [(shared_bytes interval xs k, k, v)]) @ ys)
      (add_entries interval es (BlockBuilder_Add interval k v b))" "map snd ys = es" by auto
  then show ?case
    by (intro exI [of _ "(shared_bytes interval xs k, k, v) # ys"]) (simp add: add_entries_def e)
qed (auto simp: add_entries_def)

lemma Finish_block_bytes:
  assumes "built interval xs b" "length (restart_indices interval (length xs)) < 2 ^ 32"
  shows "fst (BlockBuilder_Finish b) = block_bytes xs (restart_indices interval (length xs))"
proof -
  have "unat (of_nat (length (restart_indices interval (length xs))) :: u32) = length (restart_indices interval (length xs))"
    using assms(2) by (intro unat_of_nat_small) simp
  then show ?thesis
    using assms(1) by (simp add: BlockBuilder_Finish_def Let_def fold_PutFixed32 built_def block_bytes_def
        PutFixed32_def [of _ "of_nat _"] del: to_le.simps)
qed

end
