(* ===== verification/BlockReader.thy ===== *)
theory BlockReader
  imports BlockBuilder
begin

text \<open>
  \<open>table/block.cc\<close> and \<open>table/block.h\<close> of leveldb: reading blocks.  A pointer into the block is its offset from
  \<open>data_\<close>.  Offsets and indices of type \<open>uint32_t\<close> are natural numbers, with the conversions that may cut
  them written out.
\<close>

section \<open>Blocks\<close>

record block =
  block_data :: "byte list"
  block_size :: nat
  restart_offset :: nat

definition NumRestarts :: "block \<Rightarrow> nat" where
  "NumRestarts b = unat (DecodeFixed32 kLittleEndian (drop (block_size b - 4) (block_data b)))"

text \<open>\<open>restart_offset_\<close> stays unset when the contents are too short: it is whatever was there.\<close>

definition Block :: "nat \<Rightarrow> byte list \<Rightarrow> block" where
  "Block unset contents =
     (let b = \<lparr>block_data = contents, block_size = length contents, restart_offset = unset\<rparr> in
      if block_size b < 4 then b\<lparr>block_size := 0\<rparr>
      else
        let max_restarts_allowed = (block_size b - 4) div 4
        in if NumRestarts b > max_restarts_allowed then b\<lparr>block_size := 0\<rparr>
           else b\<lparr>restart_offset := (block_size b - (1 + NumRestarts b) mod 2 ^ 32 * 4) mod 2 ^ 32\<rparr>)"

text \<open>
  \<open>DecodeEntry(p, limit)\<close>: the three lengths and the new \<open>p\<close>, or \<open>None\<close> for \<open>nullptr\<close>.  The sum of the two
  lengths wraps around at 32 bits.
\<close>

definition DecodeEntry :: "byte list \<Rightarrow> nat \<Rightarrow> nat \<Rightarrow> (u32 \<times> u32 \<times> u32 \<times> nat) option" where
  "DecodeEntry data p limit =
     (if int limit - int p < 3 then None
      else
        let shared = ucast (data ! p); non_shared = ucast (data ! (p + 1)); value_length = ucast (data ! (p + 2));
            decoded =
              (if (shared OR non_shared OR value_length) < 128 then Some (shared, non_shared, value_length, p + 3)
               else
                 (case GetVarint32Ptr (take (limit - p) (drop p data)) of
                    None \<Rightarrow> None
                  | Some (shared, q) \<Rightarrow> (case GetVarint32Ptr q of
                      None \<Rightarrow> None
                    | Some (non_shared, q) \<Rightarrow> (case GetVarint32Ptr q of
                        None \<Rightarrow> None
                      | Some (value_length, q) \<Rightarrow> Some (shared, non_shared, value_length, limit - length q)))))
        in (case decoded of
              None \<Rightarrow> None
            | Some (shared, non_shared, value_length, p) \<Rightarrow>
                if of_nat (limit - p) < non_shared + value_length then None
                else Some (shared, non_shared, value_length, p)))"

section \<open>The iterator\<close>

text \<open>
  \<open>value_\<close> is the offset and the size of the slice; \<open>None\<close> is a slice that does not point into the block (a
  cleared one).
\<close>

record block_iter =
  bi_data :: "byte list"
  bi_restarts :: nat
  bi_num_restarts :: nat
  bi_current :: nat
  bi_restart_index :: nat
  bi_key :: "byte list"
  bi_value :: "(nat \<times> nat) option"
  bi_status :: status

definition Block_Iter :: "byte list \<Rightarrow> nat \<Rightarrow> nat \<Rightarrow> block_iter" where
  "Block_Iter data restarts num_restarts =
     \<lparr>bi_data = data, bi_restarts = restarts, bi_num_restarts = num_restarts, bi_current = restarts,
      bi_restart_index = num_restarts, bi_key = [], bi_value = None, bi_status = Status_OK\<rparr>"

definition NextEntryOffset :: "block_iter \<Rightarrow> nat option" where
  "NextEntryOffset it = map_option (\<lambda>(p, n). (p + n) mod 2 ^ 32) (bi_value it)"

definition GetRestartPoint :: "block_iter \<Rightarrow> nat \<Rightarrow> nat" where
  "GetRestartPoint it index = unat (DecodeFixed32 kLittleEndian (drop (bi_restarts it + index * 4) (bi_data it)))"

definition SeekToRestartPoint :: "nat \<Rightarrow> block_iter \<Rightarrow> block_iter" where
  "SeekToRestartPoint index it =
     it\<lparr>bi_key := [], bi_restart_index := index, bi_value := Some (GetRestartPoint it index, 0)\<rparr>"

definition CorruptionError :: "block_iter \<Rightarrow> block_iter" where
  "CorruptionError it =
     it\<lparr>bi_current := bi_restarts it, bi_restart_index := bi_num_restarts it,
        bi_status := Status_Corruption (bytes_of ''bad entry in block'') [], bi_key := [], bi_value := None\<rparr>"

function next_restarts :: "block_iter \<Rightarrow> nat \<Rightarrow> nat" where
  "next_restarts it index =
     (if index + 1 < bi_num_restarts it \<and> GetRestartPoint it (index + 1) < bi_current it
      then next_restarts it (index + 1) else index)"
  by pat_completeness auto
termination by (relation "measure (\<lambda>(it, index). bi_num_restarts it - index)") auto

declare next_restarts.simps [simp del]

text \<open>
  \<open>None\<close>: the call is undefined, because \<open>value_\<close> does not point into the block or because the lengths of the
  entry, whose sum wraps around, lead out of it.
\<close>

definition ParseNextKey :: "block_iter \<Rightarrow> (bool \<times> block_iter) option" where
  "ParseNextKey it =
     (case NextEntryOffset it of
        None \<Rightarrow> None
      | Some current \<Rightarrow>
          let it = it\<lparr>bi_current := current\<rparr> in
          if current \<ge> bi_restarts it then
            Some (False, it\<lparr>bi_current := bi_restarts it, bi_restart_index := bi_num_restarts it\<rparr>)
          else
            (case DecodeEntry (bi_data it) current (bi_restarts it) of
               None \<Rightarrow> Some (False, CorruptionError it)
             | Some (shared, non_shared, value_length, p) \<Rightarrow>
                 if length (bi_key it) < unat shared then Some (False, CorruptionError it)
                 else if p + unat non_shared + unat value_length > length (bi_data it) then None
                 else
                   let it = it\<lparr>bi_key := take (unat shared) (bi_key it) @ take (unat non_shared) (drop p (bi_data it)),
                               bi_value := Some (p + unat non_shared, unat value_length)\<rparr>
                   in Some (True, it\<lparr>bi_restart_index := next_restarts it (bi_restart_index it)\<rparr>)))"

definition Block_Valid :: "block_iter \<Rightarrow> bool" where
  "Block_Valid it \<longleftrightarrow> bi_current it < bi_restarts it"

definition Block_key :: "block_iter \<Rightarrow> slice" where
  "Block_key it = bi_key it"

definition Block_value :: "block_iter \<Rightarrow> slice" where
  "Block_value it = (case bi_value it of None \<Rightarrow> [] | Some (p, n) \<Rightarrow> take n (drop p (bi_data it)))"

section \<open>Moving the iterator\<close>

definition Block_Next :: "block_iter \<Rightarrow> block_iter option" where
  "Block_Next it = map_option snd (ParseNextKey it)"

text \<open>The loop \<open>ParseNextKey() && NextEntryOffset() < bound\<close>.\<close>

partial_function (option) parse_before :: "nat \<Rightarrow> block_iter \<Rightarrow> block_iter option" where
  "parse_before bound it =
     Option.bind (ParseNextKey it) (\<lambda>(more, it).
       if more \<and> the (NextEntryOffset it) < bound then parse_before bound it else Some it)"

fun restart_before :: "block_iter \<Rightarrow> nat \<Rightarrow> nat \<Rightarrow> nat option" where
  "restart_before it original 0 = (if GetRestartPoint it 0 \<ge> original then None else Some 0)"
| "restart_before it original (Suc index) =
     (if GetRestartPoint it (Suc index) \<ge> original then restart_before it original index else Some (Suc index))"

definition Block_Prev :: "block_iter \<Rightarrow> block_iter option" where
  "Block_Prev it =
     (let original = bi_current it in
      case restart_before it original (bi_restart_index it) of
        None \<Rightarrow> Some (it\<lparr>bi_current := bi_restarts it, bi_restart_index := bi_num_restarts it\<rparr>)
      | Some index \<Rightarrow> parse_before original (SeekToRestartPoint index it))"

text \<open>The binary search: the restart point found, or \<open>None\<close> for a corrupted entry.\<close>

partial_function (option) search_restarts ::
  "(slice \<Rightarrow> slice \<Rightarrow> int) \<Rightarrow> slice \<Rightarrow> block_iter \<Rightarrow> nat \<Rightarrow> nat \<Rightarrow> nat option option" where
  "search_restarts Compare target it left right =
     (if left < right then
        let mid = (left + right + 1) mod 2 ^ 32 div 2 in
        case DecodeEntry (bi_data it) (GetRestartPoint it mid) (bi_restarts it) of
          None \<Rightarrow> Some None
        | Some (shared, non_shared, value_length, p) \<Rightarrow>
            if shared \<noteq> 0 then Some None
            else if p + unat non_shared > length (bi_data it) then None
            else if Compare (take (unat non_shared) (drop p (bi_data it))) target < 0
            then search_restarts Compare target it mid right
            else search_restarts Compare target it left ((mid + 2 ^ 32 - 1) mod 2 ^ 32)
      else Some (Some left))"

partial_function (option) parse_until ::
  "(slice \<Rightarrow> slice \<Rightarrow> int) \<Rightarrow> slice \<Rightarrow> block_iter \<Rightarrow> block_iter option" where
  "parse_until Compare target it =
     Option.bind (ParseNextKey it) (\<lambda>(more, it).
       if \<not> more then Some it
       else if Compare (bi_key it) target \<ge> 0 then Some it
       else parse_until Compare target it)"

definition Block_Seek :: "(slice \<Rightarrow> slice \<Rightarrow> int) \<Rightarrow> slice \<Rightarrow> block_iter \<Rightarrow> block_iter option" where
  "Block_Seek Compare target it =
     (case search_restarts Compare target it 0 (bi_num_restarts it - 1) of
        None \<Rightarrow> None
      | Some None \<Rightarrow> Some (CorruptionError it)
      | Some (Some left) \<Rightarrow> parse_until Compare target (SeekToRestartPoint left it))"

definition Block_SeekToFirst :: "block_iter \<Rightarrow> block_iter option" where
  "Block_SeekToFirst it = map_option snd (ParseNextKey (SeekToRestartPoint 0 it))"

definition Block_SeekToLast :: "block_iter \<Rightarrow> block_iter option" where
  "Block_SeekToLast it = parse_before (bi_restarts it) (SeekToRestartPoint (bi_num_restarts it - 1) it)"

definition block_iterator :: "(slice \<Rightarrow> slice \<Rightarrow> int) \<Rightarrow> block_iter iterator_class" where
  "block_iterator Compare =
     \<lparr>Valid = Block_Valid, SeekToFirst = Block_SeekToFirst, SeekToLast = Block_SeekToLast,
      Seek = Block_Seek Compare, Next = Block_Next, Prev = Block_Prev, Key = Block_key, Value = Block_value,
      Status = bi_status\<rparr>"

text \<open>The new iterator: an empty one with its status, or one over the block.\<close>

definition Block_NewIterator :: "block \<Rightarrow> status + block_iter" where
  "Block_NewIterator b =
     (if block_size b < 4 then Inl (NewErrorIterator (Status_Corruption (bytes_of ''bad block contents'') []))
      else
        let num_restarts = NumRestarts b
        in if num_restarts = 0 then Inl NewEmptyIterator
           else Inr (Block_Iter (block_data b) (restart_offset b) num_restarts))"

end
