(* ===== verification/BlockProps.thy ===== *)
theory BlockProps
  imports BlockReader DbFormat
begin

text \<open>
  Reading a block that was built: the iterator of a block keeps the contract of iterators, over the entries that
  were added.
\<close>

section \<open>Decoding the head of an entry\<close>

lemma word_or_less_iff: "((a :: 'a::len word) OR b) < 2 ^ n \<longleftrightarrow> a < 2 ^ n \<and> b < 2 ^ n" if "n < LENGTH('a)"
proof -
  have "w < 2 ^ n \<longleftrightarrow> drop_bit n w = 0" for w :: "'a word"
  proof -
    have "drop_bit n w = 0 \<longleftrightarrow> unat w div 2 ^ n = 0"
      unfolding unat_drop_bit [symmetric] by (simp only: unat_eq_zero)
    also have "\<dots> \<longleftrightarrow> unat w < 2 ^ n" by (simp add: div_eq_0_iff)
    also have "\<dots> \<longleftrightarrow> w < 2 ^ n" using unat_of_nat_small [of "2 ^ n", where 'a = 'a] that by (simp add: word_less_nat_alt)
    finally show ?thesis by simp
  qed
  then show ?thesis by (simp only: drop_bit_or or_eq_0_iff)
qed

lemma GetVarint32Ptr_small:
  assumes "(ucast b :: u32) < 128"
  shows "GetVarint32Ptr (b # p) = Some (ucast b, p)"
proof -
  have "unat (ucast b :: u32) < 128" using assms by (simp add: word_less_nat_alt)
  moreover have "unat (ucast b :: u32) = unat b"
    unfolding unat_ucast by (rule mod_less, rule less_trans [OF unat_byte_less]) simp
  ultimately have "b AND 0x80 = 0" by (simp add: byte_top_bit_iff)
  moreover have "(ucast b :: u32) AND 128 = ucast (b AND 0x80)" by (simp add: unsigned_and_eq)
  ultimately have "(ucast b :: u32) AND 128 = 0" by simp
  then show ?thesis by (simp add: GetVarint32Ptr_def)
qed

definition decode_head :: "byte list \<Rightarrow> (u32 \<times> u32 \<times> u32 \<times> byte list) option" where
  "decode_head p =
     (case GetVarint32Ptr p of
        None \<Rightarrow> None
      | Some (shared, q) \<Rightarrow> (case GetVarint32Ptr q of
          None \<Rightarrow> None
        | Some (non_shared, q) \<Rightarrow> (case GetVarint32Ptr q of
            None \<Rightarrow> None
          | Some (value_length, q) \<Rightarrow> Some (shared, non_shared, value_length, q))))"

text \<open>The fast path reads what the three calls would.\<close>

lemma DecodeEntry_head:
  assumes "limit \<le> length data" "decode_head (take (limit - p) (drop p data)) = Some (s, n, v, q)"
    "int limit - int p \<ge> 3"
  shows "DecodeEntry data p limit =
    (if of_nat (length q) < n + v then None else Some (s, n, v, limit - length q))"
proof -
  have lq: "length q \<le> limit - p"
  proof -
    obtain used where "take (limit - p) (drop p data) = used @ q"
      using assms(2) unfolding decode_head_def
      by (auto split: option.splits prod.splits dest!: GetVarint32Ptr_takes)
    from arg_cong [OF this, of length] show ?thesis by simp
  qed
  define r where "r = take (limit - p) (drop p data)"
  have pl: "p + 2 < limit" using assms(3) by simp
  have r: "r = data ! p # data ! (p + 1) # data ! (p + 2) # drop 3 r"
  proof -
    have "r ! 0 = data ! p" "r ! 1 = data ! (p + 1)" "r ! 2 = data ! (p + 2)" "2 < length r"
      using pl assms(1) by (simp_all add: r_def)
    then show ?thesis by (metis Cons_nth_drop_Suc One_nat_def Suc_1 drop0 less_trans_Suc numeral_3_eq_3 zero_less_Suc Suc_lessD)
  qed
  have len: "length r = limit - p" using assms(1) by (simp add: r_def)
  show ?thesis
  proof (cases "(ucast (data ! p) OR ucast (data ! (p + 1)) OR ucast (data ! (p + 2)) :: u32) < 128")
    case True
    then have small: "(ucast (data ! p) :: u32) < 128" "(ucast (data ! (p + 1)) :: u32) < 128" "(ucast (data ! (p + 2)) :: u32) < 128"
      using word_or_less_iff [of 7, where 'a = 32] by auto
    have "decode_head r = Some (ucast (data ! p), ucast (data ! (p + 1)), ucast (data ! (p + 2)), drop 3 r)"
      by (subst r) (simp only: decode_head_def GetVarint32Ptr_small [OF small(1)] GetVarint32Ptr_small [OF small(2)]
        GetVarint32Ptr_small [OF small(3)] option.case prod.case)
    then have e: "s = ucast (data ! p)" "n = ucast (data ! (p + 1))" "v = ucast (data ! (p + 2))" "q = drop 3 r"
      using assms(2) by (simp_all add: r_def)
    have "length q = limit - (p + 3)" using len e(4) by simp
    then show ?thesis using True pl by (simp add: DecodeEntry_def Let_def e(1-3))
  next
    case False
    then show ?thesis
      using assms(2) pl lq by (auto simp: DecodeEntry_def Let_def decode_head_def split: option.splits prod.splits)
  qed
qed

section \<open>Entries of a built block\<close>

definition block_small :: "block_entry list \<Rightarrow> nat list \<Rightarrow> bool" where
  "block_small xs rs \<longleftrightarrow> length (block_bytes xs rs) < 2 ^ 32 \<and>
     (\<forall>x \<in> set xs. length (fst (snd x)) < 2 ^ 32 \<and> length (snd (snd x)) < 2 ^ 32)"

lemma varint_of_nat: "n < 2 ^ 32 \<Longrightarrow> GetVarint32Ptr (varint_bytes n @ rest) = Some (of_nat n, rest)"
  using GetVarint32Ptr_bytes [of "of_nat n"] by (simp add: unat_of_nat)

lemma decode_head_entry:
  assumes "fst x \<le> length (fst (snd x))" "length (fst (snd x)) < 2 ^ 32" "length (snd (snd x)) < 2 ^ 32"
  shows "decode_head (entry_bytes x @ rest) =
    Some (of_nat (fst x), of_nat (length (fst (snd x)) - fst x), of_nat (length (snd (snd x))),
      drop (fst x) (fst (snd x)) @ snd (snd x) @ rest)"
  using assms by (simp add: decode_head_def entry_bytes_def entry_head_def varint_of_nat)

lemma data_split: "i < length xs \<Longrightarrow> data_bytes xs = data_bytes (take i xs) @ entry_bytes (xs ! i) @ data_bytes (drop (Suc i) xs)"
  by (metis append_take_drop_id Cons_nth_drop_Suc data_bytes_simps(2,3))

lemma length_entry: 
  "fst x \<le> length (fst (snd x)) \<Longrightarrow>
    length (entry_bytes x) = length (entry_head x) + (length (fst (snd x)) - fst x) + length (snd (snd x))"
  by (simp add: entry_bytes_def)

lemma block_ok_entry:
  assumes "block_ok xs rs" "i < length xs"
  shows "fst (xs ! i) \<le> length (fst (snd (xs ! i)))" "fst (xs ! i) \<le> length (previous_key xs i)"
    "take (fst (xs ! i)) (previous_key xs i) = take (fst (xs ! i)) (fst (snd (xs ! i)))"
  using assms by (auto simp: block_ok_def)

lemma block_small_entry:
  assumes "block_small xs rs" "i < length xs"
  shows "length (fst (snd (xs ! i))) < 2 ^ 32" "length (snd (snd (xs ! i))) < 2 ^ 32"
  using assms by (auto simp: block_small_def)

lemma DecodeEntry_entry:
  assumes "block_ok xs rs" "block_small xs rs" "i < length xs"
  shows "DecodeEntry (block_bytes xs rs) (entry_offset xs i) (length (data_bytes xs)) =
    Some (of_nat (fst (xs ! i)), of_nat (length (fst (snd (xs ! i))) - fst (xs ! i)), of_nat (length (snd (snd (xs ! i)))),
      entry_offset xs i + length (entry_head (xs ! i)))"
proof -
  note ok = block_ok_entry [OF assms(1,3)] block_small_entry [OF assms(2,3)]
  have le: "entry_offset xs i + length (entry_bytes (xs ! i)) \<le> length (data_bytes xs)"
    using entry_offset_le [of "Suc i" xs] assms(3) entry_offset_Suc [of i xs] by simp
  have "take (length (data_bytes xs) - entry_offset xs i) (drop (entry_offset xs i) (block_bytes xs rs)) =
      entry_bytes (xs ! i) @ data_bytes (drop (Suc i) xs)"
    using data_split [OF assms(3)] by (simp add: block_bytes_def entry_offset_def)
  note head = decode_head_entry [OF ok(1,4,5), of "data_bytes (drop (Suc i) xs)", folded this]
  define q where "q = drop (fst (xs ! i)) (fst (snd (xs ! i))) @ snd (snd (xs ! i)) @ data_bytes (drop (Suc i) xs)"
  have lq: "length q + (entry_offset xs i + length (entry_head (xs ! i))) = length (data_bytes xs)"
    using data_split [OF assms(3)] ok(1) by (simp add: q_def entry_offset_def entry_bytes_def)
  have small: "length (data_bytes xs) < 2 ^ 32" using assms(2) by (simp add: block_small_def block_bytes_def)
  define n v where "n = length (fst (snd (xs ! i))) - fst (xs ! i)" and "v = length (snd (snd (xs ! i)))"
  have nv: "n + v \<le> length q" by (simp add: q_def n_def v_def)
  have "\<not> (of_nat (length q) :: u32) < of_nat n + of_nat v"
  proof -
    have "unat (of_nat (length q) :: u32) = length q" "unat (of_nat (n + v) :: u32) = n + v"
      using small lq nv by (intro unat_of_nat_small; simp)+
    then show ?thesis using nv by (simp only: word_less_nat_alt not_less of_nat_add)
  qed
  moreover have "int (length (data_bytes xs)) - int (entry_offset xs i) \<ge> 3"
    using le length_entry_bytes [of "xs ! i"] by linarith
  moreover have "length (data_bytes xs) - length q = entry_offset xs i + length (entry_head (xs ! i))"
    using lq by simp
  moreover have "length (data_bytes xs) \<le> length (block_bytes xs rs)" by (simp add: block_bytes_def)
  ultimately show ?thesis
    using DecodeEntry_head [OF _ head [folded q_def n_def v_def]] by (simp only: if_False n_def v_def)
qed

section \<open>Restart points\<close>

definition iter_over :: "block_entry list \<Rightarrow> nat list \<Rightarrow> block_iter \<Rightarrow> bool" where
  "iter_over xs rs it \<longleftrightarrow> block_ok xs rs \<and> block_small xs rs \<and> bi_data it = block_bytes xs rs \<and>
     bi_restarts it = length (data_bytes xs) \<and> bi_num_restarts it = length rs \<and> bi_status it = Status_OK"

lemma iter_over_cong:
  "bi_data it' = bi_data it \<Longrightarrow> bi_restarts it' = bi_restarts it \<Longrightarrow> bi_num_restarts it' = bi_num_restarts it \<Longrightarrow>
    bi_status it' = bi_status it \<Longrightarrow> iter_over xs rs it' = iter_over xs rs it"
  by (simp add: iter_over_def)

lemma restart_le:
  assumes "block_ok xs rs" "j < length rs"
  shows "rs ! j \<le> length xs" "xs \<noteq> [] \<Longrightarrow> rs ! j < length xs" "xs \<noteq> [] \<Longrightarrow> fst (xs ! (rs ! j)) = 0"
proof -
  have r: "rs ! j = 0 \<or> rs ! j < length xs \<and> fst (xs ! (rs ! j)) = 0"
    using assms by (auto simp: block_ok_def)
  then show "rs ! j \<le> length xs" "xs \<noteq> [] \<Longrightarrow> rs ! j < length xs" by auto
  show "xs \<noteq> [] \<Longrightarrow> fst (xs ! (rs ! j)) = 0"
    using r block_ok_entry(2) [OF assms(1), of 0] by (auto simp: previous_key_def)
qed

lemma restart_mono: "block_ok xs rs \<Longrightarrow> j < k \<Longrightarrow> k < length rs \<Longrightarrow> rs ! j < rs ! k"
  by (auto simp: block_ok_def sorted_wrt_iff_nth_less)

lemma restart_first: "block_ok xs rs \<Longrightarrow> rs ! 0 = 0 \<and> 0 < length rs"
  by (auto simp: block_ok_def hd_conv_nth)

lemma small_offset: "block_small xs rs \<Longrightarrow> i \<le> length xs \<Longrightarrow> entry_offset xs i < 2 ^ 32"
  using entry_offset_le [of i xs] by (simp add: block_small_def block_bytes_def)

lemma GetRestartPoint_nth:
  assumes "iter_over xs rs it" "j < length rs"
  shows "GetRestartPoint it j = entry_offset xs (rs ! j)"
proof -
  have "drop (bi_restarts it + j * 4) (bi_data it) =
      drop (4 * j) (fixed32s (map (\<lambda>r. of_nat (entry_offset xs r)) rs) @ to_le 4 (length rs))"
    using assms(1) by (simp add: iter_over_def block_bytes_def mult.commute del: to_le.simps)
  also have "\<dots> = to_le 4 (unat (of_nat (entry_offset xs (rs ! j)) :: u32)) @
      fixed32s (drop (Suc j) (map (\<lambda>r. of_nat (entry_offset xs r)) rs)) @ to_le 4 (length rs)"
    using drop_fixed32s [of j "map (\<lambda>r. of_nat (entry_offset xs r)) rs" "to_le 4 (length rs)"] assms(2)
    by (simp del: to_le.simps)
  finally have "GetRestartPoint it j = unat (of_nat (entry_offset xs (rs ! j)) :: u32)"
    by (simp only: GetRestartPoint_def DecodeFixed32_to_le)
  moreover have "entry_offset xs (rs ! j) < 2 ^ 32"
    using assms restart_le(1) by (intro small_offset) (auto simp: iter_over_def)
  ultimately show ?thesis by (simp add: unat_of_nat_small)
qed

section \<open>Positions of the iterator\<close>

text \<open>\<open>restart_ok\<close>: the restart point kept is at or before entry \<open>i\<close>, and the next one, if any, at or after it.\<close>

definition restart_ok :: "nat list \<Rightarrow> nat \<Rightarrow> nat \<Rightarrow> bool" where
  "restart_ok rs j i \<longleftrightarrow> j < length rs \<and> rs ! j \<le> i \<and> (Suc j < length rs \<longrightarrow> i \<le> rs ! Suc j)"

definition parsed :: "block_entry list \<Rightarrow> nat list \<Rightarrow> block_iter \<Rightarrow> nat \<Rightarrow> bool" where
  "parsed xs rs it i \<longleftrightarrow> iter_over xs rs it \<and> i < length xs \<and> bi_current it = entry_offset xs i \<and>
     bi_key it = fst (snd (xs ! i)) \<and>
     bi_value it = Some (entry_offset xs (Suc i) - length (snd (snd (xs ! i))), length (snd (snd (xs ! i)))) \<and>
     restart_ok rs (bi_restart_index it) i"

definition before_entry :: "block_entry list \<Rightarrow> nat list \<Rightarrow> block_iter \<Rightarrow> nat \<Rightarrow> bool" where
  "before_entry xs rs it i \<longleftrightarrow> iter_over xs rs it \<and> i \<le> length xs \<and>
     NextEntryOffset it = Some (entry_offset xs i) \<and>
     (i < length xs \<longrightarrow> fst (xs ! i) \<le> length (bi_key it) \<and>
        take (fst (xs ! i)) (bi_key it) = take (fst (xs ! i)) (fst (snd (xs ! i)))) \<and>
     bi_restart_index it < length rs \<and> rs ! bi_restart_index it \<le> i"

definition past_end :: "block_entry list \<Rightarrow> nat list \<Rightarrow> block_iter \<Rightarrow> bool" where
  "past_end xs rs it \<longleftrightarrow> iter_over xs rs it \<and> bi_current it = length (data_bytes xs) \<and> bi_restart_index it = length rs"

definition block_stands :: "block_entry list \<Rightarrow> nat list \<Rightarrow> block_iter \<Rightarrow> nat \<Rightarrow> bool" where
  "block_stands xs rs it i \<longleftrightarrow> (if i = length xs then past_end xs rs it else parsed xs rs it i)"

lemma entry_offset_value:
  assumes "block_ok xs rs" "i < length xs"
  shows "entry_offset xs (Suc i) = entry_offset xs i + length (entry_head (xs ! i)) +
      (length (fst (snd (xs ! i))) - fst (xs ! i)) + length (snd (snd (xs ! i)))"
  using length_entry [OF block_ok_entry(1) [OF assms]] entry_offset_Suc [OF assms(2)] by simp

lemma parsed_before:
  assumes "parsed xs rs it i"
  shows "before_entry xs rs it (Suc i)"
proof -
  have ok: "block_ok xs rs" "block_small xs rs" "i < length xs" using assms by (auto simp: parsed_def iter_over_def)
  have "NextEntryOffset it = Some (entry_offset xs (Suc i))"
    using assms entry_offset_value [OF ok(1,3)] small_offset [OF ok(2), of "Suc i"] ok(3)
    by (simp add: parsed_def NextEntryOffset_def)
  moreover have "previous_key xs (Suc i) = bi_key it" using assms by (simp add: parsed_def previous_key_def)
  ultimately show ?thesis
    using assms block_ok_entry [OF ok(1), of "Suc i"] by (auto simp: before_entry_def parsed_def restart_ok_def)
qed

lemma before_restart:
  assumes "iter_over xs rs it" "j < length rs"
  shows "before_entry xs rs (SeekToRestartPoint j it) (rs ! j)"
proof -
  have ok: "block_ok xs rs" "block_small xs rs" using assms(1) by (auto simp: iter_over_def)
  have "iter_over xs rs (SeekToRestartPoint j it)"
    using assms(1) by (simp add: SeekToRestartPoint_def iter_over_def)
  moreover have "NextEntryOffset (SeekToRestartPoint j it) = Some (entry_offset xs (rs ! j))"
    using small_offset [OF ok(2) restart_le(1) [OF ok(1) assms(2)]]
    by (simp add: SeekToRestartPoint_def NextEntryOffset_def GetRestartPoint_nth [OF assms])
  moreover have "rs ! j < length xs \<Longrightarrow> fst (xs ! (rs ! j)) = 0"
    using restart_le(3) [OF ok(1) assms(2)] by (cases xs) auto
  ultimately show ?thesis
    using restart_le(1) [OF ok(1) assms(2)] assms(2) by (auto simp: before_entry_def SeekToRestartPoint_def)
qed

lemma next_restarts_ok:
  assumes "iter_over xs rs it" "bi_current it = entry_offset xs i" "i < length xs" "j < length rs" "rs ! j \<le> i"
  shows "restart_ok rs (next_restarts it j) i"
  using assms
proof (induction it j rule: next_restarts.induct)
  case (1 it j)
  have ok: "block_ok xs rs" "bi_num_restarts it = length rs" using 1(2) by (auto simp: iter_over_def)
  have iff: "GetRestartPoint it (j + 1) < bi_current it \<longleftrightarrow> rs ! (j + 1) < i" if "j + 1 < length rs"
    using GetRestartPoint_nth [OF 1(2) that] 1(3,4) entry_offset_le_iff [of i xs "rs ! (j + 1)"]
      restart_le(1) [OF ok(1) that] by (simp add: not_le [symmetric])
  show ?case
  proof (cases "j + 1 < length rs \<and> rs ! (j + 1) < i")
    case True
    then show ?thesis
      using 1 iff ok by (subst next_restarts.simps) auto
  next
    case False
    then have "next_restarts it j = j" using iff ok by (subst next_restarts.simps) auto
    then show ?thesis using 1(5,6) False by (auto simp: restart_ok_def)
  qed
qed

section \<open>Parsing the next entry\<close>

lemma ParseNextKey_end:
  assumes "before_entry xs rs it (length xs)"
  shows "\<exists>it'. ParseNextKey it = Some (False, it') \<and> past_end xs rs it'"
  using assms by (auto simp: ParseNextKey_def before_entry_def past_end_def iter_over_def entry_offset_all)

lemma key_slice:
  assumes "i < length xs"
  shows "take (length (fst (snd (xs ! i))) - fst (xs ! i))
      (drop (entry_offset xs i + length (entry_head (xs ! i))) (block_bytes xs rs)) = drop (fst (xs ! i)) (fst (snd (xs ! i)))"
proof -
  have "block_bytes xs rs = data_bytes (take i xs) @ entry_head (xs ! i) @ drop (fst (xs ! i)) (fst (snd (xs ! i))) @
      snd (snd (xs ! i)) @ data_bytes (drop (Suc i) xs) @
      fixed32s (map (\<lambda>r. of_nat (entry_offset xs r)) rs) @ to_le 4 (length rs)"
    using data_split [OF assms] by (simp add: block_bytes_def entry_bytes_def)
  then show ?thesis by (simp add: entry_offset_def del: to_le.simps)
qed

lemma value_slice:
  assumes "block_ok xs rs" "i < length xs"
  shows "take (length (snd (snd (xs ! i)))) (drop (entry_offset xs (Suc i) - length (snd (snd (xs ! i)))) (block_bytes xs rs)) =
    snd (snd (xs ! i))"
proof -
  have "block_bytes xs rs = (data_bytes (take i xs) @ entry_head (xs ! i) @ drop (fst (xs ! i)) (fst (snd (xs ! i)))) @
      snd (snd (xs ! i)) @ data_bytes (drop (Suc i) xs) @
      fixed32s (map (\<lambda>r. of_nat (entry_offset xs r)) rs) @ to_le 4 (length rs)"
    using data_split [OF assms(2)] by (simp add: block_bytes_def entry_bytes_def)
  moreover have "entry_offset xs (Suc i) - length (snd (snd (xs ! i))) =
      length (data_bytes (take i xs) @ entry_head (xs ! i) @ drop (fst (xs ! i)) (fst (snd (xs ! i))))"
    using entry_offset_value [OF assms] by (simp add: entry_offset_def)
  ultimately show ?thesis by (simp del: to_le.simps)
qed

lemma Block_value_parsed: "parsed xs rs it i \<Longrightarrow> Block_value it = snd (snd (xs ! i))"
  using value_slice [of xs rs i] by (simp add: Block_value_def parsed_def iter_over_def)

lemma ParseNextKey_entry:
  assumes "before_entry xs rs it i" "i < length xs"
  shows "\<exists>it'. ParseNextKey it = Some (True, it') \<and> parsed xs rs it' i"
proof -
  have ov: "iter_over xs rs it" using assms(1) by (simp add: before_entry_def)
  then have ok: "block_ok xs rs" "block_small xs rs" "bi_data it = block_bytes xs rs"
    "bi_restarts it = length (data_bytes xs)" by (auto simp: iter_over_def)
  note e = block_ok_entry [OF ok(1) assms(2)] block_small_entry [OF ok(2) assms(2)]
  define s k v where "s = fst (xs ! i)" and "k = fst (snd (xs ! i))" and "v = snd (snd (xs ! i))"
  note e = e [folded s_def k_def v_def]
  have unats: "unat (of_nat s :: u32) = s" "unat (of_nat (length k - s) :: u32) = length k - s"
    "unat (of_nat (length v) :: u32) = length v" using e(1,4,5) by (intro unat_of_nat_small; simp)+
  define p where "p = entry_offset xs i + length (entry_head (xs ! i))"
  have nxt: "entry_offset xs (Suc i) = p + (length k - s) + length v"
    using entry_offset_value [OF ok(1) assms(2)] by (simp add: p_def k_def s_def v_def)
  have le: "entry_offset xs (Suc i) \<le> length (data_bytes xs)" using entry_offset_le [of "Suc i" xs] assms(2) by simp
  have lt: "entry_offset xs i < length (data_bytes xs)"
    using entry_offset_less [of i "length xs" xs] assms(2) by (simp add: entry_offset_all)
  have dropped: "take (length k - s) (drop p (block_bytes xs rs)) = drop s k"
    using key_slice [OF assms(2)] by (simp add: s_def k_def p_def)
  have key: "take s (bi_key it) @ drop s k = k" "s \<le> length (bi_key it)"
    using assms unfolding before_entry_def s_def k_def by (metis append_take_drop_id)+
  define it1 where "it1 = it\<lparr>bi_current := entry_offset xs i, bi_key := k, bi_value := Some (p + (length k - s), length v)\<rparr>"
  define it2 where "it2 = it1\<lparr>bi_restart_index := next_restarts it1 (bi_restart_index it)\<rparr>"
  have "p + (length k - s) + length v \<le> length (block_bytes xs rs)"
    using le nxt by (simp add: block_bytes_def)
  then have "ParseNextKey it = Some (True, it2)"
    using assms(1) lt key unfolding ParseNextKey_def before_entry_def
    by (simp add: ok(3,4) DecodeEntry_entry [OF ok(1,2) assms(2)] s_def [symmetric] k_def [symmetric] v_def [symmetric]
        p_def [symmetric] unats dropped it2_def it1_def Let_def)
  moreover have "iter_over xs rs it1" using ov by (simp add: it1_def iter_over_def)
  then have "restart_ok rs (next_restarts it1 (bi_restart_index it)) i"
    using assms by (intro next_restarts_ok [of xs rs]) (auto simp: it1_def before_entry_def)
  then have "parsed xs rs it2 i"
    using \<open>iter_over xs rs it1\<close> assms(2) nxt
    by (simp add: parsed_def it2_def it1_def iter_over_def k_def v_def)
  ultimately show ?thesis by blast
qed

lemma ParseNextKey_stands:
  assumes "before_entry xs rs it i"
  shows "\<exists>it'. ParseNextKey it = Some (i < length xs, it') \<and> block_stands xs rs it' i"
proof (cases "i < length xs")
  case True
  then show ?thesis using ParseNextKey_entry [OF assms] by (auto simp: block_stands_def)
next
  case False
  then have "i = length xs" using assms by (simp add: before_entry_def)
  then show ?thesis using ParseNextKey_end [of xs rs it] assms by (auto simp: block_stands_def)
qed


section \<open>Moving the iterator\<close>

lemma block_stands_over: "block_stands xs rs it i \<Longrightarrow> iter_over xs rs it \<and> i \<le> length xs"
  by (auto simp: block_stands_def past_end_def parsed_def split: if_splits)

lemma stands_parsed: "block_stands xs rs it i \<Longrightarrow> i < length xs \<Longrightarrow> parsed xs rs it i"
  by (simp add: block_stands_def)

lemma Block_Next_stands:
  assumes "block_stands xs rs it i" "i < length xs"
  shows "\<exists>it'. Block_Next it = Some it' \<and> block_stands xs rs it' (Suc i)"
  using ParseNextKey_stands [OF parsed_before [OF stands_parsed [OF assms]]] by (auto simp: Block_Next_def)

lemma Block_SeekToFirst_stands:
  assumes "iter_over xs rs it"
  shows "\<exists>it'. Block_SeekToFirst it = Some it' \<and> block_stands xs rs it' 0"
proof -
  have "rs ! 0 = 0" "0 < length rs" using assms restart_first by (auto simp: iter_over_def)
  then show ?thesis
    using ParseNextKey_stands [OF before_restart [OF assms, of 0]] by (auto simp: Block_SeekToFirst_def)
qed

lemma parse_before_stands:
  assumes "before_entry xs rs it i" "i < j" "j \<le> length xs"
  shows "\<exists>it'. parse_before (entry_offset xs j) it = Some it' \<and> block_stands xs rs it' (j - 1)"
  using assms
proof (induction "j - i" arbitrary: it i)
  case (Suc k)
  from ParseNextKey_entry [OF Suc(3)] Suc(4,5) obtain it' where
    it': "ParseNextKey it = Some (True, it')" "parsed xs rs it' i" by auto
  have b: "before_entry xs rs it' (Suc i)" using parsed_before [OF it'(2)] .
  then have "NextEntryOffset it' = Some (entry_offset xs (Suc i))" by (simp add: before_entry_def)
  moreover have "entry_offset xs (Suc i) < entry_offset xs j \<longleftrightarrow> Suc i < j"
    using entry_offset_le_iff [of j xs "Suc i"] Suc(4,5) by (simp add: not_le [symmetric])
  ultimately show ?case
  proof (cases "Suc i < j")
    case True
    have "k = j - Suc i" using Suc(2) by simp
    from Suc(1) [OF this b True Suc(5)] show ?thesis
      using it'(1) \<open>NextEntryOffset it' = _\<close> \<open>_ \<longleftrightarrow> Suc i < j\<close> True by (subst parse_before.simps) simp
  next
    case False
    then have "j - 1 = i" using Suc(4) by simp
    then show ?thesis
      using it' \<open>NextEntryOffset it' = _\<close> \<open>_ \<longleftrightarrow> Suc i < j\<close> False Suc(4,5)
      by (subst parse_before.simps) (auto simp: block_stands_def)
  qed
qed simp

lemma Block_SeekToLast_stands:
  assumes "iter_over xs rs it"
  shows "\<exists>it'. Block_SeekToLast it = Some it' \<and> block_stands xs rs it' (length xs - 1)"
proof -
  have ok: "block_ok xs rs" "bi_restarts it = entry_offset xs (length xs)" "bi_num_restarts it = length rs"
    using assms by (auto simp: iter_over_def entry_offset_all)
  have l: "length rs - 1 < length rs" using restart_first [OF ok(1)] by simp
  note b = before_restart [OF assms l]
  show ?thesis
  proof (cases "xs = []")
    case True
    then have "rs ! (length rs - 1) = length xs" using restart_le(1) [OF ok(1) l] by simp
    with ParseNextKey_stands [OF b] True show ?thesis
      unfolding Block_SeekToLast_def ok(3) by (subst parse_before.simps) auto
  next
    case False
    with parse_before_stands [OF b restart_le(2) [OF ok(1) l False] order_refl] show ?thesis
      by (simp add: Block_SeekToLast_def ok(2,3))
  qed
qed

lemma restart_before_zero:
  "iter_over xs rs it \<Longrightarrow> j < length rs \<Longrightarrow> restart_before it 0 j = None"
  by (induction j) (simp_all add: GetRestartPoint_nth)

lemma restart_before_pos:
  assumes "iter_over xs rs it" "j < length rs" "0 < i" "i < length xs"
  shows "\<exists>k. restart_before it (entry_offset xs i) j = Some k \<and> k < length rs \<and> rs ! k < i"
  using assms(2)
proof (induction j)
  case 0
  have "rs ! 0 = 0" using assms(1) restart_first by (auto simp: iter_over_def)
  then show ?case using 0 assms entry_offset_less [of 0 i xs] by (simp add: GetRestartPoint_nth [OF assms(1) 0])
next
  case (Suc j)
  have "rs ! Suc j \<le> length xs" using assms(1) restart_le(1) [OF _ Suc(2)] by (simp add: iter_over_def)
  then have "entry_offset xs i \<le> entry_offset xs (rs ! Suc j) \<longleftrightarrow> i \<le> rs ! Suc j"
    using entry_offset_le_iff assms(4) by simp
  with Suc show ?case by (auto simp: GetRestartPoint_nth [OF assms(1) Suc(2)])
qed

lemma Block_Prev_stands:
  assumes "block_stands xs rs it i" "i < length xs"
  shows "\<exists>it'. Block_Prev it = Some it' \<and> block_stands xs rs it' (if i = 0 then length xs else i - 1)"
proof -
  have p: "parsed xs rs it i" by (rule stands_parsed [OF assms])
  then have ov: "iter_over xs rs it" "bi_current it = entry_offset xs i" "bi_restart_index it < length rs"
    by (auto simp: parsed_def restart_ok_def)
  show ?thesis
  proof (cases "i = 0")
    case True
    then show ?thesis
      using restart_before_zero [OF ov(1,3)] ov assms(2)
      by (simp add: Block_Prev_def block_stands_def past_end_def iter_over_def)
  next
    case False
    then obtain k where k: "restart_before it (entry_offset xs i) (bi_restart_index it) = Some k" "k < length rs" "rs ! k < i"
      using restart_before_pos [OF ov(1,3) _ assms(2)] by auto
    from parse_before_stands [OF before_restart [OF ov(1) k(2)] k(3)] assms(2) k(1) False ov(2)
    show ?thesis by (auto simp: Block_Prev_def)
  qed
qed

section \<open>Seeking\<close>

lemma parse_until_stands:
  assumes "before_entry xs rs it i" "\<And>j. j < i \<Longrightarrow> Compare (fst (snd (xs ! j))) target < 0"
  shows "\<exists>it'. parse_until Compare target it = Some it' \<and>
    block_stands xs rs it' (seek_index Compare target (map snd xs))"
  using assms
proof (induction "length xs - i" arbitrary: it i)
  case 0
  then have i: "i = length xs" by (simp add: before_entry_def)
  have "seek_index Compare target (map snd xs) = length xs" using 0(3) i by (intro seek_indexI) auto
  with ParseNextKey_end [of xs rs it] 0(2) i show ?case by (subst parse_until.simps) (auto simp: block_stands_def)
next
  case (Suc k)
  then have i: "i < length xs" by simp
  from ParseNextKey_entry [OF Suc(3) i] obtain it' where
    it': "ParseNextKey it = Some (True, it')" "parsed xs rs it' i" by auto
  show ?case
  proof (cases "Compare (fst (snd (xs ! i))) target < 0")
    case True
    have "k = length xs - Suc i" using Suc(2) by simp
    from Suc(1) [OF this parsed_before [OF it'(2)]] Suc(4) True less_Suc_eq
    obtain it'' where "parse_until Compare target it' = Some it''"
      "block_stands xs rs it'' (seek_index Compare target (map snd xs))" by auto
    then show ?thesis using it' True by (subst parse_until.simps) (simp add: parsed_def)
  next
    case False
    then have "seek_index Compare target (map snd xs) = i" using Suc(4) i by (intro seek_indexI) auto
    then show ?thesis using it' False i by (subst parse_until.simps) (auto simp: parsed_def block_stands_def)
  qed
qed

lemma length_restarts:
  assumes "block_small xs rs"
  shows "length rs < 2 ^ 30"
  using assms by (simp add: block_small_def block_bytes_def)

lemma search_restarts_ok:
  assumes "iter_over xs rs it" "left \<le> right" "right < length rs"
    "left = 0 \<or> Compare (fst (snd (xs ! (rs ! left)))) target < 0"
  shows "\<exists>l < length rs. search_restarts Compare target it left right = Some (Some l) \<and>
    (l = 0 \<or> Compare (fst (snd (xs ! (rs ! l)))) target < 0)"
  using assms(2-)
proof (induction "right - left" arbitrary: left right rule: less_induct)
  case less
  show ?case
  proof (cases "left < right")
    case True
    have ok: "block_ok xs rs" "block_small xs rs" "bi_data it = block_bytes xs rs"
      "bi_restarts it = length (data_bytes xs)" using assms(1) by (auto simp: iter_over_def)
    define mid where "mid = (left + right + 1) div 2"
    have mid: "left < mid" "mid \<le> right" using True by (auto simp: mid_def)
    have small: "left + right + 1 < 2 ^ 32" "mid - 1 < 2 ^ 32" "mid + 2 ^ 32 - 1 = mid - 1 + 2 ^ 32"
      using length_restarts [OF ok(2)] less(3) True mid by auto
    then have wrap: "(left + right + 1) mod 2 ^ 32 div 2 = mid" "(mid + 2 ^ 32 - 1) mod 2 ^ 32 = mid - 1"
      by (simp_all only: mod_less mod_add_self2 mid_def)
    have ml: "mid < length rs" using mid(2) less(3) by simp
    have "0 < rs ! mid" using restart_mono [OF ok(1), of 0 mid] mid(1) ml by simp
    moreover have "mid < length rs \<Longrightarrow> rs ! mid = 0 \<or> rs ! mid < length xs" using ok(1) by (auto simp: block_ok_def)
    ultimately have e: "rs ! mid < length xs" using ml by simp
    then have ne: "xs \<noteq> []" by auto
    have z: "fst (xs ! (rs ! mid)) = 0" by (rule restart_le(3) [OF ok(1) ml ne])
    define k where "k = fst (snd (xs ! (rs ! mid)))"
    define p where "p = entry_offset xs (rs ! mid) + length (entry_head (xs ! (rs ! mid)))"
    have k: "unat (of_nat (length k) :: u32) = length k"
      using block_small_entry(1) [OF ok(2) e] by (intro unat_of_nat_small) (simp add: k_def)
    have sl: "take (length k) (drop p (block_bytes xs rs)) = k"
      using key_slice [OF e, of rs] by (simp add: z k_def p_def)
    have "\<not> p + length k > length (block_bytes xs rs)"
      using entry_offset_value [OF ok(1) e] entry_offset_le [of "Suc (rs ! mid)" xs] e
      by (simp add: p_def k_def z block_bytes_def)
    moreover have "DecodeEntry (block_bytes xs rs) (entry_offset xs (rs ! mid)) (length (data_bytes xs)) =
        Some (0, of_nat (length k), of_nat (length (snd (snd (xs ! (rs ! mid))))), p)"
      using DecodeEntry_entry [OF ok(1,2) e] by (simp add: z k_def p_def)
    ultimately have unfold: "search_restarts Compare target it left right =
        (if Compare k target < 0 then search_restarts Compare target it mid right
         else search_restarts Compare target it left (mid - 1))"
      using True GetRestartPoint_nth [OF assms(1) ml]
      by (subst search_restarts.simps) (simp only: wrap Let_def ok(3,4) k sl if_True option.case prod.case
        simp_thms if_False)
    show ?thesis
    proof (cases "Compare k target < 0")
      case c: True
      have "right - mid < right - left" using mid True by simp
      from less(1) [OF this mid(2) less(3)] c unfold show ?thesis by (simp add: k_def)
    next
      case c: False
      have "mid - 1 - left < right - left" "left \<le> mid - 1" "mid - 1 < length rs" using mid True ml by simp_all
      from less(1) [OF this less(4)] c unfold show ?thesis by simp
    qed
  next
    case False
    then have "left = right" using less(2) by simp
    then show ?thesis using less(3,4) by (subst search_restarts.simps) simp
  qed
qed

lemma Block_Seek_stands:
  assumes "iter_over xs rs it"
    "\<And>i j. i < j \<Longrightarrow> j < length xs \<Longrightarrow> Compare (fst (snd (xs ! j))) target < 0 \<Longrightarrow> Compare (fst (snd (xs ! i))) target < 0"
  shows "\<exists>it'. Block_Seek Compare target it = Some it' \<and>
    block_stands xs rs it' (seek_index Compare target (map snd xs))"
proof -
  have ok: "block_ok xs rs" "bi_num_restarts it = length rs" using assms(1) by (auto simp: iter_over_def)
  then have "length rs - 1 < length rs" using restart_first [OF ok(1)] by simp
  from search_restarts_ok [OF assms(1) le0 this] obtain l where
    l: "l < length rs" "search_restarts Compare target it 0 (length rs - 1) = Some (Some l)"
    "l = 0 \<or> Compare (fst (snd (xs ! (rs ! l)))) target < 0" by auto
  have "Compare (fst (snd (xs ! j))) target < 0" if "j < rs ! l" for j
  proof -
    have "rs ! l \<noteq> 0" using that by simp
    then have "l \<noteq> 0" using restart_first [OF ok(1)] by (cases l) auto
    moreover have "rs ! l < length xs" using l(1) ok(1) \<open>rs ! l \<noteq> 0\<close> unfolding block_ok_def by (metis nth_mem)
    ultimately show ?thesis using assms(2) [OF that] l(3) by simp
  qed
  from parse_until_stands [OF before_restart [OF assms(1) l(1)], of Compare target, OF this] show ?thesis
    using l(2) ok(2) by (simp add: Block_Seek_def)
qed

section \<open>The contract\<close>

text \<open>The iterator is one over a block of the entries \<open>es\<close>, in the order of the comparator.\<close>

definition block_over :: "(slice \<Rightarrow> bool) \<Rightarrow> (slice \<Rightarrow> slice \<Rightarrow> int) \<Rightarrow> entry list \<Rightarrow> block_iter \<Rightarrow> nat \<Rightarrow> bool" where
  "block_over valid Compare es it i \<longleftrightarrow>
     (\<exists>xs rs. map snd xs = es \<and> block_stands xs rs it i) \<and> sorted_entries Compare es \<and> (\<forall>e \<in> set es. valid (fst e))"

lemma block_overI:
  "map snd xs = es \<Longrightarrow> block_stands xs rs it i \<Longrightarrow> sorted_entries Compare es \<Longrightarrow> \<forall>e \<in> set es. valid (fst e) \<Longrightarrow>
    block_over valid Compare es it i"
  by (auto simp: block_over_def)

context comparator
begin

lemma seek_monotone:
  assumes "sorted_entries Compare es" "\<forall>e \<in> set es. valid (fst e)" "valid target" "i < j" "j < length es"
    "Compare (fst (es ! j)) target < 0"
  shows "Compare (fst (es ! i)) target < 0"
proof -
  have "Compare (fst (es ! i)) (fst (es ! j)) < 0"
    using assms(1,4,5) by (simp add: sorted_entries_def sorted_wrt_iff_nth_less)
  then show ?thesis using less_le_trans [of "fst (es ! i)" "fst (es ! j)" target] assms by simp
qed

lemma block_iterator: "iterator (block_iterator Compare) valid Compare (block_over valid Compare)"
proof
  fix es it i
  assume "block_over valid Compare es it i"
  then obtain xs rs where x: "es = map snd xs" "block_stands xs rs it i" "sorted_entries Compare es"
    "\<forall>e \<in> set es. valid (fst e)" by (auto simp: block_over_def)
  note over = block_overI [OF x(1) [symmetric] _ x(3,4)]
  have ov: "iter_over xs rs it" "i \<le> length xs" using block_stands_over [OF x(2)] by auto
  show "i \<le> length es" using ov(2) x(1) by simp
  show "Valid (block_iterator Compare) it \<longleftrightarrow> i < length es"
    using x(2) ov entry_offset_less [of i "length xs" xs] unfolding x(1)
    by (auto simp: block_iterator_def Block_Valid_def block_stands_def past_end_def parsed_def iter_over_def entry_offset_all
        split: if_splits)
  show "Status (block_iterator Compare) it = Status_OK"
    using ov(1) by (simp add: block_iterator_def iter_over_def)
  show "\<exists>it'. SeekToFirst (block_iterator Compare) it = Some it' \<and> block_over valid Compare es it' 0"
    using Block_SeekToFirst_stands [OF ov(1)] over by (auto simp: block_iterator_def)
  show "\<exists>it'. SeekToLast (block_iterator Compare) it = Some it' \<and> block_over valid Compare es it' (length es - 1)"
    using Block_SeekToLast_stands [OF ov(1)] over unfolding x(1) by (auto simp: block_iterator_def)
  {
    fix target
    assume t: "valid target"
    show "\<exists>it'. Seek (block_iterator Compare) target it = Some it' \<and>
        block_over valid Compare es it' (seek_index Compare target es)"
      using Block_Seek_stands [OF ov(1), of Compare target] seek_monotone [OF x(3,4) t] over unfolding x(1)
      by (auto simp: block_iterator_def)
  }
  assume i: "i < length es"
  then have i': "i < length xs" using x(1) by simp
  note p = stands_parsed [OF x(2) i']
  show "Key (block_iterator Compare) it = fst (es ! i)"
    using p i' by (simp add: block_iterator_def Block_key_def parsed_def x(1))
  show "Value (block_iterator Compare) it = snd (es ! i)"
    using p i' Block_value_parsed [OF p] by (simp add: block_iterator_def x(1))
  show "\<exists>it'. Next (block_iterator Compare) it = Some it' \<and> block_over valid Compare es it' (Suc i)"
    using Block_Next_stands [OF x(2) i'] over by (auto simp: block_iterator_def)
  show "\<exists>it'. Prev (block_iterator Compare) it = Some it' \<and> block_over valid Compare es it' (prev_index i es)"
    using Block_Prev_stands [OF x(2) i'] over unfolding x(1) by (auto simp: block_iterator_def prev_index_def)
qed

end

interpretation block_iter: iterator "block_iterator slice_compare" "\<lambda>_. True" slice_compare
  "block_over (\<lambda>_. True) slice_compare"
  by (rule bytewise.block_iterator)

interpretation internal_block_iter: iterator "block_iterator (InternalKey_Compare slice_compare)"
  "internal_valid (\<lambda>_. True)" "InternalKey_Compare slice_compare"
  "block_over (internal_valid (\<lambda>_. True)) (InternalKey_Compare slice_compare)"
  by (rule internal_bytewise.block_iterator)

section \<open>From the builder to the iterator\<close>

lemma Block_block_bytes:
  assumes "block_ok xs rs" "block_small xs rs"
  shows "Block unset (block_bytes xs rs) =
      \<lparr>block_data = block_bytes xs rs, block_size = length (block_bytes xs rs), restart_offset = length (data_bytes xs)\<rparr>"
    "NumRestarts (Block unset (block_bytes xs rs)) = length rs"
proof -
  have len: "length (block_bytes xs rs) = length (data_bytes xs) + 4 * length rs + 4"
    by (simp add: block_bytes_def)
  have small: "length (block_bytes xs rs) < 2 ^ 32" using assms(2) by (simp add: block_small_def)
  have u: "unat (of_nat (length rs) :: u32) = length rs"
    using length_restarts [OF assms(2)] by (intro unat_of_nat_small) simp
  have "drop (length (block_bytes xs rs) - 4) (block_bytes xs rs) = to_le 4 (unat (of_nat (length rs) :: u32))"
    unfolding u by (simp add: block_bytes_def del: to_le.simps)
  then have n: "NumRestarts \<lparr>block_data = block_bytes xs rs, block_size = length (block_bytes xs rs), restart_offset = r\<rparr> =
      length rs" for r
    using DecodeFixed32_to_le [of kLittleEndian "of_nat (length rs)" "[]"] u
    by (simp add: NumRestarts_def del: to_le.simps)
  have arith: "\<not> length (block_bytes xs rs) < 4" "\<not> length rs > (length (block_bytes xs rs) - 4) div 4"
    "(length (block_bytes xs rs) - (1 + length rs) mod 2 ^ 32 * 4) mod 2 ^ 32 = length (data_bytes xs)"
    using len small length_restarts [OF assms(2)] by auto
  show "Block unset (block_bytes xs rs) =
      \<lparr>block_data = block_bytes xs rs, block_size = length (block_bytes xs rs), restart_offset = length (data_bytes xs)\<rparr>"
    unfolding Block_def Let_def block.simps n using arith by simp
  then show "NumRestarts (Block unset (block_bytes xs rs)) = length rs" by (simp only: n)
qed

lemma NewIterator_block_bytes:
  assumes "block_ok xs rs" "block_small xs rs"
  shows "\<exists>it. Block_NewIterator (Block unset (block_bytes xs rs)) = Inr it \<and> block_stands xs rs it (length xs)"
proof -
  have "length (block_bytes xs rs) \<ge> 4" "rs \<noteq> []"
    using assms(1) by (auto simp: block_bytes_def block_ok_def)
  then show ?thesis
    using assms unfolding Block_NewIterator_def Block_block_bytes(2) [OF assms] Let_def
    by (simp add: Block_block_bytes(1) [OF assms] block_stands_def past_end_def iter_over_def Block_Iter_def)
qed

definition built_block :: "nat \<Rightarrow> entry list \<Rightarrow> byte list" where
  "built_block interval es = fst (BlockBuilder_Finish (add_entries interval es BlockBuilder))"

text \<open>Sizes of a block that fit its 32-bit fields.\<close>

definition block_fits :: "nat \<Rightarrow> entry list \<Rightarrow> bool" where
  "block_fits interval es \<longleftrightarrow> length (built_block interval es) < 2 ^ 32 \<and>
     (\<forall>e \<in> set es. length (fst e) < 2 ^ 32 \<and> length (snd e) < 2 ^ 32)"

lemma built_block_bytes:
  assumes "1 \<le> interval" "block_fits interval es"
  shows "\<exists>xs rs. built_block interval es = block_bytes xs rs \<and> map snd xs = es \<and> block_ok xs rs \<and> block_small xs rs"
proof -
  from built_add_entries [OF built_new assms(1), of es] assms(2) obtain xs where
    xs: "built interval xs (add_entries interval es BlockBuilder)" "map snd xs = es"
    by (auto simp: block_fits_def case_prod_beta)
  define rs where "rs = restart_indices interval (length xs)"
  have "length (built_block interval es) = length (data_bytes xs) + 4 * length rs + 4"
    using xs(1) by (simp add: built_block_def BlockBuilder_Finish_def Let_def fold_PutFixed32 built_def rs_def
        PutFixed32_def [of _ "of_nat _"] del: to_le.simps)
  then have "length rs < 2 ^ 32" using assms(2) by (simp add: block_fits_def)
  from Finish_block_bytes [OF xs(1) this [unfolded rs_def]]
  have eq: "built_block interval es = block_bytes xs rs" by (simp add: built_block_def rs_def)
  moreover have "block_small xs rs"
    using assms(2) eq xs(2) unfolding block_small_def block_fits_def by (metis image_eqI set_map)
  ultimately show ?thesis using xs by (auto simp: built_def rs_def)
qed

lemma built_block_over:
  assumes "1 \<le> interval" "block_fits interval es" "sorted_entries Compare es" "\<forall>e \<in> set es. valid (fst e)"
  shows "\<exists>it. Block_NewIterator (Block unset (built_block interval es)) = Inr it \<and> block_over valid Compare es it (length es)"
proof -
  from built_block_bytes [OF assms(1,2)] obtain xs rs where
    b: "built_block interval es = block_bytes xs rs" "map snd xs = es" "block_ok xs rs" "block_small xs rs" by blast
  from NewIterator_block_bytes [OF b(3,4)] obtain it where
    it: "Block_NewIterator (Block unset (built_block interval es)) = Inr it" "block_stands xs rs it (length xs)"
    unfolding b(1) by blast
  have "length xs = length es" using b(2) by auto
  with block_overI [OF b(2) it(2) assms(3,4)] it(1) show ?thesis by auto
qed

text \<open>
  C8. A block read back shows the entries that were added to its builder: when keys are added in the strictly
  increasing order of a comparator, with any restart interval, the iterator over the finished block follows a
  cursor over the list of entries through every sequence of \<open>SeekToFirst\<close>, \<open>SeekToLast\<close>, \<open>Seek\<close>, \<open>Next\<close>
  and \<open>Prev\<close>, with the keys and values of the list and status OK.
\<close>

theorem block_shows_entries:
  assumes "comparator valid Compare Separator Successor" "1 \<le> interval" "block_fits interval es"
    "sorted_entries Compare es" "\<forall>e \<in> set es. valid (fst e)"
  shows "\<exists>it. Block_NewIterator (Block unset (built_block interval es)) = Inr it \<and>
    shows_entries (block_iterator Compare) valid Compare es it"
  using built_block_over [where Compare = Compare and valid = valid, OF assms(2-5), of unset]
    iterator.stands_shows [OF comparator.block_iterator [OF assms(1)]] by blast

lemma block_shows_entries_witness:
  "\<exists>it. Block_NewIterator (Block 0 (built_block 2 [([97], [1]), ([97, 98], [2]), ([98], [])])) = Inr it \<and>
    shows_entries (block_iterator slice_compare) (\<lambda>_. True) slice_compare [([97], [1]), ([97, 98], [2]), ([98], [])] it"
proof (rule block_shows_entries [OF bytewise.comparator_axioms])
  show "block_fits 2 [([97], [1]), ([97, 98], [2]), ([98], [])]"
    by (simp add: block_fits_def built_block_def add_entries_def BlockBuilder_def BlockBuilder_Add_def Let_def
        BlockBuilder_Finish_def PutVarint32_bytes PutFixed32_def varint_bytes_small)
  show "sorted_entries slice_compare [([97], [1]), ([97, 98], [2]), ([98], [])]"
    by (simp add: sorted_entries_def slice_compare_lex)
qed simp_all

section \<open>Lengths that wrap around\<close>

text \<open>
  \<open>DecodeEntry\<close> compares the bytes that are left with the 32-bit sum of the two lengths: an entry that claims a
  key of \<open>2 ^ 32 - 1\<close> bytes and a value of one byte passes the check, and the copy of its key runs out of the
  block.
\<close>

definition wrapping_block :: "byte list" where
  "wrapping_block = [0, 0xff, 0xff, 0xff, 0xff, 0x0f, 1] @ [0, 0, 0, 0] @ [1, 0, 0, 0]"

lemma block_length_wrap:
  "\<exists>it. Block_NewIterator (Block 0 wrapping_block) = Inr it \<and> Block_SeekToFirst it = None"
proof -
  have len: "length wrapping_block = 15" by (simp add: wrapping_block_def)
  have n: "NumRestarts \<lparr>block_data = wrapping_block, block_size = 15, restart_offset = r\<rparr> = 1" for r
    by (simp add: NumRestarts_def wrapping_block_def)
  have "Block 0 wrapping_block = \<lparr>block_data = wrapping_block, block_size = 15, restart_offset = 7\<rparr>"
    using n len by (simp add: Block_def Let_def)
  then have it: "Block_NewIterator (Block 0 wrapping_block) = Inr (Block_Iter wrapping_block 7 1)"
    using n by (simp add: Block_NewIterator_def Let_def)
  have "DecodeEntry wrapping_block 0 7 = Some (0, 0xffffffff, 1, 7)"
    by (simp add: DecodeEntry_def wrapping_block_def GetVarint32Ptr_def GetVarint32PtrFallback_def Let_def)
  then have "Block_SeekToFirst (Block_Iter wrapping_block 7 1) = None"
    by (simp add: Block_SeekToFirst_def ParseNextKey_def SeekToRestartPoint_def GetRestartPoint_def NextEntryOffset_def
        Block_Iter_def Let_def) (simp add: wrapping_block_def)
  with it show ?thesis by blast
qed

end
