(* ===== verification/MergingProps.thy ===== *)
theory MergingProps
  imports MergingIterator BlockProps
begin

text \<open>
  The merging iterator keeps the contract of iterators over the sorted union of its children's entries.

  The union is a sorted list of entries with the list of their owners: entry \<open>m\<close> belongs to child \<open>os ! m\<close>.
\<close>

section \<open>Entries and their owners\<close>

definition child_entries :: "nat list \<Rightarrow> entry list \<Rightarrow> nat \<Rightarrow> entry list" where
  "child_entries os es c = map snd (filter (\<lambda>p. fst p = c) (zip os es))"

definition child_pos :: "nat list \<Rightarrow> nat \<Rightarrow> nat \<Rightarrow> nat" where
  "child_pos os m c = length (filter (\<lambda>x. x = c) (take m os))"

lemma filter_nth:
  "p < length (filter P xs) \<Longrightarrow> \<exists>m < length xs. P (xs ! m) \<and> length (filter P (take m xs)) = p \<and> filter P xs ! p = xs ! m"
proof (induction xs arbitrary: p)
  case (Cons x xs)
  show ?case
  proof (cases "P x \<and> p = 0")
    case True
    then show ?thesis by (intro exI [of _ 0]) auto
  next
    case False
    define q where "q = (if P x then p - 1 else p)"
    have "q < length (filter P xs)" using Cons.prems False by (auto simp: q_def)
    from Cons.IH [OF this] obtain m where
      "m < length xs" "P (xs ! m)" "length (filter P (take m xs)) = q" "filter P xs ! q = xs ! m" by auto
    then show ?thesis using False by (intro exI [of _ "Suc m"]) (auto simp: q_def nth_Cons')
  qed
qed simp

lemma child_pos_zip:
  fixes es :: "entry list"
  assumes len: "length os = length es"
  shows "child_pos os m c = length (filter (\<lambda>p. fst p = c) (take m (zip os es)))"
proof -
  have "filter (\<lambda>x. x = c) (map fst xs) = map fst (filter (\<lambda>p. fst p = c) xs)" for xs :: "(nat \<times> entry) list"
    by (induction xs) auto
  note f = this [of "take m (zip os es)"]
  have "map fst (take m (zip os es)) = take m os" using len by (simp add: take_map [symmetric])
  with f have "filter (\<lambda>x. x = c) (take m os) = map fst (filter (\<lambda>p. fst p = c) (take m (zip os es)))" by simp
  then show ?thesis by (simp add: child_pos_def)
qed

lemma child_pos_0 [simp]: "child_pos os 0 c = 0"
  by (simp add: child_pos_def)

lemma child_pos_Suc: "m < length os \<Longrightarrow> child_pos os (Suc m) c = child_pos os m c + (if os ! m = c then 1 else 0)"
  by (simp add: child_pos_def take_Suc_conv_app_nth)

lemma child_pos_mono: "m \<le> k \<Longrightarrow> child_pos os m c \<le> child_pos os k c"
proof -
  assume "m \<le> k"
  then have "take k os = take m os @ take (k - m) (drop m os)" by (metis le_add_diff_inverse take_add)
  then show ?thesis by (simp add: child_pos_def)
qed

lemma length_child_entries: "length os = length es \<Longrightarrow> length (child_entries os es c) = child_pos os (length es) c"
  using child_pos_zip [of os es "length es" c] by (simp add: child_entries_def)

lemma child_pos_le: "length os = length es \<Longrightarrow> child_pos os m c \<le> length (child_entries os es c)"
  using child_pos_mono [of m "length es" os c] child_pos_mono [of "length es" m os c]
  by (cases "m \<le> length es") (simp_all add: length_child_entries child_pos_def)

lemma child_entries_nth:
  assumes "length os = length es" "m < length es" "os ! m = c"
  shows "child_pos os m c < length (child_entries os es c)" "child_entries os es c ! child_pos os m c = es ! m"
proof -
  have z: "zip os es = take m (zip os es) @ (c, es ! m) # drop (Suc m) (zip os es)"
    using id_take_nth_drop [of m "zip os es"] assms by simp
  define a b where "a = filter (\<lambda>p. fst p = c) (take m (zip os es))" and "b = filter (\<lambda>p. fst p = c) (drop (Suc m) (zip os es))"
  have "filter (\<lambda>p. fst p = c) (zip os es) = a @ (c, es ! m) # b"
    by (subst z) (simp add: a_def b_def)
  moreover have "child_pos os m c = length a" using child_pos_zip [OF assms(1)] by (simp add: a_def)
  ultimately show "child_pos os m c < length (child_entries os es c)" "child_entries os es c ! child_pos os m c = es ! m"
    by (simp_all add: child_entries_def nth_append)
qed

lemma child_entries_index:
  assumes "length os = length es" "p < length (child_entries os es c)"
  shows "\<exists>m < length es. os ! m = c \<and> child_pos os m c = p \<and> child_entries os es c ! p = es ! m"
proof -
  from assms(2) have "p < length (filter (\<lambda>p. fst p = c) (zip os es))" by (simp add: child_entries_def)
  from filter_nth [OF this] obtain m where "m < length (zip os es)" "fst (zip os es ! m) = c"
    "length (filter (\<lambda>p. fst p = c) (take m (zip os es))) = p" by blast
  then have "m < length es" "os ! m = c" "child_pos os m c = p"
    using assms(1) child_pos_zip [OF assms(1)] by simp_all
  then show ?thesis using child_entries_nth [OF assms(1)] by blast
qed

text \<open>The entry at the position of \<open>m\<close> or later belongs to index \<open>m\<close> or later, one before it to an earlier index.\<close>

lemma child_pos_less_iff:
  assumes "k < length os" "os ! k = c"
  shows "child_pos os k c < child_pos os m c \<longleftrightarrow> k < m"
proof
  assume "k < m"
  then show "child_pos os k c < child_pos os m c"
    using child_pos_mono [of "Suc k" m os c] child_pos_Suc [OF assms(1)] assms(2) by simp
next
  assume "child_pos os k c < child_pos os m c"
  then show "k < m" using child_pos_mono [of m k os c] by (cases "k < m") auto
qed

section \<open>Choosing a child\<close>

definition pick :: "(nat \<Rightarrow> bool) \<Rightarrow> (nat \<Rightarrow> nat \<Rightarrow> bool) \<Rightarrow> nat option \<Rightarrow> nat list \<Rightarrow> nat option" where
  "pick V R b xs = fold (\<lambda>i best. if V i then (case best of None \<Rightarrow> Some i | Some s \<Rightarrow> if R i s then Some i else best)
     else best) xs b"

lemma pick_simps [simp]:
  "pick V R b [] = b"
  "pick V R b (i # xs) = pick V R (if V i then (case b of None \<Rightarrow> Some i | Some s \<Rightarrow> if R i s then Some i else b) else b) xs"
  by (simp_all add: pick_def)

lemma pick_None: "\<forall>i \<in> set xs. \<not> V i \<Longrightarrow> pick V R b xs = b"
  by (induction xs) simp_all

lemma pick_cong: "(\<And>i. i \<in> set xs \<Longrightarrow> V i = V' i) \<Longrightarrow> pick V R b xs = pick V' R b xs"
  by (induction xs arbitrary: b) simp_all

lemma pick_best:
  fixes f :: "nat \<Rightarrow> int"
  assumes "\<And>i s. V i \<Longrightarrow> V s \<Longrightarrow> R i s \<longleftrightarrow> f i < f s" "\<And>i. V i \<Longrightarrow> i \<noteq> c \<Longrightarrow> f c < f i" "V c"
    "c \<in> set xs \<or> b = Some c" "\<forall>s. b = Some s \<longrightarrow> V s"
  shows "pick V R b xs = Some c"
  using assms(4,5)
proof (induction xs arbitrary: b)
  case (Cons i xs)
  define b' where "b' = (if V i then (case b of None \<Rightarrow> Some i | Some s \<Rightarrow> if R i s then Some i else b) else b)"
  have "b' = Some c" if c: "c = i"
  proof (cases b)
    case None
    then show ?thesis using c assms(3) by (simp add: b'_def)
  next
    case (Some s)
    then have "s = c \<or> R c s" using assms(1) [of c s] assms(2) [of s] assms(3) Cons.prems(2) by blast
    then show ?thesis using Some c assms(3) by (auto simp: b'_def)
  qed
  moreover have "b' = Some c" if b: "b = Some c" "c \<noteq> i"
  proof -
    have "V i \<Longrightarrow> \<not> R i c" using assms(1) [of i c] assms(2) [of i] assms(3) b(2) by force
    then show ?thesis using b(1) by (simp add: b'_def)
  qed
  ultimately have "c \<in> set xs \<or> b' = Some c" using Cons.prems(1) by auto
  moreover have "\<forall>s. b' = Some s \<longrightarrow> V s"
    using Cons.prems(2) unfolding b'_def by (simp split: option.splits)
  ultimately have "pick V R b' xs = Some c" by (rule Cons.IH)
  then show ?case by (simp only: pick_simps b'_def)
next
  case Nil
  then show ?case by simp
qed

lemma FindSmallest_pick:
  "FindSmallest Compare m = m\<lparr>merge_current := pick (\<lambda>i. wrapped_valid (merge_children m ! i))
     (\<lambda>i s. Compare (wrapped_key (merge_children m ! i)) (wrapped_key (merge_children m ! s)) < 0) None
     [0..<length (merge_children m)]\<rparr>"
  by (simp only: FindSmallest_def pick_def Let_def)

lemma FindLargest_pick:
  "FindLargest Compare m = m\<lparr>merge_current := pick (\<lambda>i. wrapped_valid (merge_children m ! i))
     (\<lambda>i s. Compare (wrapped_key (merge_children m ! i)) (wrapped_key (merge_children m ! s)) > 0) None
     (rev [0..<length (merge_children m)])\<rparr>"
  by (simp only: FindLargest_def pick_def Let_def)

lemma each_child_all:
  assumes "\<And>i. i < length ws \<Longrightarrow> \<exists>w'. f (k + i) (ws ! i) = Some w' \<and> Q (k + i) w'"
  shows "\<exists>ws'. each_child f k ws = Some ws' \<and> length ws' = length ws \<and> (\<forall>i < length ws. Q (k + i) (ws' ! i))"
  using assms
proof (induction ws arbitrary: k)
  case (Cons w ws)
  from Cons.prems [of 0] obtain w' where w': "f k w = Some w'" "Q k w'" by auto
  have "\<exists>w'. f (Suc k + i) (ws ! i) = Some w' \<and> Q (Suc k + i) w'" if "i < length ws" for i
    using Cons.prems [of "Suc i"] that by simp
  from Cons.IH [OF this] obtain ws' where
    "each_child f (Suc k) ws = Some ws'" "length ws' = length ws" "\<forall>i < length ws. Q (Suc k + i) (ws' ! i)" by auto
  with w' show ?case by (intro exI [of _ "w' # ws'"]) (auto simp: nth_Cons split: nat.splits)
qed simp

section \<open>Wrapped children\<close>

definition wrapped_at :: "'it iterator_class \<Rightarrow> (entry list \<Rightarrow> 'it \<Rightarrow> nat \<Rightarrow> bool) \<Rightarrow> entry list \<Rightarrow> 'it wrapper \<Rightarrow> nat \<Rightarrow> bool" where
  "wrapped_at I stands es w i \<longleftrightarrow> (\<exists>it. wrapped w = Some it \<and> stands es it i \<and> wrapped_valid w = Valid I it \<and>
     (wrapped_valid w \<longrightarrow> wrapped_key w = Key I it))"

lemma wrapped_at_Update: "stands es it i \<Longrightarrow> wrapped_at I stands es (wrapper_Update I it w) i"
  by (simp add: wrapped_at_def wrapper_Update_def Let_def)

context iterator
begin

lemma wrapped_at_valid:
  assumes "wrapped_at I stands es w i"
  shows "i \<le> length es" "wrapped_valid w \<longleftrightarrow> i < length es" "i < length es \<Longrightarrow> wrapped_key w = fst (es ! i)"
    "i < length es \<Longrightarrow> wrapper_value I w = snd (es ! i)" "wrapper_status I w = Status_OK"
  using assms Valid_iff Key_nth Value_nth Status_OK stands_le
  by (auto simp: wrapped_at_def wrapper_value_def wrapper_status_def)

lemma wrapper_move_at:
  assumes "wrapped_at I stands es w i" "\<And>it. stands es it i \<Longrightarrow> \<exists>it'. f it = Some it' \<and> stands es it' j"
  shows "\<exists>w'. wrapper_move I f w = Some w' \<and> wrapped_at I stands es w' j"
proof -
  from assms(1) obtain it where it: "wrapped w = Some it" "stands es it i" by (auto simp: wrapped_at_def)
  from assms(2) [OF it(2)] obtain it' where "f it = Some it'" "stands es it' j" by blast
  then show ?thesis using it(1) wrapped_at_Update [of stands es it' j I w] by (simp add: wrapper_move_def)
qed

lemma wrapper_at:
  assumes "wrapped_at I stands es w i"
  shows "\<exists>w'. wrapper_SeekToFirst I w = Some w' \<and> wrapped_at I stands es w' 0"
    "\<exists>w'. wrapper_SeekToLast I w = Some w' \<and> wrapped_at I stands es w' (length es - 1)"
    "valid target \<Longrightarrow> \<exists>w'. wrapper_Seek I target w = Some w' \<and> wrapped_at I stands es w' (seek_index Compare target es)"
    "i < length es \<Longrightarrow> \<exists>w'. wrapper_Next I w = Some w' \<and> wrapped_at I stands es w' (Suc i)"
    "i < length es \<Longrightarrow> \<exists>w'. wrapper_Prev I w = Some w' \<and> wrapped_at I stands es w' (prev_index i es)"
  unfolding wrapper_SeekToFirst_def wrapper_SeekToLast_def wrapper_Seek_def wrapper_Next_def wrapper_Prev_def
  by (rule wrapper_move_at [OF assms SeekToFirst] wrapper_move_at [OF assms SeekToLast] wrapper_move_at [OF assms Seek]
      wrapper_move_at [OF assms Next] wrapper_move_at [OF assms Prev]; assumption)+

end

section \<open>Positions of the merging iterator\<close>

definition owners_ok :: "(slice \<Rightarrow> bool) \<Rightarrow> (slice \<Rightarrow> slice \<Rightarrow> int) \<Rightarrow> nat \<Rightarrow> nat list \<Rightarrow> entry list \<Rightarrow> bool" where
  "owners_ok valid Compare n os es \<longleftrightarrow> length os = length es \<and> (\<forall>c \<in> set os. c < n) \<and> sorted_entries Compare es \<and>
     (\<forall>e \<in> set es. valid (fst e))"

definition children_at ::
  "'it iterator_class \<Rightarrow> (entry list \<Rightarrow> 'it \<Rightarrow> nat \<Rightarrow> bool) \<Rightarrow> nat list \<Rightarrow> entry list \<Rightarrow> (nat \<Rightarrow> nat) \<Rightarrow> 'it wrapper list \<Rightarrow> bool"
where
  "children_at I stands os es p ws \<longleftrightarrow> (\<forall>c < length ws. wrapped_at I stands (child_entries os es c) (ws ! c) (p c))"

text \<open>The last entry of child \<open>c\<close> before index \<open>m\<close>.\<close>

definition child_before_pos :: "nat list \<Rightarrow> entry list \<Rightarrow> nat \<Rightarrow> nat \<Rightarrow> nat" where
  "child_before_pos os es m c = prev_index (child_pos os m c) (child_entries os es c)"

definition reverse_pos :: "nat list \<Rightarrow> entry list \<Rightarrow> nat \<Rightarrow> nat \<Rightarrow> nat" where
  "reverse_pos os es m c = (if os ! m = c then child_pos os m c else child_before_pos os es m c)"

definition merging_over ::
  "'it iterator_class \<Rightarrow> (entry list \<Rightarrow> 'it \<Rightarrow> nat \<Rightarrow> bool) \<Rightarrow> (slice \<Rightarrow> bool) \<Rightarrow> (slice \<Rightarrow> slice \<Rightarrow> int) \<Rightarrow> nat list \<Rightarrow> entry list \<Rightarrow>
    'it merging \<Rightarrow> nat \<Rightarrow> bool"
where
  "merging_over I stands valid Compare os es m k \<longleftrightarrow>
     owners_ok valid Compare (length (merge_children m)) os es \<and> k \<le> length es \<and>
     (\<exists>p. children_at I stands os es p (merge_children m)) \<and>
     merge_current m = (if k < length es then Some (os ! k) else None) \<and>
     (k < length es \<longrightarrow> children_at I stands os es
        (if merge_direction m = kForward then child_pos os k else reverse_pos os es k) (merge_children m))"

locale merging_children = comparator valid Compare Separator Successor + iterator I valid Compare stands
  for valid Compare Separator Successor and I :: "'it iterator_class" and stands
begin

abbreviation (input) at_pos :: "nat list \<Rightarrow> entry list \<Rightarrow> (nat \<Rightarrow> nat) \<Rightarrow> 'it wrapper list \<Rightarrow> bool" where
  "at_pos \<equiv> children_at I stands"

lemma sorted_less_iff:
  assumes "sorted_entries Compare es" "\<forall>e \<in> set es. valid (fst e)" "a < length es" "b < length es"
  shows "Compare (fst (es ! a)) (fst (es ! b)) < 0 \<longleftrightarrow> a < b" "Compare (fst (es ! a)) (fst (es ! b)) > 0 \<longleftrightarrow> b < a"
proof -
  have less: "Compare (fst (es ! i)) (fst (es ! j)) < 0" if "i < j" "j < length es" for i j
    using assms(1) that by (simp add: sorted_entries_def sorted_wrt_iff_nth_less)
  have v: "valid (fst (es ! a))" "valid (fst (es ! b))" using assms by auto
  note s = sym [OF v] sym [OF v(2,1)]
  consider "a < b" | "a = b" | "b < a" by linarith
  then have "(Compare (fst (es ! a)) (fst (es ! b)) < 0 \<longleftrightarrow> a < b) \<and> (Compare (fst (es ! a)) (fst (es ! b)) > 0 \<longleftrightarrow> b < a)"
  proof cases
    case 1
    then show ?thesis using less [of a b] assms(4) by simp
  next
    case 2
    then show ?thesis using refl [OF v(1)] by simp
  next
    case 3
    then show ?thesis using less [of b a] assms(3) s by simp
  qed
  then show "Compare (fst (es ! a)) (fst (es ! b)) < 0 \<longleftrightarrow> a < b" "Compare (fst (es ! a)) (fst (es ! b)) > 0 \<longleftrightarrow> b < a"
    by blast+
qed

lemma seek_child:
  assumes "owners_ok valid Compare n os es" "valid target"
  shows "seek_index Compare target (child_entries os es c) = child_pos os (seek_index Compare target es) c"
proof (rule seek_indexI)
  have ok: "length os = length es" "sorted_entries Compare es" "\<forall>e \<in> set es. valid (fst e)"
    using assms(1) by (auto simp: owners_ok_def)
  define s where "s = seek_index Compare target es"
  show "child_pos os (seek_index Compare target es) c \<le> length (child_entries os es c)" by (rule child_pos_le [OF ok(1)])
  {
    fix i
    assume i: "i < child_pos os (seek_index Compare target es) c"
    then have "i < length (child_entries os es c)" using child_pos_le [OF ok(1)] order.strict_trans2 by blast
    from child_entries_index [OF ok(1) this] obtain k where
      k: "k < length es" "os ! k = c" "child_pos os k c = i" "child_entries os es c ! i = es ! k" by blast
    then have "k < seek_index Compare target es" using i child_pos_less_iff [of k os c] ok(1) by simp
    then show "Compare (fst (child_entries os es c ! i)) target < 0" using k(4) seek_index_less by simp
  }
  assume "child_pos os (seek_index Compare target es) c < length (child_entries os es c)"
  from child_entries_index [OF ok(1) this] obtain k where
    k: "k < length es" "os ! k = c" "child_pos os k c = child_pos os s c"
    "child_entries os es c ! child_pos os s c = es ! k" by (auto simp: s_def)
  have sk: "s \<le> k" using child_pos_less_iff [of k os c s] k ok(1) by simp
  then have "0 \<le> Compare (fst (es ! s)) target" using seek_index_here [of Compare target es] k(1) by (simp add: s_def)
  then have "\<not> Compare (fst (es ! k)) target < 0"
    using seek_monotone [OF ok(2,3) assms(2), of s k] sk k(1) by (cases "s = k") auto
  then show "0 \<le> Compare (fst (child_entries os es c ! child_pos os (seek_index Compare target es) c)) target"
    using k(4) by (simp add: s_def)
qed

lemma seek_self:
  assumes "owners_ok valid Compare n os es" "k < length es"
  shows "seek_index Compare (fst (es ! k)) es = k"
proof (rule seek_indexI)
  have ok: "sorted_entries Compare es" "\<forall>e \<in> set es. valid (fst e)" using assms(1) by (auto simp: owners_ok_def)
  show "k \<le> length es" using assms(2) by simp
  show "Compare (fst (es ! i)) (fst (es ! k)) < 0" if "i < k" for i
    using sorted_less_iff(1) [OF ok, of i k] that assms(2) by simp
  show "0 \<le> Compare (fst (es ! k)) (fst (es ! k))" using refl ok(2) assms(2) by simp
qed

text \<open>A valid child has the key of an entry of the union.\<close>

lemma child_key:
  assumes "owners_ok valid Compare (length ws) os es" "at_pos os es p ws" "c < length ws" "wrapped_valid (ws ! c)"
  shows "\<exists>k < length es. os ! k = c \<and> child_pos os k c = p c \<and> wrapped_key (ws ! c) = fst (es ! k)"
proof -
  have w: "wrapped_at I stands (child_entries os es c) (ws ! c) (p c)" using assms(2,3) by (simp add: children_at_def)
  then have "p c < length (child_entries os es c)" using wrapped_at_valid(2) [OF w] assms(4) by simp
  with child_entries_index [of os es "p c" c] wrapped_at_valid(3) [OF w] assms(1) show ?thesis
    by (auto simp: owners_ok_def)
qed

lemma pick_child:
  assumes "owners_ok valid Compare (length ws) os es" "at_pos os es p ws" "\<sigma> = 1 \<or> \<sigma> = - 1"
    "set xs = {..<length ws}" "k < length es" "p (os ! k) = child_pos os k (os ! k)"
    "\<And>c j. wrapped_valid (ws ! c) \<Longrightarrow> j < length es \<Longrightarrow> os ! j = c \<Longrightarrow> child_pos os j c = p c \<Longrightarrow> \<sigma> * int k \<le> \<sigma> * int j"
  shows "pick (\<lambda>i. wrapped_valid (ws ! i) \<and> i < length ws) (\<lambda>i s. \<sigma> * Compare (wrapped_key (ws ! i)) (wrapped_key (ws ! s)) < 0)
    None xs = Some (os ! k)"
proof -
  have ok: "length os = length es" "sorted_entries Compare es" "\<forall>e \<in> set es. valid (fst e)" "os ! k < length ws"
    using assms(1,5) by (auto simp: owners_ok_def)
  define f where "f i = (SOME j. j < length es \<and> os ! j = i \<and> child_pos os j i = p i \<and> wrapped_key (ws ! i) = fst (es ! j))" for i
  have f: "f i < length es \<and> os ! f i = i \<and> child_pos os (f i) i = p i \<and> wrapped_key (ws ! i) = fst (es ! f i)"
    if "wrapped_valid (ws ! i) \<and> i < length ws" for i
    unfolding f_def by (rule someI_ex) (use child_key [OF assms(1,2)] that in blast)
  have w: "wrapped_at I stands (child_entries os es (os ! k)) (ws ! (os ! k)) (p (os ! k))"
    using assms(2) ok(4) by (simp add: children_at_def)
  have v: "wrapped_valid (ws ! (os ! k)) \<and> os ! k < length ws"
    using wrapped_at_valid(2) [OF w] child_entries_nth(1) [OF ok(1) assms(5) HOL.refl] assms(6) ok(4) by simp
  have fk: "f (os ! k) = k"
  proof -
    have "\<not> f (os ! k) < k" "\<not> k < f (os ! k)"
      using f [OF v] child_pos_less_iff [of "f (os ! k)" os "os ! k" k] child_pos_less_iff [of k os "os ! k" "f (os ! k)"]
        assms(5,6) ok(1) by auto
    then show ?thesis by simp
  qed
  show ?thesis
  proof (rule pick_best [where f = "\<lambda>i. \<sigma> * int (f i)"])
    show "wrapped_valid (ws ! (os ! k)) \<and> os ! k < length ws" by (rule v)
    show "os ! k \<in> set xs \<or> None = Some (os ! k)" using assms(4) ok(4) by simp
    fix i
    assume i: "wrapped_valid (ws ! i) \<and> i < length ws"
    {
      fix s
      assume s: "wrapped_valid (ws ! s) \<and> s < length ws"
      show "\<sigma> * Compare (wrapped_key (ws ! i)) (wrapped_key (ws ! s)) < 0 \<longleftrightarrow> \<sigma> * int (f i) < \<sigma> * int (f s)"
        using sorted_less_iff [OF ok(2,3), of "f i" "f s"] f [OF i] f [OF s] assms(3) by auto
    }
    assume "i \<noteq> os ! k"
    then have "f i \<noteq> k" using f [OF i] by auto
    moreover have "\<sigma> * int k \<le> \<sigma> * int (f i)" using assms(7) f [OF i] i by blast
    ultimately show "\<sigma> * int (f (os ! k)) < \<sigma> * int (f i)" using assms(3) unfolding fk by auto
  qed simp
qed

lemma FindSmallest_at:
  assumes "owners_ok valid Compare (length (merge_children m)) os es" "at_pos os es (child_pos os k) (merge_children m)"
    "k \<le> length es"
  shows "merge_current (FindSmallest Compare m) = (if k < length es then Some (os ! k) else None)"
proof (cases "k < length es")
  case True
  define ws where "ws = merge_children m"
  have "k \<le> j" if "wrapped_valid (ws ! c)" "j < length es" "os ! j = c" "child_pos os j c = child_pos os k c" for c j
    using child_pos_less_iff [of j os c k] that assms(1) by (simp add: owners_ok_def)
  then have "pick (\<lambda>i. wrapped_valid (ws ! i) \<and> i < length ws)
      (\<lambda>i s. 1 * Compare (wrapped_key (ws ! i)) (wrapped_key (ws ! s)) < 0) None [0..<length ws] = Some (os ! k)"
    using assms(1,2) True unfolding ws_def [symmetric] by (intro pick_child) auto
  moreover have "pick (\<lambda>i. wrapped_valid (ws ! i) \<and> i < length ws) R None [0..<length ws] =
      pick (\<lambda>i. wrapped_valid (ws ! i)) R None [0..<length ws]" for R by (rule pick_cong) simp
  ultimately show ?thesis using True by (simp add: FindSmallest_pick ws_def)
next
  case False
  then have "\<not> wrapped_valid (merge_children m ! c)" if "c < length (merge_children m)" for c
    using assms that wrapped_at_valid(2) [of "child_entries os es c" "merge_children m ! c"]
    by (auto simp: children_at_def owners_ok_def length_child_entries)
  then show ?thesis using False by (simp add: FindSmallest_pick pick_None)
qed

lemma before_pos_valid:
  assumes "length os = length es" "wrapped_at I stands (child_entries os es c) w (child_before_pos os es k c)"
  shows "wrapped_valid w \<longleftrightarrow> 0 < child_pos os k c"
    "j < length es \<Longrightarrow> os ! j = c \<Longrightarrow> child_pos os j c = child_before_pos os es k c \<Longrightarrow> wrapped_valid w \<Longrightarrow> j < k"
proof -
  show v: "wrapped_valid w \<longleftrightarrow> 0 < child_pos os k c"
    using wrapped_at_valid(2) [OF assms(2)] child_pos_le [OF assms(1), of k c]
    by (auto simp: child_before_pos_def prev_index_def)
  show "j < k" if "j < length es" "os ! j = c" "child_pos os j c = child_before_pos os es k c" "wrapped_valid w"
    using child_pos_less_iff [of j os c k] that v assms(1) by (simp add: child_before_pos_def prev_index_def)
qed

lemma FindLargest_at:
  assumes "owners_ok valid Compare (length (merge_children m)) os es" "at_pos os es (child_before_pos os es k) (merge_children m)"
    "k \<le> length es"
  shows "merge_current (FindLargest Compare m) = (if 0 < k then Some (os ! (k - 1)) else None)"
proof (cases "0 < k")
  case True
  define ws where "ws = merge_children m"
  have ok: "length os = length es" "k - 1 < length es" using assms(1,3) True by (auto simp: owners_ok_def)
  have c: "child_pos os k (os ! (k - 1)) = Suc (child_pos os (k - 1) (os ! (k - 1)))"
    using child_pos_Suc [of "k - 1" os "os ! (k - 1)"] ok True by simp
  have "j \<le> k - 1" if "wrapped_valid (ws ! c)" "c < length ws" "j < length es" "os ! j = c" "child_pos os j c = child_before_pos os es k c" for c j
    using before_pos_valid(2) [OF ok(1), of c "ws ! c" k j] assms(2) that by (fastforce simp: children_at_def ws_def)
  moreover have "os ! j < length ws" if "j < length es" for j
    using assms(1) that by (simp add: owners_ok_def ws_def)
  ultimately have "pick (\<lambda>i. wrapped_valid (ws ! i) \<and> i < length ws)
      (\<lambda>i s. - 1 * Compare (wrapped_key (ws ! i)) (wrapped_key (ws ! s)) < 0) None (rev [0..<length ws]) = Some (os ! (k - 1))"
    using assms(1,2) ok c unfolding ws_def [symmetric]
    by (intro pick_child [where p = "child_before_pos os es k"]) (auto simp: child_before_pos_def prev_index_def)
  moreover have "pick (\<lambda>i. wrapped_valid (ws ! i) \<and> i < length ws) R None (rev [0..<length ws]) =
      pick (\<lambda>i. wrapped_valid (ws ! i)) R None (rev [0..<length ws])" for R by (rule pick_cong) simp
  ultimately show ?thesis using True by (simp add: FindLargest_pick ws_def)
next
  case False
  then have "\<not> wrapped_valid (merge_children m ! c)" if "c < length (merge_children m)" for c
    using assms that before_pos_valid(1) [of os es c "merge_children m ! c" k] by (auto simp: children_at_def owners_ok_def)
  then show ?thesis using False by (simp add: FindLargest_pick pick_None)
qed

section \<open>Moving the merging iterator\<close>

lemma each_child_at:
  assumes "\<And>c. c < length ws \<Longrightarrow> \<exists>w'. f c (ws ! c) = Some w' \<and> wrapped_at I stands (child_entries os es c) w' (p c)"
  shows "\<exists>ws'. each_child f 0 ws = Some ws' \<and> length ws' = length ws \<and> at_pos os es p ws'"
  using each_child_all [of ws f 0 "\<lambda>c w'. wrapped_at I stands (child_entries os es c) w' (p c)"] assms
  by (auto simp: children_at_def)

abbreviation (input) over :: "nat list \<Rightarrow> entry list \<Rightarrow> 'it merging \<Rightarrow> nat \<Rightarrow> bool" where
  "over \<equiv> merging_over I stands valid Compare"

lemma over_forward:
  assumes "owners_ok valid Compare (length (merge_children m)) os es" "at_pos os es (child_pos os k) (merge_children m)"
    "k \<le> length es"
  shows "over os es ((FindSmallest Compare m)\<lparr>merge_direction := kForward\<rparr>) k"
  using FindSmallest_at [OF assms] assms by (auto simp: merging_over_def FindSmallest_def)

lemma over_reverse:
  assumes "owners_ok valid Compare (length (merge_children m)) os es" "at_pos os es (child_before_pos os es k) (merge_children m)"
    "k \<le> length es"
  shows "over os es ((FindLargest Compare m)\<lparr>merge_direction := kReverse\<rparr>) (prev_index k es)"
proof (cases "0 < k")
  case True
  have ok: "length os = length es" "k - 1 < length es" using assms(1,3) True by (auto simp: owners_ok_def)
  have "child_before_pos os es k c = reverse_pos os es (k - 1) c" for c
    using child_pos_Suc [of "k - 1" os c] ok True by (auto simp: child_before_pos_def reverse_pos_def prev_index_def)
  then show ?thesis
    using FindLargest_at [OF assms] assms True ok(2) by (auto simp: merging_over_def FindLargest_def prev_index_def children_at_def)
next
  case False
  then show ?thesis
    using FindLargest_at [OF assms] assms by (auto simp: merging_over_def FindLargest_def prev_index_def)
qed

lemma over_facts:
  assumes "over os es m k"
  shows "owners_ok valid Compare (length (merge_children m)) os es" "k \<le> length es" "length os = length es"
    "\<exists>p. at_pos os es p (merge_children m)"
    "k < length es \<Longrightarrow> merge_current m = Some (os ! k)" "k < length es \<Longrightarrow> os ! k < length (merge_children m)"
    "k < length es \<Longrightarrow> at_pos os es (if merge_direction m = kForward then child_pos os k else reverse_pos os es k)
      (merge_children m)"
  using assms by (auto simp: merging_over_def owners_ok_def)

lemma each_child_anywhere:
  assumes "over os es m k"
    "\<And>c w q. c < length (merge_children m) \<Longrightarrow> wrapped_at I stands (child_entries os es c) w q \<Longrightarrow>
      \<exists>w'. f c w = Some w' \<and> wrapped_at I stands (child_entries os es c) w' (p c)"
  shows "\<exists>ws'. each_child f 0 (merge_children m) = Some ws' \<and> length ws' = length (merge_children m) \<and> at_pos os es p ws'"
proof (rule each_child_at)
  fix c
  assume c: "c < length (merge_children m)"
  from over_facts(4) [OF assms(1)] obtain q where "wrapped_at I stands (child_entries os es c) (merge_children m ! c) (q c)"
    using c by (auto simp: children_at_def)
  from assms(2) [OF c this] show "\<exists>w'. f c (merge_children m ! c) = Some w' \<and> wrapped_at I stands (child_entries os es c) w' (p c)" .
qed

lemma merging_SeekToFirst_over:
  assumes "over os es m k"
  shows "\<exists>m'. merging_SeekToFirst I Compare m = Some m' \<and> over os es m' 0"
proof -
  have "\<exists>ws'. each_child (\<lambda>_. wrapper_SeekToFirst I) 0 (merge_children m) = Some ws' \<and>
      length ws' = length (merge_children m) \<and> at_pos os es (child_pos os 0) ws'"
    by (rule each_child_anywhere [OF assms]) (simp add: wrapper_at(1))
  then show ?thesis
    using over_forward [of "m\<lparr>merge_children := ws'\<rparr>" os es 0 for ws'] over_facts(1) [OF assms]
    by (auto simp: merging_SeekToFirst_def)
qed

lemma merging_SeekToLast_over:
  assumes "over os es m k"
  shows "\<exists>m'. merging_SeekToLast I Compare m = Some m' \<and> over os es m' (length es - 1)"
proof -
  have last: "length (child_entries os es c) - 1 = child_before_pos os es (length es) c" for c
    using over_facts(3) [OF assms] by (auto simp: child_before_pos_def prev_index_def length_child_entries)
  have "\<exists>ws'. each_child (\<lambda>_. wrapper_SeekToLast I) 0 (merge_children m) = Some ws' \<and>
      length ws' = length (merge_children m) \<and> at_pos os es (child_before_pos os es (length es)) ws'"
    by (rule each_child_anywhere [OF assms]) (simp add: last [symmetric] wrapper_at(2) [unfolded One_nat_def])
  moreover have "prev_index (length es) es = length es - 1" by (simp add: prev_index_def)
  ultimately show ?thesis
    using over_reverse [of "m\<lparr>merge_children := ws'\<rparr>" os es "length es" for ws'] over_facts(1) [OF assms]
    by (auto simp: merging_SeekToLast_def)
qed

lemma merging_Seek_over:
  assumes "over os es m k" "valid target"
  shows "\<exists>m'. merging_Seek I Compare target m = Some m' \<and> over os es m' (seek_index Compare target es)"
proof -
  have "\<exists>ws'. each_child (\<lambda>_. wrapper_Seek I target) 0 (merge_children m) = Some ws' \<and>
      length ws' = length (merge_children m) \<and> at_pos os es (child_pos os (seek_index Compare target es)) ws'"
    by (rule each_child_anywhere [OF assms(1)])
      (use wrapper_at(3) seek_child [OF over_facts(1) [OF assms(1)] assms(2)] assms(2) in metis)
  then show ?thesis
    using over_forward [of "m\<lparr>merge_children := ws'\<rparr>" os es "seek_index Compare target es" for ws']
      over_facts(1) [OF assms(1)] seek_index_le
    by (auto simp: merging_Seek_def)
qed

lemma current_key:
  assumes "over os es m k" "k < length es"
  shows "merging_key m = fst (es ! k)" "merging_value I m = snd (es ! k)"
    "wrapped_at I stands (child_entries os es (os ! k)) (merge_children m ! (os ! k)) (child_pos os k (os ! k))"
proof -
  note o = over_facts [OF assms(1)]
  show w: "wrapped_at I stands (child_entries os es (os ! k)) (merge_children m ! (os ! k)) (child_pos os k (os ! k))"
    using o(6,7) [OF assms(2)] by (auto simp: children_at_def reverse_pos_def split: if_splits)
  note n = child_entries_nth [OF o(3) assms(2) HOL.refl]
  show "merging_key m = fst (es ! k)" "merging_value I m = snd (es ! k)"
    using wrapped_at_valid(3,4) [OF w n(1)] n(2) o(5) [OF assms(2)] by (simp_all add: merging_key_def merging_value_def)
qed

lemma move_current_at:
  assumes "at_pos os es p (merge_children m)" "merge_current m = Some c" "c < length (merge_children m)"
    "\<exists>w'. f (merge_children m ! c) = Some w' \<and> wrapped_at I stands (child_entries os es c) w' q"
  shows "\<exists>ws'. move_current f m = Some (m\<lparr>merge_children := ws'\<rparr>) \<and> length ws' = length (merge_children m) \<and>
    at_pos os es (p(c := q)) ws'"
proof -
  from assms(4) obtain w' where "f (merge_children m ! c) = Some w'" "wrapped_at I stands (child_entries os es c) w' q" by blast
  then show ?thesis
    using assms(1-3) by (intro exI [of _ "(merge_children m)[c := w']"]) (auto simp: move_current_def children_at_def nth_list_update)
qed

text \<open>Turning around.\<close>

lemma turn_forward:
  assumes "over os es m k" "k < length es"
  shows "\<exists>m1. (if merge_direction m \<noteq> kForward then
              map_option (\<lambda>ws. m\<lparr>merge_children := ws, merge_direction := kForward\<rparr>)
                (each_child (except_current (merge_current m) (child_after I Compare (merging_key m))) 0 (merge_children m))
            else Some m) = Some m1 \<and> over os es m1 k \<and> merge_direction m1 = kForward"
proof (cases "merge_direction m = kForward")
  case False
  note o = over_facts [OF assms(1)]
  have v: "valid (fst (es ! k))" using o(1) assms(2) by (simp add: owners_ok_def)
  have s: "seek_index Compare (fst (es ! k)) (child_entries os es c) = child_pos os k c" for c
    using seek_child [OF o(1) v, of c] seek_self [OF o(1) assms(2)] by simp
  have "\<exists>ws'. each_child (except_current (merge_current m) (child_after I Compare (merging_key m))) 0 (merge_children m) = Some ws' \<and>
      length ws' = length (merge_children m) \<and> at_pos os es (child_pos os k) ws'"
  proof (rule each_child_at)
    fix c
    assume c: "c < length (merge_children m)"
    show "\<exists>w'. except_current (merge_current m) (child_after I Compare (merging_key m)) c (merge_children m ! c) = Some w' \<and>
        wrapped_at I stands (child_entries os es c) w' (child_pos os k c)"
    proof (cases "c = os ! k")
      case True
      then show ?thesis using current_key(3) [OF assms] o(5) [OF assms(2)] by (simp add: except_current_def)
    next
      case other: False
      obtain q where "wrapped_at I stands (child_entries os es c) (merge_children m ! c) q"
        using o(7) [OF assms(2)] c by (auto simp: children_at_def)
      from wrapper_at(3) [OF this v] obtain w where w: "wrapper_Seek I (fst (es ! k)) (merge_children m ! c) = Some w"
        "wrapped_at I stands (child_entries os es c) w (child_pos os k c)" by (auto simp: s)
      have "Compare (fst (es ! k)) (wrapped_key w) \<noteq> 0" if "wrapped_valid w"
      proof -
        from wrapped_at_valid(2,3) [OF w(2)] that have "child_pos os k c < length (child_entries os es c)"
          "wrapped_key w = fst (child_entries os es c ! child_pos os k c)" by auto
        with child_entries_index [OF o(3)] obtain j where "j < length es" "os ! j = c" "wrapped_key w = fst (es ! j)" by metis
        moreover have "j \<noteq> k" using calculation(2) other by auto
        ultimately show ?thesis
          using sorted_less_iff [of es k j] o(1) assms(2) by (auto simp: owners_ok_def)
      qed
      then have "child_after I Compare (fst (es ! k)) (merge_children m ! c) = Some w"
        using w(1) by (auto simp: child_after_def)
      then show ?thesis
        using w(2) other o(5) [OF assms(2)] current_key(1) [OF assms] by (simp add: except_current_def)
    qed
  qed
  then obtain ws' where "each_child (except_current (merge_current m) (child_after I Compare (merging_key m))) 0
      (merge_children m) = Some ws'" "length ws' = length (merge_children m)" "at_pos os es (child_pos os k) ws'" by blast
  then show ?thesis
    using False o assms(2) by (intro exI [of _ "m\<lparr>merge_children := ws', merge_direction := kForward\<rparr>"])
      (auto simp: merging_over_def)
qed (use assms in simp)

lemma turn_reverse:
  assumes "over os es m k" "k < length es"
  shows "\<exists>m1. (if merge_direction m \<noteq> kReverse then
              map_option (\<lambda>ws. m\<lparr>merge_children := ws, merge_direction := kReverse\<rparr>)
                (each_child (except_current (merge_current m) (child_before I (merging_key m))) 0 (merge_children m))
            else Some m) = Some m1 \<and> over os es m1 k \<and> merge_direction m1 = kReverse"
proof (cases "merge_direction m = kReverse")
  case False
  note o = over_facts [OF assms(1)]
  have v: "valid (fst (es ! k))" using o(1) assms(2) by (simp add: owners_ok_def)
  have s: "seek_index Compare (fst (es ! k)) (child_entries os es c) = child_pos os k c" for c
    using seek_child [OF o(1) v, of c] seek_self [OF o(1) assms(2)] by simp
  have "\<exists>ws'. each_child (except_current (merge_current m) (child_before I (merging_key m))) 0 (merge_children m) = Some ws' \<and>
      length ws' = length (merge_children m) \<and> at_pos os es (reverse_pos os es k) ws'"
  proof (rule each_child_at)
    fix c
    assume c: "c < length (merge_children m)"
    show "\<exists>w'. except_current (merge_current m) (child_before I (merging_key m)) c (merge_children m ! c) = Some w' \<and>
        wrapped_at I stands (child_entries os es c) w' (reverse_pos os es k c)"
    proof (cases "c = os ! k")
      case True
      then show ?thesis using current_key(3) [OF assms] o(5) [OF assms(2)] by (simp add: except_current_def reverse_pos_def)
    next
      case other: False
      obtain q where "wrapped_at I stands (child_entries os es c) (merge_children m ! c) q"
        using o(7) [OF assms(2)] c by (auto simp: children_at_def)
      from wrapper_at(3) [OF this v] obtain w where w: "wrapper_Seek I (fst (es ! k)) (merge_children m ! c) = Some w"
        "wrapped_at I stands (child_entries os es c) w (child_pos os k c)" by (auto simp: s)
      have "\<exists>w'. (if wrapped_valid w then wrapper_Prev I w else wrapper_SeekToLast I w) = Some w' \<and>
          wrapped_at I stands (child_entries os es c) w' (child_before_pos os es k c)"
      proof (cases "wrapped_valid w")
        case True
        then show ?thesis using wrapper_at(5) [OF w(2)] wrapped_at_valid(2) [OF w(2)] by (simp add: child_before_pos_def)
      next
        case False
        then have "child_pos os k c = length (child_entries os es c)" using wrapped_at_valid(1,2) [OF w(2)] by simp
        then have "child_before_pos os es k c = length (child_entries os es c) - 1" by (simp add: child_before_pos_def prev_index_def)
        then show ?thesis using False wrapper_at(2) [OF w(2)] by simp
      qed
      then show ?thesis
        using w other o(5) [OF assms(2)] current_key(1) [OF assms] by (simp add: except_current_def child_before_def reverse_pos_def)
    qed
  qed
  then obtain ws' where "each_child (except_current (merge_current m) (child_before I (merging_key m))) 0
      (merge_children m) = Some ws'" "length ws' = length (merge_children m)" "at_pos os es (reverse_pos os es k) ws'" by blast
  then show ?thesis
    using False o assms(2) by (intro exI [of _ "m\<lparr>merge_children := ws', merge_direction := kReverse\<rparr>"])
      (auto simp: merging_over_def)
qed (use assms in simp)

lemma merging_Next_over:
  assumes "over os es m k" "k < length es"
  shows "\<exists>m'. merging_Next I Compare m = Some m' \<and> over os es m' (Suc k)"
proof -
  from turn_forward [OF assms] obtain m1 where
    m1: "(if merge_direction m \<noteq> kForward then
              map_option (\<lambda>ws. m\<lparr>merge_children := ws, merge_direction := kForward\<rparr>)
                (each_child (except_current (merge_current m) (child_after I Compare (merging_key m))) 0 (merge_children m))
            else Some m) = Some m1" "over os es m1 k" "merge_direction m1 = kForward" by blast
  note o = over_facts [OF m1(2)]
  have "child_pos os k (os ! k) < length (child_entries os es (os ! k))" by (rule child_entries_nth(1) [OF o(3) assms(2) HOL.refl])
  from wrapper_at(4) [OF current_key(3) [OF m1(2) assms(2)] this]
  have "\<exists>w'. wrapper_Next I (merge_children m1 ! (os ! k)) = Some w' \<and>
      wrapped_at I stands (child_entries os es (os ! k)) w' (Suc (child_pos os k (os ! k)))" .
  from move_current_at [where f = "wrapper_Next I" and q = "Suc (child_pos os k (os ! k))", OF o(7) [OF assms(2)] o(5) [OF assms(2)] o(6) [OF assms(2)] this] m1(3) obtain ws' where
    ws': "move_current (wrapper_Next I) m1 = Some (m1\<lparr>merge_children := ws'\<rparr>)" "length ws' = length (merge_children m1)"
    "at_pos os es ((child_pos os k)(os ! k := Suc (child_pos os k (os ! k)))) ws'" by auto
  have "(child_pos os k)(os ! k := Suc (child_pos os k (os ! k))) = child_pos os (Suc k)"
    using child_pos_Suc [of k os] o(3) assms(2) by (auto simp: fun_eq_iff)
  with ws' have "over os es ((FindSmallest Compare (m1\<lparr>merge_children := ws'\<rparr>))\<lparr>merge_direction := kForward\<rparr>) (Suc k)"
    using o(1) assms(2) by (intro over_forward) auto
  moreover have "(FindSmallest Compare (m1\<lparr>merge_children := ws'\<rparr>))\<lparr>merge_direction := kForward\<rparr> =
      FindSmallest Compare (m1\<lparr>merge_children := ws'\<rparr>)" using m1(3) by (simp add: FindSmallest_def)
  ultimately show ?thesis using m1(1) ws'(1) by (simp add: merging_Next_def)
qed

lemma merging_Prev_over:
  assumes "over os es m k" "k < length es"
  shows "\<exists>m'. merging_Prev I Compare m = Some m' \<and> over os es m' (prev_index k es)"
proof -
  from turn_reverse [OF assms] obtain m1 where
    m1: "(if merge_direction m \<noteq> kReverse then
              map_option (\<lambda>ws. m\<lparr>merge_children := ws, merge_direction := kReverse\<rparr>)
                (each_child (except_current (merge_current m) (child_before I (merging_key m))) 0 (merge_children m))
            else Some m) = Some m1" "over os es m1 k" "merge_direction m1 = kReverse" by blast
  note o = over_facts [OF m1(2)]
  have "child_pos os k (os ! k) < length (child_entries os es (os ! k))" by (rule child_entries_nth(1) [OF o(3) assms(2) HOL.refl])
  from wrapper_at(5) [OF current_key(3) [OF m1(2) assms(2)] this]
  have "\<exists>w'. wrapper_Prev I (merge_children m1 ! (os ! k)) = Some w' \<and>
      wrapped_at I stands (child_entries os es (os ! k)) w' (child_before_pos os es k (os ! k))"
    by (simp add: child_before_pos_def)
  from move_current_at [where f = "wrapper_Prev I" and q = "child_before_pos os es k (os ! k)", OF o(7) [OF assms(2)] o(5) [OF assms(2)] o(6) [OF assms(2)] this] m1(3) obtain ws' where
    ws': "move_current (wrapper_Prev I) m1 = Some (m1\<lparr>merge_children := ws'\<rparr>)" "length ws' = length (merge_children m1)"
    "at_pos os es ((reverse_pos os es k)(os ! k := child_before_pos os es k (os ! k))) ws'" by auto
  have "(reverse_pos os es k)(os ! k := child_before_pos os es k (os ! k)) = child_before_pos os es k"
    by (auto simp: fun_eq_iff reverse_pos_def)
  with ws' have "over os es ((FindLargest Compare (m1\<lparr>merge_children := ws'\<rparr>))\<lparr>merge_direction := kReverse\<rparr>) (prev_index k es)"
    using o(1) assms(2) by (intro over_reverse) auto
  moreover have "(FindLargest Compare (m1\<lparr>merge_children := ws'\<rparr>))\<lparr>merge_direction := kReverse\<rparr> =
      FindLargest Compare (m1\<lparr>merge_children := ws'\<rparr>)" using m1(3) by (simp add: FindLargest_def)
  ultimately show ?thesis using m1(1) ws'(1) by (simp add: merging_Prev_def)
qed

lemma merging_status_over:
  assumes "over os es m k"
  shows "merging_status I m = Status_OK"
proof -
  from over_facts(4) [OF assms] obtain p where "at_pos os es p (merge_children m)" by blast
  then have "\<forall>w \<in> set (merge_children m). wrapper_status I w = Status_OK"
    using wrapped_at_valid(5) by (metis children_at_def in_set_conv_nth)
  then have "find (\<lambda>w. wrapper_status I w \<noteq> Status_OK) (merge_children m) = None" by (simp add: find_None_iff)
  then show ?thesis by (simp add: merging_status_def)
qed

lemma merging_iterator:
  "iterator (merging_iterator I Compare) valid Compare (\<lambda>es m k. \<exists>os. over os es m k)"
proof
  fix es m k
  assume "\<exists>os. over os es m k"
  then obtain os where o: "over os es m k" by blast
  show "k \<le> length es" by (rule over_facts(2) [OF o])
  show "Valid (merging_iterator I Compare) m \<longleftrightarrow> k < length es"
    using o by (simp add: merging_iterator_def merging_Valid_def merging_over_def)
  show "Status (merging_iterator I Compare) m = Status_OK"
    using merging_status_over [OF o] by (simp add: merging_iterator_def)
  show "\<exists>m'. SeekToFirst (merging_iterator I Compare) m = Some m' \<and> (\<exists>os. over os es m' 0)"
    using merging_SeekToFirst_over [OF o] by (auto simp: merging_iterator_def)
  show "\<exists>m'. SeekToLast (merging_iterator I Compare) m = Some m' \<and> (\<exists>os. over os es m' (length es - 1))"
    using merging_SeekToLast_over [OF o] by (auto simp: merging_iterator_def)
  show "\<exists>m'. Seek (merging_iterator I Compare) target m = Some m' \<and> (\<exists>os. over os es m' (seek_index Compare target es))"
    if "valid target" for target using merging_Seek_over [OF o that] by (auto simp: merging_iterator_def)
  assume k: "k < length es"
  show "Key (merging_iterator I Compare) m = fst (es ! k)" "Value (merging_iterator I Compare) m = snd (es ! k)"
    using current_key [OF o k] by (simp_all add: merging_iterator_def)
  show "\<exists>m'. Next (merging_iterator I Compare) m = Some m' \<and> (\<exists>os. over os es m' (Suc k))"
    using merging_Next_over [OF o k] by (auto simp: merging_iterator_def)
  show "\<exists>m'. Prev (merging_iterator I Compare) m = Some m' \<and> (\<exists>os. over os es m' (prev_index k es))"
    using merging_Prev_over [OF o k] by (auto simp: merging_iterator_def)
qed

lemma MergingIterator_over:
  assumes "owners_ok valid Compare (length its) os es" "\<forall>c < length its. \<exists>i. stands (child_entries os es c) (its ! c) i"
  shows "over os es (MergingIterator I its) (length es)"
proof -
  from assms(2) obtain p where p: "\<forall>c < length its. stands (child_entries os es c) (its ! c) (p c)" by metis
  then have "at_pos os es p (map (\<lambda>it. wrapper_Set I (Some it) IteratorWrapper) its)"
    by (auto simp: children_at_def wrapper_Set_def intro: wrapped_at_Update)
  then show ?thesis using assms(1) by (auto simp: merging_over_def MergingIterator_def)
qed

end

section \<open>The iterator that is made\<close>

definition merged_over ::
  "'it iterator_class \<Rightarrow> (entry list \<Rightarrow> 'it \<Rightarrow> nat \<Rightarrow> bool) \<Rightarrow> (slice \<Rightarrow> bool) \<Rightarrow> (slice \<Rightarrow> slice \<Rightarrow> int) \<Rightarrow> entry list \<Rightarrow>
    'it merged \<Rightarrow> nat \<Rightarrow> bool"
where
  "merged_over I stands valid Compare es m k \<longleftrightarrow>
     (case m of
        NoChild s \<Rightarrow> es = [] \<and> s = Status_OK \<and> k = 0
      | OnlyChild it \<Rightarrow> stands es it k
      | Merging m \<Rightarrow> \<exists>os. merging_over I stands valid Compare os es m k)"

lemma merged_move_over:
  assumes "merged_over I stands valid Compare es m k"
    "es = [] \<Longrightarrow> k = 0 \<Longrightarrow> f EmptyIterator Status_OK = Some Status_OK \<and> j = 0"
    "\<And>it. stands es it k \<Longrightarrow> \<exists>it'. g it = Some it' \<and> stands es it' j"
    "\<And>m. \<exists>os. merging_over I stands valid Compare os es m k \<Longrightarrow>
      \<exists>m'. h m = Some m' \<and> (\<exists>os. merging_over I stands valid Compare os es m' j)"
  shows "\<exists>m'. merged_move f g h m = Some m' \<and> merged_over I stands valid Compare es m' j"
proof (cases m)
  case (NoChild s)
  then show ?thesis using assms(1,2) by (simp add: merged_over_def merged_move_def)
next
  case (OnlyChild it)
  then show ?thesis using assms(1) assms(3) [of it] by (auto simp: merged_over_def merged_move_def)
next
  case (Merging n)
  then show ?thesis using assms(1) assms(4) [of n] by (fastforce simp: merged_over_def merged_move_def)
qed

context merging_children
begin

lemma merged_iterator: "iterator (merged_iterator I Compare) valid Compare (merged_over I stands valid Compare)"
proof
  note M = merging_iterator
  fix es m k
  assume o: "merged_over I stands valid Compare es m k"
  note move = merged_move_over [OF o]
  show "k \<le> length es"
    using o stands_le iterator.stands_le [OF M] by (auto simp: merged_over_def split: merged.splits)
  show "Valid (merged_iterator I Compare) m \<longleftrightarrow> k < length es"
    using o Valid_iff iterator.Valid_iff [OF M]
    by (auto simp: merged_over_def merged_iterator_def Let_def EmptyIterator_def split: merged.splits)
  show "Status (merged_iterator I Compare) m = Status_OK"
    using o Status_OK iterator.Status_OK [OF M]
    by (auto simp: merged_over_def merged_iterator_def Let_def EmptyIterator_def split: merged.splits)
  show "\<exists>m'. SeekToFirst (merged_iterator I Compare) m = Some m' \<and> merged_over I stands valid Compare es m' 0"
    unfolding merged_iterator_def Let_def iterator_class.simps
    by (rule move) (simp_all add: EmptyIterator_def SeekToFirst iterator.SeekToFirst [OF M])
  show "\<exists>m'. SeekToLast (merged_iterator I Compare) m = Some m' \<and> merged_over I stands valid Compare es m' (length es - 1)"
    unfolding merged_iterator_def Let_def iterator_class.simps
    by (rule move) (simp_all add: EmptyIterator_def SeekToLast [unfolded One_nat_def]
        iterator.SeekToLast [OF M, unfolded One_nat_def])
  show "\<exists>m'. Seek (merged_iterator I Compare) target m = Some m' \<and>
      merged_over I stands valid Compare es m' (seek_index Compare target es)" if "valid target" for target
    unfolding merged_iterator_def Let_def iterator_class.simps
    by (rule move) (simp_all add: EmptyIterator_def seek_index_def [of _ _ "[]"] Seek [OF _ that] iterator.Seek [OF M _ that])
  assume k: "k < length es"
  show "Key (merged_iterator I Compare) m = fst (es ! k)"
    using o k Key_nth iterator.Key_nth [OF M]
    by (auto simp: merged_over_def merged_iterator_def Let_def split: merged.splits)
  show "Value (merged_iterator I Compare) m = snd (es ! k)"
    using o k Value_nth iterator.Value_nth [OF M]
    by (auto simp: merged_over_def merged_iterator_def Let_def split: merged.splits)
  show "\<exists>m'. Next (merged_iterator I Compare) m = Some m' \<and> merged_over I stands valid Compare es m' (Suc k)"
    unfolding merged_iterator_def Let_def iterator_class.simps
    by (rule move) (use k in \<open>auto simp: Next iterator.Next [OF M]\<close>)
  show "\<exists>m'. Prev (merged_iterator I Compare) m = Some m' \<and> merged_over I stands valid Compare es m' (prev_index k es)"
    unfolding merged_iterator_def Let_def iterator_class.simps
    by (rule move) (use k in \<open>auto simp: Prev iterator.Prev [OF M]\<close>)
qed

text \<open>At first it stands past the end, when an only child does.\<close>

lemma NewMergingIterator_over:
  assumes "owners_ok valid Compare (length its) os es" "\<forall>c < length its. stands (child_entries os es c) (its ! c) (length (child_entries os es c))"
  shows "merged_over I stands valid Compare es (NewMergingIterator I its) (length es)"
proof -
  have ok: "length os = length es" "\<forall>c \<in> set os. c < length its" using assms(1) by (auto simp: owners_ok_def)
  consider "its = []" | it where "its = [it]" | it1 it2 its' where "its = it1 # it2 # its'"
    by (metis neq_Nil_conv)
  then show ?thesis
  proof cases
    case 1
    then show ?thesis using ok by (auto simp: NewMergingIterator_def merged_over_def NewEmptyIterator_def)
  next
    case 2
    then have "\<forall>p \<in> set (zip os es). fst p = 0" using ok(2) by (auto dest: set_zip_leftD)
    then have "child_entries os es 0 = es" using ok(1) by (simp add: child_entries_def filter_True)
    then show ?thesis using 2 assms(2) by (simp add: NewMergingIterator_def merged_over_def)
  next
    case 3
    then show ?thesis
      using MergingIterator_over [OF assms(1)] assms(2) by (auto simp: NewMergingIterator_def merged_over_def)
  qed
qed

end

interpretation merged_blocks: merging_children "\<lambda>_. True" slice_compare FindShortestSeparator FindShortSuccessor
  "block_iterator slice_compare" "block_over (\<lambda>_. True) slice_compare"
  by (intro merging_children.intro bytewise.comparator_axioms block_iter.iterator_axioms)

interpretation merged_internal_blocks: merging_children "internal_valid (\<lambda>_. True)" "InternalKey_Compare slice_compare"
  "InternalKey_FindShortestSeparator slice_compare FindShortestSeparator"
  "InternalKey_FindShortSuccessor slice_compare FindShortSuccessor"
  "block_iterator (InternalKey_Compare slice_compare)"
  "block_over (internal_valid (\<lambda>_. True)) (InternalKey_Compare slice_compare)"
  by (intro merging_children.intro internal_bytewise.comparator_axioms internal_block_iter.iterator_axioms)

section \<open>The merge\<close>

text \<open>
  C9. A merging iterator shows the sorted union of its children: over any number of children that keep the
  contract of iterators, none and one included, whose entries make up a list sorted by the comparator,
  \<open>NewMergingIterator\<close> follows a cursor over that list through every sequence of \<open>SeekToFirst\<close>, \<open>SeekToLast\<close>,
  \<open>Seek\<close>, \<open>Next\<close> and \<open>Prev\<close> with changes of direction.
\<close>

theorem merging_shows_entries:
  assumes "comparator valid Compare Separator Successor" "iterator I valid Compare stands"
    "owners_ok valid Compare (length its) os es"
    "\<forall>c < length its. stands (child_entries os es c) (its ! c) (length (child_entries os es c))"
  shows "shows_entries (merged_iterator I Compare) valid Compare es (NewMergingIterator I its)"
proof -
  from assms(1,2) have m: "merging_children valid Compare Separator Successor I stands" by (rule merging_children.intro)
  show ?thesis
    by (rule iterator.stands_shows [OF merging_children.merged_iterator [OF m]
          merging_children.NewMergingIterator_over [OF m assms(3,4)]])
qed

text \<open>Two blocks whose keys alternate.\<close>

lemma merging_shows_entries_witness:
  "\<exists>it1 it2. Block_NewIterator (Block 0 (built_block 16 [([97], [1]), ([99], [3])])) = Inr it1 \<and>
    Block_NewIterator (Block 0 (built_block 16 [([98], [2])])) = Inr it2 \<and>
    shows_entries (merged_iterator (block_iterator slice_compare) slice_compare) (\<lambda>_. True) slice_compare
      [([97], [1]), ([98], [2]), ([99], [3])] (NewMergingIterator (block_iterator slice_compare) [it1, it2])"
proof -
  have fits: "block_fits 16 [([97], [1]), ([99], [3])]" "block_fits 16 [([98], [2])]"
    by (simp_all add: block_fits_def built_block_def add_entries_def BlockBuilder_def BlockBuilder_Add_def Let_def
        BlockBuilder_Finish_def PutVarint32_bytes PutFixed32_def varint_bytes_small)
  have sorted: "sorted_entries slice_compare [([97], [1]), ([99], [3])]" "sorted_entries slice_compare [([98], [2])]"
    by (simp_all add: sorted_entries_def slice_compare_lex)
  note over = built_block_over [where valid = "\<lambda>_. True" and interval = 16 and unset = 0 and Compare = slice_compare]
  from over [OF _ fits(1) sorted(1)] over [OF _ fits(2) sorted(2)] obtain it1 it2 where
    it: "Block_NewIterator (Block 0 (built_block 16 [([97], [1]), ([99], [3])])) = Inr it1"
      "block_over (\<lambda>_. True) slice_compare [([97], [1]), ([99], [3])] it1 (Suc (Suc 0))"
      "Block_NewIterator (Block 0 (built_block 16 [([98], [2])])) = Inr it2"
      "block_over (\<lambda>_. True) slice_compare [([98], [2])] it2 (Suc 0)" by auto
  have "owners_ok (\<lambda>_. True) slice_compare (length [it1, it2]) [0, 1, 0] [([97], [1]), ([98], [2]), ([99], [3])]"
    by (simp add: owners_ok_def sorted_entries_def slice_compare_lex)
  from merging_shows_entries [OF bytewise.comparator_axioms block_iter.iterator_axioms this] it
  show ?thesis by (auto simp: child_entries_def less_Suc_eq numeral_2_eq_2)
qed

end
