(* ===== verification/TwoLevelIterator.thy ===== *)
theory TwoLevelIterator
  imports MergingIterator BlockProps
begin

text \<open>
  \<open>table/two_level_iterator.cc\<close> of leveldb: the iterator over the blocks that the entries of an index refer to.  The
  values of the index are handles; \<open>block_function\<close>, with its argument and the read options applied, returns
  the iterator over the block of a handle.
\<close>

section \<open>The iterator\<close>

record ('i, 'd) two_level =
  index_iter :: "'i wrapper"
  data_iter :: "'d wrapper"
  two_level_status :: status
  data_block_handle :: slice

definition TwoLevelIterator :: "'i iterator_class \<Rightarrow> 'i \<Rightarrow> ('i, 'd) two_level" where
  "TwoLevelIterator II index =
     \<lparr>index_iter = wrapper_Set II (Some index) IteratorWrapper, data_iter = IteratorWrapper,
      two_level_status = Status_OK, data_block_handle = []\<rparr>"

definition SaveError :: "status \<Rightarrow> ('i, 'd) two_level \<Rightarrow> ('i, 'd) two_level" where
  "SaveError s t = (if two_level_status t = Status_OK \<and> s \<noteq> Status_OK then t\<lparr>two_level_status := s\<rparr> else t)"

definition SetDataIterator :: "'d iterator_class \<Rightarrow> 'd option \<Rightarrow> ('i, 'd) two_level \<Rightarrow> ('i, 'd) two_level" where
  "SetDataIterator DI iter t =
     (let t = (if wrapped (data_iter t) \<noteq> None then SaveError (wrapper_status DI (data_iter t)) t else t)
      in t\<lparr>data_iter := wrapper_Set DI iter (data_iter t)\<rparr>)"

definition InitDataBlock ::
  "'i iterator_class \<Rightarrow> 'd iterator_class \<Rightarrow> (slice \<Rightarrow> 'd) \<Rightarrow> ('i, 'd) two_level \<Rightarrow> ('i, 'd) two_level" where
  "InitDataBlock II DI block_function t =
     (if \<not> wrapped_valid (index_iter t) then SetDataIterator DI None t
      else
        let handle = wrapper_value II (index_iter t)
        in if wrapped (data_iter t) \<noteq> None \<and> slice_compare handle (data_block_handle t) = 0 then t
           else SetDataIterator DI (Some (block_function handle)) (t\<lparr>data_block_handle := handle\<rparr>))"

text \<open>\<open>if (data_iter_.iter() != nullptr) data_iter_.f()\<close>, and a call on the index.\<close>

definition on_data :: "('d wrapper \<Rightarrow> 'd wrapper option) \<Rightarrow> ('i, 'd) two_level \<Rightarrow> ('i, 'd) two_level option" where
  "on_data f t =
     (if wrapped (data_iter t) \<noteq> None then map_option (\<lambda>w. t\<lparr>data_iter := w\<rparr>) (f (data_iter t)) else Some t)"

definition on_index :: "('i wrapper \<Rightarrow> 'i wrapper option) \<Rightarrow> ('i, 'd) two_level \<Rightarrow> ('i, 'd) two_level option" where
  "on_index f t = map_option (\<lambda>w. t\<lparr>index_iter := w\<rparr>) (f (index_iter t))"

text \<open>Move the index, open its block and move the iterator over that.\<close>

definition move_block ::
  "'i iterator_class \<Rightarrow> 'd iterator_class \<Rightarrow> (slice \<Rightarrow> 'd) \<Rightarrow> ('i wrapper \<Rightarrow> 'i wrapper option) \<Rightarrow> ('d wrapper \<Rightarrow> 'd wrapper option) \<Rightarrow>
    ('i, 'd) two_level \<Rightarrow> ('i, 'd) two_level option" where
  "move_block II DI block_function f g t =
     (case on_index f t of
        None \<Rightarrow> None
      | Some t \<Rightarrow> on_data g (InitDataBlock II DI block_function t))"

text \<open>The loop of both \<open>SkipEmptyDataBlocks\<close> functions, with the moves of its body.\<close>

partial_function (option) skip_blocks ::
  "'d iterator_class \<Rightarrow> (('i, 'd) two_level \<Rightarrow> ('i, 'd) two_level option) \<Rightarrow> ('i, 'd) two_level \<Rightarrow> ('i, 'd) two_level option"
where
  "skip_blocks DI body t =
     (if wrapped (data_iter t) = None \<or> \<not> wrapped_valid (data_iter t) then
        if \<not> wrapped_valid (index_iter t) then Some (SetDataIterator DI None t)
        else Option.bind (body t) (skip_blocks DI body)
      else Some t)"

definition SkipEmptyDataBlocksForward ::
  "'i iterator_class \<Rightarrow> 'd iterator_class \<Rightarrow> (slice \<Rightarrow> 'd) \<Rightarrow> ('i, 'd) two_level \<Rightarrow> ('i, 'd) two_level option" where
  "SkipEmptyDataBlocksForward II DI block_function t =
     skip_blocks DI (move_block II DI block_function (wrapper_Next II) (wrapper_SeekToFirst DI)) t"

definition SkipEmptyDataBlocksBackward ::
  "'i iterator_class \<Rightarrow> 'd iterator_class \<Rightarrow> (slice \<Rightarrow> 'd) \<Rightarrow> ('i, 'd) two_level \<Rightarrow> ('i, 'd) two_level option" where
  "SkipEmptyDataBlocksBackward II DI block_function t =
     skip_blocks DI (move_block II DI block_function (wrapper_Prev II) (wrapper_SeekToLast DI)) t"

definition two_level_Seek where
  "two_level_Seek II DI block_function target t =
     Option.bind (move_block II DI block_function (wrapper_Seek II target) (wrapper_Seek DI target) t)
       (SkipEmptyDataBlocksForward II DI block_function)"

definition two_level_SeekToFirst where
  "two_level_SeekToFirst II DI block_function t =
     Option.bind (move_block II DI block_function (wrapper_SeekToFirst II) (wrapper_SeekToFirst DI) t)
       (SkipEmptyDataBlocksForward II DI block_function)"

definition two_level_SeekToLast where
  "two_level_SeekToLast II DI block_function t =
     Option.bind (move_block II DI block_function (wrapper_SeekToLast II) (wrapper_SeekToLast DI) t)
       (SkipEmptyDataBlocksBackward II DI block_function)"

definition two_level_Next where
  "two_level_Next II DI block_function t =
     (case wrapper_Next DI (data_iter t) of
        None \<Rightarrow> None
      | Some w \<Rightarrow> SkipEmptyDataBlocksForward II DI block_function (t\<lparr>data_iter := w\<rparr>))"

definition two_level_Prev where
  "two_level_Prev II DI block_function t =
     (case wrapper_Prev DI (data_iter t) of
        None \<Rightarrow> None
      | Some w \<Rightarrow> SkipEmptyDataBlocksBackward II DI block_function (t\<lparr>data_iter := w\<rparr>))"

definition two_level_status_of :: "'i iterator_class \<Rightarrow> 'd iterator_class \<Rightarrow> ('i, 'd) two_level \<Rightarrow> status" where
  "two_level_status_of II DI t =
     (if wrapper_status II (index_iter t) \<noteq> Status_OK then wrapper_status II (index_iter t)
      else if wrapped (data_iter t) \<noteq> None \<and> wrapper_status DI (data_iter t) \<noteq> Status_OK then wrapper_status DI (data_iter t)
      else two_level_status t)"

definition two_level_iterator ::
  "'i iterator_class \<Rightarrow> 'd iterator_class \<Rightarrow> (slice \<Rightarrow> 'd) \<Rightarrow> ('i, 'd) two_level iterator_class" where
  "two_level_iterator II DI block_function =
     \<lparr>Valid = \<lambda>t. wrapped_valid (data_iter t), SeekToFirst = two_level_SeekToFirst II DI block_function,
      SeekToLast = two_level_SeekToLast II DI block_function, Seek = two_level_Seek II DI block_function,
      Next = two_level_Next II DI block_function, Prev = two_level_Prev II DI block_function,
      Key = \<lambda>t. wrapped_key (data_iter t), Value = \<lambda>t. wrapper_value DI (data_iter t),
      Status = two_level_status_of II DI\<rparr>"

end
