(* ===== verification/TwoLevelProps.thy ===== *)
theory TwoLevelProps
  imports TwoLevelIterator MergingProps
begin

text \<open>
  The two-level iterator keeps the contract of iterators, over the concatenation of the blocks of its index.
\<close>

section \<open>An index and its blocks\<close>

text \<open>The entries of the block with a handle are given by \<open>blk\<close>.\<close>

definition index_entries :: "(slice \<Rightarrow> entry list) \<Rightarrow> entry list \<Rightarrow> entry list" where
  "index_entries blk ies = concat (map (\<lambda>x. blk (snd x)) ies)"

definition block_start :: "(slice \<Rightarrow> entry list) \<Rightarrow> entry list \<Rightarrow> nat \<Rightarrow> nat" where
  "block_start blk ies j = length (index_entries blk (take j ies))"

text \<open>The key of an index entry is at or past the keys of its block and before those of later blocks.\<close>

definition index_ok :: "(slice \<Rightarrow> bool) \<Rightarrow> (slice \<Rightarrow> slice \<Rightarrow> int) \<Rightarrow> (slice \<Rightarrow> entry list) \<Rightarrow> entry list \<Rightarrow> bool" where
  "index_ok valid Compare blk ies \<longleftrightarrow>
     (\<forall>x \<in> set ies. valid (fst x) \<and> (\<forall>e \<in> set (blk (snd x)). valid (fst e) \<and> Compare (fst e) (fst x) \<le> 0)) \<and>
     (\<forall>j k. j < k \<longrightarrow> k < length ies \<longrightarrow> (\<forall>e \<in> set (blk (snd (ies ! k))). Compare (fst (ies ! j)) (fst e) < 0)) \<and>
     sorted_entries Compare (index_entries blk ies)"

lemma block_start_simps [simp]:
  "block_start blk ies 0 = 0"
  "j < length ies \<Longrightarrow> block_start blk ies (Suc j) = block_start blk ies j + length (blk (snd (ies ! j)))"
  by (simp_all add: block_start_def index_entries_def take_Suc_conv_app_nth)

lemma block_start_all: "block_start blk ies (length ies) = length (index_entries blk ies)"
  by (simp add: block_start_def)

lemma index_entries_split:
  assumes "j < length ies"
  shows "index_entries blk ies = index_entries blk (take j ies) @ blk (snd (ies ! j)) @ index_entries blk (drop (Suc j) ies)"
proof -
  have "ies = take j ies @ ies ! j # drop (Suc j) ies" by (rule id_take_nth_drop [OF assms])
  then have "index_entries blk ies = index_entries blk (take j ies @ ies ! j # drop (Suc j) ies)" by (rule arg_cong)
  then show ?thesis by (simp add: index_entries_def)
qed

lemma index_entries_nth:
  assumes "j < length ies" "p < length (blk (snd (ies ! j)))"
  shows "index_entries blk ies ! (block_start blk ies j + p) = blk (snd (ies ! j)) ! p"
    "block_start blk ies j + p < length (index_entries blk ies)"
  using assms by (simp_all add: index_entries_split [OF assms(1)] block_start_def nth_append)

section \<open>Positions of the two-level iterator\<close>

definition blocks_open ::
  "(entry list \<Rightarrow> 'd \<Rightarrow> nat \<Rightarrow> bool) \<Rightarrow> (slice \<Rightarrow> entry list) \<Rightarrow> (slice \<Rightarrow> 'd) \<Rightarrow> entry list \<Rightarrow> bool" where
  "blocks_open dstands blk block_function ies \<longleftrightarrow>
     (\<forall>x \<in> set ies. \<exists>i. dstands (blk (snd x)) (block_function (snd x)) i)"

text \<open>The data iterator is not there, or stands somewhere in the block of the handle kept.\<close>

definition data_ok ::
  "'d iterator_class \<Rightarrow> (entry list \<Rightarrow> 'd \<Rightarrow> nat \<Rightarrow> bool) \<Rightarrow> (slice \<Rightarrow> entry list) \<Rightarrow> ('i, 'd) two_level \<Rightarrow> bool" where
  "data_ok DI dstands blk t \<longleftrightarrow> two_level_status t = Status_OK \<and>
     (if wrapped (data_iter t) = None then \<not> wrapped_valid (data_iter t)
      else \<exists>p. wrapped_at DI dstands (blk (data_block_handle t)) (data_iter t) p)"

definition at_block ::
  "'i iterator_class \<Rightarrow> (entry list \<Rightarrow> 'i \<Rightarrow> nat \<Rightarrow> bool) \<Rightarrow> 'd iterator_class \<Rightarrow> (entry list \<Rightarrow> 'd \<Rightarrow> nat \<Rightarrow> bool) \<Rightarrow>
    (slice \<Rightarrow> entry list) \<Rightarrow> entry list \<Rightarrow> ('i, 'd) two_level \<Rightarrow> nat \<Rightarrow> nat \<Rightarrow> bool"
where
  "at_block II istands DI dstands blk ies t j p \<longleftrightarrow> j < length ies \<and> wrapped_at II istands ies (index_iter t) j \<and>
     two_level_status t = Status_OK \<and> data_block_handle t = snd (ies ! j) \<and>
     wrapped_at DI dstands (blk (snd (ies ! j))) (data_iter t) p"

definition no_block ::
  "'i iterator_class \<Rightarrow> (entry list \<Rightarrow> 'i \<Rightarrow> nat \<Rightarrow> bool) \<Rightarrow> 'd iterator_class \<Rightarrow> (entry list \<Rightarrow> 'd \<Rightarrow> nat \<Rightarrow> bool) \<Rightarrow>
    (slice \<Rightarrow> entry list) \<Rightarrow> entry list \<Rightarrow> ('i, 'd) two_level \<Rightarrow> nat \<Rightarrow> bool"
where
  "no_block II istands DI dstands blk ies t j \<longleftrightarrow> wrapped_at II istands ies (index_iter t) j \<and>
     wrapped (data_iter t) = None \<and> data_ok DI dstands blk t"

definition two_level_over ::
  "'i iterator_class \<Rightarrow> (entry list \<Rightarrow> 'i \<Rightarrow> nat \<Rightarrow> bool) \<Rightarrow> 'd iterator_class \<Rightarrow> (entry list \<Rightarrow> 'd \<Rightarrow> nat \<Rightarrow> bool) \<Rightarrow>
    (slice \<Rightarrow> bool) \<Rightarrow> (slice \<Rightarrow> slice \<Rightarrow> int) \<Rightarrow> (slice \<Rightarrow> 'd) \<Rightarrow> entry list \<Rightarrow> ('i, 'd) two_level \<Rightarrow> nat \<Rightarrow> bool"
where
  "two_level_over II istands DI dstands valid Compare block_function es t i \<longleftrightarrow>
     (\<exists>blk ies. es = index_entries blk ies \<and> index_ok valid Compare blk ies \<and> blocks_open dstands blk block_function ies \<and>
       (if i = length es then \<exists>j. no_block II istands DI dstands blk ies t j
        else \<exists>j p. at_block II istands DI dstands blk ies t j p \<and> p < length (blk (snd (ies ! j))) \<and>
          i = block_start blk ies j + p))"

locale two_level = comparator valid Compare Separator Successor +
  index: iterator II valid Compare istands + data: iterator DI valid Compare dstands
  for valid Compare Separator Successor and II :: "'i iterator_class" and istands
    and DI :: "'d iterator_class" and dstands
begin

abbreviation (input) at :: "(slice \<Rightarrow> entry list) \<Rightarrow> entry list \<Rightarrow> ('i, 'd) two_level \<Rightarrow> nat \<Rightarrow> nat \<Rightarrow> bool" where
  "at \<equiv> at_block II istands DI dstands"

abbreviation (input) nowhere :: "(slice \<Rightarrow> entry list) \<Rightarrow> entry list \<Rightarrow> ('i, 'd) two_level \<Rightarrow> nat \<Rightarrow> bool" where
  "nowhere \<equiv> no_block II istands DI dstands"

abbreviation (input) all_ok :: "(slice \<Rightarrow> entry list) \<Rightarrow> (slice \<Rightarrow> 'd) \<Rightarrow> entry list \<Rightarrow> bool" where
  "all_ok blk block_function ies \<equiv> index_ok valid Compare blk ies \<and> blocks_open dstands blk block_function ies"

abbreviation (input) over2 :: "(slice \<Rightarrow> 'd) \<Rightarrow> entry list \<Rightarrow> ('i, 'd) two_level \<Rightarrow> nat \<Rightarrow> bool" where
  "over2 \<equiv> two_level_over II istands DI dstands valid Compare"

lemma wrapped_not_None: "wrapped_at DI dstands es w p \<Longrightarrow> wrapped w \<noteq> None"
  by (auto simp: wrapped_at_def)

lemma data_status: "data_ok DI dstands blk t \<Longrightarrow> wrapped (data_iter t) \<noteq> None \<Longrightarrow> wrapper_status DI (data_iter t) = Status_OK"
  using data.wrapped_at_valid(5) by (auto simp: data_ok_def)

lemma SetDataIterator_None:
  assumes "data_ok DI dstands blk t"
  shows "wrapped (data_iter (SetDataIterator DI None t)) = None" "data_ok DI dstands blk (SetDataIterator DI None t)"
    "index_iter (SetDataIterator DI None t) = index_iter t"
  using assms data_status [OF assms]
  by (auto simp: SetDataIterator_def SaveError_def wrapper_Set_def data_ok_def Let_def)

lemma InitDataBlock_at:
  assumes "data_ok DI dstands blk t" "wrapped_at II istands ies (index_iter t) j" "j < length ies"
    "blocks_open dstands blk block_function ies"
  shows "\<exists>p. at blk ies (InitDataBlock II DI block_function t) j p"
proof -
  have v: "wrapped_valid (index_iter t)" "wrapper_value II (index_iter t) = snd (ies ! j)"
    using index.wrapped_at_valid(2,4) [OF assms(2)] assms(3) by simp_all
  show ?thesis
  proof (cases "wrapped (data_iter t) \<noteq> None \<and> snd (ies ! j) = data_block_handle t")
    case True
    then show ?thesis using assms v by (auto simp: InitDataBlock_def Let_def at_block_def data_ok_def)
  next
    case False
    obtain i where i: "dstands (blk (snd (ies ! j))) (block_function (snd (ies ! j))) i"
      using assms(3,4) unfolding blocks_open_def by (meson nth_mem)
    have "InitDataBlock II DI block_function t =
        SetDataIterator DI (Some (block_function (snd (ies ! j)))) (t\<lparr>data_block_handle := snd (ies ! j)\<rparr>)"
      using v False by (auto simp: InitDataBlock_def Let_def)
    then show ?thesis
      using assms data_status [OF assms(1)] wrapped_at_Update [of dstands "blk (snd (ies ! j))" "block_function (snd (ies ! j))" i DI "data_iter t", OF i]
      by (auto simp: SetDataIterator_def SaveError_def wrapper_Set_def at_block_def data_ok_def Let_def)
  qed
qed

lemma InitDataBlock_end:
  assumes "data_ok DI dstands blk t" "wrapped_at II istands ies (index_iter t) (length ies)"
  shows "nowhere blk ies (InitDataBlock II DI block_function t) (length ies)"
proof -
  have "InitDataBlock II DI block_function t = SetDataIterator DI None t"
    using index.wrapped_at_valid(2) [OF assms(2)] by (simp add: InitDataBlock_def)
  then show ?thesis using SetDataIterator_None [OF assms(1)] assms(2) by (simp add: no_block_def)
qed

lemma at_data_ok: "at blk ies t j p \<Longrightarrow> data_ok DI dstands blk t"
  unfolding at_block_def data_ok_def using wrapped_not_None by metis

lemma at_valid: "at blk ies t j p \<Longrightarrow> wrapped_valid (data_iter t) \<longleftrightarrow> p < length (blk (snd (ies ! j)))"
  using data.wrapped_at_valid(2) by (auto simp: at_block_def)

text \<open>Opening the block the index is moved to.\<close>

lemma move_block_at:
  assumes "data_ok DI dstands blk t" "\<exists>w. f (index_iter t) = Some w \<and> wrapped_at II istands ies w j"
    "blocks_open dstands blk block_function ies" "j \<le> length ies"
    "\<And>w p. j < length ies \<Longrightarrow> wrapped_at DI dstands (blk (snd (ies ! j))) w p \<Longrightarrow>
      \<exists>w'. g w = Some w' \<and> wrapped_at DI dstands (blk (snd (ies ! j))) w' q"
  shows "\<exists>t'. move_block II DI block_function f g t = Some t' \<and>
    (if j < length ies then at blk ies t' j q else nowhere blk ies t' j)"
proof -
  from assms(2) obtain w where w: "f (index_iter t) = Some w" "wrapped_at II istands ies w j" by blast
  define t1 where "t1 = t\<lparr>index_iter := w\<rparr>"
  have d: "data_ok DI dstands blk t1" "wrapped_at II istands ies (index_iter t1) j"
    using assms(1) w(2) by (simp_all add: t1_def data_ok_def)
  have m: "move_block II DI block_function f g t = on_data g (InitDataBlock II DI block_function t1)"
    using w(1) by (simp add: move_block_def on_index_def t1_def)
  show ?thesis
  proof (cases "j < length ies")
    case True
    define t2 where "t2 = InitDataBlock II DI block_function t1"
    from InitDataBlock_at [OF d True assms(3)] obtain p where p: "at blk ies t2 j p" by (auto simp: t2_def)
    then have "wrapped_at DI dstands (blk (snd (ies ! j))) (data_iter t2) p" by (simp add: at_block_def)
    from assms(5) [OF True this] wrapped_not_None [OF this] obtain w' where
      "g (data_iter t2) = Some w'" "wrapped_at DI dstands (blk (snd (ies ! j))) w' q" "wrapped (data_iter t2) \<noteq> None" by blast
    then show ?thesis
      using p True unfolding m t2_def [symmetric] by (simp add: on_data_def at_block_def)
  next
    case False
    then have j: "j = length ies" using assms(4) by simp
    from InitDataBlock_end [OF d(1) d(2) [unfolded j], of block_function] show ?thesis
      unfolding m using j by (simp add: on_data_def no_block_def)
  qed
qed

lemma over2_at:
  assumes "at blk ies t j p" "p < length (blk (snd (ies ! j)))" "all_ok blk block_function ies"
  shows "over2 block_function (index_entries blk ies) t (block_start blk ies j + p)"
proof -
  have "block_start blk ies j + p < length (index_entries blk ies)"
    using assms(1,2) by (intro index_entries_nth(2)) (auto simp: at_block_def)
  then show ?thesis using assms unfolding two_level_over_def by (metis less_not_refl3)
qed

lemma skip_stop:
  assumes "wrapped_valid (data_iter t)" "wrapped (data_iter t) \<noteq> None"
  shows "skip_blocks DI body t = Some t"
  using assms by (subst skip_blocks.simps) (simp del: not_None_eq)

lemma skip_nowhere:
  assumes "nowhere blk ies t (length ies)" "all_ok blk block_function ies"
  shows "\<exists>t'. skip_blocks DI body t = Some t' \<and>
    over2 block_function (index_entries blk ies) t' (length (index_entries blk ies))"
proof -
  have t: "wrapped_at II istands ies (index_iter t) (length ies)" "wrapped (data_iter t) = None" "data_ok DI dstands blk t"
    using assms(1) by (auto simp: no_block_def)
  have "skip_blocks DI body t = Some (SetDataIterator DI None t)"
    using t(2) index.wrapped_at_valid(2) [OF t(1)] by (subst skip_blocks.simps) simp
  moreover have "nowhere blk ies (SetDataIterator DI None t) (length ies)"
    using SetDataIterator_None [OF t(3)] t(1) by (simp add: no_block_def)
  ultimately show ?thesis using assms(2) unfolding two_level_over_def by auto
qed

section \<open>Skipping empty blocks\<close>

lemma skip_forward:
  assumes "at blk ies t j p" "p \<le> length (blk (snd (ies ! j)))" "all_ok blk block_function ies"
  shows "\<exists>t'. SkipEmptyDataBlocksForward II DI block_function t = Some t' \<and>
    over2 block_function (index_entries blk ies) t' (block_start blk ies j + p)"
  using assms(1,2)
proof (induction "length ies - j" arbitrary: t j p rule: less_induct)
  case less
  note a = less(2)
  have j: "j < length ies" "wrapped_at II istands ies (index_iter t) j" "wrapped (data_iter t) \<noteq> None"
    using a wrapped_not_None by (auto simp: at_block_def)
  show ?case
  proof (cases "p < length (blk (snd (ies ! j)))")
    case True
    then show ?thesis
      using over2_at [OF a True assms(3)] at_valid [OF a] skip_stop [OF _ j(3)]
      by (simp add: SkipEmptyDataBlocksForward_def)
  next
    case False
    then have p: "p = length (blk (snd (ies ! j)))" using less(3) by simp
    have step: "SkipEmptyDataBlocksForward II DI block_function t =
        Option.bind (move_block II DI block_function (wrapper_Next II) (wrapper_SeekToFirst DI) t)
          (SkipEmptyDataBlocksForward II DI block_function)"
      using at_valid [OF a] p index.wrapped_at_valid(2) [OF j(2)] j(1)
      unfolding SkipEmptyDataBlocksForward_def by (subst skip_blocks.simps) (simp add: SkipEmptyDataBlocksForward_def)
    have "\<exists>t'. move_block II DI block_function (wrapper_Next II) (wrapper_SeekToFirst DI) t = Some t' \<and>
        (if Suc j < length ies then at blk ies t' (Suc j) 0 else nowhere blk ies t' (Suc j))"
      using j assms(3) by (intro move_block_at at_data_ok [OF a] index.wrapper_at(4) [OF j(2,1)] data.wrapper_at(1)) auto
    then obtain t' where t': "move_block II DI block_function (wrapper_Next II) (wrapper_SeekToFirst DI) t = Some t'"
      "if Suc j < length ies then at blk ies t' (Suc j) 0 else nowhere blk ies t' (Suc j)" by blast
    show ?thesis
    proof (cases "Suc j < length ies")
      case True
      then have "at blk ies t' (Suc j) 0" using t'(2) by simp
      from less(1) [OF _ this le0] j(1) True p show ?thesis by (simp add: step t'(1))
    next
      case False
      then have e: "Suc j = length ies" using j(1) by simp
      then have "block_start blk ies j + p = length (index_entries blk ies)"
        using block_start_simps(2) [OF j(1), of blk] block_start_all [of blk ies] p by simp
      with skip_nowhere [OF _ assms(3), of t'] t'(2) e show ?thesis
        unfolding step t'(1) by (auto simp: SkipEmptyDataBlocksForward_def)
    qed
  qed
qed

lemma skip_backward:
  assumes "at blk ies t j (prev_index q (blk (snd (ies ! j))))" "q \<le> length (blk (snd (ies ! j)))" "all_ok blk block_function ies"
  shows "\<exists>t'. SkipEmptyDataBlocksBackward II DI block_function t = Some t' \<and>
    over2 block_function (index_entries blk ies) t' (prev_index (block_start blk ies j + q) (index_entries blk ies))"
  using assms(1,2)
proof (induction j arbitrary: t q rule: less_induct)
  case (less j)
  note a = less(2)
  have j: "j < length ies" "wrapped_at II istands ies (index_iter t) j" "wrapped (data_iter t) \<noteq> None"
    using a wrapped_not_None by (auto simp: at_block_def)
  show ?case
  proof (cases "q = 0")
    case False
    then have p: "prev_index q (blk (snd (ies ! j))) < length (blk (snd (ies ! j)))"
      "block_start blk ies j + prev_index q (blk (snd (ies ! j))) = prev_index (block_start blk ies j + q) (index_entries blk ies)"
      using less(3) by (auto simp: prev_index_def)
    then show ?thesis
      using over2_at [OF a p(1) assms(3)] at_valid [OF a] skip_stop [OF _ j(3)]
      by (simp add: SkipEmptyDataBlocksBackward_def)
  next
    case True
    have step: "SkipEmptyDataBlocksBackward II DI block_function t =
        Option.bind (move_block II DI block_function (wrapper_Prev II) (wrapper_SeekToLast DI) t)
          (SkipEmptyDataBlocksBackward II DI block_function)"
      using at_valid [OF a] True index.wrapped_at_valid(2) [OF j(2)] j(1)
      unfolding SkipEmptyDataBlocksBackward_def
      by (subst skip_blocks.simps) (simp add: SkipEmptyDataBlocksBackward_def prev_index_def)
    define j' where "j' = prev_index j ies"
    have "\<exists>t'. move_block II DI block_function (wrapper_Prev II) (wrapper_SeekToLast DI) t = Some t' \<and>
        (if j' < length ies then at blk ies t' j' (length (blk (snd (ies ! j'))) - 1) else nowhere blk ies t' j')"
      unfolding j'_def using j assms(3)
      by (intro move_block_at at_data_ok [OF a] index.wrapper_at(5) [OF j(2,1)] data.wrapper_at(2)) (auto simp: prev_index_def)
    then obtain t' where t': "move_block II DI block_function (wrapper_Prev II) (wrapper_SeekToLast DI) t = Some t'"
      "if j' < length ies then at blk ies t' j' (length (blk (snd (ies ! j'))) - 1) else nowhere blk ies t' j'" by blast
    show ?thesis
    proof (cases "j = 0")
      case z: True
      then have "j' = length ies" by (simp add: j'_def prev_index_def)
      with skip_nowhere [OF _ assms(3), of t'] t'(2) z True show ?thesis
        unfolding step t'(1) by (auto simp: SkipEmptyDataBlocksBackward_def prev_index_def)
    next
      case False
      then have e: "j' < j" "j' < length ies" "Suc j' = j" using j(1) by (simp_all add: j'_def prev_index_def)
      have "prev_index (length (blk (snd (ies ! j')))) (blk (snd (ies ! j'))) = length (blk (snd (ies ! j'))) - 1"
        by (simp add: prev_index_def)
      then have at': "at blk ies t' j' (prev_index (length (blk (snd (ies ! j')))) (blk (snd (ies ! j'))))"
        using t'(2) e by simp
      have "block_start blk ies j' + length (blk (snd (ies ! j'))) = block_start blk ies j + q"
        using block_start_simps(2) [OF e(2), of blk] e(3) True by simp
      with less(1) [OF e(1) at' order_refl] show ?thesis by (simp add: step t'(1))
    qed
  qed
qed

section \<open>Moving the iterator\<close>

lemma over2_data_ok:
  assumes "over2 block_function es t i"
  shows "\<exists>blk ies. es = index_entries blk ies \<and> all_ok blk block_function ies \<and> data_ok DI dstands blk t \<and>
    (\<exists>j. wrapped_at II istands ies (index_iter t) j)"
  using assms at_data_ok unfolding two_level_over_def no_block_def at_block_def by (metis (no_types, lifting))

lemma over2_at_block:
  assumes "over2 block_function es t i" "i < length es"
  shows "\<exists>blk ies j p. es = index_entries blk ies \<and> all_ok blk block_function ies \<and> at blk ies t j p \<and>
    p < length (blk (snd (ies ! j))) \<and> i = block_start blk ies j + p"
  using assms unfolding two_level_over_def by auto

lemma two_level_SeekToFirst_over:
  assumes "over2 block_function es t i"
  shows "\<exists>t'. two_level_SeekToFirst II DI block_function t = Some t' \<and> over2 block_function es t' 0"
proof -
  from over2_data_ok [OF assms] obtain blk ies j where b: "es = index_entries blk ies" "all_ok blk block_function ies"
    "data_ok DI dstands blk t" "wrapped_at II istands ies (index_iter t) j" by blast
  have "\<exists>t'. move_block II DI block_function (wrapper_SeekToFirst II) (wrapper_SeekToFirst DI) t = Some t' \<and>
      (if 0 < length ies then at blk ies t' 0 0 else nowhere blk ies t' 0)"
    using b by (intro move_block_at index.wrapper_at(1) [OF b(4)] data.wrapper_at(1)) auto
  then obtain t' where t': "move_block II DI block_function (wrapper_SeekToFirst II) (wrapper_SeekToFirst DI) t = Some t'"
    "if 0 < length ies then at blk ies t' 0 0 else nowhere blk ies t' 0" by blast
  show ?thesis
  proof (cases "ies = []")
    case True
    with skip_nowhere [OF _ b(2), of t'] t'(2) show ?thesis
      by (auto simp: two_level_SeekToFirst_def t'(1) b(1) SkipEmptyDataBlocksForward_def index_entries_def)
  next
    case False
    with skip_forward [OF _ le0 b(2), of t' 0] t'(2) show ?thesis
      by (auto simp: two_level_SeekToFirst_def t'(1) b(1))
  qed
qed

lemma two_level_SeekToLast_over:
  assumes "over2 block_function es t i"
  shows "\<exists>t'. two_level_SeekToLast II DI block_function t = Some t' \<and> over2 block_function es t' (length es - 1)"
proof -
  from over2_data_ok [OF assms] obtain blk ies k where b: "es = index_entries blk ies" "all_ok blk block_function ies"
    "data_ok DI dstands blk t" "wrapped_at II istands ies (index_iter t) k" by blast
  define j where "j = length ies - 1"
  have "\<exists>t'. move_block II DI block_function (wrapper_SeekToLast II) (wrapper_SeekToLast DI) t = Some t' \<and>
      (if j < length ies then at blk ies t' j (length (blk (snd (ies ! j))) - 1) else nowhere blk ies t' j)"
    unfolding j_def using b by (intro move_block_at index.wrapper_at(2) [OF b(4)] data.wrapper_at(2)) auto
  then obtain t' where t': "move_block II DI block_function (wrapper_SeekToLast II) (wrapper_SeekToLast DI) t = Some t'"
    "if j < length ies then at blk ies t' j (length (blk (snd (ies ! j))) - 1) else nowhere blk ies t' j" by blast
  show ?thesis
  proof (cases "ies = []")
    case True
    with skip_nowhere [OF _ b(2), of t'] t'(2) show ?thesis
      by (auto simp: two_level_SeekToLast_def t'(1) b(1) SkipEmptyDataBlocksBackward_def index_entries_def j_def)
  next
    case False
    then have j: "j < length ies" "Suc j = length ies" by (simp_all add: j_def)
    have "prev_index (length (blk (snd (ies ! j)))) (blk (snd (ies ! j))) = length (blk (snd (ies ! j))) - 1"
      by (simp add: prev_index_def)
    with t'(2) j have "at blk ies t' j (prev_index (length (blk (snd (ies ! j)))) (blk (snd (ies ! j))))" by simp
    moreover have "block_start blk ies j + length (blk (snd (ies ! j))) = length es"
      using block_start_simps(2) [OF j(1), of blk] block_start_all [of blk ies] j(2) b(1) by simp
    moreover have "prev_index (length es) es = length es - 1" by (simp add: prev_index_def)
    ultimately show ?thesis using skip_backward [OF _ order_refl b(2), of t' j]
      by (auto simp: two_level_SeekToLast_def t'(1) b(1))
  qed
qed

text \<open>The first entry at or past a target is found through the index.\<close>

lemma seek_blocks:
  assumes "index_ok valid Compare blk ies" "valid target" "j = seek_index Compare target ies"
  shows "seek_index Compare target (index_entries blk ies) =
    (if j < length ies then block_start blk ies j + seek_index Compare target (blk (snd (ies ! j)))
     else length (index_entries blk ies))"
proof -
  have early: "Compare (fst e) target < 0" if "e \<in> set (index_entries blk (take j ies))" for e
  proof -
    from that obtain x where x: "x \<in> set (take j ies)" "e \<in> set (blk (snd x))" by (auto simp: index_entries_def)
    then obtain k where k: "k < j" "k < length ies" "e \<in> set (blk (snd (ies ! k)))"
      unfolding in_set_conv_nth [of x] by auto
    then have "Compare (fst (ies ! k)) target < 0" using seek_index_less assms(3) by simp
    moreover have "Compare (fst e) (fst (ies ! k)) \<le> 0" "valid (fst e)" "valid (fst (ies ! k))"
      using assms(1) k(2,3) unfolding index_ok_def by (meson nth_mem)+
    ultimately show ?thesis using le_less_trans assms(2) by blast
  qed
  show ?thesis
  proof (cases "j < length ies")
    case False
    then have "j = length ies" using seek_index_le [of Compare target ies] assms(3) by simp
    then have "seek_index Compare target (index_entries blk ies) = length (index_entries blk ies)"
      using early by (intro seek_indexI) auto
    then show ?thesis using False by simp
  next
    case True
    define b where "b = blk (snd (ies ! j))"
    define q where "q = seek_index Compare target b"
    note split = index_entries_split [OF True, of blk, folded b_def]
    have q: "q \<le> length b" by (simp add: q_def seek_index_le)
    have late: "0 \<le> Compare (fst e) target" if "e \<in> set (index_entries blk (drop (Suc j) ies))" for e
    proof -
      from that obtain x where x: "x \<in> set (drop (Suc j) ies)" "e \<in> set (blk (snd x))" by (auto simp: index_entries_def)
      then obtain k where "k < length (drop (Suc j) ies)" "x = ies ! (Suc j + k)"
        unfolding in_set_conv_nth [of x] by auto
      then have k: "Suc j + k < length ies" "e \<in> set (blk (snd (ies ! (Suc j + k))))" using x(2) by auto
      have "0 \<le> Compare (fst (ies ! j)) target" using seek_index_here [of Compare target ies] True assms(3) by simp
      moreover have "Compare (fst (ies ! j)) (fst e) < 0"
        using assms(1) k unfolding index_ok_def by (metis less_add_Suc1 add_Suc)
      moreover have "valid (fst e)" "valid (fst (ies ! j))"
        using assms(1) k True unfolding index_ok_def by (meson nth_mem)+
      ultimately show ?thesis
        using less_le_trans [of "fst (ies ! j)" "fst e" target] assms(2) by (meson linorder_not_le order_less_imp_le)
    qed
    have "seek_index Compare target (index_entries blk ies) = block_start blk ies j + q"
    proof (rule seek_indexI)
      show "block_start blk ies j + q \<le> length (index_entries blk ies)" using q by (simp add: split block_start_def)
      show "Compare (fst (index_entries blk ies ! i)) target < 0" if "i < block_start blk ies j + q" for i
      proof (cases "i < block_start blk ies j")
        case True
        then show ?thesis using early [of "index_entries blk (take j ies) ! i"] by (simp add: split block_start_def nth_append)
      next
        case False
        then have "i - block_start blk ies j < q" using that by simp
        with seek_index_less [of "i - block_start blk ies j" Compare target b] False q show ?thesis
          by (simp add: split block_start_def nth_append q_def)
      qed
      assume l: "block_start blk ies j + q < length (index_entries blk ies)"
      show "0 \<le> Compare (fst (index_entries blk ies ! (block_start blk ies j + q))) target"
      proof (cases "q < length b")
        case True
        then show ?thesis using seek_index_here [of Compare target b] by (simp add: split block_start_def nth_append q_def)
      next
        case False
        then have "q = length b" "index_entries blk (drop (Suc j) ies) \<noteq> []" using q l by (auto simp: split block_start_def)
        then show ?thesis
          using late [of "index_entries blk (drop (Suc j) ies) ! 0"] by (simp add: split block_start_def nth_append)
      qed
    qed
    then show ?thesis using True by (simp add: q_def b_def)
  qed
qed

lemma two_level_Seek_over:
  assumes "over2 block_function es t i" "valid target"
  shows "\<exists>t'. two_level_Seek II DI block_function target t = Some t' \<and>
    over2 block_function es t' (seek_index Compare target es)"
proof -
  from over2_data_ok [OF assms(1)] obtain blk ies k where b: "es = index_entries blk ies" "all_ok blk block_function ies"
    "data_ok DI dstands blk t" "wrapped_at II istands ies (index_iter t) k" by blast
  define j where "j = seek_index Compare target ies"
  note s = seek_blocks [OF conjunct1 [OF b(2)] assms(2) j_def]
  have "\<exists>t'. move_block II DI block_function (wrapper_Seek II target) (wrapper_Seek DI target) t = Some t' \<and>
      (if j < length ies then at blk ies t' j (seek_index Compare target (blk (snd (ies ! j)))) else nowhere blk ies t' j)"
    unfolding j_def using b assms(2) seek_index_le
    by (intro move_block_at index.wrapper_at(3) [OF b(4)] data.wrapper_at(3)) auto
  then obtain t' where t': "move_block II DI block_function (wrapper_Seek II target) (wrapper_Seek DI target) t = Some t'"
    "if j < length ies then at blk ies t' j (seek_index Compare target (blk (snd (ies ! j)))) else nowhere blk ies t' j" by blast
  show ?thesis
  proof (cases "j < length ies")
    case True
    with skip_forward [OF _ seek_index_le b(2), of t' j Compare target] t'(2) s show ?thesis
      by (auto simp: two_level_Seek_def t'(1) b(1))
  next
    case False
    then have "j = length ies" using seek_index_le [of Compare target ies] by (simp add: j_def)
    with skip_nowhere [OF _ b(2), of t'] t'(2) s show ?thesis
      by (auto simp: two_level_Seek_def t'(1) b(1) SkipEmptyDataBlocksForward_def)
  qed
qed

lemma two_level_Next_over:
  assumes "over2 block_function es t i" "i < length es"
  shows "\<exists>t'. two_level_Next II DI block_function t = Some t' \<and> over2 block_function es t' (Suc i)"
proof -
  from over2_at_block [OF assms] obtain blk ies j p where b: "es = index_entries blk ies" "all_ok blk block_function ies"
    "at blk ies t j p" "p < length (blk (snd (ies ! j)))" "i = block_start blk ies j + p" by blast
  then have "wrapped_at DI dstands (blk (snd (ies ! j))) (data_iter t) p" by (simp add: at_block_def)
  from data.wrapper_at(4) [OF this b(4)] obtain w where
    w: "wrapper_Next DI (data_iter t) = Some w" "wrapped_at DI dstands (blk (snd (ies ! j))) w (Suc p)" by blast
  then have "at blk ies (t\<lparr>data_iter := w\<rparr>) j (Suc p)" using b(3) by (simp add: at_block_def)
  from skip_forward [OF this _ b(2)] b(4) show ?thesis by (auto simp: two_level_Next_def w(1) b(1,5))
qed

lemma two_level_Prev_over:
  assumes "over2 block_function es t i" "i < length es"
  shows "\<exists>t'. two_level_Prev II DI block_function t = Some t' \<and> over2 block_function es t' (prev_index i es)"
proof -
  from over2_at_block [OF assms] obtain blk ies j p where b: "es = index_entries blk ies" "all_ok blk block_function ies"
    "at blk ies t j p" "p < length (blk (snd (ies ! j)))" "i = block_start blk ies j + p" by blast
  then have "wrapped_at DI dstands (blk (snd (ies ! j))) (data_iter t) p" by (simp add: at_block_def)
  from data.wrapper_at(5) [OF this b(4)] obtain w where
    w: "wrapper_Prev DI (data_iter t) = Some w" "wrapped_at DI dstands (blk (snd (ies ! j))) w (prev_index p (blk (snd (ies ! j))))"
    by blast
  then have "at blk ies (t\<lparr>data_iter := w\<rparr>) j (prev_index p (blk (snd (ies ! j))))" using b(3) by (simp add: at_block_def)
  from skip_backward [OF this _ b(2)] b(4) show ?thesis by (auto simp: two_level_Prev_def w(1) b(1,5))
qed

lemma two_level_status:
  assumes "over2 block_function es t i"
  shows "two_level_status_of II DI t = Status_OK"
proof -
  from over2_data_ok [OF assms] obtain blk ies j where b: "data_ok DI dstands blk t"
    "wrapped_at II istands ies (index_iter t) j" by blast
  then show ?thesis
    using index.wrapped_at_valid(5) [OF b(2)] data_status [OF b(1)] by (simp add: two_level_status_of_def data_ok_def)
qed

lemma two_level_iterator:
  "iterator (two_level_iterator II DI block_function) valid Compare (over2 block_function)"
proof
  fix es t i
  assume o: "over2 block_function es t i"
  show le: "i \<le> length es"
  proof (rule ccontr)
    assume "\<not> i \<le> length es"
    then obtain blk ies j p where "es = index_entries blk ies" "at blk ies t j p" "p < length (blk (snd (ies ! j)))"
      "i = block_start blk ies j + p" using o unfolding two_level_over_def by auto
    with index_entries_nth(2) [of j ies p blk] \<open>\<not> i \<le> length es\<close> show False by (simp add: at_block_def)
  qed
  show "Valid (two_level_iterator II DI block_function) t \<longleftrightarrow> i < length es"
  proof (cases "i < length es")
    case True
    from over2_at_block [OF o True] at_valid show ?thesis using True by (auto simp: two_level_iterator_def)
  next
    case False
    then have "i = length es" using le by simp
    then have "\<not> wrapped_valid (data_iter t)" using o by (auto simp: two_level_over_def no_block_def data_ok_def)
    then show ?thesis using False by (simp add: two_level_iterator_def)
  qed
  show "Status (two_level_iterator II DI block_function) t = Status_OK"
    using two_level_status [OF o] by (simp add: two_level_iterator_def)
  show "\<exists>t'. SeekToFirst (two_level_iterator II DI block_function) t = Some t' \<and> over2 block_function es t' 0"
    using two_level_SeekToFirst_over [OF o] by (simp add: two_level_iterator_def)
  show "\<exists>t'. SeekToLast (two_level_iterator II DI block_function) t = Some t' \<and> over2 block_function es t' (length es - 1)"
    using two_level_SeekToLast_over [OF o] by (simp add: two_level_iterator_def)
  show "\<exists>t'. Seek (two_level_iterator II DI block_function) target t = Some t' \<and>
      over2 block_function es t' (seek_index Compare target es)" if "valid target" for target
    using two_level_Seek_over [OF o that] by (simp add: two_level_iterator_def)
  assume i: "i < length es"
  from over2_at_block [OF o i] obtain blk ies j p where b: "es = index_entries blk ies" "at blk ies t j p"
    "p < length (blk (snd (ies ! j)))" "i = block_start blk ies j + p" by blast
  then have w: "j < length ies" "wrapped_at DI dstands (blk (snd (ies ! j))) (data_iter t) p" by (auto simp: at_block_def)
  show "Key (two_level_iterator II DI block_function) t = fst (es ! i)"
    "Value (two_level_iterator II DI block_function) t = snd (es ! i)"
    using data.wrapped_at_valid(3,4) [OF w(2) b(3)] index_entries_nth(1) [of j ies p blk, OF w(1) b(3)] b(1,4)
    by (simp_all add: two_level_iterator_def)
  show "\<exists>t'. Next (two_level_iterator II DI block_function) t = Some t' \<and> over2 block_function es t' (Suc i)"
    using two_level_Next_over [OF o i] by (simp add: two_level_iterator_def)
  show "\<exists>t'. Prev (two_level_iterator II DI block_function) t = Some t' \<and> over2 block_function es t' (prev_index i es)"
    using two_level_Prev_over [OF o i] by (simp add: two_level_iterator_def)
qed

lemma TwoLevelIterator_over:
  assumes "all_ok blk block_function ies" "istands ies index j"
  shows "over2 block_function (index_entries blk ies) (TwoLevelIterator II index) (length (index_entries blk ies))"
proof -
  have "wrapped_at II istands ies (wrapper_Set II (Some index) IteratorWrapper) j"
    using wrapped_at_Update [of istands ies index j II IteratorWrapper, OF assms(2)] by (simp add: wrapper_Set_def)
  then have "nowhere blk ies (TwoLevelIterator II index) j"
    by (simp add: no_block_def TwoLevelIterator_def data_ok_def IteratorWrapper_def)
  then show ?thesis using assms(1) unfolding two_level_over_def by auto
qed

end

interpretation blocks_of_blocks: two_level "internal_valid (\<lambda>_. True)" "InternalKey_Compare slice_compare"
  "InternalKey_FindShortestSeparator slice_compare FindShortestSeparator"
  "InternalKey_FindShortSuccessor slice_compare FindShortSuccessor"
  "block_iterator (InternalKey_Compare slice_compare)"
  "block_over (internal_valid (\<lambda>_. True)) (InternalKey_Compare slice_compare)"
  "block_iterator (InternalKey_Compare slice_compare)"
  "block_over (internal_valid (\<lambda>_. True)) (InternalKey_Compare slice_compare)"
  by (intro two_level.intro internal_bytewise.comparator_axioms internal_block_iter.iterator_axioms)

end
