(* ===== verification/DbIterProps.thy ===== *)
theory DbIterProps
  imports DbIter MergingProps TwoLevelProps
begin

text \<open>
  What the user sees: the database's iterator keeps the contract of iterators over the visible entries of a
  snapshot, whatever internal iterator it is given.
\<close>

section \<open>The visible entries\<close>

definition entry_key :: "entry list \<Rightarrow> nat \<Rightarrow> slice" where
  "entry_key es i = ExtractUserKey (fst (es ! i))"

definition entry_sequence :: "entry list \<Rightarrow> nat \<Rightarrow> SequenceNumber" where
  "entry_sequence es i = drop_bit 8 (key_number (fst (es ! i)))"

definition entry_type :: "entry list \<Rightarrow> nat \<Rightarrow> ValueType" where
  "entry_type es i = ucast (key_number (fst (es ! i)) AND 0xff)"

text \<open>Entries written before the snapshot, and the first of them for its user key when it is a value.\<close>

definition seen :: "SequenceNumber \<Rightarrow> entry list \<Rightarrow> nat \<Rightarrow> bool" where
  "seen snapshot es i \<longleftrightarrow> entry_sequence es i \<le> snapshot"

definition live :: "(slice \<Rightarrow> slice \<Rightarrow> int) \<Rightarrow> SequenceNumber \<Rightarrow> entry list \<Rightarrow> nat \<Rightarrow> bool" where
  "live Compare snapshot es i \<longleftrightarrow> seen snapshot es i \<and> entry_type es i = kTypeValue \<and>
     (\<forall>j < i. Compare (entry_key es j) (entry_key es i) = 0 \<longrightarrow> \<not> seen snapshot es j)"

definition live_indices :: "(slice \<Rightarrow> slice \<Rightarrow> int) \<Rightarrow> SequenceNumber \<Rightarrow> entry list \<Rightarrow> nat list" where
  "live_indices Compare snapshot es = filter (live Compare snapshot es) [0..<length es]"

definition visible :: "(slice \<Rightarrow> slice \<Rightarrow> int) \<Rightarrow> SequenceNumber \<Rightarrow> entry list \<Rightarrow> entry list" where
  "visible Compare snapshot es = map (\<lambda>i. (entry_key es i, snd (es ! i))) (live_indices Compare snapshot es)"

definition internal_entries_ok :: "(slice \<Rightarrow> bool) \<Rightarrow> (slice \<Rightarrow> slice \<Rightarrow> int) \<Rightarrow> entry list \<Rightarrow> bool" where
  "internal_entries_ok valid Compare es \<longleftrightarrow> sorted_entries (InternalKey_Compare Compare) es \<and>
     (\<forall>e \<in> set es. fst (ParseInternalKey (fst e)) \<and> valid (ExtractUserKey (fst e)))"

lemma ParseInternalKey_parts:
  assumes "fst (ParseInternalKey k)"
  shows "ParseInternalKey k = (True, Some \<lparr>user_key = ExtractUserKey k, key_sequence = drop_bit 8 (key_number k),
      key_type = ucast (key_number k AND 0xff)\<rparr>)"
    "(ucast (key_number k AND 0xff) :: u8) = kTypeDeletion \<or> (ucast (key_number k AND 0xff) :: u8) = kTypeValue"
    "8 \<le> length k"
proof -
  have le1: "c \<le> 1 \<Longrightarrow> c = 0 \<or> c = 1" for c :: u8
    by (cases "c = 0") (simp_all add: word_le_nat_alt word_unat_eq_iff)
  show "8 \<le> length k" using assms by (simp add: ParseInternalKey_def Let_def split: if_splits)
  show "ParseInternalKey k = (True, Some \<lparr>user_key = ExtractUserKey k, key_sequence = drop_bit 8 (key_number k),
      key_type = ucast (key_number k AND 0xff)\<rparr>)"
    using assms by (simp add: ParseInternalKey_def Let_def ExtractUserKey_def key_number_def split: if_splits)
  show "(ucast (key_number k AND 0xff) :: u8) = kTypeDeletion \<or> (ucast (key_number k AND 0xff) :: u8) = kTypeValue"
    using assms by (intro le1) (simp add: ParseInternalKey_def Let_def key_number_def split: if_splits)
qed

section \<open>Counting live entries\<close>

definition live_pos :: "(slice \<Rightarrow> slice \<Rightarrow> int) \<Rightarrow> SequenceNumber \<Rightarrow> entry list \<Rightarrow> nat \<Rightarrow> nat" where
  "live_pos Compare snapshot es r = length (filter (live Compare snapshot es) [0..<r])"

lemma live_pos_0 [simp]: "live_pos Compare snapshot es 0 = 0"
  by (simp add: live_pos_def)

lemma live_pos_Suc: "live_pos Compare snapshot es (Suc r) = live_pos Compare snapshot es r + (if live Compare snapshot es r then 1 else 0)"
  by (simp add: live_pos_def)

lemma live_pos_all: "live_pos Compare snapshot es (length es) = length (visible Compare snapshot es)"
  by (simp add: live_pos_def visible_def live_indices_def)

lemma live_pos_mono: "r \<le> s \<Longrightarrow> live_pos Compare snapshot es r \<le> live_pos Compare snapshot es s"
proof -
  assume "r \<le> s"
  then have "[0..<s] = [0..<r] @ [r..<s]" using upt_add_eq_append [of 0 r "s - r"] by simp
  then show ?thesis by (simp add: live_pos_def)
qed

lemma live_pos_none:
  "r \<le> s \<Longrightarrow> \<forall>i. r \<le> i \<longrightarrow> i < s \<longrightarrow> \<not> live Compare snapshot es i \<Longrightarrow>
    live_pos Compare snapshot es s = live_pos Compare snapshot es r"
proof (induction s)
  case (Suc s)
  then show ?case by (cases "r = Suc s") (auto simp: live_pos_Suc)
qed simp

lemma live_pos_nth:
  assumes "i < length es" "live Compare snapshot es i"
  shows "live_pos Compare snapshot es i < length (visible Compare snapshot es)"
    "live_indices Compare snapshot es ! live_pos Compare snapshot es i = i"
    "visible Compare snapshot es ! live_pos Compare snapshot es i = (entry_key es i, snd (es ! i))"
proof -
  have u: "[0..<length es] = [0..<i] @ i # [Suc i..<length es]"
    using assms(1) upt_add_eq_append [of 0 i "length es - i"] by (simp add: upt_conv_Cons)
  show l: "live_pos Compare snapshot es i < length (visible Compare snapshot es)"
    "live_indices Compare snapshot es ! live_pos Compare snapshot es i = i"
    using assms(2) unfolding visible_def live_indices_def live_pos_def u by (simp_all add: nth_append)
  then show "visible Compare snapshot es ! live_pos Compare snapshot es i = (entry_key es i, snd (es ! i))"
    by (simp add: visible_def)
qed

lemma live_pos_index:
  assumes "u < length (visible Compare snapshot es)"
  shows "\<exists>i < length es. live Compare snapshot es i \<and> live_pos Compare snapshot es i = u"
proof -
  from assms have "u < length (filter (live Compare snapshot es) [0..<length es])" by (simp add: visible_def live_indices_def)
  from filter_nth [OF this] obtain i where "i < length es" "live Compare snapshot es i"
    "length (filter (live Compare snapshot es) (take i [0..<length es])) = u" by auto
  then show ?thesis by (intro exI [of _ i]) (simp add: live_pos_def take_upt)
qed

section \<open>Sampling\<close>

definition same_but_sampling :: "'it db_iter \<Rightarrow> 'it db_iter \<Rightarrow> bool" where
  "same_but_sampling d d' \<longleftrightarrow> di_iter d' = di_iter d \<and> di_status d' = di_status d \<and> saved_key d' = saved_key d \<and>
     saved_value d' = saved_value d \<and> di_direction d' = di_direction d \<and> di_valid d' = di_valid d \<and> seed_ok (di_rnd d')"

lemma same_refl: "seed_ok (di_rnd d) \<Longrightarrow> same_but_sampling d d"
  by (simp add: same_but_sampling_def)

lemma RandomCompactionPeriod_mod:
  assumes "seed_ok rnd"
  shows "RandomCompactionPeriod rnd = (unat (fst (Random_Next rnd)) mod 2097152, fst (Random_Next rnd))"
  using Random_Next_mod(2) [OF assms]
  by (simp add: RandomCompactionPeriod_def Uniform_def kReadBytesPeriod_def Let_def case_prod_beta unat_mod_distrib)

lemma sample_reads_returns:
  assumes "seed_ok (di_rnd d)"
  shows "\<exists>d'. sample_reads k n d = Some d' \<and> same_but_sampling d d' \<and> n \<le> bytes_until_read_sampling d'"
  using assms
proof (induction "(n - bytes_until_read_sampling d, if unat (di_rnd d) mod 2097152 = 0 then 0 else Suc 0)" arbitrary: d
    rule: wf_induct_rule [OF wf_lex_prod [OF wf_less_than wf_less_than]])
  case (1 d)
  show ?case
  proof (cases "bytes_until_read_sampling d < n")
    case True
    define rnd where "rnd = fst (Random_Next (di_rnd d))"
    define period where "period = unat rnd mod 2097152"
    define d1 where "d1 = d\<lparr>di_rnd := rnd, bytes_until_read_sampling := bytes_until_read_sampling d + period,
      read_samples := read_samples d @ [k]\<rparr>"
    have step: "sample_reads k n d = sample_reads k n d1"
      using True by (subst sample_reads.simps) (simp add: RandomCompactionPeriod_mod [OF 1(2)] d1_def rnd_def period_def)
    have ok: "seed_ok (di_rnd d1)" using Random_Next_mod(3) [OF 1(2)] by (simp add: d1_def rnd_def)
    have "((n - bytes_until_read_sampling d1, if unat (di_rnd d1) mod 2097152 = 0 then 0 else Suc 0),
        (n - bytes_until_read_sampling d, if unat (di_rnd d) mod 2097152 = 0 then 0 else Suc 0)) \<in> less_than <*lex*> less_than"
    proof (cases "period = 0")
      case z: True
      then have "unat (di_rnd d1) mod 2097152 = 0" by (simp add: d1_def period_def)
      moreover have "unat (di_rnd d) mod 2097152 \<noteq> 0"
        using no_two_zeros [OF 1(2)] z unfolding period_def rnd_def by blast
      ultimately show ?thesis using z by (simp add: d1_def)
    next
      case False
      then have "n - bytes_until_read_sampling d1 < n - bytes_until_read_sampling d" using True by (simp add: d1_def)
      then show ?thesis by simp
    qed
    from 1(1) [OF this ok] obtain d' where d': "sample_reads k n d1 = Some d'" "same_but_sampling d1 d'"
      "n \<le> bytes_until_read_sampling d'" by blast
    have "same_but_sampling d d'" using d'(2) unfolding same_but_sampling_def d1_def by auto
    with d' step show ?thesis by auto
  next
    case False
    then show ?thesis using 1(2) by (subst sample_reads.simps) (auto intro: same_refl)
  qed
qed

section \<open>Order of the internal entries\<close>

locale db_iter_over = comparator valid Compare Separator Successor +
  internal: iterator I "internal_valid valid" "InternalKey_Compare Compare" stands
  for valid Compare Separator Successor and I :: "'it iterator_class" and stands
begin

abbreviation (input) ok :: "entry list \<Rightarrow> bool" where "ok \<equiv> internal_entries_ok valid Compare"

lemma entry_valid: "ok es \<Longrightarrow> i < length es \<Longrightarrow> valid (entry_key es i)"
  by (simp add: internal_entries_ok_def entry_key_def)

lemma entry_parse:
  assumes "ok es" "i < length es"
  shows "ParseInternalKey (fst (es ! i)) = (True, Some \<lparr>user_key = entry_key es i, key_sequence = entry_sequence es i,
      key_type = entry_type es i\<rparr>)"
    "entry_type es i = kTypeDeletion \<or> entry_type es i = kTypeValue" "internal_valid valid (fst (es ! i))"
proof -
  have "fst (ParseInternalKey (fst (es ! i)))" using assms by (simp add: internal_entries_ok_def)
  note p = ParseInternalKey_parts [OF this]
  show "ParseInternalKey (fst (es ! i)) = (True, Some \<lparr>user_key = entry_key es i, key_sequence = entry_sequence es i,
      key_type = entry_type es i\<rparr>)"
    "entry_type es i = kTypeDeletion \<or> entry_type es i = kTypeValue"
    using p(1,2) by (simp_all add: entry_key_def entry_sequence_def entry_type_def)
  show "internal_valid valid (fst (es ! i))"
    using p(3) assms by (simp add: internal_valid_def internal_entries_ok_def)
qed

lemma entry_order:
  assumes "ok es" "i \<le> j" "j < length es"
  shows "Compare (entry_key es i) (entry_key es j) \<le> 0"
proof (cases "i = j")
  case True
  then show ?thesis using refl [OF entry_valid [OF assms(1,3)]] by simp
next
  case False
  then have "InternalKey_Compare Compare (fst (es ! i)) (fst (es ! j)) < 0"
    using assms by (simp add: internal_entries_ok_def sorted_entries_def sorted_wrt_iff_nth_less)
  then show ?thesis unfolding ICompare_cases entry_key_def by auto
qed

text \<open>Between entries of one user key there are only entries of that key.\<close>

lemma same_between:
  assumes "ok es" "i \<le> j" "j \<le> k" "k < length es" "Compare (entry_key es i) (entry_key es k) = 0"
  shows "Compare (entry_key es i) (entry_key es j) = 0" "Compare (entry_key es j) (entry_key es k) = 0"
proof -
  have v: "valid (entry_key es i)" "valid (entry_key es j)" "valid (entry_key es k)"
    using entry_valid [OF assms(1)] assms(2-4) by auto
  have "Compare (entry_key es i) (entry_key es j) \<le> 0" "Compare (entry_key es j) (entry_key es k) \<le> 0"
    using entry_order [OF assms(1)] assms(2-4) by auto
  moreover have "\<not> Compare (entry_key es i) (entry_key es j) < 0"
    using less_le_trans [OF v] calculation(2) assms(5) by auto
  moreover have "\<not> Compare (entry_key es j) (entry_key es k) < 0"
    using le_less_trans [OF v] calculation(1) assms(5) by auto
  ultimately show "Compare (entry_key es i) (entry_key es j) = 0" "Compare (entry_key es j) (entry_key es k) = 0" by auto
qed

lemma same_trans:
  assumes "ok es" "i < length es" "j < length es" "k < length es" "Compare (entry_key es i) (entry_key es j) = 0"
    "Compare (entry_key es j) (entry_key es k) = 0"
  shows "Compare (entry_key es i) (entry_key es k) = 0"
proof -
  have v: "valid (entry_key es i)" "valid (entry_key es j)" "valid (entry_key es k)"
    using entry_valid [OF assms(1)] assms(2-4) by auto
  have "Compare (entry_key es i) (entry_key es k) \<le> 0" "Compare (entry_key es k) (entry_key es i) \<le> 0"
    using trans [OF v] trans [OF v(3,2,1)] assms(5,6) eq_sym [OF v(1,2)] eq_sym [OF v(2,3)] by auto
  then show ?thesis using sym [OF v(1,3)] by linarith
qed

lemma same_sym: "ok es \<Longrightarrow> i < length es \<Longrightarrow> j < length es \<Longrightarrow>
    Compare (entry_key es i) (entry_key es j) = 0 \<longleftrightarrow> Compare (entry_key es j) (entry_key es i) = 0"
  by (rule eq_sym) (auto intro: entry_valid)

text \<open>A seen entry hides all later ones of its user key, and only them among later entries with smaller keys.\<close>

lemma hidden_by_seen:
  assumes "ok es" "i < k" "k < length es" "seen snapshot es i"
  shows "Compare (entry_key es k) (entry_key es i) \<le> 0 \<longleftrightarrow>
    (\<exists>j < Suc i. seen snapshot es j \<and> Compare (entry_key es j) (entry_key es k) = 0)"
proof
  assume "Compare (entry_key es k) (entry_key es i) \<le> 0"
  moreover have "Compare (entry_key es i) (entry_key es k) \<le> 0" using entry_order [OF assms(1)] assms(2,3) by simp
  ultimately have "Compare (entry_key es i) (entry_key es k) = 0"
    using sym [of "entry_key es i" "entry_key es k"] entry_valid [OF assms(1)] assms(2,3) by auto
  then show "\<exists>j < Suc i. seen snapshot es j \<and> Compare (entry_key es j) (entry_key es k) = 0" using assms(4) by auto
next
  assume "\<exists>j < Suc i. seen snapshot es j \<and> Compare (entry_key es j) (entry_key es k) = 0"
  then obtain j where "j \<le> i" "Compare (entry_key es j) (entry_key es k) = 0" using less_Suc_eq_le by blast
  then have "Compare (entry_key es i) (entry_key es k) = 0" using same_between(2) [OF assms(1)] assms(2,3) by auto
  then show "Compare (entry_key es k) (entry_key es i) \<le> 0" using same_sym [OF assms(1), of i k] assms(2,3) by simp
qed

section \<open>States\<close>

definition di_base :: "entry list \<Rightarrow> 'it db_iter \<Rightarrow> nat \<Rightarrow> bool" where
  "di_base es d q \<longleftrightarrow> ok es \<and> stands es (di_iter d) q \<and> di_status d = Status_OK \<and> seed_ok (di_rnd d)"

lemma di_base_same: "di_base es d q \<Longrightarrow> same_but_sampling d d' \<Longrightarrow> di_base es d' q"
  by (auto simp: di_base_def same_but_sampling_def)

lemma ParseKey_base:
  assumes "di_base es d i" "i < length es"
  shows "\<exists>d'. ParseKey I d = Some (Some \<lparr>user_key = entry_key es i, key_sequence = entry_sequence es i,
      key_type = entry_type es i\<rparr>, d') \<and> same_but_sampling d d' \<and> di_base es d' i"
proof -
  have k: "Key I (di_iter d) = fst (es ! i)" and ok: "ok es" "seed_ok (di_rnd d)"
    using assms internal.Key_nth by (auto simp: di_base_def)
  from sample_reads_returns [OF ok(2)] obtain d1 where
    d1: "sample_reads (fst (es ! i)) (length (fst (es ! i)) + length (Value I (di_iter d))) d = Some d1" "same_but_sampling d d1"
    by blast
  define d2 where "d2 = d1\<lparr>bytes_until_read_sampling := bytes_until_read_sampling d1 -
      (length (fst (es ! i)) + length (Value I (di_iter d)))\<rparr>"
  have "same_but_sampling d d2" using d1(2) by (auto simp: same_but_sampling_def d2_def)
  moreover have "ParseKey I d = Some (Some \<lparr>user_key = entry_key es i, key_sequence = entry_sequence es i,
      key_type = entry_type es i\<rparr>, d2)"
    using d1(1) entry_parse(1) [OF ok(1) assms(2)] by (simp add: ParseKey_def k Let_def d2_def)
  ultimately show ?thesis using di_base_same [OF assms(1)] by blast
qed

text \<open>
  The iterator stands at live entry \<open>i\<close>: moving forward the internal iterator is there; moving backward it is
  before \<open>i\<close>, with only unseen entries between, and the key and the value are saved.
\<close>

definition di_forward :: "SequenceNumber \<Rightarrow> entry list \<Rightarrow> 'it db_iter \<Rightarrow> nat \<Rightarrow> bool" where
  "di_forward snapshot es d i \<longleftrightarrow> di_direction d = kForward \<and> di_base es d i"

definition di_before :: "SequenceNumber \<Rightarrow> entry list \<Rightarrow> 'it db_iter \<Rightarrow> nat \<Rightarrow> bool" where
  "di_before snapshot es d i \<longleftrightarrow> (\<exists>q. di_base es d q \<and>
     (if q < length es then q < i \<and> (\<forall>j. q < j \<longrightarrow> j < i \<longrightarrow> \<not> seen snapshot es j)
      else \<forall>j < i. \<not> seen snapshot es j))"

definition di_reverse :: "SequenceNumber \<Rightarrow> entry list \<Rightarrow> 'it db_iter \<Rightarrow> nat \<Rightarrow> bool" where
  "di_reverse snapshot es d i \<longleftrightarrow> di_direction d = kReverse \<and> di_before snapshot es d i \<and>
     saved_key d = entry_key es i \<and> saved_value d = snd (es ! i)"

definition di_stands :: "SequenceNumber \<Rightarrow> entry list \<Rightarrow> 'it db_iter \<Rightarrow> nat \<Rightarrow> bool" where
  "di_stands snapshot es d u \<longleftrightarrow> u \<le> length (visible Compare snapshot es) \<and>
     (di_valid d \<longleftrightarrow> u < length (visible Compare snapshot es)) \<and>
     (if u < length (visible Compare snapshot es) then
        \<exists>i < length es. live Compare snapshot es i \<and> live_pos Compare snapshot es i = u \<and>
          (di_forward snapshot es d i \<or> di_reverse snapshot es d i)
      else \<exists>q. di_base es d q)"

abbreviation (input) pos :: "SequenceNumber \<Rightarrow> entry list \<Rightarrow> nat \<Rightarrow> nat" where
  "pos \<equiv> live_pos Compare"

lemma pos_le: "r \<le> length es \<Longrightarrow> pos snapshot es r \<le> length (visible Compare snapshot es)"
  using live_pos_mono [of r "length es" Compare snapshot es] by (simp add: live_pos_all)

lemma di_stands_end:
  assumes "di_base es d q" "\<not> di_valid d" "u = length (visible Compare snapshot es)"
  shows "di_stands snapshot es d u"
  using assms by (auto simp: di_stands_def)

lemma di_stands_at:
  assumes "di_forward snapshot es d i \<or> di_reverse snapshot es d i" "di_valid d" "i < length es" "live Compare snapshot es i"
    "u = pos snapshot es i"
  shows "di_stands snapshot es d u"
  using assms live_pos_nth(1) [OF assms(3,4)] by (auto simp: di_stands_def)

section \<open>Moving forward\<close>

text \<open>\<open>hides\<close>: from entry \<open>i\<close> on, the entries skipped are those hidden by an earlier one.\<close>

definition hides :: "SequenceNumber \<Rightarrow> entry list \<Rightarrow> bool \<Rightarrow> slice \<Rightarrow> nat \<Rightarrow> bool" where
  "hides snapshot es skipping skip i \<longleftrightarrow> (\<forall>k. i \<le> k \<longrightarrow> k < length es \<longrightarrow> seen snapshot es k \<longrightarrow>
     ((skipping \<and> Compare (entry_key es k) skip \<le> 0) \<longleftrightarrow>
      (\<exists>j < i. seen snapshot es j \<and> Compare (entry_key es j) (entry_key es k) = 0)))"

lemma hides_after:
  assumes "ok es" "i < length es" "seen snapshot es i"
  shows "hides snapshot es True (entry_key es i) (Suc i)"
  using hidden_by_seen [OF assms(1) _ _ assms(3)] unfolding hides_def by (auto simp: Suc_le_eq)

lemma hides_step:
  assumes "hides snapshot es skipping skip i"
    "\<And>k. i < k \<Longrightarrow> k < length es \<Longrightarrow> seen snapshot es i \<Longrightarrow> Compare (entry_key es i) (entry_key es k) = 0 \<Longrightarrow>
      \<exists>j < i. seen snapshot es j \<and> Compare (entry_key es j) (entry_key es k) = 0"
  shows "hides snapshot es skipping skip (Suc i)"
  unfolding hides_def
proof (intro allI impI)
  fix k
  assume k: "Suc i \<le> k" "k < length es" "seen snapshot es k"
  have "(skipping \<and> Compare (entry_key es k) skip \<le> 0) \<longleftrightarrow>
      (\<exists>j < i. seen snapshot es j \<and> Compare (entry_key es j) (entry_key es k) = 0)"
    using assms(1) k unfolding hides_def by auto
  also have "\<dots> \<longleftrightarrow> (\<exists>j < Suc i. seen snapshot es j \<and> Compare (entry_key es j) (entry_key es k) = 0)"
    using assms(2) [of k] k(1,2) less_Suc_eq by auto
  finally show "(skipping \<and> Compare (entry_key es k) skip \<le> 0) \<longleftrightarrow>
      (\<exists>j < Suc i. seen snapshot es j \<and> Compare (entry_key es j) (entry_key es k) = 0)" .
qed

text \<open>One turn of the loop.\<close>

lemma next_step_cases [consumes 3, case_names found skipped]:
  assumes "di_base es d i" "i < length es" "hides snapshot es skipping (saved_key d) i"
  obtains (found) d' where "next_step Compare snapshot (Some \<lparr>user_key = entry_key es i, key_sequence = entry_sequence es i,
      key_type = entry_type es i\<rparr>) skipping d = (True, skipping, d')" "di_base es d' i" "di_valid d'"
      "di_direction d' = di_direction d" "live Compare snapshot es i"
    | (skipped) skipping' d' where "next_step Compare snapshot (Some \<lparr>user_key = entry_key es i, key_sequence = entry_sequence es i,
      key_type = entry_type es i\<rparr>) skipping d = (False, skipping', d')" "di_base es d' i"
      "di_direction d' = di_direction d" "\<not> live Compare snapshot es i" "hides snapshot es skipping' (saved_key d') (Suc i)"
proof -
  have es: "ok es" using assms(1) by (simp add: di_base_def)
  show thesis
  proof (cases "seen snapshot es i")
    case False
    then have "hides snapshot es skipping (saved_key d) (Suc i)" by (intro hides_step [OF assms(3)]) simp
    then show thesis using skipped [of skipping d] False assms(1) by (simp add: next_step_def seen_def live_def)
  next
    case s: True
    show thesis
    proof (cases "entry_type es i = kTypeDeletion")
      case True
      then show thesis
        using skipped [of True "SaveKey (entry_key es i) d"] hides_after [OF es assms(2) s] s assms(1)
        by (simp add: next_step_def seen_def live_def SaveKey_def di_base_def)
    next
      case False
      then have t: "entry_type es i = kTypeValue" using entry_parse(2) [OF es assms(2)] by simp
      have h: "(skipping \<and> Compare (entry_key es i) (saved_key d) \<le> 0) \<longleftrightarrow>
          (\<exists>j < i. seen snapshot es j \<and> Compare (entry_key es j) (entry_key es i) = 0)"
        using assms(2,3) s unfolding hides_def by auto
      then have l: "live Compare snapshot es i \<longleftrightarrow> \<not> (skipping \<and> Compare (entry_key es i) (saved_key d) \<le> 0)"
        using s t unfolding live_def by auto
      show thesis
      proof (cases "skipping \<and> Compare (entry_key es i) (saved_key d) \<le> 0")
        case True
        with h obtain j where j: "j < i" "seen snapshot es j" "Compare (entry_key es j) (entry_key es i) = 0" by auto
        have "hides snapshot es skipping (saved_key d) (Suc i)"
        proof (rule hides_step [OF assms(3)])
          fix k
          assume "i < k" "k < length es" "Compare (entry_key es i) (entry_key es k) = 0"
          then show "\<exists>j < i. seen snapshot es j \<and> Compare (entry_key es j) (entry_key es k) = 0"
            using j same_trans [OF es, of j i k] by auto
        qed
        then show thesis using skipped [of skipping d] True l s False assms(1) by (simp add: next_step_def seen_def)
      next
        case nh: False
        then have "next_step Compare snapshot (Some \<lparr>user_key = entry_key es i, key_sequence = entry_sequence es i,
            key_type = entry_type es i\<rparr>) skipping d = (True, skipping, d\<lparr>di_valid := True, saved_key := []\<rparr>)"
          using s False by (simp add: next_step_def seen_def)
        then show thesis using found [of "d\<lparr>di_valid := True, saved_key := []\<rparr>"] nh l assms(1) by (simp add: di_base_def)
      qed
    qed
  qed
qed

lemma internal_Next:
  assumes "di_base es d i" "i < length es"
  shows "\<exists>it. Next I (di_iter d) = Some it \<and> (Valid I it \<longleftrightarrow> Suc i < length es) \<and> di_base es (d\<lparr>di_iter := it\<rparr>) (Suc i)"
  using internal.Next [of es "di_iter d" i] assms internal.Valid_iff unfolding di_base_def by fastforce

lemma FindNext_stands:
  assumes "di_base es d i" "i < length es" "hides snapshot es skipping (saved_key d) i" "di_direction d = kForward"
  shows "\<exists>d'. FindNextUserEntry I Compare snapshot skipping d = Some d' \<and> di_stands snapshot es d' (pos snapshot es i)"
  using assms
proof (induction "length es - i" arbitrary: i d skipping rule: less_induct)
  case less
  from ParseKey_base [OF less(2,3)] obtain d1 where d1: "ParseKey I d = Some (Some \<lparr>user_key = entry_key es i,
      key_sequence = entry_sequence es i, key_type = entry_type es i\<rparr>, d1)" "same_but_sampling d d1" "di_base es d1 i" by blast
  have s: "hides snapshot es skipping (saved_key d1) i" "di_direction d1 = kForward"
    using d1(2) less(4,5) by (simp_all add: same_but_sampling_def)
  show ?case
    using d1(3) less(3) s(1)
  proof (cases rule: next_step_cases)
    case (found d')
    then show ?thesis
      using di_stands_at [of snapshot es d' i] less(3) s(2) d1(1)
      by (subst FindNextUserEntry.simps) (simp add: di_forward_def)
  next
    case (skipped skipping' d')
    from internal_Next [OF skipped(2) less(3)] obtain it where
      it: "Next I (di_iter d') = Some it" "Valid I it \<longleftrightarrow> Suc i < length es" "di_base es (d'\<lparr>di_iter := it\<rparr>) (Suc i)" by blast
    have p: "pos snapshot es (Suc i) = pos snapshot es i" using skipped(4) by (simp add: live_pos_Suc)
    show ?thesis
    proof (cases "Suc i < length es")
      case True
      have "length es - Suc i < length es - i" using less(3) by simp
      from less(1) [OF this it(3) True, of skipping'] skipped(3,5) s(2) p it(1,2) True d1(1) skipped(1)
      show ?thesis by (subst FindNextUserEntry.simps) simp
    next
      case False
      then have "Suc i = length es" using less(3) by simp
      then have "pos snapshot es i = length (visible Compare snapshot es)" using p live_pos_all [of Compare snapshot es] by simp
      moreover have "di_base es (d'\<lparr>di_iter := it, saved_key := [], di_valid := False\<rparr>) (Suc i)"
        using it(3) by (simp add: di_base_def)
      ultimately show ?thesis
        using di_stands_end [of es _ "Suc i"] it(1,2) False d1(1) skipped(1)
        by (subst FindNextUserEntry.simps) simp
    qed
  qed
qed

text \<open>Past the current entry, from it or from unseen entries before it.\<close>

lemma FindNext_past:
  assumes "di_base es d r" "r \<le> i" "i < length es" "live Compare snapshot es i" "saved_key d = entry_key es i"
    "\<forall>j. r \<le> j \<longrightarrow> j < i \<longrightarrow> \<not> seen snapshot es j" "di_direction d = kForward"
  shows "\<exists>d'. FindNextUserEntry I Compare snapshot True d = Some d' \<and> di_stands snapshot es d' (pos snapshot es (Suc i))"
  using assms
proof (induction "i - r" arbitrary: r d rule: less_induct)
  case less
  have es: "ok es" using less(2) by (simp add: di_base_def)
  have r: "r < length es" using less(3,4) by simp
  from ParseKey_base [OF less(2) r] obtain d1 where d1: "ParseKey I d = Some (Some \<lparr>user_key = entry_key es r,
      key_sequence = entry_sequence es r, key_type = entry_type es r\<rparr>, d1)" "same_but_sampling d d1" "di_base es d1 r" by blast
  have s: "saved_key d1 = entry_key es i" "di_direction d1 = kForward"
    using d1(2) less(6,8) by (simp_all add: same_but_sampling_def)
  have live: "seen snapshot es i" "entry_type es i = kTypeValue" using less(5) by (auto simp: live_def)
  have step: "next_step Compare snapshot (Some \<lparr>user_key = entry_key es r, key_sequence = entry_sequence es r,
      key_type = entry_type es r\<rparr>) True d1 = (False, True, d1)"
  proof (cases "r = i")
    case True
    then show ?thesis using refl [OF entry_valid [OF es less(4)]] live s(1) by (simp add: next_step_def)
  next
    case False
    then have "\<not> seen snapshot es r" using less(3,7) by simp
    then show ?thesis by (simp add: next_step_def seen_def)
  qed
  from internal_Next [OF d1(3) r] obtain it where
    it: "Next I (di_iter d1) = Some it" "Valid I it \<longleftrightarrow> Suc r < length es" "di_base es (d1\<lparr>di_iter := it\<rparr>) (Suc r)" by blast
  show ?case
  proof (cases "r = i")
    case False
    then have "i - Suc r < i - r" "Suc r \<le> i" "\<forall>j. Suc r \<le> j \<longrightarrow> j < i \<longrightarrow> \<not> seen snapshot es j" using less(3,7) by auto
    from less(1) [OF this(1) it(3) this(2) less(4,5) _ this(3)] s it(1,2) \<open>Suc r \<le> i\<close> less(4) d1(1) step show ?thesis
      by (subst FindNextUserEntry.simps) simp
  next
    case i: True
    show ?thesis
    proof (cases "Suc i < length es")
      case True
      have "hides snapshot es True (saved_key (d1\<lparr>di_iter := it\<rparr>)) (Suc i)"
        using hides_after [OF es less(4) live(1)] s(1) by simp
      from FindNext_stands [OF it(3) [unfolded i] True this] s(2) it(1,2) i True d1(1) step show ?thesis
        by (subst FindNextUserEntry.simps) simp
    next
      case False
      then have "Suc i = length es" using less(4) by simp
      then have "pos snapshot es (Suc i) = length (visible Compare snapshot es)" by (simp add: live_pos_all)
      moreover have "di_base es (d1\<lparr>di_iter := it, saved_key := [], di_valid := False\<rparr>) (Suc i)"
        using it(3) i by (simp add: di_base_def)
      ultimately show ?thesis
        using di_stands_end [of es _ "Suc i"] it(1,2) i False d1(1) step
        by (subst FindNextUserEntry.simps) simp
    qed
  qed
qed

section \<open>Moving backward\<close>

lemma internal_Prev:
  assumes "di_base es d i" "i < length es"
  shows "\<exists>it. Prev I (di_iter d) = Some it \<and> (Valid I it \<longleftrightarrow> 0 < i) \<and> di_base es (d\<lparr>di_iter := it\<rparr>) (prev_index i es)"
proof -
  from internal.Prev [of es "di_iter d" i] assms obtain it where
    it: "Prev I (di_iter d) = Some it" "stands es it (prev_index i es)" by (auto simp: di_base_def)
  moreover have "Valid I it \<longleftrightarrow> 0 < i" using internal.Valid_iff [OF it(2)] assms(2) by (auto simp: prev_index_def)
  ultimately show ?thesis using assms by (simp add: di_base_def)
qed

text \<open>
  \<open>candidate\<close>: of the entries from \<open>p\<close> to \<open>p0\<close>, which have been passed, only the saved one may be live, and
  those before it are unseen.
\<close>

definition candidate :: "SequenceNumber \<Rightarrow> entry list \<Rightarrow> 'it db_iter \<Rightarrow> nat \<Rightarrow> nat \<Rightarrow> nat \<Rightarrow> bool" where
  "candidate snapshot es d p p0 c \<longleftrightarrow> p \<le> c \<and> c \<le> p0 \<and> seen snapshot es c \<and> entry_type es c = kTypeValue \<and>
     saved_key d = entry_key es c \<and> saved_value d = snd (es ! c) \<and>
     (\<forall>j. p \<le> j \<longrightarrow> j < c \<longrightarrow> \<not> seen snapshot es j) \<and>
     (\<forall>i. c < i \<longrightarrow> i \<le> p0 \<longrightarrow> \<not> live Compare snapshot es i)"

definition passed :: "SequenceNumber \<Rightarrow> entry list \<Rightarrow> ValueType \<Rightarrow> 'it db_iter \<Rightarrow> nat \<Rightarrow> nat \<Rightarrow> bool" where
  "passed snapshot es vt d p p0 \<longleftrightarrow>
     (if vt = kTypeDeletion then \<forall>i. p \<le> i \<longrightarrow> i \<le> p0 \<longrightarrow> \<not> live Compare snapshot es i
      else \<exists>c. candidate snapshot es d p p0 c)"

text \<open>Where the loop ends: no live entry up to \<open>p0\<close>, or the last of them, saved.\<close>

definition last_live :: "SequenceNumber \<Rightarrow> entry list \<Rightarrow> ValueType \<Rightarrow> 'it db_iter \<Rightarrow> nat \<Rightarrow> bool" where
  "last_live snapshot es vt d p0 \<longleftrightarrow>
     (if vt = kTypeDeletion then (\<forall>i \<le> p0. \<not> live Compare snapshot es i) \<and> (\<exists>q. di_base es d q)
      else \<exists>c \<le> p0. live Compare snapshot es c \<and> di_before snapshot es d c \<and>
        saved_key d = entry_key es c \<and> saved_value d = snd (es ! c) \<and>
        (\<forall>i. c < i \<longrightarrow> i \<le> p0 \<longrightarrow> \<not> live Compare snapshot es i))"

lemma passed_fields:
  "saved_key d' = saved_key d \<Longrightarrow> saved_value d' = saved_value d \<Longrightarrow> passed snapshot es vt d' p p0 = passed snapshot es vt d p p0"
  unfolding passed_def candidate_def by simp

lemma not_live_before:
  assumes "ok es" "p < c" "c < length es" "seen snapshot es p" "\<not> Compare (entry_key es p) (entry_key es c) < 0"
  shows "\<not> live Compare snapshot es c"
proof -
  have "Compare (entry_key es p) (entry_key es c) \<le> 0" using entry_order [OF assms(1)] assms(2,3) by simp
  then have "Compare (entry_key es p) (entry_key es c) = 0" using assms(5) by simp
  then show ?thesis using assms(2,4) by (auto simp: live_def)
qed

lemma prev_step_cases [consumes 4, case_names leave stay]:
  assumes "di_base es d p" "p \<le> p0" "p0 < length es" "passed snapshot es vt d (Suc p) p0"
  obtains (leave) "prev_step I Compare snapshot (Some \<lparr>user_key = entry_key es p, key_sequence = entry_sequence es p,
      key_type = entry_type es p\<rparr>) vt d = (True, vt, d)" "last_live snapshot es vt d p0"
    | (stay) vt' d' where "prev_step I Compare snapshot (Some \<lparr>user_key = entry_key es p, key_sequence = entry_sequence es p,
      key_type = entry_type es p\<rparr>) vt d = (False, vt', d')" "di_base es d' p" "di_direction d' = di_direction d"
      "passed snapshot es vt' d' p p0"
proof -
  have es: "ok es" "p < length es" using assms by (auto simp: di_base_def)
  have kv: "Key I (di_iter d) = fst (es ! p)" "Value I (di_iter d) = snd (es ! p)"
    using internal.Key_nth internal.Value_nth assms(1) es(2) by (auto simp: di_base_def)
  have from_Suc: "p \<le> i \<longleftrightarrow> i = p \<or> Suc p \<le> i" for i by auto
  show thesis
  proof (cases "seen snapshot es p")
    case False
    then have "passed snapshot es vt d p p0"
      using assms(4) unfolding passed_def candidate_def live_def from_Suc by (auto split: if_splits)
    then show thesis using stay [of vt d] False assms(1) by (simp add: prev_step_def seen_def)
  next
    case s: True
    show thesis
    proof (cases "vt \<noteq> kTypeDeletion \<and> Compare (entry_key es p) (saved_key d) < 0")
      case True
      then obtain c where c: "candidate snapshot es d (Suc p) p0 c" using assms(4) by (auto simp: passed_def)
      have "\<not> seen snapshot es j" if "j < c" "Compare (entry_key es j) (entry_key es c) = 0" for j
      proof (cases "Suc p \<le> j")
        case True
        then show ?thesis using c that(1) by (auto simp: candidate_def)
      next
        case False
        then have "Compare (entry_key es p) (entry_key es c) = 0"
          using same_between(2) [OF es(1), of j p c] c that assms(3) by (auto simp: candidate_def)
        then show ?thesis using True c by (simp add: candidate_def)
      qed
      then have "live Compare snapshot es c" using c by (auto simp: live_def candidate_def)
      moreover have "di_before snapshot es d c"
        unfolding di_before_def using assms(1) es(2) c by (intro exI [of _ p]) (auto simp: candidate_def)
      ultimately have "last_live snapshot es vt d p0"
        unfolding last_live_def using True c by (auto simp: candidate_def)
      then show thesis using leave True s by (simp add: prev_step_def seen_def)
    next
      case nl: False
      have none: "\<not> live Compare snapshot es i" if i: "Suc p \<le> i" "i \<le> p0" for i
      proof (cases "vt = kTypeDeletion")
        case True
        then show ?thesis using assms(4) i by (simp add: passed_def)
      next
        case False
        then obtain c where c: "candidate snapshot es d (Suc p) p0 c" using assms(4) by (auto simp: passed_def)
        have "\<not> live Compare snapshot es c"
          using not_live_before [OF es(1), of p c] c s nl False assms(3) by (auto simp: candidate_def)
        moreover have "\<not> live Compare snapshot es i" if "i < c" using c i that by (auto simp: candidate_def live_def)
        ultimately show ?thesis using c i by (cases i c rule: linorder_cases) (auto simp: candidate_def)
      qed
      show thesis
      proof (cases "entry_type es p = kTypeDeletion")
        case True
        then have "\<not> live Compare snapshot es p" by (simp add: live_def)
        then have "passed snapshot es kTypeDeletion (ClearSavedValue (d\<lparr>saved_key := []\<rparr>)) p p0"
          using none by (auto simp: passed_def from_Suc)
        then show thesis
          using stay [of kTypeDeletion "ClearSavedValue (d\<lparr>saved_key := []\<rparr>)"] True nl s assms(1)
          by (auto simp: prev_step_def seen_def ClearSavedValue_def di_base_def)
      next
        case False
        then have t: "entry_type es p = kTypeValue" using entry_parse(2) [OF es] by simp
        define d' where "d' = (SaveKey (ExtractUserKey (fst (es ! p))) d)\<lparr>saved_value := snd (es ! p)\<rparr>"
        have "candidate snapshot es d' p p0 p"
          using none s t assms(2) by (auto simp: candidate_def d'_def SaveKey_def entry_key_def)
        then have "passed snapshot es kTypeValue d' p p0" by (auto simp: passed_def)
        then show thesis
          using stay [of kTypeValue d'] t nl s assms(1)
          by (auto simp: prev_step_def seen_def kv d'_def SaveKey_def di_base_def)
      qed
    qed
  qed
qed

lemma find_prev_last:
  assumes "di_base es d p" "p \<le> p0" "p0 < length es" "passed snapshot es vt d (Suc p) p0"
  shows "\<exists>vt' d'. find_prev_loop I Compare snapshot vt d = Some (vt', d') \<and> last_live snapshot es vt' d' p0 \<and>
    di_direction d' = di_direction d"
  using assms
proof (induction p arbitrary: d vt)
  case 0
  have p: "0 < length es" using 0(2,3) by linarith
  from ParseKey_base [OF 0(1) p] obtain d1 where d1: "ParseKey I d = Some (Some \<lparr>user_key = entry_key es 0,
      key_sequence = entry_sequence es 0, key_type = entry_type es 0\<rparr>, d1)" "same_but_sampling d d1" "di_base es d1 0" by blast
  have "passed snapshot es vt d1 (Suc 0) p0" "di_direction d1 = di_direction d"
    using 0(4) d1(2) passed_fields [of d1 d] by (auto simp: same_but_sampling_def)
  from d1(3) 0(2,3) this(1) show ?case
  proof (cases rule: prev_step_cases)
    case leave
    then show ?thesis using d1(1) \<open>di_direction d1 = _\<close> by (subst find_prev_loop.simps) simp
  next
    case (stay vt' d')
    from internal_Prev [OF stay(2) p] obtain it where it: "Prev I (di_iter d') = Some it" "\<not> Valid I it"
      "di_base es (d'\<lparr>di_iter := it\<rparr>) (length es)" by (auto simp: prev_index_def)
    have "last_live snapshot es vt' (d'\<lparr>di_iter := it\<rparr>) p0"
    proof (cases "vt' = kTypeDeletion")
      case True
      then have "\<forall>i \<le> p0. \<not> live Compare snapshot es i" using stay(4) by (simp add: passed_def)
      then show ?thesis using True it(3) unfolding last_live_def by auto
    next
      case False
      then obtain c where c: "candidate snapshot es d' 0 p0 c" using stay(4) by (auto simp: passed_def)
      then have "live Compare snapshot es c" by (auto simp: candidate_def live_def)
      moreover have "di_before snapshot es (d'\<lparr>di_iter := it\<rparr>) c"
        unfolding di_before_def using it(3) c by (intro exI [of _ "length es"]) (auto simp: candidate_def)
      ultimately show ?thesis using c False unfolding last_live_def by (auto simp: candidate_def)
    qed
    then show ?thesis using d1(1) stay(1,3) it(1,2) \<open>di_direction d1 = _\<close> by (subst find_prev_loop.simps) simp
  qed
next
  case (Suc p)
  have p: "Suc p < length es" using Suc.prems(2,3) by simp
  from ParseKey_base [OF Suc.prems(1) p] obtain d1 where d1: "ParseKey I d = Some (Some \<lparr>user_key = entry_key es (Suc p),
      key_sequence = entry_sequence es (Suc p), key_type = entry_type es (Suc p)\<rparr>, d1)" "same_but_sampling d d1"
      "di_base es d1 (Suc p)" by blast
  have "passed snapshot es vt d1 (Suc (Suc p)) p0" "di_direction d1 = di_direction d"
    using Suc.prems(4) d1(2) passed_fields [of d1 d] by (auto simp: same_but_sampling_def)
  from d1(3) Suc.prems(2,3) this(1) show ?case
  proof (cases rule: prev_step_cases)
    case leave
    then show ?thesis using d1(1) \<open>di_direction d1 = _\<close> by (subst find_prev_loop.simps) simp
  next
    case (stay vt' d')
    from internal_Prev [OF stay(2) p] obtain it where it: "Prev I (di_iter d') = Some it" "Valid I it"
      "di_base es (d'\<lparr>di_iter := it\<rparr>) p" by (auto simp: prev_index_def)
    have "passed snapshot es vt' (d'\<lparr>di_iter := it\<rparr>) (Suc p) p0"
      using stay(4) passed_fields [of "d'\<lparr>di_iter := it\<rparr>" d' snapshot es vt' "Suc p" p0] by simp
    from Suc.IH [OF it(3) _ Suc.prems(3) this] Suc.prems(2) d1(1) stay(1,3) it(1,2) \<open>di_direction d1 = _\<close>
    show ?thesis by (subst find_prev_loop.simps) simp
  qed
qed

lemma pos_last:
  assumes "c \<le> p0" "live Compare snapshot es c" "\<forall>i. c < i \<longrightarrow> i \<le> p0 \<longrightarrow> \<not> live Compare snapshot es i"
  shows "pos snapshot es (Suc p0) = Suc (pos snapshot es c)"
proof -
  have "pos snapshot es (Suc p0) = pos snapshot es (Suc c)" using assms by (intro live_pos_none) auto
  then show ?thesis using assms(2) by (simp add: live_pos_Suc)
qed

lemma FindPrev_stands:
  assumes "di_base es d p0" "p0 < length es" "di_direction d = kReverse"
  shows "\<exists>d'. FindPrevUserEntry I Compare snapshot d = Some d' \<and>
    di_stands snapshot es d' (prev_index (pos snapshot es (Suc p0)) (visible Compare snapshot es))"
proof -
  have "passed snapshot es kTypeDeletion d (Suc p0) p0" by (simp add: passed_def)
  from find_prev_last [OF assms(1) order_refl assms(2) this] obtain vt d1 where
    d1: "find_prev_loop I Compare snapshot kTypeDeletion d = Some (vt, d1)" "last_live snapshot es vt d1 p0"
    "di_direction d1 = kReverse" using assms(3) by auto
  have v: "Valid I (di_iter d)" using internal.Valid_iff assms(1,2) by (auto simp: di_base_def)
  show ?thesis
  proof (cases "vt = kTypeDeletion")
    case True
    define d' where "d' = (ClearSavedValue (d1\<lparr>di_valid := False, saved_key := []\<rparr>))\<lparr>di_direction := kForward\<rparr>"
    obtain q where "di_base es d1 q" using d1(2) True by (auto simp: last_live_def)
    then have "di_base es d' q" by (simp add: d'_def ClearSavedValue_def di_base_def)
    moreover have "pos snapshot es (Suc p0) = pos snapshot es 0"
      using d1(2) True by (intro live_pos_none) (auto simp: last_live_def)
    ultimately show ?thesis
      using di_stands_end [of es d' q] v d1(1) True
      by (simp add: FindPrevUserEntry_def d'_def ClearSavedValue_def prev_index_def)
  next
    case False
    then obtain c where c: "c \<le> p0" "live Compare snapshot es c" "di_before snapshot es d1 c" "saved_key d1 = entry_key es c"
      "saved_value d1 = snd (es ! c)" "\<forall>i. c < i \<longrightarrow> i \<le> p0 \<longrightarrow> \<not> live Compare snapshot es i"
      using d1(2) by (auto simp: last_live_def)
    have "di_reverse snapshot es (d1\<lparr>di_valid := True\<rparr>) c"
      using c(3-5) d1(3) by (simp add: di_reverse_def di_before_def di_base_def)
    then have "di_stands snapshot es (d1\<lparr>di_valid := True\<rparr>) (pos snapshot es c)"
      using c(1,2) assms(2) by (intro di_stands_at [where i = c]) auto
    then show ?thesis
      using v d1(1) False pos_last [OF c(1,2,6)] by (simp add: FindPrevUserEntry_def prev_index_def)
  qed
qed

lemma scan_back_stops:
  assumes "di_base es d r" "r \<le> i" "i < length es" "saved_key d = entry_key es i"
    "\<forall>j. r \<le> j \<longrightarrow> j < i \<longrightarrow> Compare (entry_key es j) (entry_key es i) = 0"
  shows "\<exists>more d'. scan_back I Compare d = Some (more, d') \<and> di_direction d' = di_direction d \<and>
    (if more then \<exists>p < r. di_base es d' p \<and> (\<forall>j. p < j \<longrightarrow> j < i \<longrightarrow> Compare (entry_key es j) (entry_key es i) = 0)
     else \<not> di_valid d' \<and> (\<exists>q. di_base es d' q) \<and> (\<forall>j < i. Compare (entry_key es j) (entry_key es i) = 0))"
  using assms
proof (induction r arbitrary: d)
  case 0
  have "0 < length es" using 0(2,3) by linarith
  from internal_Prev [OF 0(1) this] obtain it where it: "Prev I (di_iter d) = Some it" "\<not> Valid I it"
    "di_base es (d\<lparr>di_iter := it\<rparr>) (length es)" by (auto simp: prev_index_def)
  moreover have "di_base es (ClearSavedValue (d\<lparr>di_iter := it, di_valid := False, saved_key := []\<rparr>)) (length es)"
    using it(3) by (simp add: di_base_def ClearSavedValue_def)
  ultimately show ?case using 0(5) by (subst scan_back.simps) (auto simp: ClearSavedValue_def)
next
  case (Suc r)
  from internal_Prev [OF Suc.prems(1)] Suc.prems(2,3) obtain it where it: "Prev I (di_iter d) = Some it" "Valid I it"
    "di_base es (d\<lparr>di_iter := it\<rparr>) r" by (auto simp: prev_index_def)
  have es: "ok es" "r < length es" using Suc.prems by (auto simp: di_base_def)
  have k: "ExtractUserKey (Key I it) = entry_key es r"
    using internal.Key_nth [of es it r] it(3) es(2) by (simp add: di_base_def entry_key_def)
  show ?case
  proof (cases "Compare (entry_key es r) (entry_key es i) < 0")
    case True
    then show ?thesis
      using it k Suc.prems by (subst scan_back.simps) (auto simp: Suc_le_eq intro!: exI [of _ r])
  next
    case False
    have "Compare (entry_key es r) (entry_key es i) \<le> 0" using entry_order [OF es(1)] Suc.prems(2,3) by simp
    then have "Compare (entry_key es r) (entry_key es i) = 0" using False by simp
    then have "\<forall>j. r \<le> j \<longrightarrow> j < i \<longrightarrow> Compare (entry_key es j) (entry_key es i) = 0"
      using Suc.prems(5) Suc_leI le_neq_implies_less by (intro allI impI) (case_tac "j = r", auto)
    from Suc.IH [OF it(3) _ Suc.prems(3) _ this] Suc.prems(2,4) obtain more d' where
      m: "scan_back I Compare (d\<lparr>di_iter := it\<rparr>) = Some (more, d')" "di_direction d' = di_direction d"
      "if more then \<exists>p < r. di_base es d' p \<and> (\<forall>j. p < j \<longrightarrow> j < i \<longrightarrow> Compare (entry_key es j) (entry_key es i) = 0)
     else \<not> di_valid d' \<and> (\<exists>q. di_base es d' q) \<and> (\<forall>j < i. Compare (entry_key es j) (entry_key es i) = 0)" by auto
    have "scan_back I Compare d = Some (more, d')"
      using it k False Suc.prems(4) m(1) by (subst scan_back.simps) simp
    moreover have "if more then \<exists>p < Suc r. di_base es d' p \<and> (\<forall>j. p < j \<longrightarrow> j < i \<longrightarrow> Compare (entry_key es j) (entry_key es i) = 0)
     else \<not> di_valid d' \<and> (\<exists>q. di_base es d' q) \<and> (\<forall>j < i. Compare (entry_key es j) (entry_key es i) = 0)"
    proof (cases more)
      case True
      then obtain p where "p < r" "di_base es d' p"
        "\<forall>j. p < j \<longrightarrow> j < i \<longrightarrow> Compare (entry_key es j) (entry_key es i) = 0" using m(3) by auto
      then have "\<exists>p < Suc r. di_base es d' p \<and>
        (\<forall>j. p < j \<longrightarrow> j < i \<longrightarrow> Compare (entry_key es j) (entry_key es i) = 0)" by (intro exI [of _ p]) simp
      then show ?thesis using True by simp
    qed (use m(3) in simp)
    ultimately show ?thesis using m(2) by blast
  qed
qed

section \<open>The calls\<close>

lemma di_stands_base: "di_stands snapshot es d u \<Longrightarrow> \<exists>q. di_base es d q"
  unfolding di_stands_def di_forward_def di_reverse_def di_before_def by (auto split: if_splits)

lemma di_stands_live:
  assumes "di_stands snapshot es d u" "u < length (visible Compare snapshot es)"
  obtains i where "i < length es" "live Compare snapshot es i" "pos snapshot es i = u"
    "di_forward snapshot es d i \<or> di_reverse snapshot es d i"
  using assms unfolding di_stands_def by auto

lemma DBIter_Next_stands:
  assumes "di_stands snapshot es d u" "u < length (visible Compare snapshot es)"
  shows "\<exists>d'. DBIter_Next I Compare snapshot d = Some d' \<and> di_stands snapshot es d' (Suc u)"
proof -
  from di_stands_live [OF assms] obtain i where i: "i < length es" "live Compare snapshot es i" "pos snapshot es i = u"
    "di_forward snapshot es d i \<or> di_reverse snapshot es d i" .
  have p: "pos snapshot es (Suc i) = Suc u" using i(2,3) by (simp add: live_pos_Suc)
  show ?thesis
  proof (cases "di_direction d = kForward")
    case True
    then have f: "di_base es d i" using i(4) by (auto simp: di_forward_def di_reverse_def)
    define d1 where "d1 = SaveKey (ExtractUserKey (Key I (di_iter d))) d"
    have "saved_key d1 = entry_key es i" "di_base es d1 i" "di_direction d1 = kForward"
      using f True internal.Key_nth [of es "di_iter d" i] i(1) by (auto simp: d1_def SaveKey_def di_base_def entry_key_def)
    with FindNext_past [of es d1 i i snapshot] i(1,2) p show ?thesis using True by (auto simp: DBIter_Next_def d1_def)
  next
    case False
    then have r: "di_reverse snapshot es d i" using i(4) by (auto simp: di_forward_def)
    then obtain q where q: "di_base es d q" "if q < length es then q < i \<and> (\<forall>j. q < j \<longrightarrow> j < i \<longrightarrow> \<not> seen snapshot es j)
        else \<forall>j < i. \<not> seen snapshot es j" by (auto simp: di_reverse_def di_before_def)
    have "\<exists>it r. (if \<not> Valid I (di_iter d) then SeekToFirst I (di_iter d) else Next I (di_iter d)) = Some it \<and>
        stands es it r \<and> r \<le> i \<and> (\<forall>j. r \<le> j \<longrightarrow> j < i \<longrightarrow> \<not> seen snapshot es j)"
    proof (cases "q < length es")
      case True
      from internal_Next [OF q(1) True] obtain it where it: "Next I (di_iter d) = Some it" "stands es it (Suc q)"
        by (auto simp: di_base_def)
      then show ?thesis
        using internal.Valid_iff [of es "di_iter d" q] q True
        by (intro exI [of _ it] exI [of _ "Suc q"]) (auto simp: di_base_def)
    next
      case False
      then show ?thesis
        using internal.SeekToFirst [of es "di_iter d" q] internal.Valid_iff [of es "di_iter d" q] q
        by (auto simp: di_base_def)
    qed
    then obtain it s where it: "(if \<not> Valid I (di_iter d) then SeekToFirst I (di_iter d) else Next I (di_iter d)) = Some it"
      "stands es it s" "s \<le> i" "\<forall>j. s \<le> j \<longrightarrow> j < i \<longrightarrow> \<not> seen snapshot es j" by blast
    define d1 where "d1 = d\<lparr>di_direction := kForward, di_iter := it\<rparr>"
    have d1: "di_base es d1 s" "saved_key d1 = entry_key es i" "di_direction d1 = kForward"
      using q(1) r it(2) by (simp_all add: d1_def di_base_def di_reverse_def)
    have "Valid I it" using internal.Valid_iff [OF it(2)] it(3) i(1) by simp
    moreover have "di_direction d = kReverse" using False by (cases "di_direction d") auto
    ultimately show ?thesis
      using FindNext_past [OF d1(1) it(3) i(1,2) d1(2) it(4) d1(3)] it(1) p by (simp add: DBIter_Next_def d1_def)
  qed
qed

lemma DBIter_Prev_stands:
  assumes "di_stands snapshot es d u" "u < length (visible Compare snapshot es)"
  shows "\<exists>d'. DBIter_Prev I Compare snapshot d = Some d' \<and>
    di_stands snapshot es d' (prev_index u (visible Compare snapshot es))"
proof -
  from di_stands_live [OF assms] obtain i where i: "i < length es" "live Compare snapshot es i" "pos snapshot es i = u"
    "di_forward snapshot es d i \<or> di_reverse snapshot es d i" .
  show ?thesis
  proof (cases "di_direction d = kForward")
    case True
    then have f: "di_base es d i" using i(4) by (auto simp: di_forward_def di_reverse_def)
    define d1 where "d1 = SaveKey (ExtractUserKey (Key I (di_iter d))) d"
    have d1: "saved_key d1 = entry_key es i" "di_base es d1 i" "di_direction d1 = kForward"
      using f True internal.Key_nth [of es "di_iter d" i] i(1) by (auto simp: d1_def SaveKey_def di_base_def entry_key_def)
    from scan_back_stops [OF d1(2) order_refl i(1) d1(1)] d1(3) obtain more d2 where
      d2: "scan_back I Compare d1 = Some (more, d2)"
      "if more then \<exists>p < i. di_base es d2 p \<and> (\<forall>j. p < j \<longrightarrow> j < i \<longrightarrow> Compare (entry_key es j) (entry_key es i) = 0)
       else \<not> di_valid d2 \<and> (\<exists>q. di_base es d2 q) \<and> (\<forall>j < i. Compare (entry_key es j) (entry_key es i) = 0)" by auto
    have group: "Compare (entry_key es j) (entry_key es i) = 0 \<Longrightarrow> j < i \<Longrightarrow> \<not> live Compare snapshot es j" for j
      using i(2) by (auto simp: live_def)
    show ?thesis
    proof (cases more)
      case True
      then obtain p where p: "p < i" "di_base es d2 p"
        "\<forall>j. p < j \<longrightarrow> j < i \<longrightarrow> Compare (entry_key es j) (entry_key es i) = 0" using d2(2) by auto
      have "di_base es (d2\<lparr>di_direction := kReverse\<rparr>) p" "p < length es" using p(1,2) i(1) by (simp_all add: di_base_def)
      from FindPrev_stands [OF this] obtain d' where
        "FindPrevUserEntry I Compare snapshot (d2\<lparr>di_direction := kReverse\<rparr>) = Some d'"
        "di_stands snapshot es d' (prev_index (pos snapshot es (Suc p)) (visible Compare snapshot es))" by auto
      moreover have "pos snapshot es i = pos snapshot es (Suc p)" using p(1,3) group by (intro live_pos_none) auto
      ultimately show ?thesis using \<open>di_direction d = kForward\<close> d2(1) True i(3) by (simp add: DBIter_Prev_def d1_def)
    next
      case False
      then have "pos snapshot es i = pos snapshot es 0" using d2(2) group by (intro live_pos_none) auto
      then have "u = 0" using i(3) by simp
      then show ?thesis
        using \<open>di_direction d = kForward\<close> d2 False di_stands_end [of es d2]
        by (auto simp: DBIter_Prev_def d1_def prev_index_def)
    qed
  next
    case False
    then have r: "di_reverse snapshot es d i" "di_direction d = kReverse" using i(4) by (auto simp: di_forward_def di_reverse_def)
    then obtain q where q: "di_base es d q" "if q < length es then q < i \<and> (\<forall>j. q < j \<longrightarrow> j < i \<longrightarrow> \<not> seen snapshot es j)
        else \<forall>j < i. \<not> seen snapshot es j" by (auto simp: di_reverse_def di_before_def)
    show ?thesis
    proof (cases "q < length es")
      case True
      have "pos snapshot es i = pos snapshot es (Suc q)" using q(2) True by (intro live_pos_none) (auto simp: live_def)
      with FindPrev_stands [OF q(1) True r(2), of snapshot] i(3) False show ?thesis by (simp add: DBIter_Prev_def)
    next
      case e: False
      then have "pos snapshot es i = pos snapshot es 0" using q(2) by (intro live_pos_none) (auto simp: live_def)
      then have u: "u = 0" using i(3) by simp
      define d' where "d' = (ClearSavedValue (d\<lparr>di_valid := False, saved_key := []\<rparr>))\<lparr>di_direction := kForward\<rparr>"
      have "di_base es d' q" using q(1) by (simp add: d'_def ClearSavedValue_def di_base_def)
      moreover have "\<not> Valid I (di_iter d)" using internal.Valid_iff q(1) e by (auto simp: di_base_def)
      ultimately show ?thesis
        using di_stands_end [of es d' q] False u by (simp add: DBIter_Prev_def FindPrevUserEntry_def d'_def
          ClearSavedValue_def prev_index_def)
    qed
  qed
qed

lemma DBIter_SeekToFirst_stands:
  assumes "di_stands snapshot es d u"
  shows "\<exists>d'. DBIter_SeekToFirst I Compare snapshot d = Some d' \<and> di_stands snapshot es d' 0"
proof -
  obtain q where q: "di_base es d q" using di_stands_base [OF assms] by blast
  then obtain it where it: "SeekToFirst I (di_iter d) = Some it" "stands es it 0"
    using internal.SeekToFirst [of es "di_iter d" q] by (auto simp: di_base_def)
  define d1 where "d1 = (ClearSavedValue (d\<lparr>di_direction := kForward\<rparr>))\<lparr>di_iter := it\<rparr>"
  have d1: "di_base es d1 0" "di_direction d1 = kForward" using q it(2) by (simp_all add: d1_def ClearSavedValue_def di_base_def)
  have start: "DBIter_SeekToFirst I Compare snapshot d =
      (if Valid I it then FindNextUserEntry I Compare snapshot False d1 else Some (d1\<lparr>di_valid := False\<rparr>))"
    using it(1) by (simp add: DBIter_SeekToFirst_def d1_def ClearSavedValue_def)
  show ?thesis
  proof (cases "0 < length es")
    case True
    have "hides snapshot es False (saved_key d1) 0" by (simp add: hides_def)
    with FindNext_stands [OF d1(1) True _ d1(2)] internal.Valid_iff [OF it(2)] True show ?thesis by (simp add: start)
  next
    case False
    then have e: "es = []" by simp
    have "di_base es (d1\<lparr>di_valid := False\<rparr>) 0" using d1(1) by (simp add: di_base_def)
    with di_stands_end [of es _ 0 0 snapshot] internal.Valid_iff [OF it(2)] e show ?thesis
      by (simp add: start visible_def live_indices_def)
  qed
qed

lemma DBIter_SeekToLast_stands:
  assumes "di_stands snapshot es d u"
  shows "\<exists>d'. DBIter_SeekToLast I Compare snapshot d = Some d' \<and>
    di_stands snapshot es d' (length (visible Compare snapshot es) - 1)"
proof -
  obtain q where q: "di_base es d q" using di_stands_base [OF assms] by blast
  then obtain it where it: "SeekToLast I (di_iter d) = Some it" "stands es it (length es - 1)"
    using internal.SeekToLast [of es "di_iter d" q] by (auto simp: di_base_def)
  define d1 where "d1 = (ClearSavedValue (d\<lparr>di_direction := kReverse\<rparr>))\<lparr>di_iter := it\<rparr>"
  have d1: "di_base es d1 (length es - 1)" "di_direction d1 = kReverse"
    using q it(2) by (simp_all add: d1_def ClearSavedValue_def di_base_def)
  have start: "DBIter_SeekToLast I Compare snapshot d = FindPrevUserEntry I Compare snapshot d1"
    using it(1) by (simp add: DBIter_SeekToLast_def d1_def ClearSavedValue_def)
  show ?thesis
  proof (cases "0 < length es")
    case True
    then have l: "length es - 1 < length es" "Suc (length es - 1) = length es" by simp_all
    have "prev_index (length (visible Compare snapshot es)) (visible Compare snapshot es) = length (visible Compare snapshot es) - 1"
      by (simp add: prev_index_def)
    with FindPrev_stands [OF d1(1) l(1) d1(2), of snapshot] live_pos_all [of Compare snapshot es] l(2)
    show ?thesis unfolding start by simp
  next
    case False
    then have e: "es = []" by simp
    define d' where "d' = (ClearSavedValue (d1\<lparr>di_valid := False, saved_key := []\<rparr>))\<lparr>di_direction := kForward\<rparr>"
    have "di_base es d' (length es - 1)" using d1(1) by (simp add: d'_def ClearSavedValue_def di_base_def)
    moreover have "\<not> Valid I (di_iter d1)" using internal.Valid_iff [OF it(2)] e by (simp add: d1_def ClearSavedValue_def)
    ultimately show ?thesis
      using di_stands_end [of es d' "length es - 1" 0 snapshot] e
      by (simp add: start FindPrevUserEntry_def d'_def ClearSavedValue_def visible_def live_indices_def)
  qed
qed

text \<open>Where the search for the newest entry of the target before the snapshot ends.\<close>

lemma key_number_split: "unat (num :: u64) = 256 * unat (drop_bit 8 num) + unat (ucast (num AND 0xff) :: u8)"
proof -
  have "unat (num AND 0xff) = unat num mod 256" using unat_and_mask [of num 8] by (simp add: mask_eq_exp_minus_1)
  then show ?thesis by (simp add: unat_drop_bit unat_ucast)
qed

lemma entry_past_target:
  assumes "ok es" "i < length es" "snapshot \<le> kMaxSequenceNumber"
    "k = AppendInternalKey [] \<lparr>user_key = target, key_sequence = snapshot, key_type = kValueTypeForSeek\<rparr>"
  shows "InternalKey_Compare Compare (fst (es ! i)) k < 0 \<longleftrightarrow>
    Compare (entry_key es i) target < 0 \<or> Compare (entry_key es i) target = 0 \<and> \<not> seen snapshot es i"
proof -
  have k: "ExtractUserKey k = target" "key_number k = PackSequenceAndType snapshot kTypeValue"
    by (simp_all add: assms(4) AppendInternalKey_bytes kValueTypeForSeek_def del: to_le.simps)
  have t: "unat (entry_type es i) \<le> 1" using entry_parse(2) [OF assms(1,2)] by auto
  have "key_number k < key_number (fst (es ! i)) \<longleftrightarrow> \<not> seen snapshot es i"
    using key_number_split [of "key_number (fst (es ! i))"] PackSequenceAndType_number [OF assms(3), of kTypeValue] t
    unfolding k(2) seen_def entry_sequence_def entry_type_def word_less_nat_alt word_le_nat_alt not_le
    by (simp only: unat_1) linarith
  then show ?thesis using k(1) by (simp add: ICompare_cases entry_key_def)
qed

lemma DBIter_Seek_stands:
  assumes "di_stands snapshot es d u" "valid target" "snapshot \<le> kMaxSequenceNumber"
  shows "\<exists>d'. DBIter_Seek I Compare snapshot target d = Some d' \<and>
    di_stands snapshot es d' (seek_index Compare target (visible Compare snapshot es))"
proof -
  obtain q where q: "di_base es d q" using di_stands_base [OF assms(1)] by blast
  then have es: "ok es" by (simp add: di_base_def)
  define k where "k = AppendInternalKey [] \<lparr>user_key = target, key_sequence = snapshot, key_type = kValueTypeForSeek\<rparr>"
  define s where "s = seek_index (InternalKey_Compare Compare) k es"
  have "internal_valid valid k"
    using assms(2) by (simp add: internal_valid_def k_def AppendInternalKey_bytes del: to_le.simps)
  with q obtain it where it: "Seek I k (di_iter d) = Some it" "stands es it s"
    using internal.Seek [of es "di_iter d" q k] by (auto simp: di_base_def s_def)
  define d1 where "d1 = (ClearSavedValue (d\<lparr>di_direction := kForward\<rparr>))\<lparr>saved_key := k, di_iter := it\<rparr>"
  have d1: "di_base es d1 s" "di_direction d1 = kForward" using q it(2) by (simp_all add: d1_def ClearSavedValue_def di_base_def)
  have start: "DBIter_Seek I Compare snapshot target d =
      (if Valid I it then FindNextUserEntry I Compare snapshot False d1 else Some (d1\<lparr>di_valid := False\<rparr>))"
    using it(1) by (simp add: DBIter_Seek_def d1_def ClearSavedValue_def Let_def k_def)
  have s: "s \<le> length es" by (simp add: s_def seek_index_le)
  note past = entry_past_target [OF es _ assms(3) k_def]
  have before: "Compare (entry_key es i) target < 0 \<or> Compare (entry_key es i) target = 0 \<and> \<not> seen snapshot es i"
    if "i < s" for i
    using seek_index_less [of i "InternalKey_Compare Compare" k es] past [of i] that s by (simp add: s_def)
  have at: "0 \<le> Compare (entry_key es i) target" if "s \<le> i" "i < length es" for i
  proof -
    have "\<not> InternalKey_Compare Compare (fst (es ! s)) k < 0"
      using seek_index_here [of "InternalKey_Compare Compare" k es] that by (simp add: s_def)
    then have "\<not> Compare (entry_key es s) target < 0" using past [of s] that by auto
    moreover have "Compare (entry_key es s) (entry_key es i) \<le> 0" using entry_order [OF es that] .
    ultimately show ?thesis
      using le_less_trans [of "entry_key es s" "entry_key es i" target] entry_valid [OF es] assms(2) that
      by (meson order.strict_trans1 leI)
  qed
  have pos: "seek_index Compare target (visible Compare snapshot es) = pos snapshot es s"
  proof (rule seek_indexI)
    show "pos snapshot es s \<le> length (visible Compare snapshot es)" by (rule pos_le [OF s])
    fix u
    assume u: "u < pos snapshot es s"
    then have "u < length (visible Compare snapshot es)" using pos_le [OF s, of snapshot] by linarith
    from live_pos_index [OF this] obtain i where i: "i < length es" "live Compare snapshot es i" "pos snapshot es i = u" by blast
    have "i < s" using u i(3) live_pos_mono [of s i Compare snapshot es] by (meson leI leD)
    then show "Compare (fst (visible Compare snapshot es ! u)) target < 0"
      using before [of i] live_pos_nth(3) [OF i(1,2)] i(2,3) by (auto simp: live_def)
  next
    assume u: "pos snapshot es s < length (visible Compare snapshot es)"
    from live_pos_index [OF this] obtain i where
      i: "i < length es" "live Compare snapshot es i" "pos snapshot es i = pos snapshot es s" by blast
    have "s \<le> i"
    proof (rule ccontr)
      assume "\<not> s \<le> i"
      then have "Suc i \<le> s" by simp
      from live_pos_mono [OF this, of Compare snapshot es] i(2,3) show False by (simp add: live_pos_Suc)
    qed
    then show "0 \<le> Compare (fst (visible Compare snapshot es ! pos snapshot es s)) target"
      using at i(1) live_pos_nth(3) [OF i(1,2)] i(3) by simp
  qed
  show ?thesis
  proof (cases "s < length es")
    case True
    have "\<not> seen snapshot es j" if "j < s" "s \<le> k" "k < length es" "Compare (entry_key es j) (entry_key es k) = 0" for j k
    proof -
      have "j < length es" using that by linarith
      then have v: "valid (entry_key es k)" "valid (entry_key es j)" using entry_valid [OF es] that(3) by auto
      have "\<not> Compare (entry_key es j) target < 0"
        using le_less_trans [OF v assms(2)] same_sym [OF es, of j k] that \<open>j < length es\<close> at [OF that(2,3)] by fastforce
      then show ?thesis using before [OF that(1)] by blast
    qed
    then have "hides snapshot es False (saved_key d1) s" unfolding hides_def by blast
    with FindNext_stands [OF d1(1) True _ d1(2)] internal.Valid_iff [OF it(2)] True pos show ?thesis by (simp add: start)
  next
    case False
    then have "pos snapshot es s = length (visible Compare snapshot es)" using s by (simp add: live_pos_all)
    moreover have "di_base es (d1\<lparr>di_valid := False\<rparr>) s" using d1(1) by (simp add: di_base_def)
    ultimately show ?thesis
      using di_stands_end [of es "d1\<lparr>di_valid := False\<rparr>" s] internal.Valid_iff [OF it(2)] False pos by (simp add: start)
  qed
qed

section \<open>The contract\<close>

lemma di_current:
  assumes "di_stands snapshot es d u" "u < length (visible Compare snapshot es)"
  shows "db_key I d = fst (visible Compare snapshot es ! u)" "db_value I d = snd (visible Compare snapshot es ! u)"
proof -
  from di_stands_live [OF assms] obtain i where i: "i < length es" "live Compare snapshot es i" "pos snapshot es i = u"
    "di_forward snapshot es d i \<or> di_reverse snapshot es d i" .
  have "visible Compare snapshot es ! u = (entry_key es i, snd (es ! i))" using live_pos_nth(3) [OF i(1,2)] i(3) by simp
  with i(1,4) internal.Key_nth [of es "di_iter d" i] internal.Value_nth [of es "di_iter d" i]
  show "db_key I d = fst (visible Compare snapshot es ! u)" "db_value I d = snd (visible Compare snapshot es ! u)"
    by (auto simp: db_key_def db_value_def di_forward_def di_reverse_def di_base_def entry_key_def)
qed

lemma db_iterator:
  assumes "snapshot \<le> kMaxSequenceNumber"
  shows "iterator (db_iterator I Compare snapshot) valid Compare
    (\<lambda>vs d u. \<exists>es. vs = visible Compare snapshot es \<and> di_stands snapshot es d u)"
proof
  fix vs d u
  assume "\<exists>es. vs = visible Compare snapshot es \<and> di_stands snapshot es d u"
  then obtain es where v: "vs = visible Compare snapshot es" "di_stands snapshot es d u" by blast
  note calls = DBIter_SeekToFirst_stands [OF v(2)] DBIter_SeekToLast_stands [OF v(2)] DBIter_Seek_stands [OF v(2) _ assms]
    DBIter_Next_stands [OF v(2)] DBIter_Prev_stands [OF v(2)]
  show "u \<le> length vs" "Valid (db_iterator I Compare snapshot) d \<longleftrightarrow> u < length vs"
    using v by (simp_all add: db_iterator_def di_stands_def)
  obtain q where "di_base es d q" using di_stands_base [OF v(2)] by blast
  then show "Status (db_iterator I Compare snapshot) d = Status_OK"
    using internal.Status_OK by (auto simp: db_iterator_def db_status_def di_base_def)
  show "\<exists>d'. SeekToFirst (db_iterator I Compare snapshot) d = Some d' \<and>
      (\<exists>es. vs = visible Compare snapshot es \<and> di_stands snapshot es d' 0)"
    "\<exists>d'. SeekToLast (db_iterator I Compare snapshot) d = Some d' \<and>
      (\<exists>es. vs = visible Compare snapshot es \<and> di_stands snapshot es d' (length vs - 1))"
    using calls(1,2) v(1) by (auto simp: db_iterator_def)
  show "\<exists>d'. Seek (db_iterator I Compare snapshot) target d = Some d' \<and>
      (\<exists>es. vs = visible Compare snapshot es \<and> di_stands snapshot es d' (seek_index Compare target vs))"
    if "valid target" for target using calls(3) [OF that] v(1) by (auto simp: db_iterator_def)
  assume u: "u < length vs"
  show "Key (db_iterator I Compare snapshot) d = fst (vs ! u)" "Value (db_iterator I Compare snapshot) d = snd (vs ! u)"
    using di_current [OF v(2)] u v(1) by (simp_all add: db_iterator_def)
  show "\<exists>d'. Next (db_iterator I Compare snapshot) d = Some d' \<and>
      (\<exists>es. vs = visible Compare snapshot es \<and> di_stands snapshot es d' (Suc u))"
    "\<exists>d'. Prev (db_iterator I Compare snapshot) d = Some d' \<and>
      (\<exists>es. vs = visible Compare snapshot es \<and> di_stands snapshot es d' (prev_index u vs))"
    using calls(4,5) u v(1) by (auto simp: db_iterator_def)
qed

lemma visible_sorted:
  assumes "ok es"
  shows "sorted_entries Compare (visible Compare snapshot es)"
proof -
  have "Compare (entry_key es i) (entry_key es j) < 0"
    if "i < j" "j < length es" "live Compare snapshot es i" "live Compare snapshot es j" for i j
    using entry_order [OF assms, of i j] that by (fastforce simp: live_def)
  then have "sorted_wrt (\<lambda>i j. Compare (entry_key es i) (entry_key es j) < 0) (live_indices Compare snapshot es)"
    unfolding live_indices_def
    by (intro sorted_wrt_mono_rel [rotated, OF sorted_wrt_filter [OF sorted_wrt_upt]]) auto
  then show ?thesis by (simp add: sorted_entries_def visible_def sorted_wrt_map)
qed

lemma DBIter_new:
  assumes "ok es" "stands es it q"
  shows "di_stands snapshot es (DBIter it seed) (length (visible Compare snapshot es))"
proof -
  have "seed_ok (fst (Random_Next (Random seed)))" by (rule Random_Next_mod(3) [OF Random_ok])
  then show ?thesis
    using assms by (intro di_stands_end [of es _ q]) (simp_all add: DBIter_def RandomCompactionPeriod_mod [OF Random_ok] di_base_def)
qed

end

text \<open>A database's iterator over one block and over merged blocks.\<close>

interpretation db_iter_block: db_iter_over "\<lambda>_. True" slice_compare FindShortestSeparator FindShortSuccessor
  "block_iterator (InternalKey_Compare slice_compare)"
  "block_over (internal_valid (\<lambda>_. True)) (InternalKey_Compare slice_compare)"
  by (intro db_iter_over.intro bytewise.comparator_axioms internal_block_iter.iterator_axioms)

interpretation db_iter_merged: db_iter_over "\<lambda>_. True" slice_compare FindShortestSeparator FindShortSuccessor
  "merging_iterator (block_iterator (InternalKey_Compare slice_compare)) (InternalKey_Compare slice_compare)"
  "\<lambda>es m k. \<exists>os. merged_internal_blocks.over os es m k"
  by (intro db_iter_over.intro bytewise.comparator_axioms merged_internal_blocks.merging_iterator)

section \<open>What the user sees\<close>

text \<open>
  C5. A snapshot's iterator shows the visible entries: over any internal iterator that keeps the contract for
  entries in internal key order, the iterator of the database follows a cursor over the user keys whose newest
  entry not after the snapshot is a value, through every sequence of \<open>SeekToFirst\<close>, \<open>SeekToLast\<close>, \<open>Seek\<close>,
  \<open>Next\<close> and \<open>Prev\<close> with changes of direction, and every call returns.
\<close>

theorem dbiter_shows_visible:
  assumes "comparator valid Compare Separator Successor"
    "iterator I (internal_valid valid) (InternalKey_Compare Compare) stands"
    "snapshot \<le> kMaxSequenceNumber" "internal_entries_ok valid Compare es" "stands es it q"
  shows "shows_entries (db_iterator I Compare snapshot) valid Compare (visible Compare snapshot es) (DBIter it seed)"
proof -
  from assms(1,2) have over: "db_iter_over valid Compare Separator Successor I stands" by (rule db_iter_over.intro)
  note new = db_iter_over.DBIter_new [OF over assms(4,5), of snapshot seed]
  show ?thesis
    by (rule iterator.stands_shows [OF db_iter_over.db_iterator [OF over assms(3)]]) (use new in blast)
qed

text \<open>A block of five internal keys, of which two user keys have a value before sequence number 5.\<close>

lemma dbiter_shows_visible_witness:
  "\<exists>it. Block_NewIterator (Block 0 (built_block 16
      [([97, 1, 7, 0, 0, 0, 0, 0, 0], [7]), ([97, 1, 5, 0, 0, 0, 0, 0, 0], [5]), ([98, 0, 4, 0, 0, 0, 0, 0, 0], []),
       ([98, 1, 2, 0, 0, 0, 0, 0, 0], [2]), ([99, 1, 3, 0, 0, 0, 0, 0, 0], [3])])) = Inr it \<and>
    shows_entries (db_iterator (block_iterator (InternalKey_Compare slice_compare)) slice_compare 5) (\<lambda>_. True) slice_compare
      [([97], [5]), ([99], [3])] (DBIter it 301)"
proof -
  define es :: "entry list" where "es = [([97, 1, 7, 0, 0, 0, 0, 0, 0], [7]), ([97, 1, 5, 0, 0, 0, 0, 0, 0], [5]),
    ([98, 0, 4, 0, 0, 0, 0, 0, 0], []), ([98, 1, 2, 0, 0, 0, 0, 0, 0], [2]), ([99, 1, 3, 0, 0, 0, 0, 0, 0], [3])]"
  have fits: "block_fits 16 es"
    by (simp add: es_def block_fits_def built_block_def add_entries_def BlockBuilder_def BlockBuilder_Add_def Let_def
        BlockBuilder_Finish_def PutVarint32_bytes PutFixed32_def varint_bytes_small)
  have sorted: "sorted_entries (InternalKey_Compare slice_compare) es"
    by (simp add: es_def sorted_entries_def InternalKey_Compare_def ExtractUserKey_def key_number_def slice_compare_lex)
  have ok: "internal_entries_ok (\<lambda>_. True) slice_compare es"
    using sorted by (simp add: internal_entries_ok_def es_def ParseInternalKey_def)
  have valid: "\<forall>e \<in> set es. internal_valid (\<lambda>_. True) (fst e)" by (simp add: es_def internal_valid_def)
  from built_block_over [OF _ fits sorted valid, of 0] obtain it where
    it: "Block_NewIterator (Block 0 (built_block 16 es)) = Inr it"
      "block_over (internal_valid (\<lambda>_. True)) (InternalKey_Compare slice_compare) es it (length es)" by auto
  have "visible slice_compare 5 es = [([97], [5]), ([99], [3])]"
    by (simp add: visible_def live_indices_def live_def seen_def entry_sequence_def entry_type_def entry_key_def es_def
        key_number_def ExtractUserKey_def upt_rec All_less_Suc Ex_less_Suc)
  with dbiter_shows_visible [OF bytewise.comparator_axioms internal_block_iter.iterator_axioms _ ok it(2), of 5 301] it(1)
  show ?thesis by (simp add: es_def kMaxSequenceNumber_def)
qed

end
