(* ===== verification/MemProps.thy ===== *)
theory MemProps
  imports MemTable DbIterProps
begin

text \<open>
  The memtable holds the writes that were added: its iterator shows them in internal key order, and a lookup
  finds the newest one for a user key that a snapshot sees.
\<close>

section \<open>The writes it holds\<close>

text \<open>
  \<open>ws\<close> are the writes in the order of their increasing sequence numbers, \<open>vs\<close> the same writes in the order of the
  nodes \<open>as\<close>.
\<close>

definition mem_holds ::
  "(slice \<Rightarrow> bool) \<Rightarrow> (slice \<Rightarrow> slice \<Rightarrow> int) \<Rightarrow> db_write list \<Rightarrow> memtable \<Rightarrow> nat list \<Rightarrow> db_write list \<Rightarrow> bool" where
  "mem_holds valid Compare ws m as vs \<longleftrightarrow>
     skip_ok (KeyComparator Compare) (mem_table m) as \<and> map (key_of (mem_table m)) as = map write_entry vs \<and>
     mset vs = mset ws \<and> (\<forall>w \<in> set ws. write_ok valid w) \<and> sorted_wrt (<) (map fst ws)"

definition write_user_key :: "db_write \<Rightarrow> slice" where
  "write_user_key w = fst (snd (snd w))"

text \<open>The newest write for a key that a snapshot sees.\<close>

definition newest_write ::
  "(slice \<Rightarrow> slice \<Rightarrow> int) \<Rightarrow> slice \<Rightarrow> SequenceNumber \<Rightarrow> db_write list \<Rightarrow> db_write option" where
  "newest_write Compare key snapshot ws =
     (let found = filter (\<lambda>w. Compare (write_user_key w) key = 0 \<and> fst w \<le> snapshot) ws
      in if found = [] then None else Some (last found))"

lemma last_filter:
  assumes "sorted_wrt (<) (map fst ws)" "w \<in> set ws" "P w" "\<And>w'. w' \<in> set ws \<Longrightarrow> P w' \<Longrightarrow> fst w' \<le> (fst w :: 'a::linorder)"
  shows "filter P ws \<noteq> [] \<and> last (filter P ws) = w"
  using assms
proof (induction ws rule: rev_induct)
  case (snoc v ws)
  show ?case
  proof (cases "P v")
    case True
    have "w = v"
    proof (rule ccontr)
      assume "w \<noteq> v"
      then have "fst w < fst v" using snoc.prems(1,2) by (auto simp: sorted_wrt_append)
      moreover have "fst v \<le> fst w" using snoc.prems(4) [of v] True by simp
      ultimately show False by simp
    qed
    then show ?thesis using True by simp
  next
    case False
    then have "w \<in> set ws" using snoc.prems(2,3) by auto
    then show ?thesis using snoc.IH snoc.prems(1,3,4) False by (simp add: sorted_wrt_append)
  qed
qed simp

lemma last_greatest: "sorted_wrt (<) (map fst ws) \<Longrightarrow> w \<in> set ws \<Longrightarrow> fst w \<le> (fst (last ws) :: 'a::order)"
  by (cases ws rule: rev_cases) (auto simp: sorted_wrt_append order.strict_implies_order)

context comparator
begin

abbreviation (input) holds :: "db_write list \<Rightarrow> memtable \<Rightarrow> nat list \<Rightarrow> db_write list \<Rightarrow> bool" where
  "holds \<equiv> mem_holds valid Compare"

lemma holds_writes: "holds ws m as vs \<Longrightarrow> w \<in> set vs \<longleftrightarrow> w \<in> set ws"
  using mset_eq_setD unfolding mem_holds_def by blast

lemma holds_key: "holds ws m as vs \<Longrightarrow> i < length as \<Longrightarrow> key_of (mem_table m) (as ! i) = write_entry (vs ! i)"
  unfolding mem_holds_def by (metis length_map nth_map)

lemma holds_length: "holds ws m as vs \<Longrightarrow> length vs = length as"
  unfolding mem_holds_def by (metis length_map)

lemma holds_valid:
  assumes "holds ws m as vs"
  shows "\<forall>a \<in> set as. entry_valid valid (key_of (mem_table m) a)"
proof
  fix a
  assume "a \<in> set as"
  then have "key_of (mem_table m) a \<in> set (map write_entry vs)"
    using assms unfolding mem_holds_def by (metis image_eqI list.set_map)
  then show "entry_valid valid (key_of (mem_table m) a)"
    using holds_writes [OF assms] write_entry_valid assms unfolding mem_holds_def by auto
qed

lemma write_valid: "write_ok valid w \<Longrightarrow> valid (write_user_key w)"
  by (cases w) (simp add: write_ok_def write_user_key_def)

text \<open>The order of two writes, and of a write and a lookup key.\<close>

lemma write_order:
  assumes "write_ok valid a" "write_ok valid b"
  shows "ICompare (write_internal_key a) (write_internal_key b) < 0 \<longleftrightarrow>
      Compare (write_user_key a) (write_user_key b) < 0 \<or>
      Compare (write_user_key a) (write_user_key b) = 0 \<and> (fst b < fst a \<or> fst b = fst a \<and> fst (snd b) < fst (snd a))"
    "fst a \<noteq> fst b \<Longrightarrow> ICompare (write_internal_key a) (write_internal_key b) \<noteq> 0"
proof -
  obtain s t k v s' t' k' v' where w: "a = (s, t, k, v)" "b = (s', t', k', v')" by (metis surj_pair)
  have le: "s \<le> kMaxSequenceNumber" "s' \<le> kMaxSequenceNumber" using assms by (simp_all add: w write_ok_def)
  show "ICompare (write_internal_key a) (write_internal_key b) < 0 \<longleftrightarrow>
      Compare (write_user_key a) (write_user_key b) < 0 \<or>
      Compare (write_user_key a) (write_user_key b) = 0 \<and> (fst b < fst a \<or> fst b = fst a \<and> fst (snd b) < fst (snd a))"
    using InternalKey_Compare_Append [of "\<lparr>user_key = k, key_sequence = s, key_type = t\<rparr>"
        "\<lparr>user_key = k', key_sequence = s', key_type = t'\<rparr>" Compare] le
    by (auto simp: w write_internal_key_def write_user_key_def Let_def)
  show "ICompare (write_internal_key a) (write_internal_key b) \<noteq> 0" if "fst a \<noteq> fst b"
    using InternalKey_Compare_Append [of "\<lparr>user_key = k, key_sequence = s, key_type = t\<rparr>"
        "\<lparr>user_key = k', key_sequence = s', key_type = t'\<rparr>" Compare] le that
    by (auto simp: w write_internal_key_def Let_def not_less order.order_iff_strict)
qed

text \<open>The seek target of a lookup: a write of type value at the snapshot itself.\<close>

lemma lookup_write:
  assumes "valid k" "length k + 8 < 2 ^ 32" "snapshot \<le> kMaxSequenceNumber"
  shows "write_ok valid (snapshot, kTypeValue, k, [])"
    "memtable_key (LookupKey k snapshot) = length_prefixed (write_internal_key (snapshot, kTypeValue, k, []))"
    "lookup_user_key (LookupKey k snapshot) = k"
proof -
  show "write_ok valid (snapshot, kTypeValue, k, [])" using assms by (simp add: write_ok_def)
  have "unat (of_nat (length k + 8) :: u32) = length k + 8" by (rule unat_of_nat_small) (use assms in simp)
  then show "memtable_key (LookupKey k snapshot) = length_prefixed (write_internal_key (snapshot, kTypeValue, k, []))"
    by (simp add: memtable_key_def LookupKey_def Let_def EncodeVarint32_bytes length_prefixed_def write_internal_key_def
        AppendInternalKey_bytes kValueTypeForSeek_def del: to_le.simps of_nat_add)
  show "lookup_user_key (LookupKey k snapshot) = k" by (rule LookupKey_parts)
qed

section \<open>Adding a write\<close>

lemma MemTable_new: "holds [] MemTable [] []"
  using key_order.SkipList_ok [OF memtable_key_order] by (simp add: mem_holds_def MemTable_def)

lemma MemTable_Add_holds:
  assumes "holds ws m as vs" "write_ok valid (s, t, k, v)" "\<forall>w \<in> set ws. fst w < s" "length unset = kMaxHeight"
  shows "\<exists>m' as' vs'. MemTable_Add unset Compare s t k v m = Some m' \<and> holds (ws @ [(s, t, k, v)]) m' as' vs' \<and>
    mem_refs m' = mem_refs m"
proof -
  define w where "w = (s, t, k, v)"
  define T where "T = mem_table m"
  note ko = memtable_key_order
  have ok: "skip_ok (KeyComparator Compare) T as" "map (key_of T) as = map write_entry vs"
    using assms(1) by (simp_all add: mem_holds_def T_def)
  have vw: "entry_valid valid (write_entry w)" using write_entry_valid [OF assms(2)] by (simp add: w_def)
  have va: "\<forall>a \<in> set as. entry_valid valid (key_of T a)" using holds_valid [OF assms(1)] by (simp add: T_def)
  from key_order.split_at [OF ko ok(1) va vw] obtain L G where LG: "as = L @ G"
    "\<forall>a \<in> set L. KeyComparator Compare (key_of T a) (write_entry w) < 0"
    "\<forall>a \<in> set G. \<not> KeyComparator Compare (key_of T a) (write_entry w) < 0" by blast
  define VL where "VL = take (length L) vs"
  define VG where "VG = drop (length L) vs"
  have vs: "vs = VL @ VG" by (simp add: VL_def VG_def)
  have maps: "map (key_of T) L = map write_entry VL" "map (key_of T) G = map write_entry VG"
    using arg_cong [OF ok(2), of "take (length L)"] arg_cong [OF ok(2), of "drop (length L)"] holds_length [OF assms(1)]
    by (simp_all add: LG(1) VL_def VG_def take_map drop_map)
  have "KeyComparator Compare (key_of T a) (write_entry w) > 0" if a: "a \<in> set G" for a
  proof -
    have "key_of T a \<in> set (map write_entry VG)" using a maps(2) by (metis image_eqI list.set_map)
    then obtain w' where w': "key_of T a = write_entry w'" "w' \<in> set vs" unfolding vs by auto
    then have "write_ok valid w'" "fst w' < s" using holds_writes [OF assms(1)] assms(1,3) by (auto simp: mem_holds_def)
    then have "KeyComparator Compare (write_entry w') (write_entry w) \<noteq> 0"
      using write_order(2) [of w' w] KeyComparator_writes [of valid w' w] assms(2) by (auto simp: w_def)
    then show ?thesis using LG(3) a w'(1) by force
  qed
  then obtain T' where T': "Insert unset (KeyComparator Compare) (write_entry w) T = Some T'"
    "skip_ok (KeyComparator Compare) T' (L @ length (sl_nodes T) # G)" "key_of T' (length (sl_nodes T)) = write_entry w"
    "\<forall>a < length (sl_nodes T). key_of T' a = key_of T a"
    using key_order.Insert_ok [OF ko _ LG(2) _ _ vw assms(4)] ok(1) va LG(1) by blast
  have below: "a < length (sl_nodes T)" if "a \<in> set as" for a using ok(1) that by (simp add: skip_ok_def)
  have "map (key_of T') L = map (key_of T) L" "map (key_of T') G = map (key_of T) G"
    using T'(4) below LG(1) by simp_all
  then have "map (key_of T') (L @ length (sl_nodes T) # G) = map write_entry (VL @ w # VG)"
    using T'(3) maps by simp
  moreover have "mset (VL @ w # VG) = mset (ws @ [w])" using assms(1) vs by (simp add: mem_holds_def)
  moreover have "sorted_wrt (<) (map fst (ws @ [w]))" using assms(1,3) by (auto simp: mem_holds_def sorted_wrt_append w_def)
  ultimately have "holds (ws @ [w]) (m\<lparr>mem_table := T'\<rparr>) (L @ length (sl_nodes T) # G) (VL @ w # VG)"
    using T'(2) assms(1,2) by (simp add: mem_holds_def w_def)
  moreover have "MemTable_Add unset Compare s t k v m = Some (m\<lparr>mem_table := T'\<rparr>)"
    using T'(1) by (simp add: MemTable_Add_def T_def w_def write_entry_def)
  moreover have "mem_refs (m\<lparr>mem_table := T'\<rparr>) = mem_refs m" by simp
  ultimately show ?thesis unfolding w_def by blast
qed

section \<open>Looking up a key\<close>

text \<open>Reading an entry: its internal key, whose parts are the write's, and its value.\<close>

lemma write_entry_reads:
  assumes "write_ok valid w"
  shows "\<exists>key_length key_ptr. GetVarint32Ptr (write_entry w) = Some (key_length, key_ptr) \<and>
    take (unat (key_length - 8)) key_ptr = write_user_key w \<and>
    DecodeFixed64 kLittleEndian (drop (unat (key_length - 8)) key_ptr) = PackSequenceAndType (fst w) (fst (snd w)) \<and>
    memtable_slice (drop (unat key_length) key_ptr) = Some (snd (snd (snd w)), [])"
proof -
  obtain s t k v where w: "w = (s, t, k, v)" by (metis surj_pair)
  have len: "length k + 8 < 2 ^ 32" "length v < 2 ^ 32" using assms by (simp_all add: w write_ok_def)
  define l :: u32 where "l = of_nat (length k + 8)"
  have l: "unat l = length k + 8" unfolding l_def by (rule unat_of_nat_small) (use len in simp)
  have l8: "unat (l - 8) = length k" using l by (simp add: unat_sub word_le_nat_alt)
  define p where "p = write_internal_key w @ length_prefixed v"
  have p: "p = k @ to_le 8 (unat (PackSequenceAndType s t)) @ length_prefixed v"
    by (simp add: p_def w write_internal_key_def AppendInternalKey_bytes del: to_le.simps)
  have "write_entry w = varint_bytes (unat l) @ p"
    using write_entry_bytes [OF assms] l
    by (simp add: p_def w length_prefixed_def write_internal_key_def length_AppendInternalKey)
  then have "GetVarint32Ptr (write_entry w) = Some (l, p)" by (simp add: GetVarint32Ptr_bytes)
  moreover have "take (unat (l - 8)) p = k" "drop (unat l) p = length_prefixed v"
    "drop (unat (l - 8)) p = to_le 8 (unat (PackSequenceAndType s t)) @ length_prefixed v"
    by (simp_all add: l l8 p del: to_le.simps)
  moreover have "memtable_slice (length_prefixed v) = Some (v, [])" using memtable_slice_prefixed [OF len(2), of "[]"] by simp
  ultimately show ?thesis
    using DecodeFixed64_to_le [of kLittleEndian "PackSequenceAndType s t" "length_prefixed v"]
    by (intro exI [of _ l] exI [of _ p]) (simp add: w write_user_key_def del: to_le.simps)
qed

text \<open>Past the writes before the seek target comes the newest one, if the snapshot sees any.\<close>

lemma newest_past_target:
  assumes "sorted_wrt (<) (map fst ws)" "\<forall>w \<in> set ws. write_ok valid w" "set (VL @ VG) = set ws"
    "sorted_wrt (\<lambda>a b. ICompare (write_internal_key a) (write_internal_key b) < 0) (VL @ VG)"
    "write_ok valid t" "t = (snapshot, kTypeValue, k, [])"
    "\<forall>w \<in> set VL. ICompare (write_internal_key w) (write_internal_key t) < 0"
    "\<forall>w \<in> set VG. \<not> ICompare (write_internal_key w) (write_internal_key t) < 0"
  shows "newest_write Compare k snapshot ws =
    (case VG of [] \<Rightarrow> None | w # _ \<Rightarrow> if Compare (write_user_key w) k = 0 then Some w else None)"
proof -
  have ok: "write_ok valid w" if "w \<in> set (VL @ VG)" for w using assms(2,3) that by blast
  have vk: "valid k" "write_user_key t = k" using write_valid [OF assms(5)] assms(6) by (simp_all add: write_user_key_def)
  have type: "\<not> kTypeValue < fst (snd w)" if "w \<in> set (VL @ VG)" for w
    using ok [OF that] by (cases w) (simp add: write_ok_def not_less)
  have match: "w \<in> set VG" if "w \<in> set ws" "Compare (write_user_key w) k = 0" "fst w \<le> snapshot" for w
  proof (rule ccontr)
    assume "w \<notin> set VG"
    then have "w \<in> set VL" using assms(3) that(1) by auto
    then show False
      using assms(6,7) write_order(1) [OF ok assms(5), of w] that(2,3) vk(2) type [of w] by auto
  qed
  show ?thesis
  proof (cases VG)
    case Nil
    then show ?thesis using match by (auto simp: newest_write_def Let_def filter_empty_conv)
  next
    case (Cons w rest)
    then have w: "w \<in> set (VL @ VG)" "\<not> ICompare (write_internal_key w) (write_internal_key t) < 0" using assms(8) by auto
    have after: "w' = w \<or> ICompare (write_internal_key w) (write_internal_key w') < 0" if "w' \<in> set VG" for w'
      using assms(4) Cons that by (auto simp: sorted_wrt_append)
    note vw = write_valid [OF ok [OF w(1)]]
    show ?thesis
    proof (cases "Compare (write_user_key w) k = 0")
      case True
      have seen: "fst w \<le> snapshot"
        using w(2) write_order(1) [OF ok [OF w(1)] assms(5)] True vk(2) assms(6) by auto
      have "fst w' \<le> fst w" if w': "w' \<in> set ws" "Compare (write_user_key w') k = 0 \<and> fst w' \<le> snapshot" for w'
      proof -
        have v': "write_ok valid w'" "valid (write_user_key w')" using assms(2) w'(1) write_valid by auto
        have "Compare (write_user_key w) (write_user_key w') \<ge> 0"
          using trans [OF v'(2) vk(1) vw] True w'(2) eq_sym [OF vw vk(1)] sym [OF vw v'(2)] by fastforce
        then show ?thesis
          using after [OF match [OF w'(1)]] w'(2) write_order(1) [OF ok [OF w(1)] v'(1)] by auto
      qed
      with last_filter [OF assms(1), of w "\<lambda>w. Compare (write_user_key w) k = 0 \<and> fst w \<le> snapshot"] True seen w(1) assms(3) Cons
      show ?thesis by (auto simp: newest_write_def Let_def)
    next
      case False
      then have less: "Compare k (write_user_key w) < 0"
        using w(2) write_order(1) [OF ok [OF w(1)] assms(5)] sym [OF vk(1) vw] vk(2) by auto
      have "\<not> (Compare (write_user_key w') k = 0 \<and> fst w' \<le> snapshot)" if w': "w' \<in> set ws" for w'
      proof
        assume m: "Compare (write_user_key w') k = 0 \<and> fst w' \<le> snapshot"
        have v': "write_ok valid w'" "valid (write_user_key w')" using assms(2) w' write_valid by auto
        have "Compare (write_user_key w) (write_user_key w') \<le> 0"
          using after [OF match [OF w']] m write_order(1) [OF ok [OF w(1)] v'(1)] refl [OF vw] by auto
        then have "Compare k (write_user_key w') < 0" by (rule less_le_trans [OF vk(1) vw v'(2) less])
        then show False using m eq_sym [OF vk(1) v'(2)] by simp
      qed
      then show ?thesis using Cons False by (auto simp: newest_write_def Let_def filter_empty_conv)
    qed
  qed
qed

lemma MemTable_Get_newest:
  assumes "holds ws m as vs" "valid k" "length k + 8 < 2 ^ 32" "snapshot \<le> kMaxSequenceNumber"
  shows "MemTable_Get Compare (LookupKey k snapshot) val s m =
    Some (case newest_write Compare k snapshot ws of
        None \<Rightarrow> (False, val, s)
      | Some (_, type, _, v) \<Rightarrow> if type = kTypeValue then (True, v, s) else (True, val, Status_NotFound [] []))"
proof -
  define t :: db_write where "t = (snapshot, kTypeValue, k, [])"
  define T where "T = mem_table m"
  have t: "write_ok valid t" "memtable_key (LookupKey k snapshot) = length_prefixed (write_internal_key t)"
    "lookup_user_key (LookupKey k snapshot) = k" using lookup_write [OF assms(2-4)] by (simp_all add: t_def)
  define p where "p = length_prefixed (write_internal_key t)"
  have slice: "fst (the (memtable_slice p)) = write_internal_key t"
    using memtable_slice_prefixed [of "write_internal_key t" "[]"] write_lengths [OF t(1)] by (simp add: p_def)
  have vp: "entry_valid valid p"
    unfolding entry_valid_def p_def using write_lengths [OF t(1)] write_internal_valid [OF t(1)]
    by (intro exI [of _ "write_internal_key t"] exI [of _ "[]"]) simp
  have ok: "skip_ok (KeyComparator Compare) T as" "map (key_of T) as = map write_entry vs"
    using assms(1) by (simp_all add: mem_holds_def T_def)
  from key_order.split_at [OF memtable_key_order ok(1) _ vp] holds_valid [OF assms(1)] obtain L G where LG: "as = L @ G"
    "\<forall>a \<in> set L. KeyComparator Compare (key_of T a) p < 0" "\<forall>a \<in> set G. \<not> KeyComparator Compare (key_of T a) p < 0"
    by (auto simp: T_def)
  have seek: "sl_Seek (KeyComparator Compare) T p = Some (sl_at (L @ G) (length L))"
    using key_order.sl_Seek_at [OF memtable_key_order _ LG(2,3)] ok(1) LG(1) by simp
  define VL where "VL = take (length L) vs"
  define VG where "VG = drop (length L) vs"
  have vs: "vs = VL @ VG" "set (VL @ VG) = set ws" using holds_writes [OF assms(1)] by (auto simp: VL_def VG_def)
  have maps: "map (key_of T) L = map write_entry VL" "map (key_of T) G = map write_entry VG"
    using arg_cong [OF ok(2), of "take (length L)"] arg_cong [OF ok(2), of "drop (length L)"] holds_length [OF assms(1)]
    by (simp_all add: LG(1) VL_def VG_def take_map drop_map)
  have okw: "write_ok valid w" if "w \<in> set vs" for w using holds_writes [OF assms(1)] assms(1) that by (auto simp: mem_holds_def)
  have comp: "KeyComparator Compare (write_entry w) p = ICompare (write_internal_key w) (write_internal_key t)" if "w \<in> set vs" for w
    using okw [OF that] write_lengths [OF okw [OF that]]
    by (simp add: KeyComparator_def slice write_entry_bytes memtable_slice_prefixed)
  have VLw: "\<forall>w \<in> set VL. ICompare (write_internal_key w) (write_internal_key t) < 0"
  proof
    fix w
    assume w: "w \<in> set VL"
    then have "write_entry w \<in> set (map (key_of T) L)" unfolding maps(1) by simp
    then show "ICompare (write_internal_key w) (write_internal_key t) < 0" using LG(2) comp [of w] w vs(1) by auto
  qed
  have VGw: "\<forall>w \<in> set VG. \<not> ICompare (write_internal_key w) (write_internal_key t) < 0"
  proof
    fix w
    assume w: "w \<in> set VG"
    then have "write_entry w \<in> set (map (key_of T) G)" unfolding maps(2) by simp
    then show "\<not> ICompare (write_internal_key w) (write_internal_key t) < 0" using LG(3) comp [of w] w vs(1) by auto
  qed
  have "sorted_wrt (\<lambda>a b. KeyComparator Compare a b < 0) (map (key_of T) as)"
    using ok(1) by (simp add: skip_ok_def sorted_wrt_map)
  then have "sorted_wrt (\<lambda>a b. KeyComparator Compare (write_entry a) (write_entry b) < 0) vs"
    unfolding ok(2) sorted_wrt_map .
  then have "sorted_wrt (\<lambda>a b. ICompare (write_internal_key a) (write_internal_key b) < 0) (VL @ VG)"
    unfolding vs(1) [symmetric] by (rule sorted_wrt_mono_rel [rotated]) (use KeyComparator_writes [OF okw okw] in simp)
  from newest_past_target [OF _ _ vs(2) this t(1) t_def VLw VGw] assms(1)
  have new: "newest_write Compare k snapshot ws =
      (case VG of [] \<Rightarrow> None | w # _ \<Rightarrow> if Compare (write_user_key w) k = 0 then Some w else None)"
    by (simp add: mem_holds_def)
  show ?thesis
  proof (cases VG)
    case Nil
    then have "G = []" using maps(2) by simp
    then show ?thesis using seek new Nil t(2) by (simp add: MemTable_Get_def T_def p_def sl_at_def sl_Valid_def)
  next
    case (Cons w rest)
    then obtain a G' where G: "G = a # G'" "key_of T a = write_entry w" using maps(2) by (cases G) auto
    have w: "write_ok valid w" using okw vs(1) Cons by simp
    from write_entry_reads [OF w] obtain key_length key_ptr where r: "GetVarint32Ptr (write_entry w) = Some (key_length, key_ptr)"
      "take (unat (key_length - 8)) key_ptr = write_user_key w"
      "DecodeFixed64 kLittleEndian (drop (unat (key_length - 8)) key_ptr) = PackSequenceAndType (fst w) (fst (snd w))"
      "memtable_slice (drop (unat key_length) key_ptr) = Some (snd (snd (snd w)), [])" by blast
    have "fst w \<le> kMaxSequenceNumber" "fst (snd w) = kTypeValue \<or> fst (snd w) = kTypeDeletion"
    proof -
      have le1: "c \<le> 1 \<Longrightarrow> c = 1 \<or> c = 0" for c :: u8 by (cases "c = 0") (simp_all add: word_le_nat_alt word_unat_eq_iff)
      show "fst w \<le> kMaxSequenceNumber" using w by (cases w) (simp add: write_ok_def)
      show "fst (snd w) = kTypeValue \<or> fst (snd w) = kTypeDeletion"
        by (rule le1) (use w in \<open>cases w, simp add: write_ok_def\<close>)
    qed
    then show ?thesis
      using seek new Cons t(2,3) G r Pack_parts(2) [of "fst w" "fst (snd w)"]
      by (cases w) (auto simp: MemTable_Get_def T_def p_def sl_at_def sl_Valid_def sl_key_def Let_def nth_append)
  qed
qed

end

section \<open>Iterating\<close>

definition mem_entries :: "db_write list \<Rightarrow> entry list" where
  "mem_entries vs = map (\<lambda>w. (write_internal_key w, snd (snd (snd w)))) vs"

definition memtable_over ::
  "(slice \<Rightarrow> bool) \<Rightarrow> (slice \<Rightarrow> slice \<Rightarrow> int) \<Rightarrow> memtable \<Rightarrow> entry list \<Rightarrow> nat option \<Rightarrow> nat \<Rightarrow> bool" where
  "memtable_over valid Compare m es node i \<longleftrightarrow>
     (\<exists>ws as vs. mem_holds valid Compare ws m as vs \<and> es = mem_entries vs \<and> node = sl_at as i \<and> i \<le> length as)"

context comparator
begin

lemma memtable_iterator:
  assumes small: "\<And>k. valid k \<Longrightarrow> length k + 8 < 2 ^ 32"
  shows "iterator (memtable_iterator Compare m) (internal_valid valid) (InternalKey_Compare Compare) (memtable_over valid Compare m)"
proof
  fix es node i
  assume "memtable_over valid Compare m es node i"
  then obtain ws as vs where h: "holds ws m as vs" "es = mem_entries vs" "node = sl_at as i" "i \<le> length as"
    by (auto simp: memtable_over_def)
  define T where "T = mem_table m"
  note ko = memtable_key_order
  have len: "length es = length as" using holds_length [OF h(1)] h(2) by (simp add: mem_entries_def)
  have ok: "skip_ok (KeyComparator Compare) T as" using h(1) by (simp add: mem_holds_def T_def)
  have over: "memtable_over valid Compare m es (sl_at as j) j" if "j \<le> length as" for j
    using h(1,2) that unfolding memtable_over_def by blast
  have okw: "write_ok valid (vs ! j)" if "j < length as" for j
    using holds_writes [OF h(1)] h(1) that holds_length [OF h(1)] by (metis mem_holds_def nth_mem)
  have key: "key_of T (as ! j) = length_prefixed (fst (es ! j)) @ length_prefixed (snd (es ! j))"
    "length (fst (es ! j)) < 2 ^ 32" "length (snd (es ! j)) < 2 ^ 32" if "j < length as" for j
    using holds_key [OF h(1) that] write_entry_bytes [OF okw [OF that]] write_lengths [OF okw [OF that]] that
      holds_length [OF h(1)] by (simp_all add: T_def h(2) mem_entries_def)
  show "i \<le> length es" using h(4) len by simp
  show "Valid (memtable_iterator Compare m) node \<longleftrightarrow> i < length es"
    by (simp add: memtable_iterator_def sl_Valid_def h(3) sl_at_def len)
  show "Status (memtable_iterator Compare m) node = Status_OK" by (simp add: memtable_iterator_def)
  show "\<exists>it'. SeekToFirst (memtable_iterator Compare m) node = Some it' \<and> memtable_over valid Compare m es it' 0"
    using key_order.sl_SeekToFirst_at [OF ko ok] over [of 0] by (simp add: memtable_iterator_def T_def)
  show "\<exists>it'. SeekToLast (memtable_iterator Compare m) node = Some it' \<and> memtable_over valid Compare m es it' (length es - 1)"
    using key_order.sl_SeekToLast_at [OF ko ok] over [of "length as - 1"] by (simp add: memtable_iterator_def T_def len)
  show "\<exists>it'. Seek (memtable_iterator Compare m) target node = Some it' \<and>
      memtable_over valid Compare m es it' (seek_index (InternalKey_Compare Compare) target es)" if t: "internal_valid valid target" for target
  proof -
    have "valid (ExtractUserKey target)" "8 \<le> length target" using t by (simp_all add: internal_valid_def)
    then have lt: "length target < 2 ^ 32" using small [of "ExtractUserKey target"] by (simp add: ExtractUserKey_def)
    then have vt: "entry_valid valid (EncodeKey target)"
      using t EncodeKey_bytes [OF lt] unfolding entry_valid_def by (intro exI [of _ target] exI [of _ "[]"]) simp
    from key_order.split_at [OF ko ok _ vt] holds_valid [OF h(1)] obtain L G where LG: "as = L @ G"
      "\<forall>a \<in> set L. KeyComparator Compare (key_of T a) (EncodeKey target) < 0"
      "\<forall>a \<in> set G. \<not> KeyComparator Compare (key_of T a) (EncodeKey target) < 0" by (auto simp: T_def)
    have comp: "KeyComparator Compare (key_of T (as ! j)) (EncodeKey target) = ICompare (fst (es ! j)) target" if "j < length as" for j
      using key(1,2) [OF that] EncodeKey_bytes [OF lt] memtable_slice_prefixed [OF lt, of "[]"] key(2) [OF that]
      by (simp add: KeyComparator_def memtable_slice_prefixed)
    have "seek_index (InternalKey_Compare Compare) target es = length L"
    proof (rule seek_indexI)
      show "length L \<le> length es" using LG(1) len by simp
      show "ICompare (fst (es ! j)) target < 0" if "j < length L" for j
        using bspec [OF LG(2) nth_mem [OF that]] comp [of j] that LG(1) by (simp add: nth_append)
      show "0 \<le> ICompare (fst (es ! length L)) target" if "length L < length es"
        using LG(3) comp [of "length L"] that LG(1) len by (cases G) (simp_all add: nth_append)
    qed
    then show ?thesis
      using key_order.sl_Seek_at [OF ko _ LG(2,3)] ok over [of "length L"] LG(1) by (simp add: memtable_iterator_def T_def)
  qed
  assume i: "i < length es"
  then have ia: "i < length as" using len by simp
  show "Key (memtable_iterator Compare m) node = fst (es ! i)"
    using key [OF ia] ia by (simp add: memtable_iterator_def sl_key_def h(3) sl_at_def T_def memtable_slice_prefixed)
  show "Value (memtable_iterator Compare m) node = snd (es ! i)"
    using key [OF ia] ia memtable_slice_prefixed [OF key(3) [OF ia], of "[]"]
    by (simp add: memtable_iterator_def sl_key_def h(3) sl_at_def T_def memtable_slice_prefixed)
  show "\<exists>it'. Next (memtable_iterator Compare m) node = Some it' \<and> memtable_over valid Compare m es it' (Suc i)"
    using key_order.sl_Next_at [OF ko ok ia] over [of "Suc i"] ia by (simp add: memtable_iterator_def T_def h(3))
  show "\<exists>it'. Prev (memtable_iterator Compare m) node = Some it' \<and> memtable_over valid Compare m es it' (prev_index i es)"
    using key_order.sl_Prev_at [OF ko ok _ ia] holds_valid [OF h(1)] over [of "if i = 0 then length as else i - 1"] ia
    by (auto simp: memtable_iterator_def T_def h(3) prev_index_def len)
qed

text \<open>Its entries are in internal key order.\<close>

lemma mem_entries_ok:
  assumes "holds ws m as vs"
  shows "internal_entries_ok valid Compare (mem_entries vs)"
proof -
  have okw: "write_ok valid w" if "w \<in> set vs" for w
    using holds_writes [OF assms] assms that by (simp add: mem_holds_def)
  have "sorted_wrt (\<lambda>a b. KeyComparator Compare a b < 0) (map (key_of (mem_table m)) as)"
    unfolding sorted_wrt_map using assms by (simp add: mem_holds_def skip_ok_def)
  moreover have "map (key_of (mem_table m)) as = map write_entry vs" using assms by (simp add: mem_holds_def)
  ultimately have "sorted_wrt (\<lambda>a b. KeyComparator Compare (write_entry a) (write_entry b) < 0) vs"
    by (simp only: sorted_wrt_map)
  then have "sorted_wrt (\<lambda>a b. ICompare (write_internal_key a) (write_internal_key b) < 0) vs"
    by (rule sorted_wrt_mono_rel [rotated]) (use KeyComparator_writes [OF okw okw] in simp)
  moreover have "fst (ParseInternalKey (write_internal_key w)) \<and> valid (ExtractUserKey (write_internal_key w))" if "w \<in> set vs" for w
  proof -
    obtain s t k v where w: "w = (s, t, k, v)" by (metis surj_pair)
    have "s \<le> kMaxSequenceNumber" "t \<le> kTypeValue" "valid k" using okw [OF that] by (simp_all add: w write_ok_def)
    then show ?thesis
      using ParseInternalKey_Append [of "\<lparr>user_key = k, key_sequence = s, key_type = t\<rparr>"]
      by (simp add: w write_internal_key_def) (simp add: AppendInternalKey_bytes del: to_le.simps)
  qed
  ultimately show ?thesis
    by (simp add: internal_entries_ok_def sorted_entries_def mem_entries_def sorted_wrt_map)
qed

end

text \<open>Keys that fit an entry.\<close>

definition key_fits :: "slice \<Rightarrow> bool" where
  "key_fits k \<longleftrightarrow> length k + 8 < 2 ^ 32"

interpretation fitting: comparator key_fits slice_compare FindShortestSeparator FindShortSuccessor
proof
  fix a b :: slice
  assume a: "key_fits a"
  have "length (FindShortSuccessor a) \<le> length a" by (auto simp: FindShortSuccessor_def find_Some_iff split: option.splits)
  then show "key_fits (FindShortSuccessor a)" using a by (simp add: key_fits_def)
  have "length (FindShortestSeparator a b) \<le> length a" by (auto simp: FindShortestSeparator_def Let_def)
  then show "key_fits (FindShortestSeparator a b)" using a by (simp add: key_fits_def)
  show "slice_compare a (FindShortSuccessor a) \<le> 0" by (rule bytewise.successor) simp
  show "slice_compare a b < 0 \<longleftrightarrow> slice_compare b a > 0" by (rule bytewise.sym) simp_all
qed (auto intro: bytewise.trans bytewise.refl dest: bytewise.separator [OF TrueI TrueI])

interpretation memtable_iter: iterator "memtable_iterator slice_compare m" "internal_valid key_fits"
  "InternalKey_Compare slice_compare" "memtable_over key_fits slice_compare m" for m
  by (rule fitting.memtable_iterator) (simp add: key_fits_def)

interpretation db_iter_memtable: db_iter_over key_fits slice_compare FindShortestSeparator FindShortSuccessor
  "memtable_iterator slice_compare m" "memtable_over key_fits slice_compare m" for m
  by (intro db_iter_over.intro fitting.comparator_axioms memtable_iter.iterator_axioms)

end
