(* ===== verification/WriteProps.thy ===== *)
theory WriteProps
  imports WriteBatch MemProps
begin

text \<open>
  What writing does: batches replay the updates they were made of, and reading the memtable at a snapshot gives the
  map after the batches before it.
\<close>

section \<open>Batches\<close>

text \<open>
  C40. A write batch replays its updates: a batch made by \<open>Put\<close> and \<open>Delete\<close> and given a sequence number counts its
  updates, keeps the number, and \<open>Iterate\<close> calls the handler with the same updates in the same order and returns
  OK; appending another batch gives the batch of both lists of updates.
\<close>

theorem write_batch_roundtrip:
  assumes "\<forall>op \<in> set ops. op_fits op" "\<forall>op \<in> set ops'. op_fits op"
  shows "Batch_Count (batch_of ops) = of_nat (length ops) \<and>
    Batch_Sequence (Batch_SetSequence seq (batch_of ops)) = seq \<and>
    WriteBatch_Iterate H (Batch_SetSequence seq (batch_of ops)) h = map_option (Pair Status_OK) (handle_ops H ops h) \<and>
    WriteBatch_Append (batch_of ops) (batch_of ops') = batch_of (ops @ ops')"
proof -
  have ops: "\<forall>op \<in> set (ops @ ops'). op_fits op" using assms by auto
  have "WriteBatch_Append (batch_of ops) (batch_of ops') = batch_of (ops @ ops')"
    unfolding batch_of_bytes [OF assms(1)] batch_of_bytes [OF assms(2)] batch_of_bytes [OF ops]
    by (simp add: WriteBatch_Append_def Batch_Append_def batch_bytes_parts Let_def) (simp add: batch_bytes_def del: to_le.simps)
  then show ?thesis
    by (simp add: batch_of_bytes [OF assms(1)] batch_bytes_parts Iterate_bytes [OF assms(1)])
qed

text \<open>A handler that collects the keys that are put.\<close>

lemma write_batch_roundtrip_witness:
  "Batch_Count (batch_of [PutOp [1] [2], DeleteOp [3]]) = 2 \<and>
    WriteBatch_Iterate \<lparr>handler_Put = \<lambda>k v ks. Some (ks @ [k]), handler_Delete = \<lambda>k ks. Some ks\<rparr>
      (Batch_SetSequence 7 (batch_of [PutOp [1] [2], DeleteOp [3]])) [] = Some (Status_OK, [[1]])"
  using write_batch_roundtrip [of "[PutOp [1] [2], DeleteOp [3]]" "[]" 7
      "\<lparr>handler_Put = \<lambda>k v ks. Some (ks @ [k]), handler_Delete = \<lambda>k ks. Some ks\<rparr>" "[]"]
  by (simp add: op_fits_def)

section \<open>The writes of a batch\<close>

fun batch_writes :: "SequenceNumber \<Rightarrow> batch_op list \<Rightarrow> db_write list" where
  "batch_writes seq [] = []"
| "batch_writes seq (PutOp k v # ops) = (seq, kTypeValue, k, v) # batch_writes (seq + 1) ops"
| "batch_writes seq (DeleteOp k # ops) = (seq, kTypeDeletion, k, []) # batch_writes (seq + 1) ops"

fun op_of :: "db_write \<Rightarrow> batch_op" where
  "op_of (s, t, k, v) = (if t = kTypeValue then PutOp k v else DeleteOp k)"

lemma batch_writes_append: "batch_writes seq (ops @ ops') = batch_writes seq ops @ batch_writes (seq + of_nat (length ops)) ops'"
  by (induction seq ops rule: batch_writes.induct) (simp_all add: add.assoc)

lemma batch_writes_ops: "map op_of (batch_writes seq ops) = ops" "length (batch_writes seq ops) = length ops"
  by (induction seq ops rule: batch_writes.induct) simp_all

text \<open>Sequence numbers that do not run over.\<close>

lemma unat_add_nat: "unat (s :: u64) + n < 2 ^ 64 \<Longrightarrow> unat (s + of_nat n) = unat s + n"
proof -
  assume a: "unat s + n < 2 ^ 64"
  then have "unat (of_nat n :: u64) = n" by (intro unat_of_nat_small) simp
  with a show ?thesis using unat_add_less [of s "of_nat n"] by simp
qed

lemma batch_writes_sequence:
  "w \<in> set (batch_writes seq ops) \<Longrightarrow> unat seq + length ops \<le> 2 ^ 56 \<Longrightarrow> unat seq \<le> unat (fst w) \<and> unat (fst w) < unat seq + length ops"
proof (induction seq ops rule: batch_writes.induct)
  case (2 seq k v ops)
  then show ?case using unat_add_nat [of seq 1] by auto
next
  case (3 seq k ops)
  then show ?case using unat_add_nat [of seq 1] by auto
qed simp

lemma kMaxSequenceNumber_unat: "unat kMaxSequenceNumber = 2 ^ 56 - 1"
  by (simp add: kMaxSequenceNumber_def)

definition op_ok :: "(slice \<Rightarrow> bool) \<Rightarrow> batch_op \<Rightarrow> bool" where
  "op_ok valid op \<longleftrightarrow> valid (op_key op) \<and> length (op_key op) + 8 < 2 ^ 32 \<and> length (op_value op) < 2 ^ 32"

lemma batch_writes_ok:
  "\<forall>op \<in> set ops. op_ok valid op \<Longrightarrow> unat seq + length ops \<le> 2 ^ 56 \<Longrightarrow> \<forall>w \<in> set (batch_writes seq ops). write_ok valid w"
proof (induction seq ops rule: batch_writes.induct)
  case (2 seq k v ops)
  then show ?case using unat_add_nat [of seq 1]
    by (auto simp: op_ok_def write_ok_def word_le_nat_alt kMaxSequenceNumber_unat)
next
  case (3 seq k ops)
  then show ?case using unat_add_nat [of seq 1]
    by (auto simp: op_ok_def write_ok_def word_le_nat_alt kMaxSequenceNumber_unat)
qed simp

lemma op_ok_fits: "op_ok valid op \<Longrightarrow> op_fits op"
  by (simp add: op_ok_def op_fits_def)

context comparator
begin

lemma handle_ops_holds:
  assumes "holds ws m as vs" "\<forall>op \<in> set ops. op_ok valid op" "unat seq + length ops \<le> 2 ^ 56"
    "\<forall>w \<in> set ws. unat (fst w) < unat seq" "length unset = kMaxHeight"
  shows "\<exists>m' as' vs'. handle_ops (MemTableInserter unset Compare) ops (seq, m) = Some (seq + of_nat (length ops), m') \<and>
    holds (ws @ batch_writes seq ops) m' as' vs'"
  using assms
proof (induction ops arbitrary: ws m as vs seq)
  case (Cons op ops)
  define w where "w = hd (batch_writes seq (op # ops))"
  have bw: "batch_writes seq (op # ops) = w # batch_writes (seq + 1) ops" "fst w = seq"
    by (cases op; simp add: w_def)+
  obtain t k v where w: "w = (seq, t, k, v)" using bw(2) by (cases w) auto
  have "write_ok valid w" using batch_writes_ok [OF Cons.prems(2,3)] bw(1) by simp
  then have wok: "write_ok valid (seq, t, k, v)" by (simp add: w)
  have "\<forall>w \<in> set ws. fst w < seq" using Cons.prems(4) by (simp add: word_less_nat_alt)
  from MemTable_Add_holds [OF Cons.prems(1) wok this Cons.prems(5)] obtain m1 as1 vs1 where
    m1: "MemTable_Add unset Compare seq t k v m = Some m1" "holds (ws @ [(seq, t, k, v)]) m1 as1 vs1" by blast
  have step: "handle_op (MemTableInserter unset Compare) op (seq, m) = Some (seq + 1, m1)"
    using m1(1) w by (cases op) (auto simp: MemTableInserter_def w_def)
  have seq: "unat (seq + 1) = unat seq + 1" using unat_add_nat [of seq 1] Cons.prems(3) by simp
  have "\<forall>op \<in> set ops. op_ok valid op" "unat (seq + 1) + length ops \<le> 2 ^ 56"
    "\<forall>w \<in> set (ws @ [(seq, t, k, v)]). unat (fst w) < unat (seq + 1)"
    using Cons.prems(2,3,4) seq by (auto simp: less_Suc_eq)
  from Cons.IH [OF m1(2) this Cons.prems(5)] step bw(1) w show ?case by (auto simp: add.assoc)
qed (auto intro: exI)

end

section \<open>Snapshots\<close>

text \<open>The last update of a key in a list, and what a lookup returns then.\<close>

definition last_op :: "(slice \<Rightarrow> slice \<Rightarrow> int) \<Rightarrow> slice \<Rightarrow> batch_op list \<Rightarrow> batch_op option" where
  "last_op Compare k ops = (let found = filter (\<lambda>op. Compare (op_key op) k = 0) ops in if found = [] then None else Some (last found))"

fun lookup_result :: "slice \<Rightarrow> status \<Rightarrow> batch_op option \<Rightarrow> bool \<times> slice \<times> status" where
  "lookup_result val s None = (False, val, s)"
| "lookup_result val s (Some (PutOp k v)) = (True, v, s)"
| "lookup_result val s (Some (DeleteOp k)) = (True, val, Status_NotFound [] [])"

text \<open>Batches applied one after the other, as the database numbers them.\<close>

fun apply_batches ::
  "nat list \<Rightarrow> (slice \<Rightarrow> slice \<Rightarrow> int) \<Rightarrow> SequenceNumber \<Rightarrow> batch_op list list \<Rightarrow> memtable \<Rightarrow> memtable option" where
  "apply_batches unset Compare seq [] m = Some m"
| "apply_batches unset Compare seq (ops # batches) m =
     (case InsertInto unset Compare (Batch_SetSequence seq (batch_of ops)) m of
        Some (s, m) \<Rightarrow> if s = Status_OK then apply_batches unset Compare (seq + of_nat (length ops)) batches m else None
      | None \<Rightarrow> None)"

lemma newest_write_prefix:
  assumes "unat seq + length (ops @ ops') \<le> 2 ^ 56" "snapshot + 1 = seq + of_nat (length ops)" "0 < unat seq"
  shows "map_option op_of (newest_write Compare k snapshot (batch_writes seq (ops @ ops'))) = last_op Compare k ops"
proof -
  let ?P = "\<lambda>w. Compare (write_user_key w) k = 0 \<and> fst w \<le> snapshot"
  let ?Q = "\<lambda>op. Compare (op_key op) k = 0"
  define mid where "mid = seq + of_nat (length ops)"
  have mid: "unat mid = unat seq + length ops" unfolding mid_def by (rule unat_add_nat) (use assms(1) in simp)
  have snap: "unat snapshot = unat mid - 1"
  proof -
    have "snapshot = mid - 1" using assms(2) by (simp add: mid_def eq_diff_eq)
    then show ?thesis using mid assms(3) by (simp add: unat_sub word_le_nat_alt)
  qed
  have key: "op_key (op_of w) = write_user_key w" for w by (cases w) (simp add: write_user_key_def)
  have "fst w \<le> snapshot" if "w \<in> set (batch_writes seq ops)" for w
  proof -
    have "unat seq + length ops \<le> 2 ^ 56" using assms(1) by simp
    with batch_writes_sequence [OF that] have "unat (fst w) < unat mid" using mid by simp
    then show ?thesis unfolding word_le_nat_alt using snap by linarith
  qed
  then have seen: "filter ?P (batch_writes seq ops) = filter (\<lambda>w. ?Q (op_of w)) (batch_writes seq ops)"
    by (intro filter_cong) (simp_all add: key)
  have "\<not> fst w \<le> snapshot" if "w \<in> set (batch_writes mid ops')" for w
  proof -
    have "unat mid + length ops' \<le> 2 ^ 56" using assms(1) mid by simp
    with batch_writes_sequence [OF that] have "unat mid \<le> unat (fst w)" by simp
    then show ?thesis unfolding word_le_nat_alt using snap mid assms(3) by linarith
  qed
  then have unseen: "filter ?P (batch_writes mid ops') = []" by (auto simp: filter_empty_conv)
  have f: "map op_of (filter ?P (batch_writes seq (ops @ ops'))) = filter ?Q ops"
    unfolding batch_writes_append mid_def [symmetric] filter_append unseen seen append_Nil2
    using filter_map [of ?Q op_of "batch_writes seq ops"] batch_writes_ops(1) [of seq ops] by (simp add: o_def)
  show ?thesis
  proof (cases "filter ?P (batch_writes seq (ops @ ops')) = []")
    case True
    then show ?thesis using f by (simp add: newest_write_def last_op_def)
  next
    case False
    then have "last (filter ?Q ops) = op_of (last (filter ?P (batch_writes seq (ops @ ops'))))"
      unfolding f [symmetric] by (rule last_map)
    moreover have "filter ?Q ops \<noteq> []" unfolding f [symmetric] using False by (simp only: list.map_disc_iff simp_thms)
    ultimately show ?thesis using False by (simp add: newest_write_def last_op_def Let_def)
  qed
qed

context comparator
begin

lemma InsertInto_holds:
  assumes "holds ws m as vs" "\<forall>op \<in> set ops. op_ok valid op" "unat seq + length ops \<le> 2 ^ 56"
    "\<forall>w \<in> set ws. unat (fst w) < unat seq" "length unset = kMaxHeight"
  shows "\<exists>m' as' vs'. InsertInto unset Compare (Batch_SetSequence seq (batch_of ops)) m = Some (Status_OK, m') \<and>
    holds (ws @ batch_writes seq ops) m' as' vs'"
proof -
  have fits: "\<forall>op \<in> set ops. op_fits op" using assms(2) op_ok_fits by blast
  from handle_ops_holds [OF assms] obtain m' as' vs' where
    "handle_ops (MemTableInserter unset Compare) ops (seq, m) = Some (seq + of_nat (length ops), m')"
    "holds (ws @ batch_writes seq ops) m' as' vs'" by blast
  then show ?thesis
    by (auto simp: InsertInto_def batch_of_bytes [OF fits] batch_bytes_parts Iterate_bytes [OF fits])
qed

lemma apply_batches_holds:
  assumes "holds ws m as vs" "\<forall>op \<in> set (concat batches). op_ok valid op" "unat seq + length (concat batches) \<le> 2 ^ 56"
    "\<forall>w \<in> set ws. unat (fst w) < unat seq" "length unset = kMaxHeight"
  shows "\<exists>m' as' vs'. apply_batches unset Compare seq batches m = Some m' \<and>
    holds (ws @ batch_writes seq (concat batches)) m' as' vs'"
  using assms
proof (induction batches arbitrary: ws m as vs seq)
  case (Cons ops batches)
  have ops: "\<forall>op \<in> set ops. op_ok valid op" "unat seq + length ops \<le> 2 ^ 56" using Cons.prems(2,3) by auto
  from InsertInto_holds [OF Cons.prems(1) ops Cons.prems(4,5)] obtain m1 as1 vs1 where
    m1: "InsertInto unset Compare (Batch_SetSequence seq (batch_of ops)) m = Some (Status_OK, m1)"
    "holds (ws @ batch_writes seq ops) m1 as1 vs1" by blast
  have seq: "unat (seq + of_nat (length ops)) = unat seq + length ops" by (rule unat_add_nat) (use ops(2) in simp)
  have "\<forall>w \<in> set (ws @ batch_writes seq ops). unat (fst w) < unat (seq + of_nat (length ops))"
    using Cons.prems(4) batch_writes_sequence [OF _ ops(2)] seq by fastforce
  moreover have "\<forall>op \<in> set (concat batches). op_ok valid op"
    "unat (seq + of_nat (length ops)) + length (concat batches) \<le> 2 ^ 56" using Cons.prems(2,3) seq by auto
  ultimately show ?case
    using Cons.IH [OF m1(2) _ _ _ Cons.prems(5), of "seq + of_nat (length ops)"] m1(1)
    by (simp add: batch_writes_append)
qed (auto intro: exI)

lemma batches_read:
  assumes "\<forall>op \<in> set (concat batches). op_ok valid op" "0 < unat seq" "unat seq + length (concat batches) \<le> 2 ^ 56"
    "length unset = kMaxHeight"
  shows "\<exists>m as vs. apply_batches unset Compare seq batches MemTable = Some m \<and>
    holds (batch_writes seq (concat batches)) m as vs"
  using apply_batches_holds [OF MemTable_new assms(1,3) _ assms(4)] by simp

lemma Get_after:
  assumes "holds (batch_writes seq (ops @ ops')) m as vs" "0 < unat seq" "unat seq + length (ops @ ops') \<le> 2 ^ 56"
    "valid k" "length k + 8 < 2 ^ 32"
  shows "MemTable_Get Compare (LookupKey k (seq + of_nat (length ops) - 1)) val s m =
    Some (lookup_result val s (last_op Compare k ops))"
proof -
  define snapshot where "snapshot = seq + of_nat (length ops) - 1"
  have seq: "unat (seq + of_nat (length ops)) = unat seq + length ops" by (rule unat_add_nat) (use assms(3) in simp)
  then have "unat snapshot = unat seq + length ops - 1"
    using assms(2) unfolding snapshot_def by (simp add: unat_sub word_le_nat_alt)
  then have le: "snapshot \<le> kMaxSequenceNumber" using assms(3) by (simp add: word_le_nat_alt kMaxSequenceNumber_unat)
  have new: "map_option op_of (newest_write Compare k snapshot (batch_writes seq (ops @ ops'))) = last_op Compare k ops"
    by (rule newest_write_prefix [OF assms(3) _ assms(2)]) (simp add: snapshot_def)
  show ?thesis
    unfolding snapshot_def [symmetric] MemTable_Get_newest [OF assms(1,4,5) le] new [symmetric]
    by (cases "newest_write Compare k snapshot (batch_writes seq (ops @ ops'))") auto
qed

end

text \<open>
  C6. Snapshots read the past: after any sequence of batches has been applied to an empty memtable, numbered one
  after the other, a lookup at the sequence number a batch ended with finds the last update of the key in the
  batches up to that one, a value or a deletion, and none of the later ones, and otherwise reports that the key is
  not there; the order of keys is that of any comparator.
\<close>

theorem snapshot_reads:
  assumes "comparator valid Compare Separator Successor" "\<forall>op \<in> set (concat batches). op_ok valid op" "0 < unat seq"
    "unat seq + length (concat batches) \<le> 2 ^ 56" "length unset = kMaxHeight"
  shows "\<exists>m. apply_batches unset Compare seq batches MemTable = Some m \<and>
    (\<forall>i k val s. i \<le> length batches \<longrightarrow> valid k \<longrightarrow> length k + 8 < 2 ^ 32 \<longrightarrow>
      MemTable_Get Compare (LookupKey k (seq + of_nat (length (concat (take i batches))) - 1)) val s m =
        Some (lookup_result val s (last_op Compare k (concat (take i batches)))))"
proof -
  from comparator.batches_read [OF assms] obtain m as vs where
    m: "apply_batches unset Compare seq batches MemTable = Some m"
    "mem_holds valid Compare (batch_writes seq (concat batches)) m as vs" by blast
  have split: "concat batches = concat (take i batches) @ concat (drop i batches)" for i
    by (metis append_take_drop_id concat_append)
  have "MemTable_Get Compare (LookupKey k (seq + of_nat (length (concat (take i batches))) - 1)) val s m =
        Some (lookup_result val s (last_op Compare k (concat (take i batches))))"
    if "valid k" "length k + 8 < 2 ^ 32" for i k val s
    by (rule comparator.Get_after [OF assms(1) m(2) [unfolded split [of i]] assms(3) assms(4) [unfolded split [of i]] that])
  with m(1) show ?thesis by blast
qed

lemma snapshot_reads_witness:
  "\<exists>m. apply_batches (replicate 12 0) slice_compare 1 [[PutOp [97] [1], PutOp [98] [2]], [DeleteOp [97]]] MemTable = Some m \<and>
    MemTable_Get slice_compare (LookupKey [97] 2) [] Status_OK m = Some (True, [1], Status_OK) \<and>
    MemTable_Get slice_compare (LookupKey [97] 3) [] Status_OK m = Some (True, [], Status_NotFound [] [])"
proof -
  from snapshot_reads [OF bytewise.comparator_axioms, of "[[PutOp [97] [1], PutOp [98] [2]], [DeleteOp [97]]]" 1 "replicate 12 0"]
  obtain m where m: "apply_batches (replicate 12 0) slice_compare 1 [[PutOp [97] [1], PutOp [98] [2]], [DeleteOp [97]]] MemTable = Some m"
    and read: "\<And>i k val s. i \<le> 2 \<Longrightarrow> length k + 8 < 2 ^ 32 \<Longrightarrow>
      MemTable_Get slice_compare (LookupKey k (1 + of_nat (length (concat (take i [[PutOp [97] [1], PutOp [98] [2]], [DeleteOp [97]]]))) - 1)) val s m =
        Some (lookup_result val s (last_op slice_compare k (concat (take i [[PutOp [97] [1], PutOp [98] [2]], [DeleteOp [97]]]))))"
    by (auto simp: op_ok_def kMaxHeight_def)
  from m read [of 1 "[97]" "[]" Status_OK] read [of 2 "[97]" "[]" Status_OK]
  show ?thesis by (simp add: last_op_def Let_def)
qed

section \<open>Scans\<close>

context comparator
begin

text \<open>The visible entries of a memtable are the keys whose newest write is a value.\<close>

lemma mem_entry_parts:
  assumes "holds ws m as vs" "i < length vs"
  shows "entry_key (mem_entries vs) i = write_user_key (vs ! i)" "entry_sequence (mem_entries vs) i = fst (vs ! i)"
    "entry_type (mem_entries vs) i = fst (snd (vs ! i))" "write_ok valid (vs ! i)" "vs ! i \<in> set ws"
proof -
  show ws: "vs ! i \<in> set ws" using holds_writes [OF assms(1), of "vs ! i"] nth_mem [OF assms(2)] by simp
  then show ok: "write_ok valid (vs ! i)" using assms(1) by (simp add: mem_holds_def)
  obtain s t k v where w: "vs ! i = (s, t, k, v)" by (metis surj_pair)
  have "s \<le> kMaxSequenceNumber" using ok by (simp add: w write_ok_def)
  from Pack_parts [OF this, of t]
  show "entry_key (mem_entries vs) i = write_user_key (vs ! i)" "entry_sequence (mem_entries vs) i = fst (vs ! i)"
    "entry_type (mem_entries vs) i = fst (snd (vs ! i))"
    using assms(2) by (simp_all add: entry_key_def entry_sequence_def entry_type_def mem_entries_def w write_internal_key_def
        write_user_key_def AppendInternalKey_bytes del: to_le.simps)
qed

lemma same_key_order:
  assumes "holds ws m as vs" "i < j" "j < length vs" "Compare (write_user_key (vs ! i)) (write_user_key (vs ! j)) = 0"
  shows "fst (vs ! j) < fst (vs ! i)"
proof -
  have i: "i < length vs" using assms(2,3) by simp
  have "KeyComparator Compare (key_of (mem_table m) (as ! i)) (key_of (mem_table m) (as ! j)) < 0"
    using assms(1-3) holds_length [OF assms(1)] by (simp add: mem_holds_def skip_ok_def sorted_wrt_iff_nth_less)
  then have "KeyComparator Compare (write_entry (vs ! i)) (write_entry (vs ! j)) < 0"
    using assms(2,3) holds_length [OF assms(1)] holds_key [OF assms(1), of i] holds_key [OF assms(1), of j] by simp
  then have le: "fst (vs ! j) \<le> fst (vs ! i)"
    using write_order(1) [OF mem_entry_parts(4) [OF assms(1) i] mem_entry_parts(4) [OF assms(1,3)]] assms(4)
      KeyComparator_writes [OF mem_entry_parts(4) [OF assms(1) i] mem_entry_parts(4) [OF assms(1,3)]] by auto
  have "sorted_wrt (<) (map fst ws)" using assms(1) unfolding mem_holds_def by blast
  then have "distinct (map fst ws)" by (simp only: strict_sorted_iff)
  moreover have "mset (map fst vs) = mset (map fst ws)" using assms(1) by (simp add: mem_holds_def)
  note mset_eq_imp_distinct_iff [OF this]
  ultimately have "distinct (map fst vs)" by blast
  then have "fst (vs ! j) \<noteq> fst (vs ! i)" using assms(2,3) by (simp add: distinct_conv_nth)
  with le show ?thesis by simp
qed

lemma newest_at:
  assumes "holds ws m as vs" "i < length vs" "live Compare snapshot (mem_entries vs) i"
  shows "newest_write Compare (write_user_key (vs ! i)) snapshot ws = Some (vs ! i)"
proof -
  note parts = mem_entry_parts [OF assms(1)]
  have len: "length (mem_entries vs) = length vs" by (simp add: mem_entries_def)
  let ?P = "\<lambda>w. Compare (write_user_key w) (write_user_key (vs ! i)) = 0 \<and> fst w \<le> snapshot"
  have vi: "valid (write_user_key (vs ! i))" using write_valid parts(4) assms(2) by blast
  have "fst w \<le> fst (vs ! i)" if w: "w \<in> set ws" "?P w" for w
  proof -
    obtain j where j: "j < length vs" "w = vs ! j" using w(1) holds_writes [OF assms(1)] by (metis in_set_conv_nth)
    have "\<not> j < i"
    proof
      assume "j < i"
      then have "\<not> seen snapshot (mem_entries vs) j"
        using assms(2,3) w(2) j parts(1) [OF j(1)] parts(1) [OF assms(2)] by (simp add: live_def)
      then show False using w(2) j parts(2) [OF j(1)] by (simp add: seen_def)
    qed
    then consider "i = j" | "i < j" by linarith
    then show ?thesis
    proof cases
      case 2
      have "Compare (write_user_key (vs ! i)) (write_user_key w) = 0"
        using eq_sym [OF vi] write_valid parts(4) [OF j(1)] w(2) j(2) by blast
      with same_key_order [OF assms(1) 2 j(1)] j(2) show ?thesis by simp
    qed (use j in simp)
  qed
  moreover have "?P (vs ! i)"
    using assms(3) parts(2) [OF assms(2)] refl [OF vi] by (simp add: live_def seen_def)
  ultimately show ?thesis
    using last_filter [of ws "vs ! i" ?P] assms(1) parts(5) [OF assms(2)]
    by (auto simp: mem_holds_def newest_write_def Let_def)
qed

lemma visible_newest:
  assumes "holds ws m as vs"
  shows "(k, v) \<in> set (visible Compare snapshot (mem_entries vs)) \<Longrightarrow>
      \<exists>s. newest_write Compare k snapshot ws = Some (s, kTypeValue, k, v)"
    "newest_write Compare k snapshot ws = Some (s, kTypeValue, k', v) \<Longrightarrow> valid k \<Longrightarrow>
      (k', v) \<in> set (visible Compare snapshot (mem_entries vs))"
proof -
  note parts = mem_entry_parts [OF assms]
  have len: "length (mem_entries vs) = length vs" by (simp add: mem_entries_def)
  assume "(k, v) \<in> set (visible Compare snapshot (mem_entries vs))"
  then obtain i where i: "i < length vs" "live Compare snapshot (mem_entries vs) i" "k = entry_key (mem_entries vs) i"
    "v = snd (mem_entries vs ! i)" by (auto simp: visible_def live_indices_def len)
  obtain s t k' v' where w: "vs ! i = (s, t, k', v')" by (metis surj_pair)
  have "k = k'" "v = v'" "t = kTypeValue"
    using i parts(1,3) [OF i(1)] by (simp_all add: w write_user_key_def mem_entries_def live_def)
  then show "\<exists>s. newest_write Compare k snapshot ws = Some (s, kTypeValue, k, v)"
    using newest_at [OF assms i(1,2)] by (simp add: w write_user_key_def)
next
  note parts = mem_entry_parts [OF assms]
  have len: "length (mem_entries vs) = length vs" by (simp add: mem_entries_def)
  assume new: "newest_write Compare k snapshot ws = Some (s, kTypeValue, k', v)" and vk: "valid k"
  let ?P = "\<lambda>w. Compare (write_user_key w) k = 0 \<and> fst w \<le> snapshot"
  have f: "filter ?P ws \<noteq> []" "last (filter ?P ws) = (s, kTypeValue, k', v)"
    using new by (auto simp: newest_write_def Let_def split: if_splits)
  have "(s, kTypeValue, k', v) \<in> set (filter ?P ws)" using last_in_set [OF f(1)] unfolding f(2) .
  then have w: "(s, kTypeValue, k', v) \<in> set vs" "Compare k' k = 0" "s \<le> snapshot"
    using holds_writes [OF assms] by (auto simp: write_user_key_def)
  obtain i where i: "i < length vs" "vs ! i = (s, kTypeValue, k', v)" using w(1) by (metis in_set_conv_nth)
  have vk': "valid k'" using write_valid [OF parts(4) [OF i(1)]] by (simp add: i(2) write_user_key_def)
  have "live Compare snapshot (mem_entries vs) i"
    unfolding live_def
  proof (intro conjI allI impI)
    show "seen snapshot (mem_entries vs) i" "entry_type (mem_entries vs) i = kTypeValue"
      using parts(2,3) [OF i(1)] w(3) by (simp_all add: seen_def i(2))
    fix j
    assume j: "j < i" "Compare (entry_key (mem_entries vs) j) (entry_key (mem_entries vs) i) = 0"
    then have jl: "j < length vs" using i(1) by simp
    have jk: "Compare (write_user_key (vs ! j)) k' = 0"
      using j(2) parts(1) [OF jl] parts(1) [OF i(1)] by (simp add: i(2) write_user_key_def)
    have vj: "valid (write_user_key (vs ! j))" by (rule write_valid [OF parts(4) [OF jl]])
    have "Compare (write_user_key (vs ! j)) k \<le> 0" "Compare k (write_user_key (vs ! j)) \<le> 0"
      using trans [OF vj vk' vk] trans [OF vk vk' vj] jk w(2) eq_sym [OF vj vk'] eq_sym [OF vk' vk] by auto
    then have jk2: "Compare (write_user_key (vs ! j)) k = 0" using sym [OF vj vk] by linarith
    show "\<not> seen snapshot (mem_entries vs) j"
    proof
      assume "seen snapshot (mem_entries vs) j"
      then have "vs ! j \<in> set (filter ?P ws)" using jk2 parts(2,5) [OF jl] by (simp add: seen_def)
      moreover have "sorted_wrt (<) (map fst (filter ?P ws))"
        using assms sorted_wrt_filter [of "\<lambda>a b. fst a < fst b" ws ?P] by (simp add: mem_holds_def sorted_wrt_map)
      ultimately have "fst (vs ! j) \<le> s"
        using last_greatest [of "filter ?P ws" "vs ! j"] f(2) by simp
      moreover have "s < fst (vs ! j)"
        using same_key_order [OF assms j(1) i(1)] jk by (simp add: i(2) write_user_key_def)
      ultimately show False by simp
    qed
  qed
  then have "i \<in> set (live_indices Compare snapshot (mem_entries vs))" using i(1) by (simp add: live_indices_def len)
  then have "(entry_key (mem_entries vs) i, snd (mem_entries vs ! i)) \<in> set (visible Compare snapshot (mem_entries vs))"
    by (auto simp: visible_def)
  then show "(k', v) \<in> set (visible Compare snapshot (mem_entries vs))"
    using i parts(1) [OF i(1)] by (simp add: write_user_key_def mem_entries_def)
qed

end

text \<open>
  C13. Scans and lookups agree: the iterator of the database over the memtable that the batches were applied to, at
  the sequence number one of them ended with, shows exactly the keys whose last update up to then put a value,
  with that value, each once and in increasing order.
\<close>

theorem memtable_scan:
  assumes "\<forall>op \<in> set (concat batches). op_ok key_fits op" "0 < unat seq" "unat seq + length (concat batches) \<le> 2 ^ 56"
    "length unset = kMaxHeight" "i \<le> length batches"
  shows "\<exists>m es. apply_batches unset slice_compare seq batches MemTable = Some m \<and>
    shows_entries
      (db_iterator (memtable_iterator slice_compare m) slice_compare (seq + of_nat (length (concat (take i batches))) - 1))
      key_fits slice_compare es (DBIter MemTable_NewIterator seed) \<and>
    sorted_entries slice_compare es \<and>
    (\<forall>k v. (k, v) \<in> set es \<longleftrightarrow> last_op slice_compare k (concat (take i batches)) = Some (PutOp k v))"
proof -
  define ops where "ops = concat (take i batches)"
  define ops' where "ops' = concat (drop i batches)"
  define snapshot where "snapshot = seq + of_nat (length ops) - 1"
  have all: "concat batches = ops @ ops'" unfolding ops_def ops'_def by (metis append_take_drop_id concat_append)
  from fitting.batches_read [OF assms(1-4)] obtain m as vs where
    m: "apply_batches unset slice_compare seq batches MemTable = Some m"
    "mem_holds key_fits slice_compare (batch_writes seq (ops @ ops')) m as vs" unfolding all by blast
  define es where "es = visible slice_compare snapshot (mem_entries vs)"
  have seq: "unat (seq + of_nat (length ops)) = unat seq + length ops" by (rule unat_add_nat) (use assms(3) all in simp)
  then have "unat snapshot = unat seq + length ops - 1"
    using assms(2) unfolding snapshot_def by (simp add: unat_sub word_le_nat_alt)
  then have le: "snapshot \<le> kMaxSequenceNumber" using assms(3) all by (simp add: word_le_nat_alt kMaxSequenceNumber_unat)
  have ok: "internal_entries_ok key_fits slice_compare (mem_entries vs)" by (rule fitting.mem_entries_ok [OF m(2)])
  have "memtable_over key_fits slice_compare m (mem_entries vs) MemTable_NewIterator (length as)"
    using m(2) by (auto simp: memtable_over_def MemTable_NewIterator_def sl_at_def)
  note db_iter_memtable.DBIter_new [OF ok this, of snapshot seed]
  then have view: "shows_entries (db_iterator (memtable_iterator slice_compare m) slice_compare snapshot) key_fits slice_compare es
      (DBIter MemTable_NewIterator seed)"
    unfolding es_def by (intro iterator.stands_shows [OF db_iter_memtable.db_iterator [OF le]]) blast
  have new: "map_option op_of (newest_write slice_compare k snapshot (batch_writes seq (ops @ ops'))) = last_op slice_compare k ops" for k
    by (rule newest_write_prefix [OF _ _ assms(2)]) (use assms(3) all in \<open>simp_all add: snapshot_def\<close>)
  have "(k, v) \<in> set es \<longleftrightarrow> last_op slice_compare k ops = Some (PutOp k v)" for k v
  proof
    assume "(k, v) \<in> set es"
    from fitting.visible_newest(1) [OF m(2) this [unfolded es_def]] new [of k]
    show "last_op slice_compare k ops = Some (PutOp k v)" by auto
  next
    assume last: "last_op slice_compare k ops = Some (PutOp k v)"
    then have "PutOp k v \<in> set ops"
      using last_in_set [of "filter (\<lambda>op. slice_compare (op_key op) k = 0) ops"]
      by (auto simp: last_op_def Let_def split: if_splits)
    then have "op_ok key_fits (PutOp k v)" using assms(1) unfolding all by simp
    then have "key_fits k" by (simp add: op_ok_def)
    moreover from new [of k] last obtain w where w: "newest_write slice_compare k snapshot (batch_writes seq (ops @ ops')) = Some w"
      "op_of w = PutOp k v" by auto
    then obtain s where "w = (s, kTypeValue, k, v)" by (cases w) (auto split: if_splits)
    ultimately show "(k, v) \<in> set es" using fitting.visible_newest(2) [OF m(2)] w(1) unfolding es_def by blast
  qed
  moreover have "sorted_entries slice_compare es" unfolding es_def by (rule db_iter_memtable.visible_sorted [OF ok])
  ultimately show ?thesis using m(1) view unfolding ops_def snapshot_def by blast
qed

lemma memtable_scan_witness:
  "\<exists>m es. apply_batches (replicate 12 0) slice_compare 1 [[PutOp [97] [1], PutOp [98] [2]], [DeleteOp [97]]] MemTable = Some m \<and>
    shows_entries (db_iterator (memtable_iterator slice_compare m) slice_compare 3) key_fits slice_compare es
      (DBIter MemTable_NewIterator 301) \<and> ([98], [2]) \<in> set es \<and> ([97], [1]) \<notin> set es"
proof -
  have key: "op_ok key_fits (PutOp [97] [1])" "op_ok key_fits (PutOp [98] [2])" "op_ok key_fits (DeleteOp [97])"
    by (simp_all add: op_ok_def key_fits_def)
  from memtable_scan [of "[[PutOp [97] [1], PutOp [98] [2]], [DeleteOp [97]]]" 1 "replicate 12 0" 2 301] key obtain m es where
    m: "apply_batches (replicate 12 0) slice_compare 1 [[PutOp [97] [1], PutOp [98] [2]], [DeleteOp [97]]] MemTable = Some m"
    "shows_entries (db_iterator (memtable_iterator slice_compare m) slice_compare 3) key_fits slice_compare es
      (DBIter MemTable_NewIterator 301)"
    "\<And>k v. (k, v) \<in> set es \<longleftrightarrow> last_op slice_compare k [PutOp [97] [1], PutOp [98] [2], DeleteOp [97]] = Some (PutOp k v)"
    by (auto simp: kMaxHeight_def simp del: apply_batches.simps)
  have "([98], [2]) \<in> set es" "([97], [1]) \<notin> set es" unfolding m(3) by (simp_all add: last_op_def Let_def)
  with m(1,2) show ?thesis by blast
qed

section \<open>The skip list\<close>

text \<open>
  C15. The skip list is a sorted set: inserting any keys no two of which are equal, whatever heights the random
  numbers give, builds a list that holds exactly these keys, whose levels are sublists of the sorted bottom level,
  and \<open>Contains\<close> finds a key if and only if it was inserted; no link is read that does not exist.
\<close>

theorem skiplist_sorted_set:
  assumes "key_order valid compare" "\<forall>k \<in> set ks. valid k" "distinct ks"
    "\<forall>k \<in> set ks. \<forall>k' \<in> set ks. k \<noteq> k' \<longrightarrow> compare k k' \<noteq> 0" "length unset = kMaxHeight"
  shows "\<exists>s as. insert_all unset compare ks (SkipList any_key) = Some s \<and> skip_ok compare s as \<and>
    mset (map (key_of s) as) = mset ks \<and>
    (\<forall>k. valid k \<longrightarrow> Contains compare k s = Some (\<exists>k' \<in> set ks. compare k k' = 0))"
proof -
  from key_order.insert_all_ok [OF assms(1) key_order.SkipList_ok [OF assms(1), of any_key], where ks = ks and unset = unset] assms(2-5)
  obtain s as where s: "insert_all unset compare ks (SkipList any_key) = Some s" "skip_ok compare s as"
    "\<forall>a \<in> set as. valid (key_of s a)" "mset (map (key_of s) as) = mset ks" by auto
  have keys: "key_of s ` set as = set ks" using s(4) by (metis list.set_map set_mset_mset)
  have "(\<exists>a \<in> set as. compare k (key_of s a) = 0) \<longleftrightarrow> (\<exists>k' \<in> set ks. compare k k' = 0)" for k
    unfolding keys [symmetric] by simp
  with key_order.Contains_ok [OF assms(1) s(2,3)] s(1,2,4) show ?thesis by auto
qed

lemma skiplist_sorted_set_witness:
  "\<exists>s. insert_all (replicate 12 0) (\<lambda>a b. a - b) [3, 1, 2 :: int] (SkipList 0) = Some s \<and>
    Contains (\<lambda>a b. a - b) 1 s = Some True \<and> Contains (\<lambda>a b. a - b) 5 s = Some False"
proof -
  have "key_order (\<lambda>_. True) (\<lambda>a b :: int. a - b)" by unfold_locales auto
  from skiplist_sorted_set [OF this, of "[3, 1, 2]" "replicate 12 0" 0] show ?thesis by (auto simp: kMaxHeight_def)
qed

end
