(* ===== verification/LruCache.thy ===== *)
theory LruCache
  imports Bloom "HOL-Library.Monad_Syntax"
begin

text \<open>
  \<open>util/cache.cc\<close> of leveldb: the sharded LRU cache.

  The entries (\<open>LRUHandle\<close>) live in a heap, a map from addresses to entries; address 0 is \<open>nullptr\<close>.  The two
  list heads that every shard embeds are entries of the heap as well.  The result \<open>None\<close> stands for an access
  to memory that is not allocated, for an assertion that fails, or for a loop that does not end.  Calls of the
  entries' deleters are collected in the order they happen.  The mutexes of the shards make every operation
  atomic, so operations are functions of the whole state.
\<close>

section \<open>Entries and the heap\<close>

record ('d, 'v) lru_handle =
  h_value :: 'v
  h_deleter :: 'd
  h_next_hash :: nat
  h_next :: nat
  h_prev :: nat
  h_charge :: u64
  h_key :: slice
  h_in_cache :: bool
  h_refs :: u32
  h_hash :: u32

type_synonym ('d, 'v) cache_heap = "nat \<rightharpoonup> ('d, 'v) lru_handle"

record ('d, 'v) cache_mem =
  cm_heap :: "('d, 'v) cache_heap"
  cm_deleted :: "('d \<times> slice \<times> 'v) list"

definition assertion :: "bool \<Rightarrow> unit option" where
  "assertion b = (if b then Some () else None)"

text \<open>An assignment to fields of the entry at address \<open>a\<close>.\<close>

definition heap_update ::
  "nat \<Rightarrow> (('d, 'v) lru_handle \<Rightarrow> ('d, 'v) lru_handle) \<Rightarrow> ('d, 'v) cache_heap \<Rightarrow> ('d, 'v) cache_heap option" where
  "heap_update a f m = map_option (\<lambda>h. m(a \<mapsto> f h)) (m a)"

definition LRUHandle_key :: "('d, 'v) cache_heap \<Rightarrow> nat \<Rightarrow> slice option" where
  "LRUHandle_key m a = do { h \<leftarrow> m a; assertion (h_next h \<noteq> a); Some (h_key h) }"

section \<open>The hash table\<close>

record handle_table =
  ht_length :: u32
  ht_elems :: u32
  ht_list :: "nat list"

text \<open>A pointer to a pointer (\<open>LRUHandle**\<close>): to a bucket of the table, or to the \<open>next_hash\<close> of an entry.\<close>

datatype slot = Bucket nat | Next_hash nat

fun slot_get :: "handle_table \<Rightarrow> ('d, 'v) cache_heap \<Rightarrow> slot \<Rightarrow> nat option" where
  "slot_get T m (Bucket i) = (if i < length (ht_list T) then Some (ht_list T ! i) else None)"
| "slot_get T m (Next_hash a) = map_option h_next_hash (m a)"

fun slot_set :: "slot \<Rightarrow> nat \<Rightarrow> handle_table \<Rightarrow> ('d, 'v) cache_heap \<Rightarrow> (handle_table \<times> ('d, 'v) cache_heap) option" where
  "slot_set (Bucket i) p T m = (if i < length (ht_list T) then Some (T\<lparr>ht_list := (ht_list T)[i := p]\<rparr>, m) else None)"
| "slot_set (Next_hash a) p T m = map_option (Pair T) (heap_update a (h_next_hash_update (\<lambda>_. p)) m)"

partial_function (option) find_pointer_loop ::
  "handle_table \<Rightarrow> ('d, 'v) cache_heap \<Rightarrow> slice \<Rightarrow> u32 \<Rightarrow> slot \<Rightarrow> slot option" where
  "find_pointer_loop T m key hash ptr =
     Option.bind (slot_get T m ptr) (\<lambda>p.
       if p = 0 then Some ptr
       else Option.bind (m p) (\<lambda>h.
         if h_hash h \<noteq> hash then find_pointer_loop T m key hash (Next_hash p)
         else Option.bind (LRUHandle_key m p) (\<lambda>k.
           if key \<noteq> k then find_pointer_loop T m key hash (Next_hash p) else Some ptr)))"

definition FindPointer :: "handle_table \<Rightarrow> ('d, 'v) cache_heap \<Rightarrow> slice \<Rightarrow> u32 \<Rightarrow> slot option" where
  "FindPointer T m key hash = find_pointer_loop T m key hash (Bucket (unat (hash AND (ht_length T - 1))))"

partial_function (option) grow_length :: "u32 \<Rightarrow> u32 \<Rightarrow> u32 option" where
  "grow_length elems new_length =
     (if new_length < elems then grow_length elems (new_length * 2) else Some new_length)"

text \<open>The inner loop of \<open>Resize\<close>: the entries of one bucket move to the new list, each to the front.\<close>

partial_function (option) rehash_chain ::
  "u32 \<Rightarrow> nat \<Rightarrow> nat list \<times> u32 \<times> ('d, 'v) cache_heap \<Rightarrow> (nat list \<times> u32 \<times> ('d, 'v) cache_heap) option" where
  "rehash_chain new_length h st =
     (if h = 0 then Some st
      else case st of (new_list, count, m) \<Rightarrow>
        Option.bind (m h) (\<lambda>e.
          let nxt = h_next_hash e; i = unat (h_hash e AND (new_length - 1)) in
          if i < length new_list then
            rehash_chain new_length nxt (new_list[i := h], count + 1, m(h \<mapsto> e\<lparr>h_next_hash := new_list ! i\<rparr>))
          else None))"

fun rehash_all ::
  "u32 \<Rightarrow> nat list \<Rightarrow> nat list \<times> u32 \<times> ('d, 'v) cache_heap \<Rightarrow> (nat list \<times> u32 \<times> ('d, 'v) cache_heap) option" where
  "rehash_all new_length [] st = Some st"
| "rehash_all new_length (h # hs) st = Option.bind (rehash_chain new_length h st) (rehash_all new_length hs)"

definition Resize :: "handle_table \<Rightarrow> ('d, 'v) cache_heap \<Rightarrow> (handle_table \<times> ('d, 'v) cache_heap) option" where
  "Resize T m = do {
     new_length \<leftarrow> grow_length (ht_elems T) 4;
     (new_list, count, m) \<leftarrow> rehash_all new_length (ht_list T) (replicate (unat new_length) 0, 0, m);
     assertion (ht_elems T = count);
     Some (T\<lparr>ht_list := new_list, ht_length := new_length\<rparr>, m)
   }"

definition HandleTable :: "handle_table option" where
  "HandleTable = map_option fst (Resize \<lparr>ht_length = 0, ht_elems = 0, ht_list = []\<rparr> (Map.empty :: (unit, unit) cache_heap))"

definition HandleTable_Lookup :: "handle_table \<Rightarrow> ('d, 'v) cache_heap \<Rightarrow> slice \<Rightarrow> u32 \<Rightarrow> nat option" where
  "HandleTable_Lookup T m key hash = do { ptr \<leftarrow> FindPointer T m key hash; slot_get T m ptr }"

text \<open>The entry that had the same key, or 0.\<close>

definition HandleTable_Insert ::
  "nat \<Rightarrow> handle_table \<Rightarrow> ('d, 'v) cache_heap \<Rightarrow> (nat \<times> handle_table \<times> ('d, 'v) cache_heap) option" where
  "HandleTable_Insert a T m = do {
     h \<leftarrow> m a;
     key \<leftarrow> LRUHandle_key m a;
     ptr \<leftarrow> FindPointer T m key (h_hash h);
     old \<leftarrow> slot_get T m ptr;
     nxt \<leftarrow> (if old = 0 then Some 0 else map_option h_next_hash (m old));
     m \<leftarrow> heap_update a (h_next_hash_update (\<lambda>_. nxt)) m;
     (T, m) \<leftarrow> slot_set ptr a T m;
     (T, m) \<leftarrow> (if old = 0 then
         let T = T\<lparr>ht_elems := ht_elems T + 1\<rparr> in
         if ht_elems T > ht_length T then Resize T m else Some (T, m)
       else Some (T, m));
     Some (old, T, m)
   }"

definition HandleTable_Remove ::
  "slice \<Rightarrow> u32 \<Rightarrow> handle_table \<Rightarrow> ('d, 'v) cache_heap \<Rightarrow> (nat \<times> handle_table \<times> ('d, 'v) cache_heap) option" where
  "HandleTable_Remove key hash T m = do {
     ptr \<leftarrow> FindPointer T m key hash;
     result \<leftarrow> slot_get T m ptr;
     if result = 0 then Some (0, T, m)
     else do {
       nxt \<leftarrow> map_option h_next_hash (m result);
       (T, m) \<leftarrow> slot_set ptr nxt T m;
       Some (result, T\<lparr>ht_elems := ht_elems T - 1\<rparr>, m)
     }
   }"

section \<open>One shard\<close>

text \<open>\<open>c_lru\<close> and \<open>c_in_use\<close> are the addresses of the two list heads.\<close>

record lru_cache =
  c_capacity :: u64
  c_usage :: u64
  c_lru :: nat
  c_in_use :: nat
  c_table :: handle_table

definition LRU_Remove :: "nat \<Rightarrow> ('d, 'v) cache_heap \<Rightarrow> ('d, 'v) cache_heap option" where
  "LRU_Remove e m = do {
     h \<leftarrow> m e;
     m \<leftarrow> heap_update (h_next h) (h_prev_update (\<lambda>_. h_prev h)) m;
     h \<leftarrow> m e;
     heap_update (h_prev h) (h_next_update (\<lambda>_. h_next h)) m
   }"

definition LRU_Append :: "nat \<Rightarrow> nat \<Rightarrow> ('d, 'v) cache_heap \<Rightarrow> ('d, 'v) cache_heap option" where
  "LRU_Append list e m = do {
     m \<leftarrow> heap_update e (h_next_update (\<lambda>_. list)) m;
     l \<leftarrow> m list;
     m \<leftarrow> heap_update e (h_prev_update (\<lambda>_. h_prev l)) m;
     h \<leftarrow> m e;
     m \<leftarrow> heap_update (h_prev h) (h_next_update (\<lambda>_. e)) m;
     h \<leftarrow> m e;
     heap_update (h_next h) (h_prev_update (\<lambda>_. e)) m
   }"

definition LRU_Ref :: "lru_cache \<Rightarrow> nat \<Rightarrow> ('d, 'v) cache_mem \<Rightarrow> ('d, 'v) cache_mem option" where
  "LRU_Ref c e s = do {
     h \<leftarrow> cm_heap s e;
     m \<leftarrow> (if h_refs h = 1 \<and> h_in_cache h then do { m \<leftarrow> LRU_Remove e (cm_heap s); LRU_Append (c_in_use c) e m }
          else Some (cm_heap s));
     m \<leftarrow> heap_update e (h_refs_update (\<lambda>r. r + 1)) m;
     Some (s\<lparr>cm_heap := m\<rparr>)
   }"

definition LRU_Unref :: "lru_cache \<Rightarrow> nat \<Rightarrow> ('d, 'v) cache_mem \<Rightarrow> ('d, 'v) cache_mem option" where
  "LRU_Unref c e s = do {
     h \<leftarrow> cm_heap s e;
     assertion (h_refs h > 0);
     m \<leftarrow> heap_update e (h_refs_update (\<lambda>r. r - 1)) (cm_heap s);
     h \<leftarrow> m e;
     if h_refs h = 0 then do {
       assertion (\<not> h_in_cache h);
       key \<leftarrow> LRUHandle_key m e;
       Some (s\<lparr>cm_heap := m(e := None), cm_deleted := cm_deleted s @ [(h_deleter h, key, h_value h)]\<rparr>)
     } else if h_in_cache h \<and> h_refs h = 1 then do {
       m \<leftarrow> LRU_Remove e m;
       m \<leftarrow> LRU_Append (c_lru c) e m;
       Some (s\<lparr>cm_heap := m\<rparr>)
     } else Some (s\<lparr>cm_heap := m\<rparr>)
   }"

definition FinishErase :: "nat \<Rightarrow> lru_cache \<Rightarrow> ('d, 'v) cache_mem \<Rightarrow> (bool \<times> lru_cache \<times> ('d, 'v) cache_mem) option" where
  "FinishErase e c s =
     (if e = 0 then Some (False, c, s)
      else do {
        h \<leftarrow> cm_heap s e;
        assertion (h_in_cache h);
        m \<leftarrow> LRU_Remove e (cm_heap s);
        m \<leftarrow> heap_update e (h_in_cache_update (\<lambda>_. False)) m;
        h \<leftarrow> m e;
        let c = c\<lparr>c_usage := c_usage c - h_charge h\<rparr>;
        s \<leftarrow> LRU_Unref c e (s\<lparr>cm_heap := m\<rparr>);
        Some (True, c, s)
      })"

definition LRU_Lookup :: "slice \<Rightarrow> u32 \<Rightarrow> lru_cache \<Rightarrow> ('d, 'v) cache_mem \<Rightarrow> (nat \<times> ('d, 'v) cache_mem) option" where
  "LRU_Lookup key hash c s = do {
     e \<leftarrow> HandleTable_Lookup (c_table c) (cm_heap s) key hash;
     if e \<noteq> 0 then map_option (Pair e) (LRU_Ref c e s) else Some (e, s)
   }"

definition LRU_Release :: "nat \<Rightarrow> lru_cache \<Rightarrow> ('d, 'v) cache_mem \<Rightarrow> ('d, 'v) cache_mem option" where
  "LRU_Release handle c s = LRU_Unref c handle s"

text \<open>The oldest entry of the LRU list is removed from the table and erased.\<close>

definition erase_oldest :: "lru_cache \<Rightarrow> ('d, 'v) cache_mem \<Rightarrow> (lru_cache \<times> ('d, 'v) cache_mem) option" where
  "erase_oldest c s = do {
     head \<leftarrow> cm_heap s (c_lru c);
     let old = h_next head;
     h \<leftarrow> cm_heap s old;
     assertion (h_refs h = 1);
     key \<leftarrow> LRUHandle_key (cm_heap s) old;
     (e, T, m) \<leftarrow> HandleTable_Remove key (h_hash h) (c_table c) (cm_heap s);
     (erased, c, s) \<leftarrow> FinishErase e (c\<lparr>c_table := T\<rparr>) (s\<lparr>cm_heap := m\<rparr>);
     assertion erased;
     Some (c, s)
   }"

text \<open>\<open>lru_.next != &lru_\<close>\<close>

definition lru_nonempty :: "lru_cache \<Rightarrow> ('d, 'v) cache_mem \<Rightarrow> bool option" where
  "lru_nonempty c s = map_option (\<lambda>head. h_next head \<noteq> c_lru c) (cm_heap s (c_lru c))"

partial_function (option) evict_loop ::
  "lru_cache \<Rightarrow> ('d, 'v) cache_mem \<Rightarrow> (lru_cache \<times> ('d, 'v) cache_mem) option" where
  "evict_loop c s =
     (if c_usage c > c_capacity c then
        Option.bind (lru_nonempty c s) (\<lambda>go.
          if go then Option.bind (erase_oldest c s) (\<lambda>r. evict_loop (fst r) (snd r)) else Some (c, s))
      else Some (c, s))"

text \<open>\<open>malloc\<close> returns the address \<open>a\<close>; the fields that are not assigned are those of \<open>junk\<close>.\<close>

definition LRU_Insert ::
  "('d, 'v) lru_handle \<Rightarrow> nat \<Rightarrow> slice \<Rightarrow> u32 \<Rightarrow> 'v \<Rightarrow> u64 \<Rightarrow> 'd \<Rightarrow> lru_cache \<Rightarrow> ('d, 'v) cache_mem \<Rightarrow>
     (lru_cache \<times> ('d, 'v) cache_mem) option" where
  "LRU_Insert junk a key hash val chrg deleter c s = do {
     let e = junk\<lparr>h_value := val, h_deleter := deleter, h_charge := chrg, h_key := key, h_hash := hash,
                  h_in_cache := False, h_refs := 1\<rparr>;
     (c, s) \<leftarrow>
       (if c_capacity c > 0 then do {
          let e = e\<lparr>h_refs := h_refs e + 1, h_in_cache := True\<rparr>;
          m \<leftarrow> LRU_Append (c_in_use c) a ((cm_heap s)(a \<mapsto> e));
          let c = c\<lparr>c_usage := c_usage c + chrg\<rparr>;
          (old, T, m) \<leftarrow> HandleTable_Insert a (c_table c) m;
          (_, c, s) \<leftarrow> FinishErase old (c\<lparr>c_table := T\<rparr>) (s\<lparr>cm_heap := m\<rparr>);
          Some (c, s)
        } else Some (c, s\<lparr>cm_heap := (cm_heap s)(a \<mapsto> e\<lparr>h_next := 0\<rparr>)\<rparr>));
     evict_loop c s
   }"

definition LRU_Erase :: "slice \<Rightarrow> u32 \<Rightarrow> lru_cache \<Rightarrow> ('d, 'v) cache_mem \<Rightarrow> (lru_cache \<times> ('d, 'v) cache_mem) option" where
  "LRU_Erase key hash c s = do {
     (e, T, m) \<leftarrow> HandleTable_Remove key hash (c_table c) (cm_heap s);
     (_, c, s) \<leftarrow> FinishErase e (c\<lparr>c_table := T\<rparr>) (s\<lparr>cm_heap := m\<rparr>);
     Some (c, s)
   }"

partial_function (option) LRU_Prune :: "lru_cache \<Rightarrow> ('d, 'v) cache_mem \<Rightarrow> (lru_cache \<times> ('d, 'v) cache_mem) option" where
  "LRU_Prune c s =
     Option.bind (lru_nonempty c s) (\<lambda>go.
       if go then Option.bind (erase_oldest c s) (\<lambda>r. LRU_Prune (fst r) (snd r)) else Some (c, s))"

text \<open>The constructor, for a shard whose list heads lie at the addresses \<open>l\<close> and \<open>u\<close>.\<close>

definition LRUCache ::
  "('d, 'v) lru_handle \<Rightarrow> nat \<Rightarrow> nat \<Rightarrow> ('d, 'v) cache_mem \<Rightarrow> (lru_cache \<times> ('d, 'v) cache_mem) option" where
  "LRUCache junk l u s = do {
     T \<leftarrow> HandleTable;
     Some (\<lparr>c_capacity = 0, c_usage = 0, c_lru = l, c_in_use = u, c_table = T\<rparr>,
           s\<lparr>cm_heap := (cm_heap s)(l \<mapsto> junk\<lparr>h_next := l, h_prev := l\<rparr>, u \<mapsto> junk\<lparr>h_next := u, h_prev := u\<rparr>)\<rparr>)
   }"

definition LRU_SetCapacity :: "u64 \<Rightarrow> lru_cache \<Rightarrow> lru_cache" where
  "LRU_SetCapacity capacity c = c\<lparr>c_capacity := capacity\<rparr>"

definition LRU_TotalCharge :: "lru_cache \<Rightarrow> u64" where
  "LRU_TotalCharge c = c_usage c"

partial_function (option) destroy_loop :: "lru_cache \<Rightarrow> nat \<Rightarrow> ('d, 'v) cache_mem \<Rightarrow> ('d, 'v) cache_mem option" where
  "destroy_loop c e s =
     (if e = c_lru c then Some s
      else Option.bind (cm_heap s e) (\<lambda>h.
        if h_in_cache h then
          Option.bind (heap_update e (h_in_cache_update (\<lambda>_. False)) (cm_heap s)) (\<lambda>m.
            if h_refs h = 1 then Option.bind (LRU_Unref c e (s\<lparr>cm_heap := m\<rparr>)) (destroy_loop c (h_next h)) else None)
        else None))"

definition LRUCache_destroy :: "lru_cache \<Rightarrow> ('d, 'v) cache_mem \<Rightarrow> ('d, 'v) cache_mem option" where
  "LRUCache_destroy c s = do {
     used \<leftarrow> cm_heap s (c_in_use c);
     assertion (h_next used = c_in_use c);
     head \<leftarrow> cm_heap s (c_lru c);
     destroy_loop c (h_next head) s
   }"

section \<open>The sharded cache\<close>

definition kNumShardBits :: nat where
  "kNumShardBits = 4"

definition kNumShards :: nat where
  "kNumShards = 2 ^ kNumShardBits"

record sharded_cache =
  sc_shard :: "lru_cache list"
  sc_last_id :: u64

definition HashSlice :: "slice \<Rightarrow> u32" where
  "HashSlice s = Hash s 0"

definition Shard :: "u32 \<Rightarrow> nat" where
  "Shard hash = unat (drop_bit (32 - kNumShardBits) hash)"

text \<open>The object lies at \<open>base\<close>; its shards' list heads are at the addresses from there on.\<close>

fun make_shards ::
  "('d, 'v) lru_handle \<Rightarrow> nat \<Rightarrow> u64 \<Rightarrow> nat list \<Rightarrow> ('d, 'v) cache_mem \<Rightarrow> (lru_cache list \<times> ('d, 'v) cache_mem) option" where
  "make_shards junk base per_shard [] s = Some ([], s)"
| "make_shards junk base per_shard (i # is) s = do {
     (c, s) \<leftarrow> LRUCache junk (base + 2 * i) (base + 2 * i + 1) s;
     (cs, s) \<leftarrow> make_shards junk base per_shard is s;
     Some (LRU_SetCapacity per_shard c # cs, s)
   }"

definition NewLRUCache ::
  "('d, 'v) lru_handle \<Rightarrow> nat \<Rightarrow> u64 \<Rightarrow> ('d, 'v) cache_mem \<Rightarrow> (sharded_cache \<times> ('d, 'v) cache_mem) option" where
  "NewLRUCache junk base capacity s = do {
     let per_shard = (capacity + (of_nat kNumShards - 1)) div of_nat kNumShards;
     (cs, s) \<leftarrow> make_shards junk base per_shard [0..<kNumShards] s;
     Some (\<lparr>sc_shard = cs, sc_last_id = 0\<rparr>, s)
   }"

text \<open>An operation on one shard.\<close>

definition on_shard ::
  "u32 \<Rightarrow> (lru_cache \<Rightarrow> ('d, 'v) cache_mem \<Rightarrow> (lru_cache \<times> ('d, 'v) cache_mem) option) \<Rightarrow>
     sharded_cache \<Rightarrow> ('d, 'v) cache_mem \<Rightarrow> (sharded_cache \<times> ('d, 'v) cache_mem) option" where
  "on_shard hash f C s = do {
     (c, s) \<leftarrow> f (sc_shard C ! Shard hash) s;
     Some (C\<lparr>sc_shard := (sc_shard C)[Shard hash := c]\<rparr>, s)
   }"

definition Cache_Insert ::
  "('d, 'v) lru_handle \<Rightarrow> nat \<Rightarrow> slice \<Rightarrow> 'v \<Rightarrow> u64 \<Rightarrow> 'd \<Rightarrow> sharded_cache \<Rightarrow> ('d, 'v) cache_mem \<Rightarrow>
     (sharded_cache \<times> ('d, 'v) cache_mem) option" where
  "Cache_Insert junk a key val chrg deleter =
     (let hash = HashSlice key in on_shard hash (LRU_Insert junk a key hash val chrg deleter))"

definition Cache_Lookup :: "slice \<Rightarrow> sharded_cache \<Rightarrow> ('d, 'v) cache_mem \<Rightarrow> (nat \<times> ('d, 'v) cache_mem) option" where
  "Cache_Lookup key C s = (let hash = HashSlice key in LRU_Lookup key hash (sc_shard C ! Shard hash) s)"

definition Cache_Release :: "nat \<Rightarrow> sharded_cache \<Rightarrow> ('d, 'v) cache_mem \<Rightarrow> ('d, 'v) cache_mem option" where
  "Cache_Release handle C s = do {
     h \<leftarrow> cm_heap s handle;
     LRU_Release handle (sc_shard C ! Shard (h_hash h)) s
   }"

definition Cache_Erase :: "slice \<Rightarrow> sharded_cache \<Rightarrow> ('d, 'v) cache_mem \<Rightarrow> (sharded_cache \<times> ('d, 'v) cache_mem) option" where
  "Cache_Erase key = (let hash = HashSlice key in on_shard hash (LRU_Erase key hash))"

definition Cache_Value :: "nat \<Rightarrow> ('d, 'v) cache_mem \<Rightarrow> 'v option" where
  "Cache_Value handle s = map_option h_value (cm_heap s handle)"

definition Cache_NewId :: "sharded_cache \<Rightarrow> u64 \<times> sharded_cache" where
  "Cache_NewId C = (let i = sc_last_id C + 1 in (i, C\<lparr>sc_last_id := i\<rparr>))"

fun prune_shards ::
  "nat list \<Rightarrow> sharded_cache \<Rightarrow> ('d, 'v) cache_mem \<Rightarrow> (sharded_cache \<times> ('d, 'v) cache_mem) option" where
  "prune_shards [] C s = Some (C, s)"
| "prune_shards (i # is) C s = do {
     (c, s) \<leftarrow> LRU_Prune (sc_shard C ! i) s;
     prune_shards is (C\<lparr>sc_shard := (sc_shard C)[i := c]\<rparr>) s
   }"

definition Cache_Prune :: "sharded_cache \<Rightarrow> ('d, 'v) cache_mem \<Rightarrow> (sharded_cache \<times> ('d, 'v) cache_mem) option" where
  "Cache_Prune = prune_shards [0..<kNumShards]"

definition Cache_TotalCharge :: "sharded_cache \<Rightarrow> u64" where
  "Cache_TotalCharge C = sum_list (map LRU_TotalCharge (sc_shard C))"

end
