(* ===== verification/LruLists.thy ===== *)
theory LruLists
  imports LruCache "HOL-Library.Multiset"
begin

text \<open>
  The pointer structures of \<open>util/cache.cc\<close>: the circular doubly linked lists and the chains of the hash table,
  described by the lists of addresses they run through, and what the operations do to them.
\<close>

section \<open>Fields of the heap\<close>

definition nx :: "('d, 'v) cache_heap \<Rightarrow> nat \<Rightarrow> nat" where
  "nx m a = h_next (the (m a))"

definition pv :: "('d, 'v) cache_heap \<Rightarrow> nat \<Rightarrow> nat" where
  "pv m a = h_prev (the (m a))"

definition nh :: "('d, 'v) cache_heap \<Rightarrow> nat \<Rightarrow> nat" where
  "nh m a = h_next_hash (the (m a))"

text \<open>Two heaps that differ in the links of the lists, or of the chains, only.\<close>

definition same_but_links :: "('d, 'v) cache_heap \<Rightarrow> ('d, 'v) cache_heap \<Rightarrow> bool" where
  "same_but_links m m' \<longleftrightarrow> (\<forall>a. map_option (\<lambda>h. h\<lparr>h_next := 0, h_prev := 0\<rparr>) (m' a) = map_option (\<lambda>h. h\<lparr>h_next := 0, h_prev := 0\<rparr>) (m a))"

definition same_but_next_hash :: "('d, 'v) cache_heap \<Rightarrow> ('d, 'v) cache_heap \<Rightarrow> bool" where
  "same_but_next_hash m m' \<longleftrightarrow> (\<forall>a. map_option (h_next_hash_update (\<lambda>_. 0)) (m' a) = map_option (h_next_hash_update (\<lambda>_. 0)) (m a))"

text \<open>Nothing changes outside of \<open>F\<close>.\<close>

definition changes_only :: "nat set \<Rightarrow> ('d, 'v) cache_heap \<Rightarrow> ('d, 'v) cache_heap \<Rightarrow> bool" where
  "changes_only F m m' \<longleftrightarrow> (\<forall>a. a \<notin> F \<longrightarrow> m' a = m a)"

lemma heap_update_Some: "heap_update a f m = Some m' \<longleftrightarrow> (\<exists>h. m a = Some h \<and> m' = m(a \<mapsto> f h))"
  by (auto simp: heap_update_def)

lemma assertion_Some [simp]: "assertion b = Some u \<longleftrightarrow> b" "assertion True = Some ()"
  by (simp_all add: assertion_def)

lemma same_but_links_refl [simp]: "same_but_links m m"
  by (simp add: same_but_links_def)

lemma same_but_links_trans: "same_but_links m m' \<Longrightarrow> same_but_links m' m'' \<Longrightarrow> same_but_links m m''"
  by (simp add: same_but_links_def)

lemma same_but_linksD:
  assumes "same_but_links m m'" "m a = Some h"
  obtains h' where "m' a = Some h'" "h_value h' = h_value h" "h_deleter h' = h_deleter h"
    "h_next_hash h' = h_next_hash h" "h_charge h' = h_charge h" "h_key h' = h_key h"
    "h_in_cache h' = h_in_cache h" "h_refs h' = h_refs h" "h_hash h' = h_hash h"
proof -
  have "map_option (\<lambda>h. h\<lparr>h_next := 0, h_prev := 0\<rparr>) (m' a) = Some (h\<lparr>h_next := 0, h_prev := 0\<rparr>)"
    using assms by (auto simp: same_but_links_def)
  then obtain h' where h': "m' a = Some h'" "h'\<lparr>h_next := 0, h_prev := 0\<rparr> = h\<lparr>h_next := 0, h_prev := 0\<rparr>" by auto
  show thesis
    by (rule that [OF h'(1)])
      (use arg_cong [OF h'(2), of h_value]
        arg_cong [OF h'(2), of h_deleter]
        arg_cong [OF h'(2), of h_next_hash]
        arg_cong [OF h'(2), of h_charge]
        arg_cong [OF h'(2), of h_key]
        arg_cong [OF h'(2), of h_in_cache]
        arg_cong [OF h'(2), of h_refs]
        arg_cong [OF h'(2), of h_hash] in simp_all)
qed

lemma same_but_links_None: "same_but_links m m' \<Longrightarrow> m' a = None \<longleftrightarrow> m a = None"
  unfolding same_but_links_def by (metis map_option_is_None)

lemma same_but_links_dom: "same_but_links m m' \<Longrightarrow> dom m' = dom m"
  using same_but_links_None [of m m'] by (simp add: dom_def)

lemma same_but_next_hash_refl [simp]: "same_but_next_hash m m"
  by (simp add: same_but_next_hash_def)

lemma same_but_next_hash_trans:
  "same_but_next_hash m m' \<Longrightarrow> same_but_next_hash m' m'' \<Longrightarrow> same_but_next_hash m m''"
  by (simp add: same_but_next_hash_def)

lemma same_but_next_hashD:
  assumes "same_but_next_hash m m'" "m a = Some h"
  obtains h' where "m' a = Some h'" "h_value h' = h_value h" "h_deleter h' = h_deleter h"
    "h_next h' = h_next h" "h_prev h' = h_prev h" "h_charge h' = h_charge h" "h_key h' = h_key h"
    "h_in_cache h' = h_in_cache h" "h_refs h' = h_refs h" "h_hash h' = h_hash h"
proof -
  have "map_option (h_next_hash_update (\<lambda>_. 0)) (m' a) = Some (h_next_hash_update (\<lambda>_. 0) h)"
    using assms by (auto simp: same_but_next_hash_def)
  then obtain h' where h': "m' a = Some h'" "h_next_hash_update (\<lambda>_. 0) h' = h_next_hash_update (\<lambda>_. 0) h" by auto
  show thesis
    by (rule that [OF h'(1)])
      (use arg_cong [OF h'(2), of h_value]
        arg_cong [OF h'(2), of h_deleter]
        arg_cong [OF h'(2), of h_next]
        arg_cong [OF h'(2), of h_prev]
        arg_cong [OF h'(2), of h_charge]
        arg_cong [OF h'(2), of h_key]
        arg_cong [OF h'(2), of h_in_cache]
        arg_cong [OF h'(2), of h_refs]
        arg_cong [OF h'(2), of h_hash] in simp_all)
qed

lemma same_but_next_hash_None: "same_but_next_hash m m' \<Longrightarrow> m' a = None \<longleftrightarrow> m a = None"
  unfolding same_but_next_hash_def by (metis map_option_is_None)

lemma same_but_next_hash_dom: "same_but_next_hash m m' \<Longrightarrow> dom m' = dom m"
  using same_but_next_hash_None [of m m'] by (simp add: dom_def)

lemma same_but_next_hash_update: "m a = Some h \<Longrightarrow> same_but_next_hash m (m(a \<mapsto> h\<lparr>h_next_hash := p\<rparr>))"
  by (auto simp: same_but_next_hash_def)

lemma same_but_next_hash_links:
  assumes "same_but_next_hash m m'"
  shows "nx m' = nx m" "pv m' = pv m"
proof -
  have "nx m' a = nx m a \<and> pv m' a = pv m a" for a
  proof (cases "m a")
    case None
    then have "m' a = None" by (simp add: same_but_next_hash_None [OF assms])
    with None show ?thesis by (simp add: nx_def pv_def)
  next
    case (Some h)
    from assms Some obtain h' where "m' a = Some h'" "h_next h' = h_next h" "h_prev h' = h_prev h"
      by (rule same_but_next_hashD)
    with Some show ?thesis by (simp add: nx_def pv_def)
  qed
  then show "nx m' = nx m" "pv m' = pv m" by auto
qed

lemma same_but_links_nh: "same_but_links m m' \<Longrightarrow> nh m' = nh m"
proof
  fix a
  assume s: "same_but_links m m'"
  show "nh m' a = nh m a"
  proof (cases "m a")
    case None
    then have "m' a = None" by (simp add: same_but_links_None [OF s])
    with None show ?thesis by (simp add: nh_def)
  next
    case (Some h)
    from s Some obtain h' where "m' a = Some h'" "h_next_hash h' = h_next_hash h" by (rule same_but_linksD)
    with Some show ?thesis by (simp add: nh_def)
  qed
qed

lemma changes_only_refl [simp]: "changes_only F m m"
  by (simp add: changes_only_def)

lemma changes_only_trans: "changes_only F m m' \<Longrightarrow> changes_only F m' m'' \<Longrightarrow> changes_only F m m''"
  by (simp add: changes_only_def)

lemma changes_only_mono: "changes_only F m m' \<Longrightarrow> F \<subseteq> G \<Longrightarrow> changes_only G m m'"
  by (auto simp: changes_only_def)

section \<open>Circular lists\<close>

text \<open>From \<open>a\<close> over the addresses \<open>xs\<close> to \<open>b\<close>, by the next links \<open>n\<close> and back by the previous links \<open>p\<close>.\<close>

fun seg :: "(nat \<Rightarrow> nat) \<Rightarrow> (nat \<Rightarrow> nat) \<Rightarrow> nat \<Rightarrow> nat list \<Rightarrow> nat \<Rightarrow> bool" where
  "seg n p a [] b \<longleftrightarrow> n a = b \<and> p b = a"
| "seg n p a (x # xs) b \<longleftrightarrow> n a = x \<and> p x = a \<and> seg n p x xs b"

definition ring :: "('d, 'v) cache_heap \<Rightarrow> nat \<Rightarrow> nat list \<Rightarrow> bool" where
  "ring m h xs \<longleftrightarrow> distinct (h # xs) \<and> set (h # xs) \<subseteq> dom m \<and> seg (nx m) (pv m) h xs h"

lemma seg_cong:
  "(\<And>x. x \<in> set (a # xs) \<Longrightarrow> n' x = n x) \<Longrightarrow> (\<And>x. x \<in> set (xs @ [b]) \<Longrightarrow> p' x = p x) \<Longrightarrow> seg n' p' a xs b = seg n p a xs b"
  by (induction xs arbitrary: a) auto

lemma seg_ends: "seg n p a xs b \<Longrightarrow> n a = hd (xs @ [b]) \<and> p b = last (a # xs)"
  by (induction xs arbitrary: a) auto

lemma seg_append: "seg n p a (xs @ y # ys) b \<longleftrightarrow> seg n p a xs y \<and> seg n p y ys b"
  by (induction xs arbitrary: a) auto

lemma seg_unlink:
  assumes "seg n p a (xs @ e # ys) b" "distinct (xs @ e # ys)" "a \<notin> set (xs @ e # ys)" "b \<notin> set (xs @ e # ys)"
  shows "seg (n(p e := n e)) (p(n e := p e)) a (xs @ ys) b"
  using assms
proof (induction xs arbitrary: a)
  case Nil
  show ?case
  proof (cases ys)
    case (Cons y zs)
    with Nil have e: "n a = e" "p e = a" "n e = y" "seg n p y zs b" by auto
    from Nil Cons have "seg (n(a := y)) (p(y := a)) y zs b \<longleftrightarrow> seg n p y zs b" by (intro seg_cong) auto
    with e(4) have "seg (n(a := y)) (p(y := a)) y zs b" by simp
    then show ?thesis unfolding Cons e(1-3) by (simp only: append_Nil seg.simps fun_upd_same simp_thms)
  qed (use Nil in auto)
next
  case (Cons x xs)
  have "p e = last (x # xs)" "n e = hd (ys @ [b])"
    using Cons.prems(1) seg_ends [of n p x xs e] seg_ends [of n p e ys b] by (auto simp: seg_append)
  then have "p e \<in> set (x # xs)" "n e \<in> set (ys @ [b])"
    using last_in_set [of "x # xs"] hd_in_set [of "ys @ [b]"] by (simp_all del: last.simps set_simps)
  with Cons.prems have "p e \<noteq> a" "n e \<noteq> x" by auto
  with Cons show ?case by auto
qed

lemma seg_link:
  assumes "seg n p a xs b" "distinct xs" "a \<notin> set xs" "b \<notin> set xs" "e \<notin> insert a (insert b (set xs))"
  shows "seg (n(e := b, p b := e)) (p(e := p b, b := e)) a (xs @ [e]) b"
  using assms
proof (induction xs arbitrary: a)
  case (Cons x xs)
  then have "p b = last (x # xs)" using seg_ends by fastforce
  then have "p b \<in> set (x # xs)" using last_in_set [of "x # xs"] by (simp del: last.simps set_simps)
  with Cons show ?case by auto
qed auto

lemma ring_next:
  assumes "ring m h xs" "e \<in> set (h # xs)"
  shows "nx m e \<in> set (h # xs)" "pv m e \<in> set (h # xs)" "e \<noteq> h \<Longrightarrow> nx m e \<noteq> e"
proof -
  have *: "nx m e \<in> set (h # xs) \<and> pv m e \<in> set (h # xs) \<and> nx m e \<noteq> e" if e: "e \<noteq> h"
  proof -
    from assms e obtain us vs where xs: "xs = us @ e # vs" by (auto simp: in_set_conv_decomp)
    with assms have "seg (nx m) (pv m) h us e" "seg (nx m) (pv m) e vs h" by (auto simp: ring_def seg_append)
    then have "pv m e = last (h # us)" "nx m e = hd (vs @ [h])" by (auto dest: seg_ends)
    then have "pv m e \<in> set (h # us)" "nx m e \<in> set (vs @ [h])"
      using last_in_set [of "h # us"] hd_in_set [of "vs @ [h]"] by (simp_all del: last.simps set_simps)
    with xs assms show ?thesis by (auto simp: ring_def)
  qed
  have **: "nx m h \<in> set (h # xs) \<and> pv m h \<in> set (h # xs)"
  proof -
    from assms have "nx m h = hd (xs @ [h])" "pv m h = last (h # xs)" by (auto simp: ring_def dest: seg_ends)
    then show ?thesis using last_in_set [of "h # xs"] hd_in_set [of "xs @ [h]"] by (auto simp del: last.simps)
  qed
  show "nx m e \<in> set (h # xs)" "pv m e \<in> set (h # xs)" using * ** by (cases "e = h"; blast)+
  show "e \<noteq> h \<Longrightarrow> nx m e \<noteq> e" using * by blast
qed

lemma ring_hd: "ring m h xs \<Longrightarrow> nx m h = (if xs = [] then h else hd xs)"
  by (cases xs) (auto simp: ring_def)

lemma ring_cong:
  assumes "\<And>x. x \<in> set (h # xs) \<Longrightarrow> m' x = m x"
  shows "ring m' h xs = ring m h xs"
proof -
  have "seg (nx m') (pv m') h xs h = seg (nx m) (pv m) h xs h"
    by (rule seg_cong) (use assms in \<open>auto simp: nx_def pv_def\<close>)
  moreover have "set (h # xs) \<subseteq> dom m' \<longleftrightarrow> set (h # xs) \<subseteq> dom m" using assms by (auto simp: dom_def)
  ultimately show ?thesis by (simp only: ring_def)
qed

lemma ring_same: 
  assumes "nx m' = nx m" "pv m' = pv m" "dom m' = dom m"
  shows "ring m' h xs = ring m h xs"
  by (simp add: ring_def assms)

section \<open>\<open>LRU_Remove\<close> and \<open>LRU_Append\<close>\<close>

lemma LRU_Remove_links:
  assumes "e \<in> dom m" "nx m e \<in> dom m" "pv m e \<in> dom m" "nx m e \<noteq> e"
  obtains m' where "LRU_Remove e m = Some m'" "same_but_links m m'" "changes_only {nx m e, pv m e} m m'"
    "nx m' = (nx m)(pv m e := nx m e)" "pv m' = (pv m)(nx m e := pv m e)"
proof -
  from assms obtain h n p where h: "m e = Some h" "m (h_next h) = Some n" "m (h_prev h) = Some p"
    by (auto simp: nx_def pv_def)
  with assms(4) have ne: "h_next h \<noteq> e" by (simp add: nx_def)
  define m1 where "m1 = m(h_next h \<mapsto> n\<lparr>h_prev := h_prev h\<rparr>)"
  have e1: "m1 e = Some h" using ne h by (simp add: m1_def)
  obtain p1 where p1: "m1 (h_prev h) = Some p1" using h by (cases "h_prev h = h_next h") (auto simp: m1_def)
  show thesis
  proof
    show "LRU_Remove e m = Some (m1(h_prev h \<mapsto> p1\<lparr>h_next := h_next h\<rparr>))"
      using h e1 p1 by (simp add: LRU_Remove_def heap_update_def m1_def)
    show "same_but_links m (m1(h_prev h \<mapsto> p1\<lparr>h_next := h_next h\<rparr>))"
      using h p1 by (auto simp: same_but_links_def m1_def split: if_splits)
    show "changes_only {nx m e, pv m e} m (m1(h_prev h \<mapsto> p1\<lparr>h_next := h_next h\<rparr>))"
      using h by (auto simp: changes_only_def m1_def nx_def pv_def)
    show "nx (m1(h_prev h \<mapsto> p1\<lparr>h_next := h_next h\<rparr>)) = (nx m)(pv m e := nx m e)"
      using h p1 by (auto simp: nx_def pv_def m1_def fun_eq_iff split: if_splits)
    show "pv (m1(h_prev h \<mapsto> p1\<lparr>h_next := h_next h\<rparr>)) = (pv m)(nx m e := pv m e)"
      using h p1 by (auto simp: nx_def pv_def m1_def fun_eq_iff split: if_splits)
  qed
qed

lemma LRU_Remove_ring:
  assumes "ring m h (xs @ e # ys)"
  obtains m' where "LRU_Remove e m = Some m'" "same_but_links m m'" "changes_only (set (h # xs @ ys)) m m'"
    "ring m' h (xs @ ys)"
    "\<And>g zs. ring m g zs \<Longrightarrow> set (g # zs) \<inter> set (h # xs @ e # ys) = {} \<Longrightarrow> ring m' g zs"
proof -
  have e: "e \<in> set (h # xs @ e # ys)" "e \<noteq> h" using assms by (auto simp: ring_def)
  have neigh: "nx m e \<in> set (h # xs @ ys)" "pv m e \<in> set (h # xs @ ys)" "nx m e \<noteq> e"
  proof -
    have "seg (nx m) (pv m) h xs e" "seg (nx m) (pv m) e ys h" using assms by (auto simp: ring_def seg_append)
    then have "pv m e = last (h # xs)" "nx m e = hd (ys @ [h])" by (auto dest: seg_ends)
    then have "pv m e \<in> set (h # xs)" "nx m e \<in> set (ys @ [h])"
      using last_in_set [of "h # xs"] hd_in_set [of "ys @ [h]"] by (simp_all del: last.simps set_simps)
    then show "nx m e \<in> set (h # xs @ ys)" "pv m e \<in> set (h # xs @ ys)" by auto
    show "nx m e \<noteq> e" by (rule ring_next(3) [OF assms e])
  qed
  have d: "set (h # xs @ e # ys) \<subseteq> dom m" using assms by (simp add: ring_def)
  from d neigh have dm: "e \<in> dom m" "nx m e \<in> dom m" "pv m e \<in> dom m" by auto
  obtain m' where m': "LRU_Remove e m = Some m'" "same_but_links m m'" "changes_only {nx m e, pv m e} m m'"
    "nx m' = (nx m)(pv m e := nx m e)" "pv m' = (pv m)(nx m e := pv m e)"
    by (rule LRU_Remove_links [OF dm neigh(3)])
  show thesis
  proof (rule that [OF m'(1,2)])
    show ch: "changes_only (set (h # xs @ ys)) m m'"
      by (rule changes_only_mono [OF m'(3)]) (use neigh in auto)
    have "seg (nx m') (pv m') h (xs @ ys) h"
      unfolding m'(4,5) by (rule seg_unlink) (use assms in \<open>auto simp: ring_def\<close>)
    then show "ring m' h (xs @ ys)"
      using assms same_but_links_dom [OF m'(2)] by (auto simp: ring_def)
    fix g zs
    assume r: "ring m g zs" "set (g # zs) \<inter> set (h # xs @ e # ys) = {}"
    then have "\<And>x. x \<in> set (g # zs) \<Longrightarrow> m' x = m x" using ch by (auto simp: changes_only_def)
    then have "ring m' g zs = ring m g zs" by (rule ring_cong)
    with r(1) show "ring m' g zs" by simp
  qed
qed

lemma LRU_Append_ring:
  assumes "ring m h xs" "e \<in> dom m" "e \<notin> set (h # xs)"
  obtains m' where "LRU_Append h e m = Some m'" "same_but_links m m'" "changes_only (set (h # e # xs)) m m'"
    "ring m' h (xs @ [e])"
    "\<And>g zs. ring m g zs \<Longrightarrow> set (g # zs) \<inter> set (h # e # xs) = {} \<Longrightarrow> ring m' g zs"
proof -
  have d: "set (h # xs) \<subseteq> dom m" using assms by (simp add: ring_def)
  have pv: "pv m h \<in> set (h # xs)" by (rule ring_next(2) [OF assms(1)]) simp
  with d obtain he hl hp where m: "m e = Some he" "m h = Some hl" "m (h_prev hl) = Some hp" "pv m h = h_prev hl"
    using assms(2) by (fastforce simp: pv_def)
  from pv m(4) assms(3) have ne: "h_prev hl \<noteq> e" "h \<noteq> e" by auto
  define m1 where "m1 = m(e \<mapsto> he\<lparr>h_next := h, h_prev := h_prev hl\<rparr>)"
  define m2 where "m2 = m1(h_prev hl \<mapsto> hp\<lparr>h_next := e\<rparr>)"
  have e2: "m1 (h_prev hl) = Some hp" "m2 e = Some (he\<lparr>h_next := h, h_prev := h_prev hl\<rparr>)"
    using ne m by (simp_all add: m1_def m2_def)
  obtain h2 where h2: "m2 h = Some h2" using m ne by (cases "h = h_prev hl") (auto simp: m1_def m2_def)
  define m3 where "m3 = m2(h \<mapsto> h2\<lparr>h_prev := e\<rparr>)"
  have run: "LRU_Append h e m = Some m3"
    using m ne e2 h2 by (cases "h = h_prev hl") (auto simp: LRU_Append_def heap_update_def m1_def m2_def m3_def)
  have sb: "same_but_links m m3"
    using m ne h2 by (auto simp: same_but_links_def m1_def m2_def m3_def split: if_splits)
  have nxm: "nx m3 = (nx m)(e := h, pv m h := e)"
    using m ne h2 by (auto simp: nx_def pv_def m1_def m2_def m3_def fun_eq_iff split: if_splits)
  have pvm: "pv m3 = (pv m)(e := pv m h, h := e)"
    using m ne h2 by (auto simp: nx_def pv_def m1_def m2_def m3_def fun_eq_iff split: if_splits)
  have ch: "changes_only (set (h # e # xs)) m m3"
    using pv m(4) by (auto simp: changes_only_def m1_def m2_def m3_def)
  have "seg (nx m3) (pv m3) h (xs @ [e]) h"
    unfolding nxm pvm by (rule seg_link) (use assms in \<open>auto simp: ring_def\<close>)
  then have "ring m3 h (xs @ [e])"
    using assms same_but_links_dom [OF sb] by (auto simp: ring_def)
  moreover have "ring m3 g zs" if r: "ring m g zs" "set (g # zs) \<inter> set (h # e # xs) = {}" for g zs
  proof -
    from r ch have "\<And>x. x \<in> set (g # zs) \<Longrightarrow> m3 x = m x" by (auto simp: changes_only_def)
    then have "ring m3 g zs = ring m g zs" by (rule ring_cong)
    with r(1) show ?thesis by simp
  qed
  ultimately show thesis by (intro that [OF run sb ch])
qed

end
