(* ===== verification/LruTable.thy ===== *)
theory LruTable
  imports LruLists
begin

text \<open>
  The hash table of \<open>util/cache.cc\<close>: its buckets are chains of entries, and its operations are those of a set of
  entries that holds at most one entry for each key.
\<close>

section \<open>Chains\<close>

fun path :: "(nat \<Rightarrow> nat) \<Rightarrow> nat \<Rightarrow> nat list \<Rightarrow> nat \<Rightarrow> bool" where
  "path n p [] q \<longleftrightarrow> p = q"
| "path n p (c # cs) q \<longleftrightarrow> p = c \<and> c \<noteq> 0 \<and> path n (n c) cs q"

lemma path_append: "path n p (us @ ws) q \<longleftrightarrow> (\<exists>r. path n p us r \<and> path n r ws q)"
  by (induction us arbitrary: p) auto

lemma path_cong: "(\<And>c. c \<in> set cs \<Longrightarrow> n' c = n c) \<Longrightarrow> path n' p cs q = path n p cs q"
  by (induction cs arbitrary: p) auto

lemma path_redirect:
  assumes "path n p us r" "distinct us" "us \<noteq> []"
  shows "path (n(last us := q)) p us q"
  using assms
proof (induction us arbitrary: p)
  case (Cons u us)
  show ?case
  proof (cases "us = []")
    case False
    then have "last us \<noteq> u" using Cons.prems(2) last_in_set [of us] by auto
    with Cons False show ?thesis by auto
  qed (use Cons in auto)
qed simp

lemma path_zero: "path n 0 cs q \<longleftrightarrow> cs = [] \<and> q = 0"
  by (cases cs) auto

section \<open>The table's invariant\<close>

definition bucket :: "u32 \<Rightarrow> u32 \<Rightarrow> nat" where
  "bucket len hash = unat (hash AND (len - 1))"

definition matches :: "('d, 'v) cache_heap \<Rightarrow> slice \<Rightarrow> u32 \<Rightarrow> nat \<Rightarrow> bool" where
  "matches m key hash a \<longleftrightarrow> (\<exists>h. m a = Some h \<and> h_hash h = hash \<and> h_key h = key)"

definition hash_at :: "('d, 'v) cache_heap \<Rightarrow> nat \<Rightarrow> u32" where
  "hash_at m a = h_hash (the (m a))"

definition key_at :: "('d, 'v) cache_heap \<Rightarrow> nat \<Rightarrow> slice" where
  "key_at m a = h_key (the (m a))"

text \<open>An entry in the table: allocated, and not the head of an empty list.\<close>

definition keyed :: "('d, 'v) cache_heap \<Rightarrow> nat \<Rightarrow> bool" where
  "keyed m a \<longleftrightarrow> a \<in> dom m \<and> nx m a \<noteq> a"

definition buckets_ok :: "('d, 'v) cache_heap \<Rightarrow> u32 \<Rightarrow> nat list \<Rightarrow> nat list list \<Rightarrow> bool" where
  "buckets_ok m len L css \<longleftrightarrow>
     length css = length L \<and> length L = unat len \<and> (\<exists>k \<ge> 2. k < 32 \<and> unat len = 2 ^ k) \<and>
     (\<forall>i < length L. path (nh m) (L ! i) (css ! i) 0 \<and> (\<forall>a \<in> set (css ! i). bucket len (hash_at m a) = i))"

definition table_ok :: "('d, 'v) cache_heap \<Rightarrow> handle_table \<Rightarrow> nat list list \<Rightarrow> bool" where
  "table_ok m T css \<longleftrightarrow>
     buckets_ok m (ht_length T) (ht_list T) css \<and> unat (ht_elems T) = length (concat css) \<and>
     distinct (concat css) \<and> (\<forall>a \<in> set (concat css). keyed m a) \<and>
     inj_on (\<lambda>a. (key_at m a, hash_at m a)) (set (concat css))"

lemma bucket_less:
  assumes "unat len = 2 ^ k" "k < 32"
  shows "bucket len hash < unat len"
proof -
  have "len = of_nat (2 ^ k)" using assms(1) by (metis word_of_nat_unat)
  then have "len - 1 = mask k" by (simp add: mask_eq_exp_minus_1)
  then show ?thesis using assms by (simp add: bucket_def unat_and_mask)
qed

lemma buckets_ok_bucket: "buckets_ok m len L css \<Longrightarrow> bucket len hash < length L"
  using bucket_less by (auto simp: buckets_ok_def)

lemma mset_concat_update:
  assumes "i < length css"
  shows "mset (concat (css[i := xs])) + mset (css ! i) = mset (concat css) + mset xs"
proof -
  have "mset (concat css) = mset (concat (take i css)) + mset (css ! i) + mset (concat (drop (Suc i) css))"
    by (subst id_take_nth_drop [OF assms]) simp
  moreover have "mset (concat (css[i := xs])) = mset (concat (take i css)) + mset xs + mset (concat (drop (Suc i) css))"
    using assms by (simp add: upd_conv_take_nth_drop)
  ultimately show ?thesis by simp
qed

lemma distinct_nth: "distinct (concat css) \<Longrightarrow> i < length css \<Longrightarrow> distinct (css ! i)"
  by (auto simp: distinct_concat_iff in_set_conv_nth)

lemma disjoint_nth_concat:
  assumes "distinct (concat css)" "i < length css" "j < length css" "i \<noteq> j"
  shows "set (css ! i) \<inter> set (css ! j) = {}"
proof -
  have ii: "set (css ! i) \<inter> set (css ! j) = {}" if "i < j" "j < length css" "distinct (concat css)" for i j
  proof -
    have "concat css = concat (take j css) @ css ! j @ concat (drop (Suc j) css)"
      by (subst id_take_nth_drop [OF that(2)]) simp
    with that(3) have "set (concat (take j css)) \<inter> set (css ! j) = {}" by auto
    moreover have "css ! i \<in> set (take j css)" using that by (auto simp: in_set_conv_nth intro!: exI [of _ i])
    ultimately show ?thesis by auto
  qed
  show ?thesis
    using ii [of i j] ii [of j i] assms by (cases "i < j") auto
qed

lemma nth_concat_subset: "i < length css \<Longrightarrow> set (css ! i) \<subseteq> set (concat css)"
  by (auto intro!: bexI [OF _ nth_mem])

text \<open>An entry whose key and hash are sought lies in the bucket of the hash.\<close>

lemma matches_bucket:
  assumes "buckets_ok m len L css" "a \<in> set (concat css)" "matches m key hash a"
  shows "a \<in> set (css ! bucket len hash)"
proof -
  from assms(2) obtain i where i: "i < length css" "a \<in> set (css ! i)"
    by (auto simp: in_set_conv_nth) (metis in_set_conv_nth)
  with assms(1) have "bucket len (hash_at m a) = i" by (simp add: buckets_ok_def)
  moreover have "hash_at m a = hash" using assms(3) by (auto simp: matches_def hash_at_def)
  ultimately have "bucket len hash = i" by simp
  with i show ?thesis by simp
qed

section \<open>Finding the slot\<close>

definition slot_after :: "slot \<Rightarrow> nat list \<Rightarrow> slot" where
  "slot_after ptr us = (if us = [] then ptr else Next_hash (last us))"

lemma slot_get_after:
  assumes "slot_get T m ptr = Some p" "path (nh m) p us r" "set us \<subseteq> dom m"
  shows "slot_get T m (slot_after ptr us) = Some r"
proof (cases us rule: rev_cases)
  case (snoc vs u)
  with assms have "nh m u = r" "u \<in> dom m" by (auto simp: path_append)
  with snoc show ?thesis by (auto simp: slot_after_def nh_def)
qed (use assms in \<open>auto simp: slot_after_def\<close>)

lemma find_pointer_skip:
  assumes "slot_get T m ptr = Some p" "path (nh m) p us r" "\<forall>u \<in> set us. keyed m u \<and> \<not> matches m key hash u"
  shows "find_pointer_loop T m key hash ptr = find_pointer_loop T m key hash (slot_after ptr us)"
  using assms
proof (induction us arbitrary: ptr p)
  case (Cons u us)
  then obtain h where h: "m u = Some h" "h_next h \<noteq> u" "\<not> (h_hash h = hash \<and> h_key h = key)" "u \<noteq> 0" "p = u"
    by (auto simp: keyed_def nx_def matches_def)
  with Cons.prems(1) have "find_pointer_loop T m key hash ptr = find_pointer_loop T m key hash (Next_hash u)"
    by (subst find_pointer_loop.simps) (auto simp: LRUHandle_key_def)
  also have "\<dots> = find_pointer_loop T m key hash (slot_after (Next_hash u) us)"
    using Cons.prems h by (intro Cons.IH [of _ "nh m u"]) (auto simp: nh_def)
  finally show ?case by (simp add: slot_after_def)
qed (simp add: slot_after_def)

lemma find_pointer_none:
  assumes "slot_get T m ptr = Some p" "path (nh m) p us 0" "\<forall>u \<in> set us. keyed m u \<and> \<not> matches m key hash u"
  shows "find_pointer_loop T m key hash ptr = Some (slot_after ptr us) \<and> slot_get T m (slot_after ptr us) = Some 0"
proof -
  have g: "slot_get T m (slot_after ptr us) = Some 0"
    by (rule slot_get_after [OF assms(1,2)]) (use assms(3) in \<open>auto simp: keyed_def\<close>)
  then have "find_pointer_loop T m key hash (slot_after ptr us) = Some (slot_after ptr us)"
    by (subst find_pointer_loop.simps) simp
  with g find_pointer_skip [OF assms] show ?thesis by simp
qed

lemma find_pointer_found:
  assumes "slot_get T m ptr = Some p" "path (nh m) p (us @ a # vs) q"
    "\<forall>u \<in> set us. keyed m u \<and> \<not> matches m key hash u" "keyed m a" "matches m key hash a"
  shows "find_pointer_loop T m key hash ptr = Some (slot_after ptr us) \<and> slot_get T m (slot_after ptr us) = Some a"
proof -
  from assms(2) have us: "path (nh m) p us a" and a0: "a \<noteq> 0" by (auto simp: path_append)
  have g: "slot_get T m (slot_after ptr us) = Some a"
    by (rule slot_get_after [OF assms(1) us]) (use assms(3) in \<open>auto simp: keyed_def\<close>)
  with a0 assms(4,5) have "find_pointer_loop T m key hash (slot_after ptr us) = Some (slot_after ptr us)"
    by (subst find_pointer_loop.simps) (auto simp: keyed_def nx_def matches_def LRUHandle_key_def)
  with g find_pointer_skip [OF assms(1) us assms(3)] show ?thesis by simp
qed

text \<open>The slot in which \<open>FindPointer\<close> stops splits the bucket's chain.\<close>

lemma FindPointer_cases [consumes 1, case_names absent present]:
  fixes hash :: u32
  assumes ok: "table_ok m T css"
  defines "i \<equiv> bucket (ht_length T) hash"
  obtains "\<forall>a \<in> set (concat css). \<not> matches m key hash a"
      "FindPointer T m key hash = Some (slot_after (Bucket i) (css ! i))"
      "slot_get T m (slot_after (Bucket i) (css ! i)) = Some 0" "i < length css"
    | us a vs where "css ! i = us @ a # vs" "matches m key hash a"
      "FindPointer T m key hash = Some (slot_after (Bucket i) us)"
      "slot_get T m (slot_after (Bucket i) us) = Some a" "i < length css"
proof -
  have b: "buckets_ok m (ht_length T) (ht_list T) css" using ok by (simp add: table_ok_def)
  have i: "i < length (ht_list T)" "i < length css"
    using buckets_ok_bucket [OF b, of hash] b by (simp_all add: i_def buckets_ok_def)
  have p: "slot_get T m (Bucket i) = Some (ht_list T ! i)" "path (nh m) (ht_list T ! i) (css ! i) 0"
    using b i by (auto simp: buckets_ok_def)
  have keyed: "\<forall>a \<in> set (css ! i). keyed m a"
    using ok nth_concat_subset [OF i(2)] by (auto simp: table_ok_def)
  have F: "FindPointer T m key hash = find_pointer_loop T m key hash (Bucket i)"
    by (simp add: FindPointer_def i_def bucket_def)
  show thesis
  proof (cases "\<exists>a \<in> set (css ! i). matches m key hash a")
    case True
    from split_list_first_propE [OF this]
    obtain us a vs where s: "css ! i = us @ a # vs" "matches m key hash a" "\<forall>u \<in> set us. \<not> matches m key hash u"
      by metis
    show thesis
      by (rule that(2) [OF s(1,2)])
        (use find_pointer_found [OF p(1) p(2) [unfolded s(1)], of key hash] s keyed i(2) F in auto)
  next
    case False
    then have "\<forall>a \<in> set (concat css). \<not> matches m key hash a"
      using matches_bucket [OF b] by (auto simp: i_def simp del: set_concat)
    then show thesis
      by (rule that(1)) (use find_pointer_none [OF p, of key hash] False keyed i(2) F in auto)
  qed
qed

lemma HandleTable_Lookup_cases [consumes 1, case_names absent present]:
  assumes "table_ok m T css"
  obtains "\<forall>a \<in> set (concat css). \<not> matches m key hash a" "HandleTable_Lookup T m key hash = Some 0"
    | a where "a \<in> set (concat css)" "matches m key hash a" "HandleTable_Lookup T m key hash = Some a"
  using assms
proof (cases rule: FindPointer_cases [where key = key and hash = hash])
  case absent
  then show thesis by (intro that(1)) (simp_all add: HandleTable_Lookup_def)
next
  case (present us a vs)
  then have "a \<in> set (concat css)" using nth_concat_subset by fastforce
  with present show thesis by (intro that(2) [of a]) (simp_all add: HandleTable_Lookup_def)
qed

section \<open>Setting a slot\<close>

lemma buckets_ok_heap:
  assumes "buckets_ok m len L css" "same_but_next_hash m m'" "\<And>a. a \<in> set (concat css) \<Longrightarrow> nh m' a = nh m a"
    "set (concat css) \<subseteq> dom m"
  shows "buckets_ok m' len L css"
proof -
  have "path (nh m') (L ! i) (css ! i) 0 \<and> (\<forall>a \<in> set (css ! i). bucket len (hash_at m' a) = i)" if i: "i < length L" for i
  proof -
    have il: "i < length css" using assms(1) i by (simp add: buckets_ok_def)
    have "path (nh m') (L ! i) (css ! i) 0 = path (nh m) (L ! i) (css ! i) 0"
      by (rule path_cong, rule assms(3)) (use nth_concat_subset [OF il] in blast)
    moreover have "hash_at m' a = hash_at m a" if "a \<in> set (css ! i)" for a
    proof -
      from that nth_concat_subset [OF il] assms(4) obtain h where h: "m a = Some h" by blast
      from assms(2) h obtain h' where "m' a = Some h'" "h_hash h' = h_hash h" by (rule same_but_next_hashD)
      with h show ?thesis by (simp add: hash_at_def)
    qed
    ultimately show ?thesis using assms(1) i by (auto simp: buckets_ok_def)
  qed
  with assms(1) show ?thesis by (auto simp: buckets_ok_def)
qed

lemma same_but_next_hash_at:
  assumes "same_but_next_hash m m'"
  shows "hash_at m' = hash_at m" "key_at m' = key_at m"
proof -
  have "hash_at m' a = hash_at m a \<and> key_at m' a = key_at m a" for a
  proof (cases "m a")
    case (Some h)
    from assms Some obtain h' where "m' a = Some h'" "h_hash h' = h_hash h" "h_key h' = h_key h"
      by (rule same_but_next_hashD)
    with Some show ?thesis by (simp add: hash_at_def key_at_def)
  qed (use same_but_next_hash_None [OF assms, of a] in \<open>simp add: hash_at_def key_at_def\<close>)
  then show "hash_at m' = hash_at m" "key_at m' = key_at m" by auto
qed

lemma same_but_next_hash_keyed: "same_but_next_hash m m' \<Longrightarrow> keyed m' a \<longleftrightarrow> keyed m a"
  using same_but_next_hash_links(1) [of m m'] same_but_next_hash_dom [of m m'] by (simp add: keyed_def)

lemma slot_set_after:
  assumes b: "buckets_ok m (ht_length T) (ht_list T) css" and d: "distinct (concat css)" "set (concat css) \<subseteq> dom m"
    and i: "i < length css" "css ! i = us @ ws" and q: "path (nh m) q ws' 0" "set ws' \<inter> set us = {}"
    and w: "\<forall>a \<in> set ws'. bucket (ht_length T) (hash_at m a) = i" "set ws' \<inter> set (concat css) \<subseteq> set ws"
  obtains T' m' where "slot_set (slot_after (Bucket i) us) q T m = Some (T', m')"
    "buckets_ok m' (ht_length T') (ht_list T') (css[i := us @ ws'])" "ht_length T' = ht_length T" "ht_elems T' = ht_elems T"
    "same_but_next_hash m m'" "changes_only (set us) m m'"
proof -
  have L: "i < length (ht_list T)" "length (ht_list T) = length css" using b i by (auto simp: buckets_ok_def)
  have pth: "path (nh m) (ht_list T ! i) (us @ ws) 0" using b i L by (auto simp: buckets_ok_def)
  have wsub: "set ws \<subseteq> set (concat css)" "set us \<subseteq> set (concat css)" using nth_concat_subset [OF i(1)] i(2) by auto
  have other: "path (nh m) (ht_list T ! j) (css ! j) 0" "\<forall>a \<in> set (css ! j). bucket (ht_length T) (hash_at m a) = j"
    if "j < length css" for j using b that L by (auto simp: buckets_ok_def)
  show thesis
  proof (cases us rule: rev_cases)
    case Nil
    have "path (nh m) ((ht_list T)[i := q] ! j) (css[i := ws'] ! j) 0 \<and>
        (\<forall>a \<in> set (css[i := ws'] ! j). bucket (ht_length T) (hash_at m a) = j)" if "j < length css" for j
      using other [OF that] q(1) w(1) i(1) L by (cases "j = i") simp_all
    with b L Nil have "buckets_ok m (ht_length T) ((ht_list T)[i := q]) (css[i := us @ ws'])"
      by (auto simp: buckets_ok_def)
    with Nil L show thesis
      by (intro that [of "T\<lparr>ht_list := (ht_list T)[i := q]\<rparr>" m]) (simp_all add: slot_after_def)
  next
    case (snoc vs l)
    then have l: "l \<in> set (css ! i)" using i by auto
    with nth_concat_subset [OF i(1)] d(2) obtain h where h: "m l = Some h" by blast
    define m' where "m' = m(l \<mapsto> h\<lparr>h_next_hash := q\<rparr>)"
    have nh: "nh m' = (nh m)(l := q)" by (auto simp: m'_def nh_def)
    have sn: "same_but_next_hash m m'" using h by (simp add: m'_def same_but_next_hash_update)
    have du: "distinct us" using distinct_nth [OF d(1) i(1)] i(2) by simp
    obtain r where r: "path (nh m) (ht_list T ! i) us r" using pth by (auto simp: path_append)
    have "path (nh m') (ht_list T ! i) us q"
      using path_redirect [OF r du, of q] snoc by (simp add: nh)
    moreover have "path (nh m') q ws' 0"
      using q snoc by (subst path_cong [of _ _ "nh m"]) (auto simp: nh)
    ultimately have new: "path (nh m') (ht_list T ! i) (us @ ws') 0" by (auto simp: path_append)
    have old: "path (nh m') (ht_list T ! j) (css ! j) 0" if j: "j < length css" "j \<noteq> i" for j
    proof -
      have "l \<notin> set (css ! j)" using disjoint_nth_concat [OF d(1) i(1) j(1)] j(2) l by auto
      then show ?thesis using other(1) [OF j(1)] by (subst path_cong [of _ _ "nh m"]) (auto simp: nh)
    qed
    have ub: "\<forall>a \<in> set us. bucket (ht_length T) (hash_at m a) = i" using other(2) [OF i(1)] i(2) by auto
    have "path (nh m') (ht_list T ! j) (css[i := us @ ws'] ! j) 0 \<and>
        (\<forall>a \<in> set (css[i := us @ ws'] ! j). bucket (ht_length T) (hash_at m' a) = j)" if "j < length css" for j
      using old [OF that] other(2) [OF that] new ub w(1) i(1)
      by (cases "j = i") (auto simp: same_but_next_hash_at [OF sn])
    with b L have "buckets_ok m' (ht_length T) (ht_list T) (css[i := us @ ws'])"
      by (auto simp: buckets_ok_def)
    moreover have "changes_only (set us) m m'" using snoc by (auto simp: changes_only_def m'_def)
    ultimately show thesis
      using snoc h sn by (intro that [of T m']) (simp_all add: slot_after_def heap_update_def m'_def)
  qed
qed

section \<open>Resizing\<close>

lemma unat_double: "unat (n :: u32) < 2 ^ 31 \<Longrightarrow> unat (n * 2) = 2 * unat n"
  by (subst mult.commute, subst unat_mult_lem [THEN iffD1]) simp_all

lemma grow_length_ok:
  assumes "unat len = 2 ^ k" "2 \<le> k" "k \<le> 31" "unat elems \<le> 2 ^ 31"
  shows "\<exists>len' k'. grow_length elems len = Some len' \<and> unat len' = 2 ^ k' \<and> 2 \<le> k' \<and> k' < 32"
  using assms
proof (induction "31 - k" arbitrary: k len)
  case 0
  then have "\<not> len < elems" by (simp add: word_less_nat_alt)
  with 0 show ?case by (subst grow_length.simps) (auto intro!: exI [of _ k])
next
  case (Suc n)
  show ?case
  proof (cases "len < elems")
    case True
    have "(2 :: nat) ^ k < 2 ^ 31" using Suc.hyps(2) by (intro power_strict_increasing) simp_all
    then have "unat len < 2 ^ 31" using Suc.prems(1) by simp
    then have "unat (len * 2) = 2 ^ Suc k" using Suc.prems(1) by (simp add: unat_double)
    with Suc.hyps(1) [of "Suc k" "len * 2"] Suc.hyps(2) Suc.prems True show ?thesis
      by (subst grow_length.simps) simp
  next
    case False
    with Suc.prems Suc.hyps(2) show ?thesis by (subst grow_length.simps) (auto intro!: exI [of _ k])
  qed
qed

lemma rehash_chain_ok:
  assumes "path (nh m) h cs 0" "distinct (cs @ concat nss)" "set (cs @ concat nss) \<subseteq> dom m" "buckets_ok m len L nss"
  obtains L' m' nss' where "rehash_chain len h (L, cnt, m) = Some (L', cnt + of_nat (length cs), m')"
    "buckets_ok m' len L' nss'" "mset (concat nss') = mset (cs @ concat nss)" "same_but_next_hash m m'"
    "changes_only (set cs) m m'"
  using assms
proof (induction cs arbitrary: h L cnt m nss thesis)
  case Nil
  then show thesis by (intro Nil(1) [of L m nss]) (simp_all add: rehash_chain.simps [of _ 0])
next
  case (Cons c cs)
  from Cons.prems(4) obtain e0 where "m c = Some e0" by auto
  moreover have "h = c" "c \<noteq> 0" "path (nh m) (nh m c) cs 0" using Cons.prems(2) by simp_all
  ultimately obtain e where e: "m c = Some e" "h = c" "c \<noteq> 0" "path (nh m) (h_next_hash e) cs 0"
    by (simp add: nh_def)
  define i where "i = bucket len (h_hash e)"
  have i: "i < length L" "i < length nss"
    using buckets_ok_bucket [OF Cons.prems(5), of "h_hash e"] Cons.prems(5) by (simp_all add: i_def buckets_ok_def)
  define m1 where "m1 = m(c \<mapsto> e\<lparr>h_next_hash := L ! i\<rparr>)"
  have sn: "same_but_next_hash m m1" unfolding m1_def by (rule same_but_next_hash_update) (rule e(1))
  have nh1: "nh m1 = (nh m)(c := L ! i)" by (auto simp: m1_def nh_def)
  have c: "c \<notin> set (concat nss)" "c \<notin> set cs" using Cons.prems(3) by auto
  have sub: "set (concat nss) \<subseteq> dom m" using Cons.prems(4) by auto
  have b1: "buckets_ok m1 len L nss"
    by (rule buckets_ok_heap [OF Cons.prems(5) sn _ sub]) (use c in \<open>auto simp: nh1\<close>)
  define T where "T = \<lparr>ht_length = len, ht_elems = 0, ht_list = L\<rparr>"
  have q: "path (nh m1) c (c # nss ! i) 0"
    using b1 i e(3) by (auto simp: buckets_ok_def nh1)
  have at: "hash_at m1 c = h_hash e" using e by (simp add: hash_at_def m1_def)
  have bT: "buckets_ok m1 (ht_length T) (ht_list T) nss" using b1 by (simp add: T_def)
  have dT: "distinct (concat nss)" "set (concat nss) \<subseteq> dom m1"
    using Cons.prems(3) sub same_but_next_hash_dom [OF sn] by simp_all
  have wT: "\<forall>a \<in> set (c # nss ! i). bucket (ht_length T) (hash_at m1 a) = i"
    using b1 i at by (auto simp: T_def i_def buckets_ok_def)
  have iT: "nss ! i = [] @ nss ! i" "set (c # nss ! i) \<inter> set [] = {}" "set (c # nss ! i) \<inter> set (concat nss) \<subseteq> set (nss ! i)"
    using c(1) by auto
  obtain T' m' where s: "slot_set (slot_after (Bucket i) []) c T m1 = Some (T', m')"
    "buckets_ok m' (ht_length T') (ht_list T') (nss[i := [] @ c # nss ! i])" "ht_length T' = ht_length T"
    by (rule slot_set_after [OF bT dT i(2) iT(1) q iT(2) wT iT(3)])
  have "slot_set (slot_after (Bucket i) []) c T m1 = Some (T\<lparr>ht_list := L[i := c]\<rparr>, m1)"
    using i by (simp add: slot_after_def T_def)
  with s(1) have m': "m' = m1" "ht_list T' = L[i := c]" by auto
  define nss1 where "nss1 = nss[i := c # nss ! i]"
  have b2: "buckets_ok m1 len (L[i := c]) nss1" using s m' by (simp add: T_def nss1_def)
  have mc: "mset (concat nss1) = mset (c # concat nss)"
    using mset_concat_update [OF i(2), of "c # nss ! i"] by (simp add: nss1_def)
  have ms: "mset (cs @ concat nss1) = mset ((c # cs) @ concat nss)" using mc by simp
  have p2: "path (nh m1) (h_next_hash e) cs 0"
    using e(4) c(2) by (subst path_cong [of _ _ "nh m"]) (auto simp: nh1)
  have d2: "distinct (cs @ concat nss1)"
    using Cons.prems(3) mset_eq_imp_distinct_iff [OF ms] by (simp only: )
  have sub2: "set (cs @ concat nss1) \<subseteq> dom m1"
    unfolding mset_eq_setD [OF ms] same_but_next_hash_dom [OF sn] by (rule Cons.prems(4))
  obtain L' m2 nss' where r: "rehash_chain len (h_next_hash e) (L[i := c], cnt + 1, m1) = Some (L', cnt + 1 + of_nat (length cs), m2)"
    "buckets_ok m2 len L' nss'" "mset (concat nss') = mset (cs @ concat nss1)" "same_but_next_hash m1 m2"
    "changes_only (set cs) m1 m2"
    by (rule Cons.IH [OF _ p2 d2 sub2 b2])
  show thesis
  proof (rule Cons.prems(1) [of L' m2 nss'])
    have "rehash_chain len h (L, cnt, m) = rehash_chain len (h_next_hash e) (L[i := c], cnt + 1, m1)"
      using e i by (subst rehash_chain.simps) (simp add: i_def m1_def bucket_def Let_def)
    then show "rehash_chain len h (L, cnt, m) = Some (L', cnt + of_nat (length (c # cs)), m2)"
      using r(1) by (simp add: add.assoc)
    show "same_but_next_hash m m2" by (rule same_but_next_hash_trans [OF sn r(4)])
    show "mset (concat nss') = mset ((c # cs) @ concat nss)" using r(3) ms by simp
    have "changes_only (set (c # cs)) m m1" by (simp add: changes_only_def m1_def)
    moreover have "changes_only (set (c # cs)) m1 m2" by (rule changes_only_mono [OF r(5)]) auto
    ultimately show "changes_only (set (c # cs)) m m2" by (rule changes_only_trans)
  qed (rule r(2))
qed

lemma rehash_all_ok:
  assumes "list_all2 (\<lambda>h cs. path (nh m) h cs 0) hs css" "distinct (concat css @ concat nss)"
    "set (concat css @ concat nss) \<subseteq> dom m" "buckets_ok m len L nss"
  obtains L' m' nss' where "rehash_all len hs (L, cnt, m) = Some (L', cnt + of_nat (length (concat css)), m')"
    "buckets_ok m' len L' nss'" "mset (concat nss') = mset (concat css @ concat nss)" "same_but_next_hash m m'"
    "changes_only (set (concat css)) m m'"
  using assms
proof (induction hs css arbitrary: L cnt m nss thesis rule: list_induct2')
  case (4 h hs cs css)
  have p: "path (nh m) h cs 0" using 4 by simp
  have d1: "distinct (cs @ concat nss)" using "4.prems"(3) by auto
  have s1: "set (cs @ concat nss) \<subseteq> dom m" using "4.prems"(4) by auto
  obtain L1 m1 nss1 where r1: "rehash_chain len h (L, cnt, m) = Some (L1, cnt + of_nat (length cs), m1)"
    "buckets_ok m1 len L1 nss1" "mset (concat nss1) = mset (cs @ concat nss)" "same_but_next_hash m m1"
    "changes_only (set cs) m m1"
    by (rule rehash_chain_ok [OF p d1 s1 "4.prems"(5)])
  have ms: "mset (concat css @ concat nss1) = mset (concat (cs # css) @ concat nss)" using r1(3) by simp
  have d2: "distinct (concat css @ concat nss1)"
    using "4.prems"(3) mset_eq_imp_distinct_iff [OF ms] by (simp only: )
  have s2: "set (concat css @ concat nss1) \<subseteq> dom m1"
    unfolding mset_eq_setD [OF ms] same_but_next_hash_dom [OF r1(4)] by (rule "4.prems"(4))
  have disj: "set cs \<inter> set (concat css) = {}" using "4.prems"(3) by auto
  have nh: "nh m1 a = nh m a" if "a \<in> set (concat css)" for a
    using r1(5) that disj unfolding changes_only_def nh_def by (metis disjoint_iff)
  have "path (nh m1) h cs' 0 = path (nh m) h cs' 0" if "cs' \<in> set css" for h cs'
    by (rule path_cong, rule nh) (use that in auto)
  moreover have "list_all2 (\<lambda>h cs. path (nh m) h cs 0) hs css" using "4.prems"(2) by simp
  ultimately have p2: "list_all2 (\<lambda>h cs. path (nh m1) h cs 0) hs css" by (auto simp: list_all2_conv_all_nth)
  obtain L2 m2 nss2 where r2: "rehash_all len hs (L1, cnt + of_nat (length cs), m1) =
      Some (L2, cnt + of_nat (length cs) + of_nat (length (concat css)), m2)"
    "buckets_ok m2 len L2 nss2" "mset (concat nss2) = mset (concat css @ concat nss1)" "same_but_next_hash m1 m2"
    "changes_only (set (concat css)) m1 m2"
    by (rule "4.IH" [OF _ p2 d2 s2 r1(2)])
  show thesis
  proof (rule "4.prems"(1) [of L2 m2 nss2])
    show "rehash_all len (h # hs) (L, cnt, m) = Some (L2, cnt + of_nat (length (concat (cs # css))), m2)"
      using r1(1) r2(1) by (simp add: add.assoc)
    show "same_but_next_hash m m2" by (rule same_but_next_hash_trans [OF r1(4) r2(4)])
    show "mset (concat nss2) = mset (concat (cs # css) @ concat nss)" using r2(3) ms by simp
    have "changes_only (set (concat (cs # css))) m m1" by (rule changes_only_mono [OF r1(5)]) auto
    moreover have "changes_only (set (concat (cs # css))) m1 m2" by (rule changes_only_mono [OF r2(5)]) auto
    ultimately show "changes_only (set (concat (cs # css))) m m2" by (rule changes_only_trans)
  qed (rule r2(2))
next
  case 1
  then show thesis by (intro 1(1) [of L m nss]) simp_all
qed auto

lemma empty_buckets_ok: "unat len = 2 ^ k \<Longrightarrow> 2 \<le> k \<Longrightarrow> k < 32 \<Longrightarrow> buckets_ok m len (replicate (unat len) 0) (replicate (unat len) [])"
  by (auto simp: buckets_ok_def)

lemma Resize_ok:
  assumes "list_all2 (\<lambda>h cs. path (nh m) h cs 0) (ht_list T) css" "distinct (concat css)" "set (concat css) \<subseteq> dom m"
    "unat (ht_elems T) = length (concat css)" "length (concat css) \<le> 2 ^ 31"
  obtains T' m' css' where "Resize T m = Some (T', m')" "buckets_ok m' (ht_length T') (ht_list T') css'"
    "mset (concat css') = mset (concat css)" "ht_elems T' = ht_elems T" "same_but_next_hash m m'"
    "changes_only (set (concat css)) m m'"
proof -
  have "\<exists>len k. grow_length (ht_elems T) 4 = Some len \<and> unat len = 2 ^ k \<and> 2 \<le> k \<and> k < 32"
    by (rule grow_length_ok [of 4 2]) (use assms(4,5) in simp_all)
  then obtain len k where len: "grow_length (ht_elems T) 4 = Some len" "unat len = 2 ^ k" "2 \<le> k" "k < 32" by blast
  have b: "buckets_ok m len (replicate (unat len) 0) (replicate (unat len) [])" by (rule empty_buckets_ok [OF len(2-4)])
  have n: "concat (replicate (unat len) []) = []" by simp
  obtain L' m' nss' where r: "rehash_all len (ht_list T) (replicate (unat len) 0, 0, m) = Some (L', 0 + of_nat (length (concat css)), m')"
    "buckets_ok m' len L' nss'" "mset (concat nss') = mset (concat css @ concat (replicate (unat len) []))"
    "same_but_next_hash m m'" "changes_only (set (concat css)) m m'"
    by (rule rehash_all_ok [OF assms(1) _ _ b, where cnt = 0]) (use assms(2,3) n in simp_all)
  have "of_nat (length (concat css)) = ht_elems T" by (metis assms(4) word_of_nat_unat)
  with len(1) r(1) have run: "Resize T m = Some (T\<lparr>ht_list := L', ht_length := len\<rparr>, m')"
    by (simp add: Resize_def)
  show thesis
    by (rule that [OF run _ _ _ r(4,5), of nss']) (use r n in simp_all)
qed

section \<open>Insertion and removal\<close>

lemma table_ok_dom: "table_ok m T css \<Longrightarrow> set (concat css) \<subseteq> dom m"
  by (auto simp: table_ok_def keyed_def)

lemma table_ok_heap:
  assumes "table_ok m T css" "same_but_next_hash m m'" "buckets_ok m' (ht_length T') (ht_list T') css'"
    "mset (concat css') = mset (concat css)" "ht_elems T' = ht_elems T"
  shows "table_ok m' T' css'"
proof -
  have "set (concat css') = set (concat css)" by (rule mset_eq_setD [OF assms(4)])
  moreover have "length (concat css') = length (concat css)" by (rule mset_eq_length [OF assms(4)])
  moreover have "distinct (concat css') = distinct (concat css)" by (rule mset_eq_imp_distinct_iff [OF assms(4)])
  ultimately show ?thesis
    using assms(1,3,5) unfolding table_ok_def same_but_next_hash_at [OF assms(2)] same_but_next_hash_keyed [OF assms(2)]
    by (simp only: simp_thms) simp
qed

lemma matches_at: "a \<in> dom m \<Longrightarrow> matches m key hash a \<longleftrightarrow> key_at m a = key \<and> hash_at m a = hash"
  by (auto simp: matches_def key_at_def hash_at_def)

lemma HandleTable_Remove_cases [consumes 1, case_names absent present]:
  assumes ok: "table_ok m T css"
  obtains "\<forall>a \<in> set (concat css). \<not> matches m key hash a" "HandleTable_Remove key hash T m = Some (0, T, m)"
    | a T' m' css' where "a \<in> set (concat css)" "matches m key hash a" "HandleTable_Remove key hash T m = Some (a, T', m')"
        "table_ok m' T' css'" "set (concat css') = set (concat css) - {a}"
        "same_but_next_hash m m'" "changes_only (set (concat css')) m m'"
  using ok
proof (cases rule: FindPointer_cases [where key = key and hash = hash])
  case absent
  then show thesis by (intro that(1)) (simp_all add: HandleTable_Remove_def)
next
  case (present us a vs)
  define i where "i = bucket (ht_length T) hash"
  note i = present(5) [folded i_def] and c = present(1) [folded i_def]
  have b: "buckets_ok m (ht_length T) (ht_list T) css" and d: "distinct (concat css)" using ok by (simp_all add: table_ok_def)
  have a: "a \<in> set (concat css)" using nth_concat_subset [OF i] c by auto
  have pth: "path (nh m) (ht_list T ! i) (us @ a # vs) 0" "\<forall>x \<in> set (css ! i). bucket (ht_length T) (hash_at m x) = i"
    using b i c by (auto simp: buckets_ok_def)
  then have q: "path (nh m) (nh m a) vs 0" "a \<noteq> 0" by (auto simp: path_append)
  have dc: "distinct (us @ a # vs)" using distinct_nth [OF d i] c by simp
  obtain h where h: "m a = Some h" using present(2) by (auto simp: matches_def)
  have dis: "set vs \<inter> set us = {}" "\<forall>x \<in> set vs. bucket (ht_length T) (hash_at m x) = i"
    "set vs \<inter> set (concat css) \<subseteq> set (a # vs)" using dc pth(2) c by auto
  obtain T' m' where s: "slot_set (slot_after (Bucket i) us) (nh m a) T m = Some (T', m')"
    "buckets_ok m' (ht_length T') (ht_list T') (css[i := us @ vs])" "ht_length T' = ht_length T" "ht_elems T' = ht_elems T"
    "same_but_next_hash m m'" "changes_only (set us) m m'"
    by (rule slot_set_after [OF b d table_ok_dom [OF ok] i c q(1) dis])
  have ms: "mset (concat css) = add_mset a (mset (concat (css[i := us @ vs])))"
    using mset_concat_update [OF i, of "us @ vs"] c by simp
  have dd: "distinct (concat (css[i := us @ vs]))" "a \<notin> set (concat (css[i := us @ vs]))"
    using d ms by (metis distinct.simps(2) mset.simps(2) mset_eq_imp_distinct_iff)+
  have st: "set (concat css) = insert a (set (concat (css[i := us @ vs])))"
    using arg_cong [OF ms, of set_mset] by (simp del: set_concat)
  have ln: "length (concat css) = Suc (length (concat (css[i := us @ vs])))"
    using arg_cong [OF ms, of size] by simp
  show thesis
  proof (rule that(2) [OF a present(2)])
    show "HandleTable_Remove key hash T m = Some (a, T'\<lparr>ht_elems := ht_elems T' - 1\<rparr>, m')"
      using present s h q(2) by (simp add: HandleTable_Remove_def i_def nh_def)
    have "unat (ht_elems T) = length (concat css)" using ok by (simp add: table_ok_def)
    then have "unat (ht_elems T - 1) = length (concat (css[i := us @ vs]))"
      using ln by (subst unat_sub) (simp_all add: word_le_nat_alt)
    then show "table_ok m' (T'\<lparr>ht_elems := ht_elems T' - 1\<rparr>) (css[i := us @ vs])"
      using ok s dd st unfolding table_ok_def
      by (simp del: set_concat add: same_but_next_hash_at [OF s(5)] same_but_next_hash_keyed [OF s(5)])
    show "set (concat (css[i := us @ vs])) = set (concat css) - {a}" using st dd by auto
    show "same_but_next_hash m m'" by (rule s(5))
    have "set us \<subseteq> set (concat (css[i := us @ vs]))"
      using nth_concat_subset [of i "css[i := us @ vs]"] i by simp
    then show "changes_only (set (concat (css[i := us @ vs]))) m m'" by (rule changes_only_mono [OF s(6)])
  qed
qed

text \<open>The two assignments that put the entry \<open>a\<close> in the place of the first entry of \<open>ws\<close>, if there is one.\<close>

lemma link_entry:
  assumes ok: "table_ok m T css" and a: "keyed m a" "a \<noteq> 0" "a \<notin> set (concat css)"
    and i: "bucket (ht_length T) (hash_at m a) = i" "i < length css" "css ! i = us @ ws" and nxt: "path (nh m) nxt (tl ws) 0"
  obtains m1 T' m' where "heap_update a (h_next_hash_update (\<lambda>_. nxt)) m = Some m1"
    "slot_set (slot_after (Bucket i) us) a T m1 = Some (T', m')"
    "buckets_ok m' (ht_length T') (ht_list T') (css[i := us @ a # tl ws])"
    "ht_length T' = ht_length T" "ht_elems T' = ht_elems T" "same_but_next_hash m m'" "changes_only (insert a (set us)) m m'"
proof -
  have b: "buckets_ok m (ht_length T) (ht_list T) css" and d: "distinct (concat css)" using ok by (simp_all add: table_ok_def)
  note sub = table_ok_dom [OF ok]
  from a(1) obtain h where h: "m a = Some h" by (auto simp: keyed_def)
  define m1 where "m1 = m(a \<mapsto> h\<lparr>h_next_hash := nxt\<rparr>)"
  have sn: "same_but_next_hash m m1" unfolding m1_def by (rule same_but_next_hash_update) (rule h)
  have nh: "nh m1 = (nh m)(a := nxt)" by (auto simp: m1_def nh_def)
  have b1: "buckets_ok m1 (ht_length T) (ht_list T) css"
    by (rule buckets_ok_heap [OF b sn _ sub]) (use a(3) nh in auto)
  have sub1: "set (concat css) \<subseteq> dom m1" using sub by (simp only: same_but_next_hash_dom [OF sn])
  have ai: "a \<notin> set (us @ ws)" using nth_concat_subset [OF i(2)] a(3) i(3) by auto
  then have at: "a \<notin> set (tl ws)" by (cases ws) auto
  have "path (nh m1) nxt (tl ws) 0 = path (nh m) nxt (tl ws) 0" by (rule path_cong) (use at nh in auto)
  with nxt a(2) have q: "path (nh m1) a (a # tl ws) 0" by (simp add: nh)
  have hb: "\<forall>y \<in> set (us @ ws). bucket (ht_length T) (hash_at m y) = i" using b i(2,3) by (auto simp: buckets_ok_def)
  have tl: "set (tl ws) \<subseteq> set ws" by (cases ws) auto
  have dc: "distinct (us @ ws)" using distinct_nth [OF d i(2)] i(3) by simp
  have dis: "set (a # tl ws) \<inter> set us = {}" "\<forall>y \<in> set (a # tl ws). bucket (ht_length T) (hash_at m1 y) = i"
    "set (a # tl ws) \<inter> set (concat css) \<subseteq> set ws"
    using ai dc tl a(3) hb i(1) by (auto simp del: set_concat simp: same_but_next_hash_at [OF sn])
  obtain T' m' where s: "slot_set (slot_after (Bucket i) us) a T m1 = Some (T', m')"
    "buckets_ok m' (ht_length T') (ht_list T') (css[i := us @ a # tl ws])" "ht_length T' = ht_length T" "ht_elems T' = ht_elems T"
    "same_but_next_hash m1 m'" "changes_only (set us) m1 m'"
    by (rule slot_set_after [OF b1 d sub1 i(2,3) q dis])
  have "changes_only (insert a (set us)) m m1" by (simp add: changes_only_def m1_def)
  moreover have "changes_only (insert a (set us)) m1 m'" by (rule changes_only_mono [OF s(6)]) auto
  ultimately have ch: "changes_only (insert a (set us)) m m'" by (rule changes_only_trans)
  have "heap_update a (h_next_hash_update (\<lambda>_. nxt)) m = Some m1" by (simp add: heap_update_def h m1_def)
  then show thesis by (rule that [OF _ s(1-4) same_but_next_hash_trans [OF sn s(5)] ch])
qed

text \<open>The entries of a table whose invariant is to be shown: the invariant up to the buckets.\<close>

lemma table_okI:
  assumes "buckets_ok m' (ht_length T') (ht_list T') css'" "same_but_next_hash m m'" "set (concat css') = S"
    "unat (ht_elems T') = length (concat css')" "distinct (concat css')"
    "\<forall>x \<in> S. keyed m x" "inj_on (\<lambda>a. (key_at m a, hash_at m a)) S"
  shows "table_ok m' T' css'"
  using assms(1,4-7) unfolding table_ok_def assms(3) same_but_next_hash_at [OF assms(2)] same_but_next_hash_keyed [OF assms(2)]
  by (simp only: simp_thms)

lemma insert_swap: "insert x A = insert a B \<Longrightarrow> x \<notin> A \<Longrightarrow> x \<noteq> a \<Longrightarrow> A = insert a (B - {x})"
  by (metis Diff_insert_absorb insert_Diff_if singletonD)

lemma HandleTable_Insert_absent:
  assumes ok: "table_ok m T css" and a: "keyed m a" "a \<noteq> 0" "a \<notin> set (concat css)" "length (concat css) < 2 ^ 31"
    and absent: "\<forall>b \<in> set (concat css). \<not> matches m (key_at m a) (hash_at m a) b"
    and F: "FindPointer T m (key_at m a) (hash_at m a) = Some (slot_after (Bucket i) (css ! i))"
      "slot_get T m (slot_after (Bucket i) (css ! i)) = Some 0"
    and i: "i < length css" "bucket (ht_length T) (hash_at m a) = i"
  obtains T' m' css' where "HandleTable_Insert a T m = Some (0, T', m')"
      "table_ok m' T' css'" "set (concat css') = insert a (set (concat css))"
      "same_but_next_hash m m'" "changes_only (set (concat css')) m m'"
proof -
  have d: "distinct (concat css)" and
    keyed: "\<forall>x \<in> set (concat css). keyed m x" and inj: "inj_on (\<lambda>a. (key_at m a, hash_at m a)) (set (concat css))" and
    len: "unat (ht_elems T) = length (concat css)"
    using ok by (simp_all add: table_ok_def)
  from a(1) obtain h where h: "m a = Some h" "h_next h \<noteq> a" by (auto simp: keyed_def nx_def)
  then have k: "LRUHandle_key m a = Some (key_at m a)" "h_hash h = hash_at m a"
    by (simp_all add: LRUHandle_key_def key_at_def hash_at_def)
  obtain m1 T2 m2 where s: "heap_update a (h_next_hash_update (\<lambda>_. 0)) m = Some m1"
    "slot_set (slot_after (Bucket i) (css ! i)) a T m1 = Some (T2, m2)"
    "buckets_ok m2 (ht_length T2) (ht_list T2) (css[i := css ! i @ [a]])" "ht_length T2 = ht_length T" "ht_elems T2 = ht_elems T"
    "same_but_next_hash m m2" "changes_only (insert a (set (css ! i))) m m2"
    by (rule link_entry [OF ok a(1-3) i(2,1), of "css ! i" "[]" 0]) simp_all
  define css2 where "css2 = css[i := css ! i @ [a]]"
  define T3 where "T3 = T2\<lparr>ht_elems := ht_elems T2 + 1\<rparr>"
  have ms: "mset (concat css2) = mset (a # concat css)"
    using mset_concat_update [OF i(1), of "css ! i @ [a]"] by (simp add: css2_def)
  have st: "set (concat css2) = insert a (set (concat css))" using mset_eq_setD [OF ms] by simp
  have ln: "length (concat css2) = Suc (length (concat css))" using mset_eq_length [OF ms] by simp
  have dd: "distinct (concat css2)" using mset_eq_imp_distinct_iff [OF ms] d a(3) by simp
  have ok3: "table_ok m2 T3 css2"
  proof (rule table_okI [OF _ s(6) st _ dd])
    show "buckets_ok m2 (ht_length T3) (ht_list T3) css2" using s(3,4) by (simp add: T3_def css2_def)
    have "unat (ht_elems T + 1) = length (concat css2)" using len ln a(4) by (subst unat_add_less) simp_all
    then show "unat (ht_elems T3) = length (concat css2)" by (simp add: T3_def s(5))
    show "\<forall>x \<in> insert a (set (concat css)). keyed m x" using keyed a(1) by simp
    have "(key_at m a, hash_at m a) \<noteq> (key_at m b, hash_at m b)" if "b \<in> set (concat css)" for b
      using bspec [OF absent that] matches_at [OF subsetD [OF table_ok_dom [OF ok] that]] by auto
    then show "inj_on (\<lambda>a. (key_at m a, hash_at m a)) (insert a (set (concat css)))"
      unfolding inj_on_insert using inj by blast
  qed
  have "insert a (set (css ! i)) \<subseteq> set (concat css2)" using nth_concat_subset [OF i(1)] st by auto
  then have ch: "changes_only (set (concat css2)) m m2" by (rule changes_only_mono [OF s(7)])
  have run: "HandleTable_Insert a T m =
      map_option (Pair 0) (if ht_elems T3 > ht_length T3 then Resize T3 m2 else Some (T3, m2))"
    using h(1) k F s(1,2) by (simp add: HandleTable_Insert_def T3_def map_option_case split: option.split)
  show thesis
  proof (cases "ht_elems T3 > ht_length T3")
    case False
    show thesis by (rule that [OF _ ok3 st s(6) ch]) (simp add: run False)
  next
    case True
    have p3: "list_all2 (\<lambda>h cs. path (nh m2) h cs 0) (ht_list T3) css2"
      using ok3 by (auto simp: table_ok_def buckets_ok_def list_all2_conv_all_nth)
    have u3: "unat (ht_elems T3) = length (concat css2)" "length (concat css2) \<le> 2 ^ 31"
      using ok3 ln a(4) by (simp_all add: table_ok_def)
    obtain T4 m4 css4 where r: "Resize T3 m2 = Some (T4, m4)" "buckets_ok m4 (ht_length T4) (ht_list T4) css4"
      "mset (concat css4) = mset (concat css2)" "ht_elems T4 = ht_elems T3" "same_but_next_hash m2 m4"
      "changes_only (set (concat css2)) m2 m4"
      by (rule Resize_ok [OF p3 dd table_ok_dom [OF ok3] u3])
    note set4 = mset_eq_setD [OF r(3)]
    show thesis
    proof (rule that [OF _ table_ok_heap [OF ok3 r(5) r(2-4)] _ same_but_next_hash_trans [OF s(6) r(5)]])
      show "HandleTable_Insert a T m = Some (0, T4, m4)" by (simp add: run True r(1))
      show "set (concat css4) = insert a (set (concat css))" by (simp only: set4 st)
      show "changes_only (set (concat css4)) m m4"
        unfolding set4 by (rule changes_only_trans [OF ch r(6)])
    qed
  qed
qed

lemma HandleTable_Insert_present:
  assumes ok: "table_ok m T css" and a: "keyed m a" "a \<noteq> 0" "a \<notin> set (concat css)"
    and present: "css ! i = us @ x # vs" "matches m (key_at m a) (hash_at m a) x"
      "FindPointer T m (key_at m a) (hash_at m a) = Some (slot_after (Bucket i) us)"
      "slot_get T m (slot_after (Bucket i) us) = Some x"
    and i: "i < length css" "bucket (ht_length T) (hash_at m a) = i"
  obtains T' m' css' where "HandleTable_Insert a T m = Some (x, T', m')"
      "table_ok m' T' css'" "set (concat css') = insert a (set (concat css) - {x})"
      "same_but_next_hash m m'" "changes_only (set (concat css')) m m'"
proof -
  have b: "buckets_ok m (ht_length T) (ht_list T) css" and d: "distinct (concat css)" and
    keyed: "\<forall>x \<in> set (concat css). keyed m x" and inj: "inj_on (\<lambda>a. (key_at m a, hash_at m a)) (set (concat css))" and
    len: "unat (ht_elems T) = length (concat css)"
    using ok by (simp_all add: table_ok_def)
  from a(1) obtain h where h: "m a = Some h" "h_next h \<noteq> a" by (auto simp: keyed_def nx_def)
  then have k: "LRUHandle_key m a = Some (key_at m a)" "h_hash h = hash_at m a"
    by (simp_all add: LRUHandle_key_def key_at_def hash_at_def)
  have x: "x \<in> set (concat css)" using nth_concat_subset [OF i(1)] present(1) by auto
  then have xa: "x \<noteq> a" "x \<in> dom m" using a(3) table_ok_dom [OF ok] by blast+
  then obtain e where hx: "m x = Some e" by blast
  have "path (nh m) (ht_list T ! i) (us @ x # vs) 0" using b i(1) present(1) by (auto simp: buckets_ok_def)
  then have q0: "path (nh m) (nh m x) vs 0" "x \<noteq> 0" by (auto simp: path_append)
  obtain m1 T2 m2 where s: "heap_update a (h_next_hash_update (\<lambda>_. nh m x)) m = Some m1"
    "slot_set (slot_after (Bucket i) us) a T m1 = Some (T2, m2)"
    "buckets_ok m2 (ht_length T2) (ht_list T2) (css[i := us @ a # vs])" "ht_length T2 = ht_length T" "ht_elems T2 = ht_elems T"
    "same_but_next_hash m m2" "changes_only (insert a (set us)) m m2"
    by (rule link_entry [OF ok a i(2,1) present(1), of "nh m x"]) (use q0 in simp_all)
  define css2 where "css2 = css[i := us @ a # vs]"
  have ms: "mset (x # concat css2) = mset (a # concat css)"
    using mset_concat_update [OF i(1), of "us @ a # vs"] present(1) by (simp add: css2_def)
  from mset_eq_imp_distinct_iff [OF ms] d a(3) have dd: "distinct (concat css2)" "x \<notin> set (concat css2)" by simp_all
  have "insert x (set (concat css2)) = insert a (set (concat css))" using mset_eq_setD [OF ms] by simp
  from insert_swap [OF this dd(2) xa(1)] have st: "set (concat css2) = insert a (set (concat css) - {x})" .
  have ln: "length (concat css2) = length (concat css)" using mset_eq_length [OF ms] by simp
  have same: "y = x" if y: "y \<in> set (concat css)" "(key_at m y, hash_at m y) = (key_at m a, hash_at m a)" for y
  proof -
    have "(key_at m x, hash_at m x) = (key_at m a, hash_at m a)" using present(2) matches_at [OF xa(2)] by simp
    with y(2) have "(key_at m y, hash_at m y) = (key_at m x, hash_at m x)" by simp
    from inj_onD [OF inj this y(1) x] show ?thesis .
  qed
  have ok2: "table_ok m2 T2 css2"
  proof (rule table_okI [OF _ s(6) st _ dd(1)])
    show "buckets_ok m2 (ht_length T2) (ht_list T2) css2" using s(3) by (simp add: css2_def)
    show "unat (ht_elems T2) = length (concat css2)" by (simp only: s(5) ln len)
    show "\<forall>y \<in> insert a (set (concat css) - {x}). keyed m y" using keyed a(1) by blast
    have "inj_on (\<lambda>a. (key_at m a, hash_at m a)) (set (concat css) - {x})" by (rule inj_on_subset [OF inj]) blast
    moreover have "(key_at m a, hash_at m a) \<notin> (\<lambda>a. (key_at m a, hash_at m a)) ` (set (concat css) - {x} - {a})"
      using same by (auto simp del: set_concat)
    ultimately show "inj_on (\<lambda>a. (key_at m a, hash_at m a)) (insert a (set (concat css) - {x}))"
      unfolding inj_on_insert by (rule conjI)
  qed
  have "set us \<subseteq> set (concat css2)" using nth_concat_subset [of i css2] i(1) by (simp add: css2_def)
  then have ch: "changes_only (set (concat css2)) m m2" by (intro changes_only_mono [OF s(7)]) (simp add: st del: set_concat)
  have "HandleTable_Insert a T m = Some (x, T2, m2)"
    using h(1) k present(3,4) s(1,2) q0(2) hx by (simp add: HandleTable_Insert_def nh_def)
  then show thesis by (rule that [OF _ ok2 st s(6) ch])
qed

lemma HandleTable_Insert_cases [consumes 5, case_names absent present]:
  assumes ok: "table_ok m T css" and a: "keyed m a" "a \<noteq> 0" "a \<notin> set (concat css)" "length (concat css) < 2 ^ 31"
  obtains T' m' css' where "\<forall>b \<in> set (concat css). \<not> matches m (key_at m a) (hash_at m a) b"
      "HandleTable_Insert a T m = Some (0, T', m')"
      "table_ok m' T' css'" "set (concat css') = insert a (set (concat css))"
      "same_but_next_hash m m'" "changes_only (set (concat css')) m m'"
    | b T' m' css' where "b \<in> set (concat css)" "matches m (key_at m a) (hash_at m a) b"
      "HandleTable_Insert a T m = Some (b, T', m')"
      "table_ok m' T' css'" "set (concat css') = insert a (set (concat css) - {b})"
      "same_but_next_hash m m'" "changes_only (set (concat css')) m m'"
  using ok
proof (cases rule: FindPointer_cases [where key = "key_at m a" and hash = "hash_at m a"])
  case absent
  obtain T' m' css' where "HandleTable_Insert a T m = Some (0, T', m')" "table_ok m' T' css'"
    "set (concat css') = insert a (set (concat css))" "same_but_next_hash m m'" "changes_only (set (concat css')) m m'"
    by (rule HandleTable_Insert_absent [OF ok a absent refl])
  then show thesis by (rule that(1) [OF absent(1)])
next
  case (present us x vs)
  have x: "x \<in> set (concat css)" using nth_concat_subset [OF present(5)] present(1) by auto
  obtain T' m' css' where "HandleTable_Insert a T m = Some (x, T', m')" "table_ok m' T' css'"
    "set (concat css') = insert a (set (concat css) - {x})" "same_but_next_hash m m'" "changes_only (set (concat css')) m m'"
    by (rule HandleTable_Insert_present [OF ok a(1-3) present refl])
  then show thesis by (rule that(2) [OF x present(2)])
qed

end
