(* ===== verification/LruShard.thy ===== *)
theory LruShard
  imports LruTable
begin

text \<open>
  The invariant of one shard of the cache of \<open>util/cache.cc\<close>, and what the operations of \<open>LRUCache\<close> do to it: which entries
  are cached, which of them clients hold, which are freed, and how the usage is accounted for.
\<close>

section \<open>More fields of the heap\<close>

definition charge_at :: "('d, 'v) cache_heap \<Rightarrow> nat \<Rightarrow> u64" where
  "charge_at m a = h_charge (the (m a))"

definition refs_at :: "('d, 'v) cache_heap \<Rightarrow> nat \<Rightarrow> u32" where
  "refs_at m a = h_refs (the (m a))"

definition in_cache_at :: "('d, 'v) cache_heap \<Rightarrow> nat \<Rightarrow> bool" where
  "in_cache_at m a = h_in_cache (the (m a))"

text \<open>What never changes while an entry lives.\<close>

definition payload :: "('d, 'v) lru_handle \<Rightarrow> 'v \<times> 'd \<times> u64 \<times> slice \<times> u32" where
  "payload h = (h_value h, h_deleter h, h_charge h, h_key h, h_hash h)"

definition payload_at :: "('d, 'v) cache_heap \<Rightarrow> nat \<Rightarrow> ('v \<times> 'd \<times> u64 \<times> slice \<times> u32) option" where
  "payload_at m a = map_option payload (m a)"

lemma links_at:
  assumes "same_but_links m m'"
  shows "dom m' = dom m" "nh m' = nh m" "hash_at m' = hash_at m" "key_at m' = key_at m" "charge_at m' = charge_at m"
    "refs_at m' = refs_at m" "in_cache_at m' = in_cache_at m" "payload_at m' = payload_at m"
proof -
  have "hash_at m' a = hash_at m a \<and> key_at m' a = key_at m a \<and> charge_at m' a = charge_at m a \<and> refs_at m' a = refs_at m a \<and>
      in_cache_at m' a = in_cache_at m a \<and> payload_at m' a = payload_at m a" for a
  proof (cases "m a")
    case (Some h)
    from assms Some obtain h' where "m' a = Some h'" "h_value h' = h_value h" "h_deleter h' = h_deleter h"
      "h_charge h' = h_charge h" "h_key h' = h_key h"
      "h_in_cache h' = h_in_cache h" "h_refs h' = h_refs h" "h_hash h' = h_hash h" by (rule same_but_linksD)
    with Some show ?thesis
      by (simp add: hash_at_def key_at_def charge_at_def refs_at_def in_cache_at_def payload_at_def payload_def)
  qed (use same_but_links_None [OF assms, of a] in
      \<open>simp add: hash_at_def key_at_def charge_at_def refs_at_def in_cache_at_def payload_at_def\<close>)
  then show "hash_at m' = hash_at m" "key_at m' = key_at m" "charge_at m' = charge_at m"
    "refs_at m' = refs_at m" "in_cache_at m' = in_cache_at m" "payload_at m' = payload_at m" by auto
  show "dom m' = dom m" "nh m' = nh m" using assms by (rule same_but_links_dom, rule same_but_links_nh)
qed

lemma next_hash_at:
  assumes "same_but_next_hash m m'"
  shows "dom m' = dom m" "nx m' = nx m" "pv m' = pv m" "hash_at m' = hash_at m" "key_at m' = key_at m" "charge_at m' = charge_at m"
    "refs_at m' = refs_at m" "in_cache_at m' = in_cache_at m" "payload_at m' = payload_at m"
proof -
  have "charge_at m' a = charge_at m a \<and> refs_at m' a = refs_at m a \<and>
      in_cache_at m' a = in_cache_at m a \<and> payload_at m' a = payload_at m a" for a
  proof (cases "m a")
    case (Some h)
    from assms Some obtain h' where "m' a = Some h'" "h_value h' = h_value h" "h_deleter h' = h_deleter h"
      "h_charge h' = h_charge h" "h_key h' = h_key h"
      "h_in_cache h' = h_in_cache h" "h_refs h' = h_refs h" "h_hash h' = h_hash h" by (rule same_but_next_hashD)
    with Some show ?thesis
      by (simp add: charge_at_def refs_at_def in_cache_at_def payload_at_def payload_def)
  qed (use same_but_next_hash_None [OF assms, of a] in
      \<open>simp add: charge_at_def refs_at_def in_cache_at_def payload_at_def\<close>)
  then show "charge_at m' = charge_at m"
    "refs_at m' = refs_at m" "in_cache_at m' = in_cache_at m" "payload_at m' = payload_at m" by auto
  show "dom m' = dom m" using assms by (rule same_but_next_hash_dom)
  show "nx m' = nx m" "pv m' = pv m" by (rule same_but_next_hash_links [OF assms])+
  show "hash_at m' = hash_at m" "key_at m' = key_at m" by (rule same_but_next_hash_at [OF assms])+
qed

text \<open>An assignment to \<open>refs\<close> or \<open>in_cache\<close>.\<close>

lemma refs_update_at:
  assumes "m a = Some h" "m' = m(a \<mapsto> h\<lparr>h_refs := r\<rparr>)"
  shows "dom m' = dom m" "nx m' = nx m" "pv m' = pv m" "nh m' = nh m" "hash_at m' = hash_at m" "key_at m' = key_at m"
    "charge_at m' = charge_at m" "refs_at m' = (refs_at m)(a := r)" "in_cache_at m' = in_cache_at m" "payload_at m' = payload_at m"
  using assms(1) unfolding assms(2)
  by (auto simp: fun_eq_iff nx_def pv_def nh_def hash_at_def key_at_def charge_at_def refs_at_def in_cache_at_def
      payload_at_def payload_def)

lemma in_cache_update_at:
  assumes "m a = Some h" "m' = m(a \<mapsto> h\<lparr>h_in_cache := b\<rparr>)"
  shows "dom m' = dom m" "nx m' = nx m" "pv m' = pv m" "nh m' = nh m" "hash_at m' = hash_at m" "key_at m' = key_at m"
    "charge_at m' = charge_at m" "refs_at m' = refs_at m" "in_cache_at m' = (in_cache_at m)(a := b)" "payload_at m' = payload_at m"
  using assms(1) unfolding assms(2)
  by (auto simp: fun_eq_iff nx_def pv_def nh_def hash_at_def key_at_def charge_at_def refs_at_def in_cache_at_def
      payload_at_def payload_def)

lemma table_ok_cong:
  assumes "table_ok m T css" "nh m' = nh m" "hash_at m' = hash_at m" "key_at m' = key_at m" "\<And>a. a \<in> set (concat css) \<Longrightarrow> keyed m' a"
  shows "table_ok m' T css"
  using assms unfolding table_ok_def buckets_ok_def by simp

text \<open>A freed entry that is not in the table does not matter to it.\<close>

lemma table_ok_outside:
  assumes "table_ok m T css" "\<And>a. a \<in> set (concat css) \<Longrightarrow> m' a = m a"
  shows "table_ok m' T css"
proof -
  have eq: "nh m' a = nh m a \<and> hash_at m' a = hash_at m a \<and> key_at m' a = key_at m a \<and> keyed m' a = keyed m a"
    if "a \<in> set (concat css)" for a
    using assms(2) [OF that] by (simp add: nh_def hash_at_def key_at_def keyed_def nx_def dom_def)
  have b: "buckets_ok m (ht_length T) (ht_list T) css" using assms(1) by (simp add: table_ok_def)
  have "path (nh m') (ht_list T ! i) (css ! i) 0 \<and> (\<forall>a \<in> set (css ! i). bucket (ht_length T) (hash_at m' a) = i)"
    if i: "i < length (ht_list T)" for i
  proof -
    have il: "i < length css" using b i by (simp add: buckets_ok_def)
    note sub = subsetD [OF nth_concat_subset [OF il]]
    have "path (nh m') (ht_list T ! i) (css ! i) 0 = path (nh m) (ht_list T ! i) (css ! i) 0"
      by (rule path_cong) (use eq sub in blast)
    moreover have "\<forall>a \<in> set (css ! i). hash_at m' a = hash_at m a" using eq sub by blast
    ultimately show ?thesis using b i by (simp add: buckets_ok_def)
  qed
  with b have b': "buckets_ok m' (ht_length T) (ht_list T) css" by (simp add: buckets_ok_def)
  have "inj_on (\<lambda>a. (key_at m' a, hash_at m' a)) (set (concat css)) = inj_on (\<lambda>a. (key_at m a, hash_at m a)) (set (concat css))"
    by (rule inj_on_cong) (use eq in blast)
  then show ?thesis using assms(1) b' eq by (simp add: table_ok_def del: set_concat)
qed

section \<open>The lists of a shard\<close>

text \<open>
  \<open>v_lru\<close> are the cached entries nobody holds, oldest first, \<open>v_used\<close> the cached entries clients hold, \<open>v_erased\<close> the
  entries clients still hold that are no longer cached.
\<close>

record view =
  v_lru :: "nat list"
  v_used :: "nat list"
  v_erased :: "nat set"

definition cached :: "view \<Rightarrow> nat set" where
  "cached V = set (v_lru V) \<union> set (v_used V)"

definition heads :: "lru_cache \<Rightarrow> nat set" where
  "heads c = {c_lru c, c_in_use c}"

definition footprint :: "lru_cache \<Rightarrow> view \<Rightarrow> nat set" where
  "footprint c V = heads c \<union> cached V \<union> v_erased V"

definition lists_ok :: "lru_cache \<Rightarrow> ('d, 'v) cache_heap \<Rightarrow> view \<Rightarrow> bool" where
  "lists_ok c m V \<longleftrightarrow>
     ring m (c_lru c) (v_lru V) \<and> ring m (c_in_use c) (v_used V) \<and>
     distinct (c_lru c # c_in_use c # v_lru V @ v_used V) \<and>
     v_erased V \<inter> (heads c \<union> cached V) = {} \<and> v_erased V \<subseteq> dom m \<and> 0 \<notin> cached V \<union> v_erased V"

definition drop_entry :: "nat \<Rightarrow> view \<Rightarrow> view" where
  "drop_entry a V = V\<lparr>v_lru := removeAll a (v_lru V), v_used := removeAll a (v_used V)\<rparr>"

lemma lists_ok_dom: "lists_ok c m V \<Longrightarrow> footprint c V \<subseteq> dom m"
  by (auto simp: lists_ok_def footprint_def cached_def heads_def ring_def)

lemma removeAll_mid: "distinct (xs @ a # ys) \<Longrightarrow> removeAll a (xs @ a # ys) = xs @ ys"
  by simp

lemma cached_drop_entry [simp]: "cached (drop_entry a V) = cached V - {a}"
  by (auto simp: cached_def drop_entry_def)

lemma drop_entry_simps [simp]:
  "v_lru (drop_entry a V) = removeAll a (v_lru V)" "v_used (drop_entry a V) = removeAll a (v_used V)"
  "v_erased (drop_entry a V) = v_erased V"
  by (simp_all add: drop_entry_def)

lemma LRU_Remove_ok:
  assumes ok: "lists_ok c m V" and a: "a \<in> cached V"
  obtains m' where "LRU_Remove a m = Some m'" "same_but_links m m'" "changes_only (heads c \<union> (cached V - {a})) m m'"
    "lists_ok c m' (drop_entry a V)"
proof -
  have rings: "ring m (c_lru c) (v_lru V)" "ring m (c_in_use c) (v_used V)" and d: "distinct (c_lru c # c_in_use c # v_lru V @ v_used V)"
    using ok by (simp_all add: lists_ok_def)
  consider (lru) xs ys where "v_lru V = xs @ a # ys" "a \<notin> set (v_used V)"
    | (used) xs ys where "v_used V = xs @ a # ys" "a \<notin> set (v_lru V)"
    using a d by (auto simp: cached_def in_set_conv_decomp)
  then show thesis
  proof cases
    case lru
    obtain m' where m': "LRU_Remove a m = Some m'" "same_but_links m m'" "changes_only (set (c_lru c # xs @ ys)) m m'"
      "ring m' (c_lru c) (xs @ ys)"
      "\<And>g zs. ring m g zs \<Longrightarrow> set (g # zs) \<inter> set (c_lru c # xs @ a # ys) = {} \<Longrightarrow> ring m' g zs"
      using LRU_Remove_ring [OF rings(1) [unfolded lru]] by blast
    have r2: "ring m' (c_in_use c) (v_used V)" by (rule m'(5) [OF rings(2)]) (use d lru in auto)
    have rm: "removeAll a (v_lru V) = xs @ ys" "removeAll a (v_used V) = v_used V" using d lru by auto
    show thesis
    proof (rule that [OF m'(1,2)])
      show "changes_only (heads c \<union> (cached V - {a})) m m'"
        by (rule changes_only_mono [OF m'(3)]) (use d lru in \<open>auto simp: heads_def cached_def\<close>)
      show "lists_ok c m' (drop_entry a V)"
        using ok m'(4) r2 rm d lru links_at(1) [OF m'(2)] by (auto simp: lists_ok_def)
    qed
  next
    case used
    obtain m' where m': "LRU_Remove a m = Some m'" "same_but_links m m'" "changes_only (set (c_in_use c # xs @ ys)) m m'"
      "ring m' (c_in_use c) (xs @ ys)"
      "\<And>g zs. ring m g zs \<Longrightarrow> set (g # zs) \<inter> set (c_in_use c # xs @ a # ys) = {} \<Longrightarrow> ring m' g zs"
      using LRU_Remove_ring [OF rings(2) [unfolded used]] by blast
    have r2: "ring m' (c_lru c) (v_lru V)" by (rule m'(5) [OF rings(1)]) (use d used in auto)
    have rm: "removeAll a (v_used V) = xs @ ys" "removeAll a (v_lru V) = v_lru V" using d used by auto
    show thesis
    proof (rule that [OF m'(1,2)])
      show "changes_only (heads c \<union> (cached V - {a})) m m'"
        by (rule changes_only_mono [OF m'(3)]) (use d used in \<open>auto simp: heads_def cached_def\<close>)
      show "lists_ok c m' (drop_entry a V)"
        using ok m'(4) r2 rm d used links_at(1) [OF m'(2)] by (auto simp: lists_ok_def)
    qed
  qed
qed

lemma LRU_Append_lru:
  assumes ok: "lists_ok c m V" and a: "a \<in> dom m" "a \<notin> footprint c V" "a \<noteq> 0"
  obtains m' where "LRU_Append (c_lru c) a m = Some m'" "same_but_links m m'" "changes_only (insert a (heads c \<union> cached V)) m m'"
    "lists_ok c m' (V\<lparr>v_lru := v_lru V @ [a]\<rparr>)"
proof -
  have rings: "ring m (c_lru c) (v_lru V)" "ring m (c_in_use c) (v_used V)" and d: "distinct (c_lru c # c_in_use c # v_lru V @ v_used V)"
    using ok by (simp_all add: lists_ok_def)
  obtain m' where m': "LRU_Append (c_lru c) a m = Some m'" "same_but_links m m'" "changes_only (set (c_lru c # a # v_lru V)) m m'"
    "ring m' (c_lru c) (v_lru V @ [a])"
    "\<And>g zs. ring m g zs \<Longrightarrow> set (g # zs) \<inter> set (c_lru c # a # v_lru V) = {} \<Longrightarrow> ring m' g zs"
    using LRU_Append_ring [OF rings(1) a(1)] a(2) by (auto simp: footprint_def heads_def cached_def)
  have r2: "ring m' (c_in_use c) (v_used V)"
    by (rule m'(5) [OF rings(2)]) (use d a(2) in \<open>auto simp: footprint_def heads_def cached_def\<close>)
  show thesis
  proof (rule that [OF m'(1,2)])
    show "changes_only (insert a (heads c \<union> cached V)) m m'"
      by (rule changes_only_mono [OF m'(3)]) (auto simp: heads_def cached_def)
    show "lists_ok c m' (V\<lparr>v_lru := v_lru V @ [a]\<rparr>)"
      using ok m'(4) r2 d a links_at(1) [OF m'(2)] by (auto simp: lists_ok_def footprint_def heads_def cached_def)
  qed
qed

lemma LRU_Append_used:
  assumes ok: "lists_ok c m V" and a: "a \<in> dom m" "a \<notin> footprint c V" "a \<noteq> 0"
  obtains m' where "LRU_Append (c_in_use c) a m = Some m'" "same_but_links m m'" "changes_only (insert a (heads c \<union> cached V)) m m'"
    "lists_ok c m' (V\<lparr>v_used := v_used V @ [a]\<rparr>)"
proof -
  have rings: "ring m (c_lru c) (v_lru V)" "ring m (c_in_use c) (v_used V)" and d: "distinct (c_lru c # c_in_use c # v_lru V @ v_used V)"
    using ok by (simp_all add: lists_ok_def)
  obtain m' where m': "LRU_Append (c_in_use c) a m = Some m'" "same_but_links m m'" "changes_only (set (c_in_use c # a # v_used V)) m m'"
    "ring m' (c_in_use c) (v_used V @ [a])"
    "\<And>g zs. ring m g zs \<Longrightarrow> set (g # zs) \<inter> set (c_in_use c # a # v_used V) = {} \<Longrightarrow> ring m' g zs"
    using LRU_Append_ring [OF rings(2) a(1)] a(2) by (auto simp: footprint_def heads_def cached_def)
  have r2: "ring m' (c_lru c) (v_lru V)"
    by (rule m'(5) [OF rings(1)]) (use d a(2) in \<open>auto simp: footprint_def heads_def cached_def\<close>)
  show thesis
  proof (rule that [OF m'(1,2)])
    show "changes_only (insert a (heads c \<union> cached V)) m m'"
      by (rule changes_only_mono [OF m'(3)]) (auto simp: heads_def cached_def)
    show "lists_ok c m' (V\<lparr>v_used := v_used V @ [a]\<rparr>)"
      using ok m'(4) r2 d a links_at(1) [OF m'(2)] by (auto simp: lists_ok_def footprint_def heads_def cached_def)
  qed
qed

text \<open>No entry of the lists is linked to itself, as \<open>key()\<close> asserts.\<close>

lemma lists_ok_next: "lists_ok c m V \<Longrightarrow> a \<in> cached V \<Longrightarrow> nx m a \<noteq> a"
  by (auto simp: lists_ok_def cached_def dest: ring_next(3))

section \<open>The invariant\<close>

definition counts_ok :: "(nat \<Rightarrow> nat) \<Rightarrow> ('d, 'v) cache_heap \<Rightarrow> view \<Rightarrow> bool" where
  "counts_ok held m V \<longleftrightarrow>
     (\<forall>a \<in> cached V. in_cache_at m a \<and> unat (refs_at m a) = held a + 1) \<and>
     (\<forall>a \<in> set (v_lru V). held a = 0) \<and> (\<forall>a \<in> set (v_used V). 0 < held a) \<and>
     (\<forall>a \<in> v_erased V. \<not> in_cache_at m a \<and> unat (refs_at m a) = held a \<and> 0 < held a \<and> nx m a \<noteq> a)"

text \<open>The table holds the entries of \<open>X\<close>.\<close>

definition table_holds :: "('d, 'v) cache_heap \<Rightarrow> handle_table \<Rightarrow> nat set \<Rightarrow> bool" where
  "table_holds m T X \<longleftrightarrow> (\<exists>css. table_ok m T css \<and> set (concat css) = X)"

definition shard_inv :: "(nat \<Rightarrow> nat) \<Rightarrow> lru_cache \<Rightarrow> ('d, 'v) cache_heap \<Rightarrow> view \<Rightarrow> nat set \<Rightarrow> bool" where
  "shard_inv held c m V X \<longleftrightarrow>
     lists_ok c m V \<and> counts_ok held m V \<and> table_holds m (c_table c) X \<and> c_usage c = (\<Sum>a \<in> cached V. charge_at m a)"

abbreviation shard_ok :: "(nat \<Rightarrow> nat) \<Rightarrow> lru_cache \<Rightarrow> ('d, 'v) cache_heap \<Rightarrow> view \<Rightarrow> bool" where
  "shard_ok held c m V \<equiv> shard_inv held c m V (cached V)"

definition deleter_call :: "('d, 'v) cache_heap \<Rightarrow> nat \<Rightarrow> 'd \<times> slice \<times> 'v" where
  "deleter_call m a = (h_deleter (the (m a)), h_key (the (m a)), h_value (the (m a)))"

text \<open>
  The entries in \<open>D\<close> are freed in this order, each after a call of its deleter; nothing else of what entries hold
  changes.
\<close>

definition frees :: "nat list \<Rightarrow> ('d, 'v) cache_mem \<Rightarrow> ('d, 'v) cache_mem \<Rightarrow> bool" where
  "frees D s s' \<longleftrightarrow>
     cm_deleted s' = cm_deleted s @ map (deleter_call (cm_heap s)) D \<and> distinct D \<and> set D \<subseteq> dom (cm_heap s) \<and>
     (\<forall>a. payload_at (cm_heap s') a = (if a \<in> set D then None else payload_at (cm_heap s) a))"

lemma payload_at_dom: "payload_at m a = None \<longleftrightarrow> a \<notin> dom m"
  by (auto simp: payload_at_def)

lemma frees_dom:
  assumes "frees D s s'"
  shows "dom (cm_heap s') = dom (cm_heap s) - set D"
proof (rule set_eqI)
  fix a
  have "payload_at (cm_heap s') a = (if a \<in> set D then None else payload_at (cm_heap s) a)"
    using assms by (simp add: frees_def)
  then show "a \<in> dom (cm_heap s') \<longleftrightarrow> a \<in> dom (cm_heap s) - set D"
    using payload_at_dom [of "cm_heap s" a] payload_at_dom [of "cm_heap s'" a] by (cases "a \<in> set D") auto
qed

lemma deleter_call_payload:
  assumes "payload_at m' a = payload_at m a" "a \<in> dom m"
  shows "deleter_call m' a = deleter_call m a"
proof -
  obtain h where h: "m a = Some h" using assms(2) by blast
  with assms(1) obtain h' where "m' a = Some h'" "payload h' = payload h" by (auto simp: payload_at_def)
  with h show ?thesis by (simp add: deleter_call_def payload_def)
qed

lemma frees_trans:
  assumes "frees D s s'" "frees E s' s''"
  shows "frees (D @ E) s s''"
proof -
  have E: "set E \<subseteq> dom (cm_heap s) - set D" using assms frees_dom [OF assms(1)] by (simp add: frees_def)
  have "deleter_call (cm_heap s') a = deleter_call (cm_heap s) a" if "a \<in> set E" for a
    by (rule deleter_call_payload) (use that E assms(1) in \<open>auto simp: frees_def\<close>)
  then have "map (deleter_call (cm_heap s')) E = map (deleter_call (cm_heap s)) E" by simp
  with assms E show ?thesis by (auto simp: frees_def)
qed

lemma frees_NilI: "payload_at (cm_heap s') = payload_at (cm_heap s) \<Longrightarrow> cm_deleted s' = cm_deleted s \<Longrightarrow> frees [] s s'"
  by (simp add: frees_def)

lemma table_holds_links:
  assumes "table_holds m T X" "same_but_links m m'" "\<And>a. a \<in> X \<Longrightarrow> nx m' a \<noteq> a"
  shows "table_holds m' T X"
proof -
  from assms(1) obtain css where css: "table_ok m T css" "set (concat css) = X" by (auto simp: table_holds_def)
  have "table_ok m' T css"
    by (rule table_ok_cong [OF css(1)])
      (use css(2) assms(3) table_ok_dom [OF css(1)] in \<open>auto simp: links_at [OF assms(2)] keyed_def simp del: set_concat\<close>)
  with css(2) show ?thesis by (auto simp: table_holds_def)
qed

lemma table_holds_same:
  assumes "table_holds m T X" "nh m' = nh m" "hash_at m' = hash_at m" "key_at m' = key_at m" "nx m' = nx m" "dom m' = dom m"
  shows "table_holds m' T X"
  using assms(1) unfolding table_holds_def table_ok_def buckets_ok_def keyed_def assms(2-6) .

lemma table_holds_outside:
  assumes "table_holds m T X" "\<And>a. a \<in> X \<Longrightarrow> m' a = m a"
  shows "table_holds m' T X"
  using assms table_ok_outside unfolding table_holds_def by metis

lemma lists_ok_same:
  assumes "lists_ok c m V" "nx m' = nx m" "pv m' = pv m" "dom m' = dom m"
  shows "lists_ok c m' V"
  using assms by (simp add: lists_ok_def ring_def)

section \<open>Taking and giving back references\<close>

lemma refs_one: "(r :: u32) = 1 \<longleftrightarrow> unat r = 1"
  by (simp add: word_unat_eq_iff)

lemma erased_unchanged:
  assumes "lists_ok c m V" "changes_only (heads c \<union> cached V) m m'" "a \<in> v_erased V"
  shows "m' a = m a"
proof -
  have "a \<notin> heads c \<union> cached V" using assms(1,3) by (auto simp: lists_ok_def)
  with assms(2) show ?thesis by (simp add: changes_only_def)
qed

lemma refs_step: "h_refs_update (\<lambda>r. r + 1) h = h\<lparr>h_refs := h_refs h + 1\<rparr>" "h_refs_update (\<lambda>r. r - 1) h = h\<lparr>h_refs := h_refs h - 1\<rparr>"
  by (cases h; simp)+

text \<open>An entry moves to the end of the other list.\<close>

definition to_used :: "nat \<Rightarrow> view \<Rightarrow> view" where
  "to_used a V = (drop_entry a V)\<lparr>v_used := v_used (drop_entry a V) @ [a]\<rparr>"

definition to_lru :: "nat \<Rightarrow> view \<Rightarrow> view" where
  "to_lru a V = (drop_entry a V)\<lparr>v_lru := v_lru (drop_entry a V) @ [a]\<rparr>"

lemma move_views:
  assumes "a \<in> cached V"
  shows "cached (to_used a V) = cached V" "cached (to_lru a V) = cached V"
    "v_erased (to_used a V) = v_erased V" "v_erased (to_lru a V) = v_erased V"
    "set (v_lru (to_used a V)) = set (v_lru V) - {a}" "set (v_used (to_used a V)) = insert a (set (v_used V))"
    "set (v_lru (to_lru a V)) = insert a (set (v_lru V))" "set (v_used (to_lru a V)) = set (v_used V) - {a}"
  using assms by (auto simp: to_used_def to_lru_def cached_def)

lemma move_ok:
  assumes ok: "lists_ok c m V" and a: "a \<in> cached V"
  obtains m1 m2 m3 where "LRU_Remove a m = Some m1" "LRU_Append (c_in_use c) a m1 = Some m2" "same_but_links m m2"
      "changes_only (heads c \<union> cached V) m m2" "lists_ok c m2 (to_used a V)"
      "LRU_Append (c_lru c) a m1 = Some m3" "same_but_links m m3"
      "changes_only (heads c \<union> cached V) m m3" "lists_ok c m3 (to_lru a V)"
proof -
  obtain m1 where m1: "LRU_Remove a m = Some m1" "same_but_links m m1" "changes_only (heads c \<union> (cached V - {a})) m m1"
    "lists_ok c m1 (drop_entry a V)" by (rule LRU_Remove_ok [OF ok a])
  have "a \<in> dom m" "a \<notin> v_erased V" "a \<noteq> 0" "a \<notin> heads c"
    using lists_ok_dom [OF ok] a ok by (auto simp: footprint_def lists_ok_def heads_def cached_def)
  then have adom: "a \<in> dom m1" "a \<notin> footprint c (drop_entry a V)" "a \<noteq> 0"
    by (simp_all add: footprint_def links_at(1) [OF m1(2)])
  have c1: "changes_only (heads c \<union> cached V) m m1" by (rule changes_only_mono [OF m1(3)]) auto
  have sub: "insert a (heads c \<union> cached (drop_entry a V)) \<subseteq> heads c \<union> cached V" using a by auto
  obtain m2 where m2: "LRU_Append (c_in_use c) a m1 = Some m2" "same_but_links m1 m2"
    "changes_only (insert a (heads c \<union> cached (drop_entry a V))) m1 m2" "lists_ok c m2 (to_used a V)"
    unfolding to_used_def by (rule LRU_Append_used [OF m1(4) adom])
  obtain m3 where m3: "LRU_Append (c_lru c) a m1 = Some m3" "same_but_links m1 m3"
    "changes_only (insert a (heads c \<union> cached (drop_entry a V))) m1 m3" "lists_ok c m3 (to_lru a V)"
    unfolding to_lru_def by (rule LRU_Append_lru [OF m1(4) adom])
  show thesis
    by (rule that [OF m1(1) m2(1) same_but_links_trans [OF m1(2) m2(2)] _ m2(4) m3(1) same_but_links_trans [OF m1(2) m3(2)] _ m3(4)])
      (rule changes_only_trans [OF c1 changes_only_mono [OF m2(3) sub]] changes_only_trans [OF c1 changes_only_mono [OF m3(3) sub]])+
qed

text \<open>
  The entry \<open>a\<close> gets the count \<open>r\<close>, and the lists may be relinked from \<open>V\<close> to \<open>V'\<close>: \<open>recounted\<close> relates the two heaps.
\<close>

definition recounted :: "nat \<Rightarrow> u32 \<Rightarrow> ('d, 'v) cache_heap \<Rightarrow> ('d, 'v) cache_heap \<Rightarrow> bool" where
  "recounted a r m m' \<longleftrightarrow> dom m' = dom m \<and> nh m' = nh m \<and> hash_at m' = hash_at m \<and> key_at m' = key_at m \<and>
     charge_at m' = charge_at m \<and> refs_at m' = (refs_at m)(a := r) \<and> in_cache_at m' = in_cache_at m \<and> payload_at m' = payload_at m"

lemma recounted_after:
  assumes "same_but_links m m1" "m1 a = Some h" "m2 = m1(a \<mapsto> h\<lparr>h_refs := r\<rparr>)"
  shows "recounted a r m m2" "nx m2 = nx m1" "pv m2 = pv m1" "dom m2 = dom m1"
  by (simp_all only: recounted_def refs_update_at [OF assms(2,3)] links_at [OF assms(1)])

lemma recounted_before:
  assumes "m a = Some h" "m1 = m(a \<mapsto> h\<lparr>h_refs := r\<rparr>)" "same_but_links m1 m2"
  shows "recounted a r m m2"
  by (simp_all only: recounted_def refs_update_at [OF assms(1,2)] links_at [OF assms(3)])

lemma recount:
  assumes ok: "shard_ok held c m V" and V: "cached V' = cached V" "v_erased V' = v_erased V"
    and m2: "recounted a r m m2" "lists_ok c m2 V'" "\<forall>x \<in> v_erased V. nx m2 x = nx m x"
    and a: "unat r = n + (if a \<in> cached V then 1 else 0)" "a \<in> v_erased V \<Longrightarrow> 0 < n"
    and held: "\<forall>x \<in> set (v_lru V'). (held(a := n)) x = 0" "\<forall>x \<in> set (v_used V'). 0 < (held(a := n)) x"
  shows "shard_ok (held(a := n)) c m2 V'"
proof -
  have inv: "lists_ok c m V" "counts_ok held m V" "table_holds m (c_table c) (cached V)"
    "c_usage c = (\<Sum>a \<in> cached V. charge_at m a)" using ok by (simp_all add: shard_inv_def)
  have at: "dom m2 = dom m" "nh m2 = nh m" "hash_at m2 = hash_at m" "key_at m2 = key_at m"
    "charge_at m2 = charge_at m" "refs_at m2 = (refs_at m)(a := r)" "in_cache_at m2 = in_cache_at m"
    using m2(1) by (simp_all add: recounted_def)
  have ne: "x \<notin> v_erased V" if "x \<in> cached V" for x using inv(1) that by (auto simp: lists_ok_def)
  have counts: "counts_ok (held(a := n)) m2 V'"
    unfolding counts_ok_def V at
  proof (intro conjI held)
    show "\<forall>x \<in> cached V. in_cache_at m x \<and> unat (((refs_at m)(a := r)) x) = (held(a := n)) x + 1"
      using inv(2) a(1) by (auto simp: counts_ok_def)
    show "\<forall>x \<in> v_erased V. \<not> in_cache_at m x \<and> unat (((refs_at m)(a := r)) x) = (held(a := n)) x \<and>
        0 < (held(a := n)) x \<and> nx m2 x \<noteq> x"
      using inv(2) a m2(3) ne by (auto simp: counts_ok_def)
  qed
  from inv(3) obtain css where css: "table_ok m (c_table c) css" "set (concat css) = cached V" by (auto simp: table_holds_def)
  have "table_ok m2 (c_table c) css"
    by (rule table_ok_cong [OF css(1) at(2-4)])
      (use css(2) lists_ok_next [OF m2(2)] table_ok_dom [OF css(1)] V(1) in \<open>auto simp: at(1) keyed_def simp del: set_concat\<close>)
  with css(2) have tab: "table_holds m2 (c_table c) (cached V')" by (auto simp: table_holds_def V(1))
  have "c_usage c = (\<Sum>x \<in> cached V'. charge_at m2 x)" using inv(4) by (simp add: V(1) at)
  with m2(2) counts tab show ?thesis by (simp add: shard_inv_def)
qed

lemma shard_ok_entry:
  assumes "shard_ok held c m V" "a \<in> cached V \<union> v_erased V"
  obtains h where "m a = Some h" "h_in_cache h \<longleftrightarrow> a \<in> cached V" "unat (h_refs h) = held a + (if a \<in> cached V then 1 else 0)"
    "a \<noteq> 0" "a \<notin> cached V \<or> a \<notin> v_erased V" "a \<in> set (v_lru V) \<longleftrightarrow> a \<in> cached V \<and> held a = 0"
    "a \<in> set (v_used V) \<longleftrightarrow> a \<in> cached V \<and> 0 < held a" "h_next h \<noteq> a"
proof -
  have inv: "lists_ok c m V" "counts_ok held m V" using assms(1) by (simp_all add: shard_inv_def)
  from assms(2) lists_ok_dom [OF inv(1)] obtain h where h: "m a = Some h" by (auto simp: footprint_def)
  have dis: "a \<notin> cached V \<or> a \<notin> v_erased V" using inv(1) by (auto simp: lists_ok_def)
  show thesis
  proof (rule that [OF h])
    show "h_in_cache h \<longleftrightarrow> a \<in> cached V" "unat (h_refs h) = held a + (if a \<in> cached V then 1 else 0)"
      using assms(2) inv(2) h by (auto simp: counts_ok_def in_cache_at_def refs_at_def)
    show "a \<noteq> 0" using inv(1) assms(2) by (auto simp: lists_ok_def)
    show "a \<in> set (v_lru V) \<longleftrightarrow> a \<in> cached V \<and> held a = 0" "a \<in> set (v_used V) \<longleftrightarrow> a \<in> cached V \<and> 0 < held a"
      using inv(2) by (auto simp: counts_ok_def cached_def)
    have "nx m a \<noteq> a" using assms(2) inv(2) lists_ok_next [OF inv(1)] by (auto simp: counts_ok_def)
    then show "h_next h \<noteq> a" by (simp add: nx_def h)
  qed (rule dis)
qed

lemma LRU_Ref_ok:
  assumes ok: "shard_ok held c (cm_heap s) V" and a: "a \<in> cached V" "held a + 2 < 2 ^ 32"
  obtains s' V' where "LRU_Ref c a s = Some s'" "shard_ok (held(a := held a + 1)) c (cm_heap s') V'"
    "cached V' = cached V" "v_erased V' = v_erased V" "set (v_lru V') \<subseteq> set (v_lru V)"
    "frees [] s s'" "changes_only (footprint c V) (cm_heap s) (cm_heap s')"
proof -
  let ?m = "cm_heap s"
  have lo: "lists_ok c ?m V" using ok by (simp add: shard_inv_def)
  obtain h where h: "?m a = Some h" "h_in_cache h" "unat (h_refs h) = held a + 1" "a \<notin> v_erased V"
    "a \<in> set (v_lru V) \<longleftrightarrow> held a = 0" "a \<in> set (v_used V) \<longleftrightarrow> 0 < held a"
    by (rule shard_ok_entry [OF ok, of a]) (use a in auto)
  have counts: "\<forall>x \<in> set (v_lru V). held x = 0" "\<forall>x \<in> set (v_used V). 0 < held x"
    using ok by (simp_all add: shard_inv_def counts_ok_def)
  define V1 where "V1 = (if held a = 0 then to_used a V else V)"
  have V1: "cached V1 = cached V" "v_erased V1 = v_erased V" "set (v_lru V1) \<subseteq> set (v_lru V) - {a}"
    "set (v_used V1) \<subseteq> insert a (set (v_used V))"
    using move_views [OF a(1)] h(5) by (auto simp: V1_def)
  obtain m1 where m1: "(if h_refs h = 1 \<and> h_in_cache h then Option.bind (LRU_Remove a ?m) (LRU_Append (c_in_use c) a) else Some ?m) = Some m1"
    "same_but_links ?m m1" "changes_only (heads c \<union> cached V) ?m m1" "lists_ok c m1 V1"
  proof (cases "held a = 0")
    case True
    from move_ok [OF lo a(1)] obtain n1 n2 where n: "LRU_Remove a ?m = Some n1" "LRU_Append (c_in_use c) a n1 = Some n2"
      "same_but_links ?m n2" "changes_only (heads c \<union> cached V) ?m n2" "lists_ok c n2 (to_used a V)" by metis
    show thesis by (rule that [OF _ n(3,4)]) (use n True h(2,3) in \<open>simp_all add: V1_def refs_one\<close>)
  next
    case False
    then show thesis by (intro that [of ?m]) (use lo h(3) in \<open>simp_all add: V1_def refs_one\<close>)
  qed
  from m1(2) h(1) obtain h1 where h1: "m1 a = Some h1" "h_refs h1 = h_refs h" by (rule same_but_linksD)
  define m2 where "m2 = m1(a \<mapsto> h1\<lparr>h_refs := h_refs h1 + 1\<rparr>)"
  have inc: "unat (h_refs h1 + 1) = held a + 1 + (if a \<in> cached V then 1 else 0)"
    unfolding h1(2) using h(3) a by (subst unat_add_less) simp_all
  have held: "\<forall>x \<in> set (v_lru V1). (held(a := held a + 1)) x = 0" "\<forall>x \<in> set (v_used V1). 0 < (held(a := held a + 1)) x"
    using counts V1(3,4) by auto
  note rc = recounted_after [OF m1(2) h1(1) m2_def]
  have er: "\<forall>x \<in> v_erased V. nx m2 x = nx ?m x"
    using erased_unchanged [OF lo m1(3)] by (simp add: rc(2)) (simp add: nx_def)
  have "shard_ok (held(a := held a + 1)) c m2 V1"
    by (rule recount [OF ok V1(1,2) rc(1) lists_ok_same [OF m1(4) rc(2-4)] er inc _ held]) simp
  moreover have "changes_only (footprint c V) ?m m2"
    using m1(3) a(1) by (auto simp: m2_def changes_only_def footprint_def)
  moreover have run: "LRU_Ref c a s = Some (s\<lparr>cm_heap := m2\<rparr>)"
    using h(1) m1(1) h1(1) by (simp add: LRU_Ref_def heap_update_def m2_def refs_step)
  ultimately show thesis
    by (intro that [OF run _ V1(1,2)]) (use V1(3) rc(1) in \<open>auto intro!: frees_NilI simp: recounted_def\<close>)
qed

text \<open>Freeing an entry that is in no list and not in the table.\<close>

lemma free_entry:
  assumes lists: "lists_ok c m V" "a \<notin> cached V" "a \<notin> heads c" and tab: "table_holds m (c_table c) X" "a \<notin> X"
    and counts: "counts_ok held m (V\<lparr>v_erased := v_erased V - {a}\<rparr>)" and same: "c_usage c = (\<Sum>x \<in> cached V. charge_at m x)"
  shows "shard_inv held c (m(a := None)) (V\<lparr>v_erased := v_erased V - {a}\<rparr>) X"
proof -
  let ?V = "V\<lparr>v_erased := v_erased V - {a}\<rparr>"
  have c: "cached ?V = cached V" by (simp add: cached_def)
  have ne: "x \<noteq> a" if "x \<in> footprint c ?V" for x
    using that lists(2,3) by (auto simp: footprint_def c)
  then have eq: "(m(a := None)) x = m x" if "x \<in> footprint c ?V" for x using that by simp
  have "ring (m(a := None)) (c_lru c) (v_lru V) = ring m (c_lru c) (v_lru V)"
    "ring (m(a := None)) (c_in_use c) (v_used V) = ring m (c_in_use c) (v_used V)"
    by (rule ring_cong, rule eq, force simp: footprint_def heads_def cached_def)+
  then have "lists_ok c (m(a := None)) ?V"
    using lists(1) by (auto simp: lists_ok_def c)
  moreover have "counts_ok held (m(a := None)) ?V"
  proof -
    have "in_cache_at (m(a := None)) x = in_cache_at m x \<and> refs_at (m(a := None)) x = refs_at m x \<and> nx (m(a := None)) x = nx m x"
      if "x \<in> footprint c ?V" for x using eq [OF that] by (simp add: in_cache_at_def refs_at_def nx_def)
    then show ?thesis using counts by (simp add: counts_ok_def footprint_def c)
  qed
  moreover have "table_holds (m(a := None)) (c_table c) X"
    by (rule table_holds_outside [OF tab(1)]) (use tab(2) in auto)
  moreover have "(\<Sum>x \<in> cached ?V. charge_at (m(a := None)) x) = (\<Sum>x \<in> cached ?V. charge_at m x)"
    by (rule sum.cong) (use lists(2) in \<open>auto simp: c charge_at_def\<close>)
  ultimately show ?thesis using same by (simp add: shard_inv_def c)
qed

text \<open>\<open>Release\<close>: a client gives back one of its references.\<close>

lemma LRU_Release_ok:
  assumes ok: "shard_ok held c (cm_heap s) V" and a: "a \<in> cached V \<union> v_erased V" "0 < held a"
  obtains s' V' D where "LRU_Release a c s = Some s'" "shard_ok (held(a := held a - 1)) c (cm_heap s') V'"
    "cached V' = cached V" "v_erased V' = v_erased V - set D" "D = (if a \<in> v_erased V \<and> held a = 1 then [a] else [])"
    "frees D s s'" "changes_only (footprint c V) (cm_heap s) (cm_heap s')" "set (v_lru V') \<subseteq> insert a (set (v_lru V))"
proof -
  let ?m = "cm_heap s"
  have inv: "lists_ok c ?m V" "counts_ok held ?m V" "table_holds ?m (c_table c) (cached V)"
    "c_usage c = (\<Sum>x \<in> cached V. charge_at ?m x)" using ok by (simp_all add: shard_inv_def)
  obtain h where h: "?m a = Some h" "h_in_cache h \<longleftrightarrow> a \<in> cached V" "unat (h_refs h) = held a + (if a \<in> cached V then 1 else 0)"
    "a \<noteq> 0" "a \<notin> cached V \<or> a \<notin> v_erased V" "a \<in> set (v_lru V) \<longleftrightarrow> a \<in> cached V \<and> held a = 0"
    "a \<in> set (v_used V) \<longleftrightarrow> a \<in> cached V \<and> 0 < held a" "h_next h \<noteq> a"
    by (rule shard_ok_entry [OF ok a(1)])
  have counts: "\<forall>x \<in> set (v_lru V). held x = 0" "\<forall>x \<in> set (v_used V). 0 < held x"
    using inv(2) by (simp_all add: counts_ok_def)
  have pos: "0 < h_refs h" using h(3) a(2) by (simp add: word_less_nat_alt)
  have dec: "unat (h_refs h - 1) = held a - 1 + (if a \<in> cached V then 1 else 0)"
    using h(3) a(2) by (subst unat_sub) (simp_all add: word_le_nat_alt)
  define m1 where "m1 = ?m(a \<mapsto> h\<lparr>h_refs := h_refs h - 1\<rparr>)"
  have at: "dom m1 = dom ?m" "nx m1 = nx ?m" "pv m1 = pv ?m" "nh m1 = nh ?m" "hash_at m1 = hash_at ?m" "key_at m1 = key_at ?m"
    "charge_at m1 = charge_at ?m" "refs_at m1 = (refs_at ?m)(a := h_refs h - 1)" "in_cache_at m1 = in_cache_at ?m"
    "payload_at m1 = payload_at ?m"
    by (rule refs_update_at [OF h(1) m1_def])+
  have upd: "heap_update a (h_refs_update (\<lambda>r. r - 1)) ?m = Some m1" "m1 a = Some (h\<lparr>h_refs := h_refs h - 1\<rparr>)"
    by (simp_all add: heap_update_def h(1) m1_def refs_step)
  have zero: "h_refs h - 1 = 0 \<longleftrightarrow> a \<in> v_erased V \<and> held a = 1"
    using dec a h(5) by (auto simp: word_unat_eq_iff)
  have one: "h_refs h - 1 = 1 \<and> h_in_cache h \<longleftrightarrow> a \<in> cached V \<and> held a = 1"
    using dec a(2) h(2) by (auto simp: refs_one)
  consider (free) "a \<in> v_erased V" "held a = 1" | (move) "a \<in> cached V" "held a = 1" | (stay) "held a > 1"
    using a by force
  then show thesis
  proof cases
    case free
    have nc: "a \<notin> cached V" "a \<notin> heads c" using free(1) h(5) inv(1) by (auto simp: lists_ok_def)
    have c1: "counts_ok (held(a := held a - 1)) m1 (V\<lparr>v_erased := v_erased V - {a}\<rparr>)"
      using inv(2) nc(1) by (auto simp: counts_ok_def at cached_def)
    have t1: "table_holds m1 (c_table c) (cached V)" by (rule table_holds_same [OF inv(3)]) (simp_all only: at)
    have "shard_ok (held(a := held a - 1)) c (m1(a := None)) (V\<lparr>v_erased := v_erased V - {a}\<rparr>)"
      using free_entry [OF lists_ok_same [OF inv(1) at(2,3,1)] nc t1 nc(1) c1] inv(4) by (simp add: at cached_def)
    moreover have "LRU_Release a c s =
        Some (s\<lparr>cm_heap := m1(a := None), cm_deleted := cm_deleted s @ [deleter_call ?m a]\<rparr>)"
      using h pos upd zero free nc(1) by (simp add: LRU_Release_def LRU_Unref_def LRUHandle_key_def deleter_call_def)
    moreover have "frees [a] s (s\<lparr>cm_heap := m1(a := None), cm_deleted := cm_deleted s @ [deleter_call ?m a]\<rparr>)"
      using h(1) at(10) by (auto simp: frees_def payload_at_def fun_eq_iff)
    moreover have "changes_only (footprint c V) ?m (m1(a := None))"
      using free(1) by (simp add: changes_only_def m1_def footprint_def)
    ultimately show thesis
      using free by (intro that [of "s\<lparr>cm_heap := m1(a := None), cm_deleted := cm_deleted s @ [deleter_call ?m a]\<rparr>"
            "V\<lparr>v_erased := v_erased V - {a}\<rparr>" "[a]"]) (simp_all add: cached_def subset_insertI)
  next
    case move
    obtain n1 n2 n3 where n: "LRU_Remove a m1 = Some n1" "LRU_Append (c_lru c) a n1 = Some n3" "same_but_links m1 n3"
      "changes_only (heads c \<union> cached V) m1 n3" "lists_ok c n3 (to_lru a V)"
      by (rule move_ok [OF lists_ok_same [OF inv(1) at(2,3,1)] move(1)])
    have er: "\<forall>x \<in> v_erased V. nx n3 x = nx ?m x"
      using erased_unchanged [OF lists_ok_same [OF inv(1) at(2,3,1)] n(4)] by (simp add: nx_def flip: at(2))
    have held: "\<forall>x \<in> set (v_lru (to_lru a V)). (held(a := held a - 1)) x = 0"
      "\<forall>x \<in> set (v_used (to_lru a V)). 0 < (held(a := held a - 1)) x"
      using counts move by (auto simp: move_views [OF move(1)])
    have "shard_ok (held(a := held a - 1)) c n3 (to_lru a V)"
      by (rule recount [OF ok move_views(2,4) [OF move(1)] recounted_before [OF h(1) m1_def n(3)] n(5) er dec _ held])
        (use h(5) move(1) in simp)
    moreover have run: "LRU_Release a c s = Some (s\<lparr>cm_heap := n3\<rparr>)"
      using h(1,2) pos upd n(1,2) zero one move h(5) by (auto simp: LRU_Release_def LRU_Unref_def)
    moreover have "changes_only (footprint c V) ?m n3"
      using n(4) move(1) by (auto simp: m1_def changes_only_def footprint_def)
    moreover have "payload_at n3 = payload_at ?m" by (simp only: links_at [OF n(3)] at)
    ultimately show thesis
      using h(5) move(1) by (intro that [OF run, of "to_lru a V" "[]"]) (auto intro: frees_NilI simp: move_views [OF move(1)])
  next
    case stay
    have held: "\<forall>x \<in> set (v_lru V). (held(a := held a - 1)) x = 0" "\<forall>x \<in> set (v_used V). 0 < (held(a := held a - 1)) x"
      using counts stay by auto
    have er: "a \<in> v_erased V \<Longrightarrow> 0 < held a - 1" using stay by simp
    have "shard_ok (held(a := held a - 1)) c m1 V"
      by (rule recount [OF ok refl refl recounted_before [OF h(1) m1_def same_but_links_refl] lists_ok_same [OF inv(1) at(2,3,1)] _ dec er held])
        (simp_all add: at(2))
    moreover have run: "LRU_Release a c s = Some (s\<lparr>cm_heap := m1\<rparr>)"
      using h(1,2) pos upd zero one stay by (auto simp: LRU_Release_def LRU_Unref_def)
    moreover have "changes_only (footprint c V) ?m m1" using a(1) by (auto simp: m1_def changes_only_def footprint_def)
    ultimately show thesis
      using stay by (intro that [OF run, of V "[]"]) (auto intro: frees_NilI simp: at)
  qed
qed

section \<open>Erasing\<close>

text \<open>
  \<open>FinishErase\<close> of an entry that is not in the table any more: it is freed when nobody holds it, otherwise it stays until the
  last client releases it.
\<close>

definition erased_view :: "(nat \<Rightarrow> nat) \<Rightarrow> nat \<Rightarrow> view \<Rightarrow> view" where
  "erased_view held a V =
     (drop_entry a V)\<lparr>v_erased := (if held a = 0 then v_erased V else insert a (v_erased V))\<rparr>"

lemma cached_erased_view [simp]: "cached (erased_view held a V) = cached V - {a}"
  by (auto simp: erased_view_def drop_entry_def cached_def)

lemma FinishErase_zero: "FinishErase 0 c s = Some (False, c, s)"
  by (simp add: FinishErase_def)

lemma lists_ok_insert_erased:
  "lists_ok c m V \<Longrightarrow> a \<notin> heads c \<union> cached V \<Longrightarrow> a \<in> dom m \<Longrightarrow> a \<noteq> 0 \<Longrightarrow> lists_ok c m (V\<lparr>v_erased := insert a (v_erased V)\<rparr>)"
  by (auto simp: lists_ok_def cached_def)

text \<open>The state when the reference of the cache is given back: \<open>a\<close> is unlinked, not cached any more, and has one reference less.\<close>

lemma unlink_entry:
  assumes ok: "shard_inv held c m V X" and a: "a \<in> cached V" "X = cached V - {a}"
  obtains h m1 m2 m3 V1 c1 where "m a = Some h" "h_in_cache h" "0 < h_refs h" "unat (h_refs h - 1) = held a"
    "h_next h \<noteq> a" "a \<notin> v_erased V" "a \<noteq> 0" "a \<notin> heads c"
    "V1 = (drop_entry a V)\<lparr>v_erased := insert a (v_erased V)\<rparr>" "c1 = c\<lparr>c_usage := c_usage c - charge_at m a\<rparr>"
    "LRU_Remove a m = Some m1" "heap_update a (h_in_cache_update (\<lambda>_. False)) m1 = Some m2" "m2 a = Some (h\<lparr>h_in_cache := False\<rparr>)"
    "heap_update a (h_refs_update (\<lambda>r. r - 1)) m2 = Some m3" "m3 a = Some (h\<lparr>h_in_cache := False, h_refs := h_refs h - 1\<rparr>)"
    "lists_ok c1 m3 V1" "table_holds m3 (c_table c1) (cached V - {a})" "c_usage c1 = (\<Sum>x \<in> cached V - {a}. charge_at m3 x)"
    "counts_ok held m3 (V1\<lparr>v_erased := v_erased V\<rparr>)" "0 < held a \<longrightarrow> counts_ok held m3 V1"
    "payload_at m3 = payload_at m" "changes_only (footprint c V) m m3"
proof -
  let ?m = m and ?V1 = "(drop_entry a V)\<lparr>v_erased := insert a (v_erased V)\<rparr>"
  have inv: "lists_ok c ?m V" "counts_ok held ?m V" "table_holds ?m (c_table c) X"
    "c_usage c = (\<Sum>x \<in> cached V. charge_at ?m x)" using ok by (simp_all add: shard_inv_def)
  have adom: "a \<in> dom ?m" "a \<notin> v_erased V" "a \<noteq> 0" "a \<notin> heads c"
    using lists_ok_dom [OF inv(1)] a(1) inv(1) by (auto simp: footprint_def lists_ok_def heads_def cached_def)
  then obtain h where h: "?m a = Some h" by blast
  have hc: "h_in_cache h" "unat (h_refs h) = held a + 1"
    using inv(2) a(1) h by (auto simp: counts_ok_def in_cache_at_def refs_at_def)
  obtain m1 where m1: "LRU_Remove a ?m = Some m1" "same_but_links ?m m1" "changes_only (heads c \<union> (cached V - {a})) ?m m1"
    "lists_ok c m1 (drop_entry a V)" by (rule LRU_Remove_ok [OF inv(1) a(1)])
  have m1a: "m1 a = Some h" using m1(3) adom(4) h by (simp add: changes_only_def)
  define m2 where "m2 = m1(a \<mapsto> h\<lparr>h_in_cache := False\<rparr>)"
  have at2: "dom m2 = dom m1" "nx m2 = nx m1" "pv m2 = pv m1" "nh m2 = nh m1" "hash_at m2 = hash_at m1" "key_at m2 = key_at m1"
    "charge_at m2 = charge_at m1" "refs_at m2 = refs_at m1" "in_cache_at m2 = (in_cache_at m1)(a := False)" "payload_at m2 = payload_at m1"
    by (rule in_cache_update_at [OF m1a m2_def])+
  define m3 where "m3 = m2(a \<mapsto> (h\<lparr>h_in_cache := False\<rparr>)\<lparr>h_refs := h_refs h - 1\<rparr>)"
  have m2a: "m2 a = Some (h\<lparr>h_in_cache := False\<rparr>)" by (simp add: m2_def)
  have at3: "dom m3 = dom m2" "nx m3 = nx m2" "pv m3 = pv m2" "nh m3 = nh m2" "hash_at m3 = hash_at m2" "key_at m3 = key_at m2"
    "charge_at m3 = charge_at m2" "refs_at m3 = (refs_at m2)(a := h_refs h - 1)" "in_cache_at m3 = in_cache_at m2" "payload_at m3 = payload_at m2"
    by (rule refs_update_at [OF m2a m3_def])+
  note at = at3 at2 links_at [OF m1(2)]
  have dec: "unat (h_refs h - 1) = held a" using hc(2) by (subst unat_sub) (simp_all add: word_le_nat_alt)
  have pos: "0 < h_refs h" using hc(2) by (simp add: word_less_nat_alt)
  have "x \<notin> heads c" "x \<notin> cached V - {a}" if "x \<in> insert a (v_erased V)" for x
    using that adom(4) inv(1) by (auto simp: lists_ok_def)
  then have er: "nx m1 x = nx ?m x" if "x \<in> insert a (v_erased V)" for x
    using m1(3) that by (simp add: changes_only_def nx_def)
  have an: "nx ?m a \<noteq> a" by (rule lists_ok_next [OF inv(1) a(1)])
  have c1: "cached ?V1 = cached V - {a}" by (auto simp: cached_def)
  have lists: "lists_ok c m3 ?V1"
    using lists_ok_insert_erased [OF lists_ok_same [OF m1(4), of m3], of a] adom at by simp
  have tab: "table_holds m3 (c_table c) X"
  proof -
    have "table_holds m1 (c_table c) X"
      by (rule table_holds_links [OF inv(3) m1(2)]) (use lists_ok_next [OF m1(4)] a(2) in simp)
    then show ?thesis by (rule table_holds_same) (simp_all only: at3 at2)
  qed
  have cn: "\<forall>x \<in> cached V - {a}. in_cache_at m3 x \<and> unat (refs_at m3 x) = held x + 1"
    "\<forall>x \<in> set (v_lru ?V1). held x = 0" "\<forall>x \<in> set (v_used ?V1). 0 < held x"
    "\<forall>x \<in> v_erased V. \<not> in_cache_at m3 x \<and> unat (refs_at m3 x) = held x \<and> 0 < held x \<and> nx m3 x \<noteq> x"
    "\<not> in_cache_at m3 a \<and> unat (refs_at m3 a) = held a \<and> nx m3 a \<noteq> a"
    using inv(2) adom(2) er dec an by (auto simp: counts_ok_def at)
  have usage: "c_usage c - charge_at ?m a = (\<Sum>x \<in> cached V - {a}. charge_at m3 x)"
    using inv(4) sum.remove [of "cached V" a "charge_at ?m"] a(1) by (simp add: at) (simp add: cached_def)
  let ?c = "c\<lparr>c_usage := c_usage c - charge_at ?m a\<rparr>"
  have lists': "lists_ok ?c m3 ?V1" using lists by (auto simp: lists_ok_def heads_def)
  have tab': "table_holds m3 (c_table ?c) (cached V - {a})" using tab a(2) by simp
  have ch: "changes_only (footprint c V) ?m m3"
    using m1(3) a(1) by (auto simp: m2_def m3_def changes_only_def footprint_def)
  have upd: "heap_update a (h_in_cache_update (\<lambda>_. False)) m1 = Some m2" "heap_update a (h_refs_update (\<lambda>r. r - 1)) m2 = Some m3"
    "m3 a = Some (h\<lparr>h_in_cache := False, h_refs := h_refs h - 1\<rparr>)"
    by (simp_all add: heap_update_def m1a m2_def m3_def refs_step)
  have pay: "payload_at m3 = payload_at ?m" by (simp only: at)
  have "counts_ok held m3 (?V1\<lparr>v_erased := v_erased V\<rparr>)" "0 < held a \<longrightarrow> counts_ok held m3 ?V1"
    using cn by (auto simp: counts_ok_def cached_def)
  moreover have "h_next h \<noteq> a" using an h by (simp add: nx_def)
  ultimately show thesis
    using h hc(1) pos dec adom(2-4) m1(1) upd m2a lists' tab' usage pay ch by (intro that [of h ?V1 ?c m1 m2 m3]) simp_all
qed

lemma FinishErase_ok:
  assumes ok: "shard_inv held c (cm_heap s) V X" and a: "a \<in> cached V" "X = cached V - {a}"
  obtains s' where "FinishErase a c s = Some (True, c\<lparr>c_usage := c_usage c - charge_at (cm_heap s) a\<rparr>, s')"
    "shard_ok held (c\<lparr>c_usage := c_usage c - charge_at (cm_heap s) a\<rparr>) (cm_heap s') (erased_view held a V)"
    "frees (if held a = 0 then [a] else []) s s'" "changes_only (footprint c V) (cm_heap s) (cm_heap s')"
proof -
  let ?m = "cm_heap s"
  obtain h m1 m2 m3 V1 c1 where h: "?m a = Some h" "h_in_cache h" "0 < h_refs h" "unat (h_refs h - 1) = held a"
      "h_next h \<noteq> a" and adom: "a \<notin> v_erased V" "a \<noteq> 0" "a \<notin> heads c"
    and V1: "V1 = (drop_entry a V)\<lparr>v_erased := insert a (v_erased V)\<rparr>" and c1: "c1 = c\<lparr>c_usage := c_usage c - charge_at ?m a\<rparr>"
    and run: "LRU_Remove a ?m = Some m1" "heap_update a (h_in_cache_update (\<lambda>_. False)) m1 = Some m2" "m2 a = Some (h\<lparr>h_in_cache := False\<rparr>)"
      "heap_update a (h_refs_update (\<lambda>r. r - 1)) m2 = Some m3" "m3 a = Some (h\<lparr>h_in_cache := False, h_refs := h_refs h - 1\<rparr>)"
    and inv: "lists_ok c1 m3 V1" "table_holds m3 (c_table c1) (cached V - {a})" "c_usage c1 = (\<Sum>x \<in> cached V - {a}. charge_at m3 x)"
      "counts_ok held m3 (V1\<lparr>v_erased := v_erased V\<rparr>)" "0 < held a \<longrightarrow> counts_ok held m3 V1"
    and pay: "payload_at m3 = payload_at ?m" and ch: "changes_only (footprint c V) ?m m3"
    by (rule unlink_entry [OF ok a])
  have cV1: "cached V1 = cached V - {a}" by (auto simp: V1 cached_def)
  have charge: "charge_at ?m a = h_charge h" by (simp add: charge_at_def h)
  show thesis
  proof (cases "held a = 0")
    case True
    let ?s = "s\<lparr>cm_heap := m3(a := None), cm_deleted := cm_deleted s @ [deleter_call ?m a]\<rparr>"
    have z: "h_refs h - 1 = 0" using h(4) True by (simp add: word_unat_eq_iff)
    have "v_erased V1 - {a} = v_erased V" using adom(1) by (simp add: V1)
    moreover have "a \<notin> cached V1" "a \<notin> heads c1" using adom(3) by (simp_all add: cV1) (simp add: c1 heads_def)
    ultimately have "shard_inv held c1 (m3(a := None)) (V1\<lparr>v_erased := v_erased V\<rparr>) (cached V - {a})"
      using free_entry [OF inv(1) _ _ inv(2), of a held] inv(3,4) by (simp add: cV1)
    moreover have "V1\<lparr>v_erased := v_erased V\<rparr> = erased_view held a V"
      using True by (simp add: erased_view_def drop_entry_def V1)
    moreover have "FinishErase a c s = Some (True, c1, ?s)"
      using h z run adom(2) charge by (simp add: FinishErase_def LRU_Unref_def LRUHandle_key_def deleter_call_def c1)
    moreover have "frees [a] s ?s"
      using h(1) pay by (auto simp: frees_def payload_at_def fun_eq_iff)
    moreover have "changes_only (footprint c V) ?m (m3(a := None))"
      using ch a(1) by (auto simp: changes_only_def footprint_def)
    ultimately show thesis
      using True by (intro that [of ?s]) (simp_all add: c1)
  next
    case False
    have z: "h_refs h - 1 \<noteq> 0" using h(4) False by (simp add: word_unat_eq_iff)
    have "shard_inv held c1 m3 V1 (cached V - {a})"
      using inv False by (simp add: shard_inv_def cV1)
    moreover have "V1 = erased_view held a V" using False by (simp add: erased_view_def V1)
    moreover have "FinishErase a c s = Some (True, c1, s\<lparr>cm_heap := m3\<rparr>)"
      using h z run adom(2) charge by (simp add: FinishErase_def LRU_Unref_def c1)
    ultimately show thesis
      using False ch pay by (intro that [of "s\<lparr>cm_heap := m3\<rparr>"]) (simp_all add: frees_NilI c1)
  qed
qed

end
