(* ===== verification/LruOps.thy ===== *)
theory LruOps
  imports LruShard
begin

text \<open>
  The operations of \<open>LRUCache\<close> in \<open>util/cache.cc\<close>, each with its effect on the entries that are cached and held.
\<close>

section \<open>Removal from the table\<close>

lemma heads_simps [simp]: "heads (c\<lparr>c_table := T\<rparr>) = heads c" "heads (c\<lparr>c_usage := u\<rparr>) = heads c" "heads (c\<lparr>c_capacity := u\<rparr>) = heads c"
  by (simp_all add: heads_def)

lemma lists_ok_cong: "c_lru c' = c_lru c \<Longrightarrow> c_in_use c' = c_in_use c \<Longrightarrow> lists_ok c' m V = lists_ok c m V"
  by (simp add: lists_ok_def heads_def)

lemma counts_ok_same:
  assumes "counts_ok held m V" "nx m' = nx m" "refs_at m' = refs_at m" "in_cache_at m' = in_cache_at m"
  shows "counts_ok held m' V"
  using assms by (simp add: counts_ok_def)

lemma shard_inv_table:
  assumes "shard_inv held c m V X" "same_but_next_hash m m'" "table_holds m' T Y"
  shows "shard_inv held (c\<lparr>c_table := T\<rparr>) m' V Y"
  using assms next_hash_at [OF assms(2)]
  by (simp add: shard_inv_def lists_ok_cong [of "c\<lparr>c_table := T\<rparr>" c] lists_ok_same [of c m V m'] counts_ok_same [of held m V m'])

lemma lookup_table_cases [consumes 1, case_names absent present]:
  assumes "table_holds m T X"
  obtains "\<forall>a \<in> X. \<not> matches m key hash a" "HandleTable_Lookup T m key hash = Some 0"
    | a where "a \<in> X" "matches m key hash a" "HandleTable_Lookup T m key hash = Some a"
proof -
  from assms obtain css where css: "table_ok m T css" "set (concat css) = X" by (auto simp: table_holds_def)
  from css(1) show thesis
    by (cases rule: HandleTable_Lookup_cases [where key = key and hash = hash]) (use css(2) that in \<open>auto simp del: set_concat\<close>)
qed

text \<open>An entry of the table is the only one with its key.\<close>

lemma table_unique:
  assumes "table_holds m T X" "a \<in> X" "b \<in> X" "matches m key hash a" "matches m key hash b"
  shows "a = b"
proof -
  from assms(1) obtain css where css: "table_ok m T css" "set (concat css) = X" by (auto simp: table_holds_def)
  then have "inj_on (\<lambda>a. (key_at m a, hash_at m a)) X" by (auto simp: table_ok_def simp del: set_concat)
  moreover have "(key_at m a, hash_at m a) = (key_at m b, hash_at m b)"
    using assms(4,5) by (auto simp: matches_def key_at_def hash_at_def)
  ultimately show ?thesis using assms(2,3) by (auto dest: inj_onD)
qed

lemma remove_cases [consumes 1, case_names absent present]:
  assumes ok: "shard_ok held c m V"
  obtains "\<forall>a \<in> cached V. \<not> matches m key hash a" "HandleTable_Remove key hash (c_table c) m = Some (0, c_table c, m)"
    | a T' m' where "a \<in> cached V" "matches m key hash a" "HandleTable_Remove key hash (c_table c) m = Some (a, T', m')"
        "shard_inv held (c\<lparr>c_table := T'\<rparr>) m' V (cached V - {a})" "same_but_next_hash m m'" "changes_only (footprint c V) m m'"
proof -
  from ok obtain css where css: "table_ok m (c_table c) css" "set (concat css) = cached V"
    by (auto simp: shard_inv_def table_holds_def)
  from css(1) show thesis
  proof (cases rule: HandleTable_Remove_cases [where key = key and hash = hash])
    case absent
    then show thesis using that(1) css(2) by (simp del: set_concat)
  next
    case (present a T' m' css')
    have "table_holds m' T' (cached V - {a})" using present(4,5) css(2) by (auto simp: table_holds_def)
    from shard_inv_table [OF ok present(6) this]
    have "shard_inv held (c\<lparr>c_table := T'\<rparr>) m' V (cached V - {a})" .
    moreover have "changes_only (footprint c V) m m'"
      by (rule changes_only_mono [OF present(7)]) (use present(5) css(2) in \<open>auto simp: footprint_def\<close>)
    moreover have "a \<in> cached V" using present(1) css(2) by (simp del: set_concat)
    ultimately show thesis using that(2) present(2,3,6) by blast
  qed
qed

section \<open>Operations that only let entries go\<close>

text \<open>Some entries leave the cache; those in \<open>D\<close>, which nobody holds, are freed.\<close>

definition leaves ::
  "(nat \<Rightarrow> nat) \<Rightarrow> nat list \<Rightarrow> lru_cache \<times> ('d, 'v) cache_mem \<times> view \<Rightarrow> lru_cache \<times> ('d, 'v) cache_mem \<times> view \<Rightarrow> bool" where
  "leaves held D = (\<lambda>(c, s, V) (c', s', V').
     shard_ok held c' (cm_heap s') V' \<and> c_capacity c' = c_capacity c \<and> c_lru c' = c_lru c \<and> c_in_use c' = c_in_use c \<and>
     cached V' \<subseteq> cached V \<and> set (v_lru V') \<subseteq> set (v_lru V) \<and> cached V' \<union> v_erased V' = (cached V \<union> v_erased V) - set D \<and>
     frees D s s' \<and> changes_only (footprint c V) (cm_heap s) (cm_heap s') \<and> (\<forall>a \<in> set D. held a = 0))"

lemma leaves_refl: "shard_ok held c (cm_heap s) V \<Longrightarrow> leaves held [] (c, s, V) (c, s, V)"
  by (simp add: leaves_def frees_NilI)

lemma footprint_cong: "c_lru c' = c_lru c \<Longrightarrow> c_in_use c' = c_in_use c \<Longrightarrow> footprint c' V = footprint c V"
  by (simp add: footprint_def heads_def)

lemma leaves_footprint: "leaves held D (c, s, V) (c', s', V') \<Longrightarrow> footprint c' V' \<subseteq> footprint c V"
  by (auto simp: leaves_def footprint_def heads_def)

lemma leaves_trans:
  assumes "leaves held D (c, s, V) (c', s', V')" "leaves held E (c', s', V') (c'', s'', V'')"
  shows "leaves held (D @ E) (c, s, V) (c'', s'', V'')"
proof -
  have "frees (D @ E) s s''" by (rule frees_trans) (use assms in \<open>auto simp: leaves_def\<close>)
  moreover have "changes_only (footprint c V) (cm_heap s) (cm_heap s'')"
    by (rule changes_only_trans [OF _ changes_only_mono [OF _ leaves_footprint [OF assms(1)]]])
      (use assms in \<open>auto simp: leaves_def\<close>)
  moreover have "cached V'' \<union> v_erased V'' = (cached V \<union> v_erased V) - set (D @ E)"
    using assms by (auto simp: leaves_def)
  ultimately show ?thesis using assms unfolding leaves_def by auto
qed

lemma frees_next_hash:
  assumes "same_but_next_hash (cm_heap s) m'" "frees D (s\<lparr>cm_heap := m'\<rparr>) s'"
  shows "frees D s s'"
proof -
  have "deleter_call m' a = deleter_call (cm_heap s) a" if "a \<in> dom (cm_heap s)" for a
    by (rule deleter_call_payload) (use that next_hash_at(9) [OF assms(1)] in simp_all)
  then show ?thesis
    using assms(2) next_hash_at(1,9) [OF assms(1)] by (auto simp: frees_def subset_iff)
qed

lemma finish_removed:
  assumes inv: "shard_inv held (c\<lparr>c_table := T'\<rparr>) m' V (cached V - {a})" and a: "a \<in> cached V"
    and m': "same_but_next_hash (cm_heap s) m'" "changes_only (footprint c V) (cm_heap s) m'"
  obtains c' s' where "FinishErase a (c\<lparr>c_table := T'\<rparr>) (s\<lparr>cm_heap := m'\<rparr>) = Some (True, c', s')"
    "leaves held (if held a = 0 then [a] else []) (c, s, V) (c', s', erased_view held a V)"
proof -
  have inv': "shard_inv held (c\<lparr>c_table := T'\<rparr>) (cm_heap (s\<lparr>cm_heap := m'\<rparr>)) V (cached V - {a})" using inv by simp
  obtain s' where s': "FinishErase a (c\<lparr>c_table := T'\<rparr>) (s\<lparr>cm_heap := m'\<rparr>) =
      Some (True, c\<lparr>c_table := T', c_usage := c_usage c - charge_at m' a\<rparr>, s')"
    "shard_ok held (c\<lparr>c_table := T', c_usage := c_usage c - charge_at m' a\<rparr>) (cm_heap s') (erased_view held a V)"
    "frees (if held a = 0 then [a] else []) (s\<lparr>cm_heap := m'\<rparr>) s'" "changes_only (footprint c V) m' (cm_heap s')"
    by (rule FinishErase_ok [OF inv' a refl]) (simp add: footprint_cong [of "c\<lparr>c_table := T'\<rparr>" c])
  have e: "cached (erased_view held a V) \<union> v_erased (erased_view held a V) =
      (cached V \<union> v_erased V) - set (if held a = 0 then [a] else [])"
  proof -
    have "a \<notin> v_erased V" using inv a by (auto simp: shard_inv_def lists_ok_def)
    with a show ?thesis unfolding cached_erased_view by (auto simp: erased_view_def)
  qed
  have "leaves held (if held a = 0 then [a] else []) (c, s, V)
      (c\<lparr>c_table := T', c_usage := c_usage c - charge_at m' a\<rparr>, s', erased_view held a V)"
    using s'(2) frees_next_hash [OF m'(1) s'(3)] changes_only_trans [OF m'(2) s'(4)] e
    unfolding leaves_def prod.case cached_erased_view by (auto simp: erased_view_def)
  with s'(1) show thesis by (rule that)
qed

lemma LRU_Erase_cases [consumes 1, case_names absent present]:
  assumes ok: "shard_ok held c (cm_heap s) V"
  obtains "\<forall>a \<in> cached V. \<not> matches (cm_heap s) key hash a" "LRU_Erase key hash c s = Some (c, s)"
    | a c' s' where "a \<in> cached V" "matches (cm_heap s) key hash a" "LRU_Erase key hash c s = Some (c', s')"
      "leaves held (if held a = 0 then [a] else []) (c, s, V) (c', s', erased_view held a V)"
  using ok
proof (cases rule: remove_cases [where key = key and hash = hash])
  case absent
  then show thesis by (intro that(1)) (simp_all add: LRU_Erase_def FinishErase_zero)
next
  case (present a T' m')
  obtain c' s' where f: "FinishErase a (c\<lparr>c_table := T'\<rparr>) (s\<lparr>cm_heap := m'\<rparr>) = Some (True, c', s')"
    "leaves held (if held a = 0 then [a] else []) (c, s, V) (c', s', erased_view held a V)"
    by (rule finish_removed [OF present(4,1,5,6)])
  have "LRU_Erase key hash c s = Some (c', s')" using present(3) f(1) by (simp add: LRU_Erase_def)
  then show thesis by (rule that(2) [OF present(1,2) _ f(2)])
qed

text \<open>The oldest entry that nobody holds.\<close>

lemma erase_oldest_ok:
  assumes ok: "shard_ok held c (cm_heap s) V" and v: "v_lru V = a # rest"
  obtains c' s' where "erase_oldest c s = Some (c', s')" "leaves held [a] (c, s, V) (c', s', V\<lparr>v_lru := rest\<rparr>)"
proof -
  have inv: "lists_ok c (cm_heap s) V" "counts_ok held (cm_heap s) V" using ok by (simp_all add: shard_inv_def)
  have a: "a \<in> cached V" "held a = 0" using v inv(2) by (auto simp: cached_def counts_ok_def)
  obtain h where h: "cm_heap s a = Some h" "unat (h_refs h) = held a + (if a \<in> cached V then 1 else 0)" "h_next h \<noteq> a"
    "a \<notin> cached V \<or> a \<notin> v_erased V"
    by (rule shard_ok_entry [OF ok, of a]) (use a(1) in auto)
  have "c_lru c \<in> dom (cm_heap s)" "nx (cm_heap s) (c_lru c) = a"
    using inv(1) v ring_hd [of "cm_heap s" "c_lru c" "v_lru V"] by (auto simp: lists_ok_def ring_def)
  then obtain hd where hd: "cm_heap s (c_lru c) = Some hd" "h_next hd = a" by (auto simp: nx_def)
  have m: "matches (cm_heap s) (h_key h) (h_hash h) a" by (simp add: matches_def h)
  have ev: "erased_view held a V = V\<lparr>v_lru := rest\<rparr>"
    using inv(1) v a(2) by (auto simp: lists_ok_def erased_view_def drop_entry_def)
  from ok show thesis
  proof (cases rule: remove_cases [where key = "h_key h" and hash = "h_hash h"])
    case absent
    with a(1) m show thesis by blast
  next
    case (present b T' m')
    have "b = a" using ok table_unique present(1,2) a(1) m by (auto simp: shard_inv_def)
    note p = present [unfolded this]
    obtain c' s' where f: "FinishErase a (c\<lparr>c_table := T'\<rparr>) (s\<lparr>cm_heap := m'\<rparr>) = Some (True, c', s')"
      "leaves held (if held a = 0 then [a] else []) (c, s, V) (c', s', erased_view held a V)"
      by (rule finish_removed [OF p(4,1,5,6)])
    have "erase_oldest c s = Some (c', s')"
      using hd h a p(3) f(1) by (simp add: erase_oldest_def refs_one LRUHandle_key_def)
    then show thesis using f(2) a(2) ev by (intro that) simp_all
  qed
qed

lemma lru_nonempty_ok: "shard_ok held c (cm_heap s) V \<Longrightarrow> lru_nonempty c s = Some (v_lru V \<noteq> [])"
proof -
  assume "shard_ok held c (cm_heap s) V"
  then have r: "ring (cm_heap s) (c_lru c) (v_lru V)" by (simp add: shard_inv_def lists_ok_def)
  then obtain hd where "cm_heap s (c_lru c) = Some hd" by (auto simp: ring_def)
  with r ring_hd [OF r] show ?thesis by (auto simp: lru_nonempty_def nx_def ring_def neq_Nil_conv)
qed

lemma evict_loop_ok:
  assumes "shard_ok held c (cm_heap s) V"
  shows "\<exists>c' s' k. evict_loop c s = Some (c', s') \<and>
    leaves held (take k (v_lru V)) (c, s, V) (c', s', V\<lparr>v_lru := drop k (v_lru V)\<rparr>) \<and>
    (c_usage c' \<le> c_capacity c' \<or> drop k (v_lru V) = [])"
  using assms
proof (induction "v_lru V" arbitrary: c s V)
  case Nil
  note v = Nil.hyps [symmetric]
  then have e: "V\<lparr>v_lru := []\<rparr> = V" by (cases V) simp
  have "leaves held [] (c, s, V) (c, s, V\<lparr>v_lru := []\<rparr>)" unfolding e by (rule leaves_refl [OF Nil.prems])
  with v Nil.prems show ?case
    by (subst evict_loop.simps) (auto simp: lru_nonempty_ok intro!: exI [of _ 0])
next
  case (Cons a rest)
  show ?case
  proof (cases "c_usage c > c_capacity c")
    case True
    note v = Cons.hyps(2) [symmetric]
    obtain c1 s1 where e: "erase_oldest c s = Some (c1, s1)" "leaves held [a] (c, s, V) (c1, s1, V\<lparr>v_lru := rest\<rparr>)"
      by (rule erase_oldest_ok [OF Cons.prems v])
    have ok1: "shard_ok held c1 (cm_heap s1) (V\<lparr>v_lru := rest\<rparr>)" using e(2) by (simp add: leaves_def)
    from Cons.hyps(1) [OF _ ok1] obtain c2 s2 k where r: "evict_loop c1 s1 = Some (c2, s2)"
      "leaves held (take k rest) (c1, s1, V\<lparr>v_lru := rest\<rparr>) (c2, s2, V\<lparr>v_lru := drop k rest\<rparr>)"
      "c_usage c2 \<le> c_capacity c2 \<or> drop k rest = []" by auto
    have "evict_loop c s = Some (c2, s2)"
      using True e(1) r(1) v by (subst evict_loop.simps) (simp add: lru_nonempty_ok [OF Cons.prems])
    moreover have "leaves held (a # take k rest) (c, s, V) (c2, s2, V\<lparr>v_lru := drop k rest\<rparr>)"
      using leaves_trans [OF e(2) r(2)] by simp
    ultimately show ?thesis using r(3) v by (intro exI [of _ c2] exI [of _ s2] exI [of _ "Suc k"]) simp
  next
    case False
    then show ?thesis
      using Cons.prems by (subst evict_loop.simps) (auto intro!: exI [of _ 0] leaves_refl)
  qed
qed

lemma LRU_Prune_ok:
  assumes "shard_ok held c (cm_heap s) V"
  shows "\<exists>c' s'. LRU_Prune c s = Some (c', s') \<and> leaves held (v_lru V) (c, s, V) (c', s', V\<lparr>v_lru := []\<rparr>)"
  using assms
proof (induction "v_lru V" arbitrary: c s V)
  case Nil
  note v = Nil.hyps [symmetric]
  then have e: "V\<lparr>v_lru := []\<rparr> = V" by (cases V) simp
  have "leaves held [] (c, s, V) (c, s, V\<lparr>v_lru := []\<rparr>)" unfolding e by (rule leaves_refl [OF Nil.prems])
  with v Nil.prems show ?case
    by (subst LRU_Prune.simps) (auto simp: lru_nonempty_ok)
next
  case (Cons a rest)
  note v = Cons.hyps(2) [symmetric]
  obtain c1 s1 where e: "erase_oldest c s = Some (c1, s1)" "leaves held [a] (c, s, V) (c1, s1, V\<lparr>v_lru := rest\<rparr>)"
    by (rule erase_oldest_ok [OF Cons.prems v])
  have ok1: "shard_ok held c1 (cm_heap s1) (V\<lparr>v_lru := rest\<rparr>)" using e(2) by (simp add: leaves_def)
  from Cons.hyps(1) [OF _ ok1] obtain c2 s2 where r: "LRU_Prune c1 s1 = Some (c2, s2)"
    "leaves held rest (c1, s1, V\<lparr>v_lru := rest\<rparr>) (c2, s2, V\<lparr>v_lru := []\<rparr>)" by auto
  have "LRU_Prune c s = Some (c2, s2)"
    using e(1) r(1) v by (subst LRU_Prune.simps) (simp add: lru_nonempty_ok [OF Cons.prems])
  moreover have "leaves held (a # rest) (c, s, V) (c2, s2, V\<lparr>v_lru := []\<rparr>)"
    using leaves_trans [OF e(2) r(2)] by simp
  ultimately show ?case using v by (intro exI [of _ c2] exI [of _ s2]) simp
qed

section \<open>Lookup\<close>

lemma LRU_Lookup_cases [consumes 2, case_names absent present]:
  assumes ok: "shard_ok held c (cm_heap s) V" and few: "\<forall>a \<in> cached V. held a + 2 < 2 ^ 32"
  obtains "\<forall>a \<in> cached V. \<not> matches (cm_heap s) key hash a" "LRU_Lookup key hash c s = Some (0, s)"
    | a s' V' where "a \<in> cached V" "a \<noteq> 0" "matches (cm_heap s) key hash a" "LRU_Lookup key hash c s = Some (a, s')"
      "shard_ok (held(a := held a + 1)) c (cm_heap s') V'" "cached V' = cached V" "v_erased V' = v_erased V"
      "set (v_lru V') \<subseteq> set (v_lru V)" "frees [] s s'" "changes_only (footprint c V) (cm_heap s) (cm_heap s')"
proof -
  have tab: "table_holds (cm_heap s) (c_table c) (cached V)" using ok by (simp add: shard_inv_def)
  then show thesis
  proof (cases rule: lookup_table_cases [where key = key and hash = hash])
    case absent
    then show thesis by (intro that(1)) (simp_all add: LRU_Lookup_def)
  next
    case (present a)
    obtain s' V' where r: "LRU_Ref c a s = Some s'" "shard_ok (held(a := held a + 1)) c (cm_heap s') V'"
      "cached V' = cached V" "v_erased V' = v_erased V" "set (v_lru V') \<subseteq> set (v_lru V)"
      "frees [] s s'" "changes_only (footprint c V) (cm_heap s) (cm_heap s')"
      by (rule LRU_Ref_ok [OF ok present(1) bspec [OF few present(1)]])
    have "a \<noteq> 0" using ok present(1) by (auto simp: shard_inv_def lists_ok_def)
    moreover from this have "LRU_Lookup key hash c s = Some (a, s')" using present(3) r(1) by (simp add: LRU_Lookup_def)
    ultimately show thesis using that(2) present(1,2) r by blast
  qed
qed

section \<open>Insertion\<close>

text \<open>A fresh entry on the list of used entries, and in the cache's accounts, but not yet in the table.\<close>

lemma counted_sum_insert:
  assumes "a \<notin> cached V" "\<And>x. x \<in> cached V \<Longrightarrow> g x = f x"
  shows "(\<Sum>x \<in> insert a (cached V). g x) = g a + (\<Sum>x \<in> cached V. f x)"
  using assms by (subst sum.insert) (auto simp: cached_def intro!: sum.cong)

lemma append_fresh:
  fixes e :: "('d, 'v) lru_handle"
  assumes ok: "shard_ok held c m V" and a: "a \<noteq> 0" "m a = None"
    and e: "h_in_cache e" "h_refs e = 2"
  obtains m1 where "LRU_Append (c_in_use c) a (m(a \<mapsto> e)) = Some m1" "same_but_links (m(a \<mapsto> e)) m1"
    "changes_only (insert a (footprint c V)) m m1"
    "shard_inv (held(a := 1)) (c\<lparr>c_usage := c_usage c + h_charge e\<rparr>) m1 (V\<lparr>v_used := v_used V @ [a]\<rparr>) (cached V)"
    "keyed m1 a"
proof -
  let ?V = "V\<lparr>v_used := v_used V @ [a]\<rparr>" and ?m = "m(a \<mapsto> e)"
  have inv: "lists_ok c m V" "counts_ok held m V" "table_holds m (c_table c) (cached V)"
    "c_usage c = (\<Sum>x \<in> cached V. charge_at m x)" using ok by (simp_all add: shard_inv_def)
  have out: "a \<notin> footprint c V" using lists_ok_dom [OF inv(1)] a(2) by auto
  have eq: "?m x = m x" if "x \<in> footprint c V" for x using out that by auto
  have "ring ?m (c_lru c) (v_lru V) = ring m (c_lru c) (v_lru V)" "ring ?m (c_in_use c) (v_used V) = ring m (c_in_use c) (v_used V)"
    by (rule ring_cong, rule eq, force simp: footprint_def heads_def cached_def)+
  then have lists: "lists_ok c ?m V" using inv(1) by (auto simp: lists_ok_def)
  obtain m1 where m1: "LRU_Append (c_in_use c) a ?m = Some m1" "same_but_links ?m m1"
    "changes_only (insert a (heads c \<union> cached V)) ?m m1" "lists_ok c m1 ?V"
    by (rule LRU_Append_used [OF lists _ out a(1)]) simp
  have cV: "cached ?V = insert a (cached V)" by (auto simp: cached_def)
  have same: "in_cache_at m1 x = in_cache_at m x \<and> refs_at m1 x = refs_at m x \<and> charge_at m1 x = charge_at m x" if "x \<noteq> a" for x
    unfolding links_at [OF m1(2)] using that by (simp add: in_cache_at_def refs_at_def charge_at_def)
  have new: "in_cache_at m1 a" "refs_at m1 a = 2" "charge_at m1 a = h_charge e"
    unfolding links_at [OF m1(2)] using e by (simp_all add: in_cache_at_def refs_at_def charge_at_def)
  have er: "nx m1 x = nx m x" if "x \<in> v_erased V" for x
  proof -
    have "x \<notin> insert a (heads c \<union> cached V)" using inv(1) that out by (auto simp: lists_ok_def footprint_def)
    then show ?thesis using m1(3) by (simp add: changes_only_def nx_def)
  qed
  have ne: "x \<noteq> a" if "x \<in> cached V \<union> v_erased V" for x using out that by (auto simp: footprint_def)
  have "counts_ok (held(a := 1)) m1 ?V"
    unfolding counts_ok_def cV
    using inv(2) ne same new er by (auto simp: counts_ok_def cached_def)
  moreover have "table_holds m1 (c_table c) (cached V)"
  proof -
    have "table_holds ?m (c_table c) (cached V)"
      by (rule table_holds_outside [OF inv(3)]) (use ne in auto)
    then show ?thesis
      by (rule table_holds_links [OF _ m1(2)]) (use lists_ok_next [OF m1(4)] cV in auto)
  qed
  moreover have "c_usage c + h_charge e = (\<Sum>x \<in> cached ?V. charge_at m1 x)"
    unfolding cV inv(4) by (subst counted_sum_insert) (use out ne same new in \<open>auto simp: footprint_def\<close>)
  ultimately have "shard_inv (held(a := 1)) (c\<lparr>c_usage := c_usage c + h_charge e\<rparr>) m1 ?V (cached V)"
    using m1(4) lists_ok_cong [of "c\<lparr>c_usage := c_usage c + h_charge e\<rparr>" c m1 ?V] unfolding shard_inv_def by simp
  moreover have "keyed m1 a"
    using lists_ok_next [OF m1(4), of a] links_at(1) [OF m1(2)] by (simp add: keyed_def cV)
  moreover have "changes_only (insert a (footprint c V)) m m1"
    using m1(3) by (auto simp: changes_only_def footprint_def)
  ultimately show thesis using m1(1,2) by (intro that)
qed

text \<open>
  What \<open>Insert\<close> does: the new entry is held once; with a capacity it is cached, in place of any entry with its key, and entries
  nobody holds are evicted until the usage fits.
\<close>

definition inserted ::
  "(nat \<Rightarrow> nat) \<Rightarrow> nat \<Rightarrow> ('d, 'v) lru_handle \<Rightarrow> nat list \<Rightarrow>
     lru_cache \<times> ('d, 'v) cache_mem \<times> view \<Rightarrow> lru_cache \<times> ('d, 'v) cache_mem \<times> view \<Rightarrow> bool" where
  "inserted held a e D = (\<lambda>(c, s, V) (c', s', V').
     shard_ok (held(a := 1)) c' (cm_heap s') V' \<and> c_capacity c' = c_capacity c \<and> c_lru c' = c_lru c \<and> c_in_use c' = c_in_use c \<and>
     cached V' \<subseteq> (if c_capacity c = 0 then cached V
                   else insert a {x \<in> cached V. \<not> matches (cm_heap s) (h_key e) (h_hash e) x}) \<and>
     cached V' \<union> v_erased V' = insert a (cached V \<union> v_erased V) - set D \<and>
     frees D (s\<lparr>cm_heap := (cm_heap s)(a \<mapsto> e)\<rparr>) s' \<and>
     changes_only (insert a (footprint c V)) (cm_heap s) (cm_heap s') \<and> (\<forall>x \<in> set D. held x = 0 \<and> x \<noteq> a) \<and>
     (c_usage c' \<le> c_capacity c' \<or> v_lru V' = []))"

lemma frees_start:
  assumes "frees D s s'" "payload_at (cm_heap s) = payload_at (cm_heap r)" "cm_deleted s = cm_deleted r"
  shows "frees D r s'"
proof -
  have d: "dom (cm_heap s) = dom (cm_heap r)"
    using payload_at_dom [of "cm_heap s"] payload_at_dom [of "cm_heap r"] assms(2) by auto
  have "deleter_call (cm_heap s) a = deleter_call (cm_heap r) a" if "a \<in> dom (cm_heap r)" for a
    by (rule deleter_call_payload) (use that assms(2) in simp_all)
  with assms d show ?thesis by (auto simp: frees_def subset_iff)
qed

text \<open>After the new entry is in the table: the entry it replaces, if there is one, is erased.\<close>

lemma table_insert_ok:
  assumes inv: "shard_inv held c (cm_heap s) V X" and a: "a \<in> cached V" "X = cached V - {a}" "keyed (cm_heap s) a" "0 < held a"
    and few: "card (cached V) \<le> 2 ^ 31"
  obtains old T m c' s' V' D where "HandleTable_Insert a (c_table c) (cm_heap s) = Some (old, T, m)"
    "FinishErase old (c\<lparr>c_table := T\<rparr>) (s\<lparr>cm_heap := m\<rparr>) = Some (old \<noteq> 0, c', s')"
    "leaves held D (c\<lparr>c_table := T\<rparr>, s\<lparr>cm_heap := m\<rparr>, V) (c', s', V')" "same_but_next_hash (cm_heap s) m"
    "changes_only (footprint c V) (cm_heap s) m" "a \<notin> set D"
    "cached V' = insert a {x \<in> X. \<not> matches (cm_heap s) (key_at (cm_heap s) a) (hash_at (cm_heap s) a) x}"
proof -
  let ?m = "cm_heap s"
  have lists: "lists_ok c ?m V" using inv by (simp add: shard_inv_def)
  then have a0: "a \<noteq> 0" "0 \<notin> cached V" using a(1) by (auto simp: lists_ok_def)
  obtain css where css: "table_ok ?m (c_table c) css" "set (concat css) = X"
    using inv by (auto simp: shard_inv_def table_holds_def)
  have fin: "finite (cached V)" by (simp add: cached_def)
  have "length (concat css) = card X"
    using css distinct_card [of "concat css"] by (simp add: table_ok_def del: set_concat)
  also have "\<dots> < card (cached V)" unfolding a(2) by (rule psubset_card_mono [OF fin]) (use a(1) in blast)
  finally have len: "length (concat css) < 2 ^ 31" using few by simp
  have an: "a \<notin> set (concat css)" using css(2) a(2) by simp
  show thesis
    using css(1) a(3) a0(1) an len
  proof (cases rule: HandleTable_Insert_cases)
    case (absent T m css')
    have cV: "cached V = insert a X" using a by auto
    have "table_holds m T (cached V)" using absent(3,4) css(2) cV by (auto simp: table_holds_def)
    from shard_inv_table [OF inv absent(5) this] have ok: "shard_ok held (c\<lparr>c_table := T\<rparr>) m V" .
    have ok': "shard_ok held (c\<lparr>c_table := T\<rparr>) (cm_heap (s\<lparr>cm_heap := m\<rparr>)) V" using ok by simp
    have ch: "changes_only (footprint c V) ?m m"
      by (rule changes_only_mono [OF absent(6)]) (use absent(4) css(2) cV in \<open>auto simp: footprint_def\<close>)
    have "\<forall>x \<in> X. \<not> matches ?m (key_at ?m a) (hash_at ?m a) x" using absent(1) css(2) by (simp del: set_concat)
    then have "cached V = insert a {x \<in> X. \<not> matches ?m (key_at ?m a) (hash_at ?m a) x}" unfolding cV by blast
    then show thesis
      by (intro that [OF absent(2) _ leaves_refl [OF ok'] absent(5) ch]) (simp_all add: FinishErase_zero)
  next
    case (present b T m css')
    have bX: "b \<in> X" using present(1) by (simp only: css(2))
    then have bc: "b \<in> cached V" "b \<noteq> a" unfolding a(2) by simp_all
    with a0(2) have "b \<noteq> 0" by metis
    note b = bX bc this
    have "insert a (X - {b}) = cached V - {b}" using a b by auto
    then have "table_holds m T (cached V - {b})" using present(4,5) css(2) by (auto simp: table_holds_def)
    from shard_inv_table [OF inv present(6) this] have ok: "shard_inv held (c\<lparr>c_table := T\<rparr>) m V (cached V - {b})" .
    have ok1: "shard_inv held ((c\<lparr>c_table := T\<rparr>)\<lparr>c_table := T\<rparr>) m V (cached V - {b})" using ok by simp
    have ch: "changes_only (footprint c V) ?m m"
      by (rule changes_only_mono [OF present(7)]) (use present(5) css(2) a in \<open>auto simp: footprint_def\<close>)
    have p: "same_but_next_hash (cm_heap (s\<lparr>cm_heap := m\<rparr>)) m"
      "changes_only (footprint (c\<lparr>c_table := T\<rparr>) V) (cm_heap (s\<lparr>cm_heap := m\<rparr>)) m" by simp_all
    obtain c' s' where f: "FinishErase b ((c\<lparr>c_table := T\<rparr>)\<lparr>c_table := T\<rparr>) ((s\<lparr>cm_heap := m\<rparr>)\<lparr>cm_heap := m\<rparr>) = Some (True, c', s')"
      "leaves held (if held b = 0 then [b] else []) (c\<lparr>c_table := T\<rparr>, s\<lparr>cm_heap := m\<rparr>, V) (c', s', erased_view held b V)"
      by (rule finish_removed [OF ok1 b(2) p])
    have uniq: "x = b" if "x \<in> X" "matches ?m (key_at ?m a) (hash_at ?m a) x" for x
      using table_unique [of ?m "c_table c" X x b] css b(1) that present(2) by (auto simp: table_holds_def)
    have "cached (erased_view held b V) = insert a {x \<in> X. \<not> matches ?m (key_at ?m a) (hash_at ?m a) x}"
    proof -
      have "{x \<in> X. \<not> matches ?m (key_at ?m a) (hash_at ?m a) x} = X - {b}" using uniq present(2) by blast
      then show ?thesis using a b by auto
    qed
    with f b(3,4) show thesis
      by (intro that [OF present(3) _ f(2) present(6) ch]) simp_all
  qed
qed

lemma payload_at_upd: "payload_at (m(a \<mapsto> e)) = (payload_at m)(a \<mapsto> payload e)"
  by (auto simp: payload_at_def)

lemma LRU_Insert_nocache:
  assumes ok: "shard_ok held c (cm_heap s) V" and a: "a \<noteq> 0" "cm_heap s a = None" and cap: "c_capacity c = 0"
    and e: "e = junk\<lparr>h_value := val, h_deleter := deleter, h_charge := chrg, h_key := key, h_hash := hash,
                  h_in_cache := False, h_refs := 1\<rparr>"
  obtains c' s' V' D where "LRU_Insert junk a key hash val chrg deleter c s = Some (c', s')"
    "inserted held a e D (c, s, V) (c', s', V')"
proof -
  let ?m = "(cm_heap s)(a \<mapsto> e\<lparr>h_next := 0\<rparr>)" and ?V = "V\<lparr>v_erased := insert a (v_erased V)\<rparr>"
  let ?s = "s\<lparr>cm_heap := ?m\<rparr>"
  have inv: "lists_ok c (cm_heap s) V" "counts_ok held (cm_heap s) V" "table_holds (cm_heap s) (c_table c) (cached V)"
    "c_usage c = (\<Sum>x \<in> cached V. charge_at (cm_heap s) x)" using ok by (simp_all add: shard_inv_def)
  have out: "a \<notin> footprint c V" using lists_ok_dom [OF inv(1)] a(2) by auto
  have eq: "?m x = cm_heap s x" if "x \<in> footprint c V" for x using out that by auto
  have "ring ?m (c_lru c) (v_lru V) = ring (cm_heap s) (c_lru c) (v_lru V)"
    "ring ?m (c_in_use c) (v_used V) = ring (cm_heap s) (c_in_use c) (v_used V)"
    by (rule ring_cong, rule eq, force simp: footprint_def heads_def cached_def)+
  then have "lists_ok c ?m V" using inv(1) by (auto simp: lists_ok_def)
  then have lists: "lists_ok c ?m ?V" by (rule lists_ok_insert_erased) (use out a(1) in \<open>auto simp: footprint_def\<close>)
  have cV: "cached ?V = cached V" by (simp add: cached_def)
  have ne: "x \<noteq> a" if "x \<in> cached V \<union> v_erased V" for x using out that by (auto simp: footprint_def)
  have same: "in_cache_at ?m x = in_cache_at (cm_heap s) x \<and> refs_at ?m x = refs_at (cm_heap s) x \<and>
      charge_at ?m x = charge_at (cm_heap s) x \<and> nx ?m x = nx (cm_heap s) x" if "x \<noteq> a" for x
    using that by (simp add: in_cache_at_def refs_at_def charge_at_def nx_def)
  have new: "\<not> in_cache_at ?m a" "refs_at ?m a = 1" "nx ?m a \<noteq> a"
    using a(1) by (simp_all add: in_cache_at_def refs_at_def nx_def e)
  have "counts_ok (held(a := 1)) ?m ?V"
    unfolding counts_ok_def cV using inv(2) ne same new by (auto simp: counts_ok_def cached_def)
  moreover have "table_holds ?m (c_table c) (cached ?V)"
    unfolding cV by (rule table_holds_outside [OF inv(3)]) (use ne in auto)
  moreover have "c_usage c = (\<Sum>x \<in> cached ?V. charge_at ?m x)"
    unfolding cV inv(4) by (rule sum.cong) (use ne same in auto)
  ultimately have ok1: "shard_ok (held(a := 1)) c (cm_heap ?s) ?V" using lists by (simp add: shard_inv_def)
  from evict_loop_ok [OF this] obtain c' s' k where r: "evict_loop c ?s = Some (c', s')"
    "leaves (held(a := 1)) (take k (v_lru V)) (c, ?s, ?V) (c', s', ?V\<lparr>v_lru := drop k (v_lru V)\<rparr>)"
    "c_usage c' \<le> c_capacity c' \<or> drop k (v_lru V) = []" by auto
  have run: "LRU_Insert junk a key hash val chrg deleter c s = Some (c', s')"
    using cap r(1) by (simp add: LRU_Insert_def e Let_def)
  have D: "\<forall>x \<in> set (take k (v_lru V)). held x = 0 \<and> x \<noteq> a"
    using inv(2) ne by (auto simp: counts_ok_def cached_def dest: in_set_takeD)
  have fr: "frees (take k (v_lru V)) (s\<lparr>cm_heap := (cm_heap s)(a \<mapsto> e)\<rparr>) s'"
  proof (rule frees_start)
    show "frees (take k (v_lru V)) ?s s'" using r(2) by (simp add: leaves_def)
    show "payload_at (cm_heap ?s) = payload_at (cm_heap (s\<lparr>cm_heap := (cm_heap s)(a \<mapsto> e)\<rparr>))"
      by (simp add: payload_at_upd payload_def)
  qed simp
  have "changes_only (insert a (footprint c V)) (cm_heap s) (cm_heap s')"
    using r(2) by (auto simp: leaves_def changes_only_def footprint_def cached_def)
  then have "inserted held a e (take k (v_lru V)) (c, s, V) (c', s', ?V\<lparr>v_lru := drop k (v_lru V)\<rparr>)"
    using r(2,3) cap D fr unfolding inserted_def leaves_def prod.case by (simp add: cV)
  with run show thesis by (rule that)
qed

lemma matches_payload:
  "matches m key hash a \<longleftrightarrow> (\<exists>v d n. payload_at m a = Some (v, d, n, key, hash))"
  by (auto simp: matches_def payload_at_def payload_def)

lemma LRU_Insert_cached:
  assumes ok: "shard_ok held c (cm_heap s) V" and a: "a \<noteq> 0" "cm_heap s a = None" and cap: "c_capacity c > 0"
    and few: "card (cached V) < 2 ^ 31"
    and e: "e = junk\<lparr>h_value := val, h_deleter := deleter, h_charge := chrg, h_key := key, h_hash := hash,
                  h_in_cache := False, h_refs := 1\<rparr>"
  obtains c' s' V' D where "LRU_Insert junk a key hash val chrg deleter c s = Some (c', s')"
    "inserted held a e D (c, s, V) (c', s', V')"
proof -
  define e' where "e' = e\<lparr>h_refs := 2, h_in_cache := True\<rparr>"
  define V1 where "V1 = V\<lparr>v_used := v_used V @ [a]\<rparr>"
  define c1 where "c1 = c\<lparr>c_usage := c_usage c + chrg\<rparr>"
  have e'_simps: "h_in_cache e'" "h_refs e' = 2" "h_charge e' = chrg" "payload e' = payload e"
    by (simp_all add: e'_def e payload_def)
  have aV: "a \<notin> cached V" using ok a(2) lists_ok_dom [of c "cm_heap s" V] by (auto simp: shard_inv_def footprint_def)
  have cV: "cached V1 = insert a (cached V)" "v_erased V1 = v_erased V" by (auto simp: cached_def V1_def)
  obtain m1 where m1: "LRU_Append (c_in_use c) a ((cm_heap s)(a \<mapsto> e')) = Some m1" "same_but_links ((cm_heap s)(a \<mapsto> e')) m1"
    "changes_only (insert a (footprint c V)) (cm_heap s) m1" "shard_inv (held(a := 1)) c1 m1 V1 (cached V)" "keyed m1 a"
    using append_fresh [OF ok a e'_simps(1,2)] unfolding e'_simps(3) V1_def c1_def by blast
  let ?s1 = "s\<lparr>cm_heap := m1\<rparr>"
  have inv1: "shard_inv (held(a := 1)) c1 (cm_heap ?s1) V1 (cached V)" and k1: "keyed (cm_heap ?s1) a" using m1(4,5) by simp_all
  have t0: "a \<in> cached V1" "cached V = cached V1 - {a}" "0 < (held(a := 1)) a" using aV cV by simp_all
  have cd: "card (cached V1) \<le> 2 ^ 31"
    unfolding cV using few aV by (subst card_insert_disjoint) (simp_all add: cached_def)
  obtain old T m c2 s2 V2 D where t: "HandleTable_Insert a (c_table c1) (cm_heap ?s1) = Some (old, T, m)"
    "FinishErase old (c1\<lparr>c_table := T\<rparr>) (?s1\<lparr>cm_heap := m\<rparr>) = Some (old \<noteq> 0, c2, s2)"
    "leaves (held(a := 1)) D (c1\<lparr>c_table := T\<rparr>, ?s1\<lparr>cm_heap := m\<rparr>, V1) (c2, s2, V2)" "same_but_next_hash (cm_heap ?s1) m"
    "changes_only (footprint c1 V1) (cm_heap ?s1) m" "a \<notin> set D"
    "cached V2 = insert a {x \<in> cached V. \<not> matches (cm_heap ?s1) (key_at (cm_heap ?s1) a) (hash_at (cm_heap ?s1) a) x}"
    by (rule table_insert_ok [OF inv1 t0(1,2) k1 t0(3) cd])
  have "shard_ok (held(a := 1)) c2 (cm_heap s2) V2" using t(3) by (simp add: leaves_def)
  from evict_loop_ok [OF this] obtain c' s' k where r: "evict_loop c2 s2 = Some (c', s')"
    "leaves (held(a := 1)) (take k (v_lru V2)) (c2, s2, V2) (c', s', V2\<lparr>v_lru := drop k (v_lru V2)\<rparr>)"
    "c_usage c' \<le> c_capacity c' \<or> drop k (v_lru V2) = []" by auto
  define E where "E = D @ take k (v_lru V2)"
  define V' where "V' = V2\<lparr>v_lru := drop k (v_lru V2)\<rparr>"
  have all: "leaves (held(a := 1)) E (c1\<lparr>c_table := T\<rparr>, s\<lparr>cm_heap := m\<rparr>, V1) (c', s', V')"
    using leaves_trans [OF t(3) r(2)] by (simp add: E_def V'_def)
  have run: "LRU_Insert junk a key hash val chrg deleter c s = Some (c', s')"
  proof -
    have "e\<lparr>h_refs := h_refs e + 1, h_in_cache := True\<rparr> = e'" by (simp add: e'_def e)
    then show ?thesis
      unfolding LRU_Insert_def Let_def e [symmetric]
      using cap m1(1) t(1,2) r(1) by (simp add: c1_def)
  qed
  have pay: "payload_at m = payload_at ((cm_heap s)(a \<mapsto> e))"
    using next_hash_at(9) [OF t(4)] links_at(8) [OF m1(2)] by (simp add: payload_at_upd e'_simps(4))
  have fr: "frees E (s\<lparr>cm_heap := (cm_heap s)(a \<mapsto> e)\<rparr>) s'"
    by (rule frees_start [of _ "s\<lparr>cm_heap := m\<rparr>"]) (use all pay in \<open>simp_all add: leaves_def\<close>)
  have ka: "key_at m1 a = key" "hash_at m1 a = hash"
    unfolding links_at [OF m1(2)] by (simp_all add: key_at_def hash_at_def e'_def e)
  have m1p: "payload_at m1 = (payload_at (cm_heap s))(a \<mapsto> payload e)"
    using links_at(8) [OF m1(2)] by (simp add: payload_at_upd e'_simps(4))
  have "matches m1 key hash x = matches (cm_heap s) key hash x" if "x \<in> cached V" for x
    using that aV by (auto simp: matches_payload m1p)
  then have c2: "cached V2 = insert a {x \<in> cached V. \<not> matches (cm_heap s) (h_key e) (h_hash e) x}"
    unfolding t(7) using ka by (auto simp: e)
  have ch: "changes_only (insert a (footprint c V)) (cm_heap s) (cm_heap s')"
  proof -
    have "footprint c1 V1 = insert a (footprint c V)" "footprint (c1\<lparr>c_table := T\<rparr>) V1 = insert a (footprint c V)"
      by (auto simp: footprint_def cV c1_def)
    with m1(3) t(5) all show ?thesis by (auto simp: leaves_def intro: changes_only_trans)
  qed
  have D: "\<forall>x \<in> set E. held x = 0 \<and> x \<noteq> a"
    using all by (auto simp: leaves_def split: if_splits)
  have sub: "cached V' \<subseteq> insert a {x \<in> cached V. \<not> matches (cm_heap s) (h_key e) (h_hash e) x}"
    using r(2) c2 by (auto simp: leaves_def V'_def)
  have capn: "c_capacity c \<noteq> 0" using cap by auto
  have usage: "c_usage c' \<le> c_capacity c' \<or> v_lru V' = []" using r(3) by (simp add: V'_def)
  have "inserted held a e E (c, s, V) (c', s', V')"
    using all D fr ch sub usage capn unfolding inserted_def leaves_def prod.case by (simp add: cV c1_def)
  with run show thesis by (rule that)
qed

lemma LRU_Insert_ok:
  assumes "shard_ok held c (cm_heap s) V" "a \<noteq> 0" "cm_heap s a = None" "card (cached V) < 2 ^ 31"
    "e = junk\<lparr>h_value := val, h_deleter := deleter, h_charge := chrg, h_key := key, h_hash := hash,
                  h_in_cache := False, h_refs := 1\<rparr>"
  obtains c' s' V' D where "LRU_Insert junk a key hash val chrg deleter c s = Some (c', s')"
    "inserted held a e D (c, s, V) (c', s', V')"
proof (cases "c_capacity c = 0")
  case True
  show thesis by (rule LRU_Insert_nocache [OF assms(1-3) True assms(5)]) (rule that)
next
  case False
  then have "c_capacity c > 0" by (simp add: word_gt_0)
  then show thesis by (rule LRU_Insert_cached [OF assms(1-3) _ assms(4,5)]) (rule that)
qed

section \<open>Construction and destruction\<close>

lemma HandleTable_ok: "\<exists>T. HandleTable = Some T \<and> ht_elems T = 0 \<and> buckets_ok m (ht_length T) (ht_list T) (replicate (unat (ht_length T)) []) \<and> unat (ht_length T) = 4"
proof -
  have "grow_length 0 4 = Some 4" by (subst grow_length.simps) simp
  then have "HandleTable = Some \<lparr>ht_length = 4, ht_elems = 0, ht_list = replicate 4 0\<rparr>"
    by (simp add: HandleTable_def Resize_def)
  moreover have "buckets_ok m 4 (replicate (unat (4 :: u32)) 0) (replicate (unat (4 :: u32)) [])"
    by (rule empty_buckets_ok [of 4 2]) simp_all
  ultimately show ?thesis
    by (intro exI [of _ "\<lparr>ht_length = 4, ht_elems = 0, ht_list = replicate 4 0\<rparr>"]) simp
qed

lemma LRUCache_ok:
  assumes "l \<noteq> u"
  obtains c s' where "LRUCache junk l u s = Some (c, s')" "c_lru c = l" "c_in_use c = u" "c_capacity c = 0"
    "shard_ok held c (cm_heap s') \<lparr>v_lru = [], v_used = [], v_erased = {}\<rparr>" "cm_deleted s' = cm_deleted s"
    "dom (cm_heap s') = dom (cm_heap s) \<union> {l, u}" "changes_only {l, u} (cm_heap s) (cm_heap s')"
proof -
  let ?m = "(cm_heap s)(l \<mapsto> junk\<lparr>h_next := l, h_prev := l\<rparr>, u \<mapsto> junk\<lparr>h_next := u, h_prev := u\<rparr>)"
  obtain T where T: "HandleTable = Some T" "ht_elems T = 0"
    "buckets_ok ?m (ht_length T) (ht_list T) (replicate (unat (ht_length T)) [])" "unat (ht_length T) = 4"
    using HandleTable_ok [of ?m] by auto
  define c where "c = \<lparr>c_capacity = 0, c_usage = 0, c_lru = l, c_in_use = u, c_table = T\<rparr>"
  have "table_ok ?m T (replicate (unat (ht_length T)) [])"
    using T(2,3) by (simp add: table_ok_def)
  then have "table_holds ?m T {}" unfolding table_holds_def by (intro exI [of _ "replicate (unat (ht_length T)) []"]) simp
  moreover have "lists_ok c ?m \<lparr>v_lru = [], v_used = [], v_erased = {}\<rparr>"
    using assms by (simp add: lists_ok_def ring_def c_def nx_def pv_def cached_def)
  ultimately have ok: "shard_ok held c ?m \<lparr>v_lru = [], v_used = [], v_erased = {}\<rparr>"
    by (simp add: shard_inv_def counts_ok_def cached_def c_def)
  have run: "LRUCache junk l u s = Some (c, s\<lparr>cm_heap := ?m\<rparr>)" by (simp add: LRUCache_def T(1) c_def)
  show thesis
    by (rule that [OF run]) (use ok in \<open>auto simp: c_def changes_only_def\<close>)
qed

end
