(* ===== verification/LruClient.thy ===== *)
theory LruClient
  imports LruOps
begin

text \<open>
  The sharded cache of \<open>util/cache.cc\<close> under any sequence of calls a client may make: \<open>cache_step\<close> is a call together with the
  client's own book-keeping, and \<open>client_inv\<close> the invariant of all states it can reach.
\<close>

section \<open>Frames\<close>

lemma shard_inv_frame:
  assumes ok: "shard_ok held c m V" and m': "\<And>x. x \<in> footprint c V \<Longrightarrow> m' x = m x"
    and held: "\<And>x. x \<in> cached V \<union> v_erased V \<Longrightarrow> held' x = held x"
  shows "shard_ok held' c m' V"
proof -
  have inv: "lists_ok c m V" "counts_ok held m V" "table_holds m (c_table c) (cached V)"
    "c_usage c = (\<Sum>x \<in> cached V. charge_at m x)" using ok by (simp_all add: shard_inv_def)
  have "ring m' (c_lru c) (v_lru V) = ring m (c_lru c) (v_lru V)" "ring m' (c_in_use c) (v_used V) = ring m (c_in_use c) (v_used V)"
    by (rule ring_cong, rule m', force simp: footprint_def heads_def cached_def)+
  moreover have "v_erased V \<subseteq> dom m'" using lists_ok_dom [OF inv(1)] m' by (fastforce simp: footprint_def)
  ultimately have "lists_ok c m' V" using inv(1) by (auto simp: lists_ok_def)
  moreover have "counts_ok held' m' V"
  proof -
    have "in_cache_at m' x = in_cache_at m x \<and> refs_at m' x = refs_at m x \<and> nx m' x = nx m x \<and> held' x = held x"
      if "x \<in> cached V \<union> v_erased V" for x
      using m' [of x] held that by (simp add: footprint_def in_cache_at_def refs_at_def nx_def)
    then show ?thesis using inv(2) by (auto simp: counts_ok_def cached_def)
  qed
  moreover have "table_holds m' (c_table c) (cached V)"
    by (rule table_holds_outside [OF inv(3)]) (use m' in \<open>simp add: footprint_def\<close>)
  moreover have "(\<Sum>x \<in> cached V. charge_at m' x) = (\<Sum>x \<in> cached V. charge_at m x)"
    by (rule sum.cong) (use m' in \<open>auto simp: footprint_def charge_at_def\<close>)
  ultimately show ?thesis using inv(4) by (simp add: shard_inv_def)
qed

lemma shard_inv_capacity: "shard_ok held c m V \<Longrightarrow> shard_ok held (LRU_SetCapacity n c) m V"
  using lists_ok_cong [of "LRU_SetCapacity n c" c m V] unfolding shard_inv_def by (simp add: LRU_SetCapacity_def)

section \<open>All shards\<close>

definition entries :: "view \<Rightarrow> nat set" where
  "entries V = cached V \<union> v_erased V"

lemma footprint_entries: "footprint c V = heads c \<union> entries V"
  by (auto simp: footprint_def entries_def)

definition placed :: "('d, 'v) cache_heap \<Rightarrow> nat \<Rightarrow> nat \<Rightarrow> bool" where
  "placed m i a \<longleftrightarrow> hash_at m a = HashSlice (key_at m a) \<and> Shard (hash_at m a) = i"

lemma placed_cong: "m' a = m a \<Longrightarrow> placed m' i a \<longleftrightarrow> placed m i a"
  by (simp add: placed_def hash_at_def key_at_def)

text \<open>The shards share the heap, and every entry is in the shard of its key's hash.\<close>

definition pool_ok :: "(nat \<Rightarrow> nat) \<Rightarrow> lru_cache list \<Rightarrow> ('d, 'v) cache_heap \<Rightarrow> view list \<Rightarrow> bool" where
  "pool_ok held cs m Vs \<longleftrightarrow>
     length cs = kNumShards \<and> length Vs = kNumShards \<and> finite (dom m) \<and>
     (\<forall>i < kNumShards. shard_ok held (cs ! i) m (Vs ! i)) \<and>
     (\<forall>i < kNumShards. \<forall>j < kNumShards. i \<noteq> j \<longrightarrow> footprint (cs ! i) (Vs ! i) \<inter> footprint (cs ! j) (Vs ! j) = {}) \<and>
     dom m = (\<Union>i < kNumShards. footprint (cs ! i) (Vs ! i)) \<and>
     (\<forall>i < kNumShards. \<forall>a \<in> entries (Vs ! i). placed m i a) \<and>
     (\<forall>i < kNumShards. c_capacity (cs ! i) = 0 \<longrightarrow> cached (Vs ! i) = {})"

lemma pool_okD:
  assumes "pool_ok held cs m Vs"
  shows "length cs = kNumShards" "length Vs = kNumShards" "finite (dom m)"
    "\<And>i. i < kNumShards \<Longrightarrow> shard_ok held (cs ! i) m (Vs ! i)"
    "\<And>i j. i < kNumShards \<Longrightarrow> j < kNumShards \<Longrightarrow> i \<noteq> j \<Longrightarrow> footprint (cs ! i) (Vs ! i) \<inter> footprint (cs ! j) (Vs ! j) = {}"
    "dom m = (\<Union>i < kNumShards. footprint (cs ! i) (Vs ! i))"
    "\<And>i a. i < kNumShards \<Longrightarrow> a \<in> entries (Vs ! i) \<Longrightarrow> placed m i a"
    "\<And>i. i < kNumShards \<Longrightarrow> c_capacity (cs ! i) = 0 \<Longrightarrow> cached (Vs ! i) = {}"
  using assms unfolding pool_ok_def by blast+

lemma Shard_less [simp]: "Shard h < kNumShards"
proof -
  have "unat h < 2 ^ 32" using unat_less [of h] by simp
  then show ?thesis
    by (simp add: Shard_def unat_drop_bit kNumShards_def kNumShardBits_def less_mult_imp_div_less)
qed

lemma pool_update:
  assumes pool: "pool_ok held cs m Vs" and i: "i < kNumShards"
    and new: "shard_ok held' c m' V" "c_lru c = c_lru (cs ! i)" "c_in_use c = c_in_use (cs ! i)" "c_capacity c = 0 \<Longrightarrow> cached V = {}"
    and fresh: "entries V \<subseteq> entries (Vs ! i) \<union> N" "N \<inter> dom m = {}" "finite N"
    and ch: "changes_only (footprint (cs ! i) (Vs ! i) \<union> N) m m'"
    and dm: "dom m' \<inter> (footprint (cs ! i) (Vs ! i) \<union> N) \<subseteq> footprint c V"
    and held: "\<And>x. x \<notin> footprint (cs ! i) (Vs ! i) \<union> N \<Longrightarrow> held' x = held x"
    and keys: "\<forall>a \<in> entries V. placed m' i a"
  shows "pool_ok held' (cs[i := c]) m' (Vs[i := V])"
proof -
  let ?F = "footprint (cs ! i) (Vs ! i)"
  note len = pool_okD(1,2) [OF pool]
  have fin: "finite (dom m)" and all: "\<And>j. j < kNumShards \<Longrightarrow> shard_ok held (cs ! j) m (Vs ! j)"
    and disj: "\<And>j k. j < kNumShards \<Longrightarrow> k < kNumShards \<Longrightarrow> j \<noteq> k \<Longrightarrow> footprint (cs ! j) (Vs ! j) \<inter> footprint (cs ! k) (Vs ! k) = {}"
    and dom: "dom m = (\<Union>j < kNumShards. footprint (cs ! j) (Vs ! j))"
    and hash: "\<And>j a. j < kNumShards \<Longrightarrow> a \<in> entries (Vs ! j) \<Longrightarrow> placed m j a"
    and cap: "\<And>j. j < kNumShards \<Longrightarrow> c_capacity (cs ! j) = 0 \<Longrightarrow> cached (Vs ! j) = {}"
    by (fact pool_okD [OF pool])+
  have sub: "footprint (cs ! j) (Vs ! j) \<subseteq> dom m" if "j < kNumShards" for j
    using that unfolding dom by blast
  have FN: "footprint c V \<subseteq> ?F \<union> N" using fresh(1) new(2,3) by (auto simp: footprint_entries heads_def)
  have out: "x \<notin> ?F \<union> N" if "j < kNumShards" "j \<noteq> i" "x \<in> footprint (cs ! j) (Vs ! j)" for j x
    using disj [OF that(1) i that(2)] sub [OF that(1)] fresh(2) that(3) by blast
  then have same: "m' x = m x" if "j < kNumShards" "j \<noteq> i" "x \<in> footprint (cs ! j) (Vs ! j)" for j x
    using ch that by (simp add: changes_only_def)
  let ?cs = "cs[i := c]" and ?Vs = "Vs[i := V]"
  have P1: "shard_ok held' (?cs ! j) m' (?Vs ! j)" if j: "j < kNumShards" for j
  proof (cases "j = i")
    case False
    have "shard_ok held' (cs ! j) m' (Vs ! j)"
      by (rule shard_inv_frame [OF all [OF j]])
        (use same [OF j False] held out [OF j False] in \<open>auto simp: footprint_entries entries_def\<close>)
    with False show ?thesis by simp
  qed (use i len new(1) in simp)
  have P2: "footprint (?cs ! j) (?Vs ! j) \<inter> footprint (?cs ! k) (?Vs ! k) = {}"
    if "j < kNumShards" "k < kNumShards" "j \<noteq> k" for j k
    using disj [OF that] out [of j] out [of k] that FN i len by (cases "j = i"; cases "k = i") auto
  have other: "footprint (?cs ! j) (?Vs ! j) = footprint (cs ! j) (Vs ! j)" if "j \<noteq> i" for j using that by simp
  have this_one: "footprint (?cs ! i) (?Vs ! i) = footprint c V" using i len by simp
  have P3: "dom m' = (\<Union>j < kNumShards. footprint (?cs ! j) (?Vs ! j))" (is "_ = ?U")
  proof (rule set_eqI)
    fix x
    show "x \<in> dom m' \<longleftrightarrow> x \<in> ?U"
    proof (cases "x \<in> ?F \<union> N")
      case True
      have "x \<in> dom m' \<longleftrightarrow> x \<in> footprint c V"
        using True dm lists_ok_dom [of c m' V] new(1) by (auto simp: shard_inv_def)
      moreover have "x \<in> ?U \<longleftrightarrow> x \<in> footprint c V"
      proof
        assume "x \<in> ?U"
        then obtain j where j: "j < kNumShards" "x \<in> footprint (?cs ! j) (?Vs ! j)" by blast
        with True out [of j x] other [of j] this_one show "x \<in> footprint c V" by (cases "j = i") auto
      next
        assume "x \<in> footprint c V"
        with this_one i show "x \<in> ?U" by blast
      qed
      ultimately show ?thesis by simp
    next
      case False
      then have "m' x = m x" using ch by (simp add: changes_only_def)
      then have "x \<in> dom m' \<longleftrightarrow> (\<exists>j < kNumShards. x \<in> footprint (cs ! j) (Vs ! j))"
        using dom by (auto simp: dom_def)
      also have "\<dots> \<longleftrightarrow> (\<exists>j < kNumShards. j \<noteq> i \<and> x \<in> footprint (cs ! j) (Vs ! j))" using False by blast
      also have "\<dots> \<longleftrightarrow> x \<in> ?U"
      proof
        assume "\<exists>j < kNumShards. j \<noteq> i \<and> x \<in> footprint (cs ! j) (Vs ! j)"
        with other show "x \<in> ?U" by blast
      next
        assume "x \<in> ?U"
        then obtain j where j: "j < kNumShards" "x \<in> footprint (?cs ! j) (?Vs ! j)" by blast
        with False FN this_one have "j \<noteq> i" by blast
        with j other show "\<exists>j < kNumShards. j \<noteq> i \<and> x \<in> footprint (cs ! j) (Vs ! j)" by blast
      qed
      finally show ?thesis .
    qed
  qed
  have P4: "placed m' j a" if "j < kNumShards" "a \<in> entries (?Vs ! j)" for j a
  proof (cases "j = i")
    case False
    then have a: "a \<in> entries (Vs ! j)" using that by simp
    then have "m' a = m a" using same [OF that(1) False, of a] by (simp add: footprint_entries)
    with hash [OF that(1) a] show ?thesis using placed_cong by blast
  qed (use that keys i len in simp)
  have P5: "cached (?Vs ! j) = {}" if "j < kNumShards" "c_capacity (?cs ! j) = 0" for j
    using that cap [of j] new(4) i len by (cases "j = i") simp_all
  have "dom m' \<subseteq> dom m \<union> (?F \<union> N)" using ch by (auto simp: changes_only_def)
  then have "finite (dom m')"
    by (rule finite_subset) (use fin fresh(3) finite_subset [OF sub [OF i] fin] in simp)
  with P1 P2 P3 P4 P5 len show ?thesis unfolding pool_ok_def length_list_update by blast
qed

section \<open>One call\<close>

text \<open>The entry a call allocates, if it allocates one.\<close>

fun new_addrs :: "(nat \<times> ('d, 'v) lru_handle) option \<Rightarrow> nat set" where
  "new_addrs None = {}"
| "new_addrs (Some (a, e)) = {a}"

fun add_new :: "(nat \<times> ('d, 'v) lru_handle) option \<Rightarrow> ('d, 'v) cache_mem \<Rightarrow> ('d, 'v) cache_mem" where
  "add_new None s = s"
| "add_new (Some (a, e)) s = s\<lparr>cm_heap := (cm_heap s)(a \<mapsto> e)\<rparr>"

text \<open>What all operations on a shard have in common: \<open>n\<close> is allocated, \<open>D\<close> is freed.\<close>

definition transition ::
  "(nat \<Rightarrow> nat) \<Rightarrow> (nat \<Rightarrow> nat) \<Rightarrow> (nat \<times> ('d, 'v) lru_handle) option \<Rightarrow> nat list \<Rightarrow>
     lru_cache \<times> ('d, 'v) cache_mem \<times> view \<Rightarrow> lru_cache \<times> ('d, 'v) cache_mem \<times> view \<Rightarrow> bool" where
  "transition held held' n D = (\<lambda>(c, s, V) (c', s', V').
     shard_ok held' c' (cm_heap s') V' \<and> c_lru c' = c_lru c \<and> c_in_use c' = c_in_use c \<and> c_capacity c' = c_capacity c \<and>
     entries V' = (entries V \<union> new_addrs n) - set D \<and> frees D (add_new n s) s' \<and>
     changes_only (footprint c V \<union> new_addrs n) (cm_heap s) (cm_heap s') \<and>
     (\<forall>x. x \<notin> footprint c V \<union> new_addrs n \<longrightarrow> held' x = held x) \<and> (\<forall>x \<in> set D. held' x = 0) \<and>
     (c_capacity c = 0 \<longrightarrow> cached V = {} \<longrightarrow> cached V' = {}))"

lemma payload_atD:
  assumes "payload_at m a = Some (v, d, n, k, h)"
  shows "key_at m a = k" "hash_at m a = h" "deleter_call m a = (d, k, v)" "a \<in> dom m" "\<exists>e. m a = Some e \<and> h_value e = v"
  using assms by (auto simp: payload_at_def payload_def key_at_def hash_at_def deleter_call_def)

lemma payload_at_keys:
  assumes "payload_at m' a = payload_at m a"
  shows "key_at m' a = key_at m a \<and> hash_at m' a = hash_at m a"
proof (cases "m a")
  case (Some h)
  with assms obtain h' where "m' a = Some h'" "payload h' = payload h" by (auto simp: payload_at_def)
  with Some show ?thesis by (simp add: key_at_def hash_at_def payload_def)
qed (use assms in \<open>auto simp: payload_at_def key_at_def hash_at_def\<close>)

lemma placed_payload: "payload_at m' a = payload_at m a \<Longrightarrow> placed m' i a \<longleftrightarrow> placed m i a"
  by (drule payload_at_keys) (simp only: placed_def)

lemma transition_payload:
  assumes "transition held held' n D (c, s, V) (c', s', V')" "x \<notin> set D"
  shows "payload_at (cm_heap s') x = payload_at (cm_heap (add_new n s)) x"
  using assms by (simp add: transition_def frees_def)

lemma pool_transition:
  assumes pool: "pool_ok held cs (cm_heap s) Vs" and i: "i < kNumShards"
    and tr: "transition held held' n D (cs ! i, s, Vs ! i) (c', s', V')"
    and n: "\<And>a e. n = Some (a, e) \<Longrightarrow> cm_heap s a = None \<and> h_hash e = HashSlice (h_key e) \<and> Shard (h_hash e) = i"
  shows "pool_ok held' (cs[i := c']) (cm_heap s') (Vs[i := V'])"
proof (rule pool_update [OF pool i, where N = "new_addrs n"])
  note t = tr [unfolded transition_def prod.case]
  show "shard_ok held' c' (cm_heap s') V'" "c_lru c' = c_lru (cs ! i)" "c_in_use c' = c_in_use (cs ! i)" using t by simp_all
  show "c_capacity c' = 0 \<Longrightarrow> cached V' = {}" using t pool_okD(8) [OF pool i] by simp
  show "entries V' \<subseteq> entries (Vs ! i) \<union> new_addrs n" using t by auto
  show "new_addrs n \<inter> dom (cm_heap s) = {}" using n by (cases n) auto
  show "finite (new_addrs n)" by (cases n) auto
  show "changes_only (footprint (cs ! i) (Vs ! i) \<union> new_addrs n) (cm_heap s) (cm_heap s')" using t by simp
  show "\<And>x. x \<notin> footprint (cs ! i) (Vs ! i) \<union> new_addrs n \<Longrightarrow> held' x = held x" using t by simp
  have fr: "frees D (add_new n s) s'" using t by simp
  have "dom (cm_heap s') = dom (cm_heap (add_new n s)) - set D" by (rule frees_dom [OF fr])
  then show "dom (cm_heap s') \<inter> (footprint (cs ! i) (Vs ! i) \<union> new_addrs n) \<subseteq> footprint c' V'"
    using t by (auto simp: footprint_entries heads_def)
  have old: "placed (cm_heap s) i a" if "a \<in> entries (Vs ! i)" for a
    by (rule pool_okD(7) [OF pool i that])
  show "\<forall>a \<in> entries V'. placed (cm_heap s') i a"
  proof
    fix a
    assume "a \<in> entries V'"
    then have a: "a \<in> entries (Vs ! i) \<union> new_addrs n" "a \<notin> set D" using t by auto
    have p: "payload_at (cm_heap s') a = payload_at (cm_heap (add_new n s)) a" by (rule transition_payload [OF tr a(2)])
    have "placed (cm_heap (add_new n s)) i a"
    proof (cases "a \<in> new_addrs n")
      case True
      with n show ?thesis by (cases n) (auto simp: placed_def hash_at_def key_at_def)
    next
      case False
      then have "cm_heap (add_new n s) a = cm_heap s a" by (cases n) auto
      with placed_cong old [of a] a(1) False show ?thesis by blast
    qed
    then show "placed (cm_heap s') i a" by (simp only: placed_payload [OF p])
  qed
qed

section \<open>Freed and living entries\<close>

text \<open>The deleter calls still to come for the entries outside of \<open>Hd\<close>.\<close>

definition held_by :: "nat set \<Rightarrow> ('d, 'v) cache_heap \<Rightarrow> ('d \<times> slice \<times> 'v) multiset" where
  "held_by Hd m = image_mset (deleter_call m) (mset_set (dom m - Hd))"

lemma frees_live:
  assumes fr: "frees D s s'" and fin: "finite (dom (cm_heap s))" and D: "set D \<inter> Hd = {}"
  shows "mset (cm_deleted s') + held_by Hd (cm_heap s') = mset (cm_deleted s) + held_by Hd (cm_heap s)"
proof -
  let ?m = "cm_heap s" and ?m' = "cm_heap s'"
  have dm: "dom ?m' = dom ?m - set D" by (rule frees_dom [OF fr])
  have D': "distinct D" "set D \<subseteq> dom ?m - Hd" using fr D by (auto simp: frees_def)
  have "deleter_call ?m' a = deleter_call ?m a" if "a \<in> dom ?m' - Hd" for a
    by (rule deleter_call_payload) (use that fr dm in \<open>auto simp: frees_def\<close>)
  then have "held_by Hd ?m' = image_mset (deleter_call ?m) (mset_set (dom ?m' - Hd))"
    unfolding held_by_def using fin dm by (intro image_mset_cong) simp
  moreover have "dom ?m - Hd = (dom ?m' - Hd) \<union> set D" using D' dm by auto
  moreover have "mset_set ((dom ?m' - Hd) \<union> set D) = mset_set (dom ?m' - Hd) + mset_set (set D)"
    by (rule mset_set_Union) (use fin dm in auto)
  moreover have "mset_set (set D) = mset D" by (rule mset_set_set [OF D'(1)])
  ultimately have "held_by Hd ?m = held_by Hd ?m' + image_mset (deleter_call ?m) (mset D)" by (simp add: held_by_def)
  moreover have "mset (cm_deleted s') = mset (cm_deleted s) + image_mset (deleter_call ?m) (mset D)"
    using fr by (simp add: frees_def)
  ultimately show ?thesis by simp
qed

lemma held_by_insert:
  assumes "finite (dom m)" "m a = None" "a \<notin> Hd"
  shows "held_by Hd (m(a \<mapsto> e)) = add_mset (h_deleter e, h_key e, h_value e) (held_by Hd m)"
proof -
  have "dom (m(a \<mapsto> e)) - Hd = insert a (dom m - Hd)" using assms(3) by auto
  moreover have "a \<notin> dom m - Hd" using assms(2) by auto
  moreover have "image_mset (deleter_call (m(a \<mapsto> e))) (mset_set (dom m - Hd)) = image_mset (deleter_call m) (mset_set (dom m - Hd))"
    by (rule image_mset_cong) (use assms in \<open>auto simp: deleter_call_def\<close>)
  ultimately show ?thesis using assms(1) by (simp add: held_by_def) (simp add: deleter_call_def)
qed

section \<open>The client\<close>

text \<open>
  A client keeps the handles it holds, each with the key and the value it stands for; \<open>cl_latest\<close> are the values inserted last
  and not erased since, \<open>cl_inserted\<close> the entries ever inserted, as arguments of their deleters.
\<close>

record ('d, 'v) cache_client =
  cl_cache :: sharded_cache
  cl_mem :: "('d, 'v) cache_mem"
  cl_held :: "(nat \<times> slice \<times> 'v) multiset"
  cl_latest :: "slice \<rightharpoonup> 'v"
  cl_inserted :: "('d \<times> slice \<times> 'v) multiset"

definition held_count :: "(nat \<times> slice \<times> 'v) multiset \<Rightarrow> nat \<Rightarrow> nat" where
  "held_count H a = size (filter_mset (\<lambda>t. fst t = a) H)"

text \<open>The calls.  Bounds: fewer than \<open>2 ^ 31\<close> entries exist, and fewer handles are held.\<close>

inductive cache_step :: "('d, 'v) cache_client \<Rightarrow> ('d, 'v) cache_client \<Rightarrow> bool" where
  step_Insert: "cache_step x (x\<lparr>cl_cache := C', cl_mem := s', cl_held := add_mset (a, key, val) (cl_held x),
      cl_latest := (cl_latest x)(key \<mapsto> val), cl_inserted := add_mset (deleter, key, val) (cl_inserted x)\<rparr>)"
  if "a \<noteq> 0" "cm_heap (cl_mem x) a = None" "card (dom (cm_heap (cl_mem x))) < 2 ^ 31"
    "Cache_Insert junk a key val chrg deleter (cl_cache x) (cl_mem x) = Some (C', s')"
| step_hit: "cache_step x (x\<lparr>cl_mem := s', cl_held := add_mset (a, key, the (cl_latest x key)) (cl_held x)\<rparr>)"
  if "size (cl_held x) < 2 ^ 31" "Cache_Lookup key (cl_cache x) (cl_mem x) = Some (a, s')" "a \<noteq> 0"
| step_miss: "cache_step x (x\<lparr>cl_mem := s'\<rparr>)"
  if "size (cl_held x) < 2 ^ 31" "Cache_Lookup key (cl_cache x) (cl_mem x) = Some (0, s')"
| step_Release: "cache_step x (x\<lparr>cl_mem := s', cl_held := cl_held x - {#(a, key, val)#}\<rparr>)"
  if "(a, key, val) \<in># cl_held x" "Cache_Release a (cl_cache x) (cl_mem x) = Some s'"
| step_Erase: "cache_step x (x\<lparr>cl_cache := C', cl_mem := s', cl_latest := (cl_latest x)(key := None)\<rparr>)"
  if "Cache_Erase key (cl_cache x) (cl_mem x) = Some (C', s')"
| step_Prune: "cache_step x (x\<lparr>cl_cache := C', cl_mem := s'\<rparr>)"
  if "Cache_Prune (cl_cache x) (cl_mem x) = Some (C', s')"
| step_NewId: "cache_step x (x\<lparr>cl_cache := snd (Cache_NewId (cl_cache x))\<rparr>)"

definition head_addrs :: "nat \<Rightarrow> nat set" where
  "head_addrs base = {base ..< base + 2 * kNumShards}"

definition client_inv :: "nat \<Rightarrow> ('d, 'v) cache_client \<Rightarrow> view list \<Rightarrow> bool" where
  "client_inv base x Vs \<longleftrightarrow>
     (let cs = sc_shard (cl_cache x); m = cm_heap (cl_mem x) in
      pool_ok (held_count (cl_held x)) cs m Vs \<and> 0 < base \<and>
      (\<forall>i < kNumShards. c_lru (cs ! i) = base + 2 * i \<and> c_in_use (cs ! i) = base + 2 * i + 1) \<and>
      (\<forall>(a, k, v) \<in># cl_held x. \<exists>i < kNumShards. a \<in> entries (Vs ! i) \<and> (\<exists>d n h. payload_at m a = Some (v, d, n, k, h))) \<and>
      (\<forall>i < kNumShards. \<forall>a \<in> cached (Vs ! i). \<exists>v d n k h. payload_at m a = Some (v, d, n, k, h) \<and> cl_latest x k = Some v) \<and>
      cl_inserted x = mset (cm_deleted (cl_mem x)) + held_by (head_addrs base) m)"

lemma held_count_simps [simp]:
  "held_count {#} a = 0"
  "held_count (add_mset t H) = (held_count H)(fst t := held_count H (fst t) + 1)"
  by (auto simp: held_count_def fun_eq_iff)

lemma held_count_remove: "t \<in># H \<Longrightarrow> held_count (H - {#t#}) = (held_count H)(fst t := held_count H (fst t) - 1)"
proof -
  assume "t \<in># H"
  then have "held_count H = held_count (add_mset t (H - {#t#}))" by simp
  then show ?thesis by (auto simp: fun_eq_iff simp del: insert_DiffM)
qed

lemma held_count_pos: "(a, k, v) \<in># H \<Longrightarrow> 0 < held_count H a"
proof -
  assume "(a, k, v) \<in># H"
  then have "(a, k, v) \<in># filter_mset (\<lambda>t. fst t = a) H" by simp
  then have "filter_mset (\<lambda>t. fst t = a) H \<noteq> {#}" by (metis empty_not_add_mset multi_member_split)
  then have "0 < size (filter_mset (\<lambda>t. fst t = a) H)" by (simp only: nonempty_has_size)
  then show ?thesis by (simp only: held_count_def)
qed

lemma held_count_obtain:
  assumes "0 < held_count H a"
  obtains k v where "(a, k, v) \<in># H"
proof -
  have "filter_mset (\<lambda>t. fst t = a) H \<noteq> {#}" using assms by (simp only: held_count_def nonempty_has_size)
  then obtain t where "t \<in># filter_mset (\<lambda>t. fst t = a) H" by (meson multiset_nonemptyE)
  then show thesis using that by (cases t) auto
qed

lemma held_count_le: "held_count H a \<le> size H"
  by (simp add: held_count_def size_filter_mset_lesseq)

lemma client_invD:
  assumes "client_inv base x Vs"
  shows "pool_ok (held_count (cl_held x)) (sc_shard (cl_cache x)) (cm_heap (cl_mem x)) Vs" "0 < base"
    "\<And>i. i < kNumShards \<Longrightarrow> c_lru (sc_shard (cl_cache x) ! i) = base + 2 * i \<and> c_in_use (sc_shard (cl_cache x) ! i) = base + 2 * i + 1"
    "\<And>a k v. (a, k, v) \<in># cl_held x \<Longrightarrow> \<exists>i < kNumShards. a \<in> entries (Vs ! i) \<and> (\<exists>d n h. payload_at (cm_heap (cl_mem x)) a = Some (v, d, n, k, h))"
    "\<And>i a. i < kNumShards \<Longrightarrow> a \<in> cached (Vs ! i) \<Longrightarrow> \<exists>v d n k h. payload_at (cm_heap (cl_mem x)) a = Some (v, d, n, k, h) \<and> cl_latest x k = Some v"
    "cl_inserted x = mset (cm_deleted (cl_mem x)) + held_by (head_addrs base) (cm_heap (cl_mem x))"
  using assms unfolding client_inv_def Let_def by blast+

lemma heads_cover:
  assumes "\<And>i. i < kNumShards \<Longrightarrow> c_lru (cs ! i) = base + 2 * i \<and> c_in_use (cs ! i) = base + 2 * i + 1"
  shows "(\<Union>i < kNumShards. heads (cs ! i)) = head_addrs base"
proof (rule set_eqI)
  have h: "heads (cs ! i) = {base + 2 * i, base + 2 * i + 1}" if "i < kNumShards" for i
    using assms [OF that] by (simp add: heads_def)
  fix y
  show "y \<in> (\<Union>i < kNumShards. heads (cs ! i)) \<longleftrightarrow> y \<in> head_addrs base"
  proof
    assume "y \<in> head_addrs base"
    then have "(y - base) div 2 < kNumShards" "y \<in> {base + 2 * ((y - base) div 2), base + 2 * ((y - base) div 2) + 1}"
      by (auto simp: head_addrs_def)
    with h show "y \<in> (\<Union>i < kNumShards. heads (cs ! i))" by blast
  qed (auto simp: h head_addrs_def)
qed

lemma client_heads:
  assumes "client_inv base x Vs"
  shows "dom (cm_heap (cl_mem x)) = head_addrs base \<union> (\<Union>i < kNumShards. entries (Vs ! i))"
    "head_addrs base \<inter> (\<Union>i < kNumShards. entries (Vs ! i)) = {}"
proof -
  let ?cs = "sc_shard (cl_cache x)" and ?m = "cm_heap (cl_mem x)"
  note inv = client_invD [OF assms]
  have e: "(\<Union>i < kNumShards. heads (?cs ! i)) = head_addrs base" by (rule heads_cover) (rule inv(3))
  note d = pool_okD(6) [OF inv(1)]
  show "dom ?m = head_addrs base \<union> (\<Union>i < kNumShards. entries (Vs ! i))"
    unfolding d footprint_entries UN_Un_distrib e by (rule refl)
  have "heads (?cs ! i) \<inter> entries (Vs ! j) = {}" if "i < kNumShards" "j < kNumShards" for i j
  proof (cases "i = j")
    case True
    have "lists_ok (?cs ! i) ?m (Vs ! i)" using pool_okD(4) [OF inv(1) that(1)] by (simp add: shard_inv_def)
    with True show ?thesis by (auto simp: lists_ok_def heads_def entries_def cached_def)
  next
    case False
    have "footprint (?cs ! i) (Vs ! i) \<inter> footprint (?cs ! j) (Vs ! j) = {}"
      by (rule pool_okD(5) [OF inv(1) that False])
    then show ?thesis by (auto simp: footprint_entries)
  qed
  then show "head_addrs base \<inter> (\<Union>i < kNumShards. entries (Vs ! i)) = {}" unfolding e [symmetric] by blast
qed

text \<open>What a call must do to keep the client's invariant.\<close>

fun new_calls :: "(nat \<times> ('d, 'v) lru_handle) option \<Rightarrow> ('d \<times> slice \<times> 'v) multiset" where
  "new_calls None = {#}"
| "new_calls (Some (a, e)) = {#(h_deleter e, h_key e, h_value e)#}"

lemma client_transition:
  assumes inv: "client_inv base x Vs" and i: "i < kNumShards"
    and tr: "transition (held_count (cl_held x)) (held_count H') n D (sc_shard (cl_cache x) ! i, cl_mem x, Vs ! i) (c', s', V')"
    and n: "\<And>a e. n = Some (a, e) \<Longrightarrow> cm_heap (cl_mem x) a = None \<and> h_hash e = HashSlice (h_key e) \<and> Shard (h_hash e) = i"
    and H': "\<And>a k v. (a, k, v) \<in># H' \<Longrightarrow> (a, k, v) \<in># cl_held x \<or>
      a \<in> entries V' \<and> (\<exists>d n h. payload_at (cm_heap s') a = Some (v, d, n, k, h))"
    and L': "\<And>k. Shard (HashSlice k) \<noteq> i \<Longrightarrow> L' k = cl_latest x k"
      "\<And>a. a \<in> cached V' \<Longrightarrow> \<exists>v d n k h. payload_at (cm_heap s') a = Some (v, d, n, k, h) \<and> L' k = Some v"
  shows "client_inv base (x\<lparr>cl_cache := (cl_cache x)\<lparr>sc_shard := (sc_shard (cl_cache x))[i := c']\<rparr>, cl_mem := s', cl_held := H',
      cl_latest := L', cl_inserted := new_calls n + cl_inserted x\<rparr>) (Vs[i := V'])"
proof -
  let ?cs = "sc_shard (cl_cache x)" and ?s = "cl_mem x"
  let ?m = "cm_heap ?s" and ?m' = "cm_heap s'"
  note v = client_invD [OF inv] and t = tr [unfolded transition_def prod.case]
  note len = pool_okD(1,2) [OF v(1)]
  have C1: "pool_ok (held_count H') (?cs[i := c']) ?m' (Vs[i := V'])" by (rule pool_transition [OF v(1) i tr n])
  have C2: "c_lru (?cs[i := c'] ! j) = base + 2 * j \<and> c_in_use (?cs[i := c'] ! j) = base + 2 * j + 1" if "j < kNumShards" for j
    using v(3) [OF that] v(3) [OF i] t len i by (cases "j = i") simp_all
  note fin = pool_okD(3) [OF v(1)]
  have fr: "frees D (add_new n ?s) s'" using t by simp
  have Hd: "set D \<inter> head_addrs base = {}"
  proof -
    have "dom ?m' = dom (cm_heap (add_new n ?s)) - set D" by (rule frees_dom [OF fr])
    moreover have "head_addrs base \<subseteq> dom ?m'"
    proof -
      have "head_addrs base = (\<Union>j < kNumShards. heads (?cs[i := c'] ! j))" by (rule heads_cover [symmetric]) (rule C2)
      also have "\<dots> \<subseteq> dom ?m'" unfolding pool_okD(6) [OF C1] footprint_entries by (rule UN_mono) auto
      finally show ?thesis .
    qed
    ultimately show ?thesis by blast
  qed
  have same: "payload_at ?m' a = payload_at ?m a" if "a \<in> dom ?m" "a \<notin> set D" for a
  proof -
    have "cm_heap (add_new n ?s) a = ?m a" using that(1) n by (cases n) auto
    with transition_payload [OF tr that(2)] show ?thesis by (simp add: payload_at_def)
  qed
  have C3: "\<exists>j < kNumShards. a \<in> entries (Vs[i := V'] ! j) \<and> (\<exists>d n h. payload_at ?m' a = Some (v, d, n, k, h))"
    if H: "(a, k, v) \<in># H'" for a k v
    using H' [OF H]
  proof
    assume "(a, k, v) \<in># cl_held x"
    from v(4) [OF this] obtain j where j: "j < kNumShards" "a \<in> entries (Vs ! j)" "\<exists>d n h. payload_at ?m a = Some (v, d, n, k, h)"
      by blast
    have D: "a \<notin> set D" using t held_count_pos [OF H] by auto
    from j(3) obtain d0 n0 h0 where "payload_at ?m a = Some (v, d0, n0, k, h0)" by blast
    from same [OF payload_atD(4) [OF this] D] j(3) have p: "\<exists>d n h. payload_at ?m' a = Some (v, d, n, k, h)" by simp
    have "a \<in> entries (Vs[i := V'] ! j)"
    proof (cases "j = i")
      case True
      with j(2) D t have "a \<in> entries V'" by blast
      with True i len show ?thesis by simp
    qed (use j(2) in simp)
    with p j(1) show ?thesis by blast
  next
    assume "a \<in> entries V' \<and> (\<exists>d n h. payload_at ?m' a = Some (v, d, n, k, h))"
    with i len show ?thesis by (intro exI [of _ i]) simp
  qed
  have C4: "\<exists>v d n k h. payload_at ?m' a = Some (v, d, n, k, h) \<and> L' k = Some v"
    if j: "j < kNumShards" "a \<in> cached (Vs[i := V'] ! j)" for j a
  proof (cases "j = i")
    case False
    then have a: "a \<in> cached (Vs ! j)" using j(2) by simp
    from v(5) [OF j(1) a] obtain w d m k h where p: "payload_at ?m a = Some (w, d, m, k, h)" "cl_latest x k = Some w" by blast
    have "placed ?m j a" by (rule pool_okD(7) [OF v(1) j(1)]) (use a in \<open>simp add: entries_def\<close>)
    then have "Shard (HashSlice k) \<noteq> i" using payload_atD(1,2) [OF p(1)] False by (auto simp: placed_def)
    then have L: "L' k = Some w" using L'(1) p(2) by simp
    have "a \<notin> footprint (?cs ! i) (Vs ! i)"
      using pool_okD(5) [OF v(1) i j(1)] False a by (auto simp: footprint_entries entries_def)
    moreover have "a \<notin> new_addrs n" using payload_atD(4) [OF p(1)] n by (cases n) auto
    ultimately have "?m' a = ?m a" using t by (simp add: changes_only_def)
    with p(1) have "payload_at ?m' a = Some (w, d, m, k, h)" by (simp add: payload_at_def)
    with L show ?thesis by blast
  qed (use j i len L'(2) in simp)
  note fin = pool_okD(3) [OF v(1)]
  have acc: "mset (cm_deleted s') + held_by (head_addrs base) ?m' = new_calls n + cl_inserted x"
  proof (cases n)
    case None
    then show ?thesis using frees_live [OF fr _ Hd] fin v(6) by simp
  next
    case (Some p)
    then obtain a e where p: "n = Some (a, e)" by (cases p) auto
    from n [OF this] have a: "?m a = None" by simp
    then have "a \<notin> head_addrs base" using client_heads(1) [OF inv] by auto
    from held_by_insert [OF fin a this, of e] frees_live [OF fr _ Hd] fin v(6) show ?thesis by (simp add: p)
  qed
  show ?thesis
    unfolding client_inv_def Let_def
    using C1 v(2) C2 C3 C4 acc by auto
qed

section \<open>The calls\<close>

lemma entries_views: "cached V \<union> v_erased V = entries V"
  by (simp add: entries_def)

lemma leaves_transition: "leaves held D (c, s, V) (c', s', V') \<Longrightarrow> transition held held None D (c, s, V) (c', s', V')"
  by (auto simp: leaves_def transition_def entries_def)

lemma inserted_transition:
  assumes "inserted held a e D (c, s, V) (c', s', V')"
  shows "transition held (held(a := 1)) (Some (a, e)) D (c, s, V) (c', s', V')"
  using assms by (auto simp: inserted_def transition_def entries_def)

lemma shard_call_Insert:
  assumes inv: "client_inv base x Vs" and a: "a \<noteq> 0" "cm_heap (cl_mem x) a = None" "card (dom (cm_heap (cl_mem x))) < 2 ^ 31"
  obtains C' s' Vs' where "Cache_Insert junk a key val chrg deleter (cl_cache x) (cl_mem x) = Some (C', s')"
    "client_inv base (x\<lparr>cl_cache := C', cl_mem := s', cl_held := add_mset (a, key, val) (cl_held x),
      cl_latest := (cl_latest x)(key \<mapsto> val), cl_inserted := add_mset (deleter, key, val) (cl_inserted x)\<rparr>) Vs'"
    "c_usage (sc_shard C' ! Shard (HashSlice key)) \<le> c_capacity (sc_shard C' ! Shard (HashSlice key)) \<or>
      v_lru (Vs' ! Shard (HashSlice key)) = []"
proof -
  let ?i = "Shard (HashSlice key)" and ?cs = "sc_shard (cl_cache x)" and ?s = "cl_mem x" and ?H = "held_count (cl_held x)"
  note v = client_invD [OF inv]
  note pool = pool_okD [OF v(1)]
  define e where "e = junk\<lparr>h_value := val, h_deleter := deleter, h_charge := chrg, h_key := key, h_hash := HashSlice key,
                  h_in_cache := False, h_refs := 1\<rparr>"
  have "footprint (?cs ! ?i) (Vs ! ?i) \<subseteq> dom (cm_heap ?s)" unfolding pool(6) by (rule UN_upper) simp
  then have "cached (Vs ! ?i) \<subseteq> dom (cm_heap ?s)" by (simp add: footprint_def)
  then have "card (cached (Vs ! ?i)) < 2 ^ 31" using card_mono [OF pool(3)] a(3) by (metis le_less_trans)
  then obtain c' s' V' D where r: "LRU_Insert junk a key (HashSlice key) val chrg deleter (?cs ! ?i) ?s = Some (c', s')"
    "inserted ?H a e D (?cs ! ?i, ?s, Vs ! ?i) (c', s', V')"
    by (rule LRU_Insert_ok [OF pool(4) [OF Shard_less] a(1,2) _ e_def])
  note ins = r(2) [unfolded inserted_def prod.case]
  note tr = inserted_transition [OF r(2)]
  have no: "?H a = 0"
  proof (rule ccontr)
    assume "?H a \<noteq> 0"
    then have "0 < ?H a" by simp
    then obtain k w where "(a, k, w) \<in># cl_held x" by (rule held_count_obtain)
    from v(4) [OF this] a(2) show False by (auto simp: payload_at_def)
  qed
  have H: "held_count (add_mset (a, key, val) (cl_held x)) = ?H(a := 1)" using no by simp
  have p: "payload_at (cm_heap s') y = payload_at ((cm_heap ?s)(a \<mapsto> e)) y" if "y \<notin> set D" for y
    using transition_payload [OF tr that] by simp
  have aD: "a \<notin> set D" "a \<in> entries V'" using ins by (auto simp: entries_def)
  have pa: "payload_at (cm_heap s') a = Some (val, deleter, chrg, key, HashSlice key)"
    using p [OF aD(1)] by (simp add: payload_at_def payload_def e_def)
  have L: "\<exists>w d n k h. payload_at (cm_heap s') y = Some (w, d, n, k, h) \<and> ((cl_latest x)(key \<mapsto> val)) k = Some w"
    if y: "y \<in> cached V'" for y
  proof (cases "y = a")
    case True
    with pa show ?thesis by simp
  next
    case False
    have yV: "y \<in> cached (Vs ! ?i)" "\<not> matches (cm_heap ?s) key (HashSlice key) y"
      using ins y False pool(8) [OF Shard_less, of "HashSlice key"] by (auto simp: e_def split: if_splits)
    from v(5) [OF Shard_less yV(1)] obtain w d n k h where q: "payload_at (cm_heap ?s) y = Some (w, d, n, k, h)" "cl_latest x k = Some w"
      by blast
    have "placed (cm_heap ?s) ?i y" by (rule pool(7) [OF Shard_less]) (use yV(1) in \<open>simp add: entries_def\<close>)
    then have "h = HashSlice k" using payload_atD(1,2) [OF q(1)] by (simp add: placed_def)
    with yV(2) q(1) have "k \<noteq> key" by (auto simp: matches_payload)
    moreover have "y \<notin> set D" using ins y by (auto simp: entries_def cached_def)
    ultimately show ?thesis using p [of y] q False by (simp add: payload_at_upd)
  qed
  have "client_inv base (x\<lparr>cl_cache := (cl_cache x)\<lparr>sc_shard := ?cs[?i := c']\<rparr>, cl_mem := s', cl_held := add_mset (a, key, val) (cl_held x),
      cl_latest := (cl_latest x)(key \<mapsto> val), cl_inserted := new_calls (Some (a, e)) + cl_inserted x\<rparr>) (Vs[?i := V'])"
    by (rule client_transition [OF inv Shard_less tr [folded H]]) (use a(2) pa aD L in \<open>auto simp: e_def\<close>)
  then have ci: "client_inv base (x\<lparr>cl_cache := (cl_cache x)\<lparr>sc_shard := ?cs[?i := c']\<rparr>, cl_mem := s', cl_held := add_mset (a, key, val) (cl_held x),
      cl_latest := (cl_latest x)(key \<mapsto> val), cl_inserted := add_mset (deleter, key, val) (cl_inserted x)\<rparr>) (Vs[?i := V'])"
    by (simp add: e_def)
  have run: "Cache_Insert junk a key val chrg deleter (cl_cache x) ?s = Some ((cl_cache x)\<lparr>sc_shard := ?cs[?i := c']\<rparr>, s')"
    by (simp add: Cache_Insert_def on_shard_def Let_def r(1))
  show thesis
    by (rule that [OF run ci]) (use ins pool(1,2) in auto)
qed

text \<open>Looking up a key finds an entry only when the key has a latest value, and then an entry with that value.\<close>

lemma shard_call_Lookup:
  assumes inv: "client_inv base x Vs" and few: "size (cl_held x) < 2 ^ 31"
  obtains (absent) "Cache_Lookup key (cl_cache x) (cl_mem x) = Some (0, cl_mem x)"
    | (present) a s' v Vs' where "Cache_Lookup key (cl_cache x) (cl_mem x) = Some (a, s')" "a \<noteq> 0"
        "cl_latest x key = Some v" "Cache_Value a s' = Some v"
        "client_inv base (x\<lparr>cl_mem := s', cl_held := add_mset (a, key, v) (cl_held x)\<rparr>) Vs'"
proof -
  let ?i = "Shard (HashSlice key)" and ?cs = "sc_shard (cl_cache x)" and ?s = "cl_mem x" and ?H = "held_count (cl_held x)"
  note v = client_invD [OF inv]
  note pool = pool_okD [OF v(1)]
  have bound: "\<forall>a \<in> cached (Vs ! ?i). ?H a + 2 < 2 ^ 32"
  proof
    fix a
    show "?H a + 2 < 2 ^ 32" using held_count_le [of "cl_held x" a] few by simp
  qed
  from pool(4) [OF Shard_less] bound show thesis
  proof (cases rule: LRU_Lookup_cases [where key = key and hash = "HashSlice key"])
    case absent
    then show thesis by (intro that(1)) (simp add: Cache_Lookup_def Let_def)
  next
    case (present a s' V')
    from v(5) [OF Shard_less present(1)] obtain w d n k h where q: "payload_at (cm_heap ?s) a = Some (w, d, n, k, h)" "cl_latest x k = Some w"
      by blast
    from q(1) present(3) have k: "k = key" by (auto simp: matches_payload)
    have H: "held_count (add_mset (a, key, w) (cl_held x)) = ?H(a := ?H a + 1)" by simp
    have aF: "a \<in> footprint (?cs ! ?i) (Vs ! ?i)" using present(1) by (simp add: footprint_def)
    have tr: "transition ?H (?H(a := ?H a + 1)) None [] (?cs ! ?i, ?s, Vs ! ?i) (?cs ! ?i, s', V')"
      using present aF by (auto simp: transition_def entries_def)
    have same: "payload_at (cm_heap s') y = payload_at (cm_heap ?s) y" for y
      using transition_payload [OF tr, of y] by simp
    have "client_inv base (x\<lparr>cl_cache := (cl_cache x)\<lparr>sc_shard := ?cs[?i := ?cs ! ?i]\<rparr>, cl_mem := s', cl_held := add_mset (a, key, w) (cl_held x),
        cl_latest := cl_latest x, cl_inserted := new_calls (None :: (nat \<times> ('a, 'b) lru_handle) option) + cl_inserted x\<rparr>) (Vs[?i := V'])"
    proof (rule client_transition [OF inv Shard_less tr [folded H]])
      show "(b, k', v') \<in># add_mset (a, key, w) (cl_held x) \<Longrightarrow> (b, k', v') \<in># cl_held x \<or>
          b \<in> entries V' \<and> (\<exists>d n h. payload_at (cm_heap s') b = Some (v', d, n, k', h))" for b k' v'
        using q(1) k present(1,6) by (auto simp: same entries_def)
      show "\<exists>v d n k h. payload_at (cm_heap s') y = Some (v, d, n, k, h) \<and> cl_latest x k = Some v" if "y \<in> cached V'" for y
        using v(5) [OF Shard_less, of y] that present(6) by (simp add: same)
    qed simp_all
    then have ci: "client_inv base (x\<lparr>cl_mem := s', cl_held := add_mset (a, key, w) (cl_held x)\<rparr>) (Vs[?i := V'])" by simp
    have "Cache_Value a s' = Some w" using same [of a] q(1) by (auto simp: Cache_Value_def payload_at_def payload_def)
    moreover have "Cache_Lookup key (cl_cache x) ?s = Some (a, s')" using present(4) by (simp add: Cache_Lookup_def Let_def)
    ultimately show thesis by (intro that(2) [OF _ present(2) _ _ ci]) (use q(2) k in simp_all)
  qed
qed

lemma shard_call_Release:
  assumes inv: "client_inv base x Vs" and h: "(a, key, val) \<in># cl_held x"
  obtains s' Vs' where "Cache_Release a (cl_cache x) (cl_mem x) = Some s'"
    "client_inv base (x\<lparr>cl_mem := s', cl_held := cl_held x - {#(a, key, val)#}\<rparr>) Vs'"
proof -
  let ?cs = "sc_shard (cl_cache x)" and ?s = "cl_mem x" and ?H = "held_count (cl_held x)"
  note v = client_invD [OF inv]
  note pool = pool_okD [OF v(1)]
  from v(4) [OF h] obtain i d n hh where i: "i < kNumShards" "a \<in> entries (Vs ! i)" "payload_at (cm_heap ?s) a = Some (val, d, n, key, hh)"
    by blast
  from payload_atD(5) [OF i(3)] obtain e where e: "cm_heap ?s a = Some e" by blast
  have "Shard (h_hash e) = i" using pool(7) [OF i(1,2)] by (auto simp: placed_def hash_at_def e)
  note pos = held_count_pos [OF h]
  have H: "held_count (cl_held x - {#(a, key, val)#}) = ?H(a := ?H a - 1)" using held_count_remove [OF h] by simp
  obtain s' V' D where r: "LRU_Release a (?cs ! i) ?s = Some s'" "shard_ok (?H(a := ?H a - 1)) (?cs ! i) (cm_heap s') V'"
    "cached V' = cached (Vs ! i)" "v_erased V' = v_erased (Vs ! i) - set D" "D = (if a \<in> v_erased (Vs ! i) \<and> ?H a = 1 then [a] else [])"
    "frees D ?s s'" "changes_only (footprint (?cs ! i) (Vs ! i)) (cm_heap ?s) (cm_heap s')"
    by (rule LRU_Release_ok [OF pool(4) [OF i(1)] _ pos]) (use i(2) in \<open>simp_all add: entries_def\<close>)
  have lo: "lists_ok (?cs ! i) (cm_heap ?s) (Vs ! i)" using pool(4) [OF i(1)] by (simp add: shard_inv_def)
  have D: "set D \<inter> cached (Vs ! i) = {}" using r(5) lo by (auto simp: lists_ok_def)
  have tr: "transition ?H (?H(a := ?H a - 1)) None D (?cs ! i, ?s, Vs ! i) (?cs ! i, s', V')"
    unfolding transition_def prod.case
  proof (intro conjI)
    show "entries V' = (entries (Vs ! i) \<union> new_addrs None) - set D" using r(3,4) D by (auto simp: entries_def)
    show "\<forall>y. y \<notin> footprint (?cs ! i) (Vs ! i) \<union> new_addrs None \<longrightarrow> (?H(a := ?H a - 1)) y = ?H y"
      using i(2) by (simp add: footprint_entries)
    show "\<forall>y \<in> set D. (?H(a := ?H a - 1)) y = 0" using r(5) by simp
  qed (use r in simp_all)
  have same: "payload_at (cm_heap s') y = payload_at (cm_heap ?s) y" if "y \<notin> set D" for y
    using transition_payload [OF tr that] by simp
  have "client_inv base (x\<lparr>cl_cache := (cl_cache x)\<lparr>sc_shard := ?cs[i := ?cs ! i]\<rparr>, cl_mem := s', cl_held := cl_held x - {#(a, key, val)#},
      cl_latest := cl_latest x, cl_inserted := new_calls (None :: (nat \<times> ('a, 'b) lru_handle) option) + cl_inserted x\<rparr>) (Vs[i := V'])"
  proof (rule client_transition [OF inv i(1) tr [folded H]])
    show "(b, k', v') \<in># cl_held x - {#(a, key, val)#} \<Longrightarrow> (b, k', v') \<in># cl_held x \<or>
        b \<in> entries V' \<and> (\<exists>d n h. payload_at (cm_heap s') b = Some (v', d, n, k', h))" for b k' v'
      by (blast dest: in_diffD)
    show "\<exists>v d n k h. payload_at (cm_heap s') y = Some (v, d, n, k, h) \<and> cl_latest x k = Some v" if "y \<in> cached V'" for y
    proof -
      have y: "y \<in> cached (Vs ! i)" using that r(3) by simp
      then have "y \<notin> set D" using D by blast
      with v(5) [OF i(1) y] show ?thesis by (simp add: same)
    qed
  qed simp_all
  then have ci: "client_inv base (x\<lparr>cl_mem := s', cl_held := cl_held x - {#(a, key, val)#}\<rparr>) (Vs[i := V'])" by simp
  have "Cache_Release a (cl_cache x) ?s = Some s'"
    using e r(1) \<open>Shard (h_hash e) = i\<close> by (simp add: Cache_Release_def)
  then show thesis using ci by (rule that)
qed

lemma shard_call_shrink:
  assumes inv: "client_inv base x Vs" and i: "i < kNumShards"
    and sh: "leaves (held_count (cl_held x)) D (sc_shard (cl_cache x) ! i, cl_mem x, Vs ! i) (c', s', V')"
    and L: "\<And>k. Shard (HashSlice k) \<noteq> i \<Longrightarrow> L k = cl_latest x k"
      "\<And>a k. a \<in> cached V' \<Longrightarrow> key_at (cm_heap (cl_mem x)) a = k \<Longrightarrow> L k = cl_latest x k"
  shows "client_inv base (x\<lparr>cl_cache := (cl_cache x)\<lparr>sc_shard := (sc_shard (cl_cache x))[i := c']\<rparr>, cl_mem := s', cl_latest := L\<rparr>) (Vs[i := V'])"
proof -
  note v = client_invD [OF inv] and tr = leaves_transition [OF sh]
  have "client_inv base (x\<lparr>cl_cache := (cl_cache x)\<lparr>sc_shard := (sc_shard (cl_cache x))[i := c']\<rparr>, cl_mem := s', cl_held := cl_held x,
      cl_latest := L, cl_inserted := new_calls (None :: (nat \<times> ('a, 'b) lru_handle) option) + cl_inserted x\<rparr>) (Vs[i := V'])"
  proof (rule client_transition [OF inv i tr])
    fix a
    assume a: "a \<in> cached V'"
    have old: "a \<in> cached (Vs ! i)" "a \<notin> set D" using sh a by (auto simp: leaves_def)
    from v(5) [OF i old(1)] obtain w d n k h where q: "payload_at (cm_heap (cl_mem x)) a = Some (w, d, n, k, h)" "cl_latest x k = Some w"
      by blast
    with L(2) [OF a payload_atD(1) [OF q(1)]] transition_payload [OF tr old(2)]
    show "\<exists>v d n k h. payload_at (cm_heap s') a = Some (v, d, n, k, h) \<and> L k = Some v" by simp
  qed (use L(1) in simp_all)
  then show ?thesis by simp
qed

lemma shard_call_Erase:
  assumes inv: "client_inv base x Vs"
  obtains C' s' Vs' where "Cache_Erase key (cl_cache x) (cl_mem x) = Some (C', s')"
    "client_inv base (x\<lparr>cl_cache := C', cl_mem := s', cl_latest := (cl_latest x)(key := None)\<rparr>) Vs'"
proof -
  let ?i = "Shard (HashSlice key)" and ?cs = "sc_shard (cl_cache x)" and ?s = "cl_mem x" and ?H = "held_count (cl_held x)"
  note v = client_invD [OF inv]
  note pool = pool_okD [OF v(1)]
  have ok: "shard_ok ?H (?cs ! ?i) (cm_heap ?s) (Vs ! ?i)" by (rule pool(4)) simp
  have other: "((cl_latest x)(key := None)) k = cl_latest x k" if "Shard (HashSlice k) \<noteq> ?i" for k using that by auto
  have keep: "((cl_latest x)(key := None)) k = cl_latest x k"
    if a: "a \<in> cached (Vs ! ?i)" "\<not> matches (cm_heap ?s) key (HashSlice key) a" "key_at (cm_heap ?s) a = k" for a k
  proof -
    have "placed (cm_heap ?s) ?i a" by (rule pool(7) [OF Shard_less]) (use a(1) in \<open>simp add: entries_def\<close>)
    then have "hash_at (cm_heap ?s) a = HashSlice k" using a(3) by (auto simp: placed_def)
    moreover from v(5) [OF Shard_less a(1)] obtain w d n k' h where "payload_at (cm_heap ?s) a = Some (w, d, n, k', h)" by blast
    then have "a \<in> dom (cm_heap ?s)" by (rule payload_atD(4))
    ultimately have "k \<noteq> key" using a(2,3) by (auto simp: matches_at)
    then show ?thesis by simp
  qed
  have run: "Cache_Erase key (cl_cache x) ?s = Some ((cl_cache x)\<lparr>sc_shard := ?cs[?i := c']\<rparr>, s')"
    if "LRU_Erase key (HashSlice key) (?cs ! ?i) ?s = Some (c', s')" for c' s'
    using that by (simp add: Cache_Erase_def on_shard_def Let_def)
  from ok show thesis
  proof (cases rule: LRU_Erase_cases [where key = key and hash = "HashSlice key"])
    case absent
    have "client_inv base (x\<lparr>cl_cache := (cl_cache x)\<lparr>sc_shard := ?cs[?i := ?cs ! ?i]\<rparr>, cl_mem := ?s,
        cl_latest := (cl_latest x)(key := None)\<rparr>) (Vs[?i := Vs ! ?i])"
    proof (rule shard_call_shrink [OF inv Shard_less leaves_refl [OF ok]])
      fix k
      assume "Shard (HashSlice k) \<noteq> ?i"
      then show "((cl_latest x)(key := None)) k = cl_latest x k" by (rule other)
    next
      fix b k
      assume b: "b \<in> cached (Vs ! ?i)" "key_at (cm_heap ?s) b = k"
      show "((cl_latest x)(key := None)) k = cl_latest x k"
        by (rule keep [OF b(1) bspec [OF absent(1) b(1)] b(2)])
    qed
    then show thesis by (rule that [OF run [OF absent(2)]])
  next
    case (present a c' s')
    have cV: "cached (erased_view ?H a (Vs ! ?i)) = cached (Vs ! ?i) - {a}" by simp
    have tab: "table_holds (cm_heap ?s) (c_table (?cs ! ?i)) (cached (Vs ! ?i))" using ok by (simp add: shard_inv_def)
    have "client_inv base (x\<lparr>cl_cache := (cl_cache x)\<lparr>sc_shard := ?cs[?i := c']\<rparr>, cl_mem := s',
        cl_latest := (cl_latest x)(key := None)\<rparr>) (Vs[?i := erased_view ?H a (Vs ! ?i)])"
    proof (rule shard_call_shrink [OF inv Shard_less present(4)])
      fix k
      assume "Shard (HashSlice k) \<noteq> ?i"
      then show "((cl_latest x)(key := None)) k = cl_latest x k" by (rule other)
    next
      fix b k
      assume b: "b \<in> cached (erased_view ?H a (Vs ! ?i))" "key_at (cm_heap ?s) b = k"
      then have "\<not> matches (cm_heap ?s) key (HashSlice key) b"
        using table_unique [OF tab present(1) _ present(2), of b] unfolding cV by blast
      then show "((cl_latest x)(key := None)) k = cl_latest x k" using keep b unfolding cV by blast
    qed
    then show thesis by (rule that [OF run [OF present(3)]])
  qed
qed

lemma prune_shards_ok:
  assumes "client_inv base x Vs" "set is \<subseteq> {..<kNumShards}"
  shows "\<exists>C' s' Vs'. prune_shards is (cl_cache x) (cl_mem x) = Some (C', s') \<and>
    client_inv base (x\<lparr>cl_cache := C', cl_mem := s'\<rparr>) Vs'"
  using assms
proof (induction "is" arbitrary: x Vs)
  case Nil
  then show ?case by auto
next
  case (Cons i "is")
  let ?cs = "sc_shard (cl_cache x)" and ?s = "cl_mem x"
  note v = client_invD [OF Cons.prems(1)]
  have i: "i < kNumShards" using Cons.prems(2) by simp
  from LRU_Prune_ok [OF pool_okD(4) [OF v(1) i]] obtain c' s' where r: "LRU_Prune (?cs ! i) ?s = Some (c', s')"
    "leaves (held_count (cl_held x)) (v_lru (Vs ! i)) (?cs ! i, ?s, Vs ! i) (c', s', (Vs ! i)\<lparr>v_lru := []\<rparr>)" by blast
  define y where "y = x\<lparr>cl_cache := (cl_cache x)\<lparr>sc_shard := ?cs[i := c']\<rparr>, cl_mem := s'\<rparr>"
  have "client_inv base y (Vs[i := (Vs ! i)\<lparr>v_lru := []\<rparr>])"
    using shard_call_shrink [OF Cons.prems(1) i r(2), of "cl_latest x"] by (simp add: y_def)
  moreover have "set is \<subseteq> {..<kNumShards}" using Cons.prems(2) by simp
  ultimately obtain C' s'' Vs' where "prune_shards is (cl_cache y) (cl_mem y) = Some (C', s'')"
    "client_inv base (y\<lparr>cl_cache := C', cl_mem := s''\<rparr>) Vs'" using Cons.IH by blast
  then show ?case by (intro exI [of _ C'] exI [of _ s''] exI [of _ Vs']) (simp add: r(1) y_def)
qed

lemma shard_call_Prune:
  assumes "client_inv base x Vs"
  obtains C' s' Vs' where "Cache_Prune (cl_cache x) (cl_mem x) = Some (C', s')"
    "client_inv base (x\<lparr>cl_cache := C', cl_mem := s'\<rparr>) Vs'"
proof -
  have "set [0..<kNumShards] \<subseteq> {..<kNumShards}" by auto
  from prune_shards_ok [OF assms this] show thesis using that unfolding Cache_Prune_def by blast
qed

end
