(* ===== verification/LruProps.thy ===== *)
theory LruProps
  imports LruClient
begin

text \<open>
  The properties of the LRU cache: what holds in every state a client can reach from \<open>NewLRUCache\<close>.
\<close>

section \<open>The new cache\<close>

definition empty_view :: view where
  "empty_view = \<lparr>v_lru = [], v_used = [], v_erased = {}\<rparr>"

lemma empty_view_simps [simp]: "cached empty_view = {}" "v_erased empty_view = {}" "entries empty_view = {}" "v_lru empty_view = []"
  by (simp_all add: empty_view_def cached_def entries_def)

definition fresh_shard :: "u64 \<Rightarrow> nat \<Rightarrow> ('d, 'v) cache_heap \<Rightarrow> lru_cache \<Rightarrow> nat \<Rightarrow> bool" where
  "fresh_shard per_shard base m c i \<longleftrightarrow> c_lru c = base + 2 * i \<and> c_in_use c = base + 2 * i + 1 \<and> c_capacity c = per_shard \<and>
     shard_ok (\<lambda>_. 0) c m empty_view"

lemma make_shards_ok:
  assumes "distinct is"
  shows "\<exists>cs s'. make_shards junk base per_shard is s = Some (cs, s') \<and> list_all2 (fresh_shard per_shard base (cm_heap s')) cs is \<and>
    dom (cm_heap s') = dom (cm_heap s) \<union> (\<Union>i \<in> set is. {base + 2 * i, base + 2 * i + 1}) \<and>
    changes_only (\<Union>i \<in> set is. {base + 2 * i, base + 2 * i + 1}) (cm_heap s) (cm_heap s') \<and> cm_deleted s' = cm_deleted s"
  using assms
proof (induction "is" arbitrary: s)
  case Nil
  then show ?case by simp
next
  case (Cons i "is")
  have "base + 2 * i \<noteq> base + 2 * i + 1" by simp
  then obtain c s1 where c: "LRUCache junk (base + 2 * i) (base + 2 * i + 1) s = Some (c, s1)" "c_lru c = base + 2 * i"
    "c_in_use c = base + 2 * i + 1" "shard_ok (\<lambda>_. 0) c (cm_heap s1) \<lparr>v_lru = [], v_used = [], v_erased = {}\<rparr>"
    "cm_deleted s1 = cm_deleted s" "dom (cm_heap s1) = dom (cm_heap s) \<union> {base + 2 * i, base + 2 * i + 1}"
    "changes_only {base + 2 * i, base + 2 * i + 1} (cm_heap s) (cm_heap s1)"
    by (rule LRUCache_ok [where held = "\<lambda>_. 0"])
  have "distinct is" "i \<notin> set is" using Cons.prems by simp_all
  from Cons.IH [OF this(1), of s1] obtain cs s2 where r: "make_shards junk base per_shard is s1 = Some (cs, s2)"
    "list_all2 (fresh_shard per_shard base (cm_heap s2)) cs is"
    "dom (cm_heap s2) = dom (cm_heap s1) \<union> (\<Union>i \<in> set is. {base + 2 * i, base + 2 * i + 1})"
    "changes_only (\<Union>i \<in> set is. {base + 2 * i, base + 2 * i + 1}) (cm_heap s1) (cm_heap s2)" "cm_deleted s2 = cm_deleted s1"
    by blast
  have "y \<notin> (\<Union>i \<in> set is. {base + 2 * i, base + 2 * i + 1})" if "y \<in> {base + 2 * i, base + 2 * i + 1}" for y
  proof
    assume "y \<in> (\<Union>i \<in> set is. {base + 2 * i, base + 2 * i + 1})"
    then obtain j where j: "j \<in> set is" "y \<in> {base + 2 * j, base + 2 * j + 1}" by blast
    with that have "i = j" by auto
    with j(1) \<open>i \<notin> set is\<close> show False by simp
  qed
  then have same: "cm_heap s2 y = cm_heap s1 y" if "y \<in> {base + 2 * i, base + 2 * i + 1}" for y
    using r(4) that unfolding changes_only_def by blast
  have "shard_ok (\<lambda>_. 0) c (cm_heap s2) empty_view"
    by (rule shard_inv_frame [OF c(4) [folded empty_view_def]])
      (use same in \<open>auto simp: footprint_entries heads_def c(2,3)\<close>)
  then have "shard_ok (\<lambda>_. 0) (LRU_SetCapacity per_shard c) (cm_heap s2) empty_view" by (rule shard_inv_capacity)
  then have "fresh_shard per_shard base (cm_heap s2) (LRU_SetCapacity per_shard c) i"
    using c(2,3) by (simp add: fresh_shard_def LRU_SetCapacity_def)
  with c(1,5,6) r(1,2,3,5) have "make_shards junk base per_shard (i # is) s = Some (LRU_SetCapacity per_shard c # cs, s2)"
    "list_all2 (fresh_shard per_shard base (cm_heap s2)) (LRU_SetCapacity per_shard c # cs) (i # is)"
    "dom (cm_heap s2) = dom (cm_heap s) \<union> (\<Union>i \<in> set (i # is). {base + 2 * i, base + 2 * i + 1})" "cm_deleted s2 = cm_deleted s"
    by (simp, simp, auto)
  moreover have "changes_only (\<Union>i \<in> set (i # is). {base + 2 * i, base + 2 * i + 1}) (cm_heap s) (cm_heap s2)"
    by (rule changes_only_trans [OF changes_only_mono [OF c(7)] changes_only_mono [OF r(4)]]) auto
  ultimately show ?case by blast
qed

definition empty_mem :: "('d, 'v) cache_mem" where
  "empty_mem = \<lparr>cm_heap = Map.empty, cm_deleted = []\<rparr>"

text \<open>A client with a new cache.\<close>

definition cache_starts :: "('d, 'v) lru_handle \<Rightarrow> nat \<Rightarrow> u64 \<Rightarrow> ('d, 'v) cache_client \<Rightarrow> bool" where
  "cache_starts junk base capacity x \<longleftrightarrow>
     NewLRUCache junk base capacity empty_mem = Some (cl_cache x, cl_mem x) \<and>
     cl_held x = {#} \<and> cl_latest x = Map.empty \<and> cl_inserted x = {#}"

lemma held_count_empty: "held_count {#} = (\<lambda>_. 0)"
  by (rule ext) simp

lemma NewLRUCache_ok:
  assumes "0 < base"
  shows "\<exists>C s. NewLRUCache junk base capacity empty_mem = Some (C, s) \<and>
    client_inv base \<lparr>cl_cache = C, cl_mem = s, cl_held = {#}, cl_latest = Map.empty, cl_inserted = {#}\<rparr> (replicate kNumShards empty_view)"
proof -
  define per_shard where "per_shard = (capacity + (of_nat kNumShards - 1)) div of_nat kNumShards"
  have "distinct [0..<kNumShards]" by simp
  from make_shards_ok [OF this, of junk base per_shard empty_mem] obtain cs s where r:
    "make_shards junk base per_shard [0..<kNumShards] empty_mem = Some (cs, s)"
    "list_all2 (fresh_shard per_shard base (cm_heap s)) cs [0..<kNumShards]"
    "dom (cm_heap s) = (\<Union>i \<in> set [0..<kNumShards]. {base + 2 * i, base + 2 * i + 1})" "cm_deleted s = []"
    by (auto simp: empty_mem_def)
  let ?C = "\<lparr>sc_shard = cs, sc_last_id = 0\<rparr>" and ?Vs = "replicate kNumShards empty_view"
  have len: "length cs = kNumShards" using list_all2_lengthD [OF r(2)] by simp
  have f: "fresh_shard per_shard base (cm_heap s) (cs ! i) i" if "i < kNumShards" for i
    using list_all2_nthD2 [OF r(2), of i] that by simp
  have fp: "footprint (cs ! i) (?Vs ! i) = {base + 2 * i, base + 2 * i + 1}" if "i < kNumShards" for i
    using f [OF that] that by (simp add: fresh_shard_def footprint_entries heads_def)
  have "pool_ok (\<lambda>_. 0) cs (cm_heap s) ?Vs"
    unfolding pool_ok_def
  proof (intro conjI allI impI)
    show "finite (dom (cm_heap s))" unfolding r(3) by simp
    show "dom (cm_heap s) = (\<Union>i < kNumShards. footprint (cs ! i) (?Vs ! i))" 
      unfolding r(3) by (rule SUP_cong) (use fp in \<open>auto simp del: nth_replicate\<close>)
    show "footprint (cs ! i) (?Vs ! i) \<inter> footprint (cs ! j) (?Vs ! j) = {}"
      if "i < kNumShards" "j < kNumShards" "i \<noteq> j" for i j
      unfolding fp [OF that(1)] fp [OF that(2)] using that(3) by (auto; presburger)
    show "shard_ok (\<lambda>_. 0) (cs ! i) (cm_heap s) (?Vs ! i)" if "i < kNumShards" for i
      using f [OF that] that by (simp add: fresh_shard_def)
  qed (use len in simp_all)
  moreover have "held_by (head_addrs base) (cm_heap s) = {#}"
  proof -
    have "dom (cm_heap s) \<subseteq> head_addrs base" unfolding r(3) by (auto simp: head_addrs_def)
    then have "dom (cm_heap s) - head_addrs base = {}" by blast
    then show ?thesis unfolding held_by_def by (simp only: mset_set.empty image_mset_empty)
  qed
  ultimately have "client_inv base \<lparr>cl_cache = ?C, cl_mem = s, cl_held = {#}, cl_latest = Map.empty, cl_inserted = {#}\<rparr> ?Vs"
    using f assms r(4) by (simp add: client_inv_def fresh_shard_def held_count_empty)
  moreover have "NewLRUCache junk base capacity empty_mem = Some (?C, s)"
    using r(1) by (simp add: NewLRUCache_def per_shard_def Let_def)
  ultimately show ?thesis by blast
qed

section \<open>Reachable states\<close>

lemma cache_step_inv:
  assumes "cache_step x y" "client_inv base x Vs"
  shows "\<exists>Vs'. client_inv base y Vs'"
  using assms
proof cases
  case (step_Insert a junk key val chrg deleter C' s')
  obtain C'' s'' Vs' where "Cache_Insert junk a key val chrg deleter (cl_cache x) (cl_mem x) = Some (C'', s'')"
    "client_inv base (x\<lparr>cl_cache := C'', cl_mem := s'', cl_held := add_mset (a, key, val) (cl_held x),
      cl_latest := (cl_latest x)(key \<mapsto> val), cl_inserted := add_mset (deleter, key, val) (cl_inserted x)\<rparr>) Vs'"
    by (rule shard_call_Insert [OF assms(2) step_Insert(2-4), of junk key val chrg deleter])
  with step_Insert show ?thesis by auto
next
  case (step_hit key a s')
  from assms(2) step_hit(2) show ?thesis
    by (cases rule: shard_call_Lookup [where key = key]) (use step_hit in auto)
next
  case (step_miss key s')
  from assms(2) step_miss(2) show ?thesis
    by (cases rule: shard_call_Lookup [where key = key]) (use step_miss assms(2) in auto)
next
  case (step_Release a key val s')
  obtain s'' Vs' where "Cache_Release a (cl_cache x) (cl_mem x) = Some s''"
    "client_inv base (x\<lparr>cl_mem := s'', cl_held := cl_held x - {#(a, key, val)#}\<rparr>) Vs'"
    by (rule shard_call_Release [OF assms(2) step_Release(2)])
  with step_Release show ?thesis by auto
next
  case (step_Erase key C' s')
  obtain C'' s'' Vs' where "Cache_Erase key (cl_cache x) (cl_mem x) = Some (C'', s'')"
    "client_inv base (x\<lparr>cl_cache := C'', cl_mem := s'', cl_latest := (cl_latest x)(key := None)\<rparr>) Vs'"
    by (rule shard_call_Erase [OF assms(2), of key])
  with step_Erase show ?thesis by auto
next
  case (step_Prune C' s')
  obtain C'' s'' Vs' where "Cache_Prune (cl_cache x) (cl_mem x) = Some (C'', s'')"
    "client_inv base (x\<lparr>cl_cache := C'', cl_mem := s''\<rparr>) Vs'"
    by (rule shard_call_Prune [OF assms(2)])
  with step_Prune show ?thesis by auto
next
  case step_NewId
  then show ?thesis
    using assms(2) by (intro exI [of _ Vs]) (simp add: client_inv_def Cache_NewId_def Let_def)
qed

lemma reachable_inv:
  assumes "cache_starts junk base capacity x" "0 < base" "cache_step\<^sup>*\<^sup>* x y"
  shows "\<exists>Vs. client_inv base y Vs"
  using assms(3)
proof (induction rule: rtranclp_induct)
  case base
  from NewLRUCache_ok [OF assms(2), of junk capacity] assms(1) show ?case
    by (cases x) (auto simp: cache_starts_def)
next
  case (step y z)
  then show ?case using cache_step_inv by blast
qed

section \<open>An example\<close>

definition junk_handle :: "(unit, nat) lru_handle" where
  "junk_handle = \<lparr>h_value = 0, h_deleter = (), h_next_hash = 0, h_next = 0, h_prev = 0, h_charge = 0, h_key = [],
     h_in_cache = False, h_refs = 0, h_hash = 0\<rparr>"

lemma small_heap:
  assumes inv: "client_inv base x Vs" and n: "size (cl_inserted x) \<le> 1"
  shows "card (dom (cm_heap (cl_mem x))) < 2 ^ 31" "\<exists>a. a \<noteq> 0 \<and> cm_heap (cl_mem x) a = None"
proof -
  let ?m = "cm_heap (cl_mem x)"
  note fin = pool_okD(3) [OF client_invD(1) [OF inv]]
  have "size (held_by (head_addrs base) ?m) \<le> 1" using n unfolding client_invD(6) [OF inv] by simp
  then have "card (dom ?m - head_addrs base) \<le> 1" by (simp add: held_by_def)
  moreover have "card (head_addrs base) = 32" by (simp add: head_addrs_def kNumShards_def kNumShardBits_def)
  moreover have "dom ?m = head_addrs base \<union> (dom ?m - head_addrs base)" using client_heads(1) [OF inv] by blast
  ultimately have "card (dom ?m) \<le> 33" using card_Un_le [of "head_addrs base" "dom ?m - head_addrs base"] by simp
  then show "card (dom ?m) < 2 ^ 31" by simp
  have "infinite (- insert 0 (dom ?m))" using fin by (simp add: finite_compl)
  then obtain a where "a \<in> - insert 0 (dom ?m)" using infinite_imp_nonempty by blast
  then show "\<exists>a. a \<noteq> 0 \<and> ?m a = None" by (auto intro!: exI [of _ a])
qed

text \<open>A client that inserts the value 7 under the key 1 into a new cache.\<close>

lemma example_client:
  obtains x y a b where "cache_starts junk_handle 1 64 x" "cache_step\<^sup>*\<^sup>* x y" "(a, [1], 7) \<in># cl_held y" "size (cl_held y) = 1"
    "b \<noteq> 0" "cm_heap (cl_mem y) b = None" "card (dom (cm_heap (cl_mem y))) < 2 ^ 31"
proof -
  from NewLRUCache_ok [of 1 junk_handle 64] obtain C s where n: "NewLRUCache junk_handle 1 64 empty_mem = Some (C, s)"
    "client_inv 1 \<lparr>cl_cache = C, cl_mem = s, cl_held = {#}, cl_latest = Map.empty, cl_inserted = {#}\<rparr> (replicate kNumShards empty_view)"
    by auto
  define x where "x = \<lparr>cl_cache = C, cl_mem = s, cl_held = {#}, cl_latest = Map.empty, cl_inserted = ({#} :: (unit \<times> slice \<times> nat) multiset)\<rparr>"
  have inv: "client_inv 1 x (replicate kNumShards empty_view)" using n(2) by (simp add: x_def)
  have start: "cache_starts junk_handle 1 64 x" using n(1) by (simp add: cache_starts_def x_def)
  have "size (cl_inserted x) \<le> 1" by (simp add: x_def)
  from small_heap [OF inv this] obtain a where a: "a \<noteq> 0" "cm_heap (cl_mem x) a = None" "card (dom (cm_heap (cl_mem x))) < 2 ^ 31"
    by blast
  obtain C' s' Vs' where r: "Cache_Insert junk_handle a [1] 7 10 () (cl_cache x) (cl_mem x) = Some (C', s')"
    and inv': "client_inv 1 (x\<lparr>cl_cache := C', cl_mem := s', cl_held := add_mset (a, [1], 7) (cl_held x),
      cl_latest := (cl_latest x)([1] \<mapsto> 7), cl_inserted := add_mset ((), [1], 7) (cl_inserted x)\<rparr>) Vs'" (is "client_inv 1 ?y Vs'")
    by (rule shard_call_Insert [OF inv a])
  have step: "cache_step\<^sup>*\<^sup>* x ?y" by (rule r_into_rtranclp) (rule step_Insert [OF a r])
  have "size (cl_inserted ?y) \<le> 1" by (simp add: x_def)
  note sm = small_heap [OF inv' this]
  from sm(2) obtain b where b: "b \<noteq> 0" "cm_heap (cl_mem ?y) b = None" by blast
  show thesis by (rule that [OF start step _ _ b sm(1)]) (simp_all add: x_def)
qed

section \<open>Handles and values\<close>

text \<open>
  C10. Whatever a client of the LRU cache does, the handles it holds stay valid and keep their values, even when their entries were
  erased or replaced or evicted, and \<open>Lookup\<close> returns either no handle or one for the value inserted last under the key.
\<close>

theorem lru_cache_values:
  assumes "cache_starts junk base capacity x" "0 < base" "cache_step\<^sup>*\<^sup>* x y"
  shows "(\<forall>(a, k, v) \<in># cl_held y. Cache_Value a (cl_mem y) = Some v) \<and>
    (size (cl_held y) < 2 ^ 31 \<longrightarrow>
      (\<exists>a s'. Cache_Lookup key (cl_cache y) (cl_mem y) = Some (a, s') \<and>
        (a \<noteq> 0 \<longrightarrow> cl_latest y key \<noteq> None \<and> Cache_Value a s' = cl_latest y key)))"
proof -
  from reachable_inv [OF assms] obtain Vs where inv: "client_inv base y Vs" by blast
  have "Cache_Value a (cl_mem y) = Some v" if "(a, k, v) \<in># cl_held y" for a k v
    using client_invD(4) [OF inv that] by (auto simp: Cache_Value_def payload_at_def payload_def)
  moreover have "\<exists>a s'. Cache_Lookup key (cl_cache y) (cl_mem y) = Some (a, s') \<and>
      (a \<noteq> 0 \<longrightarrow> cl_latest y key \<noteq> None \<and> Cache_Value a s' = cl_latest y key)" if "size (cl_held y) < 2 ^ 31"
    using inv that by (cases rule: shard_call_Lookup [where key = key]) auto
  ultimately show ?thesis by blast
qed

theorem lru_cache_values_witness:
  "\<exists>x y a s'. cache_starts junk_handle 1 64 x \<and> cache_step\<^sup>*\<^sup>* x y \<and> Cache_Value a (cl_mem y) = Some 7 \<and>
    (\<exists>h. Cache_Lookup [2] (cl_cache y) (cl_mem y) = Some (h, s'))"
proof (rule example_client)
  fix x y a b
  assume e: "cache_starts junk_handle 1 64 x" "cache_step\<^sup>*\<^sup>* x y" "(a, [1], 7) \<in># cl_held y" "size (cl_held y) = 1"
  note v = lru_cache_values [OF e(1) _ e(2), of "[2]"]
  have "Cache_Value a (cl_mem y) = Some 7" using v e(3) by auto
  moreover obtain h s' where "Cache_Lookup [2] (cl_cache y) (cl_mem y) = Some (h, s')" using v e(4) by auto
  ultimately show ?thesis using e(1,2) by blast
qed

section \<open>Calls return\<close>

text \<open>
  C12. Every call returns: a cache can be created, and in every state its clients can bring it to, from the new cache on, whether or not they
  hold handles, \<open>Insert\<close>, \<open>Lookup\<close>, \<open>Erase\<close> and \<open>Prune\<close> return, and so do \<open>Release\<close> and \<open>Value\<close> for each handle that
  is held.  So no assertion of the cache fails, no memory is used that is not allocated, and no loop runs forever, neither over the linked
  lists nor over the chains of the hash table, nor while it grows.
\<close>

theorem lru_cache_returns:
  assumes "0 < base"
  shows "(\<exists>x. cache_starts junk base capacity x) \<and>
    (\<forall>x y. cache_starts junk base capacity x \<longrightarrow> cache_step\<^sup>*\<^sup>* x y \<longrightarrow>
      (a \<noteq> 0 \<longrightarrow> cm_heap (cl_mem y) a = None \<longrightarrow> card (dom (cm_heap (cl_mem y))) < 2 ^ 31 \<longrightarrow>
        Cache_Insert junk' a key val chrg deleter (cl_cache y) (cl_mem y) \<noteq> None) \<and>
      (size (cl_held y) < 2 ^ 31 \<longrightarrow> Cache_Lookup key (cl_cache y) (cl_mem y) \<noteq> None) \<and>
      (\<forall>(h, k, v) \<in># cl_held y. Cache_Release h (cl_cache y) (cl_mem y) \<noteq> None \<and> Cache_Value h (cl_mem y) \<noteq> None) \<and>
      Cache_Erase key (cl_cache y) (cl_mem y) \<noteq> None \<and> Cache_Prune (cl_cache y) (cl_mem y) \<noteq> None)"
proof (intro conjI allI impI)
  from NewLRUCache_ok [OF assms, of junk capacity] obtain C s where "NewLRUCache junk base capacity empty_mem = Some (C, s)" by blast
  then show "\<exists>x. cache_starts junk base capacity x"
    by (intro exI [of _ "\<lparr>cl_cache = C, cl_mem = s, cl_held = {#}, cl_latest = Map.empty, cl_inserted = {#}\<rparr>"]) (simp add: cache_starts_def)
next
  fix x y
  assume "cache_starts junk base capacity x" "cache_step\<^sup>*\<^sup>* x y"
  from reachable_inv [OF this(1) assms this(2)] obtain Vs where inv: "client_inv base y Vs" by blast
  show "Cache_Insert junk' a key val chrg deleter (cl_cache y) (cl_mem y) \<noteq> None"
    if "a \<noteq> 0" "cm_heap (cl_mem y) a = None" "card (dom (cm_heap (cl_mem y))) < 2 ^ 31"
    by (rule shard_call_Insert [OF inv that, of junk' key val chrg deleter]) simp
  show "Cache_Lookup key (cl_cache y) (cl_mem y) \<noteq> None" if "size (cl_held y) < 2 ^ 31"
    using inv that by (cases rule: shard_call_Lookup [where key = key]) auto
  have "Cache_Release h (cl_cache y) (cl_mem y) \<noteq> None \<and> Cache_Value h (cl_mem y) \<noteq> None" if "(h, k, v) \<in># cl_held y" for h k v
  proof
    show "Cache_Release h (cl_cache y) (cl_mem y) \<noteq> None" by (rule shard_call_Release [OF inv that]) simp
    show "Cache_Value h (cl_mem y) \<noteq> None"
      using client_invD(4) [OF inv that] by (auto simp: Cache_Value_def payload_at_def payload_def)
  qed
  then show "\<forall>(h, k, v) \<in># cl_held y. Cache_Release h (cl_cache y) (cl_mem y) \<noteq> None \<and> Cache_Value h (cl_mem y) \<noteq> None" by blast
  show "Cache_Erase key (cl_cache y) (cl_mem y) \<noteq> None" by (rule shard_call_Erase [OF inv, of key]) simp
  show "Cache_Prune (cl_cache y) (cl_mem y) \<noteq> None" by (rule shard_call_Prune [OF inv]) simp
qed

text \<open>A new cache, and one with a handle held.\<close>

theorem lru_cache_returns_witness:
  "\<exists>x y a b. cache_starts junk_handle 1 64 x \<and> Cache_Lookup [1] (cl_cache x) (cl_mem x) \<noteq> None \<and> Cache_Prune (cl_cache x) (cl_mem x) \<noteq> None \<and>
    cache_step\<^sup>*\<^sup>* x y \<and> Cache_Release a (cl_cache y) (cl_mem y) \<noteq> None \<and>
    Cache_Insert junk_handle b [1] 8 10 () (cl_cache y) (cl_mem y) \<noteq> None"
proof (rule example_client)
  fix x y a b
  assume e: "cache_starts junk_handle 1 64 x" "cache_step\<^sup>*\<^sup>* x y" "(a, [1], 7) \<in># cl_held y" "size (cl_held y) = 1"
    "b \<noteq> 0" "cm_heap (cl_mem y) b = None" "card (dom (cm_heap (cl_mem y))) < 2 ^ 31"
  have "0 < (1 :: nat)" by simp
  note r = lru_cache_returns [OF this, of junk_handle 64 b junk_handle "[1]" 8 10 "()", THEN conjunct2, THEN spec, THEN spec, THEN mp, OF e(1), THEN mp]
  have "cl_held x = {#}" using e(1) by (auto simp: cache_starts_def)
  then have "Cache_Lookup [1] (cl_cache x) (cl_mem x) \<noteq> None" "Cache_Prune (cl_cache x) (cl_mem x) \<noteq> None"
    using r [OF rtranclp.rtrancl_refl] by auto
  moreover have "Cache_Release a (cl_cache y) (cl_mem y) \<noteq> None" "Cache_Insert junk_handle b [1] 8 10 () (cl_cache y) (cl_mem y) \<noteq> None"
    using r [OF e(2)] e(3,5-7) by auto
  ultimately show ?thesis using e(1,2) by blast
qed

section \<open>Accounts\<close>

lemma cached_iff:
  assumes inv: "client_inv base x Vs" and i: "i < kNumShards" and a: "a \<in> entries (Vs ! i)"
  shows "in_cache_at (cm_heap (cl_mem x)) a \<longleftrightarrow> a \<in> cached (Vs ! i)"
  using pool_okD(4) [OF client_invD(1) [OF inv] i] a by (auto simp: shard_inv_def counts_ok_def entries_def)

lemma total_charge:
  assumes inv: "client_inv base x Vs"
  shows "Cache_TotalCharge (cl_cache x) =
    (\<Sum>a | a \<in> dom (cm_heap (cl_mem x)) - head_addrs base \<and> in_cache_at (cm_heap (cl_mem x)) a. charge_at (cm_heap (cl_mem x)) a)"
proof -
  let ?m = "cm_heap (cl_mem x)" and ?cs = "sc_shard (cl_cache x)"
  note pool = pool_okD [OF client_invD(1) [OF inv]]
  have "Cache_TotalCharge (cl_cache x) = (\<Sum>i < kNumShards. c_usage (?cs ! i))"
    by (simp add: Cache_TotalCharge_def sum_list_sum_nth pool(1) LRU_TotalCharge_def atLeast0LessThan)
  also have "\<dots> = (\<Sum>i < kNumShards. \<Sum>a \<in> cached (Vs ! i). charge_at ?m a)"
    by (rule sum.cong) (use pool(4) in \<open>simp_all add: shard_inv_def\<close>)
  also have "\<dots> = (\<Sum>a \<in> (\<Union>i < kNumShards. cached (Vs ! i)). charge_at ?m a)"
  proof (rule sum.UNION_disjoint [symmetric])
    show "\<forall>i \<in> {..<kNumShards}. \<forall>j \<in> {..<kNumShards}. i \<noteq> j \<longrightarrow> cached (Vs ! i) \<inter> cached (Vs ! j) = {}"
    proof (intro ballI impI)
      fix i j
      assume "i \<in> {..<kNumShards}" "j \<in> {..<kNumShards}" "i \<noteq> j"
      with pool(5) [of i j] show "cached (Vs ! i) \<inter> cached (Vs ! j) = {}" by (auto simp: footprint_def)
    qed
  qed (simp_all add: cached_def)
  also have "(\<Union>i < kNumShards. cached (Vs ! i)) = {a. a \<in> dom ?m - head_addrs base \<and> in_cache_at ?m a}"
  proof (rule set_eqI)
    fix a
    have "a \<in> dom ?m - head_addrs base \<longleftrightarrow> (\<exists>i < kNumShards. a \<in> entries (Vs ! i))"
      using client_heads [OF inv] by blast
    then show "a \<in> (\<Union>i < kNumShards. cached (Vs ! i)) \<longleftrightarrow> a \<in> {a. a \<in> dom ?m - head_addrs base \<and> in_cache_at ?m a}"
      using cached_iff [OF inv] by (auto simp: entries_def)
  qed
  finally show ?thesis .
qed

text \<open>
  C11. The cache keeps its accounts: every entry ever inserted is alive or was passed to its deleter exactly once, \<open>TotalCharge\<close> is the sum of the
  charges of the cached entries, and after an insertion the usage of the key's shard is within its capacity unless clients hold all
  entries cached there.
\<close>

theorem lru_cache_accounts:
  assumes "cache_starts junk base capacity x" "0 < base" "cache_step\<^sup>*\<^sup>* x y"
  shows "cl_inserted y = mset (cm_deleted (cl_mem y)) +
      image_mset (deleter_call (cm_heap (cl_mem y))) (mset_set (dom (cm_heap (cl_mem y)) - head_addrs base)) \<and>
    Cache_TotalCharge (cl_cache y) =
      (\<Sum>a | a \<in> dom (cm_heap (cl_mem y)) - head_addrs base \<and> in_cache_at (cm_heap (cl_mem y)) a. charge_at (cm_heap (cl_mem y)) a) \<and>
    (a \<noteq> 0 \<longrightarrow> cm_heap (cl_mem y) a = None \<longrightarrow> card (dom (cm_heap (cl_mem y))) < 2 ^ 31 \<longrightarrow>
      (\<exists>C s. Cache_Insert junk' a key val chrg deleter (cl_cache y) (cl_mem y) = Some (C, s) \<and>
        (c_usage (sc_shard C ! Shard (HashSlice key)) \<le> c_capacity (sc_shard C ! Shard (HashSlice key)) \<or>
         (\<forall>b \<in> dom (cm_heap s) - head_addrs base. in_cache_at (cm_heap s) b \<longrightarrow> Shard (hash_at (cm_heap s) b) = Shard (HashSlice key) \<longrightarrow>
            b \<in> fst ` set_mset (add_mset (a, key, val) (cl_held y))))))"
proof -
  from reachable_inv [OF assms] obtain Vs where inv: "client_inv base y Vs" by blast
  have bounded: "\<exists>C s. Cache_Insert junk' a key val chrg deleter (cl_cache y) (cl_mem y) = Some (C, s) \<and>
        (c_usage (sc_shard C ! Shard (HashSlice key)) \<le> c_capacity (sc_shard C ! Shard (HashSlice key)) \<or>
         (\<forall>b \<in> dom (cm_heap s) - head_addrs base. in_cache_at (cm_heap s) b \<longrightarrow> Shard (hash_at (cm_heap s) b) = Shard (HashSlice key) \<longrightarrow>
            b \<in> fst ` set_mset (add_mset (a, key, val) (cl_held y))))"
    if a: "a \<noteq> 0" "cm_heap (cl_mem y) a = None" "card (dom (cm_heap (cl_mem y))) < 2 ^ 31"
  proof -
    obtain C s Vs' where r: "Cache_Insert junk' a key val chrg deleter (cl_cache y) (cl_mem y) = Some (C, s)"
      and inv': "client_inv base (y\<lparr>cl_cache := C, cl_mem := s, cl_held := add_mset (a, key, val) (cl_held y),
        cl_latest := (cl_latest y)(key \<mapsto> val), cl_inserted := add_mset (deleter, key, val) (cl_inserted y)\<rparr>) Vs'" (is "client_inv base ?z Vs'")
      and u: "c_usage (sc_shard C ! Shard (HashSlice key)) \<le> c_capacity (sc_shard C ! Shard (HashSlice key)) \<or>
        v_lru (Vs' ! Shard (HashSlice key)) = []"
      by (rule shard_call_Insert [OF inv a, of junk' key val chrg deleter])
    have "b \<in> fst ` set_mset (add_mset (a, key, val) (cl_held y))"
      if b: "b \<in> dom (cm_heap s) - head_addrs base" "in_cache_at (cm_heap s) b" "Shard (hash_at (cm_heap s) b) = Shard (HashSlice key)"
        and no: "v_lru (Vs' ! Shard (HashSlice key)) = []" for b
    proof -
      have "b \<in> dom (cm_heap (cl_mem ?z)) - head_addrs base" using b(1) by simp
      then obtain i where i: "i < kNumShards" "b \<in> entries (Vs' ! i)" using client_heads(1) [OF inv'] by blast
      have "placed (cm_heap (cl_mem ?z)) i b" by (rule pool_okD(7) [OF client_invD(1) [OF inv'] i])
      then have "i = Shard (HashSlice key)" using b(3) by (auto simp: placed_def)
      have "b \<in> cached (Vs' ! i)" using cached_iff [OF inv' i] b(2) by simp
      then have "b \<in> set (v_used (Vs' ! i))" using no \<open>i = _\<close> by (simp add: cached_def)
      then have "0 < held_count (cl_held ?z) b"
        using pool_okD(4) [OF client_invD(1) [OF inv'] i(1)] by (auto simp: shard_inv_def counts_ok_def)
      then obtain k v where "(b, k, v) \<in># cl_held ?z" by (rule held_count_obtain)
      then have "(b, k, v) \<in># add_mset (a, key, val) (cl_held y)" by simp
      then show ?thesis by (rule image_eqI [rotated]) simp
    qed
    with r u show ?thesis by blast
  qed
  show ?thesis
    by (intro conjI impI client_invD(6) [OF inv, unfolded held_by_def] total_charge [OF inv] bounded)
qed

theorem lru_cache_accounts_witness:
  "\<exists>x y. cache_starts junk_handle 1 64 x \<and> cache_step\<^sup>*\<^sup>* x y \<and> cl_held y \<noteq> {#} \<and>
    cl_inserted y = mset (cm_deleted (cl_mem y)) +
      image_mset (deleter_call (cm_heap (cl_mem y))) (mset_set (dom (cm_heap (cl_mem y)) - head_addrs 1))"
proof (rule example_client)
  fix x y a b
  assume e: "cache_starts junk_handle 1 64 x" "cache_step\<^sup>*\<^sup>* x y" "(a, [1], 7) \<in># cl_held y"
  have "0 < (1 :: nat)" by simp
  note w = lru_cache_accounts [OF e(1) this e(2), of b junk_handle "[1]" 8 10 "()"]
  from e(3) have "cl_held y \<noteq> {#}" by auto
  with w e(1,2) show ?thesis by blast
qed

end
