(* ===== verification/TableFormat.thy ===== *)
theory TableFormat
  imports TwoLevelProps FilterBlock Crc32c "HOL-Library.Monad_Syntax"
begin

text \<open>
  \<open>table/format.h\<close>, \<open>table/format.cc\<close> and what \<open>port/port_stdcxx.h\<close> leaves of Snappy: the pieces of a table file.
  \<open>None\<close> stands for an assertion that fails or for bytes that are read outside their array.
\<close>

section \<open>Handles of blocks\<close>

record block_handle =
  bh_offset :: u64
  bh_size :: u64

definition BlockHandle :: block_handle where
  "BlockHandle = \<lparr>bh_offset = NOT 0, bh_size = NOT 0\<rparr>"

definition kMaxEncodedLength :: nat where
  "kMaxEncodedLength = 10 + 10"

definition BlockHandle_EncodeTo :: "block_handle \<Rightarrow> byte list \<Rightarrow> byte list option" where
  "BlockHandle_EncodeTo h dst =
     (if bh_offset h = NOT 0 \<or> bh_size h = NOT 0 then None
      else Some (PutVarint64 (PutVarint64 dst (bh_offset h)) (bh_size h)))"

text \<open>The status, the handle, which may have been changed in part, and the rest of the input.\<close>

definition BlockHandle_DecodeFrom :: "block_handle \<Rightarrow> slice \<Rightarrow> status \<times> block_handle \<times> slice" where
  "BlockHandle_DecodeFrom h input =
     (case GetVarint64 input of
        (None, input) \<Rightarrow> (Status_Corruption (bytes_of ''bad block handle'') [], h, input)
      | (Some v, input) \<Rightarrow>
          let h = h\<lparr>bh_offset := v\<rparr> in
          (case GetVarint64 input of
             (None, input) \<Rightarrow> (Status_Corruption (bytes_of ''bad block handle'') [], h, input)
           | (Some v, input) \<Rightarrow> (Status_OK, h\<lparr>bh_size := v\<rparr>, input)))"

section \<open>The footer\<close>

record footer =
  metaindex_handle :: block_handle
  index_handle :: block_handle

definition Footer :: footer where
  "Footer = \<lparr>metaindex_handle = BlockHandle, index_handle = BlockHandle\<rparr>"

definition kEncodedLength :: nat where
  "kEncodedLength = 2 * kMaxEncodedLength + 8"

definition kTableMagicNumber :: u64 where
  "kTableMagicNumber = 0xdb4775248b80fb57"

definition kBlockTrailerSize :: nat where
  "kBlockTrailerSize = 5"

definition Footer_EncodeTo :: "footer \<Rightarrow> byte list \<Rightarrow> byte list option" where
  "Footer_EncodeTo f dst = do {
     let original_size = length dst;
     dst \<leftarrow> BlockHandle_EncodeTo (metaindex_handle f) dst;
     dst \<leftarrow> BlockHandle_EncodeTo (index_handle f) dst;
     let dst = take (2 * kMaxEncodedLength) dst @ replicate (2 * kMaxEncodedLength - length dst) 0;
     let dst = PutFixed32 dst (ucast (kTableMagicNumber AND 0xffffffff));
     let dst = PutFixed32 dst (ucast (drop_bit 32 kTableMagicNumber));
     if length dst = original_size + kEncodedLength then Some dst else None
   }"

text \<open>The magic number is read at a fixed distance from the start of the input, whatever its size.\<close>

definition Footer_DecodeFrom :: "footer \<Rightarrow> slice \<Rightarrow> (status \<times> footer \<times> slice) option" where
  "Footer_DecodeFrom f input =
     (if length input < kEncodedLength then None
      else
        let magic_ptr = drop (kEncodedLength - 8) input;
            magic_lo = DecodeFixed32 kLittleEndian magic_ptr;
            magic_hi = DecodeFixed32 kLittleEndian (drop 4 magic_ptr);
            magic = push_bit 32 (ucast magic_hi) OR ucast magic_lo :: u64
        in if magic \<noteq> kTableMagicNumber
           then Some (Status_Corruption (bytes_of ''not an sstable (bad magic number)'') [], f, input)
           else
             let (result, h, rest) = BlockHandle_DecodeFrom (metaindex_handle f) input;
                 f = f\<lparr>metaindex_handle := h\<rparr>
             in if result \<noteq> Status_OK then Some (result, f, rest)
                else
                  let (result, h, rest) = BlockHandle_DecodeFrom (index_handle f) rest;
                      f = f\<lparr>index_handle := h\<rparr>
                  in if result \<noteq> Status_OK then Some (result, f, rest)
                     else Some (result, f, drop 8 magic_ptr))"

section \<open>Compression\<close>

text \<open>The project is built without Snappy: nothing can be compressed.\<close>

type_synonym CompressionType = u8

abbreviation (input) kNoCompression :: CompressionType where "kNoCompression \<equiv> 0"
abbreviation (input) kSnappyCompression :: CompressionType where "kSnappyCompression \<equiv> 1"

definition Snappy_Compress :: "slice \<Rightarrow> byte list \<Rightarrow> bool \<times> byte list" where
  "Snappy_Compress input output = (False, output)"

definition Snappy_GetUncompressedLength :: "slice \<Rightarrow> nat option" where
  "Snappy_GetUncompressedLength input = None"

definition Snappy_Uncompress :: "slice \<Rightarrow> slice option" where
  "Snappy_Uncompress input = None"

section \<open>Options\<close>

text \<open>
  A comparator and a filter policy are objects: the comparator's address is its identity.  Of \<open>Options\<close> the fields are
  listed that tables use.
\<close>

record comparator_object =
  cmp_address :: nat
  cmp_Compare :: "slice \<Rightarrow> slice \<Rightarrow> int"
  cmp_Separator :: "slice \<Rightarrow> slice \<Rightarrow> slice"
  cmp_Successor :: "slice \<Rightarrow> slice"

record filter_object =
  policy_Name :: slice
  policy_Create :: "slice list \<Rightarrow> byte list \<Rightarrow> byte list"
  policy_Match :: "slice \<Rightarrow> slice \<Rightarrow> bool"

record options =
  opt_comparator :: comparator_object
  opt_filter_policy :: "filter_object option"
  opt_block_size :: nat
  opt_restart_interval :: nat
  opt_compression :: CompressionType
  paranoid_checks :: bool

record read_options =
  verify_checksums :: bool
  fill_cache :: bool

definition ReadOptions :: read_options where
  "ReadOptions = \<lparr>verify_checksums = False, fill_cache = True\<rparr>"

section \<open>Reading a block\<close>

text \<open>
  A random access file is its \<open>Read(offset, n)\<close>: the status, the bytes, and whether they lie in the caller's array.
\<close>

type_synonym random_access_file = "u64 \<Rightarrow> u64 \<Rightarrow> status \<times> slice \<times> bool"

record block_contents =
  bc_data :: slice
  bc_cachable :: bool
  bc_heap_allocated :: bool

text \<open>The number of bytes to read is computed in 64 bits.\<close>

definition ReadBlock :: "random_access_file \<Rightarrow> read_options \<Rightarrow> block_handle \<Rightarrow> (status \<times> block_contents) option" where
  "ReadBlock file opts handle =
     (let result = \<lparr>bc_data = [], bc_cachable = False, bc_heap_allocated = False\<rparr>;
          n = bh_size handle;
          (s, contents, in_buf) = file (bh_offset handle) (n + of_nat kBlockTrailerSize)
      in if s \<noteq> Status_OK then Some (s, result)
         else if of_nat (length contents) \<noteq> n + of_nat kBlockTrailerSize
         then Some (Status_Corruption (bytes_of ''truncated block read'') [], result)
         else if length contents < unat n + (if verify_checksums opts then kBlockTrailerSize else 1) then None
         else
           let data = take (unat n) contents;
               crc = Unmask (DecodeFixed32 kLittleEndian (drop (unat n + 1) contents));
               actual = crc32c_Value 0 (take (unat n + 1) contents)
           in if verify_checksums opts \<and> actual \<noteq> crc
              then Some (Status_Corruption (bytes_of ''block checksum mismatch'') [], result)
              else if contents ! unat n = kNoCompression
              then Some (Status_OK, \<lparr>bc_data = data, bc_cachable = in_buf, bc_heap_allocated = in_buf\<rparr>)
              else if contents ! unat n = kSnappyCompression
              then (case Snappy_GetUncompressedLength data of
                      None \<Rightarrow> Some (Status_Corruption (bytes_of ''corrupted compressed block contents'') [], result)
                    | Some ulength \<Rightarrow>
                        (case Snappy_Uncompress data of
                           None \<Rightarrow> Some (Status_Corruption (bytes_of ''corrupted compressed block contents'') [], result)
                         | Some ubuf \<Rightarrow>
                             Some (Status_OK, \<lparr>bc_data = take ulength ubuf, bc_cachable = True, bc_heap_allocated = True\<rparr>)))
              else Some (Status_Corruption (bytes_of ''bad block type'') [], result))"

section \<open>Handles and footers come back\<close>

definition handle_bytes :: "block_handle \<Rightarrow> byte list" where
  "handle_bytes h = varint_bytes (unat (bh_offset h)) @ varint_bytes (unat (bh_size h))"

definition handle_set :: "block_handle \<Rightarrow> bool" where
  "handle_set h \<longleftrightarrow> bh_offset h \<noteq> NOT 0 \<and> bh_size h \<noteq> NOT 0"

lemma BlockHandle_EncodeTo_bytes: "handle_set h \<Longrightarrow> BlockHandle_EncodeTo h dst = Some (dst @ handle_bytes h)"
  by (simp add: BlockHandle_EncodeTo_def handle_set_def handle_bytes_def PutVarint64_bytes)

lemma BlockHandle_DecodeFrom_bytes: "BlockHandle_DecodeFrom h' (handle_bytes h @ rest) = (Status_OK, h, rest)"
  by (simp add: BlockHandle_DecodeFrom_def handle_bytes_def GetVarint64_bytes)

lemma handle_bytes_inj: "handle_bytes a = handle_bytes b \<longleftrightarrow> a = b"
proof
  assume "handle_bytes a = handle_bytes b"
  then have "BlockHandle_DecodeFrom BlockHandle (handle_bytes a @ []) = BlockHandle_DecodeFrom BlockHandle (handle_bytes b @ [])"
    by simp
  then show "a = b" unfolding BlockHandle_DecodeFrom_bytes by simp
qed simp

lemma length_varint_u64: "length (varint_bytes (unat (v :: u64))) \<le> 10"
proof -
  have "length (varint_bytes n) \<le> k" if "n < 2 ^ (7 * k)" "0 < k" for n k
    using that
  proof (induction k arbitrary: n)
    case (Suc k)
    show ?case
    proof (cases "n < 128")
      case False
      then have "n div 128 < 2 ^ (7 * k)" "k \<noteq> 0"
        using Suc.prems(1) by (auto simp: less_mult_imp_div_less power_add intro: ccontr)
      with Suc.IH [of "n div 128"] False show ?thesis by (simp add: varint_bytes_step)
    qed (simp add: varint_bytes_small)
  qed simp
  moreover have "unat v < 2 ^ (7 * 10)" using unat_less [of v] by simp
  ultimately show ?thesis by (metis zero_less_numeral)
qed

lemma length_handle_bytes: "length (handle_bytes h) \<le> 20"
  using length_varint_u64 [of "bh_offset h"] length_varint_u64 [of "bh_size h"] by (simp add: handle_bytes_def)

definition magic_bytes :: "byte list" where
  "magic_bytes = to_le 4 0x8b80fb57 @ to_le 4 0xdb477524"

definition footer_bytes :: "footer \<Rightarrow> byte list" where
  "footer_bytes f =
     (let hs = handle_bytes (metaindex_handle f) @ handle_bytes (index_handle f)
      in hs @ replicate (40 - length hs) 0 @ magic_bytes)"

lemma length_footer_bytes: "length (footer_bytes f) = kEncodedLength"
  using length_handle_bytes [of "metaindex_handle f"] length_handle_bytes [of "index_handle f"]
  by (simp add: footer_bytes_def Let_def magic_bytes_def kEncodedLength_def kMaxEncodedLength_def del: to_le.simps)

lemma Footer_EncodeTo_bytes:
  assumes "handle_set (metaindex_handle f)" "handle_set (index_handle f)"
  shows "Footer_EncodeTo f [] = Some (footer_bytes f)"
proof -
  define hs where "hs = handle_bytes (metaindex_handle f) @ handle_bytes (index_handle f)"
  have len: "length hs \<le> 40"
    using length_handle_bytes [of "metaindex_handle f"] length_handle_bytes [of "index_handle f"] by (simp add: hs_def)
  have magic: "unat (ucast (kTableMagicNumber AND 0xffffffff) :: u32) = 0x8b80fb57"
    "unat (ucast (drop_bit 32 kTableMagicNumber) :: u32) = 0xdb477524"
    by (simp_all add: kTableMagicNumber_def)
  show ?thesis
    using len assms
    by (simp add: Footer_EncodeTo_def BlockHandle_EncodeTo_bytes hs_def [symmetric] kMaxEncodedLength_def kEncodedLength_def
        PutFixed32_def magic footer_bytes_def magic_bytes_def Let_def del: to_le.simps)
qed

lemma Footer_DecodeFrom_bytes: "Footer_DecodeFrom f' (footer_bytes f) = Some (Status_OK, f, [])"
proof -
  define hs where "hs = handle_bytes (metaindex_handle f) @ handle_bytes (index_handle f)"
  have len: "length hs \<le> 40"
    using length_handle_bytes [of "metaindex_handle f"] length_handle_bytes [of "index_handle f"] by (simp add: hs_def)
  have magic: "drop 40 (footer_bytes f) = to_le 4 0x8b80fb57 @ to_le 4 0xdb477524"
    using len by (simp add: footer_bytes_def Let_def hs_def [symmetric] magic_bytes_def del: to_le.simps)
  have lo: "DecodeFixed32 kLittleEndian (to_le 4 0x8b80fb57 @ rest) = 0x8b80fb57" for rest
    using DecodeFixed32_to_le [of kLittleEndian "0x8b80fb57" rest] by simp
  have hi: "DecodeFixed32 kLittleEndian (to_le 4 0xdb477524 @ rest) = 0xdb477524" for rest
    using DecodeFixed32_to_le [of kLittleEndian "0xdb477524" rest] by simp
  have hi0: "DecodeFixed32 kLittleEndian (to_le 4 0xdb477524) = 0xdb477524" using hi [where rest = "[]"] by simp
  have num: "push_bit 32 (ucast (0xdb477524 :: u32)) OR ucast (0x8b80fb57 :: u32) = kTableMagicNumber"
    by (simp add: kTableMagicNumber_def)
  have split: "footer_bytes f = handle_bytes (metaindex_handle f) @ handle_bytes (index_handle f) @
      replicate (40 - length hs) 0 @ magic_bytes"
    by (simp add: footer_bytes_def Let_def hs_def)
  have dec: "BlockHandle_DecodeFrom h (footer_bytes f) = (Status_OK, metaindex_handle f, handle_bytes (index_handle f) @
      replicate (40 - length hs) 0 @ magic_bytes)" for h
    unfolding split by (rule BlockHandle_DecodeFrom_bytes)
  have size: "\<not> length (footer_bytes f) < kEncodedLength" by (simp add: length_footer_bytes)
  have "kEncodedLength - 8 = 40" by (simp add: kEncodedLength_def kMaxEncodedLength_def)
  then show ?thesis
    unfolding Footer_DecodeFrom_def if_not_P [OF size] \<open>kEncodedLength - 8 = 40\<close> magic Let_def
    by (simp add: kTableMagicNumber_def lo hi0 num dec BlockHandle_DecodeFrom_bytes drop_append del: to_le.simps DecodeFixed32_le)
qed

section \<open>The size of a block\<close>

text \<open>
  The size in a handle is added to in 64 bits: a huge one passes the check for a truncated block, and the type of the block is
  then read outside the buffer.
\<close>

lemma ReadBlock_size_wraps:
  assumes "file 0 2 = (Status_OK, contents, in_buf)" "length contents = 2"
  shows "ReadBlock file opts \<lparr>bh_offset = 0, bh_size = - 3\<rparr> = None"
  using assms by (simp add: ReadBlock_def kBlockTrailerSize_def Let_def)

end
