(* ===== verification/TableReader.thy ===== *)
theory TableReader
  imports TableFormat
begin

text \<open>
  \<open>table/table.cc\<close> of leveldb: reading table files.  \<open>None\<close> stands for bytes that are read outside their array, or for a
  call of an iterator that does not return.  Here the block cache of the options is null; \<open>TableCached\<close> has the branch with a cache.
\<close>

section \<open>Iterators of either kind\<close>

text \<open>\<open>Block::NewIterator\<close> returns an empty iterator or one over the block; calls go to the class of the object.\<close>

definition either_iterator :: "'a iterator_class \<Rightarrow> 'b iterator_class \<Rightarrow> ('a + 'b) iterator_class" where
  "either_iterator I J =
     \<lparr>Valid = case_sum (Valid I) (Valid J),
      SeekToFirst = case_sum (map_option Inl \<circ> SeekToFirst I) (map_option Inr \<circ> SeekToFirst J),
      SeekToLast = case_sum (map_option Inl \<circ> SeekToLast I) (map_option Inr \<circ> SeekToLast J),
      Seek = \<lambda>target. case_sum (map_option Inl \<circ> Seek I target) (map_option Inr \<circ> Seek J target),
      Next = case_sum (map_option Inl \<circ> Next I) (map_option Inr \<circ> Next J),
      Prev = case_sum (map_option Inl \<circ> Prev I) (map_option Inr \<circ> Prev J),
      Key = case_sum (Key I) (Key J), Value = case_sum (Value I) (Value J), Status = case_sum (Status I) (Status J)\<rparr>"

definition any_block_iterator :: "(slice \<Rightarrow> slice \<Rightarrow> int) \<Rightarrow> (status + block_iter) iterator_class" where
  "any_block_iterator Compare = either_iterator EmptyIterator (block_iterator Compare)"

section \<open>Tables\<close>

record table =
  t_options :: options
  t_file :: random_access_file
  t_cache_id :: u64
  t_filter :: "filter_reader option"
  t_filter_data :: "slice option"
  t_metaindex_handle :: block_handle
  t_index_block :: block

text \<open>The options tables read their own blocks with.\<close>

definition meta_options :: "options \<Rightarrow> read_options" where
  "meta_options opts = (if paranoid_checks opts then ReadOptions\<lparr>verify_checksums := True\<rparr> else ReadOptions)"

definition Table_ReadFilter :: "filter_object \<Rightarrow> slice \<Rightarrow> table \<Rightarrow> table option" where
  "Table_ReadFilter p filter_handle_value t =
     (let (s, filter_handle, v) = BlockHandle_DecodeFrom BlockHandle filter_handle_value in
      if s \<noteq> Status_OK then Some t
      else do {
        (s, block) \<leftarrow> ReadBlock (t_file t) (meta_options (t_options t)) filter_handle;
        if s \<noteq> Status_OK then Some t
        else
          let t = (if bc_heap_allocated block then t\<lparr>t_filter_data := Some (bc_data block)\<rparr> else t)
          in Some (t\<lparr>t_filter := Some (FilterBlockReader (bc_data block))\<rparr>)
      })"

definition Table_ReadMeta :: "nat \<Rightarrow> footer \<Rightarrow> table \<Rightarrow> table option" where
  "Table_ReadMeta unset f t =
     (case opt_filter_policy (t_options t) of
        None \<Rightarrow> Some t
      | Some p \<Rightarrow> do {
          (s, contents) \<leftarrow> ReadBlock (t_file t) (meta_options (t_options t)) (metaindex_handle f);
          if s \<noteq> Status_OK then Some t
          else do {
            let meta = Block unset (bc_data contents);
            let I = any_block_iterator slice_compare;
            let key = bytes_of ''filter.'' @ policy_Name p;
            iter \<leftarrow> Seek I key (Block_NewIterator meta);
            if Valid I iter \<and> slice_eq (Key I iter) key then Table_ReadFilter p (Value I iter) t else Some t
          }
        })"

text \<open>The id is that of the block cache; \<open>unset\<close> is what a field holds that a constructor does not set.\<close>

definition Table_Open ::
  "nat \<Rightarrow> u64 \<Rightarrow> options \<Rightarrow> random_access_file \<Rightarrow> u64 \<Rightarrow> (status \<times> table option) option" where
  "Table_Open unset cache_id opts file sz =
     (if sz < of_nat kEncodedLength
      then Some (Status_Corruption (bytes_of ''file is too short to be an sstable'') [], None)
      else
        let (s, footer_input, in_buf) = file (sz - of_nat kEncodedLength) (of_nat kEncodedLength) in
        if s \<noteq> Status_OK then Some (s, None)
        else do {
          (s, f, rest) \<leftarrow> Footer_DecodeFrom Footer footer_input;
          if s \<noteq> Status_OK then Some (s, None)
          else do {
            (s, contents) \<leftarrow> ReadBlock file (meta_options opts) (index_handle f);
            if s \<noteq> Status_OK then Some (s, None)
            else do {
              t \<leftarrow> Table_ReadMeta unset f
                \<lparr>t_options = opts, t_file = file, t_cache_id = cache_id, t_filter = None, t_filter_data = None,
                 t_metaindex_handle = metaindex_handle f, t_index_block = Block unset (bc_data contents)\<rparr>;
              Some (s, Some t)
            }
          }
        })"

section \<open>Reading entries\<close>

definition Table_Compare :: "table \<Rightarrow> slice \<Rightarrow> slice \<Rightarrow> int" where
  "Table_Compare t = cmp_Compare (opt_comparator (t_options t))"

text \<open>The iterator over the block with an encoded handle; \<open>None\<close> where reading it is undefined.\<close>

definition BlockReader :: "nat \<Rightarrow> table \<Rightarrow> read_options \<Rightarrow> slice \<Rightarrow> (status + block_iter) option" where
  "BlockReader unset t opts index_value =
     (let (s, handle, input) = BlockHandle_DecodeFrom BlockHandle index_value in
      if s \<noteq> Status_OK then Some (Inl (NewErrorIterator s))
      else do {
        (s, contents) \<leftarrow> ReadBlock (t_file t) opts handle;
        if s = Status_OK then Some (Block_NewIterator (Block unset (bc_data contents)))
        else Some (Inl (NewErrorIterator s))
      })"

text \<open>An iterator that cannot be made, because reading its block is undefined, is stuck: no call of it returns.\<close>

definition stuck_iterator :: "unit iterator_class" where
  "stuck_iterator =
     \<lparr>Valid = \<lambda>_. True, SeekToFirst = \<lambda>_. None, SeekToLast = \<lambda>_. None, Seek = \<lambda>_ _. None, Next = \<lambda>_. None,
      Prev = \<lambda>_. None, Key = \<lambda>_. [], Value = \<lambda>_. [], Status = \<lambda>_. Status_OK\<rparr>"

type_synonym data_iter = "unit + status + block_iter"

definition data_iterator :: "(slice \<Rightarrow> slice \<Rightarrow> int) \<Rightarrow> data_iter iterator_class" where
  "data_iterator Compare = either_iterator stuck_iterator (any_block_iterator Compare)"

definition block_function :: "nat \<Rightarrow> table \<Rightarrow> read_options \<Rightarrow> slice \<Rightarrow> data_iter" where
  "block_function unset t opts index_value =
     (case BlockReader unset t opts index_value of None \<Rightarrow> Inl () | Some it \<Rightarrow> Inr it)"

type_synonym table_iter = "(status + block_iter, data_iter) two_level"

definition table_iterator :: "nat \<Rightarrow> table \<Rightarrow> read_options \<Rightarrow> table_iter iterator_class" where
  "table_iterator unset t opts =
     two_level_iterator (any_block_iterator (Table_Compare t)) (data_iterator (Table_Compare t)) (block_function unset t opts)"

definition Table_NewIterator :: "table \<Rightarrow> table_iter" where
  "Table_NewIterator t =
     TwoLevelIterator (any_block_iterator (Table_Compare t)) (Block_NewIterator (t_index_block t))"

definition filter_excludes :: "table \<Rightarrow> slice \<Rightarrow> slice \<Rightarrow> bool" where
  "filter_excludes t handle_value k =
     (case (t_filter t, opt_filter_policy (t_options t)) of
        (Some fr, Some p) \<Rightarrow>
          (let (s, handle, v) = BlockHandle_DecodeFrom BlockHandle handle_value
           in s = Status_OK \<and> \<not> FilterBlock_KeyMayMatch (policy_Match p) fr (bh_offset handle) k)
      | _ \<Rightarrow> False)"

definition Table_InternalGet ::
  "nat \<Rightarrow> table \<Rightarrow> read_options \<Rightarrow> slice \<Rightarrow> 'arg \<Rightarrow> ('arg \<Rightarrow> slice \<Rightarrow> slice \<Rightarrow> 'arg) \<Rightarrow> (status \<times> 'arg) option" where
  "Table_InternalGet unset t opts k arg handle_result = do {
     let I = any_block_iterator (Table_Compare t);
     iiter \<leftarrow> Seek I k (Block_NewIterator (t_index_block t));
     (s, arg) \<leftarrow>
       (if Valid I iiter then
          if filter_excludes t (Value I iiter) k then Some (Status_OK, arg)
          else do {
            block_iter \<leftarrow> BlockReader unset t opts (Value I iiter);
            block_iter \<leftarrow> Seek I k block_iter;
            Some (Status I block_iter,
                  if Valid I block_iter then handle_result arg (Key I block_iter) (Value I block_iter) else arg)
          }
        else Some (Status_OK, arg));
     Some (if s = Status_OK then Status I iiter else s, arg)
   }"

definition Table_ApproximateOffsetOf :: "table \<Rightarrow> slice \<Rightarrow> u64 option" where
  "Table_ApproximateOffsetOf t key = do {
     let I = any_block_iterator (Table_Compare t);
     index_iter \<leftarrow> Seek I key (Block_NewIterator (t_index_block t));
     Some (if Valid I index_iter then
             (let (s, handle, input) = BlockHandle_DecodeFrom BlockHandle (Value I index_iter)
              in if s = Status_OK then bh_offset handle else bh_offset (t_metaindex_handle t))
           else bh_offset (t_metaindex_handle t))
   }"

end
