(* ===== verification/TableBuilder.thy ===== *)
theory TableBuilder
  imports TableFormat EnvPosix
begin

text \<open>
  \<open>table/table_builder.cc\<close> of leveldb: building table files.  The file is given by its \<open>Append\<close> and \<open>Flush\<close> on a state
  \<open>'f\<close>; \<open>None\<close> stands for a call of the file that does not return or an assertion that fails.
\<close>

section \<open>The state\<close>

record 'f table_rep =
  tb_options :: options
  tb_index_options :: options
  tb_file :: 'f
  tb_offset :: u64
  tb_status :: status
  tb_data_block :: block_builder
  tb_index_block :: block_builder
  tb_last_key :: "byte list"
  tb_num_entries :: "64 word"
  tb_closed :: bool
  tb_filter_block :: "filter_builder option"
  tb_filter_policy :: "filter_object option"
  tb_pending_index_entry :: bool
  tb_pending_handle :: block_handle
  tb_compressed_output :: "byte list"

text \<open>
  \<open>r->filter_block->f()\<close>, if there is a filter block; \<open>tb_filter_policy\<close> is the policy it was made with, which later
  options do not change.
\<close>

definition on_filter :: "((slice list \<Rightarrow> byte list \<Rightarrow> byte list) \<Rightarrow> filter_builder \<Rightarrow> filter_builder) \<Rightarrow> 'f table_rep \<Rightarrow> 'f table_rep" where
  "on_filter f r =
     (case (tb_filter_block r, tb_filter_policy r) of
        (Some fb, Some p) \<Rightarrow> r\<lparr>tb_filter_block := Some (f (policy_Create p) fb)\<rparr>
      | _ \<Rightarrow> r)"

definition TableBuilder_Rep :: "options \<Rightarrow> 'f \<Rightarrow> 'f table_rep" where
  "TableBuilder_Rep opt f =
     \<lparr>tb_options = opt, tb_index_options = opt\<lparr>opt_restart_interval := 1\<rparr>, tb_file = f, tb_offset = 0, tb_status = Status_OK,
      tb_data_block = BlockBuilder, tb_index_block = BlockBuilder, tb_last_key = [], tb_num_entries = 0, tb_closed = False,
      tb_filter_block = map_option (\<lambda>_. FilterBlockBuilder) (opt_filter_policy opt),
      tb_filter_policy = opt_filter_policy opt, tb_pending_index_entry = False,
      tb_pending_handle = BlockHandle, tb_compressed_output = []\<rparr>"

definition TableBuilder :: "options \<Rightarrow> 'f \<Rightarrow> 'f table_rep" where
  "TableBuilder opts file = on_filter (\<lambda>CreateFilter. StartBlock CreateFilter 0) (TableBuilder_Rep opts file)"

text \<open>The destructor asserts that the builder has been closed.\<close>

definition TableBuilder_destroy :: "'f table_rep \<Rightarrow> unit option" where
  "TableBuilder_destroy r = (if tb_closed r then Some () else None)"

definition ChangeOptions :: "options \<Rightarrow> 'f table_rep \<Rightarrow> status \<times> 'f table_rep" where
  "ChangeOptions opts r =
     (if cmp_address (opt_comparator opts) \<noteq> cmp_address (opt_comparator (tb_options r))
      then (Status_InvalidArgument (bytes_of ''changing comparator while building table'') [], r)
      else (Status_OK, r\<lparr>tb_options := opts, tb_index_options := opts\<lparr>opt_restart_interval := 1\<rparr>\<rparr>))"

definition TableBuilder_ok :: "'f table_rep \<Rightarrow> bool" where
  "TableBuilder_ok r \<longleftrightarrow> tb_status r = Status_OK"

definition TableBuilder_NumEntries :: "'f table_rep \<Rightarrow> u64" where
  "TableBuilder_NumEntries r = tb_num_entries r"

definition TableBuilder_FileSize :: "'f table_rep \<Rightarrow> u64" where
  "TableBuilder_FileSize r = tb_offset r"

section \<open>Writing blocks\<close>

definition block_trailer :: "slice \<Rightarrow> CompressionType \<Rightarrow> byte list" where
  "block_trailer block_contents type =
     (let crc = crc32c_Value 0 block_contents; crc = Extend 0 crc [type] in [type] @ EncodeFixed32 kLittleEndian (Mask crc))"

text \<open>The handle is returned even when writing fails.\<close>

definition WriteRawBlock ::
  "('f \<Rightarrow> slice \<Rightarrow> (status \<times> 'f) option) \<Rightarrow> slice \<Rightarrow> CompressionType \<Rightarrow> 'f table_rep \<Rightarrow> (block_handle \<times> 'f table_rep) option" where
  "WriteRawBlock Append block_contents type r = do {
     let handle = \<lparr>bh_offset = tb_offset r, bh_size = of_nat (length block_contents)\<rparr>;
     (s, f) \<leftarrow> Append (tb_file r) block_contents;
     let r = r\<lparr>tb_file := f, tb_status := s\<rparr>;
     if s \<noteq> Status_OK then Some (handle, r)
     else do {
       (s, f) \<leftarrow> Append (tb_file r) (block_trailer block_contents type);
       let r = r\<lparr>tb_file := f, tb_status := s\<rparr>;
       Some (handle, if s = Status_OK then r\<lparr>tb_offset := tb_offset r + of_nat (length block_contents + kBlockTrailerSize)\<rparr> else r)
     }
   }"

text \<open>What is stored for a finished block: its contents, their type, and the buffer \<open>compressed_output\<close>.\<close>

definition compress :: "CompressionType \<Rightarrow> slice \<Rightarrow> byte list \<Rightarrow> slice \<times> CompressionType \<times> byte list" where
  "compress type raw output =
     (if type = kNoCompression then (raw, type, output)
      else if type = kSnappyCompression then
        (let (done, compressed) = Snappy_Compress raw output
         in if done \<and> length compressed < length raw - length raw div 8 then (compressed, type, compressed)
            else (raw, kNoCompression, compressed))
      else ([], type, output))"

definition WriteBlock ::
  "('f \<Rightarrow> slice \<Rightarrow> (status \<times> 'f) option) \<Rightarrow> block_builder \<Rightarrow> 'f table_rep \<Rightarrow>
     (block_handle \<times> block_builder \<times> 'f table_rep) option" where
  "WriteBlock Append block r =
     (if \<not> TableBuilder_ok r then None
      else do {
        let (raw, block) = BlockBuilder_Finish block;
        let (block_contents, type, output) = compress (opt_compression (tb_options r)) raw (tb_compressed_output r);
        (handle, r) \<leftarrow> WriteRawBlock Append block_contents type (r\<lparr>tb_compressed_output := output\<rparr>);
        Some (handle, BlockBuilder_Reset block, r\<lparr>tb_compressed_output := []\<rparr>)
      })"

definition TableBuilder_Flush ::
  "('f \<Rightarrow> slice \<Rightarrow> (status \<times> 'f) option) \<Rightarrow> ('f \<Rightarrow> (status \<times> 'f) option) \<Rightarrow> 'f table_rep \<Rightarrow> 'f table_rep option" where
  "TableBuilder_Flush Append Flush r =
     (if tb_closed r then None
      else if \<not> TableBuilder_ok r then Some r
      else if BlockBuilder_empty (tb_data_block r) then Some r
      else if tb_pending_index_entry r then None
      else do {
        (handle, block, r) \<leftarrow> WriteBlock Append (tb_data_block r) r;
        let r = r\<lparr>tb_data_block := block, tb_pending_handle := handle\<rparr>;
        r \<leftarrow> (if TableBuilder_ok r
               then map_option (\<lambda>(s, f). r\<lparr>tb_pending_index_entry := True, tb_file := f, tb_status := s\<rparr>) (Flush (tb_file r))
               else Some r);
        Some (on_filter (\<lambda>CreateFilter. StartBlock CreateFilter (tb_offset r)) r)
      })"

section \<open>Adding entries\<close>

text \<open>The index entry of the last block, under the key \<open>key\<close>.\<close>

definition emit_index_entry :: "slice \<Rightarrow> 'f table_rep \<Rightarrow> 'f table_rep option" where
  "emit_index_entry key r = do {
     let r = r\<lparr>tb_last_key := key\<rparr>;
     handle_encoding \<leftarrow> BlockHandle_EncodeTo (tb_pending_handle r) [];
     Some (r\<lparr>tb_index_block :=
               BlockBuilder_Add (opt_restart_interval (tb_index_options r)) (tb_last_key r) handle_encoding (tb_index_block r),
             tb_pending_index_entry := False\<rparr>)
   }"

definition TableBuilder_Add ::
  "('f \<Rightarrow> slice \<Rightarrow> (status \<times> 'f) option) \<Rightarrow> ('f \<Rightarrow> (status \<times> 'f) option) \<Rightarrow> slice \<Rightarrow> slice \<Rightarrow> 'f table_rep \<Rightarrow>
     'f table_rep option" where
  "TableBuilder_Add Append Flush key value r =
     (if tb_closed r then None
      else if \<not> TableBuilder_ok r then Some r
      else if 0 <s tb_num_entries r \<and> cmp_Compare (opt_comparator (tb_options r)) key (tb_last_key r) \<le> 0 then None
      else do {
        r \<leftarrow> (if tb_pending_index_entry r
               then if \<not> BlockBuilder_empty (tb_data_block r) then None
                    else emit_index_entry (cmp_Separator (opt_comparator (tb_options r)) (tb_last_key r) key) r
               else Some r);
        let r = on_filter (\<lambda>_. AddKey key) r;
        let r = r\<lparr>tb_last_key := key, tb_num_entries := tb_num_entries r + 1,
                  tb_data_block := BlockBuilder_Add (opt_restart_interval (tb_options r)) key value (tb_data_block r)\<rparr>;
        if CurrentSizeEstimate (tb_data_block r) \<ge> opt_block_size (tb_options r) then TableBuilder_Flush Append Flush r
        else Some r
      })"

section \<open>Finishing the file\<close>

definition write_filter_block ::
  "('f \<Rightarrow> slice \<Rightarrow> (status \<times> 'f) option) \<Rightarrow> 'f table_rep \<Rightarrow> (block_handle \<times> 'f table_rep) option" where
  "write_filter_block Append r =
     (case (tb_filter_block r, tb_filter_policy r) of
        (Some fb, Some p) \<Rightarrow>
          if TableBuilder_ok r then WriteRawBlock Append (FilterBlock_Finish (policy_Create p) fb) kNoCompression r
          else Some (BlockHandle, r)
      | _ \<Rightarrow> Some (BlockHandle, r))"

definition filter_key :: "filter_object \<Rightarrow> slice" where
  "filter_key p = bytes_of ''filter.'' @ policy_Name p"

definition write_metaindex_block ::
  "('f \<Rightarrow> slice \<Rightarrow> (status \<times> 'f) option) \<Rightarrow> block_handle \<Rightarrow> 'f table_rep \<Rightarrow> (block_handle \<times> 'f table_rep) option" where
  "write_metaindex_block Append filter_block_handle r =
     (if TableBuilder_ok r then do {
        meta_index_block \<leftarrow>
          (case (tb_filter_block r, opt_filter_policy (tb_options r)) of
             (None, _) \<Rightarrow> Some BlockBuilder
           | (Some _, None) \<Rightarrow> None
           | (Some _, Some p) \<Rightarrow> do {
               handle_encoding \<leftarrow> BlockHandle_EncodeTo filter_block_handle [];
               Some (BlockBuilder_Add (opt_restart_interval (tb_options r)) (filter_key p) handle_encoding BlockBuilder)
             });
        (handle, block, r) \<leftarrow> WriteBlock Append meta_index_block r;
        Some (handle, r)
      } else Some (BlockHandle, r))"

definition write_index_block ::
  "('f \<Rightarrow> slice \<Rightarrow> (status \<times> 'f) option) \<Rightarrow> 'f table_rep \<Rightarrow> (block_handle \<times> 'f table_rep) option" where
  "write_index_block Append r =
     (if TableBuilder_ok r then do {
        r \<leftarrow> (if tb_pending_index_entry r
               then emit_index_entry (cmp_Successor (opt_comparator (tb_options r)) (tb_last_key r)) r
               else Some r);
        (handle, block, r) \<leftarrow> WriteBlock Append (tb_index_block r) r;
        Some (handle, r\<lparr>tb_index_block := block\<rparr>)
      } else Some (BlockHandle, r))"

definition write_footer ::
  "('f \<Rightarrow> slice \<Rightarrow> (status \<times> 'f) option) \<Rightarrow> block_handle \<Rightarrow> block_handle \<Rightarrow> 'f table_rep \<Rightarrow> 'f table_rep option" where
  "write_footer Append metaindex index r =
     (if TableBuilder_ok r then do {
        footer_encoding \<leftarrow> Footer_EncodeTo (Footer\<lparr>metaindex_handle := metaindex, index_handle := index\<rparr>) [];
        (s, f) \<leftarrow> Append (tb_file r) footer_encoding;
        let r = r\<lparr>tb_file := f, tb_status := s\<rparr>;
        Some (if s = Status_OK then r\<lparr>tb_offset := tb_offset r + of_nat (length footer_encoding)\<rparr> else r)
      } else Some r)"

definition TableBuilder_Finish ::
  "('f \<Rightarrow> slice \<Rightarrow> (status \<times> 'f) option) \<Rightarrow> ('f \<Rightarrow> (status \<times> 'f) option) \<Rightarrow> 'f table_rep \<Rightarrow>
     (status \<times> 'f table_rep) option" where
  "TableBuilder_Finish Append Flush r = do {
     r \<leftarrow> TableBuilder_Flush Append Flush r;
     if tb_closed r then None
     else do {
       let r = r\<lparr>tb_closed := True\<rparr>;
       (filter_block_handle, r) \<leftarrow> write_filter_block Append r;
       (metaindex_block_handle, r) \<leftarrow> write_metaindex_block Append filter_block_handle r;
       (index_block_handle, r) \<leftarrow> write_index_block Append r;
       r \<leftarrow> write_footer Append metaindex_block_handle index_block_handle r;
       Some (tb_status r, r)
     }
   }"

definition TableBuilder_Abandon :: "'f table_rep \<Rightarrow> 'f table_rep option" where
  "TableBuilder_Abandon r = (if tb_closed r then None else Some (r\<lparr>tb_closed := True\<rparr>))"

end
