(* ===== verification/TableSpec.thy ===== *)
theory TableSpec
  imports TableBuilder
begin

text \<open>
  The contents of a table file as a function of the calls that build it, and the proof that the builder writes them.
\<close>

section \<open>The calls and their blocks\<close>

datatype table_call = Add_Entry slice slice | Flush_Block

fun added_entries :: "table_call list \<Rightarrow> entry list" where
  "added_entries [] = []"
| "added_entries (Add_Entry k v # cs) = (k, v) # added_entries cs"
| "added_entries (Flush_Block # cs) = added_entries cs"

definition data_builder :: "options \<Rightarrow> entry list \<Rightarrow> block_builder" where
  "data_builder opt es = add_entries (opt_restart_interval opt) es BlockBuilder"

text \<open>A data block ends when it has grown to the block size, or at an explicit \<open>Flush\<close>.\<close>

fun split_blocks :: "options \<Rightarrow> entry list \<Rightarrow> table_call list \<Rightarrow> entry list list" where
  "split_blocks opt cur [] = (if cur = [] then [] else [cur])"
| "split_blocks opt cur (Add_Entry k v # cs) =
     (if CurrentSizeEstimate (data_builder opt (cur @ [(k, v)])) \<ge> opt_block_size opt
      then (cur @ [(k, v)]) # split_blocks opt [] cs
      else split_blocks opt (cur @ [(k, v)]) cs)"
| "split_blocks opt cur (Flush_Block # cs) =
     (if cur = [] then split_blocks opt [] cs else cur # split_blocks opt [] cs)"

lemma concat_split_blocks: "concat (split_blocks opt cur cs) = cur @ added_entries cs"
  by (induction opt cur cs rule: split_blocks.induct) auto

lemma split_blocks_nonempty: "es \<in> set (split_blocks opt cur cs) \<Longrightarrow> es \<noteq> []"
  by (induction opt cur cs rule: split_blocks.induct) (auto split: if_splits)

section \<open>The layout of the file\<close>

text \<open>A block as it is stored, with its trailer.\<close>

definition stored :: "byte list \<Rightarrow> byte list" where
  "stored contents = contents @ block_trailer contents kNoCompression"

definition block_contents_of :: "options \<Rightarrow> entry list \<Rightarrow> byte list" where
  "block_contents_of opt es = built_block (opt_restart_interval opt) es"

definition data_section :: "options \<Rightarrow> entry list list \<Rightarrow> byte list" where
  "data_section opt bs = concat (map (stored \<circ> block_contents_of opt) bs)"

definition handle_at :: "nat \<Rightarrow> byte list \<Rightarrow> block_handle" where
  "handle_at off contents = \<lparr>bh_offset = of_nat off, bh_size = of_nat (length contents)\<rparr>"

definition data_handle :: "options \<Rightarrow> entry list list \<Rightarrow> nat \<Rightarrow> block_handle" where
  "data_handle opt bs i = handle_at (length (data_section opt (take i bs))) (block_contents_of opt (bs ! i))"

text \<open>The index entry of a block with a block after it, and of the last one.\<close>

definition inner_entry :: "options \<Rightarrow> entry list list \<Rightarrow> nat \<Rightarrow> entry" where
  "inner_entry opt bs i =
     (cmp_Separator (opt_comparator opt) (fst (last (bs ! i))) (fst (hd (bs ! Suc i))), handle_bytes (data_handle opt bs i))"

definition last_entry :: "options \<Rightarrow> entry list list \<Rightarrow> entry" where
  "last_entry opt bs =
     (cmp_Successor (opt_comparator opt) (fst (last (last bs))), handle_bytes (data_handle opt bs (length bs - 1)))"

definition block_index :: "options \<Rightarrow> entry list list \<Rightarrow> entry list" where
  "block_index opt bs = map (inner_entry opt bs) [0..<length bs - 1] @ (if bs = [] then [] else [last_entry opt bs])"

text \<open>The offsets and keys the filter block is told: those of each block, and of the one being filled.\<close>

definition filter_runs :: "options \<Rightarrow> entry list list \<Rightarrow> entry list \<Rightarrow> (u64 \<times> slice list) list" where
  "filter_runs opt bs cur =
     map (\<lambda>i. (of_nat (length (data_section opt (take i bs))), map fst (bs ! i))) [0..<length bs] @
     [(of_nat (length (data_section opt bs)), map fst cur)]"

definition filter_state :: "options \<Rightarrow> filter_object \<Rightarrow> entry list list \<Rightarrow> entry list \<Rightarrow> filter_builder" where
  "filter_state opt p bs cur = fold (add_block (policy_Create p)) (filter_runs opt bs cur) FilterBlockBuilder"

definition filter_contents :: "options \<Rightarrow> filter_object \<Rightarrow> entry list list \<Rightarrow> byte list" where
  "filter_contents opt p bs = FilterBlock_Finish (policy_Create p) (filter_state opt p bs [])"

definition filter_section :: "options \<Rightarrow> entry list list \<Rightarrow> byte list" where
  "filter_section opt bs =
     (case opt_filter_policy opt of None \<Rightarrow> [] | Some p \<Rightarrow> stored (filter_contents opt p bs))"

definition meta_entries :: "options \<Rightarrow> entry list list \<Rightarrow> entry list" where
  "meta_entries opt bs =
     (case opt_filter_policy opt of
        None \<Rightarrow> []
      | Some p \<Rightarrow> [(filter_key p, handle_bytes (handle_at (length (data_section opt bs)) (filter_contents opt p bs)))])"

definition meta_contents :: "options \<Rightarrow> entry list list \<Rightarrow> byte list" where
  "meta_contents opt bs = built_block (opt_restart_interval opt) (meta_entries opt bs)"

definition index_contents :: "options \<Rightarrow> entry list list \<Rightarrow> byte list" where
  "index_contents opt bs = built_block 1 (block_index opt bs)"

definition table_footer :: "options \<Rightarrow> entry list list \<Rightarrow> footer" where
  "table_footer opt bs =
     (let off = length (data_section opt bs @ filter_section opt bs)
      in \<lparr>metaindex_handle = handle_at off (meta_contents opt bs),
          index_handle = handle_at (off + length (stored (meta_contents opt bs))) (index_contents opt bs)\<rparr>)"

definition table_bytes :: "options \<Rightarrow> entry list list \<Rightarrow> byte list" where
  "table_bytes opt bs =
     data_section opt bs @ filter_section opt bs @ stored (meta_contents opt bs) @ stored (index_contents opt bs) @
     footer_bytes (table_footer opt bs)"

definition table_file :: "options \<Rightarrow> table_call list \<Rightarrow> byte list" where
  "table_file opt cs = table_bytes opt (split_blocks opt [] cs)"

section \<open>Running the builder\<close>

fun run_call ::
  "('f \<Rightarrow> slice \<Rightarrow> (status \<times> 'f) option) \<Rightarrow> ('f \<Rightarrow> (status \<times> 'f) option) \<Rightarrow> table_call \<Rightarrow> 'f table_rep \<Rightarrow> 'f table_rep option"
where
  "run_call Append Flush (Add_Entry k v) r = TableBuilder_Add Append Flush k v r"
| "run_call Append Flush Flush_Block r = TableBuilder_Flush Append Flush r"

fun run_calls ::
  "('f \<Rightarrow> slice \<Rightarrow> (status \<times> 'f) option) \<Rightarrow> ('f \<Rightarrow> (status \<times> 'f) option) \<Rightarrow> table_call list \<Rightarrow> 'f table_rep \<Rightarrow>
     'f table_rep option"
where
  "run_calls Append Flush [] r = Some r"
| "run_calls Append Flush (c # cs) r = Option.bind (run_call Append Flush c r) (run_calls Append Flush cs)"

definition build_table ::
  "('f \<Rightarrow> slice \<Rightarrow> (status \<times> 'f) option) \<Rightarrow> ('f \<Rightarrow> (status \<times> 'f) option) \<Rightarrow> options \<Rightarrow> table_call list \<Rightarrow> 'f \<Rightarrow>
     (status \<times> 'f table_rep) option"
where
  "build_table Append Flush opt cs f =
     Option.bind (run_calls Append Flush cs (TableBuilder opt f)) (TableBuilder_Finish Append Flush)"

end
