(* ===== verification/TableWriterProps.thy ===== *)
theory TableWriterProps
  imports TableSpec
begin

text \<open>The builder writes the file that \<open>table_file\<close> describes, whenever the file it writes to accepts it.\<close>

section \<open>Finished blocks\<close>

lemma Reset_Finish [simp]: "BlockBuilder_Reset b = BlockBuilder"
  by (simp add: BlockBuilder_Reset_def BlockBuilder_def)

lemma data_builder_snoc:
  "BlockBuilder_Add (opt_restart_interval opt) k v (data_builder opt es) = data_builder opt (es @ [(k, v)])"
  by (simp add: data_builder_def add_entries_def)

lemma BlockBuilder_Add_nonempty: "bb_buffer (BlockBuilder_Add n k v b) \<noteq> []"
proof -
  have "varint_bytes m \<noteq> []" for m by (cases "m < 128") (simp_all add: varint_bytes_small varint_bytes_step)
  then show ?thesis by (simp add: BlockBuilder_Add_def Let_def PutVarint32_bytes split: if_splits)
qed

lemma data_builder_empty [simp]: "BlockBuilder_empty (data_builder opt es) \<longleftrightarrow> es = []"
proof (cases es rule: rev_cases)
  case (snoc xs e)
  then show ?thesis
    using BlockBuilder_Add_nonempty [of "opt_restart_interval opt" "fst e" "snd e" "data_builder opt xs"]
      data_builder_snoc [of opt "fst e" "snd e" xs] by (simp add: BlockBuilder_empty_def)
qed (simp add: data_builder_def add_entries_def BlockBuilder_empty_def BlockBuilder_def)

lemma Finish_data_builder: "fst (BlockBuilder_Finish (data_builder opt es)) = block_contents_of opt es"
  by (simp add: data_builder_def block_contents_of_def built_block_def)

lemma compress_kept: "type \<le> kSnappyCompression \<Longrightarrow> \<exists>output'. compress type raw output = (raw, kNoCompression, output')"
proof -
  assume "type \<le> kSnappyCompression"
  then have "type = 0 \<or> type = 1" by (simp add: word_le_nat_alt word_unat_eq_iff le_Suc_eq)
  then show ?thesis by (auto simp: compress_def Snappy_Compress_def)
qed

lemma length_stored: "length (stored contents) = length contents + kBlockTrailerSize"
  by (simp add: stored_def block_trailer_def kBlockTrailerSize_def Let_def del: to_le.simps)

lemma data_section_simps [simp]:
  "data_section opt [] = []"
  "data_section opt (bs @ [es]) = data_section opt bs @ stored (block_contents_of opt es)"
  by (simp_all add: data_section_def)

lemma data_section_append: "data_section opt (bs @ cs) = data_section opt bs @ data_section opt cs"
  by (simp add: data_section_def)

lemma length_data_section_take: "length (data_section opt (take i bs)) \<le> length (data_section opt bs)"
  using data_section_append [of opt "take i bs" "drop i bs"] by simp

lemma data_handle_append: "i < length bs \<Longrightarrow> data_handle opt (bs @ cs) i = data_handle opt bs i"
  by (simp add: data_handle_def nth_append)

lemma handle_set_at:
  assumes "off + length contents < 2 ^ 32"
  shows "handle_set (handle_at off contents)"
proof -
  have "unat (of_nat off :: u64) = off" "unat (of_nat (length contents) :: u64) = length contents"
    using assms by (simp_all add: unat_of_nat)
  moreover have "unat (NOT 0 :: u64) = 2 ^ 64 - 1" by (simp add: unsigned_minus_1_eq_mask mask_eq_exp_minus_1)
  ultimately show ?thesis
    using assms unfolding handle_set_def handle_at_def by (auto simp del: word_not_simps)
qed

lemma data_handle_set:
  assumes "i < length bs" "length (data_section opt bs) < 2 ^ 32"
  shows "handle_set (data_handle opt bs i)"
proof -
  have "data_section opt (take (Suc i) bs) = data_section opt (take i bs) @ stored (block_contents_of opt (bs ! i))"
    using assms(1) by (simp add: take_Suc_conv_app_nth)
  then have "length (data_section opt (take i bs)) + length (block_contents_of opt (bs ! i)) < 2 ^ 32"
    using length_data_section_take [of opt "Suc i" bs] assms(2) by (simp add: length_stored)
  then show ?thesis unfolding data_handle_def by (rule handle_set_at)
qed

lemma inner_entry_append:
  "Suc i < length bs \<Longrightarrow> inner_entry opt (bs @ cs) i = inner_entry opt bs i"
  by (simp add: inner_entry_def data_handle_append nth_append)

section \<open>The filter block\<close>

lemma filter_state_add: "filter_state opt p bs (cur @ [(k, v)]) = AddKey k (filter_state opt p bs cur)"
  by (simp add: filter_state_def filter_runs_def add_block_def)

lemma filter_state_new: "filter_state opt p [] [] = StartBlock (policy_Create p) 0 FilterBlockBuilder"
  by (simp add: filter_state_def filter_runs_def add_block_def)

lemma filter_runs_block:
  "filter_runs opt (bs @ [cur]) [] = filter_runs opt bs cur @ [(of_nat (length (data_section opt (bs @ [cur]))), [])]"
proof -
  have "map (\<lambda>i. (of_nat (length (data_section opt (take i (bs @ [cur])))) :: u64, map fst ((bs @ [cur]) ! i))) [0..<length bs] =
      map (\<lambda>i. (of_nat (length (data_section opt (take i bs))), map fst (bs ! i))) [0..<length bs]"
    by (rule map_cong) (simp_all add: nth_append)
  moreover have "take (length bs) (bs @ [cur]) = bs" by simp
  ultimately show ?thesis by (simp add: filter_runs_def del: data_section_simps take_append)
qed

lemma filter_state_block:
  "filter_state opt p (bs @ [cur]) [] =
    StartBlock (policy_Create p) (of_nat (length (data_section opt (bs @ [cur])))) (filter_state opt p bs cur)"
  by (simp add: filter_state_def filter_runs_block add_block_def del: data_section_simps)

lemma on_filter_simps [simp]:
  "tb_options (on_filter f r) = tb_options r" "tb_index_options (on_filter f r) = tb_index_options r"
  "tb_file (on_filter f r) = tb_file r" "tb_offset (on_filter f r) = tb_offset r" "tb_status (on_filter f r) = tb_status r"
  "tb_data_block (on_filter f r) = tb_data_block r" "tb_index_block (on_filter f r) = tb_index_block r"
  "tb_last_key (on_filter f r) = tb_last_key r" "tb_num_entries (on_filter f r) = tb_num_entries r"
  "tb_closed (on_filter f r) = tb_closed r" "tb_filter_policy (on_filter f r) = tb_filter_policy r"
  "tb_pending_index_entry (on_filter f r) = tb_pending_index_entry r" "tb_pending_handle (on_filter f r) = tb_pending_handle r"
  by (simp_all add: on_filter_def split: option.splits)

section \<open>The invariant\<close>

text \<open>The blocks \<open>bs\<close> have been written, and \<open>cur\<close> is in the data block.\<close>

definition table_inv :: "options \<Rightarrow> ('f \<Rightarrow> byte list) \<Rightarrow> entry list list \<Rightarrow> entry list \<Rightarrow> 'f table_rep \<Rightarrow> bool" where
  "table_inv opt accepted bs cur r \<longleftrightarrow>
     tb_options r = opt \<and> tb_index_options r = opt\<lparr>opt_restart_interval := 1\<rparr> \<and>
     accepted (tb_file r) = data_section opt bs \<and> tb_offset r = of_nat (length (data_section opt bs)) \<and>
     tb_data_block r = data_builder opt cur \<and>
     tb_index_block r =
       add_entries 1 (map (inner_entry opt (bs @ [cur])) [0..<length bs - (if cur = [] then 1 else 0)]) BlockBuilder \<and>
     (concat bs @ cur \<noteq> [] \<longrightarrow> tb_last_key r = fst (last (concat bs @ cur))) \<and>
     tb_num_entries r = of_nat (length (concat bs @ cur)) \<and>
     tb_filter_policy r = opt_filter_policy opt \<and>
     tb_filter_block r = map_option (\<lambda>p. filter_state opt p bs cur) (opt_filter_policy opt) \<and>
     (tb_pending_index_entry r \<longleftrightarrow> bs \<noteq> [] \<and> cur = []) \<and>
     (bs \<noteq> [] \<and> cur = [] \<longrightarrow> tb_pending_handle r = data_handle opt bs (length bs - 1))"

lemma table_inv_new:
  assumes "accepted f = []"
  shows "table_inv opt accepted [] [] (TableBuilder opt f)"
  using assms
  by (cases "opt_filter_policy opt")
    (simp_all add: table_inv_def TableBuilder_def TableBuilder_Rep_def on_filter_def data_builder_def add_entries_def filter_state_new)

text \<open>The file accepts writes, and the invariant holds unless a write has failed.\<close>

definition building :: "options \<Rightarrow> ('f \<Rightarrow> byte list) \<Rightarrow> ('f \<Rightarrow> bool) \<Rightarrow> entry list list \<Rightarrow> entry list \<Rightarrow> 'f table_rep \<Rightarrow> bool" where
  "building opt accepted usable bs cur r \<longleftrightarrow>
     \<not> tb_closed r \<and> usable (tb_file r) \<and> (TableBuilder_ok r \<longrightarrow> table_inv opt accepted bs cur r)"

text \<open>The keys of the entries are added in increasing order.\<close>

definition calls_sorted :: "options \<Rightarrow> entry list \<Rightarrow> table_call list \<Rightarrow> bool" where
  "calls_sorted opt es cs \<longleftrightarrow>
     sorted_wrt (\<lambda>a b. 0 < cmp_Compare (opt_comparator opt) (fst b) (fst a)) (es @ added_entries cs)"

context writable
begin

lemma WriteRawBlock_writes:
  assumes "usable (tb_file r)"
  obtains h r' where "WriteRawBlock Append contents kNoCompression r = Some (h, r')" "usable (tb_file r')"
    "h = \<lparr>bh_offset = tb_offset r, bh_size = of_nat (length contents)\<rparr>" "tb_closed r' = tb_closed r"
    "TableBuilder_ok r' \<Longrightarrow> \<exists>f. accepted f = accepted (tb_file r) @ stored contents \<and>
      r' = r\<lparr>tb_file := f, tb_status := Status_OK, tb_offset := tb_offset r + of_nat (length (stored contents))\<rparr>"
proof -
  let ?h = "\<lparr>bh_offset = tb_offset r, bh_size = of_nat (length contents)\<rparr>"
  obtain st f where a: "Append (tb_file r) contents = Some (st, f)" "usable f"
    "st = Status_OK \<Longrightarrow> accepted f = accepted (tb_file r) @ contents" by (rule AppendE [OF assms(1)]) blast
  show thesis
  proof (cases st)
    case (Some state)
    with a(1,2) show thesis
      by (intro that [of ?h "r\<lparr>tb_file := f, tb_status := st\<rparr>"]) (simp_all add: WriteRawBlock_def TableBuilder_ok_def Let_def)
  next
    case None
    obtain st2 f2 where b: "Append f (block_trailer contents kNoCompression) = Some (st2, f2)" "usable f2"
      "st2 = Status_OK \<Longrightarrow> accepted f2 = accepted f @ block_trailer contents kNoCompression"
      by (rule AppendE [OF a(2)]) blast
    show thesis
    proof (cases st2)
      case (Some state)
      with a b None show thesis
        by (intro that [of ?h "r\<lparr>tb_file := f2, tb_status := st2\<rparr>"]) (simp_all add: WriteRawBlock_def TableBuilder_ok_def Let_def)
    next
      case ok: None
      have "accepted f2 = accepted (tb_file r) @ stored contents" using a(3) b(3) None ok by (simp add: stored_def)
      with a(1) b(1,2) None ok show thesis
        by (intro that [of ?h "r\<lparr>tb_file := f2, tb_status := Status_OK, tb_offset := tb_offset r + of_nat (length (stored contents))\<rparr>"])
          (auto simp: WriteRawBlock_def length_stored Let_def)
    qed
  qed
qed

lemma WriteBlock_writes:
  assumes "usable (tb_file r)" "TableBuilder_ok r" "opt_compression (tb_options r) \<le> kSnappyCompression"
    "fst (BlockBuilder_Finish b) = raw"
  obtains h r' where "WriteBlock Append b r = Some (h, BlockBuilder, r')" "usable (tb_file r')"
    "h = \<lparr>bh_offset = tb_offset r, bh_size = of_nat (length raw)\<rparr>" "tb_closed r' = tb_closed r"
    "TableBuilder_ok r' \<longrightarrow> (\<exists>f. accepted f = accepted (tb_file r) @ stored raw \<and>
      r' = r\<lparr>tb_file := f, tb_status := Status_OK, tb_offset := tb_offset r + of_nat (length (stored raw)),
             tb_compressed_output := []\<rparr>)"
proof -
  obtain b' where f: "BlockBuilder_Finish b = (raw, b')" using assms(4) by (cases "BlockBuilder_Finish b") simp
  from compress_kept [OF assms(3)] obtain buf where
    c: "compress (opt_compression (tb_options r)) raw (tb_compressed_output r) = (raw, kNoCompression, buf)" by blast
  let ?r = "r\<lparr>tb_compressed_output := buf\<rparr>"
  have "usable (tb_file ?r)" using assms(1) by simp
  from this obtain h r' where w: "WriteRawBlock Append raw kNoCompression ?r = Some (h, r')" "usable (tb_file r')"
    "h = \<lparr>bh_offset = tb_offset ?r, bh_size = of_nat (length raw)\<rparr>" "tb_closed r' = tb_closed ?r"
    "TableBuilder_ok r' \<Longrightarrow> \<exists>f. accepted f = accepted (tb_file ?r) @ stored raw \<and>
      r' = ?r\<lparr>tb_file := f, tb_status := Status_OK, tb_offset := tb_offset ?r + of_nat (length (stored raw))\<rparr>"
    by (rule WriteRawBlock_writes [where contents = raw]) blast
  show thesis
  proof (rule that)
    show "WriteBlock Append b r = Some (h, BlockBuilder, r'\<lparr>tb_compressed_output := []\<rparr>)"
      using assms(2) w(1) by (simp add: WriteBlock_def TableBuilder_ok_def f c)
    show "h = \<lparr>bh_offset = tb_offset r, bh_size = of_nat (length raw)\<rparr>" using w(3) by simp
    show "TableBuilder_ok (r'\<lparr>tb_compressed_output := []\<rparr>) \<longrightarrow> (\<exists>f. accepted f = accepted (tb_file r) @ stored raw \<and>
        r'\<lparr>tb_compressed_output := []\<rparr> = r\<lparr>tb_file := f, tb_status := Status_OK,
          tb_offset := tb_offset r + of_nat (length (stored raw)), tb_compressed_output := []\<rparr>)"
    proof
      assume "TableBuilder_ok (r'\<lparr>tb_compressed_output := []\<rparr>)"
      then have "TableBuilder_ok r'" by (simp add: TableBuilder_ok_def)
      from w(5) [OF this] show "\<exists>f. accepted f = accepted (tb_file r) @ stored raw \<and>
          r'\<lparr>tb_compressed_output := []\<rparr> = r\<lparr>tb_file := f, tb_status := Status_OK,
            tb_offset := tb_offset r + of_nat (length (stored raw)), tb_compressed_output := []\<rparr>" by auto
    qed
  qed (use w in simp_all)
qed

lemma building_broken: "building opt accepted usable bs cur r \<Longrightarrow> \<not> TableBuilder_ok r \<Longrightarrow> building opt accepted usable bs' cur' r"
  by (simp add: building_def)

lemma Flush_building:
  assumes b: "building opt accepted usable bs cur r" and c: "opt_compression opt \<le> kSnappyCompression"
  shows "\<exists>r'. TableBuilder_Flush Append Flush r = Some r' \<and>
    building opt accepted usable (bs @ (if cur = [] then [] else [cur])) [] r'"
proof (cases "TableBuilder_ok r")
  case False
  then show ?thesis using b by (auto simp: TableBuilder_Flush_def building_def)
next
  case ok: True
  then have inv: "table_inv opt accepted bs cur r" and u: "usable (tb_file r)" "\<not> tb_closed r" using b by (auto simp: building_def)
  show ?thesis
  proof (cases "cur = []")
    case True
    then show ?thesis using inv b ok u(2) by (simp add: TableBuilder_Flush_def table_inv_def)
  next
    case cur: False
    have i: "tb_options r = opt" "tb_data_block r = data_builder opt cur" "\<not> tb_pending_index_entry r"
      using inv cur by (simp_all add: table_inv_def)
    define raw where "raw = block_contents_of opt cur"
    have raw: "fst (BlockBuilder_Finish (tb_data_block r)) = raw" by (simp add: i(2) Finish_data_builder raw_def)
    have "opt_compression (tb_options r) \<le> kSnappyCompression" using c i(1) by simp
    from u(1) ok this raw obtain h r1 where
      w: "WriteBlock Append (tb_data_block r) r = Some (h, BlockBuilder, r1)" "usable (tb_file r1)"
      "h = \<lparr>bh_offset = tb_offset r, bh_size = of_nat (length raw)\<rparr>" "tb_closed r1 = tb_closed r"
      "TableBuilder_ok r1 \<longrightarrow> (\<exists>f. accepted f = accepted (tb_file r) @ stored raw \<and>
        r1 = r\<lparr>tb_file := f, tb_status := Status_OK, tb_offset := tb_offset r + of_nat (length (stored raw)), tb_compressed_output := []\<rparr>)"
      by (rule WriteBlock_writes)
    define r2 where "r2 = r1\<lparr>tb_data_block := BlockBuilder, tb_pending_handle := h\<rparr>"
    have r2: "usable (tb_file r2)" "\<not> tb_closed r2" "TableBuilder_ok r2 = TableBuilder_ok r1"
      using w(2,4) u(2) by (simp_all add: r2_def TableBuilder_ok_def)
    obtain st f where fl: "Flush (tb_file r2) = Some (st, f)" "usable f" "st = Status_OK \<Longrightarrow> accepted f = accepted (tb_file r2)"
      by (rule FlushE [OF r2(1)]) blast
    define r3 where "r3 = (if TableBuilder_ok r2 then r2\<lparr>tb_pending_index_entry := True, tb_file := f, tb_status := st\<rparr> else r2)"
    define r4 where "r4 = on_filter (\<lambda>CreateFilter. StartBlock CreateFilter (tb_offset r3)) r3"
    have run: "TableBuilder_Flush Append Flush r = Some r4"
      using u(2) ok i(2,3) cur w(1) fl(1) by (auto simp: TableBuilder_Flush_def r4_def r3_def r2_def Let_def)
    have r4: "tb_closed r4 = tb_closed r3" "tb_file r4 = tb_file r3" "TableBuilder_ok r4 = TableBuilder_ok r3"
      "tb_options r4 = tb_options r3" "tb_index_options r4 = tb_index_options r3" "tb_offset r4 = tb_offset r3"
      "tb_data_block r4 = tb_data_block r3" "tb_index_block r4 = tb_index_block r3" "tb_last_key r4 = tb_last_key r3"
      "tb_num_entries r4 = tb_num_entries r3" "tb_filter_policy r4 = tb_filter_policy r3"
      "tb_pending_index_entry r4 = tb_pending_index_entry r3" "tb_pending_handle r4 = tb_pending_handle r3"
      by (simp_all add: r4_def TableBuilder_ok_def)
    have "\<not> tb_closed r4" "usable (tb_file r4)" using r2 fl(2) by (simp_all add: r4 r3_def)
    moreover have "table_inv opt accepted (bs @ [cur]) [] r4" if "TableBuilder_ok r4"
    proof -
      from that have r3: "TableBuilder_ok r3" by (simp add: r4)
      then have r1: "TableBuilder_ok r1" by (auto simp: r3_def r2(3) split: if_splits)
      then have ok2: "TableBuilder_ok r2" using r2(3) by simp
      have st: "st = Status_OK" using r3 unfolding r3_def if_P [OF ok2] by (simp add: TableBuilder_ok_def)
      from w(5) [rule_format, OF r1] obtain g where g: "accepted g = accepted (tb_file r) @ stored raw"
        "r1 = r\<lparr>tb_file := g, tb_status := Status_OK, tb_offset := tb_offset r + of_nat (length (stored raw)), tb_compressed_output := []\<rparr>"
        by blast
      have off: "tb_offset r3 = of_nat (length (data_section opt (bs @ [cur])))"
        using inv r1 by (simp add: r3_def r2_def g(2) table_inv_def raw_def TableBuilder_ok_def)
      have r3': "r3 = r\<lparr>tb_file := f, tb_status := Status_OK, tb_offset := of_nat (length (data_section opt (bs @ [cur]))),
          tb_data_block := BlockBuilder, tb_pending_index_entry := True, tb_pending_handle := h, tb_compressed_output := []\<rparr>"
        using r1 st off by (simp add: r3_def r2_def g(2) TableBuilder_ok_def)
      have acc: "accepted f = data_section opt (bs @ [cur])"
        using fl(3) [OF st] inv g(1) by (simp add: r2_def g(2) table_inv_def raw_def)
      have h: "h = data_handle opt (bs @ [cur]) (length bs)"
        using inv by (simp add: w(3) data_handle_def handle_at_def table_inv_def raw_def)
      have ies: "map (inner_entry opt ((bs @ [cur]) @ [[]])) [0..<length bs] = map (inner_entry opt (bs @ [cur])) [0..<length bs]"
        by (rule map_cong) (simp_all add: inner_entry_append del: append_assoc)
      have filt: "tb_filter_block r4 = map_option (\<lambda>p. filter_state opt p (bs @ [cur]) []) (opt_filter_policy opt)"
        using inv by (cases "opt_filter_policy opt")
          (simp_all add: r4_def on_filter_def r3' table_inv_def filter_state_block del: data_section_simps)
      have "add_entries 1 (map (inner_entry opt ((bs @ [cur]) @ [[]])) [0..<length bs]) BlockBuilder = tb_index_block r"
        using inv cur unfolding ies by (simp add: table_inv_def)
      then show ?thesis
        using inv cur filt acc h unfolding table_inv_def r4 r3' by (simp add: data_builder_def add_entries_def)
    qed
    ultimately show ?thesis using run cur by (auto simp: building_def)
  qed
qed

lemma Add_building:
  assumes b: "building opt accepted usable bs cur r" and c: "opt_compression opt \<le> kSnappyCompression"
    and key: "concat bs @ cur \<noteq> [] \<Longrightarrow> 0 < cmp_Compare (opt_comparator opt) k (fst (last (concat bs @ cur)))"
    and nonempty: "[] \<notin> set bs" and small: "length (data_section opt bs) < 2 ^ 32"
  shows "\<exists>r'. TableBuilder_Add Append Flush k v r = Some r' \<and>
    (if CurrentSizeEstimate (data_builder opt (cur @ [(k, v)])) \<ge> opt_block_size opt
     then building opt accepted usable (bs @ [cur @ [(k, v)]]) [] r' else building opt accepted usable bs (cur @ [(k, v)]) r')"
proof (cases "TableBuilder_ok r")
  case False
  then show ?thesis using b building_broken [OF b False] by (auto simp: TableBuilder_Add_def building_def)
next
  case ok: True
  then have inv: "table_inv opt accepted bs cur r" and u: "usable (tb_file r)" "\<not> tb_closed r" using b by (auto simp: building_def)
  define sep where "sep = cmp_Separator (opt_comparator opt) (tb_last_key r) k"
  define r1 where "r1 = (if tb_pending_index_entry r
    then r\<lparr>tb_last_key := sep,
           tb_index_block := BlockBuilder_Add 1 sep (handle_bytes (data_handle opt bs (length bs - 1))) (tb_index_block r),
           tb_pending_index_entry := False\<rparr> else r)"
  define r2 where "r2 = on_filter (\<lambda>_. AddKey k) r1"
  define r3 where "r3 = r2\<lparr>tb_last_key := k, tb_num_entries := tb_num_entries r2 + 1,
    tb_data_block := BlockBuilder_Add (opt_restart_interval (tb_options r2)) k v (tb_data_block r2)\<rparr>"
  have order: "\<not> (0 <s tb_num_entries r \<and> cmp_Compare (opt_comparator (tb_options r)) k (tb_last_key r) \<le> 0)"
  proof (cases "concat bs @ cur = []")
    case True
    then have "tb_num_entries r = 0" using inv by (simp add: table_inv_def del: concat_eq_Nil_conv)
    then show ?thesis by simp
  next
    case False
    then show ?thesis using key [OF False] inv by (auto simp: table_inv_def simp del: concat_eq_Nil_conv)
  qed
  have pend: "tb_pending_index_entry r \<longleftrightarrow> bs \<noteq> [] \<and> cur = []" using inv by (simp add: table_inv_def)
  have emit: "(if tb_pending_index_entry r
      then if \<not> BlockBuilder_empty (tb_data_block r) then None
           else emit_index_entry (cmp_Separator (opt_comparator (tb_options r)) (tb_last_key r) k) r
      else Some r) = Some r1"
  proof (cases "tb_pending_index_entry r")
    case True
    then have "bs \<noteq> []" "cur = []" using pend by simp_all
    then have "handle_set (data_handle opt bs (length bs - 1))" by (intro data_handle_set small) simp
    then show ?thesis
      using True inv \<open>cur = []\<close> \<open>bs \<noteq> []\<close>
      by (simp add: r1_def emit_index_entry_def table_inv_def BlockHandle_EncodeTo_bytes sep_def)
  qed (simp add: r1_def)
  have run: "TableBuilder_Add Append Flush k v r =
      (if CurrentSizeEstimate (tb_data_block r3) \<ge> opt_block_size (tb_options r3) then TableBuilder_Flush Append Flush r3 else Some r3)"
    unfolding TableBuilder_Add_def if_not_P [OF u(2)] if_not_P [OF order] emit
    using ok unfolding r3_def r2_def by simp
  have r1: "tb_options r1 = opt" "tb_data_block r1 = data_builder opt cur" "tb_num_entries r1 = of_nat (length (concat bs @ cur))"
    "tb_file r1 = tb_file r" "tb_closed r1 = tb_closed r" "tb_filter_policy r1 = opt_filter_policy opt"
    "tb_filter_block r1 = map_option (\<lambda>p. filter_state opt p bs cur) (opt_filter_policy opt)" "\<not> tb_pending_index_entry r1"
    "tb_offset r1 = tb_offset r" "tb_index_options r1 = opt\<lparr>opt_restart_interval := 1\<rparr>" "tb_status r1 = tb_status r"
    using inv by (simp_all add: r1_def table_inv_def)
  have filt: "tb_filter_block r2 = map_option (\<lambda>p. filter_state opt p bs (cur @ [(k, v)])) (opt_filter_policy opt)"
    using r1(6,7) by (cases "opt_filter_policy opt") (simp_all add: r2_def on_filter_def filter_state_add)
  have idx: "tb_index_block r1 = add_entries 1 (map (inner_entry opt (bs @ [cur @ [(k, v)]])) [0..<length bs]) BlockBuilder"
  proof (cases "bs \<noteq> [] \<and> cur = []")
    case True
    then obtain xs x where bs: "bs = xs @ [x]" by (metis rev_exhaust)
    have x: "x \<noteq> []" using nonempty by (auto simp: bs)
    have "inner_entry opt (bs @ ys) i = inner_entry opt bs i" if "i < length xs" for ys i
      by (rule inner_entry_append) (use that in \<open>simp add: bs\<close>)
    then have "map (inner_entry opt (bs @ [cur @ [(k, v)]])) [0..<length xs] = map (inner_entry opt (bs @ [cur])) [0..<length xs]"
      by (intro map_cong refl) simp
    moreover have "inner_entry opt (bs @ [cur @ [(k, v)]]) (length xs) = (sep, handle_bytes (data_handle opt bs (length bs - 1)))"
      using inv True x data_handle_append [of "length xs" bs opt "[cur @ [(k, v)]]"]
      by (simp add: inner_entry_def sep_def table_inv_def bs nth_append)
    ultimately show ?thesis
      using inv True pend by (simp add: r1_def table_inv_def bs add_entries_def del: map_eq_conv)
  next
    case False
    have "map (inner_entry opt (bs @ [cur @ [(k, v)]])) [0..<length bs] = map (inner_entry opt (bs @ [cur])) [0..<length bs]"
    proof (rule map_cong [OF refl])
      fix i assume "i \<in> set [0..<length bs]"
      then have i: "i < length bs" by simp
      then have "cur \<noteq> []" using False by auto
      then show "inner_entry opt (bs @ [cur @ [(k, v)]]) i = inner_entry opt (bs @ [cur]) i"
        using i by (simp add: inner_entry_def data_handle_append nth_append)
    qed
    then show ?thesis using inv False pend by (auto simp: r1_def table_inv_def simp del: map_eq_conv)
  qed
  have r3: "tb_closed r3 = tb_closed r" "tb_file r3 = tb_file r" "tb_status r3 = tb_status r" "tb_options r3 = opt"
    "tb_index_options r3 = opt\<lparr>opt_restart_interval := 1\<rparr>" "tb_offset r3 = tb_offset r" "tb_index_block r3 = tb_index_block r1"
    "tb_data_block r3 = data_builder opt (cur @ [(k, v)])" "tb_last_key r3 = k"
    "tb_num_entries r3 = of_nat (length (concat bs @ cur)) + 1" "tb_filter_policy r3 = opt_filter_policy opt"
    "tb_filter_block r3 = tb_filter_block r2" "\<not> tb_pending_index_entry r3"
    by (simp_all add: r3_def r2_def r1 data_builder_snoc)
  have "table_inv opt accepted bs (cur @ [(k, v)]) r3"
    using inv r3(13) unfolding table_inv_def r3 filt idx by (simp del: map_eq_conv)
  then have "building opt accepted usable bs (cur @ [(k, v)]) r3" using u by (simp add: building_def r3)
  from this Flush_building [OF this c] show ?thesis unfolding run by (simp add: r3)
qed

lemma run_building:
  assumes "building opt accepted usable bs cur r" "opt_compression opt \<le> kSnappyCompression"
    "calls_sorted opt (concat bs @ cur) cs" "[] \<notin> set bs" "length (data_section opt (bs @ split_blocks opt cur cs)) < 2 ^ 32"
  shows "\<exists>r' bs' cur'. run_calls Append Flush cs r = Some r' \<and> building opt accepted usable bs' cur' r' \<and>
    bs' @ (if cur' = [] then [] else [cur']) = bs @ split_blocks opt cur cs"
  using assms
proof (induction cs arbitrary: bs cur r)
  case Nil
  then show ?case by (intro exI [of _ r] exI [of _ bs] exI [of _ cur]) simp
next
  case (Cons c cs)
  show ?case
  proof (cases c)
    case (Add_Entry k v)
    have sorted: "\<forall>a \<in> set (concat bs @ cur). 0 < cmp_Compare (opt_comparator opt) k (fst a)"
      "calls_sorted opt (concat bs @ (cur @ [(k, v)])) cs"
      using Cons.prems(3) by (auto simp: calls_sorted_def Add_Entry sorted_wrt_append)
    have key: "0 < cmp_Compare (opt_comparator opt) k (fst (last (concat bs @ cur)))" if "concat bs @ cur \<noteq> []"
      using sorted(1) last_in_set [OF that] by blast
    have "length (data_section opt bs) < 2 ^ 32" using Cons.prems(5) by (simp add: data_section_append)
    from Add_building [OF Cons.prems(1,2) key Cons.prems(4) this, of v] obtain r1 where
      r1: "TableBuilder_Add Append Flush k v r = Some r1"
      "if CurrentSizeEstimate (data_builder opt (cur @ [(k, v)])) \<ge> opt_block_size opt
       then building opt accepted usable (bs @ [cur @ [(k, v)]]) [] r1 else building opt accepted usable bs (cur @ [(k, v)]) r1" by blast
    show ?thesis
    proof (cases "CurrentSizeEstimate (data_builder opt (cur @ [(k, v)])) \<ge> opt_block_size opt")
      case True
      with r1(2) have "building opt accepted usable (bs @ [cur @ [(k, v)]]) [] r1" by simp
      from Cons.IH [OF this Cons.prems(2)] sorted(2) Cons.prems(4,5) True Add_Entry r1(1) show ?thesis by simp
    next
      case False
      with r1(2) have "building opt accepted usable bs (cur @ [(k, v)]) r1" by simp
      from Cons.IH [OF this Cons.prems(2)] sorted(2) Cons.prems(4,5) False Add_Entry r1(1) show ?thesis by simp
    qed
  next
    case Flush_Block
    from Flush_building [OF Cons.prems(1,2)] obtain r1 where
      r1: "TableBuilder_Flush Append Flush r = Some r1" "building opt accepted usable (bs @ (if cur = [] then [] else [cur])) [] r1" by blast
    have "calls_sorted opt (concat (bs @ (if cur = [] then [] else [cur])) @ []) cs"
      using Cons.prems(3) by (cases "cur = []") (simp_all add: calls_sorted_def Flush_Block)
    from Cons.IH [OF r1(2) Cons.prems(2) this] Cons.prems(4,5) r1(1) Flush_Block show ?thesis by (cases "cur = []") simp_all
  qed
qed

text \<open>Between the parts that \<open>Finish\<close> writes: the file holds \<open>data\<close>.\<close>

definition finish_inv :: "options \<Rightarrow> entry list list \<Rightarrow> byte list \<Rightarrow> 'f table_rep \<Rightarrow> bool" where
  "finish_inv opt bs data r \<longleftrightarrow>
     tb_options r = opt \<and> tb_index_options r = opt\<lparr>opt_restart_interval := 1\<rparr> \<and>
     accepted (tb_file r) = data \<and> tb_offset r = of_nat (length data) \<and>
     tb_index_block r = add_entries 1 (map (inner_entry opt bs) [0..<length bs - 1]) BlockBuilder \<and>
     (bs \<noteq> [] \<longrightarrow> tb_last_key r = fst (last (concat bs)) \<and> tb_pending_handle r = data_handle opt bs (length bs - 1)) \<and>
     (tb_pending_index_entry r \<longleftrightarrow> bs \<noteq> []) \<and> tb_filter_policy r = opt_filter_policy opt \<and>
     tb_filter_block r = map_option (\<lambda>p. filter_state opt p bs []) (opt_filter_policy opt)"

definition finishing :: "options \<Rightarrow> entry list list \<Rightarrow> byte list \<Rightarrow> 'f table_rep \<Rightarrow> bool" where
  "finishing opt bs data r \<longleftrightarrow> usable (tb_file r) \<and> (TableBuilder_ok r \<longrightarrow> finish_inv opt bs data r)"

lemma finish_inv_write:
  "finish_inv opt bs data r \<Longrightarrow> accepted f = data @ section \<Longrightarrow>
    finish_inv opt bs (data @ section)
      (r\<lparr>tb_file := f, tb_status := st, tb_offset := tb_offset r + of_nat (length section), tb_compressed_output := buf\<rparr>)"
  by (simp add: finish_inv_def)

lemma finishing_start:
  assumes "building opt accepted usable bs [] r" "[] \<notin> set bs"
  shows "finishing opt bs (data_section opt bs) (r\<lparr>tb_closed := True\<rparr>)"
proof -
  have "map (inner_entry opt (bs @ [[]])) [0..<length bs - 1] = map (inner_entry opt bs) [0..<length bs - 1]"
    by (rule map_cong) (auto simp: inner_entry_append)
  moreover have "concat bs \<noteq> []" if "bs \<noteq> []" using assms(2) that by (cases bs) auto
  ultimately show ?thesis
    using assms(1) by (auto simp: building_def finishing_def TableBuilder_ok_def table_inv_def finish_inv_def simp del: map_eq_conv)
qed

lemma write_filter_block_finishing:
  assumes "finishing opt bs data r"
  shows "\<exists>h r'. write_filter_block Append r = Some (h, r') \<and> finishing opt bs (data @ filter_section opt bs) r' \<and>
    (TableBuilder_ok r' \<longrightarrow> (\<forall>p. opt_filter_policy opt = Some p \<longrightarrow> h = handle_at (length data) (filter_contents opt p bs)))"
proof (cases "TableBuilder_ok r")
  case False
  then show ?thesis
    using assms by (auto simp: write_filter_block_def finishing_def split: option.splits)
next
  case True
  then have inv: "finish_inv opt bs data r" "usable (tb_file r)" using assms by (auto simp: finishing_def)
  show ?thesis
  proof (cases "opt_filter_policy opt")
    case None
    then show ?thesis using assms inv(1) by (simp add: write_filter_block_def finish_inv_def filter_section_def)
  next
    case (Some p)
    let ?c = "filter_contents opt p bs"
    have run: "write_filter_block Append r = WriteRawBlock Append ?c kNoCompression r"
      using True inv(1) Some by (simp add: write_filter_block_def finish_inv_def filter_contents_def)
    obtain h r' where w: "WriteRawBlock Append ?c kNoCompression r = Some (h, r')" "usable (tb_file r')"
      "h = \<lparr>bh_offset = tb_offset r, bh_size = of_nat (length ?c)\<rparr>"
      "TableBuilder_ok r' \<Longrightarrow> \<exists>f. accepted f = accepted (tb_file r) @ stored ?c \<and>
        r' = r\<lparr>tb_file := f, tb_status := Status_OK, tb_offset := tb_offset r + of_nat (length (stored ?c))\<rparr>"
      by (rule WriteRawBlock_writes [OF inv(2), of ?c]) blast
    have "finish_inv opt bs (data @ stored ?c) r'" if ok: "TableBuilder_ok r'"
      using w(4) [OF ok] inv(1) by (auto simp: finish_inv_def)
    moreover have "h = handle_at (length data) ?c" using inv(1) by (simp add: w(3) handle_at_def finish_inv_def)
    ultimately show ?thesis using run w(1,2) Some by (simp add: finishing_def filter_section_def)
  qed
qed

lemma write_metaindex_block_finishing:
  assumes f: "finishing opt bs data r" and c: "opt_compression opt \<le> kSnappyCompression"
    and h: "TableBuilder_ok r \<Longrightarrow> \<forall>p. opt_filter_policy opt = Some p \<longrightarrow>
      fh = handle_at (length (data_section opt bs)) (filter_contents opt p bs) \<and> handle_set fh"
  shows "\<exists>h r'. write_metaindex_block Append fh r = Some (h, r') \<and> finishing opt bs (data @ stored (meta_contents opt bs)) r' \<and>
    (TableBuilder_ok r' \<longrightarrow> h = handle_at (length data) (meta_contents opt bs))"
proof (cases "TableBuilder_ok r")
  case False
  then show ?thesis using f by (auto simp: write_metaindex_block_def finishing_def)
next
  case True
  then have inv: "finish_inv opt bs data r" "usable (tb_file r)" using f by (auto simp: finishing_def)
  define b where "b = add_entries (opt_restart_interval opt) (meta_entries opt bs) BlockBuilder"
  have meta: "(case (tb_filter_block r, opt_filter_policy (tb_options r)) of
             (None, _) \<Rightarrow> Some BlockBuilder
           | (Some _, None) \<Rightarrow> None
           | (Some _, Some p) \<Rightarrow> do {
               handle_encoding \<leftarrow> BlockHandle_EncodeTo fh [];
               Some (BlockBuilder_Add (opt_restart_interval (tb_options r)) (filter_key p) handle_encoding BlockBuilder)
             }) = Some b"
    using inv(1) h [OF True]
    by (cases "opt_filter_policy opt") (auto simp: finish_inv_def b_def meta_entries_def add_entries_def BlockHandle_EncodeTo_bytes)
  have raw: "fst (BlockBuilder_Finish b) = meta_contents opt bs"
    by (simp add: b_def meta_contents_def built_block_def)
  have "opt_compression (tb_options r) \<le> kSnappyCompression" using c inv(1) by (simp add: finish_inv_def)
  from inv(2) True this raw obtain h r' where
    w: "WriteBlock Append b r = Some (h, BlockBuilder, r')" "usable (tb_file r')"
      "h = \<lparr>bh_offset = tb_offset r, bh_size = of_nat (length (meta_contents opt bs))\<rparr>" "tb_closed r' = tb_closed r"
      "TableBuilder_ok r' \<longrightarrow> (\<exists>f. accepted f = accepted (tb_file r) @ stored (meta_contents opt bs) \<and>
        r' = r\<lparr>tb_file := f, tb_status := Status_OK, tb_offset := tb_offset r + of_nat (length (stored (meta_contents opt bs))),
               tb_compressed_output := []\<rparr>)"
    by (rule WriteBlock_writes)
  have "finish_inv opt bs (data @ stored (meta_contents opt bs)) r'" if ok: "TableBuilder_ok r'"
    using w(5) [rule_format, OF ok] inv(1) by (auto simp: finish_inv_def)
  moreover have "h = handle_at (length data) (meta_contents opt bs)" using inv(1) by (simp add: w(3) handle_at_def finish_inv_def)
  moreover have "write_metaindex_block Append fh r = Some (h, r')"
    unfolding write_metaindex_block_def if_P [OF True] meta by (simp add: w(1))
  ultimately show ?thesis using w(2) by (simp add: finishing_def)
qed

lemma index_of_last: "bs \<noteq> [] \<Longrightarrow> block_index opt bs = map (inner_entry opt bs) [0..<length bs - 1] @ [last_entry opt bs]"
  by (simp add: block_index_def)

lemma write_index_block_finishing:
  assumes f: "finishing opt bs data r" and c: "opt_compression opt \<le> kSnappyCompression"
    and small: "length (data_section opt bs) < 2 ^ 32" and nonempty: "[] \<notin> set bs"
  shows "\<exists>h r'. write_index_block Append r = Some (h, r') \<and> usable (tb_file r') \<and>
    (TableBuilder_ok r' \<longrightarrow> h = handle_at (length data) (index_contents opt bs) \<and> accepted (tb_file r') = data @ stored (index_contents opt bs))"
proof (cases "TableBuilder_ok r")
  case False
  then show ?thesis using f by (auto simp: write_index_block_def finishing_def)
next
  case True
  then have inv: "finish_inv opt bs data r" "usable (tb_file r)" using f by (auto simp: finishing_def)
  define r1 where "r1 = (if bs = [] then r
    else r\<lparr>tb_last_key := fst (last_entry opt bs), tb_pending_index_entry := False,
           tb_index_block := add_entries 1 (block_index opt bs) BlockBuilder\<rparr>)"
  have emit: "(if tb_pending_index_entry r
      then emit_index_entry (cmp_Successor (opt_comparator (tb_options r)) (tb_last_key r)) r else Some r) = Some r1"
  proof (cases "bs = []")
    case True
    then show ?thesis using inv(1) by (simp add: r1_def finish_inv_def)
  next
    case False
    then have h: "handle_set (data_handle opt bs (length bs - 1))" by (intro data_handle_set small) simp
    have "last (concat bs) = last (last bs)"
      using False nonempty by (cases bs rule: rev_cases) (auto simp: last_append)
    then have e: "cmp_Successor (opt_comparator (tb_options r)) (tb_last_key r) = fst (last_entry opt bs)"
      "handle_bytes (tb_pending_handle r) = snd (last_entry opt bs)"
      using inv(1) False by (simp_all add: last_entry_def finish_inv_def)
    show ?thesis
      using inv(1) False h e
      by (simp add: r1_def emit_index_entry_def BlockHandle_EncodeTo_bytes finish_inv_def index_of_last add_entries_def case_prod_beta)
  qed
  have b: "tb_index_block r1 = add_entries 1 (block_index opt bs) BlockBuilder"
    using inv(1) by (simp add: r1_def finish_inv_def block_index_def)
  have raw: "fst (BlockBuilder_Finish (tb_index_block r1)) = index_contents opt bs"
    by (simp add: b index_contents_def built_block_def)
  have r1: "usable (tb_file r1)" "TableBuilder_ok r1" "opt_compression (tb_options r1) \<le> kSnappyCompression"
    "tb_offset r1 = of_nat (length data)" "accepted (tb_file r1) = data"
    using c inv True by (simp_all add: r1_def finish_inv_def TableBuilder_ok_def)
  from r1(1-3) raw obtain h r' where
    w: "WriteBlock Append (tb_index_block r1) r1 = Some (h, BlockBuilder, r')" "usable (tb_file r')"
      "h = \<lparr>bh_offset = tb_offset r1, bh_size = of_nat (length (index_contents opt bs))\<rparr>" "tb_closed r' = tb_closed r1"
      "TableBuilder_ok r' \<longrightarrow> (\<exists>f. accepted f = accepted (tb_file r1) @ stored (index_contents opt bs) \<and>
        r' = r1\<lparr>tb_file := f, tb_status := Status_OK, tb_offset := tb_offset r1 + of_nat (length (stored (index_contents opt bs))),
               tb_compressed_output := []\<rparr>)"
    by (rule WriteBlock_writes)
  have run: "write_index_block Append r = Some (h, r'\<lparr>tb_index_block := BlockBuilder\<rparr>)"
    unfolding write_index_block_def if_P [OF True] emit by (simp add: w(1))
  have ok: "TableBuilder_ok (r'\<lparr>tb_index_block := BlockBuilder\<rparr>) \<longleftrightarrow> TableBuilder_ok r'" by (simp add: TableBuilder_ok_def)
  have "accepted (tb_file r') = data @ stored (index_contents opt bs)" if "TableBuilder_ok r'"
    using w(5) [rule_format, OF that] r1(5) by auto
  with w(2,3) r1(4) show ?thesis unfolding run by (simp add: ok handle_at_def)
qed

lemma write_footer_writes:
  assumes "usable (tb_file r)" "TableBuilder_ok r \<Longrightarrow> handle_set m \<and> handle_set i"
  shows "\<exists>r'. write_footer Append m i r = Some r' \<and> usable (tb_file r') \<and>
    (TableBuilder_ok r' \<longrightarrow> TableBuilder_ok r \<and>
      accepted (tb_file r') = accepted (tb_file r) @ footer_bytes \<lparr>metaindex_handle = m, index_handle = i\<rparr>)"
proof (cases "TableBuilder_ok r")
  case False
  then show ?thesis using assms(1) by (simp add: write_footer_def)
next
  case True
  define enc where "enc = footer_bytes \<lparr>metaindex_handle = m, index_handle = i\<rparr>"
  have e: "Footer_EncodeTo (Footer\<lparr>metaindex_handle := m, index_handle := i\<rparr>) [] = Some enc"
    using assms(2) [OF True] Footer_EncodeTo_bytes [of "\<lparr>metaindex_handle = m, index_handle = i\<rparr>"] by (simp add: Footer_def enc_def)
  obtain st f where a: "Append (tb_file r) enc = Some (st, f)" "usable f"
    "st = Status_OK \<Longrightarrow> accepted f = accepted (tb_file r) @ enc" by (rule AppendE [OF assms(1)]) blast
  show ?thesis
    using True e a by (auto simp: write_footer_def Let_def TableBuilder_ok_def enc_def [symmetric])
qed

lemma length_table_parts:
  assumes "length (table_bytes opt bs) < 2 ^ 32"
  shows "length (data_section opt bs) < 2 ^ 32" "handle_set (metaindex_handle (table_footer opt bs))"
    "handle_set (index_handle (table_footer opt bs))"
    "\<forall>p. opt_filter_policy opt = Some p \<longrightarrow> handle_set (handle_at (length (data_section opt bs)) (filter_contents opt p bs))"
proof -
  have len: "length (data_section opt bs) + length (filter_section opt bs) + length (stored (meta_contents opt bs)) +
      length (stored (index_contents opt bs)) < 2 ^ 32"
    using assms by (simp add: table_bytes_def)
  then show "length (data_section opt bs) < 2 ^ 32" by linarith
  show "handle_set (metaindex_handle (table_footer opt bs))" "handle_set (index_handle (table_footer opt bs))"
    using len by (auto simp: table_footer_def Let_def length_stored intro!: handle_set_at)
  show "\<forall>p. opt_filter_policy opt = Some p \<longrightarrow> handle_set (handle_at (length (data_section opt bs)) (filter_contents opt p bs))"
    using len by (auto simp: filter_section_def length_stored intro!: handle_set_at)
qed

lemma Finish_writes:
  assumes b: "building opt accepted usable bs cur r" and c: "opt_compression opt \<le> kSnappyCompression" and nonempty: "[] \<notin> set bs"
    and small: "length (table_bytes opt (bs @ (if cur = [] then [] else [cur]))) < 2 ^ 32"
  shows "\<exists>st r'. TableBuilder_Finish Append Flush r = Some (st, r') \<and> usable (tb_file r') \<and>
    (st = Status_OK \<longrightarrow> accepted (tb_file r') = table_bytes opt (bs @ (if cur = [] then [] else [cur])))"
proof -
  define cs where "cs = bs @ (if cur = [] then [] else [cur])"
  have ne: "[] \<notin> set cs" using nonempty by (auto simp: cs_def)
  note parts = length_table_parts [OF small, folded cs_def]
  from Flush_building [OF b c] obtain r1 where r1: "TableBuilder_Flush Append Flush r = Some r1"
    "building opt accepted usable cs [] r1" by (auto simp: cs_def)
  have "\<not> tb_closed r1" using r1(2) by (simp add: building_def)
  define r2 where "r2 = r1\<lparr>tb_closed := True\<rparr>"
  have "finishing opt cs (data_section opt cs) r2" using finishing_start [OF r1(2) ne] by (simp add: r2_def)
  from write_filter_block_finishing [OF this] obtain fh r3 where
    r3: "write_filter_block Append r2 = Some (fh, r3)" "finishing opt cs (data_section opt cs @ filter_section opt cs) r3"
    "TableBuilder_ok r3 \<Longrightarrow> (\<forall>p. opt_filter_policy opt = Some p \<longrightarrow> fh = handle_at (length (data_section opt cs)) (filter_contents opt p cs))"
    by blast
  have "TableBuilder_ok r3 \<Longrightarrow> \<forall>p. opt_filter_policy opt = Some p \<longrightarrow>
      fh = handle_at (length (data_section opt cs)) (filter_contents opt p cs) \<and> handle_set fh"
    using r3(3) parts(4) by simp
  from write_metaindex_block_finishing [OF r3(2) c this] obtain mh r4 where
    r4: "write_metaindex_block Append fh r3 = Some (mh, r4)"
    "finishing opt cs ((data_section opt cs @ filter_section opt cs) @ stored (meta_contents opt cs)) r4"
    "TableBuilder_ok r4 \<Longrightarrow> mh = handle_at (length (data_section opt cs @ filter_section opt cs)) (meta_contents opt cs)" by blast
  from write_index_block_finishing [OF r4(2) c parts(1) ne] obtain ih r5 where
    r5: "write_index_block Append r4 = Some (ih, r5)" "usable (tb_file r5)"
    "TableBuilder_ok r5 \<Longrightarrow>
      ih = handle_at (length ((data_section opt cs @ filter_section opt cs) @ stored (meta_contents opt cs))) (index_contents opt cs) \<and>
      accepted (tb_file r5) =
        ((data_section opt cs @ filter_section opt cs) @ stored (meta_contents opt cs)) @ stored (index_contents opt cs)" by blast
  have before: "TableBuilder_ok r4" if "TableBuilder_ok r5"
  proof (rule ccontr)
    assume "\<not> TableBuilder_ok r4"
    then have "r5 = r4" using r5(1) by (simp add: write_index_block_def)
    with that \<open>\<not> TableBuilder_ok r4\<close> show False by simp
  qed
  have hs: "table_footer opt cs = \<lparr>metaindex_handle = mh, index_handle = ih\<rparr>" if "TableBuilder_ok r5"
    using r4(3) [OF before [OF that]] r5(3) [OF that] by (simp add: table_footer_def Let_def add.assoc)
  have "TableBuilder_ok r5 \<Longrightarrow> handle_set mh \<and> handle_set ih" using hs parts(2,3) by simp
  from write_footer_writes [OF r5(2) this] obtain r6 where
    r6: "write_footer Append mh ih r5 = Some r6" "usable (tb_file r6)"
    "TableBuilder_ok r6 \<longrightarrow> TableBuilder_ok r5 \<and>
      accepted (tb_file r6) = accepted (tb_file r5) @ footer_bytes \<lparr>metaindex_handle = mh, index_handle = ih\<rparr>" by blast
  have "TableBuilder_Finish Append Flush r = Some (tb_status r6, r6)"
    using \<open>\<not> tb_closed r1\<close> by (simp add: TableBuilder_Finish_def r1(1) r2_def [symmetric] r3(1) r4(1) r5(1) r6(1))
  moreover have "accepted (tb_file r6) = table_bytes opt cs" if "tb_status r6 = Status_OK"
  proof -
    from that r6(3) have "TableBuilder_ok r5"
      "accepted (tb_file r6) = accepted (tb_file r5) @ footer_bytes \<lparr>metaindex_handle = mh, index_handle = ih\<rparr>"
      by (simp_all add: TableBuilder_ok_def)
    then show ?thesis using r5(3) hs by (simp add: table_bytes_def)
  qed
  ultimately have "TableBuilder_Finish Append Flush r = Some (tb_status r6, r6) \<and> usable (tb_file r6) \<and>
      (tb_status r6 = Status_OK \<longrightarrow> accepted (tb_file r6) = table_bytes opt cs)" using r6(2) by simp
  then show ?thesis unfolding cs_def by (intro exI)
qed

lemma build_table_writes:
  assumes "usable f" "accepted f = []" "opt_compression opt \<le> kSnappyCompression" "calls_sorted opt [] cs"
    "length (table_file opt cs) < 2 ^ 32"
  shows "\<exists>st r. build_table Append Flush opt cs f = Some (st, r) \<and> usable (tb_file r) \<and>
    (st = Status_OK \<longrightarrow> accepted (tb_file r) = table_file opt cs)"
proof -
  have "\<not> tb_closed (TableBuilder opt f)" "tb_file (TableBuilder opt f) = f"
    by (simp_all add: TableBuilder_def TableBuilder_Rep_def)
  then have b: "building opt accepted usable [] [] (TableBuilder opt f)"
    using table_inv_new [of accepted f opt, OF assms(2)] assms(1) by (simp add: building_def)
  have small: "length (data_section opt ([] @ split_blocks opt [] cs)) < 2 ^ 32"
    using length_table_parts(1) assms(5) by (simp add: table_file_def)
  have sorted: "calls_sorted opt (concat [] @ []) cs" and none: "[] \<notin> set ([] :: entry list list)" using assms(4) by simp_all
  from run_building [OF b assms(3) sorted none small] obtain r bs cur where
    r: "run_calls Append Flush cs (TableBuilder opt f) = Some r" "building opt accepted usable bs cur r"
    "bs @ (if cur = [] then [] else [cur]) = split_blocks opt [] cs" by (metis append_Nil)
  have "[] \<notin> set bs"
  proof
    assume "[] \<in> set bs"
    then have "[] \<in> set (split_blocks opt [] cs)" unfolding r(3) [symmetric] by simp
    then show False using split_blocks_nonempty by blast
  qed
  from Finish_writes [OF r(2) assms(3) this] r(1) assms(5) show ?thesis
    unfolding r(3) table_file_def [symmetric] by (simp add: build_table_def)
qed

end

end
