(* ===== verification/TableReaderProps.thy ===== *)
theory TableReaderProps
  imports TableReader TableWriterProps
begin

text \<open>Reading back a file with the contents that \<open>table_bytes\<close> describes.\<close>

section \<open>The contract of a random access file\<close>

locale random_access =
  fixes Read :: random_access_file
    and bytes :: "byte list"
  assumes Read: "unat off + unat n \<le> length bytes \<Longrightarrow> length bytes < 2 ^ 63 \<Longrightarrow>
    \<exists>in_buf. Read off n = (Status_OK, take (unat n) (drop (unat off) bytes), in_buf)"

text \<open>A mapped file keeps it; its bytes are never copied to the caller's array.\<close>

definition mmap_file :: "'os posix \<Rightarrow> slice \<Rightarrow> byte list \<Rightarrow> random_access_file" where
  "mmap_file P filename mmap off n =
     (case PosixMmapReadableFile_Read P filename mmap off n of (s, result) \<Rightarrow> (s, result, False))"

interpretation mmap_file: random_access "mmap_file P filename mmap" mmap
  for P :: "'os posix" and filename mmap
proof
  fix off n :: u64
  assume "unat off + unat n \<le> length mmap" "length mmap < 2 ^ 63"
  moreover from this have "unat (of_nat (length mmap) :: u64) = length mmap" by (simp add: unat_of_nat)
  moreover have "unat (off + n) \<le> unat off + unat n" by (simp add: unat_word_ariths)
  ultimately have "\<not> off + n > of_nat (length mmap)" by (simp add: word_less_nat_alt)
  then show "\<exists>in_buf. mmap_file P filename mmap off n = (Status_OK, take (unat n) (drop (unat off) mmap), in_buf)"
    by (auto simp: mmap_file_def PosixMmapReadableFile_Read_def)
qed

section \<open>Reading a stored block\<close>

context random_access
begin

lemma ReadBlock_stored:
  assumes "bytes = pre @ stored contents @ post" "length bytes < 2 ^ 63"
  shows "\<exists>in_buf. ReadBlock Read opts (handle_at (length pre) contents) =
    Some (Status_OK, \<lparr>bc_data = contents, bc_cachable = in_buf, bc_heap_allocated = in_buf\<rparr>)"
proof -
  define n where "n = length contents"
  have len: "length pre + (n + 5) \<le> length bytes"
    using assms(1) by (simp add: length_stored n_def kBlockTrailerSize_def)
  have n: "unat (of_nat n :: u64) = n" "unat (of_nat (length pre) :: u64) = length pre" "unat (of_nat (n + 5) :: u64) = n + 5"
    using len assms(2) by (simp_all only: unat_of_nat) simp_all
  have "unat (of_nat (length pre) :: u64) + unat (of_nat (n + 5) :: u64) \<le> length bytes" using len n by simp
  from Read [OF this assms(2)] obtain in_buf where
    r: "Read (of_nat (length pre)) (of_nat (n + 5)) = (Status_OK, take (n + 5) (drop (length pre) bytes), in_buf)"
    unfolding n by blast
  have s: "take (n + 5) (drop (length pre) bytes) = stored contents"
    using length_stored [of contents] by (simp add: assms(1) n_def kBlockTrailerSize_def)
  have ls: "length (stored contents) = n + 5" by (simp add: length_stored n_def kBlockTrailerSize_def)
  define crc where "crc = Extend 0 (crc32c_Value 0 contents) [0]"
  have st: "stored contents = (contents @ [0]) @ to_le 4 (unat (Mask crc))"
    by (simp add: stored_def block_trailer_def Let_def crc_def del: to_le.simps)
  have nn: "length contents = n" by (simp add: n_def)
  have parts: "take n (stored contents) = contents" "stored contents ! n = 0" "take (n + 1) (stored contents) = contents @ [0]"
    "drop (n + 1) (stored contents) = to_le 4 (unat (Mask crc))"
    unfolding st by (simp_all add: nn nth_append del: to_le.simps)
  have d: "DecodeFixed32 kLittleEndian (to_le 4 (unat (Mask crc))) = Mask crc"
    using DecodeFixed32_to_le [of kLittleEndian "Mask crc" "[]"] by simp
  have e: "crc32c_Value 0 (contents @ [0]) = crc"
    unfolding crc_def crc32c_Value_def by (rule Extend_append)
  have w: "of_nat n + of_nat 5 = (of_nat (n + 5) :: u64)" by simp
  have ok: "\<not> length (stored contents) < unat (of_nat n :: u64) + (if verify_checksums opts then kBlockTrailerSize else 1)"
    unfolding n(1) ls by (simp add: kBlockTrailerSize_def)
  show ?thesis
    unfolding ReadBlock_def handle_at_def block_handle.simps n_def [symmetric] kBlockTrailerSize_def w r s Let_def prod.case
      if_not_P [OF ok, unfolded kBlockTrailerSize_def]
    by (simp add: ls n(1) parts [simplified] d e Unmask_Mask)
qed

end

section \<open>Iterators of either kind keep the contract\<close>

definition either_stands ::
  "(entry list \<Rightarrow> 'a \<Rightarrow> nat \<Rightarrow> bool) \<Rightarrow> (entry list \<Rightarrow> 'b \<Rightarrow> nat \<Rightarrow> bool) \<Rightarrow> entry list \<Rightarrow> 'a + 'b \<Rightarrow> nat \<Rightarrow> bool" where
  "either_stands stands1 stands2 es it i = (case it of Inl a \<Rightarrow> stands1 es a i | Inr b \<Rightarrow> stands2 es b i)"

lemma either_stands_simps [simp]:
  "either_stands stands1 stands2 es (Inl a) i = stands1 es a i"
  "either_stands stands1 stands2 es (Inr b) i = stands2 es b i"
  by (simp_all add: either_stands_def)

lemma either_iterator_contract:
  assumes I: "iterator I valid Compare stands1" and J: "iterator J valid Compare stands2"
  shows "iterator (either_iterator I J) valid Compare (either_stands stands1 stands2)"
proof
  fix es it i
  assume s: "either_stands stands1 stands2 es it i"
  show "i \<le> length es"
    using s iterator.stands_le [OF I] iterator.stands_le [OF J] by (cases it) auto
  show "Valid (either_iterator I J) it \<longleftrightarrow> i < length es"
    using s iterator.Valid_iff [OF I] iterator.Valid_iff [OF J] by (cases it) (auto simp: either_iterator_def)
  show "Status (either_iterator I J) it = Status_OK"
    using s iterator.Status_OK [OF I] iterator.Status_OK [OF J] by (cases it) (auto simp: either_iterator_def)
  show "\<exists>it'. SeekToFirst (either_iterator I J) it = Some it' \<and> either_stands stands1 stands2 es it' 0"
    using s iterator.SeekToFirst [OF I] iterator.SeekToFirst [OF J] by (cases it) (fastforce simp: either_iterator_def)+
  show "\<exists>it'. SeekToLast (either_iterator I J) it = Some it' \<and> either_stands stands1 stands2 es it' (length es - 1)"
    using s iterator.SeekToLast [OF I] iterator.SeekToLast [OF J] by (cases it) (fastforce simp: either_iterator_def)+
  show "\<exists>it'. Seek (either_iterator I J) target it = Some it' \<and> either_stands stands1 stands2 es it' (seek_index Compare target es)"
    if "valid target" for target
    using s that iterator.Seek [OF I] iterator.Seek [OF J] by (cases it) (fastforce simp: either_iterator_def)+
  assume i: "i < length es"
  show "Key (either_iterator I J) it = fst (es ! i)"
    using s i iterator.Key_nth [OF I] iterator.Key_nth [OF J] by (cases it) (auto simp: either_iterator_def)
  show "Value (either_iterator I J) it = snd (es ! i)"
    using s i iterator.Value_nth [OF I] iterator.Value_nth [OF J] by (cases it) (auto simp: either_iterator_def)
  show "\<exists>it'. Next (either_iterator I J) it = Some it' \<and> either_stands stands1 stands2 es it' (Suc i)"
    using s i iterator.Next [OF I] iterator.Next [OF J] by (cases it) (fastforce simp: either_iterator_def)+
  show "\<exists>it'. Prev (either_iterator I J) it = Some it' \<and> either_stands stands1 stands2 es it' (prev_index i es)"
    using s i iterator.Prev [OF I] iterator.Prev [OF J] by (cases it) (fastforce simp: either_iterator_def)+
qed

definition any_block_over :: "(slice \<Rightarrow> bool) \<Rightarrow> (slice \<Rightarrow> slice \<Rightarrow> int) \<Rightarrow> entry list \<Rightarrow> status + block_iter \<Rightarrow> nat \<Rightarrow> bool" where
  "any_block_over valid Compare = either_stands (\<lambda>es it i. es = [] \<and> it = Status_OK \<and> i = 0) (block_over valid Compare)"

definition data_over :: "(slice \<Rightarrow> bool) \<Rightarrow> (slice \<Rightarrow> slice \<Rightarrow> int) \<Rightarrow> entry list \<Rightarrow> data_iter \<Rightarrow> nat \<Rightarrow> bool" where
  "data_over valid Compare = either_stands (\<lambda>es it i. False) (any_block_over valid Compare)"

lemma empty_contract: "iterator EmptyIterator valid Compare (\<lambda>es it i. es = [] \<and> it = Status_OK \<and> i = 0)"
  by unfold_locales (simp_all add: EmptyIterator_def seek_index_def)

lemma stuck_contract: "iterator stuck_iterator valid Compare (\<lambda>es it i. False)"
  by unfold_locales simp_all

context comparator
begin

lemma any_block_contract: "iterator (any_block_iterator Compare) valid Compare (any_block_over valid Compare)"
  unfolding any_block_iterator_def any_block_over_def
  by (rule either_iterator_contract [OF empty_contract block_iterator])

lemma data_contract: "iterator (data_iterator Compare) valid Compare (data_over valid Compare)"
  unfolding data_iterator_def data_over_def
  by (rule either_iterator_contract [OF stuck_contract any_block_contract])

lemma table_two_level:
  "two_level valid Compare Separator Successor (any_block_iterator Compare) (any_block_over valid Compare)
    (data_iterator Compare) (data_over valid Compare)"
  by (intro two_level.intro comparator_axioms any_block_contract data_contract)

lemma built_any_block:
  assumes "1 \<le> interval" "block_fits interval es" "sorted_entries Compare es" "\<forall>e \<in> set es. valid (fst e)"
  shows "any_block_over valid Compare es (Block_NewIterator (Block unset (built_block interval es))) (length es)"
proof -
  obtain it where "Block_NewIterator (Block unset (built_block interval es)) = Inr it" "block_over valid Compare es it (length es)"
    using built_block_over [where Compare = Compare and valid = valid and unset = unset, OF assms] by blast
  then show ?thesis by (simp add: any_block_over_def)
qed

end

section \<open>The blocks of the file\<close>

text \<open>Blocks with a restart point at every entry hold every key in full, as the first entry of any block does.\<close>

lemma length_key_interval_1:
  "e \<in> set es \<Longrightarrow> length (fst e) \<le> length (bb_buffer (add_entries 1 es BlockBuilder))"
proof -
  have "(es \<noteq> [] \<longrightarrow> bb_counter (add_entries 1 es BlockBuilder) = 1) \<and>
      (\<forall>e \<in> set es. length (fst e) \<le> length (bb_buffer (add_entries 1 es BlockBuilder)))"
  proof (induction es rule: rev_induct)
    case (snoc e es)
    define b where "b = add_entries 1 es BlockBuilder"
    have step: "add_entries 1 (es @ [e]) BlockBuilder = BlockBuilder_Add 1 (fst e) (snd e) b"
      by (simp add: add_entries_def b_def case_prod_beta)
    have "bb_last_key b = [] \<or> \<not> bb_counter b < 1"
      using snoc.IH by (cases es) (simp_all add: b_def, simp add: add_entries_def BlockBuilder_def)
    then have shared: "(if bb_counter b < 1 then common_prefix (bb_last_key b) (fst e) else 0) = 0" by auto
    have zero: "es = [] \<Longrightarrow> bb_counter b = 0" by (simp add: b_def add_entries_def BlockBuilder_def)
    show ?case
      using snoc.IH shared zero unfolding step b_def [symmetric]
      by (cases "bb_counter b < 1") (auto simp: BlockBuilder_Add_def Let_def PutVarint32_bytes trans_le_add1)
  qed simp
  then show "e \<in> set es \<Longrightarrow> length (fst e) \<le> length (bb_buffer (add_entries 1 es BlockBuilder))" by blast
qed

lemma length_built_block: "length (bb_buffer (add_entries interval es BlockBuilder)) \<le> length (built_block interval es)"
  by (simp add: built_block_def BlockBuilder_Finish_def Let_def fold_PutFixed32 PutFixed32_def [of _ "of_nat _"] del: to_le.simps)

lemma length_single_key: "1 \<le> interval \<Longrightarrow> length k \<le> length (built_block interval [(k, v)])"
proof -
  assume "1 \<le> interval"
  then have "length k \<le> length (bb_buffer (add_entries interval [(k, v)] BlockBuilder))"
    by (simp add: add_entries_def BlockBuilder_Add_def BlockBuilder_def Let_def PutVarint32_bytes)
  with length_built_block [of interval "[(k, v)]"] show ?thesis by linarith
qed

text \<open>What is assumed of the options and the blocks of a file.\<close>

definition tables_ok :: "(slice \<Rightarrow> bool) \<Rightarrow> options \<Rightarrow> entry list list \<Rightarrow> bool" where
  "tables_ok valid opt bs \<longleftrightarrow>
     comparator valid (cmp_Compare (opt_comparator opt)) (cmp_Separator (opt_comparator opt)) (cmp_Successor (opt_comparator opt)) \<and>
     1 \<le> opt_restart_interval opt \<and> [] \<notin> set bs \<and> sorted_entries (cmp_Compare (opt_comparator opt)) (concat bs) \<and>
     (\<forall>e \<in> set (concat bs). valid (fst e) \<and> length (fst e) < 2 ^ 32 \<and> length (snd e) < 2 ^ 32) \<and>
     length (table_bytes opt bs) < 2 ^ 32"

lemma tables_okD:
  assumes "tables_ok valid opt bs"
  shows "comparator valid (cmp_Compare (opt_comparator opt)) (cmp_Separator (opt_comparator opt)) (cmp_Successor (opt_comparator opt))"
    "1 \<le> opt_restart_interval opt" "es \<in> set bs \<Longrightarrow> es \<noteq> []"
    "sorted_entries (cmp_Compare (opt_comparator opt)) (concat bs)"
    "es \<in> set bs \<Longrightarrow> e \<in> set es \<Longrightarrow> valid (fst e) \<and> length (fst e) < 2 ^ 32 \<and> length (snd e) < 2 ^ 32"
    "length (table_bytes opt bs) < 2 ^ 32"
  using assms by (auto simp: tables_ok_def)

lemma data_block_split:
  assumes "i < length bs"
  shows "data_section opt bs = data_section opt (take i bs) @ stored (block_contents_of opt (bs ! i)) @ data_section opt (drop (Suc i) bs)"
proof -
  have "bs = take i bs @ bs ! i # drop (Suc i) bs" by (rule id_take_nth_drop [OF assms])
  then have "data_section opt bs = data_section opt (take i bs @ bs ! i # drop (Suc i) bs)" by (rule arg_cong)
  then show ?thesis by (simp add: data_section_def)
qed

lemma length_block_contents:
  assumes "i < length bs"
  shows "length (block_contents_of opt (bs ! i)) \<le> length (table_bytes opt bs)"
    "length (data_section opt (take i bs)) \<le> length (table_bytes opt bs)"
  by (simp_all add: table_bytes_def data_block_split [OF assms] length_stored)

lemma data_offset_less:
  assumes "i < j" "j < length bs"
  shows "length (data_section opt (take i bs)) < length (data_section opt (take j bs))"
proof -
  have "take j bs ! i = bs ! i" "take i (take j bs) = take i bs" using assms by simp_all
  then have "length (data_section opt (take j bs)) \<ge> length (data_section opt (take i bs)) + length (stored (block_contents_of opt (bs ! i)))"
    using data_block_split [of i "take j bs" opt] assms by simp
  then show ?thesis by (simp add: length_stored kBlockTrailerSize_def)
qed

lemma data_handle_offset:
  assumes "i < length bs" "length (table_bytes opt bs) < 2 ^ 32"
  shows "unat (bh_offset (data_handle opt bs i)) = length (data_section opt (take i bs))"
  using length_block_contents(2) [OF assms(1), of opt] assms(2)
  by (simp add: data_handle_def handle_at_def unat_of_nat)

lemma data_handle_inj:
  assumes "i < length bs" "j < length bs" "length (table_bytes opt bs) < 2 ^ 32" "data_handle opt bs i = data_handle opt bs j"
  shows "i = j"
proof (rule ccontr)
  assume "i \<noteq> j"
  then have "length (data_section opt (take i bs)) \<noteq> length (data_section opt (take j bs))"
    using data_offset_less [of i j bs opt] data_offset_less [of j i bs opt] assms(1,2) by (cases "i < j") auto
  then show False
    using data_handle_offset [OF assms(1,3)] data_handle_offset [OF assms(2,3)] assms(4) by simp
qed

text \<open>The entries of the block with an encoded handle.\<close>

definition block_at_handle :: "options \<Rightarrow> entry list list \<Rightarrow> slice \<Rightarrow> entry list" where
  "block_at_handle opt bs h =
     (case find (\<lambda>i. handle_bytes (data_handle opt bs i) = h) [0..<length bs] of None \<Rightarrow> [] | Some i \<Rightarrow> bs ! i)"

lemma block_at_data_handle:
  assumes "i < length bs" "length (table_bytes opt bs) < 2 ^ 32"
  shows "block_at_handle opt bs (handle_bytes (data_handle opt bs i)) = bs ! i"
proof -
  have "find (\<lambda>j. handle_bytes (data_handle opt bs j) = handle_bytes (data_handle opt bs i)) [0..<length bs] = Some i"
    unfolding find_Some_iff
  proof (intro exI [of _ i] conjI allI impI)
    fix j assume "j < i"
    then have "data_handle opt bs j \<noteq> data_handle opt bs i" using data_handle_inj [of j bs i opt] assms by auto
    then show "handle_bytes (data_handle opt bs ([0..<length bs] ! j)) \<noteq> handle_bytes (data_handle opt bs i)"
      using \<open>j < i\<close> assms(1) by (simp add: handle_bytes_inj)
  qed (use assms in simp_all)
  then show ?thesis by (simp add: block_at_handle_def)
qed

lemma length_index_of [simp]: "length (block_index opt bs) = length bs"
  by (cases bs) (simp_all add: block_index_def)

lemma block_index_nth:
  assumes "i < length bs"
  shows "block_index opt bs ! i = (if Suc i < length bs then inner_entry opt bs i else last_entry opt bs)"
    "snd (block_index opt bs ! i) = handle_bytes (data_handle opt bs i)"
proof -
  have "bs \<noteq> []" using assms by auto
  then show e: "block_index opt bs ! i = (if Suc i < length bs then inner_entry opt bs i else last_entry opt bs)"
    using assms by (auto simp: block_index_def nth_append)
  have "length bs - 1 = i" if "\<not> Suc i < length bs" using that assms by simp
  then show "snd (block_index opt bs ! i) = handle_bytes (data_handle opt bs i)"
    unfolding e by (auto simp: inner_entry_def last_entry_def)
qed

lemma index_entries_of:
  assumes "length (table_bytes opt bs) < 2 ^ 32"
  shows "index_entries (block_at_handle opt bs) (block_index opt bs) = concat bs"
proof -
  have "map (\<lambda>x. block_at_handle opt bs (snd x)) (block_index opt bs) = bs"
    by (rule nth_equalityI) (simp_all add: block_index_nth(2) block_at_data_handle [OF _ assms])
  then show ?thesis by (simp add: index_entries_def)
qed

section \<open>The index\<close>

lemma sorted_entries_append:
  "sorted_entries Compare (xs @ ys) \<longleftrightarrow> sorted_entries Compare xs \<and> sorted_entries Compare ys \<and>
    (\<forall>a \<in> set xs. \<forall>b \<in> set ys. Compare (fst a) (fst b) < 0)"
  by (auto simp: sorted_entries_def sorted_wrt_append)

lemma blocks_apart:
  assumes "sorted_entries Compare (concat bs)" "i < j" "j < length bs" "a \<in> set (bs ! i)" "b \<in> set (bs ! j)"
  shows "Compare (fst a) (fst b) < 0"
proof -
  have "concat bs = concat (take j bs) @ concat (drop j bs)" by (metis append_take_drop_id concat_append)
  moreover have "take j bs ! i = bs ! i" "i < length (take j bs)" using assms(2,3) by simp_all
  then have "a \<in> set (concat (take j bs))" using assms(4) nth_mem [of i "take j bs"] by auto
  moreover have "drop j bs ! 0 = bs ! j" "0 < length (drop j bs)" using assms(3) by simp_all
  then have "b \<in> set (concat (drop j bs))" using assms(5) nth_mem [of 0 "drop j bs"] by auto
  ultimately show ?thesis using assms(1) by (metis sorted_entries_append)
qed

lemma block_sorted:
  assumes "sorted_entries Compare (concat bs)" "es \<in> set bs"
  shows "sorted_entries Compare es"
  using assms by (induction bs) (auto simp: sorted_entries_append)

lemma sorted_last:
  assumes "sorted_entries Compare es" "e \<in> set es" "es \<noteq> []"
  shows "e = last es \<or> Compare (fst e) (fst (last es)) < 0"
proof -
  have "es = butlast es @ [last es]" using assms(3) by simp
  with assms(1) have "\<forall>a \<in> set (butlast es). Compare (fst a) (fst (last es)) < 0" by (metis sorted_entries_append list.set_intros(1))
  moreover have "e \<in> set (butlast es) \<or> e = last es" using assms(2) \<open>es = _\<close> by (metis Un_iff empty_iff empty_set insertE list.simps(15) set_append)
  ultimately show ?thesis by blast
qed

lemma sorted_hd:
  assumes "sorted_entries Compare es" "e \<in> set es"
  shows "e = hd es \<or> Compare (fst (hd es)) (fst e) < 0"
  using assms by (cases es) (auto simp: sorted_entries_def)

text \<open>A key of the index is at or past those of its block, and before those of later blocks.\<close>

lemma index_key:
  assumes t: "tables_ok valid opt bs" and i: "i < length bs"
  shows "valid (fst (block_index opt bs ! i))"
    "e \<in> set (bs ! i) \<Longrightarrow> cmp_Compare (opt_comparator opt) (fst e) (fst (block_index opt bs ! i)) \<le> 0"
    "i < j \<Longrightarrow> j < length bs \<Longrightarrow> e \<in> set (bs ! j) \<Longrightarrow> cmp_Compare (opt_comparator opt) (fst (block_index opt bs ! i)) (fst e) < 0"
proof -
  define C where "C = cmp_Compare (opt_comparator opt)"
  note ok = tables_okD [OF t, folded C_def]
  note c = comparator.less_le_trans [OF ok(1)] comparator.trans [OF ok(1)] comparator.refl [OF ok(1)]
  have ne: "bs ! i \<noteq> []" using ok(3) i by (simp add: nth_mem)
  define l where "l = last (bs ! i)"
  have l: "l \<in> set (bs ! i)" "valid (fst l)" using ne ok(5) [of "bs ! i" l] i by (auto simp: l_def nth_mem)
  have key: "valid (fst (block_index opt bs ! i)) \<and> C (fst l) (fst (block_index opt bs ! i)) \<le> 0 \<and>
      (Suc i < length bs \<longrightarrow> C (fst (block_index opt bs ! i)) (fst (hd (bs ! Suc i))) < 0)"
  proof (cases "Suc i < length bs")
    case True
    have "bs ! Suc i \<noteq> []" using ok(3) True by (simp add: nth_mem)
    then have h: "hd (bs ! Suc i) \<in> set (bs ! Suc i)" "valid (fst (hd (bs ! Suc i)))"
      using ok(5) [of "bs ! Suc i"] True by (simp_all add: nth_mem)
    have "C (fst l) (fst (hd (bs ! Suc i))) < 0" by (rule blocks_apart [OF ok(4) _ True l(1) h(1)]) simp
    then show ?thesis
      using True comparator.separator_less [OF ok(1) l(2) h(2)] comparator.valid_separator [OF ok(1) l(2) h(2)]
      by (simp add: block_index_nth(1) [OF i] inner_entry_def l_def)
  next
    case False
    then have "last bs = bs ! i" using i by (metis Suc_lessI last_conv_nth length_greater_0_conv less_imp_Suc_add diff_Suc_1 neq0_conv not_less0 list.size(3))
    then show ?thesis
      using False comparator.successor [OF ok(1) l(2)] comparator.valid_successor [OF ok(1) l(2)]
      by (simp add: block_index_nth(1) [OF i] last_entry_def l_def)
  qed
  then show "valid (fst (block_index opt bs ! i))" by simp
  {
    assume e: "e \<in> set (bs ! i)"
    then have v: "valid (fst e)" using ok(5) [of "bs ! i" e] i by (simp add: nth_mem)
    have "C (fst e) (fst l) \<le> 0"
      using sorted_last [OF block_sorted [OF ok(4)] e ne] i c(3) [OF v] by (auto simp: l_def nth_mem)
    then show "cmp_Compare (opt_comparator opt) (fst e) (fst (block_index opt bs ! i)) \<le> 0"
      using c(2) [OF v l(2)] key unfolding C_def [symmetric] by blast
  next
    assume j: "i < j" "j < length bs" "e \<in> set (bs ! j)"
    then have s: "Suc i < length bs" by simp
    have v: "valid (fst e)" using ok(5) [of "bs ! j" e] j by (simp add: nth_mem)
    have "bs ! Suc i \<noteq> []" using ok(3) s by (simp add: nth_mem)
    then have h: "hd (bs ! Suc i) \<in> set (bs ! Suc i)" "valid (fst (hd (bs ! Suc i)))"
      using ok(5) [of "bs ! Suc i"] s by (simp_all add: nth_mem)
    have "C (fst (hd (bs ! Suc i))) (fst e) \<le> 0"
    proof (cases "j = Suc i")
      case True
      then show ?thesis
        using sorted_hd [OF block_sorted [OF ok(4)], of "bs ! j" e] j c(3) [OF v] by (auto simp: nth_mem)
    next
      case False
      then show ?thesis using blocks_apart [OF ok(4) _ j(2) h(1) j(3)] j(1) by simp
    qed
    then show "cmp_Compare (opt_comparator opt) (fst (block_index opt bs ! i)) (fst e) < 0"
      using c(1) [of "fst (block_index opt bs ! i)" "fst (hd (bs ! Suc i))" "fst e"] key s h(2) v unfolding C_def [symmetric] by blast
  }
qed

lemma index_sorted:
  assumes t: "tables_ok valid opt bs"
  shows "sorted_entries (cmp_Compare (opt_comparator opt)) (block_index opt bs)" "\<forall>e \<in> set (block_index opt bs). valid (fst e)"
proof -
  note ok = tables_okD [OF t]
  show "\<forall>e \<in> set (block_index opt bs). valid (fst e)"
  proof
    fix e assume "e \<in> set (block_index opt bs)"
    then obtain i where "i < length bs" "e = block_index opt bs ! i" by (auto simp: in_set_conv_nth)
    then show "valid (fst e)" using index_key(1) [OF t] by simp
  qed
  have "cmp_Compare (opt_comparator opt) (fst (block_index opt bs ! i)) (fst (block_index opt bs ! j)) < 0"
    if "i < j" "j < length bs" for i j
  proof -
    have "bs ! j \<noteq> []" using ok(3) that by (simp add: nth_mem)
    then have h: "hd (bs ! j) \<in> set (bs ! j)" by simp
    then have "valid (fst (hd (bs ! j)))" using ok(5) [of "bs ! j" "hd (bs ! j)"] that by (simp add: nth_mem)
    with comparator.less_le_trans [OF ok(1)] index_key [OF t] that h show ?thesis
      by (meson less_trans)
  qed
  then show "sorted_entries (cmp_Compare (opt_comparator opt)) (block_index opt bs)"
    by (simp add: sorted_entries_def sorted_wrt_iff_nth_less)
qed

lemma index_ok_table:
  assumes t: "tables_ok valid opt bs"
  shows "index_ok valid (cmp_Compare (opt_comparator opt)) (block_at_handle opt bs) (block_index opt bs)"
proof -
  note ok = tables_okD [OF t]
  have b: "block_at_handle opt bs (snd (block_index opt bs ! i)) = bs ! i" if "i < length bs" for i
    using block_at_data_handle [OF that ok(6)] by (simp add: block_index_nth(2) [OF that])
  have "valid (fst x) \<and> (\<forall>e \<in> set (block_at_handle opt bs (snd x)). valid (fst e) \<and> cmp_Compare (opt_comparator opt) (fst e) (fst x) \<le> 0)"
    if "x \<in> set (block_index opt bs)" for x
  proof -
    from that obtain i where i: "i < length bs" "x = block_index opt bs ! i" by (auto simp: in_set_conv_nth)
    have "\<forall>e \<in> set (bs ! i). valid (fst e)" using ok(5) [of "bs ! i"] i(1) by (simp add: nth_mem)
    with index_key(1,2) [OF t i(1)] b [OF i(1)] show ?thesis by (simp add: i(2))
  qed
  moreover have "\<forall>e \<in> set (block_at_handle opt bs (snd (block_index opt bs ! k))). cmp_Compare (opt_comparator opt) (fst (block_index opt bs ! j)) (fst e) < 0"
    if "j < k" "k < length (block_index opt bs)" for j k
    using index_key(3) [OF t, of j k] that b [of k] by simp
  ultimately show ?thesis
    using ok(4) unfolding index_ok_def index_entries_of [OF ok(6)] by blast
qed

lemma index_fits:
  assumes t: "tables_ok valid opt bs"
  shows "block_fits 1 (block_index opt bs)"
proof -
  note ok = tables_okD [OF t]
  have len: "length (built_block 1 (block_index opt bs)) < 2 ^ 32"
    using ok(6) by (simp add: table_bytes_def index_contents_def length_stored)
  moreover have "length (fst e) < 2 ^ 32 \<and> length (snd e) < 2 ^ 32" if "e \<in> set (block_index opt bs)" for e
  proof -
    from that obtain i where i: "i < length bs" "e = block_index opt bs ! i" by (auto simp: in_set_conv_nth)
    have "length (snd e) \<le> 20" unfolding i(2) block_index_nth(2) [OF i(1)] by (rule length_handle_bytes)
    moreover have "length (fst e) < 2 ^ 32"
      using length_key_interval_1 [OF that] length_built_block [of 1 "block_index opt bs"] len by linarith
    ultimately show ?thesis by simp
  qed
  ultimately show ?thesis by (simp add: block_fits_def)
qed

section \<open>Opening the file\<close>

lemma memcmp_same: "memcmp n x x = 0"
proof (induction x arbitrary: n)
  case (Cons a x)
  then show ?case by (cases n) simp_all
qed simp

lemma block_fits_data:
  assumes t: "tables_ok valid opt bs" and i: "i < length bs"
  shows "block_fits (opt_restart_interval opt) (bs ! i)"
proof -
  note ok = tables_okD [OF t]
  have "length (built_block (opt_restart_interval opt) (bs ! i)) < 2 ^ 32"
    using length_block_contents(1) [OF i, of opt] ok(6) by (simp add: block_contents_of_def)
  then show ?thesis using ok(5) [of "bs ! i"] i by (simp add: block_fits_def nth_mem)
qed

lemma filter_meta:
  assumes t: "tables_ok valid opt bs" and p: "opt_filter_policy opt = Some p"
  shows "block_fits (opt_restart_interval opt) (meta_entries opt bs)"
    "meta_entries opt bs = [(filter_key p, handle_bytes (handle_at (length (data_section opt bs)) (filter_contents opt p bs)))]"
proof -
  note ok = tables_okD [OF t]
  show m: "meta_entries opt bs = [(filter_key p, handle_bytes (handle_at (length (data_section opt bs)) (filter_contents opt p bs)))]"
    by (simp add: meta_entries_def p)
  have len: "length (built_block (opt_restart_interval opt) (meta_entries opt bs)) < 2 ^ 32"
    using ok(6) by (simp add: table_bytes_def meta_contents_def length_stored)
  moreover have "length (filter_key p) < 2 ^ 32"
    using length_single_key [OF ok(2), of "filter_key p"] len unfolding m by (meson le_less_trans)
  ultimately show "block_fits (opt_restart_interval opt) (meta_entries opt bs)"
    using length_handle_bytes [of "handle_at (length (data_section opt bs)) (filter_contents opt p bs)"]
    by (simp add: block_fits_def m)
qed

text \<open>The table that \<open>Open\<close> makes.\<close>

definition opened_table :: "nat \<Rightarrow> u64 \<Rightarrow> options \<Rightarrow> random_access_file \<Rightarrow> entry list list \<Rightarrow> table \<Rightarrow> bool" where
  "opened_table unset cache_id opt file bs t \<longleftrightarrow>
     t_options t = opt \<and> t_file t = file \<and> t_cache_id t = cache_id \<and>
     t_filter t = map_option (\<lambda>p. FilterBlockReader (filter_contents opt p bs)) (opt_filter_policy opt) \<and>
     t_metaindex_handle t = metaindex_handle (table_footer opt bs) \<and> t_index_block t = Block unset (index_contents opt bs)"

context random_access
begin

lemma Table_ReadMeta_opened:
  assumes t: "tables_ok valid opt bs" and bytes: "bytes = table_bytes opt bs"
    and u: "t_options u = opt" "t_file u = Read" "t_filter u = None"
  shows "\<exists>u'. Table_ReadMeta unset (table_footer opt bs) u = Some u' \<and> t_options u' = opt \<and> t_file u' = Read \<and>
    t_cache_id u' = t_cache_id u \<and> t_filter u' = map_option (\<lambda>p. FilterBlockReader (filter_contents opt p bs)) (opt_filter_policy opt) \<and>
    t_metaindex_handle u' = t_metaindex_handle u \<and> t_index_block u' = t_index_block u"
proof (cases "opt_filter_policy opt")
  case None
  then show ?thesis using u by (simp add: Table_ReadMeta_def)
next
  case (Some p)
  note ok = tables_okD [OF t]
  have small: "length bytes < 2 ^ 63" using ok(6) bytes by simp
  have "bytes = (data_section opt bs @ filter_section opt bs) @ stored (meta_contents opt bs) @
      (stored (index_contents opt bs) @ footer_bytes (table_footer opt bs))"
    by (simp add: bytes table_bytes_def)
  from ReadBlock_stored [OF this small, of "meta_options opt"] obtain b1 where
    r1: "ReadBlock Read (meta_options opt) (metaindex_handle (table_footer opt bs)) =
      Some (Status_OK, \<lparr>bc_data = meta_contents opt bs, bc_cachable = b1, bc_heap_allocated = b1\<rparr>)"
    unfolding table_footer_def Let_def footer.simps by blast
  define fc where "fc = filter_contents opt p bs"
  have "bytes = data_section opt bs @ stored fc @ (stored (meta_contents opt bs) @ stored (index_contents opt bs) @ footer_bytes (table_footer opt bs))"
    by (simp add: bytes table_bytes_def filter_section_def Some fc_def)
  from ReadBlock_stored [OF this small, of "meta_options opt"] obtain b2 where
    r2: "ReadBlock Read (meta_options opt) (handle_at (length (data_section opt bs)) fc) =
      Some (Status_OK, \<lparr>bc_data = fc, bc_cachable = b2, bc_heap_allocated = b2\<rparr>)" by blast
  note m = filter_meta [OF t Some]
  define I where "I = any_block_iterator slice_compare"
  define it where "it = Block_NewIterator (Block unset (meta_contents opt bs))"
  note contract = bytewise.any_block_contract [folded I_def]
  have "sorted_entries slice_compare (meta_entries opt bs)" by (simp add: m(2) sorted_entries_def)
  from bytewise.built_any_block [OF ok(2) m(1) this, of unset] have
    "any_block_over (\<lambda>_. True) slice_compare (meta_entries opt bs) it 1"
    by (simp add: it_def meta_contents_def m(2))
  from iterator.Seek [OF contract this, of "filter_key p"] obtain it' where
    s: "Seek I (filter_key p) it = Some it'"
    "any_block_over (\<lambda>_. True) slice_compare (meta_entries opt bs) it' (seek_index slice_compare (filter_key p) (meta_entries opt bs))" by auto
  have "seek_index slice_compare (filter_key p) (meta_entries opt bs) = 0" by (simp add: seek_index_def m(2))
  note at = s(2) [unfolded this]
  have k: "Valid I it'" "Key I it' = filter_key p" "Value I it' = handle_bytes (handle_at (length (data_section opt bs)) fc)"
    using iterator.Valid_iff [OF contract at] iterator.Key_nth [OF contract at] iterator.Value_nth [OF contract at]
    by (simp_all add: m(2) fc_def)
  have "slice_eq (filter_key p) (filter_key p)"
    by (simp add: slice_eq_def memcmp_same)
  moreover have "BlockHandle_DecodeFrom h' (handle_bytes (handle_at (length (data_section opt bs)) fc)) =
      (Status_OK, handle_at (length (data_section opt bs)) fc, [])" for h'
    using BlockHandle_DecodeFrom_bytes [of h' _ "[]"] by simp
  ultimately show ?thesis
    using u s(1) k r2
    by (simp add: Table_ReadMeta_def Some r1 it_def I_def filter_key_def Table_ReadFilter_def fc_def Let_def)
qed

lemma Table_Open_opened:
  assumes t: "tables_ok valid opt bs" and bytes: "bytes = table_bytes opt bs"
  shows "\<exists>u. Table_Open unset cache_id opt Read (of_nat (length bytes)) = Some (Status_OK, Some u) \<and>
    opened_table unset cache_id opt Read bs u"
proof -
  note ok = tables_okD [OF t]
  have small: "length bytes < 2 ^ 63" using ok(6) bytes by simp
  have split: "bytes = (data_section opt bs @ filter_section opt bs @ stored (meta_contents opt bs) @ stored (index_contents opt bs)) @
      footer_bytes (table_footer opt bs)"
    by (simp add: bytes table_bytes_def)
  have k: "kEncodedLength = 48" by (simp add: kEncodedLength_def kMaxEncodedLength_def)
  have len: "48 \<le> length bytes" using length_footer_bytes [of "table_footer opt bs"] by (simp add: split k)
  have u: "unat (of_nat (length bytes) :: u64) = length bytes" using small by (simp add: unat_of_nat)
  have sub: "unat (of_nat (length bytes) - 48 :: u64) = length bytes - 48"
    using len u by (simp add: unat_sub word_le_nat_alt)
  have "unat (of_nat (length bytes) - 48 :: u64) + unat (48 :: u64) \<le> length bytes" using len sub by simp
  from Read [OF this small] obtain in_buf where
    r: "Read (of_nat (length bytes) - 48) 48 = (Status_OK, footer_bytes (table_footer opt bs), in_buf)"
    using len sub split length_footer_bytes [of "table_footer opt bs"] by (auto simp: k)
  have "bytes = (data_section opt bs @ filter_section opt bs @ stored (meta_contents opt bs)) @ stored (index_contents opt bs) @
      footer_bytes (table_footer opt bs)"
    by (simp add: split)
  from ReadBlock_stored [OF this small, of "meta_options opt"] obtain b1 where
    r1: "ReadBlock Read (meta_options opt) (index_handle (table_footer opt bs)) =
      Some (Status_OK, \<lparr>bc_data = index_contents opt bs, bc_cachable = b1, bc_heap_allocated = b1\<rparr>)"
    unfolding table_footer_def Let_def footer.simps by (auto simp: add.assoc)
  have big: "\<not> (of_nat (length bytes) :: u64) < 48" using len u by (simp add: word_less_nat_alt)
  define v where "v = \<lparr>t_options = opt, t_file = Read, t_cache_id = cache_id, t_filter = None, t_filter_data = None,
    t_metaindex_handle = metaindex_handle (table_footer opt bs), t_index_block = Block unset (index_contents opt bs)\<rparr>"
  have "t_options v = opt" "t_file v = Read" "t_filter v = None" by (simp_all add: v_def)
  from Table_ReadMeta_opened [OF t bytes this, of unset] obtain w where w: "Table_ReadMeta unset (table_footer opt bs) v = Some w"
    "opened_table unset cache_id opt Read bs w" by (auto simp: opened_table_def v_def)
  have "Table_Open unset cache_id opt Read (of_nat (length bytes)) = Some (Status_OK, Some w)"
    using big w(1) by (simp add: Table_Open_def k r Footer_DecodeFrom_bytes r1 v_def)
  with w(2) show ?thesis by blast
qed

lemma BlockReader_data:
  assumes t: "tables_ok valid opt bs" and bytes: "bytes = table_bytes opt bs" and u: "opened_table unset' cache_id opt Read bs u"
    and i: "i < length bs"
  shows "\<exists>it. BlockReader unset u opts (handle_bytes (data_handle opt bs i)) = Some it \<and>
    any_block_over valid (cmp_Compare (opt_comparator opt)) (bs ! i) it (length (bs ! i))"
proof -
  note ok = tables_okD [OF t]
  have small: "length bytes < 2 ^ 63" using ok(6) bytes by simp
  have "bytes = data_section opt (take i bs) @ stored (block_contents_of opt (bs ! i)) @ (data_section opt (drop (Suc i) bs) @
      filter_section opt bs @ stored (meta_contents opt bs) @ stored (index_contents opt bs) @ footer_bytes (table_footer opt bs))"
    by (simp add: bytes table_bytes_def data_block_split [OF i])
  from ReadBlock_stored [OF this small, of opts] obtain b where
    r: "ReadBlock Read opts (data_handle opt bs i) =
      Some (Status_OK, \<lparr>bc_data = block_contents_of opt (bs ! i), bc_cachable = b, bc_heap_allocated = b\<rparr>)"
    unfolding data_handle_def by blast
  have "BlockHandle_DecodeFrom BlockHandle (handle_bytes (data_handle opt bs i)) = (Status_OK, data_handle opt bs i, [])"
    using BlockHandle_DecodeFrom_bytes [of BlockHandle _ "[]"] by simp
  then have "BlockReader unset u opts (handle_bytes (data_handle opt bs i)) =
      Some (Block_NewIterator (Block unset (block_contents_of opt (bs ! i))))"
    using u r by (simp add: BlockReader_def opened_table_def)
  moreover have "sorted_entries (cmp_Compare (opt_comparator opt)) (bs ! i)" using block_sorted [OF ok(4)] i by (simp add: nth_mem)
  moreover have "\<forall>e \<in> set (bs ! i). valid (fst e)" using ok(5) [of "bs ! i"] i by (simp add: nth_mem)
  ultimately show ?thesis
    using comparator.built_any_block [OF ok(1,2) block_fits_data [OF t i], of unset] by (simp add: block_contents_of_def)
qed

lemma table_index_over:
  assumes t: "tables_ok valid opt bs" and u: "opened_table unset cache_id opt Read bs u"
  shows "any_block_over valid (cmp_Compare (opt_comparator opt)) (block_index opt bs) (Block_NewIterator (t_index_block u)) (length bs)"
  using comparator.built_any_block [OF tables_okD(1) [OF t] order_refl index_fits [OF t] index_sorted [OF t], of unset] u
  by (simp add: opened_table_def index_contents_def)

lemma table_iterator_over:
  assumes t: "tables_ok valid opt bs" and bytes: "bytes = table_bytes opt bs" and u: "opened_table unset cache_id opt Read bs u"
  shows "shows_entries (table_iterator unset' u opts) valid (cmp_Compare (opt_comparator opt)) (concat bs) (Table_NewIterator u)"
proof -
  note ok = tables_okD [OF t]
  have C: "Table_Compare u = cmp_Compare (opt_comparator opt)" using u by (simp add: Table_Compare_def opened_table_def)
  have "\<exists>p. data_over valid (cmp_Compare (opt_comparator opt)) (block_at_handle opt bs (snd x)) (block_function unset' u opts (snd x)) p"
    if "x \<in> set (block_index opt bs)" for x
  proof -
    from that obtain i where i: "i < length bs" "x = block_index opt bs ! i" by (auto simp: in_set_conv_nth)
    note x = block_index_nth(2) [OF i(1), of opt, folded i(2)]
    from BlockReader_data [OF t bytes u i(1), of unset' opts] obtain it where
      "BlockReader unset' u opts (snd x) = Some it"
      "any_block_over valid (cmp_Compare (opt_comparator opt)) (bs ! i) it (length (bs ! i))" unfolding x by blast
    then show ?thesis
      by (auto simp: block_function_def data_over_def x block_at_data_handle [OF i(1) ok(6)])
  qed
  then have opens: "index_ok valid (cmp_Compare (opt_comparator opt)) (block_at_handle opt bs) (block_index opt bs) \<and>
      blocks_open (data_over valid (cmp_Compare (opt_comparator opt))) (block_at_handle opt bs) (block_function unset' u opts) (block_index opt bs)"
    using index_ok_table [OF t] by (simp add: blocks_open_def)
  note two = comparator.table_two_level [OF ok(1)]
  from two_level.TwoLevelIterator_over [OF two opens table_index_over [OF t u]]
  have "two_level_over (any_block_iterator (Table_Compare u)) (any_block_over valid (Table_Compare u)) (data_iterator (Table_Compare u))
      (data_over valid (Table_Compare u)) valid (Table_Compare u) (block_function unset' u opts) (concat bs) (Table_NewIterator u) (length (concat bs))"
    unfolding index_entries_of [OF ok(6)] Table_NewIterator_def C .
  from iterator.stands_shows [OF two_level.two_level_iterator [OF two] this [unfolded C]]
  show ?thesis unfolding table_iterator_def C .
qed

end

section \<open>Looking up a key\<close>

text \<open>
  A lookup of \<open>k\<close> has to find the entry \<open>e\<close>: no separator before \<open>e\<close> that is computed from a key before \<open>k\<close> hides it,
  and the filter treats the two keys alike.
\<close>

definition found_by :: "(slice \<Rightarrow> bool) \<Rightarrow> options \<Rightarrow> slice \<Rightarrow> entry \<Rightarrow> bool" where
  "found_by valid opt k e \<longleftrightarrow>
     (\<forall>a. valid a \<longrightarrow> cmp_Compare (opt_comparator opt) a k < 0 \<longrightarrow>
       cmp_Compare (opt_comparator opt) (cmp_Separator (opt_comparator opt) a (fst e)) k < 0) \<and>
     (case opt_filter_policy opt of
        None \<Rightarrow> True
      | Some p \<Rightarrow> filter_policy (policy_Create p) (policy_Match p) \<and> policy_Match p k = policy_Match p (fst e))"

lemma filter_runs_sorted:
  assumes "length (table_bytes opt bs) < 2 ^ 32"
  shows "sorted (map (filter_index \<circ> fst) (filter_runs opt bs []))"
proof -
  define off where "off i = length (data_section opt (take i bs))" for i
  have mono: "off i \<le> off j" if "i \<le> j" "j \<le> length bs" for i j
    using length_data_section_take [of opt i "take j bs"] that by (simp add: off_def min_def)
  have small: "off i < 2 ^ 32" for i
    using length_data_section_take [of opt i bs] assms by (simp add: off_def table_bytes_def)
  have runs: "map (filter_index \<circ> fst) (filter_runs opt bs []) = map (\<lambda>i. filter_index (of_nat (off i))) [0..<Suc (length bs)]"
    by (simp add: filter_runs_def off_def)
  have "filter_index (of_nat (off i)) = off i div 2048" for i
  proof -
    have "unat (of_nat (off i) :: u64) = off i" using small [of i] by (simp add: unat_of_nat)
    then show ?thesis by (simp add: filter_index_def kFilterBase_def kFilterBaseLg_def unat_div)
  qed
  then show ?thesis
    unfolding runs sorted_iff_nth_mono using mono by (auto intro!: div_le_mono simp del: upt_Suc)
qed

lemma filter_matches:
  assumes t: "tables_ok valid opt bs" and p: "opt_filter_policy opt = Some p" "filter_policy (policy_Create p) (policy_Match p)"
    and i: "i < length bs" "e \<in> set (bs ! i)"
  shows "FilterBlock_KeyMayMatch (policy_Match p) (FilterBlockReader (filter_contents opt p bs)) (bh_offset (data_handle opt bs i)) (fst e)"
proof -
  note ok = tables_okD [OF t]
  have "(bh_offset (data_handle opt bs i), map fst (bs ! i)) \<in> set (filter_runs opt bs [])"
    using i(1) by (auto simp: filter_runs_def data_handle_def handle_at_def)
  moreover have "fst e \<in> set (map fst (bs ! i))" using i(2) by simp
  moreover have "length (filter_contents opt p bs) < 2 ^ 32"
    using ok(6) by (simp add: table_bytes_def filter_section_def p(1) length_stored)
  ultimately show ?thesis
    using filter_policy.filter_block_matches [OF p(2) filter_runs_sorted [OF ok(6)]]
    by (simp add: filter_contents_def filter_state_def)
qed

lemma block_start_concat:
  assumes "length (table_bytes opt bs) < 2 ^ 32" "j \<le> length bs"
  shows "block_start (block_at_handle opt bs) (block_index opt bs) j = length (concat (take j bs))"
proof -
  have "map (\<lambda>x. block_at_handle opt bs (snd x)) (take j (block_index opt bs)) = take j bs"
    by (rule nth_equalityI) (use assms in \<open>simp_all add: block_index_nth(2) block_at_data_handle [OF _ assms(1)]\<close>)
  then show ?thesis by (simp add: block_start_def index_entries_def)
qed

context random_access
begin

lemma InternalGet_result:
  assumes t: "tables_ok valid opt bs" and bytes: "bytes = table_bytes opt bs" and u: "opened_table unset cache_id opt Read bs u"
    and k: "valid k"
  shows "\<exists>called. Table_InternalGet unset' u opts k arg handle =
      Some (Status_OK, if called then case concat bs ! seek_index (cmp_Compare (opt_comparator opt)) k (concat bs) of
          (key, val) \<Rightarrow> handle arg key val else arg) \<and>
    (called \<longrightarrow> seek_index (cmp_Compare (opt_comparator opt)) k (concat bs) < length (concat bs)) \<and>
    (seek_index (cmp_Compare (opt_comparator opt)) k (concat bs) < length (concat bs) \<longrightarrow>
      found_by valid opt k (concat bs ! seek_index (cmp_Compare (opt_comparator opt)) k (concat bs)) \<longrightarrow> called)"
proof -
  define C where "C = cmp_Compare (opt_comparator opt)"
  note ok = tables_okD [OF t, folded C_def]
  have TC: "Table_Compare u = C" using u by (simp add: Table_Compare_def opened_table_def C_def)
  define I where "I = any_block_iterator C"
  note contract = comparator.any_block_contract [OF ok(1), folded I_def]
  define ies where "ies = block_index opt bs"
  define j where "j = seek_index C k ies"
  define i where "i = seek_index C k (concat bs)"
  from iterator.Seek [OF contract table_index_over [OF t u, folded C_def] k] obtain iiter where
    ii: "Seek I k (Block_NewIterator (t_index_block u)) = Some iiter" "any_block_over valid C ies iiter j"
    unfolding ies_def j_def by blast
  have V: "Valid I iiter \<longleftrightarrow> j < length bs" using iterator.Valid_iff [OF contract ii(2)] by (simp add: ies_def)
  have S: "Status I iiter = Status_OK" by (rule iterator.Status_OK [OF contract ii(2)])
  note two = comparator.table_two_level [OF ok(1)]
  have pos: "i = (if j < length bs then length (concat (take j bs)) + seek_index C k (bs ! j) else length (concat bs))"
    using two_level.seek_blocks [OF two index_ok_table [OF t, folded C_def] k j_def [unfolded ies_def]]
      block_start_concat [OF ok(6), of j] block_at_data_handle [OF _ ok(6), of j]
    by (simp add: i_def index_entries_of [OF ok(6)] block_index_nth(2))
  show ?thesis
  proof (cases "j < length bs")
    case False
    then have "Table_InternalGet unset' u opts k arg handle = Some (Status_OK, arg)"
      using ii(1) V S by (simp add: Table_InternalGet_def TC I_def)
    moreover have "\<not> i < length (concat bs)" using pos False by simp
    ultimately show ?thesis unfolding C_def [symmetric] i_def [symmetric] by (intro exI [of _ False]) simp
  next
    case True
    define q where "q = seek_index C k (bs ! j)"
    have i: "i = length (concat (take j bs)) + q" using pos True by (simp add: q_def)
    have cut: "concat bs = concat (take j bs) @ bs ! j @ concat (drop (Suc j) bs)"
      using id_take_nth_drop [OF True] by (metis concat.simps(2) concat_append)
    have nth: "concat bs ! i = bs ! j ! q" if "q < length (bs ! j)"
      using that by (simp add: cut i nth_append)
    have val: "Value I iiter = handle_bytes (data_handle opt bs j)"
      using iterator.Value_nth [OF contract ii(2)] True by (simp add: ies_def block_index_nth(2) [OF True])
    have inside: "q < length (bs ! j)" if f: "i < length (concat bs)" "found_by valid opt k (concat bs ! i)"
    proof (rule ccontr)
      assume "\<not> q < length (bs ! j)"
      then have q: "q = length (bs ! j)" using seek_index_le [of C k "bs ! j"] by (simp add: q_def)
      have s: "Suc j < length bs"
      proof (rule ccontr)
        assume "\<not> Suc j < length bs"
        then have "concat (drop (Suc j) bs) = []" by simp
        then show False using f(1) by (simp add: cut i q)
      qed
      have "bs ! j \<noteq> []" "bs ! Suc j \<noteq> []" using ok(3) True s by (simp_all add: nth_mem)
      have "drop (Suc j) bs = bs ! Suc j # drop (Suc (Suc j)) bs" using s by (rule Cons_nth_drop_Suc [symmetric])
      then have e: "concat bs ! i = hd (bs ! Suc j)"
        using \<open>bs ! Suc j \<noteq> []\<close> by (simp add: cut i q nth_append hd_conv_nth)
      define l where "l = last (bs ! j)"
      have l: "valid (fst l)" using ok(5) [of "bs ! j" l] True \<open>bs ! j \<noteq> []\<close> by (simp add: nth_mem l_def)
      have "C (fst l) k < 0"
        using seek_index_less [of "length (bs ! j) - 1" C k "bs ! j"] q \<open>bs ! j \<noteq> []\<close>
        by (simp add: q_def [symmetric] l_def last_conv_nth)
      then have "C (cmp_Separator (opt_comparator opt) (fst l) (fst (hd (bs ! Suc j)))) k < 0"
        using f(2) l unfolding found_by_def C_def e by blast
      moreover have "fst (ies ! j) = cmp_Separator (opt_comparator opt) (fst l) (fst (hd (bs ! Suc j)))"
        using s by (simp add: ies_def block_index_nth(1) [OF True] inner_entry_def l_def)
      moreover have "0 \<le> C (fst (ies ! j)) k"
        using seek_index_here [of C k ies] True by (simp add: j_def [symmetric]) (simp add: ies_def)
      ultimately show False by simp
    qed
    have dec: "BlockHandle_DecodeFrom BlockHandle (handle_bytes (data_handle opt bs j)) = (Status_OK, data_handle opt bs j, [])"
      using BlockHandle_DecodeFrom_bytes [of BlockHandle _ "[]"] by simp
    show ?thesis
    proof (cases "filter_excludes u (Value I iiter) k")
      case excl: True
      then have "Table_InternalGet unset' u opts k arg handle = Some (Status_OK, arg)"
        using ii(1) V S True by (simp add: Table_InternalGet_def TC I_def)
      moreover have "\<not> (i < length (concat bs) \<and> found_by valid opt k (concat bs ! i))"
      proof
        assume f: "i < length (concat bs) \<and> found_by valid opt k (concat bs ! i)"
        with inside have q: "q < length (bs ! j)" by blast
        from excl obtain p where p: "opt_filter_policy opt = Some p"
          "\<not> FilterBlock_KeyMayMatch (policy_Match p) (FilterBlockReader (filter_contents opt p bs)) (bh_offset (data_handle opt bs j)) k"
          using u by (auto simp: filter_excludes_def opened_table_def val dec split: option.splits)
        have m: "policy_Match p k = policy_Match p (fst (bs ! j ! q))" "filter_policy (policy_Create p) (policy_Match p)"
          using f nth [OF q] by (simp_all add: found_by_def p(1))
        from filter_matches [OF t p(1) m(2) True, of "bs ! j ! q"] q p(2) show False
          unfolding FilterBlock_KeyMayMatch_def m(1) by simp
      qed
      ultimately show ?thesis unfolding C_def [symmetric] i_def [symmetric] by (intro exI [of _ False]) simp
    next
      case incl: False
      from BlockReader_data [OF t bytes u True, of unset' opts] obtain it where
        b: "BlockReader unset' u opts (Value I iiter) = Some it" "any_block_over valid C (bs ! j) it (length (bs ! j))"
        unfolding val C_def by blast
      from iterator.Seek [OF contract b(2) k] obtain it' where
        s: "Seek I k it = Some it'" "any_block_over valid C (bs ! j) it' q" unfolding q_def by blast
      have "Table_InternalGet unset' u opts k arg handle =
          Some (Status_OK, if q < length (bs ! j) then handle arg (fst (bs ! j ! q)) (snd (bs ! j ! q)) else arg)"
        using ii(1) V S True incl b(1) s(1) iterator.Valid_iff [OF contract s(2)] iterator.Key_nth [OF contract s(2)]
          iterator.Value_nth [OF contract s(2)] iterator.Status_OK [OF contract s(2)]
        by (simp add: Table_InternalGet_def TC I_def)
      moreover have "i < length (concat bs)" if "q < length (bs ! j)" using that by (simp add: cut i)
      ultimately show ?thesis
        unfolding C_def [symmetric] i_def [symmetric]
        using inside nth by (intro exI [of _ "q < length (bs ! j)"]) (auto simp: case_prod_beta)
    qed
  qed
qed

end

end
