(* ===== verification/TableOk.thy ===== *)
theory TableOk
  imports TableWriterProps
begin

text \<open>A file whose calls succeed is written without an error.\<close>

section \<open>Files that do not fail\<close>

definition never_fails :: "'os posix \<Rightarrow> bool" where
  "never_fails P \<longleftrightarrow> (\<forall>fd data os e. fst (sys_write P fd data os) = Inl e \<longrightarrow> e = EINTR)"

lemma WriteUnbuffered_succeeds:
  assumes "never_fails P" "WriteUnbuffered P f data os = Some y"
  shows "fst y = Status_OK"
proof -
  let ?ok = "\<lambda>(((P, f), data), os) y. never_fails P \<longrightarrow> fst y = Status_OK"
  have "?ok (((P, f), data), os) y"
  proof (rule WriteUnbuffered.raw_induct [of ?ok, OF _ assms(2)])
    fix W and P :: "'a posix" and f data os y
    assume ih: "\<And>P f data os y. W P f data os = Some y \<Longrightarrow> ?ok (((P, f), data), os) y"
      and step: "(if 0 < length data
        then case sys_write P (wf_fd f) data os of
            (Inl e, os) \<Rightarrow> if e = EINTR then W P f data os else Some (PosixError P (wf_filename f) e, os)
          | (Inr write_result, os) \<Rightarrow> W P f (drop write_result data) os
        else Some (Status_OK, os)) = Some y"
    show "?ok (((P, f), data), os) y"
    proof (cases "sys_write P (wf_fd f) data os")
      case (Pair r os2)
      then have "e = EINTR" if "never_fails P" "r = Inl e" for e
        using that by (metis fst_conv never_fails_def)
      then show ?thesis
        using step ih Pair by (cases r) (auto split: if_splits)
    qed
  qed
  then show ?thesis using assms(1) by simp
qed

lemma posix_succeeds:
  assumes "never_fails P"
  shows "PosixWritableFile_Append P f s = Some (st, f') \<Longrightarrow> st = Status_OK"
    "PosixWritableFile_Flush P f = Some (st, f') \<Longrightarrow> st = Status_OK"
  by (cases f; auto simp: PosixWritableFile_Append_def PosixWritableFile_Flush_def FlushBuffer_def Let_def
      split: if_splits option.splits dest: WriteUnbuffered_succeeds [OF assms])+

section \<open>Tables on files that do not fail\<close>

lemma on_filter_keeps [simp]: "tb_status (on_filter f r) = tb_status r"
  by (simp add: on_filter_def split: option.splits)

lemma emit_index_entry_ok: "emit_index_entry key r = Some r' \<Longrightarrow> tb_status r' = tb_status r"
  by (auto simp: emit_index_entry_def Let_def split: Option.bind_splits)

lemma build_succeeds:
  assumes "\<And>f s st f'. Append f s = Some (st, f') \<Longrightarrow> st = Status_OK" "\<And>f st f'. Flush f = Some (st, f') \<Longrightarrow> st = Status_OK"
    and built: "build_table Append Flush opt cs f = Some (st, r)"
  shows "st = Status_OK"
proof -
  have raw: "tb_status r' = Status_OK" if "WriteRawBlock Append c t r = Some (h, r')" for c t r h r'
    using that by (auto simp: WriteRawBlock_def Let_def split: Option.bind_splits if_splits dest!: assms(1))
  have blk: "tb_status r' = Status_OK" if "WriteBlock Append b r = Some (h, b', r')" for b r h b' r'
    using that by (auto simp: WriteBlock_def Let_def split: Option.bind_splits if_splits prod.splits dest!: raw)
  have flush: "tb_status r' = Status_OK" if "TableBuilder_Flush Append Flush r = Some r'" "tb_status r = Status_OK" for r r'
    using that by (auto simp: TableBuilder_Flush_def Let_def TableBuilder_ok_def split: Option.bind_splits if_splits dest!: blk assms(2))
  have add: "tb_status r' = Status_OK" if "TableBuilder_Add Append Flush k v r = Some r'" "tb_status r = Status_OK" for k v r r'
    using that by (auto simp: TableBuilder_Add_def Let_def TableBuilder_ok_def split: Option.bind_splits if_splits dest!: emit_index_entry_ok
        intro: flush)
  have runs: "tb_status r' = Status_OK" if "run_calls Append Flush cs r = Some r'" "tb_status r = Status_OK" for cs r r'
    using that
  proof (induction cs arbitrary: r)
    case (Cons c cs)
    then obtain r1 where r1: "run_call Append Flush c r = Some r1" "run_calls Append Flush cs r1 = Some r'"
      by (auto split: Option.bind_splits)
    have "tb_status r1 = Status_OK" using r1(1) Cons.prems(2) by (cases c) (auto intro: flush add)
    with Cons.IH r1(2) show ?case by blast
  qed simp
  have fin: "st = Status_OK" if "TableBuilder_Finish Append Flush r = Some (st, r')" "tb_status r = Status_OK" for r r'
  proof -
    from that obtain r1 h2 r2 h3 r3 h4 r4 where
      s: "TableBuilder_Flush Append Flush r = Some r1" "write_filter_block Append (r1\<lparr>tb_closed := True\<rparr>) = Some (h2, r2)"
      "write_metaindex_block Append h2 r2 = Some (h3, r3)" "write_index_block Append r3 = Some (h4, r4)"
      "write_footer Append h3 h4 r4 = Some r'" "st = tb_status r'"
      by (auto simp: TableBuilder_Finish_def Let_def split: Option.bind_splits if_splits)
    have "tb_status r1 = Status_OK" by (rule flush [OF s(1) that(2)])
    then have "tb_status r2 = Status_OK"
      using s(2) by (auto simp: write_filter_block_def split: option.splits if_splits dest!: raw)
    then have "tb_status r3 = Status_OK"
      using s(3) by (auto simp: write_metaindex_block_def split: Option.bind_splits if_splits dest!: blk)
    then have "tb_status r4 = Status_OK"
      using s(4) by (auto simp: write_index_block_def split: Option.bind_splits if_splits dest!: blk)
    then show ?thesis
      using s(5,6) by (auto simp: write_footer_def Let_def split: Option.bind_splits if_splits dest!: assms(1))
  qed
  have "tb_status (TableBuilder opt f) = Status_OK" by (simp add: TableBuilder_def TableBuilder_Rep_def)
  then show ?thesis
    using built runs fin by (fastforce simp: build_table_def split: Option.bind_splits)
qed

end
