(* ===== verification/TableProps.thy ===== *)
theory TableProps
  imports TableReaderProps TableOk DbProps
begin

text \<open>The properties of table files: what is built with \<open>TableBuilder\<close> is what \<open>Table\<close> reads.\<close>

section \<open>From the calls to the blocks\<close>

lemma sorted_calls:
  assumes "comparator valid (cmp_Compare (opt_comparator opt)) Separator Successor"
    "sorted_entries (cmp_Compare (opt_comparator opt)) (added_entries cs)" "\<forall>e \<in> set (added_entries cs). valid (fst e)"
  shows "calls_sorted opt [] cs"
proof -
  have "sorted_wrt (\<lambda>a b. 0 < cmp_Compare (opt_comparator opt) (fst b) (fst a)) (added_entries cs)"
    by (rule sorted_wrt_mono_rel [OF _ assms(2) [unfolded sorted_entries_def]])
      (use comparator.sym [OF assms(1)] assms(3) in auto)
  then show ?thesis by (simp add: calls_sorted_def)
qed

text \<open>The entries that are added and the options they are added with.\<close>

definition table_input :: "(slice \<Rightarrow> bool) \<Rightarrow> options \<Rightarrow> table_call list \<Rightarrow> bool" where
  "table_input valid opt cs \<longleftrightarrow>
     comparator valid (cmp_Compare (opt_comparator opt)) (cmp_Separator (opt_comparator opt)) (cmp_Successor (opt_comparator opt)) \<and>
     1 \<le> opt_restart_interval opt \<and> opt_compression opt \<le> kSnappyCompression \<and>
     sorted_entries (cmp_Compare (opt_comparator opt)) (added_entries cs) \<and>
     (\<forall>e \<in> set (added_entries cs). valid (fst e) \<and> length (fst e) < 2 ^ 32 \<and> length (snd e) < 2 ^ 32) \<and>
     length (table_file opt cs) < 2 ^ 32"

lemma table_input_ok:
  assumes "table_input valid opt cs"
  shows "tables_ok valid opt (split_blocks opt [] cs)" "concat (split_blocks opt [] cs) = added_entries cs"
    "table_bytes opt (split_blocks opt [] cs) = table_file opt cs"
proof -
  show e: "concat (split_blocks opt [] cs) = added_entries cs" by (simp add: concat_split_blocks)
  show f: "table_bytes opt (split_blocks opt [] cs) = table_file opt cs" by (simp add: table_file_def)
  have "[] \<notin> set (split_blocks opt [] cs)" using split_blocks_nonempty by blast
  then show "tables_ok valid opt (split_blocks opt [] cs)"
    using assms unfolding tables_ok_def table_input_def e f by blast
qed

lemma table_built:
  assumes "table_input valid opt cs" "write_ok P file_bytes interrupts" "file_bytes fd os = []"
  shows "\<exists>st r st' f. build_table (PosixWritableFile_Append P) (PosixWritableFile_Flush P) opt cs (PosixWritableFile filename fd, os) =
      Some (st, r) \<and> PosixWritableFile_Flush P (tb_file r) = Some (st', f) \<and>
    (never_fails P \<longrightarrow> st = Status_OK \<and> st' = Status_OK) \<and>
    (st = Status_OK \<longrightarrow> st' = Status_OK \<longrightarrow> file_written file_bytes f = table_file opt cs)"
proof -
  have "file_accepted file_bytes (PosixWritableFile filename fd, os) = []"
    using assms(3) by (simp add: file_accepted_def PosixWritableFile_def)
  moreover have "calls_sorted opt [] cs"
    by (rule sorted_calls) (use assms(1) in \<open>auto simp: table_input_def\<close>)
  ultimately obtain st r where b: "build_table (PosixWritableFile_Append P) (PosixWritableFile_Flush P) opt cs (PosixWritableFile filename fd, os) =
      Some (st, r)" "st = Status_OK \<longrightarrow> file_accepted file_bytes (tb_file r) = table_file opt cs"
    using posix_file.build_table_writes [OF assms(2)] assms(1) by (fastforce simp: table_input_def)
  obtain st' f where "PosixWritableFile_Flush P (tb_file r) = Some (st', f)"
    "st' = Status_OK \<Longrightarrow> file_written file_bytes f = file_accepted file_bytes (tb_file r) \<and> file_accepted file_bytes f = file_accepted file_bytes (tb_file r)"
    by (rule posix_file.FlushE [OF assms(2), where f = "tb_file r"]) blast
  moreover have "st = Status_OK \<and> st' = Status_OK" if n: "never_fails P"
  proof
    show "st = Status_OK" by (rule build_succeeds [OF _ _ b(1)]) (erule posix_succeeds [OF n])+
    show "st' = Status_OK" by (rule posix_succeeds(2) [OF n calculation(1)])
  qed
  ultimately show ?thesis using b by (cases f) auto
qed

section \<open>Looking up keys\<close>

text \<open>An entry whose key equals the one looked up is found, and one with the user key of an internal key that is looked up.\<close>

lemma found_by_equal:
  assumes "comparator valid (cmp_Compare (opt_comparator opt)) (cmp_Separator (opt_comparator opt)) (cmp_Successor (opt_comparator opt))"
    "valid k" "valid (fst e)" "cmp_Compare (opt_comparator opt) k (fst e) = 0"
    "\<And>p. opt_filter_policy opt = Some p \<Longrightarrow> filter_policy (policy_Create p) (policy_Match p) \<and> policy_Match p k = policy_Match p (fst e)"
  shows "found_by valid opt k e"
proof -
  define C where "C = cmp_Compare (opt_comparator opt)"
  note c = assms(1) [folded C_def]
  have "C (cmp_Separator (opt_comparator opt) a (fst e)) k < 0" if a: "valid a" "C a k < 0" for a
  proof -
    have "C a (fst e) < 0"
      using comparator.less_le_trans [OF c a(1) assms(2,3) a(2)] assms(4) by (simp add: C_def)
    then have "C (cmp_Separator (opt_comparator opt) a (fst e)) (fst e) < 0"
      using comparator.separator_less [OF c a(1) assms(3)] by blast
    moreover have "C (fst e) k \<le> 0" using comparator.eq_sym [OF c assms(2,3)] assms(4) by (simp add: C_def)
    ultimately show ?thesis
      using comparator.less_le_trans [OF c comparator.valid_separator [OF c a(1) assms(3)] assms(3,2)] by blast
  qed
  then show ?thesis using assms(5) by (auto simp: found_by_def C_def split: option.splits)
qed

text \<open>The options of the database: comparator and filter policy for user keys are wrapped for internal keys.\<close>

definition internal_comparator_object :: "nat \<Rightarrow> comparator_object \<Rightarrow> comparator_object" where
  "internal_comparator_object address c =
     \<lparr>cmp_address = address, cmp_Compare = InternalKey_Compare (cmp_Compare c),
      cmp_Separator = InternalKey_FindShortestSeparator (cmp_Compare c) (cmp_Separator c),
      cmp_Successor = InternalKey_FindShortSuccessor (cmp_Compare c) (cmp_Successor c)\<rparr>"

definition internal_filter_object :: "filter_object \<Rightarrow> filter_object" where
  "internal_filter_object p =
     \<lparr>policy_Name = policy_Name p, policy_Create = InternalFilterPolicy_CreateFilter (policy_Create p),
      policy_Match = InternalFilterPolicy_KeyMayMatch (policy_Match p)\<rparr>"

lemma found_by_internal:
  assumes c: "comparator valid (cmp_Compare c) (cmp_Separator c) (cmp_Successor c)"
    and opt: "opt_comparator opt = internal_comparator_object address c"
      "opt_filter_policy opt = map_option internal_filter_object pol"
      "\<And>p. pol = Some p \<Longrightarrow> filter_policy (policy_Create p) (policy_Match p)"
    and keys: "internal_valid valid k" "internal_valid valid (fst e)" "ExtractUserKey (fst e) = ExtractUserKey k"
  shows "found_by (internal_valid valid) opt k e"
proof -
  define C where "C = InternalKey_Compare (cmp_Compare c)"
  define ue where "ue = ExtractUserKey k"
  have v: "valid ue" using keys(1) by (simp add: internal_valid_def ue_def)
  have "C (InternalKey_FindShortestSeparator (cmp_Compare c) (cmp_Separator c) a (fst e)) k < 0"
    if a: "internal_valid valid a" "C a k < 0" for a
  proof -
    define ua where "ua = ExtractUserKey a"
    define tmp where "tmp = cmp_Separator c ua ue"
    have va: "valid ua" using a(1) by (simp add: internal_valid_def ua_def)
    have sep: "InternalKey_FindShortestSeparator (cmp_Compare c) (cmp_Separator c) a (fst e) =
        (if length tmp < length ua \<and> cmp_Compare c ua tmp < 0
         then PutFixed64 tmp (PackSequenceAndType kMaxSequenceNumber kValueTypeForSeek) else a)"
      by (simp add: InternalKey_FindShortestSeparator_def Let_def keys(3) ua_def tmp_def ue_def)
    show ?thesis
    proof (cases "length tmp < length ua \<and> cmp_Compare c ua tmp < 0")
      case True
      have "cmp_Compare c ua ue \<le> 0"
        using a(2) comparator.ICompare_cases(1) [OF c, of a k] by (auto simp: C_def ua_def ue_def)
      then have "tmp = ua \<or> cmp_Compare c tmp ue < 0"
        using comparator.separator [OF c va v] by (simp add: tmp_def)
      moreover have "tmp \<noteq> ua" using True comparator.refl [OF c va] by auto
      ultimately have "cmp_Compare c tmp ue < 0" by blast
      moreover have "ExtractUserKey (PutFixed64 tmp (PackSequenceAndType kMaxSequenceNumber kValueTypeForSeek)) = tmp"
        by (simp add: PutFixed64_def)
      ultimately show ?thesis
        using True comparator.ICompare_cases(1) [OF c] by (simp add: sep C_def ue_def)
    next
      case False
      then show ?thesis using a(2) sep by (simp only: if_False)
    qed
  qed
  moreover have "filter_policy (InternalFilterPolicy_CreateFilter (policy_Create p)) (InternalFilterPolicy_KeyMayMatch (policy_Match p))"
    if "pol = Some p" for p
    using filter_policy.internal_filter_policy [OF opt(3) [OF that]] .
  ultimately show ?thesis
    using opt(1,2) keys(3)
    by (auto simp: found_by_def internal_comparator_object_def internal_filter_object_def C_def InternalFilterPolicy_KeyMayMatch_def
        fun_eq_iff split: option.splits)
qed

section \<open>Reading what was built\<close>

text \<open>
  What a lookup of \<open>k\<close> in a table with the entries \<open>es\<close> may do: it succeeds, and calls back with the first entry at or past
  \<open>k\<close> or not at all; it does call back when that entry is one a lookup of \<open>k\<close> has to find.
\<close>

definition lookup_result ::
  "(slice \<Rightarrow> bool) \<Rightarrow> options \<Rightarrow> entry list \<Rightarrow> slice \<Rightarrow> 'arg \<Rightarrow> ('arg \<Rightarrow> slice \<Rightarrow> slice \<Rightarrow> 'arg) \<Rightarrow> (status \<times> 'arg) option \<Rightarrow> bool" where
  "lookup_result valid opt es k arg handle r \<longleftrightarrow>
     (let i = seek_index (cmp_Compare (opt_comparator opt)) k es;
          called = Some (Status_OK, case es ! i of (key, val) \<Rightarrow> handle arg key val)
      in if i < length es
         then r = called \<or> r = Some (Status_OK, arg) \<and> \<not> found_by valid opt k (es ! i)
         else r = Some (Status_OK, arg))"

lemma InternalGet_lookup:
  assumes "table_input valid opt cs" "valid k"
    "opened_table unset cache_id opt (mmap_file P filename (table_file opt cs)) (split_blocks opt [] cs) t"
  shows "lookup_result valid opt (added_entries cs) k arg handle (Table_InternalGet unset' t ropts k arg handle)"
proof -
  note i = table_input_ok [OF assms(1)]
  from mmap_file.InternalGet_result [OF i(1) i(3) [symmetric] assms(3,2), of unset' ropts arg handle]
  show ?thesis unfolding i(2) lookup_result_def Let_def by auto
qed

text \<open>
  C25. A table file shows the entries it was built from: when entries are added in increasing order to a table on a new file,
  with any calls of \<open>Flush\<close> between them, and every call succeeds, as it does when \<open>write\<close> never fails, then the table opened on what the system has of the
  file has an iterator that follows a cursor over the entries, and a lookup calls back with the first entry at or past its key,
  unless the separators of the index or the filter rule it out, which they do for no entry the key has to find: one with
  an equal key (\<open>found_by_equal\<close>), and one with the user key of an internal key (\<open>found_by_internal\<close>).
\<close>

theorem table_file_roundtrip:
  assumes "table_input valid opt cs" "write_ok P file_bytes interrupts" "file_bytes fd os = []"
  shows "\<exists>st r st' f. build_table (PosixWritableFile_Append P) (PosixWritableFile_Flush P) opt cs (PosixWritableFile filename fd, os) =
      Some (st, r) \<and> PosixWritableFile_Flush P (tb_file r) = Some (st', f) \<and>
    (never_fails P \<longrightarrow> st = Status_OK \<and> st' = Status_OK) \<and>
    (st = Status_OK \<longrightarrow> st' = Status_OK \<longrightarrow>
      (\<exists>t. Table_Open unset cache_id opt (mmap_file P filename (file_written file_bytes f))
          (of_nat (length (file_written file_bytes f))) = Some (Status_OK, Some t) \<and>
        shows_entries (table_iterator unset t ropts) valid (cmp_Compare (opt_comparator opt)) (added_entries cs) (Table_NewIterator t) \<and>
        (\<forall>k. valid k \<longrightarrow>
          lookup_result valid opt (added_entries cs) k arg handle (Table_InternalGet unset t ropts k arg handle))))"
proof -
  note i = table_input_ok [OF assms(1)]
  define m where "m = table_file opt cs"
  from mmap_file.Table_Open_opened [OF i(1) i(3) [symmetric], of unset cache_id P filename] obtain t where
    t: "Table_Open unset cache_id opt (mmap_file P filename m) (of_nat (length m)) = Some (Status_OK, Some t)"
    "opened_table unset cache_id opt (mmap_file P filename m) (split_blocks opt [] cs) t" unfolding m_def by blast
  from mmap_file.table_iterator_over [OF i(1) i(3) [symmetric] t(2) [unfolded m_def], of unset ropts]
  have "shows_entries (table_iterator unset t ropts) valid (cmp_Compare (opt_comparator opt)) (added_entries cs) (Table_NewIterator t)"
    unfolding i(2) .
  moreover have "\<forall>k. valid k \<longrightarrow>
      lookup_result valid opt (added_entries cs) k arg handle (Table_InternalGet unset t ropts k arg handle)"
    by (intro allI impI, rule InternalGet_lookup [OF assms(1) _ t(2) [unfolded m_def]])
  ultimately show ?thesis using t(1) table_built [OF assms, of filename] unfolding m_def by fastforce
qed

text \<open>Two entries in two blocks, in the order of the bytewise comparator, on the system with a single file.\<close>

definition bytewise_object :: comparator_object where
  "bytewise_object =
     \<lparr>cmp_address = 1, cmp_Compare = slice_compare, cmp_Separator = FindShortestSeparator, cmp_Successor = FindShortSuccessor\<rparr>"

definition plain_options :: options where
  "plain_options =
     \<lparr>opt_comparator = bytewise_object, opt_filter_policy = None, opt_block_size = 4096, opt_restart_interval = 16,
      opt_compression = kSnappyCompression, paranoid_checks = True\<rparr>"

definition two_blocks :: "table_call list" where
  "two_blocks = [Add_Entry [97] [1], Flush_Block, Add_Entry [98] [2]]"

lemma two_blocks_split: "split_blocks plain_options [] two_blocks = [[([97], [1])], [([98], [2])]]"
  by (simp add: two_blocks_def plain_options_def data_builder_def add_entries_def BlockBuilder_def BlockBuilder_Add_def Let_def
      CurrentSizeEstimate_def PutVarint32_bytes varint_bytes_small)

lemma two_blocks_input: "table_input (\<lambda>_. True) plain_options two_blocks"
proof -
  have c: "length (block_contents_of plain_options [([97], [1])]) = 13" "length (block_contents_of plain_options [([98], [2])]) = 13"
    "length (meta_contents plain_options bs) = 8" for bs
    by (simp_all add: block_contents_of_def meta_contents_def meta_entries_def built_block_def plain_options_def add_entries_def
        BlockBuilder_def BlockBuilder_Add_def Let_def BlockBuilder_Finish_def PutVarint32_bytes PutFixed32_def varint_bytes_small)
  have h: "data_handle plain_options [[([97], [1])], [([98], [2])]] 0 = \<lparr>bh_offset = 0, bh_size = 13\<rparr>"
    "data_handle plain_options [[([97], [1])], [([98], [2])]] 1 = \<lparr>bh_offset = 18, bh_size = 13\<rparr>"
    by (simp_all add: data_handle_def handle_at_def c data_section_def length_stored kBlockTrailerSize_def)
  have i: "block_index plain_options [[([97], [1])], [([98], [2])]] = [([97], [0, 13]), ([99], [18, 13])]"
    using h by (simp add: block_index_def inner_entry_def last_entry_def handle_bytes_def plain_options_def bytewise_object_def
        FindShortestSeparator_def FindShortSuccessor_def varint_bytes_small Let_def)
  have "length (index_contents plain_options [[([97], [1])], [([98], [2])]]) = 24"
    by (simp add: index_contents_def i built_block_def add_entries_def BlockBuilder_def BlockBuilder_Add_def Let_def
        BlockBuilder_Finish_def PutVarint32_bytes PutFixed32_def varint_bytes_small)
  then have "length (table_file plain_options two_blocks) < 2 ^ 32"
    by (simp add: table_file_def two_blocks_split table_bytes_def data_section_def c length_stored kBlockTrailerSize_def
        length_footer_bytes kEncodedLength_def kMaxEncodedLength_def filter_section_def, simp add: plain_options_def)
  moreover have "added_entries two_blocks = [([97], [1]), ([98], [2])]" by (simp add: two_blocks_def)
  ultimately show ?thesis
    using bytewise.comparator_axioms by (simp add: table_input_def plain_options_def bytewise_object_def sorted_entries_def)
qed

lemma two_blocks_entries: "added_entries two_blocks = [([97], [1]), ([98], [2])]" "cmp_Compare (opt_comparator plain_options) = slice_compare"
  by (simp_all add: two_blocks_def plain_options_def bytewise_object_def)

theorem table_file_roundtrip_witness:
  "\<exists>st r st' f. build_table (PosixWritableFile_Append one_file) (PosixWritableFile_Flush one_file) plain_options two_blocks
      (PosixWritableFile (bytes_of ''000005.ldb'') 5, []) = Some (st, r) \<and> PosixWritableFile_Flush one_file (tb_file r) = Some (st', f) \<and>
    st = Status_OK \<and> st' = Status_OK \<and>
      (\<exists>t. Table_Open 0 1 plain_options (mmap_file one_file (bytes_of ''000005.ldb'') (file_written (\<lambda>fd os. os) f))
          (of_nat (length (file_written (\<lambda>fd os. os) f))) = Some (Status_OK, Some t) \<and>
        shows_entries (table_iterator 0 t ReadOptions) (\<lambda>_. True) slice_compare [([97], [1]), ([98], [2])] (Table_NewIterator t) \<and>
        Table_InternalGet 0 t ReadOptions [98] [] (\<lambda>found key val. found @ [(key, val)]) = Some (Status_OK, [([98], [2])]))"
proof -
  have f: "found_by (\<lambda>_. True) plain_options [98] ([98], [2])"
    by (rule found_by_equal) (use two_blocks_input in \<open>auto simp: table_input_def two_blocks_entries plain_options_def bytewise_object_def\<close>)
  have l: "r = Some (Status_OK, [([98], [2])])"
    if "lookup_result (\<lambda>_. True) plain_options [([97], [1]), ([98], [2])] [98] [] (\<lambda>found key val. found @ [(key, val)]) r" for r
    using that f by (auto simp: lookup_result_def two_blocks_entries seek_index_def Let_def)
  have n: "never_fails one_file" by (simp add: never_fails_def one_file_def)
  note r = table_file_roundtrip [OF two_blocks_input one_file_ok(1) refl, of "bytes_of ''000005.ldb''" 5 0 1 ReadOptions "[]"
      "\<lambda>found key val. found @ [(key, val)]", unfolded two_blocks_entries]
  show ?thesis
    apply (insert r)
    apply (elim exE conjE)
    apply (drule mp [OF _ n], elim conjE)
    apply (drule (1) mp, drule (1) mp, elim exE conjE)
    apply (drule spec [of _ "[98]"], drule mp [OF _ TrueI], drule l)
    apply (intro exI conjI; assumption)
    done
qed

end
