(* ===== verification/TableCached.thy ===== *)
theory TableCached
  imports TableReader LruProps
begin

text \<open>
  \<open>Table::BlockReader\<close> of leveldb with a block cache.  The cache is the one of \<open>LruCache\<close> with blocks as values; the
  address \<open>a\<close> is the one \<open>malloc\<close> gives a new entry, \<open>deleter\<close> stands for \<open>DeleteCachedBlock\<close>.  The block that is read
  through the cache is the one that is read without it.
\<close>

definition block_cache_key :: "table \<Rightarrow> block_handle \<Rightarrow> slice" where
  "block_cache_key t handle = EncodeFixed64 kLittleEndian (t_cache_id t) @ EncodeFixed64 kLittleEndian (bh_offset handle)"

text \<open>The iterator, the cache handle its cleanup function releases (0 when the block is deleted instead), and the cache.\<close>

definition BlockReader_cached ::
  "('d, block) lru_handle \<Rightarrow> nat \<Rightarrow> 'd \<Rightarrow> nat \<Rightarrow> table \<Rightarrow> read_options \<Rightarrow> slice \<Rightarrow> sharded_cache \<Rightarrow> ('d, block) cache_mem \<Rightarrow>
     ((status + block_iter) \<times> nat \<times> sharded_cache \<times> ('d, block) cache_mem) option"
where
  "BlockReader_cached junk a deleter unset t opts index_value C s =
     (let (st, handle, input) = BlockHandle_DecodeFrom BlockHandle index_value in
      if st \<noteq> Status_OK then Some (Inl (NewErrorIterator st), 0, C, s)
      else do {
        let key = block_cache_key t handle;
        (cache_handle, s) \<leftarrow> Cache_Lookup key C s;
        if cache_handle \<noteq> 0 then do {
          b \<leftarrow> Cache_Value cache_handle s;
          Some (Block_NewIterator b, cache_handle, C, s)
        } else do {
          (st, contents) \<leftarrow> ReadBlock (t_file t) opts handle;
          if st \<noteq> Status_OK then Some (Inl (NewErrorIterator st), 0, C, s)
          else do {
            let b = Block unset (bc_data contents);
            if bc_cachable contents \<and> fill_cache opts then do {
              (C, s) \<leftarrow> Cache_Insert junk a key b (of_nat (block_size b)) deleter C s;
              Some (Block_NewIterator b, a, C, s)
            } else Some (Block_NewIterator b, 0, C, s)
          }
        }
      })"

text \<open>What the cache holds for the handle, if anything, is the block that reading it gives.\<close>

definition cached_block_ok :: "nat \<Rightarrow> table \<Rightarrow> read_options \<Rightarrow> block_handle \<Rightarrow> ('d, block) cache_client \<Rightarrow> bool" where
  "cached_block_ok unset t opts handle y \<longleftrightarrow>
     (\<forall>b. cl_latest y (block_cache_key t handle) = Some b \<longrightarrow>
        (\<exists>contents. ReadBlock (t_file t) opts handle = Some (Status_OK, contents) \<and> b = Block unset (bc_data contents)))"

text \<open>
  A read through the cache that gives the iterator \<open>it\<close>: what it does to the cache are calls a client may make, the client holds
  the handle that is returned, for the block that is iterated over, and the cache stays right about the handle.
\<close>

definition reads_through ::
  "nat \<Rightarrow> table \<Rightarrow> read_options \<Rightarrow> block_handle \<Rightarrow> ('d, block) cache_client \<Rightarrow> status + block_iter \<Rightarrow>
     ((status + block_iter) \<times> nat \<times> sharded_cache \<times> ('d, block) cache_mem) option \<Rightarrow> bool"
where
  "reads_through unset t opts handle y it r \<longleftrightarrow>
     (\<exists>h y'. r = Some (it, h, cl_cache y', cl_mem y') \<and> cache_step\<^sup>*\<^sup>* y y' \<and> cached_block_ok unset t opts handle y' \<and>
       (h \<noteq> 0 \<longrightarrow> (\<exists>b. (h, block_cache_key t handle, b) \<in># cl_held y' \<and> it = Block_NewIterator b)))"

lemma reads_through_step:
  assumes "r = Some (it, h, cl_cache y', cl_mem y')" "cache_step y y'" "cached_block_ok unset t opts handle y'"
    "(h, block_cache_key t handle, b) \<in># cl_held y'" "it = Block_NewIterator b"
  shows "reads_through unset t opts handle y it r"
  unfolding reads_through_def using assms by (intro exI [of _ h] exI [of _ y']) blast

lemma reads_through_stay:
  assumes "r = Some (it, 0, cl_cache y, cl_mem y)" "cached_block_ok unset t opts handle y"
  shows "reads_through unset t opts handle y it r"
  unfolding reads_through_def using assms by (intro exI [of _ "0 :: nat"] exI [of _ y]) simp

theorem BlockReader_cached_transparent:
  assumes reach: "cache_starts junk' base capacity x" "0 < base" "cache_step\<^sup>*\<^sup>* x y" and few: "size (cl_held y) < 2 ^ 31"
    and a: "a \<noteq> 0" "cm_heap (cl_mem y) a = None" "card (dom (cm_heap (cl_mem y))) < 2 ^ 31"
    and d: "BlockHandle_DecodeFrom BlockHandle index_value = (st, handle, input)"
    and ok: "cached_block_ok unset t opts handle y" and read: "BlockReader unset t opts index_value = Some it"
  shows "reads_through unset t opts handle y it
    (BlockReader_cached junk a deleter unset t opts index_value (cl_cache y) (cl_mem y))"
proof -
  define key where "key = block_cache_key t handle"
  define R where "R = BlockReader_cached junk a deleter unset t opts index_value (cl_cache y) (cl_mem y)"
  note defs = R_def BlockReader_cached_def d prod.case Let_def
  from reachable_inv [OF reach] obtain Vs where inv: "client_inv base y Vs" by blast
  have "reads_through unset t opts handle y it R"
  proof (cases "st = Status_OK")
    case False
    then have "it = Inl (NewErrorIterator st)" using read by (simp add: BlockReader_def d)
    with False have "R = Some (it, 0, cl_cache y, cl_mem y)" by (simp add: defs)
    then show ?thesis by (rule reads_through_stay) (rule ok)
  next
    case True
    from read True obtain st' contents where c: "ReadBlock (t_file t) opts handle = Some (st', contents)"
      "it = (if st' = Status_OK then Block_NewIterator (Block unset (bc_data contents)) else Inl (NewErrorIterator st'))"
      by (auto simp: BlockReader_def d split: Option.bind_splits if_splits)
    from inv few show ?thesis
    proof (cases rule: shard_call_Lookup [where key = key])
      case absent
      show ?thesis
      proof (cases "st' = Status_OK \<and> bc_cachable contents \<and> fill_cache opts")
        case False
        then have "R = Some (it, 0, cl_cache y, cl_mem y)" using True absent c by (auto simp: defs key_def)
        then show ?thesis by (rule reads_through_stay) (rule ok)
      next
        case fill: True
        define b where "b = Block unset (bc_data contents)"
        obtain C' s' Vs' where i: "Cache_Insert junk a key b (of_nat (block_size b)) deleter (cl_cache y) (cl_mem y) = Some (C', s')"
          by (rule shard_call_Insert [OF inv a])
        have "R = Some (it, a, C', s')" using True absent c fill i by (simp add: defs key_def b_def)
        then show ?thesis
          by (rule reads_through_step [OF _ step_Insert [OF a i], simplified])
            (use c fill in \<open>simp_all add: cached_block_ok_def key_def b_def\<close>)
      qed
    next
      case (present h s' v Vs')
      from ok present(3) obtain cs where "ReadBlock (t_file t) opts handle = Some (Status_OK, cs)" "v = Block unset (bc_data cs)"
        by (auto simp: cached_block_ok_def key_def)
      with c have it: "it = Block_NewIterator v" by simp
      have "R = Some (it, h, cl_cache y, s')" using True present(1,2,4) it by (simp add: defs key_def)
      then show ?thesis
        by (rule reads_through_step [OF _ step_hit [OF few present(1,2)], simplified])
          (use it ok present(3) in \<open>simp_all add: cached_block_ok_def key_def\<close>)
    qed
  qed
  then show ?thesis by (simp add: R_def)
qed

end
