(* ===== verification/Spec2Isabelle.thy ===== *)
theory Spec2Isabelle
  imports PbEncodeSpec PbDecodeTotal MessageProps StorageProps DbProps VersionEdit WriteProps LruProps TableProps TableCached
begin

text \<open>
  A verification library for the C and C++ code in the repository of the app tribalWorldWide, all of it in
  \<open>src/tribalWorldWideProof/Pods/\<close>: nanopb 0.3.9.8 with the message descriptors generated for it, leveldb, and the Base64
  codec of SocketRocket.  The Swift app and the Objective-C pods around it are not modelled.  All paths below are relative to
  \<open>Pods/\<close>; definitions have the names of the functions they model, with the class or file in front where names collide.

  \<^bold>\<open>The program.\<close>  GoogleDataTransport and FirebaseCoreDiagnostics encode their reports and decode the responses with nanopb
  (\<open>pb_encode.c\<close>, \<open>pb_decode.c\<close>), which walks the arrays of field descriptors in \<open>cct.nanopb.c\<close> and
  \<open>firebasecore.nanopb.c\<close> and the C structs beside them (\<open>pb_common.c\<close>).  FirebaseDatabase keeps its offline data in
  leveldb: an update becomes a write batch, is appended to a log file and inserted into the memtable, a skip list; full memtables
  become table files of blocks with an index and Bloom filters; version edits record which files there are; reading merges the
  memtable and the tables behind iterators and shows the newest entry of each key that a snapshot sees.  Blocks that were read are
  kept in an LRU cache.  The web socket handshake of FirebaseDatabase uses the Base64 codec.

  \<^bold>\<open>Conventions.\<close>  \<open>Prelude\<close> has the integer types, byte strings and the combinators for calls that may fail.  Machine
  integers are words of their width and wrap as in C, except where said below.  A C function that returns \<open>bool\<close> and fills a
  result is a function to \<open>'a option \<times> state\<close>; leveldb's \<open>Status\<close> is a value (\<open>DbStatus\<close>).  An outer \<open>None\<close>
  is a call that does not return a result: undefined behaviour of C, a failed assertion (\<open>NDEBUG\<close> is not defined, so they are
  live), or a loop that does not end; theorems that calls return are theorems that the result is not \<open>None\<close>.  Code outside the
  repository, which is user callbacks, \<open>malloc\<close> and the system calls, is a parameter, with its documented behaviour as a named
  hypothesis (\<open>env_ok\<close>, \<open>bounded_reads\<close>, \<open>write_ok\<close>, \<open>read_ok\<close>).

  \<^bold>\<open>nanopb.\<close>
  \<^item> \<open>CMem\<close> (flat memory and heap), \<open>PbTypes\<close> (\<open>pb.h\<close>: descriptors, type masks), \<open>PbCommon\<close> (\<open>pb_common.c\<close>:
    the field iterator and the closed form \<open>iter_at\<close> of its states).
  \<^item> \<open>Varint\<close> (the reference for varints), \<open>PbOStream\<close>, \<open>PbEncode\<close> (\<open>pb_encode.c\<close>), \<open>PbEncodeSpec\<close>: the abstract
    encoding \<open>message_bytes\<close> of a message in memory, and that the encoder writes it to any stream (\<open>emits\<close>, by the locale
    \<open>message_encoder\<close> for one level of nesting).
  \<^item> \<open>PbIStream\<close>, \<open>PbDecode\<close> (\<open>pb_decode.c\<close>, with \<open>pb_release\<close>), \<open>PbIStreamProps\<close> (what the readers consume),
    \<open>PbDecodeStream\<close> (the decoder stays inside its input, locale \<open>message_decoder\<close>), \<open>PbDecodeMem\<close> (it writes only
    inside the message, locale \<open>static_decoder\<close>), \<open>PbDecodeTotal\<close> (it returns, locale \<open>total_decoder\<close>).
  \<^item> \<open>Messages\<close> (all structs and descriptors of the ten generated messages, with the macros of \<open>pb.h\<close> that compute their
    offsets, and a layout of the C structs to compare them with), \<open>MessageProps\<close> (two messages in full).
  The recursion into submessages is bounded by \<open>d\<close>: \<open>message_bytes d\<close> and the encoder agree for every \<open>d\<close>, and
  \<open>fields_depth fs \<le> d\<close> is enough for the decoder to return; the generated messages are a few levels deep.

  \<^bold>\<open>leveldb, bottom up.\<close>
  \<^item> \<open>Coding\<close>, \<open>Crc32c\<close>, \<open>Bloom\<close> (with \<open>hash.cc\<close>; locale \<open>filter_policy\<close>, instance \<open>bloom\<close>), \<open>FilterBlock\<close>,
    \<open>Logging\<close>, \<open>DbStatus\<close>, \<open>DbRandom\<close>, \<open>Comparator\<close> (locale \<open>comparator\<close>, instance \<open>bytewise\<close>), \<open>DbFormat\<close>
    (internal keys; both locales again for the wrapped comparator and policy), \<open>Base64\<close>.  Their properties are in
    \<open>StorageProps\<close> and \<open>DbProps\<close>.
  \<^item> \<open>EnvPosix\<close> (files of \<open>env_posix.cc\<close> over a record of system calls; locales \<open>writable\<close> and \<open>sequential\<close>, with the
    posix files as instances; the limiter as a step relation), \<open>LogWriter\<close>, \<open>LogReader\<close>, \<open>LogProps\<close>,
    \<open>LogRecovery\<close>: the log after a crash.
  \<^item> \<open>IteratorSpec\<close> (locale \<open>iterator\<close>: an iterator follows a cursor over sorted entries, \<open>shows_entries\<close>), and its
    providers: \<open>BlockBuilder\<close>, \<open>BlockReader\<close>, \<open>BlockProps\<close> (blocks); \<open>MergingIterator\<close>, \<open>MergingProps\<close>
    (locale \<open>merging_children\<close>); \<open>TwoLevelIterator\<close>, \<open>TwoLevelProps\<close> (locale \<open>two_level\<close>); \<open>DbIter\<close>,
    \<open>DbIterProps\<close> (locale \<open>db_iter_over\<close>: the user's iterator over any internal one).
  \<^item> \<open>SkipList\<close> (an explicit store of nodes; locale \<open>key_order\<close>), \<open>MemTable\<close>, \<open>MemProps\<close>, \<open>WriteBatch\<close>,
    \<open>WriteProps\<close>: batches, the memtable and reading at a snapshot.
  \<^item> \<open>VersionEdit\<close>: the records of the manifest.
  \<^item> \<open>TableFormat\<close>, \<open>TableBuilder\<close>, \<open>TableSpec\<close> (the bytes of a table file as a function of the calls),
    \<open>TableWriterProps\<close> (in \<open>writable\<close>: the builder writes them), \<open>TableOk\<close> (and succeeds when the file does),
    \<open>TableReader\<close>, \<open>TableReaderProps\<close> (locale \<open>random_access\<close>, instance \<open>mmap_file\<close>), \<open>TableProps\<close>,
    \<open>TableCached\<close> (\<open>BlockReader\<close> with a block cache gives the same iterator).
  \<^item> \<open>LruCache\<close> (\<open>cache.cc\<close> on a heap of entries), \<open>LruLists\<close> and \<open>LruTable\<close> (the linked lists and the hash table),
    \<open>LruShard\<close> and \<open>LruOps\<close> (one shard), \<open>LruClient\<close> (the step relation \<open>cache_step\<close> of a client's calls and its
    invariant), \<open>LruProps\<close>.

  \<^bold>\<open>What the properties show.\<close>  In this theory: the encoder writes exactly the encoding of a message, or fails with a prefix of
  it, the sizes it announces are right, and what the readers read is what the writers wrote; the decoder reads only inside its
  limit, writes only inside the message, and returns; the descriptors address the members of the C structs.  In the others: round
  trips of Base64, integers, slices, internal keys, batches, version edits and table files; the checksum against a bitwise
  CRC-32C; filters without false negatives; the log after a crash, where a record that was reported as written is read back and
  what is read is a prefix of what was written; every iterator against a cursor over entries that are defined without it; the skip
  list as a sorted set, snapshot reads as the map after the batches; the LRU cache in every reachable state.

  \<^bold>\<open>Bounds.\<close>  Buffers and messages are smaller than \<open>2 ^ 64\<close>, slices, blocks and table files smaller than \<open>2 ^ 32\<close>
  bytes, as their 32-bit length fields need; sequence numbers are at most \<open>2 ^ 56 - 1\<close>; a cache has fewer than \<open>2 ^ 31\<close>
  entries and held handles, so that its 32-bit counts do not wrap.  Fuel is the number of fields in
  \<open>pb_field_iter_find\<close>, which returns within one round; the other loops are recursive functions with a termination proof
  or \<open>partial_function (option)\<close>.

  \<^bold>\<open>Where the model is coarser than the code.\<close>
  \<^item> \<open>PackSequenceAndType\<close> and \<open>ExtractUserKey\<close> leave their assertions out (a sequence number of 56 bits, a type the enumeration
    has, a key of 8 bytes); the properties have them as hypotheses, as \<open>internal_valid\<close> does for the length.  The assertions of
    \<open>BlockBuilder::Add\<close> and \<open>FilterBlockBuilder::StartBlock\<close> are hypotheses as well, and follow in a table from the increasing order
    of the keys that are added.
  \<^item> The \<open>int\<close> that counts the records of a batch wraps instead of being undefined at \<open>2 ^ 31\<close>, the limiter's counter is
    unbounded, and \<open>bits_per_key\<close> and \<open>block_restart_interval\<close> are not negative.
  \<^item> An object that other parts only refer to is its value: a block owns its bytes, a slice is its bytes, a status is shared
    freely.  Cleanup functions of iterators, reference counts of memtables in iterators, and deallocation are left out, except in
    the cache and in \<open>pb_release\<close>, where they are the point.
  \<^item> Mutexes make the calls of the cache atomic; the memory orders of the skip list's concurrent readers and threads are not
    modelled.  The one interleaving that is, is that of the limiter's atomic operations.
  \<^item> Tables are read through a null block cache, the case with a cache is \<open>TableCached\<close> for one block.  The files of tables are
    mapped into memory; \<open>PosixRandomAccessFile\<close> is modelled but not read from by the theorem on tables.
  \<^item> The merging iterator is shown correct for children without common keys, which internal keys with distinct sequence numbers
    satisfy.

  \<^bold>\<open>Not modelled.\<close>  Of leveldb: \<open>DBImpl\<close>, \<open>VersionSet\<close>, \<open>TableCache\<close>, \<open>BuildTable\<close>, repair and dumping (threads, condition
  variables, directories and the choice of compactions over the parts above), file names, the arena (raw memory under the
  memtable), the C interface, options, the environment's directories, locks and threads, the histogram, loggers and the test
  harness.  Of nanopb, what its configuration compiles out.
\<close>

section \<open>Example inputs\<close>

text \<open>
  For the theorems' instances: an empty memory, and environments without user code, whose
  allocator always fails and whose local counter lies at address 100.
\<close>

definition zero_mem :: cmem where
  "zero_mem = \<lparr>mbytes = (\<lambda>_. 0), blocks = Map.empty, heap_fault = False\<rparr>"

definition plain_enc :: "unit enc_env" where
  "plain_enc = \<lparr>user_write = (\<lambda>u bs. (False, u)), enc_callback = (\<lambda>fn s f arg m. (False, s)),
     ext_encode = (\<lambda>ty. None), enc_ext_arg = (\<lambda>ty. PB_LAST_FIELD)\<rparr>"

definition plain_dec :: "unit dec_env" where
  "plain_dec = \<lparr>user_read = (\<lambda>u n. (None, u)), malloc_at = (\<lambda>b p n. 0),
     dec_callback = (\<lambda>fn s f arg m. (False, s, m)), ext_decode = (\<lambda>ty. None),
     dec_ext_arg = (\<lambda>ty. PB_LAST_FIELD), frame_addr = (\<lambda>d. 100)\<rparr>"

lemma plain_dec_ok: "env_ok plain_dec" "bounded_reads plain_dec"
  by (auto simp: env_ok_def bounded_reads_def plain_dec_def stream_ok_Some)

text \<open>A network connection info at address 1000, both members present: \<open>NONE\<close> and \<open>COMBINED\<close>.\<close>

definition connection_mem :: cmem where
  "connection_mem = store_bytes zero_mem 1000
     [1, 0, 0, 0, 0xFF, 0xFF, 0xFF, 0xFF, 1, 0, 0, 0, 100, 0, 0, 0]"

definition connection_wire :: "byte list" where
  "connection_wire = [0x08, 0xFF, 0xFF, 0xFF, 0xFF, 0xFF, 0xFF, 0xFF, 0xFF, 0xFF, 0x01, 0x10, 100]"

lemma length_connection_wire [simp]: "length connection_wire = 13"
  by (simp add: connection_wire_def)

lemma connection_members:
  "safe_read_bool connection_mem 1000" "load_word connection_mem 1004 = (- 1 :: 32 word)"
  "safe_read_bool connection_mem 1008" "load_word connection_mem 1012 = (100 :: 32 word)"
  by (simp_all add: connection_mem_def store_bytes_def safe_read_bool_def load_word_def load_bytes_def upt_rec)

lemma varint_minus_one:
  "varint_bytes (unat (- 1 :: u64)) = [0xFF, 0xFF, 0xFF, 0xFF, 0xFF, 0xFF, 0xFF, 0xFF, 0xFF, 0x01]"
  by (simp add: unsigned_minus_1_eq_mask mask_eq_exp_minus_1 varint_bytes.simps)

lemma connection_bytes:
  "message_bytes 1 connection_mem gdt_cct_NetworkConnectionInfo_fields 1000 = Some connection_wire"
  unfolding One_nat_def
  by (subst NetworkConnectionInfo_bytes) (simp_all add: int32_bytes_def uint32_bytes_def connection_members connection_wire_def varint_minus_one varint_bytes_small)

section \<open>Encoding messages\<close>

text \<open>
  C1. A buffer that is large enough receives exactly the protocol-buffer encoding of the message,
  \<open>message_bytes\<close>, and \<open>pb_encode\<close> returns true.
\<close>

theorem encode_into_buffer:
  assumes "message_bytes d m fs src = Some bs" "length bs \<le> unat bufsize"
  shows "pb_encode d env m fs src (pb_ostream_from_buffer bufsize) =
    Some (True, \<lparr>osink = Out_buf bs, max_size = bufsize, bytes_written = of_nat (length bs), oerrmsg = None\<rparr>)"
proof -
  have "unat bufsize < 2 ^ 64" using unat_less [of bufsize] by simp
  then have "emit_spec (pb_ostream_from_buffer bufsize) bs
      (pb_encode d env m fs src (pb_ostream_from_buffer bufsize))"
    using assms(2) by (intro emitsD [OF pb_encode_emits [OF assms(1)]])
      (simp_all add: pb_ostream_from_buffer_def plain_stream_def)
  then show ?thesis
    using assms(2) by (auto simp: emit_spec_def fits_def pb_ostream_from_buffer_def advance_def)
qed

theorem encode_into_buffer_witness:
  "pb_encode 1 plain_enc connection_mem gdt_cct_NetworkConnectionInfo_fields 1000 (pb_ostream_from_buffer 16) =
     Some (True, \<lparr>osink = Out_buf connection_wire, max_size = 16, bytes_written = 13, oerrmsg = None\<rparr>)"
  using encode_into_buffer [OF connection_bytes, of 16 plain_enc] by simp

text \<open>
  C16. Into a buffer that is too small, \<open>pb_encode\<close> fails with ''stream full''; what it has written is a
  proper prefix of the encoding and lies inside the buffer.
\<close>

theorem encode_stream_full:
  assumes "message_bytes d m fs src = Some bs" "unat bufsize < length bs" "length bs < 2 ^ 64"
  shows "\<exists>k < length bs. k \<le> unat bufsize \<and>
    pb_encode d env m fs src (pb_ostream_from_buffer bufsize) =
      Some (False, \<lparr>osink = Out_buf (take k bs), max_size = bufsize, bytes_written = of_nat k,
                    oerrmsg = Some ''stream full''\<rparr>)"
proof -
  have "emit_spec (pb_ostream_from_buffer bufsize) bs
      (pb_encode d env m fs src (pb_ostream_from_buffer bufsize))"
    using assms(3) by (intro emitsD [OF pb_encode_emits [OF assms(1)]])
      (simp_all add: pb_ostream_from_buffer_def plain_stream_def)
  then show ?thesis
    using assms(2) by (auto simp: emit_spec_def fits_def pb_ostream_from_buffer_def advance_def)
qed

theorem encode_stream_full_witness:
  "\<exists>k < 13. k \<le> 5 \<and>
    pb_encode 1 plain_enc connection_mem gdt_cct_NetworkConnectionInfo_fields 1000 (pb_ostream_from_buffer 5) =
      Some (False, \<lparr>osink = Out_buf (take k connection_wire), max_size = 5, bytes_written = of_nat k,
                    oerrmsg = Some ''stream full''\<rparr>)"
  using encode_stream_full [OF connection_bytes, of 5 plain_enc] by simp

text \<open>C17. \<open>pb_get_encoded_size\<close> is the length of the encoding, without writing anything.\<close>

theorem encoded_size:
  assumes "message_bytes d m fs src = Some bs" "length bs < 2 ^ 64"
  shows "pb_get_encoded_size d env m fs src = Some (Some (of_nat (length bs)))"
  using assms by (rule pb_get_encoded_size_bytes)

theorem encoded_size_witness:
  "pb_get_encoded_size 1 plain_enc connection_mem gdt_cct_NetworkConnectionInfo_fields 1000 = Some (Some 13)"
  using encoded_size [OF connection_bytes, of plain_enc] by simp

text \<open>
  C18. \<open>pb_encode_delimited\<close> writes the length of the encoding as a varint and then the encoding, the
  format \<open>pb_decode_delimited\<close> and submessages use.
\<close>

theorem encode_delimited:
  assumes "message_bytes d m fs src = Some bs"
    "length (varint_bytes (length bs)) + length bs \<le> unat bufsize"
  shows "\<exists>s. pb_encode_delimited d env m fs src (pb_ostream_from_buffer bufsize) = Some (True, s) \<and>
    osink s = Out_buf (varint_bytes (length bs) @ bs) \<and>
    unat (bytes_written s) = length (varint_bytes (length bs)) + length bs"
proof -
  let ?s = "pb_ostream_from_buffer bufsize" and ?p = "prefixed bs"
  have b: "unat bufsize < 2 ^ 64" using unat_less [of bufsize] by simp
  then have "emit_spec ?s ?p (pb_encode_delimited d env m fs src ?s)"
    unfolding pb_encode_delimited_def
    using assms(2) by (intro emitsD [OF pb_encode_submessage_bytes [OF assms(1)]])
      (simp_all add: pb_ostream_from_buffer_def plain_stream_def prefixed_def)
  then have "pb_encode_delimited d env m fs src ?s = Some (True, advance ?s ?p)"
    by (rule emit_specD_fits) (use assms(2) in \<open>simp add: fits_def pb_ostream_from_buffer_def prefixed_def\<close>)
  then show ?thesis
    using assms(2) b unat_bytes_written_advance [of ?s ?p]
    by (simp add: prefixed_def advance_def pb_ostream_from_buffer_def)
qed

theorem encode_delimited_witness:
  "\<exists>s. pb_encode_delimited 1 plain_enc connection_mem gdt_cct_NetworkConnectionInfo_fields 1000
        (pb_ostream_from_buffer 14) = Some (True, s) \<and> osink s = Out_buf (13 # connection_wire)"
  using encode_delimited [OF connection_bytes, of 14 plain_enc] by (auto simp: varint_bytes_small)

text \<open>
  Whatever is written through it, a stream with a buffer or a callback never counts past its
  \<open>max_size\<close>, and \<open>pb_write\<close> leaves the limit and the kind of the stream as they are.
\<close>

theorem write_within_max:
  assumes "is_Out_null (osink s) \<or> bytes_written s \<le> max_size s" "pb_write env s buf n = (ok, s')"
  shows "(is_Out_null (osink s') \<or> bytes_written s' \<le> max_size s') \<and> max_size s' = max_size s \<and>
    is_Out_null (osink s') = is_Out_null (osink s)"
  using pb_write_within_max [of s env buf n ok s'] assms by (auto simp: within_max_def)

theorem write_within_max_witness:
  "fst (pb_write plain_enc (pb_ostream_from_buffer 2) [1, 2, 3] 3) = False \<and>
   bytes_written (snd (pb_write plain_enc (pb_ostream_from_buffer 2) [1, 2, 3] 3)) \<le> 2"
  using write_within_max [of "pb_ostream_from_buffer 2" plain_enc "[1, 2, 3]" 3 False]
  by (simp add: pb_ostream_from_buffer_def pb_write_def ostream_error_def)

section \<open>Decoding messages\<close>

text \<open>
  C2. The decoder never reads past its input: on a buffer, whatever the bytes, the descriptors and
  the destination are, the limit only comes closer and stays inside what is left of the buffer, and
  after success the stream stands right behind the bytes that were taken.
\<close>

theorem decode_in_bounds:
  assumes "env_ok env" "n \<le> length buf"
    "pb_decode d env fs dest (pb_istream_from_buffer buf n, m) = Some (ok, s', m')"
  shows "\<exists>k. isource s' = In_buf (drop k buf) \<and> bytes_left s' \<le> n \<and> k + bytes_left s' \<le> n \<and>
    (ok \<longrightarrow> k + bytes_left s' = n)"
proof -
  let ?s = "pb_istream_from_buffer buf n"
  have "reaches ?s s'" and "ok \<Longrightarrow> consumes ?s s'"
    using pb_decode_ok [OF assms(1), of ?s d fs dest m] assms(3) by (auto simp: stream_ok_def)
  then show ?thesis
    by (cases ok) (auto simp: reaches_def consumes_def pb_istream_from_buffer_def)
qed

text \<open>
  C3. The decoder is memory safe on statically allocated messages: whatever the input is, it writes
  only inside the \<open>n\<close> bytes of the destination structure and the four bytes of its local counter,
  and neither allocates nor frees.
\<close>

theorem decode_writes_inside:
  assumes "bounded_reads env" "static_message n fs"
    "pb_decode d env fs dest (s, m) = Some (ok, s', m')"
    "x \<notin> {dest ..< dest + n}" "\<And>l. x \<notin> {frame_addr env l ..< frame_addr env l + 4}"
  shows "mbytes m' x = mbytes m x \<and> blocks m' = blocks m \<and> heap_fault m' = heap_fault m"
  using pb_decode_writes [OF assms(1,2), of dest m d s] assms(3-5)
  by (auto simp: writes_def only_writes_def region_def span_def frames_def)

text \<open>A QoS tier configuration at address 16, decoded from the field \<open>qos_tier = 5\<close>.\<close>

lemma example_decode:
  "map_option fst (pb_decode 1 plain_dec gdt_cct_QosTierConfiguration_fields 16
     (pb_istream_from_buffer [0x10, 5, 0xFF] 2, zero_mem)) = Some True"
  unfolding gdt_cct_QosTierConfiguration_fields_eq by code_simp

lemma example_decodeE:
  obtains s' m' where "pb_decode 1 plain_dec gdt_cct_QosTierConfiguration_fields 16
     (pb_istream_from_buffer [0x10, 5, 0xFF] 2, zero_mem) = Some (True, s', m')"
  using example_decode by auto

theorem decode_in_bounds_witness:
  "\<exists>s' m' k. pb_decode 1 plain_dec gdt_cct_QosTierConfiguration_fields 16
     (pb_istream_from_buffer [0x10, 5, 0xFF] 2, zero_mem) = Some (True, s', m') \<and>
     isource s' = In_buf (drop k [0x10, 5, 0xFF]) \<and> k + bytes_left s' = 2"
proof (rule example_decodeE)
  fix s' m'
  assume run: "pb_decode 1 plain_dec gdt_cct_QosTierConfiguration_fields 16
     (pb_istream_from_buffer [0x10, 5, 0xFF] 2, zero_mem) = Some (True, s', m')"
  from decode_in_bounds [OF plain_dec_ok(1) _ run]
  obtain k where "isource s' = In_buf (drop k [0x10, 5, 0xFF])" "k + bytes_left s' = 2" by force
  with run show ?thesis by blast
qed

theorem decode_writes_inside_witness:
  "\<exists>s' m'. pb_decode 1 plain_dec gdt_cct_QosTierConfiguration_fields 16
     (pb_istream_from_buffer [0x10, 5, 0xFF] 2, zero_mem) = Some (True, s', m') \<and>
     mbytes m' 15 = 0 \<and> mbytes m' 32 = 0 \<and> blocks m' = Map.empty"
proof (rule example_decodeE)
  fix s' m'
  assume run: "pb_decode 1 plain_dec gdt_cct_QosTierConfiguration_fields 16
     (pb_istream_from_buffer [0x10, 5, 0xFF] 2, zero_mem) = Some (True, s', m')"
  note w = decode_writes_inside [OF plain_dec_ok(2) QosTierConfiguration_static run]
  show ?thesis
    using w [of 15] w [of 32] run by (simp add: plain_dec_def zero_mem_def)
qed

text \<open>
  C4. The decoder returns: for a statically allocated message nested at most \<open>d\<close> levels deep, every
  input leads to a result, true or false; no \<open>NULL\<close> pointer is followed, the recursion stays
  within \<open>d\<close> levels, and no loop runs longer than its input.
\<close>

theorem decode_returns:
  assumes "env_ok env" "bounded_reads env" "static_message n fs" "fields_depth fs \<le> d" "dest \<noteq> 0"
  shows "\<exists>ok s' m'. pb_decode d env fs dest (s, m) = Some (ok, s', m') \<and> bytes_left s' \<le> bytes_left s"
proof -
  obtain ok s' m' where run: "pb_decode d env fs dest (s, m) = Some (ok, s', m')"
    using pb_decode_total [OF assms, of s m] by auto
  with pb_decode_ok [OF assms(1), of s d fs dest m] have "bytes_left s' \<le> bytes_left s"
    by (auto simp: stream_ok_Some intro: reaches_bytes_left)
  with run show ?thesis by blast
qed

theorem decode_returns_witness:
  "\<exists>ok s' m'. pb_decode 1 plain_dec gdt_cct_QosTierConfiguration_fields 16
     (pb_istream_from_buffer [0x10, 0x85] 2, zero_mem) = Some (ok, s', m')"
  using decode_returns [OF plain_dec_ok QosTierConfiguration_static _, of 1 16 "pb_istream_from_buffer [0x10, 0x85] 2" zero_mem]
  by (auto simp: gdt_cct_QosTierConfiguration_fields_eq fields_depth_def)

section \<open>Round trips of the wire primitives\<close>

lemma emits_to_buffer:
  assumes "emits (\<lambda>s. Some (F s)) bs" "length bs \<le> unat n"
  shows "F (pb_ostream_from_buffer n) =
    (True, \<lparr>osink = Out_buf bs, max_size = n, bytes_written = of_nat (length bs), oerrmsg = None\<rparr>)"
proof -
  have "emit_spec (pb_ostream_from_buffer n) bs (Some (F (pb_ostream_from_buffer n)))"
    using assms(2) unat_less [of n]
    by (intro emitsD [OF assms(1)]) (simp_all add: pb_ostream_from_buffer_def plain_stream_def)
  then show ?thesis
    using assms(2) by (auto simp: emit_spec_def fits_def pb_ostream_from_buffer_def advance_def)
qed

lemma eat_from_buffer:
  "eat (length bs) (pb_istream_from_buffer (bs @ rest) n) = pb_istream_from_buffer rest (n - length bs)"
  by (simp add: eat_def pb_istream_from_buffer_def)

lemma reads_from_buffer:
  "reads F bs v \<Longrightarrow> length bs \<le> n \<Longrightarrow>
     F (pb_istream_from_buffer (bs @ rest) n) = (Some v, pb_istream_from_buffer rest (n - length bs))"
  by (simp add: readsD eat_from_buffer)

text \<open>
  C19. A 64-bit varint: what \<open>pb_encode_varint\<close> puts into a buffer of at least ten bytes,
  \<open>pb_decode_varint\<close> reads back, taking exactly those bytes.
\<close>

theorem varint_roundtrip:
  assumes "10 \<le> unat n"
  shows "\<exists>bs s. pb_encode_varint env (pb_ostream_from_buffer n) v = (True, s) \<and> osink s = Out_buf bs \<and>
    1 \<le> length bs \<and> length bs \<le> 10 \<and>
    (\<forall>rest k. length bs \<le> k \<longrightarrow>
       pb_decode_varint denv (pb_istream_from_buffer (bs @ rest) k) =
         (Some v, pb_istream_from_buffer rest (k - length bs)))"
proof -
  have "length (varint_bytes (unat v)) \<le> unat n" using assms length_varint_bytes_u64 [of v] by simp
  from emits_to_buffer [OF pb_encode_varint_emits this, of env] show ?thesis
    using length_varint_bytes_u64 [of v] varint_bytes_nonempty [of "unat v"]
    by (auto simp: reads_from_buffer [OF pb_decode_varint_reads] Suc_le_eq)
qed

theorem varint_roundtrip_witness:
  "\<exists>bs s. pb_encode_varint plain_enc (pb_ostream_from_buffer 10) 300 = (True, s) \<and> osink s = Out_buf bs \<and>
    fst (pb_decode_varint plain_dec (pb_istream_from_buffer (bs @ [7]) (length bs + 1))) = Some 300"
  using varint_roundtrip [of 10 plain_enc 300 plain_dec] by force

text \<open>
  A 32-bit value is written as the varint of its unsigned value, and \<open>pb_decode_varint32\<close> reads it
  back from there.
\<close>

theorem varint32_roundtrip:
  assumes "length (varint_bytes (unat v)) \<le> k"
  shows "fst (pb_encode_varint env (pb_ostream_from_buffer 10) (ucast (v :: u32))) = True \<and>
    osink (snd (pb_encode_varint env (pb_ostream_from_buffer 10) (ucast v))) = Out_buf (varint_bytes (unat v)) \<and>
    pb_decode_varint32 denv (pb_istream_from_buffer (varint_bytes (unat v) @ rest) k) =
      (Some v, pb_istream_from_buffer rest (k - length (varint_bytes (unat v))))"
proof -
  have u: "unat (ucast v :: u64) = unat v" using unat_less [of v] by (simp add: unat_ucast)
  then have "length (varint_bytes (unat v)) \<le> unat (10 :: u64)"
    using length_varint_bytes_u64 [of "ucast v"] by simp
  from emits_to_buffer [OF pb_encode_varint_emits, of "ucast v", unfolded u, OF this, of env]
  show ?thesis using assms by (simp add: reads_from_buffer [OF pb_decode_varint32_reads_u32])
qed

theorem varint32_roundtrip_witness:
  "fst (pb_decode_varint32 plain_dec (pb_istream_from_buffer (varint_bytes (unat (70000 :: u32)) @ []) 3)) = Some 70000"
  using varint32_roundtrip [of 70000 3 plain_enc plain_dec "[]"] by (simp add: varint_bytes.simps)

text \<open>Zigzag values, negative ones included, come back from \<open>pb_decode_svarint\<close>.\<close>

theorem svarint_roundtrip:
  assumes "10 \<le> unat n"
  shows "\<exists>bs s. pb_encode_svarint env (pb_ostream_from_buffer n) v = (True, s) \<and> osink s = Out_buf bs \<and>
    length bs \<le> 10 \<and>
    (\<forall>rest k. length bs \<le> k \<longrightarrow>
       pb_decode_svarint denv (pb_istream_from_buffer (bs @ rest) k) =
         (Some v, pb_istream_from_buffer rest (k - length bs)))"
proof -
  have "length (varint_bytes (unat (zigzag v))) \<le> unat n"
    using assms length_varint_bytes_u64 [of "zigzag v"] by simp
  from emits_to_buffer [OF pb_encode_svarint_emits this, of env] show ?thesis
    using length_varint_bytes_u64 [of "zigzag v"]
    by (auto simp: reads_from_buffer [OF pb_decode_svarint_reads])
qed

theorem svarint_roundtrip_witness:
  "\<exists>bs s. pb_encode_svarint plain_enc (pb_ostream_from_buffer 10) (- 3) = (True, s) \<and> osink s = Out_buf bs \<and>
    fst (pb_decode_svarint plain_dec (pb_istream_from_buffer bs (length bs))) = Some (- 3)"
proof -
  have "10 \<le> unat (10 :: u64)" by simp
  from svarint_roundtrip [OF this, of plain_enc "- 3" plain_dec] obtain bs s where
    s: "pb_encode_svarint plain_enc (pb_ostream_from_buffer 10) (- 3) = (True, s)" "osink s = Out_buf bs" and
    d: "\<forall>rest k. length bs \<le> k \<longrightarrow> pb_decode_svarint plain_dec (pb_istream_from_buffer (bs @ rest) k) =
         (Some (- 3), pb_istream_from_buffer rest (k - length bs))" by blast
  from d have "pb_decode_svarint plain_dec (pb_istream_from_buffer (bs @ []) (length bs)) =
      (Some (- 3), pb_istream_from_buffer [] (length bs - length bs))" by blast
  with s show ?thesis by auto
qed

text \<open>C20. Fixed-width values travel as their little-endian bytes and come back unchanged.\<close>

theorem fixed_roundtrip:
  "pb_decode_fixed32 denv (pb_istream_from_buffer (to_le 4 (unat v) @ rest) (4 + k)) =
     (Some v, pb_istream_from_buffer rest k) \<and>
   osink (snd (pb_encode_fixed32 env (pb_ostream_from_buffer 8) v)) = Out_buf (to_le 4 (unat v)) \<and>
   pb_decode_fixed64 denv (pb_istream_from_buffer (to_le 8 (unat w) @ rest) (8 + k)) =
     (Some w, pb_istream_from_buffer rest k) \<and>
   osink (snd (pb_encode_fixed64 env (pb_ostream_from_buffer 8) w)) = Out_buf (to_le 8 (unat w))"
  using reads_from_buffer [OF pb_decode_fixed32_reads, of v "4 + k" denv rest]
    reads_from_buffer [OF pb_decode_fixed64_reads, of w "8 + k" denv rest]
    emits_to_buffer [OF pb_encode_fixed32_emits, of v 8 env]
    emits_to_buffer [OF pb_encode_fixed64_emits, of w 8 env]
  by (simp add: fixed32_bytes_le fixed64_bytes_le)

text \<open>
  C21. A tag with a field number that protocol buffers allows (1 to 2^29 - 1) and a three-bit wire
  type comes back from \<open>pb_decode_tag\<close>, without the end-of-message flag.
\<close>

theorem tag_roundtrip:
  assumes "unat wt < 8" "unat fn < 2 ^ 29" "fn \<noteq> 0"
  shows "\<exists>bs. bs \<noteq> [] \<and> osink (snd (pb_encode_tag env (pb_ostream_from_buffer 10) wt fn)) = Out_buf bs \<and>
    (\<forall>rest k. length bs \<le> k \<longrightarrow>
      pb_decode_tag denv (pb_istream_from_buffer (bs @ rest) k) =
        (Some (wt, fn), False, pb_istream_from_buffer rest (k - length bs)))"
proof -
  have "length (tag_bytes wt fn) \<le> unat (10 :: u64)"
    using length_varint_bytes_u64 [of "tag_word wt fn"] by (simp add: tag_bytes_def)
  note w = emits_to_buffer [OF pb_encode_tag_emits this, of env]
  have "pb_decode_tag denv (pb_istream_from_buffer (tag_bytes wt fn @ rest) k) =
      (Some (wt, fn), False, pb_istream_from_buffer rest (k - length (tag_bytes wt fn)))"
    if "length (tag_bytes wt fn) \<le> k" for rest k
    using pb_decode_tag_reads [OF assms, of "pb_istream_from_buffer (tag_bytes wt fn @ rest) k" denv] that
    by (simp add: eat_from_buffer)
  moreover have "tag_bytes wt fn \<noteq> []" by (simp add: tag_bytes_def)
  ultimately show ?thesis using w by (intro exI [of _ "tag_bytes wt fn"]) simp
qed

theorem tag_roundtrip_witness:
  "\<exists>bs. bs \<noteq> [] \<and> osink (snd (pb_encode_tag plain_enc (pb_ostream_from_buffer 10) PB_WT_STRING 1000)) = Out_buf bs"
  using tag_roundtrip [of PB_WT_STRING 1000 plain_enc plain_dec] by auto

text \<open>
  C22. Skipping an unknown field consumes exactly the bytes its value occupies, for each of the four
  wire types; any other wire type is an error that consumes nothing.
\<close>

theorem skip_field:
  "(wire_value wt bs \<longrightarrow> length bs \<le> k \<longrightarrow>
      pb_skip_field denv (pb_istream_from_buffer (bs @ rest) k) wt =
        (True, pb_istream_from_buffer rest (k - length bs))) \<and>
   (wt \<notin> {PB_WT_VARINT, PB_WT_64BIT, PB_WT_STRING, PB_WT_32BIT} \<longrightarrow>
      pb_skip_field denv s wt = (False, istream_error s ''invalid wire_type''))"
  using skipsD [OF pb_skip_field_skips, of wt bs "pb_istream_from_buffer (bs @ rest) k" denv]
  by (auto simp: eat_from_buffer pb_skip_field_def)

theorem skip_field_witness:
  "pb_skip_field plain_dec (pb_istream_from_buffer [2, 8, 9, 42] 4) PB_WT_STRING =
     (True, pb_istream_from_buffer [42] 1)"
proof -
  have "wire_value PB_WT_STRING [2, 8, 9]"
    using wire_value.string [of "[8, 9]"] by (simp add: varint_bytes_small)
  then show ?thesis
    using skip_field [of PB_WT_STRING "[2, 8, 9]" 4 plain_dec "[42]" "pb_istream_from_buffer [] 0"] by simp
qed

text \<open>
  C23. A substream lies inside its parent: its limit and what the parent keeps add up to no more than
  what the parent had, and closing it, whatever its reader left unread, puts the parent right behind
  it.
\<close>

theorem substream_inside:
  assumes "pb_make_string_substream env s = (Some sub, s1)" "consumes sub sub'"
    "pb_close_string_substream env s1 sub' = (True, s2)"
  shows "bytes_left sub + bytes_left s1 \<le> bytes_left s \<and> bytes_left s2 = bytes_left s1 \<and> consumes s s2"
  using assms substream_consumes [OF assms] pb_make_string_substream_less(1) [OF assms(1)]
  by (auto simp: pb_close_string_substream_def split: if_splits prod.splits bool.splits)

theorem substream_inside_witness:
  "\<exists>sub s1 s2. pb_make_string_substream plain_dec (pb_istream_from_buffer [2, 8, 9, 42] 4) = (Some sub, s1) \<and>
    pb_close_string_substream plain_dec s1 sub = (True, s2) \<and> bytes_left s2 = bytes_left s1 \<and>
    consumes (pb_istream_from_buffer [2, 8, 9, 42] 4) s2"
proof -
  let ?s = "pb_istream_from_buffer [2, 8, 9, 42] 4 :: unit pb_istream_t"
  have "starts_with ?s (varint_bytes (length [8, 9 :: byte]) @ [8, 9])"
    by (simp add: varint_bytes_small starts_with_def pb_istream_from_buffer_def)
  from pb_make_string_substream_reads(1) [OF this, of plain_dec]
  obtain sub s1 where sub: "pb_make_string_substream plain_dec ?s = (Some sub, s1)"
    "isource sub = In_buf [8, 9, 42]" "bytes_left sub = 2"
    by (auto simp: varint_bytes_small eat_def pb_istream_from_buffer_def)
  then obtain s2 where "pb_close_string_substream plain_dec s1 sub = (True, s2)"
    by (simp add: pb_close_string_substream_def pb_read_null_buf)
  with substream_inside [OF sub(1) consumes_refl this] sub(1) show ?thesis by blast
qed

section \<open>Descriptors and the field iterator\<close>

text \<open>
  C24. From any field of a message, \<open>pb_field_iter_find\<close> finds a field exactly when there is one with
  the tag that is not an extension range, stands then at such a field with its addresses, and
  otherwise is back where it started.
\<close>

theorem find_field:
  assumes "k < nfields fs" "pb_field_iter_find (iter_at fs dest k) tag = (found, it)"
  shows "(found \<longleftrightarrow> (\<exists>i < nfields fs. field_matches tag (field_at fs i))) \<and>
    (found \<longrightarrow> iter_pos it < nfields fs \<and> it = iter_at fs dest (iter_pos it) \<and>
       field_matches tag (iter_field it)) \<and>
    (\<not> found \<longrightarrow> it = iter_at fs dest k)"
  using find_iter_at_cases [OF assms(1), of tag dest] assms(2) by auto

theorem find_field_witness:
  "\<exists>it. pb_field_iter_find (iter_at gdt_cct_QosTierConfiguration_fields 16 0) 3 = (True, it) \<and>
    f_tag (iter_field it) = 3 \<and> pData it = 28"
proof -
  let ?fs = gdt_cct_QosTierConfiguration_fields
  have n: "nfields ?fs = 2" and t: "field_matches 3 (field_at ?fs 1)" "\<not> field_matches 3 (field_at ?fs 0)"
    by (simp_all add: gdt_cct_QosTierConfiguration_fields_eq nfields_def field_at_def field_matches_def)
  obtain b it where f: "pb_field_iter_find (iter_at ?fs 16 0) 3 = (b, it)" by fastforce
  have "0 < nfields ?fs" by (simp add: n)
  note r = find_field [OF this f]
  from r n t(1) have "b" by auto
  with r have it: "iter_pos it < 2" "it = iter_at ?fs 16 (iter_pos it)" "field_matches 3 (iter_field it)"
    by (simp_all add: n)
  then have "iter_field it = field_at ?fs (iter_pos it)" by (metis iter_at_fields(7))
  with it t(2) have "iter_pos it = 1" by (cases "iter_pos it = 0") auto
  with it have "pData it = field_addr ?fs 16 1" by (metis iter_at_fields(4))
  then have "pData it = 28"
    by (simp add: gdt_cct_QosTierConfiguration_fields_eq field_at_def shares_union_def prev_field_size_def)
  with f \<open>b\<close> it(3) show ?thesis by (auto simp: field_matches_def)
qed

text \<open>
  C26. For each of the ten generated messages, the addresses the iterator computes from the relative
  offsets in the descriptors are the addresses of the C struct's members: the field itself, and its
  \<open>has_\<close> flag or \<open>_count\<close>.
\<close>

theorem descriptor_addresses:
  assumes "(st, fs, ms) \<in> set messages" "k < length fs"
  shows "pData (iter_at fs dest k) = dest + offsetof st (ms ! k) \<and>
    pSize (iter_at fs dest k) = dest + offsetof st (size_member_name (fs ! k) (ms ! k))"
  using message_field_addr [OF assms] message_size_addr [OF assms] by simp

theorem descriptor_addresses_witness:
  "pData (iter_at gdt_cct_LogResponse_fields 1000 1) = 1000 + 24"
proof -
  have "(gdt_cct_LogResponse, gdt_cct_LogResponse_fields,
      [''next_request_wait_millis'', ''qos_tier'']) \<in> set messages"
    by (simp add: messages_def)
  from descriptor_addresses [OF this, of 1 1000] show ?thesis
    by (simp add: gdt_cct_LogResponse_fields_eq)
qed

lemma encoded_size_le:
  assumes "message_bytes d m fs src = Some bs" "length bs \<le> 13"
  shows "\<exists>n \<le> 13. pb_get_encoded_size d env m fs src = Some (Some n)"
proof -
  have "(of_nat (length bs) :: u64) \<le> 13" using assms(2) by (simp add: word_le_nat_alt unat_of_nat)
  moreover have "pb_get_encoded_size d env m fs src = Some (Some (of_nat (length bs)))"
    using pb_get_encoded_size_bytes [OF assms(1)] assms(2) by simp
  ultimately show ?thesis by blast
qed

text \<open>
  C27. The announced maximum \<open>gdt_cct_NetworkConnectionInfo_size\<close> (13) holds for every value of the
  network type, negative ones included, as long as the mobile subtype is one of the enumeration's values
  (at most \<open>COMBINED\<close>, 100).
\<close>

theorem network_connection_info_max_size:
  assumes "src \<noteq> 0"
    "load_word m (src + 12) \<le> gdt_cct_NetworkConnectionInfo_MobileSubtype_COMBINED"
  shows "\<exists>n \<le> 13. pb_get_encoded_size (Suc d) env m gdt_cct_NetworkConnectionInfo_fields src = Some (Some n)"
proof -
  have "unat (load_word m (src + 12) :: 32 word) < 128"
    using assms(2) by (simp add: gdt_cct_NetworkConnectionInfo_MobileSubtype_COMBINED_def word_le_nat_alt)
  then have le: "length (int32_bytes 0x08 m src @ uint32_bytes 0x10 m (src + 8)) \<le> 13" (is "length ?bs \<le> _")
    using length_int32_bytes [of "0x08" m src] length_uint32_bytes [of m "src + 8" "0x10"]
    by (simp add: add.assoc)
  then show ?thesis by (rule encoded_size_le [OF NetworkConnectionInfo_bytes [OF assms(1)]])
qed

theorem network_connection_info_max_size_witness:
  "\<exists>n \<le> 13. pb_get_encoded_size 1 plain_enc connection_mem gdt_cct_NetworkConnectionInfo_fields 1000 = Some (Some n)"
  using network_connection_info_max_size [of 1000 connection_mem 0 plain_enc]
  by (simp add: connection_members gdt_cct_NetworkConnectionInfo_MobileSubtype_COMBINED_def)

text \<open>The same for \<open>gdt_cct_QosTierConfiguration_size\<close> (13) and QoS tiers up to \<open>NEVER\<close> (4).\<close>

theorem qos_tier_configuration_max_size:
  assumes "src \<noteq> 0" "load_word m (src + 4) \<le> gdt_cct_QosTierConfiguration_QosTier_NEVER"
  shows "\<exists>n \<le> 13. pb_get_encoded_size (Suc d) env m gdt_cct_QosTierConfiguration_fields src = Some (Some n)"
proof -
  have "unat (load_word m (src + 4) :: 32 word) < 128"
    using assms(2) by (simp add: gdt_cct_QosTierConfiguration_QosTier_NEVER_def word_le_nat_alt)
  then have le: "length (uint32_bytes 0x10 m src @ int32_bytes 0x18 m (src + 8)) \<le> 13" (is "length ?bs \<le> _")
    using length_int32_bytes [of "0x18" m "src + 8"] length_uint32_bytes [of m src "0x10"] by simp
  then show ?thesis by (rule encoded_size_le [OF QosTierConfiguration_bytes [OF assms(1)]])
qed

theorem qos_tier_configuration_max_size_witness:
  "\<exists>n \<le> 13. pb_get_encoded_size 1 plain_enc zero_mem gdt_cct_QosTierConfiguration_fields 16 = Some (Some n)"
  using qos_tier_configuration_max_size [of 16 zero_mem 0 plain_enc]
  by (simp add: zero_mem_def load_word_def load_bytes_def gdt_cct_QosTierConfiguration_QosTier_NEVER_def upt_rec)

end
